(* ===== verification/Prelude.thy ===== *)
theory Prelude
  imports Main "HOL-Library.Word" "HOL-Library.Multiset" "HOL-Library.Monad_Syntax"
begin

text \<open>
  The part of the C language and of its standard library that every component uses.

  A C operation is a HOL function into \<open>'a option\<close>. \<open>None\<close> is undefined behaviour (a NULL or
  dangling dereference, an access outside an array, the read of an indeterminate value, signed
  overflow, a division by zero) or a loop that does not end; \<open>Some r\<close> is a normal return. The
  error returns of the source (0, -1, NULL) are ordinary values of \<open>r\<close>. So a theorem
  \<open>f x = Some r\<close> says that the call returns, that it is free of undefined behaviour, and what it
  returns.

  \<^item> Signed ints are \<open>int\<close>; every sum and product the source computes passes through \<open>c_int\<close>.
    Unsigned integers are words.
  \<^item> A pointer is an \<open>addr option\<close> (\<open>None\<close> is NULL), a heap is a map from addresses to structs.
  \<^item> The result of malloc is an argument of the operation that calls it: \<open>None\<close> for a failed
    allocation and \<open>Some a\<close> for the address \<open>a\<close>, or a bool where the address plays no role.
  \<^item> An array of C values is a list of optional values, \<open>None\<close> marking a cell that was allocated
    but never written.
\<close>

named_theorems c_sem "unfolding rules of the language-level operations"

type_synonym u8 = "8 word"
type_synonym u16 = "16 word"
type_synonym u32 = "32 word"
type_synonym u64 = "64 word"
type_synonym addr = nat
type_synonym ptr = "addr option"
type_synonym 'c heap = "addr \<Rightarrow> 'c option"
type_synonym 'a cmp_func = "'a \<Rightarrow> 'a \<Rightarrow> int"

abbreviation NULL :: ptr where "NULL \<equiv> None"


section \<open>Signed integers\<close>

definition INT_MAX :: int where
  "INT_MAX = 2147483647"

definition INT_MIN :: int where
  "INT_MIN = - 2147483648"

definition c_int :: "int \<Rightarrow> int option" where
  "c_int x = (if INT_MIN \<le> x \<and> x \<le> INT_MAX then Some x else None)"

lemma c_int_Some [simp]: "INT_MIN \<le> x \<Longrightarrow> x \<le> INT_MAX \<Longrightarrow> c_int x = Some x"
  by (simp add: c_int_def)

lemma c_int_eq_Some_iff: "c_int x = Some y \<longleftrightarrow> y = x \<and> INT_MIN \<le> x \<and> x \<le> INT_MAX"
  by (auto simp: c_int_def)

lemma INT_MIN_le_nonneg [simp]: "0 \<le> x \<Longrightarrow> INT_MIN \<le> x"
  by (simp add: INT_MIN_def)

lemma c_int_nonneg [simp]: "0 \<le> x \<Longrightarrow> x \<le> INT_MAX \<Longrightarrow> c_int x = Some x"
  by simp

lemmas c_int_bounds = INT_MAX_def INT_MIN_def

text \<open>Division truncates towards zero.\<close>

definition c_div :: "int \<Rightarrow> int \<Rightarrow> int option" where
  "c_div a b = (if b = 0 then None else c_int (sgn a * sgn b * (\<bar>a\<bar> div \<bar>b\<bar>)))"

lemma c_div_nonneg: "0 \<le> a \<Longrightarrow> a \<le> INT_MAX \<Longrightarrow> 0 < b \<Longrightarrow> c_div a b = Some (a div b)"
proof -
  assume a: "0 \<le> a" "a \<le> INT_MAX" "0 < b"
  then have "0 \<le> a div b" by (simp add: pos_imp_zdiv_nonneg_iff)
  moreover have "a div b \<le> a" using a zdiv_mono2[of a 1 b] by simp
  ultimately show ?thesis using a by (cases "a = 0") (auto simp: c_div_def sgn_if)
qed


lemma mod_wrap_once:
  "a < S \<Longrightarrow> b \<le> S \<Longrightarrow> (a + b) mod S = (if a + b < S then a + b else a + b - S)" for a b S :: nat
  by (simp add: mod_if)


section \<open>Undefined behaviour as None\<close>

declare Option.bind_cong [fundef_cong]

definition guard :: "bool \<Rightarrow> unit option" where
  "guard b = (if b then Some () else None)"

lemma guard_simps [simp]: "guard True = Some ()" "guard False = None"
  by (simp_all add: guard_def)

lemma guard_eq_Some [simp]: "guard b = Some u \<longleftrightarrow> b"
  by (simp add: guard_def)


section \<open>Byte and value arrays\<close>

text \<open>
  \<open>mem_read xs i n\<close> reads \<open>n\<close> consecutive elements, \<open>mem_write xs i ys\<close> overwrites consecutive elements
  (memcpy and memmove into an array); both are undefined outside the array.
\<close>

definition mem_read :: "'a list \<Rightarrow> nat \<Rightarrow> nat \<Rightarrow> 'a list option" where
  "mem_read xs i n = (if i + n \<le> length xs then Some (take n (drop i xs)) else None)"

definition mem_write :: "'a list \<Rightarrow> nat \<Rightarrow> 'a list \<Rightarrow> 'a list option" where
  "mem_write xs i ys =
     (if i + length ys \<le> length xs then Some (take i xs @ ys @ drop (i + length ys) xs) else None)"

lemma mem_read_Some [simp]: "i + n \<le> length xs \<Longrightarrow> mem_read xs i n = Some (take n (drop i xs))"
  by (simp add: mem_read_def)

lemma mem_write_Some [simp]:
  "i + length ys \<le> length xs \<Longrightarrow> mem_write xs i ys = Some (take i xs @ ys @ drop (i + length ys) xs)"
  by (simp add: mem_write_def)

lemma length_mem_write: "mem_write xs i ys = Some zs \<Longrightarrow> length zs = length xs"
  by (auto simp: mem_write_def split: if_splits)

lemma nth_mem_write_in:
  "i + length ys \<le> length xs \<Longrightarrow> i \<le> k \<Longrightarrow> k < i + length ys \<Longrightarrow>
   (take i xs @ ys @ drop (i + length ys) xs) ! k = ys ! (k - i)"
  by (subst nth_append, simp, subst nth_append, auto)

lemma nth_mem_write_out:
  "i + length ys \<le> length xs \<Longrightarrow> k < i \<or> i + length ys \<le> k \<Longrightarrow> k < length xs \<Longrightarrow>
   (take i xs @ ys @ drop (i + length ys) xs) ! k = xs ! k"
  by (auto simp: nth_append)

lemma mem_write_read_same:
  "i + length ys \<le> length xs \<Longrightarrow>
   take (length ys) (drop i (take i xs @ ys @ drop (i + length ys) xs)) = ys"
  by simp

text \<open>Arrays of values with an int index: a cell holds \<open>None\<close> until it is written.\<close>

type_synonym 'a array = "'a option list"

definition arr_get :: "'a array \<Rightarrow> int \<Rightarrow> 'a option" where
  "arr_get xs i = (if 0 \<le> i \<and> nat i < length xs then xs ! nat i else None)"

definition arr_set :: "'a array \<Rightarrow> int \<Rightarrow> 'a \<Rightarrow> 'a array option" where
  "arr_set xs i v = (if 0 \<le> i \<and> nat i < length xs then Some (xs[nat i := Some v]) else None)"

lemma arr_get_nth [simp]: "0 \<le> i \<Longrightarrow> nat i < length xs \<Longrightarrow> arr_get xs i = xs ! nat i"
  by (simp add: arr_get_def)

lemma arr_set_upd [simp]:
  "0 \<le> i \<Longrightarrow> nat i < length xs \<Longrightarrow> arr_set xs i v = Some (xs[nat i := Some v])"
  by (simp add: arr_set_def)

text \<open>
  \<open>arr_holds xs vs\<close>: the first cells of the array hold exactly the values \<open>vs\<close>.
\<close>

definition arr_holds :: "'a array \<Rightarrow> 'a list \<Rightarrow> bool" where
  "arr_holds xs vs \<longleftrightarrow> length vs \<le> length xs \<and> take (length vs) xs = map Some vs"

lemma arr_holds_length: "arr_holds xs vs \<Longrightarrow> length vs \<le> length xs"
  by (simp add: arr_holds_def)

lemma arr_holds_nth: "arr_holds xs vs \<Longrightarrow> i < length vs \<Longrightarrow> xs ! i = Some (vs ! i)"
  by (metis arr_holds_def length_map nth_map nth_take)

lemma arr_holds_get:
  "arr_holds xs vs \<Longrightarrow> 0 \<le> i \<Longrightarrow> i < int (length vs) \<Longrightarrow> arr_get xs i = Some (vs ! nat i)"
  using arr_holds_length[of xs vs] by (auto simp: arr_get_def nat_less_iff intro: arr_holds_nth)

lemma arr_holds_iff:
  "arr_holds xs vs \<longleftrightarrow> length vs \<le> length xs \<and> (\<forall>i < length vs. xs ! i = Some (vs ! i))"
  by (auto simp: arr_holds_def list_eq_iff_nth_eq)

lemma arr_holds_Nil [simp]: "arr_holds xs []"
  by (simp add: arr_holds_def)

lemma arr_holds_update:
  "arr_holds xs vs \<Longrightarrow> i < length vs \<Longrightarrow> arr_holds (xs[i := Some v]) (vs[i := v])"
  by (auto simp: arr_holds_iff nth_list_update)

lemma arr_holds_append_cells: "arr_holds xs vs \<Longrightarrow> arr_holds (xs @ ys) vs"
  by (simp add: arr_holds_def)

lemma arr_holds_take: "arr_holds xs vs \<Longrightarrow> arr_holds xs (take n vs)"
  by (auto simp: arr_holds_iff)


lemma mset_rotate1_eq [simp]: "mset (rotate1 xs) = mset xs"
  by (cases xs) auto

lemma arr_get_mid [simp]: "arr_get (pre @ c # post) (int (length pre)) = c"
  by (simp add: arr_get_def)

lemma arr_set_mid [simp]: "arr_set (pre @ c # post) (int (length pre)) v = Some (pre @ Some v # post)"
  by (simp add: arr_set_def)

lemma arr_get_at: "data = pre @ c # post \<Longrightarrow> i = int (length pre) \<Longrightarrow> arr_get data i = c"
  by simp

lemma arr_set_at:
  "data = pre @ c # post \<Longrightarrow> i = int (length pre) \<Longrightarrow> arr_set data i v = Some (pre @ Some v # post)"
  by simp

text \<open>memmove inside one array.\<close>

definition memmove :: "'a list \<Rightarrow> nat \<Rightarrow> nat \<Rightarrow> nat \<Rightarrow> 'a list option" where
  "memmove xs dst src n = do { ys \<leftarrow> mem_read xs src n; mem_write xs dst ys }"

text \<open>What a free function of a two-block structure releases, in order.\<close>

datatype block = DataBlock | StructBlock

text \<open>The entries of an array as the source sees them through a count of used cells.\<close>

lemma arr_holds_split: "arr_holds xs vs \<longleftrightarrow> (\<exists>post. xs = map Some vs @ post)"
  by (metis append_eq_conv_conj arr_holds_def length_append length_map le_add1)

end
