(* ===== verification/Cycle_Queue.thy ===== *)
theory Cycle_Queue
  imports Prelude
begin

text \<open>
  The ring buffer of \<open>src/src/data_struct/cycle_queue.c\<close>. A \<open>CycleQueue *\<close> is an option of the
  private record (\<open>None\<close> is NULL); the function pointers that \<open>cycle_queue_create\<close> stores in the
  handle are the four operations below, so \<open>thiz->get_free_size(thiz)\<close> is a direct call. All
  indices are 32-bit words, as \<open>uint32_t\<close> is.
\<close>

record CycleQueuePri =
  cq_head :: u32
  cq_tail :: u32
  cq_size :: u32
  cq_buf :: "u8 list"

definition cycle_queue_get_free_size :: "CycleQueuePri option \<Rightarrow> u32" where
  "cycle_queue_get_free_size thiz =
     (case thiz of
        None \<Rightarrow> - 1
      | Some pri \<Rightarrow>
          if cq_head pri = cq_tail pri then cq_size pri - 1
          else if cq_head pri > cq_tail pri then cq_size pri - (cq_head pri - cq_tail pri) - 1
          else cq_tail pri - cq_head pri - 1)"

definition cycle_queue_get_data_size :: "CycleQueuePri option \<Rightarrow> u32" where
  "cycle_queue_get_data_size thiz =
     (case thiz of
        None \<Rightarrow> - 1
      | Some pri \<Rightarrow>
          if cq_head pri \<ge> cq_tail pri then cq_head pri - cq_tail pri
          else cq_size pri - cq_tail pri + cq_head pri)"

text \<open>The two memcpy branches of the write: \<open>data\<close> is the memory the caller passed.\<close>

definition cycle_queue_copy_in :: "CycleQueuePri \<Rightarrow> u8 list \<Rightarrow> u32 \<Rightarrow> u8 list option" where
  "cycle_queue_copy_in pri data data_len =
     (if cq_head pri + data_len \<le> cq_size pri - 1
      then do {
        d \<leftarrow> mem_read data 0 (unat data_len);
        mem_write (cq_buf pri) (unat (cq_head pri)) d
      }
      else let part1 = cq_size pri - 1 - cq_head pri in do {
        d1 \<leftarrow> mem_read data 0 (unat part1);
        b \<leftarrow> mem_write (cq_buf pri) (unat (cq_head pri)) d1;
        d2 \<leftarrow> mem_read data (unat part1) (unat (data_len - part1));
        mem_write b 0 d2
      })"

definition cycle_queue_write ::
  "CycleQueuePri option \<Rightarrow> u8 list option \<Rightarrow> u32 \<Rightarrow> (int \<times> CycleQueuePri option) option" where
  "cycle_queue_write thiz data data_len =
     (case (thiz, data) of
        (Some pri, Some d) \<Rightarrow>
          if cycle_queue_get_free_size thiz < data_len then Some (-1, thiz)
          else do {
            b \<leftarrow> cycle_queue_copy_in pri d data_len;
            Some (0, Some (pri\<lparr>cq_buf := b,
                               cq_head := (cq_head pri + data_len) mod cq_size pri\<rparr>))
          }
      | _ \<Rightarrow> Some (-1, thiz))"

text \<open>The two memcpy branches of the read, into the caller's buffer \<open>buf\<close>.\<close>

definition cycle_queue_copy_out :: "CycleQueuePri \<Rightarrow> u8 list \<Rightarrow> u32 \<Rightarrow> u8 list option" where
  "cycle_queue_copy_out pri buf read_len =
     (if cq_tail pri + read_len \<le> cq_size pri - 1
      then do {
        d \<leftarrow> mem_read (cq_buf pri) (unat (cq_tail pri)) (unat read_len);
        mem_write buf 0 d
      }
      else let part1 = cq_size pri - 1 - cq_tail pri in do {
        d1 \<leftarrow> mem_read (cq_buf pri) (unat (cq_tail pri)) (unat part1);
        b \<leftarrow> mem_write buf 0 d1;
        d2 \<leftarrow> mem_read (cq_buf pri) 0 (unat (read_len - part1));
        mem_write b (unat part1) d2
      })"

text \<open>
  \<open>buf\<close> and \<open>buf_len\<close> are out-parameters: the result holds the return value, the queue, the
  caller's buffer and the length written back (\<open>None\<close> for a NULL \<open>buf_len\<close>).
\<close>

definition cycle_queue_read ::
  "CycleQueuePri option \<Rightarrow> u8 list option \<Rightarrow> u32 option \<Rightarrow>
   (int \<times> CycleQueuePri option \<times> u8 list option \<times> u32 option) option" where
  "cycle_queue_read thiz buf buf_len =
     (case (thiz, buf, buf_len) of
        (Some pri, Some b, Some n) \<Rightarrow>
          if n \<le> 0 then Some (-1, thiz, buf, buf_len)
          else let data_size = cycle_queue_get_data_size thiz in
            if data_size = 0 then Some (0, thiz, buf, Some 0)
            else let read_len = (if data_size < n then data_size else n) in do {
              b' \<leftarrow> cycle_queue_copy_out pri b read_len;
              Some (0, Some (pri\<lparr>cq_tail := (cq_tail pri + read_len) mod cq_size pri\<rparr>),
                    Some b', Some read_len)
            }
      | _ \<Rightarrow> Some (-1, thiz, buf, buf_len))"

text \<open>
  \<open>m1\<close> and \<open>m2\<close> are the results of the two malloc calls, \<open>live\<close> the set of blocks that are
  allocated and not freed.
\<close>

definition cycle_queue_create ::
  "ptr \<Rightarrow> ptr \<Rightarrow> u32 \<Rightarrow> addr set \<Rightarrow> CycleQueuePri option \<times> addr set" where
  "cycle_queue_create m1 m2 sz live =
     (if sz > 0 then
        (case m1 of
           None \<Rightarrow> (None, live)
         | Some a \<Rightarrow>
             (case m2 of
                None \<Rightarrow> (None, insert a live - {a})
              | Some b \<Rightarrow>
                  (Some \<lparr>cq_head = 0, cq_tail = 0, cq_size = sz, cq_buf = replicate (unat sz) 0\<rparr>,
                   insert b (insert a live))))
      else (None, live))"

definition cycle_queue_destroy :: "ptr \<Rightarrow> addr set \<Rightarrow> addr set" where
  "cycle_queue_destroy thiz live = (case thiz of None \<Rightarrow> live | Some a \<Rightarrow> live - {a})"


section \<open>Invariant and counters\<close>

text \<open>
  The bound on the size keeps \<open>head + data_len\<close> below \<open>2^32\<close>: beyond it the 32-bit sum wraps.
\<close>

definition cq_inv :: "CycleQueuePri \<Rightarrow> bool" where
  "cq_inv pri \<longleftrightarrow> 0 < unat (cq_size pri) \<and> unat (cq_size pri) \<le> 2 ^ 31 \<and>
     unat (cq_head pri) < unat (cq_size pri) \<and> unat (cq_tail pri) < unat (cq_size pri) \<and>
     length (cq_buf pri) = unat (cq_size pri)"

definition ring_used :: "nat \<Rightarrow> nat \<Rightarrow> nat \<Rightarrow> nat" where
  "ring_used t h s = (if t \<le> h then h - t else s - t + h)"

lemma ring_used_write:
  assumes "h < s" "t < s" "n \<le> s - 1 - ring_used t h s"
  shows "ring_used t ((h + n) mod s) s = ring_used t h s + n"
proof -
  have "n \<le> s" using assms by linarith
  then show ?thesis
    unfolding mod_wrap_once[OF assms(1) \<open>n \<le> s\<close>] using assms by (auto simp: ring_used_def split: if_splits)
qed

lemma ring_used_read:
  assumes "h < s" "t < s" "n \<le> ring_used t h s"
  shows "ring_used ((t + n) mod s) h s = ring_used t h s - n"
proof -
  have "n \<le> s" using assms by (auto simp: ring_used_def split: if_splits)
  then show ?thesis
    unfolding mod_wrap_once[OF assms(2) \<open>n \<le> s\<close>] using assms by (auto simp: ring_used_def split: if_splits)
qed

definition cq_used :: "CycleQueuePri \<Rightarrow> nat" where
  "cq_used pri = ring_used (unat (cq_tail pri)) (unat (cq_head pri)) (unat (cq_size pri))"

definition cq_contents :: "CycleQueuePri \<Rightarrow> u8 list" where
  "cq_contents pri =
     map (\<lambda>i. cq_buf pri ! ((unat (cq_tail pri) + i) mod unat (cq_size pri))) [0..<cq_used pri]"

lemma cq_used_less: "cq_inv pri \<Longrightarrow> cq_used pri < unat (cq_size pri)"
  by (auto simp: cq_inv_def cq_used_def ring_used_def)

lemma unat_sub_le: "b \<le> a \<Longrightarrow> unat (a - b) = unat a - unat b" for a b :: "'a::len word"
  by (rule unat_sub)

lemma unat_size_minus_1: "cq_inv pri \<Longrightarrow> unat (cq_size pri - 1) = unat (cq_size pri) - 1"
  by (subst unat_sub_le) (auto simp: cq_inv_def word_le_nat_alt)

lemma unat_data_size:
  assumes "cq_inv pri"
  shows "unat (cycle_queue_get_data_size (Some pri)) = cq_used pri"
proof -
  let ?h = "cq_head pri" and ?t = "cq_tail pri" and ?s = "cq_size pri"
  have le: "?t \<le> ?s" using assms by (simp add: cq_inv_def word_le_nat_alt)
  have "unat (?s - ?t + ?h) = unat ?s - unat ?t + unat ?h" if "unat ?h < unat ?t"
    using assms that le by (subst unat_add_lem[THEN iffD1]) (auto simp: cq_inv_def unat_sub_le)
  then show ?thesis
    by (auto simp: cycle_queue_get_data_size_def cq_used_def ring_used_def word_le_nat_alt unat_sub_le)
qed

lemma unat_free_size:
  assumes "cq_inv pri"
  shows "unat (cycle_queue_get_free_size (Some pri)) = unat (cq_size pri) - 1 - cq_used pri"
  using assms
  by (auto simp: cycle_queue_get_free_size_def cq_used_def ring_used_def cq_inv_def word_le_nat_alt
      word_less_nat_alt unat_sub_le unat_sub_if_size word_size word_unat_eq_iff)

lemma unat_index_add:
  fixes i n :: u32
  assumes "cq_inv pri" and "unat i < unat (cq_size pri)" and "unat n < unat (cq_size pri)"
  shows "unat (i + n) = unat i + unat n"
  using assms by (subst unat_add_lem[THEN iffD1]) (auto simp: cq_inv_def)

lemma unat_part1:
  assumes "cq_inv pri" and "unat i < unat (cq_size pri)"
  shows "unat (cq_size pri - 1 - i) = unat (cq_size pri) - 1 - unat i"
  using assms unat_size_minus_1[OF assms(1)]
  by (subst unat_sub_le) (auto simp: word_le_nat_alt)

text \<open>The two copy loops with natural-number indices, where nothing wraps around.\<close>

lemma copy_in_nat:
  assumes inv: "cq_inv pri" and fits: "unat n < unat (cq_size pri)"
    and H: "H = unat (cq_head pri)" and S: "S = unat (cq_size pri)"
  shows "cycle_queue_copy_in pri data n =
    (if H + unat n \<le> S - 1 then do { d \<leftarrow> mem_read data 0 (unat n); mem_write (cq_buf pri) H d }
     else do { d1 \<leftarrow> mem_read data 0 (S - 1 - H); b \<leftarrow> mem_write (cq_buf pri) H d1;
               d2 \<leftarrow> mem_read data (S - 1 - H) (unat n - (S - 1 - H)); mem_write b 0 d2 })"
proof -
  have h: "unat (cq_head pri) < unat (cq_size pri)" using inv by (simp add: cq_inv_def)
  have c: "cq_head pri + n \<le> cq_size pri - 1 \<longleftrightarrow> H + unat n \<le> S - 1"
    using unat_index_add[OF inv h fits] unat_size_minus_1[OF inv] H S
    by (simp add: word_le_nat_alt)
  have p: "unat (cq_size pri - 1 - cq_head pri) = S - 1 - H"
    using unat_part1[OF inv h] H S by simp
  have "unat (n - (cq_size pri - 1 - cq_head pri)) = unat n - (S - 1 - H)"
    if "\<not> H + unat n \<le> S - 1"
    using that p by (subst unat_sub_le) (auto simp: word_le_nat_alt)
  then show ?thesis using c p H by (auto simp: cycle_queue_copy_in_def Let_def)
qed

lemma copy_out_nat:
  assumes inv: "cq_inv pri" and fits: "unat n < unat (cq_size pri)"
    and T: "T = unat (cq_tail pri)" and S: "S = unat (cq_size pri)"
  shows "cycle_queue_copy_out pri buf n =
    (if T + unat n \<le> S - 1 then do { d \<leftarrow> mem_read (cq_buf pri) T (unat n); mem_write buf 0 d }
     else do { d1 \<leftarrow> mem_read (cq_buf pri) T (S - 1 - T); b \<leftarrow> mem_write buf 0 d1;
               d2 \<leftarrow> mem_read (cq_buf pri) 0 (unat n - (S - 1 - T)); mem_write b (S - 1 - T) d2 })"
proof -
  have t: "unat (cq_tail pri) < unat (cq_size pri)" using inv by (simp add: cq_inv_def)
  have c: "cq_tail pri + n \<le> cq_size pri - 1 \<longleftrightarrow> T + unat n \<le> S - 1"
    using unat_index_add[OF inv t fits] unat_size_minus_1[OF inv] T S
    by (simp add: word_le_nat_alt)
  have p: "unat (cq_size pri - 1 - cq_tail pri) = S - 1 - T"
    using unat_part1[OF inv t] T S by simp
  have "unat (n - (cq_size pri - 1 - cq_tail pri)) = unat n - (S - 1 - T)"
    if "\<not> T + unat n \<le> S - 1"
    using that p by (subst unat_sub_le) (auto simp: word_le_nat_alt)
  then show ?thesis using c p T by (auto simp: cycle_queue_copy_out_def Let_def)
qed

lemma unat_advance:
  assumes "cq_inv pri" and "unat i < unat (cq_size pri)" and "unat n < unat (cq_size pri)"
  shows "unat ((i + n) mod cq_size pri) = (unat i + unat n) mod unat (cq_size pri)"
  using unat_index_add[OF assms] by (simp add: unat_mod_distrib)

text \<open>
  The write on every accepted request: it returns 0, keeps the invariant, leaves tail and size
  alone and moves head.
\<close>

lemma copy_in_total:
  assumes "cq_inv pri" and "unat n < unat (cq_size pri)" and "unat n \<le> length data"
  shows "\<exists>b. cycle_queue_copy_in pri data n = Some b \<and> length b = unat (cq_size pri)"
  using assms unfolding copy_in_nat[OF assms(1,2) refl refl]
  by (auto simp: cq_inv_def mem_write_def)

lemma copy_out_total:
  assumes "cq_inv pri" and "unat n < unat (cq_size pri)" and "unat n \<le> length buf"
  shows "\<exists>b. cycle_queue_copy_out pri buf n = Some b \<and> length b = length buf"
  using assms unfolding copy_out_nat[OF assms(1,2) refl refl]
  by (auto simp: cq_inv_def mem_write_def)

lemma cq_write_ok:
  assumes inv: "cq_inv pri" and fits: "unat n \<le> unat (cq_size pri) - 1 - cq_used pri"
    and len: "unat n \<le> length data"
  obtains b pri' where "cycle_queue_copy_in pri data n = Some b"
    and "pri' = pri\<lparr>cq_buf := b, cq_head := (cq_head pri + n) mod cq_size pri\<rparr>"
    and "cycle_queue_write (Some pri) (Some data) n = Some (0, Some pri')"
    and "cq_inv pri'" and "cq_used pri' = cq_used pri + unat n"
    and "unat (cq_head pri') = (unat (cq_head pri) + unat n) mod unat (cq_size pri)"
proof -
  let ?S = "unat (cq_size pri)" and ?H = "unat (cq_head pri)" and ?T = "unat (cq_tail pri)"
  have n: "unat n < ?S" using inv fits cq_used_less[OF inv] by linarith
  obtain b where b: "cycle_queue_copy_in pri data n = Some b" "length b = ?S"
    using copy_in_total[OF inv n len] by blast
  define pri' where "pri' = pri\<lparr>cq_buf := b, cq_head := (cq_head pri + n) mod cq_size pri\<rparr>"
  have acc: "\<not> cycle_queue_get_free_size (Some pri) < n"
    using fits unat_free_size[OF inv] by (simp add: word_less_nat_alt)
  have H: "unat (cq_head pri') = (?H + unat n) mod ?S"
    using unat_advance[OF inv _ n] inv by (simp add: pri'_def cq_inv_def)
  have inv': "cq_inv pri'" using inv b(2) H by (auto simp: cq_inv_def pri'_def)
  have bounds: "?H < ?S" "?T < ?S" using inv by (auto simp: cq_inv_def)
  have "cq_used pri' = cq_used pri + unat n"
    using H ring_used_write[OF bounds fits[unfolded cq_used_def]] by (simp add: cq_used_def pri'_def)
  then show ?thesis using that[OF b(1) pri'_def _ inv' _ H] acc b
    by (auto simp: cycle_queue_write_def pri'_def)
qed

text \<open>The read on every request with data available.\<close>

lemma cq_read_ok:
  assumes inv: "cq_inv pri" and n: "0 < unat n" "unat n \<le> length out" and used: "0 < cq_used pri"
  obtains r b pri' where "cycle_queue_copy_out pri out r = Some b"
    and "pri' = pri\<lparr>cq_tail := (cq_tail pri + r) mod cq_size pri\<rparr>"
    and "cycle_queue_read (Some pri) (Some out) (Some n) = Some (0, Some pri', Some b, Some r)"
    and "unat r = min (cq_used pri) (unat n)"
    and "cq_inv pri'" and "cq_used pri' = cq_used pri - unat r"
    and "unat (cq_tail pri') = (unat (cq_tail pri) + unat r) mod unat (cq_size pri)"
proof -
  let ?S = "unat (cq_size pri)" and ?H = "unat (cq_head pri)" and ?T = "unat (cq_tail pri)"
  let ?d = "cycle_queue_get_data_size (Some pri)"
  define r where "r = (if ?d < n then ?d else n)"
  have r: "unat r = min (cq_used pri) (unat n)"
    using unat_data_size[OF inv] by (auto simp: r_def word_less_nat_alt)
  then have rS: "unat r < ?S" using cq_used_less[OF inv] by linarith
  obtain b where b: "cycle_queue_copy_out pri out r = Some b"
    using copy_out_total[OF inv rS, of out] r n(2) by fastforce
  define pri' where "pri' = pri\<lparr>cq_tail := (cq_tail pri + r) mod cq_size pri\<rparr>"
  have T: "unat (cq_tail pri') = (?T + unat r) mod ?S"
    using unat_advance[OF inv _ rS] inv by (simp add: pri'_def cq_inv_def)
  have inv': "cq_inv pri'" using inv T by (auto simp: cq_inv_def pri'_def)
  have bounds: "?H < ?S" "?T < ?S" using inv by (auto simp: cq_inv_def)
  have "unat r \<le> cq_used pri" using r by simp
  then have used': "cq_used pri' = cq_used pri - unat r"
    using T ring_used_read[OF bounds, of "unat r"] by (simp add: cq_used_def pri'_def)
  have "?d \<noteq> 0" "\<not> n \<le> 0" using used n unat_data_size[OF inv] by (auto simp: word_le_nat_alt)
  then have "cycle_queue_read (Some pri) (Some out) (Some n) = Some (0, Some pri', Some b, Some r)"
    using b by (simp add: cycle_queue_read_def pri'_def r_def Let_def del: word_le_0_iff)
  then show ?thesis using that[OF b pri'_def _ r inv' used' T] by blast
qed

text \<open>Without a wrap, writes append to the contents and reads remove a prefix of them.\<close>

lemma length_cq_contents [simp]: "length (cq_contents pri) = cq_used pri"
  by (simp add: cq_contents_def)

lemma nth_cq_contents:
  "i < cq_used pri \<Longrightarrow>
   cq_contents pri ! i = cq_buf pri ! ((unat (cq_tail pri) + i) mod unat (cq_size pri))"
  by (simp add: cq_contents_def)

lemma cq_index_outside:
  assumes "cq_inv pri" and "i < cq_used pri"
    and "n \<le> unat (cq_size pri) - 1 - cq_used pri"
  shows "(unat (cq_tail pri) + i) mod unat (cq_size pri) < unat (cq_head pri) \<or>
         unat (cq_head pri) + n \<le> (unat (cq_tail pri) + i) mod unat (cq_size pri)"
proof -
  have T: "unat (cq_tail pri) < unat (cq_size pri)" "i \<le> unat (cq_size pri)"
    using assms cq_used_less[of pri] by (auto simp: cq_inv_def)
  show ?thesis
    unfolding mod_wrap_once[OF T] using assms by (auto simp: cq_inv_def cq_used_def ring_used_def split: if_splits)
qed

lemma cq_index_head:
  assumes "cq_inv pri" and "unat (cq_head pri) + k < unat (cq_size pri)"
  shows "(unat (cq_tail pri) + (cq_used pri + k)) mod unat (cq_size pri) = unat (cq_head pri) + k"
proof -
  let ?S = "unat (cq_size pri)" and ?H = "unat (cq_head pri)" and ?T = "unat (cq_tail pri)"
  have "?T + (cq_used pri + k) = ?H + k \<or> ?T + (cq_used pri + k) = ?H + k + ?S"
    using assms by (auto simp: cq_inv_def cq_used_def ring_used_def)
  then show ?thesis using assms(2) by (metis mod_add_self2 mod_less)
qed

lemma cq_write_contents:
  assumes inv: "cq_inv pri" and fits: "unat n \<le> unat (cq_size pri) - 1 - cq_used pri"
    and len: "unat n \<le> length data" and nowrap: "unat (cq_head pri) + unat n \<le> unat (cq_size pri) - 1"
    and b: "cycle_queue_copy_in pri data n = Some b"
    and pri': "pri' = pri\<lparr>cq_buf := b, cq_head := (cq_head pri + n) mod cq_size pri\<rparr>"
    and used': "cq_used pri' = cq_used pri + unat n"
  shows "cq_contents pri' = cq_contents pri @ take (unat n) data"
proof (rule nth_equalityI)
  let ?S = "unat (cq_size pri)" and ?H = "unat (cq_head pri)" and ?T = "unat (cq_tail pri)"
  have S: "?H < ?S" "?T < ?S" "length (cq_buf pri) = ?S" using inv by (auto simp: cq_inv_def)
  have n: "unat n < ?S" using fits S by linarith
  have bb: "b = take ?H (cq_buf pri) @ take (unat n) data @ drop (?H + unat n) (cq_buf pri)"
    using b nowrap len S unfolding copy_in_nat[OF inv n refl refl] by (simp add: min_absorb2)
  fix i assume "i < length (cq_contents pri')"
  then have i: "i < cq_used pri + unat n" by (simp add: used')
  have c: "cq_contents pri' ! i = b ! ((?T + i) mod ?S)"
    using i used' by (simp add: nth_cq_contents pri')
  show "cq_contents pri' ! i = (cq_contents pri @ take (unat n) data) ! i"
  proof (cases "i < cq_used pri")
    case True
    then have "b ! ((?T + i) mod ?S) = cq_buf pri ! ((?T + i) mod ?S)"
      using cq_index_outside[OF inv True fits] nowrap len S
        nth_mem_write_out[of ?H "take (unat n) data" "cq_buf pri" "(?T + i) mod ?S"]
      unfolding bb by (simp add: min_absorb2)
    with True show ?thesis by (simp add: c nth_append nth_cq_contents)
  next
    case False
    define k where "k = i - cq_used pri"
    have k: "i = cq_used pri + k" "k < unat n" using False i by (auto simp: k_def)
    have "b ! (?H + k) = take (unat n) data ! k"
      using k nowrap len S unfolding bb by (simp add: nth_append min_absorb2)
    moreover have "(?T + i) mod ?S = ?H + k"
      using k nowrap S cq_index_head[OF inv, of k] by simp
    ultimately show ?thesis using k unfolding c by (simp add: nth_append)
  qed
qed (simp add: used' len min_absorb2)

lemma cq_read_contents:
  assumes inv: "cq_inv pri" and r: "unat r \<le> cq_used pri" "unat r \<le> length out"
    and nowrap: "unat (cq_tail pri) + unat r \<le> unat (cq_size pri) - 1"
    and b: "cycle_queue_copy_out pri out r = Some b"
    and pri': "pri' = pri\<lparr>cq_tail := (cq_tail pri + r) mod cq_size pri\<rparr>"
    and used': "cq_used pri' = cq_used pri - unat r"
    and T': "unat (cq_tail pri') = (unat (cq_tail pri) + unat r) mod unat (cq_size pri)"
  shows "take (unat r) b = take (unat r) (cq_contents pri) \<and> cq_contents pri' = drop (unat r) (cq_contents pri)"
proof -
  let ?S = "unat (cq_size pri)" and ?T = "unat (cq_tail pri)"
  have S: "?T < ?S" "length (cq_buf pri) = ?S" using inv by (auto simp: cq_inv_def)
  have rS: "unat r < ?S" using r cq_used_less[OF inv] by linarith
  have "b = take (unat r) (drop ?T (cq_buf pri)) @ drop (unat r) out"
    using b nowrap r S unfolding copy_out_nat[OF inv rS refl refl] by (simp add: min_absorb2)
  then have "take (unat r) b = take (unat r) (drop ?T (cq_buf pri))"
    using nowrap S by (simp add: min_absorb2)
  also have "\<dots> = take (unat r) (cq_contents pri)"
    using nowrap r S by (intro nth_equalityI) (auto simp: nth_cq_contents min_absorb2)
  finally have 1: "take (unat r) b = take (unat r) (cq_contents pri)" .
  have "(?T + unat r) mod ?S = ?T + unat r" using nowrap S by simp
  then have "cq_contents pri' = drop (unat r) (cq_contents pri)"
    using T' used' r by (intro nth_equalityI) (auto simp: nth_cq_contents pri' add.assoc)
  with 1 show ?thesis ..
qed


text \<open>
  Writing into an empty queue and reading it back use the same split point, so what one write
  stored is read back whole wherever head stands.
\<close>

lemma cq_split_roundtrip:
  assumes "h < s" "length buf = s" "n < s" "n \<le> length data" "n \<le> length out"
    and w: "(if h + n \<le> s - 1 then do { d \<leftarrow> mem_read data 0 n; mem_write buf h d }
        else do { d1 \<leftarrow> mem_read data 0 (s - 1 - h); b \<leftarrow> mem_write buf h d1;
                  d2 \<leftarrow> mem_read data (s - 1 - h) (n - (s - 1 - h)); mem_write b 0 d2 }) = Some b"
  shows "(if h + n \<le> s - 1 then do { d \<leftarrow> mem_read b h n; mem_write out 0 d }
        else do { d1 \<leftarrow> mem_read b h (s - 1 - h); o1 \<leftarrow> mem_write out 0 d1;
                  d2 \<leftarrow> mem_read b 0 (n - (s - 1 - h)); mem_write o1 (s - 1 - h) d2 })
    = Some (take n data @ drop n out)"
proof (cases "h + n \<le> s - 1")
  case True
  with assms show ?thesis by (auto simp: mem_write_def mem_read_def split: if_splits)
next
  case False
  define p where "p = s - 1 - h"
  have p: "p < n" "h + p + 1 = s" "n - p \<le> h" using False assms by (auto simp: p_def)
  let ?d1 = "take p data" and ?d2 = "take (n - p) (drop p data)"
  have b: "b = ?d2 @ drop (n - p) (take h buf) @ ?d1 @ drop (h + p) buf"
    using w False p assms by (auto simp: p_def[symmetric] mem_write_def mem_read_def)
  have "take p (drop h b) = ?d1" "take (n - p) b = ?d2" "length b = s"
    using p assms unfolding b by auto
  moreover have "?d1 @ ?d2 = take n data"
    using p by (metis le_add_diff_inverse less_imp_le take_add)
  ultimately show ?thesis
    unfolding p_def[symmetric] if_not_P[OF False]
    using p assms(1-5) by (auto simp: mem_write_def mem_read_def)
qed


section \<open>Properties\<close>

definition cq_demo :: CycleQueuePri where
  "cq_demo = \<lparr>cq_head = 5, cq_tail = 5, cq_size = 8, cq_buf = [0, 0, 0, 0, 0, 0, 0, 0]\<rparr>"

lemma cq_demo_inv: "cq_inv cq_demo" "cq_used cq_demo = 0"
  by (simp_all add: cq_inv_def cq_demo_def cq_used_def ring_used_def)

text \<open>C20: A write is accepted exactly when the data fits into the free space. An accepted write
  returns 0 without an access outside a buffer, keeps the invariant and moves exactly the written
  length from the free to the used counter; a refused write returns -1 and changes nothing. Free
  and used space always add up to the size less the one byte kept as a marker.\<close>

theorem cycle_queue_write_spec:
  assumes "cq_inv pri" and "unat n \<le> length data"
  shows "unat (cycle_queue_get_free_size (Some pri)) + unat (cycle_queue_get_data_size (Some pri))
           = unat (cq_size pri) - 1 \<and>
    (if n \<le> cycle_queue_get_free_size (Some pri) then
       (\<exists>pri'. cycle_queue_write (Some pri) (Some data) n = Some (0, Some pri') \<and> cq_inv pri' \<and>
         cq_size pri' = cq_size pri \<and> cq_tail pri' = cq_tail pri \<and>
         unat (cycle_queue_get_data_size (Some pri')) =
           unat (cycle_queue_get_data_size (Some pri)) + unat n \<and>
         unat (cycle_queue_get_free_size (Some pri')) =
           unat (cycle_queue_get_free_size (Some pri)) - unat n)
     else cycle_queue_write (Some pri) (Some data) n = Some (-1, Some pri))"
proof (cases "n \<le> cycle_queue_get_free_size (Some pri)")
  case True
  then have "unat n \<le> unat (cq_size pri) - 1 - cq_used pri"
    using unat_free_size[OF assms(1)] by (simp add: word_le_nat_alt)
  then obtain b pri' where w: "cycle_queue_write (Some pri) (Some data) n = Some (0, Some pri')"
    and pri': "pri' = pri\<lparr>cq_buf := b, cq_head := (cq_head pri + n) mod cq_size pri\<rparr>"
    and inv': "cq_inv pri'" and used': "cq_used pri' = cq_used pri + unat n"
    using cq_write_ok[OF assms(1) _ assms(2)] by blast
  have "cq_size pri' = cq_size pri" "cq_tail pri' = cq_tail pri" by (simp_all add: pri')
  then show ?thesis
    using True w inv' used' unat_free_size[OF assms(1)] unat_data_size[OF assms(1)]
      unat_free_size[OF inv'] unat_data_size[OF inv'] cq_used_less[OF assms(1)] by auto
next
  case False
  then show ?thesis
    using unat_free_size[OF assms(1)] unat_data_size[OF assms(1)] cq_used_less[OF assms(1)]
    by (auto simp: cycle_queue_write_def)
qed

theorem cycle_queue_write_spec_witness:
  "cq_inv cq_demo \<and> unat (4 :: u32) \<le> length [1, 2, 3, 4 :: u8] \<and>
   (\<exists>pri'. cycle_queue_write (Some cq_demo) (Some [1, 2, 3, 4]) 4 = Some (0, Some pri') \<and>
      unat (cycle_queue_get_free_size (Some pri')) = 3) \<and>
   cycle_queue_write (Some cq_demo) (Some [1, 2, 3, 4, 5, 6, 7, 8]) 8 = Some (-1, Some cq_demo)"
proof -
  have f: "cycle_queue_get_free_size (Some cq_demo) = 7"
    by (simp add: cycle_queue_get_free_size_def cq_demo_def)
  show ?thesis
    using cycle_queue_write_spec[OF cq_demo_inv(1), of 4 "[1, 2, 3, 4]"]
      cycle_queue_write_spec[OF cq_demo_inv(1), of 8 "[1, 2, 3, 4, 5, 6, 7, 8]"] cq_demo_inv f
    by auto
qed

text \<open>A queue with two bytes.\<close>

definition cq_demo2 :: CycleQueuePri where
  "cq_demo2 = \<lparr>cq_head = 3, cq_tail = 1, cq_size = 8, cq_buf = [0, 10, 20, 0, 0, 0, 0, 0]\<rparr>"

lemma cq_demo2_facts:
  "cq_inv cq_demo2" "cycle_queue_get_free_size (Some cq_demo2) = 5"
  "cycle_queue_get_data_size (Some cq_demo2) = 2" "cq_contents cq_demo2 = [10, 20]"
  by (simp_all add: cq_inv_def cq_demo2_def cycle_queue_get_free_size_def
      cycle_queue_get_data_size_def cq_contents_def cq_used_def ring_used_def upt_rec)

text \<open>C21: A read with a non-empty buffer returns 0 without an access outside a buffer, keeps the
  invariant, reports the smaller of the used space and the buffer length, and takes exactly that
  much out of the used counter; on an empty queue it reports length 0 and changes nothing.\<close>

theorem cycle_queue_read_spec:
  assumes "cq_inv pri" and "0 < unat n" and "unat n \<le> length out"
  shows "\<exists>pri' out' r. cycle_queue_read (Some pri) (Some out) (Some n) =
            Some (0, Some pri', Some out', Some r) \<and> cq_inv pri' \<and>
     unat r = min (unat (cycle_queue_get_data_size (Some pri))) (unat n) \<and>
     unat (cycle_queue_get_data_size (Some pri')) =
       unat (cycle_queue_get_data_size (Some pri)) - unat r \<and>
     (r = 0 \<longrightarrow> pri' = pri \<and> out' = out)"
proof (cases "cq_used pri = 0")
  case True
  then have "cycle_queue_get_data_size (Some pri) = 0"
    using unat_data_size[OF assms(1)] by (simp add: unat_eq_zero)
  moreover have "n \<noteq> 0" using assms(2) by auto
  ultimately have "cycle_queue_read (Some pri) (Some out) (Some n) = Some (0, Some pri, Some out, Some 0)"
    by (simp add: cycle_queue_read_def)
  then show ?thesis using assms(1) True unat_data_size[OF assms(1)] by auto
next
  case False
  then obtain r b pri' where
    "cycle_queue_read (Some pri) (Some out) (Some n) = Some (0, Some pri', Some b, Some r)"
    "unat r = min (cq_used pri) (unat n)" and inv': "cq_inv pri'"
    and "cq_used pri' = cq_used pri - unat r"
    using cq_read_ok[OF assms] by blast
  then show ?thesis
    using unat_data_size[OF assms(1)] unat_data_size[OF inv'] False assms(2) by force
qed

theorem cycle_queue_read_spec_witness:
  "cq_inv cq_demo2 \<and> 0 < unat (1 :: u32) \<and> unat (1 :: u32) \<le> length [7, 7 :: u8] \<and>
   (\<exists>pri' out'. cycle_queue_read (Some cq_demo2) (Some [7, 7]) (Some 1) = Some (0, Some pri', Some out', Some 1) \<and>
      unat (cycle_queue_get_data_size (Some pri')) = 1)"
proof -
  obtain pri' out' r where r: "cycle_queue_read (Some cq_demo2) (Some [7, 7]) (Some 1) = Some (0, Some pri', Some out', Some r)"
    "unat r = min (unat (cycle_queue_get_data_size (Some cq_demo2))) (unat (1 :: u32))"
    "unat (cycle_queue_get_data_size (Some pri')) = unat (cycle_queue_get_data_size (Some cq_demo2)) - unat r"
    using cycle_queue_read_spec[OF cq_demo2_facts(1), of 1 "[7, 7]"] by auto
  have "r = 1"
    using r(2) cq_demo2_facts(3) by (intro word_unat_eq_iff[THEN iffD2]) simp
  then show ?thesis
    using r cq_demo2_facts by simp
qed



text \<open>On an empty queue, wherever its indices stand, one accepted write followed by one read
  with a large enough buffer gives back exactly the bytes written and empties the queue again.\<close>

theorem cycle_queue_roundtrip:
  assumes "cq_inv pri" and "cycle_queue_get_data_size (Some pri) = 0"
    and "0 < unat n" and "unat n \<le> length data" and "n \<le> cycle_queue_get_free_size (Some pri)"
    and "unat n \<le> unat m" and "unat m \<le> length out"
  shows "\<exists>pri' pri''. cycle_queue_write (Some pri) (Some data) n = Some (0, Some pri') \<and>
     cycle_queue_read (Some pri') (Some out) (Some m) =
       Some (0, Some pri'', Some (take (unat n) data @ drop (unat n) out), Some n) \<and>
     cycle_queue_get_data_size (Some pri'') = 0 \<and> cq_inv pri''"
proof -
  have empty: "cq_used pri = 0" using assms(2) unat_data_size[OF assms(1)] by simp
  have fits: "unat n \<le> unat (cq_size pri) - 1 - cq_used pri"
    using assms(5) unat_free_size[OF assms(1)] by (simp add: word_le_nat_alt)
  have S: "unat (cq_head pri) < unat (cq_size pri)" "length (cq_buf pri) = unat (cq_size pri)"
    and th: "cq_tail pri = cq_head pri"
    using assms(1) empty by (auto simp: cq_inv_def cq_used_def ring_used_def word_unat_eq_iff split: if_splits)
  have nS: "unat n < unat (cq_size pri)" using fits S by linarith
  from cq_write_ok[OF assms(1) fits assms(4)] obtain b pri' where
    w: "cycle_queue_copy_in pri data n = Some b"
       "pri' = pri\<lparr>cq_buf := b, cq_head := (cq_head pri + n) mod cq_size pri\<rparr>"
       "cycle_queue_write (Some pri) (Some data) n = Some (0, Some pri')"
       "cq_inv pri'" "cq_used pri' = cq_used pri + unat n" by blast
  have "0 < unat m" "0 < cq_used pri'" using assms(3,6) w(5) by linarith+
  from cq_read_ok[OF w(4) this(1) assms(7) this(2)] obtain r b' pri'' where
    r: "cycle_queue_copy_out pri' out r = Some b'"
       "cycle_queue_read (Some pri') (Some out) (Some m) = Some (0, Some pri'', Some b', Some r)"
       "unat r = min (cq_used pri') (unat m)" "cq_inv pri''" "cq_used pri'' = cq_used pri' - unat r"
    by blast
  have rn: "r = n" using r(3) w(5) empty assms(6) by (simp add: word_unat_eq_iff)
  have "cycle_queue_copy_out pri' out n = Some (take (unat n) data @ drop (unat n) out)"
    using cq_split_roundtrip[OF S nS assms(4) _ w(1)[unfolded copy_in_nat[OF assms(1) nS refl refl]], of out]
      assms(6,7) w(2) nS th by (subst copy_out_nat[OF w(4) _ refl refl]) auto
  then have "b' = take (unat n) data @ drop (unat n) out" using r(1) rn by simp
  moreover have "cycle_queue_get_data_size (Some pri'') = 0"
    using unat_data_size[OF r(4)] r(5) w(5) empty rn by (simp add: unat_eq_zero)
  ultimately show ?thesis using w(3) r(2,4) rn by blast
qed

theorem cycle_queue_roundtrip_witness:
  "cq_inv cq_demo \<and>
   (\<exists>pri' pri''. cycle_queue_write (Some cq_demo) (Some [1, 2, 3, 4]) 4 = Some (0, Some pri') \<and>
      cycle_queue_read (Some pri') (Some [0, 0, 0, 0, 9]) (Some 5) =
        Some (0, Some pri'', Some [1, 2, 3, 4, 9], Some 4))"
  using cycle_queue_roundtrip[OF cq_demo_inv(1), of 4 "[1, 2, 3, 4]" 5 "[0, 0, 0, 0, 9]"] cq_demo_inv
  by (auto simp: cq_demo_def cycle_queue_get_free_size_def cycle_queue_get_data_size_def)

text \<open>The split point of a write that runs over the end of the buffer is one byte short: the
  bytes 1, 2, 3 written at index 5 of an 8-byte buffer go to the cells 5, 6 and 0 while head
  moves to 0, so the next accepted write of 9 destroys the byte 3 before it was read. Four bytes
  were accepted and the read of four bytes returns 1, 2, 9, 0.\<close>

theorem cycle_queue_wrap_overwrites:
  "\<exists>q1 q2 q3. cycle_queue_write (Some cq_demo) (Some [1, 2, 3]) 3 = Some (0, Some q1) \<and>
     cycle_queue_write (Some q1) (Some [9]) 1 = Some (0, Some q2) \<and>
     cycle_queue_read (Some q2) (Some [0, 0, 0, 0]) (Some 4) =
       Some (0, Some q3, Some [1, 2, 9, 0], Some 4)"
  by (simp add: cq_demo_def cycle_queue_write_def cycle_queue_read_def cycle_queue_copy_in_def
      cycle_queue_copy_out_def cycle_queue_get_free_size_def cycle_queue_get_data_size_def
      mem_read_def mem_write_def)

text \<open>Creating a queue and destroying it again leaks the byte buffer: only the handle is
  freed.\<close>

theorem cycle_queue_destroy_leaks:
  assumes "sz > 0" and "a \<noteq> b" and "a \<notin> live" and "b \<notin> live"
  shows "\<exists>q. cycle_queue_create (Some a) (Some b) sz live = (Some q, live \<union> {a, b}) \<and>
     cycle_queue_destroy (Some a) (live \<union> {a, b}) = live \<union> {b}"
  using assms by (auto simp: cycle_queue_create_def cycle_queue_destroy_def)

theorem cycle_queue_destroy_leaks_witness:
  "\<exists>q. cycle_queue_create (Some 1) (Some 2) 8 {} = (Some q, {} \<union> {1, 2}) \<and>
     cycle_queue_destroy (Some 1) ({} \<union> {1, 2}) = {} \<union> {2}"
  by (rule cycle_queue_destroy_leaks) simp_all

end
