(* ===== verification/Compare.thy ===== *)
theory Compare
  imports Prelude
begin

text \<open>
  The comparison functions of \<open>compare-int.c\<close>, \<open>compare-pointer.c\<close> and \<open>compare-string.c\<close>, and the
  contract that the sorting routines, the AVL tree and the heaps expect of a comparison function.
  An \<open>int *\<close> argument is represented by the int it points to, a bare location by its 64-bit address
  and a \<open>char *\<close> by the bytes from there on; a byte 0, or the end of the list, ends the string.
\<close>

unbundle bit_operations_syntax


section \<open>The contract of a comparison function\<close>

locale comparator =
  fixes cmp :: "'a cmp_func"
  assumes cmp_swap: "cmp x y < 0 \<longleftrightarrow> 0 < cmp y x"
    and cmp_trans: "cmp x y \<le> 0 \<Longrightarrow> cmp y z \<le> 0 \<Longrightarrow> cmp x z \<le> 0"
begin

lemma cmp_refl: "cmp x x = 0"
  using cmp_swap[of x x] by linarith

lemma cmp_not_less: "\<not> cmp x y < 0 \<longleftrightarrow> cmp y x \<le> 0"
  using cmp_swap[of x y] by linarith

lemma cmp_total: "cmp x y \<le> 0 \<or> cmp y x \<le> 0"
  using cmp_swap[of y x] by linarith

lemma cmp_eq_sym: "cmp x y = 0 \<longleftrightarrow> cmp y x = 0"
  using cmp_swap[of x y] cmp_swap[of y x] by linarith

lemma cmp_less_trans1: "cmp x y < 0 \<Longrightarrow> cmp y z \<le> 0 \<Longrightarrow> cmp x z < 0"
  using cmp_trans[of z x y] cmp_trans[of y z x] cmp_not_less by (meson order_less_imp_le not_less)

lemma cmp_less_trans2: "cmp x y \<le> 0 \<Longrightarrow> cmp y z < 0 \<Longrightarrow> cmp x z < 0"
  using cmp_not_less cmp_trans by blast

lemma cmp_eq_cong: "cmp x y = 0 \<Longrightarrow> cmp z x \<le> 0 \<longleftrightarrow> cmp z y \<le> 0"
  using cmp_trans[of z x y] cmp_trans[of z y x] cmp_eq_sym[of x y] by auto

lemma cmp_eq_cong_less: "cmp x y = 0 \<Longrightarrow> cmp z x < 0 \<longleftrightarrow> cmp z y < 0"
  using cmp_eq_sym[of x y] cmp_less_trans1 cmp_less_trans2 by (metis order_refl)

text \<open>What quicksort and the search trees assemble from their two halves.\<close>

lemma sorted_pivot:
  assumes "sorted_wrt (\<lambda>x y. cmp x y \<le> 0) ls" and "sorted_wrt (\<lambda>x y. cmp x y \<le> 0) rs"
    and "\<And>x. x \<in> set ls \<Longrightarrow> cmp x p < 0" and "\<And>x. x \<in> set rs \<Longrightarrow> \<not> cmp x p < 0"
  shows "sorted_wrt (\<lambda>x y. cmp x y \<le> 0) (ls @ p # rs)"
proof -
  have "cmp x y \<le> 0" if "x \<in> set ls" "y \<in> set rs" for x y
    using assms(3)[OF that(1)] assms(4)[OF that(2)] cmp_not_less cmp_trans
    by (meson order_less_imp_le)
  then show ?thesis using assms cmp_not_less
    by (auto simp: sorted_wrt_append order_less_imp_le)
qed

end

text \<open>
  The heaps negate the result of the comparison function, so it must not be \<open>INT_MIN\<close>.
\<close>

locale bounded_comparator = comparator +
  assumes cmp_bounds: "INT_MIN < cmp x y \<and> cmp x y \<le> INT_MAX"
begin

lemma c_int_neg_cmp: "c_int (- cmp x y) = Some (- cmp x y)"
  using cmp_bounds[of x y] by (auto simp: c_int_def c_int_bounds)

text \<open>The order a max-heap uses is a comparison function again.\<close>

lemma neg_bounded: "bounded_comparator (\<lambda>x y. - cmp x y)"
proof
  show "- cmp x y < 0 \<longleftrightarrow> 0 < - cmp y x" for x y
    using cmp_swap[of y x] by auto
  show "- cmp x y \<le> 0 \<Longrightarrow> - cmp y z \<le> 0 \<Longrightarrow> - cmp x z \<le> 0" for x y z
    using cmp_trans[of z y x] cmp_not_less by (metis neg_le_0_iff_le not_less)
  show "INT_MIN < - cmp x y \<and> - cmp x y \<le> INT_MAX" for x y
    using cmp_bounds[of x y] by (auto simp: c_int_bounds)
qed

end


section \<open>compare-int.c and compare-pointer.c\<close>

definition int_equal :: "int \<Rightarrow> int \<Rightarrow> int" where
  "int_equal location1 location2 = (if location1 = location2 then 1 else 0)"

definition int_compare :: "int \<Rightarrow> int \<Rightarrow> int" where
  "int_compare location1 location2 =
     (if location1 < location2 then -1 else if location1 > location2 then 1 else 0)"

definition pointer_equal :: "u64 \<Rightarrow> u64 \<Rightarrow> int" where
  "pointer_equal location1 location2 = (if location1 = location2 then 1 else 0)"

definition pointer_compare :: "u64 \<Rightarrow> u64 \<Rightarrow> int" where
  "pointer_compare location1 location2 =
     (if location1 < location2 then -1 else if location1 > location2 then 1 else 0)"

interpretation int_cmp: bounded_comparator int_compare
  by unfold_locales (auto simp: int_compare_def c_int_bounds split: if_splits)

interpretation pointer_cmp: bounded_comparator pointer_compare
  by unfold_locales (auto simp: pointer_compare_def c_int_bounds split: if_splits)


section \<open>compare-string.c\<close>

text \<open>strcmp of the C library: the difference of the first two unsigned bytes that differ.\<close>

fun strcmp :: "u8 list \<Rightarrow> u8 list \<Rightarrow> int" where
  "strcmp [] [] = 0"
| "strcmp [] (b # bs) = - uint b"
| "strcmp (a # as) [] = uint a"
| "strcmp (a # as) (b # bs) =
     (if a = b then (if a = 0 then 0 else strcmp as bs) else uint a - uint b)"

definition string_equal :: "u8 list \<Rightarrow> u8 list \<Rightarrow> int" where
  "string_equal string1 string2 = (if strcmp string1 string2 = 0 then 1 else 0)"

definition string_compare :: "u8 list \<Rightarrow> u8 list \<Rightarrow> int" where
  "string_compare string1 string2 =
     (let result = strcmp string1 string2 in
      if result < 0 then -1 else if result > 0 then 1 else 0)"

text \<open>The string a \<open>char *\<close> denotes.\<close>

definition cstr :: "u8 list \<Rightarrow> u8 list" where
  "cstr s = takeWhile (\<lambda>b. b \<noteq> 0) s"

lemma cstr_simps [simp]: "cstr [] = []" "cstr (b # bs) = (if b = 0 then [] else b # cstr bs)"
  by (simp_all add: cstr_def)

lemma uint_pos_iff: "0 < uint b \<longleftrightarrow> b \<noteq> 0" "uint b \<le> 0 \<longleftrightarrow> b = 0" for b :: "'a::len word"
  by (metis less_le uint_0_iff uint_ge_0, metis antisym uint_0_iff uint_ge_0 order_refl)

lemma strcmp_swap: "strcmp s t = - strcmp t s"
  by (induction s t rule: strcmp.induct) auto

lemma strcmp_eq_0: "strcmp s t = 0 \<longleftrightarrow> cstr s = cstr t"
  by (induction s t rule: strcmp.induct) (auto simp: uint_0_iff simp flip: word_uint_eq_iff)

lemma strcmp_Cons_le:
  "strcmp (a # as) (b # bs) \<le> 0 \<longleftrightarrow> a < b \<or> a = b \<and> (a = 0 \<or> strcmp as bs \<le> 0)"
proof (cases "a = b")
  case False
  then have "uint a \<noteq> uint b" by (simp flip: word_uint_eq_iff)
  with False show ?thesis by (auto simp: word_less_def)
qed simp

lemma strcmp_trans: "strcmp s t \<le> 0 \<Longrightarrow> strcmp t u \<le> 0 \<Longrightarrow> strcmp s u \<le> 0"
proof (induction s t arbitrary: u rule: strcmp.induct)
  case (1 u) then show ?case by simp
next
  case (2 b bs) then show ?case by (cases u) auto
next
  case (3 a as) then show ?case by (cases u) (auto simp: uint_pos_iff uint_0_iff)
next
  case (4 a as b bs)
  show ?case
  proof (cases u)
    case Nil then show ?thesis using 4 by (auto simp: uint_pos_iff split: if_splits)
  next
    case (Cons c cs)
    then show ?thesis using 4 by (auto simp: strcmp_Cons_le simp del: strcmp.simps)
  qed
qed

interpretation string_cmp: bounded_comparator string_compare
proof
  show "string_compare x y < 0 \<longleftrightarrow> 0 < string_compare y x" for x y
    using strcmp_swap[of x y] by (auto simp: string_compare_def Let_def)
  show "string_compare x y \<le> 0 \<Longrightarrow> string_compare y z \<le> 0 \<Longrightarrow> string_compare x z \<le> 0" for x y z
    using strcmp_trans[of x y z] by (auto simp: string_compare_def Let_def split: if_splits)
  show "INT_MIN < string_compare x y \<and> string_compare x y \<le> INT_MAX" for x y
    by (auto simp: string_compare_def Let_def c_int_bounds)
qed

text \<open>
  tolower in the C locale. Its argument is defined for EOF and for the values of an unsigned
  char only; a plain \<open>char\<close> is signed here, so a byte from 128 to 254 gives a negative argument.
\<close>

definition c_tolower :: "int \<Rightarrow> int option" where
  "c_tolower c =
     (if c = -1 \<or> 0 \<le> c \<and> c \<le> 255 then Some (if 65 \<le> c \<and> c \<le> 90 then c + 32 else c) else None)"

definition schar_at :: "u8 list \<Rightarrow> int" where
  "schar_at s = (case s of [] \<Rightarrow> 0 | b # _ \<Rightarrow> sint b)"

function string_nocase_compare :: "u8 list \<Rightarrow> u8 list \<Rightarrow> int option" where
  "string_nocase_compare p1 p2 = do {
     c1 \<leftarrow> c_tolower (schar_at p1);
     c2 \<leftarrow> c_tolower (schar_at p2);
     if c1 \<noteq> c2 then (if c1 < c2 then Some (-1) else Some 1)
     else if c1 = 0 then Some 0
     else string_nocase_compare (tl p1) (tl p2)
   }"
  by pat_completeness auto
termination
proof (relation "measure (\<lambda>(p1, p2). length p1)")
  fix p1 p2 :: "u8 list" and c1 c2
  assume "c_tolower (schar_at p1) = Some c1" and "\<not> c1 \<noteq> c2" and "c1 \<noteq> 0"
  then have "p1 \<noteq> []" by (auto simp: c_tolower_def schar_at_def)
  then show "((tl p1, tl p2), p1, p2) \<in> measure (\<lambda>(p1, p2). length p1)" by simp
qed simp

declare string_nocase_compare.simps [simp del]

definition string_nocase_equal :: "u8 list \<Rightarrow> u8 list \<Rightarrow> int option" where
  "string_nocase_equal string1 string2 = do {
     r \<leftarrow> string_nocase_compare string1 string2;
     Some (if r = 0 then 1 else 0)
   }"



section \<open>Properties\<close>

text \<open>string_compare is a total order on C strings: it returns -1, 0 or 1, is 0 exactly for
  equal strings (where string_equal is non-zero), changes sign when its arguments are exchanged
  and is transitive.\<close>

theorem string_compare_total_order:
  "string_compare s t \<in> {-1, 0, 1} \<and> (string_compare s t = 0 \<longleftrightarrow> cstr s = cstr t) \<and>
   (string_equal s t \<noteq> 0 \<longleftrightarrow> string_compare s t = 0) \<and>
   string_compare s t = - string_compare t s \<and>
   (string_compare s t \<le> 0 \<and> string_compare t u \<le> 0 \<longrightarrow> string_compare s u \<le> 0)"
  using strcmp_eq_0[of s t] strcmp_swap[of s t] string_cmp.cmp_trans[of s t u]
  by (auto simp: string_compare_def string_equal_def Let_def)

theorem string_compare_total_order_witness:
  "string_compare [97] [97, 98] \<le> 0 \<and> string_compare [97, 98] [98] \<le> 0 \<and>
   string_compare [97] [98] \<le> 0"
  using string_compare_total_order[of "[97]" "[97, 98]" "[98]"] by (simp add: string_compare_def)

text \<open>Case-insensitive comparison of ASCII strings.\<close>

definition ascii :: "u8 list \<Rightarrow> bool" where
  "ascii s \<longleftrightarrow> (\<forall>b \<in> set s. b < 128)"

definition lower_byte :: "u8 \<Rightarrow> u8" where
  "lower_byte b = (if 65 \<le> b \<and> b \<le> 90 then b + 32 else b)"

lemma sint_ascii: "b < 128 \<Longrightarrow> sint b = uint b" for b :: u8
  by (auto simp: sint_uint word_less_def intro!: signed_take_bit_int_eq_self order_trans[OF _ uint_ge_0])

lemma c_tolower_ascii: "b < 128 \<Longrightarrow> c_tolower (sint b) = Some (uint (lower_byte b))" for b :: u8
  by (auto simp: sint_ascii c_tolower_def lower_byte_def word_less_def word_le_def uint_word_ariths)

lemma lower_byte_0: "lower_byte b = 0 \<longleftrightarrow> b = 0"
  by (auto simp: lower_byte_def word_le_def word_uint_eq_iff uint_word_ariths)

lemma nocase_compare_ascii:
  "ascii s \<Longrightarrow> ascii t \<Longrightarrow>
   \<exists>r. string_nocase_compare s t = Some r \<and>
       (r = 0 \<longleftrightarrow> map lower_byte (cstr s) = map lower_byte (cstr t))"
proof (induction s t rule: string_nocase_compare.induct)
  case (1 s t)
  show ?case
  proof (cases s)
    case Nil
    then show ?thesis using 1(2,3) unfolding string_nocase_compare.simps[of s t]
      by (cases t) (auto simp: schar_at_def c_tolower_def[of 0] ascii_def c_tolower_ascii lower_byte_0
          uint_0_iff)
  next
    case (Cons a as)
    then have a: "c_tolower (schar_at s) = Some (uint (lower_byte a))" "ascii as"
      using 1(2) by (auto simp: schar_at_def ascii_def c_tolower_ascii)
    show ?thesis
    proof (cases t)
      case Nil
      then show ?thesis using Cons a unfolding string_nocase_compare.simps[of s t]
        by (auto simp: schar_at_def[of "[]"] c_tolower_def[of 0] lower_byte_0 uint_0_iff)
    next
      case (Cons b bs)
      then have b: "c_tolower (schar_at t) = Some (uint (lower_byte b))" "ascii bs"
        using 1(3) by (auto simp: schar_at_def ascii_def c_tolower_ascii)
      then show ?thesis using 1(1)[OF a(1) b(1)] a b \<open>s = a # as\<close> Cons
        unfolding string_nocase_compare.simps[of s t]
        by (auto simp: lower_byte_0 lower_byte_def[of 0] uint_0_iff simp flip: word_uint_eq_iff)
    qed
  qed
qed

end
