(* ===== verification/Array_List.thy ===== *)
theory Array_List
  imports Compare
begin

text \<open>
  The automatically resizing array of \<open>src/src/comm/arraylist.c\<close>. The data block is an array of
  cells; the cells from \<open>al_length\<close> on are allocated and indeterminate. \<open>m\<close> arguments are the
  outcomes of malloc and realloc.
\<close>

record 'v ArrayList =
  al_data :: "'v array"
  al_length :: int
  al_alloced :: int

definition arraylist_new :: "bool \<Rightarrow> bool \<Rightarrow> int \<Rightarrow> 'v ArrayList option" where
  "arraylist_new m1 m2 len =
     (let len = (if len \<le> 0 then 16 else len) in
      if \<not> m1 then None
      else if \<not> m2 then None
      else Some \<lparr>al_data = replicate (nat len) None, al_length = 0, al_alloced = len\<rparr>)"

definition arraylist_free :: "'v ArrayList option \<Rightarrow> block list" where
  "arraylist_free arraylist = (case arraylist of None \<Rightarrow> [] | Some _ \<Rightarrow> [DataBlock, StructBlock])"

definition arraylist_enlarge :: "bool \<Rightarrow> 'v ArrayList \<Rightarrow> (int \<times> 'v ArrayList) option" where
  "arraylist_enlarge m al = do {
     newsize \<leftarrow> c_int (al_alloced al * 2);
     if \<not> m then Some (0, al)
     else Some (1, al\<lparr>al_data := al_data al @ replicate (nat newsize - length (al_data al)) None,
                      al_alloced := newsize\<rparr>)
   }"

definition arraylist_insert ::
  "bool \<Rightarrow> 'v ArrayList \<Rightarrow> int \<Rightarrow> 'v \<Rightarrow> (int \<times> 'v ArrayList) option" where
  "arraylist_insert m al index v =
     (if index < 0 \<or> index > al_length al then Some (0, al)
      else do {
        needed \<leftarrow> c_int (al_length al + 1);
        (r, al) \<leftarrow> (if needed > al_alloced al then arraylist_enlarge m al else Some (1, al));
        if r = 0 then Some (0, al)
        else do {
          d \<leftarrow> memmove (al_data al) (nat (index + 1)) (nat index) (nat (al_length al - index));
          d \<leftarrow> arr_set d index v;
          n \<leftarrow> c_int (al_length al + 1);
          Some (1, al\<lparr>al_data := d, al_length := n\<rparr>)
        }
      })"

definition arraylist_append :: "bool \<Rightarrow> 'v ArrayList \<Rightarrow> 'v \<Rightarrow> (int \<times> 'v ArrayList) option" where
  "arraylist_append m al v = arraylist_insert m al (al_length al) v"

definition arraylist_prepend :: "bool \<Rightarrow> 'v ArrayList \<Rightarrow> 'v \<Rightarrow> (int \<times> 'v ArrayList) option" where
  "arraylist_prepend m al v = arraylist_insert m al 0 v"

definition arraylist_remove_range :: "'v ArrayList \<Rightarrow> int \<Rightarrow> int \<Rightarrow> 'v ArrayList option" where
  "arraylist_remove_range al index len =
     (if index < 0 \<or> len < 0 then Some al
      else do {
        last \<leftarrow> c_int (index + len);
        if last > al_length al then Some al
        else do {
          d \<leftarrow> memmove (al_data al) (nat index) (nat last) (nat (al_length al - last));
          Some (al\<lparr>al_data := d, al_length := al_length al - len\<rparr>)
        }
      })"

definition arraylist_remove :: "'v ArrayList \<Rightarrow> int \<Rightarrow> 'v ArrayList option" where
  "arraylist_remove al index = arraylist_remove_range al index 1"

function arraylist_index_of_loop ::
  "('v \<Rightarrow> 'v \<Rightarrow> int) \<Rightarrow> 'v \<Rightarrow> 'v ArrayList \<Rightarrow> int \<Rightarrow> int option" where
  "arraylist_index_of_loop callback v al i =
     (if i < al_length al then do {
        x \<leftarrow> arr_get (al_data al) i;
        if callback x v \<noteq> 0 then Some i else arraylist_index_of_loop callback v al (i + 1)
      }
      else Some (-1))"
  by pat_completeness auto
termination by (relation "measure (\<lambda>(callback, v, al, i). nat (al_length al - i))") auto

declare arraylist_index_of_loop.simps [simp del]

definition arraylist_index_of :: "'v ArrayList \<Rightarrow> ('v \<Rightarrow> 'v \<Rightarrow> int) \<Rightarrow> 'v \<Rightarrow> int option" where
  "arraylist_index_of al callback v = arraylist_index_of_loop callback v al 0"

definition arraylist_clear :: "'v ArrayList \<Rightarrow> 'v ArrayList" where
  "arraylist_clear al = al\<lparr>al_length := 0\<rparr>"

text \<open>
  The sort works in place on \<open>list_data[base .. base + list_length)\<close>; \<open>base\<close> is where the pointer
  argument points into the data block. \<open>i\<close> and \<open>list1_length\<close> stay below \<open>list_length\<close>, so no index
  computation can overflow.
\<close>

function arraylist_partition ::
  "'v cmp_func \<Rightarrow> int \<Rightarrow> 'v \<Rightarrow> int \<Rightarrow> int \<Rightarrow> int \<Rightarrow> 'v array \<Rightarrow> ('v array \<times> int) option" where
  "arraylist_partition compare_func base pivot list_length i list1_length data =
     (if i < list_length - 1 then do {
        x \<leftarrow> arr_get data (base + i);
        if compare_func x pivot < 0 then do {
          y \<leftarrow> arr_get data (base + list1_length);
          data \<leftarrow> arr_set data (base + i) y;
          data \<leftarrow> arr_set data (base + list1_length) x;
          arraylist_partition compare_func base pivot list_length (i + 1) (list1_length + 1) data
        }
        else arraylist_partition compare_func base pivot list_length (i + 1) list1_length data
      }
      else Some (data, list1_length))"
  by pat_completeness auto
termination
  by (relation "measure (\<lambda>(compare_func, base, pivot, list_length, i, _, _). nat (list_length - i))") auto

declare arraylist_partition.simps [simp del]

lemma arraylist_partition_bound:
  "arraylist_partition cmp base pivot n i l data = Some (data', l') \<Longrightarrow> i \<le> n - 1 \<Longrightarrow>
   l \<le> l' \<and> l' \<le> l + (n - 1 - i)"
proof (induction cmp base pivot n i l data arbitrary: data' l' rule: arraylist_partition.induct)
  case (1 cmp base pivot n i l data)
  note step = "1.prems"(1)[unfolded arraylist_partition.simps[of cmp base pivot n i]]
  show ?case
  proof (cases "i < n - 1")
    case True
    with step obtain x where x: "arr_get data (base + i) = Some x" by (auto simp: bind_eq_Some_conv)
    show ?thesis
    proof (cases "cmp x pivot < 0")
      case less: True
      with step True x show ?thesis
        by (auto simp: bind_eq_Some_conv dest: "1.IH"(1)[OF True x less])
    next
      case False
      with step True x show ?thesis
        by (auto simp: bind_eq_Some_conv dest: "1.IH"(2)[OF True x False])
    qed
  qed (use step "1.prems"(2) in auto)
qed

function arraylist_sort_internal ::
  "'v cmp_func \<Rightarrow> int \<Rightarrow> int \<Rightarrow> 'v array \<Rightarrow> 'v array option" where
  "arraylist_sort_internal compare_func base list_length data =
     (if list_length \<le> 1 then Some data
      else do {
        pivot \<leftarrow> arr_get data (base + list_length - 1);
        (data, list1_length) \<leftarrow> arraylist_partition compare_func base pivot list_length 0 0 data;
        let list2_length = list_length - list1_length - 1;
        tmp \<leftarrow> arr_get data (base + list1_length);
        data \<leftarrow> arr_set data (base + list_length - 1) tmp;
        data \<leftarrow> arr_set data (base + list1_length) pivot;
        data \<leftarrow> arraylist_sort_internal compare_func base list1_length data;
        arraylist_sort_internal compare_func (base + list1_length + 1) list2_length data
      })"
  by pat_completeness auto
termination
  by (relation "measure (\<lambda>(compare_func, base, list_length, data). nat list_length)")
     (auto dest: arraylist_partition_bound)

declare arraylist_sort_internal.simps [simp del]

definition arraylist_sort :: "'v ArrayList \<Rightarrow> 'v cmp_func \<Rightarrow> 'v ArrayList option" where
  "arraylist_sort al compare_func = do {
     d \<leftarrow> arraylist_sort_internal compare_func 0 (al_length al) (al_data al);
     Some (al\<lparr>al_data := d\<rparr>)
   }"



section \<open>Representation\<close>

text \<open>\<open>al_rep al vs\<close>: the array list is well-formed and holds the values \<open>vs\<close>.\<close>

definition al_rep :: "'v ArrayList \<Rightarrow> 'v list \<Rightarrow> bool" where
  "al_rep al vs \<longleftrightarrow> arr_holds (al_data al) vs \<and> al_length al = int (length vs) \<and>
     al_alloced al = int (length (al_data al)) \<and> 0 < al_alloced al \<and> al_alloced al \<le> INT_MAX"

lemma al_rep_new:
  "len \<le> INT_MAX \<Longrightarrow> arraylist_new True True len = Some al \<Longrightarrow> al_rep al []"
  by (auto simp: arraylist_new_def al_rep_def Let_def c_int_bounds)

lemma memmove_insert:
  "do { d \<leftarrow> memmove (us @ ws @ c # post) (Suc (length us)) (length us) (length ws);
        arr_set d (int (length us)) v } = Some (us @ Some v # ws @ post)"
proof -
  have "take (Suc (length us)) (us @ ws @ c # post) = us @ [hd (ws @ [c])]"
    by (cases ws) auto
  then have "memmove (us @ ws @ c # post) (Suc (length us)) (length us) (length ws) =
      Some (us @ hd (ws @ [c]) # ws @ post)"
    by (simp add: memmove_def mem_read_def mem_write_def)
  then show ?thesis by simp
qed

lemma memmove_remove:
  "memmove (us @ ms @ ws @ post) (length us) (length us + length ms) (length ws) =
   Some (us @ ws @ drop (length ws) (ms @ ws @ post))"
  by (simp add: memmove_def mem_read_def mem_write_def)

lemma arraylist_enlarge_ok:
  assumes "al_rep al vs" and "al_alloced al * 2 \<le> INT_MAX"
  obtains al' where "arraylist_enlarge True al = Some (1, al')" and "al_rep al' vs"
    and "length vs < length (al_data al')" and "al_length al' = al_length al" and "al_alloced al' = 2 * al_alloced al"
proof -
  have "nat (int (length (al_data al)) * 2) = 2 * length (al_data al)" by simp
  moreover have "0 < length (al_data al)" using assms(1) by (auto simp: al_rep_def)
  ultimately show ?thesis
    using assms arr_holds_length[of "al_data al" vs] that
    by (auto simp: arraylist_enlarge_def al_rep_def arr_holds_append_cells)
qed

text \<open>The insertion once there is room for one more value.\<close>

lemma arraylist_insert_room:
  assumes "al_rep al vs" and "length vs < length (al_data al)" and "i \<le> length vs"
  shows "\<exists>d. do { d \<leftarrow> memmove (al_data al) (nat (int i + 1)) (nat (int i)) (nat (al_length al - int i));
                  d \<leftarrow> arr_set d (int i) v;
                  n \<leftarrow> c_int (al_length al + 1);
                  Some (1 :: int, al\<lparr>al_data := d, al_length := n\<rparr>) } =
             Some (1, al\<lparr>al_data := d, al_length := al_length al + 1\<rparr>) \<and>
             al_rep (al\<lparr>al_data := d, al_length := al_length al + 1\<rparr>) (take i vs @ v # drop i vs)"
proof -
  obtain post where "al_data al = map Some vs @ post"
    using assms(1) by (auto simp: al_rep_def arr_holds_split)
  then obtain c post' where data: "al_data al = map Some (take i vs) @ map Some (drop i vs) @ c # post'"
    using assms(2) by (cases post) (auto simp: append_take_drop_id simp flip: map_append append_assoc)
  have n: "nat (int i + 1) = Suc i" "nat (al_length al - int i) = length (map Some (drop i vs))"
    "i = length (map Some (take i vs))"
    using assms by (auto simp: al_rep_def)
  have "al_length al + 1 \<le> INT_MAX" using assms by (auto simp: al_rep_def)
  moreover have "do { d \<leftarrow> memmove (al_data al) (nat (int i + 1)) (nat (int i)) (nat (al_length al - int i));
                  arr_set d (int i) v } =
       Some (map Some (take i vs) @ Some v # map Some (drop i vs) @ post')"
    using memmove_insert[of "map Some (take i vs)" "map Some (drop i vs)" c post' v] n(3)
    unfolding data n(1,2) by simp
  ultimately have "do { d \<leftarrow> memmove (al_data al) (nat (int i + 1)) (nat (int i)) (nat (al_length al - int i));
                  d \<leftarrow> arr_set d (int i) v;
                  n \<leftarrow> c_int (al_length al + 1);
                  Some (1 :: int, al\<lparr>al_data := d, al_length := n\<rparr>) } =
      Some (1, al\<lparr>al_data := map Some (take i vs) @ Some v # map Some (drop i vs) @ post',
                  al_length := al_length al + 1\<rparr>)"
    using assms(1) by (auto simp: bind_eq_Some_conv al_rep_def)
  moreover have "al_rep (al\<lparr>al_data := map Some (take i vs) @ Some v # map Some (drop i vs) @ post',
                  al_length := al_length al + 1\<rparr>) (take i vs @ v # drop i vs)"
    using assms data by (auto simp: al_rep_def arr_holds_split)
  ultimately show ?thesis by blast
qed

lemma arraylist_insert_full:
  assumes rep: "al_rep al vs" and i: "i \<le> length vs" and sz: "al_alloced al * 2 \<le> INT_MAX" and full: "length vs = length (al_data al)"
  shows "\<exists>al'. arraylist_insert True al (int i) v = Some (1, al') \<and> al_rep al' (take i vs @ v # drop i vs) \<and>
    al_alloced al' = 2 * al_alloced al"
proof -
  have c: "c_int (al_length al + 1) = Some (al_length al + 1)" "al_length al + 1 > al_alloced al"
    using rep sz full by (auto simp: al_rep_def)
  from arraylist_enlarge_ok[OF rep sz] obtain al' where al': "arraylist_enlarge True al = Some (1, al')"
    "al_rep al' vs" "length vs < length (al_data al')" "al_length al' = al_length al" "al_alloced al' = 2 * al_alloced al" by blast
  with arraylist_insert_room[OF al'(2,3) i, of v] c rep i show ?thesis
    by (auto simp: arraylist_insert_def al_rep_def)
qed

lemma arraylist_insert_free:
  assumes rep: "al_rep al vs" and i: "i \<le> length vs" and free: "length vs < length (al_data al)"
  shows "\<exists>al'. arraylist_insert m al (int i) v = Some (1, al') \<and> al_rep al' (take i vs @ v # drop i vs) \<and>
    al_alloced al' = al_alloced al"
proof -
  have "c_int (al_length al + 1) = Some (al_length al + 1)" "\<not> al_length al + 1 > al_alloced al"
    using rep free by (auto simp: al_rep_def)
  with arraylist_insert_room[OF rep free i, of v] rep i show ?thesis
    by (auto simp: arraylist_insert_def al_rep_def)
qed

lemma arraylist_remove_range_ok:
  assumes rep: "al_rep al vs" and i: "i + n \<le> length vs"
  shows "\<exists>al'. arraylist_remove_range al (int i) (int n) = Some al' \<and>
               al_rep al' (take i vs @ drop (i + n) vs)"
proof -
  obtain post where post: "al_data al = map Some vs @ post"
    using rep by (auto simp: al_rep_def arr_holds_split)
  let ?us = "map Some (take i vs)" and ?ms = "map Some (take n (drop i vs))"
  let ?ws = "map Some (drop (i + n) vs)"
  have "vs = take i vs @ take n (drop i vs) @ drop (i + n) vs"
    by (metis append_take_drop_id drop_drop add.commute)
  then have data: "al_data al = ?us @ ?ms @ ?ws @ post"
    using post by (metis append_assoc map_append)
  have len: "int i + int n \<le> al_length al" "al_length al \<le> INT_MAX"
    using rep i arr_holds_length[of "al_data al" vs] by (auto simp: al_rep_def)
  have lens: "length ?us = i" "length ?ms = n" "length ?ws = nat (al_length al - (int i + int n))"
    using rep i by (auto simp: al_rep_def)
  have m: "memmove (al_data al) i (i + n) (nat (al_length al - (int i + int n))) =
      Some (?us @ ?ws @ drop (length ?ws) (?ms @ ?ws @ post))"
    using memmove_remove[of ?us ?ms ?ws post] by (simp only: data lens(3)[symmetric] lens(1,2))
  then have "arraylist_remove_range al (int i) (int n) = Some (al\<lparr>
      al_data := ?us @ ?ws @ drop (length ?ws) (?ms @ ?ws @ post), al_length := al_length al - int n\<rparr>)"
    using len by (simp add: arraylist_remove_range_def nat_add_distrib)
  moreover have "al_rep (al\<lparr>al_data := ?us @ ?ws @ drop (length ?ws) (?ms @ ?ws @ post),
      al_length := al_length al - int n\<rparr>) (take i vs @ drop (i + n) vs)"
    using rep i data lens by (auto simp: al_rep_def arr_holds_split)
  ultimately show ?thesis by blast
qed

lemma arraylist_index_of_loop_ok:
  assumes "al_rep al vs" and "i \<le> length vs" and "\<forall>j < i. callback (vs ! j) v = 0"
  shows "\<exists>r. arraylist_index_of_loop callback v al (int i) = Some r \<and>
    (if \<exists>x \<in> set vs. callback x v \<noteq> 0
     then 0 \<le> r \<and> nat r < length vs \<and> callback (vs ! nat r) v \<noteq> 0 \<and> (\<forall>j < nat r. callback (vs ! j) v = 0)
     else r = -1)"
  using assms
proof (induction "length vs - i" arbitrary: i)
  case 0
  then have "i = length vs" by simp
  then show ?case using 0 by (subst arraylist_index_of_loop.simps) (auto simp: al_rep_def in_set_conv_nth)
next
  case (Suc k)
  then have i: "i < length vs" by simp
  have get: "arr_get (al_data al) (int i) = Some (vs ! i)"
    using Suc.prems(1) i arr_holds_get[of "al_data al" vs "int i"] by (simp add: al_rep_def)
  have len: "al_length al = int (length vs)" using Suc.prems(1) by (simp add: al_rep_def)
  show ?case
  proof (cases "callback (vs ! i) v = 0")
    case True
    have "\<forall>j < Suc i. callback (vs ! j) v = 0" using True Suc.prems(3) by (auto simp: less_Suc_eq)
    from Suc.hyps(1)[OF _ Suc.prems(1) _ this] True show ?thesis
      using i get len Suc.hyps(2) by (subst arraylist_index_of_loop.simps) (simp add: add.commute)
  next
    case False
    then show ?thesis
      using i get len Suc.prems(3)
      by (subst arraylist_index_of_loop.simps) (auto intro!: bexI[of _ "vs ! i"])
  qed
qed


section \<open>The in-place quicksort\<close>

text \<open>One pass of the partition loop over the unscanned values \<open>rest\<close>.\<close>

lemma arraylist_partition_ok:
  assumes "i = int (length ls + length ms)" and "l1 = int (length ls)" and "base = int (length pre)"
    and "n - 1 = i + int (length rest)"
    and "\<forall>x \<in> set ls. cmp x pivot < 0" and "\<forall>x \<in> set ms. \<not> cmp x pivot < 0"
  shows "\<exists>ls' ms'. arraylist_partition cmp base pivot n i l1 (pre @ map Some (ls @ ms @ rest) @ post) =
      Some (pre @ map Some (ls' @ ms') @ post, int (length ls')) \<and>
    mset (ls' @ ms') = mset (ls @ ms @ rest) \<and>
    (\<forall>x \<in> set ls'. cmp x pivot < 0) \<and> (\<forall>x \<in> set ms'. \<not> cmp x pivot < 0)"
  using assms
proof (induction rest arbitrary: i l1 ls ms)
  case Nil
  then show ?case
    by (subst arraylist_partition.simps) (simp, rule exI[of _ ls], rule exI[of _ ms], simp)
next
  case (Cons x rest)
  have get: "arr_get (pre @ map Some (ls @ ms @ x # rest) @ post) (base + i) = Some x"
    by (rule arr_get_at[of _ "pre @ map Some (ls @ ms)" _ "map Some rest @ post"])
       (use Cons.prems in auto)
  show ?case
  proof (cases "cmp x pivot < 0")
    case False
    have "\<exists>ls' ms'. arraylist_partition cmp base pivot n (i + 1) l1
        (pre @ map Some (ls @ (ms @ [x]) @ rest) @ post) =
          Some (pre @ map Some (ls' @ ms') @ post, int (length ls')) \<and>
        mset (ls' @ ms') = mset (ls @ (ms @ [x]) @ rest) \<and>
        (\<forall>x \<in> set ls'. cmp x pivot < 0) \<and> (\<forall>x \<in> set ms'. \<not> cmp x pivot < 0)"
      by (rule Cons.IH) (use Cons.prems False in auto)
    then show ?thesis using get False Cons.prems(4)
      by (subst arraylist_partition.simps) simp
  next
    case True
    have swap: "\<exists>y d. arr_get (pre @ map Some (ls @ ms @ x # rest) @ post) (base + l1) = Some y \<and>
       arr_set (pre @ map Some (ls @ ms @ x # rest) @ post) (base + i) y = Some d \<and>
       arr_set d (base + l1) x = Some (pre @ map Some ((ls @ [x]) @ rotate1 ms @ rest) @ post)"
    proof (cases ms)
      case Nil
      then have "arr_set (pre @ map Some (ls @ ms @ x # rest) @ post) (base + l1) x =
          Some (pre @ map Some ((ls @ [x]) @ rotate1 ms @ rest) @ post)"
        using Cons.prems(1-3) arr_set_at[of _ "pre @ map Some ls" "Some x" "map Some rest @ post" "base + l1" x]
        by simp
      then show ?thesis using get Nil Cons.prems(1,2) by simp
    next
      case (Cons m ms')
      have "arr_get (pre @ map Some (ls @ ms @ x # rest) @ post) (base + l1) = Some m"
        by (rule arr_get_at[of _ "pre @ map Some ls" _ "map Some (ms' @ x # rest) @ post"])
           (use Cons.prems Cons \<open>base = _\<close> \<open>l1 = _\<close> in auto)
      moreover have "arr_set (pre @ map Some (ls @ ms @ x # rest) @ post) (base + i) m =
          Some (pre @ map Some (ls @ m # ms' @ m # rest) @ post)"
        using arr_set_at[of _ "pre @ map Some (ls @ m # ms')" "Some x" "map Some rest @ post" "base + i" m]
          Cons \<open>base = _\<close> \<open>i = _\<close> by simp
      moreover have "arr_set (pre @ map Some (ls @ m # ms' @ m # rest) @ post) (base + l1) x =
          Some (pre @ map Some ((ls @ [x]) @ rotate1 ms @ rest) @ post)"
        using arr_set_at[of _ "pre @ map Some ls" "Some m" "map Some (ms' @ m # rest) @ post" "base + l1" x]
          Cons \<open>base = _\<close> \<open>l1 = _\<close> by simp
      ultimately show ?thesis by blast
    qed
    have "\<exists>ls' ms'. arraylist_partition cmp base pivot n (i + 1) (l1 + 1)
        (pre @ map Some ((ls @ [x]) @ rotate1 ms @ rest) @ post) =
          Some (pre @ map Some (ls' @ ms') @ post, int (length ls')) \<and>
        mset (ls' @ ms') = mset ((ls @ [x]) @ rotate1 ms @ rest) \<and>
        (\<forall>x \<in> set ls'. cmp x pivot < 0) \<and> (\<forall>x \<in> set ms'. \<not> cmp x pivot < 0)"
      by (rule Cons.IH) (use Cons.prems True in auto)
    with swap show ?thesis using get True Cons.prems(4)
      by (subst arraylist_partition.simps) (elim exE conjE, simp, metis)
  qed
qed

lemma arraylist_sort_internal_ok:
  assumes "comparator cmp"
  shows "\<exists>ys. arraylist_sort_internal cmp (int (length pre)) (int (length xs)) (pre @ map Some xs @ post) =
      Some (pre @ map Some ys @ post) \<and> mset ys = mset xs \<and> sorted_wrt (\<lambda>x y. cmp x y \<le> 0) ys"
proof (induction "length xs" arbitrary: xs pre post rule: less_induct)
  case less
  show ?case
  proof (cases "length xs \<le> 1")
    case True
    then have "sorted_wrt (\<lambda>x y. cmp x y \<le> 0) xs" by (cases xs) auto
    with True show ?thesis by (subst arraylist_sort_internal.simps) simp
  next
    case False
    then obtain rest pivot where xs: "xs = rest @ [pivot]" by (cases xs rule: rev_cases) auto
    let ?b = "int (length pre)" and ?n = "int (length xs)"
    have get: "arr_get (pre @ map Some xs @ post) (?b + ?n - 1) = Some pivot"
      by (rule arr_get_at[of _ "pre @ map Some rest" _ post]) (simp_all add: xs)
    from arraylist_partition_ok[of 0 "[]" "[]" 0 ?b pre ?n rest cmp pivot "Some pivot # post"]
    obtain ls ms where part:
      "arraylist_partition cmp ?b pivot ?n 0 0 (pre @ map Some xs @ post) =
         Some (pre @ map Some (ls @ ms) @ Some pivot # post, int (length ls))"
      and m: "mset (ls @ ms) = mset rest" and lt: "\<forall>x \<in> set ls. cmp x pivot < 0"
      and ge: "\<forall>x \<in> set ms. \<not> cmp x pivot < 0" by (auto simp: xs)
    have len: "length rest = length ls + length ms"
      using m by (metis length_append size_mset)
    have place: "\<exists>tmp d. arr_get (pre @ map Some (ls @ ms) @ Some pivot # post) (?b + int (length ls)) = Some tmp \<and>
        arr_set (pre @ map Some (ls @ ms) @ Some pivot # post) (?b + ?n - 1) tmp = Some d \<and>
        arr_set d (?b + int (length ls)) pivot = Some (pre @ map Some (ls @ pivot # rotate1 ms) @ post)"
    proof (cases ms)
      case Nil
      then show ?thesis
        using arr_get_at[of _ "pre @ map Some ls" "Some pivot" post "?b + int (length ls)"]
          arr_set_at[of _ "pre @ map Some ls" "Some pivot" post "?b + int (length ls)" pivot] len
        by (simp add: xs)
    next
      case (Cons a ms')
      then show ?thesis
        using arr_get_at[of _ "pre @ map Some ls" "Some a" "map Some ms' @ Some pivot # post" "?b + int (length ls)"]
          arr_set_at[of _ "pre @ map Some (ls @ a # ms')" "Some pivot" post "?b + ?n - 1" a]
          arr_set_at[of _ "pre @ map Some ls" "Some a" "map Some ms' @ Some a # post" "?b + int (length ls)" pivot]
          len by (simp add: xs)
    qed
    obtain ls' where ls': "arraylist_sort_internal cmp ?b (int (length ls))
        (pre @ map Some ls @ Some pivot # map Some (rotate1 ms) @ post) =
        Some (pre @ map Some ls' @ Some pivot # map Some (rotate1 ms) @ post)"
      "mset ls' = mset ls" "sorted_wrt (\<lambda>x y. cmp x y \<le> 0) ls'"
      using less.hyps[of ls pre "Some pivot # map Some (rotate1 ms) @ post"] len by (auto simp: xs)
    have l': "length ls' = length ls" using ls'(2) by (metis size_mset)
    obtain ms' where ms': "arraylist_sort_internal cmp (int (length (pre @ map Some (ls' @ [pivot]))))
        (int (length (rotate1 ms))) ((pre @ map Some (ls' @ [pivot])) @ map Some (rotate1 ms) @ post) =
        Some ((pre @ map Some (ls' @ [pivot])) @ map Some ms' @ post)"
      "mset ms' = mset (rotate1 ms)" "sorted_wrt (\<lambda>x y. cmp x y \<le> 0) ms'"
      using less.hyps[of "rotate1 ms" "pre @ map Some (ls' @ [pivot])" post] len by (auto simp: xs)
    have "int (length (pre @ map Some (ls' @ [pivot]))) = ?b + int (length ls) + 1"
      "int (length (rotate1 ms)) = ?n - int (length ls) - 1" using l' len by (simp_all add: xs)
    note ms'1 = ms'(1)[unfolded this]
    obtain tmp d where pl: "arr_get (pre @ map Some (ls @ ms) @ Some pivot # post) (?b + int (length ls)) = Some tmp"
        "arr_set (pre @ map Some (ls @ ms) @ Some pivot # post) (?b + ?n - 1) tmp = Some d"
        "arr_set d (?b + int (length ls)) pivot = Some (pre @ map Some (ls @ pivot # rotate1 ms) @ post)"
      using place by blast
    have "\<not> ?n \<le> 1" using False by simp
    then have "arraylist_sort_internal cmp ?b ?n (pre @ map Some xs @ post) =
        Some (pre @ map Some (ls' @ pivot # ms') @ post)"
      using ls'(1) ms'1 pl
      by (subst arraylist_sort_internal.simps)
         (simp only: get part if_False Option.bind.simps prod.case Let_def
           map_append list.map append_assoc append_Cons append_Nil)
    moreover have "mset (ls' @ pivot # ms') = mset xs" using ls'(2) ms'(2) m by (simp add: xs)
    moreover have "set ls' = set ls" "set ms' = set ms"
      using mset_eq_setD[OF ls'(2)] mset_eq_setD[OF ms'(2)] by simp_all
    then have "sorted_wrt (\<lambda>x y. cmp x y \<le> 0) (ls' @ pivot # ms')"
      using lt ge by (intro comparator.sorted_pivot[OF assms ls'(3) ms'(3)]) auto
    ultimately show ?thesis by blast
  qed
qed



section \<open>Properties\<close>

definition al_demo :: "int ArrayList" where
  "al_demo = \<lparr>al_data = [Some 30, Some 10], al_length = 2, al_alloced = 2\<rparr>"

lemma al_demo_rep: "al_rep al_demo [30, 10]"
  by (simp add: al_rep_def al_demo_def arr_holds_def c_int_bounds)

text \<open>C29: arraylist_insert: an index outside 0..length returns 0 and changes nothing. Inside the range the value
  is inserted at the index and everything behind it moves up; the block keeps its size while there is room, and
  one that is full is doubled first. When the reallocation fails the call returns 0 and changes nothing.
  The computation of the new size is undefined behaviour exactly when a full block has
  more than INT_MAX / 2 cells.\<close>

theorem arraylist_insert_spec:
  assumes "al_rep al vs"
  shows "(index < 0 \<or> index > int (length vs) \<longrightarrow> arraylist_insert m al index v = Some (0, al)) \<and>
    (0 \<le> index \<and> index \<le> int (length vs) \<longrightarrow>
       (if length vs < length (al_data al)
        then \<exists>al'. arraylist_insert m al index v = Some (1, al') \<and>
               al_rep al' (take (nat index) vs @ v # drop (nat index) vs) \<and> al_alloced al' = al_alloced al
        else if al_alloced al * 2 \<le> INT_MAX
        then (\<exists>al'. arraylist_insert True al index v = Some (1, al') \<and>
                al_rep al' (take (nat index) vs @ v # drop (nat index) vs) \<and> al_alloced al' = 2 * al_alloced al) \<and>
             arraylist_insert False al index v = Some (0, al)
        else arraylist_insert m al index v = None))"
proof (intro conjI impI)
  assume "index < 0 \<or> index > int (length vs)"
  then show "arraylist_insert m al index v = Some (0, al)"
    using assms(1) by (auto simp: arraylist_insert_def al_rep_def)
next
  assume i: "0 \<le> index \<and> index \<le> int (length vs)"
  then obtain j where j: "index = int j" "j \<le> length vs"
    using nonneg_int_cases[of index] by auto
  have len: "length vs \<le> length (al_data al)"
    using assms arr_holds_length by (auto simp: al_rep_def)
  consider "length vs < length (al_data al)" | "length vs = length (al_data al)" "al_alloced al * 2 \<le> INT_MAX"
    | "length vs = length (al_data al)" "\<not> al_alloced al * 2 \<le> INT_MAX"
    using len by linarith
  then show "if length vs < length (al_data al)
        then \<exists>al'. arraylist_insert m al index v = Some (1, al') \<and>
               al_rep al' (take (nat index) vs @ v # drop (nat index) vs) \<and> al_alloced al' = al_alloced al
        else if al_alloced al * 2 \<le> INT_MAX
        then (\<exists>al'. arraylist_insert True al index v = Some (1, al') \<and>
                al_rep al' (take (nat index) vs @ v # drop (nat index) vs) \<and> al_alloced al' = 2 * al_alloced al) \<and>
             arraylist_insert False al index v = Some (0, al)
        else arraylist_insert m al index v = None"
  proof cases
    case 1
    then show ?thesis
      using arraylist_insert_free[OF assms j(2) 1, of m v] j(1) by simp
  next
    case 2
    moreover have "arraylist_insert False al index v = Some (0, al)"
      using 2 j assms by (auto simp: arraylist_insert_def arraylist_enlarge_def al_rep_def)
    ultimately show ?thesis
      using arraylist_insert_full[OF assms j(2) 2(2,1), of v] j(1) by simp
  next
    case 3
    then have "arraylist_insert m al index v = None"
      using j assms by (auto simp: arraylist_insert_def arraylist_enlarge_def al_rep_def c_int_def bind_eq_None_conv)
    then show ?thesis
      using 3 by simp
  qed
qed

theorem arraylist_insert_spec_witness:
  "(\<exists>al'. arraylist_insert True al_demo 1 20 = Some (1, al') \<and> al_rep al' [30, 20, 10] \<and> al_alloced al' = 4) \<and>
   arraylist_insert False al_demo 1 20 = Some (0, al_demo) \<and>
   arraylist_insert True al_demo 3 20 = Some (0, al_demo)"
  using arraylist_insert_spec[OF al_demo_rep, of 1 True 20] arraylist_insert_spec[OF al_demo_rep, of 3 True 20]
  by (auto simp: al_demo_def c_int_bounds)

text \<open>arraylist_remove_range removes exactly the given range and closes the gap; a negative
  argument or a range that ends beyond the list changes nothing.\<close>

theorem arraylist_remove_range_spec:
  assumes "al_rep al vs" and "index + len \<le> INT_MAX"
  shows "\<exists>al'. arraylist_remove_range al index len = Some al' \<and>
    (if 0 \<le> index \<and> 0 \<le> len \<and> index + len \<le> int (length vs)
     then al_rep al' (take (nat index) vs @ drop (nat index + nat len) vs) else al' = al)"
proof (cases "0 \<le> index \<and> 0 \<le> len \<and> index + len \<le> int (length vs)")
  case True
  then show ?thesis
    using arraylist_remove_range_ok[OF assms(1), of "nat index" "nat len"] by auto
next
  case False
  then show ?thesis
    using assms by (auto simp: arraylist_remove_range_def al_rep_def)
qed

theorem arraylist_remove_range_spec_witness:
  "\<exists>al'. arraylist_remove_range al_demo 0 1 = Some al' \<and> al_rep al' [10]"
  using arraylist_remove_range_spec[OF al_demo_rep, of 0 1] by (simp add: c_int_bounds)

text \<open>The bounds check of arraylist_remove_range is undefined behaviour for a range whose end
  does not fit in an int, such as (1, INT_MAX).\<close>

theorem arraylist_remove_range_overflow:
  assumes "0 \<le> index" and "0 \<le> len" and "index + len > INT_MAX"
  shows "arraylist_remove_range al index len = None"
  using assms by (simp add: arraylist_remove_range_def c_int_def)

theorem arraylist_remove_range_overflow_witness:
  "arraylist_remove_range al_demo 1 INT_MAX = None"
  by (rule arraylist_remove_range_overflow) (simp_all add: c_int_bounds)

text \<open>arraylist_index_of returns the smallest index whose value the callback accepts, and -1
  exactly when it accepts none.\<close>

theorem arraylist_index_of_spec:
  assumes "al_rep al vs"
  shows "\<exists>r. arraylist_index_of al callback v = Some r \<and>
    (if \<exists>x \<in> set vs. callback x v \<noteq> 0
     then 0 \<le> r \<and> nat r < length vs \<and> callback (vs ! nat r) v \<noteq> 0 \<and> (\<forall>j < nat r. callback (vs ! j) v = 0)
     else r = -1)"
  using arraylist_index_of_loop_ok[OF assms, of 0 callback v] by (simp add: arraylist_index_of_def)

theorem arraylist_index_of_spec_witness:
  "al_rep al_demo [30, 10] \<and> (\<exists>r. arraylist_index_of al_demo int_equal 10 = Some r \<and> 0 \<le> r \<and> nat r < 2)"
  using arraylist_index_of_spec[OF al_demo_rep, of int_equal 10] al_demo_rep by (auto simp: int_equal_def)

lemma arraylist_sort_ok:
  assumes "comparator compare_func" and "al_rep al vs"
  shows "\<exists>al' ws. arraylist_sort al compare_func = Some al' \<and> al_rep al' ws \<and> mset ws = mset vs \<and>
    sorted_wrt (\<lambda>x y. compare_func x y \<le> 0) ws"
proof -
  obtain post where data: "al_data al = map Some vs @ post"
    using assms(2) by (auto simp: al_rep_def arr_holds_split)
  from arraylist_sort_internal_ok[OF assms(1), of "[]" vs post] obtain ws where
    ws: "arraylist_sort_internal compare_func 0 (int (length vs)) (map Some vs @ post) = Some (map Some ws @ post)"
    "mset ws = mset vs" "sorted_wrt (\<lambda>x y. compare_func x y \<le> 0) ws" by auto
  have "length ws = length vs" using ws(2) by (metis size_mset)
  then have "al_rep (al\<lparr>al_data := map Some ws @ post\<rparr>) ws"
    using assms(2) data by (auto simp: al_rep_def arr_holds_split)
  then show ?thesis using ws assms(2) data by (auto simp: arraylist_sort_def al_rep_def)
qed

text \<open>For every comparison function that is a total preorder, arraylist_sort returns, keeps the
  values of the list as a multiset and leaves them in ascending order.\<close>

theorem arraylist_sort_spec:
  assumes "comparator compare_func" and "al_rep al vs"
  shows "\<exists>al' ws. arraylist_sort al compare_func = Some al' \<and> al_rep al' ws \<and> mset ws = mset vs \<and>
    sorted_wrt (\<lambda>x y. compare_func x y \<le> 0) ws"
  by (rule arraylist_sort_ok[OF assms])

theorem arraylist_sort_spec_witness:
  "\<exists>al' ws. arraylist_sort al_demo int_compare = Some al' \<and> al_rep al' ws \<and> mset ws = mset [30, 10] \<and>
    sorted_wrt (\<lambda>x y. int_compare x y \<le> 0) ws"
  by (rule arraylist_sort_spec[OF int_cmp.comparator_axioms al_demo_rep])

end
