(* ===== verification/Interfaces.thy ===== *)
theory Interfaces
  imports Prelude
begin

text \<open>
  The contracts that the containers of \<open>src/src/comm\<close> promise to their clients, as locales, each
  with what a client can conclude from it. The theories of the components interpret them on the
  model of the C code.
\<close>


section \<open>Priority queues: binary-heap.c and binomial-heap.c\<close>

text \<open>
  \<open>elems\<close> is the multiset of stored values and \<open>below h\<close> the order the heap was created with.
  \<open>pop\<close> returns NULL (\<open>None\<close>) on an empty heap.
\<close>

primrec drain :: "('h \<Rightarrow> ('v option \<times> 'h) option) \<Rightarrow> nat \<Rightarrow> 'h \<Rightarrow> ('v list \<times> 'h) option" where
  "drain pop 0 h = Some ([], h)"
| "drain pop (Suc n) h = do {
     (r, h) \<leftarrow> pop h;
     case r of
       None \<Rightarrow> Some ([], h)
     | Some v \<Rightarrow> do { (vs, h) \<leftarrow> drain pop n h; Some (v # vs, h) }
   }"

locale priority_queue =
  fixes inv :: "'h \<Rightarrow> bool" and elems :: "'h \<Rightarrow> 'v multiset" and below :: "'h \<Rightarrow> 'v \<Rightarrow> 'v \<Rightarrow> bool"
    and pop :: "'h \<Rightarrow> ('v option \<times> 'h) option"
  assumes pop_empty: "inv h \<Longrightarrow> elems h = {#} \<Longrightarrow> pop h = Some (None, h)"
    and pop_least: "inv h \<Longrightarrow> elems h \<noteq> {#} \<Longrightarrow>
      \<exists>v h'. pop h = Some (Some v, h') \<and> inv h' \<and> below h' = below h \<and>
             elems h = add_mset v (elems h') \<and> (\<forall>x \<in># elems h. below h v x)"
begin

text \<open>Popping until the heap is empty enumerates its values in ascending order.\<close>

lemma drain_sorted:
  assumes "inv h"
  shows "\<exists>vs h'. drain pop (size (elems h)) h = Some (vs, h') \<and> inv h' \<and> elems h' = {#} \<and>
           mset vs = elems h \<and> sorted_wrt (below h) vs"
  using assms
proof (induction "size (elems h)" arbitrary: h)
  case 0
  then show ?case by simp
next
  case (Suc n)
  then have "elems h \<noteq> {#}" by auto
  from pop_least[OF Suc.prems this] obtain v h1 where
    p: "pop h = Some (Some v, h1)" "inv h1" "below h1 = below h" "elems h = add_mset v (elems h1)"
       "\<forall>x \<in># elems h. below h v x" by blast
  then have n: "n = size (elems h1)" using Suc.hyps(2) by simp
  from Suc.hyps(1)[OF this p(2)] obtain vs h' where
    d: "drain pop n h1 = Some (vs, h')" "inv h'" "elems h' = {#}" "mset vs = elems h1"
       "sorted_wrt (below h1) vs" using n by blast
  have "drain pop (size (elems h)) h = Some (v # vs, h')"
    using p(1,4) d(1) n by simp
  moreover have "sorted_wrt (below h) (v # vs)"
    using p d by (auto simp flip: set_mset_mset)
  ultimately show ?case using p(4) d by auto
qed

end


section \<open>Maps: hash-table.c and set.c\<close>

text \<open>
  \<open>look m k\<close> is the value stored under a key that the map does not distinguish from \<open>k\<close>
  (\<open>same m\<close>), \<open>ins\<close> an insertion whose allocations succeed, \<open>del\<close> a removal and \<open>room m\<close> a number of
  insertions that the int counters of the implementation bear without overflow.
\<close>

primrec insert_all :: "('m \<Rightarrow> 'k \<Rightarrow> 'v \<Rightarrow> 'm option) \<Rightarrow> ('k \<times> 'v) list \<Rightarrow> 'm \<Rightarrow> 'm option" where
  "insert_all ins [] m = Some m"
| "insert_all ins (b # bs) m = do { m \<leftarrow> ins m (fst b) (snd b); insert_all ins bs m }"

text \<open>The value of the last binding for a key in a sequence of insertions.\<close>

definition last_binding :: "('k \<Rightarrow> 'k \<Rightarrow> bool) \<Rightarrow> ('k \<times> 'v) list \<Rightarrow> 'k \<Rightarrow> 'v option" where
  "last_binding eq bs k = map_option snd (find (\<lambda>b. eq (fst b) k) (rev bs))"

lemma last_binding_Nil [simp]: "last_binding eq [] k = None"
  by (simp add: last_binding_def)

lemma last_binding_Cons:
  "last_binding eq (b # bs) k =
     (case last_binding eq bs k of
        None \<Rightarrow> if eq (fst b) k then Some (snd b) else None
      | Some v \<Rightarrow> Some v)"
proof -
  have "find P (xs @ [x]) = (case find P xs of None \<Rightarrow> if P x then Some x else None | Some y \<Rightarrow> Some y)"
    for P :: "'c \<Rightarrow> bool" and xs x by (induction xs) (auto simp del: split_paired_All)
  from this[of "\<lambda>b. eq (fst b) k" "rev bs" b] show ?thesis
    by (simp add: last_binding_def split: option.split)
qed

locale map_store =
  fixes inv :: "'m \<Rightarrow> bool" and look :: "'m \<Rightarrow> 'k \<Rightarrow> 'v option" and same :: "'m \<Rightarrow> 'k \<Rightarrow> 'k \<Rightarrow> bool"
    and ins :: "'m \<Rightarrow> 'k \<Rightarrow> 'v \<Rightarrow> 'm option" and del :: "'m \<Rightarrow> 'k \<Rightarrow> 'm option" and room :: "'m \<Rightarrow> nat"
  assumes ins_ok: "inv m \<Longrightarrow> 0 < room m \<Longrightarrow>
      \<exists>m'. ins m k v = Some m' \<and> inv m' \<and> same m' = same m \<and> room m \<le> Suc (room m') \<and>
           look m' = (\<lambda>k'. if same m k k' then Some v else look m k')"
    and del_ok: "inv m \<Longrightarrow>
      \<exists>m'. del m k = Some m' \<and> inv m' \<and> same m' = same m \<and> room m \<le> room m' \<and>
           look m' = (\<lambda>k'. if same m k k' then None else look m k')"
begin

text \<open>After a sequence of insertions a key has the value it was last inserted with.\<close>

lemma insert_all_lookup:
  "inv m \<Longrightarrow> length bs \<le> room m \<Longrightarrow>
   \<exists>m'. insert_all ins bs m = Some m' \<and> inv m' \<and> same m' = same m \<and> room m \<le> length bs + room m' \<and>
     (\<forall>k. look m' k = (case last_binding (same m) bs k of Some v \<Rightarrow> Some v | None \<Rightarrow> look m k))"
proof (induction bs arbitrary: m)
  case (Cons b bs)
  then obtain m1 where m1: "ins m (fst b) (snd b) = Some m1" "inv m1" "same m1 = same m"
      "room m \<le> Suc (room m1)" "look m1 = (\<lambda>k'. if same m (fst b) k' then Some (snd b) else look m k')"
    using ins_ok[of m "fst b" "snd b"] by auto
  with Cons.IH[OF m1(2)] Cons.prems(2) obtain m2 where m2: "insert_all ins bs m1 = Some m2" "inv m2"
      "same m2 = same m" "room m1 \<le> length bs + room m2"
      "\<forall>k. look m2 k = (case last_binding (same m) bs k of Some v \<Rightarrow> Some v | None \<Rightarrow> look m1 k)"
    by auto
  then show ?case using m1
    by (intro exI[of _ m2]) (auto simp: last_binding_Cons split: option.splits)
qed simp

text \<open>A removed key is absent, whatever was inserted before, and every other key is untouched.\<close>

lemma insert_all_delete:
  assumes "inv m" "length bs \<le> room m"
  shows "\<exists>m1 m2. insert_all ins bs m = Some m1 \<and> del m1 k = Some m2 \<and> inv m2 \<and>
     (\<forall>k'. look m2 k' = (if same m k k' then None else look m1 k'))"
proof -
  from insert_all_lookup[OF assms] obtain m1 where m1: "insert_all ins bs m = Some m1" "inv m1"
    "same m1 = same m" by blast
  with del_ok[OF m1(2), of k] show ?thesis by auto
qed

end


section \<open>Double-ended queues: queue.c\<close>

datatype 'v deque_op = Push_head 'v | Push_tail 'v | Pop_head | Pop_tail | Peek_head | Peek_tail

datatype 'v deque_out = Success bool | Value "'v option"

text \<open>
  The specification: a list of values, with its head first. The flag says whether memory for a new
  entry is available; without it a push fails.
\<close>

fun deque_next :: "bool \<Rightarrow> 'v list \<Rightarrow> 'v deque_op \<Rightarrow> 'v deque_out \<times> 'v list" where
  "deque_next mem xs (Push_head v) = (Success mem, if mem then v # xs else xs)"
| "deque_next mem xs (Push_tail v) = (Success mem, if mem then xs @ [v] else xs)"
| "deque_next mem xs Pop_head = (Value (if xs = [] then None else Some (hd xs)), tl xs)"
| "deque_next mem xs Pop_tail = (Value (if xs = [] then None else Some (last xs)), butlast xs)"
| "deque_next mem xs Peek_head = (Value (if xs = [] then None else Some (hd xs)), xs)"
| "deque_next mem xs Peek_tail = (Value (if xs = [] then None else Some (last xs)), xs)"

fun deque_run :: "'v list \<Rightarrow> (bool \<times> 'v deque_op) list \<Rightarrow> 'v deque_out list \<times> 'v list" where
  "deque_run xs [] = ([], xs)"
| "deque_run xs ((mem, op) # ops) =
     (let (out, ys) = deque_next mem xs op; (outs, zs) = deque_run ys ops in (out # outs, zs))"

text \<open>A sequence of operations of an implementation, each with the pointer that malloc returns to it.\<close>

fun run_ops :: "(ptr \<Rightarrow> 's \<Rightarrow> 'v deque_op \<Rightarrow> ('v deque_out \<times> 's) option) \<Rightarrow> ('s \<Rightarrow> ptr) \<Rightarrow> 's \<Rightarrow> 'v deque_op list \<Rightarrow>
    (('v deque_out \<times> bool) list \<times> 's) option" where
  "run_ops step malloc s [] = Some ([], s)"
| "run_ops step malloc s (op # ops) = do {
     (out, s') \<leftarrow> step (malloc s) s op;
     (outs, s'') \<leftarrow> run_ops step malloc s' ops;
     Some ((out, malloc s \<noteq> NULL) # outs, s'')
   }"

locale deque =
  fixes repr :: "'s \<Rightarrow> 'v list \<Rightarrow> bool" and step :: "ptr \<Rightarrow> 's \<Rightarrow> 'v deque_op \<Rightarrow> ('v deque_out \<times> 's) option"
    and unused :: "'s \<Rightarrow> addr \<Rightarrow> bool"
  assumes step_ok: "repr s xs \<Longrightarrow> (\<And>a. m = Some a \<Longrightarrow> unused s a) \<Longrightarrow>
      \<exists>s'. step m s op = Some (fst (deque_next (m \<noteq> NULL) xs op), s') \<and> repr s' (snd (deque_next (m \<noteq> NULL) xs op))"
begin

text \<open>Every sequence of operations succeeds and returns what the specification does.\<close>

lemma run_ops_refines:
  assumes "repr s xs" "\<And>s a. malloc s = Some a \<Longrightarrow> unused s a"
  shows "\<exists>outs s'. run_ops step malloc s ops = Some (outs, s') \<and> length outs = length ops \<and>
           map fst outs = fst (deque_run xs (zip (map snd outs) ops)) \<and>
           repr s' (snd (deque_run xs (zip (map snd outs) ops)))"
  using assms(1)
proof (induction ops arbitrary: s xs)
  case (Cons op ops)
  obtain s1 where s1: "step (malloc s) s op = Some (fst (deque_next (malloc s \<noteq> NULL) xs op), s1)"
      "repr s1 (snd (deque_next (malloc s \<noteq> NULL) xs op))"
    using step_ok[OF Cons.prems, of "malloc s" op] assms(2) by blast
  from Cons.IH[OF s1(2)] obtain outs s' where r: "run_ops step malloc s1 ops = Some (outs, s')" "length outs = length ops"
    "map fst outs = fst (deque_run (snd (deque_next (malloc s \<noteq> NULL) xs op)) (zip (map snd outs) ops))"
    "repr s' (snd (deque_run (snd (deque_next (malloc s \<noteq> NULL) xs op)) (zip (map snd outs) ops)))" by blast
  then show ?case using s1(1) by (auto simp: case_prod_unfold Let_def)
qed simp

end


section \<open>Sorted containers: avl-tree.c\<close>

text \<open>A client that inserts entries one after the other.\<close>

primrec ins_all :: "('e \<Rightarrow> 's \<Rightarrow> 's option) \<Rightarrow> 'e list \<Rightarrow> 's \<Rightarrow> 's option" where
  "ins_all ins [] s = Some s"
| "ins_all ins (e # es) s = do { s \<leftarrow> ins e s; ins_all ins es s }"

text \<open>
  \<open>repr s xs\<close>: the container \<open>s\<close> holds the entries \<open>xs\<close> in this order; \<open>fits s e\<close>: the memory for \<open>e\<close>, at
  \<open>place e\<close>, is not in use; \<open>cap\<close>: how many entries the container can hold.
\<close>

locale sorted_container =
  fixes repr :: "'s \<Rightarrow> 'e list \<Rightarrow> bool" and le :: "'s \<Rightarrow> 'e \<Rightarrow> 'e \<Rightarrow> bool" and ins :: "'e \<Rightarrow> 's \<Rightarrow> 's option"
    and fits :: "'s \<Rightarrow> 'e \<Rightarrow> bool" and place :: "'e \<Rightarrow> addr" and cap :: nat
  assumes repr_sorted: "repr s xs \<Longrightarrow> sorted_wrt (le s) xs"
    and ins_ok: "repr s xs \<Longrightarrow> length xs < cap \<Longrightarrow> fits s e \<Longrightarrow>
      \<exists>s' ys zs. ins e s = Some s' \<and> xs = ys @ zs \<and> repr s' (ys @ e # zs) \<and> le s' = le s \<and>
        (\<forall>d. fits s d \<longrightarrow> place d \<noteq> place e \<longrightarrow> fits s' d)"
begin

lemma ins_all_ok:
  assumes "repr s xs" "length xs + length es \<le> cap" "distinct (map place es)" "\<forall>e \<in> set es. fits s e"
  shows "\<exists>s' ys. ins_all ins es s = Some s' \<and> repr s' ys \<and> sorted_wrt (le s) ys \<and> mset ys = mset xs + mset es"
  using assms
proof (induction es arbitrary: s xs)
  case Nil
  then show ?case using repr_sorted by auto
next
  case (Cons e es)
  from ins_ok[OF Cons.prems(1), of e] Cons.prems(2,4) obtain s1 ys zs where
    s1: "ins e s = Some s1" "xs = ys @ zs" "repr s1 (ys @ e # zs)" "le s1 = le s"
      "\<forall>d. fits s d \<longrightarrow> place d \<noteq> place e \<longrightarrow> fits s1 d" by auto
  have "\<forall>d \<in> set es. fits s1 d" using s1(5) Cons.prems(3,4) by (metis distinct.simps(2) image_eqI list.map(2) list.set_intros(2) list.set_map)
  from Cons.IH[OF s1(3) _ _ this] Cons.prems(2,3) s1(2) obtain s' ws where
    "ins_all ins es s1 = Some s'" "repr s' ws" "sorted_wrt (le s1) ws" "mset ws = mset (ys @ e # zs) + mset es" by auto
  then show ?case using s1 by auto
qed

end


section \<open>Maps whose insertions may fail: trie.c\<close>

datatype ('k, 'v) map_op = Put 'k "'v option" | Delete 'k | Get 'k

datatype 'v map_out = Done bool | Found "'v option"

fun op_key :: "('k, 'v) map_op \<Rightarrow> 'k" where
  "op_key (Put k v) = k"
| "op_key (Delete k) = k"
| "op_key (Get k) = k"

text \<open>
  The specification: \<open>name\<close> is what of a key matters. The flag says whether memory is available;
  without it only the value of a key that is present can be replaced. The value NULL is never stored.
\<close>

fun map_next :: "('k \<Rightarrow> 'n) \<Rightarrow> bool \<Rightarrow> ('n \<rightharpoonup> 'v) \<Rightarrow> ('k, 'v) map_op \<Rightarrow> 'v map_out \<times> ('n \<rightharpoonup> 'v)" where
  "map_next name mem m (Put k None) = (Done False, m)"
| "map_next name mem m (Put k (Some v)) =
     (if mem \<or> m (name k) \<noteq> None then (Done True, m(name k \<mapsto> v)) else (Done False, m))"
| "map_next name mem m (Delete k) = (Done (m (name k) \<noteq> None), m(name k := None))"
| "map_next name mem m (Get k) = (Found (m (name k)), m)"

fun map_run :: "('k \<Rightarrow> 'n) \<Rightarrow> ('n \<rightharpoonup> 'v) \<Rightarrow> (bool \<times> ('k, 'v) map_op) list \<Rightarrow> 'v map_out list \<times> ('n \<rightharpoonup> 'v)" where
  "map_run name m [] = ([], m)"
| "map_run name m ((mem, op) # ops) =
     (let (out, m') = map_next name mem m op; (outs, m'') = map_run name m' ops in (out # outs, m''))"

text \<open>The operations of an implementation, each with the pointers that its allocations return.\<close>

fun run_map :: "(ptr list \<Rightarrow> 's \<Rightarrow> ('k, 'v) map_op \<Rightarrow> ('v map_out \<times> 's) option) \<Rightarrow> ('s \<Rightarrow> ptr list) \<Rightarrow> 's \<Rightarrow> ('k, 'v) map_op list \<Rightarrow>
    ('v map_out list \<times> 's) option" where
  "run_map step alloc s [] = Some ([], s)"
| "run_map step alloc s (op # ops) = do {
     (out, s) \<leftarrow> step (alloc s) s op;
     (outs, s) \<leftarrow> run_map step alloc s ops;
     Some (out # outs, s)
   }"

lemma map_next_card: "finite (dom m) \<Longrightarrow> finite (dom (snd (map_next name mem m op))) \<and> card (dom (snd (map_next name mem m op))) \<le> Suc (card (dom m))"
  by (induction name mem m op rule: map_next.induct) (auto simp: card_insert_if intro: le_SucI card_Diff1_le)

locale map_machine =
  fixes repr :: "'s \<Rightarrow> ('n \<rightharpoonup> 'v) \<Rightarrow> bool" and name :: "'k \<Rightarrow> 'n" and legal :: "'k \<Rightarrow> bool"
    and step :: "ptr list \<Rightarrow> 's \<Rightarrow> ('k, 'v) map_op \<Rightarrow> ('v map_out \<times> 's) option"
    and unused :: "'s \<Rightarrow> ptr list \<Rightarrow> bool" and enough :: "('k, 'v) map_op \<Rightarrow> ptr list \<Rightarrow> bool" and limit :: nat
  assumes step_ok: "repr s m \<Longrightarrow> legal (op_key op) \<Longrightarrow> unused s ms \<Longrightarrow> card (dom m) < limit \<Longrightarrow>
      \<exists>mem s'. step ms s op = Some (fst (map_next name mem m op), s') \<and> repr s' (snd (map_next name mem m op)) \<and> (enough op ms \<longrightarrow> mem)"
    and repr_finite: "repr s m \<Longrightarrow> finite (dom m)"
begin

text \<open>
  Every sequence of operations succeeds and returns what the specification does, for some outcome
  of the allocations; if memory is never short, that is the outcome in which all of them succeed.
\<close>

lemma run_map_refines:
  assumes "repr s m" "\<And>s. unused s (alloc s)" "\<And>op. op \<in> set ops \<Longrightarrow> legal (op_key op)" "card (dom m) + length ops \<le> limit"
  shows "\<exists>outs s' mems. run_map step alloc s ops = Some (outs, s') \<and> length mems = length ops \<and>
           outs = fst (map_run name m (zip mems ops)) \<and> repr s' (snd (map_run name m (zip mems ops))) \<and>
           ((\<forall>op \<in> set ops. \<forall>s. enough op (alloc s)) \<longrightarrow> mems = replicate (length ops) True)"
  using assms(1,3,4)
proof (induction ops arbitrary: s m)
  case (Cons op ops)
  have "legal (op_key op)" "card (dom m) < limit" using Cons.prems(2,3) by auto
  from step_ok[OF Cons.prems(1) this(1) assms(2) this(2)] obtain mem s1 where
    s1: "step (alloc s) s op = Some (fst (map_next name mem m op), s1)" "repr s1 (snd (map_next name mem m op))" "enough op (alloc s) \<longrightarrow> mem" by blast
  have "card (dom (snd (map_next name mem m op))) + length ops \<le> limit"
    using map_next_card[OF repr_finite[OF Cons.prems(1)], of name mem op] Cons.prems(3) by auto
  from Cons.IH[OF s1(2) _ this] Cons.prems(2) obtain outs s' mems where
    r: "run_map step alloc s1 ops = Some (outs, s')" "length mems = length ops"
      "outs = fst (map_run name (snd (map_next name mem m op)) (zip mems ops))"
      "repr s' (snd (map_run name (snd (map_next name mem m op)) (zip mems ops)))"
      "(\<forall>op \<in> set ops. \<forall>s. enough op (alloc s)) \<longrightarrow> mems = replicate (length ops) True" by force
  show ?case by (intro exI[of _ "fst (map_next name mem m op) # outs"] exI[of _ s'] exI[of _ "mem # mems"])
      (use s1 r in \<open>auto simp: case_prod_unfold Let_def\<close>)
qed simp

end

end
