(* ===== verification/Binary_Heap.thy ===== *)
theory Binary_Heap
  imports Compare Interfaces
begin

text \<open>
  The array heap of \<open>src/src/comm/binary-heap.c\<close>.
\<close>

datatype BinaryHeapType = BINARY_HEAP_TYPE_MIN | BINARY_HEAP_TYPE_MAX

record 'v BinaryHeap =
  bh_type :: BinaryHeapType
  bh_values :: "'v array"
  bh_num_values :: int
  bh_alloced_size :: int
  bh_compare_func :: "'v cmp_func"

definition binary_heap_cmp :: "'v BinaryHeap \<Rightarrow> 'v \<Rightarrow> 'v \<Rightarrow> int option" where
  "binary_heap_cmp heap data1 data2 =
     (if bh_type heap = BINARY_HEAP_TYPE_MIN then Some (bh_compare_func heap data1 data2)
      else c_int (- bh_compare_func heap data1 data2))"

definition binary_heap_new :: "bool \<Rightarrow> bool \<Rightarrow> BinaryHeapType \<Rightarrow> 'v cmp_func \<Rightarrow> 'v BinaryHeap option" where
  "binary_heap_new m1 m2 heap_type compare_func =
     (if \<not> m1 then None
      else if \<not> m2 then None
      else Some \<lparr>bh_type = heap_type, bh_values = replicate 16 None, bh_num_values = 0,
                 bh_alloced_size = 16, bh_compare_func = compare_func\<rparr>)"

definition binary_heap_free :: "'v BinaryHeap \<Rightarrow> block list" where
  "binary_heap_free heap = [DataBlock, StructBlock]"

text \<open>The loop that percolates \<open>v\<close> up from the free cell \<open>index\<close>.\<close>

function binary_heap_percolate_up ::
  "'v BinaryHeap \<Rightarrow> 'v \<Rightarrow> 'v array \<Rightarrow> int \<Rightarrow> ('v array \<times> int) option" where
  "binary_heap_percolate_up heap v vals index =
     (if index > 0 then let parent = (index - 1) div 2 in do {
        p \<leftarrow> arr_get vals parent;
        c \<leftarrow> binary_heap_cmp heap p v;
        if c < 0 then Some (vals, index)
        else do {
          vals \<leftarrow> arr_set vals index p;
          binary_heap_percolate_up heap v vals parent
        }
      }
      else Some (vals, index))"
  by pat_completeness auto
termination by (relation "measure (\<lambda>(heap, v, vals, index). nat index)") auto

declare binary_heap_percolate_up.simps [simp del]

definition binary_heap_insert :: "bool \<Rightarrow> 'v BinaryHeap \<Rightarrow> 'v \<Rightarrow> (int \<times> 'v BinaryHeap) option" where
  "binary_heap_insert m heap v = do {
     (ok, heap) \<leftarrow>
       (if bh_num_values heap \<ge> bh_alloced_size heap then do {
          newsize \<leftarrow> c_int (bh_alloced_size heap * 2);
          if \<not> m then Some (False, heap)
          else Some (True, heap\<lparr>bh_alloced_size := newsize,
                 bh_values := bh_values heap @ replicate (nat newsize - length (bh_values heap)) None\<rparr>)
        }
        else Some (True, heap));
     if \<not> ok then Some (0, heap)
     else do {
       let index = bh_num_values heap;
       n \<leftarrow> c_int (bh_num_values heap + 1);
       let heap = heap\<lparr>bh_num_values := n\<rparr>;
       (vals, index) \<leftarrow> binary_heap_percolate_up heap v (bh_values heap) index;
       vals \<leftarrow> arr_set vals index v;
       Some (1, heap\<lparr>bh_values := vals\<rparr>)
     }
   }"

text \<open>
  The loop that percolates the value \<open>new_value\<close> down from the free cell \<open>index\<close>. The second
  comparison of each condition is only made when the child exists.
\<close>

definition binary_heap_child_greater :: "'v BinaryHeap \<Rightarrow> 'v array \<Rightarrow> 'v \<Rightarrow> int \<Rightarrow> bool option" where
  "binary_heap_child_greater heap vals v child =
     (if child < bh_num_values heap then do {
        x \<leftarrow> arr_get vals child;
        c \<leftarrow> binary_heap_cmp heap v x;
        Some (c > 0)
      }
      else Some False)"

function binary_heap_percolate_down ::
  "'v BinaryHeap \<Rightarrow> 'v \<Rightarrow> 'v array \<Rightarrow> int \<Rightarrow> 'v array option" where
  "binary_heap_percolate_down heap new_value vals index = do {
     child1 \<leftarrow> c_int (index * 2 + 1);
     child2 \<leftarrow> c_int (index * 2 + 2);
     g1 \<leftarrow> binary_heap_child_greater heap vals new_value child1;
     next_index \<leftarrow>
       (if g1 then do {
          x1 \<leftarrow> arr_get vals child1;
          g12 \<leftarrow> binary_heap_child_greater heap vals x1 child2;
          Some (Some (if g12 then child2 else child1))
        }
        else do {
          g2 \<leftarrow> binary_heap_child_greater heap vals new_value child2;
          Some (if g2 then Some child2 else None)
        });
     case next_index of
       None \<Rightarrow> arr_set vals index new_value
     | Some next_index \<Rightarrow>
         do {
           x \<leftarrow> arr_get vals next_index;
           vals \<leftarrow> arr_set vals index x;
           binary_heap_percolate_down heap new_value vals next_index
         }
   }"
  by pat_completeness auto
termination
proof (relation "measure (\<lambda>(heap, new_value, vals, index). nat (bh_num_values heap - index))")
qed (auto simp: c_int_eq_Some_iff bind_eq_Some_conv binary_heap_child_greater_def arr_set_def
       split: if_splits)

declare binary_heap_percolate_down.simps [simp del]

definition binary_heap_pop :: "'v BinaryHeap \<Rightarrow> ('v option \<times> 'v BinaryHeap) option" where
  "binary_heap_pop heap =
     (if bh_num_values heap = 0 then Some (None, heap)
      else do {
        result \<leftarrow> arr_get (bh_values heap) 0;
        new_value \<leftarrow> arr_get (bh_values heap) (bh_num_values heap - 1);
        let heap = heap\<lparr>bh_num_values := bh_num_values heap - 1\<rparr>;
        vals \<leftarrow> binary_heap_percolate_down heap new_value (bh_values heap) 0;
        Some (Some result, heap\<lparr>bh_values := vals\<rparr>)
      })"

definition binary_heap_num_entries :: "'v BinaryHeap \<Rightarrow> int" where
  "binary_heap_num_entries heap = bh_num_values heap"


section \<open>Heap order on lists\<close>

definition par :: "nat \<Rightarrow> nat" where
  "par i = (i - 1) div 2"

lemma par_less [simp]: "0 < i \<Longrightarrow> par i < i"
  by (simp add: par_def)

lemma par_le: "par i \<le> i"
  by (simp add: par_def)

lemma par_child: "0 < i \<Longrightarrow> par i = k \<longleftrightarrow> i = 2 * k + 1 \<or> i = 2 * k + 2"
  by (auto simp: par_def)

definition heap_ordered :: "'v cmp_func \<Rightarrow> 'v list \<Rightarrow> bool" where
  "heap_ordered cmp vs \<longleftrightarrow> (\<forall>i. 0 < i \<and> i < length vs \<longrightarrow> cmp (vs ! par i) (vs ! i) \<le> 0)"

text \<open>
  While a value percolates, the order may fail at its cell \<open>k\<close>: towards the parent on the way up,
  towards the children on the way down. The parent of \<open>k\<close> is still below the children of \<open>k\<close>.
\<close>

definition bridged :: "'v cmp_func \<Rightarrow> nat \<Rightarrow> 'v list \<Rightarrow> bool" where
  "bridged cmp k vs \<longleftrightarrow>
     (\<forall>i. 0 < k \<and> 0 < i \<and> i < length vs \<and> par i = k \<longrightarrow> cmp (vs ! par k) (vs ! i) \<le> 0)"

definition up_ordered :: "'v cmp_func \<Rightarrow> nat \<Rightarrow> 'v list \<Rightarrow> bool" where
  "up_ordered cmp k vs \<longleftrightarrow> bridged cmp k vs \<and>
     (\<forall>i. 0 < i \<and> i < length vs \<and> i \<noteq> k \<longrightarrow> cmp (vs ! par i) (vs ! i) \<le> 0)"

definition down_ordered :: "'v cmp_func \<Rightarrow> nat \<Rightarrow> 'v list \<Rightarrow> bool" where
  "down_ordered cmp k vs \<longleftrightarrow> bridged cmp k vs \<and>
     (\<forall>i. 0 < i \<and> i < length vs \<and> par i \<noteq> k \<longrightarrow> cmp (vs ! par i) (vs ! i) \<le> 0)"

context comparator
begin

lemma up_ordered_swap:
  assumes "up_ordered cmp k vs" and "0 < k" "k < length vs" and "cmp (vs ! k) (vs ! par k) \<le> 0"
  shows "up_ordered cmp (par k) (vs[k := vs ! par k, par k := vs ! k])"
proof -
  have e: "cmp (vs ! par i) (vs ! i) \<le> 0" if "0 < i" "i < length vs" "i \<noteq> k" for i
    using assms(1) that by (auto simp: up_ordered_def)
  have b: "cmp (vs ! par k) (vs ! i) \<le> 0" if "0 < i" "i < length vs" "par i = k" for i
    using assms(1,2) that by (auto simp: up_ordered_def bridged_def)
  have t: "cmp (vs ! k) (vs ! i) \<le> 0" if "0 < i" "i < length vs" "par i = par k" "i \<noteq> k" for i
    using cmp_trans[OF assms(4)] e[of i] that by simp
  have u: "cmp (vs ! par (par k)) (vs ! i) \<le> 0"
    if "0 < par k" "0 < i" "i < length vs" "par i = par k" "i \<noteq> k" for i
  proof -
    have "par k < k" using assms(2) by simp
    then have "cmp (vs ! par (par k)) (vs ! par k) \<le> 0" using e[of "par k"] assms(3) that(1) by simp
    moreover have "cmp (vs ! par k) (vs ! i) \<le> 0" using e[of i] that by simp
    ultimately show ?thesis using cmp_trans by blast
  qed
  have l: "par k < length vs" "par k \<noteq> k" "0 < par k \<Longrightarrow> par (par k) < par k" "par (par k) < k"
    using assms(2,3) par_less[of k] par_less[of "par k"] par_le[of "par k"] by linarith+
  let ?ws = "vs[k := vs ! par k, par k := vs ! k]"
  have w: "?ws ! i = (if i = par k then vs ! k else if i = k then vs ! par k else vs ! i)"
    if "i < length vs" for i using that by (simp add: nth_list_update)
  have "cmp (?ws ! par i) (?ws ! i) \<le> 0" if i: "0 < i" "i < length vs" "i \<noteq> par k" for i
  proof -
    have "par i < length vs" using i par_less[of i] by linarith
    then show ?thesis using i l assms(4) e[of i] b[of i] t[of i] unfolding w[OF i(2)]
      by (auto simp: w)
  qed
  moreover have "cmp (?ws ! par (par k)) (?ws ! i) \<le> 0"
    if i: "0 < par k" "0 < i" "i < length vs" "par i = par k" for i
  proof -
    have "i \<noteq> par k" using i par_less[of i] by linarith
    moreover have "cmp (vs ! par (par k)) (vs ! par k) \<le> 0" using e i(1) l by simp
    moreover have "par (par k) < length vs" using l assms(3) by linarith
    moreover have "par (par k) \<noteq> par k" using l(3)[OF i(1)] by simp
    ultimately show ?thesis using i l u[of i] unfolding w[OF i(3)] by (auto simp: w)
  qed
  ultimately show ?thesis by (simp add: up_ordered_def bridged_def)
qed

lemma up_ordered_done:
  assumes "up_ordered cmp k vs" and "k = 0 \<or> cmp (vs ! par k) (vs ! k) \<le> 0"
  shows "heap_ordered cmp vs"
  using assms by (auto simp: up_ordered_def heap_ordered_def)

lemma down_ordered_swap:
  assumes "down_ordered cmp k vs" and "0 < c" "c < length vs" "par c = k"
    and "cmp (vs ! c) (vs ! k) \<le> 0"
    and "\<And>i. 0 < i \<Longrightarrow> i < length vs \<Longrightarrow> par i = k \<Longrightarrow> cmp (vs ! c) (vs ! i) \<le> 0"
  shows "down_ordered cmp c (vs[k := vs ! c, c := vs ! k])"
proof -
  have e: "cmp (vs ! par i) (vs ! i) \<le> 0" if "0 < i" "i < length vs" "par i \<noteq> k" for i
    using assms(1) that by (auto simp: down_ordered_def)
  have b: "cmp (vs ! par k) (vs ! c) \<le> 0" if "0 < k"
    using assms(1-4) that by (auto simp: down_ordered_def bridged_def)
  have l: "k < c" "k < length vs" using assms(2-4) par_less[of c] by linarith+
  let ?ws = "vs[k := vs ! c, c := vs ! k]"
  have w: "?ws ! i = (if i = c then vs ! k else if i = k then vs ! c else vs ! i)"
    if "i < length vs" for i using that l by (simp add: nth_list_update)
  have "cmp (?ws ! par i) (?ws ! i) \<le> 0" if i: "0 < i" "i < length vs" "par i \<noteq> c" for i
  proof -
    have "par i < length vs" using i par_less[of i] by linarith
    moreover have "i = k \<Longrightarrow> par i \<noteq> k" using i(1) par_less[of i] by linarith
    ultimately show ?thesis using i l assms(4-6) e[of i] b unfolding w[OF i(2)] w[of "par i", OF \<open>par i < length vs\<close>]
      by auto
  qed
  moreover have "cmp (?ws ! par c) (?ws ! i) \<le> 0" if i: "0 < i" "i < length vs" "par i = c" for i
  proof -
    have "i \<noteq> c" "i \<noteq> k" using i l par_less[of i] by linarith+
    then show ?thesis using i l assms(4) e[of i] by (simp add: w)
  qed
  ultimately show ?thesis by (simp add: down_ordered_def bridged_def)
qed

lemma down_ordered_done:
  assumes "down_ordered cmp k vs"
    and "\<And>i. 0 < i \<Longrightarrow> i < length vs \<Longrightarrow> par i = k \<Longrightarrow> cmp (vs ! k) (vs ! i) \<le> 0"
  shows "heap_ordered cmp vs"
  using assms by (auto simp: down_ordered_def heap_ordered_def)

lemma heap_root_least:
  assumes "heap_ordered cmp vs" and "i < length vs"
  shows "cmp (vs ! 0) (vs ! i) \<le> 0"
  using assms(2)
proof (induction i rule: less_induct)
  case (less i)
  show ?case
  proof (cases "i = 0")
    case True then show ?thesis using cmp_refl by simp
  next
    case False
    then have "cmp (vs ! par i) (vs ! i) \<le> 0" using assms(1) less.prems
      by (simp add: heap_ordered_def)
    moreover have "cmp (vs ! 0) (vs ! par i) \<le> 0"
      using less.IH[of "par i"] False less.prems par_less[of i] by linarith
    ultimately show ?thesis using cmp_trans by blast
  qed
qed

end

lemma up_ordered_snoc:
  assumes "heap_ordered cmp vs"
  shows "up_ordered cmp (length vs) (vs @ [v])"
proof -
  have "par i < length vs" "par i \<noteq> length vs" if "i < Suc (length vs)" "0 < i" for i
    using par_less[of i] that by linarith+
  then show ?thesis using assms
    by (auto simp: heap_ordered_def up_ordered_def bridged_def nth_append)
qed

lemma down_ordered_replace_root:
  assumes "heap_ordered cmp vs"
  shows "down_ordered cmp 0 ((butlast vs)[0 := v])"
proof -
  have "par i < length vs - 1" if "i < length vs - 1" "0 < i" for i
    using par_less[of i] that by linarith
  then show ?thesis using assms
    by (auto simp: heap_ordered_def down_ordered_def bridged_def nth_list_update nth_butlast)
qed


section \<open>The invariant of a heap and its operations\<close>

text \<open>The order of a heap: that of the comparison function, or its converse in a max-heap.\<close>

definition bh_order :: "'v BinaryHeap \<Rightarrow> 'v cmp_func" where
  "bh_order h = (if bh_type h = BINARY_HEAP_TYPE_MIN then bh_compare_func h
                 else (\<lambda>x y. - bh_compare_func h x y))"

definition bh_contents :: "'v BinaryHeap \<Rightarrow> 'v list" where
  "bh_contents h = map the (take (nat (bh_num_values h)) (bh_values h))"

definition bh_inv :: "'v BinaryHeap \<Rightarrow> bool" where
  "bh_inv h \<longleftrightarrow> bounded_comparator (bh_compare_func h) \<and>
     0 \<le> bh_num_values h \<and> bh_num_values h \<le> bh_alloced_size h \<and>
     bh_alloced_size h = int (length (bh_values h)) \<and>
     (\<exists>m \<le> 30. length (bh_values h) = 2 ^ m) \<and>
     arr_holds (bh_values h) (bh_contents h) \<and> heap_ordered (bh_order h) (bh_contents h)"

lemma bh_order_comparator: "bounded_comparator (bh_compare_func h) \<Longrightarrow> comparator (bh_order h)"
  using bounded_comparator.neg_bounded
  by (auto simp: bh_order_def bounded_comparator_def)

lemma binary_heap_cmp_ok:
  "bounded_comparator (bh_compare_func h) \<Longrightarrow> binary_heap_cmp h x y = Some (bh_order h x y)"
  by (auto simp: binary_heap_cmp_def bh_order_def bounded_comparator.c_int_neg_cmp)

lemma length_bh_contents: "bh_inv h \<Longrightarrow> length (bh_contents h) = nat (bh_num_values h)"
  by (simp add: bh_inv_def bh_contents_def nat_le_iff)

lemma bh_capacity: "bh_inv h \<Longrightarrow> bh_alloced_size h \<le> 1073741824"
  using power_increasing[of _ 30 "2::nat"] by (auto simp: bh_inv_def)

lemma bh_contents_eq: "arr_holds (bh_values h) vs \<Longrightarrow> bh_num_values h = int (length vs) \<Longrightarrow> bh_contents h = vs"
  by (simp add: bh_contents_def arr_holds_def)

lemma arr_holds_swap:
  assumes "arr_holds (vals[k := Some v]) ws" and "k < length ws" "j < length ws"
  shows "arr_holds (vals[k := Some (ws ! j), j := Some v]) (ws[k := ws ! j, j := v])"
  using arr_holds_update[OF arr_holds_update[OF assms(1,2), of "ws ! j"], of j v] assms(3) by simp

lemma arr_hole_get:
  assumes "arr_holds (vals[k := Some v]) ws" and "j \<noteq> k" "j < length ws"
  shows "arr_get vals (int j) = Some (ws ! j)"
  using assms by (auto simp: arr_holds_iff arr_get_def dest!: spec[of _ j])

lemma int_par: "0 < k \<Longrightarrow> (int k - 1) div 2 = int (par k)"
  by (simp add: par_def zdiv_int)

lemma percolate_up_ok:
  assumes "bounded_comparator (bh_compare_func h)" and "arr_holds (vals[k := Some v]) ws"
    and "k < length ws" "ws ! k = v" "up_ordered (bh_order h) k ws"
  shows "\<exists>vals' j ws'. binary_heap_percolate_up h v vals (int k) = Some (vals', int j) \<and>
           j < length ws' \<and> length vals' = length vals \<and> arr_holds (vals'[j := Some v]) ws' \<and>
           mset ws' = mset ws \<and> heap_ordered (bh_order h) ws'"
  using assms(2-)
proof (induction k arbitrary: vals ws rule: less_induct)
  case (less k)
  note simps = binary_heap_percolate_up.simps[of h v vals "int k"] binary_heap_cmp_ok[OF assms(1)]
  note order = bh_order_comparator[OF assms(1)]
  show ?case
  proof (cases "0 < k \<and> \<not> bh_order h (ws ! par k) v < 0")
    case True
    let ?p = "par k"
    have p: "?p < k" "?p < length ws" "k < length vals"
      using True less.prems(2) arr_holds_length[OF less.prems(1)] less_trans[OF par_less[of k]] by auto
    have v: "bh_order h v (ws ! ?p) \<le> 0" using True comparator.cmp_not_less[OF order] by blast
    let ?ws = "ws[k := ws ! ?p, ?p := v]"
    have "up_ordered (bh_order h) ?p ?ws"
      using comparator.up_ordered_swap[OF order less.prems(4) _ less.prems(2)] True v less.prems(3) by simp
    then obtain vals' j ws' where r:
        "binary_heap_percolate_up h v (vals[k := Some (ws ! ?p)]) (int ?p) = Some (vals', int j)"
        "j < length ws'" "length vals' = length vals" "arr_holds (vals'[j := Some v]) ws'"
        "mset ws' = mset ?ws" "heap_ordered (bh_order h) ws'"
      using less.IH[OF p(1) arr_holds_swap[OF less.prems(1,2) p(2)]] p(2) by auto
    have "mset ?ws = mset ws" using mset_swap[of ?p ws k] less.prems(2,3) p(2) by simp
    moreover have "binary_heap_percolate_up h v vals (int k) = Some (vals', int j)"
      using True p r(1) arr_hole_get[OF less.prems(1) _ p(2)]
      by (auto simp: simps int_par arr_set_def Let_def)
    ultimately show ?thesis using r by metis
  next
    case False
    then have "heap_ordered (bh_order h) ws"
      using comparator.up_ordered_done[OF order less.prems(4)] less.prems(3) by force
    moreover have "binary_heap_percolate_up h v vals (int k) = Some (vals, int k)"
    proof (cases "k = 0")
      case False
      then have "par k \<noteq> k" "par k < length ws" using par_less[of k] less.prems(2) by linarith+
      then show ?thesis using \<open>\<not> (0 < k \<and> _)\<close> False arr_hole_get[OF less.prems(1), of "par k"]
        by (auto simp: simps int_par Let_def)
    qed (use simps(1) in simp)
    ultimately show ?thesis using less.prems by metis
  qed
qed

lemma bh_child_greater_ok:
  assumes "bounded_comparator (bh_compare_func h)" and "arr_holds (vals[k := Some v]) ws"
    and "bh_num_values h = int (length ws)" "c \<noteq> k"
  shows "binary_heap_child_greater h vals x (int c) =
           Some (c < length ws \<and> bh_order h x (ws ! c) > 0)"
  using assms(3) arr_hole_get[OF assms(2,4)]
  by (auto simp: binary_heap_child_greater_def binary_heap_cmp_ok[OF assms(1)])

lemma percolate_down_step:
  assumes "bounded_comparator (bh_compare_func h)" "bh_num_values h = int (length ws)"
    and "2 * int (length ws) \<le> INT_MAX" and "arr_holds (vals[k := Some v]) ws" and "k < length ws"
    and "i \<in> {2 * k + 1, 2 * k + 2}" "i < length ws" "bh_order h v (ws ! i) > 0"
  shows "\<exists>c. 0 < c \<and> c < length ws \<and> par c = k \<and> bh_order h (ws ! c) v \<le> 0 \<and>
           (\<forall>j. 0 < j \<and> j < length ws \<and> par j = k \<longrightarrow> bh_order h (ws ! c) (ws ! j) \<le> 0) \<and>
           binary_heap_percolate_down h v vals (int k) =
             binary_heap_percolate_down h v (vals[k := Some (ws ! c)]) (int c)"
proof -
  have swap: "bh_order h x y < 0 \<longleftrightarrow> 0 < bh_order h y x" and refl0: "bh_order h x x = 0"
    and trans0: "bh_order h x y \<le> 0 \<Longrightarrow> bh_order h y z \<le> 0 \<Longrightarrow> bh_order h x z \<le> 0"
    and less_trans: "0 < bh_order h x y \<Longrightarrow> 0 < bh_order h y z \<Longrightarrow> 0 < bh_order h x z" for x y z
    using bh_order_comparator[OF assms(1)]
    by (metis comparator.cmp_swap, metis comparator.cmp_refl, metis comparator.cmp_trans,
        metis comparator.cmp_swap comparator.cmp_less_trans1 order_less_imp_le)
  obtain c1 c2 where c12: "c1 = 2 * k + 1" "c2 = 2 * k + 2" by blast
  have n: "c1 \<noteq> k" "c2 \<noteq> k" "c1 \<noteq> c2" using c12 by auto
  let ?g1 = "c1 < length ws \<and> bh_order h v (ws ! c1) > 0"
  let ?g12 = "c2 < length ws \<and> bh_order h (ws ! c1) (ws ! c2) > 0"
  define c where "c = (if ?g1 \<and> \<not> ?g12 then c1 else c2)"
  have cc: "c = c1 \<or> c = c2" by (simp add: c_def)
  have g2: "c2 < length ws \<and> bh_order h v (ws ! c2) > 0" if "\<not> ?g1" using assms(6-8) that c12 by auto
  have c: "c < length ws" "par c = k" "0 < c" "c \<noteq> k" using g2 n c12 by (auto simp: c_def par_child)
  have "bh_order h v (ws ! c) > 0"
    using g2 less_trans[of v "ws ! c1" "ws ! c2"] by (auto simp: c_def)
  then have v: "bh_order h (ws ! c) v \<le> 0" using swap by (metis order_less_imp_le)
  have m: "bh_order h (ws ! c) (ws ! j) \<le> 0" if j: "0 < j" "j < length ws" "par j = k" for j
  proof -
    consider "j = c" | "j = c1" "c = c2" | "j = c2" "c = c1"
      using j(3) par_child[OF j(1), of k] cc unfolding c12[symmetric] by blast
    then show ?thesis
    proof cases
      case 1 then show ?thesis using refl0 by simp
    next
      case 2
      then have "?g12 \<or> bh_order h v (ws ! c1) \<le> 0" using j n(3) by (auto simp: c_def split: if_splits)
      then show ?thesis using 2 v trans0[OF v] swap[of "ws ! c2" "ws ! c1"] by auto
    next
      case 3 then show ?thesis using j n(3) by (auto simp: c_def split: if_splits)
    qed
  qed
  have child: "c_int (int k * 2 + 1) = Some (int c1)" "c_int (int k * 2 + 2) = Some (int c2)"
    using assms(3,5) c12 by (auto intro!: c_int_nonneg)
  have g: "binary_heap_child_greater h vals x (int j) = Some (j < length ws \<and> bh_order h x (ws ! j) > 0)"
    if "j \<noteq> k" for x j using bh_child_greater_ok[OF assms(1,4,2) that] .
  have get: "arr_get vals (int j) = Some (ws ! j)" if "j \<noteq> k" "j < length ws" for j
    using arr_hole_get[OF assms(4) that] .
  have "k < length vals" using assms(4,5) arr_holds_length by fastforce
  then have "binary_heap_percolate_down h v vals (int k) =
      binary_heap_percolate_down h v (vals[k := Some (ws ! c)]) (int c)"
    using g2 n by (auto simp: binary_heap_percolate_down.simps[of h v vals "int k"] child g get
        arr_set_def c_def)
  then show ?thesis using c v m by blast
qed

lemma percolate_down_ok:
  assumes "bounded_comparator (bh_compare_func h)" "bh_num_values h = int (length ws)"
    and "2 * int (length ws) \<le> INT_MAX" and "arr_holds (vals[k := Some v]) ws"
    and "k < length ws" "ws ! k = v" "down_ordered (bh_order h) k ws"
  shows "\<exists>vals' ws'. binary_heap_percolate_down h v vals (int k) = Some vals' \<and>
           length vals' = length vals \<and> arr_holds vals' ws' \<and>
           mset ws' = mset ws \<and> heap_ordered (bh_order h) ws'"
  using assms(2-)
proof (induction "length ws - k" arbitrary: vals ws k rule: less_induct)
  case less
  note order = bh_order_comparator[OF assms(1)]
  obtain c1 c2 where c12: "c1 = 2 * k + 1" "c2 = 2 * k + 2" by blast
  have child: "c_int (int k * 2 + 1) = Some (int c1)" "c_int (int k * 2 + 2) = Some (int c2)"
    using less.prems(2,4) c12 by (auto intro!: c_int_nonneg)
  have g: "binary_heap_child_greater h vals x (int c) = Some (c < length ws \<and> bh_order h x (ws ! c) > 0)"
    if "c \<noteq> k" for x c using bh_child_greater_ok[OF assms(1) less.prems(3,1) that] .
  have k: "k < length vals" using less.prems(3,4) arr_holds_length by fastforce
  note simps = binary_heap_percolate_down.simps[of h v vals "int k"] child
  show ?case
  proof (cases "\<exists>c \<in> {c1, c2}. c < length ws \<and> bh_order h v (ws ! c) > 0")
    case True
    then obtain i where i: "i \<in> {c1, c2}" "i < length ws" "bh_order h v (ws ! i) > 0" by blast
    obtain c where c: "0 < c" "c < length ws" "par c = k" "bh_order h (ws ! c) v \<le> 0"
        "\<And>j. 0 < j \<Longrightarrow> j < length ws \<Longrightarrow> par j = k \<Longrightarrow> bh_order h (ws ! c) (ws ! j) \<le> 0"
        and e: "binary_heap_percolate_down h v vals (int k) =
           binary_heap_percolate_down h v (vals[k := Some (ws ! c)]) (int c)"
      using percolate_down_step[OF assms(1) less.prems(1-4) _ i(2,3)] i(1) c12 by blast
    let ?ws = "ws[k := ws ! c, c := v]"
    have "down_ordered (bh_order h) c ?ws"
      using comparator.down_ordered_swap[OF order less.prems(6) c(1-3)] c(4,5) less.prems(5) by simp
    moreover have "k < c" using c(1,3) par_less[of c] by simp
    then have "length ?ws - c < length ws - k" using c(2) by simp
    ultimately obtain vals' ws' where r:
        "binary_heap_percolate_down h v (vals[k := Some (ws ! c)]) (int c) = Some vals'"
        "length vals' = length vals" "arr_holds vals' ws'" "mset ws' = mset ?ws"
        "heap_ordered (bh_order h) ws'"
      using less.hyps[of ?ws c, OF _ _ _ arr_holds_swap[OF less.prems(3,4) c(2)]] less.prems(1,2) c(2) by auto
    moreover have "mset ?ws = mset ws" using mset_swap[of c ws k] less.prems(4,5) c(2) by simp
    ultimately show ?thesis using e by auto
  next
    case False
    have "heap_ordered (bh_order h) ws"
    proof (rule comparator.down_ordered_done[OF order less.prems(6)])
      show "bh_order h (ws ! k) (ws ! i) \<le> 0" if "0 < i" "i < length ws" "par i = k" for i
        using False that(2,3) less.prems(5) c12 par_child[OF that(1), of k] by (auto simp: not_less)
    qed
    moreover have "binary_heap_percolate_down h v vals (int k) = Some (vals[k := Some v])"
      using False k g[of c1] g[of c2] c12 by (auto simp: simps arr_set_def simp del: of_nat_Suc)
    ultimately show ?thesis using less.prems(3) by fastforce
  qed
qed


lemma bh_rep_new: "bounded_comparator f \<Longrightarrow> binary_heap_new True True t f = Some h \<Longrightarrow>
    bh_inv h \<and> bh_contents h = [] \<and> bh_type h = t \<and> bh_compare_func h = f"
  by (auto simp: binary_heap_new_def bh_inv_def bh_contents_def heap_ordered_def intro: exI[of _ 4])

lemma bh_order_cong: "bh_type h' = bh_type h \<Longrightarrow> bh_compare_func h' = bh_compare_func h \<Longrightarrow>
    bh_order h' = bh_order h"
  by (simp add: bh_order_def fun_eq_iff)

lemma bh_invI:
  assumes "bh_inv h" and "arr_holds vals ws" "heap_ordered (bh_order h) ws"
    and "\<exists>m \<le> 30. length vals = 2 ^ m" and "n = int (length ws)" "a = int (length vals)"
  shows "bh_inv (h\<lparr>bh_num_values := n, bh_alloced_size := a, bh_values := vals\<rparr>) \<and>
         bh_contents (h\<lparr>bh_num_values := n, bh_alloced_size := a, bh_values := vals\<rparr>) = ws"
proof -
  let ?h = "h\<lparr>bh_num_values := n, bh_alloced_size := a, bh_values := vals\<rparr>"
  have "bh_contents ?h = ws" using assms(2,5) by (simp add: bh_contents_eq)
  moreover have "bh_order ?h = bh_order h" by (simp add: bh_order_def)
  ultimately show ?thesis using assms arr_holds_length[OF assms(2)] by (simp add: bh_inv_def)
qed

lemma bh_insert_room:
  assumes "bh_inv h" "bh_num_values h < bh_alloced_size h"
  shows "\<exists>h'. binary_heap_insert m h v = Some (1, h') \<and> bh_inv h' \<and>
           mset (bh_contents h') = add_mset v (mset (bh_contents h)) \<and>
           bh_type h' = bh_type h \<and> bh_compare_func h' = bh_compare_func h"
proof -
  let ?vs = "bh_contents h" and ?k = "length (bh_contents h)" and ?vals = "bh_values h"
  let ?h = "h\<lparr>bh_num_values := int (Suc ?k)\<rparr>"
  have k: "bh_num_values h = int ?k" "?k < length ?vals" "int (Suc ?k) \<le> INT_MAX"
    using assms length_bh_contents[OF assms(1)] bh_capacity[OF assms(1)]
    by (auto simp: bh_inv_def c_int_bounds)
  have o: "bh_order ?h = bh_order h" by (rule bh_order_cong) simp_all
  have b: "bounded_comparator (bh_compare_func ?h)" using assms(1) by (simp add: bh_inv_def)
  have "arr_holds (?vals[?k := Some v]) (?vs @ [v])"
    using assms(1) k(2) by (auto simp: bh_inv_def arr_holds_iff nth_append nth_list_update less_Suc_eq)
  then obtain vals' j ws' where r: "binary_heap_percolate_up ?h v ?vals (int ?k) = Some (vals', int j)"
      "j < length ws'" "length vals' = length ?vals" "arr_holds (vals'[j := Some v]) ws'"
      "mset ws' = mset (?vs @ [v])" "heap_ordered (bh_order h) ws'"
    using percolate_up_ok[OF b, of ?vals ?k v "?vs @ [v]"] up_ordered_snoc[of "bh_order h" ?vs v]
      assms(1) o by (auto simp: bh_inv_def)
  have l: "j < length vals'" "length ws' = Suc ?k"
    using r(2,4) arr_holds_length[OF r(4)] mset_eq_length[OF r(5)] by auto
  let ?h' = "h\<lparr>bh_num_values := int (Suc ?k), bh_alloced_size := bh_alloced_size h,
      bh_values := vals'[j := Some v]\<rparr>"
  have "binary_heap_insert m h v = Some (1, ?h')"
    using assms(2) k r(1) l(1) by (simp add: binary_heap_insert_def arr_set_def add.commute)
  moreover have "bh_inv ?h' \<and> bh_contents ?h' = ws'"
    using assms(1) r(3,4,6) l by (intro bh_invI) (auto simp: bh_inv_def)
  ultimately show ?thesis using r(5) by simp
qed

text \<open>A successful reallocation doubles the array and changes nothing else.\<close>

lemma bh_enlarge:
  assumes "bh_inv h" "bh_alloced_size h \<le> bh_num_values h" "bh_num_values h < 1073741824"
  shows "\<exists>h1. binary_heap_insert True h v = binary_heap_insert True h1 v \<and> bh_inv h1 \<and>
           bh_num_values h1 < bh_alloced_size h1 \<and> bh_contents h1 = bh_contents h \<and>
           bh_type h1 = bh_type h \<and> bh_compare_func h1 = bh_compare_func h"
proof -
  let ?a = "bh_alloced_size h" and ?n = "bh_num_values h"
  let ?vals = "bh_values h @ replicate (length (bh_values h)) None"
  let ?h1 = "h\<lparr>bh_num_values := ?n, bh_alloced_size := int (length ?vals), bh_values := ?vals\<rparr>"
  obtain m where m: "m \<le> 30" "length (bh_values h) = 2 ^ m" using assms(1) by (auto simp: bh_inv_def)
  have a: "?a = ?n" "?a = int (length (bh_values h))" "0 < ?a" "?a * 2 \<le> INT_MAX"
    using assms m(2) by (auto simp: bh_inv_def c_int_bounds)
  have "m \<noteq> 30" using a(2,4) m(2) by (auto simp: c_int_bounds)
  then have "\<exists>m \<le> 30. length ?vals = 2 ^ m" using m by (intro exI[of _ "Suc m"]) simp
  then have "bh_inv ?h1 \<and> bh_contents ?h1 = bh_contents h"
    using assms(1) length_bh_contents[OF assms(1)]
    by (intro bh_invI arr_holds_append_cells) (auto simp: bh_inv_def)
  then have inv: "bh_inv ?h1" "bh_contents ?h1 = bh_contents h" by simp_all
  have "c_int (?a * 2) = Some (?a * 2)" using a(3,4) by simp
  moreover have "nat (2 * ?n) - length (bh_values h) = length (bh_values h)" using a by simp
  ultimately have "binary_heap_insert True h v = binary_heap_insert True ?h1 v"
    using a by (simp add: binary_heap_insert_def mult_2_right add.commute[of "1::int"])
  moreover have "bh_num_values ?h1 < bh_alloced_size ?h1" using a(1-3) by simp
  ultimately show ?thesis using inv by (intro exI[of _ ?h1]) simp
qed

lemma bh_insert_ok:
  assumes "bh_inv h" "bh_num_values h < 1073741824" "m \<or> bh_num_values h < bh_alloced_size h"
  shows "\<exists>h'. binary_heap_insert m h v = Some (1, h') \<and> bh_inv h' \<and>
           mset (bh_contents h') = add_mset v (mset (bh_contents h)) \<and>
           bh_type h' = bh_type h \<and> bh_compare_func h' = bh_compare_func h"
proof (cases "bh_num_values h < bh_alloced_size h")
  case True then show ?thesis using bh_insert_room[OF assms(1)] by blast
next
  case False
  with assms bh_enlarge[OF assms(1) _ assms(2), of v] obtain h1 where h1:
      "binary_heap_insert m h v = binary_heap_insert True h1 v" "bh_inv h1"
      "bh_num_values h1 < bh_alloced_size h1" "bh_contents h1 = bh_contents h"
      "bh_type h1 = bh_type h" "bh_compare_func h1 = bh_compare_func h" by auto
  then show ?thesis using bh_insert_room[OF h1(2,3), of True v] by simp
qed

lemma bh_insert_fail:
  assumes "bh_inv h" "bh_num_values h < 1073741824" "bh_num_values h = bh_alloced_size h"
  shows "binary_heap_insert False h v = Some (0, h)"
  using assms by (simp add: binary_heap_insert_def bh_inv_def c_int_bounds)

lemma bh_pop_empty: "bh_num_values h = 0 \<Longrightarrow> binary_heap_pop h = Some (None, h)"
  by (simp add: binary_heap_pop_def)

lemma mset_replace_root:
  "1 < length vs \<Longrightarrow> add_mset (hd vs) (mset ((butlast vs)[0 := last vs])) = mset vs"
  by (cases vs; cases "tl vs" rule: rev_cases) auto

lemma bh_pop_ok:
  assumes "bh_inv h" "bh_contents h \<noteq> []"
  shows "\<exists>h'. binary_heap_pop h = Some (Some (hd (bh_contents h)), h') \<and> bh_inv h' \<and>
           mset (bh_contents h) = add_mset (hd (bh_contents h)) (mset (bh_contents h')) \<and>
           bh_type h' = bh_type h \<and> bh_compare_func h' = bh_compare_func h"
proof -
  let ?vs = "bh_contents h" and ?vals = "bh_values h"
  let ?ws = "(butlast ?vs)[0 := last ?vs]"
  let ?h = "h\<lparr>bh_num_values := int (length ?ws)\<rparr>"
  have inv: "arr_holds ?vals ?vs" "heap_ordered (bh_order h) ?vs" and n: "bh_num_values h = int (length ?vs)"
    using assms(1) length_bh_contents[OF assms(1)] by (auto simp: bh_inv_def)
  have b: "bounded_comparator (bh_compare_func ?h)" using assms(1) by (simp add: bh_inv_def)
  have o: "bh_order ?h = bh_order h" by (rule bh_order_cong) simp_all
  have bound: "2 * int (length ?ws) \<le> INT_MAX"
    using assms bh_capacity[OF assms(1)] n by (auto simp: bh_inv_def c_int_bounds)
  have "nat (int (length ?vs) - 1) = length ?vs - 1" by arith
  then have get: "arr_get ?vals 0 = Some (hd ?vs)" "arr_get ?vals (int (length ?vs) - 1) = Some (last ?vs)"
    using arr_holds_get[OF inv(1), of 0] arr_holds_get[OF inv(1), of "int (length ?vs) - 1"] assms(2)
    by (auto simp: hd_conv_nth last_conv_nth)
  obtain vals' ws' where r: "binary_heap_percolate_down ?h (last ?vs) ?vals 0 = Some vals'"
      "length vals' = length ?vals" "arr_holds vals' ws'" "mset ws' = mset ?ws"
      "heap_ordered (bh_order h) ws'"
  proof (cases "length ?vs = 1")
    case True
    then have "?ws = []" by (cases ?vs) auto
    moreover have "0 < length ?vals" using arr_holds_length[OF inv(1)] True by (cases ?vals) auto
    ultimately show ?thesis using that[of "?vals[0 := Some (last ?vs)]" "[]"]
      by (simp add: binary_heap_percolate_down.simps[of _ _ _ 0] binary_heap_child_greater_def c_int_def c_int_bounds
          arr_set_def heap_ordered_def)
  next
    case False
    then have l: "1 < length ?vs" using assms(2) by (cases ?vs) auto
    have "arr_holds (?vals[0 := Some (last ?vs)]) ?ws"
      using inv(1) l by (intro arr_holds_update) (auto simp: butlast_conv_take arr_holds_take)
    then show ?thesis
      using percolate_down_ok[OF b _ bound, of ?vals 0 "last ?vs"] that l
        down_ordered_replace_root[OF inv(2)] o by auto
  qed
  let ?h' = "h\<lparr>bh_num_values := int (length ?ws), bh_alloced_size := bh_alloced_size h, bh_values := vals'\<rparr>"
  have "binary_heap_pop h = Some (Some (hd ?vs), ?h')"
    using n assms(2) get r(1) by (simp add: binary_heap_pop_def of_nat_diff Suc_leI)
  moreover have "bh_inv ?h' \<and> bh_contents ?h' = ws'"
    using assms(1) r mset_eq_length[OF r(4)] by (intro bh_invI) (auto simp: bh_inv_def)
  moreover have "mset ?vs = add_mset (hd ?vs) (mset ?ws)"
  proof (cases "1 < length ?vs")
    case False with assms(2) show ?thesis by (cases ?vs) auto
  qed (simp add: mset_replace_root)
  ultimately show ?thesis using r(4) by simp
qed


interpretation bh: priority_queue bh_inv "\<lambda>h. mset (bh_contents h)" "\<lambda>h x y. bh_order h x y \<le> 0"
  binary_heap_pop
proof
  fix h :: "'a BinaryHeap"
  assume inv: "bh_inv h"
  show "binary_heap_pop h = Some (None, h)" if "mset (bh_contents h) = {#}"
    using that bh_pop_empty[of h] length_bh_contents[OF inv] inv by (simp add: bh_inv_def)
  assume ne: "mset (bh_contents h) \<noteq> {#}"
  then obtain h' where h': "binary_heap_pop h = Some (Some (hd (bh_contents h)), h')" "bh_inv h'"
      "mset (bh_contents h) = add_mset (hd (bh_contents h)) (mset (bh_contents h'))"
      "bh_type h' = bh_type h" "bh_compare_func h' = bh_compare_func h"
    using bh_pop_ok[OF inv] by auto
  have "comparator (bh_order h)" "heap_ordered (bh_order h) (bh_contents h)"
    using inv bh_order_comparator by (auto simp: bh_inv_def)
  then have "\<forall>x \<in># mset (bh_contents h). bh_order h (hd (bh_contents h)) x \<le> 0"
    using comparator.heap_root_least ne by (fastforce simp: in_set_conv_nth hd_conv_nth)
  then show "\<exists>v h'. binary_heap_pop h = Some (Some v, h') \<and> bh_inv h' \<and>
      (\<lambda>x y. bh_order h' x y \<le> 0) = (\<lambda>x y. bh_order h x y \<le> 0) \<and>
      mset (bh_contents h) = add_mset v (mset (bh_contents h')) \<and>
      (\<forall>x \<in># mset (bh_contents h). bh_order h v x \<le> 0)"
    using h' bh_order_cong[OF h'(4,5)] by metis
qed

primrec binary_heap_insert_all :: "'v list \<Rightarrow> 'v BinaryHeap \<Rightarrow> 'v BinaryHeap option" where
  "binary_heap_insert_all [] h = Some h"
| "binary_heap_insert_all (v # vs) h = do {
     (r, h) \<leftarrow> binary_heap_insert True h v;
     binary_heap_insert_all vs h
   }"

lemma insert_all_ok:
  "bh_inv h \<Longrightarrow> length (bh_contents h) + length vs \<le> 1073741824 \<Longrightarrow>
   \<exists>h'. binary_heap_insert_all vs h = Some h' \<and> bh_inv h' \<and>
     mset (bh_contents h') = mset vs + mset (bh_contents h) \<and> bh_order h' = bh_order h"
proof (induction vs arbitrary: h)
  case (Cons v vs)
  have "bh_num_values h < 1073741824"
    using Cons.prems length_bh_contents[OF Cons.prems(1)] by simp
  from bh_insert_ok[OF Cons.prems(1) this, of True v] obtain h1 where
    h1: "binary_heap_insert True h v = Some (1, h1)" "bh_inv h1"
      "mset (bh_contents h1) = add_mset v (mset (bh_contents h))" "bh_order h1 = bh_order h"
    using bh_order_cong by metis
  moreover have "length (bh_contents h1) = Suc (length (bh_contents h))"
    using arg_cong[OF h1(3), of size] by simp
  ultimately show ?case using Cons.IH[OF h1(2)] Cons.prems(2) by auto
qed simp


section \<open>Properties\<close>

text \<open>C30: binary_heap_insert keeps the heap invariant and adds exactly the given value; when the
  array is full and its reallocation fails it returns 0 and leaves the heap as it was.\<close>

theorem binary_heap_insert_spec:
  assumes "bh_inv h" and "bh_num_values h < 2 ^ 30"
  shows "\<exists>r h'. binary_heap_insert m h v = Some (r, h') \<and> bh_inv h' \<and>
           (if m \<or> bh_num_values h < bh_alloced_size h
            then r = 1 \<and> mset (bh_contents h') = add_mset v (mset (bh_contents h)) \<and>
                 bh_order h' = bh_order h
            else r = 0 \<and> h' = h)"
proof (cases "m \<or> bh_num_values h < bh_alloced_size h")
  case True
  from assms(2) have "bh_num_values h < 1073741824" by simp
  from bh_insert_ok[OF assms(1) this True, of v] obtain h' where
    "binary_heap_insert m h v = Some (1, h')" "bh_inv h'"
    "mset (bh_contents h') = add_mset v (mset (bh_contents h))" "bh_order h' = bh_order h"
    using bh_order_cong by metis
  with True show ?thesis by simp
next
  case False
  then show ?thesis using bh_insert_fail[of h v] assms by (auto simp: bh_inv_def)
qed

text \<open>A min-heap of ints with one value in an array of two cells.\<close>

definition small_heap :: "int BinaryHeap" where
  "small_heap = \<lparr>bh_type = BINARY_HEAP_TYPE_MIN, bh_values = [Some 7, None], bh_num_values = 1,
     bh_alloced_size = 2, bh_compare_func = int_compare\<rparr>"

lemma small_heap_inv: "bh_inv small_heap" and small_heap_contents: "bh_contents small_heap = [7]"
  using int_cmp.bounded_comparator_axioms
  by (auto simp: small_heap_def bh_inv_def bh_contents_def arr_holds_def heap_ordered_def
      intro: exI[of _ 1])

theorem binary_heap_insert_spec_witness:
  "\<exists>r h'. binary_heap_insert False small_heap 3 = Some (r, h') \<and> r = 1 \<and>
     mset (bh_contents h') = {#3, 7#}"
  using binary_heap_insert_spec[OF small_heap_inv, of False 3] small_heap_contents
  by (auto simp: small_heap_def)

text \<open>C31: binary_heap_pop removes and returns a value that is least in the order of the heap, keeps
  the invariant, and returns NULL without change exactly on an empty heap.\<close>

theorem binary_heap_pop_spec:
  assumes "bh_inv h"
  shows "if binary_heap_num_entries h = 0 then binary_heap_pop h = Some (None, h)
         else \<exists>v h'. binary_heap_pop h = Some (Some v, h') \<and> bh_inv h' \<and> bh_order h' = bh_order h \<and>
                mset (bh_contents h) = add_mset v (mset (bh_contents h')) \<and>
                (\<forall>x \<in> set (bh_contents h). bh_order h v x \<le> 0)"
proof (cases "bh_contents h = []")
  case True
  then show ?thesis using length_bh_contents[OF assms] assms bh_pop_empty[of h]
    by (auto simp: binary_heap_num_entries_def bh_inv_def)
next
  case False
  then have "bh_num_values h \<noteq> 0" using length_bh_contents[OF assms] by auto
  moreover obtain h' where h': "binary_heap_pop h = Some (Some (hd (bh_contents h)), h')" "bh_inv h'"
      "mset (bh_contents h) = add_mset (hd (bh_contents h)) (mset (bh_contents h'))"
      "bh_order h' = bh_order h"
    using bh_pop_ok[OF assms False] bh_order_cong by metis
  moreover have "\<forall>x \<in> set (bh_contents h). bh_order h (hd (bh_contents h)) x \<le> 0"
    using bh.pop_least[OF assms] False h'(1) by auto
  ultimately show ?thesis by (simp add: binary_heap_num_entries_def)
qed

theorem binary_heap_pop_spec_witness:
  "\<exists>v h'. binary_heap_pop small_heap = Some (Some v, h') \<and> add_mset v (mset (bh_contents h')) = {#7#}"
  using binary_heap_pop_spec[OF small_heap_inv] small_heap_contents
  by (auto simp: small_heap_def binary_heap_num_entries_def)

text \<open>Inserting any values into a new heap and popping until it is empty returns exactly these
  values, ascending for a min-heap and descending for a max-heap.\<close>

theorem binary_heap_sorts:
  assumes "bounded_comparator f" and "length vs \<le> 2 ^ 30"
  shows "\<exists>h0 h h' ws. binary_heap_new True True t f = Some h0 \<and> binary_heap_insert_all vs h0 = Some h \<and>
           drain binary_heap_pop (length vs) h = Some (ws, h') \<and> mset ws = mset vs \<and>
           bh_contents h' = [] \<and>
           sorted_wrt (\<lambda>x y. if t = BINARY_HEAP_TYPE_MIN then f x y \<le> 0 else 0 \<le> f x y) ws"
proof -
  obtain h0 where h0: "binary_heap_new True True t f = Some h0"
    by (simp add: binary_heap_new_def)
  with bh_rep_new[OF assms(1)] have n: "bh_inv h0" "bh_contents h0 = []"
    and o: "bh_order h0 = (if t = BINARY_HEAP_TYPE_MIN then f else (\<lambda>x y. - f x y))"
    by (auto simp: bh_order_def)
  then obtain h where h: "binary_heap_insert_all vs h0 = Some h" "bh_inv h"
      "mset (bh_contents h) = mset vs" "bh_order h = bh_order h0"
    using insert_all_ok[OF n(1), of vs] assms(2) by auto
  then show ?thesis using bh.drain_sorted[OF h(2)] h0 o by (cases t) auto
qed

theorem binary_heap_sorts_witness:
  "\<exists>h0 h h' ws. binary_heap_new True True BINARY_HEAP_TYPE_MAX int_compare = Some h0 \<and>
     binary_heap_insert_all [1, 3, 2] h0 = Some h \<and>
     drain binary_heap_pop 3 h = Some (ws, h') \<and> mset ws = {#1, 2, 3#}"
  using binary_heap_sorts[OF int_cmp.bounded_comparator_axioms, of "[1, 3, 2]" BINARY_HEAP_TYPE_MAX]
  by (fastforce simp: numeral_3_eq_3)

end
