(* ===== verification/Hash_Funcs.thy ===== *)
theory Hash_Funcs
  imports Compare
begin

text \<open>
  The hash functions of \<open>hash-int.c\<close>, \<open>hash-pointer.c\<close> and \<open>hash-string.c\<close>, with \<open>unsigned long\<close>
  as a 64-bit word, and the contract between a hash function and an equality callback that the
  hash table, the set and the Bloom filter rely on.
\<close>

definition int_hash :: "int \<Rightarrow> u64" where
  "int_hash location = word_of_int location"

definition pointer_hash :: "u64 \<Rightarrow> u64" where
  "pointer_hash location = location"

fun string_hash_loop :: "u64 \<Rightarrow> u8 list \<Rightarrow> u64" where
  "string_hash_loop result [] = result"
| "string_hash_loop result (b # p) =
     (if b = 0 then result
      else string_hash_loop ((push_bit 5 result XOR result) XOR ucast b) p)"

definition string_hash :: "u8 list \<Rightarrow> u64" where
  "string_hash s = string_hash_loop 5381 s"

fun string_nocase_hash_loop :: "u64 \<Rightarrow> u8 list \<Rightarrow> u64 option" where
  "string_nocase_hash_loop result [] = Some result"
| "string_nocase_hash_loop result (b # p) =
     (if b = 0 then Some result
      else do {
        c \<leftarrow> c_tolower (uint b);
        string_nocase_hash_loop ((push_bit 5 result XOR result) XOR word_of_int c) p
      })"

definition string_nocase_hash :: "u8 list \<Rightarrow> u64 option" where
  "string_nocase_hash s = string_nocase_hash_loop 5381 s"


section \<open>The contract of a hash function and its equality\<close>

locale hash_equal =
  fixes hash :: "'k \<Rightarrow> u64" and eq :: "'k \<Rightarrow> 'k \<Rightarrow> int"
  assumes eq_refl: "eq x x \<noteq> 0"
    and eq_sym: "eq x y \<noteq> 0 \<Longrightarrow> eq y x \<noteq> 0"
    and eq_trans: "eq x y \<noteq> 0 \<Longrightarrow> eq y z \<noteq> 0 \<Longrightarrow> eq x z \<noteq> 0"
    and eq_hash: "eq x y \<noteq> 0 \<Longrightarrow> hash x = hash y"
begin

lemma eq_commute: "eq x y \<noteq> 0 \<longleftrightarrow> eq y x \<noteq> 0"
  using eq_sym by blast

lemma eq_cong: "eq x y \<noteq> 0 \<Longrightarrow> eq x z \<noteq> 0 \<longleftrightarrow> eq y z \<noteq> 0"
  using eq_trans eq_sym by blast

lemma eq_cong_right: "eq x y \<noteq> 0 \<Longrightarrow> eq z x \<noteq> 0 \<longleftrightarrow> eq z y \<noteq> 0"
  using eq_trans eq_sym by blast

end

lemma string_hash_loop_cstr: "string_hash_loop r (cstr s) = string_hash_loop r s"
  by (induction r s rule: string_hash_loop.induct) auto

interpretation int_key: hash_equal int_hash int_equal
  by unfold_locales (auto simp: int_equal_def split: if_splits)

interpretation pointer_key: hash_equal pointer_hash pointer_equal
  by unfold_locales (auto simp: pointer_equal_def split: if_splits)

interpretation string_key: hash_equal string_hash string_equal
proof
  fix x y z
  show "string_equal x x \<noteq> 0" by (simp add: string_equal_def strcmp_eq_0)
  show "string_equal x y \<noteq> 0 \<Longrightarrow> string_equal y x \<noteq> 0"
    by (simp add: string_equal_def strcmp_eq_0 split: if_splits)
  show "string_equal x y \<noteq> 0 \<Longrightarrow> string_equal y z \<noteq> 0 \<Longrightarrow> string_equal x z \<noteq> 0"
    by (simp add: string_equal_def strcmp_eq_0 split: if_splits)
  show "string_equal x y \<noteq> 0 \<Longrightarrow> string_hash x = string_hash y"
    by (metis string_equal_def strcmp_eq_0 string_hash_def string_hash_loop_cstr)
qed

lemma nocase_hash_step: "c_tolower (uint b) = Some (uint (lower_byte b))" for b :: u8
  using uint_lt2p[of b]
  by (auto simp: c_tolower_def lower_byte_def word_le_def uint_word_ariths)

lemma nocase_hash_loop_lower:
  "string_nocase_hash_loop r s = Some (string_hash_loop r (map lower_byte (cstr s)))"
proof (induction r s rule: string_nocase_hash_loop.induct)
  case (2 r b p)
  then show ?case
    by (auto simp: nocase_hash_step lower_byte_0 simp flip: ucast_eq)
qed simp


section \<open>Properties\<close>

text \<open>On ASCII strings the case-insensitive comparison returns, it calls two strings equal
  exactly when they agree after lower-casing, and strings it calls equal have the same
  case-insensitive hash, so the two callbacks can be used together in a hash table.\<close>

theorem string_nocase_consistent:
  assumes "ascii s" and "ascii t"
  shows "\<exists>r h. string_nocase_equal s t = Some r \<and> string_nocase_hash s = Some h \<and>
     (r \<noteq> 0 \<longleftrightarrow> map lower_byte (cstr s) = map lower_byte (cstr t)) \<and>
     (r \<noteq> 0 \<longrightarrow> string_nocase_hash t = Some h)"
  using nocase_compare_ascii[OF assms]
  by (auto simp: string_nocase_equal_def string_nocase_hash_def nocase_hash_loop_lower)

theorem string_nocase_consistent_witness:
  "ascii [72, 105] \<and> ascii [104, 73] \<and>
   (\<exists>r h. string_nocase_equal [72, 105] [104, 73] = Some r \<and> r \<noteq> 0 \<and>
      string_nocase_hash [72, 105] = Some h \<and> string_nocase_hash [104, 73] = Some h)"
proof -
  have a: "ascii [72, 105]" "ascii [104, 73]" by (simp_all add: ascii_def)
  show ?thesis
    using string_nocase_consistent[OF a] a by (auto simp: lower_byte_def)
qed

text \<open>A byte from 128 to 254 at the start of either string makes string_nocase_compare
  undefined: it passes the signed char, a negative value other than EOF, to tolower.\<close>

theorem string_nocase_compare_undefined:
  assumes "128 \<le> b" and "b < 255"
  shows "string_nocase_compare (b # s) t = None"
proof -
  have u: "128 \<le> uint b" "uint b < 255" using assms by (simp_all add: word_le_def word_less_def)
  then have "uint b div 2 ^ 7 = 1" by simp
  then have "bit (uint b) 7" by (simp add: bit_iff_odd)
  then have "sint b = uint b - 256"
    using u by (simp add: sint_uint signed_take_bit_eq_take_bit_minus take_bit_int_eq_self)
  then show ?thesis using u
    by (subst string_nocase_compare.simps) (simp add: schar_at_def c_tolower_def)
qed

theorem string_nocase_compare_undefined_witness:
  "(128 :: u8) \<le> 195 \<and> (195 :: u8) < 255 \<and> string_nocase_compare [195, 169] [97] = None"
  using string_nocase_compare_undefined[of 195 "[169]" "[97]"] by simp

end
