(* ===== verification/Buckets.thy ===== *)
theory Buckets
  imports Hash_Funcs
begin

text \<open>
  Tables of chains, as \<open>hash-table.c\<close> and \<open>set.c\<close> both implement them. A chain is the list of the
  entries reached through the \<open>next\<close> fields from a cell of the table; an entry belongs to one
  chain only. A table that could not be allocated (NULL) is the empty list, every access to which
  is undefined. The operations here are the loops that the two sources have in common.
\<close>

section \<open>Operations\<close>

text \<open>\<open>index = hash % table_size\<close>, computed as unsigned long and converted to int.\<close>

definition bucket_index :: "u64 \<Rightarrow> int \<Rightarrow> int option" where
  "bucket_index hash table_size =
     (if table_size = 0 then None
      else Some (sint (ucast (hash mod word_of_int table_size) :: u32)))"

definition bucket_get :: "'e list list \<Rightarrow> int \<Rightarrow> 'e list option" where
  "bucket_get table i = (if 0 \<le> i \<and> nat i < length table then Some (table ! nat i) else None)"

definition bucket_set :: "'e list list \<Rightarrow> int \<Rightarrow> 'e list \<Rightarrow> 'e list list option" where
  "bucket_set table i chain =
     (if 0 \<le> i \<and> nat i < length table then Some (table[nat i := chain]) else None)"

text \<open>\<open>entry->next = table[index]; table[index] = entry\<close>.\<close>

definition bucket_link :: "'e list list \<Rightarrow> int \<Rightarrow> 'e \<Rightarrow> 'e list list option" where
  "bucket_link table i entry = do { chain \<leftarrow> bucket_get table i; bucket_set table i (entry # chain) }"

text \<open>All entries of the chains from \<open>i\<close> on, in the order of the nested loops.\<close>

function bucket_walk :: "'e list list \<Rightarrow> int \<Rightarrow> int \<Rightarrow> 'e list option" where
  "bucket_walk table table_size i =
     (if i < table_size then do {
        chain \<leftarrow> bucket_get table i;
        rest \<leftarrow> bucket_walk table table_size (i + 1);
        Some (chain @ rest)
      }
      else Some [])"
  by pat_completeness auto
termination by (relation "measure (\<lambda>(table, n, i). nat (n - i))") auto

text \<open>The search for the first chain from \<open>chain\<close> on that is not empty.\<close>

function bucket_next :: "'e list list \<Rightarrow> int \<Rightarrow> int \<Rightarrow> ('e list \<times> int) option" where
  "bucket_next table table_size chain =
     (if chain < table_size then do {
        c \<leftarrow> bucket_get table chain;
        if c \<noteq> [] then Some (c, chain) else bucket_next table table_size (chain + 1)
      }
      else Some ([], chain))"
  by pat_completeness auto
termination by (relation "measure (\<lambda>(table, n, i). nat (n - i))") auto

declare bucket_walk.simps [simp del] bucket_next.simps [simp del]

text \<open>Linking a sequence of entries into a table of the given size, as the enlarge loops do.\<close>

primrec bucket_relink :: "('e \<Rightarrow> u64) \<Rightarrow> int \<Rightarrow> 'e list \<Rightarrow> 'e list list \<Rightarrow> 'e list list option" where
  "bucket_relink hash table_size [] table = Some table"
| "bucket_relink hash table_size (rover # rest) table = do {
     index \<leftarrow> bucket_index (hash rover) table_size;
     table \<leftarrow> bucket_link table index rover;
     bucket_relink hash table_size rest table
   }"

text \<open>The loop over \<open>**rover\<close> that unlinks the first entry with property \<open>P\<close> from a chain.\<close>

fun chain_unlink :: "('e \<Rightarrow> bool) \<Rightarrow> 'e list \<Rightarrow> ('e \<times> 'e list) option" where
  "chain_unlink P [] = None"
| "chain_unlink P (entry # rest) =
     (if P entry then Some (entry, rest)
      else map_option (\<lambda>(e, es). (e, entry # es)) (chain_unlink P rest))"

text \<open>Whether the table is more than a third full: \<open>(entries * 3) / table_size > 0\<close>.\<close>

definition bucket_crowded :: "int \<Rightarrow> int \<Rightarrow> bool option" where
  "bucket_crowded entries table_size = do {
     n \<leftarrow> c_int (entries * 3);
     q \<leftarrow> c_div n table_size;
     Some (q > 0)
   }"


section \<open>Well-formed tables\<close>

definition placed :: "('e \<Rightarrow> u64) \<Rightarrow> 'e list list \<Rightarrow> bool" where
  "placed hash table \<longleftrightarrow>
     (\<forall>i < length table. \<forall>e \<in> set (table ! i). unat (hash e) mod length table = i)"

definition unique_keys :: "('k \<Rightarrow> 'k \<Rightarrow> int) \<Rightarrow> ('e \<Rightarrow> 'k) \<Rightarrow> 'e list \<Rightarrow> bool" where
  "unique_keys eq key es \<longleftrightarrow> sorted_wrt (\<lambda>e f. eq (key e) (key f) = 0) es"

lemma bucket_index_ok:
  assumes "0 < n" "n \<le> INT_MAX"
  shows "bucket_index h n = Some (int (unat h mod nat n))"
proof -
  have n: "unat (word_of_int n :: u64) = nat n"
    using assms by (simp add: c_int_bounds unat_eq_nat_uint take_bit_int_eq_self uint_word_of_int_eq)
  then have u: "unat (h mod word_of_int n) = unat h mod nat n" by (simp add: unat_mod_distrib)
  have l: "unat h mod nat n < nat n" using assms by simp
  then have "unat h mod nat n < 2 ^ 31" using assms by (intro less_le_trans[OF l]) (simp add: c_int_bounds)
  moreover have "uint (h mod word_of_int n) = int (unat h mod nat n)"
    using arg_cong[OF u, of int] by simp
  ultimately have "sint (ucast (h mod word_of_int n) :: u32) = int (unat h mod nat n)"
    by (simp add: sint_uint unsigned_ucast_eq take_bit_int_eq_self signed_take_bit_int_eq_self)
  then show ?thesis using assms by (simp add: bucket_index_def)
qed


lemma bucket_crowded_ok:
  "0 \<le> m \<Longrightarrow> m * 3 \<le> INT_MAX \<Longrightarrow> 0 < n \<Longrightarrow> bucket_crowded m n = Some (n \<le> m * 3)"
  by (simp add: bucket_crowded_def c_div_nonneg pos_imp_zdiv_pos_iff)

lemma mset_concat_update:
  "i < length table \<Longrightarrow>
   mset (concat (table[i := c])) + mset (table ! i) = mset (concat table) + mset c"
  by (induction table arbitrary: i) (auto split: nat.split simp: less_Suc_eq_0_disj)

lemma mset_concat_replace:
  assumes "i < length table" "add_mset old (mset c) = add_mset new (mset (table ! i))"
  shows "add_mset old (mset (concat (table[i := c]))) = add_mset new (mset (concat table))"
proof -
  have "add_mset old (mset (concat (table[i := c]))) + mset (table ! i) =
      mset (concat table) + add_mset old (mset c)"
    using mset_concat_update[OF assms(1), of c] by simp
  then show ?thesis by (simp add: assms(2))
qed

lemma mset_concat_remove:
  assumes "i < length table" "mset (table ! i) = add_mset e (mset c)"
  shows "mset (concat table) = add_mset e (mset (concat (table[i := c])))"
  using mset_concat_update[OF assms(1), of c] by (simp add: assms(2))

lemma placed_update:
  "placed h table \<Longrightarrow> i < length table \<Longrightarrow>
   (\<And>e. e \<in> set c \<Longrightarrow> unat (h e) mod length table = i) \<Longrightarrow> placed h (table[i := c])"
  by (auto simp: placed_def nth_list_update)

lemma placed_empty [simp]: "placed h (replicate n [])"
  by (simp add: placed_def)

lemma concat_replicate_Nil [simp]: "concat (replicate n []) = []"
  by (induction n) auto

text \<open>A search by key needs to look at one chain only.\<close>

lemma find_append: "find P (xs @ ys) = (case find P xs of None \<Rightarrow> find P ys | Some x \<Rightarrow> Some x)"
  by (induction xs) auto

lemma find_bucket:
  assumes "placed h table" "i < length table" "\<And>e. P e \<Longrightarrow> unat (h e) mod length table = i"
  shows "find P (table ! i) = find P (concat table)"
proof -
  have *: "find P (concat xs) = None" if "\<And>c. c \<in> set xs \<Longrightarrow> \<exists>j < length table. j \<noteq> i \<and> c = table ! j" for xs
    using that assms(1,3) unfolding find_None_iff placed_def by fastforce
  have "concat table = concat (take i table) @ table ! i @ concat (drop (Suc i) table)"
    by (metis assms(2) concat.simps(2) concat_append id_take_nth_drop)
  moreover have "find P (concat (take i table)) = None"
  proof (rule *)
    fix c assume "c \<in> set (take i table)"
    then obtain j where "j < i" "c = table ! j" by (auto simp: in_set_conv_nth)
    then show "\<exists>j < length table. j \<noteq> i \<and> c = table ! j"
      using assms(2) by (intro exI[of _ j]) auto
  qed
  moreover have "find P (concat (drop (Suc i) table)) = None"
  proof (rule *)
    fix c assume "c \<in> set (drop (Suc i) table)"
    then obtain j where "j < length table - Suc i" "c = table ! (Suc i + j)" by (auto simp: in_set_conv_nth)
    then show "\<exists>j < length table. j \<noteq> i \<and> c = table ! j"
      using assms(2) by (intro exI[of _ "Suc i + j"]) auto
  qed
  ultimately show ?thesis by (simp add: find_append split: option.split)
qed

lemma bucket_walk_ok: "0 \<le> i \<Longrightarrow> n = int (length table) \<Longrightarrow>
    bucket_walk table n i = Some (concat (drop (nat i) table))"
proof (induction table n i rule: bucket_walk.induct)
  case (1 table n i)
  show ?case
  proof (cases "i < n")
    case True
    then have "concat (drop (nat i) table) = table ! nat i @ concat (drop (nat (i + 1)) table)"
      using 1(2,3) by (simp add: Cons_nth_drop_Suc[symmetric] nat_less_iff nat_add_distrib)
    moreover have "bucket_get table i = Some (table ! nat i)" using 1(2,3) True
      by (simp add: bucket_get_def nat_less_iff)
    ultimately show ?thesis using 1(1)[OF True] 1(2,3) True unfolding bucket_walk.simps[of table n i]
      by simp
  next
    case False
    then show ?thesis using 1(2,3) unfolding bucket_walk.simps[of table n i] by simp
  qed
qed

lemma bucket_next_ok: "0 \<le> i \<Longrightarrow> n = int (length table) \<Longrightarrow>
    \<exists>c j. bucket_next table n i = Some (c, j) \<and> i \<le> j \<and>
      c @ concat (drop (Suc (nat j)) table) = concat (drop (nat i) table) \<and>
      (c = [] \<longrightarrow> concat (drop (nat i) table) = [])"
proof (induction table n i rule: bucket_next.induct)
  case (1 table n i)
  show ?case
  proof (cases "i < n")
    case True
    then have d: "concat (drop (nat i) table) = table ! nat i @ concat (drop (nat (i + 1)) table)"
      using 1(2,3) by (simp add: Cons_nth_drop_Suc[symmetric] nat_less_iff nat_add_distrib)
    have g: "bucket_get table i = Some (table ! nat i)" using 1(2,3) True
      by (simp add: bucket_get_def nat_less_iff)
    show ?thesis
    proof (cases "table ! nat i = []")
      case False
      then show ?thesis using d g True 1(2)
        unfolding bucket_next.simps[of table n i] by (simp add: nat_add_distrib)
    next
      case True2: True
      have "bucket_next table n i = bucket_next table n (i + 1)"
        using True True2 g unfolding bucket_next.simps[of table n i] by simp
      moreover obtain c j where "bucket_next table n (i + 1) = Some (c, j)" "i + 1 \<le> j"
          "c @ concat (drop (Suc (nat j)) table) = concat (drop (nat (i + 1)) table)"
          "c = [] \<longrightarrow> concat (drop (nat (i + 1)) table) = []"
        using 1(1)[OF True g] 1(2,3) True2 by auto
      ultimately show ?thesis using d True2 by auto
    qed
  next
    case False
    then show ?thesis using 1(2,3) unfolding bucket_next.simps[of table n i] by simp
  qed
qed

lemma bucket_next_less: "bucket_next table n i = Some (c, j) \<Longrightarrow> c \<noteq> [] \<Longrightarrow> j < n"
proof (induction table n i rule: bucket_next.induct)
  case (1 table n i)
  then show ?case by (subst (asm) (2) bucket_next.simps) (auto split: if_splits simp: bind_eq_Some_conv)
qed

lemma bucket_link_ok:
  assumes "placed h table" "0 < n" "n \<le> INT_MAX" "length table = nat n"
  shows "\<exists>i table'. bucket_index (h e) n = Some i \<and> bucket_link table i e = Some table' \<and>
           placed h table' \<and> length table' = length table \<and>
           mset (concat table') = add_mset e (mset (concat table))"
proof -
  let ?i = "unat (h e) mod nat n"
  have i: "?i < length table" using assms(2,4) by simp
  let ?t = "table[?i := e # table ! ?i]"
  have "bucket_link table (int ?i) e = Some ?t"
    using i by (simp add: bucket_link_def bucket_get_def bucket_set_def)
  moreover have "placed h ?t"
    using assms(1,4) i by (intro placed_update) (auto simp: placed_def)
  moreover have "mset (concat ?t) = add_mset e (mset (concat table))"
    using mset_concat_update[OF i, of "e # table ! ?i"] by simp
  ultimately show ?thesis using bucket_index_ok[OF assms(2,3)] by auto
qed

lemma bucket_relink_ok:
  assumes "placed h table" "0 < n" "n \<le> INT_MAX" "length table = nat n"
  shows "\<exists>table'. bucket_relink h n es table = Some table' \<and> placed h table' \<and>
           length table' = length table \<and> mset (concat table') = mset es + mset (concat table)"
  using assms(1,4)
proof (induction es arbitrary: table)
  case (Cons e es)
  then show ?case using bucket_link_ok[OF Cons.prems(1) assms(2,3) Cons.prems(2), of e] by force
qed simp

lemma chain_unlink_eq:
  "chain_unlink P es = (case find P es of None \<Rightarrow> None | Some e \<Rightarrow> Some (e, remove1 e es))"
proof (induction es)
  case (Cons x es)
  have "find P es = Some x \<Longrightarrow> P x" by (auto simp: find_Some_iff)
  with Cons show ?case by (auto split: option.splits)
qed simp

lemma sorted_wrt_mset:
  assumes "symp R" "mset xs = mset ys" "sorted_wrt R xs"
  shows "sorted_wrt R ys"
  using assms(2,3)
proof (induction xs arbitrary: ys)
  case (Cons x xs)
  then obtain as bs where ys: "ys = as @ x # bs"
    by (metis list.set_intros(1) set_mset_mset split_list)
  then have m: "mset xs = mset (as @ bs)" using Cons.prems(1) by simp
  then have "set xs = set (as @ bs)" by (rule mset_eq_setD)
  then show ?case using Cons.IH[OF m] Cons.prems(2) assms(1)
    unfolding ys sorted_wrt_append by (auto dest: sympD)
qed simp

context hash_equal
begin

lemma unique_keys_mset: "mset xs = mset ys \<Longrightarrow> unique_keys eq key xs \<longleftrightarrow> unique_keys eq key ys"
proof -
  have "symp (\<lambda>e f. eq (key e) (key f) = 0)" using eq_sym by (blast intro: sympI)
  then show "mset xs = mset ys \<Longrightarrow> unique_keys eq key xs \<longleftrightarrow> unique_keys eq key ys"
    unfolding unique_keys_def using sorted_wrt_mset[of _ xs ys] sorted_wrt_mset[of _ ys xs] by metis
qed

lemma unique_keys_find:
  assumes "unique_keys eq key es"
  shows "find (\<lambda>e. eq k (key e) \<noteq> 0) es = Some e \<longleftrightarrow> e \<in> set es \<and> eq k (key e) \<noteq> 0"
  using assms
proof (induction es)
  case (Cons x es)
  have "eq (key x) (key e) = 0" if "e \<in> set es" using Cons.prems that by (simp add: unique_keys_def)
  then have "\<not> (eq k (key x) \<noteq> 0 \<and> eq k (key e) \<noteq> 0 \<and> e \<in> set es)"
    using eq_trans[of "key x" k "key e"] eq_sym[of k "key x"] by blast
  then show ?case using Cons by (auto simp: unique_keys_def)
qed simp

lemma unique_keys_find_mset:
  assumes "unique_keys eq key xs" "mset xs = mset ys"
  shows "find (\<lambda>e. eq k (key e) \<noteq> 0) xs = find (\<lambda>e. eq k (key e) \<noteq> 0) ys"
  using unique_keys_find[OF assms(1), of k] unique_keys_find[of key ys k]
    unique_keys_mset[OF assms(2), of key] assms mset_eq_setD[OF assms(2)]
  by (metis not_None_eq)

lemma unique_keys_Cons:
  "unique_keys eq key (e # es) \<longleftrightarrow>
   find (\<lambda>f. eq (key e) (key f) \<noteq> 0) es = None \<and> unique_keys eq key es"
  by (auto simp: unique_keys_def find_None_iff)

text \<open>What a lookup finds after an entry was added, replaced or removed.\<close>

lemma find_added:
  assumes "unique_keys eq key (e # es)" "mset es' = mset (e # es)"
  shows "find (\<lambda>f. eq k (key f) \<noteq> 0) es' =
           (if eq k (key e) \<noteq> 0 then Some e else find (\<lambda>f. eq k (key f) \<noteq> 0) es)"
  using unique_keys_find_mset[OF assms(1) assms(2)[symmetric], of k] by simp

lemma find_cong: "eq k k' \<noteq> 0 \<Longrightarrow> find (\<lambda>f. eq k (key f) \<noteq> 0) es = find (\<lambda>f. eq k' (key f) \<noteq> 0) es"
  using eq_cong[of k k'] by simp

lemma find_removed:
  assumes "unique_keys eq key es" "mset es = add_mset e (mset es')" "eq k (key e) \<noteq> 0"
  shows "unique_keys eq key es' \<and> find (\<lambda>f. eq k' (key f) \<noteq> 0) es' =
           (if eq k' k \<noteq> 0 then None else find (\<lambda>f. eq k' (key f) \<noteq> 0) es)"
proof -
  have m: "mset es = mset (e # es')" using assms(2) by simp
  then have u: "unique_keys eq key (e # es')" using unique_keys_mset assms(1) by blast
  have "eq k' k \<noteq> 0 \<longleftrightarrow> eq k' (key e) \<noteq> 0" using eq_cong_right[OF assms(3)] by simp
  then show ?thesis using find_added[OF u m, of k'] u find_cong[of k' "key e" key es']
    by (simp add: unique_keys_Cons)
qed

lemma find_replaced:
  assumes "unique_keys eq key es" "add_mset old (mset es') = add_mset new (mset es)"
    and "old \<in> set es" "eq k (key old) \<noteq> 0" "key new = k"
  shows "unique_keys eq key es' \<and> find (\<lambda>f. eq k' (key f) \<noteq> 0) es' =
           (if eq k' k \<noteq> 0 then Some new else find (\<lambda>f. eq k' (key f) \<noteq> 0) es)"
proof -
  obtain rest where m: "mset es = mset (old # rest)" using assms(3)
    by (metis mset.simps(2) mset_remove1 insert_DiffM set_mset_mset)
  then have m': "mset es' = mset (new # rest)" using assms(2) by simp
  have r: "unique_keys eq key rest" "find (\<lambda>f. eq k'' (key f) \<noteq> 0) rest =
      (if eq k'' k \<noteq> 0 then None else find (\<lambda>f. eq k'' (key f) \<noteq> 0) es)" for k''
    using find_removed[OF assms(1) _ assms(4), of rest] m by simp_all
  then have u: "unique_keys eq key (new # rest)"
    using assms(5) eq_refl by (simp add: unique_keys_Cons)
  then show ?thesis using find_added[OF u m', of k'] unique_keys_mset[OF m', of key] r(2)[of k'] assms(5)
    by simp
qed

lemma find_commute: "find (\<lambda>e. eq (key e) k \<noteq> 0) es = find (\<lambda>e. eq k (key e) \<noteq> 0) es"
  using eq_commute by metis

end


text \<open>The chain that an operation on a key works on.\<close>

lemma bucket_of_key:
  assumes "hash_equal hash eq" "placed (\<lambda>e. hash (key e)) table" "length table = nat n" "0 < n" "n \<le> INT_MAX"
  obtains i where "i < length table" "i = unat (hash k) mod length table"
    "bucket_index (hash k) n = Some (int i)" "bucket_get table (int i) = Some (table ! i)"
    "find (\<lambda>e. eq k (key e) \<noteq> 0) (table ! i) = find (\<lambda>e. eq k (key e) \<noteq> 0) (concat table)"
proof -
  let ?i = "unat (hash k) mod length table"
  have i: "?i < length table" using assms(3,4) by simp
  have "find (\<lambda>e. eq k (key e) \<noteq> 0) (table ! ?i) = find (\<lambda>e. eq k (key e) \<noteq> 0) (concat table)"
    by (rule find_bucket[OF assms(2) i]) (metis assms(1) hash_equal.eq_hash)
  then show ?thesis using that[of ?i] i bucket_index_ok[OF assms(4,5), of "hash k"] assms(3)
    by (simp add: bucket_get_def)
qed

end
