(* ===== verification/Hash_Table.thy ===== *)
theory Hash_Table
  imports Buckets Interfaces
begin

text \<open>
  \<open>src/src/comm/hash-table.c\<close>. A \<open>void *\<close> value is an option, \<open>None\<close> for NULL. The calls of the
  registered free functions and of free are recorded as a list of events, in the order made.
  \<open>m\<close> arguments are the outcomes of calloc and malloc.
\<close>

record ('k, 'v) HashTableEntry =
  he_key :: 'k
  he_value :: "'v option"

record ('k, 'v) HashTable =
  ht_table :: "('k, 'v) HashTableEntry list list"
  ht_table_size :: int
  ht_hash_func :: "'k \<Rightarrow> u64"
  ht_equal_func :: "'k \<Rightarrow> 'k \<Rightarrow> int"
  ht_key_free_func :: bool
  ht_value_free_func :: bool
  ht_entries :: int
  ht_prime_index :: int

datatype ('k, 'v) free_event = FreeKey 'k | FreeValue "'v option" | FreeEntry | FreeTable | FreeStruct

definition hash_table_primes :: "int list" where
  "hash_table_primes =
     [193, 389, 769, 1543, 3079, 6151, 12289, 24593, 49157, 98317,
      196613, 393241, 786433, 1572869, 3145739, 6291469,
      12582917, 25165843, 50331653, 100663319, 201326611,
      402653189, 805306457, 1610612741]"

definition hash_table_num_primes :: int where
  "hash_table_num_primes = 24"

definition hash_table_allocate_table ::
  "bool \<Rightarrow> ('k, 'v) HashTable \<Rightarrow> (int \<times> ('k, 'v) HashTable) option" where
  "hash_table_allocate_table m ht = do {
     new_table_size \<leftarrow>
       (if ht_prime_index ht < hash_table_num_primes
        then do { guard (0 \<le> ht_prime_index ht); Some (hash_table_primes ! nat (ht_prime_index ht)) }
        else c_int (ht_entries ht * 10));
     let ht = ht\<lparr>ht_table_size := new_table_size\<rparr>;
     if m then Some (1, ht\<lparr>ht_table := replicate (nat new_table_size) []\<rparr>)
     else Some (0, ht\<lparr>ht_table := []\<rparr>)
   }"

definition hash_table_free_entry ::
  "('k, 'v) HashTable \<Rightarrow> ('k, 'v) HashTableEntry \<Rightarrow> ('k, 'v) free_event list" where
  "hash_table_free_entry ht entry =
     (if ht_key_free_func ht then [FreeKey (he_key entry)] else []) @
     (if ht_value_free_func ht then [FreeValue (he_value entry)] else []) @ [FreeEntry]"

definition hash_table_new ::
  "bool \<Rightarrow> bool \<Rightarrow> ('k \<Rightarrow> u64) \<Rightarrow> ('k \<Rightarrow> 'k \<Rightarrow> int) \<Rightarrow> ('k, 'v) HashTable option option" where
  "hash_table_new m1 m2 hash_func equal_func =
     (if \<not> m1 then Some None
      else do {
        (ok, ht) \<leftarrow> hash_table_allocate_table m2
          \<lparr>ht_table = [], ht_table_size = 0, ht_hash_func = hash_func, ht_equal_func = equal_func,
           ht_key_free_func = False, ht_value_free_func = False, ht_entries = 0, ht_prime_index = 0\<rparr>;
        Some (if ok = 0 then None else Some ht)
      })"

definition hash_table_free :: "('k, 'v) HashTable \<Rightarrow> ('k, 'v) free_event list option" where
  "hash_table_free ht = do {
     es \<leftarrow> bucket_walk (ht_table ht) (ht_table_size ht) 0;
     Some (concat (map (hash_table_free_entry ht) es) @ [FreeTable, FreeStruct])
   }"

definition hash_table_register_free_functions ::
  "('k, 'v) HashTable \<Rightarrow> bool \<Rightarrow> bool \<Rightarrow> ('k, 'v) HashTable" where
  "hash_table_register_free_functions ht key_free_func value_free_func =
     ht\<lparr>ht_key_free_func := key_free_func, ht_value_free_func := value_free_func\<rparr>"

definition hash_table_enlarge :: "bool \<Rightarrow> ('k, 'v) HashTable \<Rightarrow> (int \<times> ('k, 'v) HashTable) option" where
  "hash_table_enlarge m ht = do {
     let old_table = ht_table ht;
     let old_table_size = ht_table_size ht;
     let old_prime_index = ht_prime_index ht;
     pi \<leftarrow> c_int (ht_prime_index ht + 1);
     (ok, ht) \<leftarrow> hash_table_allocate_table m (ht\<lparr>ht_prime_index := pi\<rparr>);
     if ok = 0
     then Some (0, ht\<lparr>ht_table := old_table, ht_table_size := old_table_size,
                     ht_prime_index := old_prime_index\<rparr>)
     else do {
       es \<leftarrow> bucket_walk old_table old_table_size 0;
       table \<leftarrow> bucket_relink (\<lambda>e. ht_hash_func ht (he_key e)) (ht_table_size ht) es (ht_table ht);
       Some (1, ht\<lparr>ht_table := table\<rparr>)
     }
   }"

text \<open>The search for an entry with the same key, which is overwritten: the new chain and the old entry.\<close>

fun hash_table_overwrite ::
  "('k \<Rightarrow> 'k \<Rightarrow> int) \<Rightarrow> 'k \<Rightarrow> 'v option \<Rightarrow> ('k, 'v) HashTableEntry list \<Rightarrow>
   (('k, 'v) HashTableEntry \<times> ('k, 'v) HashTableEntry list) option" where
  "hash_table_overwrite equal_func key v [] = None"
| "hash_table_overwrite equal_func key v (rover # rest) =
     (if equal_func (he_key rover) key \<noteq> 0
      then Some (rover, rover\<lparr>he_key := key, he_value := v\<rparr> # rest)
      else map_option (\<lambda>(old, es). (old, rover # es)) (hash_table_overwrite equal_func key v rest))"

definition hash_table_insert ::
  "bool \<Rightarrow> bool \<Rightarrow> ('k, 'v) HashTable \<Rightarrow> 'k \<Rightarrow> 'v option \<Rightarrow>
   (int \<times> ('k, 'v) HashTable \<times> ('k, 'v) free_event list) option" where
  "hash_table_insert m1 m2 ht key v = do {
     crowded \<leftarrow> bucket_crowded (ht_entries ht) (ht_table_size ht);
     (ok, ht) \<leftarrow> (if crowded then hash_table_enlarge m1 ht else Some (1, ht));
     if ok = 0 then Some (0, ht, [])
     else do {
       index \<leftarrow> bucket_index (ht_hash_func ht key) (ht_table_size ht);
       chain \<leftarrow> bucket_get (ht_table ht) index;
       case hash_table_overwrite (ht_equal_func ht) key v chain of
         Some (old, chain) \<Rightarrow> do {
           table \<leftarrow> bucket_set (ht_table ht) index chain;
           Some (1, ht\<lparr>ht_table := table\<rparr>,
             (if ht_value_free_func ht then [FreeValue (he_value old)] else []) @
             (if ht_key_free_func ht then [FreeKey (he_key old)] else []))
         }
       | None \<Rightarrow>
           if \<not> m2 then Some (0, ht, [])
           else do {
             table \<leftarrow> bucket_link (ht_table ht) index \<lparr>he_key = key, he_value = v\<rparr>;
             n \<leftarrow> c_int (ht_entries ht + 1);
             Some (1, ht\<lparr>ht_table := table, ht_entries := n\<rparr>, [])
           }
     }
   }"

definition hash_table_lookup :: "('k, 'v) HashTable \<Rightarrow> 'k \<Rightarrow> 'v option option" where
  "hash_table_lookup ht key = do {
     index \<leftarrow> bucket_index (ht_hash_func ht key) (ht_table_size ht);
     chain \<leftarrow> bucket_get (ht_table ht) index;
     case find (\<lambda>rover. ht_equal_func ht key (he_key rover) \<noteq> 0) chain of
       Some rover \<Rightarrow> Some (he_value rover)
     | None \<Rightarrow> Some None
   }"

definition hash_table_remove ::
  "('k, 'v) HashTable \<Rightarrow> 'k \<Rightarrow> (int \<times> ('k, 'v) HashTable \<times> ('k, 'v) free_event list) option" where
  "hash_table_remove ht key = do {
     index \<leftarrow> bucket_index (ht_hash_func ht key) (ht_table_size ht);
     chain \<leftarrow> bucket_get (ht_table ht) index;
     case chain_unlink (\<lambda>rover. ht_equal_func ht key (he_key rover) \<noteq> 0) chain of
       None \<Rightarrow> Some (0, ht, [])
     | Some (entry, chain) \<Rightarrow> do {
         table \<leftarrow> bucket_set (ht_table ht) index chain;
         n \<leftarrow> c_int (ht_entries ht - 1);
         Some (1, ht\<lparr>ht_table := table, ht_entries := n\<rparr>, hash_table_free_entry ht entry)
       }
   }"

definition hash_table_num_entries :: "('k, 'v) HashTable \<Rightarrow> int" where
  "hash_table_num_entries ht = ht_entries ht"

text \<open>
  An iterator. \<open>next_entry\<close> is the rest of its chain (\<open>[]\<close> for NULL); \<open>next_chain\<close> is
  indeterminate (\<open>None\<close>) until it is assigned. The table the iterator points to is an argument.
\<close>

record ('k, 'v) HashTableIterator =
  hi_next_entry :: "('k, 'v) HashTableEntry list"
  hi_next_chain :: "int option"

definition hash_table_iterate :: "('k, 'v) HashTable \<Rightarrow> ('k, 'v) HashTableIterator option" where
  "hash_table_iterate ht = do {
     (entry, chain) \<leftarrow> bucket_next (ht_table ht) (ht_table_size ht) 0;
     Some \<lparr>hi_next_entry = entry, hi_next_chain = (if entry \<noteq> [] then Some chain else None)\<rparr>
   }"

definition hash_table_iter_has_more :: "('k, 'v) HashTableIterator \<Rightarrow> bool" where
  "hash_table_iter_has_more iterator = (hi_next_entry iterator \<noteq> [])"

definition hash_table_iter_next ::
  "('k, 'v) HashTable \<Rightarrow> ('k, 'v) HashTableIterator \<Rightarrow> ('v option \<times> ('k, 'v) HashTableIterator) option" where
  "hash_table_iter_next ht iterator =
     (case hi_next_entry iterator of
        [] \<Rightarrow> Some (None, iterator)
      | current_entry # rest \<Rightarrow>
          if rest \<noteq> [] then Some (he_value current_entry, iterator\<lparr>hi_next_entry := rest\<rparr>)
          else do {
            c \<leftarrow> hi_next_chain iterator;
            c \<leftarrow> c_int (c + 1);
            (entry, chain) \<leftarrow> bucket_next (ht_table ht) (ht_table_size ht) c;
            Some (he_value current_entry, \<lparr>hi_next_entry = entry, hi_next_chain = Some chain\<rparr>)
          })"



section \<open>The invariant of a hash table\<close>

abbreviation ht_hash :: "('k, 'v) HashTable \<Rightarrow> ('k, 'v) HashTableEntry \<Rightarrow> u64" where
  "ht_hash ht \<equiv> \<lambda>e. ht_hash_func ht (he_key e)"

definition ht_inv :: "('k, 'v) HashTable \<Rightarrow> bool" where
  "ht_inv ht \<longleftrightarrow> hash_equal (ht_hash_func ht) (ht_equal_func ht) \<and>
     0 \<le> ht_prime_index ht \<and> ht_prime_index ht < 24 \<and>
     ht_table_size ht = hash_table_primes ! nat (ht_prime_index ht) \<and>
     length (ht_table ht) = nat (ht_table_size ht) \<and> placed (ht_hash ht) (ht_table ht) \<and>
     unique_keys (ht_equal_func ht) he_key (concat (ht_table ht)) \<and>
     ht_entries ht = int (length (concat (ht_table ht))) \<and> ht_entries ht * 3 < ht_table_size ht + 3"

definition ht_found :: "('k, 'v) HashTable \<Rightarrow> 'k \<Rightarrow> ('k, 'v) HashTableEntry option" where
  "ht_found ht k = find (\<lambda>e. ht_equal_func ht k (he_key e) \<noteq> 0) (concat (ht_table ht))"

definition ht_map :: "('k, 'v) HashTable \<Rightarrow> 'k \<Rightarrow> 'v option option" where
  "ht_map ht k = map_option he_value (ht_found ht k)"

lemma prime_sizes:
  assumes "0 \<le> i" "i < 24"
  shows "193 \<le> hash_table_primes ! nat i" "hash_table_primes ! nat i \<le> 1610612741"
    "hash_table_primes ! nat i < 1610612741 \<Longrightarrow> i < 23"
proof -
  have "\<forall>p \<in> set hash_table_primes. 193 \<le> p \<and> p \<le> 1610612741" by (simp add: hash_table_primes_def)
  moreover have "length hash_table_primes = 24" by (simp add: hash_table_primes_def)
  moreover have "nat i < 24" using assms by simp
  ultimately show "193 \<le> hash_table_primes ! nat i" "hash_table_primes ! nat i \<le> 1610612741"
    by simp_all
  have "hash_table_primes ! 23 = 1610612741" by (simp add: hash_table_primes_def)
  then show "hash_table_primes ! nat i < 1610612741 \<Longrightarrow> i < 23" using assms
    by (cases "i = 23") auto
qed

lemma prime_step:
  assumes "0 \<le> i" "i < 23"
  shows "hash_table_primes ! nat i + 3 \<le> hash_table_primes ! nat (i + 1)"
proof -
  have "list_all (\<lambda>j. hash_table_primes ! j + 3 \<le> hash_table_primes ! Suc j) [0..<23]" by code_simp
  moreover have "nat i \<in> set [0..<23]" "nat (i + 1) = Suc (nat i)" using assms by auto
  ultimately show ?thesis by (simp add: list_all_iff)
qed

lemma ht_size_bounds:
  assumes "ht_inv ht"
  shows "0 < ht_table_size ht" "ht_table_size ht \<le> INT_MAX"
  using assms prime_sizes[of "ht_prime_index ht"] by (auto simp: ht_inv_def c_int_bounds)

lemma ht_bucket:
  assumes "ht_inv ht"
  obtains i where "i < length (ht_table ht)" "i = unat (ht_hash_func ht k) mod length (ht_table ht)"
    "bucket_index (ht_hash_func ht k) (ht_table_size ht) = Some (int i)"
    "bucket_get (ht_table ht) (int i) = Some (ht_table ht ! i)"
    "find (\<lambda>e. ht_equal_func ht k (he_key e) \<noteq> 0) (ht_table ht ! i) = ht_found ht k"
  using bucket_of_key[of "ht_hash_func ht" "ht_equal_func ht" he_key "ht_table ht" "ht_table_size ht" k]
    ht_size_bounds[OF assms] assms by (auto simp: ht_inv_def ht_found_def)

lemma ht_lookup_ok: "ht_inv ht \<Longrightarrow> hash_table_lookup ht k = Some (Option.bind (ht_map ht k) id)"
  by (rule ht_bucket[of ht k]) (auto simp: hash_table_lookup_def ht_map_def split: option.split)

text \<open>Enlarging keeps the entries, up to their order.\<close>

lemma ht_enlarge_ok:
  assumes "ht_inv ht" "ht_prime_index ht < 23"
  shows "\<exists>ht'. hash_table_enlarge True ht = Some (1, ht') \<and> ht_inv ht' \<and>
           mset (concat (ht_table ht')) = mset (concat (ht_table ht)) \<and>
           ht' = ht\<lparr>ht_table := ht_table ht', ht_table_size := ht_table_size ht',
                    ht_prime_index := ht_prime_index ht + 1\<rparr>"
proof -
  let ?pi = "ht_prime_index ht + 1" and ?es = "concat (ht_table ht)"
  let ?n = "hash_table_primes ! nat ?pi"
  have pi: "0 \<le> ?pi" "?pi < 24" "c_int ?pi = Some ?pi" using assms
    by (auto simp: ht_inv_def c_int_bounds intro!: c_int_nonneg)
  then have n: "0 < ?n" "?n \<le> INT_MAX" using prime_sizes[OF pi(1,2)] by (auto simp: c_int_bounds)
  obtain table where t: "bucket_relink (ht_hash ht) ?n ?es (replicate (nat ?n) []) = Some table"
      "placed (ht_hash ht) table" "length table = nat ?n" "mset (concat table) = mset ?es"
    using bucket_relink_ok[OF placed_empty n, of "nat ?n" "ht_hash ht" ?es] by auto
  let ?ht = "ht\<lparr>ht_prime_index := ?pi, ht_table_size := ?n, ht_table := table\<rparr>"
  have w: "bucket_walk (ht_table ht) (ht_table_size ht) 0 = Some ?es"
    using ht_size_bounds[OF assms(1)] assms(1) by (simp add: bucket_walk_ok ht_inv_def)
  have "hash_table_enlarge True ht = Some (1, ?ht)"
    using pi w t(1) by (simp add: hash_table_enlarge_def hash_table_allocate_table_def hash_table_num_primes_def)
  moreover have "ht_inv ?ht"
    using assms pi t(2,3) hash_equal.unique_keys_mset[OF _ t(4)] mset_eq_length[OF t(4)]
      prime_step[of "ht_prime_index ht"] by (auto simp: ht_inv_def)
  ultimately show ?thesis using t(4) by (intro exI[of _ ?ht]) simp
qed

lemma ht_enlarge_fail:
  assumes "ht_inv ht" "ht_prime_index ht < 23"
  shows "hash_table_enlarge False ht = Some (0, ht)"
  using assms by (simp add: hash_table_enlarge_def hash_table_allocate_table_def hash_table_num_primes_def
      ht_inv_def c_int_bounds)


lemma overwrite_eq:
  "case find (\<lambda>e. eq (he_key e) k \<noteq> 0) es of
     None \<Rightarrow> hash_table_overwrite eq k v es = None
   | Some old \<Rightarrow> \<exists>es'. hash_table_overwrite eq k v es = Some (old, es') \<and>
       add_mset old (mset es') = add_mset \<lparr>he_key = k, he_value = v\<rparr> (mset es)"
proof (induction es)
  case (Cons e es)
  then show ?case by (auto split: option.splits simp: add_mset_commute) 
qed simp

text \<open>One chain of the table is replaced.\<close>

lemma ht_update_chain:
  assumes "ht_inv ht" "i < length (ht_table ht)"
    and "\<And>e. e \<in> set c \<Longrightarrow> e \<in> set (ht_table ht ! i) \<or> unat (ht_hash ht e) mod length (ht_table ht) = i"
    and "unique_keys (ht_equal_func ht) he_key (concat ((ht_table ht)[i := c]))"
    and "n = int (length (concat ((ht_table ht)[i := c])))" "n * 3 < ht_table_size ht + 3"
  shows "ht_inv (ht\<lparr>ht_table := (ht_table ht)[i := c], ht_entries := n\<rparr>)"
proof -
  have "placed (ht_hash ht) ((ht_table ht)[i := c])"
  proof (rule placed_update[OF _ assms(2)])
    show p: "placed (ht_hash ht) (ht_table ht)" using assms(1) by (simp add: ht_inv_def)
    show "unat (ht_hash ht e) mod length (ht_table ht) = i" if "e \<in> set c" for e
      using assms(3)[OF that] p assms(2) by (auto simp: placed_def)
  qed
  then show ?thesis using assms(1,4-6) by (simp add: ht_inv_def)
qed

lemma mset_length_eq: "add_mset x (mset xs) = add_mset y (mset ys) \<Longrightarrow> length xs = length ys"
  by (metis add_left_cancel plus_1_eq_Suc size_add_mset size_mset)

definition ht_old_freed :: "('k, 'v) HashTable \<Rightarrow> 'k \<Rightarrow> ('k, 'v) free_event list" where
  "ht_old_freed ht k = (case ht_found ht k of None \<Rightarrow> [] | Some old \<Rightarrow>
     (if ht_value_free_func ht then [FreeValue (he_value old)] else []) @
     (if ht_key_free_func ht then [FreeKey (he_key old)] else []))"

lemma ht_insert_old:
  assumes "ht_inv ht" "ht_entries ht * 3 < ht_table_size ht" "ht_found ht k = Some old"
  shows "\<exists>ht'. hash_table_insert m1 m2 ht k v = Some (1, ht', ht_old_freed ht k) \<and> ht_inv ht' \<and>
           ht' = ht\<lparr>ht_table := ht_table ht'\<rparr> \<and>
           ht_map ht' = (\<lambda>k'. if ht_equal_func ht k' k \<noteq> 0 then Some v else ht_map ht k')"
proof -
  let ?eq = "ht_equal_func ht" and ?new = "\<lparr>he_key = k, he_value = v\<rparr>"
  have he: "hash_equal (ht_hash_func ht) ?eq" and u: "unique_keys ?eq he_key (concat (ht_table ht))"
    using assms(1) by (auto simp: ht_inv_def)
  obtain i where i: "i < length (ht_table ht)" "i = unat (ht_hash_func ht k) mod length (ht_table ht)"
      "bucket_index (ht_hash_func ht k) (ht_table_size ht) = Some (int i)"
      "bucket_get (ht_table ht) (int i) = Some (ht_table ht ! i)"
      "find (\<lambda>e. ?eq (he_key e) k \<noteq> 0) (ht_table ht ! i) = Some old"
    using ht_bucket[OF assms(1), of k] assms(3) hash_equal.find_commute[OF he, of he_key k] by metis
  from i(5) overwrite_eq[where eq = ?eq and k = k and v = v and es = "ht_table ht ! i"] obtain c where
    c: "hash_table_overwrite ?eq k v (ht_table ht ! i) = Some (old, c)"
       "add_mset old (mset c) = add_mset ?new (mset (ht_table ht ! i))" by auto
  let ?t = "(ht_table ht)[i := c]"
  have m: "add_mset old (mset (concat ?t)) = add_mset ?new (mset (concat (ht_table ht)))"
    by (rule mset_concat_replace[OF i(1) c(2)])
  have old: "old \<in> set (concat (ht_table ht))" "?eq k (he_key old) \<noteq> 0"
    using assms(3) hash_equal.unique_keys_find[OF he u] by (auto simp: ht_found_def)
  note r = hash_equal.find_replaced[OF he u m old, simplified]
  have "ht_inv (ht\<lparr>ht_table := ?t, ht_entries := ht_entries ht\<rparr>)"
  proof (rule ht_update_chain[OF assms(1) i(1)])
    fix e assume "e \<in> set c"
    then have "e \<in># add_mset ?new (mset (ht_table ht ! i))" by (simp flip: c(2))
    then show "e \<in> set (ht_table ht ! i) \<or> unat (ht_hash ht e) mod length (ht_table ht) = i"
      using i(2) by auto
  qed (use r assms(1) mset_length_eq[OF m] in \<open>auto simp: ht_inv_def\<close>)
  moreover have "hash_table_insert m1 m2 ht k v = Some (1, ht\<lparr>ht_table := ?t\<rparr>, ht_old_freed ht k)"
    using assms ht_size_bounds[OF assms(1)] i c(1)
    by (simp add: hash_table_insert_def bucket_crowded_ok ht_inv_def bucket_set_def ht_old_freed_def)
  moreover have "ht_map (ht\<lparr>ht_table := ?t\<rparr>) =
      (\<lambda>k'. if ?eq k' k \<noteq> 0 then Some v else ht_map ht k')"
    using r by (auto simp: ht_map_def ht_found_def)
  ultimately show ?thesis by (intro exI[of _ "ht\<lparr>ht_table := ?t\<rparr>"]) simp
qed

lemma ht_insert_new:
  assumes "ht_inv ht" "ht_entries ht * 3 < ht_table_size ht" "ht_found ht k = None"
  shows "\<exists>ht'. hash_table_insert m1 True ht k v = Some (1, ht', []) \<and> ht_inv ht' \<and>
           ht' = ht\<lparr>ht_table := ht_table ht', ht_entries := ht_entries ht + 1\<rparr> \<and>
           ht_map ht' = (\<lambda>k'. if ht_equal_func ht k' k \<noteq> 0 then Some v else ht_map ht k')"
    and "hash_table_insert m1 False ht k v = Some (0, ht, [])"
proof -
  let ?eq = "ht_equal_func ht" and ?new = "\<lparr>he_key = k, he_value = v\<rparr>"
  have he: "hash_equal (ht_hash_func ht) ?eq" and u: "unique_keys ?eq he_key (concat (ht_table ht))"
    using assms(1) by (auto simp: ht_inv_def)
  obtain i where i: "i < length (ht_table ht)" "i = unat (ht_hash_func ht k) mod length (ht_table ht)"
      "bucket_index (ht_hash_func ht k) (ht_table_size ht) = Some (int i)"
      "bucket_get (ht_table ht) (int i) = Some (ht_table ht ! i)"
      "find (\<lambda>e. ?eq (he_key e) k \<noteq> 0) (ht_table ht ! i) = None"
    using ht_bucket[OF assms(1), of k] assms(3) hash_equal.find_commute[OF he, of he_key k] by metis
  then have o: "hash_table_overwrite ?eq k v (ht_table ht ! i) = None"
    using overwrite_eq[where eq = ?eq and k = k and v = v and es = "ht_table ht ! i"] by simp
  let ?c = "?new # ht_table ht ! i" and ?n = "ht_entries ht + 1"
  let ?t = "(ht_table ht)[i := ?c]"
  have m: "mset (concat ?t) = mset (?new # concat (ht_table ht))"
    using mset_concat_update[OF i(1), of ?c] by simp
  have u': "unique_keys ?eq he_key (?new # concat (ht_table ht))"
    using assms(3) u by (simp add: hash_equal.unique_keys_Cons[OF he] ht_found_def)
  have crowded: "bucket_crowded (ht_entries ht) (ht_table_size ht) = Some False"
    using assms(1,2) ht_size_bounds[OF assms(1)] by (simp add: bucket_crowded_ok ht_inv_def)
  have "ht_inv (ht\<lparr>ht_table := ?t, ht_entries := ?n\<rparr>)"
    using i(2) assms(1,2) u' hash_equal.unique_keys_mset[OF he m] mset_eq_length[OF m]
    by (intro ht_update_chain[OF assms(1) i(1)]) (auto simp: ht_inv_def)
  moreover have "c_int ?n = Some ?n" using assms ht_size_bounds[OF assms(1)]
    by (intro c_int_nonneg) (auto simp: ht_inv_def)
  then have "hash_table_insert m1 True ht k v = Some (1, ht\<lparr>ht_table := ?t, ht_entries := ?n\<rparr>, [])"
    using i crowded o by (simp add: hash_table_insert_def bucket_link_def bucket_set_def)
  moreover have "ht_map (ht\<lparr>ht_table := ?t, ht_entries := ?n\<rparr>) =
      (\<lambda>k'. if ?eq k' k \<noteq> 0 then Some v else ht_map ht k')"
    using hash_equal.find_added[OF he u' m] by (auto simp: ht_map_def ht_found_def)
  ultimately show "\<exists>ht'. hash_table_insert m1 True ht k v = Some (1, ht', []) \<and> ht_inv ht' \<and>
           ht' = ht\<lparr>ht_table := ht_table ht', ht_entries := ht_entries ht + 1\<rparr> \<and>
           ht_map ht' = (\<lambda>k'. if ht_equal_func ht k' k \<noteq> 0 then Some v else ht_map ht k')"
    by (intro exI[of _ "ht\<lparr>ht_table := ?t, ht_entries := ?n\<rparr>"]) simp
  show "hash_table_insert m1 False ht k v = Some (0, ht, [])"
    using i crowded o by (simp add: hash_table_insert_def)
qed


text \<open>Insertion into a crowded table is insertion into the enlarged table.\<close>

lemma ht_insert_crowded:
  assumes "ht_inv ht" "ht_table_size ht \<le> ht_entries ht * 3" "ht_entries ht < 536870914"
  shows "hash_table_insert False m2 ht k v = Some (0, ht, [])"
    and "\<exists>ht1. ht_inv ht1 \<and> ht_entries ht1 * 3 < ht_table_size ht1 \<and> ht_found ht1 = ht_found ht \<and>
           ht1 = ht\<lparr>ht_table := ht_table ht1, ht_table_size := ht_table_size ht1,
                    ht_prime_index := ht_prime_index ht + 1\<rparr> \<and>
           hash_table_insert True m2 ht k v = hash_table_insert True m2 ht1 k v"
proof -
  have c: "bucket_crowded (ht_entries ht) (ht_table_size ht) = Some True"
    using assms ht_size_bounds[OF assms(1)] by (simp add: bucket_crowded_ok ht_inv_def c_int_bounds)
  have pi: "ht_prime_index ht < 23" using assms prime_sizes(3)[of "ht_prime_index ht"]
    by (simp add: ht_inv_def)
  show "hash_table_insert False m2 ht k v = Some (0, ht, [])"
    using c ht_enlarge_fail[OF assms(1) pi] by (simp add: hash_table_insert_def)
  obtain ht1 where e: "hash_table_enlarge True ht = Some (1, ht1)" "ht_inv ht1"
      "mset (concat (ht_table ht1)) = mset (concat (ht_table ht))"
      and h: "ht1 = ht\<lparr>ht_table := ht_table ht1, ht_table_size := ht_table_size ht1,
                    ht_prime_index := ht_prime_index ht + 1\<rparr>"
    using ht_enlarge_ok[OF assms(1) pi] by blast
  have f: "ht_entries ht1 = ht_entries ht" "ht_prime_index ht1 = ht_prime_index ht + 1"
      "ht_equal_func ht1 = ht_equal_func ht" by (subst h, simp)+
  have r: "ht_entries ht1 * 3 < ht_table_size ht1"
    using assms(1) e(2) f(1,2) prime_step[of "ht_prime_index ht"] pi by (simp add: ht_inv_def)
  have "ht_found ht1 = ht_found ht"
    using hash_equal.unique_keys_find_mset[OF _ _ e(3)] e(2) f(3) by (auto simp: ht_found_def ht_inv_def fun_eq_iff)
  moreover have "hash_table_insert True m2 ht k v = hash_table_insert True m2 ht1 k v"
  proof -
    have "bucket_crowded (ht_entries ht1) (ht_table_size ht1) = Some False"
      using r ht_size_bounds[OF e(2)] e(2) by (simp add: bucket_crowded_ok ht_inv_def)
    then show ?thesis using c e(1) by (simp add: hash_table_insert_def)
  qed
  ultimately show "\<exists>ht1. ht_inv ht1 \<and> ht_entries ht1 * 3 < ht_table_size ht1 \<and> ht_found ht1 = ht_found ht \<and>
           ht1 = ht\<lparr>ht_table := ht_table ht1, ht_table_size := ht_table_size ht1,
                    ht_prime_index := ht_prime_index ht + 1\<rparr> \<and>
           hash_table_insert True m2 ht k v = hash_table_insert True m2 ht1 k v"
    using e(2) r h by blast
qed

lemma ht_insert_uncrowded:
  assumes "ht_inv h" "ht_entries h * 3 < ht_table_size h" "ht_found h k \<noteq> None \<or> m2"
  shows "\<exists>ht'. hash_table_insert m1 m2 h k v = Some (1, ht', ht_old_freed h k) \<and> ht_inv ht' \<and>
           ht_map ht' = (\<lambda>k'. if ht_equal_func h k' k \<noteq> 0 then Some v else ht_map h k') \<and>
           ht_entries ht' = ht_entries h + (if ht_found h k = None then 1 else 0) \<and>
           ht_hash_func ht' = ht_hash_func h \<and> ht_equal_func ht' = ht_equal_func h"
proof (cases "ht_found h k")
  case None
  with assms(3) have "m2" by simp
  from ht_insert_new(1)[OF assms(1,2) None, of m1 v] obtain ht' where
    "hash_table_insert m1 True h k v = Some (1, ht', [])" "ht_inv ht'"
    and h: "ht' = h\<lparr>ht_table := ht_table ht', ht_entries := ht_entries h + 1\<rparr>"
    and "ht_map ht' = (\<lambda>k'. if ht_equal_func h k' k \<noteq> 0 then Some v else ht_map h k')" by blast
  moreover have "ht_entries ht' = ht_entries h + 1" "ht_hash_func ht' = ht_hash_func h"
    "ht_equal_func ht' = ht_equal_func h" by (subst h, simp)+
  ultimately show ?thesis using None \<open>m2\<close> by (simp add: ht_old_freed_def)
next
  case (Some old)
  from ht_insert_old[OF assms(1,2) Some, of m1 m2 v] obtain ht' where
    "hash_table_insert m1 m2 h k v = Some (1, ht', ht_old_freed h k)" "ht_inv ht'"
    and h: "ht' = h\<lparr>ht_table := ht_table ht'\<rparr>"
    and "ht_map ht' = (\<lambda>k'. if ht_equal_func h k' k \<noteq> 0 then Some v else ht_map h k')" by blast
  moreover have "ht_entries ht' = ht_entries h" "ht_hash_func ht' = ht_hash_func h"
    "ht_equal_func ht' = ht_equal_func h" by (subst h, simp)+
  ultimately show ?thesis using Some by simp
qed

lemma ht_insert_ok:
  assumes "ht_inv ht" "ht_entries ht < 536870914"
    and "ht_entries ht * 3 < ht_table_size ht \<or> m1" "ht_found ht k \<noteq> None \<or> m2"
  shows "\<exists>ht'. hash_table_insert m1 m2 ht k v = Some (1, ht', ht_old_freed ht k) \<and> ht_inv ht' \<and>
           ht_map ht' = (\<lambda>k'. if ht_equal_func ht k' k \<noteq> 0 then Some v else ht_map ht k') \<and>
           ht_entries ht' = ht_entries ht + (if ht_found ht k = None then 1 else 0) \<and>
           ht_hash_func ht' = ht_hash_func ht \<and> ht_equal_func ht' = ht_equal_func ht"
proof (cases "ht_entries ht * 3 < ht_table_size ht")
  case True then show ?thesis using ht_insert_uncrowded[OF assms(1) True assms(4)] by simp
next
  case False
  then have "m1" using assms(3) by simp
  obtain h where h: "ht_inv h" "ht_entries h * 3 < ht_table_size h" "ht_found h = ht_found ht"
      "hash_table_insert True m2 ht k v = hash_table_insert True m2 h k v"
      "h = ht\<lparr>ht_table := ht_table h, ht_table_size := ht_table_size h,
                  ht_prime_index := ht_prime_index ht + 1\<rparr>"
    using ht_insert_crowded(2)[OF assms(1) _ assms(2), of m2 k v] False by auto
  have f: "ht_entries h = ht_entries ht" "ht_hash_func h = ht_hash_func ht"
    "ht_equal_func h = ht_equal_func ht" "ht_key_free_func h = ht_key_free_func ht"
    "ht_value_free_func h = ht_value_free_func ht" by (subst h(5), simp)+
  have g: "ht_old_freed h k = ht_old_freed ht k" "ht_map h k' = ht_map ht k'" for k'
    using h(3) f by (auto simp: ht_old_freed_def ht_map_def split: option.split)
  from ht_insert_uncrowded[OF h(1,2), of k m2 m1 v] assms(4) h(3,4) \<open>m1\<close> show ?thesis
    unfolding f g by auto
qed

lemma ht_insert_fail:
  assumes "ht_inv ht" "ht_entries ht < 536870914"
    and "\<not> (ht_entries ht * 3 < ht_table_size ht \<or> m1) \<or> \<not> (ht_found ht k \<noteq> None \<or> m2)"
  shows "\<exists>ht'. hash_table_insert m1 m2 ht k v = Some (0, ht', []) \<and> ht_inv ht' \<and>
           ht_map ht' = ht_map ht \<and> ht_entries ht' = ht_entries ht"
proof (cases "ht_entries ht * 3 < ht_table_size ht")
  case True
  then show ?thesis using ht_insert_new(2)[OF assms(1) True] assms by auto
next
  case False
  note crowded = ht_insert_crowded[OF assms(1) _ assms(2), of m2 k v]
  show ?thesis
  proof (cases m1)
    case True
    obtain h where h: "ht_inv h" "ht_entries h * 3 < ht_table_size h" "ht_found h = ht_found ht"
        "hash_table_insert True m2 ht k v = hash_table_insert True m2 h k v"
        "h = ht\<lparr>ht_table := ht_table h, ht_table_size := ht_table_size h,
                    ht_prime_index := ht_prime_index ht + 1\<rparr>"
      using crowded(2) False by auto
    have "ht_entries h = ht_entries ht" by (subst h(5), simp)
    moreover have "hash_table_insert True False h k v = Some (0, h, [])" "\<not> m2"
      using ht_insert_new(2)[OF h(1,2)] h(3) assms(3) True by auto
    ultimately show ?thesis using h(1,3,4) True by (auto simp: ht_map_def)
  next
    case False
    then show ?thesis using crowded(1) \<open>\<not> ht_entries ht * 3 < ht_table_size ht\<close> assms(1) by auto
  qed
qed

lemma ht_remove_ok:
  assumes "ht_inv ht"
  shows "\<exists>r ht' fs. hash_table_remove ht k = Some (r, ht', fs) \<and> ht_inv ht' \<and>
           ht_map ht' = (\<lambda>k'. if ht_equal_func ht k' k \<noteq> 0 then None else ht_map ht k') \<and>
           ht_hash_func ht' = ht_hash_func ht \<and> ht_equal_func ht' = ht_equal_func ht \<and>
           (case ht_found ht k of
              None \<Rightarrow> r = 0 \<and> ht' = ht \<and> fs = []
            | Some e \<Rightarrow> r = 1 \<and> ht_entries ht' = ht_entries ht - 1 \<and> fs = hash_table_free_entry ht e)"
proof -
  let ?eq = "ht_equal_func ht" and ?P = "\<lambda>e. ht_equal_func ht k (he_key e) \<noteq> 0"
  have he: "hash_equal (ht_hash_func ht) ?eq" and u: "unique_keys ?eq he_key (concat (ht_table ht))"
    using assms by (auto simp: ht_inv_def)
  obtain i where i: "i < length (ht_table ht)" "i = unat (ht_hash_func ht k) mod length (ht_table ht)"
      "bucket_index (ht_hash_func ht k) (ht_table_size ht) = Some (int i)"
      "bucket_get (ht_table ht) (int i) = Some (ht_table ht ! i)"
      "find ?P (ht_table ht ! i) = ht_found ht k"
    using ht_bucket[OF assms, of k] by metis
  show ?thesis
  proof (cases "ht_found ht k")
    case None
    then have "hash_table_remove ht k = Some (0, ht, [])"
      using i by (simp add: hash_table_remove_def chain_unlink_eq)
    moreover have "ht_map ht k' = None" if "?eq k' k \<noteq> 0" for k'
    proof -
      have "ht_found ht k' = ht_found ht k" unfolding ht_found_def by (rule hash_equal.find_cong[OF he that])
      then show ?thesis using None by (simp add: ht_map_def)
    qed
    ultimately show ?thesis using None assms by (auto simp: fun_eq_iff)
  next
    case (Some e)
    let ?c = "remove1 e (ht_table ht ! i)" and ?n = "ht_entries ht - 1"
    let ?t = "(ht_table ht)[i := ?c]"
    have e: "e \<in> set (ht_table ht ! i)" "?P e" using i(5) Some by (auto simp: find_Some_iff in_set_conv_nth)
    then have m: "mset (concat (ht_table ht)) = add_mset e (mset (concat ?t))"
      by (intro mset_concat_remove[OF i(1)]) simp
    note r = hash_equal.find_removed[OF he u m e(2)]
    have l: "length (concat (ht_table ht)) = Suc (length (concat ?t))"
      using arg_cong[OF m, of size] by simp
    have "ht_inv (ht\<lparr>ht_table := ?t, ht_entries := ?n\<rparr>)"
    proof (rule ht_update_chain[OF assms i(1)])
      show "x \<in> set (ht_table ht ! i) \<or> unat (ht_hash ht x) mod length (ht_table ht) = i" if "x \<in> set ?c" for x
        using that set_remove1_subset by fastforce
      show "unique_keys ?eq he_key (concat ?t)" using r by blast
      show "?n = int (length (concat ?t))" "?n * 3 < ht_table_size ht + 3"
        using l assms by (simp_all add: ht_inv_def)
    qed
    moreover have "c_int ?n = Some ?n"
      using assms l ht_size_bounds[OF assms] by (intro c_int_nonneg) (auto simp: ht_inv_def)
    then have "hash_table_remove ht k =
        Some (1, ht\<lparr>ht_table := ?t, ht_entries := ?n\<rparr>, hash_table_free_entry ht e)"
      using i Some by (simp add: hash_table_remove_def chain_unlink_eq bucket_set_def)
    moreover have "ht_map (ht\<lparr>ht_table := ?t, ht_entries := ?n\<rparr>) =
        (\<lambda>k'. if ?eq k' k \<noteq> 0 then None else ht_map ht k')"
      using r by (auto simp: ht_map_def ht_found_def)
    ultimately show ?thesis using Some by simp
  qed
qed

lemma ht_new_ok:
  assumes "hash_equal hf ef"
  shows "\<exists>ht. hash_table_new True True hf ef = Some (Some ht) \<and> ht_inv ht \<and> ht_entries ht = 0 \<and>
           ht_hash_func ht = hf \<and> ht_equal_func ht = ef \<and> ht_map ht = (\<lambda>k. None)"
  using assms by (auto simp: hash_table_new_def hash_table_allocate_table_def hash_table_num_primes_def
      ht_inv_def hash_table_primes_def unique_keys_def ht_map_def ht_found_def)

text \<open>The hash table is a map store.\<close>

definition ht_put :: "('k, 'v) HashTable \<Rightarrow> 'k \<Rightarrow> 'v option \<Rightarrow> ('k, 'v) HashTable option" where
  "ht_put ht k v = map_option (\<lambda>(r, ht, fs). ht) (hash_table_insert True True ht k v)"

definition ht_delete :: "('k, 'v) HashTable \<Rightarrow> 'k \<Rightarrow> ('k, 'v) HashTable option" where
  "ht_delete ht k = map_option (\<lambda>(r, ht, fs). ht) (hash_table_remove ht k)"

definition ht_same :: "('k, 'v) HashTable \<Rightarrow> 'k \<Rightarrow> 'k \<Rightarrow> bool" where
  "ht_same ht k k' \<longleftrightarrow> ht_equal_func ht k' k \<noteq> 0"

interpretation ht: map_store ht_inv ht_map ht_same ht_put ht_delete "\<lambda>ht. 536870914 - nat (ht_entries ht)"
proof
  fix ht :: "('a, 'b) HashTable" and k v
  assume inv: "ht_inv ht"
  have same_eq: "ht_equal_func h = ht_equal_func ht \<Longrightarrow> ht_same h = ht_same ht" for h :: "('a, 'b) HashTable"
    by (simp add: ht_same_def fun_eq_iff)
  show "\<exists>ht'. ht_put ht k v = Some ht' \<and> ht_inv ht' \<and> ht_same ht' = ht_same ht \<and>
      536870914 - nat (ht_entries ht) \<le> Suc (536870914 - nat (ht_entries ht')) \<and>
      ht_map ht' = (\<lambda>k'. if ht_same ht k k' then Some v else ht_map ht k')"
    if room: "0 < 536870914 - nat (ht_entries ht)"
  proof -
    have n: "ht_entries ht < 536870914" using room by arith
    obtain ht' where h: "hash_table_insert True True ht k v = Some (1, ht', ht_old_freed ht k)"
      "ht_inv ht'" "ht_map ht' = (\<lambda>k'. if ht_equal_func ht k' k \<noteq> 0 then Some v else ht_map ht k')"
      "ht_entries ht' = ht_entries ht + (if ht_found ht k = None then 1 else 0)"
      "ht_equal_func ht' = ht_equal_func ht"
      using ht_insert_ok[OF inv n, of True k True v] by auto
    have "ht_entries ht' \<le> ht_entries ht + 1" using h(4) by simp
    then have "536870914 - nat (ht_entries ht) \<le> Suc (536870914 - nat (ht_entries ht'))" by arith
    then show ?thesis using h same_eq[OF h(5)]
      by (intro exI[of _ ht']) (auto simp: ht_put_def ht_same_def)
  qed
  show "\<exists>ht'. ht_delete ht k = Some ht' \<and> ht_inv ht' \<and> ht_same ht' = ht_same ht \<and>
      536870914 - nat (ht_entries ht) \<le> 536870914 - nat (ht_entries ht') \<and>
      ht_map ht' = (\<lambda>k'. if ht_same ht k k' then None else ht_map ht k')"
  proof -
    obtain r ht' fs where h: "hash_table_remove ht k = Some (r, ht', fs)" "ht_inv ht'"
      "ht_map ht' = (\<lambda>k'. if ht_equal_func ht k' k \<noteq> 0 then None else ht_map ht k')"
      "ht_equal_func ht' = ht_equal_func ht" "ht_entries ht' \<le> ht_entries ht"
      using ht_remove_ok[OF inv, of k] by (auto split: option.splits)
    then show ?thesis using same_eq[OF h(4)]
      by (intro exI[of _ ht']) (auto simp: ht_delete_def ht_same_def)
  qed
qed


section \<open>Iteration\<close>

text \<open>Calling next while has_more holds: the values in the order of the calls.\<close>

primrec ht_iter_values :: "nat \<Rightarrow> ('k, 'v) HashTable \<Rightarrow> ('k, 'v) HashTableIterator \<Rightarrow> 'v option list option" where
  "ht_iter_values 0 ht it = Some []"
| "ht_iter_values (Suc n) ht it =
     (if hash_table_iter_has_more it then do {
        (v, it) \<leftarrow> hash_table_iter_next ht it;
        vs \<leftarrow> ht_iter_values n ht it;
        Some (v # vs)
      }
      else Some [])"

text \<open>The entries an iterator has still to visit.\<close>

definition ht_iter_rest :: "('k, 'v) HashTable \<Rightarrow> ('k, 'v) HashTableIterator \<Rightarrow> ('k, 'v) HashTableEntry list \<Rightarrow> bool" where
  "ht_iter_rest ht it es \<longleftrightarrow>
     (if hi_next_entry it = [] then es = []
      else \<exists>c. hi_next_chain it = Some c \<and> 0 \<le> c \<and> c < ht_table_size ht \<and>
             es = hi_next_entry it @ concat (drop (Suc (nat c)) (ht_table ht)))"

lemma ht_iter_restI:
  assumes "ht_inv ht" "0 \<le> i" "bucket_next (ht_table ht) (ht_table_size ht) i = Some (c, j)"
    and "hi_next_entry it = c" "c \<noteq> [] \<Longrightarrow> hi_next_chain it = Some j"
  shows "ht_iter_rest ht it (concat (drop (nat i) (ht_table ht)))"
proof -
  have n: "ht_table_size ht = int (length (ht_table ht))"
    using assms(1) ht_size_bounds[OF assms(1)] by (simp add: ht_inv_def)
  have j: "i \<le> j" "c @ concat (drop (Suc (nat j)) (ht_table ht)) = concat (drop (nat i) (ht_table ht))"
      "c = [] \<longrightarrow> concat (drop (nat i) (ht_table ht)) = []"
    using bucket_next_ok[OF assms(2) n] assms(3) by auto
  moreover have "j < ht_table_size ht" if "c \<noteq> []"
    using bucket_next_less[OF assms(3) that] .
  ultimately show ?thesis using assms(2,4,5) by (auto simp: ht_iter_rest_def)
qed

lemma ht_iter_next_ok:
  assumes "ht_inv ht" "ht_iter_rest ht it (e # es)"
  shows "\<exists>it'. hash_table_iter_next ht it = Some (he_value e, it') \<and> ht_iter_rest ht it' es"
proof -
  obtain c rest where c: "hi_next_chain it = Some c" "0 \<le> c" "c < ht_table_size ht"
      "hi_next_entry it = e # rest" "es = rest @ concat (drop (Suc (nat c)) (ht_table ht))"
    using assms(2) by (cases "hi_next_entry it") (auto simp: ht_iter_rest_def)
  show ?thesis
  proof (cases rest)
    case (Cons a as)
    then show ?thesis using c by (simp add: hash_table_iter_next_def ht_iter_rest_def)
  next
    case Nil
    have n: "ht_table_size ht = int (length (ht_table ht))"
      using assms(1) ht_size_bounds[OF assms(1)] by (simp add: ht_inv_def)
    obtain d j where d: "bucket_next (ht_table ht) (ht_table_size ht) (c + 1) = Some (d, j)"
      using bucket_next_ok[OF _ n, of "c + 1"] c(2) by auto
    have "c_int (c + 1) = Some (c + 1)" using c(2,3) ht_size_bounds[OF assms(1)] by simp
    then have "hash_table_iter_next ht it = Some (he_value e, \<lparr>hi_next_entry = d, hi_next_chain = Some j\<rparr>)"
      using c(1,4) Nil d by (simp add: hash_table_iter_next_def)
    moreover have "nat (c + 1) = Suc (nat c)" using c(2) by simp
    ultimately show ?thesis
      using ht_iter_restI[OF assms(1) _ d, of "\<lparr>hi_next_entry = d, hi_next_chain = Some j\<rparr>"] c(2,5) Nil
      by simp
  qed
qed

lemma ht_iter_values_ok:
  "ht_inv ht \<Longrightarrow> ht_iter_rest ht it es \<Longrightarrow> length es \<le> n \<Longrightarrow> ht_iter_values n ht it = Some (map he_value es)"
proof (induction n arbitrary: it es)
  case (Suc n)
  show ?case
  proof (cases es)
    case Nil
    then have "hi_next_entry it = []" using Suc.prems(2) by (auto simp: ht_iter_rest_def split: if_splits)
    then show ?thesis using Nil by (simp add: hash_table_iter_has_more_def)
  next
    case (Cons e es')
    then have "hi_next_entry it \<noteq> []" using Suc.prems(2) by (auto simp: ht_iter_rest_def split: if_splits)
    moreover obtain it' where "hash_table_iter_next ht it = Some (he_value e, it')" "ht_iter_rest ht it' es'"
      using ht_iter_next_ok[OF Suc.prems(1)] Suc.prems(2) Cons by blast
    ultimately show ?thesis using Suc.IH[of it' es'] Suc.prems(1,3) Cons
      by (simp add: hash_table_iter_has_more_def)
  qed
qed simp

lemma ht_iterate_ok: "ht_inv ht \<Longrightarrow>
    \<exists>it. hash_table_iterate ht = Some it \<and> ht_iter_rest ht it (concat (ht_table ht))"
proof -
  assume inv: "ht_inv ht"
  then have n: "ht_table_size ht = int (length (ht_table ht))"
    using ht_size_bounds[OF inv] by (simp add: ht_inv_def)
  obtain c j where c: "bucket_next (ht_table ht) (ht_table_size ht) 0 = Some (c, j)"
    using bucket_next_ok[OF _ n, of 0] by auto
  then show ?thesis using ht_iter_restI[OF inv _ c] by (simp add: hash_table_iterate_def)
qed


section \<open>Properties\<close>

text \<open>C23: On a table of fewer than 536870914 entries, for which the sizes of the table stay within an int, hash_table_insert keeps the invariant of the table and refines the update of a map: on
  success every key equal to the given one is bound to the new value and all others keep theirs,
  the entry count grows exactly when the key is new, and the old key and value are handed to the
  free functions. If the enlarged table or the new entry cannot be allocated it returns 0 and the
  map is unchanged.\<close>

theorem hash_table_insert_spec:
  assumes "ht_inv ht" "hash_table_num_entries ht < 536870914"
  shows "\<exists>r ht' fs. hash_table_insert m1 m2 ht k v = Some (r, ht', fs) \<and> ht_inv ht' \<and>
           (if (ht_entries ht * 3 < ht_table_size ht \<or> m1) \<and> (ht_map ht k \<noteq> None \<or> m2)
            then r = 1 \<and> ht_map ht' = (\<lambda>k'. if ht_equal_func ht k' k \<noteq> 0 then Some v else ht_map ht k') \<and>
                 ht_entries ht' = ht_entries ht + (if ht_map ht k = None then 1 else 0) \<and>
                 fs = ht_old_freed ht k
            else r = 0 \<and> ht_map ht' = ht_map ht \<and> ht_entries ht' = ht_entries ht \<and> fs = [])"
  (is "\<exists>r ht' fs. _ \<and> _ \<and> (if ?ok then _ else _)")
proof -
  have f: "ht_map ht k = None \<longleftrightarrow> ht_found ht k = None" by (simp add: ht_map_def)
  have n: "ht_entries ht < 536870914" using assms(2) by (simp add: hash_table_num_entries_def)
  show ?thesis
  proof (cases ?ok)
    case True
    then show ?thesis using ht_insert_ok[OF assms(1) n, of m1 k m2 v] by (auto simp: f)
  next
    case False
    then show ?thesis using ht_insert_fail[OF assms(1) n, of m1 k m2 v] unfolding f by fastforce
  qed
qed

lemma ht_new_int:
  obtains ht :: "(int, nat) HashTable" where "hash_table_new True True int_hash int_equal = Some (Some ht)"
    "ht_inv ht" "ht_entries ht = 0" "ht_equal_func ht = int_equal" "ht_map ht = (\<lambda>k. None)"
    "ht_table_size ht = 193"
proof -
  obtain ht :: "(int, nat) HashTable" where h: "hash_table_new True True int_hash int_equal = Some (Some ht)"
    "ht_inv ht" "ht_entries ht = 0" "ht_equal_func ht = int_equal" "ht_map ht = (\<lambda>k. None)"
    using ht_new_ok[OF int_key.hash_equal_axioms] by blast
  moreover have "ht_table_size ht = 193" using h(1)
    by (auto simp: hash_table_new_def hash_table_allocate_table_def hash_table_num_primes_def
        hash_table_primes_def)
  ultimately show ?thesis using that by blast
qed

theorem hash_table_insert_spec_witness:
  "\<exists>ht ht'. hash_table_new True True int_hash int_equal = Some (Some ht) \<and>
     hash_table_insert True True ht 5 (Some (7::nat)) = Some (1, ht', []) \<and> ht_map ht' 5 = Some (Some 7)"
proof (rule ht_new_int)
  fix ht :: "(int, nat) HashTable"
  assume h: "hash_table_new True True int_hash int_equal = Some (Some ht)" "ht_inv ht" "ht_entries ht = 0"
    "ht_equal_func ht = int_equal" "ht_map ht = (\<lambda>k. None)"
  moreover have "ht_found ht 5 = None" using fun_cong[OF h(5), of 5] by (simp add: ht_map_def)
  ultimately show ?thesis using hash_table_insert_spec[of ht True True 5 "Some 7"]
    by (auto simp: hash_table_num_entries_def ht_old_freed_def int_equal_def)
qed

text \<open>C24: After any sequence of at most 536870914 insertions into a new hash table, when no allocation fails, hash_table_lookup returns for every
  key the value it was last inserted with, and NULL for a key that was never inserted.\<close>

theorem hash_table_lookup_last:
  fixes bs :: "('k \<times> 'v option) list"
  assumes "hash_equal hf ef" "length bs \<le> 536870914"
  shows "\<exists>ht ht'. hash_table_new True True hf ef = Some (Some ht) \<and> insert_all ht_put bs ht = Some ht' \<and>
           (\<forall>k. hash_table_lookup ht' k =
                 Some (case last_binding (\<lambda>x y. ef y x \<noteq> 0) bs k of None \<Rightarrow> None | Some v \<Rightarrow> v))"
proof -
  obtain ht :: "('k, 'v) HashTable" where ht: "hash_table_new True True hf ef = Some (Some ht)" "ht_inv ht" "ht_entries ht = 0"
      "ht_equal_func ht = ef" "ht_map ht = (\<lambda>k. None)" using ht_new_ok[OF assms(1)] by blast
  have "ht_same ht = (\<lambda>x y. ef y x \<noteq> 0)" using ht(4) by (simp add: ht_same_def fun_eq_iff)
  then show ?thesis using ht.insert_all_lookup[OF ht(2), of bs] ht assms(2) ht_lookup_ok
    by (fastforce split: option.split)
qed

theorem hash_table_lookup_last_witness:
  "\<exists>ht ht'. hash_table_new True True int_hash int_equal = Some (Some ht) \<and>
     insert_all ht_put [(1, Some (10::nat)), (2, Some 20), (1, Some 30)] ht = Some ht' \<and>
     hash_table_lookup ht' 1 = Some (Some 30) \<and> hash_table_lookup ht' 3 = Some None"
proof -
  let ?bs = "[(1::int, Some (10::nat)), (2, Some 20), (1, Some 30)]"
  have "last_binding (\<lambda>x y. int_equal y x \<noteq> 0) ?bs 1 = Some (Some 30)"
    "last_binding (\<lambda>x y. int_equal y x \<noteq> 0) ?bs 3 = None"
    by (simp_all add: last_binding_def int_equal_def)
  then show ?thesis using hash_table_lookup_last[OF int_key.hash_equal_axioms, of ?bs] by fastforce
qed

text \<open>C25: hash_table_remove removes exactly the entry of the given key, returns whether there was one,
  frees that entry with its key and value, and keeps every other binding and the invariant.\<close>

theorem hash_table_remove_spec:
  assumes "ht_inv ht"
  shows "\<exists>r ht' fs. hash_table_remove ht k = Some (r, ht', fs) \<and> ht_inv ht' \<and>
           ht_map ht' = (\<lambda>k'. if ht_equal_func ht k' k \<noteq> 0 then None else ht_map ht k') \<and>
           (case ht_found ht k of
              None \<Rightarrow> r = 0 \<and> ht' = ht \<and> fs = []
            | Some e \<Rightarrow> r = 1 \<and> ht_entries ht' = ht_entries ht - 1 \<and> fs = hash_table_free_entry ht e)"
  using ht_remove_ok[OF assms, of k] by blast

theorem hash_table_remove_spec_witness:
  "\<exists>ht. hash_table_new True True int_hash int_equal = Some (Some ht) \<and>
     hash_table_remove (ht :: (int, nat) HashTable) 5 = Some (0, ht, [])"
proof (rule ht_new_int)
  fix ht :: "(int, nat) HashTable"
  assume h: "hash_table_new True True int_hash int_equal = Some (Some ht)" "ht_inv ht"
    "ht_map ht = (\<lambda>k. None)"
  moreover have "ht_found ht 5 = None" using fun_cong[OF h(3), of 5] by (simp add: ht_map_def)
  ultimately show ?thesis using hash_table_remove_spec[of ht 5] by auto
qed

text \<open>An iterator visits every entry of the table exactly once and then reports that there are no
  more, and hash_table_free hands every key and every value to its free function exactly once.\<close>

theorem hash_table_iterates_and_frees_all:
  assumes "ht_inv ht" "nat (hash_table_num_entries ht) \<le> n"
  shows "\<exists>it. hash_table_iterate ht = Some it \<and>
           ht_iter_values n ht it = Some (map he_value (concat (ht_table ht))) \<and>
           hash_table_free ht = Some (concat (map (hash_table_free_entry ht) (concat (ht_table ht))) @
             [FreeTable, FreeStruct])"
proof -
  have "bucket_walk (ht_table ht) (ht_table_size ht) 0 = Some (concat (ht_table ht))"
    using assms(1) ht_size_bounds[OF assms(1)] by (simp add: bucket_walk_ok ht_inv_def)
  moreover have "length (concat (ht_table ht)) \<le> n"
    using assms by (simp add: ht_inv_def hash_table_num_entries_def)
  ultimately show ?thesis using ht_iterate_ok[OF assms(1)] ht_iter_values_ok[OF assms(1)]
    by (fastforce simp: hash_table_free_def)
qed

theorem hash_table_iterates_and_frees_all_witness:
  "\<exists>ht it. hash_table_new True True int_hash int_equal = Some (Some ht) \<and>
     hash_table_iterate (ht :: (int, nat) HashTable) = Some it"
proof (rule ht_new_int)
  fix ht :: "(int, nat) HashTable"
  assume "hash_table_new True True int_hash int_equal = Some (Some ht)" "ht_inv ht"
  then show ?thesis using hash_table_iterates_and_frees_all[of ht "nat (hash_table_num_entries ht)"] by auto
qed

text \<open>Once the largest prime size is in use and a third of the table is filled, the next insertion
  computes the new size as entries * 10, which overflows int: its behaviour is undefined.\<close>

theorem hash_table_insert_overflow:
  assumes "ht_prime_index ht = 23" "ht_table_size ht = 1610612741" "ht_entries ht = 536870914"
  shows "hash_table_insert m1 m2 ht k v = None"
  using assms by (simp add: hash_table_insert_def bucket_crowded_ok hash_table_enlarge_def
      hash_table_allocate_table_def hash_table_num_primes_def c_int_def c_int_bounds)

theorem hash_table_insert_overflow_witness:
  "hash_table_insert True True \<lparr>ht_table = [], ht_table_size = 1610612741, ht_hash_func = int_hash,
     ht_equal_func = int_equal, ht_key_free_func = False, ht_value_free_func = False,
     ht_entries = 536870914, ht_prime_index = 23\<rparr> 1 (Some (2::nat)) = None"
  by (rule hash_table_insert_overflow) simp_all

end
