(* ===== verification/Hash_Set.thy ===== *)
theory Hash_Set
  imports Hash_Table
begin

text \<open>
  \<open>src/src/comm/set.c\<close>. An entry is represented by its data; the calls of the free function and of
  free are events. A set that is returned is an option, \<open>None\<close> for NULL. \<open>m\<close> arguments are the
  outcomes of calloc and malloc, \<open>alloc i\<close> those of the i-th insertion of a loop.
\<close>

record 'v Set =
  st_table :: "'v list list"
  st_entries :: int
  st_table_size :: int
  st_prime_index :: int
  st_hash_func :: "'v \<Rightarrow> u64"
  st_equal_func :: "'v \<Rightarrow> 'v \<Rightarrow> int"
  st_free_func :: bool

datatype 'v set_event = FreeData 'v | FreeSetEntry | FreeSetTable | FreeSet

definition set_primes :: "int list" where
  "set_primes =
     [193, 389, 769, 1543, 3079, 6151, 12289, 24593, 49157, 98317,
      196613, 393241, 786433, 1572869, 3145739, 6291469,
      12582917, 25165843, 50331653, 100663319, 201326611,
      402653189, 805306457, 1610612741]"

definition set_num_primes :: int where
  "set_num_primes = 24"

definition set_allocate_table :: "bool \<Rightarrow> 'v Set \<Rightarrow> (int \<times> 'v Set) option" where
  "set_allocate_table m st = do {
     n \<leftarrow> (if st_prime_index st < set_num_primes
           then do { guard (0 \<le> st_prime_index st); Some (set_primes ! nat (st_prime_index st)) }
           else c_int (st_entries st * 10));
     let st = st\<lparr>st_table_size := n\<rparr>;
     if m then Some (1, st\<lparr>st_table := replicate (nat n) []\<rparr>)
     else Some (0, st\<lparr>st_table := []\<rparr>)
   }"

definition set_free_entry :: "'v Set \<Rightarrow> 'v \<Rightarrow> 'v set_event list" where
  "set_free_entry st entry = (if st_free_func st then [FreeData entry] else []) @ [FreeSetEntry]"

definition set_new :: "bool \<Rightarrow> bool \<Rightarrow> ('v \<Rightarrow> u64) \<Rightarrow> ('v \<Rightarrow> 'v \<Rightarrow> int) \<Rightarrow> 'v Set option option" where
  "set_new m1 m2 hash_func equal_func =
     (if \<not> m1 then Some None
      else do {
        (ok, st) \<leftarrow> set_allocate_table m2
          \<lparr>st_table = [], st_entries = 0, st_table_size = 0, st_prime_index = 0,
           st_hash_func = hash_func, st_equal_func = equal_func, st_free_func = False\<rparr>;
        Some (if ok = 0 then None else Some st)
      })"

definition set_free :: "'v Set \<Rightarrow> 'v set_event list option" where
  "set_free st = do {
     es \<leftarrow> bucket_walk (st_table st) (st_table_size st) 0;
     Some (concat (map (set_free_entry st) es) @ [FreeSetTable, FreeSet])
   }"

definition set_register_free_function :: "'v Set \<Rightarrow> bool \<Rightarrow> 'v Set" where
  "set_register_free_function st free_func = st\<lparr>st_free_func := free_func\<rparr>"

definition set_enlarge :: "bool \<Rightarrow> 'v Set \<Rightarrow> (int \<times> 'v Set) option" where
  "set_enlarge m st = do {
     let old_table = st_table st;
     let old_table_size = st_table_size st;
     let old_prime_index = st_prime_index st;
     pi \<leftarrow> c_int (st_prime_index st + 1);
     (ok, st) \<leftarrow> set_allocate_table m (st\<lparr>st_prime_index := pi\<rparr>);
     if ok = 0
     then Some (0, st\<lparr>st_table := old_table, st_table_size := old_table_size,
                     st_prime_index := old_prime_index\<rparr>)
     else do {
       es \<leftarrow> bucket_walk old_table old_table_size 0;
       table \<leftarrow> bucket_relink (st_hash_func st) (st_table_size st) es (st_table st);
       Some (1, st\<lparr>st_table := table\<rparr>)
     }
   }"

definition set_insert :: "bool \<Rightarrow> bool \<Rightarrow> 'v Set \<Rightarrow> 'v \<Rightarrow> (int \<times> 'v Set) option" where
  "set_insert m1 m2 st data = do {
     crowded \<leftarrow> bucket_crowded (st_entries st) (st_table_size st);
     (ok, st) \<leftarrow> (if crowded then set_enlarge m1 st else Some (1, st));
     if ok = 0 then Some (0, st)
     else do {
       index \<leftarrow> bucket_index (st_hash_func st data) (st_table_size st);
       chain \<leftarrow> bucket_get (st_table st) index;
       case find (\<lambda>rover. st_equal_func st data rover \<noteq> 0) chain of
         Some rover \<Rightarrow> Some (0, st)
       | None \<Rightarrow>
           if \<not> m2 then Some (0, st)
           else do {
             table \<leftarrow> bucket_link (st_table st) index data;
             n \<leftarrow> c_int (st_entries st + 1);
             Some (1, st\<lparr>st_table := table, st_entries := n\<rparr>)
           }
     }
   }"

definition set_remove :: "'v Set \<Rightarrow> 'v \<Rightarrow> (int \<times> 'v Set \<times> 'v set_event list) option" where
  "set_remove st data = do {
     index \<leftarrow> bucket_index (st_hash_func st data) (st_table_size st);
     chain \<leftarrow> bucket_get (st_table st) index;
     case chain_unlink (\<lambda>rover. st_equal_func st data rover \<noteq> 0) chain of
       None \<Rightarrow> Some (0, st, [])
     | Some (entry, chain) \<Rightarrow> do {
         table \<leftarrow> bucket_set (st_table st) index chain;
         n \<leftarrow> c_int (st_entries st - 1);
         Some (1, st\<lparr>st_table := table, st_entries := n\<rparr>, set_free_entry st entry)
       }
   }"

definition set_query :: "'v Set \<Rightarrow> 'v \<Rightarrow> int option" where
  "set_query st data = do {
     index \<leftarrow> bucket_index (st_hash_func st data) (st_table_size st);
     chain \<leftarrow> bucket_get (st_table st) index;
     Some (case find (\<lambda>rover. st_equal_func st data rover \<noteq> 0) chain of Some rover \<Rightarrow> 1 | None \<Rightarrow> 0)
   }"

definition set_num_entries :: "'v Set \<Rightarrow> int" where
  "set_num_entries st = st_entries st"

text \<open>The loop of set_to_array that stores the visited values.\<close>

primrec set_fill_array :: "'v list \<Rightarrow> int \<Rightarrow> 'v array \<Rightarrow> 'v array option" where
  "set_fill_array [] array_counter array = Some array"
| "set_fill_array (data # rest) array_counter array = do {
     array \<leftarrow> arr_set array array_counter data;
     c \<leftarrow> c_int (array_counter + 1);
     set_fill_array rest c array
   }"

definition set_to_array :: "bool \<Rightarrow> 'v Set \<Rightarrow> 'v array option option" where
  "set_to_array m st =
     (if \<not> m then Some None
      else do {
        es \<leftarrow> bucket_walk (st_table st) (st_table_size st) 0;
        array \<leftarrow> set_fill_array es 0 (replicate (nat (st_entries st)) None);
        Some (Some array)
      })"

text \<open>An iterator: the rest of the current chain and its index. NULL, returned after the last
  value, is \<open>None\<close>.\<close>

record 'v SetIterator =
  si_next_entry :: "'v list"
  si_next_chain :: int

definition set_iterate :: "'v Set \<Rightarrow> 'v SetIterator option" where
  "set_iterate st = do {
     (entry, chain) \<leftarrow> bucket_next (st_table st) (st_table_size st) 0;
     Some \<lparr>si_next_entry = entry, si_next_chain = chain\<rparr>
   }"

definition set_iter_next :: "'v Set \<Rightarrow> 'v SetIterator \<Rightarrow> ('v option \<times> 'v SetIterator) option" where
  "set_iter_next st iterator =
     (case si_next_entry iterator of
        [] \<Rightarrow> Some (None, iterator)
      | current_entry # rest \<Rightarrow>
          if rest \<noteq> [] then Some (Some current_entry, iterator\<lparr>si_next_entry := rest\<rparr>)
          else do {
            c \<leftarrow> c_int (si_next_chain iterator + 1);
            (entry, chain) \<leftarrow> bucket_next (st_table st) (st_table_size st) c;
            Some (Some current_entry, \<lparr>si_next_entry = entry, si_next_chain = chain\<rparr>)
          })"

definition set_iter_has_more :: "'v SetIterator \<Rightarrow> bool" where
  "set_iter_has_more iterator = (si_next_entry iterator \<noteq> [])"

text \<open>
  The loops of union and intersection: they copy the values of \<open>st\<close> that \<open>keep\<close> selects into
  \<open>new_set\<close>. While has_more holds next does not return NULL. A failed insertion frees the new set.
\<close>

partial_function (option) set_copy_loop ::
  "('v Set \<Rightarrow> 'v \<Rightarrow> bool option) \<Rightarrow> (nat \<Rightarrow> bool \<times> bool) \<Rightarrow> 'v Set \<Rightarrow> 'v SetIterator \<Rightarrow> 'v Set \<Rightarrow> nat \<Rightarrow>
   ('v Set option \<times> nat \<times> 'v set_event list) option" where
  "set_copy_loop keep alloc st iterator new_set i =
     (if set_iter_has_more iterator then do {
        (r, iterator) \<leftarrow> set_iter_next st iterator;
        v \<leftarrow> r;
        b \<leftarrow> keep new_set v;
        if b then do {
          (ok, new_set) \<leftarrow> set_insert (fst (alloc i)) (snd (alloc i)) new_set v;
          if ok = 0 then do { fs \<leftarrow> set_free new_set; Some (None, i, fs) }
          else set_copy_loop keep alloc st iterator new_set (i + 1)
        }
        else set_copy_loop keep alloc st iterator new_set i
      }
      else Some (Some new_set, i, []))"

definition set_union ::
  "bool \<Rightarrow> bool \<Rightarrow> (nat \<Rightarrow> bool \<times> bool) \<Rightarrow> 'v Set \<Rightarrow> 'v Set \<Rightarrow> ('v Set option \<times> 'v set_event list) option" where
  "set_union m1 m2 alloc set1 set2 = do {
     new_set \<leftarrow> set_new m1 m2 (st_hash_func set1) (st_equal_func set1);
     case new_set of
       None \<Rightarrow> Some (None, [])
     | Some new_set \<Rightarrow> do {
         iterator \<leftarrow> set_iterate set1;
         (r, i, fs) \<leftarrow> set_copy_loop (\<lambda>new_set v. Some True) alloc set1 iterator new_set 0;
         case r of
           None \<Rightarrow> Some (None, fs)
         | Some new_set \<Rightarrow> do {
             iterator \<leftarrow> set_iterate set2;
             (r, i, fs) \<leftarrow> set_copy_loop (\<lambda>new_set v. map_option (\<lambda>q. q = 0) (set_query new_set v))
               alloc set2 iterator new_set i;
             Some (r, fs)
           }
       }
   }"

definition set_intersection ::
  "bool \<Rightarrow> bool \<Rightarrow> (nat \<Rightarrow> bool \<times> bool) \<Rightarrow> 'v Set \<Rightarrow> 'v Set \<Rightarrow> ('v Set option \<times> 'v set_event list) option" where
  "set_intersection m1 m2 alloc set1 set2 = do {
     new_set \<leftarrow> set_new m1 m2 (st_hash_func set1) (st_equal_func set2);
     case new_set of
       None \<Rightarrow> Some (None, [])
     | Some new_set \<Rightarrow> do {
         iterator \<leftarrow> set_iterate set1;
         (r, i, fs) \<leftarrow> set_copy_loop (\<lambda>new_set v. map_option (\<lambda>q. q \<noteq> 0) (set_query set2 v))
           alloc set1 iterator new_set 0;
         Some (r, fs)
       }
   }"



section \<open>The invariant of a set\<close>

definition st_inv :: "'v Set \<Rightarrow> bool" where
  "st_inv st \<longleftrightarrow> hash_equal (st_hash_func st) (st_equal_func st) \<and>
     0 \<le> st_prime_index st \<and> st_prime_index st < 24 \<and>
     st_table_size st = set_primes ! nat (st_prime_index st) \<and>
     length (st_table st) = nat (st_table_size st) \<and> placed (st_hash_func st) (st_table st) \<and>
     unique_keys (st_equal_func st) id (concat (st_table st)) \<and>
     st_entries st = int (length (concat (st_table st))) \<and> st_entries st * 3 < st_table_size st + 3"

definition st_found :: "'v Set \<Rightarrow> 'v \<Rightarrow> 'v option" where
  "st_found st x = find (\<lambda>e. st_equal_func st x e \<noteq> 0) (concat (st_table st))"

definition st_mem :: "'v Set \<Rightarrow> 'v \<Rightarrow> bool" where
  "st_mem st x \<longleftrightarrow> (\<exists>e \<in> set (concat (st_table st)). st_equal_func st x e \<noteq> 0)"

lemma st_mem_found: "st_mem st x \<longleftrightarrow> st_found st x \<noteq> None"
  by (auto simp: st_mem_def st_found_def find_None_iff)

lemma set_primes_eq: "set_primes = hash_table_primes"
  by (simp add: set_primes_def hash_table_primes_def)

lemma st_size_bounds:
  assumes "st_inv st"
  shows "0 < st_table_size st" "st_table_size st \<le> INT_MAX" "st_table_size st = int (length (st_table st))"
  using assms prime_sizes[of "st_prime_index st"] by (auto simp: st_inv_def c_int_bounds set_primes_eq)

lemma st_bucket:
  assumes "st_inv st"
  obtains i where "i < length (st_table st)" "i = unat (st_hash_func st x) mod length (st_table st)"
    "bucket_index (st_hash_func st x) (st_table_size st) = Some (int i)"
    "bucket_get (st_table st) (int i) = Some (st_table st ! i)"
    "find (\<lambda>e. st_equal_func st x e \<noteq> 0) (st_table st ! i) = st_found st x"
  using bucket_of_key[of "st_hash_func st" "st_equal_func st" id "st_table st" "st_table_size st" x]
    st_size_bounds[OF assms] assms by (auto simp: st_inv_def st_found_def)

lemma st_query_ok: "st_inv st \<Longrightarrow> set_query st x = Some (if st_mem st x then 1 else 0)"
  by (rule st_bucket[of st x]) (auto simp: set_query_def st_mem_found split: option.split)

lemma st_update_chain:
  assumes "st_inv st" "i < length (st_table st)"
    and "\<And>e. e \<in> set c \<Longrightarrow> e \<in> set (st_table st ! i) \<or> unat (st_hash_func st e) mod length (st_table st) = i"
    and "unique_keys (st_equal_func st) id (concat ((st_table st)[i := c]))"
    and "n = int (length (concat ((st_table st)[i := c])))" "n * 3 < st_table_size st + 3"
  shows "st_inv (st\<lparr>st_table := (st_table st)[i := c], st_entries := n\<rparr>)"
proof -
  have p: "placed (st_hash_func st) (st_table st)" using assms(1) by (simp add: st_inv_def)
  have "placed (st_hash_func st) ((st_table st)[i := c])"
    by (rule placed_update[OF p assms(2)]) (use assms(2,3) p in \<open>auto simp: placed_def\<close>)
  then show ?thesis using assms(1,4-6) by (simp add: st_inv_def)
qed

lemma st_enlarge_ok:
  assumes "st_inv st" "st_prime_index st < 23"
  shows "set_enlarge False st = Some (0, st)"
    and "\<exists>st'. set_enlarge True st = Some (1, st') \<and> st_inv st' \<and>
           mset (concat (st_table st')) = mset (concat (st_table st)) \<and>
           st' = st\<lparr>st_table := st_table st', st_table_size := st_table_size st',
                    st_prime_index := st_prime_index st + 1\<rparr>"
proof -
  let ?pi = "st_prime_index st + 1" and ?es = "concat (st_table st)"
  let ?n = "set_primes ! nat ?pi"
  have pi: "0 \<le> ?pi" "?pi < 24" "c_int ?pi = Some ?pi" using assms
    by (auto simp: st_inv_def c_int_bounds intro!: c_int_nonneg)
  then show "set_enlarge False st = Some (0, st)" using assms
    by (simp add: set_enlarge_def set_allocate_table_def set_num_primes_def)
  have n: "0 < ?n" "?n \<le> INT_MAX" using prime_sizes[OF pi(1,2)] by (auto simp: c_int_bounds set_primes_eq)
  obtain table where t: "bucket_relink (st_hash_func st) ?n ?es (replicate (nat ?n) []) = Some table"
      "placed (st_hash_func st) table" "length table = nat ?n" "mset (concat table) = mset ?es"
    using bucket_relink_ok[OF placed_empty n, of "nat ?n" "st_hash_func st" ?es] by auto
  let ?st = "st\<lparr>st_prime_index := ?pi, st_table_size := ?n, st_table := table\<rparr>"
  have w: "bucket_walk (st_table st) (st_table_size st) 0 = Some ?es"
    using st_size_bounds[OF assms(1)] by (simp add: bucket_walk_ok)
  have "set_enlarge True st = Some (1, ?st)"
    using pi w t(1) by (simp add: set_enlarge_def set_allocate_table_def set_num_primes_def)
  moreover have "st_inv ?st"
    using assms pi t(2,3) hash_equal.unique_keys_mset[OF _ t(4)] mset_eq_length[OF t(4)]
      prime_step[of "st_prime_index st"] by (auto simp: st_inv_def set_primes_eq)
  ultimately show "\<exists>st'. set_enlarge True st = Some (1, st') \<and> st_inv st' \<and>
           mset (concat (st_table st')) = mset (concat (st_table st)) \<and>
           st' = st\<lparr>st_table := st_table st', st_table_size := st_table_size st',
                    st_prime_index := st_prime_index st + 1\<rparr>"
    using t(4) by (intro exI[of _ ?st]) simp
qed

text \<open>The result of set_insert on a table that needs no enlarging.\<close>

lemma st_insert_uncrowded:
  assumes "st_inv st" "st_entries st * 3 < st_table_size st"
  shows "st_found st x \<noteq> None \<or> \<not> m2 \<Longrightarrow> set_insert m1 m2 st x = Some (0, st)"
    and "st_found st x = None \<Longrightarrow> m2 \<Longrightarrow>
      \<exists>st'. set_insert m1 m2 st x = Some (1, st') \<and> st_inv st' \<and>
            mset (concat (st_table st')) = add_mset x (mset (concat (st_table st))) \<and>
            st' = st\<lparr>st_table := st_table st', st_entries := st_entries st + 1\<rparr>"
proof -
  let ?eq = "st_equal_func st"
  have he: "hash_equal (st_hash_func st) ?eq" and u: "unique_keys ?eq id (concat (st_table st))"
    using assms(1) by (auto simp: st_inv_def)
  obtain i where i: "i < length (st_table st)" "i = unat (st_hash_func st x) mod length (st_table st)"
      "bucket_index (st_hash_func st x) (st_table_size st) = Some (int i)"
      "bucket_get (st_table st) (int i) = Some (st_table st ! i)"
      "find (\<lambda>e. ?eq x e \<noteq> 0) (st_table st ! i) = st_found st x"
    using st_bucket[OF assms(1), of x] by metis
  have crowded: "bucket_crowded (st_entries st) (st_table_size st) = Some False"
    using assms st_size_bounds[OF assms(1)] by (simp add: bucket_crowded_ok st_inv_def)
  show "st_found st x \<noteq> None \<or> \<not> m2 \<Longrightarrow> set_insert m1 m2 st x = Some (0, st)"
    using crowded i by (auto simp: set_insert_def split: option.split)
  assume new: "st_found st x = None" "m2"
  let ?c = "x # st_table st ! i" and ?n = "st_entries st + 1"
  let ?t = "(st_table st)[i := ?c]"
  have m: "mset (concat ?t) = mset (x # concat (st_table st))"
    using mset_concat_update[OF i(1), of ?c] by simp
  have u': "unique_keys ?eq id (x # concat (st_table st))"
    using new u by (simp add: hash_equal.unique_keys_Cons[OF he] st_found_def)
  have "st_inv (st\<lparr>st_table := ?t, st_entries := ?n\<rparr>)"
    using i(2) assms(1,2) u' hash_equal.unique_keys_mset[OF he m] mset_eq_length[OF m]
    by (intro st_update_chain[OF assms(1) i(1)]) (auto simp: st_inv_def)
  moreover have "c_int ?n = Some ?n" using assms st_size_bounds[OF assms(1)]
    by (intro c_int_nonneg) (auto simp: st_inv_def)
  then have "set_insert m1 m2 st x = Some (1, st\<lparr>st_table := ?t, st_entries := ?n\<rparr>)"
    using i crowded new by (simp add: set_insert_def bucket_link_def bucket_set_def)
  ultimately show "\<exists>st'. set_insert m1 m2 st x = Some (1, st') \<and> st_inv st' \<and>
            mset (concat (st_table st')) = add_mset x (mset (concat (st_table st))) \<and>
            st' = st\<lparr>st_table := st_table st', st_entries := st_entries st + 1\<rparr>"
    using m by (intro exI[of _ "st\<lparr>st_table := ?t, st_entries := ?n\<rparr>"]) simp
qed


definition st_like :: "'v Set \<Rightarrow> 'v Set \<Rightarrow> bool" where
  "st_like st st' \<longleftrightarrow> st_hash_func st' = st_hash_func st \<and> st_equal_func st' = st_equal_func st \<and>
     st_free_func st' = st_free_func st"

lemma st_insert_uncrowded_ok:
  assumes "st_inv s" "st_entries s * 3 < st_table_size s"
  shows "\<exists>r st'. set_insert m1 m2 s x = Some (r, st') \<and> st_inv st' \<and> st_like s st' \<and>
           (if \<not> st_mem s x \<and> m2
            then r = 1 \<and> mset (concat (st_table st')) = add_mset x (mset (concat (st_table s)))
            else r = 0 \<and> mset (concat (st_table st')) = mset (concat (st_table s)))"
proof (cases "\<not> st_mem s x \<and> m2")
  case True
  with st_insert_uncrowded(2)[OF assms, of x m2 m1] obtain s' where s':
      "set_insert m1 m2 s x = Some (1, s')" "st_inv s'"
      "mset (concat (st_table s')) = add_mset x (mset (concat (st_table s)))"
      and h: "s' = s\<lparr>st_table := st_table s', st_entries := st_entries s + 1\<rparr>"
    by (auto simp: st_mem_found)
  have "st_like s s'" unfolding st_like_def by (subst h, simp)+
  then show ?thesis using s' True by simp
next
  case False
  then show ?thesis using st_insert_uncrowded(1)[OF assms, of x m2 m1] assms(1)
    by (auto simp: st_mem_found st_like_def)
qed

lemma st_insert_ok:
  assumes "st_inv st" "st_entries st < 536870914"
  shows "\<exists>r st'. set_insert m1 m2 st x = Some (r, st') \<and> st_inv st' \<and> st_like st st' \<and>
           (if \<not> st_mem st x \<and> m2 \<and> (st_entries st * 3 < st_table_size st \<or> m1)
            then r = 1 \<and> mset (concat (st_table st')) = add_mset x (mset (concat (st_table st)))
            else r = 0 \<and> mset (concat (st_table st')) = mset (concat (st_table st)))"
proof -
  show ?thesis
  proof (cases "st_entries st * 3 < st_table_size st")
    case True then show ?thesis using st_insert_uncrowded_ok[OF assms(1) True] by simp
  next
    case crowded: False
    then have c: "bucket_crowded (st_entries st) (st_table_size st) = Some True"
      using assms st_size_bounds[OF assms(1)] by (simp add: bucket_crowded_ok st_inv_def c_int_bounds)
    have pi: "st_prime_index st < 23" using assms crowded prime_sizes(3)[of "st_prime_index st"]
      by (simp add: st_inv_def set_primes_eq)
    show ?thesis
    proof (cases m1)
      case False
      then show ?thesis using c st_enlarge_ok(1)[OF assms(1) pi] crowded assms(1)
        by (simp add: set_insert_def st_like_def)
    next
      case True
      then obtain s where s: "set_enlarge m1 st = Some (1, s)" "st_inv s"
          "mset (concat (st_table s)) = mset (concat (st_table st))"
          and h: "s = st\<lparr>st_table := st_table s, st_table_size := st_table_size s,
                    st_prime_index := st_prime_index st + 1\<rparr>"
        using st_enlarge_ok(2)[OF assms(1) pi] by auto
      have f: "st_entries s = st_entries st" "st_prime_index s = st_prime_index st + 1"
        "st_equal_func s = st_equal_func st" "st_hash_func s = st_hash_func st"
        "st_free_func s = st_free_func st" by (subst h, simp)+
      have r: "st_entries s * 3 < st_table_size s"
        using assms(1) s(2) f(1,2) prime_step[of "st_prime_index st"] pi by (simp add: st_inv_def set_primes_eq)
      then have "bucket_crowded (st_entries s) (st_table_size s) = Some False"
        using st_size_bounds[OF s(2)] s(2) by (simp add: bucket_crowded_ok st_inv_def)
      then have "set_insert m1 m2 st x = set_insert m1 m2 s x" using c s(1) by (simp add: set_insert_def)
      moreover have "st_mem s x = st_mem st x" using mset_eq_setD[OF s(3)] f(3) by (simp add: st_mem_def)
      moreover obtain q s' where "set_insert m1 m2 s x = Some (q, s')" "st_inv s'" "st_like s s'"
          "if \<not> st_mem s x \<and> m2 then q = 1 \<and> mset (concat (st_table s')) = add_mset x (mset (concat (st_table s)))
            else q = 0 \<and> mset (concat (st_table s')) = mset (concat (st_table s))"
        using st_insert_uncrowded_ok[OF s(2) r] by blast
      ultimately show ?thesis using s(3) f True
        by (intro exI[of _ q] exI[of _ s']) (simp add: st_like_def split: if_splits)
    qed
  qed
qed

lemma st_mem_cong:
  assumes "st_inv st" "st_equal_func st x y \<noteq> 0"
  shows "st_mem st x \<longleftrightarrow> st_mem st y"
  using assms hash_equal.eq_cong[of "st_hash_func st" "st_equal_func st" x y]
  by (auto simp: st_mem_def st_inv_def)

lemma st_mem_insert:
  assumes "st_like st st'" "mset (concat (st_table st')) = add_mset x (mset (concat (st_table st)))"
  shows "st_mem st' y \<longleftrightarrow> st_equal_func st y x \<noteq> 0 \<or> st_mem st y"
proof -
  have "set (concat (st_table st')) = insert x (set (concat (st_table st)))"
    using arg_cong[OF assms(2), of set_mset] by simp
  then show ?thesis using assms(1) by (auto simp: st_mem_def st_like_def)
qed

lemma st_mem_same:
  assumes "st_like st st'" "mset (concat (st_table st')) = mset (concat (st_table st))"
  shows "st_mem st' = st_mem st"
  using assms(1) mset_eq_setD[OF assms(2)] by (simp add: st_mem_def st_like_def fun_eq_iff)

lemma st_entries_length: "st_inv st \<Longrightarrow> st_entries st = int (size (mset (concat (st_table st))))"
  by (simp add: st_inv_def)

lemma st_remove_ok:
  assumes "st_inv st"
  shows "\<exists>r st' fs. set_remove st x = Some (r, st', fs) \<and> st_inv st' \<and> st_like st st' \<and>
           (\<forall>y. st_mem st' y \<longleftrightarrow> st_mem st y \<and> st_equal_func st y x = 0) \<and>
           (case st_found st x of
              None \<Rightarrow> r = 0 \<and> st' = st \<and> fs = []
            | Some e \<Rightarrow> r = 1 \<and> st_entries st' = st_entries st - 1 \<and> fs = set_free_entry st e)"
proof -
  let ?eq = "st_equal_func st" and ?P = "\<lambda>e. st_equal_func st x e \<noteq> 0"
  have he: "hash_equal (st_hash_func st) ?eq" and u: "unique_keys ?eq id (concat (st_table st))"
    using assms by (auto simp: st_inv_def)
  obtain i where i: "i < length (st_table st)" "i = unat (st_hash_func st x) mod length (st_table st)"
      "bucket_index (st_hash_func st x) (st_table_size st) = Some (int i)"
      "bucket_get (st_table st) (int i) = Some (st_table st ! i)"
      "find ?P (st_table st ! i) = st_found st x"
    using st_bucket[OF assms, of x] by metis
  show ?thesis
  proof (cases "st_found st x")
    case None
    then have "set_remove st x = Some (0, st, [])"
      using i by (simp add: set_remove_def chain_unlink_eq)
    moreover have "\<not> st_mem st y" if "?eq y x \<noteq> 0" for y
      using None st_mem_cong[OF assms that] by (simp add: st_mem_found)
    ultimately show ?thesis using None assms by (auto simp: st_like_def)
  next
    case (Some e)
    let ?c = "remove1 e (st_table st ! i)" and ?n = "st_entries st - 1"
    let ?t = "(st_table st)[i := ?c]" and ?st = "st\<lparr>st_table := (st_table st)[i := remove1 e (st_table st ! i)],
      st_entries := st_entries st - 1\<rparr>"
    have e: "e \<in> set (st_table st ! i)" "?P e" using i(5) Some by (auto simp: find_Some_iff in_set_conv_nth)
    then have m: "mset (concat (st_table st)) = add_mset e (mset (concat ?t))"
      by (intro mset_concat_remove[OF i(1)]) simp
    have r: "unique_keys ?eq id (concat ?t)"
        "find (\<lambda>f. ?eq y f \<noteq> 0) (concat ?t) =
           (if ?eq y x \<noteq> 0 then None else find (\<lambda>f. ?eq y f \<noteq> 0) (concat (st_table st)))" for y
      using hash_equal.find_removed[OF he u m, of x y] e(2) by simp_all
    have l: "length (concat (st_table st)) = Suc (length (concat ?t))"
      using arg_cong[OF m, of size] by simp
    have "st_inv ?st"
    proof (rule st_update_chain[OF assms i(1)])
      show "y \<in> set (st_table st ! i) \<or> unat (st_hash_func st y) mod length (st_table st) = i"
        if "y \<in> set ?c" for y using that set_remove1_subset by fastforce
      show "unique_keys ?eq id (concat ?t)" by (rule r(1))
      show "?n = int (length (concat ?t))" "?n * 3 < st_table_size st + 3"
        using l assms by (simp_all add: st_inv_def)
    qed
    moreover have "c_int ?n = Some ?n"
      using assms l st_size_bounds[OF assms] by (intro c_int_nonneg) (auto simp: st_inv_def)
    then have "set_remove st x = Some (1, ?st, set_free_entry st e)"
      using i Some by (simp add: set_remove_def chain_unlink_eq bucket_set_def)
    moreover have "st_found ?st y = (if ?eq y x \<noteq> 0 then None else st_found st y)" for y
      using r(2) by (simp add: st_found_def)
    ultimately show ?thesis using Some by (auto simp: st_like_def st_mem_found)
  qed
qed


section \<open>Iteration, union and intersection\<close>

text \<open>The values an iterator has still to visit.\<close>

definition st_iter_rest :: "'v Set \<Rightarrow> 'v SetIterator \<Rightarrow> 'v list \<Rightarrow> bool" where
  "st_iter_rest st it es \<longleftrightarrow>
     (if si_next_entry it = [] then es = []
      else 0 \<le> si_next_chain it \<and> si_next_chain it < st_table_size st \<and>
           es = si_next_entry it @ concat (drop (Suc (nat (si_next_chain it))) (st_table st)))"

lemma st_iter_restI:
  assumes "st_inv st" "0 \<le> i" "bucket_next (st_table st) (st_table_size st) i = Some (c, j)"
  shows "st_iter_rest st \<lparr>si_next_entry = c, si_next_chain = j\<rparr> (concat (drop (nat i) (st_table st)))"
  using bucket_next_ok[OF assms(2) st_size_bounds(3)[OF assms(1)]] assms(2,3) bucket_next_less[OF assms(3)]
  by (auto simp: st_iter_rest_def)

lemma st_iterate_ok: "st_inv st \<Longrightarrow>
    \<exists>it. set_iterate st = Some it \<and> st_iter_rest st it (concat (st_table st))"
  using bucket_next_ok[of 0 "st_table_size st" "st_table st"] st_iter_restI[of st 0] st_size_bounds(3)[of st]
  by (auto simp: set_iterate_def)

lemma st_iter_next_ok:
  assumes "st_inv st" "st_iter_rest st it (e # es)"
  shows "\<exists>it'. set_iter_next st it = Some (Some e, it') \<and> st_iter_rest st it' es \<and> set_iter_has_more it"
proof -
  obtain rest where c: "0 \<le> si_next_chain it" "si_next_chain it < st_table_size st"
      "si_next_entry it = e # rest" "es = rest @ concat (drop (Suc (nat (si_next_chain it))) (st_table st))"
    using assms(2) by (cases "si_next_entry it") (auto simp: st_iter_rest_def)
  show ?thesis
  proof (cases rest)
    case (Cons a as)
    then show ?thesis using c by (simp add: set_iter_next_def st_iter_rest_def set_iter_has_more_def)
  next
    case Nil
    let ?c = "si_next_chain it + 1"
    obtain d j where d: "bucket_next (st_table st) (st_table_size st) ?c = Some (d, j)"
      using bucket_next_ok[OF _ st_size_bounds(3)[OF assms(1)], of ?c] c(1) by auto
    have "c_int ?c = Some ?c" using c(1,2) st_size_bounds[OF assms(1)] by simp
    moreover have "nat ?c = Suc (nat (si_next_chain it))" using c(1) by simp
    ultimately show ?thesis using c Nil d st_iter_restI[OF assms(1) _ d]
      by (simp add: set_iter_next_def set_iter_has_more_def)
  qed
qed

lemma st_iter_done: "st_iter_rest st it [] \<Longrightarrow> \<not> set_iter_has_more it"
  by (auto simp: st_iter_rest_def set_iter_has_more_def split: if_splits)

text \<open>The copy loop as a recursion over the values visited.\<close>

fun st_copy ::
  "('v Set \<Rightarrow> 'v \<Rightarrow> bool option) \<Rightarrow> (nat \<Rightarrow> bool \<times> bool) \<Rightarrow> 'v list \<Rightarrow> 'v Set \<Rightarrow> nat \<Rightarrow>
   ('v Set option \<times> nat \<times> 'v set_event list) option" where
  "st_copy keep alloc [] new_set i = Some (Some new_set, i, [])"
| "st_copy keep alloc (v # es) new_set i = do {
     b \<leftarrow> keep new_set v;
     if b then do {
       (ok, new_set) \<leftarrow> set_insert (fst (alloc i)) (snd (alloc i)) new_set v;
       if ok = 0 then do { fs \<leftarrow> set_free new_set; Some (None, i, fs) }
       else st_copy keep alloc es new_set (i + 1)
     }
     else st_copy keep alloc es new_set i
   }"

lemma set_copy_loop_eq:
  "st_inv st \<Longrightarrow> st_iter_rest st it es \<Longrightarrow>
   set_copy_loop keep alloc st it new_set i = st_copy keep alloc es new_set i"
proof (induction es arbitrary: it new_set i)
  case Nil
  then show ?case using st_iter_done[of st it] by (simp add: set_copy_loop.simps)
next
  case (Cons e es)
  obtain it' where "set_iter_next st it = Some (Some e, it')" "st_iter_rest st it' es" "set_iter_has_more it"
    using st_iter_next_ok[OF Cons.prems] by blast
  with Cons.IH[OF Cons.prems(1), of it'] show ?case
    unfolding set_copy_loop.simps[of keep alloc st it new_set i] by (simp cong: if_cong)
qed

text \<open>
  What a copy loop produces: NULL, only if an allocation fails, or a set that has gained the
  selected values. Either no value occurs twice, or \<open>keep\<close> leaves out the values already present.
\<close>

definition no_repeats :: "('v Set \<Rightarrow> 'v \<Rightarrow> bool option) \<Rightarrow> 'v Set \<Rightarrow> 'v list \<Rightarrow> bool" where
  "no_repeats keep st es \<longleftrightarrow>
     unique_keys (st_equal_func st) id es \<and> (\<forall>e \<in> set es. \<not> st_mem st e) \<or>
     (\<forall>s v. st_inv s \<longrightarrow> keep s v = Some True \<longrightarrow> \<not> st_mem s v)"

lemma no_repeats_skip: "no_repeats keep st (v # es) \<Longrightarrow> no_repeats keep st es"
  by (auto simp: no_repeats_def unique_keys_def)

lemma no_repeats_insert:
  assumes "no_repeats keep st (v # es)" "st_inv st" "st_like st st'"
    and "mset (concat (st_table st')) = add_mset v (mset (concat (st_table st)))"
  shows "no_repeats keep st' es"
proof -
  have "st_equal_func st e v = 0" if "unique_keys (st_equal_func st) id (v # es)" "e \<in> set es" for e
    using that assms(2) hash_equal.eq_sym[of "st_hash_func st" "st_equal_func st" e v]
    by (auto simp: unique_keys_def st_inv_def)
  moreover have "st_equal_func st' = st_equal_func st" using assms(3) by (simp add: st_like_def)
  ultimately show ?thesis using assms(1) st_mem_insert[OF assms(3,4)] no_repeats_skip[OF assms(1)]
    unfolding no_repeats_def by auto
qed

lemma st_free_ok: "st_inv st \<Longrightarrow>
    set_free st = Some (concat (map (set_free_entry st) (concat (st_table st))) @ [FreeSetTable, FreeSet])"
  using st_size_bounds(3)[of st] by (simp add: set_free_def bucket_walk_ok)

lemma st_like_trans: "st_like st st' \<Longrightarrow> st_like st' st'' \<Longrightarrow> st_like st st''"
  by (simp add: st_like_def)

definition st_copied ::
  "(nat \<Rightarrow> bool \<times> bool) \<Rightarrow> 'v Set \<Rightarrow> ('v \<Rightarrow> bool) \<Rightarrow> 'v list \<Rightarrow> 'v Set option \<Rightarrow> 'v set_event list \<Rightarrow> bool" where
  "st_copied alloc st P es r fs \<longleftrightarrow>
     ((\<forall>k. alloc k = (True, True)) \<longrightarrow> r \<noteq> None) \<and> (r \<noteq> None \<longrightarrow> fs = []) \<and>
     (\<forall>s. r = Some s \<longrightarrow> st_inv s \<and> st_like st s \<and> st_entries s \<le> st_entries st + int (length es) \<and>
        (\<forall>y. st_mem s y \<longleftrightarrow> st_mem st y \<or> (\<exists>e \<in> set es. P e \<and> st_equal_func st y e \<noteq> 0)))"

lemma st_copied_skip:
  assumes "st_inv st" "P v \<longrightarrow> st_mem st v" "st_copied alloc st P es r fs"
  shows "st_copied alloc st P (v # es) r fs"
proof -
  have "st_mem st y" if "P v" "st_equal_func st y v \<noteq> 0" for y
    using assms(2) that st_mem_cong[OF assms(1), of y v] by blast
  then have e: "st_mem st y \<or> (\<exists>e \<in> set (v # es). P e \<and> st_equal_func st y e \<noteq> 0) \<longleftrightarrow>
      st_mem st y \<or> (\<exists>e \<in> set es. P e \<and> st_equal_func st y e \<noteq> 0)" for y by auto
  show ?thesis using assms(3) unfolding st_copied_def e by auto
qed

lemma st_copied_insert:
  assumes "st_inv st" "st_inv st'" "st_like st st'" "P v" "st_copied alloc st' P es r fs"
    and m: "mset (concat (st_table st')) = add_mset v (mset (concat (st_table st)))"
  shows "st_copied alloc st P (v # es) r fs"
proof -
  have n: "st_entries st' = st_entries st + 1"
    using arg_cong[OF m, of size] st_entries_length[OF assms(1)] st_entries_length[OF assms(2)] by simp
  have "st_equal_func st' = st_equal_func st" using assms(3) by (simp add: st_like_def)
  then show "st_copied alloc st P (v # es) r fs"
    using n assms(4,5) st_mem_insert[OF assms(3) m] st_like_trans[OF assms(3)] by (auto simp: st_copied_def)
qed

lemma st_copy_ok:
  assumes "st_inv st" "st_entries st + int (length es) \<le> 536870914" "no_repeats keep st es"
    and "\<And>s v. st_inv s \<Longrightarrow> st_like st s \<Longrightarrow> v \<in> set es \<Longrightarrow>
           \<exists>b. keep s v = Some b \<and> (b \<or> st_mem s v \<longleftrightarrow> P v \<or> st_mem s v)"
  shows "\<exists>r j fs. st_copy keep alloc es st i = Some (r, j, fs) \<and> st_copied alloc st P es r fs"
  using assms
proof (induction es arbitrary: st i)
  case Nil then show ?case by (simp add: st_like_def st_copied_def)
next
  case (Cons v es)
  obtain b where b: "keep st v = Some b" "b \<or> st_mem st v \<longleftrightarrow> P v \<or> st_mem st v"
    using Cons.prems(4)[of st v] Cons.prems(1) by (auto simp: st_like_def)
  show ?case
  proof (cases b)
    case False
    obtain r j fs where "st_copy keep alloc es st i = Some (r, j, fs)" "st_copied alloc st P es r fs"
      using Cons.IH[OF Cons.prems(1) _ no_repeats_skip[OF Cons.prems(3)] Cons.prems(4), of i]
        Cons.prems(2) by auto
    moreover have "P v \<longrightarrow> st_mem st v" using b(2) False by blast
    ultimately show ?thesis using b(1) False st_copied_skip[OF Cons.prems(1)] by auto
  next
    case True
    then have nm: "\<not> st_mem st v" "P v" using Cons.prems(1,3) b by (auto simp: no_repeats_def)
    have "st_entries st < 536870914" using Cons.prems(2) by simp
    from st_insert_ok[OF Cons.prems(1) this, of "fst (alloc i)" "snd (alloc i)" v] nm(1)
    obtain q st' where q: "set_insert (fst (alloc i)) (snd (alloc i)) st v = Some (q, st')" "st_inv st'"
        "st_like st st'" "fst (alloc i) \<and> snd (alloc i) \<longrightarrow> q = 1" "q = 0 \<or> q = 1"
        "q = 1 \<longrightarrow> mset (concat (st_table st')) = add_mset v (mset (concat (st_table st)))"
      by (auto split: if_splits)
    show ?thesis
    proof (cases "q = 0")
      case True
      then have "st_copied alloc st P (v # es) None fs" for fs using q(4)
        by (auto simp: st_copied_def intro!: exI[of _ i])
      then show ?thesis using b(1) \<open>b\<close> q(1) st_free_ok[OF q(2)] True by auto
    next
      case False
      then have m: "mset (concat (st_table st')) = add_mset v (mset (concat (st_table st)))" using q by auto
      have k: "\<exists>b. keep s w = Some b \<and> (b \<or> st_mem s w \<longleftrightarrow> P w \<or> st_mem s w)"
        if "st_inv s" "st_like st' s" "w \<in> set es" for s w
        using Cons.prems(4)[of s w] that st_like_trans[OF q(3)] by auto
      have n: "st_entries st' = st_entries st + 1"
        using arg_cong[OF m, of size] st_entries_length[OF q(2)] st_entries_length[OF Cons.prems(1)] by simp
      obtain r j fs where "st_copy keep alloc es st' (i + 1) = Some (r, j, fs)" "st_copied alloc st' P es r fs"
        using Cons.IH[OF q(2) _ no_repeats_insert[OF Cons.prems(3,1) q(3) m] k, of "i + 1"] n Cons.prems(2)
        by auto
      then show ?thesis using b(1) \<open>b\<close> q(1) False
          st_copied_insert[of st st' P v, OF Cons.prems(1) q(2,3) nm(2) _ m] by simp
    qed
  qed
qed

lemma st_new_ok:
  assumes "hash_equal hf ef"
  shows "\<exists>st. set_new True True hf ef = Some (Some st) \<and> st_inv st \<and> st_entries st = 0 \<and>
           st_hash_func st = hf \<and> st_equal_func st = ef \<and> (\<forall>x. \<not> st_mem st x) \<and>
           st_table_size st = 193 \<and> concat (st_table st) = []"
  using assms by (auto simp: set_new_def set_allocate_table_def set_num_primes_def
      st_inv_def set_primes_def unique_keys_def st_mem_def)

lemma st_copy_loop_ok:
  assumes "st_inv src" "st_inv st" "st_entries st + st_entries src \<le> 536870914"
    and "no_repeats keep st (concat (st_table src))"
    and "\<And>s v. st_inv s \<Longrightarrow> st_like st s \<Longrightarrow> v \<in> set (concat (st_table src)) \<Longrightarrow>
           \<exists>b. keep s v = Some b \<and> (b \<or> st_mem s v \<longleftrightarrow> P v \<or> st_mem s v)"
  obtains it r j fs where "set_iterate src = Some it"
    "set_copy_loop keep alloc src it st i = Some (r, j, fs)"
    "st_copied alloc st P (concat (st_table src)) r fs"
proof -
  have n: "st_entries src = int (length (concat (st_table src)))" using assms(1) by (simp add: st_inv_def)
  obtain it where "set_iterate src = Some it" "st_iter_rest src it (concat (st_table src))"
    using st_iterate_ok[OF assms(1)] by blast
  moreover obtain r j fs where "st_copy keep alloc (concat (st_table src)) st i = Some (r, j, fs)"
      "st_copied alloc st P (concat (st_table src)) r fs"
    using st_copy_ok[OF assms(2) _ assms(4,5), where alloc = alloc and i = i] n assms(3) by auto
  ultimately show ?thesis using that set_copy_loop_eq[OF assms(1)] by simp
qed

lemma st_union_ok:
  assumes "st_inv set1" "st_inv set2" "st_equal_func set2 = st_equal_func set1"
    and "st_entries set1 + st_entries set2 \<le> 536870914"
  shows "\<exists>r fs. set_union True True alloc set1 set2 = Some (r, fs) \<and>
           ((\<forall>k. alloc k = (True, True)) \<longrightarrow> r \<noteq> None) \<and>
           (\<forall>s. r = Some s \<longrightarrow> st_inv s \<and> fs = [] \<and> (\<forall>y. st_mem s y \<longleftrightarrow> st_mem set1 y \<or> st_mem set2 y))"
proof -
  let ?es1 = "concat (st_table set1)" and ?es2 = "concat (st_table set2)"
  have he: "hash_equal (st_hash_func set1) (st_equal_func set1)" using assms(1) by (simp add: st_inv_def)
  obtain s0 where s0: "set_new True True (st_hash_func set1) (st_equal_func set1) = Some (Some s0)"
      "st_inv s0" "st_entries s0 = 0" "st_equal_func s0 = st_equal_func set1" "\<forall>x. \<not> st_mem s0 x"
    using st_new_ok[OF he] by blast
  have n1: "st_entries s0 + st_entries set1 \<le> 536870914"
    using assms(2,4) s0(3) by (simp add: st_inv_def)
  have "no_repeats (\<lambda>_ _. Some True) s0 ?es1"
    using assms(1) s0(4,5) by (simp add: no_repeats_def st_inv_def)
  moreover have "\<exists>b. Some True = Some b \<and> (b \<or> st_mem s v \<longleftrightarrow> True \<or> st_mem s v)" for s :: "'a Set" and v by blast
  ultimately obtain it1 r1 j1 fs1 where c1: "set_iterate set1 = Some it1"
      "set_copy_loop (\<lambda>_ _. Some True) alloc set1 it1 s0 0 = Some (r1, j1, fs1)"
      "st_copied alloc s0 (\<lambda>_. True) ?es1 r1 fs1"
    by (rule st_copy_loop_ok[OF assms(1) s0(2) n1, where alloc = alloc and i = 0])
  show ?thesis
  proof (cases r1)
    case None
    then show ?thesis using s0(1) c1 by (simp add: set_union_def st_copied_def)
  next
    case (Some s1)
    then have s1: "st_inv s1" "st_equal_func s1 = st_equal_func set2" "st_entries s1 \<le> st_entries set1"
        "\<And>y. st_mem s1 y \<longleftrightarrow> st_mem set1 y"
      using c1(3) s0(3,4,5) assms(1,3) by (auto simp: st_copied_def st_like_def st_inv_def st_mem_def[of set1])
    let ?keep = "\<lambda>new_set v. map_option (\<lambda>q. q = 0) (set_query new_set v)"
    have r: "no_repeats ?keep s1 ?es2" by (auto simp: no_repeats_def st_query_ok)
    have n2: "st_entries s1 + st_entries set2 \<le> 536870914" using s1(3) assms(4) by simp
    have "\<exists>b. ?keep s v = Some b \<and> (b \<or> st_mem s v \<longleftrightarrow> True \<or> st_mem s v)" if "st_inv s" for s v
      using st_query_ok[OF that] by auto
    from st_copy_loop_ok[OF assms(2) s1(1) n2 r this, where alloc = alloc and i = j1]
    obtain it2 r2 j2 fs2 where "set_iterate set2 = Some it2"
        "set_copy_loop ?keep alloc set2 it2 s1 j1 = Some (r2, j2, fs2)"
        "st_copied alloc s1 (\<lambda>_. True) ?es2 r2 fs2" by blast
    then show ?thesis using s0(1) c1(1,2) Some s1(2,4)
      by (simp add: set_union_def st_copied_def st_mem_def[of set2])
  qed
qed

lemma st_intersection_ok:
  assumes "st_inv set1" "st_inv set2" "st_equal_func set2 = st_equal_func set1"
    and "st_entries set1 \<le> 536870914"
  shows "\<exists>r fs. set_intersection True True alloc set1 set2 = Some (r, fs) \<and>
           ((\<forall>k. alloc k = (True, True)) \<longrightarrow> r \<noteq> None) \<and>
           (\<forall>s. r = Some s \<longrightarrow> st_inv s \<and> fs = [] \<and> (\<forall>y. st_mem s y \<longleftrightarrow> st_mem set1 y \<and> st_mem set2 y))"
proof -
  let ?es1 = "concat (st_table set1)" and ?eq = "st_equal_func set1"
  let ?keep = "\<lambda>new_set v. map_option (\<lambda>q. q \<noteq> 0) (set_query set2 v)"
  have he: "hash_equal (st_hash_func set1) ?eq" using assms(1) by (simp add: st_inv_def)
  obtain s0 where s0: "set_new True True (st_hash_func set1) (st_equal_func set2) = Some (Some s0)"
      "st_inv s0" "st_entries s0 = 0" "st_equal_func s0 = ?eq" "\<forall>x. \<not> st_mem s0 x"
    using st_new_ok[OF he] assms(3) by metis
  have r: "no_repeats ?keep s0 ?es1"
    using assms(1) s0(4,5) by (simp add: no_repeats_def st_inv_def)
  have n: "st_entries s0 + st_entries set1 \<le> 536870914" using s0(3) assms(4) by simp
  have k: "\<exists>b. ?keep s v = Some b \<and> (b \<or> st_mem s v \<longleftrightarrow> st_mem set2 v \<or> st_mem s v)" for s :: "'a Set" and v
    using st_query_ok[OF assms(2)] by auto
  obtain it r j fs where c: "set_iterate set1 = Some it"
      "set_copy_loop ?keep alloc set1 it s0 0 = Some (r, j, fs)"
      "st_copied alloc s0 (st_mem set2) ?es1 r fs"
    by (rule st_copy_loop_ok[OF assms(1) s0(2) n r k, where alloc = alloc and i = 0])
  have "(\<exists>e \<in> set ?es1. st_mem set2 e \<and> ?eq y e \<noteq> 0) \<longleftrightarrow> st_mem set1 y \<and> st_mem set2 y" for y
    using st_mem_cong[OF assms(2), of y] assms(3) unfolding st_mem_def[of set1] by auto
  then show ?thesis using s0(1,4,5) c by (simp add: set_intersection_def st_copied_def)
qed

lemma set_fill_array_ok:
  "int (length pre + length es) \<le> INT_MAX \<Longrightarrow>
   set_fill_array es (int (length pre)) (map Some pre @ replicate (length es) None) = Some (map Some (pre @ es))"
proof (induction es arbitrary: pre)
  case (Cons e es)
  have "arr_set (map Some pre @ replicate (length (e # es)) None) (int (length pre)) e =
      Some (map Some (pre @ [e]) @ replicate (length es) None)"
    by (simp add: arr_set_def list_update_append)
  moreover have "c_int (int (length pre) + 1) = Some (int (length (pre @ [e])))"
    using Cons.prems by (simp add: algebra_simps)
  ultimately show ?case using Cons.IH[of "pre @ [e]"] Cons.prems by (simp add: add.commute)
qed simp

lemma st_to_array_ok: "st_inv st \<Longrightarrow> set_to_array True st = Some (Some (map Some (concat (st_table st))))"
proof -
  assume inv: "st_inv st"
  have "int (length (concat (st_table st))) \<le> INT_MAX"
    using inv prime_sizes[of "st_prime_index st"] by (simp add: st_inv_def set_primes_eq c_int_bounds)
  then show ?thesis using set_fill_array_ok[of "[]" "concat (st_table st)"] inv st_size_bounds(3)[OF inv]
    by (simp add: set_to_array_def bucket_walk_ok st_inv_def)
qed

text \<open>The set is a map store with values of type unit.\<close>

definition st_look :: "'v Set \<Rightarrow> 'v \<Rightarrow> unit option" where
  "st_look st x = (if st_mem st x then Some () else None)"

definition st_put :: "'v Set \<Rightarrow> 'v \<Rightarrow> unit \<Rightarrow> 'v Set option" where
  "st_put st x u = map_option snd (set_insert True True st x)"

definition st_delete :: "'v Set \<Rightarrow> 'v \<Rightarrow> 'v Set option" where
  "st_delete st x = map_option (\<lambda>(r, st, fs). st) (set_remove st x)"

definition st_same :: "'v Set \<Rightarrow> 'v \<Rightarrow> 'v \<Rightarrow> bool" where
  "st_same st x y \<longleftrightarrow> st_equal_func st y x \<noteq> 0"

interpretation st: map_store st_inv st_look st_same st_put st_delete "\<lambda>st. 536870914 - nat (st_entries st)"
proof
  fix st :: "'a Set" and x and u :: unit
  assume inv: "st_inv st"
  have same_eq: "st_like st s \<Longrightarrow> st_same s = st_same st" for s
    by (simp add: st_same_def st_like_def fun_eq_iff)
  show "\<exists>st'. st_put st x u = Some st' \<and> st_inv st' \<and> st_same st' = st_same st \<and>
      536870914 - nat (st_entries st) \<le> Suc (536870914 - nat (st_entries st')) \<and>
      st_look st' = (\<lambda>y. if st_same st x y then Some u else st_look st y)"
    if room: "0 < 536870914 - nat (st_entries st)"
  proof -
    have n: "st_entries st < 536870914" using room by arith
    obtain r s where s: "set_insert True True st x = Some (r, s)" "st_inv s" "st_like st s"
        "if \<not> st_mem st x then mset (concat (st_table s)) = add_mset x (mset (concat (st_table st)))
         else mset (concat (st_table s)) = mset (concat (st_table st))"
      using st_insert_ok[OF inv n, of True True x] by (auto split: if_splits)
    have "st_entries s \<le> st_entries st + 1"
      using s(4) st_entries_length[OF inv] st_entries_length[OF s(2)] by (cases "st_mem st x") simp_all
    then have "536870914 - nat (st_entries st) \<le> Suc (536870914 - nat (st_entries s))" by arith
    moreover have "st_mem s y \<longleftrightarrow> st_same st x y \<or> st_mem st y" for y
      using s(4) st_mem_insert[OF s(3), of x y] st_mem_same[OF s(3)] st_mem_cong[OF inv, of y x]
      by (auto simp: st_same_def split: if_splits)
    ultimately show ?thesis using s same_eq[OF s(3)]
      by (intro exI[of _ s]) (auto simp: st_put_def st_look_def)
  qed
  show "\<exists>st'. st_delete st x = Some st' \<and> st_inv st' \<and> st_same st' = st_same st \<and>
      536870914 - nat (st_entries st) \<le> 536870914 - nat (st_entries st') \<and>
      st_look st' = (\<lambda>y. if st_same st x y then None else st_look st y)"
  proof -
    obtain r s fs where s: "set_remove st x = Some (r, s, fs)" "st_inv s" "st_like st s"
        "\<forall>y. st_mem s y \<longleftrightarrow> st_mem st y \<and> st_equal_func st y x = 0" "st_entries s \<le> st_entries st"
      using st_remove_ok[OF inv, of x] by (auto split: option.splits)
    then show ?thesis using same_eq[OF s(3)]
      by (intro exI[of _ s]) (auto simp: st_delete_def st_same_def st_look_def)
  qed
qed



section \<open>Properties\<close>

text \<open>set_insert adds exactly the given value, keeps the invariant and the entry count, and returns
  0 without changing the members when the value is present or an allocation fails; set_query answers
  membership.\<close>

theorem set_insert_spec:
  assumes "st_inv st" "set_num_entries st < 536870914"
  shows "\<exists>r st'. set_insert m1 m2 st x = Some (r, st') \<and> st_inv st' \<and>
           (if set_query st x = Some 0 \<and> m2 \<and> (st_entries st * 3 < st_table_size st \<or> m1)
            then r = 1 \<and> st_entries st' = st_entries st + 1 \<and>
                 (\<forall>y. st_mem st' y \<longleftrightarrow> st_mem st y \<or> st_equal_func st y x \<noteq> 0)
            else r = 0 \<and> st_entries st' = st_entries st \<and> (\<forall>y. st_mem st' y \<longleftrightarrow> st_mem st y))"
proof -
  have "st_entries st < 536870914" using assms(2) by (simp add: set_num_entries_def)
  from st_insert_ok[OF assms(1) this, of m1 m2 x] obtain r s where
    s: "set_insert m1 m2 st x = Some (r, s)" "st_inv s" "st_like st s"
       "if \<not> st_mem st x \<and> m2 \<and> (st_entries st * 3 < st_table_size st \<or> m1)
        then r = 1 \<and> mset (concat (st_table s)) = add_mset x (mset (concat (st_table st)))
        else r = 0 \<and> mset (concat (st_table s)) = mset (concat (st_table st))" by blast
  note n = st_entries_length[OF assms(1)] st_entries_length[OF s(2)]
  show ?thesis
  proof (cases "\<not> st_mem st x \<and> m2 \<and> (st_entries st * 3 < st_table_size st \<or> m1)")
    case True
    with s(4) have m: "r = 1" "mset (concat (st_table s)) = add_mset x (mset (concat (st_table st)))" by auto
    then show ?thesis using True s(1,2) n st_mem_insert[OF s(3) m(2)] st_query_ok[OF assms(1)] by auto
  next
    case False
    with s(4) have m: "r = 0" "mset (concat (st_table s)) = mset (concat (st_table st))"
      by (auto split: if_splits)
    then show ?thesis using False s(1,2) n st_mem_same[OF s(3) m(2)] st_query_ok[OF assms(1)] by auto
  qed
qed

lemma st_new_int:
  obtains st :: "int Set" where "set_new True True int_hash int_equal = Some (Some st)"
    "st_inv st" "st_entries st = 0" "st_equal_func st = int_equal" "\<And>x. \<not> st_mem st x" "concat (st_table st) = []"
  using st_new_ok[OF int_key.hash_equal_axioms] by blast

theorem set_insert_spec_witness:
  "\<exists>st st' r. set_new True True int_hash int_equal = Some (Some st) \<and>
     set_insert True True st 5 = Some (r, st') \<and> r = 1 \<and> st_mem st' 5"
proof (rule st_new_int)
  fix st :: "int Set"
  assume "set_new True True int_hash int_equal = Some (Some st)" "st_inv st" "st_entries st = 0"
    "st_equal_func st = int_equal" "\<And>x. \<not> st_mem st x"
  then show ?thesis using set_insert_spec[of st True True 5]
    by (auto simp: set_num_entries_def st_query_ok int_equal_def)
qed

text \<open>set_remove removes exactly the values equal to the given one, frees the entry and returns
  whether there was one.\<close>

theorem set_remove_spec:
  assumes "st_inv st"
  shows "\<exists>r st' fs. set_remove st x = Some (r, st', fs) \<and> st_inv st' \<and>
           (\<forall>y. st_mem st' y \<longleftrightarrow> st_mem st y \<and> st_equal_func st y x = 0) \<and>
           (case st_found st x of
              None \<Rightarrow> r = 0 \<and> st' = st \<and> fs = []
            | Some e \<Rightarrow> r = 1 \<and> st_entries st' = st_entries st - 1 \<and> fs = set_free_entry st e)"
  using st_remove_ok[OF assms, of x] by blast

theorem set_remove_spec_witness:
  "\<exists>st st' r fs. set_new True True int_hash int_equal = Some (Some st) \<and>
     set_remove (st :: int Set) 5 = Some (r, st', fs) \<and> \<not> st_mem st' 5"
proof (rule st_new_int)
  fix st :: "int Set"
  assume "set_new True True int_hash int_equal = Some (Some st)" "st_inv st" "\<And>x. \<not> st_mem st x"
  then show ?thesis using set_remove_spec[of st 5] by blast
qed

text \<open>C32: set_union of two sets with the same equality and together at most 536870914 entries returns a well-formed set whose members are
  exactly those of either set, and set_intersection one with the members of both; they return NULL
  only when an allocation fails.\<close>

theorem set_union_intersection_spec:
  assumes "st_inv set1" "st_inv set2" "st_equal_func set2 = st_equal_func set1"
    and "st_entries set1 + st_entries set2 \<le> 536870914"
  shows "\<exists>r fs r' fs'. set_union True True alloc set1 set2 = Some (r, fs) \<and>
           set_intersection True True alloc set1 set2 = Some (r', fs') \<and>
           ((\<forall>k. alloc k = (True, True)) \<longrightarrow> r \<noteq> None \<and> r' \<noteq> None) \<and>
           (\<forall>s. r = Some s \<longrightarrow> st_inv s \<and> fs = [] \<and> (\<forall>y. st_mem s y \<longleftrightarrow> st_mem set1 y \<or> st_mem set2 y)) \<and>
           (\<forall>s. r' = Some s \<longrightarrow> st_inv s \<and> fs' = [] \<and> (\<forall>y. st_mem s y \<longleftrightarrow> st_mem set1 y \<and> st_mem set2 y))"
proof -
  have "st_entries set1 \<le> 536870914" using assms(2,4) by (simp add: st_inv_def)
  from st_intersection_ok[OF assms(1-3) this, of alloc] obtain r' fs' where i:
      "set_intersection True True alloc set1 set2 = Some (r', fs')" "(\<forall>k. alloc k = (True, True)) \<longrightarrow> r' \<noteq> None"
      "\<forall>s. r' = Some s \<longrightarrow> st_inv s \<and> fs' = [] \<and> (\<forall>y. st_mem s y \<longleftrightarrow> st_mem set1 y \<and> st_mem set2 y)" by blast
  obtain r fs where u: "set_union True True alloc set1 set2 = Some (r, fs)"
      "(\<forall>k. alloc k = (True, True)) \<longrightarrow> r \<noteq> None"
      "\<forall>s. r = Some s \<longrightarrow> st_inv s \<and> fs = [] \<and> (\<forall>y. st_mem s y \<longleftrightarrow> st_mem set1 y \<or> st_mem set2 y)"
    using st_union_ok[OF assms, of alloc] by blast
  show ?thesis by (intro exI conjI) (use i u in simp_all)
qed

theorem set_union_intersection_spec_witness:
  "\<exists>st s1 s2 u fs i fs'. set_new True True int_hash int_equal = Some (Some st) \<and>
     set_insert True True st 5 = Some (1, s1) \<and> set_insert True True st 6 = Some (1, s2) \<and>
     set_union True True (\<lambda>_. (True, True)) s1 s2 = Some (Some u, fs) \<and> st_mem u 5 \<and> st_mem u (6 :: int) \<and>
     set_intersection True True (\<lambda>_. (True, True)) s1 s2 = Some (Some i, fs') \<and> \<not> st_mem i 5"
proof (rule st_new_int)
  fix st :: "int Set"
  assume st: "set_new True True int_hash int_equal = Some (Some st)" "st_inv st" "st_entries st = 0"
    "st_equal_func st = int_equal" "\<And>x. \<not> st_mem st x" "concat (st_table st) = []"
  have one: "\<exists>s. set_insert True True st x = Some (1, s) \<and> st_inv s \<and> st_entries s = 1 \<and> st_equal_func s = int_equal \<and>
      (\<forall>y. st_mem s y \<longleftrightarrow> y = x)" for x
  proof -
    obtain s where s: "set_insert True True st x = Some (1, s)" "st_inv s" "st_like st s" "mset (concat (st_table s)) = {#x#}"
      using st_insert_ok[OF st(2), of True True x] st(3,5,6) by auto
    then have c: "concat (st_table s) = [x]" "st_equal_func s = int_equal"
      using st(4) by (simp_all add: mset_single_iff st_like_def)
    moreover have "st_entries s = 1"
      using s(2) c(1) by (simp add: st_inv_def)
    moreover have "st_mem s y \<longleftrightarrow> y = x" for y
      unfolding st_mem_def c by (simp add: int_equal_def)
    ultimately show ?thesis
      using s by blast
  qed
  obtain s1 s2 where s: "set_insert True True st 5 = Some (1, s1)" "st_inv s1" "st_entries s1 = 1" "st_equal_func s1 = int_equal"
    "\<forall>y. st_mem s1 y \<longleftrightarrow> y = 5" "set_insert True True st 6 = Some (1, s2)" "st_inv s2" "st_entries s2 = 1"
    "st_equal_func s2 = int_equal" "\<forall>y. st_mem s2 y \<longleftrightarrow> y = 6"
    using one[of 5] one[of 6] by auto
  show ?thesis
    using set_union_intersection_spec[of s1 s2 "\<lambda>_. (True, True)"] s st(1) by auto
qed

text \<open>set_to_array returns an array of exactly as many cells as the set has entries, all of them
  written, holding every entry once; set_free frees each entry once.\<close>

theorem set_to_array_spec:
  assumes "st_inv st"
  shows "\<exists>vs. set_to_array True st = Some (Some (map Some vs)) \<and> int (length vs) = set_num_entries st \<and>
           unique_keys (st_equal_func st) id vs \<and>
           (\<forall>y. st_mem st y \<longleftrightarrow> (\<exists>v \<in> set vs. st_equal_func st y v \<noteq> 0)) \<and>
           set_free st = Some (concat (map (set_free_entry st) vs) @ [FreeSetTable, FreeSet])"
  using st_to_array_ok[OF assms] st_free_ok[OF assms] assms
  by (auto simp: st_inv_def st_mem_def set_num_entries_def)

theorem set_to_array_spec_witness:
  "\<exists>st vs. set_new True True int_hash int_equal = Some (Some st) \<and>
     set_to_array True (st :: int Set) = Some (Some (map Some vs)) \<and> length vs = 0"
proof (rule st_new_int)
  fix st :: "int Set"
  assume "set_new True True int_hash int_equal = Some (Some st)" "st_inv st" "st_entries st = 0"
  then show ?thesis using set_to_array_spec[of st] by (auto simp: set_num_entries_def)
qed

end
