(* ===== verification/Bloom_Filter.thy ===== *)
theory Bloom_Filter
  imports Hash_Funcs
begin

text \<open>
  \<open>src/src/comm/bloom-filter.c\<close>. A function pointer is a number, and \<open>call\<close> gives the function at
  it; the filter stores the pointer because union and intersection compare pointers. A returned
  filter is an option, \<open>None\<close> for NULL.
\<close>

record BloomFilter =
  bf_hash_func :: nat
  bf_table :: "u8 list"
  bf_table_size :: u32
  bf_num_functions :: u32

definition salts :: "u32 list" where
  "salts =
     [0x5cee4612, 0xb5587b1c, 0xa250f2b0, 0xa3bf6d2a, 0x7a81bd1a, 0x92888d7f,
      0x1dc977c7, 0xedc96624, 0x920c85d9, 0xf16066b3, 0xc6f0d4b3, 0x2b76eb86,
      0xcacb3893, 0x493d81c5, 0xf5a133ac, 0x039740bf, 0x162b8224, 0xf841de90,
      0xc3e5090d, 0x3bce93a7, 0xf1860334, 0xe832b5f1, 0xf5b6535b, 0xe4cf4fa6,
      0x8357b769, 0x1442b07a, 0x21c5863d, 0xabc0d846, 0x6dc0d77a, 0x23a3992c,
      0xe12179ba, 0xd81d1e23, 0xcff4727b, 0xe957ecfb, 0xee8f391a, 0x426efa23,
      0x3a34ff2c, 0x8b875d94, 0x34fd0f63, 0xf159daae, 0xaabab8b3, 0xa83a07ba,
      0x4e54fb33, 0xfb82fab8, 0x2ae2888f, 0xd1a307a8, 0xbe33322d, 0x87c73f86,
      0x7270fa7e, 0x68673c55, 0x2c8026d0, 0xead8e422, 0xa3ee5132, 0xecb67767,
      0x1c3b1ae5, 0x47adf5b6, 0xf4518d30, 0x46e62797, 0x9889aa76, 0x1405aadf,
      0xf62f9124, 0x5c435ac5, 0x35b8dfe3, 0x651c08c5]"

definition bloom_filter_new :: "bool \<Rightarrow> bool \<Rightarrow> u32 \<Rightarrow> nat \<Rightarrow> u32 \<Rightarrow> BloomFilter option" where
  "bloom_filter_new m1 m2 table_size hash_func num_functions =
     (if unat num_functions > length salts then None
      else if \<not> m1 then None
      else if \<not> m2 then None
      else Some \<lparr>bf_hash_func = hash_func, bf_table = replicate (unat ((table_size + 7) div 8)) 0,
                 bf_table_size = table_size, bf_num_functions = num_functions\<rparr>)"

definition bloom_filter_free :: "BloomFilter \<Rightarrow> block list" where
  "bloom_filter_free bloomfilter = [DataBlock, StructBlock]"

text \<open>\<open>index = (hash ^ salts[i]) % table_size\<close>.\<close>

definition bloom_index :: "u64 \<Rightarrow> nat \<Rightarrow> u32 \<Rightarrow> u32 option" where
  "bloom_index hash i table_size =
     (if i < length salts \<and> table_size \<noteq> 0
      then Some (ucast ((hash XOR ucast (salts ! i)) mod ucast table_size))
      else None)"

definition byte_at :: "u8 list \<Rightarrow> u32 \<Rightarrow> u8 option" where
  "byte_at table i = (if unat i < length table then Some (table ! unat i) else None)"

function bloom_insert_loop :: "BloomFilter \<Rightarrow> u64 \<Rightarrow> nat \<Rightarrow> u8 list \<Rightarrow> u8 list option" where
  "bloom_insert_loop bloomfilter hash i table =
     (if i < unat (bf_num_functions bloomfilter) then do {
        index \<leftarrow> bloom_index hash i (bf_table_size bloomfilter);
        b \<leftarrow> byte_at table (index div 8);
        bloom_insert_loop bloomfilter hash (i + 1)
          (table[unat (index div 8) := b OR push_bit (unat (index mod 8)) 1])
      }
      else Some table)"
  by pat_completeness auto
termination by (relation "measure (\<lambda>(f, h, i, t). unat (bf_num_functions f) - i)") auto

definition bloom_filter_insert :: "(nat \<Rightarrow> 'v \<Rightarrow> u64) \<Rightarrow> BloomFilter \<Rightarrow> 'v \<Rightarrow> BloomFilter option" where
  "bloom_filter_insert call bloomfilter v = do {
     table \<leftarrow> bloom_insert_loop bloomfilter (call (bf_hash_func bloomfilter) v) 0 (bf_table bloomfilter);
     Some (bloomfilter\<lparr>bf_table := table\<rparr>)
   }"

function bloom_query_loop :: "BloomFilter \<Rightarrow> u64 \<Rightarrow> nat \<Rightarrow> int option" where
  "bloom_query_loop bloomfilter hash i =
     (if i < unat (bf_num_functions bloomfilter) then do {
        index \<leftarrow> bloom_index hash i (bf_table_size bloomfilter);
        b \<leftarrow> byte_at (bf_table bloomfilter) (index div 8);
        if b AND push_bit (unat (index mod 8)) 1 = 0 then Some 0
        else bloom_query_loop bloomfilter hash (i + 1)
      }
      else Some 1)"
  by pat_completeness auto
termination by (relation "measure (\<lambda>(f, h, i). unat (bf_num_functions f) - i)") auto

definition bloom_filter_query :: "(nat \<Rightarrow> 'v \<Rightarrow> u64) \<Rightarrow> BloomFilter \<Rightarrow> 'v \<Rightarrow> int option" where
  "bloom_filter_query call bloomfilter v = bloom_query_loop bloomfilter (call (bf_hash_func bloomfilter) v) 0"

text \<open>memcpy of the packed table out of and into the filter; \<open>array\<close> is the caller's buffer.\<close>

definition bloom_filter_read :: "BloomFilter \<Rightarrow> u8 list \<Rightarrow> u8 list option" where
  "bloom_filter_read bloomfilter array = do {
     bytes \<leftarrow> mem_read (bf_table bloomfilter) 0 (unat ((bf_table_size bloomfilter + 7) div 8));
     mem_write array 0 bytes
   }"

definition bloom_filter_load :: "BloomFilter \<Rightarrow> u8 list \<Rightarrow> BloomFilter option" where
  "bloom_filter_load bloomfilter array = do {
     bytes \<leftarrow> mem_read array 0 (unat ((bf_table_size bloomfilter + 7) div 8));
     table \<leftarrow> mem_write (bf_table bloomfilter) 0 bytes;
     Some (bloomfilter\<lparr>bf_table := table\<rparr>)
   }"

text \<open>The loop that combines two tables byte by byte.\<close>

function bloom_combine_loop ::
  "(u8 \<Rightarrow> u8 \<Rightarrow> u8) \<Rightarrow> u8 list \<Rightarrow> u8 list \<Rightarrow> nat \<Rightarrow> nat \<Rightarrow> u8 list \<Rightarrow> u8 list option" where
  "bloom_combine_loop f table1 table2 array_size i table =
     (if i < array_size then do {
        guard (i < length table1 \<and> i < length table2 \<and> i < length table);
        bloom_combine_loop f table1 table2 array_size (i + 1) (table[i := f (table1 ! i) (table2 ! i)])
      }
      else Some table)"
  by pat_completeness auto
termination by (relation "measure (\<lambda>(f, t1, t2, n, i, t). n - i)") auto

declare bloom_insert_loop.simps [simp del] bloom_query_loop.simps [simp del] bloom_combine_loop.simps [simp del]

definition bloom_filter_union :: "bool \<Rightarrow> bool \<Rightarrow> BloomFilter \<Rightarrow> BloomFilter \<Rightarrow> BloomFilter option option" where
  "bloom_filter_union m1 m2 filter1 filter2 =
     (if bf_table_size filter1 \<noteq> bf_table_size filter2 \<or>
         bf_num_functions filter1 \<noteq> bf_num_functions filter2 \<or>
         bf_hash_func filter1 \<noteq> bf_hash_func filter2 then Some None
      else case bloom_filter_new m1 m2 (bf_table_size filter1) (bf_hash_func filter1) (bf_num_functions filter1) of
        None \<Rightarrow> Some None
      | Some result \<Rightarrow> do {
          table \<leftarrow> bloom_combine_loop (OR) (bf_table filter1) (bf_table filter2)
            (unat ((bf_table_size filter1 + 7) div 8)) 0 (bf_table result);
          Some (Some (result\<lparr>bf_table := table\<rparr>))
        })"

definition bloom_filter_intersection ::
  "bool \<Rightarrow> bool \<Rightarrow> BloomFilter \<Rightarrow> BloomFilter \<Rightarrow> BloomFilter option option" where
  "bloom_filter_intersection m1 m2 filter1 filter2 =
     (if bf_table_size filter1 \<noteq> bf_table_size filter2 \<or>
         bf_num_functions filter1 \<noteq> bf_num_functions filter2 \<or>
         bf_hash_func filter1 \<noteq> bf_hash_func filter2 then Some None
      else case bloom_filter_new m1 m2 (bf_table_size filter1) (bf_hash_func filter1) (bf_num_functions filter1) of
        None \<Rightarrow> Some None
      | Some result \<Rightarrow> do {
          table \<leftarrow> bloom_combine_loop (AND) (bf_table filter1) (bf_table filter2)
            (unat ((bf_table_size filter1 + 7) div 8)) 0 (bf_table result);
          Some (Some (result\<lparr>bf_table := table\<rparr>))
        })"


section \<open>The bits of a filter\<close>

definition bf_inv :: "BloomFilter \<Rightarrow> bool" where
  "bf_inv f \<longleftrightarrow> 0 < bf_table_size f \<and> unat (bf_table_size f) + 7 < 2 ^ 32 \<and>
     length (bf_table f) = (unat (bf_table_size f) + 7) div 8 \<and> unat (bf_num_functions f) \<le> 64"

definition table_bit :: "u8 list \<Rightarrow> nat \<Rightarrow> bool" where
  "table_bit table k \<longleftrightarrow> k div 8 < length table \<and> bit (table ! (k div 8)) (k mod 8)"

text \<open>The bit that the i-th hash function selects.\<close>

definition bloom_bit :: "BloomFilter \<Rightarrow> u64 \<Rightarrow> nat \<Rightarrow> nat" where
  "bloom_bit f hash i = unat (hash XOR ucast (salts ! i)) mod unat (bf_table_size f)"

lemma length_salts: "length salts = 64"
  by (simp add: salts_def)

lemma array_size:
  fixes n :: u32
  assumes "unat n + 7 < 2 ^ 32"
  shows "unat ((n + 7) div 8) = (unat n + 7) div 8"
proof -
  have "unat (n + 7) = unat n + 7" using assms by (subst unat_add_lem[THEN iffD1]) auto
  then show ?thesis by (simp add: unat_div_distrib)
qed

lemma bloom_index_ok:
  assumes "bf_inv f" "i < unat (bf_num_functions f)"
  obtains index where "bloom_index hash i (bf_table_size f) = Some index"
    "unat index = bloom_bit f hash i" "unat (index div 8) = bloom_bit f hash i div 8"
    "unat (index mod 8) = bloom_bit f hash i mod 8"
    "bloom_bit f hash i div 8 < length (bf_table f)"
proof -
  let ?n = "bf_table_size f" and ?x = "hash XOR ucast (salts ! i)"
  let ?i = "ucast (?x mod ucast ?n) :: u32"
  have n: "0 < unat ?n" using assms(1) by (simp add: bf_inv_def word_less_nat_alt)
  have l: "unat ?n < 2 ^ 32" using assms(1) by (simp add: bf_inv_def)
  then have "unat ?n < 2 ^ 64" by simp
  then have "unat (ucast ?n :: u64) = unat ?n" by (simp add: unsigned_ucast_eq take_bit_nat_eq_self)
  then have "unat (?x mod ucast ?n) = unat ?x mod unat ?n" by (simp add: unat_mod_distrib)
  moreover have "unat ?x mod unat ?n < 2 ^ 32"
    by (rule less_trans[OF mod_less_divisor[OF n] l])
  ultimately have u: "unat ?i = bloom_bit f hash i"
    by (simp add: bloom_bit_def unsigned_ucast_eq take_bit_nat_eq_self)
  have "bloom_index hash i ?n = Some ?i"
    using assms n by (auto simp: bloom_index_def length_salts bf_inv_def)
  moreover have "bloom_bit f hash i < unat ?n" using n by (simp add: bloom_bit_def)
  then have "bloom_bit f hash i div 8 < length (bf_table f)" using assms(1) by (simp add: bf_inv_def)
  ultimately show ?thesis using that u by (simp add: unat_div_distrib unat_mod_distrib)
qed


lemma bit_set_bit: "k < 8 \<Longrightarrow> bit (b OR 2 ^ k) j \<longleftrightarrow> bit b j \<or> j = k" for b :: u8
  by (auto simp: bit_simps)

lemma table_bit_set:
  assumes "k div 8 < length table"
  shows "table_bit (table[k div 8 := table ! (k div 8) OR push_bit (k mod 8) 1]) j \<longleftrightarrow> table_bit table j \<or> j = k"
proof (cases "j div 8 = k div 8")
  case True
  then have "j = k \<longleftrightarrow> j mod 8 = k mod 8" by (metis div_mod_decomp)
  then show ?thesis using True assms by (simp add: table_bit_def bit_set_bit)
qed (use assms in \<open>auto simp: table_bit_def\<close>)

lemma bloom_insert_loop_ok:
  assumes "bf_inv f" "length table = length (bf_table f)"
  shows "\<exists>table'. bloom_insert_loop f hash i table = Some table' \<and> length table' = length table \<and>
           (\<forall>k. table_bit table' k \<longleftrightarrow> table_bit table k \<or>
             (\<exists>j. i \<le> j \<and> j < unat (bf_num_functions f) \<and> k = bloom_bit f hash j))"
  using assms
proof (induction f hash i table rule: bloom_insert_loop.induct)
  case (1 f hash i table)
  show ?case
  proof (cases "i < unat (bf_num_functions f)")
    case True
    obtain index where x: "bloom_index hash i (bf_table_size f) = Some index"
        "unat (index div 8) = bloom_bit f hash i div 8" "unat (index mod 8) = bloom_bit f hash i mod 8"
        "bloom_bit f hash i div 8 < length table"
      using bloom_index_ok[OF 1(2) True, of hash] 1(3) by metis
    let ?k = "bloom_bit f hash i"
    let ?t = "table[?k div 8 := table ! (?k div 8) OR push_bit (?k mod 8) 1]"
    have b: "byte_at table (index div 8) = Some (table ! (?k div 8))" using x by (simp add: byte_at_def)
    from 1(1)[OF True x(1) b] 1(2,3) x obtain t' where t': "bloom_insert_loop f hash (i + 1) ?t = Some t'"
        "length t' = length table" "\<forall>k. table_bit t' k \<longleftrightarrow> table_bit ?t k \<or>
             (\<exists>j. i + 1 \<le> j \<and> j < unat (bf_num_functions f) \<and> k = bloom_bit f hash j)" by auto
    have "bloom_insert_loop f hash i table = Some t'"
      using True x b t'(1) unfolding bloom_insert_loop.simps[of f hash i table] by simp
    moreover have "(\<exists>j. i \<le> j \<and> j < unat (bf_num_functions f) \<and> k = bloom_bit f hash j) \<longleftrightarrow>
        k = ?k \<or> (\<exists>j. i + 1 \<le> j \<and> j < unat (bf_num_functions f) \<and> k = bloom_bit f hash j)" for k
      using True by (metis Suc_eq_plus1 le_eq_less_or_eq less_eq_Suc_le)
    ultimately show ?thesis using t'(2,3) table_bit_set[OF x(4)] by auto
  next
    case False
    then show ?thesis unfolding bloom_insert_loop.simps[of f hash i table] by auto
  qed
qed

text \<open>Only the table of a filter changes.\<close>

definition bf_same :: "BloomFilter \<Rightarrow> BloomFilter \<Rightarrow> bool" where
  "bf_same f f' \<longleftrightarrow> bf_hash_func f' = bf_hash_func f \<and> bf_table_size f' = bf_table_size f \<and>
     bf_num_functions f' = bf_num_functions f"

lemma bloom_bit_same: "bf_same f f' \<Longrightarrow> bloom_bit f' = bloom_bit f"
  by (simp add: bf_same_def bloom_bit_def fun_eq_iff)

lemma bloom_insert_ok:
  assumes "bf_inv f"
  shows "\<exists>f'. bloom_filter_insert call f v = Some f' \<and> bf_inv f' \<and> bf_same f f' \<and>
           (\<forall>k. table_bit (bf_table f') k \<longleftrightarrow> table_bit (bf_table f) k \<or>
              (\<exists>j < unat (bf_num_functions f). k = bloom_bit f (call (bf_hash_func f) v) j))"
proof -
  obtain t where t: "bloom_insert_loop f (call (bf_hash_func f) v) 0 (bf_table f) = Some t"
      "length t = length (bf_table f)" "\<forall>k. table_bit t k \<longleftrightarrow> table_bit (bf_table f) k \<or>
              (\<exists>j < unat (bf_num_functions f). k = bloom_bit f (call (bf_hash_func f) v) j)"
    using bloom_insert_loop_ok[OF assms refl, of "call (bf_hash_func f) v" 0] by auto
  then show ?thesis using assms
    by (intro exI[of _ "f\<lparr>bf_table := t\<rparr>"]) (auto simp: bloom_filter_insert_def bf_inv_def bf_same_def)
qed

lemma bloom_query_loop_ok:
  assumes "bf_inv f"
  shows "bloom_query_loop f hash i =
           Some (if \<forall>j. i \<le> j \<and> j < unat (bf_num_functions f) \<longrightarrow> table_bit (bf_table f) (bloom_bit f hash j)
                 then 1 else 0)"
  using assms
proof (induction f hash i rule: bloom_query_loop.induct)
  case (1 f hash i)
  show ?case
  proof (cases "i < unat (bf_num_functions f)")
    case True
    let ?k = "bloom_bit f hash i"
    obtain index where x: "bloom_index hash i (bf_table_size f) = Some index"
        "unat (index div 8) = ?k div 8" "unat (index mod 8) = ?k mod 8" "?k div 8 < length (bf_table f)"
      using bloom_index_ok[OF 1(2) True, of hash] by metis
    have b: "byte_at (bf_table f) (index div 8) = Some (bf_table f ! (?k div 8))"
      using x by (simp add: byte_at_def)
    have t: "bf_table f ! (?k div 8) AND push_bit (unat (index mod 8)) 1 = 0 \<longleftrightarrow> \<not> table_bit (bf_table f) ?k"
      using x by (simp add: and_exp_eq_0_iff_not_bit table_bit_def)
    have e: "(\<forall>j. i \<le> j \<and> j < unat (bf_num_functions f) \<longrightarrow> table_bit (bf_table f) (bloom_bit f hash j)) \<longleftrightarrow>
        table_bit (bf_table f) ?k \<and>
        (\<forall>j. i + 1 \<le> j \<and> j < unat (bf_num_functions f) \<longrightarrow> table_bit (bf_table f) (bloom_bit f hash j))"
      using True by (metis Suc_eq_plus1 le_eq_less_or_eq less_eq_Suc_le)
    show ?thesis using 1(1)[OF True x(1) b] 1(2) True x(1) b t
      unfolding bloom_query_loop.simps[of f hash i] e by simp
  next
    case False
    then show ?thesis unfolding bloom_query_loop.simps[of f hash i] by auto
  qed
qed

lemma bloom_query_ok:
  "bf_inv f \<Longrightarrow> bloom_filter_query call f v =
     Some (if \<forall>j < unat (bf_num_functions f). table_bit (bf_table f) (bloom_bit f (call (bf_hash_func f) v) j)
           then 1 else 0)"
  by (simp add: bloom_filter_query_def bloom_query_loop_ok)

lemma bloom_combine_ok:
  assumes "n \<le> length t1" "n \<le> length t2" "length table = n"
  shows "i \<le> n \<Longrightarrow> bloom_combine_loop g t1 t2 n i table =
    Some (take i table @ map2 g (drop i (take n t1)) (drop i (take n t2)))"
  using assms
proof (induction g t1 t2 n i table rule: bloom_combine_loop.induct)
  case (1 g t1 t2 n i table)
  show ?case
  proof (cases "i < n")
    case True
    have "drop i (take n t1) = t1 ! i # drop (i + 1) (take n t1)"
        "drop i (take n t2) = t2 ! i # drop (i + 1) (take n t2)"
      using True 1(3,4) by (simp_all add: Cons_nth_drop_Suc[symmetric])
    moreover have "take (i + 1) (table[i := g (t1 ! i) (t2 ! i)]) = take i table @ [g (t1 ! i) (t2 ! i)]"
      using True 1(5) by (simp add: take_Suc_conv_app_nth)
    ultimately show ?thesis using 1 True unfolding bloom_combine_loop.simps[of g t1 t2 n i table] by simp
  next
    case False
    then show ?thesis using 1(2-5) unfolding bloom_combine_loop.simps[of g t1 t2 n i table] by simp
  qed
qed


lemma table_bit_map2:
  assumes "length t1 = length t2" "\<And>x y k. bit (g x y) k \<longleftrightarrow> c (bit x k) (bit y k)" "\<not> c False False"
  shows "table_bit (map2 g t1 t2) k \<longleftrightarrow> c (table_bit t1 k) (table_bit t2 k)"
  using assms by (cases "k div 8 < length t1") (auto simp: table_bit_def)

lemma bloom_combined:
  assumes "bf_inv f1" "bf_inv f2" "bf_table_size f2 = bf_table_size f1"
  shows "bloom_combine_loop g (bf_table f1) (bf_table f2) (unat ((bf_table_size f1 + 7) div 8)) 0
           (replicate (unat ((bf_table_size f1 + 7) div 8)) 0) = Some (map2 g (bf_table f1) (bf_table f2))"
  using assms bloom_combine_ok[of "length (bf_table f1)" "bf_table f1" "bf_table f2"]
  by (simp add: bf_inv_def array_size)

lemma bloom_new_ok:
  "unat n + 7 < 2 ^ 32 \<Longrightarrow> unat k \<le> 64 \<Longrightarrow> bloom_filter_new True True n h k =
     Some \<lparr>bf_hash_func = h, bf_table = replicate ((unat n + 7) div 8) 0, bf_table_size = n, bf_num_functions = k\<rparr>"
  by (simp add: bloom_filter_new_def length_salts array_size)

lemma table_bit_zero: "\<not> table_bit (replicate n 0) k"
  by (simp add: table_bit_def)

primrec bloom_insert_all :: "(nat \<Rightarrow> 'v \<Rightarrow> u64) \<Rightarrow> 'v list \<Rightarrow> BloomFilter \<Rightarrow> BloomFilter option" where
  "bloom_insert_all call [] f = Some f"
| "bloom_insert_all call (v # vs) f = do { f \<leftarrow> bloom_filter_insert call f v; bloom_insert_all call vs f }"

lemma bloom_insert_all_ok:
  "bf_inv f \<Longrightarrow> \<exists>f'. bloom_insert_all call vs f = Some f' \<and> bf_inv f' \<and> bf_same f f' \<and>
     (\<forall>k. table_bit (bf_table f') k \<longleftrightarrow> table_bit (bf_table f) k \<or>
        (\<exists>v \<in> set vs. \<exists>j < unat (bf_num_functions f). k = bloom_bit f (call (bf_hash_func f) v) j))"
proof (induction vs arbitrary: f)
  case Nil then show ?case by (simp add: bf_same_def)
next
  case (Cons v vs)
  obtain f1 where f1: "bloom_filter_insert call f v = Some f1" "bf_inv f1" "bf_same f f1"
      and b1: "\<forall>k. table_bit (bf_table f1) k \<longleftrightarrow> table_bit (bf_table f) k \<or>
              (\<exists>j < unat (bf_num_functions f). k = bloom_bit f (call (bf_hash_func f) v) j)"
    using bloom_insert_ok[OF Cons.prems, of call v] by blast
  have s: "bf_num_functions f1 = bf_num_functions f" "bf_hash_func f1 = bf_hash_func f"
    using f1(3) by (simp_all add: bf_same_def)
  from Cons.IH[OF f1(2)] obtain f2 where f2: "bloom_insert_all call vs f1 = Some f2" "bf_inv f2" "bf_same f1 f2"
      "\<forall>k. table_bit (bf_table f2) k \<longleftrightarrow> table_bit (bf_table f1) k \<or>
        (\<exists>v \<in> set vs. \<exists>j < unat (bf_num_functions f). k = bloom_bit f (call (bf_hash_func f) v) j)"
    unfolding s bloom_bit_same[OF f1(3)] by blast
  have "bf_same f f2" using f1(3) f2(3) by (simp add: bf_same_def)
  then show ?case using f1(1) f2(1,2,4) b1 by (intro exI[of _ f2]) auto
qed

lemma bloom_query_iff:
  "bf_inv f \<Longrightarrow> bloom_filter_query call f v = Some 1 \<longleftrightarrow>
     (\<forall>j < unat (bf_num_functions f). table_bit (bf_table f) (bloom_bit f (call (bf_hash_func f) v) j))"
  by (simp add: bloom_query_ok)


section \<open>Properties\<close>



text \<open>The union of two compatible filters reports every value that either filter reports, their
  intersection reports exactly the values that both report; filters with different parameters give
  NULL.\<close>

theorem bloom_filter_union_intersection_spec:
  assumes "bf_inv f1" "bf_inv f2"
  shows "if bf_table_size f1 = bf_table_size f2 \<and> bf_num_functions f1 = bf_num_functions f2 \<and>
            bf_hash_func f1 = bf_hash_func f2
         then \<exists>u i. bloom_filter_union True True f1 f2 = Some (Some u) \<and> bf_inv u \<and>
                bloom_filter_intersection True True f1 f2 = Some (Some i) \<and> bf_inv i \<and>
                (\<forall>v. bloom_filter_query call f1 v = Some 1 \<or> bloom_filter_query call f2 v = Some 1 \<longrightarrow>
                   bloom_filter_query call u v = Some 1) \<and>
                (\<forall>v. bloom_filter_query call i v = Some 1 \<longleftrightarrow>
                   bloom_filter_query call f1 v = Some 1 \<and> bloom_filter_query call f2 v = Some 1)
         else bloom_filter_union True True f1 f2 = Some None \<and>
              bloom_filter_intersection True True f1 f2 = Some None"
proof (cases "bf_table_size f1 = bf_table_size f2 \<and> bf_num_functions f1 = bf_num_functions f2 \<and>
            bf_hash_func f1 = bf_hash_func f2")
  case True
  let ?u = "f1\<lparr>bf_table := map2 (OR) (bf_table f1) (bf_table f2)\<rparr>"
  let ?i = "f1\<lparr>bf_table := map2 (AND) (bf_table f1) (bf_table f2)\<rparr>"
  have l: "length (bf_table f1) = length (bf_table f2)" using assms True by (simp add: bf_inv_def)
  have inv: "bf_inv ?u" "bf_inv ?i" using assms(1) l by (simp_all add: bf_inv_def)
  have n: "unat (bf_num_functions f1) \<le> 64" using assms(1) by (simp add: bf_inv_def)
  have c: "bloom_filter_union True True f1 f2 = Some (Some ?u)"
      "bloom_filter_intersection True True f1 f2 = Some (Some ?i)"
    using True n bloom_combined[OF assms, of "(OR)"] bloom_combined[OF assms, of "(AND)"]
    by (auto simp: bloom_filter_union_def bloom_filter_intersection_def bloom_filter_new_def length_salts)
  have b: "table_bit (map2 (OR) (bf_table f1) (bf_table f2)) k \<longleftrightarrow> table_bit (bf_table f1) k \<or> table_bit (bf_table f2) k"
      "table_bit (map2 (AND) (bf_table f1) (bf_table f2)) k \<longleftrightarrow> table_bit (bf_table f1) k \<and> table_bit (bf_table f2) k" for k
    using table_bit_map2[OF l, of "(OR)" "(\<or>)"] table_bit_map2[OF l, of "(AND)" "(\<and>)"]
    by (simp_all add: bit_or_iff bit_and_iff)
  have s: "bloom_bit f2 = bloom_bit f1" "bloom_bit ?u = bloom_bit f1" "bloom_bit ?i = bloom_bit f1"
    using True by (simp_all add: bloom_bit_def fun_eq_iff)
  note q = bloom_query_iff[OF assms(1)] bloom_query_iff[OF assms(2)] bloom_query_iff[OF inv(1)]
    bloom_query_iff[OF inv(2)]
  show ?thesis unfolding if_P[OF True]
    by (intro exI[of _ ?u] exI[of _ ?i] conjI c inv) (use True in \<open>auto simp: q b s\<close>)
next
  case False
  then show ?thesis by (auto simp: bloom_filter_union_def bloom_filter_intersection_def)
qed

text \<open>Reading the table of a filter and loading it into a new filter with the same parameters
  reproduces the filter; read and load stay inside buffers of (table_size + 7) / 8 bytes.\<close>

theorem bloom_filter_read_load:
  assumes "bf_inv f" "length array = (unat (bf_table_size f) + 7) div 8"
  shows "\<exists>g. bloom_filter_read f array = Some (bf_table f) \<and>
           bloom_filter_new True True (bf_table_size f) (bf_hash_func f) (bf_num_functions f) = Some g \<and>
           bloom_filter_load g (bf_table f) = Some f"
  using assms by (auto simp: bloom_filter_read_def bloom_filter_load_def bloom_new_ok bf_inv_def array_size
      mem_read_def mem_write_def)

lemma bloom_small: "bf_inv \<lparr>bf_hash_func = 0, bf_table = [0, 5], bf_table_size = 16, bf_num_functions = 4\<rparr>"
  by (simp add: bf_inv_def)

theorem bloom_filter_union_intersection_spec_witness:
  "\<exists>u. bloom_filter_union True True
     \<lparr>bf_hash_func = 0, bf_table = [0, 5], bf_table_size = 16, bf_num_functions = 4\<rparr>
     \<lparr>bf_hash_func = 0, bf_table = [0, 5], bf_table_size = 16, bf_num_functions = 4\<rparr> = Some (Some u) \<and> bf_inv u"
  using bloom_filter_union_intersection_spec[OF bloom_small bloom_small, of "\<lambda>p. int_hash"] by auto

theorem bloom_filter_read_load_witness:
  "bloom_filter_read \<lparr>bf_hash_func = 0, bf_table = [0, 5], bf_table_size = 16, bf_num_functions = 4\<rparr> [9, 9] = Some [0, 5]"
  using bloom_filter_read_load[OF bloom_small, of "[9, 9]"] by simp

text \<open>For a table size above 2^32 - 8 the rounding table_size + 7 wraps around to a small number: a
  filter of 2^32 - 1 bits gets a table of no bytes at all, and the first insertion with at least one
  hash function writes outside it.\<close>

theorem bloom_filter_size_wraps:
  assumes "0 < k" "unat k \<le> 64"
  shows "\<exists>f. bloom_filter_new True True 0xFFFFFFFF h k = Some f \<and> bf_table f = [] \<and>
           bloom_filter_insert call f v = None"
proof -
  have "(0xFFFFFFFF :: u32) + 7 = 6" by simp
  then have f: "bloom_filter_new True True 0xFFFFFFFF h k =
      Some \<lparr>bf_hash_func = h, bf_table = [], bf_table_size = 0xFFFFFFFF, bf_num_functions = k\<rparr>" (is "_ = Some ?f")
    using assms(2) by (simp add: bloom_filter_new_def length_salts)
  moreover have "bloom_insert_loop ?f hash 0 [] = None" for hash
    using assms(1) unfolding bloom_insert_loop.simps[of ?f hash 0]
    by (simp add: bloom_index_def length_salts byte_at_def word_less_nat_alt)
  ultimately show ?thesis by (simp add: bloom_filter_insert_def)
qed

theorem bloom_filter_size_wraps_witness:
  "\<exists>f. bloom_filter_new True True 0xFFFFFFFF 0 1 = Some f \<and> bloom_filter_insert (\<lambda>p. int_hash) f 3 = None"
  using bloom_filter_size_wraps[of 1 0 "\<lambda>p. int_hash" 3] by auto

end
