(* ===== verification/Pointer_Lists.thy ===== *)
theory Pointer_Lists
  imports Prelude
begin

text \<open>
  Structs in a heap that are linked by pointer fields, for \<open>slist.c\<close>, \<open>list.c\<close> and \<open>queue.c\<close>.
  \<open>chain nxt h p as q\<close>: following the field \<open>nxt\<close> from \<open>p\<close> visits the structs at the addresses \<open>as\<close>
  and then reaches \<open>q\<close>.
\<close>

definition deref :: "'e heap \<Rightarrow> ptr \<Rightarrow> 'e option" where
  "deref h p = Option.bind p h"

definition c_free :: "'e heap \<Rightarrow> ptr \<Rightarrow> 'e heap option" where
  "c_free h p = (case p of None \<Rightarrow> Some h | Some a \<Rightarrow> if h a = None then None else Some (h(a := None)))"

text \<open>An assignment through a pointer: \<open>p->field = ...\<close>.\<close>

definition modify :: "'e heap \<Rightarrow> ptr \<Rightarrow> ('e \<Rightarrow> 'e) \<Rightarrow> 'e heap option" where
  "modify h p f = do { a \<leftarrow> p; e \<leftarrow> h a; Some (h(a \<mapsto> f e)) }"

primrec chain :: "('e \<Rightarrow> ptr) \<Rightarrow> 'e heap \<Rightarrow> ptr \<Rightarrow> addr list \<Rightarrow> ptr \<Rightarrow> bool" where
  "chain nxt h p [] q \<longleftrightarrow> p = q"
| "chain nxt h p (a # as) q \<longleftrightarrow> p = Some a \<and> (\<exists>e. h a = Some e \<and> chain nxt h (nxt e) as q)"

lemma deref_simps [simp]: "deref h None = None" "deref h (Some a) = h a"
  by (simp_all add: deref_def)

lemma modify_simps [simp]:
  "modify h None f = None" "h a = Some e \<Longrightarrow> modify h (Some a) f = Some (h(a \<mapsto> f e))"
  by (simp_all add: modify_def)

lemma c_free_simps [simp]: "c_free h None = Some h" "h a = Some e \<Longrightarrow> c_free h (Some a) = Some (h(a := None))"
  by (simp_all add: c_free_def)

lemma chain_append: "chain nxt h p (as @ bs) q \<longleftrightarrow> (\<exists>r. chain nxt h p as r \<and> chain nxt h r bs q)"
  by (induction as arbitrary: p) auto

lemma chain_None [simp]: "chain nxt h None as q \<longleftrightarrow> as = [] \<and> q = None"
  by (cases as) auto

lemma chain_cong: "(\<And>a. a \<in> set as \<Longrightarrow> h' a = h a) \<Longrightarrow> chain nxt h' p as q \<longleftrightarrow> chain nxt h p as q"
  by (induction as arbitrary: p) auto

lemma chain_upd [simp]: "x \<notin> set as \<Longrightarrow> chain nxt (h(x := v)) p as q \<longleftrightarrow> chain nxt h p as q"
  by (rule chain_cong) auto

lemma chain_in_heap: "chain nxt h p as q \<Longrightarrow> a \<in> set as \<Longrightarrow> \<exists>e. h a = Some e"
  by (induction as arbitrary: p) auto

lemma chain_Nil_iff: "chain nxt h p as None \<Longrightarrow> p = None \<longleftrightarrow> as = []"
  by (cases as) auto

lemma chain_head: "chain nxt h p as None \<Longrightarrow> p = (case as of [] \<Rightarrow> None | a # _ \<Rightarrow> Some a)"
  by (cases as) auto

text \<open>A chain that ends has one list of addresses, and visits none twice.\<close>

lemma chain_unique: "chain nxt h p as None \<Longrightarrow> chain nxt h p bs None \<Longrightarrow> as = bs"
proof (induction as arbitrary: p bs)
  case (Cons a as)
  then show ?case by (cases bs) auto
qed auto

lemma chain_distinct: "chain nxt h p as None \<Longrightarrow> distinct as"
proof (induction as arbitrary: p)
  case (Cons a as)
  have "a \<notin> set as"
  proof
    assume "a \<in> set as"
    then obtain bs cs where s: "as = bs @ a # cs" by (meson split_list)
    then have "chain nxt h p (a # bs @ a # cs) None" using Cons.prems by simp
    then have "chain nxt h (Some a) (a # bs @ a # cs) None" "chain nxt h (Some a) (a # cs) None"
      by (auto simp: chain_append)
    then have "a # bs @ a # cs = a # cs" by (rule chain_unique)
    then show False by (metis append_Cons length_append less_add_Suc2 list.inject list.size(4) nat_neq_iff add_Suc_right add.right_neutral)
  qed
  then show ?case using Cons by auto
qed simp

lemma chain_snoc: "chain nxt h p (as @ [a]) q \<longleftrightarrow> chain nxt h p as (Some a) \<and> (\<exists>e. h a = Some e \<and> nxt e = q)"
  by (auto simp: chain_append)

text \<open>The heaps agree outside of a set, inside of which only links may differ.\<close>

definition relinked :: "('e \<Rightarrow> 'd) \<Rightarrow> addr set \<Rightarrow> 'e heap \<Rightarrow> 'e heap \<Rightarrow> bool" where
  "relinked data S h h' \<longleftrightarrow> (\<forall>a. a \<notin> S \<longrightarrow> h' a = h a) \<and>
     (\<forall>a \<in> S. map_option data (h' a) = map_option data (h a))"

lemma relinked_refl [simp]: "relinked data S h h"
  by (simp add: relinked_def)

lemma relinked_trans: "relinked data S h h' \<Longrightarrow> relinked data S h' h'' \<Longrightarrow> relinked data S h h''"
  by (simp add: relinked_def)

lemma relinked_mono: "relinked data S h h' \<Longrightarrow> S \<subseteq> T \<Longrightarrow> relinked data T h h'"
  by (auto simp: relinked_def)

lemma relinked_glue:
  "relinked data S1 h h1 \<Longrightarrow> relinked data S2 h1 h2 \<Longrightarrow> relinked data S3 h2 h3 \<Longrightarrow> relinked data S4 h3 h4 \<Longrightarrow>
   S1 \<union> S2 \<union> S3 \<union> S4 \<subseteq> T \<Longrightarrow> relinked data T h h4"
  by (meson le_sup_iff relinked_mono relinked_trans)

lemma relinked_upd: "h a = Some e \<Longrightarrow> data e' = data e \<Longrightarrow> a \<in> S \<Longrightarrow> relinked data S h (h(a \<mapsto> e'))"
  by (auto simp: relinked_def)

lemma relinked_chain: "relinked data S h h' \<Longrightarrow> set as \<inter> S = {} \<Longrightarrow> chain nxt h' p as q \<longleftrightarrow> chain nxt h p as q"
  by (rule chain_cong) (auto simp: relinked_def)

text \<open>The data stored at a list of addresses.\<close>

definition data_at :: "('e \<Rightarrow> 'd) \<Rightarrow> 'e heap \<Rightarrow> addr list \<Rightarrow> 'd list" where
  "data_at data h as = map (\<lambda>a. data (the (h a))) as"

lemma data_at_simps [simp]:
  "data_at data h [] = []" "data_at data h (a # as) = data (the (h a)) # data_at data h as"
  "data_at data h (as @ bs) = data_at data h as @ data_at data h bs" "length (data_at data h as) = length as"
  by (simp_all add: data_at_def)

lemma data_at_upd [simp]: "x \<notin> set as \<Longrightarrow> data_at data (h(x := v)) as = data_at data h as"
  by (auto simp: data_at_def)

lemma relinked_data:
  "relinked data S h h' \<Longrightarrow> (\<And>a. a \<in> set as \<Longrightarrow> h a \<noteq> None) \<Longrightarrow> data_at data h' as = data_at data h as"
proof (induction as)
  case (Cons a as)
  then have "map_option data (h' a) = map_option data (h a)" by (cases "a \<in> S") (auto simp: relinked_def)
  moreover obtain e where "h a = Some e" using Cons.prems(2) by fastforce
  ultimately show ?case using Cons by auto
qed simp

lemma relinked_alloc: "relinked data S h h' \<Longrightarrow> h' a = None \<longleftrightarrow> h a = None"
  unfolding relinked_def by (metis option.map_disc_iff)


text \<open>
  From the entries \<open>as\<close> those of \<open>bs\<close> are kept, with their data, and all others are freed; nothing
  else changes.
\<close>

definition trimmed :: "('e \<Rightarrow> 'd) \<Rightarrow> 'e heap \<Rightarrow> addr list \<Rightarrow> 'e heap \<Rightarrow> addr list \<Rightarrow> bool" where
  "trimmed data h as h' bs \<longleftrightarrow> set bs \<subseteq> set as \<and> (\<forall>a. a \<notin> set as \<longrightarrow> h' a = h a) \<and>
     (\<forall>a \<in> set bs. map_option data (h' a) = map_option data (h a)) \<and>
     (\<forall>a \<in> set as - set bs. h' a = None)"

lemma trimmed_data:
  assumes "trimmed data h as h' bs" "\<And>a. a \<in> set bs \<Longrightarrow> h a \<noteq> None"
  shows "data_at data h' bs = data_at data h bs"
proof -
  have "data (the (h' a)) = data (the (h a))" if "a \<in> set bs" for a
    using assms that by (cases "h a"; cases "h' a") (auto simp: trimmed_def)
  then show ?thesis by (simp add: data_at_def)
qed

end
