(* ===== verification/List_Loops.thy ===== *)
theory List_Loops
  imports Pointer_Lists
begin

text \<open>
  The loops over the entries of a list that \<open>slist.c\<close> and \<open>list.c\<close> have in common, with the selectors
  of the \<open>next\<close> field and of the data as parameters, and the iterators, which are the same in both.
\<close>

section \<open>Operations\<close>

partial_function (option) free_loop :: "('e \<Rightarrow> ptr) \<Rightarrow> 'e heap \<Rightarrow> ptr \<Rightarrow> 'e heap option" where
  "free_loop nxt h entry =
     (if entry = NULL then Some h
      else do {
        e \<leftarrow> deref h entry;
        h \<leftarrow> c_free h entry;
        free_loop nxt h (nxt e)
      })"

text \<open>The loop that finds the end of the list.\<close>

partial_function (option) find_end :: "('e \<Rightarrow> ptr) \<Rightarrow> 'e heap \<Rightarrow> ptr \<Rightarrow> ptr option" where
  "find_end nxt h rover = do {
     e \<leftarrow> deref h rover;
     if nxt e \<noteq> NULL then find_end nxt h (nxt e) else Some rover
   }"

function nth_loop :: "('e \<Rightarrow> ptr) \<Rightarrow> 'e heap \<Rightarrow> ptr \<Rightarrow> int \<Rightarrow> int \<Rightarrow> ptr option" where
  "nth_loop nxt h entry i n =
     (if i < n then
        if entry = NULL then Some NULL
        else do { e \<leftarrow> deref h entry; nth_loop nxt h (nxt e) (i + 1) n }
      else Some entry)"
  by pat_completeness auto
termination by (relation "measure (\<lambda>(nx, h, p, i, n). nat (n - i))") auto

declare nth_loop.simps [simp del]

partial_function (option) length_loop :: "('e \<Rightarrow> ptr) \<Rightarrow> 'e heap \<Rightarrow> ptr \<Rightarrow> int \<Rightarrow> int option" where
  "length_loop nxt h entry len =
     (if entry = NULL then Some len
      else do {
        len \<leftarrow> c_int (len + 1);
        e \<leftarrow> deref h entry;
        length_loop nxt h (nxt e) len
      })"

function array_loop :: "('e \<Rightarrow> ptr) \<Rightarrow> ('e \<Rightarrow> 'v) \<Rightarrow> 'e heap \<Rightarrow> int \<Rightarrow> ptr \<Rightarrow> int \<Rightarrow> 'v array \<Rightarrow> 'v array option" where
  "array_loop nxt data h listlen rover i array =
     (if i < listlen then do {
        e \<leftarrow> deref h rover;
        array \<leftarrow> arr_set array i (data e);
        array_loop nxt data h listlen (nxt e) (i + 1) array
      }
      else Some array)"
  by pat_completeness auto
termination by (relation "measure (\<lambda>(nx, d, h, n, p, i, a). nat (n - i))") auto

declare array_loop.simps [simp del]

text \<open>Locations of a pointer to an entry.\<close>

datatype sloc = ListVar | NextField addr

definition loc_read :: "('e \<Rightarrow> ptr) \<Rightarrow> 'e heap \<Rightarrow> ptr \<Rightarrow> sloc \<Rightarrow> ptr option" where
  "loc_read nxt h list l = (case l of ListVar \<Rightarrow> Some list | NextField a \<Rightarrow> map_option nxt (h a))"

definition loc_write :: "(ptr \<Rightarrow> 'e \<Rightarrow> 'e) \<Rightarrow> 'e heap \<Rightarrow> ptr \<Rightarrow> sloc \<Rightarrow> ptr \<Rightarrow> ('e heap \<times> ptr) option" where
  "loc_write set_nxt h list l p =
     (case l of
        ListVar \<Rightarrow> Some (h, p)
      | NextField a \<Rightarrow> do { h \<leftarrow> modify h (Some a) (set_nxt p); Some (h, list) })"

partial_function (option) find_loop :: "('e \<Rightarrow> ptr) \<Rightarrow> ('e \<Rightarrow> 'v) \<Rightarrow> 'e heap \<Rightarrow> ptr \<Rightarrow> ('v \<Rightarrow> 'v \<Rightarrow> int) \<Rightarrow> 'v \<Rightarrow> ptr option" where
  "find_loop nxt data h rover callback x =
     (if rover = NULL then Some NULL
      else do {
        e \<leftarrow> deref h rover;
        if callback (data e) x \<noteq> 0 then Some rover
        else find_loop nxt data h (nxt e) callback x
      })"

text \<open>
  An iterator: \<open>prev_next\<close> is the location of the pointer through which the current entry was reached.
\<close>

record ListIterator =
  it_prev_next :: sloc
  it_current :: ptr

definition iter_start :: ListIterator where
  "iter_start = \<lparr>it_prev_next = ListVar, it_current = NULL\<rparr>"

definition iter_has_more :: "('e \<Rightarrow> ptr) \<Rightarrow> 'e heap \<Rightarrow> ptr \<Rightarrow> ListIterator \<Rightarrow> bool option" where
  "iter_has_more nxt h list iter =
     (if it_current iter = NULL then do {
        p \<leftarrow> loc_read nxt h list (it_prev_next iter);
        Some (p \<noteq> NULL)
      }
      else do {
        p \<leftarrow> loc_read nxt h list (it_prev_next iter);
        if it_current iter \<noteq> p then Some (p \<noteq> NULL)
        else do { e \<leftarrow> deref h (it_current iter); Some (nxt e \<noteq> NULL) }
      })"

definition iter_next :: "('e \<Rightarrow> ptr) \<Rightarrow> ('e \<Rightarrow> 'v) \<Rightarrow> 'e heap \<Rightarrow> ptr \<Rightarrow> ListIterator \<Rightarrow> ('v option \<times> ListIterator) option" where
  "iter_next nxt data h list iter = do {
     p \<leftarrow> loc_read nxt h list (it_prev_next iter);
     iter \<leftarrow>
       (if it_current iter = NULL \<or> it_current iter \<noteq> p then Some (iter\<lparr>it_current := p\<rparr>)
        else do {
          a \<leftarrow> it_current iter;
          e \<leftarrow> h a;
          Some \<lparr>it_prev_next = NextField a, it_current = nxt e\<rparr>
        });
     if it_current iter = NULL then Some (None, iter)
     else do { e \<leftarrow> deref h (it_current iter); Some (Some (data e), iter) }
   }"


section \<open>Their results on a list\<close>

lemma free_loop_ok: "chain nxt h p as None \<Longrightarrow> free_loop nxt h p = Some (\<lambda>a. if a \<in> set as then None else h a)"
proof (induction as arbitrary: h p)
  case (Cons a as)
  then obtain e where e: "p = Some a" "h a = Some e" "chain nxt h (nxt e) as None" by auto
  have "a \<notin> set as" using chain_distinct[OF Cons.prems] by simp
  then have "chain nxt (h(a := None)) (nxt e) as None" using e(3) by simp
  then have "free_loop nxt (h(a := None)) (nxt e) = Some (\<lambda>b. if b \<in> set as then None else (h(a := None)) b)"
    by (rule Cons.IH)
  then show ?case using e by (subst free_loop.simps) (auto simp: fun_eq_iff)
qed (simp add: free_loop.simps)

lemma find_end_ok: "chain nxt h p (as @ [a]) None \<Longrightarrow> find_end nxt h p = Some (Some a)"
proof (induction as arbitrary: p)
  case Nil then show ?case by (subst find_end.simps) auto
next
  case (Cons b as)
  then obtain e where e: "p = Some b" "h b = Some e" "chain nxt h (nxt e) (as @ [a]) None" by auto
  then show ?case using Cons.IH[OF e(3)] by (subst find_end.simps) (auto simp: chain_append)
qed

lemma length_loop_ok:
  "chain nxt h p as None \<Longrightarrow> 0 \<le> n \<Longrightarrow> n + int (length as) \<le> INT_MAX \<Longrightarrow>
   length_loop nxt h p n = Some (n + int (length as))"
proof (induction as arbitrary: p n)
  case (Cons a as)
  then show ?case by (subst length_loop.simps) (auto simp: algebra_simps)
qed (simp add: length_loop.simps)

lemma nth_loop_ok:
  "chain nxt h p as None \<Longrightarrow> i \<le> n \<Longrightarrow>
   nth_loop nxt h p i n = Some (if nat (n - i) < length as then Some (as ! nat (n - i)) else None)"
proof (induction as arbitrary: p i)
  case Nil
  then show ?case by (subst nth_loop.simps) auto
next
  case (Cons a as)
  then obtain e where e: "p = Some a" "h a = Some e" "chain nxt h (nxt e) as None" by auto
  show ?case
  proof (cases "i < n")
    case True
    then have "nat (n - i) = Suc (nat (n - (i + 1)))" by simp
    then show ?thesis using e True Cons.IH[OF e(3), of "i + 1"] by (subst nth_loop.simps) simp
  qed (use Cons.prems e in \<open>subst nth_loop.simps, auto\<close>)
qed

lemma array_loop_ok:
  "chain nxt h p as None \<Longrightarrow> n = int (length pre + length as) \<Longrightarrow>
   array_loop nxt data h n p (int (length pre)) (map Some pre @ replicate (length as) None) =
     Some (map Some (pre @ data_at data h as))"
proof (induction as arbitrary: p pre)
  case Nil
  then show ?case by (subst array_loop.simps) simp
next
  case (Cons a as)
  then obtain e where e: "p = Some a" "h a = Some e" "chain nxt h (nxt e) as None" by auto
  have "arr_set (map Some pre @ replicate (length (a # as)) None) (int (length pre)) (data e) =
      Some (map Some (pre @ [data e]) @ replicate (length as) None)"
    by (simp add: arr_set_def list_update_append)
  then show ?case using e Cons.prems(2) Cons.IH[OF e(3), of "pre @ [data e]"]
    by (subst array_loop.simps) (simp add: add.commute)
qed

lemma find_loop_ok:
  "chain nxt h p as None \<Longrightarrow> find_loop nxt data h p callback x = Some (find (\<lambda>a. callback (data (the (h a))) x \<noteq> 0) as)"
proof (induction as arbitrary: p)
  case (Cons a as)
  then show ?case by (subst find_loop.simps) auto
qed (simp add: find_loop.simps)


text \<open>The location through which the entry after \<open>pre\<close> is reached.\<close>

definition loc_after :: "addr list \<Rightarrow> sloc" where
  "loc_after pre = (if pre = [] then ListVar else NextField (last pre))"

lemma loc_read_ok:
  assumes "chain nxt h list pre q"
  shows "loc_read nxt h list (loc_after pre) = Some q"
  using assms by (cases pre rule: rev_cases) (auto simp: loc_read_def loc_after_def chain_snoc)

text \<open>
  An iterator that has returned the entries \<open>pre\<close> and has still to visit \<open>todo\<close>: it either rests on the
  last of \<open>pre\<close>, or, before the first call and after a removal, on the location behind \<open>pre\<close>.
\<close>

definition iter_at :: "('e \<Rightarrow> ptr) \<Rightarrow> 'e heap \<Rightarrow> ptr \<Rightarrow> ListIterator \<Rightarrow> addr list \<Rightarrow> addr list \<Rightarrow> bool" where
  "iter_at nxt h list it pre todo \<longleftrightarrow>
     (\<exists>q. chain nxt h list pre q \<and> chain nxt h q todo None) \<and>
     (if it_current it = None then it_prev_next it = loc_after pre
      else pre \<noteq> [] \<and> it_current it = Some (last pre) \<and> it_prev_next it = loc_after (butlast pre))"

lemma iter_at_start: "chain nxt h list as None \<Longrightarrow> iter_at nxt h list iter_start [] as"
  by (simp add: iter_at_def iter_start_def loc_after_def)

text \<open>What the location of the iterator holds.\<close>

lemma iter_at_read:
  assumes "iter_at nxt h list it pre todo" "chain nxt h list pre q"
  shows "loc_read nxt h list (it_prev_next it) = Some (if it_current it = None then q else it_current it)"
proof (cases "it_current it")
  case None
  then show ?thesis using assms loc_read_ok[OF assms(2)] by (simp add: iter_at_def)
next
  case (Some c)
  then have e: "pre = butlast pre @ [c]" and l: "it_prev_next it = loc_after (butlast pre)" using assms(1)
    by (auto simp: iter_at_def)
  have "chain nxt h list (butlast pre @ [c]) q" using assms(2) e by simp
  then have "chain nxt h list (butlast pre) (Some c)" by (simp add: chain_snoc)
  from loc_read_ok[OF this] show ?thesis using l Some by simp
qed

lemma iter_at_last:
  assumes "iter_at nxt h list it pre todo" "chain nxt h list pre q" "it_current it = Some c"
  shows "\<exists>e. h c = Some e \<and> nxt e = q \<and> pre = butlast pre @ [c]"
proof -
  have "pre = butlast pre @ [c]" using assms(1,3) by (auto simp: iter_at_def)
  with assms(2) show ?thesis by (metis chain_snoc)
qed

lemma iter_has_more_ok: "iter_at nxt h list it pre todo \<Longrightarrow> iter_has_more nxt h list it = Some (todo \<noteq> [])"
proof -
  assume it: "iter_at nxt h list it pre todo"
  then obtain q where q: "chain nxt h list pre q" "chain nxt h q todo None" by (auto simp: iter_at_def)
  have "q = None \<longleftrightarrow> todo = []" using chain_Nil_iff[OF q(2)] .
  then show ?thesis using iter_at_read[OF it q(1)] iter_at_last[OF it q(1)]
    by (cases "it_current it") (auto simp: iter_has_more_def)
qed

lemma iter_next_ok:
  assumes "iter_at nxt h list it pre (a # as)"
  shows "\<exists>it'. iter_next nxt data h list it = Some (Some (data (the (h a))), it') \<and>
           iter_at nxt h list it' (pre @ [a]) as \<and> it_current it' = Some a"
proof -
  obtain q where q: "chain nxt h list pre q" "chain nxt h q (a # as) None" using assms by (auto simp: iter_at_def)
  then obtain e where e: "q = Some a" "h a = Some e" "chain nxt h (nxt e) as None" by auto
  have c: "chain nxt h list (pre @ [a]) (nxt e)" using q(1) e by (simp add: chain_snoc)
  show ?thesis
  proof (cases "it_current it")
    case None
    then show ?thesis using iter_at_read[OF assms q(1)] assms e c
      by (auto simp: iter_next_def iter_at_def)
  next
    case (Some b)
    obtain d where d: "h b = Some d" "nxt d = Some a" "pre = butlast pre @ [b]"
      using iter_at_last[OF assms q(1) Some] e(1) by auto
    have "loc_after pre = NextField b" by (subst d(3)) (simp add: loc_after_def)
    then show ?thesis using iter_at_read[OF assms q(1)] Some d(1,2) e c
      by (auto simp: iter_next_def iter_at_def)
  qed
qed


text \<open>What a link field must satisfy for the entries to be relinked through it.\<close>

locale link_field =
  fixes nxt :: "'e \<Rightarrow> ptr" and set_nxt :: "ptr \<Rightarrow> 'e \<Rightarrow> 'e" and data :: "'e \<Rightarrow> 'v"
  assumes nxt_set [simp]: "nxt (set_nxt p e) = p"
    and data_set [simp]: "data (set_nxt p e) = data e"
begin

lemma loc_write_ok:
  assumes "chain nxt h list pre q" "distinct pre"
  shows "\<exists>h' list'. loc_write set_nxt h list (loc_after pre) r = Some (h', list') \<and>
           chain nxt h' list' pre r \<and> relinked data (set pre) h h'"
proof (cases pre rule: rev_cases)
  case Nil
  then show ?thesis using assms by (simp add: loc_write_def loc_after_def)
next
  case (snoc bs b)
  then obtain e where e: "chain nxt h list bs (Some b)" "h b = Some e" "b \<notin> set bs"
    using assms by (auto simp: chain_snoc)
  let ?h = "h(b \<mapsto> set_nxt r e)"
  have "loc_write set_nxt h list (loc_after pre) r = Some (?h, list)"
    using snoc e(2) by (simp add: loc_write_def loc_after_def)
  moreover have "chain nxt ?h list pre r" using snoc e by (auto simp: chain_snoc)
  moreover have "relinked data (set pre) h ?h" using snoc e(2) by (intro relinked_upd) auto
  ultimately show ?thesis by blast
qed


end

end
