(* ===== verification/Linked_Lists.thy ===== *)
theory Linked_Lists
  imports List_Loops Compare
begin

text \<open>
  What the singly and the doubly linked lists have in common beyond their loops: the quicksort on
  relinked entries and the removal of entries through an iterator. Both are proved once, from what the
  two kinds of lists promise of their partitioning, joining and unlinking steps.
\<close>

section \<open>Lists that can be recognised in a heap\<close>

locale linked_list =
  fixes nxt :: "'e \<Rightarrow> ptr" and data :: "'e \<Rightarrow> 'v" and lst :: "'e heap \<Rightarrow> ptr \<Rightarrow> addr list \<Rightarrow> bool"
  assumes lst_chain: "lst h p as \<Longrightarrow> chain nxt h p as None"
    and lst_relinked: "relinked data S h h' \<Longrightarrow> set as \<inter> S = {} \<Longrightarrow> lst h' p as \<longleftrightarrow> lst h p as"
begin

lemma lst_distinct: "lst h p as \<Longrightarrow> distinct as"
  using chain_distinct[OF lst_chain] .

lemma lst_in_heap: "lst h p as \<Longrightarrow> a \<in> set as \<Longrightarrow> h a \<noteq> None"
  using chain_in_heap[OF lst_chain] by fastforce

end

section \<open>Sorting\<close>

definition last_ptr :: "addr list \<Rightarrow> ptr" where
  "last_ptr as = (if as = [] then None else Some (last as))"

lemma last_ptr_simps [simp]: "last_ptr [] = None" "last_ptr [a] = Some a"
  "last_ptr (as @ v # bs) = (if bs = [] then Some v else last_ptr bs)"
  by (auto simp: last_ptr_def)

text \<open>One step of quicksort on the addresses: both halves are sorted by their data.\<close>

lemma sorted_join:
  assumes "comparator f" "mset ls = mset (filter (\<lambda>a. f (data (the (h a))) (data (the (h v))) < 0) bs)"
    and "mset ms = mset (filter (\<lambda>a. \<not> f (data (the (h a))) (data (the (h v))) < 0) bs)"
    and "sorted_wrt (\<lambda>x y. f x y \<le> 0) (data_at data h ls)" "sorted_wrt (\<lambda>x y. f x y \<le> 0) (data_at data h ms)"
  shows "sorted_wrt (\<lambda>x y. f x y \<le> 0) (data_at data h (ls @ v # ms))" "mset (ls @ v # ms) = mset (v # bs)"
proof -
  have "x \<in> set (data_at data h ls) \<Longrightarrow> f x (data (the (h v))) < 0"
       "x \<in> set (data_at data h ms) \<Longrightarrow> \<not> f x (data (the (h v))) < 0" for x
    using mset_eq_setD[OF assms(2)] mset_eq_setD[OF assms(3)] by (auto simp: data_at_def)
  then show "sorted_wrt (\<lambda>x y. f x y \<le> 0) (data_at data h (ls @ v # ms))"
    using comparator.sorted_pivot[OF assms(1,4,5)] by simp
  show "mset (ls @ v # ms) = mset (v # bs)" using assms(2,3) by (simp add: multiset_partition[symmetric])
qed

text \<open>
  \<open>part\<close> distributes the entries after the pivot over two lists, \<open>join\<close> links the sorted less list, the
  pivot and the sorted more list, and \<open>srt\<close> is the recursion of the source over them.
\<close>

locale linked_sort = linked_list nxt data lst
  for nxt :: "'e \<Rightarrow> ptr" and data :: "'e \<Rightarrow> 'v" and lst :: "'e heap \<Rightarrow> ptr \<Rightarrow> addr list \<Rightarrow> bool" +
  fixes part :: "'v cmp_func \<Rightarrow> ptr \<Rightarrow> 'e heap \<Rightarrow> ptr \<Rightarrow> ptr \<Rightarrow> ptr \<Rightarrow> ('e heap \<times> ptr \<times> ptr) option"
    and join :: "'e heap \<Rightarrow> ptr \<Rightarrow> ptr \<Rightarrow> ptr \<Rightarrow> ptr \<Rightarrow> ('e heap \<times> ptr) option"
    and srt :: "'v cmp_func \<Rightarrow> 'e heap \<Rightarrow> ptr \<Rightarrow> (ptr \<times> 'e heap \<times> ptr) option"
  assumes part_ok: "chain nxt h p as None \<Longrightarrow> distinct (v # as) \<Longrightarrow> h v = Some e \<Longrightarrow>
      \<exists>h' l m ls ms. part f (Some v) h p NULL NULL = Some (h', l, m) \<and> lst h' l ls \<and> lst h' m ms \<and>
        mset ls = mset (filter (\<lambda>a. f (data (the (h a))) (data e) < 0) as) \<and>
        mset ms = mset (filter (\<lambda>a. \<not> f (data (the (h a))) (data e) < 0) as) \<and> relinked data (set as) h h'"
    and join_ok: "lst h l ls \<Longrightarrow> lst h m ms \<Longrightarrow> h v = Some e \<Longrightarrow> distinct (ls @ v # ms) \<Longrightarrow>
      \<exists>h' p. join h (Some v) l (last_ptr ls) m = Some (h', p) \<and> lst h' p (ls @ v # ms) \<and>
        relinked data (set (ls @ v # ms)) h h'"
    and srt_unfold: "srt f h list =
      (if list = NULL then Some (list, h, list)
       else do {
         e \<leftarrow> deref h list;
         if nxt e = NULL then Some (list, h, list)
         else do {
           (h, l, m) \<leftarrow> part f list h (nxt e) NULL NULL;
           (l_end, h, l) \<leftarrow> srt f h l;
           (m_end, h, m) \<leftarrow> srt f h m;
           (h, p) \<leftarrow> join h list l l_end m;
           Some (if m = NULL then list else m_end, h, p)
         }
       })"
begin

definition sorts :: "'v cmp_func \<Rightarrow> 'e heap \<Rightarrow> ptr \<Rightarrow> addr list \<Rightarrow> 'e heap \<Rightarrow> ptr \<Rightarrow> addr list \<Rightarrow> bool" where
  "sorts f h p as h' p' as' \<longleftrightarrow> srt f h p = Some (last_ptr as', h', p') \<and> lst h' p' as' \<and>
     mset as' = mset as \<and> relinked data (set as) h h' \<and> sorted_wrt (\<lambda>x y. f x y \<le> 0) (data_at data h as')"

lemma sorts_short: "lst h p as \<Longrightarrow> length as \<le> 1 \<Longrightarrow> sorts f h p as h p as"
proof -
  assume l: "lst h p as" "length as \<le> 1"
  then have "srt f h p = Some (last_ptr as, h, p)"
    using lst_chain[OF l(1)] by (cases as; subst srt_unfold) auto
  then show ?thesis using l by (cases as) (auto simp: sorts_def)
qed

text \<open>The step: the halves that \<open>part\<close> makes are sorted and joined.\<close>

lemma sorts_step:
  assumes "comparator f" "h v = Some e" "chain nxt h (nxt e) bs None" "bs \<noteq> []" "v \<notin> set bs"
    and part: "part f (Some v) h (nxt e) NULL NULL = Some (h1, l1, m1)" "lst h1 m1 ms0" "relinked data (set bs) h h1"
      "mset ls0 = mset (filter (\<lambda>a. f (data (the (h a))) (data (the (h v))) < 0) bs)"
      "mset ms0 = mset (filter (\<lambda>a. \<not> f (data (the (h a))) (data (the (h v))) < 0) bs)"
    and s1: "sorts f h1 l1 ls0 h2 l2 ls" and s2: "sorts f h2 m1 ms0 h3 m3 ms"
  shows "\<exists>h' p'. sorts f h (Some v) (v # bs) h' p' (ls @ v # ms)"
proof -
  note s1 = s1[unfolded sorts_def] and s2 = s2[unfolded sorts_def]
  have sets: "set ls = set ls0" "set ms = set ms0" using s1 s2 by (auto dest: mset_eq_setD)
  have disj: "set ls0 \<inter> set ms0 = {}" "v \<notin> set ls0" "v \<notin> set ms0" "set ls0 \<union> set ms0 = set bs"
    using mset_eq_setD[OF part(4)] mset_eq_setD[OF part(5)] assms(5) by auto
  have c3: "lst h3 l2 ls" using lst_relinked[of "set ms0" h2 h3 ls l2] s1 s2 disj(1) sets by auto
  have hv: "h3 v = Some e" using part(3) s1 s2 assms(2,5) disj by (auto simp: relinked_def)
  have d3: "distinct (ls @ v # ms)" using disj sets lst_distinct[OF c3] lst_distinct[of h3 m3 ms] s2 by auto
  obtain h' p' where j: "join h3 (Some v) l2 (last_ptr ls) m3 = Some (h', p')" "lst h' p' (ls @ v # ms)"
      "relinked data (set (ls @ v # ms)) h3 h'" using join_ok[OF c3 _ hv d3] s2 by blast
  have "m3 = NULL \<longleftrightarrow> ms = []" "nxt e \<noteq> NULL"
    using chain_Nil_iff[OF lst_chain[of h3 m3 ms]] chain_Nil_iff[OF assms(3)] assms(4) s2 by auto
  then have "srt f h (Some v) = Some (last_ptr (ls @ v # ms), h', p')"
    using assms(2) part(1) s1 s2 j(1) by (subst srt_unfold) auto
  moreover have all: "h a \<noteq> None" if "a \<in> set ls \<union> set ms" for a
    using chain_in_heap[OF assms(3), of a] that sets disj(4) by auto
  have "data_at data h1 ls = data_at data h ls" using relinked_data[OF part(3)] all by blast
  moreover have "data_at data h2 ms = data_at data h ms"
    using relinked_data[OF part(3), of ms] relinked_data[of data "set ls0" h1 h2 ms] relinked_alloc[OF part(3)] all s1 by simp
  moreover have "relinked data (set (v # bs)) h h'"
    using relinked_glue[of data "set bs" h h1 "set ls0" h2 "set ms0" h3 _ h' "set (v # bs)", OF part(3) _ _ j(3)]
      s1 s2 sets disj(4) by auto
  ultimately show ?thesis using j(2) sorted_join[OF assms(1), of ls data h v bs ms] s1 s2 part(4,5)
    unfolding sorts_def by auto
qed

lemma srt_ok:
  assumes "comparator f" "lst h p as"
  shows "\<exists>h' p' as'. sorts f h p as h' p' as'"
  using assms(2)
proof (induction "length as" arbitrary: h p as rule: less_induct)
  case less
  show ?case
  proof (cases "length as \<le> 1")
    case True
    then show ?thesis using sorts_short[OF less.prems] by blast
  next
    case False
    then obtain v bs where as: "as = v # bs" "bs \<noteq> []" by (cases as) auto
    then obtain e where e: "p = Some v" "h v = Some e" "chain nxt h (nxt e) bs None"
      using lst_chain[OF less.prems] by auto
    have dist: "distinct (v # bs)" using lst_distinct[OF less.prems] as by simp
    obtain h1 l1 m1 ls0 ms0 where p1: "part f (Some v) h (nxt e) NULL NULL = Some (h1, l1, m1)" "lst h1 l1 ls0" "lst h1 m1 ms0"
        "mset ls0 = mset (filter (\<lambda>a. f (data (the (h a))) (data (the (h v))) < 0) bs)"
        "mset ms0 = mset (filter (\<lambda>a. \<not> f (data (the (h a))) (data (the (h v))) < 0) bs)" "relinked data (set bs) h h1"
      using part_ok[OF e(3) dist e(2), of f] e(2) by auto
    have len: "length ls0 < length as" "length ms0 < length as" "set ls0 \<inter> set ms0 = {}"
      using mset_eq_length[OF p1(4)] mset_eq_length[OF p1(5)] length_filter_le[of _ bs] as(1)
        mset_eq_setD[OF p1(4)] mset_eq_setD[OF p1(5)] by (auto simp: less_Suc_eq_le)
    obtain h2 l2 ls where s1: "sorts f h1 l1 ls0 h2 l2 ls" using less.hyps[OF len(1) p1(2)] by blast
    then have "lst h2 m1 ms0" using lst_relinked[of "set ls0" h1 h2 ms0 m1] p1(3) len(3) by (auto simp: sorts_def)
    from less.hyps[OF len(2) this] obtain h3 m3 ms where s2: "sorts f h2 m1 ms0 h3 m3 ms" by blast
    show ?thesis using sorts_step[OF assms(1) e(2,3) as(2) _ p1(1,3,6,4,5) s1 s2] dist as(1) e(1) by auto
  qed
qed

text \<open>The result, seen from the outside.\<close>

lemma srt_spec:
  assumes "comparator f" "lst h p as"
  shows "\<exists>e h' p' as'. srt f h p = Some (e, h', p') \<and> lst h' p' as' \<and> mset as' = mset as \<and>
           sorted_wrt (\<lambda>x y. f x y \<le> 0) (data_at data h' as') \<and>
           mset (data_at data h' as') = mset (data_at data h as) \<and> (\<forall>a. a \<notin> set as \<longrightarrow> h' a = h a)"
proof -
  obtain h' p' as' where r: "srt f h p = Some (last_ptr as', h', p')" "lst h' p' as'" "mset as' = mset as"
      "relinked data (set as) h h'" "sorted_wrt (\<lambda>x y. f x y \<le> 0) (data_at data h as')"
    using srt_ok[OF assms] unfolding sorts_def by blast
  have "data_at data h' as' = data_at data h as'"
    using relinked_data[OF r(4)] lst_in_heap[OF assms(2)] mset_eq_setD[OF r(3)] by blast
  moreover have "mset (data_at data h as') = mset (data_at data h as)" using r(3) by (simp add: data_at_def)
  ultimately show ?thesis using r by (auto simp: relinked_def)
qed

end

section \<open>Removal through an iterator\<close>

text \<open>A client that visits the whole list and removes the values with property \<open>P\<close>.\<close>

partial_function (option) iter_filter ::
  "('e heap \<Rightarrow> ptr \<Rightarrow> ListIterator \<Rightarrow> bool option) \<Rightarrow>
   ('e heap \<Rightarrow> ptr \<Rightarrow> ListIterator \<Rightarrow> ('v option \<times> ListIterator) option) \<Rightarrow>
   ('e heap \<Rightarrow> ptr \<Rightarrow> ListIterator \<Rightarrow> ('e heap \<times> ptr \<times> ListIterator) option) \<Rightarrow>
   ('v \<Rightarrow> bool) \<Rightarrow> 'e heap \<Rightarrow> ptr \<Rightarrow> ListIterator \<Rightarrow> ('e heap \<times> ptr) option" where
  "iter_filter has_more next remove P h list it = do {
     more \<leftarrow> has_more h list it;
     if more then do {
       (r, it) \<leftarrow> next h list it;
       v \<leftarrow> r;
       if P v then do {
         (h, list, it) \<leftarrow> remove h list it;
         iter_filter has_more next remove P h list it
       }
       else iter_filter has_more next remove P h list it
     }
     else Some (h, list)
   }"

lemma trimmed_refl [simp]: "trimmed data h as h as"
  by (simp add: trimmed_def)

lemma trimmed_trans: "trimmed data h as h1 bs \<Longrightarrow> trimmed data h1 bs h2 cs \<Longrightarrow> trimmed data h as h2 cs"
  unfolding trimmed_def by (metis Diff_iff subsetD subset_trans)

lemma trimmed_the:
  "trimmed data h as h' bs \<Longrightarrow> a \<in> set bs \<Longrightarrow> h a \<noteq> None \<Longrightarrow> data (the (h' a)) = data (the (h a))"
  by (cases "h a"; cases "h' a") (auto simp: trimmed_def)

locale linked_iter = linked_list nxt data lst
  for nxt :: "'e \<Rightarrow> ptr" and data :: "'e \<Rightarrow> 'v" and lst :: "'e heap \<Rightarrow> ptr \<Rightarrow> addr list \<Rightarrow> bool" +
  fixes remove :: "'e heap \<Rightarrow> ptr \<Rightarrow> ListIterator \<Rightarrow> ('e heap \<times> ptr \<times> ListIterator) option"
  assumes remove_ok: "iter_at nxt h list it (pre @ [a]) todo \<Longrightarrow> it_current it = Some a \<Longrightarrow>
      lst h list (pre @ a # todo) \<Longrightarrow>
      \<exists>h' list' it'. remove h list it = Some (h', list', it') \<and> iter_at nxt h' list' it' pre todo \<and>
        lst h' list' (pre @ todo) \<and> trimmed data h (pre @ a # todo) h' (pre @ todo)"
begin

lemma iter_filter_ok:
  assumes "iter_at nxt h list it pre todo" "lst h list (pre @ todo)"
  shows "\<exists>h' list'. iter_filter (iter_has_more nxt) (iter_next nxt data) remove P h list it = Some (h', list') \<and>
           lst h' list' (pre @ filter (\<lambda>a. \<not> P (data (the (h a)))) todo) \<and>
           trimmed data h (pre @ todo) h' (pre @ filter (\<lambda>a. \<not> P (data (the (h a)))) todo)"
  using assms
proof (induction todo arbitrary: h list it pre)
  case Nil
  then show ?case using iter_has_more_ok[OF Nil(1)] by (subst iter_filter.simps) simp
next
  case (Cons a as)
  obtain it1 where it1: "iter_next nxt data h list it = Some (Some (data (the (h a))), it1)"
      "iter_at nxt h list it1 (pre @ [a]) as" "it_current it1 = Some a" using iter_next_ok[OF Cons.prems(1)] by blast
  note more = iter_has_more_ok[OF Cons.prems(1)]
  show ?case
  proof (cases "P (data (the (h a)))")
    case False
    have "iter_filter (iter_has_more nxt) (iter_next nxt data) remove P h list it = iter_filter (iter_has_more nxt) (iter_next nxt data) remove P h list it1"
      using more it1(1) False by (subst iter_filter.simps) simp
    then show ?thesis using Cons.IH[OF it1(2)] Cons.prems(2) False by simp
  next
    case True
    obtain h2 list2 it2 where r: "remove h list it1 = Some (h2, list2, it2)" "iter_at nxt h2 list2 it2 pre as"
        "lst h2 list2 (pre @ as)" "trimmed data h (pre @ a # as) h2 (pre @ as)"
      using remove_ok[OF it1(2,3) Cons.prems(2)] by blast
    have f: "filter (\<lambda>b. \<not> P (data (the (h2 b)))) as = filter (\<lambda>b. \<not> P (data (the (h b)))) as"
      using trimmed_the[OF r(4)] lst_in_heap[OF Cons.prems(2)] by (auto intro!: filter_cong)
    have "iter_filter (iter_has_more nxt) (iter_next nxt data) remove P h list it = iter_filter (iter_has_more nxt) (iter_next nxt data) remove P h2 list2 it2"
      using more it1(1) True r(1) by (subst iter_filter.simps) simp
    then show ?thesis using Cons.IH[OF r(2,3), unfolded f] True trimmed_trans[OF r(4)] by auto
  qed
qed

lemma iter_filter_start:
  assumes "lst h p as"
  shows "\<exists>h' p'. iter_filter (iter_has_more nxt) (iter_next nxt data) remove P h p iter_start = Some (h', p') \<and>
           lst h' p' (filter (\<lambda>a. \<not> P (data (the (h a)))) as) \<and>
           trimmed data h as h' (filter (\<lambda>a. \<not> P (data (the (h a)))) as)"
  using iter_filter_ok[OF iter_at_start[OF lst_chain[OF assms]], of P] assms by simp

end

end
