(* ===== verification/SList.thy ===== *)
theory SList
  imports Linked_Lists
begin

text \<open>
  \<open>src/src/comm/slist.c\<close> on an explicit heap of list entries. A \<open>SListEntry **\<close> argument is the value
  of the list variable, passed and returned; inside loops and iterators it is a location, the list
  variable or the \<open>next\<close> field of an entry. The pointer returned by malloc is the argument \<open>m\<close>.
  A NULL value returned for missing data is \<open>None\<close>.
\<close>

record 'v SListEntry =
  sl_data :: 'v
  sl_next :: ptr

type_synonym 'v sheap = "'v SListEntry heap"

abbreviation set_sl_next :: "ptr \<Rightarrow> 'v SListEntry \<Rightarrow> 'v SListEntry" where
  "set_sl_next p e \<equiv> e\<lparr>sl_next := p\<rparr>"

definition slist_free :: "'v sheap \<Rightarrow> ptr \<Rightarrow> 'v sheap option" where
  "slist_free h list = free_loop sl_next h list"

definition slist_prepend :: "ptr \<Rightarrow> 'v sheap \<Rightarrow> ptr \<Rightarrow> 'v \<Rightarrow> (ptr \<times> 'v sheap \<times> ptr) option" where
  "slist_prepend m h list data =
     (case m of
        None \<Rightarrow> Some (NULL, h, list)
      | Some a \<Rightarrow> Some (m, h(a \<mapsto> \<lparr>sl_data = data, sl_next = list\<rparr>), m))"

definition slist_append :: "ptr \<Rightarrow> 'v sheap \<Rightarrow> ptr \<Rightarrow> 'v \<Rightarrow> (ptr \<times> 'v sheap \<times> ptr) option" where
  "slist_append m h list data =
     (case m of
        None \<Rightarrow> Some (NULL, h, list)
      | Some a \<Rightarrow> let h = h(a \<mapsto> \<lparr>sl_data = data, sl_next = NULL\<rparr>) in
          if list = NULL then Some (m, h, m)
          else do {
            rover \<leftarrow> find_end sl_next h list;
            h \<leftarrow> modify h rover (\<lambda>e. e\<lparr>sl_next := m\<rparr>);
            Some (m, h, list)
          })"

definition slist_data :: "'v sheap \<Rightarrow> ptr \<Rightarrow> 'v option" where
  "slist_data h listentry = map_option sl_data (deref h listentry)"

definition slist_next :: "'v sheap \<Rightarrow> ptr \<Rightarrow> ptr option" where
  "slist_next h listentry = map_option sl_next (deref h listentry)"

definition slist_nth_entry :: "'v sheap \<Rightarrow> ptr \<Rightarrow> int \<Rightarrow> ptr option" where
  "slist_nth_entry h list n = (if n < 0 then Some NULL else nth_loop sl_next h list 0 n)"

definition slist_nth_data :: "'v sheap \<Rightarrow> ptr \<Rightarrow> int \<Rightarrow> 'v option option" where
  "slist_nth_data h list n = do {
     entry \<leftarrow> slist_nth_entry h list n;
     if entry = NULL then Some None
     else do { e \<leftarrow> deref h entry; Some (Some (sl_data e)) }
   }"

definition slist_length :: "'v sheap \<Rightarrow> ptr \<Rightarrow> int option" where
  "slist_length h list = length_loop sl_next h list 0"

definition slist_to_array :: "bool \<Rightarrow> 'v sheap \<Rightarrow> ptr \<Rightarrow> 'v array option option" where
  "slist_to_array m h list = do {
     listlen \<leftarrow> slist_length h list;
     if \<not> m then Some None
     else do {
       array \<leftarrow> array_loop sl_next sl_data h listlen list 0 (replicate (nat listlen) None);
       Some (Some array)
     }
   }"

text \<open>The search for the entry that precedes \<open>entry\<close>.\<close>

partial_function (option) slist_find_prev :: "'v sheap \<Rightarrow> ptr \<Rightarrow> ptr \<Rightarrow> ptr option" where
  "slist_find_prev h entry rover =
     (if rover = NULL then Some NULL
      else do {
        e \<leftarrow> deref h rover;
        if sl_next e \<noteq> entry then slist_find_prev h entry (sl_next e) else Some rover
      })"

definition slist_remove_entry :: "'v sheap \<Rightarrow> ptr \<Rightarrow> ptr \<Rightarrow> (int \<times> 'v sheap \<times> ptr) option" where
  "slist_remove_entry h list entry =
     (if list = NULL \<or> entry = NULL then Some (0, h, list)
      else if list = entry then do {
        e \<leftarrow> deref h entry;
        h \<leftarrow> c_free h entry;
        Some (1, h, sl_next e)
      }
      else do {
        rover \<leftarrow> slist_find_prev h entry list;
        if rover = NULL then Some (0, h, list)
        else do {
          e \<leftarrow> deref h entry;
          h \<leftarrow> modify h rover (\<lambda>r. r\<lparr>sl_next := sl_next e\<rparr>);
          h \<leftarrow> c_free h entry;
          Some (1, h, list)
        }
      })"

partial_function (option) slist_remove_data_loop ::
  "('v \<Rightarrow> 'v \<Rightarrow> int) \<Rightarrow> 'v \<Rightarrow> 'v sheap \<Rightarrow> ptr \<Rightarrow> sloc \<Rightarrow> int \<Rightarrow> (int \<times> 'v sheap \<times> ptr) option" where
  "slist_remove_data_loop callback data h list rover entries_removed = do {
     p \<leftarrow> loc_read sl_next h list rover;
     case p of
       None \<Rightarrow> Some (entries_removed, h, list)
     | Some a \<Rightarrow> do {
         e \<leftarrow> h a;
         if callback (sl_data e) data \<noteq> 0 then do {
           h \<leftarrow> c_free h p;
           (h, list) \<leftarrow> loc_write set_sl_next h list rover (sl_next e);
           n \<leftarrow> c_int (entries_removed + 1);
           slist_remove_data_loop callback data h list rover n
         }
         else slist_remove_data_loop callback data h list (NextField a) entries_removed
       }
   }"

definition slist_remove_data ::
  "'v sheap \<Rightarrow> ptr \<Rightarrow> ('v \<Rightarrow> 'v \<Rightarrow> int) \<Rightarrow> 'v \<Rightarrow> (int \<times> 'v sheap \<times> ptr) option" where
  "slist_remove_data h list callback data = slist_remove_data_loop callback data h list ListVar 0"

text \<open>The loop of the quicksort that distributes the entries after the pivot.\<close>

partial_function (option) slist_partition ::
  "'v cmp_func \<Rightarrow> ptr \<Rightarrow> 'v sheap \<Rightarrow> ptr \<Rightarrow> ptr \<Rightarrow> ptr \<Rightarrow> ('v sheap \<times> ptr \<times> ptr) option" where
  "slist_partition compare_func pivot h rover less_list more_list =
     (if rover = NULL then Some (h, less_list, more_list)
      else do {
        e \<leftarrow> deref h rover;
        p \<leftarrow> deref h pivot;
        if compare_func (sl_data e) (sl_data p) < 0 then do {
          h \<leftarrow> modify h rover (\<lambda>e. e\<lparr>sl_next := less_list\<rparr>);
          slist_partition compare_func pivot h (sl_next e) rover more_list
        }
        else do {
          h \<leftarrow> modify h rover (\<lambda>e. e\<lparr>sl_next := more_list\<rparr>);
          slist_partition compare_func pivot h (sl_next e) less_list rover
        }
      })"

text \<open>The less list, the pivot and the more list are joined: the heap and the start of the result.\<close>

definition slist_join :: "'v sheap \<Rightarrow> ptr \<Rightarrow> ptr \<Rightarrow> ptr \<Rightarrow> ptr \<Rightarrow> ('v sheap \<times> ptr) option" where
  "slist_join h pivot less_list less_list_end more_list = do {
     (h, list) \<leftarrow> (if less_list = NULL then Some (h, pivot)
                   else do {
                     h \<leftarrow> modify h less_list_end (\<lambda>e. e\<lparr>sl_next := pivot\<rparr>);
                     Some (h, less_list)
                   });
     h \<leftarrow> modify h pivot (\<lambda>e. e\<lparr>sl_next := more_list\<rparr>);
     Some (h, list)
   }"

text \<open>Returns the last entry of the sorted list, the heap and the new value of the list variable.\<close>

partial_function (option) slist_sort_internal ::
  "'v cmp_func \<Rightarrow> 'v sheap \<Rightarrow> ptr \<Rightarrow> (ptr \<times> 'v sheap \<times> ptr) option" where
  "slist_sort_internal compare_func h list =
     (if list = NULL then Some (list, h, list)
      else do {
        e \<leftarrow> deref h list;
        if sl_next e = NULL then Some (list, h, list)
        else do {
          let pivot = list;
          (h, less_list, more_list) \<leftarrow> slist_partition compare_func pivot h (sl_next e) NULL NULL;
          (less_list_end, h, less_list) \<leftarrow> slist_sort_internal compare_func h less_list;
          (more_list_end, h, more_list) \<leftarrow> slist_sort_internal compare_func h more_list;
          (h, list) \<leftarrow> slist_join h pivot less_list less_list_end more_list;
          Some (if more_list = NULL then pivot else more_list_end, h, list)
        }
      })"

definition slist_sort :: "'v sheap \<Rightarrow> ptr \<Rightarrow> 'v cmp_func \<Rightarrow> ('v sheap \<times> ptr) option" where
  "slist_sort h list compare_func = map_option snd (slist_sort_internal compare_func h list)"

definition slist_find_data :: "'v sheap \<Rightarrow> ptr \<Rightarrow> ('v \<Rightarrow> 'v \<Rightarrow> int) \<Rightarrow> 'v \<Rightarrow> ptr option" where
  "slist_find_data h list callback data = find_loop sl_next sl_data h list callback data"

type_synonym SListIterator = ListIterator

definition slist_iterate :: SListIterator where
  "slist_iterate = iter_start"

definition slist_iter_has_more :: "'v sheap \<Rightarrow> ptr \<Rightarrow> SListIterator \<Rightarrow> bool option" where
  "slist_iter_has_more h list iter = iter_has_more sl_next h list iter"

definition slist_iter_next :: "'v sheap \<Rightarrow> ptr \<Rightarrow> SListIterator \<Rightarrow> ('v option \<times> SListIterator) option" where
  "slist_iter_next h list iter = iter_next sl_next sl_data h list iter"

definition slist_iter_remove :: "'v sheap \<Rightarrow> ptr \<Rightarrow> SListIterator \<Rightarrow> ('v sheap \<times> ptr \<times> SListIterator) option" where
  "slist_iter_remove h list iter =
     (if it_current iter = NULL then Some (h, list, iter)
      else do {
        p \<leftarrow> loc_read sl_next h list (it_prev_next iter);
        if it_current iter \<noteq> p then Some (h, list, iter)
        else do {
          e \<leftarrow> deref h (it_current iter);
          (h, list) \<leftarrow> loc_write set_sl_next h list (it_prev_next iter) (sl_next e);
          h \<leftarrow> c_free h (it_current iter);
          Some (h, list, iter\<lparr>it_current := NULL\<rparr>)
        }
      })"





section \<open>Lists in the heap\<close>

interpretation sl: link_field sl_next set_sl_next sl_data
  by unfold_locales auto

abbreviation slist :: "'v sheap \<Rightarrow> ptr \<Rightarrow> addr list \<Rightarrow> bool" where
  "slist h p as \<equiv> chain sl_next h p as None"

abbreviation values_at :: "'v sheap \<Rightarrow> addr list \<Rightarrow> 'v list" where
  "values_at \<equiv> data_at sl_data"

lemma slist_prepend_ok:
  assumes "slist h p as" "h m = None"
  shows "\<exists>h'. slist_prepend (Some m) h p v = Some (Some m, h', Some m) \<and> slist h' (Some m) (m # as) \<and>
           values_at h' (m # as) = v # values_at h as \<and> (\<forall>a. a \<noteq> m \<longrightarrow> h' a = h a)"
proof -
  have "m \<notin> set as" using assms chain_in_heap[OF assms(1)] by force
  then show ?thesis using assms(1) by (simp add: slist_prepend_def)
qed

lemma slist_append_ok:
  assumes "slist h p as" "h m = None"
  shows "\<exists>h' p'. slist_append (Some m) h p v = Some (Some m, h', p') \<and> slist h' p' (as @ [m]) \<and>
           values_at h' (as @ [m]) = values_at h as @ [v] \<and> (\<forall>a. a \<notin> set (as @ [m]) \<longrightarrow> h' a = h a)"
proof -
  have m: "m \<notin> set as" using assms chain_in_heap[OF assms(1)] by force
  let ?h = "h(m \<mapsto> \<lparr>sl_data = v, sl_next = None\<rparr>)"
  show ?thesis
  proof (cases as rule: rev_cases)
    case Nil
    then show ?thesis using assms by (simp add: slist_append_def)
  next
    case (snoc bs b)
    then obtain e where e: "chain sl_next h p bs (Some b)" "h b = Some e" "sl_next e = None"
      using assms(1) by (auto simp: chain_snoc)
    have b: "b \<notin> set bs" "m \<noteq> b" "m \<notin> set bs" using snoc m chain_distinct[OF assms(1)] by auto
    have "slist ?h p (bs @ [b])" using assms(1) m snoc by simp
    then have f: "find_end sl_next ?h p = Some (Some b)" by (rule find_end_ok)
    let ?h' = "?h(b \<mapsto> e\<lparr>sl_next := Some m\<rparr>)"
    have "slist_append (Some m) h p v = Some (Some m, ?h', p)"
      using f e b snoc assms(1) chain_Nil_iff[OF assms(1)] by (auto simp: slist_append_def Let_def)
    moreover have "slist ?h' p (as @ [m])" using e b snoc by (auto simp: chain_append)
    ultimately show ?thesis using e b snoc by auto
  qed
qed

lemma slist_find_prev_ok:
  assumes "slist h p as" "p \<noteq> Some x"
  shows "x \<notin> set as \<Longrightarrow> slist_find_prev h (Some x) p = Some None"
    and "as = bs @ y # x # cs \<Longrightarrow> slist_find_prev h (Some x) p = Some (Some y)"
  using assms
proof (induction as arbitrary: p bs)
  case Nil
  { case 1 then show ?case using Nil by (simp add: slist_find_prev.simps) }
  { case 2 then show ?case by simp }
next
  case (Cons a as)
  { case 1
    then show ?case using Cons.IH(1) by (subst slist_find_prev.simps) (force dest: chain_head split: list.splits) }
  { case 2
    have d: "distinct (a # as)" using chain_distinct[OF 2(2)] .
    show ?case
    proof (cases bs)
      case Nil
      then show ?thesis using 2 by (subst slist_find_prev.simps) auto
    next
      case (Cons b bs')
      obtain e where e: "p = Some a" "h a = Some e" "slist h (sl_next e) as" using 2(2) by auto
      have n: "sl_next e \<noteq> Some x" using chain_head[OF e(3)] 2(1) Cons d by (cases bs') auto
      then have "slist_find_prev h (Some x) (sl_next e) = Some (Some y)"
        using Cons.IH(2)[of bs' "sl_next e"] e(3) 2(1) Cons by simp
      then show ?thesis using e n by (subst slist_find_prev.simps) simp
    qed }
qed


text \<open>Removing one entry.\<close>

lemma slist_unlink:
  assumes "slist h p (bs @ y # x # cs)" "h x = Some e"
  obtains e' where "h y = Some e'"
    "slist ((h(y \<mapsto> e'\<lparr>sl_next := sl_next e\<rparr>))(x := None)) p (bs @ y # cs)"
proof -
  obtain e' where e': "chain sl_next h p bs (Some y)" "h y = Some e'" "sl_next e' = Some x"
      "slist h (sl_next e) cs" using assms by (auto simp: chain_append)
  have "x \<noteq> y" "x \<notin> set bs" "x \<notin> set cs" "y \<notin> set bs" "y \<notin> set cs"
    using chain_distinct[OF assms(1)] by auto
  then have "slist ((h(y \<mapsto> e'\<lparr>sl_next := sl_next e\<rparr>))(x := None)) p (bs @ y # cs)"
    using e' by (auto simp: chain_append)
  then show ?thesis using that e'(2) by blast
qed

lemma slist_remove_entry_ok:
  assumes "slist h p as"
  shows "x \<notin> set as \<Longrightarrow> slist_remove_entry h p (Some x) = Some (0, h, p)"
    and "x \<in> set as \<Longrightarrow> \<exists>h' p'. slist_remove_entry h p (Some x) = Some (1, h', p') \<and>
           slist h' p' (remove1 x as) \<and> trimmed sl_data h as h' (remove1 x as)"
proof -
  show "slist_remove_entry h p (Some x) = Some (0, h, p)" if "x \<notin> set as"
  proof (cases as)
    case (Cons a bs)
    then have "p = Some a" "a \<noteq> x" using assms that by auto
    then show ?thesis using slist_find_prev_ok(1)[OF assms _ that] by (simp add: slist_remove_entry_def)
  qed (use assms in \<open>simp add: slist_remove_entry_def\<close>)
  assume x: "x \<in> set as"
  then obtain e where e: "h x = Some e" using chain_in_heap[OF assms] by blast
  from x obtain bs cs where as: "as = bs @ x # cs" "x \<notin> set bs" by (meson split_list_first)
  then have r: "remove1 x as = bs @ cs" by (simp add: remove1_append)
  have d: "distinct as" using chain_distinct[OF assms] .
  show "\<exists>h' p'. slist_remove_entry h p (Some x) = Some (1, h', p') \<and>
           slist h' p' (remove1 x as) \<and> trimmed sl_data h as h' (remove1 x as)"
  proof (cases bs rule: rev_cases)
    case Nil
    then have "slist_remove_entry h p (Some x) = Some (1, h(x := None), sl_next e)"
      using assms as e by (simp add: slist_remove_entry_def)
    moreover have "slist (h(x := None)) (sl_next e) cs" "x \<notin> set cs" using assms as e Nil d by auto
    ultimately show ?thesis using r Nil as by (auto simp: trimmed_def)
  next
    case (snoc ds y)
    then have c: "slist h p (ds @ y # x # cs)" using assms as by simp
    obtain e' where e': "h y = Some e'" "slist ((h(y \<mapsto> e'\<lparr>sl_next := sl_next e\<rparr>))(x := None)) p (ds @ y # cs)"
      by (rule slist_unlink[OF c e])
    have n: "x \<noteq> y" "x \<notin> set cs" "x \<notin> set ds" using d as snoc by auto
    have p: "p \<noteq> Some x" "p \<noteq> None" using chain_head[OF c] n by (cases ds; auto)+
    have "slist_find_prev h (Some x) p = Some (Some y)"
      using slist_find_prev_ok(2)[OF c p(1), of ds y cs] by simp
    then have "slist_remove_entry h p (Some x) = Some (1, (h(y \<mapsto> e'\<lparr>sl_next := sl_next e\<rparr>))(x := None), p)"
      using p e e'(1) n(1) by (simp add: slist_remove_entry_def)
    moreover have "trimmed sl_data h as ((h(y \<mapsto> e'\<lparr>sl_next := sl_next e\<rparr>))(x := None)) (ds @ y # cs)"
      using as snoc n e'(1) by (auto simp: trimmed_def)
    ultimately show ?thesis using e'(2) r snoc by auto
  qed
qed

text \<open>One entry is freed and unlinked through the location that leads to it.\<close>

lemma slist_drop_at:
  assumes "chain sl_next h list pre (Some a)" "h a = Some e" "slist h (sl_next e) as" "distinct (pre @ a # as)"
  shows "\<exists>h' list'. loc_write set_sl_next (h(a := None)) list (loc_after pre) (sl_next e) = Some (h', list') \<and>
           chain sl_next h' list' pre (sl_next e) \<and> slist h' (sl_next e) as \<and> h' a = None \<and>
           (\<forall>b. b \<noteq> a \<longrightarrow> b \<notin> set pre \<longrightarrow> h' b = h b) \<and>
           (\<forall>b \<in> set pre. map_option sl_data (h' b) = map_option sl_data (h b))"
proof -
  have "chain sl_next (h(a := None)) list pre (Some a)" using assms by simp
  then obtain h' list' where w: "loc_write set_sl_next (h(a := None)) list (loc_after pre) (sl_next e) = Some (h', list')"
      "chain sl_next h' list' pre (sl_next e)" "relinked sl_data (set pre) (h(a := None)) h'"
    using sl.loc_write_ok[of "h(a := None)" list pre] assms(4) by fastforce
  have "slist h' (sl_next e) as"
    using relinked_chain[OF w(3), of as sl_next "sl_next e" None] assms(3,4) by auto
  then show ?thesis using w assms(4) by (intro exI[of _ h'] exI[of _ list']) (auto simp: relinked_def)
qed

definition matches :: "('v \<Rightarrow> 'v \<Rightarrow> int) \<Rightarrow> 'v \<Rightarrow> 'v sheap \<Rightarrow> addr \<Rightarrow> bool" where
  "matches callback x h a \<longleftrightarrow> callback (sl_data (the (h a))) x \<noteq> 0"

lemma slist_remove_data_loop_ok:
  assumes "chain sl_next h list pre p" "slist h p as" "distinct (pre @ as)"
    and "0 \<le> n" "n + int (length as) \<le> INT_MAX"
  shows "\<exists>h' list'. slist_remove_data_loop cb x h list (loc_after pre) n =
             Some (n + int (length (filter (matches cb x h) as)), h', list') \<and>
           slist h' list' (pre @ filter (\<lambda>a. \<not> matches cb x h a) as) \<and>
           trimmed sl_data h (pre @ as) h' (pre @ filter (\<lambda>a. \<not> matches cb x h a) as)"
  using assms
proof (induction as arbitrary: h list pre p n)
  case Nil
  then show ?case using loc_read_ok[OF Nil(1)]
    by (subst slist_remove_data_loop.simps) (auto simp: trimmed_def)
next
  case (Cons a as)
  then obtain e where e: "p = Some a" "h a = Some e" "slist h (sl_next e) as" by auto
  note read = loc_read_ok[OF Cons.prems(1)]
  show ?case
  proof (cases "matches cb x h a")
    case True
    obtain h2 list2 where w: "loc_write set_sl_next (h(a := None)) list (loc_after pre) (sl_next e) = Some (h2, list2)"
        "chain sl_next h2 list2 pre (sl_next e)" "slist h2 (sl_next e) as" "h2 a = None"
        "\<forall>b. b \<noteq> a \<longrightarrow> b \<notin> set pre \<longrightarrow> h2 b = h b"
        "\<forall>b \<in> set pre. map_option sl_data (h2 b) = map_option sl_data (h b)"
      using slist_drop_at[of h list pre a e as] Cons.prems(1,3) e by blast
    have m: "matches cb x h2 b = matches cb x h b" if "b \<in> set as" for b
      using w(5) that Cons.prems(3) by (auto simp: matches_def)
    then have f: "filter (matches cb x h2) as = filter (matches cb x h) as"
        "filter (\<lambda>a. \<not> matches cb x h2 a) as = filter (\<lambda>a. \<not> matches cb x h a) as" by (auto intro: filter_cong)
    obtain h' list' where r: "slist_remove_data_loop cb x h2 list2 (loc_after pre) (n + 1) =
             Some (n + 1 + int (length (filter (matches cb x h) as)), h', list')"
        "slist h' list' (pre @ filter (\<lambda>a. \<not> matches cb x h a) as)"
        "trimmed sl_data h2 (pre @ as) h' (pre @ filter (\<lambda>a. \<not> matches cb x h a) as)"
      using Cons.IH[OF w(2,3), of "n + 1"] Cons.prems(3-5) unfolding f by auto
    have "c_int (n + 1) = Some (n + 1)" using Cons.prems(4,5) by simp
    then have "slist_remove_data_loop cb x h list (loc_after pre) n =
        Some (n + 1 + int (length (filter (matches cb x h) as)), h', list')"
      using read e w(1) r(1) True by (subst slist_remove_data_loop.simps) (simp add: matches_def)
    moreover have "trimmed sl_data h (pre @ a # as) h' (pre @ filter (\<lambda>a. \<not> matches cb x h a) as)"
      using r(3) w(4-6) Cons.prems(3) True unfolding trimmed_def by auto
    ultimately show ?thesis using r(2) True by simp
  next
    case False
    have "chain sl_next h list (pre @ [a]) (sl_next e)" using Cons.prems(1) e by (simp add: chain_snoc)
    from Cons.IH[OF this e(3) _ Cons.prems(4)] Cons.prems(3,5) False obtain h' list' where
      r: "slist_remove_data_loop cb x h list (loc_after (pre @ [a])) n =
             Some (n + int (length (filter (matches cb x h) as)), h', list')"
        "slist h' list' (pre @ filter (\<lambda>a. \<not> matches cb x h a) (a # as))"
        "trimmed sl_data h (pre @ a # as) h' (pre @ filter (\<lambda>a. \<not> matches cb x h a) (a # as))" by auto
    then have "slist_remove_data_loop cb x h list (loc_after pre) n =
        Some (n + int (length (filter (matches cb x h) (a # as))), h', list')"
      using read e False by (subst slist_remove_data_loop.simps) (simp add: matches_def loc_after_def)
    then show ?thesis using r(2,3) by blast
  qed
qed

section \<open>Sorting\<close>

lemma slist_partition_ok:
  assumes "slist h p as" "slist h l ls" "slist h m ms" "distinct (as @ ls @ ms @ [v])" "h v = Some e"
  shows "\<exists>h' l' m'. slist_partition f (Some v) h p l m = Some (h', l', m') \<and>
           slist h' l' (rev (filter (\<lambda>a. f (sl_data (the (h a))) (sl_data e) < 0) as) @ ls) \<and>
           slist h' m' (rev (filter (\<lambda>a. \<not> f (sl_data (the (h a))) (sl_data e) < 0) as) @ ms) \<and>
           relinked sl_data (set as) h h'"
  using assms
proof (induction as arbitrary: h p l m ls ms)
  case Nil
  then show ?case by (subst slist_partition.simps) auto
next
  case (Cons a as)
  then obtain d where d: "p = Some a" "h a = Some d" "slist h (sl_next d) as" by auto
  have n: "a \<notin> set as" "a \<notin> set ls" "a \<notin> set ms" "a \<noteq> v" "v \<notin> set as" using Cons.prems(4) by auto
  let ?lt = "\<lambda>h a. f (sl_data (the (h a))) (sl_data e) < 0"
  let ?h = "\<lambda>q. h(a \<mapsto> d\<lparr>sl_next := q\<rparr>)"
  have flt: "filter (?lt (?h q)) as = filter (?lt h) as" "filter (\<lambda>b. \<not> ?lt (?h q) b) as = filter (\<lambda>b. \<not> ?lt h b) as" for q
    using n(1) by (auto intro!: filter_cong)
  have rel: "relinked sl_data (set (a # as)) h h'" if "relinked sl_data (set as) (?h q) h'" for q h'
    using relinked_trans[OF relinked_upd[of h a d sl_data, OF d(2)] relinked_mono[OF that]] by auto
  show ?case
  proof (cases "?lt h a")
    case True
    have "slist_partition f (Some v) h p l m = slist_partition f (Some v) (?h l) (sl_next d) (Some a) m"
      using d True Cons.prems(5) by (subst slist_partition.simps) simp
    moreover have c: "slist (?h l) (sl_next d) as" "slist (?h l) (Some a) (a # ls)" "slist (?h l) m ms"
        "distinct (as @ (a # ls) @ ms @ [v])" "?h l v = Some e"
      using Cons.prems(2-5) d n by auto
    ultimately show ?thesis using Cons.IH[OF c] rel True unfolding flt by fastforce
  next
    case False
    have "slist_partition f (Some v) h p l m = slist_partition f (Some v) (?h m) (sl_next d) l (Some a)"
      using d False Cons.prems(5) by (subst slist_partition.simps) simp
    moreover have c: "slist (?h m) (sl_next d) as" "slist (?h m) l ls" "slist (?h m) (Some a) (a # ms)"
        "distinct (as @ ls @ (a # ms) @ [v])" "?h m v = Some e"
      using Cons.prems(2-5) d n by auto
    ultimately show ?thesis using Cons.IH[OF c] rel False unfolding flt by fastforce
  qed
qed

text \<open>The end of a sorting step: the less list, the pivot and the more list are joined.\<close>

lemma slist_join_ok:
  assumes "slist h l ls" "slist h m ms" "h v = Some e" "distinct (ls @ v # ms)"
  shows "\<exists>h' p. slist_join h (Some v) l (last_ptr ls) m = Some (h', p) \<and> slist h' p (ls @ v # ms) \<and>
           relinked sl_data (set (ls @ v # ms)) h h'"
proof (cases ls rule: rev_cases)
  case Nil
  have "relinked sl_data (set (ls @ v # ms)) h (h(v \<mapsto> e\<lparr>sl_next := m\<rparr>))" using assms(3) by (intro relinked_upd) auto
  then show ?thesis using assms Nil by (auto simp: slist_join_def)
next
  case (snoc bs b)
  then obtain d where d: "chain sl_next h l bs (Some b)" "h b = Some d" "l \<noteq> None"
    using assms(1) chain_Nil_iff[OF assms(1)] by (auto simp: chain_snoc)
  let ?h1 = "h(b \<mapsto> d\<lparr>sl_next := Some v\<rparr>)" let ?h' = "?h1(v \<mapsto> e\<lparr>sl_next := m\<rparr>)"
  have n: "b \<noteq> v" "b \<notin> set bs" "v \<notin> set bs" "b \<notin> set ms" "v \<notin> set ms" using assms(4) snoc by auto
  have "relinked sl_data (set (ls @ v # ms)) h ?h1" using snoc d(2) by (intro relinked_upd) auto
  moreover have "relinked sl_data (set (ls @ v # ms)) ?h1 ?h'" using assms(3) n by (intro relinked_upd) auto
  ultimately have "relinked sl_data (set (ls @ v # ms)) h ?h'" by (rule relinked_trans)
  moreover have "slist ?h' l (ls @ v # ms)" using assms(2) d n snoc by (auto simp: chain_append)
  ultimately show ?thesis using d n snoc assms(3)
    by (intro exI[of _ ?h'] exI[of _ l]) (simp add: slist_join_def)
qed

lemma slist_partition_start:
  assumes "slist h p as" "distinct (v # as)" "h v = Some e"
  shows "\<exists>h' l m ls ms. slist_partition f (Some v) h p NULL NULL = Some (h', l, m) \<and> slist h' l ls \<and> slist h' m ms \<and>
           mset ls = mset (filter (\<lambda>a. f (sl_data (the (h a))) (sl_data e) < 0) as) \<and>
           mset ms = mset (filter (\<lambda>a. \<not> f (sl_data (the (h a))) (sl_data e) < 0) as) \<and>
           relinked sl_data (set as) h h'"
  using slist_partition_ok[OF assms(1), of None "[]" None "[]" v e f] assms(2,3) by fastforce

interpretation sls: linked_sort sl_next sl_data slist slist_partition slist_join slist_sort_internal
proof
  show "chain sl_next h p as None" if "slist h p as" for h :: "'v sheap" and p as using that .
  show "slist h' p as \<longleftrightarrow> slist h p as" if "relinked sl_data S h h'" "set as \<inter> S = {}" for S h and h' :: "'v sheap" and as p
    using relinked_chain[OF that] .
qed (rule slist_partition_start slist_join_ok slist_sort_internal.simps[unfolded Let_def]; assumption)+

section \<open>Iterators\<close>

lemma iter_remove_ok:
  assumes "iter_at sl_next h list it (pre @ [a]) todo" "it_current it = Some a" "distinct (pre @ a # todo)"
  shows "\<exists>h' list' it'. slist_iter_remove h list it = Some (h', list', it') \<and> iter_at sl_next h' list' it' pre todo \<and>
           h' a = None \<and> (\<forall>b. b \<noteq> a \<longrightarrow> b \<notin> set pre \<longrightarrow> h' b = h b) \<and>
           (\<forall>b \<in> set pre. map_option sl_data (h' b) = map_option sl_data (h b))"
proof -
  obtain q where q: "chain sl_next h list (pre @ [a]) q" "slist h q todo" using assms(1) by (auto simp: iter_at_def)
  then obtain e where e: "chain sl_next h list pre (Some a)" "h a = Some e" "sl_next e = q" by (auto simp: chain_snoc)
  obtain h1 list1 where w: "loc_write set_sl_next h list (loc_after pre) q = Some (h1, list1)"
      "chain sl_next h1 list1 pre q" "relinked sl_data (set pre) h h1"
    using sl.loc_write_ok[OF e(1), of q] assms(3) by auto
  have n: "a \<notin> set pre" "a \<notin> set todo" "set todo \<inter> set pre = {}" using assms(3) by auto
  have h1: "h1 a = Some e" "slist h1 q todo" using w(3) e(2) n q(2) relinked_chain[OF w(3) n(3)]
    by (auto simp: relinked_def)
  have l: "it_prev_next it = loc_after pre" using assms(1,2) by (simp add: iter_at_def)
  have r: "loc_read sl_next h list (loc_after pre) = Some (Some a)" using loc_read_ok[OF e(1)] .
  have "slist_iter_remove h list it = Some (h1(a := None), list1, it\<lparr>it_current := None\<rparr>)"
    using assms(2) l r e(2,3) w(1) h1(1) by (simp add: slist_iter_remove_def)
  moreover have "iter_at sl_next (h1(a := None)) list1 (it\<lparr>it_current := None\<rparr>) pre todo"
    using w(2) h1(2) n l by (auto simp: iter_at_def)
  ultimately show ?thesis using w(3) n(1) by (auto simp: relinked_def)
qed

text \<open>The client loop over the iterator, with this component's operations.\<close>

abbreviation slist_iter_filter :: "('v \<Rightarrow> bool) \<Rightarrow> 'v sheap \<Rightarrow> ptr \<Rightarrow> SListIterator \<Rightarrow> ('v sheap \<times> ptr) option" where
  "slist_iter_filter \<equiv> iter_filter slist_iter_has_more slist_iter_next slist_iter_remove"

lemma slist_iter_generic: "slist_iter_has_more = iter_has_more sl_next" "slist_iter_next = iter_next sl_next sl_data"
  by (auto simp: fun_eq_iff slist_iter_has_more_def slist_iter_next_def)

interpretation sli: linked_iter sl_next sl_data slist slist_iter_remove
proof
  fix h :: "'v sheap" and list it pre a todo
  assume a: "iter_at sl_next h list it (pre @ [a]) todo" "it_current it = Some a" "slist h list (pre @ a # todo)"
  have d: "distinct (pre @ a # todo)" using chain_distinct[OF a(3)] .
  obtain h' list' it' where r: "slist_iter_remove h list it = Some (h', list', it')" "iter_at sl_next h' list' it' pre todo"
      "h' a = None" "\<forall>b. b \<noteq> a \<longrightarrow> b \<notin> set pre \<longrightarrow> h' b = h b"
      "\<forall>b \<in> set pre. map_option sl_data (h' b) = map_option sl_data (h b)" using iter_remove_ok[OF a(1,2) d] by blast
  have "slist h' list' (pre @ todo)" using r(2) by (auto simp: iter_at_def chain_append)
  moreover have "trimmed sl_data h (pre @ a # todo) h' (pre @ todo)"
    using r(3-5) d unfolding trimmed_def by auto
  ultimately show "\<exists>h' list' it'. slist_iter_remove h list it = Some (h', list', it') \<and> iter_at sl_next h' list' it' pre todo \<and>
      slist h' list' (pre @ todo) \<and> trimmed sl_data h (pre @ a # todo) h' (pre @ todo)" using r(1,2) by blast
qed

section \<open>Properties\<close>

text \<open>slist_append and slist_prepend add one entry at the end or the start of the list, return its
  address and leave every other entry and the rest of the heap alone; when malloc fails they return
  NULL and change nothing.\<close>

theorem slist_insert_spec:
  assumes "slist h p as" "h m = None"
  shows "(\<exists>h' p'. slist_append (Some m) h p v = Some (Some m, h', p') \<and> slist h' p' (as @ [m]) \<and>
            values_at h' (as @ [m]) = values_at h as @ [v] \<and> (\<forall>a. a \<notin> set (as @ [m]) \<longrightarrow> h' a = h a)) \<and>
         (\<exists>h' p'. slist_prepend (Some m) h p v = Some (Some m, h', p') \<and> slist h' p' (m # as) \<and>
            values_at h' (m # as) = v # values_at h as \<and> (\<forall>a. a \<noteq> m \<longrightarrow> h' a = h a)) \<and>
         slist_append None h p v = Some (None, h, p) \<and> slist_prepend None h p v = Some (None, h, p)"
  using slist_append_ok[OF assms, of v] slist_prepend_ok[OF assms, of v]
  by (auto simp: slist_append_def slist_prepend_def)

text \<open>Two entries in a small heap.\<close>

definition two_heap :: "int sheap" where
  "two_heap = [1 \<mapsto> \<lparr>sl_data = 7, sl_next = Some 2\<rparr>, 2 \<mapsto> \<lparr>sl_data = 3, sl_next = None\<rparr>]"

lemma two_heap_list: "slist two_heap (Some 1) [1, 2]"
  by (simp add: two_heap_def)

theorem slist_insert_spec_witness:
  "\<exists>h' p'. slist_append (Some 5) two_heap (Some 1) 9 = Some (Some 5, h', p') \<and> values_at h' [1, 2, 5] = [7, 3, 9]"
proof -
  have "two_heap 5 = None" "values_at two_heap [1, 2] = [7, 3]" by (simp_all add: two_heap_def)
  then show ?thesis using slist_insert_spec[OF two_heap_list, of 5 9] by auto
qed

text \<open>slist_remove_entry removes and frees the given entry if it is in the list and returns 1,
  otherwise it returns 0 and changes nothing; slist_remove_data removes and frees exactly the entries
  whose data the callback matches and returns their number. The order and the data of the other
  entries stay.\<close>

theorem slist_remove_spec:
  assumes "slist h p as" "int (length as) \<le> INT_MAX"
  shows "(if x \<in> set as
          then \<exists>h' p'. slist_remove_entry h p (Some x) = Some (1, h', p') \<and> slist h' p' (remove1 x as) \<and>
                 trimmed sl_data h as h' (remove1 x as)
          else slist_remove_entry h p (Some x) = Some (0, h, p)) \<and>
         (\<exists>h' p'. slist_remove_data h p cb d =
              Some (int (length (filter (matches cb d h) as)), h', p') \<and>
            slist h' p' (filter (\<lambda>a. \<not> matches cb d h a) as) \<and>
            trimmed sl_data h as h' (filter (\<lambda>a. \<not> matches cb d h a) as))"
proof -
  have "\<exists>h' p'. slist_remove_data h p cb d = Some (int (length (filter (matches cb d h) as)), h', p') \<and>
            slist h' p' (filter (\<lambda>a. \<not> matches cb d h a) as) \<and>
            trimmed sl_data h as h' (filter (\<lambda>a. \<not> matches cb d h a) as)"
    using slist_remove_data_loop_ok[of h p "[]" p as 0 cb d] assms chain_distinct[OF assms(1)]
    by (simp add: slist_remove_data_def loc_after_def)
  then show ?thesis using slist_remove_entry_ok[OF assms(1), of x] by auto
qed

theorem slist_remove_spec_witness:
  "\<exists>h' p'. slist_remove_data two_heap (Some 1) int_equal 7 = Some (1, h', p') \<and> slist h' p' [2] \<and> h' 1 = None"
proof -
  have "filter (matches int_equal 7 two_heap) [1, 2] = [1]" "filter (\<lambda>a. \<not> matches int_equal 7 two_heap a) [1, 2] = [2]"
    by (simp_all add: matches_def two_heap_def int_equal_def)
  moreover have "int (length [1::addr, 2]) \<le> INT_MAX" by (simp add: c_int_bounds)
  ultimately obtain h' p' where "slist_remove_data two_heap (Some 1) int_equal 7 = Some (1, h', p')"
      "slist h' p' [2]" "trimmed sl_data two_heap [1, 2] h' [2]"
    using slist_remove_spec[OF two_heap_list, of 1 int_equal 7] by auto
  moreover from this(3) have "h' 1 = None" by (simp add: trimmed_def)
  ultimately show ?thesis by blast
qed

text \<open>slist_sort terminates and leaves a list of the same entries, each with its data, in ascending
  order of a total preorder, without touching the rest of the heap.\<close>

theorem slist_sort_spec:
  assumes "comparator f" "slist h p as"
  shows "\<exists>h' p' as'. slist_sort h p f = Some (h', p') \<and> slist h' p' as' \<and> mset as' = mset as \<and>
           sorted_wrt (\<lambda>x y. f x y \<le> 0) (values_at h' as') \<and> mset (values_at h' as') = mset (values_at h as) \<and>
           (\<forall>a. a \<notin> set as \<longrightarrow> h' a = h a)"
  using sls.srt_spec[OF assms] by (fastforce simp: slist_sort_def)

theorem slist_sort_spec_witness:
  "\<exists>h' p' as'. slist_sort two_heap (Some 1) int_compare = Some (h', p') \<and> slist h' p' as' \<and> mset as' = {#1, 2#}"
  using slist_sort_spec[OF int_cmp.comparator_axioms two_heap_list] by fastforce

text \<open>An iterator visits the entries in order, also when the current entry is removed through it on
  the way: a loop that removes the values with some property leaves exactly the other entries, freeing
  the removed ones.\<close>

theorem slist_iterator_spec:
  assumes "slist h p as"
  shows "\<exists>h' p'. slist_iter_filter P h p slist_iterate = Some (h', p') \<and>
           slist h' p' (filter (\<lambda>a. \<not> P (sl_data (the (h a)))) as) \<and>
           trimmed sl_data h as h' (filter (\<lambda>a. \<not> P (sl_data (the (h a)))) as)"
  unfolding slist_iterate_def slist_iter_generic by (rule sli.iter_filter_start[OF assms])

theorem slist_iterator_spec_witness:
  "\<exists>h' p'. slist_iter_filter (\<lambda>v. v = 3) two_heap (Some 1) slist_iterate = Some (h', p') \<and> slist h' p' [1]"
proof -
  have "filter (\<lambda>a. \<not> sl_data (the (two_heap a)) = 3) [1, 2] = [1]" by (simp add: two_heap_def)
  then show ?thesis using slist_iterator_spec[OF two_heap_list, of "\<lambda>v. v = 3"] by auto
qed

text \<open>slist_nth_entry, slist_nth_data, slist_length, slist_to_array, slist_find_data and slist_free
  compute the n-th entry and its data, the number of entries, the array of the data, the first entry
  that matches, and free every entry once.\<close>

theorem slist_queries_spec:
  assumes "slist h p as" "int (length as) \<le> INT_MAX"
  shows "slist_nth_entry h p n = Some (if 0 \<le> n \<and> nat n < length as then Some (as ! nat n) else None) \<and>
         slist_nth_data h p n = Some (if 0 \<le> n \<and> nat n < length as then Some (values_at h as ! nat n) else None) \<and>
         slist_length h p = Some (int (length as)) \<and>
         slist_to_array True h p = Some (Some (map Some (values_at h as))) \<and>
         slist_find_data h p cb d = Some (find (matches cb d h) as) \<and>
         slist_free h p = Some (\<lambda>a. if a \<in> set as then None else h a)"
proof -
  have l: "slist_length h p = Some (int (length as))"
    using length_loop_ok[OF assms(1), of 0] assms(2) by (simp add: slist_length_def)
  have n: "slist_nth_entry h p n = Some (if 0 \<le> n \<and> nat n < length as then Some (as ! nat n) else None)"
    using nth_loop_ok[OF assms(1), of 0 n] by (simp add: slist_nth_entry_def)
  moreover have "\<exists>e. h (as ! nat n) = Some e" if "nat n < length as" using chain_in_heap[OF assms(1)] that by simp
  then have "slist_nth_data h p n = Some (if 0 \<le> n \<and> nat n < length as then Some (values_at h as ! nat n) else None)"
    using n by (auto simp: slist_nth_data_def data_at_def)
  moreover have "slist_to_array True h p = Some (Some (map Some (values_at h as)))"
    using array_loop_ok[OF assms(1), of _ "[]" sl_data] l by (simp add: slist_to_array_def)
  moreover have "matches cb d h = (\<lambda>a. cb (sl_data (the (h a))) d \<noteq> 0)" by (simp add: matches_def fun_eq_iff)
  ultimately show ?thesis using l find_loop_ok[OF assms(1)] free_loop_ok[OF assms(1)]
    by (simp add: slist_find_data_def slist_free_def)
qed

theorem slist_queries_spec_witness:
  "slist_nth_data two_heap (Some 1) 1 = Some (Some 3) \<and> slist_length two_heap (Some 1) = Some 2"
proof -
  have "values_at two_heap [1, 2] = [7, 3]" by (simp add: two_heap_def)
  then show ?thesis using slist_queries_spec[OF two_heap_list, of 1 int_equal 0] by (simp add: c_int_bounds)
qed

end
