(* ===== verification/DList.thy ===== *)
theory DList
  imports Linked_Lists
begin

text \<open>
  \<open>src/src/comm/list.c\<close>, doubly linked lists, on an explicit heap of list entries, with the
  conventions of the singly linked lists.
\<close>

record 'v ListEntry =
  dl_data :: 'v
  dl_prev :: ptr
  dl_next :: ptr

type_synonym 'v dheap = "'v ListEntry heap"

abbreviation set_dl_next :: "ptr \<Rightarrow> 'v ListEntry \<Rightarrow> 'v ListEntry" where
  "set_dl_next p e \<equiv> e\<lparr>dl_next := p\<rparr>"

text \<open>\<open>if (p != NULL) p->prev = v\<close>.\<close>

definition link_prev :: "'v dheap \<Rightarrow> ptr \<Rightarrow> ptr \<Rightarrow> 'v dheap option" where
  "link_prev h p v = (if p = NULL then Some h else modify h p (\<lambda>e. e\<lparr>dl_prev := v\<rparr>))"

definition list_free :: "'v dheap \<Rightarrow> ptr \<Rightarrow> 'v dheap option" where
  "list_free h list = free_loop dl_next h list"

definition list_prepend :: "ptr \<Rightarrow> 'v dheap \<Rightarrow> ptr \<Rightarrow> 'v \<Rightarrow> (ptr \<times> 'v dheap \<times> ptr) option" where
  "list_prepend m h list data =
     (case m of
        None \<Rightarrow> Some (NULL, h, list)
      | Some a \<Rightarrow> do {
          h \<leftarrow> link_prev h list m;
          Some (m, h(a \<mapsto> \<lparr>dl_data = data, dl_prev = NULL, dl_next = list\<rparr>), m)
        })"

definition list_append :: "ptr \<Rightarrow> 'v dheap \<Rightarrow> ptr \<Rightarrow> 'v \<Rightarrow> (ptr \<times> 'v dheap \<times> ptr) option" where
  "list_append m h list data =
     (case m of
        None \<Rightarrow> Some (NULL, h, list)
      | Some a \<Rightarrow> let h = h(a \<mapsto> \<lparr>dl_data = data, dl_prev = NULL, dl_next = NULL\<rparr>) in
          if list = NULL then Some (m, h, m)
          else do {
            rover \<leftarrow> find_end dl_next h list;
            h \<leftarrow> modify h m (\<lambda>e. e\<lparr>dl_prev := rover\<rparr>);
            h \<leftarrow> modify h rover (\<lambda>e. e\<lparr>dl_next := m\<rparr>);
            Some (m, h, list)
          })"

definition list_data :: "'v dheap \<Rightarrow> ptr \<Rightarrow> 'v option" where
  "list_data h listentry = map_option dl_data (deref h listentry)"

definition list_prev :: "'v dheap \<Rightarrow> ptr \<Rightarrow> ptr option" where
  "list_prev h listentry = map_option dl_prev (deref h listentry)"

definition list_next :: "'v dheap \<Rightarrow> ptr \<Rightarrow> ptr option" where
  "list_next h listentry = map_option dl_next (deref h listentry)"

definition list_nth_entry :: "'v dheap \<Rightarrow> ptr \<Rightarrow> int \<Rightarrow> ptr option" where
  "list_nth_entry h list n = (if n < 0 then Some NULL else nth_loop dl_next h list 0 n)"

definition list_nth_data :: "'v dheap \<Rightarrow> ptr \<Rightarrow> int \<Rightarrow> 'v option option" where
  "list_nth_data h list n = do {
     entry \<leftarrow> list_nth_entry h list n;
     if entry = NULL then Some None
     else do { e \<leftarrow> deref h entry; Some (Some (dl_data e)) }
   }"

definition list_length :: "'v dheap \<Rightarrow> ptr \<Rightarrow> int option" where
  "list_length h list = length_loop dl_next h list 0"

definition list_to_array :: "bool \<Rightarrow> 'v dheap \<Rightarrow> ptr \<Rightarrow> 'v array option option" where
  "list_to_array m h list = do {
     listlen \<leftarrow> list_length h list;
     if \<not> m then Some None
     else do {
       array \<leftarrow> array_loop dl_next dl_data h listlen list 0 (replicate (nat listlen) None);
       Some (Some array)
     }
   }"

definition list_remove_entry :: "'v dheap \<Rightarrow> ptr \<Rightarrow> ptr \<Rightarrow> (int \<times> 'v dheap \<times> ptr) option" where
  "list_remove_entry h list entry =
     (if list = NULL \<or> entry = NULL then Some (0, h, list)
      else do {
        e \<leftarrow> deref h entry;
        if dl_prev e = NULL then do {
          h \<leftarrow> link_prev h (dl_next e) NULL;
          Some (1, h, dl_next e)
        }
        else do {
          h \<leftarrow> modify h (dl_prev e) (\<lambda>p. p\<lparr>dl_next := dl_next e\<rparr>);
          h \<leftarrow> link_prev h (dl_next e) (dl_prev e);
          Some (1, h, list)
        }
      })"

text \<open>The part of list_remove_data that unlinks and frees the entry \<open>rover\<close>.\<close>

definition list_unlink_free :: "'v dheap \<Rightarrow> ptr \<Rightarrow> ptr \<Rightarrow> ('v dheap \<times> ptr) option" where
  "list_unlink_free h list rover = do {
     e \<leftarrow> deref h rover;
     (h, list) \<leftarrow> (if dl_prev e = NULL then Some (h, dl_next e)
       else do { h \<leftarrow> modify h (dl_prev e) (\<lambda>p. p\<lparr>dl_next := dl_next e\<rparr>); Some (h, list) });
     h \<leftarrow> link_prev h (dl_next e) (dl_prev e);
     h \<leftarrow> c_free h rover;
     Some (h, list)
   }"

partial_function (option) list_remove_data_loop ::
  "('v \<Rightarrow> 'v \<Rightarrow> int) \<Rightarrow> 'v \<Rightarrow> 'v dheap \<Rightarrow> ptr \<Rightarrow> ptr \<Rightarrow> int \<Rightarrow> (int \<times> 'v dheap \<times> ptr) option" where
  "list_remove_data_loop callback data h list rover entries_removed =
     (if rover = NULL then Some (entries_removed, h, list)
      else do {
        e \<leftarrow> deref h rover;
        if callback (dl_data e) data \<noteq> 0 then do {
          (h, list) \<leftarrow> list_unlink_free h list rover;
          n \<leftarrow> c_int (entries_removed + 1);
          list_remove_data_loop callback data h list (dl_next e) n
        }
        else list_remove_data_loop callback data h list (dl_next e) entries_removed
      })"

definition list_remove_data ::
  "'v dheap \<Rightarrow> ptr \<Rightarrow> ('v \<Rightarrow> 'v \<Rightarrow> int) \<Rightarrow> 'v \<Rightarrow> (int \<times> 'v dheap \<times> ptr) option" where
  "list_remove_data h list callback data = list_remove_data_loop callback data h list list 0"

text \<open>The entry \<open>rover\<close> is put in front of the less or the more list.\<close>

definition list_push :: "'v dheap \<Rightarrow> ptr \<Rightarrow> ptr \<Rightarrow> 'v dheap option" where
  "list_push h rover list = do {
     h \<leftarrow> modify h rover (\<lambda>e. e\<lparr>dl_prev := NULL, dl_next := list\<rparr>);
     link_prev h list rover
   }"

partial_function (option) list_partition ::
  "'v cmp_func \<Rightarrow> ptr \<Rightarrow> 'v dheap \<Rightarrow> ptr \<Rightarrow> ptr \<Rightarrow> ptr \<Rightarrow> ('v dheap \<times> ptr \<times> ptr) option" where
  "list_partition compare_func pivot h rover less_list more_list =
     (if rover = NULL then Some (h, less_list, more_list)
      else do {
        e \<leftarrow> deref h rover;
        p \<leftarrow> deref h pivot;
        if compare_func (dl_data e) (dl_data p) < 0 then do {
          h \<leftarrow> list_push h rover less_list;
          list_partition compare_func pivot h (dl_next e) rover more_list
        }
        else do {
          h \<leftarrow> list_push h rover more_list;
          list_partition compare_func pivot h (dl_next e) less_list rover
        }
      })"

text \<open>The less list, the pivot and the more list are joined: the heap and the start of the result.\<close>

definition list_join :: "'v dheap \<Rightarrow> ptr \<Rightarrow> ptr \<Rightarrow> ptr \<Rightarrow> ptr \<Rightarrow> ('v dheap \<times> ptr) option" where
  "list_join h pivot less_list less_list_end more_list = do {
     (h, list) \<leftarrow> (if less_list = NULL then do {
                     h \<leftarrow> modify h pivot (\<lambda>e. e\<lparr>dl_prev := NULL\<rparr>);
                     Some (h, pivot)
                   }
                   else do {
                     h \<leftarrow> modify h pivot (\<lambda>e. e\<lparr>dl_prev := less_list_end\<rparr>);
                     h \<leftarrow> modify h less_list_end (\<lambda>e. e\<lparr>dl_next := pivot\<rparr>);
                     Some (h, less_list)
                   });
     h \<leftarrow> modify h pivot (\<lambda>e. e\<lparr>dl_next := more_list\<rparr>);
     h \<leftarrow> link_prev h more_list pivot;
     Some (h, list)
   }"

partial_function (option) list_sort_internal ::
  "'v cmp_func \<Rightarrow> 'v dheap \<Rightarrow> ptr \<Rightarrow> (ptr \<times> 'v dheap \<times> ptr) option" where
  "list_sort_internal compare_func h list =
     (if list = NULL then Some (list, h, list)
      else do {
        e \<leftarrow> deref h list;
        if dl_next e = NULL then Some (list, h, list)
        else do {
          let pivot = list;
          (h, less_list, more_list) \<leftarrow> list_partition compare_func pivot h (dl_next e) NULL NULL;
          (less_list_end, h, less_list) \<leftarrow> list_sort_internal compare_func h less_list;
          (more_list_end, h, more_list) \<leftarrow> list_sort_internal compare_func h more_list;
          (h, list) \<leftarrow> list_join h pivot less_list less_list_end more_list;
          Some (if more_list = NULL then pivot else more_list_end, h, list)
        }
      })"

definition list_sort :: "'v dheap \<Rightarrow> ptr \<Rightarrow> 'v cmp_func \<Rightarrow> ('v dheap \<times> ptr) option" where
  "list_sort h list compare_func = map_option snd (list_sort_internal compare_func h list)"

definition list_find_data :: "'v dheap \<Rightarrow> ptr \<Rightarrow> ('v \<Rightarrow> 'v \<Rightarrow> int) \<Rightarrow> 'v \<Rightarrow> ptr option" where
  "list_find_data h list callback data = find_loop dl_next dl_data h list callback data"

definition list_iterate :: ListIterator where
  "list_iterate = iter_start"

definition list_iter_has_more :: "'v dheap \<Rightarrow> ptr \<Rightarrow> ListIterator \<Rightarrow> bool option" where
  "list_iter_has_more h list iter = iter_has_more dl_next h list iter"

definition list_iter_next :: "'v dheap \<Rightarrow> ptr \<Rightarrow> ListIterator \<Rightarrow> ('v option \<times> ListIterator) option" where
  "list_iter_next h list iter = iter_next dl_next dl_data h list iter"

definition list_iter_remove :: "'v dheap \<Rightarrow> ptr \<Rightarrow> ListIterator \<Rightarrow> ('v dheap \<times> ptr \<times> ListIterator) option" where
  "list_iter_remove h list iter =
     (if it_current iter = NULL then Some (h, list, iter)
      else do {
        p \<leftarrow> loc_read dl_next h list (it_prev_next iter);
        if it_current iter \<noteq> p then Some (h, list, iter)
        else do {
          e \<leftarrow> deref h (it_current iter);
          (h, list) \<leftarrow> loc_write set_dl_next h list (it_prev_next iter) (dl_next e);
          h \<leftarrow> link_prev h (dl_next e) (dl_prev e);
          h \<leftarrow> c_free h (it_current iter);
          Some (h, list, iter\<lparr>it_current := NULL\<rparr>)
        }
      })"

section \<open>Doubly linked segments\<close>

text \<open>\<open>dseg h pv p as q\<close>: a chain from \<open>p\<close> to \<open>q\<close> whose prev fields lead back to \<open>pv\<close>.\<close>

primrec dseg :: "'v dheap \<Rightarrow> ptr \<Rightarrow> ptr \<Rightarrow> addr list \<Rightarrow> ptr \<Rightarrow> bool" where
  "dseg h pv p [] q \<longleftrightarrow> p = q"
| "dseg h pv p (a # as) q \<longleftrightarrow> p = Some a \<and>
     (\<exists>e. h a = Some e \<and> dl_prev e = pv \<and> dseg h (Some a) (dl_next e) as q)"

abbreviation dlist :: "'v dheap \<Rightarrow> ptr \<Rightarrow> addr list \<Rightarrow> bool" where
  "dlist h p as \<equiv> dseg h None p as None"

definition last_or :: "ptr \<Rightarrow> addr list \<Rightarrow> ptr" where
  "last_or pv as = (if as = [] then pv else Some (last as))"

lemma last_or_simps [simp]: "last_or pv [] = pv" "last_or pv (as @ [a]) = Some a"
  "last_or pv (a # as) = last_or (Some a) as"
  by (simp_all add: last_or_def)

lemma dseg_chain: "dseg h pv p as q \<Longrightarrow> chain dl_next h p as q"
  by (induction as arbitrary: pv p) auto

lemma dseg_append: "dseg h pv p (as @ bs) q \<longleftrightarrow> (\<exists>r. dseg h pv p as r \<and> dseg h (last_or pv as) r bs q)"
  by (induction as arbitrary: pv p) auto

lemma dseg_cong: "(\<And>a. a \<in> set as \<Longrightarrow> h' a = h a) \<Longrightarrow> dseg h' pv p as q \<longleftrightarrow> dseg h pv p as q"
  by (induction as arbitrary: pv p) auto

lemma dseg_upd [simp]: "x \<notin> set as \<Longrightarrow> dseg (h(x := v)) pv p as q \<longleftrightarrow> dseg h pv p as q"
  by (rule dseg_cong) auto

lemma dseg_relinked: "relinked data S h h' \<Longrightarrow> set as \<inter> S = {} \<Longrightarrow> dseg h' pv p as q \<longleftrightarrow> dseg h pv p as q"
  by (rule dseg_cong) (auto simp: relinked_def)

lemma dseg_Nil_iff: "dseg h pv p as None \<Longrightarrow> p = None \<longleftrightarrow> as = []"
  by (cases as) auto

lemma dlist_distinct: "dseg h pv p as None \<Longrightarrow> distinct as"
  by (rule chain_distinct[OF dseg_chain])

interpretation dl: link_field dl_next set_dl_next dl_data
  by unfold_locales auto

lemma link_prev_ok:
  assumes "dseg h pv p as None"
  shows "\<exists>h'. link_prev h p w = Some h' \<and> dseg h' w p as None \<and> relinked dl_data (set as) h h'"
proof (cases as)
  case Nil
  then show ?thesis using assms by (simp add: link_prev_def)
next
  case (Cons a bs)
  then obtain e where e: "p = Some a" "h a = Some e" "dseg h (Some a) (dl_next e) bs None" "a \<notin> set bs"
    using assms dlist_distinct[OF assms] by auto
  then have "relinked dl_data (set as) h (h(a \<mapsto> e\<lparr>dl_prev := w\<rparr>))"
    using Cons by (intro relinked_upd) auto
  then show ?thesis using e Cons by (auto simp: link_prev_def)
qed

lemma link_next_ok:
  assumes "dseg h pv p (as @ [a]) q" "distinct (as @ [a])"
  shows "\<exists>h'. modify h (Some a) (\<lambda>e. e\<lparr>dl_next := r\<rparr>) = Some h' \<and> dseg h' pv p (as @ [a]) r \<and>
           relinked dl_data {a} h h'"
proof -
  obtain e where e: "dseg h pv p as (Some a)" "h a = Some e" "dl_prev e = last_or pv as"
    using assms(1) by (auto simp: dseg_append)
  then have "relinked dl_data {a} h (h(a \<mapsto> e\<lparr>dl_next := r\<rparr>))" by (intro relinked_upd) auto
  then show ?thesis using e assms(2) by (auto simp: dseg_append)
qed


abbreviation dvalues :: "'v dheap \<Rightarrow> addr list \<Rightarrow> 'v list" where
  "dvalues \<equiv> data_at dl_data"

lemma dl_fresh: "dlist h p as \<Longrightarrow> h m = None \<Longrightarrow> m \<notin> set as"
  using chain_in_heap[OF dseg_chain] by fastforce

lemma list_prepend_ok:
  assumes "dlist h p as" "h m = None"
  shows "\<exists>h'. list_prepend (Some m) h p v = Some (Some m, h', Some m) \<and> dlist h' (Some m) (m # as) \<and>
           dvalues h' (m # as) = v # dvalues h as \<and> (\<forall>a. a \<notin> set (m # as) \<longrightarrow> h' a = h a)"
proof -
  have m: "m \<notin> set as" using dl_fresh[OF assms] .
  obtain h1 where h1: "link_prev h p (Some m) = Some h1" "dseg h1 (Some m) p as None" "relinked dl_data (set as) h h1"
    using link_prev_ok[OF assms(1)] by blast
  have "dvalues h1 as = dvalues h as"
    using relinked_data[OF h1(3)] chain_in_heap[OF dseg_chain[OF assms(1)]] by fastforce
  then show ?thesis using h1 m by (auto simp: list_prepend_def relinked_def)
qed

lemma list_append_ok:
  assumes "dlist h p as" "h m = None"
  shows "\<exists>h' p'. list_append (Some m) h p v = Some (Some m, h', p') \<and> dlist h' p' (as @ [m]) \<and>
           dvalues h' (as @ [m]) = dvalues h as @ [v] \<and> (\<forall>a. a \<notin> set (as @ [m]) \<longrightarrow> h' a = h a)"
proof -
  have m: "m \<notin> set as" using dl_fresh[OF assms] .
  show ?thesis
  proof (cases as rule: rev_cases)
    case Nil
    then show ?thesis using assms by (simp add: list_append_def)
  next
    case (snoc bs b)
    then obtain e where e: "dseg h None p bs (Some b)" "h b = Some e" "dl_prev e = last_or None bs" "dl_next e = None"
      using assms(1) by (auto simp: dseg_append)
    have b: "b \<notin> set bs" "m \<noteq> b" "m \<notin> set bs" using snoc m dlist_distinct[OF assms(1)] by auto
    let ?h = "h(m \<mapsto> \<lparr>dl_data = v, dl_prev = None, dl_next = None\<rparr>)"
    have "chain dl_next ?h p (bs @ [b]) None" using dseg_chain[OF assms(1)] m snoc by simp
    then have f: "find_end dl_next ?h p = Some (Some b)" by (rule find_end_ok)
    let ?h' = "h(m \<mapsto> \<lparr>dl_data = v, dl_prev = Some b, dl_next = None\<rparr>, b \<mapsto> e\<lparr>dl_next := Some m\<rparr>)"
    have "list_append (Some m) h p v = Some (Some m, ?h', p)"
      using f e b snoc assms(1) dseg_Nil_iff[OF assms(1)] by (auto simp: list_append_def Let_def)
    moreover have "dlist ?h' p (as @ [m])" using e b snoc by (auto simp: dseg_append)
    ultimately show ?thesis using e b snoc by auto
  qed
qed

text \<open>
  An entry is taken out of a list: the pointer of its predecessor, or the list variable, and the prev
  field of its successor are redirected.
\<close>

lemma list_unlink_ok:
  assumes "dseg h None list pre (Some a)" "h a = Some e" "dl_prev e = last_or None pre"
    and "dseg h (Some a) (dl_next e) as None" "distinct (pre @ a # as)"
  shows "\<exists>h1 list' h'. (if dl_prev e = NULL then Some (h, dl_next e)
             else do { h \<leftarrow> modify h (dl_prev e) (\<lambda>p. p\<lparr>dl_next := dl_next e\<rparr>); Some (h, list) }) = Some (h1, list') \<and>
           link_prev h1 (dl_next e) (dl_prev e) = Some h' \<and> h' a = Some e \<and>
           dseg h' None list' pre (dl_next e) \<and> dseg h' (last_or None pre) (dl_next e) as None \<and>
           relinked dl_data (set pre \<union> set as) h h'"
proof -
  obtain h1 list' where w: "(if dl_prev e = NULL then Some (h, dl_next e)
        else do { h \<leftarrow> modify h (dl_prev e) (\<lambda>p. p\<lparr>dl_next := dl_next e\<rparr>); Some (h, list) }) = Some (h1, list')"
      "dseg h1 None list' pre (dl_next e)" "relinked dl_data (set pre) h h1"
  proof (cases pre rule: rev_cases)
    case Nil
    then show ?thesis using that[of h "dl_next e"] assms(3) by simp
  next
    case (snoc bs b)
    then obtain h1 where "modify h (Some b) (\<lambda>p. p\<lparr>dl_next := dl_next e\<rparr>) = Some h1"
        "dseg h1 None list pre (dl_next e)" "relinked dl_data {b} h h1"
      using link_next_ok[of h None list bs b "Some a" "dl_next e"] assms(1,5) by auto
    then show ?thesis using that[of h1 list] assms(3) snoc relinked_mono[of dl_data "{b}" h h1 "set pre"] by simp
  qed
  have "dseg h1 (Some a) (dl_next e) as None" using dseg_relinked[OF w(3)] assms(4,5) by (auto simp: Int_commute)
  from link_prev_ok[OF this, of "dl_prev e"] obtain h' where
    r: "link_prev h1 (dl_next e) (dl_prev e) = Some h'" "dseg h' (dl_prev e) (dl_next e) as None"
       "relinked dl_data (set as) h1 h'" by blast
  have "dseg h' None list' pre (dl_next e)" using dseg_relinked[OF r(3)] w(2) assms(5) by auto
  moreover have "h' a = Some e" using w(3) r(3) assms(2,5) by (auto simp: relinked_def)
  moreover have "relinked dl_data (set pre \<union> set as) h h'"
    by (rule relinked_trans[OF relinked_mono[OF w(3) Un_upper1] relinked_mono[OF r(3) Un_upper2]])
  moreover have "dseg h' (last_or None pre) (dl_next e) as None" using r(2) assms(3) by simp
  ultimately show ?thesis using w(1) r(1) by blast
qed

lemma dlist_split:
  assumes "dlist h p as" "x \<in> set as"
  obtains bs cs e where "as = bs @ x # cs" "dseg h None p bs (Some x)" "h x = Some e"
    "dl_prev e = last_or None bs" "dseg h (Some x) (dl_next e) cs None" "remove1 x as = bs @ cs"
proof -
  obtain bs cs where as: "as = bs @ x # cs" "x \<notin> set bs" using assms(2) by (meson split_list_first)
  then show ?thesis using that assms(1) by (auto simp: dseg_append remove1_append)
qed

lemma list_remove_entry_ok:
  assumes "dlist h p as" "x \<in> set as"
  shows "\<exists>h' p'. list_remove_entry h p (Some x) = Some (1, h', p') \<and> dlist h' p' (remove1 x as) \<and>
           relinked dl_data (set as) h h' \<and> h' x = h x"
proof -
  obtain bs cs e where s: "as = bs @ x # cs" "dseg h None p bs (Some x)" "h x = Some e"
      "dl_prev e = last_or None bs" "dseg h (Some x) (dl_next e) cs None" "remove1 x as = bs @ cs"
    by (rule dlist_split[OF assms])
  from list_unlink_ok[OF s(2-5)] dlist_distinct[OF assms(1)] s(1) obtain h1 p' h' where u:
    "(if dl_prev e = NULL then Some (h, dl_next e)
        else do { h \<leftarrow> modify h (dl_prev e) (\<lambda>p. p\<lparr>dl_next := dl_next e\<rparr>); Some (h, p) }) = Some (h1, p')"
    "link_prev h1 (dl_next e) (dl_prev e) = Some h'" "h' x = Some e"
    "dseg h' None p' bs (dl_next e)" "dseg h' (last_or None bs) (dl_next e) cs None"
    "relinked dl_data (set bs \<union> set cs) h h'" by blast
  have p: "p \<noteq> None" using dseg_Nil_iff[OF assms(1)] assms(2) by auto
  have "list_remove_entry h p (Some x) = Some (1, h', p')"
    using u(1,2) p s(3) by (auto simp: list_remove_entry_def bind_eq_Some_conv split: if_splits)
  moreover have "dlist h' p' (remove1 x as)" using u(4,5) s(6) by (auto simp: dseg_append)
  moreover have "relinked dl_data (set as) h h'" using relinked_mono[OF u(6), of "set as"] s(1) by auto
  ultimately show ?thesis using u(3) s(3) by auto
qed


text \<open>Unlinking and freeing one entry.\<close>

lemma trimmed_step:
  assumes "trimmed data h1 (pre @ as) h' (pre @ ks)" "relinked data (set pre \<union> set as) h h2"
    and "h1 = h2(a := None)" "a \<notin> set pre" "a \<notin> set as"
  shows "trimmed data h (pre @ a # as) h' (pre @ ks)"
proof -
  have d: "map_option data (h1 b) = map_option data (h b)" if "b \<noteq> a" for b
    using assms(2,3) that by (cases "b \<in> set pre \<union> set as") (auto simp: relinked_def)
  have o: "h1 b = h b" if "b \<noteq> a" "b \<notin> set (pre @ as)" for b
    using assms(2,3) that by (simp add: relinked_def)
  have t: "set (pre @ ks) \<subseteq> set (pre @ as)" "\<forall>b. b \<notin> set (pre @ as) \<longrightarrow> h' b = h1 b"
      "\<forall>b \<in> set (pre @ ks). map_option data (h' b) = map_option data (h1 b)"
      "\<forall>b \<in> set (pre @ as) - set (pre @ ks). h' b = None"
    using assms(1) unfolding trimmed_def by blast+
  have a: "a \<notin> set (pre @ as)" "h1 a = None" using assms(3-5) by auto
  have "h' b = h b" if "b \<notin> set (pre @ a # as)" for b using t(2) o[of b] that by simp
  moreover have "map_option data (h' b) = map_option data (h b)" if "b \<in> set (pre @ ks)" for b
    using t(3) d[of b] that t(1) a(1) by (metis subsetD)
  moreover have "h' b = None" if "b \<in> set (pre @ a # as)" "b \<notin> set (pre @ ks)" for b
    using t(2,4) that a by (cases "b = a") auto
  moreover have "set (pre @ ks) \<subseteq> set (pre @ a # as)" using t(1) by auto
  ultimately show ?thesis unfolding trimmed_def by blast
qed

lemma list_unlink_free_ok:
  assumes "dseg h None list pre (Some a)" "h a = Some e" "dl_prev e = last_or None pre"
    and "dseg h (Some a) (dl_next e) as None" "distinct (pre @ a # as)"
  shows "\<exists>h1 h2 list'. list_unlink_free h list (Some a) = Some (h1, list') \<and> h1 = h2(a := None) \<and>
           dseg h1 None list' pre (dl_next e) \<and> dseg h1 (last_or None pre) (dl_next e) as None \<and>
           relinked dl_data (set pre \<union> set as) h h2"
proof -
  from list_unlink_ok[OF assms] obtain h1 list' h2 where u:
    "(if dl_prev e = NULL then Some (h, dl_next e)
        else do { h \<leftarrow> modify h (dl_prev e) (\<lambda>p. p\<lparr>dl_next := dl_next e\<rparr>); Some (h, list) }) = Some (h1, list')"
    "link_prev h1 (dl_next e) (dl_prev e) = Some h2" "h2 a = Some e"
    "dseg h2 None list' pre (dl_next e)" "dseg h2 (last_or None pre) (dl_next e) as None"
    "relinked dl_data (set pre \<union> set as) h h2" by blast
  have "list_unlink_free h list (Some a) = Some (h2(a := None), list')"
    unfolding list_unlink_free_def using u(1-3) assms(2) by simp
  then show ?thesis using u(4-6) assms(5) by auto
qed

definition dmatches :: "('v \<Rightarrow> 'v \<Rightarrow> int) \<Rightarrow> 'v \<Rightarrow> 'v dheap \<Rightarrow> addr \<Rightarrow> bool" where
  "dmatches callback x h a \<longleftrightarrow> callback (dl_data (the (h a))) x \<noteq> 0"

lemma relinked_the:
  "relinked data S h h2 \<Longrightarrow> h b \<noteq> None \<Longrightarrow> data (the (h2 b)) = data (the (h b))"
  by (cases "b \<in> S"; cases "h b"; cases "h2 b") (auto simp: relinked_def)

lemma list_remove_data_loop_ok:
  assumes "dseg h None list pre p" "dseg h (last_or None pre) p as None" "distinct (pre @ as)"
    and "0 \<le> n" "n + int (length as) \<le> INT_MAX"
  shows "\<exists>h' list'. list_remove_data_loop cb x h list p n =
             Some (n + int (length (filter (dmatches cb x h) as)), h', list') \<and>
           dlist h' list' (pre @ filter (\<lambda>a. \<not> dmatches cb x h a) as) \<and>
           trimmed dl_data h (pre @ as) h' (pre @ filter (\<lambda>a. \<not> dmatches cb x h a) as)"
  using assms
proof (induction as arbitrary: h list pre p n)
  case Nil
  then show ?case by (subst list_remove_data_loop.simps) (auto simp: trimmed_def)
next
  case (Cons a as)
  then obtain e where e: "p = Some a" "h a = Some e" "dl_prev e = last_or None pre"
      "dseg h (Some a) (dl_next e) as None" by auto
  have n: "a \<notin> set pre" "a \<notin> set as" using Cons.prems(3) by auto
  show ?case
  proof (cases "dmatches cb x h a")
    case True
    obtain h1 h2 list2 where w: "list_unlink_free h list (Some a) = Some (h1, list2)" "h1 = h2(a := None)"
        "dseg h1 None list2 pre (dl_next e)" "dseg h1 (last_or None pre) (dl_next e) as None"
        "relinked dl_data (set pre \<union> set as) h h2"
      using list_unlink_free_ok[of h list pre a e as] Cons.prems(1,3) e by blast
    have m: "dmatches cb x h1 b = dmatches cb x h b" if "b \<in> set as" for b
      using relinked_the[OF w(5), of b] chain_in_heap[OF dseg_chain[OF e(4)] that] w(2) n that
      by (auto simp: dmatches_def)
    then have f: "filter (dmatches cb x h1) as = filter (dmatches cb x h) as"
        "filter (\<lambda>a. \<not> dmatches cb x h1 a) as = filter (\<lambda>a. \<not> dmatches cb x h a) as" by (auto intro: filter_cong)
    obtain h' list' where r: "list_remove_data_loop cb x h1 list2 (dl_next e) (n + 1) =
             Some (n + 1 + int (length (filter (dmatches cb x h) as)), h', list')"
        "dlist h' list' (pre @ filter (\<lambda>a. \<not> dmatches cb x h a) as)"
        "trimmed dl_data h1 (pre @ as) h' (pre @ filter (\<lambda>a. \<not> dmatches cb x h a) as)"
      using Cons.IH[OF w(3,4), of "n + 1"] Cons.prems(3-5) unfolding f by auto
    have "c_int (n + 1) = Some (n + 1)" using Cons.prems(4,5) by simp
    then have "list_remove_data_loop cb x h list p n =
        Some (n + 1 + int (length (filter (dmatches cb x h) as)), h', list')"
      using e w(1) r(1) True by (subst list_remove_data_loop.simps) (simp add: dmatches_def)
    then show ?thesis using r(2) True trimmed_step[OF r(3) w(5,2) n] by simp
  next
    case False
    have "dseg h None list (pre @ [a]) (dl_next e)" using Cons.prems(1) e by (auto simp: dseg_append)
    from Cons.IH[OF this _ _ Cons.prems(4)] e(4) Cons.prems(3,5) False obtain h' list' where
      r: "list_remove_data_loop cb x h list (dl_next e) n =
             Some (n + int (length (filter (dmatches cb x h) as)), h', list')"
        "dlist h' list' (pre @ filter (\<lambda>a. \<not> dmatches cb x h a) (a # as))"
        "trimmed dl_data h (pre @ a # as) h' (pre @ filter (\<lambda>a. \<not> dmatches cb x h a) (a # as))" by auto
    then have "list_remove_data_loop cb x h list p n =
        Some (n + int (length (filter (dmatches cb x h) (a # as))), h', list')"
      using e False by (subst list_remove_data_loop.simps) (simp add: dmatches_def)
    then show ?thesis using r(2,3) by blast
  qed
qed

section \<open>Sorting\<close>

lemma list_push_ok:
  assumes "dlist h l ls" "h a = Some e" "a \<notin> set ls"
  shows "\<exists>h'. list_push h (Some a) l = Some h' \<and> dlist h' (Some a) (a # ls) \<and>
           relinked dl_data (insert a (set ls)) h h'"
proof -
  let ?h = "h(a \<mapsto> e\<lparr>dl_prev := None, dl_next := l\<rparr>)"
  have "dlist ?h l ls" using assms by simp
  from link_prev_ok[OF this, of "Some a"] obtain h' where h': "link_prev ?h l (Some a) = Some h'"
      "dseg h' (Some a) l ls None" "relinked dl_data (set ls) ?h h'" by blast
  have "h' a = Some (e\<lparr>dl_prev := None, dl_next := l\<rparr>)" using h'(3) assms(3) by (simp add: relinked_def)
  moreover have "relinked dl_data (insert a (set ls)) h ?h" using assms(2) by (intro relinked_upd) auto
  then have "relinked dl_data (insert a (set ls)) h h'"
    using relinked_mono[OF h'(3), of "insert a (set ls)"] relinked_trans by blast
  ultimately show ?thesis using h' assms(2) by (auto simp: list_push_def)
qed

lemma list_partition_ok:
  assumes "chain dl_next h p as None" "dlist h l ls" "dlist h m ms" "distinct (as @ ls @ ms @ [v])" "h v = Some e"
  shows "\<exists>h' l' m' ls' ms'. list_partition f (Some v) h p l m = Some (h', l', m') \<and>
           dlist h' l' ls' \<and> dlist h' m' ms' \<and>
           mset ls' = mset (filter (\<lambda>a. f (dl_data (the (h a))) (dl_data e) < 0) as) + mset ls \<and>
           mset ms' = mset (filter (\<lambda>a. \<not> f (dl_data (the (h a))) (dl_data e) < 0) as) + mset ms \<and>
           relinked dl_data (set as \<union> set ls \<union> set ms) h h'"
  using assms
proof (induction as arbitrary: h p l m ls ms)
  case Nil
  then show ?case by (subst list_partition.simps) auto
next
  case (Cons a as)
  then obtain d where d: "p = Some a" "h a = Some d" "chain dl_next h (dl_next d) as None" by auto
  let ?S = "set (a # as) \<union> set ls \<union> set ms"
  let ?lt = "\<lambda>h a. f (dl_data (the (h a))) (dl_data e) < 0"
  have flt: "filter (?lt h1) as = filter (?lt h) as" "filter (\<lambda>b. \<not> ?lt h1 b) as = filter (\<lambda>b. \<not> ?lt h b) as"
    if "relinked dl_data T h h1" for h1 T
    using relinked_the[OF that] chain_in_heap[OF d(3)] by (auto intro!: filter_cong)
  show ?case
  proof (cases "?lt h a")
    case True
    obtain h1 where h1: "list_push h (Some a) l = Some h1" "dlist h1 (Some a) (a # ls)"
        "relinked dl_data (insert a (set ls)) h h1"
      using list_push_ok[OF Cons.prems(2) d(2)] Cons.prems(4) by auto
    have disj: "set as \<inter> insert a (set ls) = {}" "set ms \<inter> insert a (set ls) = {}" using Cons.prems(4) by auto
    have c: "chain dl_next h1 (dl_next d) as None" "dlist h1 (Some a) (a # ls)" "dlist h1 m ms"
        "distinct (as @ (a # ls) @ ms @ [v])" "h1 v = Some e"
      using relinked_chain[OF h1(3) disj(1)] dseg_relinked[OF h1(3) disj(2)] d(3) h1(2,3) Cons.prems(3-5)
      by (auto simp: relinked_def)
    have "list_partition f (Some v) h p l m = list_partition f (Some v) h1 (dl_next d) (Some a) m"
      using d True Cons.prems(5) h1(1) by (subst list_partition.simps) simp
    moreover obtain h' l' m' ls' ms' where "list_partition f (Some v) h1 (dl_next d) (Some a) m = Some (h', l', m')"
        "dlist h' l' ls'" "dlist h' m' ms'" "mset ls' = mset (filter (?lt h) as) + mset (a # ls)"
        "mset ms' = mset (filter (\<lambda>a. \<not> ?lt h a) as) + mset ms"
        "relinked dl_data (set as \<union> set (a # ls) \<union> set ms) h1 h'"
      using Cons.IH[OF c] unfolding flt[OF h1(3)] by blast
    moreover from this(6) have "relinked dl_data ?S h h'"
      using relinked_mono[OF h1(3), of ?S] relinked_trans by (simp add: insert_commute) blast
    ultimately show ?thesis using True by auto
  next
    case False
    obtain h1 where h1: "list_push h (Some a) m = Some h1" "dlist h1 (Some a) (a # ms)"
        "relinked dl_data (insert a (set ms)) h h1"
      using list_push_ok[OF Cons.prems(3) d(2)] Cons.prems(4) by auto
    have disj: "set as \<inter> insert a (set ms) = {}" "set ls \<inter> insert a (set ms) = {}" using Cons.prems(4) by auto
    have c: "chain dl_next h1 (dl_next d) as None" "dlist h1 l ls" "dlist h1 (Some a) (a # ms)"
        "distinct (as @ ls @ (a # ms) @ [v])" "h1 v = Some e"
      using relinked_chain[OF h1(3) disj(1)] dseg_relinked[OF h1(3) disj(2)] d(3) h1(2,3) Cons.prems(2,4,5)
      by (auto simp: relinked_def)
    have "list_partition f (Some v) h p l m = list_partition f (Some v) h1 (dl_next d) l (Some a)"
      using d False Cons.prems(5) h1(1) by (subst list_partition.simps) simp
    moreover obtain h' l' m' ls' ms' where "list_partition f (Some v) h1 (dl_next d) l (Some a) = Some (h', l', m')"
        "dlist h' l' ls'" "dlist h' m' ms'" "mset ls' = mset (filter (?lt h) as) + mset ls"
        "mset ms' = mset (filter (\<lambda>a. \<not> ?lt h a) as) + mset (a # ms)"
        "relinked dl_data (set as \<union> set ls \<union> set (a # ms)) h1 h'"
      using Cons.IH[OF c] unfolding flt[OF h1(3)] by blast
    moreover from this(6) have "relinked dl_data ?S h h'"
      using relinked_mono[OF h1(3), of ?S] relinked_trans by (simp add: insert_commute) blast
    ultimately show ?thesis using False by auto
  qed
qed

lemma list_join_ok:
  assumes "dlist h l ls" "dlist h m ms" "h v = Some e" "distinct (ls @ v # ms)"
  shows "\<exists>h' p. list_join h (Some v) l (last_ptr ls) m = Some (h', p) \<and> dlist h' p (ls @ v # ms) \<and>
           relinked dl_data (set (ls @ v # ms)) h h'"
proof -
  let ?S = "set (ls @ v # ms)"
  let ?e = "e\<lparr>dl_prev := last_or None ls, dl_next := m\<rparr>"
  have n: "v \<notin> set ls" "v \<notin> set ms" "set ls \<inter> set ms = {}" using assms(4) by auto
  obtain h1 p where w: "(if l = NULL then do { h \<leftarrow> modify h (Some v) (\<lambda>e. e\<lparr>dl_prev := NULL\<rparr>); Some (h, Some v) }
        else do { h \<leftarrow> modify h (Some v) (\<lambda>e. e\<lparr>dl_prev := last_ptr ls\<rparr>);
                  h \<leftarrow> modify h (last_ptr ls) (\<lambda>e. e\<lparr>dl_next := Some v\<rparr>); Some (h, l) }) = Some (h1, p)"
      "dseg h1 None p ls (Some v)" "h1 v = Some (e\<lparr>dl_prev := last_or None ls\<rparr>)" "relinked dl_data (insert v (set ls)) h h1"
  proof (cases ls rule: rev_cases)
    case Nil
    then show ?thesis using that[of "h(v \<mapsto> e\<lparr>dl_prev := NULL\<rparr>)" "Some v"] assms(1,3)
      relinked_upd[of h v e dl_data "e\<lparr>dl_prev := NULL\<rparr>" "{v}"] by simp
  next
    case (snoc bs b)
    let ?h = "h(v \<mapsto> e\<lparr>dl_prev := Some b\<rparr>)"
    have "dseg ?h None l (bs @ [b]) None" "distinct (bs @ [b])" using assms(1,4) snoc n by auto
    from link_next_ok[OF this, of "Some v"] obtain h1 where h1: "modify ?h (Some b) (\<lambda>e. e\<lparr>dl_next := Some v\<rparr>) = Some h1"
        "dseg h1 None l (bs @ [b]) (Some v)" "relinked dl_data {b} ?h h1" by blast
    have "relinked dl_data (insert v (set ls)) h ?h" using assms(3) by (intro relinked_upd) auto
    then have r: "relinked dl_data (insert v (set ls)) h h1"
      using relinked_trans relinked_mono[OF h1(3), of "insert v (set ls)"] snoc by fastforce
    have "h1 v = Some (e\<lparr>dl_prev := Some b\<rparr>)" using h1(3) n snoc by (auto simp: relinked_def)
    then show ?thesis using that[of h1 l] h1(1,2) r snoc assms(3) dseg_Nil_iff[OF assms(1)] by auto
  qed
  have "dlist (h1(v \<mapsto> ?e)) m ms" using dseg_relinked[OF w(4), of ms] assms(2) n by (auto simp: Int_commute)
  from link_prev_ok[OF this, of "Some v"] obtain h' where h': "link_prev (h1(v \<mapsto> ?e)) m (Some v) = Some h'"
      "dseg h' (Some v) m ms None" "relinked dl_data (set ms) (h1(v \<mapsto> ?e)) h'" by blast
  have "list_join h (Some v) l (last_ptr ls) m = Some (h', p)"
    unfolding list_join_def using w(1,3) h'(1) by simp
  moreover have "dseg (h1(v \<mapsto> ?e)) None p ls (Some v)" using w(2) n by simp
  then have "dseg h' None p ls (Some v)" using dseg_relinked[OF h'(3) n(3)] by blast
  then have "dlist h' p (ls @ v # ms)" using h'(2,3) n(2) by (auto simp: dseg_append relinked_def)
  moreover have "relinked dl_data ?S h (h1(v \<mapsto> ?e))"
    using relinked_trans[OF relinked_mono[OF w(4), of ?S] relinked_upd[of h1 v _ dl_data ?e ?S, OF w(3)]] by auto
  then have "relinked dl_data ?S h h'" using relinked_trans relinked_mono[OF h'(3), of ?S] by fastforce
  ultimately show ?thesis by blast
qed

lemma list_partition_start:
  assumes "chain dl_next h p as None" "distinct (v # as)" "h v = Some e"
  shows "\<exists>h' l m ls ms. list_partition f (Some v) h p NULL NULL = Some (h', l, m) \<and> dlist h' l ls \<and> dlist h' m ms \<and>
           mset ls = mset (filter (\<lambda>a. f (dl_data (the (h a))) (dl_data e) < 0) as) \<and>
           mset ms = mset (filter (\<lambda>a. \<not> f (dl_data (the (h a))) (dl_data e) < 0) as) \<and>
           relinked dl_data (set as) h h'"
  using list_partition_ok[OF assms(1), of None "[]" None "[]" v e f] assms(2,3) by fastforce

interpretation dls: linked_sort dl_next dl_data dlist list_partition list_join list_sort_internal
proof
  show "chain dl_next h p as None" if "dlist h p as" for h :: "'v dheap" and p as using dseg_chain[OF that] .
  show "dlist h' p as \<longleftrightarrow> dlist h p as" if "relinked dl_data S h h'" "set as \<inter> S = {}" for S h and h' :: "'v dheap" and as p
    using dseg_relinked[OF that] .
qed (rule list_partition_start list_join_ok list_sort_internal.simps[unfolded Let_def]; assumption)+

section \<open>Iterators\<close>

text \<open>The location of the iterator is the one that the prev pointer of the current entry names.\<close>

lemma loc_write_last_or:
  "loc_write set_dl_next h list (loc_after pre) q =
     (if last_or None pre = NULL then Some (h, q)
      else do { h \<leftarrow> modify h (last_or None pre) (\<lambda>p. p\<lparr>dl_next := q\<rparr>); Some (h, list) })"
  by (simp add: loc_write_def loc_after_def last_or_def)

lemma list_iter_remove_ok:
  assumes "iter_at dl_next h list it (pre @ [a]) todo" "it_current it = Some a" "dlist h list (pre @ a # todo)"
  shows "\<exists>h' list' it'. list_iter_remove h list it = Some (h', list', it') \<and> iter_at dl_next h' list' it' pre todo \<and>
           dlist h' list' (pre @ todo) \<and> trimmed dl_data h (pre @ a # todo) h' (pre @ todo)"
proof -
  have d: "distinct (pre @ a # todo)" using dlist_distinct[OF assms(3)] .
  obtain e where e: "dseg h None list pre (Some a)" "h a = Some e" "dl_prev e = last_or None pre"
      "dseg h (Some a) (dl_next e) todo None" using assms(3) by (auto simp: dseg_append)
  from list_unlink_ok[OF e d] obtain h1 list' h2 where u:
    "loc_write set_dl_next h list (loc_after pre) (dl_next e) = Some (h1, list')"
    "link_prev h1 (dl_next e) (dl_prev e) = Some h2" "h2 a = Some e"
    "dseg h2 None list' pre (dl_next e)" "dseg h2 (last_or None pre) (dl_next e) todo None"
    "relinked dl_data (set pre \<union> set todo) h h2" unfolding loc_write_last_or e(3) by blast
  let ?h = "h2(a := None)"
  have l: "it_prev_next it = loc_after pre" using assms(1,2) by (simp add: iter_at_def)
  have "loc_read dl_next h list (loc_after pre) = Some (Some a)" using loc_read_ok[OF dseg_chain[OF e(1)]] .
  then have "list_iter_remove h list it = Some (?h, list', it\<lparr>it_current := None\<rparr>)"
    using assms(2) l e(2) u(1-3) by (simp add: list_iter_remove_def)
  moreover have s: "dseg ?h None list' pre (dl_next e)" "dseg ?h (last_or None pre) (dl_next e) todo None"
    using u(4,5) d by auto
  moreover have "iter_at dl_next ?h list' (it\<lparr>it_current := None\<rparr>) pre todo"
    using dseg_chain[OF s(1)] dseg_chain[OF s(2)] l by (auto simp: iter_at_def)
  moreover have "dlist ?h list' (pre @ todo)" using s by (auto simp: dseg_append)
  moreover have "trimmed dl_data h (pre @ a # todo) ?h (pre @ todo)"
    using trimmed_step[OF trimmed_refl u(6) refl, of a] d by auto
  ultimately show ?thesis by blast
qed

abbreviation list_iter_filter :: "('v \<Rightarrow> bool) \<Rightarrow> 'v dheap \<Rightarrow> ptr \<Rightarrow> ListIterator \<Rightarrow> ('v dheap \<times> ptr) option" where
  "list_iter_filter \<equiv> iter_filter list_iter_has_more list_iter_next list_iter_remove"

lemma list_iter_generic: "list_iter_has_more = iter_has_more dl_next" "list_iter_next = iter_next dl_next dl_data"
  by (auto simp: fun_eq_iff list_iter_has_more_def list_iter_next_def)

interpretation dli: linked_iter dl_next dl_data dlist list_iter_remove
  by unfold_locales (rule list_iter_remove_ok)

section \<open>Properties\<close>

text \<open>list_append and list_prepend add one entry at the end or the start of the list with all next
  and prev pointers in place, return its address and leave the data of every other entry and the rest
  of the heap alone; when malloc fails they return NULL and change nothing.\<close>

theorem list_insert_spec:
  assumes "dlist h p as" "h m = None"
  shows "(\<exists>h' p'. list_append (Some m) h p v = Some (Some m, h', p') \<and> dlist h' p' (as @ [m]) \<and>
            dvalues h' (as @ [m]) = dvalues h as @ [v] \<and> (\<forall>a. a \<notin> set (as @ [m]) \<longrightarrow> h' a = h a)) \<and>
         (\<exists>h' p'. list_prepend (Some m) h p v = Some (Some m, h', p') \<and> dlist h' p' (m # as) \<and>
            dvalues h' (m # as) = v # dvalues h as \<and> (\<forall>a. a \<notin> set (m # as) \<longrightarrow> h' a = h a)) \<and>
         list_append None h p v = Some (None, h, p) \<and> list_prepend None h p v = Some (None, h, p)"
  using list_append_ok[OF assms, of v] list_prepend_ok[OF assms, of v]
  by (auto simp: list_append_def list_prepend_def)

definition three_dheap :: "int dheap" where
  "three_dheap = [1 \<mapsto> \<lparr>dl_data = 7, dl_prev = None, dl_next = Some 2\<rparr>,
                  2 \<mapsto> \<lparr>dl_data = 3, dl_prev = Some 1, dl_next = Some 4\<rparr>,
                  4 \<mapsto> \<lparr>dl_data = 5, dl_prev = Some 2, dl_next = None\<rparr>]"

lemma three_dheap_list: "dlist three_dheap (Some 1) [1, 2, 4]"
  by (simp add: three_dheap_def)

theorem list_insert_spec_witness:
  "\<exists>h' p'. list_append (Some 6) three_dheap (Some 1) 9 = Some (Some 6, h', p') \<and> dvalues h' [1, 2, 4, 6] = [7, 3, 5, 9]"
proof -
  have "three_dheap 6 = None" "dvalues three_dheap [1, 2, 4] = [7, 3, 5]" by (simp_all add: three_dheap_def)
  then show ?thesis using list_insert_spec[OF three_dheap_list, of 6 9] by auto
qed

text \<open>list_remove_data removes and frees exactly the entries whose data the callback matches, keeps the
  order, the data and the double links of the others and returns the number removed.\<close>

theorem list_remove_data_spec:
  assumes "dlist h p as" "int (length as) \<le> INT_MAX"
  shows "\<exists>h' p'. list_remove_data h p cb d = Some (int (length (filter (dmatches cb d h) as)), h', p') \<and>
           dlist h' p' (filter (\<lambda>a. \<not> dmatches cb d h a) as) \<and>
           trimmed dl_data h as h' (filter (\<lambda>a. \<not> dmatches cb d h a) as)"
  using list_remove_data_loop_ok[of h p "[]" p as 0 cb d] assms dlist_distinct[OF assms(1)]
  by (simp add: list_remove_data_def)

theorem list_remove_data_spec_witness:
  "\<exists>h' p'. list_remove_data three_dheap (Some 1) int_equal 3 = Some (1, h', p') \<and> dlist h' p' [1, 4] \<and> h' 2 = None"
proof -
  have "filter (dmatches int_equal 3 three_dheap) [1, 2, 4] = [2]"
      "filter (\<lambda>a. \<not> dmatches int_equal 3 three_dheap a) [1, 2, 4] = [1, 4]"
    by (simp_all add: dmatches_def three_dheap_def int_equal_def)
  moreover have "int (length [1::addr, 2, 4]) \<le> INT_MAX" by (simp add: c_int_bounds)
  ultimately obtain h' p' where "list_remove_data three_dheap (Some 1) int_equal 3 = Some (1, h', p')"
      "dlist h' p' [1, 4]" "trimmed dl_data three_dheap [1, 2, 4] h' [1, 4]"
    using list_remove_data_spec[OF three_dheap_list, of int_equal 3] by auto
  moreover from this(3) have "h' 2 = None" by (simp add: trimmed_def)
  ultimately show ?thesis by blast
qed

text \<open>list_remove_entry takes an entry of the list out of it and returns 1, all other entries staying
  linked in order; the removed entry itself is never freed, it stays allocated with its old links.\<close>

theorem list_remove_entry_spec:
  assumes "dlist h p as" "x \<in> set as"
  shows "\<exists>h' p'. list_remove_entry h p (Some x) = Some (1, h', p') \<and> dlist h' p' (remove1 x as) \<and>
           dvalues h' as = dvalues h as \<and> h' x = h x \<and> h' x \<noteq> None"
  using list_remove_entry_ok[OF assms] relinked_data chain_in_heap[OF dseg_chain[OF assms(1)]] assms(2)
  by (metis option.distinct(1))

theorem list_remove_entry_spec_witness:
  "\<exists>h' p'. list_remove_entry three_dheap (Some 1) (Some 1) = Some (1, h', p') \<and> dlist h' p' [2, 4] \<and> h' 1 \<noteq> None"
  using list_remove_entry_spec[OF three_dheap_list, of 1] by auto

text \<open>list_sort terminates and leaves a doubly linked list of the same entries, each with its data, in
  ascending order of a total preorder, without touching the rest of the heap.\<close>

theorem list_sort_spec:
  assumes "comparator f" "dlist h p as"
  shows "\<exists>h' p' as'. list_sort h p f = Some (h', p') \<and> dlist h' p' as' \<and> mset as' = mset as \<and>
           sorted_wrt (\<lambda>x y. f x y \<le> 0) (dvalues h' as') \<and> mset (dvalues h' as') = mset (dvalues h as) \<and>
           (\<forall>a. a \<notin> set as \<longrightarrow> h' a = h a)"
  using dls.srt_spec[OF assms] by (fastforce simp: list_sort_def)

theorem list_sort_spec_witness:
  "\<exists>h' p' as'. list_sort three_dheap (Some 1) int_compare = Some (h', p') \<and> dlist h' p' as' \<and> mset as' = {#1, 2, 4#}"
  using list_sort_spec[OF int_cmp.comparator_axioms three_dheap_list] by fastforce

text \<open>An iterator visits the entries of a doubly linked list in order, also when the current entry is
  removed through it: a loop that removes the values with some property leaves exactly the other
  entries, doubly linked, freeing the removed ones.\<close>

theorem list_iterator_spec:
  assumes "dlist h p as"
  shows "\<exists>h' p'. list_iter_filter P h p list_iterate = Some (h', p') \<and>
           dlist h' p' (filter (\<lambda>a. \<not> P (dl_data (the (h a)))) as) \<and>
           trimmed dl_data h as h' (filter (\<lambda>a. \<not> P (dl_data (the (h a)))) as)"
  unfolding list_iterate_def list_iter_generic by (rule dli.iter_filter_start[OF assms])

theorem list_iterator_spec_witness:
  "\<exists>h' p'. list_iter_filter (\<lambda>v. v = 3) three_dheap (Some 1) list_iterate = Some (h', p') \<and> dlist h' p' [1, 4]"
proof -
  have "filter (\<lambda>a. \<not> dl_data (the (three_dheap a)) = 3) [1, 2, 4] = [1, 4]" by (simp add: three_dheap_def)
  then show ?thesis using list_iterator_spec[OF three_dheap_list, of "\<lambda>v. v = 3"] by auto
qed

text \<open>list_nth_entry, list_nth_data, list_length, list_to_array, list_find_data and list_free compute the
  n-th entry and its data, the number of entries, the array of the data, the first entry that matches,
  and free every entry once.\<close>

theorem list_queries_spec:
  assumes "dlist h p as" "int (length as) \<le> INT_MAX"
  shows "list_nth_entry h p n = Some (if 0 \<le> n \<and> nat n < length as then Some (as ! nat n) else None) \<and>
         list_nth_data h p n = Some (if 0 \<le> n \<and> nat n < length as then Some (dvalues h as ! nat n) else None) \<and>
         list_length h p = Some (int (length as)) \<and>
         list_to_array True h p = Some (Some (map Some (dvalues h as))) \<and>
         list_find_data h p cb d = Some (find (dmatches cb d h) as) \<and>
         list_free h p = Some (\<lambda>a. if a \<in> set as then None else h a)"
proof -
  note c = dseg_chain[OF assms(1)]
  have l: "list_length h p = Some (int (length as))"
    using length_loop_ok[OF c, of 0] assms(2) by (simp add: list_length_def)
  have n: "list_nth_entry h p n = Some (if 0 \<le> n \<and> nat n < length as then Some (as ! nat n) else None)"
    using nth_loop_ok[OF c, of 0 n] by (simp add: list_nth_entry_def)
  moreover have "\<exists>e. h (as ! nat n) = Some e" if "nat n < length as" using chain_in_heap[OF c] that by simp
  then have "list_nth_data h p n = Some (if 0 \<le> n \<and> nat n < length as then Some (dvalues h as ! nat n) else None)"
    using n by (auto simp: list_nth_data_def data_at_def)
  moreover have "list_to_array True h p = Some (Some (map Some (dvalues h as)))"
    using array_loop_ok[OF c, of _ "[]" dl_data] l by (simp add: list_to_array_def)
  moreover have "dmatches cb d h = (\<lambda>a. cb (dl_data (the (h a))) d \<noteq> 0)" by (simp add: dmatches_def fun_eq_iff)
  ultimately show ?thesis using l find_loop_ok[OF c] free_loop_ok[OF c]
    by (simp add: list_find_data_def list_free_def)
qed

theorem list_queries_spec_witness:
  "list_nth_data three_dheap (Some 1) 1 = Some (Some 3) \<and> list_length three_dheap (Some 1) = Some 3"
proof -
  have "dvalues three_dheap [1, 2, 4] = [7, 3, 5]" by (simp add: three_dheap_def)
  then show ?thesis using list_queries_spec[OF three_dheap_list, of 1 int_equal 0] by (simp add: c_int_bounds)
qed

end
