(* ===== verification/Queue.thy ===== *)
theory Queue
  imports DList Interfaces
begin

text \<open>
  \<open>src/src/comm/queue.c\<close>, a double-ended queue, on an explicit heap of its entries, which have the
  same three fields as the entries of \<open>list.c\<close>. The Queue struct is passed and returned by value.
  The pointer returned by malloc is the argument \<open>m\<close>; QUEUE_NULL is \<open>None\<close>.
\<close>

type_synonym 'v QueueEntry = "'v ListEntry"

type_synonym 'v qheap = "'v QueueEntry heap"

record Queue =
  q_head :: ptr
  q_tail :: ptr

definition queue_new :: "bool \<Rightarrow> Queue option" where
  "queue_new m = (if m then Some \<lparr>q_head = NULL, q_tail = NULL\<rparr> else None)"

definition queue_is_empty :: "Queue \<Rightarrow> bool" where
  "queue_is_empty queue \<longleftrightarrow> q_head queue = NULL"

definition queue_push_head :: "ptr \<Rightarrow> 'v qheap \<Rightarrow> Queue \<Rightarrow> 'v \<Rightarrow> (bool \<times> 'v qheap \<times> Queue) option" where
  "queue_push_head m h queue data =
     (case m of
        None \<Rightarrow> Some (False, h, queue)
      | Some a \<Rightarrow> let h = h(a \<mapsto> \<lparr>dl_data = data, dl_prev = NULL, dl_next = q_head queue\<rparr>) in
          if q_head queue = NULL then Some (True, h, queue\<lparr>q_head := m, q_tail := m\<rparr>)
          else do {
            h \<leftarrow> modify h (q_head queue) (\<lambda>e. e\<lparr>dl_prev := m\<rparr>);
            Some (True, h, queue\<lparr>q_head := m\<rparr>)
          })"

definition queue_pop_head :: "'v qheap \<Rightarrow> Queue \<Rightarrow> ('v option \<times> 'v qheap \<times> Queue) option" where
  "queue_pop_head h queue =
     (if queue_is_empty queue then Some (None, h, queue)
      else do {
        let entry = q_head queue;
        e \<leftarrow> deref h entry;
        let queue = queue\<lparr>q_head := dl_next e\<rparr>;
        (h, queue) \<leftarrow> (if q_head queue = NULL then Some (h, queue\<lparr>q_tail := NULL\<rparr>)
          else do { h \<leftarrow> modify h (q_head queue) (\<lambda>e. e\<lparr>dl_prev := NULL\<rparr>); Some (h, queue) });
        h \<leftarrow> c_free h entry;
        Some (Some (dl_data e), h, queue)
      })"

definition queue_peek_head :: "'v qheap \<Rightarrow> Queue \<Rightarrow> 'v option option" where
  "queue_peek_head h queue =
     (if queue_is_empty queue then Some None
      else do { e \<leftarrow> deref h (q_head queue); Some (Some (dl_data e)) })"

definition queue_push_tail :: "ptr \<Rightarrow> 'v qheap \<Rightarrow> Queue \<Rightarrow> 'v \<Rightarrow> (bool \<times> 'v qheap \<times> Queue) option" where
  "queue_push_tail m h queue data =
     (case m of
        None \<Rightarrow> Some (False, h, queue)
      | Some a \<Rightarrow> let h = h(a \<mapsto> \<lparr>dl_data = data, dl_prev = q_tail queue, dl_next = NULL\<rparr>) in
          if q_tail queue = NULL then Some (True, h, queue\<lparr>q_head := m, q_tail := m\<rparr>)
          else do {
            h \<leftarrow> modify h (q_tail queue) (\<lambda>e. e\<lparr>dl_next := m\<rparr>);
            Some (True, h, queue\<lparr>q_tail := m\<rparr>)
          })"

definition queue_pop_tail :: "'v qheap \<Rightarrow> Queue \<Rightarrow> ('v option \<times> 'v qheap \<times> Queue) option" where
  "queue_pop_tail h queue =
     (if queue_is_empty queue then Some (None, h, queue)
      else do {
        let entry = q_tail queue;
        e \<leftarrow> deref h entry;
        let queue = queue\<lparr>q_tail := dl_prev e\<rparr>;
        (h, queue) \<leftarrow> (if q_tail queue = NULL then Some (h, queue\<lparr>q_head := NULL\<rparr>)
          else do { h \<leftarrow> modify h (q_tail queue) (\<lambda>e. e\<lparr>dl_next := NULL\<rparr>); Some (h, queue) });
        h \<leftarrow> c_free h entry;
        Some (Some (dl_data e), h, queue)
      })"

definition queue_peek_tail :: "'v qheap \<Rightarrow> Queue \<Rightarrow> 'v option option" where
  "queue_peek_tail h queue =
     (if queue_is_empty queue then Some None
      else do { e \<leftarrow> deref h (q_tail queue); Some (Some (dl_data e)) })"

text \<open>queue_free: the heap after all entries are popped; the Queue struct itself is then freed.\<close>

partial_function (option) queue_free :: "'v qheap \<Rightarrow> Queue \<Rightarrow> 'v qheap option" where
  "queue_free h queue =
     (if \<not> queue_is_empty queue then do {
        (r, h, queue) \<leftarrow> queue_pop_head h queue;
        queue_free h queue
      }
      else Some h)"

section \<open>Queues in the heap\<close>

text \<open>The entries at \<open>as\<close> are doubly linked from the head to the tail.\<close>

definition queue_at :: "'v qheap \<Rightarrow> Queue \<Rightarrow> addr list \<Rightarrow> bool" where
  "queue_at h q as \<longleftrightarrow> dlist h (q_head q) as \<and> q_tail q = last_or None as"

lemma queue_at_empty: "queue_at h q as \<Longrightarrow> queue_is_empty q \<longleftrightarrow> as = []"
  using dseg_Nil_iff by (auto simp: queue_at_def queue_is_empty_def)

lemma queue_push_head_ok:
  assumes "queue_at h q as" "h m = None"
  shows "\<exists>h' q'. queue_push_head (Some m) h q v = Some (True, h', q') \<and> queue_at h' q' (m # as) \<and>
           dvalues h' (m # as) = v # dvalues h as \<and> (\<forall>a. a \<notin> set (m # as) \<longrightarrow> h' a = h a)"
proof (cases as)
  case Nil
  then show ?thesis using assms by (simp add: queue_at_def queue_push_head_def)
next
  case (Cons b bs)
  have m: "m \<notin> set as" using dl_fresh assms by (auto simp: queue_at_def)
  obtain e where e: "q_head q = Some b" "h b = Some e" "dseg h (Some b) (dl_next e) bs None" "b \<notin> set bs"
    using assms(1) Cons dlist_distinct[of h None "q_head q" as] by (auto simp: queue_at_def)
  let ?h = "h(m \<mapsto> \<lparr>dl_data = v, dl_prev = None, dl_next = Some b\<rparr>, b \<mapsto> e\<lparr>dl_prev := Some m\<rparr>)"
  have "queue_push_head (Some m) h q v = Some (True, ?h, q\<lparr>q_head := Some m\<rparr>)"
    using e m Cons by (simp add: queue_push_head_def)
  moreover have "queue_at ?h (q\<lparr>q_head := Some m\<rparr>) (m # as)" using assms(1) e m Cons by (auto simp: queue_at_def)
  ultimately show ?thesis using e m Cons by auto
qed

lemma queue_push_tail_ok:
  assumes "queue_at h q as" "h m = None"
  shows "\<exists>h' q'. queue_push_tail (Some m) h q v = Some (True, h', q') \<and> queue_at h' q' (as @ [m]) \<and>
           dvalues h' (as @ [m]) = dvalues h as @ [v] \<and> (\<forall>a. a \<notin> set (as @ [m]) \<longrightarrow> h' a = h a)"
proof (cases as rule: rev_cases)
  case Nil
  then show ?thesis using assms by (simp add: queue_at_def queue_push_tail_def)
next
  case (snoc bs b)
  have m: "m \<notin> set as" using dl_fresh assms by (auto simp: queue_at_def)
  obtain e where e: "dseg h None (q_head q) bs (Some b)" "h b = Some e" "dl_prev e = last_or None bs" "b \<notin> set bs"
    using assms(1) snoc dlist_distinct[of h None "q_head q" as] by (auto simp: queue_at_def dseg_append)
  let ?h = "h(m \<mapsto> \<lparr>dl_data = v, dl_prev = Some b, dl_next = None\<rparr>, b \<mapsto> e\<lparr>dl_next := Some m\<rparr>)"
  have "queue_push_tail (Some m) h q v = Some (True, ?h, q\<lparr>q_tail := Some m\<rparr>)"
    using e m snoc assms(1) by (simp add: queue_push_tail_def queue_at_def)
  moreover have "queue_at ?h (q\<lparr>q_tail := Some m\<rparr>) (as @ [m])" using e m snoc
    by (auto simp: queue_at_def dseg_append last_or_def)
  ultimately show ?thesis using e m snoc by auto
qed

lemma queue_pop_head_ok:
  assumes "queue_at h q (a # as)"
  shows "\<exists>h' q'. queue_pop_head h q = Some (Some (dl_data (the (h a))), h', q') \<and> queue_at h' q' as \<and>
           trimmed dl_data h (a # as) h' as"
proof -
  obtain e where e: "q_head q = Some a" "h a = Some e" "dseg h (Some a) (dl_next e) as None" "a \<notin> set as"
      "q_tail q = last_or (Some a) as"
    using assms dlist_distinct[of h None "q_head q" "a # as"] by (auto simp: queue_at_def)
  obtain h1 where h1: "link_prev h (dl_next e) NULL = Some h1" "dseg h1 None (dl_next e) as None" "relinked dl_data (set as) h h1"
    using link_prev_ok[OF e(3)] by blast
  have h1a: "h1 a = Some e" using h1(3) e(2,4) by (simp add: relinked_def)
  let ?q = "if as = [] then q\<lparr>q_head := NULL, q_tail := NULL\<rparr> else q\<lparr>q_head := dl_next e\<rparr>"
  have "queue_pop_head h q = Some (Some (dl_data e), h1(a := None), ?q)"
    using e h1(1) h1a dseg_Nil_iff[OF e(3)] by (auto simp: queue_pop_head_def queue_is_empty_def link_prev_def Let_def)
  moreover have "queue_at (h1(a := None)) ?q as" using e h1(2) by (auto simp: queue_at_def last_or_def)
  moreover have "trimmed dl_data h (a # as) (h1(a := None)) as" using h1(3) e(4) by (auto simp: trimmed_def relinked_def)
  ultimately show ?thesis using e(2) by auto
qed

lemma queue_pop_tail_ok:
  assumes "queue_at h q (as @ [a])"
  shows "\<exists>h' q'. queue_pop_tail h q = Some (Some (dl_data (the (h a))), h', q') \<and> queue_at h' q' as \<and>
           trimmed dl_data h (as @ [a]) h' as"
proof -
  obtain e where e: "dseg h None (q_head q) as (Some a)" "h a = Some e" "dl_prev e = last_or None as" "dl_next e = None"
      "distinct (as @ [a])" "q_tail q = Some a" "\<not> queue_is_empty q"
    using assms dlist_distinct[of h None "q_head q" "as @ [a]"] queue_at_empty[OF assms] by (auto simp: queue_at_def dseg_append)
  show ?thesis
  proof (cases as rule: rev_cases)
    case Nil
    then show ?thesis using e by (auto simp: queue_pop_tail_def queue_at_def trimmed_def Let_def)
  next
    case (snoc bs b)
    then obtain h1 where h1: "modify h (Some b) (\<lambda>e. e\<lparr>dl_next := NULL\<rparr>) = Some h1" "dlist h1 (q_head q) as" "relinked dl_data {b} h h1"
      using link_next_ok[of h None "q_head q" bs b "Some a" NULL] e(1,5) by auto
    have h1a: "h1 a = Some e" using h1(3) e(2,5) snoc by (auto simp: relinked_def)
    have "queue_pop_tail h q = Some (Some (dl_data e), h1(a := None), q\<lparr>q_tail := Some b\<rparr>)"
      using e h1(1) h1a snoc by (simp add: queue_pop_tail_def Let_def)
    moreover have "queue_at (h1(a := None)) (q\<lparr>q_tail := Some b\<rparr>) as" using e h1(2) snoc by (auto simp: queue_at_def)
    moreover have "relinked dl_data (set as) h h1" using relinked_mono[OF h1(3), of "set as"] snoc by simp
    then have "trimmed dl_data h (as @ [a]) (h1(a := None)) as" using e(5) by (auto simp: trimmed_def relinked_def)
    ultimately show ?thesis using e(2) by auto
  qed
qed

lemma queue_peek_ok:
  assumes "queue_at h q as"
  shows "queue_peek_head h q = Some (if as = [] then None else Some (hd (dvalues h as)))"
    and "queue_peek_tail h q = Some (if as = [] then None else Some (last (dvalues h as)))"
proof -
  show "queue_peek_head h q = Some (if as = [] then None else Some (hd (dvalues h as)))"
    using assms queue_at_empty[OF assms] by (cases as) (auto simp: queue_peek_head_def queue_at_def)
  show "queue_peek_tail h q = Some (if as = [] then None else Some (last (dvalues h as)))"
    using assms queue_at_empty[OF assms] by (cases as rule: rev_cases) (auto simp: queue_peek_tail_def queue_at_def dseg_append)
qed

lemma queue_free_ok:
  "queue_at h q as \<Longrightarrow> \<exists>h'. queue_free h q = Some h' \<and> (\<forall>a. h' a = (if a \<in> set as then None else h a))"
proof (induction as arbitrary: h q)
  case Nil
  then show ?case using queue_at_empty[OF Nil] by (subst queue_free.simps) auto
next
  case (Cons a as)
  obtain h1 q1 where p: "queue_pop_head h q = Some (Some (dl_data (the (h a))), h1, q1)" "queue_at h1 q1 as"
      "trimmed dl_data h (a # as) h1 as" using queue_pop_head_ok[OF Cons.prems] by blast
  obtain h' where h': "queue_free h1 q1 = Some h'" "\<forall>a. h' a = (if a \<in> set as then None else h1 a)"
    using Cons.IH[OF p(2)] by blast
  have "queue_free h q = Some h'" using queue_at_empty[OF Cons.prems] p(1) h'(1) by (subst queue_free.simps) simp
  then show ?case using h'(2) p(3) by (auto simp: trimmed_def)
qed

section \<open>Refinement of the deque\<close>

text \<open>One operation on a queue, as the specification numbers them.\<close>

fun queue_step :: "ptr \<Rightarrow> 'v qheap \<times> Queue \<Rightarrow> 'v deque_op \<Rightarrow> ('v deque_out \<times> 'v qheap \<times> Queue) option" where
  "queue_step m (h, q) (Push_head v) = do { (r, s) \<leftarrow> queue_push_head m h q v; Some (Success r, s) }"
| "queue_step m (h, q) (Push_tail v) = do { (r, s) \<leftarrow> queue_push_tail m h q v; Some (Success r, s) }"
| "queue_step m (h, q) Pop_head = do { (r, s) \<leftarrow> queue_pop_head h q; Some (Value r, s) }"
| "queue_step m (h, q) Pop_tail = do { (r, s) \<leftarrow> queue_pop_tail h q; Some (Value r, s) }"
| "queue_step m (h, q) Peek_head = do { r \<leftarrow> queue_peek_head h q; Some (Value r, h, q) }"
| "queue_step m (h, q) Peek_tail = do { r \<leftarrow> queue_peek_tail h q; Some (Value r, h, q) }"

definition queue_repr :: "'v qheap \<times> Queue \<Rightarrow> 'v list \<Rightarrow> bool" where
  "queue_repr s xs \<longleftrightarrow> (\<exists>as. queue_at (fst s) (snd s) as \<and> dvalues (fst s) as = xs)"

definition unused_addr :: "'v qheap \<times> Queue \<Rightarrow> addr \<Rightarrow> bool" where
  "unused_addr s a \<longleftrightarrow> fst s a = None"

lemma queue_at_alloc: "queue_at h q as \<Longrightarrow> a \<in> set as \<Longrightarrow> h a \<noteq> None"
  using chain_in_heap[OF dseg_chain] by (fastforce simp: queue_at_def)

lemma queue_repr_trimmed:
  assumes "queue_at h' q' bs" "trimmed dl_data h as h' bs" "\<And>a. a \<in> set bs \<Longrightarrow> h a \<noteq> None"
  shows "queue_repr (h', q') (dvalues h bs)"
  using assms(1) trimmed_data[OF assms(2,3)] by (auto simp: queue_repr_def)

lemma queue_reprI: "queue_at h q as \<Longrightarrow> dvalues h as = xs \<Longrightarrow> queue_repr (h, q) xs"
  by (auto simp: queue_repr_def)

lemma queue_push_refines:
  assumes "queue_at h q as" "\<And>a. m = Some a \<Longrightarrow> h a = None"
  shows "\<exists>h' q'. queue_push_head m h q v = Some (m \<noteq> NULL, h', q') \<and>
           queue_repr (h', q') (if m \<noteq> NULL then v # dvalues h as else dvalues h as)"
    and "\<exists>h' q'. queue_push_tail m h q v = Some (m \<noteq> NULL, h', q') \<and>
           queue_repr (h', q') (if m \<noteq> NULL then dvalues h as @ [v] else dvalues h as)"
proof -
  show "\<exists>h' q'. queue_push_head m h q v = Some (m \<noteq> NULL, h', q') \<and>
           queue_repr (h', q') (if m \<noteq> NULL then v # dvalues h as else dvalues h as)"
    using queue_push_head_ok[OF assms(1) assms(2), of _ v] queue_reprI queue_reprI[OF assms(1)]
    by (cases m) (simp add: queue_push_head_def, fastforce)
  show "\<exists>h' q'. queue_push_tail m h q v = Some (m \<noteq> NULL, h', q') \<and>
           queue_repr (h', q') (if m \<noteq> NULL then dvalues h as @ [v] else dvalues h as)"
    using queue_push_tail_ok[OF assms(1) assms(2), of _ v] queue_reprI queue_reprI[OF assms(1)]
    by (cases m) (simp add: queue_push_tail_def, fastforce)
qed

lemma queue_pop_refines:
  assumes "queue_at h q as"
  shows "\<exists>h' q'. queue_pop_head h q = Some (if as = [] then None else Some (hd (dvalues h as)), h', q') \<and>
           queue_repr (h', q') (tl (dvalues h as))"
    and "\<exists>h' q'. queue_pop_tail h q = Some (if as = [] then None else Some (last (dvalues h as)), h', q') \<and>
           queue_repr (h', q') (butlast (dvalues h as))"
proof -
  have empty: "queue_pop_head h q = Some (None, h, q) \<and> queue_pop_tail h q = Some (None, h, q) \<and> queue_repr (h, q) []"
    if "as = []" using that assms queue_at_empty[OF assms]
    by (auto simp: queue_pop_head_def queue_pop_tail_def intro: queue_reprI)
  show "\<exists>h' q'. queue_pop_head h q = Some (if as = [] then None else Some (hd (dvalues h as)), h', q') \<and>
           queue_repr (h', q') (tl (dvalues h as))"
  proof (cases as)
    case (Cons b bs)
    then obtain h' q' where r: "queue_pop_head h q = Some (Some (dl_data (the (h b))), h', q')" "queue_at h' q' bs"
        "trimmed dl_data h (b # bs) h' bs" using queue_pop_head_ok[of h q b bs] assms by blast
    show ?thesis using r(1) queue_repr_trimmed[OF r(2,3)] queue_at_alloc[OF assms] Cons by simp
  qed (use empty in simp)
  show "\<exists>h' q'. queue_pop_tail h q = Some (if as = [] then None else Some (last (dvalues h as)), h', q') \<and>
           queue_repr (h', q') (butlast (dvalues h as))"
  proof (cases as rule: rev_cases)
    case (snoc bs b)
    then obtain h' q' where r: "queue_pop_tail h q = Some (Some (dl_data (the (h b))), h', q')" "queue_at h' q' bs"
        "trimmed dl_data h (bs @ [b]) h' bs" using queue_pop_tail_ok[of h q bs b] assms by blast
    show ?thesis using r(1) queue_repr_trimmed[OF r(2,3)] queue_at_alloc[OF assms] snoc by simp
  qed (use empty in simp)
qed

lemma queue_step_ok:
  assumes "queue_at h q as" "\<And>a. m = Some a \<Longrightarrow> h a = None"
  shows "\<exists>s'. queue_step m (h, q) op = Some (fst (deque_next (m \<noteq> NULL) (dvalues h as) op), s') \<and>
           queue_repr s' (snd (deque_next (m \<noteq> NULL) (dvalues h as) op))"
proof (cases op)
  case (Push_head v)
  then show ?thesis using queue_push_refines(1)[OF assms, of m v] by auto
next
  case (Push_tail v)
  then show ?thesis using queue_push_refines(2)[OF assms, of m v] by auto
next
  case Pop_head
  then show ?thesis using queue_pop_refines(1)[OF assms(1)] by (auto simp: data_at_def)
next
  case Pop_tail
  then show ?thesis using queue_pop_refines(2)[OF assms(1)] by (auto simp: data_at_def)
qed (use queue_peek_ok[OF assms(1)] queue_reprI[OF assms(1) refl] in \<open>auto simp: data_at_def\<close>)

interpretation dq: deque queue_repr queue_step unused_addr
proof
  fix s :: "'v qheap \<times> Queue" and xs m op
  assume a: "queue_repr s xs" "\<And>a. m = Some a \<Longrightarrow> unused_addr s a"
  then obtain as where "queue_at (fst s) (snd s) as" "dvalues (fst s) as = xs" by (auto simp: queue_repr_def)
  from queue_step_ok[OF this(1), of m op] a(2) this(2)
  show "\<exists>s'. queue_step m s op = Some (fst (deque_next (m \<noteq> NULL) xs op), s') \<and>
      queue_repr s' (snd (deque_next (m \<noteq> NULL) xs op))" by (auto simp: unused_addr_def)
qed

section \<open>Properties\<close>

text \<open>C33: The queue refines the double-ended queue of lists: from a new queue every sequence of pushes,
  pops and peeks at both ends succeeds and returns exactly the values and the success flags of the
  specification, whatever pushes fail for lack of memory; malloc is any function that returns NULL or
  an address that is not in use.\<close>

theorem queue_refines_deque:
  assumes "\<And>s a. malloc s = Some a \<Longrightarrow> unused_addr s a" "queue_new True = Some q"
  shows "\<exists>outs s'. run_ops queue_step malloc (h, q) ops = Some (outs, s') \<and> length outs = length ops \<and>
           map fst outs = fst (deque_run [] (zip (map snd outs) ops)) \<and>
           queue_repr s' (snd (deque_run [] (zip (map snd outs) ops)))"
proof (rule dq.run_ops_refines)
  show "queue_repr (h, q) []" using assms(2) by (intro queue_reprI[of h q "[]"]) (auto simp: queue_new_def queue_at_def)
qed (rule assms(1))

text \<open>An allocator with two cells, which fails when both are in use.\<close>

definition two_cells :: "'v qheap \<times> Queue \<Rightarrow> ptr" where
  "two_cells s = (if fst s 1 = None then Some 1 else if fst s 2 = None then Some 2 else None)"

theorem queue_refines_deque_witness:
  "\<exists>outs s'. run_ops queue_step two_cells (Map.empty, \<lparr>q_head = NULL, q_tail = NULL\<rparr>)
      [Push_tail (7::int), Push_head 8, Pop_tail] = Some (outs, s') \<and> length outs = 3"
proof -
  have a: "two_cells s = Some a \<Longrightarrow> unused_addr s a" for s :: "int qheap \<times> Queue" and a
    by (auto simp: two_cells_def unused_addr_def split: if_splits)
  have "queue_new True = Some \<lparr>q_head = NULL, q_tail = NULL\<rparr>" by (simp add: queue_new_def)
  from queue_refines_deque[of two_cells, OF a this, of Map.empty "[Push_tail 7, Push_head 8, Pop_tail]"]
  obtain outs s' where "run_ops queue_step two_cells (Map.empty, \<lparr>q_head = NULL, q_tail = NULL\<rparr>)
      [Push_tail (7::int), Push_head 8, Pop_tail] = Some (outs, s')"
      "length outs = length [Push_tail (7::int), Push_head 8, Pop_tail]" by blast
  then show ?thesis by (metis length_Cons list.size(3) numeral_3_eq_3)
qed

text \<open>On a queue with the entries \<open>as\<close>: pushing at an end adds the new entry there, popping returns the
  value at the end and frees just its entry, all others keep their data and links in both directions;
  queue_free frees every entry once and touches nothing else.\<close>

theorem queue_entries_spec:
  assumes "queue_at h q (a # as @ [b])" "h m = None"
  shows "(\<exists>h' q'. queue_push_head (Some m) h q v = Some (True, h', q') \<and> queue_at h' q' (m # a # as @ [b])) \<and>
         (\<exists>h' q'. queue_push_tail (Some m) h q v = Some (True, h', q') \<and> queue_at h' q' (a # as @ [b, m])) \<and>
         (\<exists>h' q'. queue_pop_head h q = Some (Some (dl_data (the (h a))), h', q') \<and> queue_at h' q' (as @ [b]) \<and>
            trimmed dl_data h (a # as @ [b]) h' (as @ [b])) \<and>
         (\<exists>h' q'. queue_pop_tail h q = Some (Some (dl_data (the (h b))), h', q') \<and> queue_at h' q' (a # as) \<and>
            trimmed dl_data h (a # as @ [b]) h' (a # as)) \<and>
         (\<exists>h'. queue_free h q = Some h' \<and> (\<forall>x. h' x = (if x \<in> set (a # as @ [b]) then None else h x)))"
  using queue_push_head_ok[OF assms, of v] queue_push_tail_ok[OF assms, of v] queue_pop_head_ok[OF assms(1)]
    queue_pop_tail_ok[of h q "a # as" b] queue_free_ok[OF assms(1)] assms(1) by fastforce

theorem queue_entries_spec_witness:
  "\<exists>h' q'. queue_pop_tail three_dheap \<lparr>q_head = Some 1, q_tail = Some 4\<rparr> = Some (Some 5, h', q') \<and> queue_at h' q' [1, 2]"
proof -
  have "queue_at three_dheap \<lparr>q_head = Some 1, q_tail = Some 4\<rparr> (1 # [2] @ [4])" "three_dheap 9 = None"
      "dl_data (the (three_dheap 4)) = 5"
    by (simp_all add: queue_at_def three_dheap_def)
  then show ?thesis using queue_entries_spec[of three_dheap "\<lparr>q_head = Some 1, q_tail = Some 4\<rparr>" 1 "[2]" 4 9 0] by auto
qed

end
