(* ===== verification/AVL_Shape.thy ===== *)
theory AVL_Shape
  imports Compare
begin

text \<open>
  The trees that \<open>avl-tree.c\<close> keeps in the heap, as values: every node with its address, key, value
  and stored height. A node of a tree together with the way up to the root is a subtree and a list of
  frames, the innermost first. The functions of this theory are what the pointer operations compute.
\<close>

datatype AVLTreeNodeSide = AVL_TREE_NODE_LEFT | AVL_TREE_NODE_RIGHT

text \<open>\<open>1-direction\<close>.\<close>

fun other :: "AVLTreeNodeSide \<Rightarrow> AVLTreeNodeSide" where
  "other AVL_TREE_NODE_LEFT = AVL_TREE_NODE_RIGHT"
| "other AVL_TREE_NODE_RIGHT = AVL_TREE_NODE_LEFT"

datatype ('k, 'v) atree = Tip | Bin addr 'k 'v int "('k, 'v) atree" "('k, 'v) atree"

datatype ('k, 'v) frame = Frame AVLTreeNodeSide addr 'k 'v int "('k, 'v) atree"

primrec ht :: "('k, 'v) atree \<Rightarrow> int" where
  "ht Tip = 0"
| "ht (Bin a k v n l r) = n"

primrec nodes :: "('k, 'v) atree \<Rightarrow> (addr \<times> 'k \<times> 'v) list" where
  "nodes Tip = []"
| "nodes (Bin a k v n l r) = nodes l @ (a, k, v) # nodes r"

fun child :: "AVLTreeNodeSide \<Rightarrow> ('k, 'v) atree \<Rightarrow> ('k, 'v) atree" where
  "child s Tip = Tip"
| "child AVL_TREE_NODE_LEFT (Bin a k v n l r) = l"
| "child AVL_TREE_NODE_RIGHT (Bin a k v n l r) = r"

fun fill :: "('k, 'v) frame \<Rightarrow> ('k, 'v) atree \<Rightarrow> ('k, 'v) atree" where
  "fill (Frame AVL_TREE_NODE_LEFT a k v n sib) t = Bin a k v n t sib"
| "fill (Frame AVL_TREE_NODE_RIGHT a k v n sib) t = Bin a k v n sib t"

primrec plug :: "('k, 'v) atree \<Rightarrow> ('k, 'v) frame list \<Rightarrow> ('k, 'v) atree" where
  "plug t [] = t"
| "plug t (f # fs) = plug (fill f t) fs"

text \<open>The nodes before and after the hole of the frames.\<close>

fun before :: "('k, 'v) frame list \<Rightarrow> (addr \<times> 'k \<times> 'v) list" where
  "before [] = []"
| "before (Frame AVL_TREE_NODE_LEFT a k v n sib # fs) = before fs"
| "before (Frame AVL_TREE_NODE_RIGHT a k v n sib # fs) = before fs @ nodes sib @ [(a, k, v)]"

fun after :: "('k, 'v) frame list \<Rightarrow> (addr \<times> 'k \<times> 'v) list" where
  "after [] = []"
| "after (Frame AVL_TREE_NODE_LEFT a k v n sib # fs) = (a, k, v) # nodes sib @ after fs"
| "after (Frame AVL_TREE_NODE_RIGHT a k v n sib # fs) = after fs"

lemma plug_append [simp]: "plug t (fs @ gs) = plug (plug t fs) gs"
  by (induction fs arbitrary: t) auto

lemma nodes_fill: "nodes (fill f t) = before [f] @ nodes t @ after [f]"
  by (cases "(f, t)" rule: fill.cases) auto

lemma before_Cons: "before (f # fs) = before fs @ before [f]" and after_Cons: "after (f # fs) = after [f] @ after fs"
  for f :: "('a, 'b) frame"
  by (cases "(f, Tip :: ('a, 'b) atree)" rule: fill.cases; simp)+

lemma nodes_plug: "nodes (plug t fs) = before fs @ nodes t @ after fs"
proof (induction fs arbitrary: t)
  case (Cons f fs)
  then show ?case by (simp add: nodes_fill before_Cons[of f fs] after_Cons[of f fs])
qed simp

lemma before_append: "before (fs @ gs) = before gs @ before fs"
proof (induction fs)
  case (Cons f fs)
  then show ?case by (simp add: before_Cons[of f "fs @ gs"] before_Cons[of f fs])
qed simp

lemma after_append: "after (fs @ gs) = after fs @ after gs"
proof (induction fs)
  case (Cons f fs)
  then show ?case by (simp add: after_Cons[of f "fs @ gs"] after_Cons[of f fs])
qed simp

section \<open>Balance\<close>

primrec avl :: "('k, 'v) atree \<Rightarrow> bool" where
  "avl Tip \<longleftrightarrow> True"
| "avl (Bin a k v n l r) \<longleftrightarrow> avl l \<and> avl r \<and> \<bar>ht l - ht r\<bar> \<le> 1 \<and> n = 1 + max (ht l) (ht r)"

definition join :: "addr \<Rightarrow> 'k \<Rightarrow> 'v \<Rightarrow> ('k, 'v) atree \<Rightarrow> ('k, 'v) atree \<Rightarrow> ('k, 'v) atree" where
  "join a k v l r = Bin a k v (1 + max (ht l) (ht r)) l r"

text \<open>The tree that \<open>avl_tree_node_balance\<close> makes of a tree; the stored height of its root plays no role.\<close>

fun rebalance :: "('k, 'v) atree \<Rightarrow> ('k, 'v) atree" where
  "rebalance Tip = Tip"
| "rebalance (Bin a k v n l r) =
     (if ht r - ht l \<ge> 2 then
        case r of Tip \<Rightarrow> Tip | Bin b kb vb nb rl rr \<Rightarrow>
          if ht rr < ht rl then
            case rl of Tip \<Rightarrow> Tip | Bin c kc vc nc x y \<Rightarrow> join c kc vc (join a k v l x) (join b kb vb y rr)
          else join b kb vb (join a k v l rl) rr
      else if ht r - ht l \<le> - 2 then
        case l of Tip \<Rightarrow> Tip | Bin b kb vb nb ll lr \<Rightarrow>
          if ht ll < ht lr then
            case lr of Tip \<Rightarrow> Tip | Bin c kc vc nc x y \<Rightarrow> join c kc vc (join b kb vb ll x) (join a k v y r)
          else join b kb vb ll (join a k v lr r)
      else join a k v l r)"

primrec climb :: "('k, 'v) atree \<Rightarrow> ('k, 'v) frame list \<Rightarrow> ('k, 'v) atree" where
  "climb t [] = rebalance t"
| "climb t (f # fs) = climb (fill f (rebalance t)) fs"

text \<open>\<open>climb_from t fs\<close>: the hole is filled with \<open>t\<close> and all nodes above it are rebalanced.\<close>

fun climb_from :: "('k, 'v) atree \<Rightarrow> ('k, 'v) frame list \<Rightarrow> ('k, 'v) atree" where
  "climb_from t [] = t"
| "climb_from t (f # fs) = climb (fill f t) fs"

lemma ht_nonneg: "avl t \<Longrightarrow> 0 \<le> ht t"
  by (induction t) auto

lemma ht_Tip_iff: "avl t \<Longrightarrow> ht t = 0 \<longleftrightarrow> t = Tip"
proof (cases t)
  case (Bin a k v n l r)
  assume "avl t"
  then show ?thesis using Bin ht_nonneg[of l] by auto
qed simp

lemma avl_pos: "avl t \<Longrightarrow> 0 < ht t \<Longrightarrow> \<exists>a k v n l r. t = Bin a k v n l r"
  by (cases t) auto

text \<open>What is known of a tree before it is rebalanced.\<close>

fun nearly_avl :: "('k, 'v) atree \<Rightarrow> bool" where
  "nearly_avl Tip \<longleftrightarrow> False"
| "nearly_avl (Bin a k v n l r) \<longleftrightarrow> avl l \<and> avl r \<and> \<bar>ht l - ht r\<bar> \<le> 2"

lemma ht_join [simp]: "ht (join a k v l r) = 1 + max (ht l) (ht r)"
  by (simp add: join_def)

lemma avl_join [simp]: "avl (join a k v l r) \<longleftrightarrow> avl l \<and> avl r \<and> \<bar>ht l - ht r\<bar> \<le> 1"
  by (simp add: join_def)

lemma nodes_join [simp]: "nodes (join a k v l r) = nodes l @ (a, k, v) # nodes r"
  by (simp add: join_def)

lemma rebalance_right:
  assumes "avl l" "avl r" "ht r = ht l + 2"
  shows "avl (rebalance (Bin a k v n l r))" "ht (rebalance (Bin a k v n l r)) \<in> {ht r, ht r + 1}"
    "nodes (rebalance (Bin a k v n l r)) = nodes l @ (a, k, v) # nodes r"
proof -
  obtain b kb vb nb rl rr where r: "r = Bin b kb vb nb rl rr" using avl_pos[OF assms(2)] assms(3) ht_nonneg[OF assms(1)] by auto
  have h: "avl rl" "avl rr" "\<bar>ht rl - ht rr\<bar> \<le> 1" "ht r = 1 + max (ht rl) (ht rr)" using assms(2) r by auto
  have "avl (rebalance (Bin a k v n l r)) \<and> ht (rebalance (Bin a k v n l r)) \<in> {ht r, ht r + 1} \<and>
      nodes (rebalance (Bin a k v n l r)) = nodes l @ (a, k, v) # nodes r"
  proof (cases "ht rr < ht rl")
    case True
    then obtain c kc vc nc x y where "rl = Bin c kc vc nc x y" using avl_pos[OF h(1)] ht_nonneg[OF h(2)] by auto
    then show ?thesis using True assms r h by auto
  next
    case False
    then show ?thesis using assms r h by auto
  qed
  then show "avl (rebalance (Bin a k v n l r))" "ht (rebalance (Bin a k v n l r)) \<in> {ht r, ht r + 1}"
    "nodes (rebalance (Bin a k v n l r)) = nodes l @ (a, k, v) # nodes r" by blast+
qed

lemma rebalance_left:
  assumes "avl l" "avl r" "ht l = ht r + 2"
  shows "avl (rebalance (Bin a k v n l r))" "ht (rebalance (Bin a k v n l r)) \<in> {ht l, ht l + 1}"
    "nodes (rebalance (Bin a k v n l r)) = nodes l @ (a, k, v) # nodes r"
proof -
  obtain b kb vb nb ll lr where l: "l = Bin b kb vb nb ll lr" using avl_pos[OF assms(1)] assms(3) ht_nonneg[OF assms(2)] by auto
  have h: "avl ll" "avl lr" "\<bar>ht ll - ht lr\<bar> \<le> 1" "ht l = 1 + max (ht ll) (ht lr)" using assms(1) l by auto
  have "avl (rebalance (Bin a k v n l r)) \<and> ht (rebalance (Bin a k v n l r)) \<in> {ht l, ht l + 1} \<and>
      nodes (rebalance (Bin a k v n l r)) = nodes l @ (a, k, v) # nodes r"
  proof (cases "ht ll < ht lr")
    case True
    then obtain c kc vc nc x y where "lr = Bin c kc vc nc x y" using avl_pos[OF h(2)] ht_nonneg[OF h(1)] by auto
    then show ?thesis using True assms l h by auto
  next
    case False
    then show ?thesis using assms l h by auto
  qed
  then show "avl (rebalance (Bin a k v n l r))" "ht (rebalance (Bin a k v n l r)) \<in> {ht l, ht l + 1}"
    "nodes (rebalance (Bin a k v n l r)) = nodes l @ (a, k, v) # nodes r" by blast+
qed

lemma rebalance_ok:
  assumes "nearly_avl (Bin a k v n l r)"
  shows "avl (rebalance (Bin a k v n l r))"
    and "nodes (rebalance (Bin a k v n l r)) = nodes l @ (a, k, v) # nodes r"
    and "\<bar>ht l - ht r\<bar> \<le> 1 \<Longrightarrow> ht (rebalance (Bin a k v n l r)) = 1 + max (ht l) (ht r)"
    and "ht (rebalance (Bin a k v n l r)) \<in> {max (ht l) (ht r), 1 + max (ht l) (ht r)}"
proof -
  have h: "avl l" "avl r" using assms by auto
  consider "ht r = ht l + 2" | "ht l = ht r + 2" | "\<bar>ht l - ht r\<bar> \<le> 1" using assms by fastforce
  then have "avl (rebalance (Bin a k v n l r)) \<and> nodes (rebalance (Bin a k v n l r)) = nodes l @ (a, k, v) # nodes r \<and>
      (\<bar>ht l - ht r\<bar> \<le> 1 \<longrightarrow> ht (rebalance (Bin a k v n l r)) = 1 + max (ht l) (ht r)) \<and>
      ht (rebalance (Bin a k v n l r)) \<in> {max (ht l) (ht r), 1 + max (ht l) (ht r)}"
  proof cases
    case 1
    then show ?thesis using rebalance_right[OF h 1, of a k v n] by auto
  next
    case 2
    then show ?thesis using rebalance_left[OF h 2, of a k v n] by auto
  next
    case 3
    then have "\<not> 2 \<le> ht r - ht l" "\<not> ht r - ht l \<le> - 2" by auto
    then have "rebalance (Bin a k v n l r) = join a k v l r" by simp
    then show ?thesis using h 3 by simp
  qed
  then show "avl (rebalance (Bin a k v n l r))" "nodes (rebalance (Bin a k v n l r)) = nodes l @ (a, k, v) # nodes r"
    "\<bar>ht l - ht r\<bar> \<le> 1 \<Longrightarrow> ht (rebalance (Bin a k v n l r)) = 1 + max (ht l) (ht r)"
    "ht (rebalance (Bin a k v n l r)) \<in> {max (ht l) (ht r), 1 + max (ht l) (ht r)}" by blast+
qed

declare rebalance.simps(2) [simp del]

lemma avl_rebalance: "nearly_avl t \<Longrightarrow> avl (rebalance t)"
  by (cases t) (auto intro!: rebalance_ok(1))

lemma nodes_rebalance: "nearly_avl t \<Longrightarrow> nodes (rebalance t) = nodes t"
  by (cases t) (auto intro!: rebalance_ok(2))

text \<open>The frames of a balanced tree whose hole held a tree of height \<open>n\<close>.\<close>

fun frames_ok :: "int \<Rightarrow> ('k, 'v) frame list \<Rightarrow> bool" where
  "frames_ok n [] \<longleftrightarrow> True"
| "frames_ok n (Frame s a k v m sib # fs) \<longleftrightarrow>
     avl sib \<and> \<bar>ht sib - n\<bar> \<le> 1 \<and> frames_ok (1 + max n (ht sib)) fs"

lemma avl_fill: "avl (fill (Frame s a k v m sib) t) \<longleftrightarrow> avl t \<and> avl sib \<and> \<bar>ht sib - ht t\<bar> \<le> 1 \<and> m = 1 + max (ht t) (ht sib)"
  by (cases s) auto

lemma ht_fill: "ht (fill (Frame s a k v m sib) t) = m"
  by (cases s) auto

lemma avl_plug: "avl (plug t fs) \<Longrightarrow> avl t \<and> frames_ok (ht t) fs"
proof (induction fs arbitrary: t)
  case (Cons f fs)
  obtain s a k v m sib where f: "f = Frame s a k v m sib" by (cases f)
  then show ?case using Cons.IH[of "fill f t"] Cons.prems by (auto simp: avl_fill ht_fill)
qed simp

lemma fill_step:
  assumes "avl t" "\<bar>ht t - n\<bar> \<le> 1" "avl sib" "\<bar>ht sib - n\<bar> \<le> 1"
  shows "nearly_avl (fill (Frame s a k v m sib) t)"
    and "avl (rebalance (fill (Frame s a k v m sib) t))"
    and "\<bar>ht (rebalance (fill (Frame s a k v m sib) t)) - (1 + max n (ht sib))\<bar> \<le> 1"
proof -
  let ?t = "fill (Frame s a k v m sib) t"
  show n: "nearly_avl ?t" using assms by (cases s) auto
  show "avl (rebalance ?t)" using avl_rebalance[OF n] .
  have "ht (rebalance ?t) \<in> {max (ht t) (ht sib), 1 + max (ht t) (ht sib)} \<and>
      (\<bar>ht t - ht sib\<bar> \<le> 1 \<longrightarrow> ht (rebalance ?t) = 1 + max (ht t) (ht sib))"
  proof (cases s)
    case AVL_TREE_NODE_LEFT
    then show ?thesis using rebalance_ok(3,4)[of a k v m t sib] n by auto
  next
    case AVL_TREE_NODE_RIGHT
    then show ?thesis using rebalance_ok(3,4)[of a k v m sib t] n by auto
  qed
  then show "\<bar>ht (rebalance ?t) - (1 + max n (ht sib))\<bar> \<le> 1" using assms(2,4) by auto
qed

lemma avl_climb:
  "avl (rebalance t) \<Longrightarrow> \<bar>ht (rebalance t) - n\<bar> \<le> 1 \<Longrightarrow> frames_ok n fs \<Longrightarrow> avl (climb t fs)"
proof (induction fs arbitrary: t n)
  case (Cons f fs)
  obtain s a k v m sib where f: "f = Frame s a k v m sib" by (cases f)
  then show ?case using Cons.IH[of "fill f (rebalance t)" "1 + max n (ht sib)"]
      fill_step(2,3)[of "rebalance t" n sib s a k v m] Cons.prems by simp
qed simp

lemma nodes_climb:
  "nodes (rebalance t) = nodes t \<Longrightarrow> avl (rebalance t) \<Longrightarrow> \<bar>ht (rebalance t) - n\<bar> \<le> 1 \<Longrightarrow> frames_ok n fs \<Longrightarrow>
   nodes (climb t fs) = nodes (plug t fs)"
proof (induction fs arbitrary: t n)
  case (Cons f fs)
  obtain s a k v m sib where f: "f = Frame s a k v m sib" by (cases f)
  have n: "nearly_avl (fill f (rebalance t))" "avl (rebalance (fill f (rebalance t)))"
      "\<bar>ht (rebalance (fill f (rebalance t))) - (1 + max n (ht sib))\<bar> \<le> 1"
    using fill_step[of "rebalance t" n sib s a k v m] Cons.prems f by auto
  have "nodes (rebalance (fill f (rebalance t))) = nodes (fill f (rebalance t))"
    using nodes_rebalance[OF n(1)] .
  then have "nodes (climb (fill f (rebalance t)) fs) = nodes (plug (fill f (rebalance t)) fs)"
    using Cons.IH n(2,3) Cons.prems(4) f by auto
  then show ?case using Cons.prems(1) by (simp add: nodes_plug nodes_fill)
qed simp

lemma climb_from_ok:
  assumes "avl t" "\<bar>ht t - n\<bar> \<le> 1" "frames_ok n fs"
  shows "avl (climb_from t fs)" "nodes (climb_from t fs) = nodes (plug t fs)"
proof -
  have "avl (climb_from t fs) \<and> nodes (climb_from t fs) = nodes (plug t fs)"
  proof (cases fs)
    case (Cons f gs)
    obtain s a k v m sib where f: "f = Frame s a k v m sib" by (cases f)
    have n: "nearly_avl (fill f t)" "avl (rebalance (fill f t))" "\<bar>ht (rebalance (fill f t)) - (1 + max n (ht sib))\<bar> \<le> 1"
      using fill_step[of t n sib s a k v m] assms Cons f by auto
    have "nodes (rebalance (fill f t)) = nodes (fill f t)" using nodes_rebalance[OF n(1)] .
    then show ?thesis using Cons f n avl_climb nodes_climb assms(3) by auto
  qed (use assms in simp)
  then show "avl (climb_from t fs)" "nodes (climb_from t fs) = nodes (plug t fs)" by auto
qed

section \<open>Search\<close>

abbreviation key_of :: "addr \<times> 'k \<times> 'v \<Rightarrow> 'k" where
  "key_of x \<equiv> fst (snd x)"

definition ordered :: "'k cmp_func \<Rightarrow> (addr \<times> 'k \<times> 'v) list \<Rightarrow> bool" where
  "ordered cmp = sorted_wrt (\<lambda>x y. cmp (key_of x) (key_of y) \<le> 0)"

lemma ordered_append: "ordered cmp (xs @ ys) \<longleftrightarrow> ordered cmp xs \<and> ordered cmp ys \<and>
    (\<forall>x \<in> set xs. \<forall>y \<in> set ys. cmp (key_of x) (key_of y) \<le> 0)"
  by (simp add: ordered_def sorted_wrt_append)

lemma ordered_simps [simp]: "ordered cmp []"
  "ordered cmp (x # ys) \<longleftrightarrow> (\<forall>y \<in> set ys. cmp (key_of x) (key_of y) \<le> 0) \<and> ordered cmp ys"
  by (simp_all add: ordered_def)

text \<open>The frames above the place where a new key is inserted.\<close>

fun descend :: "'k cmp_func \<Rightarrow> 'k \<Rightarrow> ('k, 'v) atree \<Rightarrow> ('k, 'v) frame list \<Rightarrow> ('k, 'v) frame list" where
  "descend cmp key Tip fs = fs"
| "descend cmp key (Bin a k v n l r) fs =
     (if cmp key k < 0 then descend cmp key l (Frame AVL_TREE_NODE_LEFT a k v n r # fs)
      else descend cmp key r (Frame AVL_TREE_NODE_RIGHT a k v n l # fs))"

lemma plug_descend: "plug Tip (descend cmp key t fs) = plug t fs"
  by (induction t arbitrary: fs) auto

definition splits_at :: "'k cmp_func \<Rightarrow> 'k \<Rightarrow> (addr \<times> 'k \<times> 'v) list \<Rightarrow> (addr \<times> 'k \<times> 'v) list \<Rightarrow> bool" where
  "splits_at cmp key xs ys \<longleftrightarrow> (\<forall>x \<in> set xs. cmp (key_of x) key \<le> 0) \<and> (\<forall>y \<in> set ys. cmp key (key_of y) < 0)"

lemma descend_splits:
  assumes "comparator cmp" "ordered cmp (nodes t)" "splits_at cmp key (before fs) (after fs)"
  shows "splits_at cmp key (before (descend cmp key t fs)) (after (descend cmp key t fs))"
  using assms(2,3)
proof (induction t arbitrary: fs)
  case (Bin a k v n l r)
  have o: "ordered cmp (nodes l)" "ordered cmp (nodes r)" "\<forall>x \<in> set (nodes l). cmp (key_of x) k \<le> 0"
      "\<forall>y \<in> set (nodes r). cmp k (key_of y) \<le> 0"
    using Bin.prems(1) by (auto simp: ordered_append)
  show ?case
  proof (cases "cmp key k < 0")
    case True
    then have "\<forall>y \<in> set (nodes r). cmp key (key_of y) < 0" using comparator.cmp_less_trans1[OF assms(1)] o(4) by blast
    then have "splits_at cmp key (before (Frame AVL_TREE_NODE_LEFT a k v n r # fs)) (after (Frame AVL_TREE_NODE_LEFT a k v n r # fs))"
      using Bin.prems(2) True unfolding splits_at_def by auto
    from Bin.IH(1)[OF o(1) this] show ?thesis using True by simp
  next
    case False
    then have "cmp k key \<le> 0" using comparator.cmp_not_less[OF assms(1)] by blast
    then have "\<forall>x \<in> set (nodes l). cmp (key_of x) key \<le> 0" using comparator.cmp_trans[OF assms(1)] o(3) by blast
    then have "splits_at cmp key (before (Frame AVL_TREE_NODE_RIGHT a k v n l # fs)) (after (Frame AVL_TREE_NODE_RIGHT a k v n l # fs))"
      using Bin.prems(2) \<open>cmp k key \<le> 0\<close> unfolding splits_at_def by auto
    from Bin.IH(2)[OF o(2) this] show ?thesis using False by simp
  qed
qed simp

text \<open>The node that a lookup reaches, with the frames above it.\<close>

fun find_node :: "'k cmp_func \<Rightarrow> 'k \<Rightarrow> ('k, 'v) atree \<Rightarrow> ('k, 'v) frame list \<Rightarrow> (('k, 'v) atree \<times> ('k, 'v) frame list) option" where
  "find_node cmp key Tip fs = None"
| "find_node cmp key (Bin a k v n l r) fs =
     (if cmp key k = 0 then Some (Bin a k v n l r, fs)
      else if cmp key k < 0 then find_node cmp key l (Frame AVL_TREE_NODE_LEFT a k v n r # fs)
      else find_node cmp key r (Frame AVL_TREE_NODE_RIGHT a k v n l # fs))"

lemma find_node_Some:
  "find_node cmp key t fs = Some (u, gs) \<Longrightarrow> plug u gs = plug t fs \<and> (\<exists>a k v n l r. u = Bin a k v n l r \<and> cmp key k = 0)"
  by (induction t arbitrary: fs) (auto split: if_splits)

lemma find_node_None:
  assumes "comparator cmp" "ordered cmp (nodes t)" "find_node cmp key t fs = None"
  shows "\<forall>x \<in> set (nodes t). cmp key (key_of x) \<noteq> 0"
  using assms(2,3)
proof (induction t arbitrary: fs)
  case (Bin a k v n l r)
  have o: "ordered cmp (nodes l)" "ordered cmp (nodes r)" "\<forall>x \<in> set (nodes l). cmp (key_of x) k \<le> 0"
      "\<forall>y \<in> set (nodes r). cmp k (key_of y) \<le> 0"
    using Bin.prems(1) by (auto simp: ordered_append)
  show ?case
  proof (cases "cmp key k < 0")
    case True
    then have "\<forall>y \<in> set (nodes r). cmp key (key_of y) < 0" using comparator.cmp_less_trans1[OF assms(1)] o(4) by blast
    then show ?thesis using Bin.IH(1)[OF o(1)] Bin.prems(2) True by (auto split: if_splits)
  next
    case False
    then have "cmp k key < 0" using Bin.prems(2) comparator.cmp_swap[OF assms(1), of k key] by (auto split: if_splits)
    then have "\<forall>x \<in> set (nodes l). cmp (key_of x) key < 0" using comparator.cmp_less_trans2[OF assms(1)] o(3) by blast
    then have "\<forall>x \<in> set (nodes l). cmp key (key_of x) \<noteq> 0" using comparator.cmp_swap[OF assms(1)] by fastforce
    then show ?thesis using Bin.IH(2)[OF o(2)] Bin.prems(2) False by (auto split: if_splits)
  qed
qed simp

section \<open>Removal\<close>

text \<open>The node that replaces a removed one: from the subtree on the side \<open>s\<close>, as far as possible to the other side.\<close>

fun extreme :: "AVLTreeNodeSide \<Rightarrow> ('k, 'v) atree \<Rightarrow> ('k, 'v) frame list \<Rightarrow> ('k, 'v) atree \<times> ('k, 'v) frame list" where
  "extreme s Tip gs = (Tip, gs)"
| "extreme AVL_TREE_NODE_LEFT (Bin a k v n l r) gs =
     (if r = Tip then (Bin a k v n l r, gs) else extreme AVL_TREE_NODE_LEFT r (Frame AVL_TREE_NODE_RIGHT a k v n l # gs))"
| "extreme AVL_TREE_NODE_RIGHT (Bin a k v n l r) gs =
     (if l = Tip then (Bin a k v n l r, gs) else extreme AVL_TREE_NODE_RIGHT l (Frame AVL_TREE_NODE_LEFT a k v n r # gs))"

lemma extreme_plug: "extreme s t gs = (u, hs) \<Longrightarrow> plug u hs = plug t gs"
  by (induction s t gs arbitrary: u hs rule: extreme.induct) (auto split: if_splits)

lemma extreme_Bin:
  "extreme s t gs = (u, hs) \<Longrightarrow> t \<noteq> Tip \<Longrightarrow> \<exists>b k v n l r. u = Bin b k v n l r \<and> child (other s) u = Tip"
  by (induction s t gs arbitrary: u hs rule: extreme.induct) (auto split: if_splits)

lemma extreme_before:
  "extreme s t gs = (u, hs) \<Longrightarrow> (s = AVL_TREE_NODE_LEFT \<longrightarrow> after hs = after gs) \<and> (s = AVL_TREE_NODE_RIGHT \<longrightarrow> before hs = before gs)"
  by (induction s t gs arbitrary: u hs rule: extreme.induct) (auto split: if_splits)

text \<open>Which subtree the replacement is taken from.\<close>

fun taller :: "('k, 'v) atree \<Rightarrow> AVLTreeNodeSide" where
  "taller Tip = AVL_TREE_NODE_LEFT"
| "taller (Bin a k v n l r) = (if ht l < ht r then AVL_TREE_NODE_RIGHT else AVL_TREE_NODE_LEFT)"

text \<open>
  The hole and its frames after a node is removed: in place of a leaf the hole is empty, otherwise the
  replacement \<open>b\<close> has left a hole, with its remaining child in it, and stands in the frame of the
  removed node.
\<close>

fun removed :: "('k, 'v) atree \<Rightarrow> ('k, 'v) frame list \<Rightarrow> ('k, 'v) atree \<times> ('k, 'v) frame list" where
  "removed Tip fs = (Tip, fs)"
| "removed (Bin a k v n l r) fs =
     (if l = Tip \<and> r = Tip then (Tip, fs)
      else let s = taller (Bin a k v n l r); (u, gs) = extreme s (child s (Bin a k v n l r)) [] in
        case u of
          Tip \<Rightarrow> (Tip, fs)
        | Bin b kb vb nb lb rb \<Rightarrow> (child s u, gs @ Frame s b kb vb n (child (other s) (Bin a k v n l r)) # fs))"

lemma frames_ok_swap:
  "frames_ok m (gs @ Frame s a k v n sib # fs) \<longleftrightarrow> frames_ok m (gs @ Frame s b k' v' n' sib # fs)"
proof (induction gs arbitrary: m)
  case (Cons g gs)
  then show ?case by (cases g) simp
qed simp

lemma fill_child: "fill (Frame s a k v n (child (other s) (Bin a k v n l r))) (child s (Bin a k v n l r)) = Bin a k v n l r"
  by (cases s) auto

lemma taller_child: "avl (Bin a k v n l r) \<Longrightarrow> \<not> (l = Tip \<and> r = Tip) \<Longrightarrow> child (taller (Bin a k v n l r)) (Bin a k v n l r) \<noteq> Tip"
  using ht_nonneg[of l] ht_nonneg[of r] ht_Tip_iff[of r] by auto

lemma removed_inner:
  assumes "avl (plug (Bin a k v n l r) fs)" "\<not> (l = Tip \<and> r = Tip)" "s = taller (Bin a k v n l r)"
    and "extreme s (child s (Bin a k v n l r)) [] = (Bin b kb vb nb lb rb, gs)"
  shows "frames_ok nb (gs @ Frame s b kb vb n' (child (other s) (Bin a k v n l r)) # fs)"
    "avl (child s (Bin b kb vb nb lb rb))" "\<bar>ht (child s (Bin b kb vb nb lb rb)) - nb\<bar> \<le> 1"
    "nodes (plug (child s (Bin b kb vb nb lb rb)) (gs @ Frame s b kb vb n' (child (other s) (Bin a k v n l r)) # fs)) =
       before fs @ nodes l @ nodes r @ after fs"
proof -
  let ?t = "Bin a k v n l r" and ?x = "Bin b kb vb nb lb rb"
  have w: "child s ?t \<noteq> Tip"
    unfolding assms(3) by (rule taller_child[OF conjunct1[OF avl_plug[OF assms(1)]] assms(2)])
  have px: "plug ?x gs = child s ?t" using extreme_plug[OF assms(4)] by simp
  have "plug ?x (gs @ Frame s a k v n (child (other s) ?t) # fs) = plug ?t fs" using px by (simp add: fill_child)
  then have x: "avl ?x" "frames_ok nb (gs @ Frame s a k v n (child (other s) ?t) # fs)"
    using avl_plug[of ?x] assms(1) by (metis, metis ht.simps(2))
  show "frames_ok nb (gs @ Frame s b kb vb n' (child (other s) ?t) # fs)" by (rule iffD1[OF frames_ok_swap x(2)])
  have c: "child (other s) ?x = Tip" using extreme_Bin[OF assms(4) w] by auto
  show "avl (child s ?x)" "\<bar>ht (child s ?x) - nb\<bar> \<le> 1"
    using x(1) c ht_nonneg[of "child s ?x"] by (cases s; auto)+
  have "nodes (child s ?t) = before gs @ nodes ?x @ after gs" using px nodes_plug by metis
  then show "nodes (plug (child s ?x) (gs @ Frame s b kb vb n' (child (other s) ?t) # fs)) = before fs @ nodes l @ nodes r @ after fs"
    using c extreme_before[OF assms(4)] by (cases s) (auto simp: nodes_plug before_append after_append)
qed

lemma removed_ok:
  assumes "avl (plug (Bin a k v n l r) fs)" "removed (Bin a k v n l r) fs = (u, gs)"
  shows "avl (climb_from u gs)" "nodes (climb_from u gs) = before fs @ nodes l @ nodes r @ after fs"
proof -
  have "\<exists>m. avl u \<and> \<bar>ht u - m\<bar> \<le> 1 \<and> frames_ok m gs \<and> nodes (plug u gs) = before fs @ nodes l @ nodes r @ after fs"
  proof (cases "l = Tip \<and> r = Tip")
    case True
    then have "n = 1" "frames_ok n fs" using avl_plug[OF assms(1)] by auto
    then show ?thesis using True assms(2) by (intro exI[of _ 1]) (auto simp: nodes_plug)
  next
    case False
    let ?s = "taller (Bin a k v n l r)"
    have "child ?s (Bin a k v n l r) \<noteq> Tip" using taller_child[OF _ False] avl_plug[OF assms(1)] by blast
    then obtain b kb vb nb lb rb hs where x: "extreme ?s (child ?s (Bin a k v n l r)) [] = (Bin b kb vb nb lb rb, hs)"
      using extreme_Bin by (metis surj_pair)
    have "u = child ?s (Bin b kb vb nb lb rb)" "gs = hs @ Frame ?s b kb vb n (child (other ?s) (Bin a k v n l r)) # fs"
      using assms(2) x unfolding removed.simps(2) if_not_P[OF False] Let_def x by simp_all
    then show ?thesis using removed_inner(1,4)[OF assms(1) False refl x, of n] removed_inner(2,3)[OF assms(1) False refl x] by blast
  qed
  then show "avl (climb_from u gs)" "nodes (climb_from u gs) = before fs @ nodes l @ nodes r @ after fs"
    using climb_from_ok by (metis, metis)
qed

end
