(* ===== verification/AVL_Tree.thy ===== *)
theory AVL_Tree
  imports AVL_Shape Pointer_Lists Interfaces
begin

text \<open>
  \<open>src/src/comm/avl-tree.c\<close> on an explicit heap of nodes with child and parent pointers. The AVLTree
  struct is passed and returned by value. The pointer returned by malloc is the argument \<open>m\<close>;
  AVL_TREE_NULL is \<open>None\<close>. Stored heights are at most twice the binary logarithm of the number of
  nodes, which is an int, so that their sums are written without a bound.
\<close>

record ('k, 'v) AVLTreeNode =
  nd_children :: "AVLTreeNodeSide \<Rightarrow> ptr"
  nd_parent :: ptr
  nd_key :: 'k
  nd_value :: 'v
  nd_height :: int

type_synonym ('k, 'v) aheap = "('k, 'v) AVLTreeNode heap"

record 'k AVLTree =
  avl_root_node :: ptr
  avl_compare_func :: "'k cmp_func"
  avl_num_nodes :: int

definition avl_tree_new :: "bool \<Rightarrow> 'k cmp_func \<Rightarrow> 'k AVLTree option" where
  "avl_tree_new m compare_func =
     (if m then Some \<lparr>avl_root_node = NULL, avl_compare_func = compare_func, avl_num_nodes = 0\<rparr> else None)"

partial_function (option) avl_tree_free_subtree :: "('k, 'v) aheap \<Rightarrow> ptr \<Rightarrow> ('k, 'v) aheap option" where
  "avl_tree_free_subtree h node =
     (if node = NULL then Some h
      else do {
        e \<leftarrow> deref h node;
        h \<leftarrow> avl_tree_free_subtree h (nd_children e AVL_TREE_NODE_LEFT);
        e \<leftarrow> deref h node;
        h \<leftarrow> avl_tree_free_subtree h (nd_children e AVL_TREE_NODE_RIGHT);
        c_free h node
      })"

text \<open>The heap after all nodes are freed; the AVLTree struct is then freed too.\<close>

definition avl_tree_free :: "('k, 'v) aheap \<Rightarrow> 'k AVLTree \<Rightarrow> ('k, 'v) aheap option" where
  "avl_tree_free h tree = avl_tree_free_subtree h (avl_root_node tree)"

definition avl_tree_subtree_height :: "('k, 'v) aheap \<Rightarrow> ptr \<Rightarrow> int option" where
  "avl_tree_subtree_height h node = (if node = NULL then Some 0 else map_option nd_height (deref h node))"

definition avl_tree_update_height :: "('k, 'v) aheap \<Rightarrow> ptr \<Rightarrow> ('k, 'v) aheap option" where
  "avl_tree_update_height h node = do {
     e \<leftarrow> deref h node;
     left_height \<leftarrow> avl_tree_subtree_height h (nd_children e AVL_TREE_NODE_LEFT);
     right_height \<leftarrow> avl_tree_subtree_height h (nd_children e AVL_TREE_NODE_RIGHT);
     modify h node (\<lambda>e. e\<lparr>nd_height := if left_height > right_height then left_height + 1 else right_height + 1\<rparr>)
   }"

definition avl_tree_node_parent_side :: "('k, 'v) aheap \<Rightarrow> ptr \<Rightarrow> AVLTreeNodeSide option" where
  "avl_tree_node_parent_side h node = do {
     e \<leftarrow> deref h node;
     p \<leftarrow> deref h (nd_parent e);
     Some (if nd_children p AVL_TREE_NODE_LEFT = node then AVL_TREE_NODE_LEFT else AVL_TREE_NODE_RIGHT)
   }"

text \<open>\<open>if (node != NULL) node->parent = p\<close>.\<close>

definition set_parent :: "('k, 'v) aheap \<Rightarrow> ptr \<Rightarrow> ptr \<Rightarrow> ('k, 'v) aheap option" where
  "set_parent h node p = (if node \<noteq> NULL then modify h node (\<lambda>e. e\<lparr>nd_parent := p\<rparr>) else Some h)"

definition set_child :: "AVLTreeNodeSide \<Rightarrow> ptr \<Rightarrow> ('k, 'v) AVLTreeNode \<Rightarrow> ('k, 'v) AVLTreeNode" where
  "set_child side p e = e\<lparr>nd_children := (nd_children e)(side := p)\<rparr>"

definition avl_tree_node_replace ::
  "('k, 'v) aheap \<Rightarrow> 'k AVLTree \<Rightarrow> ptr \<Rightarrow> ptr \<Rightarrow> (('k, 'v) aheap \<times> 'k AVLTree) option" where
  "avl_tree_node_replace h tree node1 node2 = do {
     e \<leftarrow> deref h node1;
     h \<leftarrow> set_parent h node2 (nd_parent e);
     e \<leftarrow> deref h node1;
     if nd_parent e = NULL then Some (h, tree\<lparr>avl_root_node := node2\<rparr>)
     else do {
       side \<leftarrow> avl_tree_node_parent_side h node1;
       h \<leftarrow> modify h (nd_parent e) (set_child side node2);
       h \<leftarrow> avl_tree_update_height h (nd_parent e);
       Some (h, tree)
     }
   }"

definition avl_tree_rotate ::
  "('k, 'v) aheap \<Rightarrow> 'k AVLTree \<Rightarrow> ptr \<Rightarrow> AVLTreeNodeSide \<Rightarrow> (ptr \<times> ('k, 'v) aheap \<times> 'k AVLTree) option" where
  "avl_tree_rotate h tree node direction = do {
     e \<leftarrow> deref h node;
     let new_root = nd_children e (other direction);
     (h, tree) \<leftarrow> avl_tree_node_replace h tree node new_root;
     r \<leftarrow> deref h new_root;
     h \<leftarrow> modify h node (set_child (other direction) (nd_children r direction));
     h \<leftarrow> modify h new_root (set_child direction node);
     h \<leftarrow> modify h node (\<lambda>e. e\<lparr>nd_parent := new_root\<rparr>);
     e \<leftarrow> deref h node;
     h \<leftarrow> set_parent h (nd_children e (other direction)) node;
     h \<leftarrow> avl_tree_update_height h new_root;
     h \<leftarrow> avl_tree_update_height h node;
     Some (new_root, h, tree)
   }"

definition avl_tree_node_balance ::
  "('k, 'v) aheap \<Rightarrow> 'k AVLTree \<Rightarrow> ptr \<Rightarrow> (ptr \<times> ('k, 'v) aheap \<times> 'k AVLTree) option" where
  "avl_tree_node_balance h tree node = do {
     e \<leftarrow> deref h node;
     let left_subtree = nd_children e AVL_TREE_NODE_LEFT;
     let right_subtree = nd_children e AVL_TREE_NODE_RIGHT;
     right_height \<leftarrow> avl_tree_subtree_height h right_subtree;
     left_height \<leftarrow> avl_tree_subtree_height h left_subtree;
     let diff = right_height - left_height;
     (node, h, tree) \<leftarrow>
       (if diff \<ge> 2 then do {
          c \<leftarrow> deref h right_subtree;
          cr \<leftarrow> avl_tree_subtree_height h (nd_children c AVL_TREE_NODE_RIGHT);
          cl \<leftarrow> avl_tree_subtree_height h (nd_children c AVL_TREE_NODE_LEFT);
          (h, tree) \<leftarrow> (if cr < cl then map_option snd (avl_tree_rotate h tree right_subtree AVL_TREE_NODE_RIGHT)
                        else Some (h, tree));
          avl_tree_rotate h tree node AVL_TREE_NODE_LEFT
        }
        else if diff \<le> - 2 then do {
          c \<leftarrow> deref h left_subtree;
          cl \<leftarrow> avl_tree_subtree_height h (nd_children c AVL_TREE_NODE_LEFT);
          cr \<leftarrow> avl_tree_subtree_height h (nd_children c AVL_TREE_NODE_RIGHT);
          (h, tree) \<leftarrow> (if cl < cr then map_option snd (avl_tree_rotate h tree left_subtree AVL_TREE_NODE_LEFT)
                        else Some (h, tree));
          avl_tree_rotate h tree node AVL_TREE_NODE_RIGHT
        }
        else Some (node, h, tree));
     h \<leftarrow> avl_tree_update_height h node;
     Some (node, h, tree)
   }"

partial_function (option) avl_tree_balance_to_root ::
  "('k, 'v) aheap \<Rightarrow> 'k AVLTree \<Rightarrow> ptr \<Rightarrow> (('k, 'v) aheap \<times> 'k AVLTree) option" where
  "avl_tree_balance_to_root h tree rover =
     (if rover = NULL then Some (h, tree)
      else do {
        (rover, h, tree) \<leftarrow> avl_tree_node_balance h tree rover;
        e \<leftarrow> deref h rover;
        avl_tree_balance_to_root h tree (nd_parent e)
      })"

text \<open>The locations of a node pointer: the root of the tree or a child slot of a node.\<close>

datatype aloc = RootNode | Child addr AVLTreeNodeSide

definition aloc_read :: "('k, 'v) aheap \<Rightarrow> 'k AVLTree \<Rightarrow> aloc \<Rightarrow> ptr option" where
  "aloc_read h tree l =
     (case l of RootNode \<Rightarrow> Some (avl_root_node tree) | Child a s \<Rightarrow> map_option (\<lambda>e. nd_children e s) (h a))"

definition aloc_write :: "('k, 'v) aheap \<Rightarrow> 'k AVLTree \<Rightarrow> aloc \<Rightarrow> ptr \<Rightarrow> (('k, 'v) aheap \<times> 'k AVLTree) option" where
  "aloc_write h tree l p =
     (case l of
        RootNode \<Rightarrow> Some (h, tree\<lparr>avl_root_node := p\<rparr>)
      | Child a s \<Rightarrow> do { h \<leftarrow> modify h (Some a) (set_child s p); Some (h, tree) })"

text \<open>The walk down the tree in avl_tree_insert: the location that holds NULL and the last node visited.\<close>

partial_function (option) avl_insert_walk ::
  "('k, 'v) aheap \<Rightarrow> 'k AVLTree \<Rightarrow> 'k \<Rightarrow> aloc \<Rightarrow> ptr \<Rightarrow> (aloc \<times> ptr) option" where
  "avl_insert_walk h tree key rover previous_node = do {
     p \<leftarrow> aloc_read h tree rover;
     case p of
       None \<Rightarrow> Some (rover, previous_node)
     | Some a \<Rightarrow> do {
         e \<leftarrow> h a;
         if avl_compare_func tree key (nd_key e) < 0 then avl_insert_walk h tree key (Child a AVL_TREE_NODE_LEFT) p
         else avl_insert_walk h tree key (Child a AVL_TREE_NODE_RIGHT) p
       }
   }"

definition avl_tree_insert ::
  "ptr \<Rightarrow> ('k, 'v) aheap \<Rightarrow> 'k AVLTree \<Rightarrow> 'k \<Rightarrow> 'v \<Rightarrow> (ptr \<times> ('k, 'v) aheap \<times> 'k AVLTree) option" where
  "avl_tree_insert m h tree key value = do {
     (rover, previous_node) \<leftarrow> avl_insert_walk h tree key RootNode NULL;
     case m of
       None \<Rightarrow> Some (NULL, h, tree)
     | Some a \<Rightarrow> do {
         let h = h(a \<mapsto> \<lparr>nd_children = (\<lambda>_. NULL), nd_parent = previous_node, nd_key = key,
                         nd_value = value, nd_height = 1\<rparr>);
         (h, tree) \<leftarrow> aloc_write h tree rover m;
         (h, tree) \<leftarrow> avl_tree_balance_to_root h tree previous_node;
         n \<leftarrow> c_int (avl_num_nodes tree + 1);
         Some (m, h, tree\<lparr>avl_num_nodes := n\<rparr>)
       }
   }"

text \<open>\<open>while (result->children[1-side] != NULL) result = result->children[1-side]\<close>.\<close>

partial_function (option) avl_search_down :: "('k, 'v) aheap \<Rightarrow> AVLTreeNodeSide \<Rightarrow> ptr \<Rightarrow> ptr option" where
  "avl_search_down h side result = do {
     r \<leftarrow> deref h result;
     if nd_children r (other side) \<noteq> NULL then avl_search_down h side (nd_children r (other side)) else Some result
   }"

definition avl_tree_node_get_replacement ::
  "('k, 'v) aheap \<Rightarrow> 'k AVLTree \<Rightarrow> ptr \<Rightarrow> (ptr \<times> ('k, 'v) aheap \<times> 'k AVLTree) option" where
  "avl_tree_node_get_replacement h tree node = do {
     e \<leftarrow> deref h node;
     let left_subtree = nd_children e AVL_TREE_NODE_LEFT;
     let right_subtree = nd_children e AVL_TREE_NODE_RIGHT;
     if left_subtree = NULL \<and> right_subtree = NULL then Some (NULL, h, tree)
     else do {
       left_height \<leftarrow> avl_tree_subtree_height h left_subtree;
       right_height \<leftarrow> avl_tree_subtree_height h right_subtree;
       let side = (if left_height < right_height then AVL_TREE_NODE_RIGHT else AVL_TREE_NODE_LEFT);
       result \<leftarrow> avl_search_down h side (nd_children e side);
       r \<leftarrow> deref h result;
       (h, tree) \<leftarrow> avl_tree_node_replace h tree result (nd_children r side);
       r \<leftarrow> deref h result;
       h \<leftarrow> avl_tree_update_height h (nd_parent r);
       Some (result, h, tree)
     }
   }"

text \<open>One turn of the loop that copies the child pointers of \<open>node\<close> into \<open>swap_node\<close>.\<close>

definition avl_copy_child :: "('k, 'v) aheap \<Rightarrow> ptr \<Rightarrow> ptr \<Rightarrow> AVLTreeNodeSide \<Rightarrow> ('k, 'v) aheap option" where
  "avl_copy_child h node swap_node i = do {
     e \<leftarrow> deref h node;
     h \<leftarrow> modify h swap_node (set_child i (nd_children e i));
     s \<leftarrow> deref h swap_node;
     set_parent h (nd_children s i) swap_node
   }"

definition avl_tree_remove_node :: "('k, 'v) aheap \<Rightarrow> 'k AVLTree \<Rightarrow> ptr \<Rightarrow> (('k, 'v) aheap \<times> 'k AVLTree) option" where
  "avl_tree_remove_node h tree node = do {
     (swap_node, h, tree) \<leftarrow> avl_tree_node_get_replacement h tree node;
     (balance_startpoint, h, tree) \<leftarrow>
       (if swap_node = NULL then do {
          (h, tree) \<leftarrow> avl_tree_node_replace h tree node NULL;
          e \<leftarrow> deref h node;
          Some (nd_parent e, h, tree)
        }
        else do {
          s \<leftarrow> deref h swap_node;
          let balance_startpoint = (if nd_parent s = node then swap_node else nd_parent s);
          h \<leftarrow> avl_copy_child h node swap_node AVL_TREE_NODE_LEFT;
          h \<leftarrow> avl_copy_child h node swap_node AVL_TREE_NODE_RIGHT;
          e \<leftarrow> deref h node;
          h \<leftarrow> modify h swap_node (\<lambda>s. s\<lparr>nd_height := nd_height e\<rparr>);
          (h, tree) \<leftarrow> avl_tree_node_replace h tree node swap_node;
          Some (balance_startpoint, h, tree)
        });
     h \<leftarrow> c_free h node;
     n \<leftarrow> c_int (avl_num_nodes tree - 1);
     avl_tree_balance_to_root h (tree\<lparr>avl_num_nodes := n\<rparr>) balance_startpoint
   }"

partial_function (option) avl_lookup_loop :: "('k, 'v) aheap \<Rightarrow> 'k AVLTree \<Rightarrow> 'k \<Rightarrow> ptr \<Rightarrow> ptr option" where
  "avl_lookup_loop h tree key node =
     (if node = NULL then Some NULL
      else do {
        e \<leftarrow> deref h node;
        let diff = avl_compare_func tree key (nd_key e);
        if diff = 0 then Some node
        else if diff < 0 then avl_lookup_loop h tree key (nd_children e AVL_TREE_NODE_LEFT)
        else avl_lookup_loop h tree key (nd_children e AVL_TREE_NODE_RIGHT)
      })"

definition avl_tree_lookup_node :: "('k, 'v) aheap \<Rightarrow> 'k AVLTree \<Rightarrow> 'k \<Rightarrow> ptr option" where
  "avl_tree_lookup_node h tree key = avl_lookup_loop h tree key (avl_root_node tree)"

definition avl_tree_remove :: "('k, 'v) aheap \<Rightarrow> 'k AVLTree \<Rightarrow> 'k \<Rightarrow> (int \<times> ('k, 'v) aheap \<times> 'k AVLTree) option" where
  "avl_tree_remove h tree key = do {
     node \<leftarrow> avl_tree_lookup_node h tree key;
     if node = NULL then Some (0, h, tree)
     else do { (h, tree) \<leftarrow> avl_tree_remove_node h tree node; Some (1, h, tree) }
   }"

definition avl_tree_lookup :: "('k, 'v) aheap \<Rightarrow> 'k AVLTree \<Rightarrow> 'k \<Rightarrow> 'v option option" where
  "avl_tree_lookup h tree key = do {
     node \<leftarrow> avl_tree_lookup_node h tree key;
     if node = NULL then Some None
     else do { e \<leftarrow> deref h node; Some (Some (nd_value e)) }
   }"

definition avl_tree_root_node :: "'k AVLTree \<Rightarrow> ptr" where
  "avl_tree_root_node tree = avl_root_node tree"

definition avl_tree_node_key :: "('k, 'v) aheap \<Rightarrow> ptr \<Rightarrow> 'k option" where
  "avl_tree_node_key h node = map_option nd_key (deref h node)"

definition avl_tree_node_value :: "('k, 'v) aheap \<Rightarrow> ptr \<Rightarrow> 'v option" where
  "avl_tree_node_value h node = map_option nd_value (deref h node)"

text \<open>\<open>side\<close> may be any int; only the two values of the enum select a child.\<close>

definition avl_tree_node_child :: "('k, 'v) aheap \<Rightarrow> ptr \<Rightarrow> int \<Rightarrow> ptr option" where
  "avl_tree_node_child h node side =
     (if side = 0 then map_option (\<lambda>e. nd_children e AVL_TREE_NODE_LEFT) (deref h node)
      else if side = 1 then map_option (\<lambda>e. nd_children e AVL_TREE_NODE_RIGHT) (deref h node)
      else Some NULL)"

definition avl_tree_node_parent :: "('k, 'v) aheap \<Rightarrow> ptr \<Rightarrow> ptr option" where
  "avl_tree_node_parent h node = map_option nd_parent (deref h node)"

definition avl_tree_num_entries :: "'k AVLTree \<Rightarrow> int" where
  "avl_tree_num_entries tree = avl_num_nodes tree"

partial_function (option) avl_tree_to_array_add_subtree ::
  "('k, 'v) aheap \<Rightarrow> ptr \<Rightarrow> 'k array \<Rightarrow> int \<Rightarrow> ('k array \<times> int) option" where
  "avl_tree_to_array_add_subtree h subtree array index =
     (if subtree = NULL then Some (array, index)
      else do {
        e \<leftarrow> deref h subtree;
        (array, index) \<leftarrow> avl_tree_to_array_add_subtree h (nd_children e AVL_TREE_NODE_LEFT) array index;
        array \<leftarrow> arr_set array index (nd_key e);
        index \<leftarrow> c_int (index + 1);
        avl_tree_to_array_add_subtree h (nd_children e AVL_TREE_NODE_RIGHT) array index
      })"

definition avl_tree_to_array :: "bool \<Rightarrow> ('k, 'v) aheap \<Rightarrow> 'k AVLTree \<Rightarrow> 'k array option option" where
  "avl_tree_to_array m h tree =
     (if \<not> m then Some None
      else do {
        (array, index) \<leftarrow> avl_tree_to_array_add_subtree h (avl_root_node tree)
          (replicate (nat (avl_num_nodes tree)) None) 0;
        Some (Some array)
      })"

end
