(* ===== verification/AVL_Heap.thy ===== *)
theory AVL_Heap
  imports AVL_Tree
begin

text \<open>
  How a tree lies in the heap, and that the pointer operations of \<open>avl-tree.c\<close> compute the functions
  on trees: every operation takes a heap that holds a tree to a heap that holds the new tree, with all
  child and parent pointers in place and every address outside of the tree untouched.
\<close>

section \<open>Trees in the heap\<close>

definition kids :: "ptr \<Rightarrow> ptr \<Rightarrow> AVLTreeNodeSide \<Rightarrow> ptr" where
  "kids p q s = (case s of AVL_TREE_NODE_LEFT \<Rightarrow> p | AVL_TREE_NODE_RIGHT \<Rightarrow> q)"

lemma kids_simps [simp]:
  "kids p q AVL_TREE_NODE_LEFT = p" "kids p q AVL_TREE_NODE_RIGHT = q"
  "(kids p q)(AVL_TREE_NODE_LEFT := r) = kids r q" "(kids p q)(AVL_TREE_NODE_RIGHT := r) = kids p r"
  "kids p q = kids p' q' \<longleftrightarrow> p = p' \<and> q = q'"
  by (auto simp: kids_def fun_eq_iff split: AVLTreeNodeSide.splits)

lemma const_kids: "(\<lambda>_. p) = kids p p"
  by (auto simp: kids_def fun_eq_iff split: AVLTreeNodeSide.splits)

primrec root :: "('k, 'v) atree \<Rightarrow> ptr" where
  "root Tip = NULL"
| "root (Bin a k v n l r) = Some a"

lemma root_NULL [simp]: "root t = NULL \<longleftrightarrow> t = Tip"
  by (cases t) auto

abbreviation cell :: "ptr \<Rightarrow> ptr \<Rightarrow> ptr \<Rightarrow> 'k \<Rightarrow> 'v \<Rightarrow> int \<Rightarrow> ('k, 'v) AVLTreeNode" where
  "cell p q par k v n \<equiv>
     \<lparr>nd_children = kids p q, nd_parent = par, nd_key = k, nd_value = v, nd_height = n\<rparr>"

primrec tr :: "('k, 'v) aheap \<Rightarrow> ptr \<Rightarrow> ('k, 'v) atree \<Rightarrow> bool" where
  "tr h par Tip \<longleftrightarrow> True"
| "tr h par (Bin a k v n l r) \<longleftrightarrow>
     h a = Some (cell (root l) (root r) par k v n) \<and> tr h (Some a) l \<and> tr h (Some a) r"

fun par_of :: "ptr \<Rightarrow> ('k, 'v) frame list \<Rightarrow> ptr" where
  "par_of base [] = base"
| "par_of base (Frame s a k v n sib # fs) = Some a"

fun ctx :: "('k, 'v) aheap \<Rightarrow> ptr \<Rightarrow> ('k, 'v) frame list \<Rightarrow> ptr \<Rightarrow> bool" where
  "ctx h base [] p \<longleftrightarrow> True"
| "ctx h base (Frame AVL_TREE_NODE_LEFT a k v n sib # fs) p \<longleftrightarrow>
     h a = Some (cell p (root sib) (par_of base fs) k v n) \<and> tr h (Some a) sib \<and> ctx h base fs (Some a)"
| "ctx h base (Frame AVL_TREE_NODE_RIGHT a k v n sib # fs) p \<longleftrightarrow>
     h a = Some (cell (root sib) p (par_of base fs) k v n) \<and> tr h (Some a) sib \<and> ctx h base fs (Some a)"

fun top_of :: "ptr \<Rightarrow> ('k, 'v) frame list \<Rightarrow> ptr" where
  "top_of p [] = p"
| "top_of p (Frame s a k v n sib # fs) = top_of (Some a) fs"

lemma tr_fill: "tr h par (fill f t) \<longleftrightarrow> tr h (par_of par [f]) t \<and> ctx h par [f] (root t)"
  by (cases "(f, t)" rule: fill.cases) auto

lemma root_fill: "root (fill f t) = par_of p (f # fs)"
  by (cases "(f, t)" rule: fill.cases) auto

lemma ctx_Cons: "ctx h base (f # fs) p \<longleftrightarrow> ctx h (par_of base fs) [f] p \<and> ctx h base fs (par_of base (f # fs))"
  by (cases "(f, Tip :: ('a, 'b) atree)" rule: fill.cases) auto

lemma par_of_Cons: "par_of base (f # fs) = par_of base' [f]"
  by (cases f) auto

lemma tr_plug: "tr h base (plug t fs) \<longleftrightarrow> tr h (par_of base fs) t \<and> ctx h base fs (root t)"
proof (induction fs arbitrary: t)
  case (Cons f fs)
  show ?case using Cons[of "fill f t"] root_fill[of f t base fs] par_of_Cons[of base f fs "par_of base fs"]
    by (auto simp: tr_fill ctx_Cons[of h base f fs])
qed simp

lemma root_plug: "root (plug t fs) = top_of (root t) fs"
proof (induction fs arbitrary: t)
  case (Cons f fs)
  then show ?case by (cases "(f, t)" rule: fill.cases) auto
qed simp

text \<open>The addresses of a tree and of frames.\<close>

definition adr :: "('k, 'v) atree \<Rightarrow> addr set" where
  "adr t = fst ` set (nodes t)"

definition fadr :: "('k, 'v) frame list \<Rightarrow> addr set" where
  "fadr fs = fst ` set (before fs) \<union> fst ` set (after fs)"

lemma adr_simps [simp]: "adr Tip = {}" "adr (Bin a k v n l r) = insert a (adr l \<union> adr r)"
  by (auto simp: adr_def)

lemma fadr_simps [simp]: "fadr [] = {}" "fadr (Frame s a k v n sib # fs) = insert a (adr sib \<union> fadr fs)"
  by (simp add: fadr_def) (cases s; auto simp: fadr_def adr_def)

lemma adr_plug: "adr (plug t fs) = adr t \<union> fadr fs"
  by (auto simp: adr_def fadr_def nodes_plug)

lemma adr_join [simp]: "adr (join a k v l r) = insert a (adr l \<union> adr r)"
  by (simp add: join_def)

lemma root_in_adr: "root t = Some a \<Longrightarrow> a \<in> adr t"
  by (cases t) auto

lemma tr_cong: "(\<And>a. a \<in> adr t \<Longrightarrow> h' a = h a) \<Longrightarrow> tr h' par t \<longleftrightarrow> tr h par t"
  by (induction t arbitrary: par) auto

lemma tr_upd [simp]: "x \<notin> adr t \<Longrightarrow> tr (h(x := v)) par t \<longleftrightarrow> tr h par t"
  by (rule tr_cong) auto

lemma ctx_cong: "(\<And>a. a \<in> fadr fs \<Longrightarrow> h' a = h a) \<Longrightarrow> ctx h' base fs p \<longleftrightarrow> ctx h base fs p"
proof (induction fs arbitrary: p)
  case (Cons f fs)
  then show ?case using tr_cong[of _ h' h] by (cases "(f, Tip :: ('a, 'b) atree)" rule: fill.cases) (auto 0 3)
qed simp

lemma tr_frame: "tr h par t \<Longrightarrow> \<forall>x. x \<notin> S \<longrightarrow> h' x = h x \<Longrightarrow> adr t \<inter> S = {} \<Longrightarrow> tr h' par t"
  using tr_cong[of t h' h par] by blast

lemma ctx_frame: "ctx h base fs p \<Longrightarrow> \<forall>x. x \<notin> S \<longrightarrow> h' x = h x \<Longrightarrow> fadr fs \<inter> S = {} \<Longrightarrow> ctx h' base fs p"
  using ctx_cong[of fs h' h base p] by blast

lemma ctx_upd [simp]: "x \<notin> fadr fs \<Longrightarrow> ctx (h(x := v)) base fs p \<longleftrightarrow> ctx h base fs p"
  by (rule ctx_cong) auto

text \<open>No address occurs twice.\<close>

definition dist :: "('k, 'v) atree \<Rightarrow> bool" where
  "dist t \<longleftrightarrow> distinct (map fst (nodes t))"

definition fdist :: "('k, 'v) frame list \<Rightarrow> bool" where
  "fdist fs \<longleftrightarrow> distinct (map fst (before fs @ after fs))"

lemma dist_simps [simp]: "dist Tip"
  "dist (Bin a k v n l r) \<longleftrightarrow> dist l \<and> dist r \<and> a \<notin> adr l \<and> a \<notin> adr r \<and> adr l \<inter> adr r = {}"
  by (auto simp: dist_def adr_def)

lemma fdist_simps [simp]: "fdist []"
  "fdist (Frame s a k v n sib # fs) \<longleftrightarrow> dist sib \<and> fdist fs \<and> a \<notin> adr sib \<and> a \<notin> fadr fs \<and> adr sib \<inter> fadr fs = {}"
  by (simp add: fdist_def) (cases s; auto simp: fdist_def dist_def adr_def fadr_def)

lemma dist_plug: "dist (plug t fs) \<longleftrightarrow> dist t \<and> fdist fs \<and> adr t \<inter> fadr fs = {}"
  by (auto simp: dist_def fdist_def adr_def fadr_def nodes_plug)

lemma dist_join [simp]: "dist (join a k v l r) \<longleftrightarrow> dist l \<and> dist r \<and> a \<notin> adr l \<and> a \<notin> adr r \<and> adr l \<inter> adr r = {}"
  by (simp add: join_def)

text \<open>A tree that fills the hole of frames, with the root of the whole in the AVLTree struct.\<close>

definition whole :: "('k, 'v) aheap \<Rightarrow> 'k AVLTree \<Rightarrow> ('k, 'v) atree \<Rightarrow> bool" where
  "whole h tree t \<longleftrightarrow> tr h NULL t \<and> avl_root_node tree = root t \<and> dist t"

lemma whole_plug:
  "whole h tree (plug t fs) \<longleftrightarrow> tr h (par_of NULL fs) t \<and> ctx h NULL fs (root t) \<and>
     avl_root_node tree = top_of (root t) fs \<and> dist t \<and> fdist fs \<and> adr t \<inter> fadr fs = {}"
  by (auto simp: whole_def tr_plug root_plug dist_plug)

section \<open>Small steps\<close>

lemma subtree_height_ok: "tr h par t \<Longrightarrow> avl_tree_subtree_height h (root t) = Some (ht t)"
  by (cases t) (auto simp: avl_tree_subtree_height_def)

lemma update_height_ok:
  assumes "h a = Some e" "nd_children e = kids (root l) (root r)" "tr h p l" "tr h q r"
  shows "avl_tree_update_height h (Some a) = Some (h(a \<mapsto> e\<lparr>nd_height := 1 + max (ht l) (ht r)\<rparr>))"
  using assms subtree_height_ok[OF assms(3)] subtree_height_ok[OF assms(4)]
  by (auto simp: avl_tree_update_height_def max_def)

lemma set_parent_ok:
  assumes "tr h p t" "dist t"
  shows "\<exists>h'. set_parent h (root t) w = Some h' \<and> tr h' w t \<and> (\<forall>x. x \<notin> adr t \<longrightarrow> h' x = h x)"
  using assms by (cases t) (auto simp: set_parent_def)

lemma set_child_simps [simp]:
  "set_child AVL_TREE_NODE_LEFT z (cell p q par k v n) = cell z q par k v n"
  "set_child AVL_TREE_NODE_RIGHT z (cell p q par k v n) = cell p z par k v n"
  by (simp_all add: set_child_def)

text \<open>The frames after their hole got a tree of height \<open>m\<close> and the parent node its new height.\<close>

fun touch :: "int \<Rightarrow> ('k, 'v) frame list \<Rightarrow> ('k, 'v) frame list" where
  "touch m [] = []"
| "touch m (Frame s a k v n sib # fs) = Frame s a k v (1 + max m (ht sib)) sib # fs"

lemma touch_simps [simp]: "par_of b (touch m fs) = par_of b fs" "fadr (touch m fs) = fadr fs" "fdist (touch m fs) = fdist fs"
  "top_of p (touch m fs) = top_of p fs" "touch m fs = [] \<longleftrightarrow> fs = []" "touch m (touch n fs) = touch m fs"
  by (cases "(m, fs)" rule: touch.cases; auto)+

lemma rebalance_height: "rebalance (Bin a k v n l r) = rebalance (Bin a k v n' l r)"
  by (simp add: rebalance.simps)

lemma rebalance_fill_height: "rebalance (fill (Frame s a k v n sib) t) = rebalance (fill (Frame s a k v n' sib) t)"
  using rebalance_height by (cases s) auto

lemma climb_cong: "rebalance t = rebalance u \<Longrightarrow> climb t fs = climb u fs"
  by (cases fs) auto

lemma climb_touch: "climb t (touch m fs) = climb t fs"
  by (cases "(m, fs)" rule: touch.cases) (auto intro!: climb_cong rebalance_fill_height)

lemma climb_from_touch: "climb_from t (touch m fs) = climb_from t fs"
  by (cases "(m, fs)" rule: touch.cases) (auto intro!: climb_cong rebalance_fill_height)

lemma node_replace_ok:
  assumes "h a = Some e" "nd_parent e = par_of NULL fs" "ctx h NULL fs (Some a)" "tr h p t" "dist t" "fdist fs"
    "a \<notin> adr t" "a \<notin> fadr fs" "adr t \<inter> fadr fs = {}" "avl_root_node tree = top_of (Some a) fs"
  shows "\<exists>h'. avl_tree_node_replace h tree (Some a) (root t) = Some (h', tree\<lparr>avl_root_node := top_of (root t) fs\<rparr>) \<and>
           tr h' (par_of NULL fs) t \<and> ctx h' NULL (touch (ht t) fs) (root t) \<and>
           (\<forall>x. x \<notin> adr t \<union> fadr fs \<longrightarrow> h' x = h x)"
proof -
  obtain h1 where h1: "set_parent h (root t) (par_of NULL fs) = Some h1" "tr h1 (par_of NULL fs) t" "\<forall>x. x \<notin> adr t \<longrightarrow> h1 x = h x"
    using set_parent_ok[OF assms(4,5)] by blast
  have h1a: "h1 a = Some e" using h1(3) assms(1,7) by simp
  have c: "ctx h1 NULL fs (Some a)" using assms(3,9) h1(3) ctx_cong[of fs h1 h NULL "Some a"] by auto
  show ?thesis
  proof (cases fs)
    case Nil
    then show ?thesis using assms(1,2) h1 h1a by (auto simp: avl_tree_node_replace_def)
  next
    case (Cons f gs)
    obtain s b k v n sib where f: "f = Frame s b k v n sib" by (cases f)
    have d: "a \<noteq> b" "b \<notin> adr t" "b \<notin> adr sib" "b \<notin> fadr gs" "root sib \<noteq> Some a"
      using assms(6,8,9) Cons f root_in_adr[of sib a] by auto
    have r: "tree\<lparr>avl_root_node := top_of (root t) fs\<rparr> = tree" using assms(10) Cons f by simp
    have tsib: "tr h1 (Some b) sib" using c Cons f by (cases s) auto
    show ?thesis
    proof (cases s)
      case AVL_TREE_NODE_LEFT
      let ?e = "cell (root t) (root sib) (par_of NULL gs) k v n"
      have "avl_tree_node_parent_side h1 (Some a) = Some AVL_TREE_NODE_LEFT"
        using c h1a assms(2) Cons f AVL_TREE_NODE_LEFT by (auto simp: avl_tree_node_parent_side_def)
      moreover have "avl_tree_update_height (h1(b \<mapsto> ?e)) (Some b) =
          Some (h1(b \<mapsto> ?e\<lparr>nd_height := 1 + max (ht t) (ht sib)\<rparr>))"
        using update_height_ok[of "h1(b \<mapsto> ?e)" b ?e t sib "par_of NULL fs" "Some b"] h1(2) tsib d by simp
      ultimately have "avl_tree_node_replace h tree (Some a) (root t) =
          Some (h1(b \<mapsto> cell (root t) (root sib) (par_of NULL gs) k v (1 + max (ht t) (ht sib))), tree)"
        using assms(1,2) h1(1) h1a c Cons f AVL_TREE_NODE_LEFT by (auto simp: avl_tree_node_replace_def)
      then show ?thesis using h1(2,3) c d Cons f AVL_TREE_NODE_LEFT r by auto
    next
      case AVL_TREE_NODE_RIGHT
      let ?e = "cell (root sib) (root t) (par_of NULL gs) k v n"
      have "avl_tree_node_parent_side h1 (Some a) = Some AVL_TREE_NODE_RIGHT"
        using c h1a assms(2) Cons f AVL_TREE_NODE_RIGHT d(5) by (auto simp: avl_tree_node_parent_side_def)
      moreover have "avl_tree_update_height (h1(b \<mapsto> ?e)) (Some b) =
          Some (h1(b \<mapsto> ?e\<lparr>nd_height := 1 + max (ht sib) (ht t)\<rparr>))"
        using update_height_ok[of "h1(b \<mapsto> ?e)" b ?e sib t "Some b" "par_of NULL fs"] h1(2) tsib d by simp
      ultimately have "avl_tree_node_replace h tree (Some a) (root t) =
          Some (h1(b \<mapsto> cell (root sib) (root t) (par_of NULL gs) k v (1 + max (ht t) (ht sib))), tree)"
        using assms(1,2) h1(1) h1a c Cons f AVL_TREE_NODE_RIGHT by (auto simp: avl_tree_node_replace_def max.commute)
      then show ?thesis using h1(2,3) c d Cons f AVL_TREE_NODE_RIGHT r by auto
    qed
  qed
qed

section \<open>Rotation\<close>

text \<open>A node with its child on the side \<open>s\<close> and the one on the other side, for both directions at once.\<close>

fun bin :: "AVLTreeNodeSide \<Rightarrow> addr \<Rightarrow> 'k \<Rightarrow> 'v \<Rightarrow> int \<Rightarrow> ('k, 'v) atree \<Rightarrow> ('k, 'v) atree \<Rightarrow> ('k, 'v) atree" where
  "bin AVL_TREE_NODE_LEFT a k v n x y = Bin a k v n x y"
| "bin AVL_TREE_NODE_RIGHT a k v n x y = Bin a k v n y x"

fun kids2 :: "AVLTreeNodeSide \<Rightarrow> ptr \<Rightarrow> ptr \<Rightarrow> AVLTreeNodeSide \<Rightarrow> ptr" where
  "kids2 AVL_TREE_NODE_LEFT p q = kids p q"
| "kids2 AVL_TREE_NODE_RIGHT p q = kids q p"

abbreviation cell2 :: "AVLTreeNodeSide \<Rightarrow> ptr \<Rightarrow> ptr \<Rightarrow> ptr \<Rightarrow> 'k \<Rightarrow> 'v \<Rightarrow> int \<Rightarrow> ('k, 'v) AVLTreeNode" where
  "cell2 s p q par k v n \<equiv>
     \<lparr>nd_children = kids2 s p q, nd_parent = par, nd_key = k, nd_value = v, nd_height = n\<rparr>"

lemma cell2_simps [simp]:
  "kids2 s p q s = p" "kids2 s p q (other s) = q"
  "set_child s z (cell2 s p q par k v n) = cell2 s z q par k v n"
  "set_child (other s) z (cell2 s p q par k v n) = cell2 s p z par k v n"
  by (cases s; simp add: set_child_def)+

lemma bin_simps [simp]: "root (bin s a k v n x y) = Some a" "ht (bin s a k v n x y) = n"
  "adr (bin s a k v n x y) = insert a (adr x \<union> adr y)"
  "dist (bin s a k v n x y) \<longleftrightarrow> dist x \<and> dist y \<and> a \<notin> adr x \<and> a \<notin> adr y \<and> adr x \<inter> adr y = {}"
  "tr h par (bin s a k v n x y) \<longleftrightarrow> h a = Some (cell2 s (root x) (root y) par k v n) \<and> tr h (Some a) x \<and> tr h (Some a) y"
  by (cases s; auto)+

lemma update_height_bin:
  assumes "h a = Some (cell2 s (root x) (root y) par k v n)" "tr h p x" "tr h q y"
  shows "avl_tree_update_height h (Some a) = Some (h(a \<mapsto> cell2 s (root x) (root y) par k v (1 + max (ht x) (ht y))))"
proof (cases s)
  case AVL_TREE_NODE_LEFT
  then show ?thesis using update_height_ok[of h a "cell (root x) (root y) par k v n" x y p q] assms by simp
next
  case AVL_TREE_NODE_RIGHT
  then show ?thesis using update_height_ok[of h a "cell (root y) (root x) par k v n" y x q p] assms
    by (simp add: max.commute)
qed

lemma rotate_ok:
  assumes "whole h tree (plug (bin d a k v n l (bin d b kb vb nb m r)) fs)"
  shows "\<exists>h' n'. avl_tree_rotate h tree (Some a) d = Some (Some b, h', tree\<lparr>avl_root_node := top_of (Some b) fs\<rparr>) \<and>
           whole h' (tree\<lparr>avl_root_node := top_of (Some b) fs\<rparr>)
             (plug (bin d b kb vb n' (bin d a k v (1 + max (ht l) (ht m)) l m) r) (touch nb fs)) \<and>
           (\<forall>x. x \<notin> adr (plug (bin d a k v n l (bin d b kb vb nb m r)) fs) \<longrightarrow> h' x = h x)"
proof -
  let ?t = "bin d b kb vb nb m r" and ?par = "par_of NULL fs" and ?tree = "tree\<lparr>avl_root_node := top_of (Some b) fs\<rparr>"
  note w = assms[unfolded whole_plug]
  have e: "h a = Some (cell2 d (root l) (Some b) ?par k v n)" "tr h (Some a) l" "tr h (Some a) ?t" using w by auto
  have d: "a \<noteq> b" "a \<notin> adr l" "a \<notin> adr m" "a \<notin> adr r" "b \<notin> adr l" "b \<notin> adr m" "b \<notin> adr r" "a \<notin> fadr fs" "b \<notin> fadr fs"
      "dist l" "dist m" "dist r" "fdist fs" "adr l \<inter> adr m = {}" "adr l \<inter> adr r = {}" "adr m \<inter> adr r = {}"
      "adr l \<inter> fadr fs = {}" "adr m \<inter> fadr fs = {}" "adr r \<inter> fadr fs = {}"
    using w by auto
  have "\<exists>h1. avl_tree_node_replace h tree (Some a) (root ?t) = Some (h1, tree\<lparr>avl_root_node := top_of (root ?t) fs\<rparr>) \<and>
      tr h1 ?par ?t \<and> ctx h1 NULL (touch (ht ?t) fs) (root ?t) \<and> (\<forall>x. x \<notin> adr ?t \<union> fadr fs \<longrightarrow> h1 x = h x)"
    by (rule node_replace_ok[OF e(1) _ _ e(3)]) (use w d in auto)
  then obtain h1 where h1: "avl_tree_node_replace h tree (Some a) (Some b) = Some (h1, ?tree)"
      "tr h1 ?par ?t" "ctx h1 NULL (touch nb fs) (Some b)" "\<forall>x. x \<notin> adr ?t \<union> fadr fs \<longrightarrow> h1 x = h x" by auto
  have h1a: "h1 a = Some (cell2 d (root l) (Some b) ?par k v n)" using h1(4) e(1) d by auto
  have h1l: "tr h1 (Some a) l" by (rule tr_frame[OF e(2) h1(4)]) (use d in auto)
  define h2 where "h2 = h1(b \<mapsto> cell2 d (Some a) (root r) ?par kb vb nb, a \<mapsto> cell2 d (root l) (root m) (Some b) k v n)"
  have "tr h2 (Some b) m" using h1(2) d by (simp add: h2_def)
  from set_parent_ok[OF this d(11), of "Some a"] obtain h3 where
    h3: "set_parent h2 (root m) (Some a) = Some h3" "tr h3 (Some a) m" "\<forall>x. x \<notin> adr m \<longrightarrow> h3 x = h2 x" by blast
  have h3': "h3 a = Some (cell2 d (root l) (root m) (Some b) k v n)" "h3 b = Some (cell2 d (Some a) (root r) ?par kb vb nb)"
    using h3(3) d by (auto simp: h2_def)
  have "tr h2 (Some a) l" "tr h2 (Some b) r" "ctx h2 NULL (touch nb fs) (Some b)" using h1l h1(2,3) d by (simp_all add: h2_def)
  then have h3t: "tr h3 (Some a) l" "tr h3 (Some b) r" "ctx h3 NULL (touch nb fs) (Some b)"
    using tr_frame[OF _ h3(3)] ctx_frame[OF _ h3(3)] d by (auto simp: Int_commute)
  let ?a = "bin d a k v n l m"
  define n' where "n' = 1 + max (ht ?a) (ht r)"
  have "avl_tree_update_height h3 (Some b) = Some (h3(b \<mapsto> cell2 d (root ?a) (root r) ?par kb vb n'))"
    unfolding n'_def by (rule update_height_bin[of _ _ _ _ _ _ _ _ nb "Some b" "Some b"]) (use h3' h3t h3(2) in auto)
  then have h4: "avl_tree_update_height h3 (Some b) = Some (h3(b \<mapsto> cell2 d (Some a) (root r) ?par kb vb n'))" by simp
  let ?h = "h3(b \<mapsto> cell2 d (Some a) (root r) ?par kb vb n')"
  let ?h' = "?h(a \<mapsto> cell2 d (root l) (root m) (Some b) k v (1 + max (ht l) (ht m)))"
  have h5: "avl_tree_update_height ?h (Some a) = Some ?h'"
    by (rule update_height_bin[of _ _ _ _ _ _ _ _ n "Some a" "Some a"]) (use h3'(1) h3t(1) h3(2) d in auto)
  have "avl_tree_rotate h tree (Some a) d = Some (Some b, ?h', ?tree)"
    using e(1) h1(1,2) h1a h3(1) h4 h5 d unfolding h2_def avl_tree_rotate_def Let_def by (simp add: fun_upd_twist)
  moreover have "ctx ?h' NULL (touch nb fs) (Some b)" using h3t(3) d by simp
  then have "whole ?h' ?tree (plug (bin d b kb vb n' (bin d a k v (1 + max (ht l) (ht m)) l m) r) (touch nb fs))"
    using h3t h3(2) d by (auto simp: whole_plug)
  moreover have "\<forall>x. x \<notin> adr (plug (bin d a k v n l ?t) fs) \<longrightarrow> ?h' x = h x"
    using h3(3) h1(4) by (auto simp: adr_plug h2_def)
  ultimately show ?thesis by blast
qed

text \<open>What an operation does to the whole tree: the heap changes only inside of it.\<close>

definition moves :: "('k, 'v) aheap \<Rightarrow> 'k AVLTree \<Rightarrow> ('k, 'v) atree \<Rightarrow> ('k, 'v) aheap \<Rightarrow> 'k AVLTree \<Rightarrow> ('k, 'v) atree \<Rightarrow> bool" where
  "moves h tree t h' tree' t' \<longleftrightarrow> whole h' tree' t' \<and> (\<forall>x. x \<notin> adr t \<longrightarrow> h' x = h x) \<and> adr t' = adr t \<and>
     tree' = tree\<lparr>avl_root_node := root t'\<rparr>"

lemma moves_trans: "moves h tree t h1 tree1 t1 \<Longrightarrow> moves h1 tree1 t1 h2 tree2 t2 \<Longrightarrow> moves h tree t h2 tree2 t2"
  unfolding moves_def by auto

lemma moves_refl: "whole h tree t \<Longrightarrow> moves h tree t h tree t"
  by (simp add: moves_def whole_def)

lemma moves_whole: "moves h tree t h' tree' t' \<Longrightarrow> whole h' tree' t'"
  unfolding moves_def by blast

lemma rotate_left_ok:
  assumes "whole h tree (plug (Bin a k v n l (Bin b kb vb nb m r)) fs)"
  shows "\<exists>h' tree' n'. avl_tree_rotate h tree (Some a) AVL_TREE_NODE_LEFT = Some (Some b, h', tree') \<and>
           moves h tree (plug (Bin a k v n l (Bin b kb vb nb m r)) fs) h' tree'
             (plug (Bin b kb vb n' (join a k v l m) r) (touch nb fs))"
  using rotate_ok[of h tree AVL_TREE_NODE_LEFT a k v n l b kb vb nb m r fs] assms
  by (fastforce simp: moves_def adr_plug root_plug join_def)

lemma rotate_right_ok:
  assumes "whole h tree (plug (Bin a k v n (Bin b kb vb nb l m) r) fs)"
  shows "\<exists>h' tree' n'. avl_tree_rotate h tree (Some a) AVL_TREE_NODE_RIGHT = Some (Some b, h', tree') \<and>
           moves h tree (plug (Bin a k v n (Bin b kb vb nb l m) r) fs) h' tree'
             (plug (Bin b kb vb n' l (join a k v m r)) (touch nb fs))"
  using rotate_ok[of h tree AVL_TREE_NODE_RIGHT a k v n r b kb vb nb m l fs] assms
  by (fastforce simp: moves_def adr_plug root_plug join_def max.commute)

lemma update_root_ok:
  assumes "whole h tree (plug (Bin a k v n l r) fs)"
  shows "\<exists>h'. avl_tree_update_height h (Some a) = Some h' \<and> moves h tree (plug (Bin a k v n l r) fs) h' tree (plug (join a k v l r) fs)"
proof -
  note w = assms[unfolded whole_plug]
  have "avl_tree_update_height h (Some a) = Some (h(a \<mapsto> cell (root l) (root r) (par_of NULL fs) k v (1 + max (ht l) (ht r))))"
    using w update_height_ok[of h a "cell (root l) (root r) (par_of NULL fs) k v n" l r "Some a" "Some a"] by auto
  then show ?thesis using w by (auto simp: moves_def whole_plug adr_plug root_plug join_def)
qed

section \<open>Balancing\<close>

text \<open>The frames agree up to the height stored in the innermost.\<close>

definition retouched :: "('k, 'v) frame list \<Rightarrow> ('k, 'v) frame list \<Rightarrow> bool" where
  "retouched fs fs' \<longleftrightarrow> fs' = fs \<or> (\<exists>m. fs' = touch m fs)"

definition balances :: "('k, 'v) aheap \<Rightarrow> 'k AVLTree \<Rightarrow> ('k, 'v) atree \<Rightarrow> ('k, 'v) frame list \<Rightarrow> bool" where
  "balances h tree t fs \<longleftrightarrow> (\<exists>h' tree' fs'. avl_tree_node_balance h tree (root t) = Some (root (rebalance t), h', tree') \<and>
     moves h tree (plug t fs) h' tree' (plug (rebalance t) fs') \<and> retouched fs fs')"

lemma child_heights:
  assumes "whole h tree (plug (Bin a k v n l r) fs)"
  shows "h a = Some (cell (root l) (root r) (par_of NULL fs) k v n)"
    "avl_tree_subtree_height h (root l) = Some (ht l)" "avl_tree_subtree_height h (root r) = Some (ht r)"
  using assms subtree_height_ok[of h _ l] subtree_height_ok[of h _ r] unfolding whole_plug by auto

lemma balances_left1:
  assumes w: "whole h tree (plug (Bin a k v n l (Bin b kb vb nb rl rr)) fs)"
    and c: "nb - ht l \<ge> 2" "\<not> ht rr < ht rl"
  shows "balances h tree (Bin a k v n l (Bin b kb vb nb rl rr)) fs"
proof -
  let ?t = "Bin a k v n l (Bin b kb vb nb rl rr)"
  have e: "h b = Some (cell (root rl) (root rr) (Some a) kb vb nb)" "avl_tree_subtree_height h (root rl) = Some (ht rl)"
      "avl_tree_subtree_height h (root rr) = Some (ht rr)"
    using child_heights[of h tree b kb vb nb rl rr "Frame AVL_TREE_NODE_RIGHT a k v n l # fs"] w by auto
  obtain h1 tree1 n' where r: "avl_tree_rotate h tree (Some a) AVL_TREE_NODE_LEFT = Some (Some b, h1, tree1)"
      "moves h tree (plug ?t fs) h1 tree1 (plug (Bin b kb vb n' (join a k v l rl) rr) (touch nb fs))"
    using rotate_left_ok[OF w] by blast
  obtain h2 where u: "avl_tree_update_height h1 (Some b) = Some h2"
      "moves h1 tree1 (plug (Bin b kb vb n' (join a k v l rl) rr) (touch nb fs)) h2 tree1 (plug (join b kb vb (join a k v l rl) rr) (touch nb fs))"
    using update_root_ok[OF moves_whole[OF r(2)]] by blast
  have "avl_tree_node_balance h tree (Some a) = Some (Some b, h2, tree1)"
    using child_heights[OF w] e c r(1) u(1) by (simp add: avl_tree_node_balance_def Let_def)
  then show ?thesis using moves_trans[OF r(2) u(2)] c
    unfolding balances_def by (auto simp: rebalance.simps join_def retouched_def)
qed

lemma balances_left2:
  assumes w: "whole h tree (plug (Bin a k v n l (Bin b kb vb nb (Bin c kc vc nc x y) rr)) fs)"
    and c: "nb - ht l \<ge> 2" "ht rr < nc"
  shows "balances h tree (Bin a k v n l (Bin b kb vb nb (Bin c kc vc nc x y) rr)) fs"
proof -
  let ?rl = "Bin c kc vc nc x y"
  let ?t = "Bin a k v n l (Bin b kb vb nb ?rl rr)" and ?f = "\<lambda>m. Frame AVL_TREE_NODE_RIGHT a k v m l"
  have w1: "whole h tree (plug (Bin b kb vb nb ?rl rr) (?f n # fs))" using w by simp
  have e: "h b = Some (cell (Some c) (root rr) (Some a) kb vb nb)" "avl_tree_subtree_height h (Some c) = Some nc"
      "avl_tree_subtree_height h (root rr) = Some (ht rr)"
    using child_heights[OF w1] by auto
  obtain h1 tree1 n1 where r1: "avl_tree_rotate h tree (Some b) AVL_TREE_NODE_RIGHT = Some (Some c, h1, tree1)"
      "moves h tree (plug (Bin b kb vb nb ?rl rr) (?f n # fs)) h1 tree1 (plug (Bin c kc vc n1 x (join b kb vb y rr)) (touch nc (?f n # fs)))"
    using rotate_right_ok[OF w1] by blast
  obtain m where m: "moves h tree (plug ?t fs) h1 tree1 (plug (Bin a k v m l (Bin c kc vc n1 x (join b kb vb y rr))) fs)"
    using r1(2) by auto
  obtain h2 tree2 n2 where r2: "avl_tree_rotate h1 tree1 (Some a) AVL_TREE_NODE_LEFT = Some (Some c, h2, tree2)"
      "moves h1 tree1 (plug (Bin a k v m l (Bin c kc vc n1 x (join b kb vb y rr))) fs) h2 tree2
        (plug (Bin c kc vc n2 (join a k v l x) (join b kb vb y rr)) (touch n1 fs))"
    using rotate_left_ok[OF moves_whole[OF m]] by blast
  obtain h3 where u: "avl_tree_update_height h2 (Some c) = Some h3"
      "moves h2 tree2 (plug (Bin c kc vc n2 (join a k v l x) (join b kb vb y rr)) (touch n1 fs)) h3 tree2
        (plug (join c kc vc (join a k v l x) (join b kb vb y rr)) (touch n1 fs))"
    using update_root_ok[OF moves_whole[OF r2(2)]] by blast
  have "avl_tree_node_balance h tree (Some a) = Some (Some c, h3, tree2)"
    using child_heights[OF w] e c r1(1) r2(1) u(1) by (simp add: avl_tree_node_balance_def Let_def)
  then show ?thesis using moves_trans[OF moves_trans[OF m r2(2)] u(2)] c
    unfolding balances_def by (auto simp: rebalance.simps join_def retouched_def)
qed

lemma balances_right1:
  assumes w: "whole h tree (plug (Bin a k v n (Bin b kb vb nb ll lr) r) fs)"
    and c: "ht r - nb \<le> - 2" "\<not> ht ll < ht lr"
  shows "balances h tree (Bin a k v n (Bin b kb vb nb ll lr) r) fs"
proof -
  let ?t = "Bin a k v n (Bin b kb vb nb ll lr) r"
  have e: "h b = Some (cell (root ll) (root lr) (Some a) kb vb nb)" "avl_tree_subtree_height h (root ll) = Some (ht ll)"
      "avl_tree_subtree_height h (root lr) = Some (ht lr)"
    using child_heights[of h tree b kb vb nb ll lr "Frame AVL_TREE_NODE_LEFT a k v n r # fs"] w by auto
  obtain h1 tree1 n' where r: "avl_tree_rotate h tree (Some a) AVL_TREE_NODE_RIGHT = Some (Some b, h1, tree1)"
      "moves h tree (plug ?t fs) h1 tree1 (plug (Bin b kb vb n' ll (join a k v lr r)) (touch nb fs))"
    using rotate_right_ok[OF w] by blast
  obtain h2 where u: "avl_tree_update_height h1 (Some b) = Some h2"
      "moves h1 tree1 (plug (Bin b kb vb n' ll (join a k v lr r)) (touch nb fs)) h2 tree1 (plug (join b kb vb ll (join a k v lr r)) (touch nb fs))"
    using update_root_ok[OF moves_whole[OF r(2)]] by blast
  have "avl_tree_node_balance h tree (Some a) = Some (Some b, h2, tree1)"
    using child_heights[OF w] e c r(1) u(1) by (simp add: avl_tree_node_balance_def Let_def)
  then show ?thesis using moves_trans[OF r(2) u(2)] c
    unfolding balances_def by (auto simp: rebalance.simps join_def retouched_def)
qed

lemma balances_right2:
  assumes w: "whole h tree (plug (Bin a k v n (Bin b kb vb nb ll (Bin c kc vc nc x y)) r) fs)"
    and c: "ht r - nb \<le> - 2" "ht ll < nc"
  shows "balances h tree (Bin a k v n (Bin b kb vb nb ll (Bin c kc vc nc x y)) r) fs"
proof -
  let ?lr = "Bin c kc vc nc x y"
  let ?t = "Bin a k v n (Bin b kb vb nb ll ?lr) r" and ?f = "\<lambda>m. Frame AVL_TREE_NODE_LEFT a k v m r"
  have w1: "whole h tree (plug (Bin b kb vb nb ll ?lr) (?f n # fs))" using w by simp
  have e: "h b = Some (cell (root ll) (Some c) (Some a) kb vb nb)" "avl_tree_subtree_height h (Some c) = Some nc"
      "avl_tree_subtree_height h (root ll) = Some (ht ll)"
    using child_heights[OF w1] by auto
  obtain h1 tree1 n1 where r1: "avl_tree_rotate h tree (Some b) AVL_TREE_NODE_LEFT = Some (Some c, h1, tree1)"
      "moves h tree (plug (Bin b kb vb nb ll ?lr) (?f n # fs)) h1 tree1 (plug (Bin c kc vc n1 (join b kb vb ll x) y) (touch nc (?f n # fs)))"
    using rotate_left_ok[OF w1] by blast
  obtain m where m: "moves h tree (plug ?t fs) h1 tree1 (plug (Bin a k v m (Bin c kc vc n1 (join b kb vb ll x) y) r) fs)"
    using r1(2) by auto
  obtain h2 tree2 n2 where r2: "avl_tree_rotate h1 tree1 (Some a) AVL_TREE_NODE_RIGHT = Some (Some c, h2, tree2)"
      "moves h1 tree1 (plug (Bin a k v m (Bin c kc vc n1 (join b kb vb ll x) y) r) fs) h2 tree2
        (plug (Bin c kc vc n2 (join b kb vb ll x) (join a k v y r)) (touch n1 fs))"
    using rotate_right_ok[OF moves_whole[OF m]] by blast
  obtain h3 where u: "avl_tree_update_height h2 (Some c) = Some h3"
      "moves h2 tree2 (plug (Bin c kc vc n2 (join b kb vb ll x) (join a k v y r)) (touch n1 fs)) h3 tree2
        (plug (join c kc vc (join b kb vb ll x) (join a k v y r)) (touch n1 fs))"
    using update_root_ok[OF moves_whole[OF r2(2)]] by blast
  have "avl_tree_node_balance h tree (Some a) = Some (Some c, h3, tree2)"
    using child_heights[OF w] e c r1(1) r2(1) u(1) by (simp add: avl_tree_node_balance_def Let_def)
  then show ?thesis using moves_trans[OF moves_trans[OF m r2(2)] u(2)] c
    unfolding balances_def by (auto simp: rebalance.simps join_def retouched_def)
qed

lemma balances_none:
  assumes w: "whole h tree (plug (Bin a k v n l r) fs)" and c: "\<not> ht r - ht l \<ge> 2" "\<not> ht r - ht l \<le> - 2"
  shows "balances h tree (Bin a k v n l r) fs"
proof -
  obtain h2 where u: "avl_tree_update_height h (Some a) = Some h2"
      "moves h tree (plug (Bin a k v n l r) fs) h2 tree (plug (join a k v l r) fs)"
    using update_root_ok[OF w] by blast
  have "avl_tree_node_balance h tree (Some a) = Some (Some a, h2, tree)"
    using child_heights[OF w] c u(1) by (simp add: avl_tree_node_balance_def Let_def)
  then show ?thesis using u(2) c unfolding balances_def by (auto simp: rebalance.simps join_def retouched_def)
qed

lemma node_balance_ok:
  assumes w: "whole h tree (plug (Bin a k v n l r) fs)" and a: "avl l" "avl r"
  shows "balances h tree (Bin a k v n l r) fs"
proof -
  consider "ht r - ht l \<ge> 2" | "ht r - ht l \<le> - 2" | "\<not> ht r - ht l \<ge> 2" "\<not> ht r - ht l \<le> - 2" by blast
  then show ?thesis
  proof cases
    case 1
    then obtain b kb vb nb rl rr where r: "r = Bin b kb vb nb rl rr" using avl_pos[OF a(2)] ht_nonneg[OF a(1)] by fastforce
    have h: "avl rl" "avl rr" using a r by auto
    show ?thesis
    proof (cases "ht rr < ht rl")
      case True
      then obtain c kc vc nc x y where "rl = Bin c kc vc nc x y" using avl_pos[OF h(1)] ht_nonneg[OF h(2)] by fastforce
      then show ?thesis using balances_left2 w 1 True r by auto
    qed (use balances_left1 w 1 r in auto)
  next
    case 2
    then obtain b kb vb nb ll lr where l: "l = Bin b kb vb nb ll lr" using avl_pos[OF a(1)] ht_nonneg[OF a(2)] by fastforce
    have h: "avl ll" "avl lr" using a l by auto
    show ?thesis
    proof (cases "ht ll < ht lr")
      case True
      then obtain c kc vc nc x y where "lr = Bin c kc vc nc x y" using avl_pos[OF h(2)] ht_nonneg[OF h(1)] by fastforce
      then show ?thesis using balances_right2 w 2 True l by auto
    qed (use balances_right1 w 2 l in auto)
  next
    case 3
    then show ?thesis by (rule balances_none[OF w])
  qed
qed

lemma whole_root:
  assumes "whole h tree (plug t fs)" "t \<noteq> Tip"
  shows "\<exists>a e. root t = Some a \<and> h a = Some e \<and> nd_parent e = par_of NULL fs"
  using assms by (cases t) (auto simp: whole_plug)

lemma retouched_Nil: "retouched [] fs \<longleftrightarrow> fs = []"
  by (auto simp: retouched_def)

lemma retouched_Cons: "retouched (Frame s a k v n sib # fs) gs \<Longrightarrow> \<exists>m. gs = Frame s a k v m sib # fs"
  by (auto simp: retouched_def)

lemma balance_to_root_ok:
  assumes "whole h tree (plug t fs)" "nearly_avl t" "\<bar>ht (rebalance t) - n\<bar> \<le> 1" "frames_ok n fs"
  shows "\<exists>h' tree'. avl_tree_balance_to_root h tree (root t) = Some (h', tree') \<and> moves h tree (plug t fs) h' tree' (climb t fs)"
  using assms
proof (induction fs arbitrary: h tree t n)
  case Nil
  obtain a k v m l r where t: "t = Bin a k v m l r" "avl l" "avl r" using Nil.prems(2) by (cases t) auto
  obtain h1 tree1 where b: "avl_tree_node_balance h tree (root t) = Some (root (rebalance t), h1, tree1)"
      "moves h tree t h1 tree1 (rebalance t)"
    using node_balance_ok[of h tree a k v m l r "[]"] Nil.prems(1) t by (auto simp: balances_def retouched_Nil)
  have "rebalance t \<noteq> Tip" using nodes_rebalance[OF Nil.prems(2)] t(1) by auto
  then obtain c e where "root (rebalance t) = Some c" "h1 c = Some e" "nd_parent e = NULL"
    using whole_root[of h1 tree1 "rebalance t" "[]"] moves_whole[OF b(2)] by auto
  then have "avl_tree_balance_to_root h tree (root t) = Some (h1, tree1)"
    using b(1) t(1) by (subst avl_tree_balance_to_root.simps) (simp add: avl_tree_balance_to_root.simps[of h1 tree1 NULL])
  then show ?case using b(2) by simp
next
  case (Cons f fs)
  obtain s b kb vb nb sib where f: "f = Frame s b kb vb nb sib" by (cases f)
  obtain a k v m l r where t: "t = Bin a k v m l r" "avl l" "avl r" using Cons.prems(2) by (cases t) auto
  have "balances h tree t (f # fs)" using Cons.prems(1) t(2,3) unfolding t(1) by (rule node_balance_ok)
  then obtain h1 tree1 nb' where b: "avl_tree_node_balance h tree (root t) = Some (root (rebalance t), h1, tree1)"
      "moves h tree (plug t (f # fs)) h1 tree1 (plug (rebalance t) (Frame s b kb vb nb' sib # fs))"
    using retouched_Cons unfolding balances_def f by metis
  let ?u = "fill (Frame s b kb vb nb' sib) (rebalance t)"
  have "rebalance t \<noteq> Tip" using nodes_rebalance[OF Cons.prems(2)] t(1) by auto
  then obtain c e where c: "root (rebalance t) = Some c" "h1 c = Some e" "nd_parent e = Some b"
    using whole_root[OF moves_whole[OF b(2)]] by auto
  have u: "nearly_avl ?u" "\<bar>ht (rebalance ?u) - (1 + max n (ht sib))\<bar> \<le> 1" "root ?u = Some b"
    using fill_step[of "rebalance t" n sib s b kb vb nb'] avl_rebalance[OF Cons.prems(2)] Cons.prems(3,4) f
    by (auto simp: root_fill[of _ _ NULL "[]"])
  have mu: "moves h tree (plug t (f # fs)) h1 tree1 (plug ?u fs)" using b(2) by simp
  obtain h2 tree2 where r: "avl_tree_balance_to_root h1 tree1 (Some b) = Some (h2, tree2)" "moves h1 tree1 (plug ?u fs) h2 tree2 (climb ?u fs)"
    using Cons.IH[OF moves_whole[OF mu] u(1,2)] Cons.prems(4) f u(3) by auto
  have "avl_tree_balance_to_root h tree (root t) = Some (h2, tree2)"
    using b(1) t(1) c r(1) by (subst avl_tree_balance_to_root.simps) simp
  moreover have "climb ?u fs = climb t (f # fs)" using climb_cong[OF rebalance_fill_height] f by simp
  ultimately show ?case using moves_trans[OF mu r(2)] by metis
qed

text \<open>From the parent of a hole whose tree has just changed.\<close>

lemma balance_from_ok:
  assumes "whole h tree (plug t fs)" "avl t" "\<bar>ht t - n\<bar> \<le> 1" "frames_ok n fs"
  shows "\<exists>h' tree'. avl_tree_balance_to_root h tree (par_of NULL fs) = Some (h', tree') \<and>
           moves h tree (plug t fs) h' tree' (climb_from t fs)"
proof (cases fs)
  case Nil
  then show ?thesis using moves_refl assms(1) by (auto simp: avl_tree_balance_to_root.simps)
next
  case (Cons f gs)
  obtain s b kb vb nb sib where f: "f = Frame s b kb vb nb sib" by (cases f)
  have "root (fill f t) = par_of NULL fs" using root_fill Cons by metis
  then show ?thesis
    using balance_to_root_ok[of h tree "fill f t" gs "1 + max n (ht sib)"] fill_step[of t n sib s b kb vb nb] assms Cons f by auto
qed

end
