(* ===== verification/AVL_Ops.thy ===== *)
theory AVL_Ops
  imports AVL_Heap
begin

text \<open>
  Insertion, lookup and the unlinking of a replacement node in the AVL tree of \<open>avl-tree.c\<close>, on trees
  that lie in the heap.
\<close>

section \<open>Insertion\<close>

fun loc_of :: "('k, 'v) frame list \<Rightarrow> aloc" where
  "loc_of [] = RootNode"
| "loc_of (Frame s a k v n sib # fs) = Child a s"

lemma aloc_read_ok: "whole h tree (plug t fs) \<Longrightarrow> aloc_read h tree (loc_of fs) = Some (root t)"
  unfolding whole_plug
  by (cases "(h, NULL, fs, root t)" rule: ctx.cases) (auto simp: aloc_read_def)

lemma insert_walk_ok:
  "whole h tree (plug t fs) \<Longrightarrow> avl_insert_walk h tree key (loc_of fs) (par_of NULL fs) =
     Some (loc_of (descend (avl_compare_func tree) key t fs), par_of NULL (descend (avl_compare_func tree) key t fs))"
proof (induction t arbitrary: fs)
  case Tip
  then show ?case using aloc_read_ok[OF Tip] by (subst avl_insert_walk.simps) simp
next
  case (Bin a k v n l r)
  have r: "aloc_read h tree (loc_of fs) = Some (Some a)" using aloc_read_ok[OF Bin.prems] by simp
  have h: "h a = Some (cell (root l) (root r) (par_of NULL fs) k v n)" using child_heights(1)[OF Bin.prems] .
  have w: "whole h tree (plug l (Frame AVL_TREE_NODE_LEFT a k v n r # fs))"
      "whole h tree (plug r (Frame AVL_TREE_NODE_RIGHT a k v n l # fs))" using Bin.prems by auto
  show ?case using r h Bin.IH(1)[OF w(1)] Bin.IH(2)[OF w(2)] by (subst avl_insert_walk.simps) simp
qed

lemma whole_alloc: "whole h tree t \<Longrightarrow> a \<in> adr t \<Longrightarrow> h a \<noteq> None"
proof -
  have "tr h p t \<Longrightarrow> a \<in> adr t \<Longrightarrow> h a \<noteq> None" for p by (induction t arbitrary: p) auto
  then show "whole h tree t \<Longrightarrow> a \<in> adr t \<Longrightarrow> h a \<noteq> None" by (auto simp: whole_def)
qed

lemma aloc_write_ok:
  assumes "whole h tree (plug Tip fs)" "h a = None"
  shows "\<exists>h' tree'. aloc_write (h(a \<mapsto> cell NULL NULL (par_of NULL fs) k v 1)) tree (loc_of fs) (Some a) = Some (h', tree') \<and>
           whole h' tree' (plug (Bin a k v 1 Tip Tip) fs) \<and> tree' = tree\<lparr>avl_root_node := root (plug (Bin a k v 1 Tip Tip) fs)\<rparr> \<and>
           (\<forall>x. x \<notin> insert a (fadr fs) \<longrightarrow> h' x = h x)"
proof -
  have a: "a \<notin> fadr fs" using whole_alloc[OF assms(1), of a] assms(2) by (auto simp: adr_plug)
  note w = assms(1)[unfolded whole_plug]
  show ?thesis
  proof (cases fs)
    case Nil
    then show ?thesis using w by (auto simp: aloc_write_def whole_def)
  next
    case (Cons f gs)
    obtain s b kb vb nb sib where f: "f = Frame s b kb vb nb sib" by (cases f)
    show ?thesis using w a Cons f by (cases s) (auto simp: aloc_write_def whole_plug root_plug)
  qed
qed

text \<open>An AVL tree in the heap with the given nodes in order.\<close>

definition avl_holds :: "('k, 'v) aheap \<Rightarrow> 'k AVLTree \<Rightarrow> (addr \<times> 'k \<times> 'v) list \<Rightarrow> bool" where
  "avl_holds h tree xs \<longleftrightarrow> (\<exists>t. whole h tree t \<and> avl t \<and> nodes t = xs) \<and>
     comparator (avl_compare_func tree) \<and> ordered (avl_compare_func tree) xs \<and> avl_num_nodes tree = int (length xs)"

lemma avl_holdsE:
  assumes "avl_holds h tree xs"
  obtains t where "whole h tree t" "avl t" "nodes t = xs" "comparator (avl_compare_func tree)"
    "ordered (avl_compare_func tree) xs" "avl_num_nodes tree = int (length xs)"
  using assms by (auto simp: avl_holds_def)

lemma ordered_insert:
  assumes "comparator cmp" "ordered cmp (xs @ ys)" "splits_at cmp k xs ys"
  shows "ordered cmp (xs @ (a, k, v) # ys)"
  using assms(2,3) comparator.cmp_trans[OF assms(1)] by (auto simp: ordered_append splits_at_def order_less_imp_le)

lemma avl_insert_ok:
  assumes "avl_holds h tree zs" "h a = None" "int (length zs) < INT_MAX"
  shows "\<exists>h' tree' xs ys. avl_tree_insert (Some a) h tree k v = Some (Some a, h', tree') \<and> zs = xs @ ys \<and>
           splits_at (avl_compare_func tree) k xs ys \<and> avl_holds h' tree' (xs @ (a, k, v) # ys) \<and>
           avl_compare_func tree' = avl_compare_func tree \<and> (\<forall>x. x \<notin> insert a (fst ` set zs) \<longrightarrow> h' x = h x)"
proof -
  obtain t where t: "whole h tree t" "avl t" "nodes t = zs" "comparator (avl_compare_func tree)"
    "ordered (avl_compare_func tree) zs" "avl_num_nodes tree = int (length zs)" using avl_holdsE[OF assms(1)] .
  define fs where "fs = descend (avl_compare_func tree) k t []"
  have p: "plug Tip fs = t" using plug_descend[of _ k t "[]"] by (simp add: fs_def)
  have w: "whole h tree (plug Tip fs)" "frames_ok 0 fs" using t(1,2) avl_plug[of Tip fs] p by auto
  have walk: "avl_insert_walk h tree k RootNode NULL = Some (loc_of fs, par_of NULL fs)"
    using insert_walk_ok[of h tree t "[]" k] t(1) by (simp add: fs_def)
  let ?b = "Bin a k v 1 Tip Tip"
  obtain h1 tree1 where h1: "aloc_write (h(a \<mapsto> cell NULL NULL (par_of NULL fs) k v 1)) tree (loc_of fs) (Some a) = Some (h1, tree1)"
      "whole h1 tree1 (plug ?b fs)" "tree1 = tree\<lparr>avl_root_node := root (plug ?b fs)\<rparr>" "\<forall>x. x \<notin> insert a (fadr fs) \<longrightarrow> h1 x = h x"
    using aloc_write_ok[OF w(1) assms(2)] by blast
  obtain h2 tree2 where h2: "avl_tree_balance_to_root h1 tree1 (par_of NULL fs) = Some (h2, tree2)"
      "moves h1 tree1 (plug ?b fs) h2 tree2 (climb_from ?b fs)"
    using balance_from_ok[OF h1(2), of 0] w(2) by auto
  have tree2: "tree2 = tree\<lparr>avl_root_node := root (climb_from ?b fs)\<rparr>" using h2(2) h1(3) by (simp add: moves_def)
  let ?tree = "tree2\<lparr>avl_num_nodes := int (length zs) + 1\<rparr>"
  have "avl_tree_insert (Some a) h tree k v = Some (Some a, h2, ?tree)"
    using walk h1(1) h2(1) tree2 t(6) assms(3) by (simp add: avl_tree_insert_def Let_def const_kids)
  moreover have zs: "zs = before fs @ after fs" using p t(3) nodes_plug[of Tip fs] by simp
  moreover have s: "splits_at (avl_compare_func tree) k (before fs) (after fs)"
    using descend_splits[OF t(4), of t k "[]"] t(3,5) by (simp add: fs_def splits_at_def)
  moreover have "avl_holds h2 ?tree (before fs @ (a, k, v) # after fs)"
  proof -
    have "avl (climb_from ?b fs)" "nodes (climb_from ?b fs) = before fs @ (a, k, v) # after fs"
      using climb_from_ok[of ?b 0 fs] w(2) by (simp_all add: nodes_plug)
    moreover have "whole h2 ?tree (climb_from ?b fs)" using moves_whole[OF h2(2)] by (simp add: whole_def)
    ultimately show ?thesis using ordered_insert[OF t(4) _ s] t(4,5) zs tree2 unfolding avl_holds_def by auto
  qed
  moreover have "\<forall>x. x \<notin> insert a (fst ` set zs) \<longrightarrow> h2 x = h x"
    using h1(4) h2(2) zs by (auto simp: moves_def adr_plug fadr_def)
  ultimately show ?thesis using tree2 by (intro exI[of _ h2] exI[of _ ?tree]) auto
qed

lemma avl_insert_fails: "avl_holds h tree zs \<Longrightarrow> avl_tree_insert None h tree k v = Some (None, h, tree)"
  using insert_walk_ok[of h tree _ "[]" k] by (auto simp: avl_holds_def avl_tree_insert_def)

section \<open>Lookup\<close>

lemma lookup_loop_ok:
  "tr h par t \<Longrightarrow> avl_lookup_loop h tree key (root t) =
     Some (case find_node (avl_compare_func tree) key t fs of None \<Rightarrow> None | Some (u, gs) \<Rightarrow> root u)"
proof (induction t arbitrary: par fs)
  case (Bin a k v n l r)
  have e: "h a = Some (cell (root l) (root r) par k v n)" "tr h (Some a) l" "tr h (Some a) r" using Bin.prems by auto
  note l = Bin.IH(1)[OF e(2), of "Frame AVL_TREE_NODE_LEFT a k v n r # fs"]
    and r = Bin.IH(2)[OF e(3), of "Frame AVL_TREE_NODE_RIGHT a k v n l # fs"]
  show ?case
    unfolding avl_lookup_loop.simps[of h tree key "root (Bin a k v n l r)"] find_node.simps(2) Let_def
    using e(1) l r by simp
qed (simp add: avl_lookup_loop.simps)

lemma avl_lookup_node_ok:
  assumes "avl_holds h tree zs"
  shows "(\<exists>xs a k v ys. zs = xs @ (a, k, v) # ys \<and> avl_compare_func tree key k = 0 \<and> avl_tree_lookup_node h tree key = Some (Some a) \<and>
            (\<exists>e. h a = Some e \<and> nd_key e = k \<and> nd_value e = v)) \<or>
         (\<forall>x \<in> set zs. avl_compare_func tree key (key_of x) \<noteq> 0) \<and> avl_tree_lookup_node h tree key = Some None"
proof -
  obtain t where t: "whole h tree t" "avl t" "nodes t = zs" "comparator (avl_compare_func tree)"
    "ordered (avl_compare_func tree) zs" "avl_num_nodes tree = int (length zs)" using avl_holdsE[OF assms] .
  have l: "avl_tree_lookup_node h tree key =
      Some (case find_node (avl_compare_func tree) key t [] of None \<Rightarrow> None | Some (u, gs) \<Rightarrow> root u)"
    using lookup_loop_ok[of h NULL t tree key "[]"] t(1) by (simp add: avl_tree_lookup_node_def whole_def)
  show ?thesis
  proof (cases "find_node (avl_compare_func tree) key t []")
    case None
    then show ?thesis using find_node_None[OF t(4) _ None] t(3,5) l by auto
  next
    case (Some p)
    obtain u gs where u: "p = (u, gs)" by (cases p)
    from find_node_Some[OF Some[unfolded u]] obtain a k v n l r where
      f: "plug u gs = t" "u = Bin a k v n l r" "avl_compare_func tree key k = 0" by auto
    have "zs = (before gs @ nodes l) @ (a, k, v) # (nodes r @ after gs)"
      using t(3) f(1,2) nodes_plug[of u gs] by simp
    moreover have "h a = Some (cell (root l) (root r) (par_of NULL gs) k v n)" using child_heights(1)[of h tree a k v n l r gs] t(1) f(1,2) by simp
    moreover have "avl_tree_lookup_node h tree key = Some (Some a)" using l Some u f(2) by simp
    ultimately show ?thesis using f(3)
      by (intro disjI1 exI[of _ "before gs @ nodes l"] exI[of _ a] exI[of _ k] exI[of _ v] exI[of _ "nodes r @ after gs"]) simp
  qed
qed

section \<open>Removal\<close>

text \<open>Frames that agree up to the stored heights.\<close>

fun same_frame :: "('k, 'v) frame \<Rightarrow> ('k, 'v) frame \<Rightarrow> bool" where
  "same_frame (Frame s a k v n sib) (Frame s' a' k' v' n' sib') \<longleftrightarrow> s = s' \<and> a = a' \<and> k = k' \<and> v = v' \<and> sib = sib'"

abbreviation same_frames :: "('k, 'v) frame list \<Rightarrow> ('k, 'v) frame list \<Rightarrow> bool" where
  "same_frames \<equiv> list_all2 same_frame"

lemma same_frame_refl [simp]: "same_frame f f"
  by (cases f) simp

lemma same_frames_refl [simp]: "same_frames fs fs"
  by (simp add: list_all2_refl)

lemma same_frames_touch [simp]: "same_frames fs (touch m fs)"
  by (cases "(m, fs)" rule: touch.cases) auto

lemma same_frameE:
  assumes "same_frame f g"
  obtains s a k v n m sib where "f = Frame s a k v n sib" "g = Frame s a k v m sib"
  using assms by (cases "(f, g)" rule: same_frame.cases) simp

lemma top_of_const: "fs \<noteq> [] \<Longrightarrow> top_of p fs = top_of q fs"
  by (cases "(p, fs)" rule: top_of.cases) auto

lemma frames_ok_same: "same_frames fs gs \<Longrightarrow> frames_ok n fs \<longleftrightarrow> frames_ok n gs"
proof (induction fs gs arbitrary: n rule: list_all2_induct)
  case (Cons f fs g gs)
  obtain s a k v m m' sib where f: "f = Frame s a k v m sib" "g = Frame s a k v m' sib"
    by (rule same_frameE[OF Cons.hyps(1)])
  then show ?case using Cons.IH[of "1 + max n (ht sib)"] by simp
qed simp

lemma climb_same: "same_frames fs gs \<Longrightarrow> climb t fs = climb t gs"
proof (induction fs gs arbitrary: t rule: list_all2_induct)
  case (Cons f fs g gs)
  obtain s a k v n m sib where f: "f = Frame s a k v n sib" "g = Frame s a k v m sib"
    by (rule same_frameE[OF Cons.hyps(1)])
  have "climb t (f # fs) = climb (fill f (rebalance t)) gs" using Cons.IH by simp
  also have "\<dots> = climb (fill g (rebalance t)) gs" unfolding f by (rule climb_cong[OF rebalance_fill_height])
  finally show ?case by simp
qed simp

lemma climb_from_same:
  assumes "same_frames fs gs"
  shows "climb_from t fs = climb_from t gs"
proof (cases fs)
  case (Cons f fs')
  then obtain g gs' where g: "gs = g # gs'" "same_frame f g" "same_frames fs' gs'" using assms by (auto simp: list_all2_Cons1)
  obtain s a k v n m sib where f: "f = Frame s a k v n sib" "g = Frame s a k v m sib"
    by (rule same_frameE[OF g(2)])
  have "climb (fill f t) gs' = climb (fill g t) gs'" unfolding f by (rule climb_cong[OF rebalance_fill_height])
  then show ?thesis using Cons g(1) climb_same[OF g(3)] by simp
qed (use assms in simp)

lemma par_of_append: "par_of b (fs @ gs) = par_of (par_of b gs) fs"
  by (cases "(b, fs)" rule: par_of.cases) auto

lemma search_down_ok:
  "extreme s w gs = (u, hs) \<Longrightarrow> w \<noteq> Tip \<Longrightarrow> tr h par w \<Longrightarrow> avl_search_down h s (root w) = Some (root u)"
proof (induction s w gs arbitrary: u hs par rule: extreme.induct)
  case (2 a k v n l r gs)
  then show ?case by (subst avl_search_down.simps) (auto split: if_splits)
next
  case (3 a k v n l r gs)
  then show ?case by (subst avl_search_down.simps) (auto split: if_splits)
qed simp

lemma update_parent_ok:
  assumes "whole h tree (plug t fs)" "fs \<noteq> []"
  shows "\<exists>h'. avl_tree_update_height h (par_of NULL fs) = Some h' \<and> whole h' tree (plug t (touch (ht t) fs)) \<and>
           (\<forall>x. x \<notin> adr (plug t fs) \<longrightarrow> h' x = h x)"
proof -
  obtain s a k v n sib gs where f: "fs = Frame s a k v n sib # gs" using assms(2) by (metis frame.exhaust list.exhaust)
  show ?thesis
  proof (cases s)
    case AVL_TREE_NODE_LEFT
    then show ?thesis using update_root_ok[of h tree a k v n t sib gs] assms(1) f by (auto simp: moves_def join_def)
  next
    case AVL_TREE_NODE_RIGHT
    then show ?thesis using update_root_ok[of h tree a k v n sib t gs] assms(1) f by (auto simp: moves_def join_def max.commute)
  qed
qed

text \<open>avl_tree_node_get_replacement: the node \<open>b\<close> is unlinked, its remaining child stands in its place.\<close>

lemma get_replacement_ok:
  assumes "whole h tree (plug (Bin a k v n l r) fs)" "avl (Bin a k v n l r)" "\<not> (l = Tip \<and> r = Tip)"
    and "s = taller (Bin a k v n l r)" "extreme s (child s (Bin a k v n l r)) [] = (Bin b kb vb nb lb rb, gs)"
    and "F = gs @ Frame s a k v n (child (other s) (Bin a k v n l r)) # fs" "c = child s (Bin b kb vb nb lb rb)"
  shows "\<exists>h' p q. avl_tree_node_get_replacement h tree (Some a) = Some (Some b, h', tree) \<and>
           whole h' tree (plug c (touch (ht c) F)) \<and> h' b = Some (cell p q (par_of NULL F) kb vb nb) \<and> b \<notin> adr c \<union> fadr F \<and>
           (\<forall>x. x \<notin> insert b (adr c \<union> fadr F) \<longrightarrow> h' x = h x)"
proof -
  let ?t = "Bin a k v n l r" and ?x = "Bin b kb vb nb lb rb"
  have w0: "child s ?t \<noteq> Tip" unfolding assms(4) by (rule taller_child[OF assms(2,3)])
  have px: "plug ?x F = plug ?t fs" using extreme_plug[OF assms(5)] unfolding assms(6) by (simp add: fill_child)
  have w: "whole h tree (plug ?x F)" using assms(1) px by simp
  note wx = w[unfolded whole_plug]
  have cx: "child (other s) ?x = Tip" using extreme_Bin[OF assms(5) w0] by auto
  have b: "b \<notin> adr c" "b \<notin> fadr F" "adr c \<inter> fadr F = {}" "dist c" "fdist F" "tr h (Some b) c"
    using wx assms(7) by (cases s; auto)+
  have F: "F \<noteq> []" "top_of (root c) F = avl_root_node tree" "avl_root_node tree = top_of (Some b) F"
    using wx assms(6) top_of_const[of F "root c" "Some b"] by auto
  note ch = child_heights[OF assms(1)]
  have "tr h (Some a) (child s ?t)" using assms(1) unfolding whole_plug by (cases s) auto
  then have sd: "avl_search_down h s (root (child s ?t)) = Some (Some b)"
    using search_down_ok[OF assms(5) w0] by simp
  have hb: "h b = Some (cell (root lb) (root rb) (par_of NULL F) kb vb nb)" using child_heights(1)[OF w] .
  have "\<exists>h'. avl_tree_node_replace h tree (Some b) (root c) = Some (h', tree\<lparr>avl_root_node := top_of (root c) F\<rparr>) \<and>
      tr h' (par_of NULL F) c \<and> ctx h' NULL (touch (ht c) F) (root c) \<and> (\<forall>x. x \<notin> adr c \<union> fadr F \<longrightarrow> h' x = h x)"
    by (rule node_replace_ok[of h b _ F "Some b" c tree, OF hb]) (use wx b F in auto)
  then obtain h1 where h1: "avl_tree_node_replace h tree (Some b) (root c) = Some (h1, tree)" "tr h1 (par_of NULL F) c"
      "ctx h1 NULL (touch (ht c) F) (root c)" "\<forall>x. x \<notin> adr c \<union> fadr F \<longrightarrow> h1 x = h x"
    using F(2) by auto
  have "whole h1 tree (plug c (touch (ht c) F))" using h1(2,3) F(2) b by (simp add: whole_plug)
  from update_parent_ok[OF this] F(1) obtain h2 where h2: "avl_tree_update_height h1 (par_of NULL F) = Some h2"
      "whole h2 tree (plug c (touch (ht c) F))" "\<forall>x. x \<notin> adr c \<union> fadr F \<longrightarrow> h2 x = h1 x" by (auto simp: adr_plug)
  have "avl_tree_node_get_replacement h tree (Some a) = Some (Some b, h2, tree)"
  proof -
    have "nd_children (cell (root l) (root r) (par_of NULL fs) k v n) s = root (child s ?t)"
        "nd_children (cell (root lb) (root rb) (par_of NULL F) kb vb nb) s = root c"
      by (cases s; simp add: assms(7))+
    moreover have "h1 b = Some (cell (root lb) (root rb) (par_of NULL F) kb vb nb)" using h1(4) hb b by auto
    ultimately show ?thesis using ch sd hb h1(1) h2(1) assms(3,4)
      by (simp add: avl_tree_node_get_replacement_def Let_def split: if_splits)
  qed
  moreover have "h2 b = Some (cell (root lb) (root rb) (par_of NULL F) kb vb nb)" using h1(4) h2(3) hb b by auto
  ultimately show ?thesis using h2(2,3) h1(4) b by auto
qed

end
