(* ===== verification/AVL_Correct.thy ===== *)
theory AVL_Correct
  imports AVL_Ops
begin

text \<open>
  Removal of a node from the AVL tree of \<open>avl-tree.c\<close>, the interpretation of the interface of sorted
  containers, and the properties of the component.
\<close>

section \<open>Removal\<close>

lemma copy_child_ok:
  assumes "h a = Some ea" "h b = Some eb" "nd_children ea i = root u" "tr h p u" "dist u" "a \<notin> adr u" "b \<notin> adr u" "a \<noteq> b"
  shows "\<exists>h'. avl_copy_child h (Some a) (Some b) i = Some h' \<and> h' b = Some (set_child i (root u) eb) \<and> tr h' (Some b) u \<and>
           (\<forall>x. x \<notin> insert b (adr u) \<longrightarrow> h' x = h x)"
proof -
  let ?h = "h(b \<mapsto> set_child i (root u) eb)"
  have "tr ?h p u" using assms(4,7) by simp
  from set_parent_ok[OF this assms(5), of "Some b"] obtain h' where
    h': "set_parent ?h (root u) (Some b) = Some h'" "tr h' (Some b) u" "\<forall>x. x \<notin> adr u \<longrightarrow> h' x = ?h x" by blast
  have "nd_children (set_child i (root u) eb) i = root u" by (simp add: set_child_def)
  then have "avl_copy_child h (Some a) (Some b) i = Some h'" using assms(1-3) h'(1) by (simp add: avl_copy_child_def)
  then show ?thesis using h' assms(7) by auto
qed

text \<open>The replacement \<open>b\<close> takes over the children, the height and the place of \<open>a\<close>, which is freed.\<close>

lemma swap_ok:
  assumes "whole h tree (plug (Bin a k v n l r) fs)" "h b = Some (cell p q par kb vb nb)"
    and "b \<notin> adr (Bin a k v n l r)" "b \<notin> fadr fs"
  shows "\<exists>h1 h2 h3 h4 tree' h5. avl_copy_child h (Some a) (Some b) AVL_TREE_NODE_LEFT = Some h1 \<and>
           avl_copy_child h1 (Some a) (Some b) AVL_TREE_NODE_RIGHT = Some h2 \<and>
           h2 a = Some (cell (root l) (root r) (par_of NULL fs) k v n) \<and>
           modify h2 (Some b) (\<lambda>s. s\<lparr>nd_height := n\<rparr>) = Some h3 \<and>
           avl_tree_node_replace h3 tree (Some a) (Some b) = Some (h4, tree') \<and> c_free h4 (Some a) = Some h5 \<and>
           whole h5 tree' (plug (Bin b kb vb n l r) (touch n fs)) \<and> tree' = tree\<lparr>avl_root_node := top_of (Some b) fs\<rparr> \<and>
           h5 a = None \<and> (\<forall>x. x \<notin> insert b (adr (plug (Bin a k v n l r) fs)) \<longrightarrow> h5 x = h x)"
proof -
  note w = assms(1)[unfolded whole_plug]
  have e: "h a = Some (cell (root l) (root r) (par_of NULL fs) k v n)" "tr h (Some a) l" "tr h (Some a) r"
      "ctx h NULL fs (Some a)" "avl_root_node tree = top_of (Some a) fs" using w by auto
  have d: "a \<noteq> b" "a \<notin> adr l" "a \<notin> adr r" "b \<notin> adr l" "b \<notin> adr r" "dist l" "dist r" "fdist fs" "a \<notin> fadr fs"
      "adr l \<inter> adr r = {}" "adr l \<inter> fadr fs = {}" "adr r \<inter> fadr fs = {}"
    using w assms(3) by auto
  obtain h1 where h1: "avl_copy_child h (Some a) (Some b) AVL_TREE_NODE_LEFT = Some h1"
      "h1 b = Some (cell (root l) q par kb vb nb)" "tr h1 (Some b) l" "\<forall>x. x \<notin> insert b (adr l) \<longrightarrow> h1 x = h x"
    using copy_child_ok[OF e(1) assms(2) _ e(2), of AVL_TREE_NODE_LEFT] d by auto
  have h1a: "h1 a = Some (cell (root l) (root r) (par_of NULL fs) k v n)" using h1(4) e(1) d by auto
  have h1r: "tr h1 (Some a) r" by (rule tr_frame[OF e(3) h1(4)]) (use d in auto)
  have h1c: "ctx h1 NULL fs (Some a)" by (rule ctx_frame[OF e(4) h1(4)]) (use d assms(4) in auto)
  obtain h2 where h2: "avl_copy_child h1 (Some a) (Some b) AVL_TREE_NODE_RIGHT = Some h2"
      "h2 b = Some (cell (root l) (root r) par kb vb nb)" "tr h2 (Some b) r" "\<forall>x. x \<notin> insert b (adr r) \<longrightarrow> h2 x = h1 x"
    using copy_child_ok[OF h1a h1(2) _ h1r, of AVL_TREE_NODE_RIGHT] d by auto
  have h2a: "h2 a = Some (cell (root l) (root r) (par_of NULL fs) k v n)" using h2(4) h1a d by auto
  have h2l: "tr h2 (Some b) l" by (rule tr_frame[OF h1(3) h2(4)]) (use d in auto)
  have h2c: "ctx h2 NULL fs (Some a)" by (rule ctx_frame[OF h1c h2(4)]) (use d assms(4) in auto)
  define h3 where "h3 = h2(b \<mapsto> cell (root l) (root r) par kb vb n)"
  let ?b = "Bin b kb vb n l r"
  have h3: "modify h2 (Some b) (\<lambda>s. s\<lparr>nd_height := n\<rparr>) = Some h3" "h3 a = Some (cell (root l) (root r) (par_of NULL fs) k v n)"
      "tr h3 par ?b" "ctx h3 NULL fs (Some a)"
    using h2(2,3) h2a h2l h2c d assms(4) by (auto simp: h3_def)
  have "\<exists>h'. avl_tree_node_replace h3 tree (Some a) (root ?b) = Some (h', tree\<lparr>avl_root_node := top_of (root ?b) fs\<rparr>) \<and>
      tr h' (par_of NULL fs) ?b \<and> ctx h' NULL (touch (ht ?b) fs) (root ?b) \<and> (\<forall>x. x \<notin> adr ?b \<union> fadr fs \<longrightarrow> h' x = h3 x)"
    by (rule node_replace_ok[of h3 a _ fs par ?b tree, OF h3(2)]) (use h3 d assms(4) e(5) in auto)
  then obtain h4 where h4: "avl_tree_node_replace h3 tree (Some a) (Some b) = Some (h4, tree\<lparr>avl_root_node := top_of (Some b) fs\<rparr>)"
      "tr h4 (par_of NULL fs) ?b" "ctx h4 NULL (touch n fs) (Some b)" "\<forall>x. x \<notin> adr ?b \<union> fadr fs \<longrightarrow> h4 x = h3 x" by auto
  have h4a: "h4 a = Some (cell (root l) (root r) (par_of NULL fs) k v n)" using h4(4) h3(2) d by auto
  have "whole (h4(a := None)) (tree\<lparr>avl_root_node := top_of (Some b) fs\<rparr>) (plug ?b (touch n fs))"
    using h4(2,3) d assms(4) by (auto simp: whole_plug)
  moreover have "\<forall>x. x \<notin> insert b (adr (plug (Bin a k v n l r) fs)) \<longrightarrow> (h4(a := None)) x = h x"
    using h4(4) h2(4) h1(4) by (auto simp: adr_plug h3_def)
  ultimately show ?thesis using h1(1) h2(1) h2a h3(1) h4(1) h4a by auto
qed

lemma whole_num [simp]: "whole h (tree\<lparr>avl_num_nodes := n\<rparr>) t \<longleftrightarrow> whole h tree t"
  by (simp add: whole_def)

definition removes :: "('k, 'v) aheap \<Rightarrow> 'k AVLTree \<Rightarrow> ('k, 'v) atree \<Rightarrow> ('k, 'v) frame list \<Rightarrow> addr \<Rightarrow> ('k, 'v) atree \<Rightarrow> bool" where
  "removes h tree t fs a u \<longleftrightarrow> (\<exists>h' tree'. avl_tree_remove_node h tree (Some a) = Some (h', tree') \<and> whole h' tree' u \<and>
     tree' = tree\<lparr>avl_root_node := root u, avl_num_nodes := avl_num_nodes tree - 1\<rparr> \<and> h' a = None \<and>
     (\<forall>x. x \<notin> adr (plug t fs) \<longrightarrow> h' x = h x))"

lemma remove_leaf_ok:
  assumes w: "whole h tree (plug (Bin a k v n Tip Tip) fs)" and "avl (plug (Bin a k v n Tip Tip) fs)"
    and n: "0 < avl_num_nodes tree" "avl_num_nodes tree \<le> INT_MAX"
  shows "removes h tree (Bin a k v n Tip Tip) fs a (climb_from Tip fs)"
proof -
  note w' = w[unfolded whole_plug]
  have fo: "frames_ok 1 fs" using avl_plug[OF assms(2)] by auto
  have ha: "h a = Some (cell NULL NULL (par_of NULL fs) k v n)" "a \<notin> fadr fs" using w' by auto
  obtain h1 where h1: "avl_tree_node_replace h tree (Some a) NULL = Some (h1, tree\<lparr>avl_root_node := top_of NULL fs\<rparr>)"
      "ctx h1 NULL (touch 0 fs) NULL" "\<forall>x. x \<notin> fadr fs \<longrightarrow> h1 x = h x"
    using node_replace_ok[of h a _ fs NULL Tip tree, OF ha(1)] w' by auto
  have h1a: "h1 a = Some (cell NULL NULL (par_of NULL fs) k v n)" using h1(3) ha by auto
  let ?tree = "tree\<lparr>avl_root_node := top_of NULL fs, avl_num_nodes := avl_num_nodes tree - 1\<rparr>" and ?h = "h1(a := None)"
  have "whole ?h ?tree (plug Tip (touch 0 fs))" using h1(2) ha(2) w' by (auto simp: whole_plug)
  from balance_from_ok[OF this, of 1] fo frames_ok_same[OF same_frames_touch, of 1 fs 0] obtain h2 tree2 where
    b: "avl_tree_balance_to_root ?h ?tree (par_of NULL fs) = Some (h2, tree2)"
       "moves ?h ?tree (plug Tip (touch 0 fs)) h2 tree2 (climb_from Tip fs)"
    by (auto simp: climb_from_touch)
  have "avl_tree_node_get_replacement h tree (Some a) = Some (NULL, h, tree)"
    using ha(1) by (simp add: avl_tree_node_get_replacement_def)
  then have "avl_tree_remove_node h tree (Some a) = Some (h2, tree2)"
    using h1(1) h1a b(1) n by (simp add: avl_tree_remove_node_def)
  then show ?thesis using b(2) h1(3) ha(2) unfolding removes_def moves_def by (auto simp: adr_plug)
qed

lemma fill_Bin: "\<exists>l r. fill (Frame s a k v n sib) t = Bin a k v n l r \<and> fill (Frame s b k' v' n sib) t = Bin b k' v' n l r"
  by (cases s) auto

lemma touch_append:
  obtains gs' n' where "touch m (gs @ Frame s a k v n sib # fs) = gs' @ Frame s a k v n' sib # fs" "same_frames gs gs'"
    "par_of p gs' = par_of p gs"
proof (cases "(m, gs)" rule: touch.cases)
  case (2 m' s' a' k' v' n'' sib' gs'')
  then show ?thesis using that[of "touch m gs" n] by auto
qed (use that[of "[]"] in auto)

lemma fadr_append: "fadr (fs @ gs) = fadr fs \<union> fadr gs"
  by (auto simp: fadr_def before_append after_append)

lemma fadr_same: "same_frames fs gs \<Longrightarrow> fadr fs = fadr gs"
proof (induction fs gs rule: list_all2_induct)
  case (Cons f fs g gs)
  obtain s a k v n m sib where "f = Frame s a k v n sib" "g = Frame s a k v m sib" by (rule same_frameE[OF Cons.hyps(1)])
  then show ?case using Cons.IH by simp
qed simp

lemma remove_inner_ok:
  assumes w: "whole h tree (plug (Bin a k v n l r) fs)" and av: "avl (plug (Bin a k v n l r) fs)"
    and ne: "\<not> (l = Tip \<and> r = Tip)" and n: "0 < avl_num_nodes tree" "avl_num_nodes tree \<le> INT_MAX"
    and s: "s = taller (Bin a k v n l r)" and x: "extreme s (child s (Bin a k v n l r)) [] = (Bin b kb vb nb lb rb, gs)"
  shows "removes h tree (Bin a k v n l r) fs a
           (climb_from (child s (Bin b kb vb nb lb rb)) (gs @ Frame s b kb vb n (child (other s) (Bin a k v n l r)) # fs))"
proof -
  define sib where "sib = child (other s) (Bin a k v n l r)"
  define F where "F = gs @ Frame s a k v n sib # fs"
  define c where "c = child s (Bin b kb vb nb lb rb)"
  obtain h1 p q where h1: "avl_tree_node_get_replacement h tree (Some a) = Some (Some b, h1, tree)"
      "whole h1 tree (plug c (touch (ht c) F))" "h1 b = Some (cell p q (par_of NULL F) kb vb nb)" "b \<notin> adr c \<union> fadr F"
      "\<forall>x. x \<notin> insert b (adr c \<union> fadr F) \<longrightarrow> h1 x = h x"
    using get_replacement_ok[OF w conjunct1[OF avl_plug[OF av]] ne s x F_def[unfolded sib_def] c_def] by blast
  obtain gs1 n1 where g: "touch (ht c) F = gs1 @ Frame s a k v n1 sib # fs" "same_frames gs gs1" "par_of NULL gs1 = par_of NULL gs"
    unfolding F_def by (rule touch_append)
  obtain l' r' where f: "fill (Frame s a k v n1 sib) (plug c gs1) = Bin a k v n1 l' r'" "fill (Frame s b kb vb n1 sib) (plug c gs1) = Bin b kb vb n1 l' r'"
    using fill_Bin[of s a k v n1 sib "plug c gs1" b kb vb] by blast
  have w1: "whole h1 tree (plug (Bin a k v n1 l' r') fs)" using h1(2) g(1) f(1) by simp
  have sets: "adr (plug (Bin a k v n1 l' r') fs) = adr c \<union> fadr F"
    using g(1) f(1) adr_plug[of c "touch (ht c) F"] touch_simps(2)[of "ht c" F] by simp
  then have bn: "b \<notin> adr (Bin a k v n1 l' r')" "b \<notin> fadr fs" using h1(4) by (auto simp: adr_plug)
  obtain h2 h3 h4 h5 tree1 h6 where sw: "avl_copy_child h1 (Some a) (Some b) AVL_TREE_NODE_LEFT = Some h2"
      "avl_copy_child h2 (Some a) (Some b) AVL_TREE_NODE_RIGHT = Some h3"
      "h3 a = Some (cell (root l') (root r') (par_of NULL fs) k v n1)" "modify h3 (Some b) (\<lambda>s. s\<lparr>nd_height := n1\<rparr>) = Some h4"
      "avl_tree_node_replace h4 tree (Some a) (Some b) = Some (h5, tree1)" "c_free h5 (Some a) = Some h6"
      "whole h6 tree1 (plug (Bin b kb vb n1 l' r') (touch n1 fs))" "tree1 = tree\<lparr>avl_root_node := top_of (Some b) fs\<rparr>"
      "h6 a = None" "\<forall>x. x \<notin> insert b (adr (plug (Bin a k v n1 l' r') fs)) \<longrightarrow> h6 x = h1 x"
    using swap_ok[OF w1 h1(3) bn] by blast
  define G where "G = gs1 @ Frame s b kb vb n1 sib # touch n1 fs"
  let ?tree = "tree1\<lparr>avl_num_nodes := avl_num_nodes tree - 1\<rparr>"
  have wG: "whole h6 ?tree (plug c G)" using sw(7) f(2) by (simp add: G_def)
  have same: "same_frames (gs @ Frame s b kb vb n sib # fs) G" using g(2) by (auto simp: G_def intro: list_all2_appendI)
  note inner = removed_inner[OF av ne s x, folded sib_def c_def]
  have ok: "frames_ok nb G" using inner(1)[of n] frames_ok_same[OF same, of nb] by simp
  obtain h7 tree2 where b: "avl_tree_balance_to_root h6 ?tree (par_of NULL G) = Some (h7, tree2)"
      "moves h6 ?tree (plug c G) h7 tree2 (climb_from c G)"
    using balance_from_ok[OF wG inner(2,3) ok] by blast
  have fd: "fdist F" using h1(2) unfolding whole_plug by simp
  have start: "(if par_of NULL F = Some a then Some b else par_of NULL F) = par_of NULL G"
  proof (cases gs)
    case Nil
    then show ?thesis using g(2) by (simp add: F_def G_def)
  next
    case (Cons f gs')
    obtain f' gs1' where g1: "gs1 = f' # gs1'" "same_frame f f'" using g(2) Cons by (auto simp: list_all2_Cons1)
    obtain s' a' k' v' m m' sib' where f': "f = Frame s' a' k' v' m sib'" "f' = Frame s' a' k' v' m' sib'" by (rule same_frameE[OF g1(2)])
    have "a' \<noteq> a" using fd Cons f' by (simp add: F_def fadr_append)
    then show ?thesis using Cons g1(1) f' by (simp add: F_def G_def)
  qed
  have "avl_tree_remove_node h tree (Some a) = Some (h7, tree2)"
    unfolding avl_tree_remove_node_def using h1(1,3) sw(1-6,8) start b(1) n
    by (simp add: Let_def split: if_splits)
  moreover have "a \<notin> adr (plug c G)" "\<forall>x. x \<notin> adr (plug (Bin a k v n l r) fs) \<longrightarrow> x \<notin> adr (plug c G) \<and> x \<notin> insert b (adr c \<union> fadr F)"
  proof -
    have px: "plug (Bin b kb vb nb lb rb) F = plug (Bin a k v n l r) fs"
      using extreme_plug[OF x] unfolding F_def sib_def by (simp add: fill_child)
    have G: "adr (plug c G) = adr c \<union> (fadr gs \<union> insert b (adr sib \<union> fadr fs))"
      using fadr_same[OF g(2)] unfolding adr_plug G_def fadr_append by simp
    have F: "fadr F = fadr gs \<union> insert a (adr sib \<union> fadr fs)" by (simp add: F_def fadr_append)
    have "dist (plug (Bin b kb vb nb lb rb) F)" using w px by (simp add: whole_def)
    then have "a \<notin> adr c" "a \<noteq> b" using F unfolding dist_plug c_def by (cases s; auto)+
    moreover have "a \<notin> fadr gs" "a \<notin> adr sib" "a \<notin> fadr fs"
      using fd unfolding F_def fdist_def fadr_def adr_def before_append after_append by (cases s; auto)+
    ultimately show "a \<notin> adr (plug c G)" using G by simp
    have "adr c \<subseteq> adr (Bin b kb vb nb lb rb)" by (cases s) (auto simp: c_def)
    then show "\<forall>x. x \<notin> adr (plug (Bin a k v n l r) fs) \<longrightarrow> x \<notin> adr (plug c G) \<and> x \<notin> insert b (adr c \<union> fadr F)"
      unfolding px[symmetric] adr_plug[of "Bin b kb vb nb lb rb"] G F by auto
  qed
  ultimately show ?thesis
    using b(2) sw(8-10) h1(5) sets climb_from_same[OF same, of c, unfolded sib_def]
    unfolding removes_def moves_def by (auto simp: c_def[symmetric] sib_def[symmetric])
qed

lemma remove_node_ok:
  assumes w: "whole h tree (plug (Bin a k v n l r) fs)" and av: "avl (plug (Bin a k v n l r) fs)"
    and n: "0 < avl_num_nodes tree" "avl_num_nodes tree \<le> INT_MAX"
  shows "\<exists>u. removes h tree (Bin a k v n l r) fs a u \<and> avl u \<and> nodes u = before fs @ nodes l @ nodes r @ after fs"
proof -
  obtain u gs where u: "removed (Bin a k v n l r) fs = (u, gs)" by (cases "removed (Bin a k v n l r) fs")
  have "removes h tree (Bin a k v n l r) fs a (climb_from u gs)"
  proof (cases "l = Tip \<and> r = Tip")
    case True
    then show ?thesis using remove_leaf_ok[of h tree a k v n fs] w av n u by auto
  next
    case False
    define s where "s = taller (Bin a k v n l r)"
    have "child s (Bin a k v n l r) \<noteq> Tip" unfolding s_def by (rule taller_child[OF conjunct1[OF avl_plug[OF av]] False])
    then obtain b kb vb nb lb rb hs where x: "extreme s (child s (Bin a k v n l r)) [] = (Bin b kb vb nb lb rb, hs)"
      using extreme_Bin by (metis surj_pair)
    have "u = child s (Bin b kb vb nb lb rb)" "gs = hs @ Frame s b kb vb n (child (other s) (Bin a k v n l r)) # fs"
      using u x unfolding removed.simps(2) if_not_P[OF False] Let_def s_def[symmetric] x by simp_all
    then show ?thesis using remove_inner_ok[OF w av False n s_def x] by simp
  qed
  then show ?thesis using removed_ok[OF av u] by blast
qed

lemma ordered_remove: "ordered cmp (xs @ x # ys) \<Longrightarrow> ordered cmp (xs @ ys)"
  by (auto simp: ordered_append)

lemma avl_remove_ok:
  assumes "avl_holds h tree zs" "int (length zs) \<le> INT_MAX" "\<exists>x \<in> set zs. avl_compare_func tree key (key_of x) = 0"
  shows "\<exists>xs a k v ys h' tree'. zs = xs @ (a, k, v) # ys \<and> avl_compare_func tree key k = 0 \<and>
           avl_tree_remove h tree key = Some (1, h', tree') \<and> avl_holds h' tree' (xs @ ys) \<and>
           avl_compare_func tree' = avl_compare_func tree \<and> h' a = None \<and> (\<forall>x. x \<notin> fst ` set zs \<longrightarrow> h' x = h x)"
proof -
  obtain t where t: "whole h tree t" "avl t" "nodes t = zs" "comparator (avl_compare_func tree)"
    "ordered (avl_compare_func tree) zs" "avl_num_nodes tree = int (length zs)" using avl_holdsE[OF assms(1)] .
  have l: "avl_tree_lookup_node h tree key =
      Some (case find_node (avl_compare_func tree) key t [] of None \<Rightarrow> None | Some (u, gs) \<Rightarrow> root u)"
    using lookup_loop_ok[of h NULL t tree key "[]"] t(1) by (simp add: avl_tree_lookup_node_def whole_def)
  obtain p where p: "find_node (avl_compare_func tree) key t [] = Some p"
    using find_node_None[OF t(4)] t(3,5) assms(3) by fastforce
  obtain u fs where u: "p = (u, fs)" by (cases p)
  from find_node_Some[OF p[unfolded u]] obtain a k v n ll r where
    f: "plug (Bin a k v n ll r) fs = t" "u = Bin a k v n ll r" "avl_compare_func tree key k = 0" by auto
  have zs: "zs = (before fs @ nodes ll) @ (a, k, v) # (nodes r @ after fs)"
    using t(3) f(1) nodes_plug[of "Bin a k v n ll r" fs] by simp
  have nn: "0 < avl_num_nodes tree" "avl_num_nodes tree \<le> INT_MAX" using t(6) zs assms(2) by auto
  obtain u' where r: "removes h tree (Bin a k v n ll r) fs a u'" "avl u'" "nodes u' = before fs @ nodes ll @ nodes r @ after fs"
    using remove_node_ok[of h tree a k v n ll r fs] f(1) t(1,2) nn by auto
  from r(1) obtain h' tree' where q: "avl_tree_remove_node h tree (Some a) = Some (h', tree')" "whole h' tree' u'"
      "tree' = tree\<lparr>avl_root_node := root u', avl_num_nodes := avl_num_nodes tree - 1\<rparr>" "h' a = None"
      "\<forall>x. x \<notin> adr t \<longrightarrow> h' x = h x" unfolding removes_def f(1) by blast
  have "avl_tree_remove h tree key = Some (1, h', tree')" using l p u f(2) q(1) by (simp add: avl_tree_remove_def)
  moreover have "ordered (avl_compare_func tree) ((before fs @ nodes ll) @ (nodes r @ after fs))"
    using ordered_remove[of _ "before fs @ nodes ll"] t(5) zs by blast
  then have "avl_holds h' tree' ((before fs @ nodes ll) @ (nodes r @ after fs))"
    using q(2,3) r(2,3) t(4,6) zs unfolding avl_holds_def by auto
  moreover have "\<forall>x. x \<notin> fst ` set zs \<longrightarrow> h' x = h x" using q(5) t(3) by (simp add: adr_def)
  ultimately show ?thesis using zs f(3) q(3,4)
    by (intro exI[of _ "before fs @ nodes ll"] exI[of _ a] exI[of _ k] exI[of _ v] exI[of _ "nodes r @ after fs"]
        exI[of _ h'] exI[of _ tree']) simp
qed

lemma avl_remove_missing:
  assumes "avl_holds h tree zs" "\<forall>x \<in> set zs. avl_compare_func tree key (key_of x) \<noteq> 0"
  shows "avl_tree_remove h tree key = Some (0, h, tree)"
  using avl_lookup_node_ok[OF assms(1), of key] assms(2) by (auto simp: avl_tree_remove_def)

section \<open>Arrays and destruction\<close>

lemma add_subtree_ok:
  assumes "tr h par t" "int (length pre + length (nodes t)) \<le> INT_MAX"
  shows "avl_tree_to_array_add_subtree h (root t) (map Some pre @ replicate (length (nodes t) + m) None) (int (length pre)) =
           Some (map Some (pre @ map key_of (nodes t)) @ replicate m None, int (length pre + length (nodes t)))"
  using assms
proof (induction t arbitrary: par pre m)
  case Tip
  then show ?case by (simp add: avl_tree_to_array_add_subtree.simps)
next
  case (Bin a k v n l r)
  have e: "h a = Some (cell (root l) (root r) par k v n)" "tr h (Some a) l" "tr h (Some a) r" using Bin.prems(1) by auto
  let ?pl = "pre @ map key_of (nodes l)"
  have l: "avl_tree_to_array_add_subtree h (root l) (map Some pre @ replicate (length (nodes (Bin a k v n l r)) + m) None) (int (length pre)) =
      Some (map Some ?pl @ replicate (Suc (length (nodes r) + m)) None, int (length ?pl))"
    using Bin.IH(1)[OF e(2), of pre "Suc (length (nodes r) + m)"] Bin.prems(2) by (simp add: add.assoc)
  have s: "arr_set (map Some ?pl @ replicate (Suc (length (nodes r) + m)) None) (int (length ?pl)) k =
      Some (map Some (?pl @ [k]) @ replicate (length (nodes r) + m) None)"
    using arr_set_mid[of "map Some ?pl" None "replicate (length (nodes r) + m) None" k] by simp
  have i: "c_int (int (length ?pl) + 1) = Some (int (length (?pl @ [k])))" using Bin.prems(2) by simp
  have "avl_tree_to_array_add_subtree h (root r) (map Some (?pl @ [k]) @ replicate (length (nodes r) + m) None) (int (length (?pl @ [k]))) =
      Some (map Some ((?pl @ [k]) @ map key_of (nodes r)) @ replicate m None, int (length (?pl @ [k]) + length (nodes r)))"
    using Bin.IH(2)[OF e(3), of "?pl @ [k]" m] Bin.prems(2) by simp
  then show ?case using e(1) l s i by (subst avl_tree_to_array_add_subtree.simps) simp
qed

lemma free_subtree_ok:
  "tr h par t \<Longrightarrow> dist t \<Longrightarrow> avl_tree_free_subtree h (root t) = Some (\<lambda>x. if x \<in> adr t then None else h x)"
proof (induction t arbitrary: h par)
  case Tip
  then show ?case by (simp add: avl_tree_free_subtree.simps)
next
  case (Bin a k v n l r)
  have e: "h a = Some (cell (root l) (root r) par k v n)" "tr h (Some a) l" "tr h (Some a) r" "dist l" "dist r"
      "a \<notin> adr l" "a \<notin> adr r" "adr l \<inter> adr r = {}" using Bin.prems by auto
  let ?h1 = "\<lambda>x. if x \<in> adr l then None else h x"
  have l: "avl_tree_free_subtree h (root l) = Some ?h1" by (rule Bin.IH(1)[OF e(2,4)])
  have "tr ?h1 (Some a) r" using tr_frame[OF e(3), of "adr l" ?h1] e(8) by auto
  then have r: "avl_tree_free_subtree ?h1 (root r) = Some (\<lambda>x. if x \<in> adr r then None else ?h1 x)" by (rule Bin.IH(2)[OF _ e(5)])
  show ?case using e(1,6,7) l r by (subst avl_tree_free_subtree.simps) (auto simp: fun_eq_iff)
qed

section \<open>The interface of sorted containers\<close>

definition avl_repr :: "('k, 'v) aheap \<times> 'k AVLTree \<Rightarrow> (addr \<times> 'k \<times> 'v) list \<Rightarrow> bool" where
  "avl_repr s xs \<longleftrightarrow> avl_holds (fst s) (snd s) xs"

definition avl_le :: "('k, 'v) aheap \<times> 'k AVLTree \<Rightarrow> addr \<times> 'k \<times> 'v \<Rightarrow> addr \<times> 'k \<times> 'v \<Rightarrow> bool" where
  "avl_le s x y \<longleftrightarrow> avl_compare_func (snd s) (key_of x) (key_of y) \<le> 0"

definition avl_add :: "addr \<times> 'k \<times> 'v \<Rightarrow> ('k, 'v) aheap \<times> 'k AVLTree \<Rightarrow> (('k, 'v) aheap \<times> 'k AVLTree) option" where
  "avl_add e s = (case e of (a, k, v) \<Rightarrow> map_option snd (avl_tree_insert (Some a) (fst s) (snd s) k v))"

definition avl_fits :: "('k, 'v) aheap \<times> 'k AVLTree \<Rightarrow> addr \<times> 'k \<times> 'v \<Rightarrow> bool" where
  "avl_fits s e \<longleftrightarrow> fst s (fst e) = None"

lemma avl_le_eq: "avl_le s = (\<lambda>x y. avl_compare_func (snd s) (key_of x) (key_of y) \<le> 0)"
  by (simp add: fun_eq_iff avl_le_def)

lemma avl_holds_alloc: "avl_holds h tree xs \<Longrightarrow> a \<in> fst ` set xs \<Longrightarrow> h a \<noteq> None"
  using whole_alloc[of h tree _ a] unfolding avl_holds_def adr_def by blast

interpretation avls: sorted_container avl_repr avl_le avl_add avl_fits fst "nat INT_MAX"
proof
  show "sorted_wrt (avl_le s) xs" if "avl_repr s xs" for s :: "('k, 'v) aheap \<times> 'k AVLTree" and xs
    using that by (auto simp: avl_repr_def avl_holds_def avl_le_eq ordered_def)
next
  fix s :: "('k, 'v) aheap \<times> 'k AVLTree" and xs e
  assume r: "avl_repr s xs" and c: "length xs < nat INT_MAX" and f: "avl_fits s e"
  obtain a k v where e: "e = (a, k, v)" by (cases e)
  have "fst s a = None" "int (length xs) < INT_MAX" using f e c by (auto simp: avl_fits_def)
  from avl_insert_ok[OF r[unfolded avl_repr_def] this, of k v] obtain h' tree' ys zs where
    i: "avl_tree_insert (Some a) (fst s) (snd s) k v = Some (Some a, h', tree')" "xs = ys @ zs"
      "avl_holds h' tree' (ys @ (a, k, v) # zs)" "avl_compare_func tree' = avl_compare_func (snd s)"
      "\<forall>x. x \<notin> insert a (fst ` set xs) \<longrightarrow> h' x = fst s x" by blast
  have "avl_fits (h', tree') d" if "avl_fits s d" "fst d \<noteq> fst e" for d
    using that i(5) e avl_holds_alloc[OF r[unfolded avl_repr_def], of "fst d"] unfolding avl_fits_def by (metis fst_conv insert_iff)
  then show "\<exists>s' ys zs. avl_add e s = Some s' \<and> xs = ys @ zs \<and> avl_repr s' (ys @ e # zs) \<and> avl_le s' = avl_le s \<and>
      (\<forall>d. avl_fits s d \<longrightarrow> fst d \<noteq> fst e \<longrightarrow> avl_fits s' d)"
    using i e by (intro exI[of _ "(h', tree')"] exI[of _ ys] exI[of _ zs]) (simp add: avl_add_def avl_repr_def avl_le_eq)
qed

section \<open>Properties\<close>

text \<open>C1: avl_tree_insert puts the new node behind all nodes with keys that are not greater and before all
  with greater keys; the nodes stay in key order, every node keeps its address, key and value, the
  tree is balanced again with all child and parent pointers and heights in place, and nothing else in
  the heap changes. When malloc fails it returns NULL and changes nothing.\<close>

theorem avl_tree_insert_spec:
  assumes "avl_holds h tree zs" "h a = None" "int (length zs) < INT_MAX"
  shows "(\<exists>h' tree' xs ys. avl_tree_insert (Some a) h tree k v = Some (Some a, h', tree') \<and> zs = xs @ ys \<and>
            splits_at (avl_compare_func tree) k xs ys \<and> avl_holds h' tree' (xs @ (a, k, v) # ys) \<and>
            (\<forall>x. x \<notin> insert a (fst ` set zs) \<longrightarrow> h' x = h x)) \<and>
         avl_tree_insert None h tree k v = Some (None, h, tree)"
  using avl_insert_ok[OF assms, of k v] avl_insert_fails[OF assms(1), of k v] by blast

text \<open>A tree with one node.\<close>

definition one_aheap :: "(int, int) aheap" where
  "one_aheap = [1 \<mapsto> \<lparr>nd_children = (\<lambda>_. NULL), nd_parent = NULL, nd_key = 5, nd_value = 50, nd_height = 1\<rparr>]"

definition one_tree :: "int AVLTree" where
  "one_tree = \<lparr>avl_root_node = Some 1, avl_compare_func = int_compare, avl_num_nodes = 1\<rparr>"

lemma one_tree_holds: "avl_holds one_aheap one_tree [(1, 5, 50)]"
proof -
  have "whole one_aheap one_tree (Bin 1 5 50 1 Tip Tip)"
    by (simp add: whole_def one_aheap_def one_tree_def const_kids)
  moreover have "avl (Bin 1 (5::int) (50::int) 1 Tip Tip)" "nodes (Bin 1 (5::int) (50::int) 1 Tip Tip) = [(1, 5, 50)]" by simp_all
  ultimately show ?thesis using int_cmp.comparator_axioms unfolding avl_holds_def
    by (auto simp: one_tree_def intro!: exI[of _ "Bin 1 5 50 1 Tip Tip"])
qed

theorem avl_tree_insert_spec_witness:
  "\<exists>h' tree' xs ys. avl_tree_insert (Some 2) one_aheap one_tree 7 70 = Some (Some 2, h', tree') \<and>
     [(1, 5, 50)] = xs @ ys \<and> avl_holds h' tree' (xs @ (2, 7, 70) # ys)"
  using avl_tree_insert_spec[OF one_tree_holds, of 2 7 70] by (auto simp: one_aheap_def c_int_bounds)

text \<open>C40: avl_tree_lookup returns the value of a node with an equal key if there is one and NULL otherwise;
  avl_tree_lookup_node returns that node.\<close>

theorem avl_tree_lookup_spec:
  assumes "avl_holds h tree zs"
  shows "(\<exists>a k v. (a, k, v) \<in> set zs \<and> avl_compare_func tree key k = 0 \<and>
            avl_tree_lookup_node h tree key = Some (Some a) \<and> avl_tree_lookup h tree key = Some (Some v) \<and>
            avl_tree_node_key h (Some a) = Some k \<and> avl_tree_node_value h (Some a) = Some v) \<or>
         (\<forall>x \<in> set zs. avl_compare_func tree key (key_of x) \<noteq> 0) \<and>
            avl_tree_lookup_node h tree key = Some None \<and> avl_tree_lookup h tree key = Some None"
  using avl_lookup_node_ok[OF assms, of key]
proof
  assume "\<exists>xs a k v ys. zs = xs @ (a, k, v) # ys \<and> avl_compare_func tree key k = 0 \<and>
    avl_tree_lookup_node h tree key = Some (Some a) \<and> (\<exists>e. h a = Some e \<and> nd_key e = k \<and> nd_value e = v)"
  then show ?thesis
    by (intro disjI1) (auto simp: avl_tree_lookup_def avl_tree_node_key_def avl_tree_node_value_def)
qed (auto simp: avl_tree_lookup_def)

theorem avl_tree_lookup_spec_witness:
  "avl_tree_lookup one_aheap one_tree 5 = Some (Some 50)"
  using avl_tree_lookup_spec[OF one_tree_holds, of 5] by (auto simp: one_tree_def int_compare_def)

text \<open>C2: avl_tree_remove removes and frees exactly one node with an equal key and returns 1, keeping the
  order and the balance of the tree and the address, key and value of every other node; it returns 0
  and changes nothing if there is no such node.\<close>

theorem avl_tree_remove_spec:
  assumes "avl_holds h tree zs" "int (length zs) \<le> INT_MAX"
  shows "if \<exists>x \<in> set zs. avl_compare_func tree key (key_of x) = 0
         then \<exists>xs a k v ys h' tree'. zs = xs @ (a, k, v) # ys \<and> avl_compare_func tree key k = 0 \<and>
                avl_tree_remove h tree key = Some (1, h', tree') \<and> avl_holds h' tree' (xs @ ys) \<and> h' a = None \<and>
                (\<forall>x. x \<notin> fst ` set zs \<longrightarrow> h' x = h x)
         else avl_tree_remove h tree key = Some (0, h, tree)"
proof (cases "\<exists>x \<in> set zs. avl_compare_func tree key (key_of x) = 0")
  case True
  show ?thesis unfolding if_P[OF True] using avl_remove_ok[OF assms True] by blast
next
  case False
  show ?thesis unfolding if_not_P[OF False] using avl_remove_missing[OF assms(1)] False by blast
qed

theorem avl_tree_remove_spec_witness:
  "\<exists>h' tree'. avl_tree_remove one_aheap one_tree 5 = Some (1, h', tree') \<and> avl_holds h' tree' [] \<and> h' 1 = None"
proof -
  have c: "\<exists>x \<in> set [(1::addr, 5::int, 50::int)]. avl_compare_func one_tree 5 (key_of x) = 0"
    by (simp add: one_tree_def int_compare_def)
  have "int (length [(1::addr, 5::int, 50::int)]) \<le> INT_MAX" by (simp add: c_int_bounds)
  from avl_tree_remove_spec[OF one_tree_holds this, of 5, unfolded if_P[OF c]]
  show ?thesis by (auto simp: Cons_eq_append_conv)
qed

text \<open>avl_tree_to_array returns the keys of all nodes in ascending order, avl_tree_num_entries their
  number, and avl_tree_free frees every node once and nothing else.\<close>

theorem avl_tree_to_array_spec:
  assumes "avl_holds h tree zs" "int (length zs) \<le> INT_MAX"
  shows "avl_tree_to_array True h tree = Some (Some (map Some (map key_of zs))) \<and>
         sorted_wrt (\<lambda>x y. avl_compare_func tree x y \<le> 0) (map key_of zs) \<and>
         avl_tree_to_array False h tree = Some None \<and> avl_tree_num_entries tree = int (length zs) \<and>
         avl_tree_free h tree = Some (\<lambda>x. if x \<in> fst ` set zs then None else h x)"
proof -
  obtain t where t: "whole h tree t" "avl t" "nodes t = zs" "ordered (avl_compare_func tree) zs" "avl_num_nodes tree = int (length zs)"
    using assms(1) by (auto simp: avl_holds_def)
  have "avl_tree_to_array True h tree = Some (Some (map Some (map key_of zs)))"
    using add_subtree_ok[of h NULL t "[]" 0] t assms(2) by (simp add: avl_tree_to_array_def whole_def)
  moreover have "avl_tree_free h tree = Some (\<lambda>x. if x \<in> fst ` set zs then None else h x)"
    using free_subtree_ok[of h NULL t] t(1,3) by (simp add: avl_tree_free_def whole_def adr_def)
  moreover have "sorted_wrt (\<lambda>x y. avl_compare_func tree x y \<le> 0) (map key_of zs)"
    using t(4) by (simp add: ordered_def sorted_wrt_map)
  ultimately show ?thesis using t(5) by (simp add: avl_tree_to_array_def avl_tree_num_entries_def)
qed

theorem avl_tree_to_array_spec_witness:
  "avl_tree_to_array True one_aheap one_tree = Some (Some [Some 5]) \<and> avl_tree_num_entries one_tree = 1"
  using avl_tree_to_array_spec[OF one_tree_holds] by (simp add: c_int_bounds)

text \<open>Any sequence of at most INT_MAX insertions into a new tree succeeds, whatever distinct unused
  addresses malloc returns, and leaves a balanced tree with exactly these nodes in ascending key order.\<close>

theorem avl_tree_sorts:
  assumes "comparator cmp" "avl_tree_new True cmp = Some tree" "int (length es) \<le> INT_MAX"
    and "distinct (map fst es)" "\<forall>e \<in> set es. h (fst e) = None"
  shows "\<exists>s ys. ins_all avl_add es (h, tree) = Some s \<and> avl_repr s ys \<and>
           sorted_wrt (\<lambda>x y. cmp (key_of x) (key_of y) \<le> 0) ys \<and> mset ys = mset es"
proof -
  have t: "whole h tree Tip" "avl_compare_func tree = cmp" "avl_num_nodes tree = 0"
    using assms(2) by (auto simp: whole_def avl_tree_new_def)
  then have r: "avl_repr (h, tree) []" using assms(1) by (auto simp: avl_repr_def avl_holds_def intro!: exI[of _ Tip])
  have "\<forall>e \<in> set es. avl_fits (h, tree) e" using assms(5) by (simp add: avl_fits_def)
  from avls.ins_all_ok[OF r _ assms(4) this] assms(3) t(2) show ?thesis by (auto simp: avl_le_eq)
qed

theorem avl_tree_sorts_witness:
  "\<exists>s ys. ins_all avl_add [(1, 5, 50), (2, 3, 30 :: int)] (Map.empty, \<lparr>avl_root_node = NULL, avl_compare_func = int_compare, avl_num_nodes = 0\<rparr>) = Some s \<and>
     avl_repr s ys \<and> mset ys = {#(1, 5, 50), (2, 3, 30)#}"
proof -
  have "avl_tree_new True int_compare = Some \<lparr>avl_root_node = NULL, avl_compare_func = int_compare, avl_num_nodes = 0\<rparr>"
    by (simp add: avl_tree_new_def)
  from avl_tree_sorts[OF int_cmp.comparator_axioms this, of "[(1, 5, 50), (2, 3, 30)]" Map.empty]
  show ?thesis by (auto simp: c_int_bounds simp del: ins_all.simps)
qed

end
