(* ===== verification/AVL_Height.thy ===== *)
theory AVL_Height
  imports AVL_Correct
begin

text \<open>
  The height of the trees of \<open>src/src/comm/avl-tree.c\<close>: over any sequence of insertions and removals the
  stored height of the root is the length of the longest path, and it is logarithmic in the number of nodes.
\<close>


section \<open>The fewest nodes of a balanced tree\<close>

fun min_nodes :: "nat \<Rightarrow> nat" where
  "min_nodes 0 = 0"
| "min_nodes (Suc 0) = 1"
| "min_nodes (Suc (Suc n)) = min_nodes (Suc n) + min_nodes n + 1"

lemma min_nodes_Suc: "min_nodes n \<le> min_nodes (Suc n)"
  by (cases n rule: min_nodes.cases) auto

text \<open>In each step the number of nodes, plus one, grows at least by one half, so that it
  quadruples in three steps.\<close>

lemma min_nodes_half: "3 * (min_nodes n + 1) \<le> 2 * (min_nodes (Suc n) + 1)"
proof (induction n rule: min_nodes.induct)
  case (3 n)
  then show ?case
    using min_nodes_Suc[of n] by simp
qed simp_all

lemma min_nodes_quadruple: "4 * (min_nodes n + 1) \<le> min_nodes (n + 3) + 1"
  using min_nodes_half[of n] by (simp add: numeral_eq_Suc)

lemma min_nodes_exp: "4 ^ n \<le> (min_nodes n + 1) ^ 3"
proof (induction n rule: less_induct)
  case (less n)
  consider "n \<in> {0, 1, 2}" | m where "n = m + 3"
    using le_Suc_ex[of 3 n] by (cases "n < 3") (auto simp: less_Suc_eq numeral_eq_Suc)
  then show ?case
  proof cases
    case 2
    have "(4 :: nat) ^ n = 4 ^ 3 * 4 ^ m"
      by (simp add: 2 power_add)
    also have "\<dots> \<le> 4 ^ 3 * (min_nodes m + 1) ^ 3"
      using less[of m] 2 by (intro mult_left_mono) simp_all
    also have "\<dots> = (4 * (min_nodes m + 1)) ^ 3"
      by (simp only: power_mult_distrib)
    also have "\<dots> \<le> (min_nodes n + 1) ^ 3"
      unfolding 2 by (intro power_mono min_nodes_quadruple) simp
    finally show ?thesis .
  qed (auto simp: numeral_eq_Suc)
qed

lemma avl_min_nodes: "avl t \<Longrightarrow> min_nodes (nat (ht t)) \<le> length (nodes t)"
proof (induction t)
  case (Bin a k v n l r)
  then have b: "avl l" "avl r" "\<bar>ht l - ht r\<bar> \<le> 1" "n = 1 + max (ht l) (ht r)"
    by auto
  note pos = ht_nonneg[OF b(1)] ht_nonneg[OF b(2)]
  consider "ht l = ht r" | "ht r = ht l + 1" | "ht l = ht r + 1"
    using b(3) unfolding abs_le_iff by linarith
  then show ?case
  proof cases
    case 1
    define m where "m = nat (ht l)"
    have "nat n = Suc m"
      using b(4) 1 pos by (simp add: m_def)
    moreover have "min_nodes (Suc m) \<le> min_nodes m + min_nodes m + 1"
      by (cases m rule: min_nodes.cases) (use min_nodes_Suc in auto)
    ultimately show ?thesis
      using Bin.IH(1)[OF b(1)] Bin.IH(2)[OF b(2)] 1 by (simp add: m_def)
  next
    case 2
    define m where "m = nat (ht l)"
    have "nat n = Suc (Suc m)" "nat (ht r) = Suc m"
      using b(4) 2 pos by (simp_all add: m_def nat_add_distrib)
    then show ?thesis
      using Bin.IH(1)[OF b(1)] Bin.IH(2)[OF b(2)] by (simp add: m_def)
  next
    case 3
    define m where "m = nat (ht r)"
    have "nat n = Suc (Suc m)" "nat (ht l) = Suc m"
      using b(4) 3 pos by (simp_all add: m_def nat_add_distrib)
    then show ?thesis
      using Bin.IH(1)[OF b(1)] Bin.IH(2)[OF b(2)] by (simp add: m_def)
  qed
qed simp


section \<open>The longest path in the heap\<close>

partial_function (option) longest_path :: "('k, 'v) aheap \<Rightarrow> ptr \<Rightarrow> int option" where
  "longest_path h node =
     (if node = NULL then Some 0
      else do {
        e \<leftarrow> deref h node;
        l \<leftarrow> longest_path h (nd_children e AVL_TREE_NODE_LEFT);
        r \<leftarrow> longest_path h (nd_children e AVL_TREE_NODE_RIGHT);
        Some (1 + max l r)
      })"

lemma longest_path_ok: "tr h par t \<Longrightarrow> avl t \<Longrightarrow> longest_path h (root t) = Some (ht t)"
  by (induction t arbitrary: par) (subst longest_path.simps; auto)+


section \<open>Sequences of operations\<close>

datatype ('k, 'v) avl_op = Insert 'k 'v | Remove 'k

fun avl_op_step ::
  "(('k, 'v) aheap \<Rightarrow> ptr) \<Rightarrow> ('k, 'v) avl_op \<Rightarrow> ('k, 'v) aheap \<times> 'k AVLTree \<Rightarrow> (('k, 'v) aheap \<times> 'k AVLTree) option" where
  "avl_op_step malloc (Insert k v) (h, tree) = map_option snd (avl_tree_insert (malloc h) h tree k v)"
| "avl_op_step malloc (Remove k) (h, tree) = map_option snd (avl_tree_remove h tree k)"

fun avl_run ::
  "(('k, 'v) aheap \<Rightarrow> ptr) \<Rightarrow> ('k, 'v) avl_op list \<Rightarrow> ('k, 'v) aheap \<times> 'k AVLTree \<Rightarrow> (('k, 'v) aheap \<times> 'k AVLTree) option" where
  "avl_run malloc [] s = Some s"
| "avl_run malloc (op # ops) s = Option.bind (avl_op_step malloc op s) (avl_run malloc ops)"

lemma avl_op_step_ok:
  assumes holds: "avl_holds h tree zs" and len: "int (length zs) < INT_MAX"
    and malloc: "\<forall>a. malloc h = Some a \<longrightarrow> h a = None"
  shows "\<exists>h' tree' zs'. avl_op_step malloc op (h, tree) = Some (h', tree') \<and> avl_holds h' tree' zs' \<and> length zs' \<le> Suc (length zs)"
proof (cases op)
  case (Insert k v)
  show ?thesis
  proof (cases "malloc h")
    case None
    then show ?thesis
      using avl_insert_fails[OF holds, of k v] holds Insert by auto
  next
    case (Some a)
    then show ?thesis
      using avl_insert_ok[OF holds _ len, of a k v] malloc Insert by fastforce
  qed
next
  case (Remove k)
  show ?thesis
  proof (cases "\<exists>x\<in>set zs. avl_compare_func tree k (key_of x) = 0")
    case True
    then show ?thesis
      using avl_remove_ok[OF holds _ True] len Remove by fastforce
  next
    case False
    then show ?thesis
      using avl_remove_missing[OF holds] holds Remove by fastforce
  qed
qed

lemma avl_run_ok:
  assumes "avl_holds h tree zs" "int (length zs + length ops) \<le> INT_MAX" "\<forall>h a. malloc h = Some a \<longrightarrow> h a = None"
  shows "\<exists>h' tree' zs'. avl_run malloc ops (h, tree) = Some (h', tree') \<and> avl_holds h' tree' zs'"
  using assms(1,2)
proof (induction ops arbitrary: h tree zs)
  case (Cons op ops)
  obtain h1 tree1 zs1 where s1: "avl_op_step malloc op (h, tree) = Some (h1, tree1)" "avl_holds h1 tree1 zs1" "length zs1 \<le> Suc (length zs)"
    using avl_op_step_ok[OF Cons.prems(1), of malloc op] Cons.prems(2) assms(3) by auto
  then show ?case
    using Cons.IH[OF s1(2)] Cons.prems(2) by simp
qed auto

text \<open>The stored height of a tree, its longest path and its size.\<close>

lemma avl_holds_height:
  assumes "avl_holds h tree zs"
  shows "\<exists>n. avl_tree_subtree_height h (avl_tree_root_node tree) = Some n \<and> longest_path h (avl_tree_root_node tree) = Some n \<and>
    int (min_nodes (nat n)) \<le> avl_tree_num_entries tree \<and> 4 ^ nat n \<le> (avl_tree_num_entries tree + 1) ^ 3"
proof -
  obtain t where t: "whole h tree t" "avl t" "nodes t = zs" and n: "avl_num_nodes tree = int (length zs)"
    using avl_holdsE[OF assms] by metis
  then have h: "avl_tree_subtree_height h (avl_tree_root_node tree) = Some (ht t)" "longest_path h (avl_tree_root_node tree) = Some (ht t)"
    using subtree_height_ok[of h NULL t] longest_path_ok[of h NULL t] by (auto simp: whole_def avl_tree_root_node_def)
  have m: "min_nodes (nat (ht t)) \<le> length zs"
    using avl_min_nodes[OF t(2)] t(3) by simp
  have "4 ^ nat (ht t) \<le> (min_nodes (nat (ht t)) + 1) ^ 3"
    by (rule min_nodes_exp)
  also have "\<dots> \<le> (length zs + 1) ^ 3"
    using m by (intro power_mono) simp_all
  finally have "int (4 ^ nat (ht t)) \<le> int ((length zs + 1) ^ 3)"
    by (simp only: of_nat_le_iff)
  then show ?thesis
    using h m n by (intro exI[of _ "ht t"]) (simp add: avl_tree_num_entries_def add.commute)
qed

text \<open>C27: Any sequence of at most INT_MAX insertions and removals on a new tree, whatever allocations fail, leaves a
  tree whose root stores its height: the number of nodes on its longest path. The tree has at least
  as many nodes as the smallest balanced tree of that height, and the height is at most 3/2 of the
  binary logarithm of the number of nodes plus one.\<close>

theorem avl_tree_height_bound:
  assumes "comparator cmp" "avl_tree_new True cmp = Some tree" "int (length ops) \<le> INT_MAX"
    and "\<forall>h a. malloc h = Some a \<longrightarrow> h a = None"
  shows "\<exists>h' tree' n. avl_run malloc ops (h, tree) = Some (h', tree') \<and>
    avl_tree_subtree_height h' (avl_tree_root_node tree') = Some n \<and> longest_path h' (avl_tree_root_node tree') = Some n \<and>
    int (min_nodes (nat n)) \<le> avl_tree_num_entries tree' \<and> 4 ^ nat n \<le> (avl_tree_num_entries tree' + 1) ^ 3"
proof -
  have "whole h tree Tip" "avl_compare_func tree = cmp" "avl_num_nodes tree = 0"
    using assms(2) by (auto simp: whole_def avl_tree_new_def)
  then have "avl_holds h tree []"
    using assms(1) by (auto simp: avl_holds_def intro!: exI[of _ Tip])
  then obtain h' tree' zs where "avl_run malloc ops (h, tree) = Some (h', tree')" "avl_holds h' tree' zs"
    using avl_run_ok[of h tree "[]" ops malloc] assms(3,4) by auto
  then show ?thesis
    using avl_holds_height by blast
qed

text \<open>Ascending keys at the addresses 1 to 3.\<close>

definition three_cells :: "(int, int) aheap \<Rightarrow> ptr" where
  "three_cells h = (if h 1 = None then Some 1 else if h 2 = None then Some 2 else if h 3 = None then Some 3 else None)"

theorem avl_tree_height_bound_witness:
  "\<exists>h' tree' n. avl_run three_cells [Insert 1 10, Insert 2 20, Insert 3 30, Remove 2, Insert 4 40]
       (Map.empty, \<lparr>avl_root_node = NULL, avl_compare_func = int_compare, avl_num_nodes = 0\<rparr>) = Some (h', tree') \<and>
     longest_path h' (avl_tree_root_node tree') = Some n \<and> 4 ^ nat n \<le> (avl_tree_num_entries tree' + 1) ^ 3"
proof -
  have new: "avl_tree_new True int_compare = Some \<lparr>avl_root_node = NULL, avl_compare_func = int_compare, avl_num_nodes = 0\<rparr>"
    by (simp add: avl_tree_new_def)
  have len: "int (length [Insert 1 10, Insert 2 20, Insert 3 30, Remove 2, Insert 4 (40 :: int)]) \<le> INT_MAX"
    by (simp add: c_int_bounds)
  have malloc: "\<forall>h a. three_cells h = Some a \<longrightarrow> h a = None"
    by (simp add: three_cells_def)
  show ?thesis
    using avl_tree_height_bound[OF int_cmp.comparator_axioms new len malloc, of Map.empty] by blast
qed

end
