(* ===== verification/Trie.thy ===== *)
theory Trie
  imports Compare Pointer_Lists "HOL-Library.Sublist"
begin

text \<open>
  \<open>src/src/comm/trie.c\<close> on an explicit heap of nodes. A key is the list of its bytes; a byte 0, or the
  end of the list, ends the string. A Trie struct is the value of its root pointer. The pointers
  that the calls of calloc return are the argument \<open>ms\<close>, in the order of the calls; when the list is
  used up calloc fails. TRIE_NULL is \<open>None\<close>. While a trie is freed the data field of a node holds a
  pointer to another node, so that it is a union of both.
\<close>

datatype 'v TrieValue = Data 'v | NodePtr addr

record 'v TrieNode =
  tn_data :: "'v TrieValue option"
  tn_use_count :: u32
  tn_next :: "u8 \<Rightarrow> ptr"

type_synonym 'v theap = "'v TrieNode heap"

definition trie_new :: "bool \<Rightarrow> ptr option" where
  "trie_new m = (if m then Some NULL else None)"

text \<open>
  The character at a position, and the element of \<open>next[256]\<close> that it selects: a plain char is signed,
  so that a byte from 128 on is a negative index.
\<close>

definition c_char :: "u8 list \<Rightarrow> u8" where
  "c_char p = (case p of [] \<Rightarrow> 0 | b # _ \<Rightarrow> b)"

definition c_index :: "u8 \<Rightarrow> u8 option" where
  "c_index c = (if c < 128 then Some c else None)"

definition trie_free_list_push :: "'v theap \<Rightarrow> ptr \<Rightarrow> ptr \<Rightarrow> ('v theap \<times> ptr) option" where
  "trie_free_list_push h list node = do {
     h \<leftarrow> modify h node (\<lambda>e. e\<lparr>tn_data := map_option NodePtr list\<rparr>);
     Some (h, node)
   }"

definition trie_free_list_pop :: "'v theap \<Rightarrow> ptr \<Rightarrow> (ptr \<times> ptr) option" where
  "trie_free_list_pop h list = do {
     e \<leftarrow> deref h list;
     case tn_data e of
       None \<Rightarrow> Some (list, NULL)
     | Some (NodePtr a) \<Rightarrow> Some (list, Some a)
     | Some (Data v) \<Rightarrow> None
   }"

text \<open>The loop over the children of a node.\<close>

primrec trie_push_children :: "u8 list \<Rightarrow> 'v theap \<Rightarrow> ptr \<Rightarrow> ptr \<Rightarrow> ('v theap \<times> ptr) option" where
  "trie_push_children [] h list node = Some (h, list)"
| "trie_push_children (i # is) h list node = do {
     e \<leftarrow> deref h node;
     (h, list) \<leftarrow> (if tn_next e i \<noteq> NULL then trie_free_list_push h list (tn_next e i) else Some (h, list));
     trie_push_children is h list node
   }"

definition all_indices :: "u8 list" where
  "all_indices = map of_nat [0..<256]"

partial_function (option) trie_free_loop :: "'v theap \<Rightarrow> ptr \<Rightarrow> 'v theap option" where
  "trie_free_loop h free_list =
     (if free_list \<noteq> NULL then do {
        (node, free_list) \<leftarrow> trie_free_list_pop h free_list;
        (h, free_list) \<leftarrow> trie_push_children all_indices h free_list node;
        h \<leftarrow> c_free h node;
        trie_free_loop h free_list
      }
      else Some h)"

text \<open>The heap after all nodes are freed; the Trie struct is then freed too.\<close>

definition trie_free :: "'v theap \<Rightarrow> ptr \<Rightarrow> 'v theap option" where
  "trie_free h root_node = do {
     (h, free_list) \<leftarrow> (if root_node \<noteq> NULL then trie_free_list_push h NULL root_node else Some (h, NULL));
     trie_free_loop h free_list
   }"

fun trie_find_loop :: "'v theap \<Rightarrow> ptr \<Rightarrow> u8 list \<Rightarrow> ptr option" where
  "trie_find_loop h node [] = Some node"
| "trie_find_loop h node (b # bs) =
     (if b = 0 then Some node
      else if node = NULL then Some NULL
      else do {
        e \<leftarrow> deref h node;
        c \<leftarrow> c_index b;
        trie_find_loop h (tn_next e c) bs
      })"

definition trie_find_end :: "'v theap \<Rightarrow> ptr \<Rightarrow> u8 list \<Rightarrow> ptr option" where
  "trie_find_end h root_node key = trie_find_loop h root_node key"

text \<open>The locations of a node pointer: the root of the trie or an element of the next array of a node.\<close>

datatype tloc = TrieRoot | NextOf addr u8

definition tloc_read :: "'v theap \<Rightarrow> ptr \<Rightarrow> tloc \<Rightarrow> ptr option" where
  "tloc_read h root_node l =
     (case l of TrieRoot \<Rightarrow> Some root_node | NextOf a c \<Rightarrow> map_option (\<lambda>e. tn_next e c) (h a))"

definition tloc_write :: "'v theap \<Rightarrow> ptr \<Rightarrow> tloc \<Rightarrow> ptr \<Rightarrow> ('v theap \<times> ptr) option" where
  "tloc_write h root_node l p =
     (case l of
        TrieRoot \<Rightarrow> Some (h, p)
      | NextOf a c \<Rightarrow> do { h \<leftarrow> modify h (Some a) (\<lambda>e. e\<lparr>tn_next := (tn_next e)(c := p)\<rparr>); Some (h, root_node) })"

text \<open>\<open>if (prev_ptr != NULL) *prev_ptr = NULL\<close>.\<close>

definition unlink_at :: "'v theap \<Rightarrow> ptr \<Rightarrow> tloc option \<Rightarrow> ('v theap \<times> ptr) option" where
  "unlink_at h root_node l = (case l of None \<Rightarrow> Some (h, root_node) | Some l \<Rightarrow> tloc_write h root_node l NULL)"

text \<open>
  The loop of trie_insert_rollback; \<open>p\<close> is the rest of the key, \<open>None\<close> behind its terminating zero.
\<close>

partial_function (option) trie_rollback_loop ::
  "'v theap \<Rightarrow> ptr \<Rightarrow> ptr \<Rightarrow> tloc option \<Rightarrow> u8 list option \<Rightarrow> ('v theap \<times> ptr) option" where
  "trie_rollback_loop h root_node node prev_ptr p =
     (case node of
        None \<Rightarrow> Some (h, root_node)
      | Some a \<Rightarrow> do {
          q \<leftarrow> p;
          c \<leftarrow> c_index (c_char q);
          e \<leftarrow> h a;
          let next_node = tn_next e c;
          let p = (if q = [] then None else Some (tl q));
          let e = e\<lparr>tn_use_count := tn_use_count e - 1\<rparr>;
          let h = h(a \<mapsto> e);
          if tn_use_count e = 0 then do {
            h \<leftarrow> c_free h node;
            (h, root_node) \<leftarrow> unlink_at h root_node prev_ptr;
            trie_rollback_loop h root_node next_node None p
          }
          else trie_rollback_loop h root_node next_node (Some (NextOf a c)) p
        })"

definition trie_insert_rollback :: "'v theap \<Rightarrow> ptr \<Rightarrow> u8 list \<Rightarrow> ('v theap \<times> ptr) option" where
  "trie_insert_rollback h root_node key = trie_rollback_loop h root_node root_node (Some TrieRoot) (Some key)"

text \<open>
  The node at \<open>rover\<close>, created if it does not exist; \<open>None\<close> inside if calloc fails.
\<close>

definition trie_make_node ::
  "ptr list \<Rightarrow> 'v theap \<Rightarrow> ptr \<Rightarrow> tloc \<Rightarrow> (addr option \<times> ptr list \<times> 'v theap \<times> ptr) option" where
  "trie_make_node ms h root_node rover = do {
     node \<leftarrow> tloc_read h root_node rover;
     case node of
       Some a \<Rightarrow> Some (Some a, ms, h, root_node)
     | None \<Rightarrow>
         (case ms of
            Some a # ms \<Rightarrow> do {
              let h = h(a \<mapsto> \<lparr>tn_data = None, tn_use_count = 0, tn_next = (\<lambda>_. NULL)\<rparr>);
              (h, root_node) \<leftarrow> tloc_write h root_node rover (Some a);
              Some (Some a, ms, h, root_node)
            }
          | _ \<Rightarrow> Some (None, ms, h, root_node))
   }"

text \<open>The loop of trie_insert: whether it was finished, and the heap and the root.\<close>

fun trie_insert_loop ::
  "'v \<Rightarrow> ptr list \<Rightarrow> 'v theap \<Rightarrow> ptr \<Rightarrow> tloc \<Rightarrow> u8 list \<Rightarrow> (bool \<times> 'v theap \<times> ptr) option" where
  "trie_insert_loop value ms h root_node rover p = do {
     (node, ms, h, root_node) \<leftarrow> trie_make_node ms h root_node rover;
     case node of
       None \<Rightarrow> Some (False, h, root_node)
     | Some a \<Rightarrow> do {
         h \<leftarrow> modify h (Some a) (\<lambda>e. e\<lparr>tn_use_count := tn_use_count e + 1\<rparr>);
         case p of
           [] \<Rightarrow> do {
             h \<leftarrow> modify h (Some a) (\<lambda>e. e\<lparr>tn_data := Some (Data value)\<rparr>);
             Some (True, h, root_node)
           }
         | b # bs \<Rightarrow>
             if b = 0 then do {
               h \<leftarrow> modify h (Some a) (\<lambda>e. e\<lparr>tn_data := Some (Data value)\<rparr>);
               Some (True, h, root_node)
             }
             else do {
               c \<leftarrow> c_index b;
               trie_insert_loop value ms h root_node (NextOf a c) bs
             }
       }
   }"

declare trie_insert_loop.simps [simp del]

definition trie_insert ::
  "ptr list \<Rightarrow> 'v theap \<Rightarrow> ptr \<Rightarrow> u8 list \<Rightarrow> 'v option \<Rightarrow> (int \<times> 'v theap \<times> ptr) option" where
  "trie_insert ms h root_node key value =
     (case value of
        None \<Rightarrow> Some (0, h, root_node)
      | Some v \<Rightarrow> do {
          node \<leftarrow> trie_find_end h root_node key;
          present \<leftarrow> (if node = NULL then Some False else do { e \<leftarrow> deref h node; Some (tn_data e \<noteq> None) });
          if present then do {
            h \<leftarrow> modify h node (\<lambda>e. e\<lparr>tn_data := Some (Data v)\<rparr>);
            Some (1, h, root_node)
          }
          else do {
            (done, h, root_node) \<leftarrow> trie_insert_loop v ms h root_node TrieRoot key;
            if done then Some (1, h, root_node)
            else do {
              (h, root_node) \<leftarrow> trie_insert_rollback h root_node key;
              Some (0, h, root_node)
            }
          }
        })"

text \<open>The loop of trie_remove over the nodes of the key.\<close>

fun trie_remove_loop :: "'v theap \<Rightarrow> ptr \<Rightarrow> ptr \<Rightarrow> tloc option \<Rightarrow> u8 list \<Rightarrow> ('v theap \<times> ptr) option" where
  "trie_remove_loop h root_node node last_next_ptr p = do {
     a \<leftarrow> node;
     c \<leftarrow> c_index (c_char p);
     e \<leftarrow> h a;
     let next_node = tn_next e c;
     let e = e\<lparr>tn_use_count := tn_use_count e - 1\<rparr>;
     let h = h(a \<mapsto> e);
     (h, root_node, last_next_ptr) \<leftarrow>
       (if tn_use_count e \<le> 0 then do {
          h \<leftarrow> c_free h node;
          (h, root_node) \<leftarrow> unlink_at h root_node last_next_ptr;
          Some (h, root_node, None)
        }
        else Some (h, root_node, last_next_ptr));
     case p of
       [] \<Rightarrow> Some (h, root_node)
     | b # bs \<Rightarrow>
         if b = 0 then Some (h, root_node)
         else trie_remove_loop h root_node next_node (if last_next_ptr \<noteq> None then Some (NextOf a c) else None) bs
   }"

declare trie_remove_loop.simps [simp del]

definition trie_remove :: "'v theap \<Rightarrow> ptr \<Rightarrow> u8 list \<Rightarrow> (int \<times> 'v theap \<times> ptr) option" where
  "trie_remove h root_node key = do {
     node \<leftarrow> trie_find_end h root_node key;
     present \<leftarrow> (if node = NULL then Some False else do { e \<leftarrow> deref h node; Some (tn_data e \<noteq> None) });
     if \<not> present then Some (0, h, root_node)
     else do {
       h \<leftarrow> modify h node (\<lambda>e. e\<lparr>tn_data := None\<rparr>);
       (h, root_node) \<leftarrow> trie_remove_loop h root_node root_node (Some TrieRoot) key;
       Some (1, h, root_node)
     }
   }"

definition trie_lookup :: "'v theap \<Rightarrow> ptr \<Rightarrow> u8 list \<Rightarrow> 'v TrieValue option option" where
  "trie_lookup h root_node key = do {
     node \<leftarrow> trie_find_end h root_node key;
     if node \<noteq> NULL then map_option tn_data (deref h node) else Some None
   }"

text \<open>The unsigned count is converted to an int, which wraps around.\<close>

definition trie_num_entries :: "'v theap \<Rightarrow> ptr \<Rightarrow> int option" where
  "trie_num_entries h root_node =
     (if root_node = NULL then Some 0 else map_option (\<lambda>e. sint (tn_use_count e)) (deref h root_node))"

end
