(* ===== verification/Trie_Shape.thy ===== *)
theory Trie_Shape
  imports Trie
begin

text \<open>
  How a trie lies in the heap. \<open>N w\<close> is the address of the node that the string \<open>w\<close> leads to, if there
  is one, \<open>D w\<close> its data and \<open>U w\<close> its use count. The lemmas describe the steps of the loops of
  \<open>trie.c\<close> on such a trie: a node is created, counted, emptied or cut off.
\<close>

type_synonym path = "u8 list"

abbreviation tcell :: "(path \<Rightarrow> 'v TrieValue option) \<Rightarrow> (path \<Rightarrow> u32) \<Rightarrow> (path \<Rightarrow> ptr) \<Rightarrow> path \<Rightarrow> 'v TrieNode" where
  "tcell D U N w \<equiv> \<lparr>tn_data = D w, tn_use_count = U w, tn_next = (\<lambda>c. N (w @ [c]))\<rparr>"

definition shape :: "'v theap \<Rightarrow> (path \<Rightarrow> ptr) \<Rightarrow> (path \<Rightarrow> 'v TrieValue option) \<Rightarrow> (path \<Rightarrow> u32) \<Rightarrow> bool" where
  "shape h N D U \<longleftrightarrow> (\<forall>w a. N w = Some a \<longrightarrow> h a = Some (tcell D U N w)) \<and>
     (\<forall>w c. N w = None \<longrightarrow> N (w @ [c]) = None) \<and>
     (\<forall>w v a. N w = Some a \<longrightarrow> N v = Some a \<longrightarrow> w = v) \<and> (\<forall>w. N w = None \<longrightarrow> D w = None \<and> U w = 0)"

lemma shape_cell: "shape h N D U \<Longrightarrow> N w = Some a \<Longrightarrow> h a = Some (tcell D U N w)"
  by (simp add: shape_def)

lemma shape_inj: "shape h N D U \<Longrightarrow> N w = Some a \<Longrightarrow> N v = Some a \<Longrightarrow> w = v"
  by (simp add: shape_def)

lemma shape_norm: "shape h N D U \<Longrightarrow> N w = None \<Longrightarrow> D w = None \<and> U w = 0"
  by (simp add: shape_def)

lemma shape_closed: "shape h N D U \<Longrightarrow> N w = None \<Longrightarrow> N (w @ v) = None"
proof (induction v rule: rev_induct)
  case (snoc c v)
  have "N ((w @ v) @ [c]) = None" using snoc unfolding shape_def by blast
  then show ?case by simp
qed simp

lemma shape_prefix: "shape h N D U \<Longrightarrow> N x \<noteq> None \<Longrightarrow> prefix w x \<Longrightarrow> N w \<noteq> None"
  using shape_closed by (metis prefixE)

lemma shapeI:
  assumes "\<And>w a. N w = Some a \<Longrightarrow> h a = Some (tcell D U N w)" "\<And>w c. N w = None \<Longrightarrow> N (w @ [c]) = None"
    "\<And>w v a. N w = Some a \<Longrightarrow> N v = Some a \<Longrightarrow> w = v" "\<And>w. N w = None \<Longrightarrow> D w = None \<and> U w = 0"
  shows "shape h N D U"
  unfolding shape_def using assms by blast

text \<open>The heap may change outside of the nodes.\<close>

lemma shape_frame: "shape h N D U \<Longrightarrow> (\<And>w a. N w = Some a \<Longrightarrow> h' a = h a) \<Longrightarrow> shape h' N D U"
  by (rule shapeI) (auto simp: shape_def)

definition valid :: "path \<Rightarrow> bool" where
  "valid k \<longleftrightarrow> (\<forall>b \<in> set k. b < 128)"

lemma valid_simps [simp]: "valid []" "valid (b # k) \<longleftrightarrow> b < 128 \<and> valid k"
  by (simp_all add: valid_def)

lemma c_index_ok [simp]: "b < 128 \<Longrightarrow> c_index b = Some b"
  by (simp add: c_index_def)

lemma c_index_0 [simp]: "c_index 0 = Some 0"
  by (simp add: c_index_def)

lemma c_char_simps [simp]: "c_char [] = 0" "c_char (b # bs) = b"
  by (simp_all add: c_char_def)

lemma trie_walk_ok: "shape h N D U \<Longrightarrow> valid (cstr p) \<Longrightarrow> trie_find_loop h (N w) p = Some (N (w @ cstr p))"
proof (induction p arbitrary: w)
  case (Cons b p)
  show ?case
  proof (cases "N w")
    case None
    then show ?thesis using shape_closed[OF Cons.prems(1) None, of "b # cstr p"] by simp
  next
    case (Some a)
    then show ?thesis using Cons.IH[of "w @ [b]"] Cons.prems shape_cell[OF Cons.prems(1) Some] by (cases "b = 0") auto
  qed
qed simp

text \<open>The location through which the node of a string is reached.\<close>

definition loc_to :: "(path \<Rightarrow> ptr) \<Rightarrow> path \<Rightarrow> tloc" where
  "loc_to N w = (if w = [] then TrieRoot else NextOf (the (N (butlast w))) (last w))"

definition linked :: "(path \<Rightarrow> ptr) \<Rightarrow> path \<Rightarrow> bool" where
  "linked N w \<longleftrightarrow> w = [] \<or> N (butlast w) \<noteq> None"

lemma loc_to_simps [simp]: "loc_to N [] = TrieRoot" "loc_to N (w @ [c]) = NextOf (the (N w)) c"
  "linked N []" "linked N (w @ [c]) \<longleftrightarrow> N w \<noteq> None"
  by (simp_all add: loc_to_def linked_def)

lemma shape_linked: "shape h N D U \<Longrightarrow> N w \<noteq> None \<Longrightarrow> linked N w"
  by (cases w rule: rev_cases) (auto simp: shape_def)

lemma tloc_read_ok: "shape h N D U \<Longrightarrow> linked N w \<Longrightarrow> tloc_read h (N []) (loc_to N w) = Some (N w)"
  by (cases w rule: rev_cases) (auto simp: tloc_read_def shape_def)

section \<open>Counting and data\<close>

lemma shape_update:
  assumes "shape h N D U" "N w = Some a"
  shows "shape (h(a \<mapsto> \<lparr>tn_data = d, tn_use_count = u, tn_next = (\<lambda>c. N (w @ [c]))\<rparr>)) N (D(w := d)) (U(w := u))"
proof (rule shapeI)
  fix v b assume v: "N v = Some b"
  show "(h(a \<mapsto> \<lparr>tn_data = d, tn_use_count = u, tn_next = (\<lambda>c. N (w @ [c]))\<rparr>)) b = Some (tcell (D(w := d)) (U(w := u)) N v)"
    using shape_cell[OF assms(1) v] shape_inj[OF assms(1) v, of w] shape_inj[OF assms(1) assms(2), of v] v assms(2) by auto
qed (use assms in \<open>auto simp: shape_def\<close>)

section \<open>A new node\<close>

lemma make_node_old:
  assumes "shape h N D U" "N w = Some a"
  shows "trie_make_node ms h (N []) (loc_to N w) = Some (Some a, ms, h, N [])"
  using tloc_read_ok[OF assms(1) shape_linked[OF assms(1)], of w] assms(2) by (simp add: trie_make_node_def)

lemma make_node_fails:
  assumes "shape h N D U" "N w = None" "linked N w" "\<And>a ms'. ms \<noteq> Some a # ms'"
  shows "trie_make_node ms h (N []) (loc_to N w) = Some (None, ms, h, N [])"
  using tloc_read_ok[OF assms(1,3)] assms(2,4)
  by (cases ms; cases "hd ms") (auto simp: trie_make_node_def)

lemma make_node_new:
  assumes "shape h N D U" "N w = None" "linked N w" "h a = None"
  shows "\<exists>h'. trie_make_node (Some a # ms) h (N []) (loc_to N w) = Some (Some a, ms, h', (N(w \<mapsto> a)) []) \<and>
           shape h' (N(w \<mapsto> a)) D U \<and> (\<forall>x. x \<noteq> a \<longrightarrow> x \<notin> ran N \<longrightarrow> h' x = h x)"
proof -
  have fresh: "N v \<noteq> Some a" for v using shape_cell[OF assms(1), of v a] assms(4) by auto
  have kids: "N (w @ [c]) = None" for c using assms(1,2) by (simp add: shape_def)
  have norm: "D w = None" "U w = 0" using shape_norm[OF assms(1,2)] by auto
  have r: "tloc_read h (N []) (loc_to N w) = Some None" using tloc_read_ok[OF assms(1,3)] assms(2) by simp
  let ?b = "\<lparr>tn_data = None, tn_use_count = 0, tn_next = (\<lambda>_. NULL)\<rparr>"
  have rest: "shape h' (N(w \<mapsto> a)) D U" if "\<And>v b. (N(w \<mapsto> a)) v = Some b \<Longrightarrow> h' b = Some (tcell D U (N(w \<mapsto> a)) v)" for h'
  proof (rule shapeI)
    show "(N(w \<mapsto> a)) (v @ [c]) = None" if "(N(w \<mapsto> a)) v = None" for v c
      using that assms(1,3) by (auto simp: shape_def linked_def split: if_splits)
    show "v = u" if "(N(w \<mapsto> a)) v = Some b" "(N(w \<mapsto> a)) u = Some b" for v u b
      using that fresh shape_inj[OF assms(1)] by (auto split: if_splits)
    show "D v = None \<and> U v = 0" if "(N(w \<mapsto> a)) v = None" for v
      using that shape_norm[OF assms(1), of v] by (auto split: if_splits)
  qed (rule that)
  show ?thesis
  proof (cases w rule: rev_cases)
    case Nil
    have "h v \<noteq> None" if "N u = Some v" for u v using shape_cell[OF assms(1) that] by simp
    have none: "N v = None" for v using shape_closed[OF assms(1), of "[]" v] assms(2) Nil by simp
    have "shape (h(a \<mapsto> ?b)) (N(w \<mapsto> a)) D U" by (rule rest) (use none norm Nil in \<open>auto split: if_splits\<close>)
    moreover have "trie_make_node (Some a # ms) h (N []) (loc_to N w) = Some (Some a, ms, h(a \<mapsto> ?b), (N(w \<mapsto> a)) [])"
      using r Nil by (simp add: trie_make_node_def tloc_write_def Let_def)
    ultimately show ?thesis by auto
  next
    case (snoc u c)
    then obtain p where p: "N u = Some p" using assms(3) by auto
    have hp: "h p = Some (tcell D U N u)" using shape_cell[OF assms(1) p] .
    have pa: "p \<noteq> a" using hp assms(4) by auto
    let ?h = "h(a \<mapsto> ?b, p \<mapsto> (tcell D U N u)\<lparr>tn_next := (\<lambda>c. N (u @ [c]))(c := Some a)\<rparr>)"
    have "shape ?h (N(w \<mapsto> a)) D U"
    proof (rule rest)
      fix v b assume v: "(N(w \<mapsto> a)) v = Some b"
      consider "v = w" "b = a" | "v = u" "b = p" "v \<noteq> w" | "N v = Some b" "v \<noteq> w" "v \<noteq> u"
        using v p by (cases "v = w"; cases "v = u") simp_all
      then show "?h b = Some (tcell D U (N(w \<mapsto> a)) v)"
      proof cases
        case 1
        then show ?thesis using pa kids norm by (auto simp: fun_eq_iff)
      next
        case 2
        then show ?thesis using snoc by (auto simp: fun_eq_iff)
      next
        case 3
        then have "b \<noteq> a" "b \<noteq> p" using fresh shape_inj[OF assms(1) _ p, of v] by auto
        moreover have "\<forall>c'. v @ [c'] \<noteq> w" using 3 snoc by auto
        ultimately show ?thesis using shape_cell[OF assms(1) 3(1)] by (auto simp: fun_eq_iff)
      qed
    qed
    moreover have "trie_make_node (Some a # ms) h (N []) (loc_to N w) = Some (Some a, ms, ?h, (N(w \<mapsto> a)) [])"
      using r snoc p hp pa by (simp add: trie_make_node_def tloc_write_def Let_def)
    ultimately show ?thesis using p by (auto simp: ran_def)
  qed
qed

section \<open>Cutting a node off\<close>

definition cut :: "path \<Rightarrow> (path \<Rightarrow> 'x) \<Rightarrow> 'x \<Rightarrow> path \<Rightarrow> 'x" where
  "cut w f z x = (if prefix w x then z else f x)"

lemma prefix_snoc_other: "\<not> prefix w v \<Longrightarrow> prefix w (v @ [c]) \<longleftrightarrow> w = v @ [c]"
  by auto

lemma shape_cut:
  assumes "shape h N D U" "N w = Some a"
  shows "\<exists>h'. unlink_at (h(a := None)) (N []) (Some (loc_to N w)) = Some (h', cut w N None []) \<and>
           shape h' (cut w N None) (cut w D None) (cut w U 0) \<and> h' a = None \<and>
           (\<forall>x. x \<noteq> a \<longrightarrow> (\<forall>v. N v = Some x \<longrightarrow> prefix w v) \<longrightarrow> h' x = h x)"
proof -
  have rest: "shape h' (cut w N None) (cut w D None) (cut w U 0)"
    if "\<And>v b. N v = Some b \<Longrightarrow> \<not> prefix w v \<Longrightarrow> h' b = Some \<lparr>tn_data = D v, tn_use_count = U v, tn_next = (\<lambda>c. cut w N None (v @ [c]))\<rparr>" for h'
  proof (rule shapeI)
    show "h' b = Some (tcell (cut w D None) (cut w U 0) (cut w N None) v)" if "cut w N None v = Some b" for v b
      using that \<open>\<And>v b. N v = Some b \<Longrightarrow> \<not> prefix w v \<Longrightarrow> _\<close>[of v b] by (auto simp: cut_def split: if_splits)
    show "cut w N None (v @ [c]) = None" if "cut w N None v = None" for v c
      using that assms(1) by (auto simp: cut_def shape_def split: if_splits)
    show "v = u" if "cut w N None v = Some b" "cut w N None u = Some b" for v u b
      using that shape_inj[OF assms(1)] by (auto simp: cut_def split: if_splits)
    show "cut w D None v = None \<and> cut w U 0 v = 0" if "cut w N None v = None" for v
      using that shape_norm[OF assms(1), of v] by (auto simp: cut_def split: if_splits)
  qed
  show ?thesis
  proof (cases w rule: rev_cases)
    case Nil
    have "shape (h(a := None)) (cut w N None) (cut w D None) (cut w U 0)" by (rule rest) (use Nil in auto)
    then show ?thesis using Nil by (simp add: unlink_at_def tloc_write_def cut_def)
  next
    case (snoc u c)
    obtain p where p: "N u = Some p" using shape_linked[OF assms(1), of w] assms(2) snoc by auto
    have hp: "h p = Some (tcell D U N u)" using shape_cell[OF assms(1) p] .
    have pa: "p \<noteq> a" using shape_inj[OF assms(1) assms(2), of u] p snoc by auto
    let ?h = "h(a := None, p \<mapsto> (tcell D U N u)\<lparr>tn_next := (\<lambda>c. N (u @ [c]))(c := NULL)\<rparr>)"
    have "shape ?h (cut w N None) (cut w D None) (cut w U 0)"
    proof (rule rest)
      fix v b assume v: "N v = Some b" "\<not> prefix w v"
      have "b \<noteq> a" using shape_inj[OF assms(1) assms(2), of v] v by auto
      show "?h b = Some \<lparr>tn_data = D v, tn_use_count = U v, tn_next = (\<lambda>c. cut w N None (v @ [c]))\<rparr>"
      proof (cases "v = u")
        case True
        then show ?thesis using p v(1) v(2) snoc by (auto simp: cut_def fun_eq_iff prefix_snoc_other[OF v(2)])
      next
        case False
        then have "b \<noteq> p" using shape_inj[OF assms(1) v(1), of u] p by auto
        moreover have "\<not> prefix w (v @ [c'])" for c' using prefix_snoc_other[OF v(2), of c'] False snoc by auto
        ultimately show ?thesis using shape_cell[OF assms(1) v(1)] \<open>b \<noteq> a\<close> by (auto simp: cut_def fun_eq_iff)
      qed
    qed
    moreover have "unlink_at (h(a := None)) (N []) (Some (loc_to N w)) = Some (?h, cut w N None [])"
      using snoc p hp pa by (simp add: unlink_at_def tloc_write_def cut_def)
    moreover have "\<not> prefix w u" using snoc by auto
    ultimately show ?thesis using p pa by auto
  qed
qed

end
