(* ===== verification/Trie_Loops.thy ===== *)
theory Trie_Loops
  imports Trie_Shape
begin

text \<open>
  The loops of \<open>trie.c\<close> on a trie in the heap: insertion with its allocations, the rollback of an
  insertion that ran out of memory, and removal.
\<close>

section \<open>Insertion\<close>

definition bump :: "(path \<Rightarrow> u32) \<Rightarrow> (path \<Rightarrow> bool) \<Rightarrow> path \<Rightarrow> u32" where
  "bump U P x = (if P x then U x + 1 else U x)"

text \<open>The addresses that calloc will return are not in use and distinct.\<close>

definition avail :: "ptr list \<Rightarrow> 'v theap \<Rightarrow> bool" where
  "avail ms h \<longleftrightarrow> (\<forall>a. Some a \<in> set ms \<longrightarrow> h a = None) \<and> distinct (filter (\<lambda>m. m \<noteq> None) ms)"

lemma make_node_ok:
  assumes "shape h N D U" "linked N w" "avail ms h"
  shows "(\<exists>a ms1 h1 N1. trie_make_node ms h (N []) (loc_to N w) = Some (Some a, ms1, h1, N1 []) \<and>
            shape h1 N1 D U \<and> N1 w = Some a \<and> N \<subseteq>\<^sub>m N1 \<and> dom N1 = insert w (dom N) \<and> avail ms1 h1 \<and>
            set ms1 \<subseteq> set ms \<and> ran N1 \<subseteq> ran N \<union> {a. Some a \<in> set ms} \<and>
            (\<forall>x. x \<notin> ran N1 \<longrightarrow> h1 x = h x) \<and> length ms \<le> Suc (length ms1)) \<or>
         N w = None \<and> trie_make_node ms h (N []) (loc_to N w) = Some (None, ms, h, N []) \<and> (ms = [] \<or> None \<in> set ms)"
proof (cases "N w")
  case (Some a)
  then show ?thesis using make_node_old[OF assms(1) Some, of ms] assms(1,3)
    by (intro disjI1 exI[of _ a] exI[of _ ms] exI[of _ h] exI[of _ N]) auto
next
  case None
  show ?thesis
  proof (cases "\<exists>a ms'. ms = Some a # ms'")
    case True
    then obtain a ms' where ms: "ms = Some a # ms'" by blast
    have a: "h a = None" "Some a \<notin> set ms'" using assms(3) ms by (auto simp: avail_def)
    from make_node_new[OF assms(1) None assms(2) a(1), of ms'] obtain h1 where
      h1: "trie_make_node ms h (N []) (loc_to N w) = Some (Some a, ms', h1, (N(w \<mapsto> a)) [])" "shape h1 (N(w \<mapsto> a)) D U"
        "\<forall>x. x \<noteq> a \<longrightarrow> x \<notin> ran N \<longrightarrow> h1 x = h x" unfolding ms by blast
    have "N v \<noteq> Some b" if "Some b \<in> set ms" for v b
      using shape_cell[OF assms(1), of v b] assms(3) that by (auto simp: avail_def)
    then have "b \<notin> ran N" if "Some b \<in> set ms" for b using that by (auto simp: ran_def)
    then have "avail ms' h1" using h1(3) assms(3) a(2) ms unfolding avail_def by auto
    moreover have "N \<subseteq>\<^sub>m N(w \<mapsto> a)" using None by (auto simp: map_le_def)
    moreover have "ran (N(w \<mapsto> a)) \<subseteq> ran N \<union> {a. Some a \<in> set ms}" using ms by (auto simp: ran_def split: if_splits)
    moreover have "x \<notin> ran (N(w \<mapsto> a)) \<longrightarrow> x \<noteq> a \<and> x \<notin> ran N" for x using None by (simp add: ran_map_upd)
    ultimately show ?thesis using h1 ms
      by (intro disjI1 exI[of _ a] exI[of _ ms'] exI[of _ h1] exI[of _ "N(w \<mapsto> a)"]) auto
  next
    case False
    then have "ms = [] \<or> None \<in> set ms" by (cases ms) (auto simp: not_Some_eq)
    then show ?thesis using make_node_fails[OF assms(1) None assms(2)] None False by blast
  qed
qed

text \<open>The outcome of the loop, from the node of \<open>w\<close> with the rest \<open>k\<close> of the key.\<close>

definition inserted :: "'v theap \<Rightarrow> (path \<Rightarrow> ptr) \<Rightarrow> (path \<Rightarrow> 'v TrieValue option) \<Rightarrow> (path \<Rightarrow> u32) \<Rightarrow> path \<Rightarrow> path \<Rightarrow> 'v \<Rightarrow>
    'v theap \<Rightarrow> (path \<Rightarrow> ptr) \<Rightarrow> bool" where
  "inserted h N D U w k v h' N' \<longleftrightarrow> shape h' N' (D(w @ k := Some (Data v))) (bump U (\<lambda>x. \<exists>r. prefix r k \<and> x = w @ r)) \<and>
     dom N' = dom N \<union> {w @ r |r. prefix r k}"

definition aborted :: "'v theap \<Rightarrow> (path \<Rightarrow> ptr) \<Rightarrow> (path \<Rightarrow> 'v TrieValue option) \<Rightarrow> (path \<Rightarrow> u32) \<Rightarrow> path \<Rightarrow> path \<Rightarrow>
    'v theap \<Rightarrow> (path \<Rightarrow> ptr) \<Rightarrow> bool" where
  "aborted h N D U w k h' N' \<longleftrightarrow> (\<exists>q. prefix q k \<and> N' (w @ q) = None \<and>
     shape h' N' D (bump U (\<lambda>x. \<exists>r. strict_prefix r q \<and> x = w @ r)) \<and> dom N' = dom N \<union> {w @ r |r. strict_prefix r q})"

lemma inserted_step:
  assumes "inserted h2 N1 D (U(w := U w + 1)) (w @ [b]) k v h' N'" "dom N1 = insert w (dom N)"
  shows "inserted h N D U w (b # k) v h' N'"
proof -
  have "bump (U(w := U w + 1)) (\<lambda>x. \<exists>r. prefix r k \<and> x = (w @ [b]) @ r) = bump U (\<lambda>x. \<exists>r. prefix r (b # k) \<and> x = w @ r)"
    by (auto simp: bump_def fun_eq_iff prefix_Cons)
  moreover have "insert w (dom N) \<union> {(w @ [b]) @ r |r. prefix r k} = dom N \<union> {w @ r |r. prefix r (b # k)}"
    by (auto simp: prefix_Cons)
  ultimately show ?thesis using assms unfolding inserted_def by simp
qed

lemma strict_prefix_Cons: "strict_prefix r (b # q) \<longleftrightarrow> r = [] \<or> (\<exists>r'. r = b # r' \<and> strict_prefix r' q)"
  by (cases r) (auto simp: strict_prefix_def)

lemma aborted_step:
  assumes "aborted h2 N1 D (U(w := U w + 1)) (w @ [b]) k h' N'" "dom N1 = insert w (dom N)"
  shows "aborted h N D U w (b # k) h' N'"
proof -
  from assms(1) obtain q where q: "prefix q k" "N' ((w @ [b]) @ q) = None"
      "shape h' N' D (bump (U(w := U w + 1)) (\<lambda>x. \<exists>r. strict_prefix r q \<and> x = (w @ [b]) @ r))"
      "dom N' = dom N1 \<union> {(w @ [b]) @ r |r. strict_prefix r q}" unfolding aborted_def by blast
  have "bump (U(w := U w + 1)) (\<lambda>x. \<exists>r. strict_prefix r q \<and> x = (w @ [b]) @ r) = bump U (\<lambda>x. \<exists>r. strict_prefix r (b # q) \<and> x = w @ r)"
    by (auto simp: bump_def fun_eq_iff strict_prefix_Cons)
  moreover have "insert w (dom N) \<union> {(w @ [b]) @ r |r. strict_prefix r q} = dom N \<union> {w @ r |r. strict_prefix r (b # q)}"
    by (auto simp: strict_prefix_Cons)
  ultimately show ?thesis using q assms(2) unfolding aborted_def by (intro exI[of _ "b # q"]) simp
qed

definition loop_outcome :: "'v \<Rightarrow> ptr list \<Rightarrow> 'v theap \<Rightarrow> (path \<Rightarrow> ptr) \<Rightarrow> (path \<Rightarrow> 'v TrieValue option) \<Rightarrow> (path \<Rightarrow> u32) \<Rightarrow> path \<Rightarrow> u8 list \<Rightarrow> bool" where
  "loop_outcome v ms h N D U w p \<longleftrightarrow> (\<exists>fin h' N'. trie_insert_loop v ms h (N []) (loc_to N w) p = Some (fin, h', N' []) \<and>
     (if fin then inserted h N D U w (cstr p) v h' N' else aborted h N D U w (cstr p) h' N') \<and> N \<subseteq>\<^sub>m N' \<and>
     ran N' \<subseteq> ran N \<union> {a. Some a \<in> set ms} \<and> (\<forall>x. x \<notin> ran N' \<longrightarrow> h' x = h x) \<and>
     (None \<notin> set ms \<longrightarrow> length (cstr p) < length ms \<longrightarrow> fin))"

lemma loop_outcome_fails:
  assumes "shape h N D U" "N w = None" "trie_make_node ms h (N []) (loc_to N w) = Some (None, ms, h, N [])" "ms = [] \<or> None \<in> set ms"
  shows "loop_outcome v ms h N D U w p"
proof -
  have "bump U (\<lambda>x. \<exists>r. strict_prefix r [] \<and> x = w @ r) = U" by (simp add: bump_def fun_eq_iff)
  then have "aborted h N D U w (cstr p) h N" using assms(1,2) unfolding aborted_def by (intro exI[of _ "[]"]) simp
  moreover have "trie_insert_loop v ms h (N []) (loc_to N w) p = Some (False, h, N [])"
    using assms(3) by (subst trie_insert_loop.simps) simp
  ultimately show ?thesis unfolding loop_outcome_def using assms(4) by (intro exI[of _ False] exI[of _ h] exI[of _ N]) auto
qed

lemma cstr_Nil_cases: "cstr p = [] \<Longrightarrow> p = [] \<or> (\<exists>bs. p = 0 # bs)"
  by (cases p) (auto split: if_splits)

lemma insert_loop_end:
  assumes "shape h N D U" "linked N w" "avail ms h" "cstr p = []"
  shows "loop_outcome v ms h N D U w p"
  using make_node_ok[OF assms(1-3)]
proof (elim disjE exE conjE)
  fix a ms1 h1 N1
  assume m: "trie_make_node ms h (N []) (loc_to N w) = Some (Some a, ms1, h1, N1 [])" "shape h1 N1 D U" "N1 w = Some a"
    "N \<subseteq>\<^sub>m N1" "dom N1 = insert w (dom N)" "ran N1 \<subseteq> ran N \<union> {a. Some a \<in> set ms}"
    "\<forall>x. x \<notin> ran N1 \<longrightarrow> h1 x = h x"
  let ?h = "h1(a \<mapsto> \<lparr>tn_data = Some (Data v), tn_use_count = U w + 1, tn_next = (\<lambda>c. N1 (w @ [c]))\<rparr>)"
  have l: "trie_insert_loop v ms h (N []) (loc_to N w) p = Some (True, ?h, N1 [])"
    using m(1) shape_cell[OF m(2,3)] cstr_Nil_cases[OF assms(4)] by (subst trie_insert_loop.simps) auto
  have "U(w := U w + 1) = bump U (\<lambda>x. \<exists>r. prefix r [] \<and> x = w @ r)" by (auto simp: bump_def fun_eq_iff)
  then have "inserted h N D U w [] v ?h N1"
    using shape_update[OF m(2,3), of "Some (Data v)" "U w + 1"] m(5) by (simp add: inserted_def)
  moreover have "a \<in> ran N1" using m(3) by (auto simp: ran_def)
  ultimately show ?thesis using l m(4,6,7) assms(4) unfolding loop_outcome_def
    by (intro exI[of _ True] exI[of _ ?h] exI[of _ N1]) auto
next
  assume "N w = None" "trie_make_node ms h (N []) (loc_to N w) = Some (None, ms, h, N [])" "ms = []"
  then show ?thesis using loop_outcome_fails[OF assms(1), of w ms] by simp
next
  assume "N w = None" "trie_make_node ms h (N []) (loc_to N w) = Some (None, ms, h, N [])" "None \<in> set ms"
  then show ?thesis using loop_outcome_fails[OF assms(1), of w ms] by simp
qed

lemma insert_loop_ok:
  assumes "shape h N D U" "linked N w" "valid (cstr p)" "avail ms h"
  shows "loop_outcome v ms h N D U w p"
  using assms
proof (induction p arbitrary: w h N U ms)
  case Nil
  show ?case by (rule insert_loop_end[OF Nil.prems(1,2,4)]) simp
next
  case (Cons b p)
  show ?case
  proof (cases "b = 0")
    case True
    show ?thesis by (rule insert_loop_end[OF Cons.prems(1,2,4)]) (simp add: True)
  next
    case False
    then have b: "b < 128" "valid (cstr p)" "cstr (b # p) = b # cstr p" using Cons.prems(3) by auto
    from make_node_ok[OF Cons.prems(1,2,4)] show ?thesis
    proof (elim disjE exE conjE)
      fix a ms1 h1 N1
      assume m: "trie_make_node ms h (N []) (loc_to N w) = Some (Some a, ms1, h1, N1 [])" "shape h1 N1 D U" "N1 w = Some a"
        "N \<subseteq>\<^sub>m N1" "dom N1 = insert w (dom N)" "avail ms1 h1" "set ms1 \<subseteq> set ms" "ran N1 \<subseteq> ran N \<union> {a. Some a \<in> set ms}"
        "\<forall>x. x \<notin> ran N1 \<longrightarrow> h1 x = h x" "length ms \<le> Suc (length ms1)"
      let ?h = "h1(a \<mapsto> \<lparr>tn_data = D w, tn_use_count = U w + 1, tn_next = (\<lambda>c. N1 (w @ [c]))\<rparr>)"
      have s: "shape ?h N1 D (U(w := U w + 1))" using shape_update[OF m(2,3), of "D w" "U w + 1"] by simp
      have a: "Some a \<notin> set ms1" using m(6) shape_cell[OF m(2,3)] by (auto simp: avail_def)
      have "avail ms1 ?h" using m(6) a by (auto simp: avail_def)
      from Cons.IH[OF s _ b(2) this, of "w @ [b]"] m(3) obtain fin h' N' where r:
        "trie_insert_loop v ms1 ?h (N1 []) (NextOf a b) p = Some (fin, h', N' [])"
        "if fin then inserted ?h N1 D (U(w := U w + 1)) (w @ [b]) (cstr p) v h' N' else aborted ?h N1 D (U(w := U w + 1)) (w @ [b]) (cstr p) h' N'"
        "N1 \<subseteq>\<^sub>m N'" "ran N' \<subseteq> ran N1 \<union> {a. Some a \<in> set ms1}" "\<forall>x. x \<notin> ran N' \<longrightarrow> h' x = ?h x"
        "None \<notin> set ms1 \<longrightarrow> length (cstr p) < length ms1 \<longrightarrow> fin" unfolding loop_outcome_def by auto
      have "trie_insert_loop v ms h (N []) (loc_to N w) (b # p) = Some (fin, h', N' [])"
        using m(1) shape_cell[OF m(2,3)] r(1) b False by (subst trie_insert_loop.simps) simp
      moreover have "if fin then inserted h N D U w (b # cstr p) v h' N' else aborted h N D U w (b # cstr p) h' N'"
        using r(2) inserted_step[OF _ m(5)] aborted_step[OF _ m(5)] by (auto split: if_splits)
      moreover have "N \<subseteq>\<^sub>m N'" using m(4) r(3) map_le_trans by blast
      moreover have "ran N' \<subseteq> ran N \<union> {a. Some a \<in> set ms}" using r(4) m(7,8) by auto
      moreover have "\<forall>x. x \<notin> ran N' \<longrightarrow> h' x = h x"
      proof (intro allI impI)
        fix x assume x: "x \<notin> ran N'"
        have "ran N1 \<subseteq> ran N'" using r(3) by (auto simp: ran_def map_le_def dom_def) metis
        then have "x \<notin> ran N1" "x \<noteq> a" using x m(3) by (auto simp: ran_def)
        then show "h' x = h x" using r(5) x m(9) by simp
      qed
      moreover have "None \<notin> set ms \<longrightarrow> length (b # cstr p) < length ms \<longrightarrow> fin" using r(6) m(7,10) by auto
      ultimately show ?thesis unfolding loop_outcome_def b(3) by blast
    next
      assume "N w = None" "trie_make_node ms h (N []) (loc_to N w) = Some (None, ms, h, N [])" "ms = []"
      then show ?thesis using loop_outcome_fails[OF Cons.prems(1), of w ms] by simp
    next
      assume "N w = None" "trie_make_node ms h (N []) (loc_to N w) = Some (None, ms, h, N [])" "None \<in> set ms"
      then show ?thesis using loop_outcome_fails[OF Cons.prems(1), of w ms] by simp
    qed
  qed
qed

section \<open>Rollback\<close>

text \<open>The nodes below \<open>y\<close>, no longer linked to the trie.\<close>

definition detached :: "'v theap \<Rightarrow> (path \<Rightarrow> ptr) \<Rightarrow> (path \<Rightarrow> u32) \<Rightarrow> path \<Rightarrow> bool" where
  "detached h N V y \<longleftrightarrow> (\<forall>x a. N x = Some a \<longrightarrow> prefix y x \<longrightarrow>
     (\<exists>d. h a = Some \<lparr>tn_data = d, tn_use_count = V x, tn_next = (\<lambda>c. N (x @ [c]))\<rparr>))"

definition inj_paths :: "(path \<Rightarrow> ptr) \<Rightarrow> bool" where
  "inj_paths N \<longleftrightarrow> (\<forall>w v a. N w = Some a \<longrightarrow> N v = Some a \<longrightarrow> w = v)"

lemma detached_free:
  assumes "detached h N V y" "inj_paths N" "N y = Some a"
  shows "detached (h(a := None)) N V (y @ [c])"
  unfolding detached_def
proof (intro allI impI)
  fix x b assume x: "N x = Some b" "prefix (y @ [c]) x"
  then have "b \<noteq> a" using assms(2,3) unfolding inj_paths_def by (metis append_prefixD not_Cons_self2 append_self_conv prefix_order.antisym prefixI)
  moreover have "prefix y x" using x(2) append_prefixD by blast
  ultimately show "\<exists>d. (h(a := None)) b = Some \<lparr>tn_data = d, tn_use_count = V x, tn_next = (\<lambda>c. N (x @ [c]))\<rparr>"
    using assms(1) x(1) unfolding detached_def by simp
qed

lemma rollback_detached:
  assumes "detached h N V y" "inj_paths N" "prefix q (cstr p)" "valid (cstr p)" "N (y @ q) = None"
    and "\<forall>r. strict_prefix r q \<longrightarrow> N (y @ r) \<noteq> None \<and> V (y @ r) = 1"
  shows "\<exists>h'. trie_rollback_loop h root_node (N y) None (Some p) = Some (h', root_node) \<and>
           (\<forall>x. (\<forall>r. strict_prefix r q \<longrightarrow> N (y @ r) \<noteq> Some x) \<longrightarrow> h' x = h x) \<and>
           (\<forall>r a. strict_prefix r q \<longrightarrow> N (y @ r) = Some a \<longrightarrow> h' a = None)"
  using assms
proof (induction q arbitrary: h y p)
  case Nil
  then show ?case by (subst trie_rollback_loop.simps) auto
next
  case (Cons c q)
  obtain p' where p: "p = c # p'" "c \<noteq> 0" "prefix q (cstr p')" "c < 128" "valid (cstr p')"
    using Cons.prems(3,4) by (cases p) (auto split: if_splits)
  obtain a where a: "N y = Some a" "V y = 1" using Cons.prems(6)[rule_format, of "[]"] by (auto simp: strict_prefix_Cons)
  obtain d where ha: "h a = Some \<lparr>tn_data = d, tn_use_count = 1, tn_next = (\<lambda>c. N (y @ [c]))\<rparr>"
    using Cons.prems(1) a unfolding detached_def by fastforce
  let ?h = "h(a := None)"
  have sp: "strict_prefix (c # r) (c # q) \<longleftrightarrow> strict_prefix r q" for r by (auto simp: strict_prefix_Cons)
  have n: "N ((y @ [c]) @ q) = None" "\<forall>r. strict_prefix r q \<longrightarrow> N ((y @ [c]) @ r) \<noteq> None \<and> V ((y @ [c]) @ r) = 1"
    using Cons.prems(5) Cons.prems(6)[rule_format, of "c # r" for r] sp by auto
  obtain h' where r: "trie_rollback_loop ?h root_node (N (y @ [c])) None (Some p') = Some (h', root_node)"
      "\<forall>x. (\<forall>r. strict_prefix r q \<longrightarrow> N ((y @ [c]) @ r) \<noteq> Some x) \<longrightarrow> h' x = ?h x"
      "\<forall>r a. strict_prefix r q \<longrightarrow> N ((y @ [c]) @ r) = Some a \<longrightarrow> h' a = None"
    using Cons.IH[OF detached_free[OF Cons.prems(1,2) a(1)] Cons.prems(2) p(3,5) n] by blast
  have "trie_rollback_loop h root_node (N y) None (Some p) = Some (h', root_node)"
    using a ha p(1,2,4) r(1) by (subst trie_rollback_loop.simps) (simp add: Let_def unlink_at_def c_free_def)
  moreover have "h' x = h x" if "\<forall>r. strict_prefix r (c # q) \<longrightarrow> N (y @ r) \<noteq> Some x" for x
    using r(2)[rule_format, of x] that a(1) by (auto simp: strict_prefix_Cons)
  moreover have "h' b = None" if "strict_prefix r (c # q)" "N (y @ r) = Some b" for r b
  proof (cases r)
    case Nil
    then have "b = a" using that(2) a(1) by simp
    moreover have "N ((y @ [c]) @ r') \<noteq> Some a" for r'
      using Cons.prems(2) a(1) unfolding inj_paths_def by (metis append.assoc append_self_conv append_Cons list.distinct(1))
    ultimately show ?thesis using r(2) by simp
  next
    case (Cons c' r')
    then show ?thesis using that r(3) by (auto simp: strict_prefix_Cons)
  qed
  ultimately show ?case by blast
qed

lemma bump_pop:
  "(bump U (\<lambda>x. \<exists>r. strict_prefix r (c # q) \<and> x = w @ r))(w := U w) = bump U (\<lambda>x. \<exists>r. strict_prefix r q \<and> x = (w @ [c]) @ r)"
  by (auto simp: bump_def fun_eq_iff strict_prefix_Cons)

lemma bump_top: "bump U (\<lambda>x. \<exists>r. strict_prefix r (c # q) \<and> x = w @ r) w = U w + 1"
  by (auto simp: bump_def strict_prefix_Cons)

lemma strict_prefixes_Cons: "{w @ r |r. strict_prefix r (c # q)} = insert w {(w @ [c]) @ r |r. strict_prefix r q}"
  by (auto simp: strict_prefix_Cons)

text \<open>The first node that the insertion created is freed, and with it what is below.\<close>

lemma cut_new:
  assumes "shape h0 N D U" "N w = None" "N \<subseteq>\<^sub>m N1" "dom N1 = dom N \<union> {w @ r |r. strict_prefix r q}"
  shows "cut w N1 None = N" "cut w D None = D" "cut w (bump U (\<lambda>x. \<exists>r. strict_prefix r q \<and> x = w @ r)) 0 = U"
proof -
  have below: "N x = None \<and> D x = None \<and> U x = 0" if "prefix w x" for x
    using that shape_closed[OF assms(1,2)] shape_norm[OF assms(1)] by (auto simp: prefix_def)
  have other: "N1 x = N x" if "\<not> prefix w x" for x
  proof (cases "N x")
    case None
    then have "x \<notin> dom N1" using assms(4) that by auto
    then show ?thesis using None by auto
  next
    case (Some a)
    then show ?thesis using assms(3) by (auto simp: map_le_def dom_def)
  qed
  show "cut w N1 None = N" using below other by (auto simp: cut_def fun_eq_iff)
  show "cut w D None = D" using below by (auto simp: cut_def fun_eq_iff)
  show "cut w (bump U (\<lambda>x. \<exists>r. strict_prefix r q \<and> x = w @ r)) 0 = U" using below by (auto simp: cut_def fun_eq_iff bump_def)
qed

lemma shape_detached:
  assumes "shape h N D U" "N w = Some a" "\<And>x. x \<noteq> a \<Longrightarrow> (\<forall>v. N v = Some x \<longrightarrow> prefix w v) \<Longrightarrow> h' x = h x"
  shows "detached h' N U (w @ [c])"
  unfolding detached_def
proof (intro allI impI)
  fix x b assume x: "N x = Some b" "prefix (w @ [c]) x"
  have "b \<noteq> a" using shape_inj[OF assms(1,2), of x] x by (auto simp: prefix_def)
  moreover have "prefix w v" if "N v = Some b" for v using shape_inj[OF assms(1) that x(1)] x(2) append_prefixD by blast
  ultimately have "h' b = h b" using assms(3) by simp
  then show "\<exists>d. h' b = Some \<lparr>tn_data = d, tn_use_count = U x, tn_next = (\<lambda>c. N (x @ [c]))\<rparr>"
    using shape_cell[OF assms(1) x(1)] by simp
qed

lemma shape_inj_paths: "shape h N D U \<Longrightarrow> inj_paths N"
  unfolding inj_paths_def shape_def by blast

definition rolled_back :: "'v theap \<Rightarrow> (path \<Rightarrow> ptr) \<Rightarrow> (path \<Rightarrow> ptr) \<Rightarrow> (path \<Rightarrow> 'v TrieValue option) \<Rightarrow> (path \<Rightarrow> u32) \<Rightarrow> 'v theap \<Rightarrow> bool" where
  "rolled_back h1 N1 N D U h' \<longleftrightarrow> shape h' N D U \<and> (\<forall>x. x \<in> ran N1 \<longrightarrow> x \<notin> ran N \<longrightarrow> h' x = None) \<and>
     (\<forall>x. x \<notin> ran N1 \<longrightarrow> h' x = h1 x)"

lemma rollback_new:
  assumes "shape h0 N D U" "shape h1 N1 D (bump U (\<lambda>x. \<exists>r. strict_prefix r (c # q) \<and> x = w @ r))"
    "N \<subseteq>\<^sub>m N1" "dom N1 = dom N \<union> {w @ r |r. strict_prefix r (c # q)}" "N1 (w @ c # q) = None"
    "N w = None" "prefix q (cstr p)" "valid (cstr p)" "c \<noteq> 0" "c < 128"
  shows "\<exists>h'. trie_rollback_loop h1 (N1 []) (N1 w) (Some (loc_to N1 w)) (Some (c # p)) = Some (h', N []) \<and> rolled_back h1 N1 N D U h'"
proof -
  let ?V = "bump U (\<lambda>x. \<exists>r. strict_prefix r (c # q) \<and> x = w @ r)"
  have in1: "N1 (w @ r) \<noteq> None" if "strict_prefix r (c # q)" for r using that assms(4) by blast
  have V1: "?V (w @ r) = 1" if "strict_prefix r (c # q)" for r
  proof -
    have "U (w @ r) = 0" using shape_norm[OF assms(1) shape_closed[OF assms(1,6)]] by simp
    then show ?thesis using that by (auto simp: bump_def)
  qed
  obtain a where a: "N1 w = Some a" using in1[of "[]"] by auto
  have ha: "h1 a = Some (tcell D ?V N1 w)" by (rule shape_cell[OF assms(2) a])
  have Vw: "?V w = 1" using V1[of "[]"] by simp
  note cn = cut_new[OF assms(1,6,3,4)]
  obtain h2 where h2: "unlink_at (h1(a := None)) (N1 []) (Some (loc_to N1 w)) = Some (h2, N [])" "shape h2 N D U" "h2 a = None"
      "\<And>x. x \<noteq> a \<Longrightarrow> (\<forall>v. N1 v = Some x \<longrightarrow> prefix w v) \<Longrightarrow> h2 x = h1 x"
    using shape_cut[OF assms(2) a] unfolding cn by blast
  have det: "detached h2 N1 ?V (w @ [c])" by (rule shape_detached[OF assms(2) a h2(4)])
  have n: "N1 ((w @ [c]) @ q) = None" "\<forall>r. strict_prefix r q \<longrightarrow> N1 ((w @ [c]) @ r) \<noteq> None \<and> ?V ((w @ [c]) @ r) = 1"
    using assms(5) in1[of "c # r" for r] V1[of "c # r" for r] by (auto simp: strict_prefix_Cons)
  obtain h' where r: "trie_rollback_loop h2 (N []) (N1 (w @ [c])) None (Some p) = Some (h', N [])"
      "\<And>x. \<forall>r. strict_prefix r q \<longrightarrow> N1 ((w @ [c]) @ r) \<noteq> Some x \<Longrightarrow> h' x = h2 x"
      "\<And>r a. strict_prefix r q \<Longrightarrow> N1 ((w @ [c]) @ r) = Some a \<Longrightarrow> h' a = None"
    using rollback_detached[OF det shape_inj_paths[OF assms(2)] assms(7,8) n] by blast
  have l: "trie_rollback_loop h1 (N1 []) (N1 w) (Some (loc_to N1 w)) (Some (c # p)) = Some (h', N [])"
    using a ha Vw assms(9,10) h2(1) r(1) by (subst trie_rollback_loop.simps) (simp add: Let_def c_free_def)
  have old: "N1 ((w @ [c]) @ r) \<noteq> Some x" if "N v = Some x" for v x r
  proof
    assume n1: "N1 ((w @ [c]) @ r) = Some x"
    have "N1 v = Some x" using that assms(3) by (auto simp: map_le_def dom_def)
    then have "v = w @ c # r" using shape_inj[OF assms(2) _ n1] by simp
    then show False using shape_closed[OF assms(1,6), of "c # r"] that by simp
  qed
  have "shape h' N D U" by (rule shape_frame[OF h2(2)]) (use old r(2) in blast)
  moreover have "h' x = None" if x: "x \<in> ran N1" "x \<notin> ran N" for x
  proof -
    obtain v where v: "N1 v = Some x" using x(1) by (auto simp: ran_def)
    then have "N v = None" using x(2) assms(3) by (auto simp: ran_def map_le_def dom_def)
    moreover have "v \<in> dom N \<union> {w @ r |r. strict_prefix r (c # q)}" unfolding assms(4)[symmetric] using v by blast
    ultimately obtain s where s: "v = w @ s" "strict_prefix s (c # q)" by blast
    show ?thesis
    proof (cases s)
      case Nil
      then have "x = a" using v s a by simp
      moreover have "N1 ((w @ [c]) @ r) \<noteq> Some a" for r using shape_inj[OF assms(2) a, of "(w @ [c]) @ r"] by auto
      ultimately show ?thesis using r(2)[of a] h2(3) by simp
    next
      case (Cons c' s')
      then show ?thesis using s r(3)[of s' x] v by (auto simp: strict_prefix_Cons)
    qed
  qed
  moreover have "h' x = h1 x" if x: "x \<notin> ran N1" for x
  proof -
    have "\<And>v. N1 v \<noteq> Some x" using x by (auto simp: ran_def)
    then show ?thesis using r(2)[of x] h2(4)[of x] a by auto
  qed
  ultimately show ?thesis using l unfolding rolled_back_def by blast
qed

lemma rollback_ok:
  assumes "shape h0 N D U" "\<And>x. N x \<noteq> None \<Longrightarrow> U x \<noteq> 0"
    and "shape h1 N1 D (bump U (\<lambda>x. \<exists>r. strict_prefix r q \<and> x = w @ r))" "N \<subseteq>\<^sub>m N1"
    "dom N1 = dom N \<union> {w @ r |r. strict_prefix r q}" "N1 (w @ q) = None" "prefix q (cstr p)" "valid (cstr p)"
  shows "\<exists>h'. trie_rollback_loop h1 (N1 []) (N1 w) (Some (loc_to N1 w)) (Some p) = Some (h', N []) \<and> rolled_back h1 N1 N D U h'"
  using assms(3-)
proof (induction q arbitrary: h1 w p)
  case Nil
  then have "dom N1 = dom N" by simp
  then have "N1 = N" using Nil.prems(2) by (metis map_le_antisym map_le_def)
  moreover have "bump U (\<lambda>x. \<exists>r. strict_prefix r [] \<and> x = w @ r) = U" by (simp add: bump_def fun_eq_iff)
  ultimately show ?case using Nil.prems(1,4) by (subst trie_rollback_loop.simps) (auto simp: rolled_back_def)
next
  case (Cons c q)
  obtain p' where p: "p = c # p'" "c \<noteq> 0" "prefix q (cstr p')" "c < 128" "valid (cstr p')"
    using Cons.prems(5,6) by (cases p) (auto split: if_splits)
  show ?case
  proof (cases "N w")
    case None
    show ?thesis unfolding p(1) by (rule rollback_new[OF assms(1) Cons.prems(1-4) None p(3,5,2,4)])
  next
    case (Some a)
    let ?V = "bump U (\<lambda>x. \<exists>r. strict_prefix r (c # q) \<and> x = w @ r)"
    have a: "N1 w = Some a" using Some Cons.prems(2) by (auto simp: map_le_def dom_def)
    have ha: "h1 a = Some (tcell D ?V N1 w)" by (rule shape_cell[OF Cons.prems(1) a])
    let ?h = "h1(a \<mapsto> \<lparr>tn_data = D w, tn_use_count = U w, tn_next = (\<lambda>c. N1 (w @ [c]))\<rparr>)"
    have s: "shape ?h N1 D (bump U (\<lambda>x. \<exists>r. strict_prefix r q \<and> x = (w @ [c]) @ r))"
      using shape_update[OF Cons.prems(1) a, of "D w" "U w"] unfolding bump_pop by simp
    have d: "dom N1 = dom N \<union> {(w @ [c]) @ r |r. strict_prefix r q}"
      using Cons.prems(3) Some unfolding strict_prefixes_Cons by (auto simp: dom_def)
    have n: "N1 ((w @ [c]) @ q) = None" using Cons.prems(4) by simp
    obtain h' where r: "trie_rollback_loop ?h (N1 []) (N1 (w @ [c])) (Some (loc_to N1 (w @ [c]))) (Some p') = Some (h', N [])"
        "rolled_back ?h N1 N D U h'" using Cons.IH[OF s Cons.prems(2) d n p(3,5)] by blast
    have "trie_rollback_loop h1 (N1 []) (N1 w) (Some (loc_to N1 w)) (Some p) = Some (h', N [])"
      using a ha p(1,2,4) r(1) assms(2)[of w] Some bump_top[of U c q w]
      by (subst trie_rollback_loop.simps) (simp add: Let_def)
    moreover have "rolled_back h1 N1 N D U h'" using r(2) a by (auto simp: rolled_back_def ran_def)
    ultimately show ?thesis by blast
  qed
qed

section \<open>Removal\<close>

lemma remove_loop_end: "c_char p = 0 \<Longrightarrow> h a = Some e \<Longrightarrow> tn_use_count e = 1 \<Longrightarrow> unlink_at (h(a := None)) rt l = Some (h', rt') \<Longrightarrow>
   trie_remove_loop h rt (Some a) l p = Some (h', rt')"
  by (subst trie_remove_loop.simps) (auto simp: Let_def c_free_def split: list.split)

lemma remove_loop_next: "c \<noteq> 0 \<Longrightarrow> c < 128 \<Longrightarrow> h a = Some e \<Longrightarrow> tn_use_count e = 1 \<Longrightarrow> unlink_at (h(a := None)) rt l = Some (h', rt') \<Longrightarrow>
   trie_remove_loop h rt (Some a) l (c # p) = trie_remove_loop h' rt' (tn_next e c) None p"
  by (subst trie_remove_loop.simps) (auto simp: Let_def c_free_def)

lemma unlink_none [simp]: "unlink_at h rt None = Some (h, rt)"
  by (simp add: unlink_at_def)

lemma remove_detached:
  assumes "detached h N V y" "inj_paths N" "valid (cstr p)"
    and "\<forall>r. prefix r (cstr p) \<longrightarrow> N (y @ r) \<noteq> None \<and> V (y @ r) = 1"
  shows "\<exists>h'. trie_remove_loop h rt (N y) None p = Some (h', rt) \<and>
           (\<forall>x. (\<forall>r. prefix r (cstr p) \<longrightarrow> N (y @ r) \<noteq> Some x) \<longrightarrow> h' x = h x) \<and>
           (\<forall>r a. prefix r (cstr p) \<longrightarrow> N (y @ r) = Some a \<longrightarrow> h' a = None)"
  using assms
proof (induction p arbitrary: h y)
  case Nil
  obtain a where a: "N y = Some a" "V y = 1" using Nil.prems(4)[rule_format, of "[]"] by auto
  obtain d where ha: "h a = Some \<lparr>tn_data = d, tn_use_count = 1, tn_next = (\<lambda>c. N (y @ [c]))\<rparr>"
    using Nil.prems(1) a unfolding detached_def by fastforce
  have "trie_remove_loop h rt (N y) None [] = Some (h(a := None), rt)" unfolding a(1) by (rule remove_loop_end[where h = h and a = a, OF _ ha]) auto
  then show ?case using a(1) by auto
next
  case (Cons c p)
  obtain a where a: "N y = Some a" "V y = 1" using Cons.prems(4)[rule_format, of "[]"] by auto
  obtain d where ha: "h a = Some \<lparr>tn_data = d, tn_use_count = 1, tn_next = (\<lambda>c. N (y @ [c]))\<rparr>"
    using Cons.prems(1) a unfolding detached_def by fastforce
  show ?case
  proof (cases "c = 0")
    case True
    have "trie_remove_loop h rt (N y) None (c # p) = Some (h(a := None), rt)"
      unfolding a(1) by (rule remove_loop_end[where h = h and a = a, OF _ ha]) (auto simp: True)
    then show ?thesis using a(1) True by auto
  next
    case False
    let ?h = "h(a := None)"
    have k: "cstr (c # p) = c # cstr p" "c < 128" "valid (cstr p)" using False Cons.prems(3) by auto
    have n: "\<forall>r. prefix r (cstr p) \<longrightarrow> N ((y @ [c]) @ r) \<noteq> None \<and> V ((y @ [c]) @ r) = 1"
      using Cons.prems(4)[rule_format, of "c # r" for r] k(1) by simp
    obtain h' where r: "trie_remove_loop ?h rt (N (y @ [c])) None p = Some (h', rt)"
        "\<And>x. \<forall>r. prefix r (cstr p) \<longrightarrow> N ((y @ [c]) @ r) \<noteq> Some x \<Longrightarrow> h' x = ?h x"
        "\<And>r a. prefix r (cstr p) \<Longrightarrow> N ((y @ [c]) @ r) = Some a \<Longrightarrow> h' a = None"
      using Cons.IH[OF detached_free[OF Cons.prems(1,2) a(1)] Cons.prems(2) k(3) n] by blast
    have "trie_remove_loop h rt (N y) None (c # p) = Some (h', rt)"
      unfolding a(1) using remove_loop_next[where h = h and a = a, OF False k(2) ha _ unlink_none] r(1) by simp
    moreover have "h' x = h x" if "\<forall>r. prefix r (c # cstr p) \<longrightarrow> N (y @ r) \<noteq> Some x" for x
      using r(2)[of x] that a(1) by (auto simp: prefix_Cons)
    moreover have "h' b = None" if "prefix r (c # cstr p)" "N (y @ r) = Some b" for r b
    proof (cases r)
      case Nil
      then have "b = a" using that(2) a(1) by simp
      moreover have "N ((y @ [c]) @ r') \<noteq> Some a" for r'
        using Cons.prems(2) a(1) unfolding inj_paths_def by (metis append.assoc append_self_conv append_Cons list.distinct(1))
      ultimately show ?thesis using r(2) by simp
    next
      case (Cons c' r')
      then show ?thesis using that r(3)[of r' b] by simp
    qed
    ultimately show ?thesis unfolding k(1) by blast
  qed
qed

text \<open>
  The nodes of the key are there and counted, and a node that only the key uses has nothing else
  below it.
\<close>

definition path_ok :: "(path \<Rightarrow> ptr) \<Rightarrow> (path \<Rightarrow> 'v TrieValue option) \<Rightarrow> (path \<Rightarrow> u32) \<Rightarrow> path \<Rightarrow> path \<Rightarrow> bool" where
  "path_ok N D U w k \<longleftrightarrow> (\<forall>r. prefix r k \<longrightarrow> N (w @ r) \<noteq> None \<and> U (w @ r) \<noteq> 0) \<and>
     (\<forall>r x. prefix r k \<longrightarrow> U (w @ r) = 1 \<longrightarrow> prefix (w @ r) x \<longrightarrow> N x \<noteq> None \<longrightarrow>
        (\<exists>r'. x = w @ r' \<and> prefix r' k) \<and> U x = 1 \<and> D x = None)"

definition drop_count :: "(path \<Rightarrow> u32) \<Rightarrow> path \<Rightarrow> path \<Rightarrow> path \<Rightarrow> u32" where
  "drop_count U w k x = (if \<exists>r. prefix r k \<and> x = w @ r then U x - 1 else U x)"

definition drop_nodes :: "(path \<Rightarrow> ptr) \<Rightarrow> (path \<Rightarrow> u32) \<Rightarrow> path \<Rightarrow> path \<Rightarrow> path \<Rightarrow> ptr" where
  "drop_nodes N U w k x = (if \<exists>r. prefix r k \<and> x = w @ r \<and> U x = 1 then None else N x)"

definition removed_from :: "'v theap \<Rightarrow> (path \<Rightarrow> ptr) \<Rightarrow> (path \<Rightarrow> 'v TrieValue option) \<Rightarrow> (path \<Rightarrow> u32) \<Rightarrow> path \<Rightarrow> path \<Rightarrow> 'v theap \<Rightarrow> bool" where
  "removed_from h N D U w k h' \<longleftrightarrow> shape h' (drop_nodes N U w k) D (drop_count U w k) \<and>
     (\<forall>x. x \<in> ran N \<longrightarrow> x \<notin> ran (drop_nodes N U w k) \<longrightarrow> h' x = None) \<and> (\<forall>x. x \<notin> ran N \<longrightarrow> h' x = h x)"

lemma cut_path:
  assumes "shape h N D U" "path_ok N D U w k" "U w = 1"
  shows "cut w N None = drop_nodes N U w k" "cut w D None = D" "cut w U 0 = drop_count U w k"
proof -
  have one: "(\<exists>r'. x = w @ r' \<and> prefix r' k) \<and> U x = 1 \<and> D x = None" if "prefix w x" "N x \<noteq> None" for x
    using assms(2,3) that unfolding path_ok_def by (metis Nil_prefix append_Nil2)
  have on: "N (w @ r) \<noteq> None" if "prefix r k" for r using assms(2) that unfolding path_ok_def by blast
  show "cut w N None = drop_nodes N U w k" using one by (fastforce simp: cut_def drop_nodes_def fun_eq_iff)
  show "cut w D None = D" using one shape_norm[OF assms(1)] by (fastforce simp: cut_def fun_eq_iff)
  have "cut w U 0 x = drop_count U w k x" for x
  proof (cases "prefix w x")
    case True
    show ?thesis
    proof (cases "N x")
      case None
      then have "\<not> (\<exists>r. prefix r k \<and> x = w @ r)" using on by blast
      then show ?thesis using None shape_norm[OF assms(1) None] True by (simp add: cut_def drop_count_def)
    next
      case (Some b)
      then show ?thesis using one[OF True] True by (auto simp: cut_def drop_count_def)
    qed
  qed (auto simp: cut_def drop_count_def)
  then show "cut w U 0 = drop_count U w k" by blast
qed

lemma remove_single:
  assumes "shape h N D U" "path_ok N D U w (cstr p)" "valid (cstr p)" "U w = 1"
  shows "\<exists>h'. trie_remove_loop h (N []) (N w) (Some (loc_to N w)) p = Some (h', drop_nodes N U w (cstr p) []) \<and>
           removed_from h N D U w (cstr p) h'"
proof -
  note cp = cut_path[OF assms(1,2,4)]
  have on: "N (w @ r) \<noteq> None" "U (w @ r) = 1" if "prefix r (cstr p)" for r
  proof -
    show n: "N (w @ r) \<noteq> None" using assms(2) that unfolding path_ok_def by blast
    show "U (w @ r) = 1" using assms(2,4) n unfolding path_ok_def by (metis Nil_prefix append_Nil2 prefixI)
  qed
  obtain a where a: "N w = Some a" using on(1)[of "[]"] by auto
  have ha: "h a = Some (tcell D U N w)" by (rule shape_cell[OF assms(1) a])
  obtain h2 where h2: "unlink_at (h(a := None)) (N []) (Some (loc_to N w)) = Some (h2, drop_nodes N U w (cstr p) [])"
      "shape h2 (drop_nodes N U w (cstr p)) D (drop_count U w (cstr p))" "h2 a = None"
      "\<And>x. x \<noteq> a \<Longrightarrow> (\<forall>v. N v = Some x \<longrightarrow> prefix w v) \<Longrightarrow> h2 x = h x"
    using shape_cut[OF assms(1) a] unfolding cp by blast
  have gone: "drop_nodes N U w (cstr p) v = Some x \<Longrightarrow> N v = Some x \<and> \<not> prefix w v" for v x
    unfolding cp(1)[symmetric] by (auto simp: cut_def split: if_splits)
  have dead: "\<exists>r. prefix r (cstr p) \<and> N (w @ r) = Some x" if x: "x \<in> ran N" "x \<notin> ran (drop_nodes N U w (cstr p))" for x
  proof -
    obtain v where v: "N v = Some x" using x(1) by (auto simp: ran_def)
    then have "drop_nodes N U w (cstr p) v \<noteq> N v" using x(2) by (metis ranI)
    then show ?thesis using v by (auto simp: drop_nodes_def split: if_splits)
  qed
  show ?thesis
  proof (cases "c_char p = 0")
    case True
    then have k: "cstr p = []" by (cases p) auto
    have "trie_remove_loop h (N []) (N w) (Some (loc_to N w)) p = Some (h2, drop_nodes N U w (cstr p) [])"
      unfolding a by (rule remove_loop_end[where h = h and a = a, OF True ha _ h2(1)]) (use assms(4) in simp)
    moreover have "h2 x = h x" if "x \<notin> ran N" for x using h2(4)[of x] that a by (auto simp: ran_def)
    moreover have "h2 x = None" if "x \<in> ran N" "x \<notin> ran (drop_nodes N U w (cstr p))" for x
      using dead[OF that] k a h2(3) by simp
    ultimately show ?thesis using h2(2) unfolding removed_from_def by blast
  next
    case False
    then obtain c p' where p: "p = c # p'" "c \<noteq> 0" by (cases p) auto
    have k: "cstr p = c # cstr p'" "c < 128" "valid (cstr p')" using p assms(3) by auto
    have det: "detached h2 N U (w @ [c])" by (rule shape_detached[OF assms(1) a h2(4)])
    have n: "\<forall>r. prefix r (cstr p') \<longrightarrow> N ((w @ [c]) @ r) \<noteq> None \<and> U ((w @ [c]) @ r) = 1" using on[of "c # r" for r] k(1) by simp
    obtain h' where r: "trie_remove_loop h2 (drop_nodes N U w (cstr p) []) (N (w @ [c])) None p' = Some (h', drop_nodes N U w (cstr p) [])"
        "\<And>x. \<forall>r. prefix r (cstr p') \<longrightarrow> N ((w @ [c]) @ r) \<noteq> Some x \<Longrightarrow> h' x = h2 x"
        "\<And>r a. prefix r (cstr p') \<Longrightarrow> N ((w @ [c]) @ r) = Some a \<Longrightarrow> h' a = None"
      using remove_detached[OF det shape_inj_paths[OF assms(1)] k(3) n] by blast
    have "trie_remove_loop h (N []) (N w) (Some (loc_to N w)) p = Some (h', drop_nodes N U w (cstr p) [])"
      unfolding a p(1) using remove_loop_next[where h = h and a = a, OF p(2) k(2) ha _ h2(1)] r(1) assms(4) p(1) by simp
    moreover have "shape h' (drop_nodes N U w (cstr p)) D (drop_count U w (cstr p))"
    proof (rule shape_frame[OF h2(2)])
      fix v x assume "drop_nodes N U w (cstr p) v = Some x"
      then have v: "N v = Some x" "\<not> prefix w v" using gone by auto
      have "N ((w @ [c]) @ r) \<noteq> Some x" for r using shape_inj[OF assms(1) v(1), of "(w @ [c]) @ r"] v(2) by auto
      then show "h' x = h2 x" using r(2) by simp
    qed
    moreover have "h' x = h x" if "x \<notin> ran N" for x
    proof -
      have "\<And>v. N v \<noteq> Some x" using that by (auto simp: ran_def)
      then show ?thesis using r(2)[of x] h2(4)[of x] a by auto
    qed
    moreover have "h' x = None" if x: "x \<in> ran N" "x \<notin> ran (drop_nodes N U w (cstr p))" for x
    proof -
      obtain s where s: "prefix s (c # cstr p')" "N (w @ s) = Some x" using dead[OF x] k(1) by auto
      show ?thesis
      proof (cases s)
        case Nil
        then have "x = a" using s a by simp
        moreover have "N ((w @ [c]) @ r) \<noteq> Some a" for r using shape_inj[OF assms(1) a, of "(w @ [c]) @ r"] by auto
        ultimately show ?thesis using r(2)[of a] h2(3) by simp
      next
        case (Cons c' s')
        then show ?thesis using s r(3)[of s' x] by simp
      qed
    qed
    ultimately show ?thesis unfolding removed_from_def by blast
  qed
qed

lemma path_ok_step:
  assumes "path_ok N D U w (c # k)"
  shows "path_ok N D (U(w := u)) (w @ [c]) k"
proof -
  have "N ((w @ [c]) @ r) \<noteq> None \<and> (U(w := u)) ((w @ [c]) @ r) \<noteq> 0" if "prefix r k" for r
    using assms that unfolding path_ok_def by (auto dest: spec[of _ "c # r"])
  moreover have "(\<exists>r'. x = (w @ [c]) @ r' \<and> prefix r' k) \<and> (U(w := u)) x = 1 \<and> D x = None"
    if r: "prefix r k" "(U(w := u)) ((w @ [c]) @ r) = 1" "prefix ((w @ [c]) @ r) x" "N x \<noteq> None" for r x
  proof -
    have p: "prefix (c # r) (c # k)" "U (w @ c # r) = 1" "prefix (w @ c # r) x" using r by auto
    then obtain r' where x: "x = w @ r'" "prefix r' (c # k)" "U x = 1" "D x = None"
      using assms r(4) unfolding path_ok_def by blast
    moreover obtain s where "r' = c # s" using x(1) p(3) by (auto simp: prefix_def)
    ultimately show ?thesis by auto
  qed
  ultimately show ?thesis unfolding path_ok_def by blast
qed

lemma drop_step:
  assumes "U w \<noteq> 1"
  shows "drop_nodes N (U(w := u)) (w @ [c]) k = drop_nodes N U w (c # k)"
    "drop_count (U(w := U w - 1)) (w @ [c]) k = drop_count U w (c # k)"
  using assms by (auto simp: drop_nodes_def drop_count_def fun_eq_iff prefix_Cons)

lemma remove_shared:
  assumes "shape h N D U" "N w = Some a" "U w \<noteq> 1" "removed_from (h(a \<mapsto> e)) N D (U(w := U w - 1)) (w @ [c]) k h'"
  shows "removed_from h N D U w (c # k) h'"
  using assms(2,4) drop_step[where U = U and w = w, OF assms(3)] unfolding removed_from_def by (auto simp: ran_def)

lemma remove_shared_end:
  assumes "shape h N D U" "N w = Some a" "U w \<noteq> 1" "c_char p = 0"
  shows "\<exists>h'. trie_remove_loop h (N []) (N w) (Some (loc_to N w)) p = Some (h', drop_nodes N U w [] []) \<and> removed_from h N D U w [] h'"
proof -
  let ?h = "h(a \<mapsto> \<lparr>tn_data = D w, tn_use_count = U w - 1, tn_next = (\<lambda>c. N (w @ [c]))\<rparr>)"
  have d: "drop_nodes N U w [] = N" "drop_count U w [] = U(w := U w - 1)"
    using assms(3) by (auto simp: drop_nodes_def drop_count_def fun_eq_iff)
  have "trie_remove_loop h (N []) (N w) (Some (loc_to N w)) p = Some (?h, N [])"
    using shape_cell[OF assms(1,2)] assms(2-4) by (subst trie_remove_loop.simps) (auto simp: Let_def split: list.split)
  moreover have "removed_from h N D U w [] ?h"
    using shape_update[OF assms(1,2), of "D w" "U w - 1"] assms(2) unfolding removed_from_def d by (auto simp: ran_def)
  ultimately show ?thesis unfolding d by blast
qed

lemma remove_loop_ok:
  assumes "shape h N D U" "path_ok N D U w (cstr p)" "valid (cstr p)"
  shows "\<exists>h'. trie_remove_loop h (N []) (N w) (Some (loc_to N w)) p = Some (h', drop_nodes N U w (cstr p) []) \<and>
           removed_from h N D U w (cstr p) h'"
  using assms
proof (induction p arbitrary: h w U)
  case Nil
  obtain a where a: "N w = Some a" using Nil.prems(2) unfolding path_ok_def by (auto dest: spec[of _ "[]"])
  show ?case
    using remove_single[OF Nil.prems] remove_shared_end[OF Nil.prems(1) a, of "[]"] by (cases "U w = 1") auto
next
  case (Cons c p)
  obtain a where a: "N w = Some a" using Cons.prems(2) unfolding path_ok_def by (auto dest: spec[of _ "[]"])
  show ?case
  proof (cases "U w = 1 \<or> c = 0")
    case True
    then show ?thesis
      using remove_single[OF Cons.prems] remove_shared_end[OF Cons.prems(1) a, of "c # p"] by (cases "U w = 1") auto
  next
    case False
    let ?h = "h(a \<mapsto> \<lparr>tn_data = D w, tn_use_count = U w - 1, tn_next = (\<lambda>c. N (w @ [c]))\<rparr>)"
    have k: "cstr (c # p) = c # cstr p" "c < 128" "valid (cstr p)" "c \<noteq> 0" "U w \<noteq> 1" using False Cons.prems(3) by auto
    have s: "shape ?h N D (U(w := U w - 1))" using shape_update[OF Cons.prems(1) a, of "D w" "U w - 1"] by simp
    have ok: "path_ok N D (U(w := U w - 1)) (w @ [c]) (cstr p)" using path_ok_step Cons.prems(2) unfolding k(1) by blast
    obtain h' where r: "trie_remove_loop ?h (N []) (N (w @ [c])) (Some (loc_to N (w @ [c]))) p =
          Some (h', drop_nodes N (U(w := U w - 1)) (w @ [c]) (cstr p) [])"
        "removed_from ?h N D (U(w := U w - 1)) (w @ [c]) (cstr p) h'" using Cons.IH[OF s ok k(3)] by blast
    have "trie_remove_loop h (N []) (N w) (Some (loc_to N w)) (c # p) = Some (h', drop_nodes N U w (c # cstr p) [])"
      using shape_cell[OF Cons.prems(1) a] a k r(1) drop_step(1)[where U = U and w = w, OF k(5)]
      by (subst trie_remove_loop.simps) (simp add: Let_def)
    then show ?thesis using remove_shared[OF Cons.prems(1) a k(5) r(2)] unfolding k(1) by blast
  qed
qed

end
