(* ===== verification/Trie_Correct.thy ===== *)
theory Trie_Correct
  imports Trie_Loops Interfaces
begin

text \<open>
  \<open>trie.c\<close> implements a finite map from strings to values. The use count of a node is the number of
  keys that begin with its string, and only the prefixes of keys have nodes. An insertion that runs
  out of memory leaves the heap as it was; a removal frees exactly the nodes that no key needs.
\<close>

section \<open>The trie of a map\<close>

definition keys_below :: "(path \<rightharpoonup> 'v) \<Rightarrow> path \<Rightarrow> path set" where
  "keys_below m w = {k \<in> dom m. prefix w k}"

definition count_below :: "(path \<rightharpoonup> 'v) \<Rightarrow> path \<Rightarrow> u32" where
  "count_below m w = of_nat (card (keys_below m w))"

definition is_trie :: "'v theap \<Rightarrow> (path \<Rightarrow> ptr) \<Rightarrow> (path \<rightharpoonup> 'v) \<Rightarrow> bool" where
  "is_trie h N m \<longleftrightarrow> shape h N (\<lambda>w. map_option Data (m w)) (count_below m) \<and> dom N = {w. keys_below m w \<noteq> {}} \<and>
     finite (dom m) \<and> card (dom m) < 2 ^ 32"

lemma keys_below_Nil [simp]: "keys_below m [] = dom m"
  by (simp add: keys_below_def)

lemma finite_keys_below [simp]: "finite (dom m) \<Longrightarrow> finite (keys_below m w)"
  by (simp add: keys_below_def)

lemma keys_below_bound: "finite (dom m) \<Longrightarrow> card (keys_below m w) \<le> card (dom m)"
  by (intro card_mono) (auto simp: keys_below_def)

lemma count_below_nat: "finite (dom m) \<Longrightarrow> card (dom m) < 2 ^ 32 \<Longrightarrow> unat (count_below m w) = card (keys_below m w)"
  using keys_below_bound[of m w] by (simp add: count_below_def unsigned_of_nat take_bit_nat_eq_self)

lemma count_below_0: "finite (dom m) \<Longrightarrow> card (dom m) < 2 ^ 32 \<Longrightarrow> count_below m w = 0 \<longleftrightarrow> keys_below m w = {}"
  using count_below_nat[of m w] by (simp add: unat_eq_0 [symmetric])

lemma count_below_1:
  assumes "finite (dom m)" "card (dom m) < 2 ^ 32" "k \<in> dom m" "prefix w k" "count_below m w = 1"
  shows "keys_below m w = {k}"
proof -
  have "card (keys_below m w) = 1" using count_below_nat[OF assms(1,2), of w] assms(5) by simp
  moreover have "k \<in> keys_below m w" using assms(3,4) by (simp add: keys_below_def)
  ultimately show ?thesis by (metis card_1_singletonE singletonD)
qed

lemma keys_below_put: "keys_below (m(k \<mapsto> v)) w = (if prefix w k then insert k (keys_below m w) else keys_below m w)"
  by (auto simp: keys_below_def)

lemma keys_below_del: "keys_below (m(k := None)) w = keys_below m w - {k}"
  by (auto simp: keys_below_def)

lemma count_below_put_new:
  assumes "m k = None" "finite (dom m)"
  shows "count_below (m(k \<mapsto> v)) = bump (count_below m) (\<lambda>x. \<exists>r. prefix r k \<and> x = [] @ r)"
proof
  fix x
  have "k \<notin> keys_below m x" using assms(1) by (auto simp: keys_below_def)
  then show "count_below (m(k \<mapsto> v)) x = bump (count_below m) (\<lambda>x. \<exists>r. prefix r k \<and> x = [] @ r) x"
    using assms(2) by (simp add: count_below_def bump_def keys_below_put add.commute)
qed

lemma count_below_put_old: "m k \<noteq> None \<Longrightarrow> count_below (m(k \<mapsto> v)) = count_below m"
proof
  fix x assume "m k \<noteq> None"
  then have "prefix x k \<Longrightarrow> k \<in> keys_below m x" by (auto simp: keys_below_def)
  then show "count_below (m(k \<mapsto> v)) x = count_below m x" by (simp add: count_below_def keys_below_put insert_absorb)
qed

lemma count_below_del:
  assumes "m k \<noteq> None" "finite (dom m)"
  shows "count_below (m(k := None)) = drop_count (count_below m) [] k"
proof
  fix x
  show "count_below (m(k := None)) x = drop_count (count_below m) [] k x"
  proof (cases "prefix x k")
    case True
    then have k: "k \<in> keys_below m x" using assms(1) by (auto simp: keys_below_def)
    then have "card (keys_below m x) = Suc (card (keys_below m x - {k}))" using card_Suc_Diff1[OF finite_keys_below[OF assms(2)] k] by simp
    then show ?thesis using True by (simp add: count_below_def drop_count_def keys_below_del)
  next
    case False
    then have "keys_below m x - {k} = keys_below m x" by (auto simp: keys_below_def)
    then show ?thesis using False by (simp add: count_below_def drop_count_def keys_below_del)
  qed
qed

lemma value_put: "(\<lambda>w. map_option Data ((m(k \<mapsto> v)) w)) = (\<lambda>w. map_option Data (m w))(k := Some (Data v))"
  by (simp add: fun_eq_iff)

lemma trie_node: "is_trie h N m \<Longrightarrow> N w \<noteq> NULL \<longleftrightarrow> keys_below m w \<noteq> {}"
  unfolding is_trie_def by (metis (mono_tags, lifting) domIff mem_Collect_eq)

lemma trie_end_ok:
  assumes "is_trie h N m" "valid (cstr key)"
  shows "trie_find_end h (N []) key = Some (N (cstr key))"
  using trie_walk_ok[of h N _ _ key "[]"] assms by (auto simp: is_trie_def trie_find_end_def)

lemma present_ok:
  assumes "is_trie h N m"
  shows "(if N k = NULL then Some False else do { e \<leftarrow> deref h (N k); Some (tn_data e \<noteq> None) }) = Some (m k \<noteq> None)"
proof (cases "N k")
  case None
  then have "m k = None" using trie_node[OF assms, of k] by (auto simp: keys_below_def)
  then show ?thesis using None by simp
next
  case (Some a)
  then show ?thesis using shape_cell[of h N _ _ k a] assms by (auto simp: is_trie_def)
qed

lemma is_trie_shape: "is_trie h N m \<Longrightarrow> shape h N (\<lambda>w. map_option Data (m w)) (count_below m)"
  by (simp add: is_trie_def)

section \<open>Insertion\<close>

lemma insert_old_ok:
  assumes "is_trie h N m" "m k = Some u" "N k = Some a"
  shows "is_trie (h(a \<mapsto> \<lparr>tn_data = Some (Data v), tn_use_count = count_below m k, tn_next = (\<lambda>c. N (k @ [c]))\<rparr>)) N (m(k \<mapsto> v))"
proof -
  have "keys_below (m(k \<mapsto> v)) w = keys_below m w" for w
    using assms(2) by (auto simp: keys_below_put keys_below_def)
  moreover have "dom (m(k \<mapsto> v)) = dom m" using assms(2) by auto
  ultimately show ?thesis
    using shape_update[OF is_trie_shape[OF assms(1)] assms(3), of "Some (Data v)" "count_below m k"] assms(1,2)
    unfolding is_trie_def value_put by (simp add: count_below_put_old)
qed

lemma insert_new_ok:
  assumes "is_trie h N m" "m k = None" "Suc (card (dom m)) < 2 ^ 32" "inserted h N (\<lambda>w. map_option Data (m w)) (count_below m) [] k v h' N'"
  shows "is_trie h' N' (m(k \<mapsto> v))"
proof -
  have fin: "finite (dom m)" and dom: "dom N = {w. keys_below m w \<noteq> {}}" using assms(1) by (simp_all add: is_trie_def)
  have "dom N' = {w. keys_below (m(k \<mapsto> v)) w \<noteq> {}}"
    using assms(4) dom unfolding inserted_def by (auto simp: keys_below_put)
  moreover have "card (dom (m(k \<mapsto> v))) < 2 ^ 32" using assms(2,3) fin by (simp add: card_insert_disjoint domIff)
  ultimately show ?thesis using assms(4) fin
    unfolding is_trie_def value_put count_below_put_new[OF assms(2) fin] inserted_def by simp
qed

lemma insert_aborted_ok:
  assumes "is_trie h N m" "avail ms h" "valid (cstr key)" "aborted h N (\<lambda>w. map_option Data (m w)) (count_below m) [] (cstr key) h1 N1"
    "N \<subseteq>\<^sub>m N1" "ran N1 \<subseteq> ran N \<union> {a. Some a \<in> set ms}"
    "\<And>x. x \<notin> ran N1 \<Longrightarrow> h1 x = h x"
  shows "trie_insert_rollback h1 (N1 []) key = Some (h, N [])"
proof -
  let ?D = "\<lambda>w. map_option Data (m w)"
  note sh = is_trie_shape[OF assms(1)]
  obtain q where q: "prefix q (cstr key)" "N1 ([] @ q) = None" "shape h1 N1 ?D (bump (count_below m) (\<lambda>x. \<exists>r. strict_prefix r q \<and> x = [] @ r))"
      "dom N1 = dom N \<union> {[] @ r |r. strict_prefix r q}" using assms(4) unfolding aborted_def by blast
  have nz: "count_below m x \<noteq> 0" if "N x \<noteq> None" for x
    using that trie_node[OF assms(1), of x] count_below_0[of m x] assms(1) by (simp add: is_trie_def)
  obtain h' where h': "trie_rollback_loop h1 (N1 []) (N1 []) (Some (loc_to N1 [])) (Some key) = Some (h', N [])"
      "rolled_back h1 N1 N ?D (count_below m) h'"
    using rollback_ok[OF sh nz q(3) assms(5) q(4,2,1) assms(3)] by blast
  have "h' x = h x" for x
  proof -
    consider v where "N v = Some x" | "x \<in> ran N1" "x \<notin> ran N" | "x \<notin> ran N1" "x \<notin> ran N" by (auto simp: ran_def)
    then show ?thesis
    proof cases
      case 1
      then show ?thesis using shape_cell[OF sh 1] shape_cell[OF conjunct1[OF h'(2)[unfolded rolled_back_def]] 1] by simp
    next
      case 2
      then have "Some x \<in> set ms" using assms(6) by blast
      then show ?thesis using 2 h'(2) assms(2) by (simp add: rolled_back_def avail_def)
    next
      case 3
      then show ?thesis using h'(2) assms(7) by (simp add: rolled_back_def)
    qed
  qed
  then have "h' = h" by blast
  then show ?thesis using h'(1) by (simp add: trie_insert_rollback_def)
qed

text \<open>
  What an insertion returns and does: the new trie, or the unchanged heap. The second case only
  occurs when an allocation fails.
\<close>

lemma insert_absent_ok:
  assumes "is_trie h N m" "avail ms h" "valid (cstr key)" "m (cstr key) = None" "Suc (card (dom m)) < 2 ^ 32"
  shows "(\<exists>h' N'. trie_insert ms h (N []) key (Some v) = Some (1, h', N' []) \<and> is_trie h' N' (m(cstr key \<mapsto> v)) \<and> N \<subseteq>\<^sub>m N' \<and>
            ran N' \<subseteq> ran N \<union> {a. Some a \<in> set ms} \<and> (\<forall>x. x \<notin> ran N' \<longrightarrow> h' x = h x)) \<or>
         (None \<in> set ms \<or> length ms \<le> length (cstr key)) \<and> trie_insert ms h (N []) key (Some v) = Some (0, h, N [])"
proof -
  let ?D = "\<lambda>w. map_option Data (m w)"
  note sh = is_trie_shape[OF assms(1)]
  obtain fin h' N' where l: "trie_insert_loop v ms h (N []) TrieRoot key = Some (fin, h', N' [])"
      "if fin then inserted h N ?D (count_below m) [] (cstr key) v h' N' else aborted h N ?D (count_below m) [] (cstr key) h' N'"
      "N \<subseteq>\<^sub>m N'" "ran N' \<subseteq> ran N \<union> {a. Some a \<in> set ms}" "\<And>x. x \<notin> ran N' \<Longrightarrow> h' x = h x"
      "None \<notin> set ms \<longrightarrow> length (cstr key) < length ms \<longrightarrow> fin"
    using insert_loop_ok[OF sh _ assms(3,2), of "[]" v] unfolding loop_outcome_def by auto
  have step: "trie_insert ms h (N []) key (Some v) =
      (if fin then Some (1, h', N' []) else do { (h, rt) \<leftarrow> trie_insert_rollback h' (N' []) key; Some (0, h, rt) })"
    using trie_end_ok[OF assms(1,3)] present_ok[OF assms(1), of "cstr key"] l(1) assms(4) by (simp add: trie_insert_def)
  show ?thesis
  proof (cases fin)
    case True
    then have "is_trie h' N' (m(cstr key \<mapsto> v))" using insert_new_ok[OF assms(1,4,5)] l(2) by simp
    then show ?thesis using True step l(3,4,5) by auto
  next
    case False
    then have "trie_insert_rollback h' (N' []) key = Some (h, N [])"
      using insert_aborted_ok[OF assms(1-3) _ l(3,4,5)] l(2) by simp
    then show ?thesis using False step l(6) by auto
  qed
qed

lemma insert_present_ok:
  assumes "is_trie h N m" "valid (cstr key)" "m (cstr key) = Some u"
  shows "\<exists>h'. trie_insert ms h (N []) key (Some v) = Some (1, h', N []) \<and> is_trie h' N (m(cstr key \<mapsto> v)) \<and> (\<forall>x. x \<notin> ran N \<longrightarrow> h' x = h x)"
proof -
  have "cstr key \<in> keys_below m (cstr key)" using assms(3) by (auto simp: keys_below_def)
  then obtain a where a: "N (cstr key) = Some a" using trie_node[OF assms(1), of "cstr key"] by auto
  let ?k = "cstr key"
  let ?h = "h(a \<mapsto> \<lparr>tn_data = Some (Data v), tn_use_count = count_below m ?k, tn_next = (\<lambda>c. N (?k @ [c]))\<rparr>)"
  have "trie_insert ms h (N []) key (Some v) = Some (1, ?h, N [])"
    using trie_end_ok[OF assms(1,2)] present_ok[OF assms(1), of ?k] shape_cell[OF is_trie_shape[OF assms(1)] a] a assms(3)
    by (simp add: trie_insert_def)
  moreover have "x \<noteq> a" if "x \<notin> ran N" for x using that a by (auto simp: ran_def)
  ultimately show ?thesis using insert_old_ok[OF assms(1,3) a, of v] by auto
qed

section \<open>Removal\<close>

lemma remove_path_ok:
  assumes "is_trie h N m" "m k \<noteq> None"
  shows "path_ok N (\<lambda>w. map_option Data ((m(k := None)) w)) (count_below m) [] k"
proof -
  have m: "finite (dom m)" "card (dom m) < 2 ^ 32" using assms(1) by (simp_all add: is_trie_def)
  have k: "k \<in> dom m" using assms(2) by auto
  have on: "N r \<noteq> None \<and> count_below m r \<noteq> 0" if "prefix r k" for r
    using that k trie_node[OF assms(1), of r] count_below_0[OF m, of r] by (auto simp: keys_below_def)
  have single: "prefix x k \<and> count_below m x = 1 \<and> (m(k := None)) x = None"
    if r: "prefix r k" "count_below m r = 1" "prefix r x" "N x \<noteq> None" for r x
  proof -
    have one: "keys_below m r = {k}" by (rule count_below_1[OF m k r(1,2)])
    have "keys_below m x \<subseteq> keys_below m r" using r(3) prefix_order.order_trans by (auto simp: keys_below_def)
    then have "keys_below m x = {k}" using one trie_node[OF assms(1), of x] r(4) by auto
    moreover from this have "k \<in> keys_below m x" "x \<noteq> k \<Longrightarrow> x \<notin> keys_below m x" by auto
    ultimately show ?thesis by (auto simp: count_below_def keys_below_def)
  qed
  have "(\<exists>r'. x = [] @ r' \<and> prefix r' k) \<and> count_below m x = 1 \<and> map_option Data ((m(k := None)) x) = None"
    if "prefix r k" "count_below m ([] @ r) = 1" "prefix ([] @ r) x" "N x \<noteq> None" for r x
    using single[of r x] that by simp
  moreover have "N ([] @ r) \<noteq> None \<and> count_below m ([] @ r) \<noteq> 0" if "prefix r k" for r using on[OF that] by simp
  ultimately show ?thesis unfolding path_ok_def by blast
qed

lemma remove_present_ok:
  assumes "is_trie h N m" "valid (cstr key)" "m (cstr key) = Some u"
  shows "\<exists>h' N'. trie_remove h (N []) key = Some (1, h', N' []) \<and> is_trie h' N' (m(cstr key := None)) \<and> N' \<subseteq>\<^sub>m N \<and>
           (\<forall>x. x \<in> ran N \<longrightarrow> x \<notin> ran N' \<longrightarrow> h' x = None) \<and> (\<forall>x. x \<notin> ran N \<longrightarrow> h' x = h x)"
proof -
  let ?k = "cstr key" let ?m = "m(?k := None)" let ?N = "drop_nodes N (count_below m) [] ?k"
  have m: "finite (dom m)" "card (dom m) < 2 ^ 32" using assms(1) by (simp_all add: is_trie_def)
  have "?k \<in> keys_below m ?k" using assms(3) by (auto simp: keys_below_def)
  then obtain a where a: "N ?k = Some a" using trie_node[OF assms(1), of ?k] by auto
  let ?h = "h(a \<mapsto> \<lparr>tn_data = None, tn_use_count = count_below m ?k, tn_next = (\<lambda>c. N (?k @ [c]))\<rparr>)"
  have D: "(\<lambda>w. map_option Data (m w))(?k := None) = (\<lambda>w. map_option Data (?m w))" by (simp add: fun_eq_iff)
  have sh: "shape ?h N (\<lambda>w. map_option Data (?m w)) (count_below m)"
    using shape_update[OF is_trie_shape[OF assms(1)] a, of None "count_below m ?k"] unfolding D by simp
  obtain h' where r: "trie_remove_loop ?h (N []) (N []) (Some (loc_to N [])) key = Some (h', ?N [])"
      "removed_from ?h N (\<lambda>w. map_option Data (?m w)) (count_below m) [] ?k h'"
    using remove_loop_ok[OF sh remove_path_ok[OF assms(1)] assms(2)] assms(3) by auto
  have "trie_remove h (N []) key = Some (1, h', ?N [])"
    using trie_end_ok[OF assms(1,2)] present_ok[OF assms(1), of ?k] shape_cell[OF is_trie_shape[OF assms(1)] a] a assms(3) r(1)
    by (simp add: trie_remove_def)
  moreover have "is_trie h' ?N ?m"
  proof -
    have "?N w \<noteq> None \<longleftrightarrow> keys_below ?m w \<noteq> {}" for w
    proof (cases "prefix w ?k")
      case True
      then have k: "?k \<in> keys_below m w" using assms(3) by (auto simp: keys_below_def)
      have "?k \<in> dom m" using assms(3) by blast
      then have "count_below m w = 1 \<longleftrightarrow> keys_below m w = {?k}"
        using count_below_1[OF m _ True] by (metis card_1_singleton_iff count_below_def of_nat_1 One_nat_def)
      moreover have "N w \<noteq> None" using k trie_node[OF assms(1), of w] by blast
      ultimately have "?N w \<noteq> None \<longleftrightarrow> keys_below m w \<noteq> {?k}" using True by (simp add: drop_nodes_def)
      then show ?thesis using k unfolding keys_below_del by blast
    next
      case False
      then have "keys_below m w - {?k} = keys_below m w" by (auto simp: keys_below_def)
      then show ?thesis using False trie_node[OF assms(1), of w] by (simp add: drop_nodes_def keys_below_del)
    qed
    then have "dom ?N = {w. keys_below ?m w \<noteq> {}}" by (auto simp: domIff)
    moreover have "card (dom ?m) < 2 ^ 32" using m card_Diff1_le[of "dom m" ?k] by (simp add: order.strict_trans1)
    ultimately show ?thesis using r(2) m(1) assms(3) count_below_del[of m ?k]
      unfolding is_trie_def removed_from_def by simp
  qed
  moreover have "?N \<subseteq>\<^sub>m N" by (auto simp: map_le_def drop_nodes_def)
  moreover have "h' x = h x" if "x \<notin> ran N" for x using that r(2) a by (auto simp: removed_from_def ran_def)
  ultimately show ?thesis using r(2) unfolding removed_from_def by blast
qed

section \<open>The trie as a map machine\<close>

type_synonym 'v trie_state = "'v theap \<times> ptr"

definition trie_map :: "'v trie_state \<Rightarrow> (path \<rightharpoonup> 'v) \<Rightarrow> bool" where
  "trie_map s m \<longleftrightarrow> (\<exists>N. is_trie (fst s) N m \<and> snd s = N [])"

fun trie_step :: "ptr list \<Rightarrow> 'v trie_state \<Rightarrow> (u8 list, 'v) map_op \<Rightarrow> ('v map_out \<times> 'v trie_state) option" where
  "trie_step ms (h, rt) (Put key v) = map_option (\<lambda>(r, s). (Done (r \<noteq> 0), s)) (trie_insert ms h rt key v)"
| "trie_step ms (h, rt) (Delete key) = map_option (\<lambda>(r, s). (Done (r \<noteq> 0), s)) (trie_remove h rt key)"
| "trie_step ms (h, rt) (Get key) = map_option (\<lambda>d. (Found (case d of Some (Data v) \<Rightarrow> Some v | _ \<Rightarrow> None), (h, rt))) (trie_lookup h rt key)"

definition trie_memory :: "(u8 list, 'v) map_op \<Rightarrow> ptr list \<Rightarrow> bool" where
  "trie_memory op ms \<longleftrightarrow> None \<notin> set ms \<and> length (cstr (op_key op)) < length ms"

lemma lookup_ok:
  assumes "is_trie h N m" "valid (cstr key)"
  shows "trie_lookup h (N []) key = Some (map_option Data (m (cstr key)))"
  using trie_end_ok[OF assms] present_ok[OF assms(1), of "cstr key"] shape_cell[OF is_trie_shape[OF assms(1)], of "cstr key"]
  by (cases "N (cstr key)") (auto simp: trie_lookup_def)

lemma remove_absent_ok:
  assumes "is_trie h N m" "valid (cstr key)" "m (cstr key) = None"
  shows "trie_remove h (N []) key = Some (0, h, N [])"
  using trie_end_ok[OF assms(1,2)] present_ok[OF assms(1), of "cstr key"] assms(3) by (simp add: trie_remove_def)

lemma put_step:
  assumes "is_trie h N m" "valid (cstr key)" "avail ms h" "Suc (card (dom m)) < 2 ^ 32"
  shows "\<exists>mem s'. trie_step ms (h, N []) (Put key (Some v)) = Some (fst (map_next cstr mem m (Put key (Some v))), s') \<and>
           trie_map s' (snd (map_next cstr mem m (Put key (Some v)))) \<and> (trie_memory (Put key (Some v)) ms \<longrightarrow> mem)"
proof (cases "m (cstr key)")
  case (Some u)
  then show ?thesis using insert_present_ok[OF assms(1,2) Some, of ms v] by (auto simp: trie_map_def intro!: exI[of _ True])
next
  case None
  from insert_absent_ok[OF assms(1,3,2) None assms(4), of v] show ?thesis
  proof (elim disjE exE conjE)
    fix h' N' assume "trie_insert ms h (N []) key (Some v) = Some (1, h', N' [])" "is_trie h' N' (m(cstr key \<mapsto> v))"
    then show ?thesis by (intro exI[of _ True] exI[of _ "(h', N' [])"]) (auto simp: trie_map_def)
  next
    assume "trie_insert ms h (N []) key (Some v) = Some (0, h, N [])" "None \<in> set ms"
    then show ?thesis using None assms(1) by (intro exI[of _ False] exI[of _ "(h, N [])"]) (auto simp: trie_map_def trie_memory_def)
  next
    assume "trie_insert ms h (N []) key (Some v) = Some (0, h, N [])" "length ms \<le> length (cstr key)"
    then show ?thesis using None assms(1) by (intro exI[of _ False] exI[of _ "(h, N [])"]) (auto simp: trie_map_def trie_memory_def)
  qed
qed

lemma delete_step:
  assumes "is_trie h N m" "valid (cstr key)"
  shows "\<exists>s'. trie_step ms (h, N []) (Delete key) = Some (Done (m (cstr key) \<noteq> None), s') \<and> trie_map s' (m(cstr key := None))"
proof (cases "m (cstr key)")
  case None
  then have "m(cstr key := None) = m" by (simp add: fun_eq_iff)
  then show ?thesis using remove_absent_ok[OF assms None] None assms(1) by (auto simp: trie_map_def)
next
  case (Some u)
  then show ?thesis using remove_present_ok[OF assms Some] by (auto simp: trie_map_def)
qed

interpretation tm: map_machine trie_map cstr "\<lambda>key. valid (cstr key)" trie_step "\<lambda>s ms. avail ms (fst s)" trie_memory "2 ^ 32 - 1"
proof
  fix s :: "'a trie_state" and m :: "path \<rightharpoonup> 'a" and op :: "(u8 list, 'a) map_op" and ms
  assume "trie_map s m" and k: "valid (cstr (op_key op))" and a: "avail ms (fst s)" and c: "card (dom m) < 2 ^ 32 - 1"
  then obtain h N where s: "s = (h, N [])" "is_trie h N m" unfolding trie_map_def by (metis prod.collapse)
  show "\<exists>mem s'. trie_step ms s op = Some (fst (map_next cstr mem m op), s') \<and> trie_map s' (snd (map_next cstr mem m op)) \<and> (trie_memory op ms \<longrightarrow> mem)"
  proof (cases "(cstr :: u8 list \<Rightarrow> path, True, m, op)" rule: map_next.cases)
    case (2 name mem m' key v)
    then show ?thesis using put_step[OF s(2), of key ms v] k a c s(1) by simp
  next
    case (3 name mem m' key)
    then show ?thesis using delete_step[OF s(2), of key ms] k s(1) by auto
  qed (use s k lookup_ok[OF s(2)] in \<open>auto simp: trie_insert_def trie_map_def split: option.split intro!: exI[of _ True]\<close>)
qed (auto simp: trie_map_def is_trie_def)

section \<open>Properties\<close>

text \<open>Two tries for the examples: the empty one, and the one with the empty string as its only key.\<close>

lemma is_trie_empty: "is_trie h (\<lambda>_. None) Map.empty"
  by (auto simp: is_trie_def shape_def count_below_def keys_below_def)

lemma is_trie_single: "is_trie [1 \<mapsto> \<lparr>tn_data = Some (Data v), tn_use_count = 1, tn_next = (\<lambda>_. None)\<rparr>] [[] \<mapsto> 1] [[] \<mapsto> v]"
proof -
  have "keys_below [[] \<mapsto> v] w = (if w = [] then {[]} else {})" for w by (auto simp: keys_below_def)
  then show ?thesis by (auto simp: is_trie_def shape_def count_below_def split: if_splits)
qed

text \<open>C5: For a key of 7-bit characters and a trie of fewer than 2^32 - 1 keys, with calloc returning NULL or distinct
  unused addresses: trie_insert of a key that is present replaces its value and touches no other memory; of a
  key that is absent it either returns 1 and the trie of the extended map, whose new nodes are at
  addresses calloc returned, or, only if an allocation fails, it returns 0 after the rollback, which
  restores every use count and frees every new node, so that the heap is exactly what it was. The
  value NULL is refused. (A character of 128 or more is a negative char and indexes before the array of
  children, and the use count of the root is an unsigned int that would wrap.)\<close>

theorem trie_insert_spec:
  assumes "is_trie h N m" "avail ms h" "valid (cstr key)" "Suc (card (dom m)) < 2 ^ 32"
  shows "trie_insert ms h (N []) key None = Some (0, h, N []) \<and>
    (if m (cstr key) \<noteq> None
     then \<exists>h'. trie_insert ms h (N []) key (Some v) = Some (1, h', N []) \<and> is_trie h' N (m(cstr key \<mapsto> v)) \<and> (\<forall>x. x \<notin> ran N \<longrightarrow> h' x = h x)
     else (\<exists>h' N'. trie_insert ms h (N []) key (Some v) = Some (1, h', N' []) \<and> is_trie h' N' (m(cstr key \<mapsto> v)) \<and>
             N \<subseteq>\<^sub>m N' \<and> ran N' \<subseteq> ran N \<union> {a. Some a \<in> set ms} \<and> (\<forall>x. x \<notin> ran N' \<longrightarrow> h' x = h x)) \<or>
          (None \<in> set ms \<or> length ms \<le> length (cstr key)) \<and> trie_insert ms h (N []) key (Some v) = Some (0, h, N []))"
proof (cases "m (cstr key)")
  case None
  then show ?thesis using insert_absent_ok[OF assms(1-3) None assms(4), of v] by (simp add: trie_insert_def)
next
  case (Some u)
  then show ?thesis using insert_present_ok[OF assms(1,3) Some, of ms v] by (simp add: trie_insert_def)
qed

theorem trie_insert_spec_witness:
  "(\<exists>h' N'. trie_insert [Some 2, Some 3, Some 4] Map.empty NULL [97, 98] (Some True) = Some (1, h', N' []) \<and> is_trie h' N' [[97, 98] \<mapsto> True]) \<and>
   trie_insert [Some 2, None] Map.empty NULL [97, 98] (Some True) = Some (0, Map.empty, NULL)"
proof
  have a: "avail [Some 2, Some 3, Some 4] (Map.empty :: bool theap)" by (simp add: avail_def)
  show "\<exists>h' N'. trie_insert [Some 2, Some 3, Some 4] Map.empty NULL [97, 98] (Some True) = Some (1, h', N' []) \<and> is_trie h' N' [[97, 98] \<mapsto> True]"
    using trie_insert_spec[OF is_trie_empty a, of "[97, 98]" True] by auto
  show "trie_insert [Some 2, None] Map.empty NULL [97, 98] (Some True) = Some (0, Map.empty, NULL)"
    by (simp add: trie_insert_def trie_find_end_def trie_insert_loop.simps trie_make_node_def tloc_read_def tloc_write_def Let_def
        trie_insert_rollback_def trie_rollback_loop.simps c_free_def unlink_at_def c_char_def c_index_def)
qed

text \<open>trie_remove of a key that is absent returns 0 and changes nothing; of a key that is
  present it returns 1 and leaves the trie of the map without it: the nodes that remain keep their
  addresses, every other node of the trie was freed, and no other memory is touched.\<close>

theorem trie_remove_spec:
  assumes "is_trie h N m" "valid (cstr key)"
  shows "if m (cstr key) = None then trie_remove h (N []) key = Some (0, h, N [])
         else \<exists>h' N'. trie_remove h (N []) key = Some (1, h', N' []) \<and> is_trie h' N' (m(cstr key := None)) \<and> N' \<subseteq>\<^sub>m N \<and>
                (\<forall>x. x \<in> ran N \<longrightarrow> x \<notin> ran N' \<longrightarrow> h' x = None) \<and> (\<forall>x. x \<notin> ran N \<longrightarrow> h' x = h x)"
  using remove_absent_ok[OF assms] remove_present_ok[OF assms] by auto

theorem trie_remove_spec_witness:
  "\<exists>h' N'. trie_remove [1 \<mapsto> \<lparr>tn_data = Some (Data True), tn_use_count = 1, tn_next = (\<lambda>_. None)\<rparr>] (Some 1) [0, 5] = Some (1, h', N' []) \<and>
     is_trie h' N' Map.empty"
  using trie_remove_spec[OF is_trie_single[of True], of "[0, 5]"] by fastforce

text \<open>trie_lookup returns the value of the key or TRIE_NULL, and trie_num_entries the number of
  keys, as long as it is below 2 to the 31.\<close>

theorem trie_queries_spec:
  assumes "is_trie h N m" "valid (cstr key)" "card (dom m) < 2 ^ 31"
  shows "trie_lookup h (N []) key = Some (map_option Data (m (cstr key))) \<and> trie_num_entries h (N []) = Some (int (card (dom m)))"
proof
  show "trie_lookup h (N []) key = Some (map_option Data (m (cstr key)))" by (rule lookup_ok[OF assms(1,2)])
  show "trie_num_entries h (N []) = Some (int (card (dom m)))"
  proof (cases "N []")
    case None
    then show ?thesis using trie_node[OF assms(1), of "[]"] by (simp add: trie_num_entries_def)
  next
    case (Some a)
    have "unat (count_below m []) = card (dom m)" using count_below_nat[of m "[]"] assms(1) by (simp add: is_trie_def)
    then have "uint (count_below m []) = int (card (dom m))" by (metis int_nat_eq unat_eq_nat_uint uint_ge_0)
    then have "sint (count_below m []) = int (card (dom m))" using assms(3) by (simp add: sint_uint signed_take_bit_int_eq_self)
    then show ?thesis using Some shape_cell[OF is_trie_shape[OF assms(1)] Some] by (simp add: trie_num_entries_def)
  qed
qed

theorem trie_queries_spec_witness:
  "trie_num_entries [1 \<mapsto> \<lparr>tn_data = Some (Data True), tn_use_count = 1, tn_next = (\<lambda>_. None)\<rparr>] (Some 1) = Some 1"
  using trie_queries_spec[OF is_trie_single[of True], of "[]"] by simp

text \<open>C6: Any sequence of insertions, removals and lookups of keys of 7-bit characters on a trie, with any outcome of the
  allocations and so few operations that the trie stays below 2^32 keys, returns what a finite map does, an insertion that fails for lack of memory changing
  nothing; with enough memory no insertion fails.\<close>

theorem trie_refines_map:
  assumes "trie_map s m" "\<And>s. avail (alloc s) (fst s)" "\<And>op. op \<in> set ops \<Longrightarrow> valid (cstr (op_key op))"
    "card (dom m) + length ops < 2 ^ 32"
  shows "\<exists>outs s' mems. run_map trie_step alloc s ops = Some (outs, s') \<and> length mems = length ops \<and>
           outs = fst (map_run cstr m (zip mems ops)) \<and> trie_map s' (snd (map_run cstr m (zip mems ops))) \<and>
           ((\<forall>op \<in> set ops. \<forall>s. trie_memory op (alloc s)) \<longrightarrow> mems = replicate (length ops) True)"
  using tm.run_map_refines[OF assms(1-3)] assms(4) by simp

theorem trie_refines_map_witness:
  "\<exists>outs s' mems. run_map trie_step (\<lambda>_. [None]) (Map.empty, NULL) [Put [97] (Some True), Get [97]] = Some (outs, s') \<and>
     length mems = 2 \<and> outs = fst (map_run cstr Map.empty (zip mems [Put [97] (Some True), Get [97]]))"
proof -
  let ?ops = "[Put [97] (Some True), Get [97]]"
  have m: "trie_map (Map.empty, NULL) (Map.empty :: path \<rightharpoonup> bool)" unfolding trie_map_def using is_trie_empty by fastforce
  have a: "avail [None] (fst s)" for s :: "bool trie_state" by (simp add: avail_def)
  have k: "valid (cstr (op_key op))" if "op \<in> set ?ops" for op using that by auto
  have n: "card (dom (Map.empty :: path \<rightharpoonup> bool)) + length ?ops < 2 ^ 32" by simp
  have "length ?ops = 2" by simp
  then show ?thesis using trie_refines_map[OF m a k n] by metis
qed

text \<open>A key with a byte from 128 on below a node that exists selects an element before the next
  array, since a plain char is signed: the lookup is undefined.\<close>

theorem trie_lookup_undefined:
  assumes "is_trie h N m" "valid w" "0 \<notin> set w" "N w \<noteq> NULL" "128 \<le> b"
  shows "trie_lookup h (N []) (w @ b # key) = None"
proof -
  have "trie_find_loop h (N u) (w @ b # key) = None" if "N (u @ w) \<noteq> NULL" for u
    using assms(2,3) that
  proof (induction w arbitrary: u)
    case Nil
    then obtain a where a: "N u = Some a" by auto
    have "b \<noteq> 0" "c_index b = None" using assms(5) by (auto simp: c_index_def)
    then show ?case using a shape_cell[OF is_trie_shape[OF assms(1)] a] by simp
  next
    case (Cons c w)
    then obtain a where a: "N u = Some a" using shape_closed[OF is_trie_shape[OF assms(1)], of u "c # w"] by (cases "N u") auto
    have "trie_find_loop h (N (u @ [c])) (w @ b # key) = None" using Cons.IH[of "u @ [c]"] Cons.prems by simp
    then show ?case using Cons.prems a shape_cell[OF is_trie_shape[OF assms(1)] a] by simp
  qed
  from this[of "[]"] show ?thesis using assms(4) by (simp add: trie_lookup_def trie_find_end_def)
qed

theorem trie_lookup_undefined_witness:
  "trie_lookup [1 \<mapsto> \<lparr>tn_data = Some (Data True), tn_use_count = 1, tn_next = (\<lambda>_. None)\<rparr>] (Some 1) [200] = None"
  using trie_lookup_undefined[OF is_trie_single[of True], of "[]" 200 "[]"] by simp

end
