(* ===== verification/Trie_Free.thy ===== *)
theory Trie_Free
  imports Trie_Correct
begin

text \<open>
  \<open>trie_free\<close> empties a trie without recursion: the nodes still to be freed form a list that is linked
  through their data fields. The loop ends and frees exactly the nodes of the trie.
\<close>

section \<open>The list of nodes to be freed\<close>

definition cells :: "'v theap \<Rightarrow> (path \<Rightarrow> ptr) \<Rightarrow> path set \<Rightarrow> bool" where
  "cells h N X \<longleftrightarrow> (\<forall>x \<in> X. \<exists>a d u. N x = Some a \<and> h a = Some \<lparr>tn_data = d, tn_use_count = u, tn_next = (\<lambda>c. N (x @ [c]))\<rparr>)"

fun free_list :: "'v theap \<Rightarrow> (path \<Rightarrow> ptr) \<Rightarrow> path list \<Rightarrow> ptr \<Rightarrow> bool" where
  "free_list h N [] p \<longleftrightarrow> p = NULL"
| "free_list h N (w # ws) p \<longleftrightarrow> p = N w \<and>
     (\<exists>a q u. p = Some a \<and> h a = Some \<lparr>tn_data = map_option NodePtr q, tn_use_count = u, tn_next = (\<lambda>c. N (w @ [c]))\<rparr> \<and> free_list h N ws q)"

lemma free_list_frame:
  "free_list h N ws p \<Longrightarrow> (\<And>w a. w \<in> set ws \<Longrightarrow> N w = Some a \<Longrightarrow> h' a = h a) \<Longrightarrow> free_list h' N ws p"
  by (induction ws arbitrary: p) fastforce+

definition children :: "(path \<Rightarrow> ptr) \<Rightarrow> path \<Rightarrow> u8 list \<Rightarrow> path list" where
  "children N w is = map (\<lambda>i. w @ [i]) (filter (\<lambda>i. N (w @ [i]) \<noteq> None) is)"

lemma children_simps [simp]: "children N w [] = []"
  "children N w (i # is) = (if N (w @ [i]) \<noteq> None then (w @ [i]) # children N w is else children N w is)"
  by (simp_all add: children_def)

lemma push_ok:
  assumes "inj_paths N" "cells h N B" "y \<in> B" "y \<notin> set ws" "free_list h N ws p"
  shows "\<exists>h'. trie_free_list_push h p (N y) = Some (h', N y) \<and> cells h' N B \<and> free_list h' N (y # ws) (N y) \<and>
           (\<forall>x. N y \<noteq> Some x \<longrightarrow> h' x = h x)"
proof -
  obtain a d u where a: "N y = Some a" "h a = Some \<lparr>tn_data = d, tn_use_count = u, tn_next = (\<lambda>c. N (y @ [c]))\<rparr>"
    using assms(2,3) unfolding cells_def by blast
  let ?h = "h(a \<mapsto> \<lparr>tn_data = map_option NodePtr p, tn_use_count = u, tn_next = (\<lambda>c. N (y @ [c]))\<rparr>)"
  have inj: "N x = Some a \<Longrightarrow> x = y" for x using assms(1) a(1) unfolding inj_paths_def by blast
  have "free_list ?h N ws p" by (rule free_list_frame[OF assms(5)]) (use inj assms(4) in auto)
  moreover have "cells ?h N B" unfolding cells_def
  proof
    fix x assume "x \<in> B"
    then obtain b d' u' where b: "N x = Some b" "h b = Some \<lparr>tn_data = d', tn_use_count = u', tn_next = (\<lambda>c. N (x @ [c]))\<rparr>"
      using assms(2) unfolding cells_def by blast
    then show "\<exists>a d u. N x = Some a \<and> ?h a = Some \<lparr>tn_data = d, tn_use_count = u, tn_next = (\<lambda>c. N (x @ [c]))\<rparr>"
      using inj[of x] by (cases "b = a") auto
  qed
  moreover have "trie_free_list_push h p (N y) = Some (?h, N y)" using a by (simp add: trie_free_list_push_def)
  ultimately show ?thesis using a by auto
qed

lemma push_children_ok:
  assumes "inj_paths N" "w \<in> B" "\<And>i. N (w @ [i]) \<noteq> None \<Longrightarrow> w @ [i] \<in> B"
    and "cells h N B" "distinct is" "\<And>i. i \<in> set is \<Longrightarrow> w @ [i] \<notin> set ws" "free_list h N ws p"
  shows "\<exists>h' p'. trie_push_children is h p (N w) = Some (h', p') \<and> cells h' N B \<and> free_list h' N (rev (children N w is) @ ws) p' \<and>
           (\<forall>x. (\<forall>i. N (w @ [i]) \<noteq> Some x) \<longrightarrow> h' x = h x)"
  using assms(4-)
proof (induction "is" arbitrary: h p ws)
  case (Cons i "is")
  obtain a d u where a: "N w = Some a" "h a = Some \<lparr>tn_data = d, tn_use_count = u, tn_next = (\<lambda>c. N (w @ [c]))\<rparr>"
    using Cons.prems(1) assms(2) unfolding cells_def by blast
  show ?case
  proof (cases "N (w @ [i])")
    case None
    then show ?thesis using Cons.IH[OF Cons.prems(1) _ _ Cons.prems(4)] Cons.prems(2,3) a by simp
  next
    case (Some b)
    have i: "w @ [i] \<in> B" "w @ [i] \<notin> set ws" using assms(3) Some Cons.prems(3) by auto
    obtain h1 where h1: "trie_free_list_push h p (N (w @ [i])) = Some (h1, N (w @ [i]))" "cells h1 N B"
        "free_list h1 N ((w @ [i]) # ws) (N (w @ [i]))" "\<forall>x. N (w @ [i]) \<noteq> Some x \<longrightarrow> h1 x = h x"
      using push_ok[OF assms(1) Cons.prems(1) i Cons.prems(4)] by blast
    have fresh: "w @ [j] \<notin> set ((w @ [i]) # ws)" if "j \<in> set is" for j using that Cons.prems(2,3) by auto
    obtain h' p' where r: "trie_push_children is h1 (N (w @ [i])) (N w) = Some (h', p')" "cells h' N B"
        "free_list h' N (rev (children N w is) @ (w @ [i]) # ws) p'" "\<forall>x. (\<forall>i. N (w @ [i]) \<noteq> Some x) \<longrightarrow> h' x = h1 x"
      using Cons.IH[OF h1(2) _ fresh h1(3)] Cons.prems(2) by auto
    have "trie_push_children (i # is) h p (N w) = Some (h', p')" using a Some h1(1) r(1) by simp
    then show ?thesis using r(2-4) h1(4) Some by auto
  qed
qed simp

lemma all_indices_set: "set all_indices = UNIV"
proof -
  have "of_nat (unat x) \<in> set all_indices" for x :: u8
    unfolding all_indices_def set_map by (rule imageI) (use unsigned_less[of x, where ?'a = nat] in simp)
  then have "x \<in> set all_indices" for x by (metis of_nat_unat ucast_id)
  then show ?thesis by blast
qed

lemma all_indices_distinct: "distinct all_indices"
proof -
  have "inj_on (of_nat :: nat \<Rightarrow> u8) {0..<256}"
    by (rule inj_on_inverseI[of _ unat]) (simp add: unsigned_of_nat take_bit_nat_eq_self)
  then show ?thesis by (simp add: all_indices_def distinct_map)
qed

section \<open>The loop\<close>

definition below :: "(path \<Rightarrow> ptr) \<Rightarrow> path list \<Rightarrow> path set" where
  "below N ws = {x. N x \<noteq> None \<and> (\<exists>w \<in> set ws. prefix w x)}"

definition apart :: "path list \<Rightarrow> bool" where
  "apart ws \<longleftrightarrow> distinct ws \<and> (\<forall>w \<in> set ws. \<forall>v \<in> set ws. prefix w v \<longrightarrow> w = v)"

definition closed :: "(path \<Rightarrow> ptr) \<Rightarrow> bool" where
  "closed N \<longleftrightarrow> (\<forall>x v. N x = None \<longrightarrow> N (x @ v) = None)"

lemma set_children: "set (children N w all_indices) = {w @ [i] |i. N (w @ [i]) \<noteq> None}"
  by (auto simp: children_def all_indices_set)

lemma below_step:
  assumes "closed N" "apart (w # ws)"
  shows "below N (rev (children N w all_indices) @ ws) = below N (w # ws) - {w}"
proof (rule set_eqI)
  fix x
  show "x \<in> below N (rev (children N w all_indices) @ ws) \<longleftrightarrow> x \<in> below N (w # ws) - {w}"
  proof (cases "prefix w x")
    case True
    have no: "\<not> prefix v x" if "v \<in> set ws" for v
      using prefix_same_cases[OF True, of v] assms(2) that unfolding apart_def by auto
    show ?thesis
    proof (cases "x = w")
      case False
      then obtain i r where x: "x = w @ i # r" using True by (metis append_Nil2 neq_Nil_conv prefixE)
      have "N (w @ [i]) \<noteq> None" if "N x \<noteq> None" using assms(1) that unfolding closed_def x by (metis append.assoc append_Cons append_Nil)
      then have "N x \<noteq> None \<Longrightarrow> w @ [i] \<in> set (children N w all_indices)" unfolding set_children by blast
      moreover have "prefix (w @ [i]) x" using x by simp
      ultimately have "N x \<noteq> None \<Longrightarrow> x \<in> below N (rev (children N w all_indices) @ ws)" unfolding below_def by auto
      then show ?thesis using False True by (auto simp: below_def)
    qed (use no in \<open>auto simp: below_def set_children\<close>)
  next
    case False
    then have "\<not> prefix (w @ [i]) x" for i using append_prefixD by blast
    then show ?thesis using False by (auto simp: below_def set_children)
  qed
qed

lemma apart_step:
  assumes "apart (w # ws)"
  shows "apart (rev (children N w all_indices) @ ws)"
proof -
  have d: "distinct (children N w all_indices)" by (auto simp: children_def distinct_map all_indices_distinct inj_on_def)
  have n: "\<not> prefix v (w @ [i])" "\<not> prefix (w @ [i]) v" "v \<noteq> w @ [i]" if "v \<in> set ws" for v i
    using assms that append_prefixD[of w "[i]" v] prefix_same_cases[of v "w @ [i]" w] unfolding apart_def by auto
  then show ?thesis using assms d unfolding apart_def by (auto simp: set_children)
qed

lemma free_list_pop_ok:
  assumes "free_list h N (w # ws) p"
  obtains q where "trie_free_list_pop h p = Some (N w, q)" "free_list h N ws q"
proof -
  obtain a q u where a: "p = Some a" "N w = Some a" "free_list h N ws q"
      "h a = Some \<lparr>tn_data = map_option NodePtr q, tn_use_count = u, tn_next = (\<lambda>c. N (w @ [c]))\<rparr>" using assms by auto
  then have "trie_free_list_pop h p = Some (N w, q)" by (cases q) (auto simp: trie_free_list_pop_def)
  then show ?thesis using a(3) by (rule that)
qed

lemma trie_free_loop_ok:
  assumes "inj_paths N" "closed N" "finite (below N ws)" "apart ws" "cells h N (below N ws)" "free_list h N ws p"
  shows "trie_free_loop h p = Some (\<lambda>a. if \<exists>x \<in> below N ws. N x = Some a then None else h a)"
  using assms(3-)
proof (induction "card (below N ws)" arbitrary: ws h p rule: less_induct)
  case less
  show ?case
  proof (cases ws)
    case Nil
    then show ?thesis using less.prems(4) by (subst trie_free_loop.simps) (simp add: below_def)
  next
    case (Cons w ws')
    let ?kids = "rev (children N w all_indices) @ ws'" let ?B = "below N ws"
    have B: "below N ?kids = ?B - {w}" using below_step[OF assms(2)] less.prems(2) Cons by simp
    obtain a where a: "N w = Some a" "p = Some a" using less.prems(4) Cons by auto
    have w: "w \<in> ?B" using a Cons by (auto simp: below_def)
    obtain q where q: "trie_free_list_pop h p = Some (N w, q)" "free_list h N ws' q"
      using free_list_pop_ok less.prems(4) Cons by blast
    have kid: "w @ [i] \<in> ?B" if "N (w @ [i]) \<noteq> None" for i using that Cons by (auto simp: below_def)
    have fresh: "w @ [i] \<notin> set ws'" for i using less.prems(2) Cons unfolding apart_def by force
    obtain h1 p1 where h1: "trie_push_children all_indices h q (N w) = Some (h1, p1)" "cells h1 N ?B"
        "free_list h1 N ?kids p1" "\<And>x. \<forall>i. N (w @ [i]) \<noteq> Some x \<Longrightarrow> h1 x = h x"
      using push_children_ok[OF assms(1) w kid less.prems(3) all_indices_distinct fresh q(2)] by blast
    have inj: "N x = Some a \<Longrightarrow> x = w" for x using assms(1) a(1) unfolding inj_paths_def by blast
    obtain e where e: "h1 a = Some e" using h1(2) w a unfolding cells_def by fastforce
    let ?h = "h1(a := None)"
    have ap: "apart ?kids" using apart_step less.prems(2) unfolding Cons by blast
    have "w \<notin> set ?kids" using less.prems(2) Cons by (auto simp: apart_def set_children)
    then have f: "free_list ?h N ?kids p1" using inj by (intro free_list_frame[OF h1(3)]) auto
    have c: "cells ?h N (below N ?kids)" using h1(2) inj unfolding B cells_def by (metis DiffD1 DiffD2 fun_upd_other singletonI)
    have "card (below N ?kids) < card ?B" unfolding B by (rule card_Diff1_less[OF less.prems(1) w])
    from less.hyps[OF this _ ap c f] have r: "trie_free_loop ?h p1 = Some (\<lambda>x. if \<exists>y \<in> below N ?kids. N y = Some x then None else ?h x)"
      using less.prems(1) unfolding B by blast
    have "(if \<exists>y \<in> below N ?kids. N y = Some x then None else ?h x) = (if \<exists>y \<in> ?B. N y = Some x then None else h x)" for x
    proof (cases "\<exists>y \<in> ?B. N y = Some x")
      case True
      then show ?thesis unfolding B using a by auto
    next
      case False
      then have "x \<noteq> a" "\<forall>i. N (w @ [i]) \<noteq> Some x" using w a kid by auto
      then show ?thesis using False h1(4) unfolding B by auto
    qed
    then show ?thesis using q(1) h1(1) r a e by (subst trie_free_loop.simps) (simp add: c_free_def)
  qed
qed

text \<open>C28: trie_free terminates and frees every node of the trie and no other memory.\<close>

theorem trie_free_spec:
  assumes "is_trie h N m"
  shows "trie_free h (N []) = Some (\<lambda>a. if a \<in> ran N then None else h a)"
proof -
  note sh = is_trie_shape[OF assms]
  have c: "closed N" unfolding closed_def using shape_closed[OF sh] by blast
  show ?thesis
  proof (cases "N []")
    case None
    then have "N x = None" for x using c[unfolded closed_def, rule_format, of "[]" x] by simp
    then have "ran N = {}" by (simp add: ran_def)
    then show ?thesis using None by (simp add: trie_free_def trie_free_loop.simps[of _ None])
  next
    case (Some a)
    have dom: "below N [[]] = dom N" by (auto simp: below_def)
    have "finite {w. prefix w k}" for k :: path by (metis List.finite_set set_prefixes_eq)
    then have "finite (\<Union>k \<in> dom m. {w. prefix w k})" using assms by (auto simp: is_trie_def)
    moreover have "dom N \<subseteq> (\<Union>k \<in> dom m. {w. prefix w k})" using assms by (auto simp: is_trie_def keys_below_def)
    ultimately have fin: "finite (below N [[]])" unfolding dom by (rule rev_finite_subset)
    have cl: "cells h N (below N [[]])" unfolding cells_def dom using shape_cell[OF sh] by blast
    obtain h1 where h1: "trie_free_list_push h NULL (N []) = Some (h1, N [])" "cells h1 N (below N [[]])" "free_list h1 N [[]] (N [])"
        "\<forall>x. N [] \<noteq> Some x \<longrightarrow> h1 x = h x"
      using push_ok[OF shape_inj_paths[OF sh] cl, of "[]" "[]" NULL] Some unfolding dom by auto
    have "trie_free_loop h1 (N []) = Some (\<lambda>a. if \<exists>x \<in> below N [[]]. N x = Some a then None else h1 a)"
      by (rule trie_free_loop_ok[OF shape_inj_paths[OF sh] c fin _ h1(2,3)]) (simp add: apart_def)
    moreover have "(if \<exists>x \<in> below N [[]]. N x = Some b then None else h1 b) = (if b \<in> ran N then None else h b)" for b
      using h1(4) unfolding dom by (auto simp: ran_def)
    ultimately show ?thesis using Some h1(1) by (simp add: trie_free_def)
  qed
qed

theorem trie_free_spec_witness:
  "trie_free [1 \<mapsto> \<lparr>tn_data = Some (Data True), tn_use_count = 1, tn_next = (\<lambda>_. None)\<rparr>] (Some 1) = Some Map.empty"
  using trie_free_spec[OF is_trie_single[of True]] by (auto simp: fun_eq_iff)

end
