(* ===== verification/Binomial_Heap.thy ===== *)
theory Binomial_Heap
  imports Compare Pointer_Lists
begin

text \<open>
  \<open>src/src/comm/binomial-heap.c\<close>: a heap of reference-counted trees. The BinomialTree structs live in
  an explicit heap; the array of subtrees of a tree and the array of roots belong to their struct. A
  tree can be shared while two heaps are merged; it is freed when its last reference goes away.
\<close>

datatype BinomialHeapType = BINOMIAL_HEAP_TYPE_MIN | BINOMIAL_HEAP_TYPE_MAX

record 'v BinomialTree =
  bt_value :: 'v
  bt_order :: u16
  bt_refcount :: u16
  bt_subtrees :: "ptr array"

record 'v BinomialHeap =
  bp_heap_type :: BinomialHeapType
  bp_compare_func :: "'v cmp_func"
  bp_num_values :: int
  bp_roots :: "ptr array"
  bp_roots_length :: int

type_synonym 'v btheap = "'v BinomialTree heap"

definition binomial_heap_cmp :: "'v BinomialHeap \<Rightarrow> 'v \<Rightarrow> 'v \<Rightarrow> int option" where
  "binomial_heap_cmp heap data1 data2 =
     (if bp_heap_type heap = BINOMIAL_HEAP_TYPE_MIN then Some (bp_compare_func heap data1 data2)
      else c_int (- bp_compare_func heap data1 data2))"

definition binomial_tree_ref :: "'v btheap \<Rightarrow> ptr \<Rightarrow> 'v btheap option" where
  "binomial_tree_ref h tree =
     (if tree \<noteq> NULL then modify h tree (\<lambda>e. e\<lparr>bt_refcount := bt_refcount e + 1\<rparr>) else Some h)"

text \<open>The first \<open>n\<close> elements of an array, all of which were written.\<close>

definition arr_read :: "'a array \<Rightarrow> nat \<Rightarrow> 'a list option" where
  "arr_read xs n = (if n \<le> length xs then those (take n xs) else None)"

text \<open>
  binomial_tree_unref for a list of trees one after the other, as its loops do it. A tree without
  references gives up those to its subtrees and is freed.
\<close>

partial_function (option) binomial_unref_all :: "'v btheap \<Rightarrow> ptr list \<Rightarrow> 'v btheap option" where
  "binomial_unref_all h trees =
     (case trees of
        [] \<Rightarrow> Some h
      | None # trees \<Rightarrow> binomial_unref_all h trees
      | Some a # trees \<Rightarrow> do {
          e \<leftarrow> h a;
          let e = e\<lparr>bt_refcount := bt_refcount e - 1\<rparr>;
          let h = h(a \<mapsto> e);
          h \<leftarrow> (if bt_refcount e = 0 then do {
                 subtrees \<leftarrow> arr_read (bt_subtrees e) (unat (bt_order e));
                 h \<leftarrow> binomial_unref_all h subtrees;
                 c_free h (Some a)
               }
               else Some h);
          binomial_unref_all h trees
        })"

definition binomial_tree_unref :: "'v btheap \<Rightarrow> ptr \<Rightarrow> 'v btheap option" where
  "binomial_tree_unref h tree = binomial_unref_all h [tree]"

text \<open>The loop that adds a reference to every subtree.\<close>

primrec binomial_ref_all :: "'v btheap \<Rightarrow> ptr list \<Rightarrow> 'v btheap option" where
  "binomial_ref_all h [] = Some h"
| "binomial_ref_all h (tree # trees) = do { h \<leftarrow> binomial_tree_ref h tree; binomial_ref_all h trees }"

text \<open>
  \<open>ms\<close> holds what the two allocations of each call return: the address of the new tree and whether
  its array of subtrees could be allocated.
\<close>

definition binomial_tree_merge ::
  "(ptr \<times> bool) list \<Rightarrow> 'v btheap \<Rightarrow> 'v BinomialHeap \<Rightarrow> ptr \<Rightarrow> ptr \<Rightarrow> (ptr \<times> (ptr \<times> bool) list \<times> 'v btheap) option" where
  "binomial_tree_merge ms h heap tree1 tree2 = do {
     e1 \<leftarrow> deref h tree1;
     e2 \<leftarrow> deref h tree2;
     c \<leftarrow> binomial_heap_cmp heap (bt_value e1) (bt_value e2);
     let (tree1, tree2) = (if c > 0 then (tree2, tree1) else (tree1, tree2));
     e1 \<leftarrow> deref h tree1;
     case ms of
       (Some new_tree, True) # ms \<Rightarrow> do {
         let order = bt_order e1 + 1;
         subtrees \<leftarrow> mem_read (bt_subtrees e1) 0 (unat (bt_order e1));
         subtrees \<leftarrow> mem_write (replicate (unat order) None) 0 subtrees;
         subtrees \<leftarrow> arr_set subtrees (uint order - 1) tree2;
         let h = h(new_tree \<mapsto> \<lparr>bt_value = bt_value e1, bt_order = order, bt_refcount = 0, bt_subtrees = subtrees\<rparr>);
         trees \<leftarrow> arr_read subtrees (unat order);
         h \<leftarrow> binomial_ref_all h trees;
         Some (Some new_tree, ms, h)
       }
     | _ \<Rightarrow> Some (NULL, tl ms, h)
   }"

definition binomial_heap_merge_undo :: "'v btheap \<Rightarrow> ptr array \<Rightarrow> int \<Rightarrow> 'v btheap option" where
  "binomial_heap_merge_undo h new_roots cnt = do {
     trees \<leftarrow> arr_read new_roots (nat (cnt + 1));
     binomial_unref_all h trees
   }"

text \<open>
  The loop of binomial_heap_merge, a ripple-carry adder: whether it was finished, the heap, the new
  roots and their number.
\<close>

function binomial_merge_loop ::
  "int \<Rightarrow> 'v BinomialHeap \<Rightarrow> ptr array \<Rightarrow> int \<Rightarrow> (ptr \<times> bool) list \<Rightarrow> 'v btheap \<Rightarrow> int \<Rightarrow> ptr array \<Rightarrow> int \<Rightarrow> ptr \<Rightarrow>
     (bool \<times> 'v btheap \<times> ptr array \<times> int) option" where
  "binomial_merge_loop mx heap other_roots other_roots_length ms h i new_roots new_roots_length carry =
     (if i < mx then do {
        v1 \<leftarrow> (if i < bp_roots_length heap then arr_get (bp_roots heap) i else Some NULL);
        v2 \<leftarrow> (if i < other_roots_length then arr_get other_roots i else Some NULL);
        let vals = filter (\<lambda>v. v \<noteq> NULL) [v1, v2, carry];
        let num_vals = length vals;
        (h, new_roots, new_roots_length) \<leftarrow>
          (if num_vals = 1 \<or> num_vals = 3 then do {
             new_roots \<leftarrow> arr_set new_roots i (vals ! (num_vals - 1));
             h \<leftarrow> binomial_tree_ref h (vals ! (num_vals - 1));
             Some (h, new_roots, i + 1)
           }
           else do {
             new_roots \<leftarrow> arr_set new_roots i NULL;
             Some (h, new_roots, new_roots_length)
           });
        if num_vals = 2 \<or> num_vals = 3 then do {
          (new_carry, ms, h) \<leftarrow> binomial_tree_merge ms h heap (vals ! 0) (vals ! 1);
          if new_carry = NULL then do {
            h \<leftarrow> binomial_heap_merge_undo h new_roots i;
            h \<leftarrow> binomial_tree_unref h carry;
            Some (False, h, new_roots, new_roots_length)
          }
          else do {
            h \<leftarrow> binomial_tree_unref h carry;
            h \<leftarrow> binomial_tree_ref h new_carry;
            binomial_merge_loop mx heap other_roots other_roots_length ms h (i + 1) new_roots new_roots_length new_carry
          }
        }
        else do {
          h \<leftarrow> binomial_tree_unref h carry;
          binomial_merge_loop mx heap other_roots other_roots_length ms h (i + 1) new_roots new_roots_length NULL
        }
      }
      else Some (True, h, new_roots, new_roots_length))"
  by pat_completeness auto
termination by (relation "measure (\<lambda>(mx, _, _, _, _, _, i, _). nat (mx - i))") auto

declare binomial_merge_loop.simps [simp del]

text \<open>\<open>m\<close> is whether the array of new roots could be allocated.\<close>

definition binomial_heap_merge ::
  "bool \<Rightarrow> (ptr \<times> bool) list \<Rightarrow> 'v btheap \<Rightarrow> 'v BinomialHeap \<Rightarrow> ptr array \<Rightarrow> int \<Rightarrow> (int \<times> 'v btheap \<times> 'v BinomialHeap) option" where
  "binomial_heap_merge m ms h heap other_roots other_roots_length = do {
     mx \<leftarrow> c_int ((if bp_roots_length heap > other_roots_length then bp_roots_length heap else other_roots_length) + 1);
     if \<not> m then Some (0, h, heap)
     else do {
       (finished, h, new_roots, new_roots_length) \<leftarrow>
         binomial_merge_loop mx heap other_roots other_roots_length ms h 0 (replicate (nat mx) None) 0 NULL;
       if \<not> finished then Some (0, h, heap)
       else do {
         trees \<leftarrow> arr_read (bp_roots heap) (nat (bp_roots_length heap));
         h \<leftarrow> binomial_unref_all h trees;
         Some (1, h, heap\<lparr>bp_roots := new_roots, bp_roots_length := new_roots_length\<rparr>)
       }
     }
   }"

definition binomial_heap_new :: "bool \<Rightarrow> BinomialHeapType \<Rightarrow> 'v cmp_func \<Rightarrow> 'v BinomialHeap option" where
  "binomial_heap_new m heap_type compare_func =
     (if m then Some \<lparr>bp_heap_type = heap_type, bp_compare_func = compare_func, bp_num_values = 0, bp_roots = [], bp_roots_length = 0\<rparr>
      else None)"

definition binomial_heap_free :: "'v btheap \<Rightarrow> 'v BinomialHeap \<Rightarrow> 'v btheap option" where
  "binomial_heap_free h heap = do {
     trees \<leftarrow> arr_read (bp_roots heap) (nat (bp_roots_length heap));
     binomial_unref_all h trees
   }"

text \<open>\<open>m1\<close> is what malloc returns for the new tree.\<close>

definition binomial_heap_insert ::
  "ptr \<Rightarrow> bool \<Rightarrow> (ptr \<times> bool) list \<Rightarrow> 'v btheap \<Rightarrow> 'v BinomialHeap \<Rightarrow> 'v \<Rightarrow> (int \<times> 'v btheap \<times> 'v BinomialHeap) option" where
  "binomial_heap_insert m1 m ms h heap v =
     (case m1 of
        None \<Rightarrow> Some (0, h, heap)
      | Some new_tree \<Rightarrow> do {
          let h = h(new_tree \<mapsto> \<lparr>bt_value = v, bt_order = 0, bt_refcount = 1, bt_subtrees = []\<rparr>);
          (result, h, heap) \<leftarrow> binomial_heap_merge m ms h heap [Some (Some new_tree)] 1;
          heap \<leftarrow> (if result \<noteq> 0 then do { n \<leftarrow> c_int (bp_num_values heap + 1); Some (heap\<lparr>bp_num_values := n\<rparr>) } else Some heap);
          h \<leftarrow> binomial_tree_unref h (Some new_tree);
          Some (result, h, heap)
        })"

text \<open>The loop that finds the least root, with its index and value so far.\<close>

primrec binomial_least_loop :: "'v btheap \<Rightarrow> 'v BinomialHeap \<Rightarrow> int list \<Rightarrow> int \<Rightarrow> int option" where
  "binomial_least_loop h heap [] least = Some least"
| "binomial_least_loop h heap (i # is) least = do {
     root \<leftarrow> arr_get (bp_roots heap) i;
     if root = NULL then binomial_least_loop h heap is least
     else do {
       less \<leftarrow> (if least < 0 then Some True
                else do {
                  e \<leftarrow> deref h root;
                  root_least \<leftarrow> arr_get (bp_roots heap) least;
                  e_least \<leftarrow> deref h root_least;
                  c \<leftarrow> binomial_heap_cmp heap (bt_value e) (bt_value e_least);
                  Some (c < 0)
                });
       binomial_least_loop h heap is (if less then i else least)
     }
   }"

definition binomial_heap_pop ::
  "bool \<Rightarrow> (ptr \<times> bool) list \<Rightarrow> 'v btheap \<Rightarrow> 'v BinomialHeap \<Rightarrow> ('v option \<times> 'v btheap \<times> 'v BinomialHeap) option" where
  "binomial_heap_pop m ms h heap =
     (if bp_num_values heap = 0 then Some (None, h, heap)
      else do {
        least \<leftarrow> binomial_least_loop h heap (map int [0..<nat (bp_roots_length heap)]) (-1);
        least_tree \<leftarrow> arr_get (bp_roots heap) least;
        roots \<leftarrow> arr_set (bp_roots heap) least NULL;
        let heap = heap\<lparr>bp_roots := roots\<rparr>;
        e \<leftarrow> deref h least_tree;
        (result, h, heap) \<leftarrow> binomial_heap_merge m ms h heap (bt_subtrees e) (uint (bt_order e));
        if result \<noteq> 0 then do {
          e \<leftarrow> deref h least_tree;
          h \<leftarrow> binomial_tree_unref h least_tree;
          n \<leftarrow> c_int (bp_num_values heap - 1);
          Some (Some (bt_value e), h, heap\<lparr>bp_num_values := n\<rparr>)
        }
        else do {
          roots \<leftarrow> arr_set (bp_roots heap) least least_tree;
          Some (None, h, heap\<lparr>bp_roots := roots\<rparr>)
        }
      })"

definition binomial_heap_num_entries :: "'v BinomialHeap \<Rightarrow> int" where
  "binomial_heap_num_entries heap = bp_num_values heap"

end
