(* ===== verification/Binomial_Counts.thy ===== *)
theory Binomial_Counts
  imports Binomial_Heap
begin

text \<open>
  Reference counts of the trees of \<open>binomial-heap.c\<close>. \<open>V a\<close> is the value and \<open>K a\<close> the subtrees of the
  tree at \<open>a\<close>, which never change. \<open>counted h S V K R\<close>: the trees \<open>S\<close> are in the heap, \<open>R\<close> is the
  multiset of references that are held outside of them, and the count of every tree is the number of
  references to it, which is not zero. So every operation that keeps \<open>counted\<close> neither leaks a tree
  nor frees one that is still in use.
\<close>

definition bcell :: "(addr \<Rightarrow> 'v) \<Rightarrow> (addr \<Rightarrow> addr list) \<Rightarrow> addr \<Rightarrow> u16 \<Rightarrow> 'v BinomialTree" where
  "bcell V K a r = \<lparr>bt_value = V a, bt_order = of_nat (length (K a)), bt_refcount = r, bt_subtrees = map (\<lambda>c. Some (Some c)) (K a)\<rparr>"

definition edges :: "addr set \<Rightarrow> (addr \<Rightarrow> addr list) \<Rightarrow> addr multiset" where
  "edges S K = (\<Sum>b\<in>S. mset (K b))"

abbreviation refs :: "addr multiset \<Rightarrow> addr set \<Rightarrow> (addr \<Rightarrow> addr list) \<Rightarrow> addr multiset" where
  "refs R S K \<equiv> R + edges S K"

definition graph :: "addr set \<Rightarrow> (addr \<Rightarrow> addr list) \<Rightarrow> bool" where
  "graph S K \<longleftrightarrow> finite S \<and> (\<forall>b \<in> S. set (K b) \<subseteq> S \<and> (\<forall>c \<in> set (K b). length (K c) < length (K b)) \<and> length (K b) < 2 ^ 16)"

definition counted :: "'v btheap \<Rightarrow> addr set \<Rightarrow> (addr \<Rightarrow> 'v) \<Rightarrow> (addr \<Rightarrow> addr list) \<Rightarrow> addr multiset \<Rightarrow> bool" where
  "counted h S V K R \<longleftrightarrow> graph S K \<and> set_mset R \<subseteq> S \<and>
     (\<forall>a \<in> S. 0 < count (refs R S K) a \<and> count (refs R S K) a < 2 ^ 16 \<and> h a = Some (bcell V K a (of_nat (count (refs R S K) a))))"

fun slots :: "ptr list \<Rightarrow> addr multiset" where
  "slots [] = {#}"
| "slots (None # ts) = slots ts"
| "slots (Some a # ts) = add_mset a (slots ts)"

lemma slots_append [simp]: "slots (xs @ ys) = slots xs + slots ys"
  by (induction xs rule: slots.induct) auto

lemma slots_map_Some [simp]: "slots (map Some xs) = mset xs"
  by (induction xs) auto

lemma slots_replicate_None [simp]: "slots (replicate n None) = {#}"
  by (induction n) auto

lemma in_slots: "a \<in># slots ts \<longleftrightarrow> Some a \<in> set ts"
  by (induction ts rule: slots.induct) auto

lemma those_map_Some [simp]: "those (map Some xs) = Some xs"
  by (induction xs) auto

lemma arr_read_all [simp]: "n = length xs \<Longrightarrow> arr_read (map Some xs) n = Some xs"
  by (simp add: arr_read_def)

lemma arr_read_prefix [simp]: "n = length xs \<Longrightarrow> arr_read (map Some xs @ ys) n = Some xs"
  by (simp add: arr_read_def)

lemma bcell_simps [simp]: "bt_value (bcell V K a r) = V a" "bt_order (bcell V K a r) = of_nat (length (K a))"
  "bt_refcount (bcell V K a r) = r" "bt_subtrees (bcell V K a r) = map (\<lambda>c. Some (Some c)) (K a)"
  "(bcell V K a r)\<lparr>bt_refcount := r'\<rparr> = bcell V K a r'"
  by (simp_all add: bcell_def)

lemma subtrees_read: "length (K a) < 2 ^ 16 \<Longrightarrow> arr_read (map (\<lambda>c. Some (Some c)) (K a)) (unat (of_nat (length (K a)) :: u16)) = Some (map Some (K a))"
  using arr_read_all[of "length (K a)" "map Some (K a)"] by (simp add: unsigned_of_nat take_bit_nat_eq_self comp_def)

section \<open>Edges\<close>

lemma edges_remove: "finite S \<Longrightarrow> a \<in> S \<Longrightarrow> edges S K = mset (K a) + edges (S - {a}) K"
  by (simp add: edges_def sum.remove)

lemma edges_insert: "finite S \<Longrightarrow> a \<notin> S \<Longrightarrow> edges (insert a S) K = mset (K a) + edges S K"
  by (simp add: edges_def)

lemma edges_mono: "finite S \<Longrightarrow> S' \<subseteq> S \<Longrightarrow> edges S' K \<subseteq># edges S K"
  by (metis Diff_partition Diff_disjoint edges_def finite_Diff finite_subset mset_subset_eq_add_left sum.union_disjoint)

lemma edges_cong: "(\<And>b. b \<in> S \<Longrightarrow> K b = K' b) \<Longrightarrow> edges S K = edges S K'"
  by (simp add: edges_def)

lemma in_edges: "finite S \<Longrightarrow> a \<in># edges S K \<longleftrightarrow> (\<exists>b \<in> S. a \<in> set (K b))"
  by (induction S rule: finite_induct) (auto simp: edges_def)

lemma graph_edges: "graph S K \<Longrightarrow> set_mset (edges S K) \<subseteq> S"
  using in_edges[of S] unfolding graph_def by blast

lemma graph_irrefl: "graph S K \<Longrightarrow> a \<in> S \<Longrightarrow> a \<notin> set (K a)"
  unfolding graph_def by blast

section \<open>Adding references\<close>

lemma ref_ok:
  assumes "counted h S V K R" "a \<in> S" "count (refs R S K) a < 2 ^ 16 - 1"
  shows "\<exists>h'. binomial_tree_ref h (Some a) = Some h' \<and> counted h' S V K (add_mset a R) \<and> (\<forall>x. x \<noteq> a \<longrightarrow> h' x = h x)"
proof -
  let ?h = "h(a \<mapsto> bcell V K a (of_nat (Suc (count (refs R S K) a))))"
  have "h a = Some (bcell V K a (of_nat (count (refs R S K) a)))" using assms(1,2) by (simp add: counted_def)
  then have "binomial_tree_ref h (Some a) = Some ?h" by (simp add: binomial_tree_ref_def add.commute)
  moreover have "counted ?h S V K (add_mset a R)" using assms unfolding counted_def by auto
  ultimately show ?thesis by auto
qed

lemma ref_all_ok:
  assumes "counted h S V K R" "set cs \<subseteq> S" "\<And>a. a \<in> S \<Longrightarrow> count (refs R S K) a + count (mset cs) a < 2 ^ 16"
  shows "\<exists>h'. binomial_ref_all h (map Some cs) = Some h' \<and> counted h' S V K (R + mset cs) \<and> (\<forall>x. x \<notin> S \<longrightarrow> h' x = h x)"
  using assms
proof (induction cs arbitrary: h R)
  case (Cons c cs)
  have c: "c \<in> S" "count (refs R S K) c < 2 ^ 16 - 1" using Cons.prems(2) Cons.prems(3)[of c] by auto
  obtain h1 where h1: "binomial_tree_ref h (Some c) = Some h1" "counted h1 S V K (add_mset c R)" "\<forall>x. x \<noteq> c \<longrightarrow> h1 x = h x"
    using ref_ok[OF Cons.prems(1) c] by blast
  have "count (refs (add_mset c R) S K) a + count (mset cs) a < 2 ^ 16" if "a \<in> S" for a
    using Cons.prems(3)[OF that] by (auto split: if_splits)
  then obtain h' where "binomial_ref_all h1 (map Some cs) = Some h'" "counted h' S V K (add_mset c R + mset cs)" "\<forall>x. x \<notin> S \<longrightarrow> h' x = h1 x"
    using Cons.IH[OF h1(2)] Cons.prems(2) by auto
  then show ?case using h1 c by auto
qed simp

section \<open>Giving references up\<close>

lemma unref_keep:
  assumes "counted h S V K R" "a \<in># R" "count (refs R S K) a \<noteq> 1"
  shows "counted (h(a \<mapsto> bcell V K a (of_nat (count (refs R S K) a) - 1))) S V K (R - {#a#})"
proof -
  have "count R a \<noteq> 0" using assms(2) by (simp add: count_eq_zero_iff)
  then have "2 \<le> count (refs R S K) a" using assms(3) unfolding count_union by arith
  then obtain n where "count (refs R S K) a = 2 + n" using le_Suc_ex by blast
  then have n: "count (refs R S K) a = Suc (Suc n)" by simp
  have c: "count (refs (R - {#a#}) S K) x = count (refs R S K) x - (if x = a then 1 else 0)" for x
    using assms(2) by (auto simp: count_greater_zero_iff[symmetric] simp del: count_greater_zero_iff)
  have "of_nat (count (refs R S K) a) - 1 = (of_nat (Suc n) :: u16)" using n by simp
  then show ?thesis using assms(1) n unfolding counted_def c by (auto dest: in_diffD)
qed

lemma unref_drop:
  assumes "counted h S V K R" "a \<in># R" "count (refs R S K) a = 1"
  shows "counted h (S - {a}) V K (R - {#a#} + mset (K a))"
proof -
  have g: "graph S K" "finite S" "set_mset R \<subseteq> S" using assms(1) by (auto simp: counted_def graph_def)
  have a: "a \<in> S" using assms(2) g(3) by blast
  have one: "count R a = 1" "count (edges S K) a = 0" using assms(2,3) by (auto simp: count_greater_zero_iff[symmetric] simp del: count_greater_zero_iff)
  have no: "a \<notin> set (K b)" if "b \<in> S" for b using one(2) in_edges[OF g(2), of a K] that by (auto simp: count_eq_zero_iff)
  have t: "refs (R - {#a#} + mset (K a)) (S - {a}) K = refs R S K - {#a#}"
    using assms(2) edges_remove[OF g(2) a, of K] by (simp add: ac_simps)
  have "graph (S - {a}) K" using g(1) no unfolding graph_def by fastforce
  moreover have "set_mset (R - {#a#} + mset (K a)) \<subseteq> S - {a}"
  proof -
    have "a \<notin># R - {#a#}" using one(1) by (simp add: not_in_iff)
    then show ?thesis using g no[OF a] a unfolding graph_def by (auto dest: in_diffD)
  qed
  ultimately show ?thesis using assms(1) unfolding counted_def t by auto
qed

lemma counted_frame: "counted h S V K R \<Longrightarrow> (\<And>a. a \<in> S \<Longrightarrow> h' a = h a) \<Longrightarrow> counted h' S V K R"
  by (simp add: counted_def)

lemma counted_cell: "counted h S V K R \<Longrightarrow> a \<in> S \<Longrightarrow> h a = Some (bcell V K a (of_nat (count (refs R S K) a)))"
  by (simp add: counted_def)

lemma refs_word: "n < 2 ^ 16 \<Longrightarrow> 0 < n \<Longrightarrow> (of_nat n :: u16) - 1 = 0 \<longleftrightarrow> n = 1"
proof -
  assume "n < 2 ^ 16" "0 < n"
  then have "unat (of_nat n :: u16) = n" by (simp add: unsigned_of_nat take_bit_nat_eq_self)
  then show ?thesis by (metis diff_add_cancel add_0 of_nat_1 unsigned_1 One_nat_def diff_self)
qed

definition unreffed :: "'v btheap \<Rightarrow> addr set \<Rightarrow> (addr \<Rightarrow> 'v) \<Rightarrow> (addr \<Rightarrow> addr list) \<Rightarrow> addr multiset \<Rightarrow> 'v btheap \<Rightarrow> bool" where
  "unreffed h S V K R' h' \<longleftrightarrow> (\<exists>S' \<subseteq> S. counted h' S' V K R' \<and> (\<forall>a \<in> S - S'. h' a = None) \<and> (\<forall>a. a \<notin> S \<longrightarrow> h' a = h a))"

lemma unreffed_trans: "unreffed h S V K R h1 \<Longrightarrow> (\<And>S1. S1 \<subseteq> S \<Longrightarrow> counted h1 S1 V K R \<Longrightarrow> unreffed h1 S1 V K R' h') \<Longrightarrow> unreffed h S V K R' h'"
  unfolding unreffed_def
proof (elim exE conjE)
  fix S1 assume s1: "S1 \<subseteq> S" "counted h1 S1 V K R" "\<forall>a \<in> S - S1. h1 a = None" "\<forall>a. a \<notin> S \<longrightarrow> h1 a = h a"
    and step: "\<And>S1. S1 \<subseteq> S \<Longrightarrow> counted h1 S1 V K R \<Longrightarrow> \<exists>S' \<subseteq> S1. counted h' S' V K R' \<and> (\<forall>a \<in> S1 - S'. h' a = None) \<and> (\<forall>a. a \<notin> S1 \<longrightarrow> h' a = h1 a)"
  from step[OF s1(1,2)] obtain S' where "S' \<subseteq> S1" "counted h' S' V K R'" "\<forall>a \<in> S1 - S'. h' a = None" "\<forall>a. a \<notin> S1 \<longrightarrow> h' a = h1 a" by blast
  then show "\<exists>S' \<subseteq> S. counted h' S' V K R' \<and> (\<forall>a \<in> S - S'. h' a = None) \<and> (\<forall>a. a \<notin> S \<longrightarrow> h' a = h a)"
    using s1 by (intro exI[of _ S']) (metis DiffD1 DiffD2 DiffI subset_iff)
qed

lemma unreffed_same: "counted h' S V K R' \<Longrightarrow> (\<And>a. a \<notin> S \<Longrightarrow> h' a = h a) \<Longrightarrow> unreffed h S V K R' h'"
  unfolding unreffed_def by (intro exI[of _ S]) auto

lemma unref_all_Some:
  assumes "h a = Some (bcell V K a r)" "length (K a) < 2 ^ 16"
  shows "binomial_unref_all h (Some a # ts) = do {
     h \<leftarrow> (if r - 1 = 0 then do { h \<leftarrow> binomial_unref_all (h(a \<mapsto> bcell V K a 0)) (map Some (K a)); c_free h (Some a) } else Some (h(a \<mapsto> bcell V K a (r - 1))));
     binomial_unref_all h ts }"
  using assms subtrees_read[of K a, OF assms(2)] by (subst binomial_unref_all.simps) (simp add: Let_def)

lemma unref_all_ok:
  assumes "counted h S V K R" "slots ts \<subseteq># R"
  shows "\<exists>h'. binomial_unref_all h ts = Some h' \<and> unreffed h S V K (R - slots ts) h'"
  using assms
proof (induction "size (refs R S K)" arbitrary: h S R ts rule: less_induct)
  case less
  note IH = less.hyps
  show ?case using less.prems(2)
  proof (induction ts rule: slots.induct)
    case 1
    show ?case using less.prems(1) by (subst binomial_unref_all.simps) (auto intro: unreffed_same)
  next
    case (2 ts)
    then show ?case by (subst binomial_unref_all.simps) simp
  next
    case (3 a ts)
    let ?c = "count (refs R S K) a" let ?R = "R - {#a#}"
    have a: "a \<in># R" "slots ts \<subseteq># ?R" "R - slots (Some a # ts) = ?R - slots ts"
      using 3(2) by (auto simp: insert_subset_eq_iff)
    have aS: "a \<in> S" using a(1) less.prems(1) by (auto simp: counted_def)
    have len: "length (K a) < 2 ^ 16" and fin: "finite S" using less.prems(1) aS by (auto simp: counted_def graph_def)
    have c: "0 < ?c" "?c < 2 ^ 16" using less.prems(1) aS unfolding counted_def by blast+
    note step = unref_all_Some[where h = h and a = a and K = K and V = V, OF counted_cell[OF less.prems(1) aS] len, of ts, unfolded refs_word[OF c(2,1)]]
    have sz: "size (refs ?R S' K + M) < size (refs R S K)" if "S' \<subseteq> S" "M + edges S' K \<subseteq># edges S K" for S' M
    proof -
      have "refs ?R S' K + M \<subseteq># ?R + edges S K" using that(2) by (simp add: ac_simps)
      moreover have "size (?R + edges S K) < size (refs R S K)" using size_Diff1_less[OF a(1)] by (simp only: size_union add_less_cancel_right)
      ultimately show ?thesis using size_mset_mono by (metis le_less_trans)
    qed
    show ?case
    proof (cases "?c = 1")
      case False
      let ?h = "h(a \<mapsto> bcell V K a (of_nat ?c - 1))"
      obtain h' where r: "binomial_unref_all ?h ts = Some h'" "unreffed ?h S V K (?R - slots ts) h'"
        using IH[OF _ unref_keep[OF less.prems(1) a(1) False] a(2)] sz[of S "{#}"] by auto
      have "unreffed h S V K (?R - slots ts) h'" using r(2) aS unfolding unreffed_def by auto
      then show ?thesis using step False r(1) unfolding a(3) by simp
    next
      case True
      let ?h = "h(a \<mapsto> bcell V K a 0)"
      have ct: "counted ?h (S - {a}) V K (?R + mset (K a))" by (rule counted_frame[OF unref_drop[OF less.prems(1) a(1) True]]) auto
      have "size (refs (?R + mset (K a)) (S - {a}) K) < size (refs R S K)"
        using sz[of "S - {a}" "mset (K a)"] edges_remove[OF fin aS, of K] by (simp add: ac_simps)
      then obtain h1 where h1: "binomial_unref_all ?h (map Some (K a)) = Some h1" "unreffed ?h (S - {a}) V K ?R h1"
        using IH[OF _ ct, of "map Some (K a)"] by auto
      then obtain S1 where S1: "S1 \<subseteq> S - {a}" "counted h1 S1 V K ?R" "\<forall>x \<in> S - {a} - S1. h1 x = None" "\<forall>x. x \<notin> S - {a} \<longrightarrow> h1 x = ?h x"
        unfolding unreffed_def by blast
      let ?h1 = "h1(a := None)"
      have ct1: "counted ?h1 S1 V K ?R" by (rule counted_frame[OF S1(2)]) (use S1(1) in auto)
      then have u1: "unreffed h S V K ?R ?h1" unfolding unreffed_def using S1 aS by (intro exI[of _ S1]) auto
      have next_: "\<exists>h'. binomial_unref_all ?h1 ts = Some h' \<and> unreffed ?h1 S' V K (?R - slots ts) h'"
        if "S' \<subseteq> S" "counted ?h1 S' V K ?R" for S'
        using IH[OF _ that(2) a(2)] sz[of S' "{#}"] edges_mono[OF fin that(1), of K] that(1) by simp
      obtain h' where h': "binomial_unref_all ?h1 ts = Some h'" using next_[OF _ ct1] S1(1) by auto
      have "unreffed h S V K (?R - slots ts) h'" by (rule unreffed_trans[OF u1]) (use next_ h' in auto)
      moreover have "h1 a = ?h a" using S1(4) by simp
      ultimately show ?thesis using step True h1(1) h' unfolding a(3) by simp
    qed
  qed
qed

end
