(* ===== verification/Binomial_Merge.thy ===== *)
theory Binomial_Merge
  imports Binomial_Counts
begin

text \<open>
  Merging in \<open>binomial-heap.c\<close>. A merge builds a second forest, of the new roots, over the same trees
  while the old one is still there. \<open>forest X K R\<close>: every tree of \<open>X\<close> is referred to exactly once, by
  a root in \<open>R\<close> or by its parent. At the end of a merge the references of the old forest are given
  up, and what is left is the new one; when memory runs out, the references of the new one are given
  up, and what is left is the old one.
\<close>

section \<open>Forests\<close>

definition forest :: "addr set \<Rightarrow> (addr \<Rightarrow> addr list) \<Rightarrow> addr multiset \<Rightarrow> bool" where
  "forest X K R \<longleftrightarrow> graph X K \<and> set_mset R \<subseteq> X \<and> (\<forall>a \<in> X. count (refs R X K) a = 1)"

definition covers :: "addr set \<Rightarrow> (addr \<Rightarrow> addr list) \<Rightarrow> addr multiset \<Rightarrow> bool" where
  "covers X K R \<longleftrightarrow> graph X K \<and> set_mset R \<subseteq> X \<and> (\<forall>a \<in> X. a \<in># R \<or> (\<exists>b \<in> X. a \<in> set (K b)))"

lemma refs_cover: "finite X \<Longrightarrow> 0 < count (refs R X K) a \<longleftrightarrow> a \<in># R \<or> (\<exists>b \<in> X. a \<in> set (K b))"
  using in_edges[of X a K] by (simp add: count_greater_zero_iff[symmetric] del: count_greater_zero_iff)

lemma counted_covers: "counted h S V K R \<Longrightarrow> covers S K R"
  using refs_cover[of S R K] unfolding counted_def covers_def graph_def by blast

lemma forest_covers: "forest X K R \<Longrightarrow> covers X K R"
  using refs_cover[of X R K] unfolding forest_def covers_def graph_def by (metis less_one)

lemma covers_subset:
  assumes "covers X K R" "covers Y K R"
  shows "X \<subseteq> Y"
proof
  fix a assume "a \<in> X"
  then show "a \<in> Y"
  proof (induction "2 ^ 16 - length (K a)" arbitrary: a rule: less_induct)
    case less
    show ?case
    proof (cases "a \<in># R")
      case True
      then show ?thesis using assms(2) by (auto simp: covers_def)
    next
      case False
      then obtain b where b: "b \<in> X" "a \<in> set (K b)" using less.prems assms(1) by (auto simp: covers_def)
      then have "length (K a) < length (K b)" "length (K b) < 2 ^ 16" using assms(1) by (auto simp: covers_def graph_def)
      then have "b \<in> Y" using less.hyps[OF _ b(1)] by simp
      then show ?thesis using b(2) assms(2) by (auto simp: covers_def graph_def)
    qed
  qed
qed

lemma covers_unique: "covers X K R \<Longrightarrow> covers Y K R \<Longrightarrow> X = Y"
  using covers_subset by blast

lemma forest_le1: "forest X K R \<Longrightarrow> count (refs R X K) a \<le> 1"
proof (cases "a \<in> X")
  case False
  assume "forest X K R"
  then have "a \<notin># R" "a \<notin># edges X K" using False graph_edges[of X K] by (auto simp: forest_def)
  then show ?thesis by (simp add: not_in_iff)
qed (simp add: forest_def)

lemma edges_union: "finite X \<Longrightarrow> finite Y \<Longrightarrow> edges (X \<union> Y) K \<subseteq># edges X K + edges Y K"
proof -
  assume f: "finite X" "finite Y"
  have "edges (X \<union> Y) K = edges X K + edges (Y - X) K"
    using sum.union_disjoint[of X "Y - X" "\<lambda>b. mset (K b)"] f by (simp add: edges_def)
  then show ?thesis using edges_mono[OF f(2), of "Y - X" K] by simp
qed

lemma two_forests_bound:
  assumes "forest X K R" "forest Y K R'"
  shows "count R a + count R' a + count (edges (X \<union> Y) K) a \<le> 2"
proof -
  have "count (edges (X \<union> Y) K) a \<le> count (edges X K) a + count (edges Y K) a"
    using edges_union[of X Y K] assms mset_subset_eq_count by (fastforce simp: forest_def graph_def)
  then show ?thesis using forest_le1[OF assms(1), of a] forest_le1[OF assms(2), of a] by simp
qed

text \<open>The order of the trees and of their values.\<close>

definition tree_order :: "('v \<Rightarrow> 'v \<Rightarrow> bool) \<Rightarrow> addr set \<Rightarrow> (addr \<Rightarrow> 'v) \<Rightarrow> (addr \<Rightarrow> addr list) \<Rightarrow> bool" where
  "tree_order le X V K \<longleftrightarrow> (\<forall>a \<in> X. \<forall>i < length (K a). length (K (K a ! i)) = i \<and> le (V a) (V (K a ! i)))"

text \<open>Two trees of the same order are linked: the new tree takes the place of the smaller one.\<close>

lemma forest_link:
  assumes "forest X K (R + {#x, y#})" "n \<notin> X" "length (K x) = length (K y)" "Suc (length (K x)) < 2 ^ 16"
  shows "forest (insert n (X - {x})) (K(n := K x @ [y])) (add_mset n R)"
proof -
  let ?K = "K(n := K x @ [y])" let ?X = "insert n (X - {x})" let ?R = "R + {#x, y#}"
  have X: "graph X K" "finite X" "x \<in> X" "y \<in> X" using assms(1) by (auto simp: forest_def graph_def)
  have one: "count (refs ?R X K) a = 1" if "a \<in> X" for a using assms(1) that by (simp add: forest_def)
  have "x \<noteq> y" and R: "x \<notin># R" "x \<notin># edges X K" using one[OF X(3)] by (auto simp: not_in_iff split: if_splits)
  then have no: "x \<notin> set (K b)" if "b \<in> X" for b using in_edges[OF X(2), of x K] that by blast
  have nin: "n \<notin> set (K b)" if "b \<in> X" for b using X(1) assms(2) that by (auto simp: graph_def)
  have "edges (X - {x}) ?K = edges (X - {x}) K" by (rule edges_cong) (use assms(2) in auto)
  then have "edges ?X ?K = mset (K x @ [y]) + edges (X - {x}) K"
    using edges_insert[of "X - {x}" n ?K] X(2) assms(2) by simp
  then have e: "edges ?X ?K = add_mset y (edges X K)" using edges_remove[OF X(2,3), of K] by simp
  have "graph ?X ?K" unfolding graph_def
  proof (intro conjI ballI)
    fix b assume b: "b \<in> ?X"
    have kid: "c \<in> X \<and> c \<noteq> x" if "c \<in> set (?K b)" for c
      using that b X no \<open>x \<noteq> y\<close> assms(2) by (auto simp: graph_def split: if_splits)
    then show "set (?K b) \<subseteq> ?X" by blast
    show "length (?K b) < 2 ^ 16" using b X(1) assms(4) by (auto simp: graph_def)
    fix c assume c: "c \<in> set (?K b)"
    show "length (?K c) < length (?K b)"
      using c kid[OF c] b X assms(2,3) by (auto simp: graph_def less_Suc_eq split: if_splits)
  qed (simp add: X)
  moreover have "set_mset (add_mset n R) \<subseteq> ?X" using assms(1) R(1) by (auto simp: forest_def)
  moreover have "count (refs (add_mset n R) ?X ?K) a = 1" if a: "a \<in> ?X" for a
  proof (cases "a = n")
    case True
    have "n \<notin># edges X K" "n \<notin># R" "n \<noteq> y" using in_edges[OF X(2), of n K] nin assms(1,2) X(4) by (auto simp: forest_def)
    then show ?thesis using True unfolding e by (simp add: not_in_iff)
  next
    case False
    then show ?thesis using one[of a] a unfolding e by auto
  qed
  ultimately show ?thesis unfolding forest_def by blast
qed

lemma tree_order_link:
  assumes "tree_order le X V K" "graph X K" "n \<notin> X" "x \<in> X" "y \<in> X" "length (K x) = length (K y)" "le (V x) (V y)"
  shows "tree_order le (insert n (X - {x})) (V(n := V x)) (K(n := K x @ [y]))"
  unfolding tree_order_def
proof (intro ballI allI impI)
  let ?K = "K(n := K x @ [y])" let ?V = "V(n := V x)"
  fix a i assume a: "a \<in> insert n (X - {x})" and i: "i < length (?K a)"
  have kid: "K b ! j \<noteq> n \<and> length (K (K b ! j)) = j \<and> le (V b) (V (K b ! j))" if "b \<in> X" "j < length (K b)" for b j
  proof -
    have "K b ! j \<in> X" using assms(2) that nth_mem[OF that(2)] unfolding graph_def by blast
    then show ?thesis using assms(1,3) that unfolding tree_order_def by blast
  qed
  show "length (?K (?K a ! i)) = i \<and> le (?V a) (?V (?K a ! i))"
  proof (cases "a = n")
    case True
    then show ?thesis using i kid[OF assms(4), of i] assms(3,5,6,7) by (cases "i = length (K x)") (auto simp: nth_append)
  next
    case False
    then show ?thesis using a i kid[of a i] by auto
  qed
qed

lemma values_link:
  assumes "finite X" "n \<notin> X" "x \<in> X"
  shows "image_mset (V(n := V x)) (mset_set (insert n (X - {x}))) = image_mset V (mset_set X)"
proof -
  have "image_mset (V(n := V x)) (mset_set (X - {x})) = image_mset V (mset_set (X - {x}))"
    by (rule image_mset_cong) (use assms in auto)
  moreover have "mset_set X = add_mset x (mset_set (X - {x}))" using assms mset_set.remove by metis
  ultimately show ?thesis using assms by simp
qed

lemma forest_other: "forest X K R \<Longrightarrow> n \<notin> X \<Longrightarrow> forest X (K(n := cs)) R"
proof -
  assume f: "forest X K R" "n \<notin> X"
  have "edges X (K(n := cs)) = edges X K" by (rule edges_cong) (use f(2) in auto)
  moreover have "graph X (K(n := cs))" using f unfolding forest_def graph_def by (auto split: if_splits)
  ultimately show ?thesis using f(1) by (simp add: forest_def)
qed

section \<open>A new tree\<close>

definition bp_order :: "'v BinomialHeap \<Rightarrow> 'v cmp_func" where
  "bp_order heap = (if bp_heap_type heap = BINOMIAL_HEAP_TYPE_MIN then bp_compare_func heap
                    else (\<lambda>x y. - bp_compare_func heap x y))"

lemma bp_order_comparator: "bounded_comparator (bp_compare_func heap) \<Longrightarrow> comparator (bp_order heap)"
  using bounded_comparator.neg_bounded by (auto simp: bp_order_def bounded_comparator_def)

lemma binomial_heap_cmp_ok: "bounded_comparator (bp_compare_func heap) \<Longrightarrow> binomial_heap_cmp heap x y = Some (bp_order heap x y)"
  by (auto simp: binomial_heap_cmp_def bp_order_def bounded_comparator.c_int_neg_cmp)

text \<open>The array of subtrees of the new tree.\<close>

lemma new_subtrees:
  assumes "Suc (length cs) < 2 ^ 16"
  shows "mem_read (map (\<lambda>c. Some (Some c)) cs) 0 (unat (of_nat (length cs) :: u16)) = Some (map (\<lambda>c. Some (Some c)) cs)"
    "mem_write (replicate (unat (of_nat (length cs) + 1 :: u16)) None) 0 (map (\<lambda>c. Some (Some c)) cs) = Some (map (\<lambda>c. Some (Some c)) cs @ [None])"
    "arr_set (map (\<lambda>c. Some (Some c)) cs @ [None]) (uint (of_nat (length cs) + 1 :: u16) - 1) (Some y) = Some (map (\<lambda>c. Some (Some c)) (cs @ [y]))"
    "arr_read (map (\<lambda>c. Some (Some c)) (cs @ [y])) (unat (of_nat (length cs) + 1 :: u16)) = Some (map Some (cs @ [y]))"
proof -
  have u: "unat (of_nat (length cs) :: u16) = length cs" using assms by (simp add: unsigned_of_nat take_bit_nat_eq_self)
  have "unat (of_nat (Suc (length cs)) :: u16) = Suc (length cs)" using assms by (simp del: of_nat_Suc add: unsigned_of_nat take_bit_nat_eq_self)
  then have u1: "unat (of_nat (length cs) + 1 :: u16) = Suc (length cs)" by (simp add: add.commute)
  then have i: "uint (of_nat (length cs) + 1 :: u16) = int (length cs) + 1" by (simp add: uint_nat)
  show "mem_read (map (\<lambda>c. Some (Some c)) cs) 0 (unat (of_nat (length cs) :: u16)) = Some (map (\<lambda>c. Some (Some c)) cs)" using u by simp
  show "mem_write (replicate (unat (of_nat (length cs) + 1 :: u16)) None) 0 (map (\<lambda>c. Some (Some c)) cs) = Some (map (\<lambda>c. Some (Some c)) cs @ [None])"
    unfolding u1 by (simp add: replicate_append_same[symmetric])
  show "arr_set (map (\<lambda>c. Some (Some c)) cs @ [None]) (uint (of_nat (length cs) + 1 :: u16) - 1) (Some y) = Some (map (\<lambda>c. Some (Some c)) (cs @ [y]))"
    unfolding i by (simp add: list_update_append)
  show "arr_read (map (\<lambda>c. Some (Some c)) (cs @ [y])) (unat (of_nat (length cs) + 1 :: u16)) = Some (map Some (cs @ [y]))"
    unfolding u1 using arr_read_all[of "Suc (length cs)" "map Some (cs @ [y])"] by (simp add: comp_def)
qed

text \<open>The two trees, the smaller one first.\<close>

definition in_order :: "'v BinomialHeap \<Rightarrow> (addr \<Rightarrow> 'v) \<Rightarrow> addr \<Rightarrow> addr \<Rightarrow> addr \<times> addr" where
  "in_order heap V a b = (if bp_order heap (V a) (V b) > 0 then (b, a) else (a, b))"

lemma counted_new:
  assumes "counted h S V K R" "n \<notin> S"
  shows "counted (h(n \<mapsto> e)) S (V(n := v)) (K(n := cs)) R"
proof -
  have e: "edges S (K(n := cs)) = edges S K" by (rule edges_cong) (use assms(2) in auto)
  have "graph S (K(n := cs))" using assms unfolding counted_def graph_def by (auto split: if_splits)
  then show ?thesis using assms unfolding counted_def e by (auto simp: bcell_def)
qed

lemma tree_merge_ok:
  assumes "counted h S V K R" "bounded_comparator (bp_compare_func heap)" "a \<in> S" "b \<in> S" "n \<notin> S" "in_order heap V a b = (x, y)"
    "Suc (length (K x)) < 2 ^ 16" "\<And>c. count (refs R S K) c + count (mset (K x @ [y])) c < 2 ^ 16"
  shows "\<exists>h'. binomial_tree_merge ((Some n, True) # ms) h heap (Some a) (Some b) = Some (Some n, ms, h') \<and>
           counted h' S (V(n := V x)) (K(n := K x @ [y])) (R + mset (K x @ [y])) \<and>
           h' n = Some (bcell (V(n := V x)) (K(n := K x @ [y])) n 0) \<and> (\<forall>c. c \<notin> insert n S \<longrightarrow> h' c = h c)"
proof -
  let ?V = "V(n := V x)" let ?K = "K(n := K x @ [y])"
  have xy: "x \<in> S" "y \<in> S" "{x, y} = {a, b}" using assms(3,4,6) by (auto simp: in_order_def split: if_splits)
  let ?e = "\<lparr>bt_value = V x, bt_order = of_nat (length (K x)) + 1, bt_refcount = 0, bt_subtrees = map (\<lambda>c. Some (Some c)) (K x @ [y])\<rparr>"
  have c1: "counted (h(n \<mapsto> ?e)) S ?V ?K R" by (rule counted_new[OF assms(1,5)])
  have e: "edges S ?K = edges S K" by (rule edges_cong) (use assms(5) in auto)
  have sub: "set (K x @ [y]) \<subseteq> S" using assms(1) xy unfolding counted_def graph_def by auto
  obtain h' where h': "binomial_ref_all (h(n \<mapsto> ?e)) (map Some (K x @ [y])) = Some h'" "counted h' S ?V ?K (R + mset (K x @ [y]))"
      "\<forall>c. c \<notin> S \<longrightarrow> h' c = (h(n \<mapsto> ?e)) c"
    using ref_all_ok[OF c1 sub] assms(8) unfolding e by blast
  have "binomial_tree_merge ((Some n, True) # ms) h heap (Some a) (Some b) = Some (Some n, ms, h')"
    using assms(6) counted_cell[OF assms(1,3)] counted_cell[OF assms(1,4)] new_subtrees[OF assms(7)] h'(1)
    by (auto simp: binomial_tree_merge_def binomial_heap_cmp_ok[OF assms(2)] in_order_def Let_def split: if_splits)
  moreover have "h' n = Some (bcell ?V ?K n 0)" using h'(3) assms(5) by (simp add: bcell_def)
  ultimately show ?thesis using h' by auto
qed

lemma tree_merge_fails:
  assumes "counted h S V K R" "bounded_comparator (bp_compare_func heap)" "a \<in> S" "b \<in> S" "\<And>n ms'. ms \<noteq> (Some n, True) # ms'"
  shows "binomial_tree_merge ms h heap (Some a) (Some b) = Some (NULL, tl ms, h)"
proof -
  have "(case ms of (Some n, True) # ms' \<Rightarrow> f n ms' | _ \<Rightarrow> z) = z" for f and z :: "(ptr \<times> (ptr \<times> bool) list \<times> 'a btheap) option"
    using assms(5) by (auto split: list.splits prod.splits option.splits bool.splits)
  then show ?thesis using counted_cell[OF assms(1,3)] counted_cell[OF assms(1,4)]
    by (auto simp: binomial_tree_merge_def binomial_heap_cmp_ok[OF assms(2)] Let_def split: if_splits)
qed

text \<open>The first reference to the new tree.\<close>

lemma adopt_ok:
  assumes "counted h S V K (R + mset (K n))" "n \<notin> S" "h n = Some (bcell V K n 0)" "length (K n) < 2 ^ 16"
    "\<And>c. c \<in> set (K n) \<Longrightarrow> length (K c) < length (K n)"
  shows "\<exists>h'. binomial_tree_ref h (Some n) = Some h' \<and> counted h' (insert n S) V K (add_mset n R) \<and> (\<forall>x. x \<noteq> n \<longrightarrow> h' x = h x)"
proof -
  let ?h = "h(n \<mapsto> bcell V K n 1)"
  have g: "graph S K" "finite S" "set_mset R \<subseteq> S" "set (K n) \<subseteq> S" using assms(1) by (auto simp: counted_def graph_def)
  have e: "refs (add_mset n R) (insert n S) K = add_mset n (refs (R + mset (K n)) S K)"
    using edges_insert[OF g(2) assms(2), of K] by simp
  have n0: "count (refs (R + mset (K n)) S K) n = 0" using g assms(2) graph_edges[OF g(1)] by (auto simp: count_eq_zero_iff)
  have n1: "count R n = 0" "count (mset (K n)) n = 0" "count (edges S K) n = 0" using n0 by (simp_all only: count_union add_is_0)
  have "graph (insert n S) K" using g assms(4,5) unfolding graph_def by auto
  moreover have "0 < count (refs (add_mset n R) (insert n S) K) a \<and> count (refs (add_mset n R) (insert n S) K) a < 2 ^ 16 \<and>
      ?h a = Some (bcell V K a (of_nat (count (refs (add_mset n R) (insert n S) K) a)))" if "a \<in> insert n S" for a
    using that n1 assms(1,2) unfolding e counted_def by (auto simp del: count_eq_zero_iff count_mset_0_iff)
  ultimately have "counted ?h (insert n S) V K (add_mset n R)" using g(3) unfolding counted_def by auto
  moreover have "binomial_tree_ref h (Some n) = Some ?h" using assms(3) by (simp add: binomial_tree_ref_def)
  ultimately show ?thesis by auto
qed

end
