(* ===== verification/Binomial_Loop.thy ===== *)
theory Binomial_Loop
  imports Binomial_Merge
begin

text \<open>
  The loop of \<open>binomial_heap_merge\<close>. What does not change during a merge is collected in a record: the
  heap and the trees before it, the unused addresses \<open>A\<close> that malloc may return, the references \<open>RO\<close> of the old forest and the values of the trees
  that are merged.
\<close>

record 'v merging =
  mg_le :: "'v \<Rightarrow> 'v \<Rightarrow> bool"
  mg_h :: "'v btheap"
  mg_V :: "addr \<Rightarrow> 'v"
  mg_K :: "addr \<Rightarrow> addr list"
  mg_X :: "addr set"
  mg_R :: "addr multiset"
  mg_vals :: "'v multiset"
  mg_A :: "addr set"

text \<open>
  A state of the merge: \<open>T\<close> are the references that were added, \<open>XG\<close> with the roots \<open>G\<close> is the forest
  that the merge produces.
\<close>

definition stage :: "'v merging \<Rightarrow> 'v btheap \<Rightarrow> (addr \<Rightarrow> 'v) \<Rightarrow> (addr \<Rightarrow> addr list) \<Rightarrow> addr set \<Rightarrow> addr multiset \<Rightarrow> addr multiset \<Rightarrow> bool" where
  "stage M h V K XG T G \<longleftrightarrow> counted h (mg_X M \<union> XG) V K (mg_R M + T) \<and> forest (mg_X M) K (mg_R M) \<and> forest XG K G \<and>
     tree_order (mg_le M) XG V K \<and> image_mset V (mset_set XG) = mg_vals M \<and> (\<forall>a \<in> mg_X M. V a = mg_V M a \<and> K a = mg_K M a) \<and>
     (\<forall>a. a \<notin> mg_X M \<union> XG \<longrightarrow> h a = mg_h M a) \<and> XG - mg_X M \<subseteq> mg_A M \<and> (\<forall>a \<in> mg_A M. mg_h M a = None)"

lemma unref_covers:
  assumes "counted h S V K (R + slots ts)" "covers X K R"
  shows "\<exists>h'. binomial_unref_all h ts = Some h' \<and> counted h' X V K R \<and> X \<subseteq> S \<and> (\<forall>a \<in> S - X. h' a = None) \<and> (\<forall>a. a \<notin> S \<longrightarrow> h' a = h a)"
proof -
  obtain h' S' where r: "binomial_unref_all h ts = Some h'" "S' \<subseteq> S" "counted h' S' V K R" "\<forall>a \<in> S - S'. h' a = None" "\<forall>a. a \<notin> S \<longrightarrow> h' a = h a"
    using unref_all_ok[OF assms(1), of ts] unfolding unreffed_def by auto
  have "S' = X" by (rule covers_unique[OF counted_covers[OF r(3)] assms(2)])
  then show ?thesis using r by auto
qed

lemma stage_ref:
  assumes "stage M h V K XG T G" "a \<in> XG" "T \<subseteq># G + E" "size E \<le> 3"
  shows "\<exists>h'. binomial_tree_ref h (Some a) = Some h' \<and> stage M h' V K XG (add_mset a T) G"
proof -
  have c: "counted h (mg_X M \<union> XG) V K (mg_R M + T)" "forest (mg_X M) K (mg_R M)" "forest XG K G" using assms(1) by (auto simp: stage_def)
  have "count T a \<le> count G a + count E a" using assms(3) mset_subset_eq_count[of T "G + E" a] by simp
  moreover have "count E a \<le> 3" using assms(4) count_le_size[of E a] by linarith
  ultimately have "count (refs (mg_R M + T) (mg_X M \<union> XG) K) a < 2 ^ 16 - 1" using two_forests_bound[OF c(2,3), of a] by simp
  then obtain h' where h': "binomial_tree_ref h (Some a) = Some h'" "counted h' (mg_X M \<union> XG) V K (mg_R M + add_mset a T)" "\<forall>x. x \<noteq> a \<longrightarrow> h' x = h x"
    using ref_ok[OF c(1), of a] assms(2) by auto
  have "h' x = h x" if "x \<notin> mg_X M \<union> XG" for x using h'(3)[rule_format, of x] that assms(2) by auto
  then show ?thesis using assms(1) h' unfolding stage_def by auto
qed

lemma stage_covers:
  assumes "stage M h V K XG T G" "set_mset G \<subseteq> set_mset T' \<union> mg_X M" "set_mset T' \<subseteq> mg_X M \<union> XG"
  shows "covers (mg_X M \<union> XG) K (mg_R M + T')"
proof -
  have c: "covers (mg_X M) K (mg_R M)" "covers XG K G" "graph (mg_X M \<union> XG) K"
    using assms(1) forest_covers by (auto simp: stage_def counted_def)
  have "a \<in># mg_R M + T' \<or> (\<exists>b \<in> mg_X M \<union> XG. a \<in> set (K b))" if "a \<in> mg_X M \<union> XG" for a
    using that c assms(2) unfolding covers_def by (metis UnCI UnE subsetD union_iff)
  then show ?thesis using c assms(3) unfolding covers_def by auto
qed

text \<open>References that neither forest needs are given up.\<close>

lemma stage_unref:
  assumes "stage M h V K XG (T + slots ts) G" "set_mset G \<subseteq> set_mset T \<union> mg_X M"
  shows "\<exists>h'. binomial_unref_all h ts = Some h' \<and> stage M h' V K XG T G"
proof -
  have c: "counted h (mg_X M \<union> XG) V K ((mg_R M + T) + slots ts)" using assms(1) by (simp add: stage_def ac_simps)
  then have "set_mset T \<subseteq> mg_X M \<union> XG" by (auto simp: counted_def)
  from unref_covers[OF c stage_covers[OF assms this]] show ?thesis using assms(1) unfolding stage_def by auto
qed

text \<open>The undo: all references that were added are given up.\<close>

lemma stage_undo:
  assumes "stage M h V K XG (slots ts) G" "counted (mg_h M) (mg_X M) (mg_V M) (mg_K M) (mg_R M)"
  shows "binomial_unref_all h ts = Some (mg_h M)"
proof -
  have s: "counted h (mg_X M \<union> XG) V K (mg_R M + slots ts)" "forest (mg_X M) K (mg_R M)" "\<And>a. a \<in> mg_X M \<Longrightarrow> V a = mg_V M a \<and> K a = mg_K M a"
      "\<And>a. a \<notin> mg_X M \<union> XG \<Longrightarrow> h a = mg_h M a" "\<And>a. a \<in> XG - mg_X M \<Longrightarrow> mg_h M a = None" using assms(1) by (auto simp: stage_def)
  obtain h' where h': "binomial_unref_all h ts = Some h'" "counted h' (mg_X M) V K (mg_R M)" "\<forall>a \<in> (mg_X M \<union> XG) - mg_X M. h' a = None"
      "\<forall>a. a \<notin> mg_X M \<union> XG \<longrightarrow> h' a = h a" using unref_covers[OF s(1) forest_covers[OF s(2)]] by blast
  have e: "edges (mg_X M) K = edges (mg_X M) (mg_K M)" by (rule edges_cong) (use s(3) in auto)
  have "h' a = mg_h M a" for a
  proof (cases "a \<in> mg_X M")
    case True
    then show ?thesis using counted_cell[OF h'(2) True] counted_cell[OF assms(2) True] s(3)[OF True] e by (simp add: bcell_def)
  next
    case False
    then show ?thesis using h'(3,4) s(4,5) by (cases "a \<in> XG") auto
  qed
  then show ?thesis using h'(1) by (simp add: fun_eq_iff)
qed

text \<open>Two roots of the new forest are linked, and the old carry is given up.\<close>

lemma link_covers:
  assumes "stage M h V K XG T (N + {#x, y#} + P)" "set_mset P \<subseteq> mg_X M" "set_mset N \<subseteq> set_mset T"
  shows "covers (mg_X M \<union> (XG - {x})) K (mg_R M + N + mset (K x @ [y]))"
proof -
  have f: "forest (mg_X M) K (mg_R M)" "forest XG K (N + P + {#x, y#})" using assms(1) by (auto simp: stage_def ac_simps)
  have g: "graph XG K" "graph (mg_X M) K" "x \<in> XG" "y \<in> XG" "finite XG" "set_mset N \<subseteq> XG" using f by (auto simp: forest_def graph_def)
  have one: "count (refs (N + P + {#x, y#}) XG K) x = 1" using f(2) g(3) unfolding forest_def by blast
  then have x: "x \<noteq> y" "x \<notin># N" "x \<notin># edges XG K" by (auto simp: not_in_iff split: if_splits)
  have no: "x \<notin> set (K b)" if "b \<in> XG" for b using in_edges[OF g(5), of x K] that x(3) by blast
  have "graph (XG - {x}) K" using g(1) no unfolding graph_def by auto
  then have "graph (mg_X M \<union> (XG - {x})) K" using g(2) unfolding graph_def by blast
  moreover have "set_mset (mg_R M + N + mset (K x @ [y])) \<subseteq> mg_X M \<union> (XG - {x})"
    using f(1) g x no[OF g(3)] unfolding forest_def graph_def by auto
  moreover have "a \<in># mg_R M + N + mset (K x @ [y]) \<or> (\<exists>b \<in> mg_X M \<union> (XG - {x}). a \<in> set (K b))" if "a \<in> mg_X M \<union> (XG - {x})" for a
  proof (cases "a \<in> mg_X M")
    case True
    then show ?thesis using forest_covers[OF f(1)] unfolding covers_def by auto
  next
    case False
    then have a: "a \<in> XG" "a \<noteq> x" "a \<notin># P" using that assms(2) by auto
    then have "a \<in># N \<or> a = y \<or> (\<exists>b \<in> XG. a \<in> set (K b))" using forest_covers[OF f(2)] unfolding covers_def by auto
    then show ?thesis using a by auto
  qed
  ultimately show ?thesis unfolding covers_def by blast
qed

lemma in_order_cases:
  assumes "in_order heap V a b = (x, y)" "comparator (bp_order heap)"
  shows "{#x, y#} = {#a, b#}" "bp_order heap (V x) (V y) \<le> 0"
  using assms(1) comparator.cmp_swap[OF assms(2), of "V b" "V a"] by (auto simp: in_order_def not_less split: if_splits)

lemma link_bound:
  assumes "stage M h V K XG (N + slots [carry]) (N + {#x, y#} + P)" "x \<in> XG"
  shows "count (refs (mg_R M + (N + slots [carry])) (mg_X M \<union> XG) K) c + count (mset (K x @ [y])) c < 2 ^ 16"
proof -
  have f: "forest (mg_X M) K (mg_R M)" "forest XG K (N + {#x, y#} + P)" using assms(1) by (auto simp: stage_def)
  have "count (slots [carry]) c \<le> 1" by (cases carry) auto
  moreover have "count (mset (K x)) c \<le> count (edges XG K) c"
    using edges_remove[of XG x K] assms(2) f(2) by (simp add: forest_def graph_def)
  moreover have "count (edges XG K) c \<le> 1" using forest_le1[OF f(2), of c] unfolding count_union by arith
  moreover have "count (mset [y]) c \<le> 1" by simp
  ultimately have "count (refs (mg_R M + (N + slots [carry])) (mg_X M \<union> XG) K) c + count (mset (K x @ [y])) c \<le> 5"
    using two_forests_bound[OF f, of c] unfolding count_union mset_append by linarith
  then show ?thesis by (rule le_less_trans) simp
qed

lemma stage_link:
  assumes "stage M h V K XG (N + slots [carry]) (N + {#a, b#} + P)" "set_mset P \<subseteq> mg_X M" "bounded_comparator (bp_compare_func heap)"
    "mg_le M = (\<lambda>u v. bp_order heap u v \<le> 0)" "length (K a) = length (K b)" "Suc (length (K a)) < 2 ^ 16" "n \<notin> mg_X M \<union> XG" "n \<in> mg_A M"
  shows "\<exists>h1 h2 h3 V' K' XG'. binomial_tree_merge ((Some n, True) # ms) h heap (Some a) (Some b) = Some (Some n, ms, h1) \<and>
     binomial_tree_unref h1 carry = Some h2 \<and> binomial_tree_ref h2 (Some n) = Some h3 \<and>
     stage M h3 V' K' XG' (add_mset n N) (add_mset n N + P) \<and> length (K' n) = Suc (length (K a)) \<and> XG' \<subseteq> insert n XG \<and>
     (\<forall>c. c \<noteq> n \<longrightarrow> K' c = K c)"
proof -
  obtain x y where xy: "in_order heap V a b = (x, y)" by fastforce
  note io = in_order_cases[OF xy bp_order_comparator[OF assms(3)]]
  have st: "stage M h V K XG (N + slots [carry]) (N + {#x, y#} + P)" using assms(1) unfolding io(1) .
  have len: "length (K x) = length (K a)" "length (K x) = length (K y)" using xy assms(5) by (auto simp: in_order_def split: if_splits)
  have f: "forest (mg_X M) K (mg_R M)" "forest XG K (N + {#x, y#} + P)" "counted h (mg_X M \<union> XG) V K (mg_R M + (N + slots [carry]))"
    using st by (auto simp: stage_def)
  have g: "graph XG K" "finite XG" "x \<in> XG" "y \<in> XG" "a \<in> mg_X M \<union> XG" "b \<in> mg_X M \<union> XG"
    using f(2) assms(1) unfolding stage_def forest_def graph_def by auto
  let ?V = "V(n := V x)" let ?K = "K(n := K x @ [y])" let ?X = "insert n (XG - {x})" let ?S = "mg_X M \<union> (XG - {x})"
  have n: "n \<notin> XG" "n \<notin> mg_X M" "n \<notin> ?S" using assms(7) by auto
  obtain h1 where h1: "binomial_tree_merge ((Some n, True) # ms) h heap (Some a) (Some b) = Some (Some n, ms, h1)"
      "counted h1 (mg_X M \<union> XG) ?V ?K (mg_R M + (N + slots [carry]) + mset (K x @ [y]))" "h1 n = Some (bcell ?V ?K n 0)"
      "\<forall>c. c \<notin> insert n (mg_X M \<union> XG) \<longrightarrow> h1 c = h c"
    using tree_merge_ok[OF f(3) assms(3) g(5,6) assms(7) xy _ link_bound[OF st g(3)]] len assms(6) by auto
  have "covers ?S K (mg_R M + N + mset (K x @ [y]))" by (rule link_covers[OF st assms(2)]) auto
  then have cov: "covers ?S ?K (mg_R M + N + mset (K x @ [y]))" using n(3) unfolding covers_def graph_def by (auto simp: fun_upd_def split: if_splits)
  have c1: "counted h1 (mg_X M \<union> XG) ?V ?K ((mg_R M + N + mset (K x @ [y])) + slots [carry])" using h1(2) by (simp add: ac_simps)
  obtain h2 where h2: "binomial_tree_unref h1 carry = Some h2" "counted h2 ?S ?V ?K (mg_R M + N + mset (K x @ [y]))"
      "\<forall>c \<in> (mg_X M \<union> XG) - ?S. h2 c = None" "\<forall>c. c \<notin> mg_X M \<union> XG \<longrightarrow> h2 c = h1 c"
    using unref_covers[OF c1 cov] unfolding binomial_tree_unref_def by blast
  have kids: "length (?K c) < length (?K n)" if "c \<in> set (?K n)" for c
    using that g n len by (auto simp: graph_def less_Suc_eq)
  obtain h3 where h3: "binomial_tree_ref h2 (Some n) = Some h3" "counted h3 (insert n ?S) ?V ?K (add_mset n (mg_R M + N))" "\<forall>c. c \<noteq> n \<longrightarrow> h3 c = h2 c"
    using adopt_ok[of h2 ?S ?V ?K "mg_R M + N" n] h2(2,4) h1(3) n(3) assms(6,7) len kids by auto
  have S: "mg_X M \<union> ?X = insert n ?S" by auto
  have fX: "forest ?X ?K (add_mset n N + P)"
    using forest_link[of XG K "N + P" x y n] f(2) n(1) len assms(6) by (simp add: ac_simps)
  have ord: "tree_order (mg_le M) ?X ?V ?K"
    by (rule tree_order_link[OF _ g(1) n(1) g(3,4) len(2)]) (use st io(2) assms(4) in \<open>simp_all add: stage_def\<close>)
  have fr: "h3 c = mg_h M c" if "c \<notin> mg_X M \<union> ?X" for c
  proof -
    have c: "c \<noteq> n" "c \<notin> mg_X M" "c \<in> XG \<longrightarrow> c = x" using that by auto
    show ?thesis
    proof (cases "c \<in> XG")
      case True
      then show ?thesis using c h2(3) h3(3) st by (auto simp: stage_def)
    next
      case False
      then show ?thesis using c h2(4) h3(3) h1(4) st by (auto simp: stage_def)
    qed
  qed
  have "stage M h3 ?V ?K ?X (add_mset n N) (add_mset n N + P)"
    unfolding stage_def S using h3(2) forest_other[OF f(1) n(2)] fX ord values_link[OF g(2) n(1) g(3), of V] st fr S n(2) assms(8)
    by (auto simp: stage_def)
  then show ?thesis using h1(1) h2(1) h3(1) len(1) by (intro exI[of _ h1] exI[of _ h2] exI[of _ h3] exI[of _ ?V] exI[of _ ?K] exI[of _ ?X]) auto
qed

end
