(* ===== verification/Binomial_Adder.thy ===== *)
theory Binomial_Adder
  imports Binomial_Loop
begin

text \<open>
  The loop of \<open>binomial_heap_merge\<close> as a ripple-carry adder: in iteration \<open>i\<close> at most three trees of order
  \<open>i\<close> meet; one of them becomes a root or two are linked to the carry of the next iteration.
\<close>

section \<open>The trees of an iteration\<close>

definition root_at :: "ptr list \<Rightarrow> nat \<Rightarrow> ptr" where
  "root_at rs i = (if i < length rs then rs ! i else NULL)"

definition ranks :: "(addr \<Rightarrow> addr list) \<Rightarrow> ptr list \<Rightarrow> bool" where
  "ranks K rs \<longleftrightarrow> (\<forall>i < length rs. \<forall>a. rs ! i = Some a \<longrightarrow> length (K a) = i)"

definition rest :: "ptr list \<Rightarrow> ptr list \<Rightarrow> nat \<Rightarrow> addr multiset" where
  "rest rs os i = slots (drop i rs) + slots (drop i os)"

definition meeting :: "ptr list \<Rightarrow> addr list" where
  "meeting ps = map the (filter (\<lambda>p. p \<noteq> NULL) ps)"

lemma meeting_simps [simp]: "meeting [] = []" "meeting (None # ps) = meeting ps" "meeting (Some a # ps) = a # meeting ps"
  by (simp_all add: meeting_def)

lemma mset_meeting: "mset (meeting ps) = slots ps"
  by (induction ps rule: slots.induct) auto

lemma filter_meeting: "filter (\<lambda>p. p \<noteq> NULL) ps = map Some (meeting ps)"
  by (induction ps rule: slots.induct) auto

lemma slots_drop: "slots (drop i rs) = slots [root_at rs i] + slots (drop (Suc i) rs)"
proof (cases "i < length rs")
  case True
  then have "drop i rs = rs ! i # drop (Suc i) rs" by (simp add: Cons_nth_drop_Suc)
  then show ?thesis using True by (cases "rs ! i") (simp_all add: root_at_def)
qed (simp add: root_at_def)

lemma rest_step: "slots [carry] + rest rs os i = mset (meeting [root_at rs i, root_at os i, carry]) + rest rs os (Suc i)"
  unfolding rest_def slots_drop[of i rs] slots_drop[of i os] mset_meeting
  by (cases carry; cases "root_at rs i"; cases "root_at os i") simp_all

lemma rest_subset: "set_mset (rest rs os i) \<subseteq> set_mset (slots rs + slots os)"
  using set_drop_subset[of i rs] set_drop_subset[of i os] by (auto simp: rest_def in_slots)

lemma meeting_short: "length (meeting [p, q, r]) \<le> 3"
  by (simp add: meeting_def order_trans[OF length_filter_le])

lemma arr_get_roots [simp]: "i < length rs \<Longrightarrow> arr_get (map Some rs @ ex) (int i) = Some (rs ! i)"
  by (simp add: nth_append)

lemma read_root: "(if i < length rs then arr_get (map Some rs @ ex) (int i) else Some NULL) = Some (root_at rs i)"
  by (simp add: root_at_def nth_append)

text \<open>The array of new roots is filled from the left.\<close>

lemma fill_roots:
  assumes "length nr < mx"
  shows "arr_set (map Some nr @ replicate (mx - length nr) None) (int (length nr)) (v :: ptr) = Some (map Some (nr @ [v]) @ replicate (mx - Suc (length nr)) None)"
proof -
  have "replicate (mx - length nr) None = None # replicate (mx - Suc (length nr)) (None :: ptr option)"
    using assms by (metis Suc_diff_Suc replicate_Suc)
  then show ?thesis using assms by (simp add: arr_set_def list_update_append)
qed

definition last_root :: "int \<Rightarrow> ptr list \<Rightarrow> bool" where
  "last_root n nr \<longleftrightarrow> 0 \<le> n \<and> nat n \<le> length nr \<and> (\<forall>i < length nr. nat n \<le> i \<longrightarrow> nr ! i = NULL) \<and> (0 < n \<longrightarrow> nr ! (nat n - 1) \<noteq> NULL)"

lemma last_root_Some: "last_root (int (length nr) + 1) (nr @ [Some a])"
  by (auto simp: last_root_def nth_append nat_add_distrib)

lemma last_root_None: "last_root n nr \<Longrightarrow> last_root n (nr @ [NULL])"
  by (auto simp: last_root_def nth_append split: if_splits)

section \<open>One iteration\<close>

definition pending :: "addr list \<Rightarrow> addr list" where
  "pending vs = (if length vs < 2 then [] else take 2 vs)"

definition store :: "'v btheap \<Rightarrow> ptr array \<Rightarrow> int \<Rightarrow> int \<Rightarrow> ptr list \<Rightarrow> ('v btheap \<times> ptr array \<times> int) option" where
  "store h new_roots n i vals =
     (if length vals = 1 \<or> length vals = 3 then do {
        new_roots \<leftarrow> arr_set new_roots i (vals ! (length vals - 1));
        h \<leftarrow> binomial_tree_ref h (vals ! (length vals - 1));
        Some (h, new_roots, i + 1)
      }
      else do {
        new_roots \<leftarrow> arr_set new_roots i NULL;
        Some (h, new_roots, n)
      })"

lemma store_ok:
  assumes "stage M h V K XG (slots nr + slots [carry]) (slots nr + mset vs + P)" "length vs \<le> 3" "length nr < mx"
    "ranks K nr" "\<And>a. a \<in> set vs \<Longrightarrow> length (K a) = length nr" "last_root n nr"
  shows "\<exists>h1 p n1. store h (map Some nr @ replicate (mx - length nr) None) n (int (length nr)) (map Some vs) =
             Some (h1, map Some (nr @ [p]) @ replicate (mx - Suc (length nr)) None, n1) \<and>
           stage M h1 V K XG (slots (nr @ [p]) + slots [carry]) (slots (nr @ [p]) + mset (pending vs) + P) \<and>
           ranks K (nr @ [p]) \<and> last_root n1 (nr @ [p])"
proof (cases "length vs = 1 \<or> length vs = 3")
  case True
  then have vs: "vs = butlast vs @ [last vs]" "pending vs = butlast vs" "(map Some vs) ! (length vs - 1) = Some (last vs)"
    by (auto simp: pending_def last_conv_nth numeral_3_eq_3 length_Suc_conv numeral_2_eq_2)
  then have m: "mset vs = add_mset (last vs) (mset (pending vs))" by (metis mset_append mset.simps(2) add_mset_add_single mset.simps(1))
  have G: "slots nr + mset vs + P = slots (nr @ [Some (last vs)]) + mset (pending vs) + P" unfolding m by simp
  have w: "last vs \<in> set vs" using True by (auto intro: last_in_set)
  then have X: "last vs \<in> XG" using assms(1) by (auto simp: stage_def forest_def)
  have E: "slots nr + slots [carry] \<subseteq># slots nr + mset vs + P + slots [carry]" "size (slots [carry]) \<le> 3" by (auto simp: ac_simps) (cases carry; simp)
  obtain h1 where h1: "binomial_tree_ref h (Some (last vs)) = Some h1" "stage M h1 V K XG (add_mset (last vs) (slots nr + slots [carry])) (slots nr + mset vs + P)"
    using stage_ref[OF assms(1) X E] by blast
  have "store h (map Some nr @ replicate (mx - length nr) None) n (int (length nr)) (map Some vs) =
      Some (h1, map Some (nr @ [Some (last vs)]) @ replicate (mx - Suc (length nr)) None, int (length nr) + 1)"
    using True vs(3) fill_roots[OF assms(3), of "Some (last vs)"] h1(1) unfolding store_def by auto
  moreover have "ranks K (nr @ [Some (last vs)])" using assms(4) assms(5)[OF w] by (auto simp: ranks_def nth_append less_Suc_eq)
  ultimately show ?thesis using h1(2) last_root_Some unfolding G by fastforce
next
  case False
  then have vs: "pending vs = vs" using assms(2) by (cases vs) (auto simp: pending_def)
  have "store h (map Some nr @ replicate (mx - length nr) None) n (int (length nr)) (map Some vs) =
      Some (h, map Some (nr @ [NULL]) @ replicate (mx - Suc (length nr)) None, n)"
    using False fill_roots[OF assms(3), of NULL] unfolding store_def by auto
  moreover have "ranks K (nr @ [NULL])" using assms(4) by (auto simp: ranks_def nth_append less_Suc_eq)
  ultimately show ?thesis using assms(1) last_root_None[OF assms(6)] unfolding vs by fastforce
qed

lemma unref_all_append: "binomial_unref_all h (xs @ ys) = do { h \<leftarrow> binomial_unref_all h xs; binomial_unref_all h ys }"
proof (induction xs arbitrary: h rule: slots.induct)
  case 1
  show ?case by (simp add: binomial_unref_all.simps[of h "[]"])
next
  case (2 ts)
  show ?case using 2 by (simp add: binomial_unref_all.simps[of h "None # _"])
next
  case (3 a ts)
  show ?case using 3 by (cases "h a") (simp_all add: binomial_unref_all.simps[of h "Some a # _"] Let_def)
qed

section \<open>The loop\<close>

text \<open>The addresses that malloc will return are not in use and distinct.\<close>

definition new_trees :: "(ptr \<times> bool) list \<Rightarrow> addr set \<Rightarrow> addr set \<Rightarrow> bool" where
  "new_trees ms A S \<longleftrightarrow> (\<forall>n. Some n \<in> fst ` set ms \<longrightarrow> n \<notin> S \<and> n \<in> A) \<and> distinct (filter (\<lambda>p. p \<noteq> NULL) (map fst ms))"

definition enough :: "(ptr \<times> bool) list \<Rightarrow> nat \<Rightarrow> bool" where
  "enough ms n \<longleftrightarrow> n \<le> length ms \<and> (\<forall>m \<in> set ms. fst m \<noteq> NULL \<and> snd m)"

lemma new_trees_Cons: "new_trees ((Some n, b) # ms) A S \<Longrightarrow> n \<notin> S \<and> n \<in> A \<and> new_trees ms A (insert n S)"
  by (auto simp: new_trees_def)

lemma new_trees_mono: "new_trees ms A S \<Longrightarrow> S' \<subseteq> S \<Longrightarrow> new_trees ms A S'"
  by (auto simp: new_trees_def)

text \<open>What the loop reads: the two arrays of roots.\<close>

definition inputs :: "'v merging \<Rightarrow> 'v BinomialHeap \<Rightarrow> ptr array \<Rightarrow> int \<Rightarrow> ptr list \<Rightarrow> ptr list \<Rightarrow> nat \<Rightarrow> bool" where
  "inputs M heap oroots olen rs os mx \<longleftrightarrow> bounded_comparator (bp_compare_func heap) \<and> mg_le M = (\<lambda>u v. bp_order heap u v \<le> 0) \<and>
     counted (mg_h M) (mg_X M) (mg_V M) (mg_K M) (mg_R M) \<and> set_mset (slots rs + slots os) \<subseteq> mg_X M \<and>
     (\<exists>ex. bp_roots heap = map Some rs @ ex) \<and> bp_roots_length heap = int (length rs) \<and>
     (\<exists>ex. oroots = map Some os @ ex) \<and> olen = int (length os) \<and> ranks (mg_K M) rs \<and> ranks (mg_K M) os \<and>
     length rs < mx \<and> length os < mx \<and> mx < 2 ^ 16 - 1"

definition summed :: "'v merging \<Rightarrow> nat \<Rightarrow> 'v btheap \<Rightarrow> ptr array \<Rightarrow> int \<Rightarrow> bool" where
  "summed M mx h arr n \<longleftrightarrow> (\<exists>nr V K XG. arr = map Some nr \<and> length nr = mx \<and> stage M h V K XG (slots nr) (slots nr) \<and> ranks K nr \<and> last_root n nr)"

lemma root_rank: "ranks K rs \<Longrightarrow> root_at rs i = Some a \<Longrightarrow> length (K a) = i \<and> a \<in># slots rs"
  unfolding ranks_def root_at_def in_slots by (metis nth_mem option.distinct(1))

text \<open>The trees that meet have the order of the iteration.\<close>

lemma meeting_rank:
  assumes "inputs M heap oroots olen rs os mx" "stage M h V K XG T G" "\<And>a. carry = Some a \<Longrightarrow> length (K a) = i"
    "a \<in> set (meeting [root_at rs i, root_at os i, carry])"
  shows "length (K a) = i"
proof -
  have old: "length (K b) = i" if "root_at ps i = Some b" "ranks (mg_K M) ps" "set_mset (slots ps) \<subseteq> mg_X M" for b ps
    using root_rank[OF that(2,1)] that(3) assms(2) by (auto simp: stage_def)
  have "a \<in># slots [root_at rs i, root_at os i, carry]" using assms(4) by (simp flip: mset_meeting)
  then show ?thesis using old[of rs a] old[of os a] assms(1,3) by (auto simp: in_slots inputs_def)
qed

lemma loop_unfold:
  assumes "inputs M heap oroots olen rs os mx" "i < mx" "vals = map Some (meeting [root_at rs i, root_at os i, carry])"
  shows "binomial_merge_loop (int mx) heap oroots olen ms h (int i) nr n carry = do {
     (h, nr, n) \<leftarrow> store h nr n (int i) vals;
     if length vals = 2 \<or> length vals = 3 then do {
       (new_carry, ms, h) \<leftarrow> binomial_tree_merge ms h heap (vals ! 0) (vals ! 1);
       if new_carry = NULL then do {
         h \<leftarrow> binomial_heap_merge_undo h nr (int i);
         h \<leftarrow> binomial_tree_unref h carry;
         Some (False, h, nr, n)
       }
       else do {
         h \<leftarrow> binomial_tree_unref h carry;
         h \<leftarrow> binomial_tree_ref h new_carry;
         binomial_merge_loop (int mx) heap oroots olen ms h (int (Suc i)) nr n new_carry
       }
     }
     else do {
       h \<leftarrow> binomial_tree_unref h carry;
       binomial_merge_loop (int mx) heap oroots olen ms h (int (Suc i)) nr n NULL
     }
   }"
proof -
  obtain ex1 ex2 where ex: "bp_roots heap = map Some rs @ ex1" "oroots = map Some os @ ex2" "bp_roots_length heap = int (length rs)" "olen = int (length os)"
    using assms(1) by (auto simp: inputs_def)
  have "vals = filter (\<lambda>v. v \<noteq> NULL) [root_at rs i, root_at os i, carry]" unfolding assms(3) filter_meeting ..
  then show ?thesis using assms(2) unfolding ex
    by (subst binomial_merge_loop.simps) (simp only: ex read_root store_def Let_def Option.bind.bind_lunit of_nat_less_iff if_True of_nat_Suc add.commute[of 1])
qed

text \<open>A state of the loop.\<close>

definition adding :: "'v merging \<Rightarrow> ptr list \<Rightarrow> ptr list \<Rightarrow> nat \<Rightarrow> (ptr \<times> bool) list \<Rightarrow> 'v btheap \<Rightarrow> ptr list \<Rightarrow> int \<Rightarrow> ptr \<Rightarrow> bool" where
  "adding M rs os mx ms h nr n carry \<longleftrightarrow> (\<exists>V K XG. stage M h V K XG (slots nr + slots [carry]) (slots nr + slots [carry] + rest rs os (length nr)) \<and>
     ranks K nr \<and> (\<forall>a. carry = Some a \<longrightarrow> length (K a) = length nr) \<and> last_root n nr \<and> new_trees ms (mg_A M) (mg_X M \<union> XG)) \<and>
     (length nr = mx \<longrightarrow> carry = NULL)"

definition added :: "'v merging \<Rightarrow> nat \<Rightarrow> bool \<Rightarrow> (bool \<times> 'v btheap \<times> ptr array \<times> int) option \<Rightarrow> bool" where
  "added M mx mem r \<longleftrightarrow> (\<exists>fin h arr n. r = Some (fin, h, arr, n) \<and> (if fin then summed M mx h arr n else h = mg_h M) \<and> (mem \<longrightarrow> fin))"

lemma add_carry:
  assumes "inputs M heap oroots olen rs os mx"
    "stage M h V K XG (slots nr + slots [carry]) (slots nr + {#a, b#} + rest rs os (length nr))"
    "ranks K nr" "last_root n nr" "new_trees ms (mg_A M) (mg_X M \<union> XG)" "length (K a) = length nr - 1" "length (K b) = length nr - 1" "0 < length nr" "length nr < mx"
    and IH: "\<And>ms h nc. adding M rs os mx ms h nr n nc \<Longrightarrow> added M mx (enough ms (mx - length nr)) (binomial_merge_loop (int mx) heap oroots olen ms h (int (length nr)) arr n nc)"
    and arr: "arr = map Some nr @ ex"
  shows "added M mx (enough ms (Suc (mx - length nr))) (do {
       (new_carry, ms, h) \<leftarrow> binomial_tree_merge ms h heap (Some a) (Some b);
       if new_carry = NULL then do {
         h \<leftarrow> binomial_heap_merge_undo h arr (int (length nr) - 1);
         h \<leftarrow> binomial_tree_unref h carry;
         Some (False, h, arr, n)
       }
       else do {
         h \<leftarrow> binomial_tree_unref h carry;
         h \<leftarrow> binomial_tree_ref h new_carry;
         binomial_merge_loop (int mx) heap oroots olen ms h (int (length nr)) arr n new_carry
       }
     })"
proof -
  have inp: "bounded_comparator (bp_compare_func heap)" "mg_le M = (\<lambda>u v. bp_order heap u v \<le> 0)" "counted (mg_h M) (mg_X M) (mg_V M) (mg_K M) (mg_R M)" "mx < 2 ^ 16 - 1"
    using assms(1) unfolding inputs_def by blast+
  have P: "set_mset (rest rs os (length nr)) \<subseteq> mg_X M" using rest_subset assms(1) unfolding inputs_def by blast
  show ?thesis
  proof (cases "\<exists>k ms'. ms = (Some k, True) # ms'")
    case True
    then obtain k ms' where ms: "ms = (Some k, True) # ms'" by blast
    have k: "k \<notin> mg_X M \<union> XG" "k \<in> mg_A M" "new_trees ms' (mg_A M) (insert k (mg_X M \<union> XG))"
      using new_trees_Cons[of k True ms'] assms(5) unfolding ms by blast+
    have len: "length (K a) = length (K b)" "Suc (length (K a)) < 2 ^ 16" using assms(6-9) inp(4) by auto
    obtain h1 h2 h3 V' K' XG' where l: "binomial_tree_merge ms h heap (Some a) (Some b) = Some (Some k, ms', h1)"
        "binomial_tree_unref h1 carry = Some h2" "binomial_tree_ref h2 (Some k) = Some h3"
        "stage M h3 V' K' XG' (add_mset k (slots nr)) (add_mset k (slots nr) + rest rs os (length nr))" "length (K' k) = Suc (length (K a))"
        "XG' \<subseteq> insert k XG" "\<forall>c. c \<noteq> k \<longrightarrow> K' c = K c"
      using stage_link[OF assms(2) P inp(1,2) len k(1,2), of ms'] unfolding ms by blast
    have "set_mset (slots nr) \<subseteq> XG" using assms(2) unfolding stage_def forest_def by auto
    then have "Some k \<notin> set nr" using k(1) by (auto simp: in_slots)
    then have "ranks K' nr" using assms(3) l(7) unfolding ranks_def by (metis nth_mem)
    moreover have "new_trees ms' (mg_A M) (mg_X M \<union> XG')" by (rule new_trees_mono[OF k(3)]) (use l(6) in auto)
    ultimately have "adding M rs os mx ms' h3 nr n (Some k)"
      unfolding adding_def using l(4,5) assms(4,6,8,9) by (intro conjI exI[of _ V'] exI[of _ K'] exI[of _ XG']) auto
    from IH[OF this] show ?thesis using l(1-3) unfolding added_def ms by (auto simp: enough_def)
  next
    case False
    have ab: "a \<in> mg_X M \<union> XG" "b \<in> mg_X M \<union> XG" using assms(2) unfolding stage_def forest_def by auto
    have m: "binomial_tree_merge ms h heap (Some a) (Some b) = Some (NULL, tl ms, h)"
      by (rule tree_merge_fails[OF _ inp(1) ab]) (use assms(2) False in \<open>auto simp: stage_def\<close>)
    have "binomial_unref_all h (nr @ [carry]) = Some (mg_h M)" by (rule stage_undo[OF _ inp(3)]) (use assms(2) in simp)
    then obtain h1 where h1: "binomial_unref_all h nr = Some h1" "binomial_tree_unref h1 carry = Some (mg_h M)"
      unfolding unref_all_append binomial_tree_unref_def by (cases "binomial_unref_all h nr") auto
    have "binomial_heap_merge_undo h arr (int (length nr) - 1) = Some h1" using h1(1) arr by (simp add: binomial_heap_merge_undo_def)
    moreover have "\<not> enough ms (Suc (mx - length nr))" using False by (cases ms) (auto simp: enough_def)
    ultimately show ?thesis using m h1(2) unfolding added_def by auto
  qed
qed

lemma added_mono: "added M mx mem r \<Longrightarrow> (mem' \<Longrightarrow> mem) \<Longrightarrow> added M mx mem' r"
  unfolding added_def by blast

lemma pending_cases:
  assumes "length vs \<le> 3"
  shows "length vs < 2 \<and> pending vs = [] \<or> (\<exists>a b. a \<in> set vs \<and> b \<in> set vs \<and> pending vs = [a, b] \<and> vs ! 0 = a \<and> vs ! 1 = b \<and> 2 \<le> length vs)"
proof (cases vs)
  case (Cons a ws)
  then show ?thesis using assms by (cases ws) (auto simp: pending_def le_Suc_eq numeral_3_eq_3)
qed (simp add: pending_def)

lemma adding_ok:
  assumes "inputs M heap oroots olen rs os mx" "adding M rs os mx ms h nr n carry" "length nr \<le> mx"
  shows "added M mx (enough ms (mx - length nr))
           (binomial_merge_loop (int mx) heap oroots olen ms h (int (length nr)) (map Some nr @ replicate (mx - length nr) None) n carry)"
  using assms(2,3)
proof (induction "mx - length nr" arbitrary: ms h nr n carry)
  case 0
  then have len: "length nr = mx" by simp
  obtain V K XG where s: "stage M h V K XG (slots nr + slots [carry]) (slots nr + slots [carry] + rest rs os (length nr))" "ranks K nr" "last_root n nr" "carry = NULL"
    using 0(2) len unfolding adding_def by blast
  have "length rs < mx" "length os < mx" using assms(1) by (auto simp: inputs_def)
  then have "rest rs os mx = {#}" by (simp add: rest_def)
  then have "summed M mx h (map Some nr) n" using s len unfolding summed_def by auto
  then show ?case using len by (subst binomial_merge_loop.simps) (auto simp: added_def)
next
  case (Suc d)
  let ?i = "length nr" let ?vs = "meeting [root_at rs ?i, root_at os ?i, carry]" let ?P = "rest rs os (Suc ?i)"
  have i: "?i < mx" using Suc.hyps(2) by simp
  obtain V K XG where s: "stage M h V K XG (slots nr + slots [carry]) (slots nr + slots [carry] + rest rs os ?i)" "ranks K nr"
      "\<And>a. carry = Some a \<Longrightarrow> length (K a) = ?i" "last_root n nr" "new_trees ms (mg_A M) (mg_X M \<union> XG)"
    using Suc.prems(1) unfolding adding_def by blast
  have s1: "stage M h V K XG (slots nr + slots [carry]) (slots nr + mset ?vs + ?P)" using s(1) rest_step[of carry rs os ?i] by (simp add: ac_simps)
  have rk: "length (K a) = ?i" if "a \<in> set ?vs" for a by (rule meeting_rank[OF assms(1) s1 s(3) that])
  obtain h1 p n1 where st: "store h (map Some nr @ replicate (mx - ?i) None) n (int ?i) (map Some ?vs) = Some (h1, map Some (nr @ [p]) @ replicate (mx - Suc ?i) None, n1)"
      "stage M h1 V K XG (slots (nr @ [p]) + slots [carry]) (slots (nr @ [p]) + mset (pending ?vs) + ?P)" "ranks K (nr @ [p])" "last_root n1 (nr @ [p])"
    using store_ok[OF s1 meeting_short i s(2) rk s(4)] by blast
  let ?nr = "nr @ [p]" let ?arr = "map Some ?nr @ replicate (mx - Suc ?i) None"
  note unf = loop_unfold[OF assms(1) i refl, where carry = carry and ms = ms and h = h and n = n and nr = "map Some nr @ replicate (mx - ?i) None", unfolded st(1)]
  have IH: "added M mx (enough ms (mx - length ?nr)) (binomial_merge_loop (int mx) heap oroots olen ms h (int (length ?nr)) ?arr n1 nc)"
    if "adding M rs os mx ms h ?nr n1 nc" for ms h nc
    using Suc.hyps(1)[of ?nr ms h n1 nc] that Suc.hyps(2) i by simp
  from pending_cases[OF meeting_short, of "root_at rs ?i" "root_at os ?i" carry] show ?case
  proof (elim disjE exE conjE)
    assume p: "length ?vs < 2" "pending ?vs = []"
    have P: "set_mset ?P \<subseteq> mg_X M" using rest_subset assms(1) unfolding inputs_def by blast
    obtain h2 where h2: "binomial_tree_unref h1 carry = Some h2" "stage M h2 V K XG (slots ?nr) (slots ?nr + ?P)"
      using stage_unref[of M h1 V K XG "slots ?nr" "[carry]" "slots ?nr + ?P"] st(2) P unfolding p(2) binomial_tree_unref_def by auto
    have "adding M rs os mx ms h2 ?nr n1 NULL"
      unfolding adding_def using h2(2) st(3,4) s(5) by (intro conjI exI[of _ V] exI[of _ K] exI[of _ XG]) auto
    from IH[OF this] have "added M mx (enough ms (mx - Suc ?i)) (binomial_merge_loop (int mx) heap oroots olen ms h2 (int (Suc ?i)) ?arr n1 NULL)" by simp
    then have "added M mx (enough ms (mx - ?i)) (binomial_merge_loop (int mx) heap oroots olen ms h2 (int (Suc ?i)) ?arr n1 NULL)"
      by (rule added_mono) (auto simp: enough_def)
    then show ?thesis using p(1) h2(1) unfolding unf by simp
  next
    fix a b assume p: "a \<in> set ?vs" "b \<in> set ?vs" "pending ?vs = [a, b]" "?vs ! 0 = a" "?vs ! 1 = b" "2 \<le> length ?vs"
    have s2: "stage M h1 V K XG (slots ?nr + slots [carry]) (slots ?nr + {#a, b#} + rest rs os (length ?nr))" using st(2) p(3) by simp
    have "length ?nr < mx"
    proof (rule ccontr)
      assume "\<not> length ?nr < mx"
      then have "length rs \<le> ?i" "length os \<le> ?i" using assms(1) by (auto simp: inputs_def)
      then have "length ?vs \<le> 1" by (cases carry) (auto simp: root_at_def)
      then show False using p(6) by auto
    qed
    then have *: "length ?nr < mx" .
    have l: "length ?nr = Suc ?i" "int (Suc ?i) - 1 = int ?i" "Suc (mx - Suc ?i) = mx - ?i" using i by simp_all
    have "0 < length ?vs" "1 < length ?vs" using p(6) by linarith+
    then have v: "map Some ?vs ! 0 = Some a" "map Some ?vs ! 1 = Some b" using p(4,5) by (simp_all only: nth_map)
    have v3: "(length (map Some ?vs) = 2 \<or> length (map Some ?vs) = 3) = True" using p(6) meeting_short[of "root_at rs ?i" "root_at os ?i" carry] by auto
    have ab: "length (K a) = length ?nr - 1" "length (K b) = length ?nr - 1" "0 < length ?nr" using rk[OF p(1)] rk[OF p(2)] by auto
    show ?thesis unfolding unf using add_carry[OF assms(1) s2 st(3,4) s(5) ab * IH refl, unfolded l]
      by (simp only: Option.bind.bind_lunit prod.case v v3 if_True)
  qed
qed

end
