(* ===== verification/Binomial_Correct.thy ===== *)
theory Binomial_Correct
  imports Binomial_Adder Interfaces
begin

text \<open>
  \<open>binomial-heap.c\<close> implements a priority queue: what insertion and removal do to the multiset of values,
  that no tree is leaked or freed too early, and that an operation that runs out of memory leaves the
  heap exactly as it was.
\<close>

section \<open>The size of a forest\<close>

lemma forest_mset: "forest X K R \<Longrightarrow> refs R X K = mset_set X"
proof (rule multiset_eqI)
  fix a assume f: "forest X K R"
  then have fin: "finite X" by (simp add: forest_def graph_def)
  show "count (refs R X K) a = count (mset_set X) a"
  proof (cases "a \<in> X")
    case False
    then have "a \<notin># R" "a \<notin># edges X K" using f graph_edges[of X K] by (auto simp: forest_def)
    then show ?thesis using False fin by (simp add: not_in_iff)
  qed (use f fin in \<open>auto simp: forest_def\<close>)
qed

lemma sum_powers: "(\<Sum>i<n. (2::nat) ^ i) + 1 = 2 ^ n"
  by (induction n) auto

definition weight :: "(addr \<Rightarrow> addr list) \<Rightarrow> addr multiset \<Rightarrow> nat" where
  "weight K R = (\<Sum>a\<in>#R. 2 ^ length (K a))"

lemma weight_simps [simp]: "weight K {#} = 0" "weight K (add_mset a R) = 2 ^ length (K a) + weight K R" "weight K (R + R') = weight K R + weight K R'"
  by (simp_all add: weight_def)

lemma weight_kids:
  assumes "\<And>i. i < length cs \<Longrightarrow> length (K (cs ! i)) = i"
  shows "weight K (mset cs) + 1 = 2 ^ length cs"
proof -
  have "map (\<lambda>c. (2::nat) ^ length (K c)) cs = map (\<lambda>i. 2 ^ i) [0..<length cs]" by (rule nth_equalityI) (use assms in auto)
  then have "weight K (mset cs) = (\<Sum>i\<leftarrow>[0..<length cs]. 2 ^ i)" unfolding weight_def by (metis mset_map sum_mset_sum_list)
  also have "\<dots> = (\<Sum>i<length cs. 2 ^ i)" by (simp add: interv_sum_list_conv_sum_set_nat atLeast0LessThan)
  finally show ?thesis using sum_powers[of "length cs"] by simp
qed

lemma weight_edges:
  assumes "finite X" "\<And>a i. a \<in> X \<Longrightarrow> i < length (K a) \<Longrightarrow> length (K (K a ! i)) = i"
  shows "weight K (edges X K) + card X = weight K (mset_set X)"
  using assms
proof (induction X rule: finite_induct)
  case (insert a X)
  then show ?case using weight_kids[of "K a" K] by (simp add: edges_insert)
qed (simp add: edges_def)

text \<open>The number of trees is the sum of the sizes of the roots.\<close>

lemma forest_card:
  assumes "forest X K R" "tree_order le X V K"
  shows "card X = weight K R"
proof -
  have "finite X" using assms(1) by (simp add: forest_def graph_def)
  then have "weight K (edges X K) + card X = weight K (refs R X K)"
    unfolding forest_mset[OF assms(1)] by (rule weight_edges) (use assms(2) in \<open>auto simp: tree_order_def\<close>)
  then show ?thesis by simp
qed

section \<open>Merging\<close>

text \<open>After a merge: the references \<open>E\<close> to a tree that is about to be dropped are still there.\<close>

definition merged :: "'v merging \<Rightarrow> addr multiset \<Rightarrow> 'v btheap \<Rightarrow> ptr list \<Rightarrow> int \<Rightarrow> bool" where
  "merged M E h nr n \<longleftrightarrow> (\<exists>V K XG S. counted h S V K (E + slots nr) \<and> forest XG K (slots nr) \<and> tree_order (mg_le M) XG V K \<and>
     image_mset V (mset_set XG) = mg_vals M \<and> (\<forall>a \<in> mg_X M. V a = mg_V M a \<and> K a = mg_K M a) \<and> ranks K nr \<and> last_root n nr \<and>
     (\<forall>a. a \<notin> mg_X M \<union> XG \<longrightarrow> h a = mg_h M a) \<and> XG - mg_X M \<subseteq> mg_A M \<and> S \<subseteq> mg_X M \<union> XG \<and> (\<forall>a \<in> (mg_X M \<union> XG) - S. h a = None))"

lemma merge_ok:
  assumes "inputs M heap oroots olen rs os mx" "mx = Suc (max (length rs) (length os))" "int mx \<le> INT_MAX"
    "stage M (mg_h M) (mg_V M) (mg_K M) XG {#} (slots rs + slots os)" "new_trees ms (mg_A M) (mg_X M \<union> XG)" "mg_R M = slots rs + E"
  shows "(\<exists>h nr n. binomial_heap_merge m ms (mg_h M) heap oroots olen = Some (1, h, heap\<lparr>bp_roots := map Some nr, bp_roots_length := n\<rparr>) \<and> merged M E h nr n) \<or>
         \<not> (m \<and> enough ms mx) \<and> binomial_heap_merge m ms (mg_h M) heap oroots olen = Some (0, mg_h M, heap)"
proof -
  have len: "bp_roots_length heap = int (length rs)" "olen = int (length os)" using assms(1) by (auto simp: inputs_def)
  then have "(if bp_roots_length heap > olen then bp_roots_length heap else olen) + 1 = int mx" using assms(2) by auto
  then have mx: "c_int ((if bp_roots_length heap > olen then bp_roots_length heap else olen) + 1) = Some (int mx)" using assms(3) by simp
  have "adding M rs os mx ms (mg_h M) [] 0 NULL"
    unfolding adding_def using assms(4,5) by (intro conjI exI[of _ "mg_V M"] exI[of _ "mg_K M"] exI[of _ XG]) (auto simp: rest_def ranks_def last_root_def)
  from adding_ok[OF assms(1) this] obtain fin h arr n where
    l: "binomial_merge_loop (int mx) heap oroots olen ms (mg_h M) 0 (replicate mx None) 0 NULL = Some (fin, h, arr, n)"
      "if fin then summed M mx h arr n else h = mg_h M" "enough ms mx \<longrightarrow> fin" unfolding added_def by auto
  show ?thesis
  proof (cases "m \<and> fin")
    case False
    then show ?thesis using mx l by (auto simp: binomial_heap_merge_def)
  next
    case True
    then obtain nr V K X' where s: "arr = map Some nr" "stage M h V K X' (slots nr) (slots nr)" "ranks K nr" "last_root n nr"
      using l(2) unfolding summed_def by auto
    have c: "counted h (mg_X M \<union> X') V K ((E + slots nr) + slots rs)" using s(2) assms(6) by (simp add: stage_def ac_simps)
    obtain h' S where u: "binomial_unref_all h rs = Some h'" "S \<subseteq> mg_X M \<union> X'" "counted h' S V K (E + slots nr)"
        "\<forall>a \<in> (mg_X M \<union> X') - S. h' a = None" "\<forall>a. a \<notin> mg_X M \<union> X' \<longrightarrow> h' a = h a"
      using unref_all_ok[OF c, of rs] unfolding unreffed_def by auto
    have "merged M E h' nr n" unfolding merged_def using u s(2-4)
      by (intro exI[of _ V] exI[of _ K] exI[of _ X'] exI[of _ S]) (auto simp: stage_def)
    moreover obtain ex where "bp_roots heap = map Some rs @ ex" using assms(1) by (auto simp: inputs_def)
    ultimately show ?thesis using True l(1) s(1) u(1) mx len(1) by (auto simp: binomial_heap_merge_def)
  qed
qed

text \<open>The dropped tree is given up; what is left is the new forest.\<close>

lemma merged_drop:
  assumes "merged M {#e#} h nr n"
  shows "\<exists>h' V K XG. binomial_tree_unref h (Some e) = Some h' \<and> counted h' XG V K (slots nr) \<and> forest XG K (slots nr) \<and> tree_order (mg_le M) XG V K \<and>
     image_mset V (mset_set XG) = mg_vals M \<and> ranks K nr \<and> last_root n nr \<and> (\<forall>a. a \<notin> mg_X M \<union> XG \<longrightarrow> h' a = mg_h M a) \<and>
     (\<forall>a \<in> mg_X M - XG. h' a = None) \<and> XG - mg_X M \<subseteq> mg_A M \<and> (\<exists>r. h e = Some (bcell (mg_V M) (mg_K M) e r) \<or> e \<notin> mg_X M)"
proof -
  obtain V K XG S where m: "counted h S V K ({#e#} + slots nr)" "forest XG K (slots nr)" "tree_order (mg_le M) XG V K"
     "image_mset V (mset_set XG) = mg_vals M" "\<And>a. a \<in> mg_X M \<Longrightarrow> V a = mg_V M a \<and> K a = mg_K M a" "ranks K nr" "last_root n nr"
     "\<And>a. a \<notin> mg_X M \<union> XG \<Longrightarrow> h a = mg_h M a" "XG - mg_X M \<subseteq> mg_A M" "S \<subseteq> mg_X M \<union> XG" "\<And>a. a \<in> (mg_X M \<union> XG) - S \<Longrightarrow> h a = None"
    using assms unfolding merged_def by blast
  have c: "counted h S V K (slots nr + slots [Some e])" using m(1) by simp
  obtain h' where h': "binomial_tree_unref h (Some e) = Some h'" "counted h' XG V K (slots nr)" "XG \<subseteq> S" "\<And>a. a \<in> S - XG \<Longrightarrow> h' a = None" "\<And>a. a \<notin> S \<Longrightarrow> h' a = h a"
    using unref_covers[OF c forest_covers[OF m(2)]] unfolding binomial_tree_unref_def by blast
  have "e \<in> S" using m(1) by (simp add: counted_def)
  then have "h e = Some (bcell V K e (of_nat (count (refs ({#e#} + slots nr) S K) e)))" by (rule counted_cell[OF m(1)])
  then have "\<exists>r. h e = Some (bcell (mg_V M) (mg_K M) e r) \<or> e \<notin> mg_X M" using m(5)[of e] by (auto simp: bcell_def)
  moreover have "h' a = mg_h M a" if "a \<notin> mg_X M \<union> XG" for a using that h'(5)[of a] m(8)[of a] m(10) by auto
  moreover have "h' a = None" if "a \<in> mg_X M - XG" for a using that h'(4,5)[of a] m(11)[of a] by (cases "a \<in> S") auto
  ultimately show ?thesis using h'(1,2) m(2-4,6,7,9) by blast
qed

section \<open>The invariant of a heap\<close>

definition bp_shape :: "'v btheap \<Rightarrow> 'v BinomialHeap \<Rightarrow> addr set \<Rightarrow> (addr \<Rightarrow> 'v) \<Rightarrow> (addr \<Rightarrow> addr list) \<Rightarrow> ptr list \<Rightarrow> bool" where
  "bp_shape h heap X V K rs \<longleftrightarrow> bounded_comparator (bp_compare_func heap) \<and> (\<exists>ex. bp_roots heap = map Some rs @ ex) \<and>
     bp_roots_length heap = int (length rs) \<and> ranks K rs \<and> counted h X V K (slots rs) \<and> forest X K (slots rs) \<and>
     tree_order (\<lambda>u v. bp_order heap u v \<le> 0) X V K \<and> bp_num_values heap = int (card X) \<and> int (card X) \<le> INT_MAX \<and>
     (rs \<noteq> [] \<longrightarrow> last rs \<noteq> NULL)"

text \<open>The trees at the addresses \<open>X\<close> hold the values \<open>vs\<close>.\<close>

definition bp_holds :: "'v btheap \<Rightarrow> 'v BinomialHeap \<Rightarrow> addr set \<Rightarrow> 'v multiset \<Rightarrow> bool" where
  "bp_holds h heap X vs \<longleftrightarrow> (\<exists>V K rs. bp_shape h heap X V K rs \<and> image_mset V (mset_set X) = vs)"

lemma weight_member: "a \<in># R \<Longrightarrow> 2 ^ length (K a) \<le> weight K R"
  by (metis insert_DiffM le_add1 weight_simps(2))

text \<open>There are at most 31 roots.\<close>

lemma bp_roots_bound:
  assumes "bp_shape h heap X V K rs"
  shows "length rs \<le> 31"
proof (cases "rs = []")
  case False
  then obtain a where a: "last rs = Some a" using assms by (auto simp: bp_shape_def)
  then have "rs ! (length rs - 1) = Some a" "Some a \<in> set rs" using False last_in_set[OF False] by (auto simp: last_conv_nth)
  then have r: "length (K a) = length rs - 1" "a \<in># slots rs" using assms False by (auto simp: bp_shape_def ranks_def in_slots)
  have "card X = weight K (slots rs)" using assms by (auto simp: bp_shape_def intro: forest_card)
  then have "2 ^ (length rs - 1) \<le> card X" using weight_member[OF r(2), of K] r(1) by simp
  moreover have "card X < 2 ^ 31" using assms by (simp add: bp_shape_def c_int_bounds)
  ultimately have "(2::nat) ^ (length rs - 1) < 2 ^ 31" by linarith
  then have "length rs - 1 < 31" by (rule power_less_imp_less_exp[rotated]) simp
  then show ?thesis by simp
qed simp

lemma last_root_take:
  assumes "last_root n nr"
  shows "n = int (length (take (nat n) nr))" "slots (take (nat n) nr) = slots nr" "take (nat n) nr \<noteq> [] \<longrightarrow> last (take (nat n) nr) \<noteq> NULL"
    "ranks K nr \<Longrightarrow> ranks K (take (nat n) nr)"
proof -
  have n: "0 \<le> n" "nat n \<le> length nr" using assms by (auto simp: last_root_def)
  show "n = int (length (take (nat n) nr))" using n by simp
  have "drop (nat n) nr = replicate (length nr - nat n) NULL" using assms n by (intro nth_equalityI) (auto simp: last_root_def)
  then show "slots (take (nat n) nr) = slots nr" by (metis append_take_drop_id slots_append slots_replicate_None add_0_right)
  show "take (nat n) nr \<noteq> [] \<longrightarrow> last (take (nat n) nr) \<noteq> NULL"
    using assms n by (auto simp: last_root_def last_conv_nth min_def)
  show "ranks K (take (nat n) nr)" if "ranks K nr" using that by (simp add: ranks_def)
qed

text \<open>The heap after a merge and after the dropped tree is given up.\<close>

lemma bp_shape_merged:
  assumes "merged M {#e#} h nr n" "mg_le M = (\<lambda>u v. bp_order heap u v \<le> 0)" "bounded_comparator (bp_compare_func heap)"
    "heap' = heap\<lparr>bp_roots := map Some nr, bp_roots_length := n, bp_num_values := int (size (mg_vals M))\<rparr>" "int (size (mg_vals M)) \<le> INT_MAX"
  shows "\<exists>h' X'. binomial_tree_unref h (Some e) = Some h' \<and> bp_holds h' heap' X' (mg_vals M) \<and> (\<forall>a. a \<notin> mg_X M \<union> X' \<longrightarrow> h' a = mg_h M a) \<and>
     (\<forall>a \<in> mg_X M - X'. h' a = None) \<and> X' - mg_X M \<subseteq> mg_A M"
proof -
  obtain h' V K XG where d: "binomial_tree_unref h (Some e) = Some h'" "counted h' XG V K (slots nr)" "forest XG K (slots nr)" "tree_order (mg_le M) XG V K"
     "image_mset V (mset_set XG) = mg_vals M" "ranks K nr" "last_root n nr" "\<forall>a. a \<notin> mg_X M \<union> XG \<longrightarrow> h' a = mg_h M a"
     "\<forall>a \<in> mg_X M - XG. h' a = None" "XG - mg_X M \<subseteq> mg_A M"
    using merged_drop[OF assms(1)] by blast
  note lr = last_root_take[OF d(7)]
  have sz: "size (mg_vals M) = card XG" using arg_cong[OF d(5), of size] by simp
  have "bp_order heap' = bp_order heap" using assms(4) by (simp add: bp_order_def fun_eq_iff)
  then have "bp_shape h' heap' XG V K (take (nat n) nr)"
    unfolding bp_shape_def using d(2-4) lr lr(4)[OF d(6)] assms(2-5) sz
    by (auto intro!: exI[of _ "drop (nat n) (map Some nr)"] simp: take_map[symmetric])
  then show ?thesis using d(1,5,8-10) unfolding bp_holds_def by blast
qed

lemma bp_inputs:
  assumes "bp_shape h heap X V K rs" "bp_roots heap' = map Some rs' @ ex" "length rs' = length rs" "bp_roots_length heap' = bp_roots_length heap"
    "bp_compare_func heap' = bp_compare_func heap" "bp_heap_type heap' = bp_heap_type heap"
    "mg_le M = (\<lambda>u v. bp_order heap u v \<le> 0)" "counted (mg_h M) (mg_X M) (mg_V M) (mg_K M) (mg_R M)" "set_mset (slots rs' + slots os) \<subseteq> mg_X M"
    "ranks (mg_K M) rs'" "ranks (mg_K M) os" "length os \<le> 32"
  shows "inputs M heap' (map Some os) (int (length os)) rs' os (Suc (max (length rs') (length os)))" "int (Suc (max (length rs') (length os))) \<le> INT_MAX"
proof -
  have "length rs' \<le> 31" using bp_roots_bound[OF assms(1)] assms(3) by simp
  moreover have "bp_order heap' = bp_order heap" using assms(5,6) by (simp add: bp_order_def fun_eq_iff)
  ultimately show "inputs M heap' (map Some os) (int (length os)) rs' os (Suc (max (length rs') (length os)))"
      "int (Suc (max (length rs') (length os))) \<le> INT_MAX"
    using assms unfolding inputs_def bp_shape_def by (auto simp: c_int_bounds)
qed

text \<open>The trees that malloc returns are not in use.\<close>

definition tree_addrs :: "(ptr \<times> bool) list \<Rightarrow> addr set" where
  "tree_addrs ms = {a. Some a \<in> fst ` set ms}"

definition fresh_trees :: "(ptr \<times> bool) list \<Rightarrow> 'v btheap \<Rightarrow> addr set \<Rightarrow> bool" where
  "fresh_trees ms h X \<longleftrightarrow> (\<forall>a \<in> tree_addrs ms. a \<notin> X \<and> h a = None) \<and> distinct (filter (\<lambda>p. p \<noteq> NULL) (map fst ms))"

section \<open>Insertion\<close>

text \<open>The tree of order 0 that holds the new value.\<close>

lemma new_leaf:
  assumes "counted h X V K R" "forest X K R" "tree_order le X V K" "n \<notin> X"
  shows "counted (h(n \<mapsto> \<lparr>bt_value = v, bt_order = 0, bt_refcount = 1, bt_subtrees = []\<rparr>)) (insert n X) (V(n := v)) (K(n := [])) (add_mset n R)"
    "forest (insert n X) (K(n := [])) (add_mset n R)" "tree_order le (insert n X) (V(n := v)) (K(n := []))"
    "image_mset (V(n := v)) (mset_set (insert n X)) = add_mset v (image_mset V (mset_set X))"
proof -
  let ?K = "K(n := [])" let ?V = "V(n := v)"
  have g: "graph X K" "finite X" "set_mset R \<subseteq> X" using assms(1) by (auto simp: counted_def graph_def)
  have kid: "c \<in> X \<and> c \<noteq> n" if "b \<in> X" "c \<in> set (K b)" for b c using that g(1) assms(4) by (auto simp: graph_def)
  have e: "edges (insert n X) ?K = edges X K"
    using edges_insert[OF g(2) assms(4), of ?K] edges_cong[of X ?K K] assms(4) by (metis add_0 fun_upd_apply fun_upd_same mset.simps(1))
  have c0: "counted (h(n \<mapsto> bcell ?V ?K n 0)) X ?V ?K R" by (rule counted_new[OF assms(1,4)])
  obtain h' where h': "binomial_tree_ref (h(n \<mapsto> bcell ?V ?K n 0)) (Some n) = Some h'" "counted h' (insert n X) ?V ?K (add_mset n R)"
    using adopt_ok[of "h(n \<mapsto> bcell ?V ?K n 0)" X ?V ?K R n] c0 assms(4) by auto
  then show "counted (h(n \<mapsto> \<lparr>bt_value = v, bt_order = 0, bt_refcount = 1, bt_subtrees = []\<rparr>)) (insert n X) ?V ?K (add_mset n R)"
    by (simp add: binomial_tree_ref_def bcell_def)
  then have g': "graph (insert n X) ?K" by (simp add: counted_def)
  have "n \<notin># R" "n \<notin># edges X K" using g(3) graph_edges[OF g(1)] assms(4) by auto
  then show "forest (insert n X) ?K (add_mset n R)" using assms(2) g' unfolding forest_def e by (auto simp: not_in_iff)
  show "tree_order le (insert n X) ?V ?K" unfolding tree_order_def
  proof (intro ballI allI impI)
    fix a i assume a: "a \<in> insert n X" "i < length (?K a)"
    then have "a \<in> X" "a \<noteq> n" "i < length (K a)" by (auto split: if_splits)
    then show "length (?K (?K a ! i)) = i \<and> le (?V a) (?V (?K a ! i))"
      using kid[of a "K a ! i"] assms(3) unfolding tree_order_def by auto
  qed
  have "image_mset ?V (mset_set X) = image_mset V (mset_set X)" by (rule image_mset_cong) (use assms(4) g(2) in auto)
  then show "image_mset ?V (mset_set (insert n X)) = add_mset v (image_mset V (mset_set X))" using g(2) assms(4) by simp
qed

lemma unref_leaf:
  assumes "h n = None"
  shows "binomial_tree_unref (h(n \<mapsto> \<lparr>bt_value = v, bt_order = 0, bt_refcount = 1, bt_subtrees = []\<rparr>)) (Some n) = Some h"
proof -
  have "(h(n \<mapsto> e))(n := None) = h" for e using assms by (simp add: fun_eq_iff)
  then show ?thesis
    by (simp add: binomial_tree_unref_def binomial_unref_all.simps[of _ "[Some n]"] binomial_unref_all.simps[of _ "[]"] arr_read_def Let_def c_free_def)
qed

definition insert_memory :: "ptr \<Rightarrow> (ptr \<times> bool) list \<Rightarrow> 'v btheap \<Rightarrow> addr set \<Rightarrow> bool" where
  "insert_memory m1 ms h X \<longleftrightarrow> fresh_trees ms h X \<and> (\<forall>n. m1 = Some n \<longrightarrow> n \<notin> X \<and> h n = None \<and> n \<notin> tree_addrs ms)"

lemma insert_ok:
  assumes "bp_holds h heap X vs" "insert_memory m1 ms h X" "int (size vs) < INT_MAX"
  shows "(\<exists>h' heap' X'. binomial_heap_insert m1 m ms h heap v = Some (1, h', heap') \<and> bp_holds h' heap' X' (add_mset v vs) \<and>
            bp_compare_func heap' = bp_compare_func heap \<and> bp_heap_type heap' = bp_heap_type heap \<and>
            (\<forall>a. a \<notin> X \<union> X' \<longrightarrow> h' a = h a) \<and> (\<forall>a \<in> X - X'. h' a = None) \<and> X' \<subseteq> X \<union> tree_addrs ms \<union> {a. m1 = Some a}) \<or>
         (m1 = NULL \<or> \<not> (m \<and> enough ms 33)) \<and> binomial_heap_insert m1 m ms h heap v = Some (0, h, heap)"
proof (cases m1)
  case None
  then show ?thesis by (simp add: binomial_heap_insert_def)
next
  case (Some n)
  obtain V K rs where s: "bp_shape h heap X V K rs" "image_mset V (mset_set X) = vs" using assms(1) unfolding bp_holds_def by blast
  have n: "n \<notin> X" "h n = None" "n \<notin> tree_addrs ms" using assms(2) Some by (auto simp: insert_memory_def)
  have sh: "counted h X V K (slots rs)" "forest X K (slots rs)" "tree_order (\<lambda>u v. bp_order heap u v \<le> 0) X V K" "ranks K rs" "bounded_comparator (bp_compare_func heap)"
    using s(1) unfolding bp_shape_def by blast+
  let ?h = "h(n \<mapsto> \<lparr>bt_value = v, bt_order = 0, bt_refcount = 1, bt_subtrees = []\<rparr>)"
  let ?X = "insert n X" let ?V = "V(n := v)" let ?K = "K(n := [])"
  define M where "M = \<lparr>mg_le = (\<lambda>u v. bp_order heap u v \<le> 0), mg_h = ?h, mg_V = ?V, mg_K = ?K, mg_X = ?X, mg_R = add_mset n (slots rs), mg_vals = add_mset v vs, mg_A = tree_addrs ms\<rparr>"
  have M: "mg_le M = (\<lambda>u v. bp_order heap u v \<le> 0)" "mg_h M = ?h" "mg_V M = ?V" "mg_K M = ?K" "mg_X M = ?X" "mg_R M = add_mset n (slots rs)" "mg_vals M = add_mset v vs" "mg_A M = tree_addrs ms"
    by (simp_all add: M_def)
  note leaf = new_leaf(1)[OF sh(1-3) n(1), of v] new_leaf(2)[OF sh(1-3) n(1)] new_leaf(3,4)[OF sh(1-3) n(1), of v]
  obtain ex where ex: "bp_roots heap = map Some rs @ ex" using s(1) by (auto simp: bp_shape_def)
  have "set_mset (slots rs) \<subseteq> X" using sh(2) by (simp add: forest_def)
  then have sub: "set_mset (slots rs + slots [Some n]) \<subseteq> mg_X M" "Some n \<notin> set rs" using M n(1) by (auto simp: in_slots)
  have rk: "ranks (mg_K M) rs" "ranks (mg_K M) [Some n]" using sh(4) sub(2) unfolding M ranks_def by (auto dest: nth_mem)
  have inp: "inputs M heap (map Some [Some n]) (int (length [Some n])) rs [Some n] (Suc (max (length rs) (length [Some n])))" "int (Suc (max (length rs) (length [Some n]))) \<le> INT_MAX"
    using bp_inputs[OF s(1) ex refl refl refl refl M(1) _ sub(1) rk] leaf(1) unfolding M by auto
  have st: "stage M (mg_h M) (mg_V M) (mg_K M) ?X {#} (slots rs + slots [Some n])"
    using leaf s(2) assms(2) n(3) unfolding stage_def M by (auto simp: insert_memory_def fresh_trees_def)
  have nt: "new_trees ms (mg_A M) (mg_X M \<union> ?X)" using assms(2) n(3) unfolding M insert_memory_def fresh_trees_def new_trees_def by (auto simp: tree_addrs_def)
  have R: "mg_R M = slots rs + {#n#}" unfolding M by simp
  have mg: "binomial_heap_merge m ms ?h heap [Some (Some n)] 1 = binomial_heap_merge m ms (mg_h M) heap (map Some [Some n]) (int (length [Some n]))" by (simp add: M)
  have sz: "bp_num_values heap = int (size vs)" using s unfolding bp_shape_def by (metis size_image_mset size_mset_set)
  from merge_ok[OF inp(1) refl inp(2) st nt R, of m, folded mg] show ?thesis
  proof (elim disjE exE conjE)
    fix h1 nr k
    assume r: "binomial_heap_merge m ms ?h heap [Some (Some n)] 1 = Some (1, h1, heap\<lparr>bp_roots := map Some nr, bp_roots_length := k\<rparr>)" "merged M {#n#} h1 nr k"
    let ?heap = "heap\<lparr>bp_roots := map Some nr, bp_roots_length := k, bp_num_values := int (size (mg_vals M))\<rparr>"
    obtain h' X' where h': "binomial_tree_unref h1 (Some n) = Some h'" "bp_holds h' ?heap X' (mg_vals M)" "\<forall>a. a \<notin> mg_X M \<union> X' \<longrightarrow> h' a = mg_h M a"
        "\<forall>a \<in> mg_X M - X'. h' a = None" "X' - mg_X M \<subseteq> mg_A M"
      using bp_shape_merged[OF r(2) M(1) sh(5) refl] assms(3) unfolding M by auto
    have "binomial_heap_insert m1 m ms h heap v = Some (1, h', ?heap)"
      using r(1) h'(1) Some sz assms(3) by (simp add: binomial_heap_insert_def Let_def M add.commute)
    moreover have "h' a = h a" if "a \<notin> X \<union> X'" for a using h'(3,4) that n(2) unfolding M by (cases "a = n") auto
    moreover have "X' \<subseteq> X \<union> tree_addrs ms \<union> {a. m1 = Some a}" using h'(5) Some unfolding M by auto
    moreover have "\<forall>a \<in> X - X'. h' a = None" using h'(4) unfolding M by auto
    moreover have "bp_holds h' ?heap X' (add_mset v vs)" using h'(2) M(7) by simp
    moreover have "bp_compare_func ?heap = bp_compare_func heap" "bp_heap_type ?heap = bp_heap_type heap" by simp_all
    ultimately show ?thesis by blast
  next
    assume r: "\<not> (m \<and> enough ms (Suc (max (length rs) (length [Some n]))))" "binomial_heap_merge m ms ?h heap [Some (Some n)] 1 = Some (0, mg_h M, heap)"
    have "binomial_heap_insert m1 m ms h heap v = Some (0, h, heap)"
      using r(2) Some unref_leaf[of h n v, OF n(2)] by (simp add: binomial_heap_insert_def Let_def M)
    moreover have "\<not> (m \<and> enough ms 33)" using r(1) bp_roots_bound[OF s(1)] by (auto simp: enough_def)
    ultimately show ?thesis by blast
  qed
qed

section \<open>Removal of the least value\<close>

definition least_upto :: "'v BinomialHeap \<Rightarrow> (addr \<Rightarrow> 'v) \<Rightarrow> ptr list \<Rightarrow> nat \<Rightarrow> int \<Rightarrow> bool" where
  "least_upto heap V rs k least \<longleftrightarrow> least = -1 \<and> (\<forall>j < k. rs ! j = NULL) \<or>
     (\<exists>l a. least = int l \<and> l < k \<and> rs ! l = Some a \<and> (\<forall>j < k. \<forall>b. rs ! j = Some b \<longrightarrow> bp_order heap (V a) (V b) \<le> 0))"

lemma least_upto_null: "least_upto heap V rs k least \<Longrightarrow> rs ! k = NULL \<Longrightarrow> least_upto heap V rs (Suc k) least"
  unfolding least_upto_def less_Suc_eq by (metis option.distinct(1))

lemma least_upto_some:
  assumes "least_upto heap V rs k least" "rs ! k = Some b" "comparator (bp_order heap)"
  shows "least = -1 \<and> least_upto heap V rs (Suc k) (int k) \<or>
     (\<exists>l a. least = int l \<and> l < k \<and> rs ! l = Some a \<and> least_upto heap V rs (Suc k) (if bp_order heap (V b) (V a) < 0 then int k else least))"
proof -
  note cmp = comparator.cmp_refl[OF assms(3)] comparator.cmp_not_less[OF assms(3)] comparator.cmp_less_trans1[OF assms(3)]
  from assms(1) consider "least = -1" "\<forall>j < k. rs ! j = NULL" |
    l a where "least = int l" "l < k" "rs ! l = Some a" "\<forall>j < k. \<forall>b. rs ! j = Some b \<longrightarrow> bp_order heap (V a) (V b) \<le> 0"
    unfolding least_upto_def by blast
  then show ?thesis
  proof cases
    case 1
    then have "least_upto heap V rs (Suc k) (int k)" using assms(2) cmp(1) unfolding least_upto_def by (auto simp: less_Suc_eq)
    then show ?thesis using 1 by blast
  next
    case 2
    show ?thesis
    proof (cases "bp_order heap (V b) (V a) < 0")
      case True
      then have "bp_order heap (V b) (V c) \<le> 0" if "j < k" "rs ! j = Some c" for j c using 2(4) that cmp(3) by (meson less_imp_le)
      then have "least_upto heap V rs (Suc k) (int k)" using assms(2) cmp(1) unfolding least_upto_def by (auto simp: less_Suc_eq)
      then show ?thesis using 2 True by auto
    next
      case False
      then have "bp_order heap (V a) (V b) \<le> 0" using cmp(2) by blast
      then have "least_upto heap V rs (Suc k) least" using 2 assms(2) unfolding least_upto_def by (auto simp: less_Suc_eq)
      then show ?thesis using 2 False by auto
    qed
  qed
qed

lemma least_loop_ok:
  assumes "bounded_comparator (bp_compare_func heap)" "bp_roots heap = map Some rs @ ex" "counted h X V K (slots rs)"
    and "k \<le> length rs" "least_upto heap V rs k least"
  shows "\<exists>least'. binomial_least_loop h heap (map int [k..<length rs]) least = Some least' \<and> least_upto heap V rs (length rs) least'"
  using assms(4,5)
proof (induction "length rs - k" arbitrary: k least)
  case (Suc d)
  then have k: "k < length rs" "map int [k..<length rs] = int k # map int [Suc k..<length rs]" by (simp_all add: upt_rec)
  have d: "d = length rs - Suc k" "Suc k \<le> length rs" using Suc.hyps(2) k by simp_all
  note IH = Suc.hyps(1)[OF d]
  have g: "arr_get (bp_roots heap) (int l) = Some (rs ! l)" if "l < length rs" for l using that by (simp add: assms(2) nth_append)
  have cell: "\<exists>r. h a = Some (bcell V K a r)" if "l < length rs" "rs ! l = Some a" for l a
  proof -
    have "a \<in># slots rs" using that nth_mem[of l rs] by (simp add: in_slots)
    then show ?thesis using assms(3) counted_cell[OF assms(3)] by (auto simp: counted_def)
  qed
  show ?case
  proof (cases "rs ! k")
    case None
    then show ?thesis using IH[OF least_upto_null[OF Suc.prems(2) None]] k g[OF k(1)] by simp
  next
    case (Some b)
    obtain r where b: "h b = Some (bcell V K b r)" using cell[OF k(1) Some] by blast
    from least_upto_some[OF Suc.prems(2) Some bp_order_comparator[OF assms(1)]] show ?thesis
    proof (elim disjE exE conjE)
      assume "least = -1" "least_upto heap V rs (Suc k) (int k)"
      then show ?thesis using IH[of "int k"] k g[OF k(1)] Some by simp
    next
      fix l a assume l: "least = int l" "l < k" "rs ! l = Some a" "least_upto heap V rs (Suc k) (if bp_order heap (V b) (V a) < 0 then int k else least)"
      obtain r' where a: "h a = Some (bcell V K a r')" using cell[of l a] l k by auto
      have "arr_get (bp_roots heap) (int l) = Some (Some a)" using g[of l] l k by simp
      then show ?thesis using IH[OF l(4)] k g[OF k(1)] Some l(1) a b by (simp add: binomial_heap_cmp_ok[OF assms(1)] split: if_splits)
    qed
  qed
qed simp

text \<open>The least root is the least of all values.\<close>

lemma root_least:
  assumes "forest X K R" "tree_order (\<lambda>u v. cmp u v \<le> 0) X V K" "comparator cmp" "\<And>r. r \<in># R \<Longrightarrow> cmp v (V r) \<le> 0" "c \<in> X"
  shows "cmp v (V c) \<le> 0"
  using assms(5)
proof (induction "2 ^ 16 - length (K c)" arbitrary: c rule: less_induct)
  case less
  show ?case
  proof (cases "c \<in># R")
    case False
    then obtain b where b: "b \<in> X" "c \<in> set (K b)" using forest_covers[OF assms(1)] less.prems unfolding covers_def by blast
    then have "length (K c) < length (K b)" "length (K b) < 2 ^ 16" using assms(1) by (auto simp: forest_def graph_def)
    then have "cmp v (V b) \<le> 0" using less.hyps[OF _ b(1)] by simp
    moreover have "cmp (V b) (V c) \<le> 0" using b assms(2) unfolding tree_order_def by (metis in_set_conv_nth)
    ultimately show ?thesis using comparator.cmp_trans[OF assms(3)] by blast
  qed (rule assms(4))
qed

lemma forest_drop:
  assumes "forest X K (add_mset a R)"
  shows "forest (X - {a}) K (R + mset (K a))"
proof -
  have a: "a \<in> X" "finite X" "graph X K" using assms by (auto simp: forest_def graph_def)
  have one: "count (refs (add_mset a R) X K) a = 1" using assms a(1) unfolding forest_def by blast
  then have n: "a \<notin># R" "a \<notin># edges X K" by (auto simp: not_in_iff)
  then have no: "a \<notin> set (K b)" if "b \<in> X" for b using in_edges[OF a(2), of a K] that by blast
  have e: "refs (add_mset a R) X K = add_mset a (refs (R + mset (K a)) (X - {a}) K)" using edges_remove[OF a(2,1), of K] by simp
  have "graph (X - {a}) K" using a(3) no unfolding graph_def by auto
  moreover have "set_mset (R + mset (K a)) \<subseteq> X - {a}" using assms a n no[OF a(1)] by (auto simp: forest_def graph_def)
  moreover have "count (refs (R + mset (K a)) (X - {a}) K) c = 1" if "c \<in> X - {a}" for c
  proof -
    have "count (refs (add_mset a R) X K) c = 1" using assms that unfolding forest_def by blast
    then show ?thesis unfolding e using that by auto
  qed
  ultimately show ?thesis unfolding forest_def by blast
qed

lemma slots_update: "l < length rs \<Longrightarrow> rs ! l = Some a \<Longrightarrow> slots rs = add_mset a (slots (rs[l := NULL]))"
  by (subst id_take_nth_drop[of l rs], assumption, subst upd_conv_take_nth_drop, assumption) simp

lemma bp_holds_size: "bp_holds h heap X vs \<Longrightarrow> bp_num_values heap = int (size vs) \<and> int (size vs) \<le> INT_MAX"
proof -
  assume "bp_holds h heap X vs"
  then obtain V K rs where s: "bp_shape h heap X V K rs" "image_mset V (mset_set X) = vs" unfolding bp_holds_def by blast
  have "size vs = card X" unfolding s(2)[symmetric] by simp
  then show ?thesis using s(1) by (simp add: bp_shape_def)
qed

lemma pop_empty_ok: "bp_holds h heap X {#} \<Longrightarrow> binomial_heap_pop m ms h heap = Some (None, h, heap)"
  using bp_holds_size[of h heap X "{#}"] by (simp add: binomial_heap_pop_def)

text \<open>The merge of a pop, with the least root \<open>a\<close> at index \<open>l\<close>.\<close>

lemma pop_merge:
  assumes "bp_shape h heap X V K rs" "l < length rs" "rs ! l = Some a" "fresh_trees ms h X" "bp_roots heap = map Some rs @ ex"
    "M = \<lparr>mg_le = (\<lambda>u v. bp_order heap u v \<le> 0), mg_h = h, mg_V = V, mg_K = K, mg_X = X, mg_R = slots rs, mg_vals = image_mset V (mset_set (X - {a})), mg_A = tree_addrs ms\<rparr>"
  shows "(\<exists>h' nr n. binomial_heap_merge m ms h (heap\<lparr>bp_roots := map Some (rs[l := NULL]) @ ex\<rparr>) (map (\<lambda>c. Some (Some c)) (K a)) (int (length (K a))) =
             Some (1, h', heap\<lparr>bp_roots := map Some nr, bp_roots_length := n\<rparr>) \<and> merged M {#a#} h' nr n) \<or>
         \<not> (m \<and> enough ms 33) \<and> binomial_heap_merge m ms h (heap\<lparr>bp_roots := map Some (rs[l := NULL]) @ ex\<rparr>) (map (\<lambda>c. Some (Some c)) (K a)) (int (length (K a))) =
             Some (0, h, heap\<lparr>bp_roots := map Some (rs[l := NULL]) @ ex\<rparr>)"
proof -
  have M: "mg_le M = (\<lambda>u v. bp_order heap u v \<le> 0)" "mg_h M = h" "mg_V M = V" "mg_K M = K" "mg_X M = X" "mg_R M = slots rs" "mg_vals M = image_mset V (mset_set (X - {a}))" "mg_A M = tree_addrs ms"
    unfolding assms(6) by simp_all
  have sh: "counted h X V K (slots rs)" "forest X K (slots rs)" "tree_order (\<lambda>u v. bp_order heap u v \<le> 0) X V K" "ranks K rs" "bounded_comparator (bp_compare_func heap)"
    using assms(1) unfolding bp_shape_def by blast+
  let ?rs = "rs[l := NULL]" let ?os = "map Some (K a)" let ?heap = "heap\<lparr>bp_roots := map Some ?rs @ ex\<rparr>"
  have sl: "slots rs = add_mset a (slots ?rs)" by (rule slots_update[OF assms(2,3)])
  have aX: "a \<in> X" "length (K a) = l" using sh(2,4) sl assms(2,3) by (auto simp: forest_def ranks_def)
  have fd: "forest (X - {a}) K (slots ?rs + mset (K a))" using forest_drop[of X K a "slots ?rs"] sh(2) sl by simp
  have rk: "ranks (mg_K M) ?rs" unfolding M ranks_def
  proof (intro allI impI)
    fix i b assume i: "i < length ?rs" "?rs ! i = Some b"
    then have "rs ! i = Some b" "i < length rs" by (cases "i = l"; simp)+
    then show "length (K b) = i" using sh(4) by (simp add: ranks_def)
  qed
  have rk': "ranks (mg_K M) ?os" using sh(3) aX(1) unfolding M ranks_def tree_order_def by auto
  have sub: "set_mset (slots ?rs + slots ?os) \<subseteq> mg_X M" using fd unfolding M forest_def by auto
  have lo: "length ?os \<le> 32" using aX(2) assms(2) bp_roots_bound[OF assms(1)] by simp
  have inp: "inputs M ?heap (map Some ?os) (int (length ?os)) ?rs ?os (Suc (max (length ?rs) (length ?os)))" "int (Suc (max (length ?rs) (length ?os))) \<le> INT_MAX"
    using bp_inputs[where heap' = ?heap, OF assms(1) _ _ _ _ _ M(1) _ sub rk rk' lo] sh(1) unfolding M by auto
  have "tree_order (\<lambda>u v. bp_order heap u v \<le> 0) (X - {a}) V K" using sh(3) by (auto simp: tree_order_def)
  then have st: "stage M (mg_h M) (mg_V M) (mg_K M) (X - {a}) {#} (slots ?rs + slots ?os)"
    using sh(1,2) fd assms(4) unfolding stage_def M by (auto simp: Un_absorb2 fresh_trees_def)
  have nt: "new_trees ms (mg_A M) (mg_X M \<union> (X - {a}))" using assms(4) unfolding M by (auto simp: new_trees_def fresh_trees_def tree_addrs_def)
  have R: "mg_R M = slots ?rs + {#a#}" unfolding M sl by simp
  have o: "map Some ?os = map (\<lambda>c. Some (Some c)) (K a)" "length ?os = length (K a)" by simp_all
  have e: "enough ms 33 \<Longrightarrow> enough ms (Suc (max (length ?rs) (length ?os)))" using bp_roots_bound[OF assms(1)] lo by (auto simp: enough_def)
  show ?thesis using merge_ok[OF inp(1) refl inp(2) st nt R, of m] e unfolding M o by auto
qed

lemma pop_ok:
  assumes "bp_holds h heap X vs" "vs \<noteq> {#}" "fresh_trees ms h X"
  shows "(\<exists>v h' heap' X'. binomial_heap_pop m ms h heap = Some (Some v, h', heap') \<and> v \<in># vs \<and> (\<forall>u \<in># vs. bp_order heap v u \<le> 0) \<and>
            bp_holds h' heap' X' (vs - {#v#}) \<and> bp_compare_func heap' = bp_compare_func heap \<and> bp_heap_type heap' = bp_heap_type heap \<and>
            (\<forall>a. a \<notin> X \<union> X' \<longrightarrow> h' a = h a) \<and> (\<forall>a \<in> X - X'. h' a = None) \<and> X' \<subseteq> X \<union> tree_addrs ms) \<or>
         \<not> (m \<and> enough ms 33) \<and> binomial_heap_pop m ms h heap = Some (None, h, heap)"
proof -
  obtain V K rs where s: "bp_shape h heap X V K rs" "image_mset V (mset_set X) = vs" using assms(1) unfolding bp_holds_def by blast
  have sh: "counted h X V K (slots rs)" "forest X K (slots rs)" "tree_order (\<lambda>u v. bp_order heap u v \<le> 0) X V K" "bounded_comparator (bp_compare_func heap)"
      "bp_num_values heap = int (card X)" "bp_roots_length heap = int (length rs)" "int (card X) \<le> INT_MAX"
    using s(1) unfolding bp_shape_def by blast+
  obtain ex where ex: "bp_roots heap = map Some rs @ ex" using s(1) by (auto simp: bp_shape_def)
  have fin: "finite X" "X \<noteq> {}" using sh(2) s(2) assms(2) by (auto simp: forest_def graph_def)
  have n0: "bp_num_values heap \<noteq> 0" using sh(5) fin by simp
  obtain least where ll: "binomial_least_loop h heap (map int [0..<length rs]) (-1) = Some least" "least_upto heap V rs (length rs) least"
    using least_loop_ok[OF sh(4) ex sh(1), of 0 "-1"] by (auto simp: least_upto_def)
  have "slots rs \<noteq> {#}"
  proof
    assume "slots rs = {#}"
    then have "covers X K {#}" using forest_covers[OF sh(2)] by simp
    moreover have "covers {} K {#}" by (simp add: covers_def graph_def)
    ultimately show False using covers_unique fin(2) by blast
  qed
  then obtain b where "b \<in># slots rs" by blast
  then obtain j where "j < length rs" "rs ! j = Some b" by (auto simp: in_slots in_set_conv_nth)
  then obtain l a where l: "least = int l" "l < length rs" "rs ! l = Some a" "\<And>j b. j < length rs \<Longrightarrow> rs ! j = Some b \<Longrightarrow> bp_order heap (V a) (V b) \<le> 0"
    using ll(2) unfolding least_upto_def by auto
  have aX: "a \<in> X" using sh(2) slots_update[OF l(2,3)] by (simp add: forest_def)
  have all: "bp_order heap (V a) (V c) \<le> 0" if "c \<in> X" for c
    by (rule root_least[OF sh(2,3) bp_order_comparator[OF sh(4)] _ that]) (use l(4) in \<open>auto simp: in_slots in_set_conv_nth\<close>)
  define M where "M = \<lparr>mg_le = (\<lambda>u v. bp_order heap u v \<le> 0), mg_h = h, mg_V = V, mg_K = K, mg_X = X, mg_R = slots rs, mg_vals = image_mset V (mset_set (X - {a})), mg_A = tree_addrs ms\<rparr>"
  have vs: "vs = add_mset (V a) (mg_vals M)" unfolding M_def using s(2) mset_set.remove[OF fin(1) aX] by auto
  let ?heap = "heap\<lparr>bp_roots := map Some (rs[l := NULL]) @ ex\<rparr>"
  have cell: "h a = Some (bcell V K a (of_nat (count (refs (slots rs) X K) a)))" by (rule counted_cell[OF sh(1) aX])
  have len: "uint (of_nat (length (K a)) :: u16) = int (length (K a))"
  proof -
    have "length (K a) < 2 ^ 16" using sh(1) aX by (auto simp: counted_def graph_def)
    then show ?thesis by (simp add: unsigned_of_nat take_bit_nat_eq_self)
  qed
  have get: "arr_get (bp_roots heap) (int l) = Some (Some a)" "arr_set (bp_roots heap) (int l) NULL = Some (map Some (rs[l := NULL]) @ ex)"
    "arr_set (map Some (rs[l := NULL]) @ ex) (int l) (Some a) = Some (bp_roots heap)"
  proof -
    show "arr_get (bp_roots heap) (int l) = Some (Some a)" "arr_set (bp_roots heap) (int l) NULL = Some (map Some (rs[l := NULL]) @ ex)"
      using l(2,3) ex by (auto simp: nth_append list_update_append map_update arr_set_def)
    have "rs[l := Some a] = rs" using l(3) list_update_id by metis
    then show "arr_set (map Some (rs[l := NULL]) @ ex) (int l) (Some a) = Some (bp_roots heap)"
      using l(2) ex by (simp add: list_update_append map_update[symmetric] arr_set_def)
  qed
  have pop: "binomial_heap_pop m ms h heap = do {
      (result, h, heap) \<leftarrow> binomial_heap_merge m ms h ?heap (map (\<lambda>c. Some (Some c)) (K a)) (int (length (K a)));
      if result \<noteq> 0 then do {
        e \<leftarrow> deref h (Some a); h \<leftarrow> binomial_tree_unref h (Some a); n \<leftarrow> c_int (bp_num_values heap - 1); Some (Some (bt_value e), h, heap\<lparr>bp_num_values := n\<rparr>) }
      else do { roots \<leftarrow> arr_set (bp_roots heap) (int l) (Some a); Some (None, h, heap\<lparr>bp_roots := roots\<rparr>) } }"
    using n0 ll(1) l(1) sh(6) get(1,2) cell len by (simp add: binomial_heap_pop_def Let_def)
  from pop_merge[OF s(1) l(2,3) assms(3) ex M_def, of m] show ?thesis
  proof (elim disjE exE conjE)
    fix h1 nr n
    assume r: "binomial_heap_merge m ms h ?heap (map (\<lambda>c. Some (Some c)) (K a)) (int (length (K a))) = Some (1, h1, heap\<lparr>bp_roots := map Some nr, bp_roots_length := n\<rparr>)" "merged M {#a#} h1 nr n"
    let ?heap' = "heap\<lparr>bp_roots := map Some nr, bp_roots_length := n, bp_num_values := int (size (mg_vals M))\<rparr>"
    have M: "mg_le M = (\<lambda>u v. bp_order heap u v \<le> 0)" "mg_h M = h" "mg_V M = V" "mg_X M = X" "mg_A M = tree_addrs ms" by (simp_all add: M_def)
    have sz: "int (card X) = int (size (mg_vals M)) + 1" using arg_cong[OF vs, of size] s(2) by (metis size_add_mset size_image_mset size_mset_set of_nat_Suc add.commute)
    obtain h' X' where h': "binomial_tree_unref h1 (Some a) = Some h'" "bp_holds h' ?heap' X' (mg_vals M)" "\<forall>c. c \<notin> mg_X M \<union> X' \<longrightarrow> h' c = mg_h M c"
        "\<forall>c \<in> mg_X M - X'. h' c = None" "X' - mg_X M \<subseteq> mg_A M"
      using bp_shape_merged[OF r(2) M(1) sh(4) refl] sz sh(7) by auto
    obtain e where e: "h1 a = Some e" "bt_value e = V a" using merged_drop[OF r(2)] aX unfolding M by auto
    have "binomial_heap_pop m ms h heap = Some (Some (V a), h', ?heap')"
      unfolding pop using r(1) e h'(1) sh(5,7) sz by simp
    moreover have "\<forall>u \<in># vs. bp_order heap (V a) u \<le> 0" using s(2) all fin(1) by auto
    moreover have "V a \<in># vs" "vs - {#V a#} = mg_vals M" unfolding vs by simp_all
    moreover have "bp_compare_func ?heap' = bp_compare_func heap" "bp_heap_type ?heap' = bp_heap_type heap" by simp_all
    moreover have "X' \<subseteq> X \<union> tree_addrs ms" using h'(5) unfolding M by auto
    ultimately show ?thesis using h'(2-4) unfolding M by metis
  next
    assume r: "\<not> (m \<and> enough ms 33)" "binomial_heap_merge m ms h ?heap (map (\<lambda>c. Some (Some c)) (K a)) (int (length (K a))) = Some (0, h, ?heap)"
    have "binomial_heap_pop m ms h heap = Some (None, h, heap)" unfolding pop using r(2) get(3) by simp
    then show ?thesis using r(1) by blast
  qed
qed

lemma free_ok:
  assumes "bp_holds h heap X vs"
  shows "binomial_heap_free h heap = Some (\<lambda>a. if a \<in> X then None else h a)"
proof -
  obtain V K rs where s: "bp_shape h heap X V K rs" using assms unfolding bp_holds_def by blast
  have c: "counted h X V K ({#} + slots rs)" using s by (simp add: bp_shape_def)
  have "covers {} K {#}" by (simp add: covers_def graph_def)
  from unref_covers[OF c this] obtain h' where h': "binomial_unref_all h rs = Some h'" "\<forall>a \<in> X. h' a = None" "\<forall>a. a \<notin> X \<longrightarrow> h' a = h a" by auto
  then have "h' = (\<lambda>a. if a \<in> X then None else h a)" by auto
  moreover obtain ex where "bp_roots heap = map Some rs @ ex" "bp_roots_length heap = int (length rs)" using s by (auto simp: bp_shape_def)
  ultimately show ?thesis using h'(1) by (simp add: binomial_heap_free_def)
qed

section \<open>The heap as a priority queue\<close>

text \<open>
  A client state: the tree heap, the BinomialHeap struct and an allocator that returns fresh
  addresses from \<open>next\<close> on.
\<close>

type_synonym 'v bp_state = "'v btheap \<times> 'v BinomialHeap \<times> addr"

definition alloc_from :: "addr \<Rightarrow> (ptr \<times> bool) list" where
  "alloc_from s = map (\<lambda>i. (Some (s + i), True)) [1..<34]"

definition bp_inv :: "'v bp_state \<Rightarrow> bool" where
  "bp_inv s \<longleftrightarrow> (case s of (h, heap, s) \<Rightarrow> (\<exists>X vs. bp_holds h heap X vs \<and> (\<forall>a \<in> X. a < s)) \<and> (\<forall>a \<ge> s. h a = None))"

text \<open>The trees and their values are determined by the heap.\<close>

lemma counted_agree: "counted h X V K R \<Longrightarrow> counted h X' V' K' R' \<Longrightarrow> a \<in> X \<Longrightarrow> a \<in> X' \<Longrightarrow> V a = V' a \<and> K a = K' a"
proof -
  assume c: "counted h X V K R" "counted h X' V' K' R'" "a \<in> X" "a \<in> X'"
  have "bcell V K a (of_nat (count (refs R X K) a)) = bcell V' K' a (of_nat (count (refs R' X' K') a))"
    using counted_cell[OF c(1,3)] counted_cell[OF c(2,4)] by simp
  then have "V a = V' a" "map (\<lambda>c. Some (Some c)) (K a) = map (\<lambda>c. Some (Some c)) (K' a)" by (auto simp: bcell_def)
  then show ?thesis using inj_map_eq_map[of "\<lambda>c. Some (Some c)"] by (auto simp: inj_def)
qed

lemma counted_subset:
  assumes "counted h X V K R" "counted h X' V' K' R"
  shows "X \<subseteq> X'"
proof
  fix a assume "a \<in> X"
  then show "a \<in> X'"
  proof (induction "2 ^ 16 - length (K a)" arbitrary: a rule: less_induct)
    case less
    show ?case
    proof (cases "a \<in># R")
      case True
      then show ?thesis using assms(2) by (auto simp: counted_def)
    next
      case False
      then obtain b where b: "b \<in> X" "a \<in> set (K b)" using counted_covers[OF assms(1)] less.prems unfolding covers_def by blast
      then have "length (K a) < length (K b)" "length (K b) < 2 ^ 16" using assms(1) by (auto simp: counted_def graph_def)
      then have "b \<in> X'" using less.hyps[OF _ b(1)] by simp
      moreover from this have "K b = K' b" using counted_agree[OF assms b(1)] by simp
      ultimately show ?thesis using b(2) assms(2) by (auto simp: counted_def graph_def)
    qed
  qed
qed

lemma bp_holds_unique:
  assumes "bp_holds h heap X vs" "bp_holds h heap X' vs'"
  shows "X = X' \<and> vs = vs'"
proof -
  obtain V K rs V' K' rs' where s: "bp_shape h heap X V K rs" "image_mset V (mset_set X) = vs" "bp_shape h heap X' V' K' rs'" "image_mset V' (mset_set X') = vs'"
    using assms unfolding bp_holds_def by blast
  obtain ex ex' where e: "map Some rs @ ex = map Some rs' @ ex'" "length rs = length rs'" using s(1,3) by (auto simp: bp_shape_def)
  then have "rs = rs'" by (auto simp: append_eq_append_conv inj_map_eq_map inj_def)
  then have c: "counted h X V K (slots rs)" "counted h X' V' K' (slots rs)" using s(1,3) by (auto simp: bp_shape_def)
  have X: "X = X'" using counted_subset[OF c] counted_subset[OF c(2,1)] by blast
  have "image_mset V (mset_set X) = image_mset V' (mset_set X)"
    by (rule image_mset_cong) (use counted_agree[OF c] X c(1) in \<open>auto simp: counted_def graph_def\<close>)
  then show ?thesis using X s(2,4) by simp
qed

definition bp_elems :: "'v bp_state \<Rightarrow> 'v multiset" where
  "bp_elems s = (case s of (h, heap, s) \<Rightarrow> THE vs. \<exists>X. bp_holds h heap X vs)"

lemma bp_elems_eq: "bp_holds h heap X vs \<Longrightarrow> bp_elems (h, heap, s) = vs"
proof -
  assume v: "bp_holds h heap X vs"
  have "(THE vs. \<exists>X. bp_holds h heap X vs) = vs"
  proof (rule the_equality)
    show "\<exists>X. bp_holds h heap X vs" using v by blast
    fix us assume "\<exists>X. bp_holds h heap X us"
    then obtain Y where "bp_holds h heap Y us" by blast
    from bp_holds_unique[OF this v] show "us = vs" by simp
  qed
  then show ?thesis by (simp add: bp_elems_def)
qed

definition bp_pop :: "'v bp_state \<Rightarrow> ('v option \<times> 'v bp_state) option" where
  "bp_pop s = (case s of (h, heap, s) \<Rightarrow> map_option (\<lambda>(r, h, heap). (r, h, heap, s + (if r = None then 0 else 34))) (binomial_heap_pop True (alloc_from s) h heap))"

definition bp_insert :: "'v bp_state \<Rightarrow> 'v \<Rightarrow> 'v bp_state option" where
  "bp_insert s v = (case s of (h, heap, s) \<Rightarrow> map_option (\<lambda>(r, h, heap). (h, heap, s + 34)) (binomial_heap_insert (Some s) True (alloc_from s) h heap v))"

lemma alloc_from_enough: "enough (alloc_from s) 33"
  by (auto simp: enough_def alloc_from_def)

lemma alloc_from_addr: "n \<in> tree_addrs (alloc_from s) \<Longrightarrow> s < n \<and> n < s + 34"
  by (auto simp: tree_addrs_def alloc_from_def image_image)

lemma alloc_from_new: "(\<forall>a \<in> X. a < s) \<Longrightarrow> (\<forall>a \<ge> s. h a = None) \<Longrightarrow> fresh_trees (alloc_from s) h X"
proof -
  assume a: "\<forall>a \<in> X. a < s" "\<forall>a \<ge> s. h a = None"
  have "distinct (map fst (alloc_from s))" by (auto simp: alloc_from_def distinct_map inj_on_def)
  then have "distinct (filter (\<lambda>p. p \<noteq> NULL) (map fst (alloc_from s)))" by (rule distinct_filter)
  moreover have "n \<notin> X \<and> h n = None" if "n \<in> tree_addrs (alloc_from s)" for n
    using alloc_from_addr[OF that] a by (meson less_imp_le not_less)
  ultimately show ?thesis unfolding fresh_trees_def by blast
qed

lemma bp_inv_next:
  assumes "bp_holds h' heap' X' vs'" "X' \<subseteq> X \<union> B" "\<forall>a \<in> X. a < s" "\<forall>a \<in> B. a < s + 34" "\<forall>a \<ge> s. h a = None" "\<forall>a. a \<notin> X \<union> X' \<longrightarrow> h' a = h a"
  shows "bp_inv (h', heap', s + 34)"
proof -
  have "\<forall>a \<in> X'. a < s + 34" using assms(2-4) by (meson Un_iff subsetD trans_less_add1)
  moreover have "h' a = None" if "s + 34 \<le> a" for a
  proof -
    have "a \<notin> X" "a \<notin> X'" using that assms(3) calculation by (auto dest!: bspec)
    then show ?thesis using assms(5,6) that by simp
  qed
  ultimately show ?thesis unfolding bp_inv_def using assms(1) by auto
qed

lemma bp_order_cong: "bp_compare_func heap' = bp_compare_func heap \<Longrightarrow> bp_heap_type heap' = bp_heap_type heap \<Longrightarrow> bp_order heap' = bp_order heap"
  by (simp add: bp_order_def)

definition bp_below :: "'v bp_state \<Rightarrow> 'v \<Rightarrow> 'v \<Rightarrow> bool" where
  "bp_below s x y \<longleftrightarrow> bp_order (fst (snd s)) x y \<le> 0"

interpretation bp: priority_queue bp_inv bp_elems bp_below bp_pop
proof
  fix st :: "'a bp_state"
  assume "bp_inv st"
  then obtain h heap s X vs where st: "st = (h, heap, s)" "bp_holds h heap X vs" "\<forall>a \<in> X. a < s" "\<forall>a \<ge> s. h a = None"
    unfolding bp_inv_def by (auto split: prod.splits)
  have el: "bp_elems st = vs" using bp_elems_eq[OF st(2)] st(1) by simp
  show "bp_pop st = Some (None, st)" if "bp_elems st = {#}"
    using pop_empty_ok[of h heap X] st(2) that el st(1) by (simp add: bp_pop_def)
  assume ne: "bp_elems st \<noteq> {#}"
  have fr: "fresh_trees (alloc_from s) h X" by (rule alloc_from_new[OF st(3,4)])
  obtain v h' heap' X' where p: "binomial_heap_pop True (alloc_from s) h heap = Some (Some v, h', heap')" "v \<in># vs" "\<forall>u \<in># vs. bp_order heap v u \<le> 0"
      "bp_holds h' heap' X' (vs - {#v#})" "bp_compare_func heap' = bp_compare_func heap" "bp_heap_type heap' = bp_heap_type heap"
      "\<forall>a. a \<notin> X \<union> X' \<longrightarrow> h' a = h a" "X' \<subseteq> X \<union> tree_addrs (alloc_from s)"
    using pop_ok[OF st(2) _ fr, of True] ne el alloc_from_enough by auto
  have "\<forall>a \<in> tree_addrs (alloc_from s). a < s + 34" using alloc_from_addr by blast
  then have "bp_inv (h', heap', s + 34)" using bp_inv_next[OF p(4,8) st(3) _ st(4) p(7)] by blast
  moreover have "bp_elems (h', heap', s + 34) = vs - {#v#}" by (rule bp_elems_eq[OF p(4)])
  moreover have "bp_below (h', heap', s + 34) = bp_below st" unfolding bp_below_def st(1) using bp_order_cong[OF p(5,6)] by simp
  moreover have "bp_pop st = Some (Some v, h', heap', s + 34)" using p(1) st(1) by (simp add: bp_pop_def)
  ultimately show "\<exists>v st'. bp_pop st = Some (Some v, st') \<and> bp_inv st' \<and> bp_below st' = bp_below st \<and>
      bp_elems st = add_mset v (bp_elems st') \<and> (\<forall>x \<in># bp_elems st. bp_below st v x)"
    using p(2,3) el st(1) by (intro exI[of _ v] exI[of _ "(h', heap', s + 34)"]) (auto simp: bp_below_def)
qed

primrec bp_insert_all :: "'v list \<Rightarrow> 'v bp_state \<Rightarrow> 'v bp_state option" where
  "bp_insert_all [] st = Some st"
| "bp_insert_all (v # vs) st = do { st \<leftarrow> bp_insert st v; bp_insert_all vs st }"

lemma bp_insert_ok:
  assumes "bp_inv st" "int (size (bp_elems st)) < INT_MAX"
  shows "\<exists>st'. bp_insert st v = Some st' \<and> bp_inv st' \<and> bp_elems st' = add_mset v (bp_elems st) \<and> bp_below st' = bp_below st"
proof -
  obtain h heap s X vs where st: "st = (h, heap, s)" "bp_holds h heap X vs" "\<forall>a \<in> X. a < s" "\<forall>a \<ge> s. h a = None"
    using assms(1) unfolding bp_inv_def by (auto split: prod.splits)
  have el: "bp_elems st = vs" using bp_elems_eq[OF st(2)] st(1) by simp
  have mem: "insert_memory (Some s) (alloc_from s) h X"
    using alloc_from_new[OF st(3,4)] st(3,4) alloc_from_addr unfolding insert_memory_def by auto
  obtain h' heap' X' where p: "binomial_heap_insert (Some s) True (alloc_from s) h heap v = Some (1, h', heap')" "bp_holds h' heap' X' (add_mset v vs)"
      "bp_compare_func heap' = bp_compare_func heap" "bp_heap_type heap' = bp_heap_type heap"
      "\<forall>a. a \<notin> X \<union> X' \<longrightarrow> h' a = h a" "X' \<subseteq> X \<union> (tree_addrs (alloc_from s) \<union> {s})"
    using insert_ok[OF st(2) mem, of True v] assms(2) el alloc_from_enough by (auto simp: Un_assoc)
  have "\<forall>a \<in> tree_addrs (alloc_from s) \<union> {s}. a < s + 34" using alloc_from_addr by auto
  then have "bp_inv (h', heap', s + 34)" using bp_inv_next[OF p(2,6) st(3) _ st(4) p(5)] by blast
  moreover have "bp_elems (h', heap', s + 34) = add_mset v vs" by (rule bp_elems_eq[OF p(2)])
  moreover have "bp_below (h', heap', s + 34) = bp_below st" unfolding bp_below_def st(1) using bp_order_cong[OF p(3,4)] by simp
  ultimately show ?thesis using p(1) st(1) el by (auto simp: bp_insert_def)
qed

lemma bp_insert_all_ok:
  "bp_inv st \<Longrightarrow> int (size (bp_elems st) + length vs) \<le> INT_MAX \<Longrightarrow>
   \<exists>st'. bp_insert_all vs st = Some st' \<and> bp_inv st' \<and> bp_elems st' = mset vs + bp_elems st \<and> bp_below st' = bp_below st"
proof (induction vs arbitrary: st)
  case (Cons v vs)
  then obtain st1 where st1: "bp_insert st v = Some st1" "bp_inv st1" "bp_elems st1 = add_mset v (bp_elems st)" "bp_below st1 = bp_below st"
    using bp_insert_ok[of st v] by auto
  then show ?case using Cons.IH[OF st1(2)] Cons.prems(2) by auto
qed simp

lemma bp_holds_new: "binomial_heap_new True ty cmp = Some heap \<Longrightarrow> bounded_comparator cmp \<Longrightarrow> bp_holds h heap {} {#}"
  by (auto simp: binomial_heap_new_def bp_holds_def bp_shape_def counted_def forest_def graph_def ranks_def tree_order_def edges_def c_int_bounds)

section \<open>Properties\<close>

text \<open>C3: binomial_heap_insert adds exactly the given value, keeps the invariant of the heap with all
  reference counts, frees the trees that are no longer used and touches no other memory; if any of
  its allocations fails it returns 0 and undoes everything, so that the heap and all trees are
  exactly what they were.\<close>

theorem binomial_heap_insert_spec:
  assumes "bp_holds h heap X vs" "insert_memory m1 ms h X" "int (size vs) < INT_MAX"
  shows "(\<exists>h' heap' X'. binomial_heap_insert m1 m ms h heap v = Some (1, h', heap') \<and> bp_holds h' heap' X' (add_mset v vs) \<and>
            bp_order heap' = bp_order heap \<and> binomial_heap_num_entries heap' = binomial_heap_num_entries heap + 1 \<and>
            (\<forall>a. a \<notin> X \<union> X' \<longrightarrow> h' a = h a) \<and> (\<forall>a \<in> X - X'. h' a = None) \<and> X' \<subseteq> X \<union> tree_addrs ms \<union> {a. m1 = Some a}) \<or>
         (m1 = NULL \<or> \<not> (m \<and> enough ms 33)) \<and> binomial_heap_insert m1 m ms h heap v = Some (0, h, heap)"
  using insert_ok[OF assms, of m v]
proof (elim disjE exE conjE)
  fix h' heap' X'
  assume r: "binomial_heap_insert m1 m ms h heap v = Some (1, h', heap')" "bp_holds h' heap' X' (add_mset v vs)"
    "bp_compare_func heap' = bp_compare_func heap" "bp_heap_type heap' = bp_heap_type heap"
    "\<forall>a. a \<notin> X \<union> X' \<longrightarrow> h' a = h a" "\<forall>a \<in> X - X'. h' a = None" "X' \<subseteq> X \<union> tree_addrs ms \<union> {a. m1 = Some a}"
  have "binomial_heap_num_entries heap' = binomial_heap_num_entries heap + 1"
    using bp_holds_size[OF r(2)] bp_holds_size[OF assms(1)] by (simp add: binomial_heap_num_entries_def)
  then show ?thesis using r bp_order_cong[OF r(3,4)] by blast
qed auto

theorem binomial_heap_insert_spec_witness:
  "\<exists>h' heap' X'. binomial_heap_insert (Some 1) True (alloc_from 1) Map.empty
     \<lparr>bp_heap_type = BINOMIAL_HEAP_TYPE_MIN, bp_compare_func = int_compare, bp_num_values = 0, bp_roots = [], bp_roots_length = 0\<rparr> 5 = Some (1, h', heap') \<and>
     bp_holds h' heap' X' {#5#}"
proof -
  let ?heap = "\<lparr>bp_heap_type = BINOMIAL_HEAP_TYPE_MIN, bp_compare_func = int_compare, bp_num_values = 0, bp_roots = [], bp_roots_length = 0\<rparr>"
  have "bp_holds Map.empty ?heap {} {#}"
    by (rule bp_holds_new[OF _ int_cmp.bounded_comparator_axioms]) (simp add: binomial_heap_new_def)
  moreover have "insert_memory (Some 1) (alloc_from 1) (Map.empty :: int btheap) {}"
    using alloc_from_new[of "{}" 1 Map.empty] alloc_from_addr unfolding insert_memory_def by auto
  ultimately show ?thesis using binomial_heap_insert_spec[of Map.empty ?heap "{}" "{#}" "Some 1" "alloc_from 1" True 5] alloc_from_enough
    by (auto simp: c_int_bounds)
qed

text \<open>C4: binomial_heap_pop returns NULL on an empty heap; otherwise it removes and returns a value
  that no other value of the heap precedes, keeps the invariant and frees the trees that are no
  longer used, or, only if an allocation fails, returns NULL and leaves the heap and all trees
  exactly as they were.\<close>

theorem binomial_heap_pop_spec:
  assumes "bp_holds h heap X vs" "fresh_trees ms h X"
  shows "if binomial_heap_num_entries heap = 0 then binomial_heap_pop m ms h heap = Some (None, h, heap)
         else (\<exists>v h' heap' X'. binomial_heap_pop m ms h heap = Some (Some v, h', heap') \<and> v \<in># vs \<and> (\<forall>u \<in># vs. bp_order heap v u \<le> 0) \<and>
            bp_holds h' heap' X' (vs - {#v#}) \<and> bp_order heap' = bp_order heap \<and>
            (\<forall>a. a \<notin> X \<union> X' \<longrightarrow> h' a = h a) \<and> (\<forall>a \<in> X - X'. h' a = None) \<and> X' \<subseteq> X \<union> tree_addrs ms) \<or>
         \<not> (m \<and> enough ms 33) \<and> binomial_heap_pop m ms h heap = Some (None, h, heap)"
proof (cases "vs = {#}")
  case True
  then show ?thesis using bp_holds_size[OF assms(1)] pop_empty_ok[of h heap X m ms] assms(1) by (simp add: binomial_heap_num_entries_def)
next
  case False
  then have n: "binomial_heap_num_entries heap \<noteq> 0" using bp_holds_size[OF assms(1)] by (simp add: binomial_heap_num_entries_def)
  from pop_ok[OF assms(1) False assms(2), of m] show ?thesis
  proof (elim disjE exE conjE)
    fix v h' heap' X'
    assume "binomial_heap_pop m ms h heap = Some (Some v, h', heap')" "v \<in># vs" "\<forall>u \<in># vs. bp_order heap v u \<le> 0" "bp_holds h' heap' X' (vs - {#v#})"
      "bp_compare_func heap' = bp_compare_func heap" "bp_heap_type heap' = bp_heap_type heap"
      "\<forall>a. a \<notin> X \<union> X' \<longrightarrow> h' a = h a" "\<forall>a \<in> X - X'. h' a = None" "X' \<subseteq> X \<union> tree_addrs ms"
    then show ?thesis unfolding if_not_P[OF n] using bp_order_cong[of heap' heap] by (intro disjI1 exI[of _ v] exI[of _ h'] exI[of _ heap'] exI[of _ X']) simp
  qed (use n in auto)
qed

definition one_root_heap :: "int BinomialHeap" where
  "one_root_heap = \<lparr>bp_heap_type = BINOMIAL_HEAP_TYPE_MIN, bp_compare_func = int_compare, bp_num_values = 1, bp_roots = [Some (Some 1)], bp_roots_length = 1\<rparr>"

definition one_root_mem :: "int btheap" where
  "one_root_mem = [1 \<mapsto> \<lparr>bt_value = 7, bt_order = 0, bt_refcount = 1, bt_subtrees = []\<rparr>]"

lemma one_root_holds: "bp_holds one_root_mem one_root_heap {1} {#7#}"
proof -
  have "bp_shape one_root_mem one_root_heap {1} (\<lambda>_. 7) (\<lambda>_. []) [Some 1]"
    using int_cmp.bounded_comparator_axioms
    by (simp add: bp_shape_def one_root_heap_def one_root_mem_def counted_def forest_def graph_def ranks_def tree_order_def edges_def bcell_def c_int_bounds)
  then show ?thesis unfolding bp_holds_def by fastforce
qed

theorem binomial_heap_pop_spec_witness:
  "\<exists>h' heap' X'. binomial_heap_pop True (alloc_from 2) one_root_mem one_root_heap = Some (Some 7, h', heap') \<and> bp_holds h' heap' X' {#}"
proof -
  have "fresh_trees (alloc_from 2) one_root_mem {1}" by (rule alloc_from_new) (auto simp: one_root_mem_def)
  from binomial_heap_pop_spec[OF one_root_holds this, of True] show ?thesis
    using alloc_from_enough by (auto simp: binomial_heap_num_entries_def one_root_heap_def)
qed

lemma binomial_heap_sorts_ok:
  assumes "bounded_comparator cmp" "binomial_heap_new True ty cmp = Some heap" "int (length vs) \<le> INT_MAX"
  shows "\<exists>st us st'. bp_insert_all vs (Map.empty, heap, 0) = Some st \<and> drain bp_pop (length vs) st = Some (us, st') \<and>
           mset us = mset vs \<and> sorted_wrt (\<lambda>x y. bp_order heap x y \<le> 0) us \<and> bp_elems st' = {#}"
proof -
  have h: "bp_holds Map.empty heap {} {#}" by (rule bp_holds_new[OF assms(2,1)])
  then have i: "bp_inv (Map.empty, heap, 0)" "bp_elems (Map.empty, heap, 0) = {#}" using bp_elems_eq[OF h] by (auto simp: bp_inv_def)
  obtain st where st: "bp_insert_all vs (Map.empty, heap, 0) = Some st" "bp_inv st" "bp_elems st = mset vs" "bp_below st = bp_below (Map.empty, heap, 0)"
    using bp_insert_all_ok[OF i(1), of vs] assms(3) i(2) by auto
  have "bp_below st = (\<lambda>x y. bp_order heap x y \<le> 0)" unfolding st(4) by (simp add: bp_below_def fun_eq_iff)
  then show ?thesis using bp.drain_sorted[OF st(2)] st(1,3) by (metis size_mset)
qed

text \<open>Inserting values into an empty binomial heap and popping until it is empty returns them in
  the order of the heap, and leaves no tree behind.\<close>

theorem binomial_heap_sorts:
  assumes "bounded_comparator cmp" "binomial_heap_new True ty cmp = Some heap" "int (length vs) \<le> INT_MAX"
  shows "\<exists>st us st'. bp_insert_all vs (Map.empty, heap, 0) = Some st \<and> drain bp_pop (length vs) st = Some (us, st') \<and>
           mset us = mset vs \<and> sorted_wrt (\<lambda>x y. bp_order heap x y \<le> 0) us \<and> bp_elems st' = {#}"
  by (rule binomial_heap_sorts_ok[OF assms])

theorem binomial_heap_sorts_witness:
  "\<exists>st us st'. bp_insert_all [3, 1, 2] (Map.empty, \<lparr>bp_heap_type = BINOMIAL_HEAP_TYPE_MAX, bp_compare_func = int_compare, bp_num_values = 0, bp_roots = [], bp_roots_length = 0\<rparr>, 0) = Some st \<and>
     drain bp_pop 3 st = Some (us, st') \<and> mset us = {#1, 2, 3#}"
  using binomial_heap_sorts[OF int_cmp.bounded_comparator_axioms, of BINOMIAL_HEAP_TYPE_MAX _ "[3, 1, 2]"]
  by (fastforce simp: binomial_heap_new_def c_int_bounds numeral_3_eq_3 add_mset_commute)

text \<open>binomial_heap_free frees every tree of the heap and no other memory; the heap has at most
  31 roots, since a heap with n roots holds at least 2 to the n - 1 values.\<close>

theorem binomial_heap_free_spec:
  assumes "bp_holds h heap X vs"
  shows "binomial_heap_free h heap = Some (\<lambda>a. if a \<in> X then None else h a) \<and> bp_roots_length heap \<le> 31 \<and>
         finite X \<and> card X = size vs"
proof -
  obtain V K rs where s: "bp_shape h heap X V K rs" "image_mset V (mset_set X) = vs" using assms unfolding bp_holds_def by blast
  have "size vs = card X" unfolding s(2)[symmetric] by simp
  then show ?thesis using free_ok[OF assms] bp_roots_bound[OF s(1)] s(1) by (auto simp: bp_shape_def counted_def graph_def)
qed

theorem binomial_heap_free_spec_witness: "binomial_heap_free one_root_mem one_root_heap = Some Map.empty"
  using binomial_heap_free_spec[OF one_root_holds] by (auto simp: one_root_mem_def fun_eq_iff)

end
