(* ===== verification/Machines.thy ===== *)
theory Machines
  imports Prelude
begin

text \<open>
  Step relations shared by the components that are state machines: the states a machine reaches
  from its initial state, invariants, and infinite runs with a fair scheduler. A machine is a
  relation \<open>step a s s'\<close>: the actor \<open>a\<close> can take \<open>s\<close> to \<open>s'\<close>.
\<close>

inductive reaches :: "'s \<Rightarrow> ('a \<Rightarrow> 's \<Rightarrow> 's \<Rightarrow> bool) \<Rightarrow> 's \<Rightarrow> bool" for init and step where
  reaches_init: "reaches init step init"
| reaches_step: "reaches init step s \<Longrightarrow> step a s s' \<Longrightarrow> reaches init step s'"

text \<open>An assertion that holds at the start and that every step keeps.\<close>

locale invariant_of =
  fixes init :: 's
    and step :: "'a \<Rightarrow> 's \<Rightarrow> 's \<Rightarrow> bool"
    and inv :: "'s \<Rightarrow> bool"
  assumes inv_init: "inv init"
    and inv_step: "inv s \<Longrightarrow> step a s s' \<Longrightarrow> inv s'"
begin

lemma reaches_inv: "reaches init step s \<Longrightarrow> inv s"
  by (induction rule: reaches.induct) (auto intro: inv_init inv_step)

end

text \<open>
  An infinite run: \<open>\<sigma> n\<close> is the state after \<open>n\<close> steps and \<open>\<alpha> n\<close> the actor of the next one.
  It is fair for an actor if the actor acts infinitely often or is enabled only finitely often
  (strong fairness).
\<close>

definition run :: "'s \<Rightarrow> ('a \<Rightarrow> 's \<Rightarrow> 's \<Rightarrow> bool) \<Rightarrow> (nat \<Rightarrow> 's) \<Rightarrow> (nat \<Rightarrow> 'a) \<Rightarrow> bool" where
  "run init step \<sigma> \<alpha> \<longleftrightarrow> \<sigma> 0 = init \<and> (\<forall>n. step (\<alpha> n) (\<sigma> n) (\<sigma> (Suc n)))"

definition fair_for :: "('a \<Rightarrow> 's \<Rightarrow> 's \<Rightarrow> bool) \<Rightarrow> (nat \<Rightarrow> 's) \<Rightarrow> (nat \<Rightarrow> 'a) \<Rightarrow> 'a \<Rightarrow> bool" where
  "fair_for step \<sigma> \<alpha> a \<longleftrightarrow>
     (\<forall>n. \<exists>m\<ge>n. \<exists>s'. step a (\<sigma> m) s') \<longrightarrow> (\<forall>n. \<exists>m\<ge>n. \<alpha> m = a)"

lemma run_reaches: "run init step \<sigma> \<alpha> \<Longrightarrow> reaches init step (\<sigma> n)"
  by (induction n) (auto simp: run_def intro: reaches.intros)

text \<open>A quantity that grows along the run and is bounded becomes constant.\<close>

lemma bounded_stabilises:
  fixes f :: "nat \<Rightarrow> nat"
  assumes mono: "\<And>n. f n \<le> f (Suc n)"
    and bound: "\<And>n. f n \<le> b"
  shows "\<exists>N. \<forall>n\<ge>N. f n = f N"
proof -
  let ?M = "Max (range f)"
  have fin: "finite (range f)"
    by (rule finite_subset[of _ "{..b}"]) (auto simp: bound)
  then have "?M \<in> range f"
    by (rule Max_in) simp
  then obtain N where N: "f N = ?M" by auto
  have "f n = f N" if "N \<le> n" for n
  proof (rule antisym)
    show "f n \<le> f N"
      unfolding N using fin by (rule Max_ge) simp
    show "f N \<le> f n"
      using lift_Suc_mono_le[of f, OF mono that] .
  qed
  then show ?thesis by blast
qed

text \<open>
  An actor that is enabled again and again as long as its rank is not yet zero, whose rank only
  its own steps change, and whose own steps lower the rank, reaches rank zero.
\<close>

lemma rank_reaches_zero:
  fixes rank :: "nat \<Rightarrow> nat"
  assumes acts: "\<And>n. N \<le> n \<Longrightarrow> rank n \<noteq> 0 \<Longrightarrow> \<exists>m\<ge>n. \<alpha> m = a"
    and other: "\<And>n. N \<le> n \<Longrightarrow> rank n \<noteq> 0 \<Longrightarrow> \<alpha> n \<noteq> a \<Longrightarrow> rank (Suc n) \<le> rank n"
    and own: "\<And>n. N \<le> n \<Longrightarrow> rank n \<noteq> 0 \<Longrightarrow> \<alpha> n = a \<Longrightarrow> rank (Suc n) < rank n"
  shows "\<exists>n\<ge>N. rank n = 0"
proof (rule ccontr)
  assume none: "\<not> (\<exists>n\<ge>N. rank n = 0)"
  have pos: "rank n \<noteq> 0" if "N \<le> n" for n
    using none that by simp
  have le: "rank (Suc n) \<le> rank n" if "N \<le> n" for n
    using that pos[OF that] other[of n] own[of n] by (cases "\<alpha> n = a") auto
  have mono: "rank m \<le> rank n" if "N \<le> n" "n \<le> m" for m n
    using that(2)
    by (induction rule: dec_induct) (use that(1) le in \<open>auto intro: order_trans\<close>)
  have drop: "\<exists>m\<ge>N. rank m < rank n" if N: "N \<le> n" for n
  proof -
    obtain m where m: "n \<le> m" "\<alpha> m = a"
      using acts[OF N pos[OF N]] by blast
    then have "rank (Suc m) < rank m"
      using own[of m] pos[of m] N by simp
    also have "\<dots> \<le> rank n"
      by (rule mono[OF N m(1)])
    finally show ?thesis
      using N m(1) by (intro exI[of _ "Suc m"]) simp
  qed
  have "\<exists>n\<ge>N. rank n \<le> k" if "k \<le> rank N" for k
    using that
  proof (induction k rule: inc_induct)
    case base
    show ?case by blast
  next
    case (step k)
    then obtain n where "N \<le> n" "rank n \<le> Suc k" by blast
    then show ?case
      using drop[of n] by (metis less_Suc_eq_le order_less_le_trans)
  qed
  from this[of 0] obtain n where "N \<le> n" "rank n = 0" by auto
  then show False
    using pos[of n] by simp
qed


section \<open>Runs from schedules\<close>

text \<open>
  A machine that a scheduler drives by choices: \<open>exec1 c s\<close> is the next state if \<open>c\<close> is possible. A
  schedule with a prefix and a cycle gives an infinite run if the cycle can be repeated from
  every state that satisfies \<open>Q\<close>.
\<close>

primrec exec :: "('c \<Rightarrow> 's \<Rightarrow> 's option) \<Rightarrow> 'c list \<Rightarrow> 's \<Rightarrow> 's option" where
  "exec exec1 [] s = Some s"
| "exec exec1 (c # cs) s = Option.bind (exec1 c s) (exec exec1 cs)"

lemma exec_append: "exec exec1 (cs @ ds) s = Option.bind (exec exec1 cs s) (exec exec1 ds)"
proof (induction cs arbitrary: s)
  case (Cons c cs)
  then show ?case
    by (cases "exec1 c s") simp_all
qed simp

primrec state_at :: "('c \<Rightarrow> 's \<Rightarrow> 's option) \<Rightarrow> (nat \<Rightarrow> 'c) \<Rightarrow> 's \<Rightarrow> nat \<Rightarrow> 's" where
  "state_at exec1 ch s 0 = s"
| "state_at exec1 ch s (Suc n) =
     (case exec1 (ch n) (state_at exec1 ch s n) of Some s' \<Rightarrow> s' | None \<Rightarrow> state_at exec1 ch s n)"

definition lasso :: "'c list \<Rightarrow> 'c list \<Rightarrow> nat \<Rightarrow> 'c" where
  "lasso pre cyc n = (if n < length pre then pre ! n else cyc ! ((n - length pre) mod length cyc))"

lemma lasso_pre: "i < length pre \<Longrightarrow> lasso pre cyc i = pre ! i"
  by (simp add: lasso_def)

lemma lasso_cyc: "i < length cyc \<Longrightarrow> lasso pre cyc (length pre + k * length cyc + i) = cyc ! i"
  by (simp add: lasso_def add.commute)

lemma exec_state_at:
  assumes "exec exec1 cs (state_at exec1 ch s n) = Some s'" "\<And>i. i < length cs \<Longrightarrow> ch (n + i) = cs ! i"
  shows "state_at exec1 ch s (n + length cs) = s' \<and>
    (\<forall>i<length cs. exec1 (ch (n + i)) (state_at exec1 ch s (n + i)) = Some (state_at exec1 ch s (Suc (n + i))))"
  using assms
proof (induction cs arbitrary: n)
  case (Cons c cs)
  obtain t where t: "exec1 c (state_at exec1 ch s n) = Some t" "exec exec1 cs t = Some s'"
    using Cons.prems(1) by (auto simp: bind_eq_Some_conv)
  have c: "ch n = c"
    using Cons.prems(2)[of 0] by simp
  have next_ch: "ch (Suc n + i) = cs ! i" if "i < length cs" for i
    using Cons.prems(2)[of "Suc i"] that by simp
  have IH: "state_at exec1 ch s (Suc n + length cs) = s' \<and>
    (\<forall>i<length cs. exec1 (ch (Suc n + i)) (state_at exec1 ch s (Suc n + i)) = Some (state_at exec1 ch s (Suc (Suc n + i))))"
    by (rule Cons.IH) (use t c next_ch in simp_all)
  show ?case
  proof (intro conjI allI impI)
    show "state_at exec1 ch s (n + length (c # cs)) = s'"
      using IH by simp
    fix i
    assume "i < length (c # cs)"
    then show "exec1 (ch (n + i)) (state_at exec1 ch s (n + i)) = Some (state_at exec1 ch s (Suc (n + i)))"
      using IH t c by (cases i) simp_all
  qed
qed simp

locale lasso_run =
  fixes exec1 :: "'c \<Rightarrow> 's \<Rightarrow> 's option" and chooser :: "'c \<Rightarrow> 'a" and step :: "'a \<Rightarrow> 's \<Rightarrow> 's \<Rightarrow> bool"
    and init :: 's and pre cyc :: "'c list" and Q :: "'s \<Rightarrow> bool"
  assumes exec1_step: "exec1 c s = Some s' \<Longrightarrow> step (chooser c) s s'"
    and pre: "\<exists>s. exec exec1 pre init = Some s \<and> Q s"
    and cyc: "Q s \<Longrightarrow> \<exists>s'. exec exec1 cyc s = Some s' \<and> Q s'"
    and cyc_ne: "cyc \<noteq> []"
begin

abbreviation st :: "nat \<Rightarrow> 's" where
  "st \<equiv> state_at exec1 (lasso pre cyc) init"

lemma exec_reaches: "exec exec1 cs s = Some s' \<Longrightarrow> reaches init step s \<Longrightarrow> reaches init step s'"
  by (induction cs arbitrary: s) (auto simp: bind_eq_Some_conv intro: reaches_step exec1_step)

lemma st_pre:
  shows "Q (st (length pre))"
    and "n < length pre \<Longrightarrow> exec1 (lasso pre cyc n) (st n) = Some (st (Suc n))"
proof -
  obtain s where s: "exec exec1 pre init = Some s" "Q s"
    using pre by blast
  have *: "exec exec1 pre (st 0) = Some s"
    using s by simp
  have "st (0 + length pre) = s \<and> (\<forall>i<length pre. exec1 (lasso pre cyc (0 + i)) (st (0 + i)) = Some (st (Suc (0 + i))))"
    by (rule exec_state_at[OF *]) (simp add: lasso_pre)
  then show "Q (st (length pre))" "n < length pre \<Longrightarrow> exec1 (lasso pre cyc n) (st n) = Some (st (Suc n))"
    using s(2) by simp_all
qed

lemma st_cyc:
  "Q (st (length pre + k * length cyc)) \<and>
   (\<forall>i<length cyc. exec1 (lasso pre cyc (length pre + k * length cyc + i)) (st (length pre + k * length cyc + i)) =
      Some (st (Suc (length pre + k * length cyc + i))))"
proof -
  have upto: "Q (st (length pre + k * length cyc))" for k
  proof (induction k)
    case 0
    show ?case
      using st_pre(1) by simp
  next
    case (Suc k)
    then obtain s where s: "exec exec1 cyc (st (length pre + k * length cyc)) = Some s" "Q s"
      using cyc by blast
    have "st (length pre + k * length cyc + length cyc) = s"
      using exec_state_at[OF s(1) lasso_cyc] by blast
    then show ?case
      using s(2) by (simp only: mult_Suc add.commute add.left_commute)
  qed
  obtain t where t: "exec exec1 cyc (st (length pre + k * length cyc)) = Some t"
    using cyc[OF upto] by blast
  show ?thesis
    using exec_state_at[OF t lasso_cyc] upto by blast
qed

lemma st_exec: "exec1 (lasso pre cyc n) (st n) = Some (st (Suc n))"
proof (cases "n < length pre")
  case True
  then show ?thesis
    by (rule st_pre(2))
next
  case False
  let ?k = "(n - length pre) div length cyc" and ?i = "(n - length pre) mod length cyc"
  have "length pre + ?k * length cyc + ?i = n"
    using False by (simp add: div_mult_mod_eq)
  moreover have "?i < length cyc"
    using cyc_ne by simp
  ultimately show ?thesis
    using st_cyc[of ?k] by metis
qed

lemma st_run: "run init step st (\<lambda>n. chooser (lasso pre cyc n))"
  unfolding run_def using st_exec exec1_step by (metis state_at.simps(1))

lemma cyc_chosen:
  assumes "c \<in> set cyc"
  shows "\<exists>m\<ge>n. lasso pre cyc m = c"
proof -
  obtain i where i: "i < length cyc" "cyc ! i = c"
    using assms by (auto simp: in_set_conv_nth)
  let ?m = "length pre + n * length cyc + i"
  have "n \<le> n * length cyc"
    using cyc_ne by (cases cyc) auto
  moreover have "lasso pre cyc ?m = c"
    using i by (simp only: lasso_cyc)
  ultimately show ?thesis
    by (intro exI[of _ ?m] conjI) linarith+
qed

lemma cyc_fair: "a \<in> chooser ` set cyc \<Longrightarrow> fair_for step st (\<lambda>n. chooser (lasso pre cyc n)) a"
  unfolding fair_for_def using cyc_chosen by blast

end

end
