(* ===== verification/Pthread_Cond.thy ===== *)
theory Pthread_Cond
  imports Machines
begin

text \<open>
  The condition variable demo of \<open>src/src/pthread_cond.c\<close>: two consumers and one producer share
  the counter \<open>nready\<close> under \<open>g_mutex\<close>, and the consumers wait on \<open>g_cond\<close>.

  The program is a step machine. A thread is at a program point and takes atomic steps: one
  library call, one load or one store of \<open>nready\<close>. \<open>consume_step\<close>, \<open>produce_step\<close> and
  \<open>pthread_cond_demo_step\<close> give the next step of a thread, \<open>None\<close> if it cannot move. The pthread
  calls do what POSIX documents: a lock is taken only while the mutex is free; waiting on a
  condition releases the mutex and blocks in one step; signalling wakes at least one of the
  blocked threads, if any is blocked; a blocked thread can also wake up spuriously; creating a
  thread can fail. The lines that the threads print are the list \<open>printed\<close>.
\<close>


section \<open>State\<close>

definition CONSUMERS_COUNT :: nat where
  "CONSUMERS_COUNT = 2"

definition PRODUCERS_COUNT :: nat where
  "PRODUCERS_COUNT = 1"

datatype thread = Consumer nat | Producer nat

text \<open>The program points of both loops, and those of the main thread.\<close>

datatype pc =
    Unborn | Start | Lock | Test | Blocked | Relock | DecVar | Load | Store | Print | Signal | Unlock | Sleep

datatype main_pc =
    ForC | IncC | MainSleep | ForP | IncP | Returned

datatype event =
    Consumed int thread int
  | Produced int thread int int

text \<open>
  \<open>main_i\<close> is the variable \<open>i\<close> of \<open>pthread_cond_demo\<close>, whose address is the argument of every
  thread; \<open>dangling\<close> records that a thread read it after the function had returned.
\<close>

record demo =
  nready :: int
  var :: int
  mutex :: "thread option"
  pcs :: "thread \<Rightarrow> pc"
  regs :: "thread \<Rightarrow> int"
  idxs :: "thread \<Rightarrow> int"
  printed :: "event list"
  main_pc :: main_pc
  main_i :: int
  dangling :: bool

definition demo_init :: demo where
  "demo_init = \<lparr>nready = 0, var = 2, mutex = None, pcs = \<lambda>t. Unborn, regs = \<lambda>t. 0, idxs = \<lambda>t. 0,
     printed = [], main_pc = ForC, main_i = 0, dangling = False\<rparr>"

definition goto :: "thread \<Rightarrow> pc \<Rightarrow> demo \<Rightarrow> demo" where
  "goto t p s = s\<lparr>pcs := (pcs s)(t := p)\<rparr>"


section \<open>Library calls\<close>

definition pthread_mutex_lock :: "thread \<Rightarrow> demo \<Rightarrow> demo option" where
  "pthread_mutex_lock t s = (if mutex s = None then Some (s\<lparr>mutex := Some t\<rparr>) else None)"

definition pthread_mutex_unlock :: "demo \<Rightarrow> demo" where
  "pthread_mutex_unlock s = s\<lparr>mutex := None\<rparr>"

definition blocked :: "demo \<Rightarrow> nat list" where
  "blocked s = filter (\<lambda>i. pcs s (Consumer i) = Blocked) [0..<CONSUMERS_COUNT]"

definition wake :: "nat list \<Rightarrow> demo \<Rightarrow> demo" where
  "wake ws s = s\<lparr>pcs := \<lambda>t. case t of Consumer i \<Rightarrow> if i \<in> set ws then Relock else pcs s t | Producer j \<Rightarrow> pcs s t\<rparr>"

text \<open>\<open>ws\<close> are the threads the library chooses to wake.\<close>

definition pthread_cond_signal :: "nat list \<Rightarrow> demo \<Rightarrow> demo option" where
  "pthread_cond_signal ws s =
     (if set ws \<subseteq> set (blocked s) \<and> (blocked s \<noteq> [] \<longrightarrow> ws \<noteq> []) then Some (wake ws s) else None)"

text \<open>
  The read \<open>*(int *)arg\<close> of a new thread: the variable \<open>i\<close> of the main thread as it is at that
  moment, or an arbitrary value \<open>k\<close> once \<open>pthread_cond_demo\<close> has returned.
\<close>

definition read_arg :: "int \<Rightarrow> thread \<Rightarrow> demo \<Rightarrow> demo" where
  "read_arg k t s =
     (if main_pc s = Returned then s\<lparr>idxs := (idxs s)(t := k), dangling := True\<rparr>
      else s\<lparr>idxs := (idxs s)(t := main_i s)\<rparr>)"


section \<open>Threads\<close>

definition consume_step :: "int \<Rightarrow> nat \<Rightarrow> demo \<Rightarrow> demo option" where
  "consume_step k i s =
     (let t = Consumer i in
      case pcs s t of
        Start \<Rightarrow> Some (goto t Lock (read_arg k t s))
      | Lock \<Rightarrow> map_option (goto t Test) (pthread_mutex_lock t s)
      | Test \<Rightarrow>
          if nready s \<le> 0 then Some (goto t Blocked (pthread_mutex_unlock s))
          else Some (goto t Load s)
      | Relock \<Rightarrow> map_option (goto t Test) (pthread_mutex_lock t s)
      | Load \<Rightarrow> Some (goto t Store (s\<lparr>regs := (regs s)(t := nready s)\<rparr>))
      | Store \<Rightarrow> do {
          n \<leftarrow> c_int (regs s t - 1);
          Some (goto t Print (s\<lparr>nready := n\<rparr>))
        }
      | Print \<Rightarrow> Some (goto t Unlock (s\<lparr>printed := printed s @ [Consumed (idxs s t) t (nready s)]\<rparr>))
      | Unlock \<Rightarrow> Some (goto t Sleep (pthread_mutex_unlock s))
      | Sleep \<Rightarrow> Some (goto t Lock s)
      | _ \<Rightarrow> None)"

definition produce_step :: "int \<Rightarrow> nat list \<Rightarrow> nat \<Rightarrow> demo \<Rightarrow> demo option" where
  "produce_step k ws j s =
     (let t = Producer j in
      case pcs s t of
        Start \<Rightarrow> Some (goto t Lock (read_arg k t s))
      | Lock \<Rightarrow> map_option (goto t Test) (pthread_mutex_lock t s)
      | Test \<Rightarrow> if var s > 0 then Some (goto t DecVar s) else Some (goto t Unlock s)
      | DecVar \<Rightarrow> do {
          v \<leftarrow> c_int (var s - 1);
          Some (goto t Load (s\<lparr>var := v\<rparr>))
        }
      | Load \<Rightarrow> Some (goto t Store (s\<lparr>regs := (regs s)(t := nready s)\<rparr>))
      | Store \<Rightarrow> do {
          n \<leftarrow> c_int (regs s t + 5);
          Some (goto t Print (s\<lparr>nready := n\<rparr>))
        }
      | Print \<Rightarrow> Some (goto t Signal (s\<lparr>printed := printed s @ [Produced (idxs s t) t (nready s) (var s)]\<rparr>))
      | Signal \<Rightarrow> map_option (goto t Unlock) (pthread_cond_signal ws s)
      | Unlock \<Rightarrow> Some (goto t Sleep (pthread_mutex_unlock s))
      | Sleep \<Rightarrow> Some (goto t Lock s)
      | _ \<Rightarrow> None)"

text \<open>\<open>ok\<close> tells whether \<open>pthread_create\<close> succeeds; the demo ignores its result.\<close>

definition pthread_cond_demo_step :: "bool \<Rightarrow> demo \<Rightarrow> demo option" where
  "pthread_cond_demo_step ok s =
     (case main_pc s of
        ForC \<Rightarrow>
          if main_i s < int CONSUMERS_COUNT
          then Some ((if ok then goto (Consumer (nat (main_i s))) Start s else s)\<lparr>main_pc := IncC\<rparr>)
          else Some (s\<lparr>main_pc := MainSleep\<rparr>)
      | IncC \<Rightarrow> do {
          i \<leftarrow> c_int (main_i s + 1);
          Some (s\<lparr>main_i := i, main_pc := ForC\<rparr>)
        }
      | MainSleep \<Rightarrow> Some (s\<lparr>main_i := 0, main_pc := ForP\<rparr>)
      | ForP \<Rightarrow>
          if main_i s < int PRODUCERS_COUNT
          then Some ((if ok then goto (Producer (nat (main_i s))) Start s else s)\<lparr>main_pc := IncP\<rparr>)
          else Some (s\<lparr>main_pc := Returned\<rparr>)
      | IncP \<Rightarrow> do {
          i \<leftarrow> c_int (main_i s + 1);
          Some (s\<lparr>main_i := i, main_pc := ForP\<rparr>)
        }
      | Returned \<Rightarrow> None)"

text \<open>The actors: the main thread, the workers, and the library that wakes a thread spuriously.\<close>

datatype actor = MainThread | Worker thread | Library

inductive demo_step :: "actor \<Rightarrow> demo \<Rightarrow> demo \<Rightarrow> bool" where
  main_act: "pthread_cond_demo_step ok s = Some s' \<Longrightarrow> demo_step MainThread s s'"
| consumer_act: "consume_step k i s = Some s' \<Longrightarrow> demo_step (Worker (Consumer i)) s s'"
| producer_act: "produce_step k ws j s = Some s' \<Longrightarrow> demo_step (Worker (Producer j)) s s'"
| spurious_wakeup: "pcs s (Consumer i) = Blocked \<Longrightarrow> demo_step Library s (wake [i] s)"

inductive_cases main_actE: "demo_step MainThread s s'"
inductive_cases consumer_actE: "demo_step (Worker (Consumer i)) s s'"
inductive_cases producer_actE: "demo_step (Worker (Producer j)) s s'"
inductive_cases wakeupE: "demo_step Library s s'"

abbreviation demo_reaches :: "demo \<Rightarrow> bool" where
  "demo_reaches \<equiv> reaches demo_init demo_step"


section \<open>Sequential specification\<close>

text \<open>
  What the output means: a counter of products and the number of batches left. Producing a batch
  adds five products, consuming takes one that is there, and each line shows the new values.
\<close>

fun replay :: "int \<times> int \<Rightarrow> event list \<Rightarrow> (int \<times> int) option" where
  "replay (n, v) [] = Some (n, v)"
| "replay (n, v) (Consumed k t r # es) = (if 0 < n \<and> r = n - 1 then replay (n - 1, v) es else None)"
| "replay (n, v) (Produced k t r w # es) =
     (if 0 < v \<and> r = n + 5 \<and> w = v - 1 then replay (n + 5, v - 1) es else None)"

fun is_consumed :: "event \<Rightarrow> bool" where
  "is_consumed (Consumed k t r) = True"
| "is_consumed (Produced k t r w) = False"

definition products_consumed :: "event list \<Rightarrow> nat" where
  "products_consumed es = length (filter is_consumed es)"

lemma replay_append:
  "replay c (es @ fs) = (case replay c es of None \<Rightarrow> None | Some c \<Rightarrow> replay c fs)"
  by (induction c es rule: replay.induct) auto

lemma replay_bounds:
  "replay (n, v) es = Some (n', v') \<Longrightarrow> 0 \<le> n \<Longrightarrow> 0 \<le> v \<Longrightarrow>
   0 \<le> n' \<and> 0 \<le> v' \<and> n' + int (products_consumed es) + 5 * v' = n + 5 * v"
  by (induction "(n, v)" es arbitrary: n v rule: replay.induct)
    (auto simp: products_consumed_def split: if_splits)


section \<open>Invariant\<close>

definition critical :: "pc \<Rightarrow> bool" where
  "critical p \<longleftrightarrow> p \<in> {Test, DecVar, Load, Store, Print, Signal, Unlock}"

text \<open>Mutual exclusion: the thread in its critical section is the one that holds the mutex.\<close>

definition mutex_inv :: "demo \<Rightarrow> bool" where
  "mutex_inv s \<longleftrightarrow> (\<forall>t. critical (pcs s t) \<longleftrightarrow> mutex s = Some t)"

definition shape_inv :: "demo \<Rightarrow> bool" where
  "shape_inv s \<longleftrightarrow>
     (\<forall>i. pcs s (Consumer i) \<notin> {DecVar, Signal}) \<and> (\<forall>j. pcs s (Producer j) \<notin> {Blocked, Relock})"

text \<open>The threads the main thread has tried to create so far.\<close>

definition created_consumers :: "demo \<Rightarrow> int" where
  "created_consumers s = (case main_pc s of ForC \<Rightarrow> main_i s | IncC \<Rightarrow> main_i s + 1 | _ \<Rightarrow> 2)"

definition created_producers :: "demo \<Rightarrow> int" where
  "created_producers s =
     (case main_pc s of ForP \<Rightarrow> main_i s | IncP \<Rightarrow> main_i s + 1 | Returned \<Rightarrow> 1 | _ \<Rightarrow> 0)"

definition main_inv :: "demo \<Rightarrow> bool" where
  "main_inv s \<longleftrightarrow>
     0 \<le> main_i s \<and> created_consumers s \<le> 2 \<and> created_producers s \<le> 1 \<and>
     (\<forall>i. created_consumers s \<le> int i \<longrightarrow> pcs s (Consumer i) = Unborn) \<and>
     (\<forall>j. created_producers s \<le> int j \<longrightarrow> pcs s (Producer j) = Unborn)"

text \<open>
  The counters the output accounts for: those of the state, less the update that the holder of
  the mutex has made and not printed yet.
\<close>

definition logged :: "demo \<Rightarrow> int \<times> int" where
  "logged s =
     (case mutex s of
        Some (Consumer i) \<Rightarrow> (if pcs s (Consumer i) = Print then (nready s + 1, var s) else (nready s, var s))
      | Some (Producer j) \<Rightarrow>
          (case pcs s (Producer j) of
             Load \<Rightarrow> (nready s, var s + 1)
           | Store \<Rightarrow> (nready s, var s + 1)
           | Print \<Rightarrow> (nready s - 5, var s + 1)
           | _ \<Rightarrow> (nready s, var s))
      | None \<Rightarrow> (nready s, var s))"

definition holder_inv :: "demo \<Rightarrow> bool" where
  "holder_inv s \<longleftrightarrow>
     (case mutex s of
        Some (Consumer i) \<Rightarrow>
          (pcs s (Consumer i) = Load \<longrightarrow> 0 < nready s) \<and>
          (pcs s (Consumer i) = Store \<longrightarrow> 0 < nready s \<and> regs s (Consumer i) = nready s) \<and>
          (pcs s (Consumer i) = Print \<longrightarrow> 0 \<le> nready s)
      | Some (Producer j) \<Rightarrow>
          (pcs s (Producer j) = DecVar \<longrightarrow> 0 < var s) \<and>
          (pcs s (Producer j) = Store \<longrightarrow> regs s (Producer j) = nready s) \<and>
          (pcs s (Producer j) \<in> {Load, Store, Print} \<longrightarrow> 0 \<le> var s)
      | None \<Rightarrow> True)"

definition counter_inv :: "demo \<Rightarrow> bool" where
  "counter_inv s \<longleftrightarrow> replay (0, 2) (printed s) = Some (logged s) \<and> holder_inv s"

text \<open>
  No lost wakeup: while there are products, the blocked consumers are not alone, unless the
  producer is still about to signal.
\<close>

definition signal_pending :: "demo \<Rightarrow> bool" where
  "signal_pending s \<longleftrightarrow> (\<exists>j. pcs s (Producer j) \<in> {Print, Signal})"

definition wakeup_inv :: "demo \<Rightarrow> bool" where
  "wakeup_inv s \<longleftrightarrow>
     0 < nready s \<and> \<not> signal_pending s \<and> (\<exists>i. pcs s (Consumer i) = Blocked) \<longrightarrow>
     (\<exists>i. pcs s (Consumer i) \<notin> {Unborn, Blocked})"

definition demo_inv :: "demo \<Rightarrow> bool" where
  "demo_inv s \<longleftrightarrow> mutex_inv s \<and> shape_inv s \<and> main_inv s \<and> counter_inv s \<and> wakeup_inv s"


text \<open>How the moves of a thread keep mutual exclusion.\<close>

lemma goto_simps [simp]:
  "pcs (goto t p s) = (pcs s)(t := p)" "mutex (goto t p s) = mutex s" "nready (goto t p s) = nready s"
  "var (goto t p s) = var s" "regs (goto t p s) = regs s" "idxs (goto t p s) = idxs s"
  "printed (goto t p s) = printed s" "main_pc (goto t p s) = main_pc s" "main_i (goto t p s) = main_i s"
  "dangling (goto t p s) = dangling s"
  by (simp_all add: goto_def)

lemma read_arg_simps [simp]:
  "pcs (read_arg k t s) = pcs s" "mutex (read_arg k t s) = mutex s" "nready (read_arg k t s) = nready s"
  "var (read_arg k t s) = var s" "regs (read_arg k t s) = regs s" "printed (read_arg k t s) = printed s"
  "main_pc (read_arg k t s) = main_pc s" "main_i (read_arg k t s) = main_i s"
  by (simp_all add: read_arg_def)

lemma wake_simps [simp]:
  "pcs (wake ws s) (Consumer i) = (if i \<in> set ws then Relock else pcs s (Consumer i))"
  "pcs (wake ws s) (Producer j) = pcs s (Producer j)" "mutex (wake ws s) = mutex s" "nready (wake ws s) = nready s"
  "var (wake ws s) = var s" "regs (wake ws s) = regs s" "idxs (wake ws s) = idxs s"
  "printed (wake ws s) = printed s" "main_pc (wake ws s) = main_pc s" "main_i (wake ws s) = main_i s"
  "dangling (wake ws s) = dangling s"
  by (simp_all add: wake_def)

lemma critical_simps [simp]:
  "critical Test" "critical DecVar" "critical Load" "critical Store" "critical Print" "critical Signal"
  "critical Unlock" "\<not> critical Unborn" "\<not> critical Start" "\<not> critical Lock" "\<not> critical Blocked"
  "\<not> critical Relock" "\<not> critical Sleep"
  by (simp_all add: critical_def)

lemma mutex_inv_move:
  "mutex_inv s \<Longrightarrow> mutex s' = mutex s \<Longrightarrow> pcs s' = (pcs s)(t := p) \<Longrightarrow>
   critical p = critical (pcs s t) \<Longrightarrow> mutex_inv s'"
  by (simp add: mutex_inv_def)

lemma mutex_inv_lock:
  "mutex_inv s \<Longrightarrow> mutex s = None \<Longrightarrow> mutex s' = Some t \<Longrightarrow> pcs s' = (pcs s)(t := p) \<Longrightarrow>
   critical p \<Longrightarrow> mutex_inv s'"
  by (auto simp: mutex_inv_def)

lemma mutex_inv_unlock:
  "mutex_inv s \<Longrightarrow> critical (pcs s t) \<Longrightarrow> mutex s' = None \<Longrightarrow> pcs s' = (pcs s)(t := p) \<Longrightarrow>
   \<not> critical p \<Longrightarrow> mutex_inv s'"
  by (auto simp: mutex_inv_def)

lemma mutex_inv_wake:
  "mutex_inv s \<Longrightarrow> \<forall>i\<in>set ws. pcs s (Consumer i) = Blocked \<Longrightarrow> mutex_inv (wake ws s)"
  unfolding mutex_inv_def
proof (intro allI)
  fix t
  assume "\<forall>t. critical (pcs s t) = (mutex s = Some t)" "\<forall>i\<in>set ws. pcs s (Consumer i) = Blocked"
  then show "critical (pcs (wake ws s) t) = (mutex (wake ws s) = Some t)"
    by (cases t) (auto simp del: option.inject dest: spec[of _ t])
qed

text \<open>The moves of the two kinds of threads, one case per program point.\<close>

lemmas thread_defs =
  consume_step_def produce_step_def Let_def pthread_mutex_lock_def pthread_mutex_unlock_def
  pthread_cond_signal_def c_int_eq_Some_iff

lemma consume_stepE:
  assumes "consume_step k i s = Some s'"
  obtains
    (start) "pcs s (Consumer i) = Start" "s' = goto (Consumer i) Lock (read_arg k (Consumer i) s)"
  | (lock) "pcs s (Consumer i) = Lock \<or> pcs s (Consumer i) = Relock" "mutex s = None"
      "s' = goto (Consumer i) Test (s\<lparr>mutex := Some (Consumer i)\<rparr>)"
  | (wait) "pcs s (Consumer i) = Test" "nready s \<le> 0" "s' = goto (Consumer i) Blocked (s\<lparr>mutex := None\<rparr>)"
  | (go) "pcs s (Consumer i) = Test" "0 < nready s" "s' = goto (Consumer i) Load s"
  | (load) "pcs s (Consumer i) = Load" "s' = goto (Consumer i) Store (s\<lparr>regs := (regs s)(Consumer i := nready s)\<rparr>)"
  | (store) "pcs s (Consumer i) = Store" "s' = goto (Consumer i) Print (s\<lparr>nready := regs s (Consumer i) - 1\<rparr>)"
  | (print) "pcs s (Consumer i) = Print"
      "s' = goto (Consumer i) Unlock
        (s\<lparr>printed := printed s @ [Consumed (idxs s (Consumer i)) (Consumer i) (nready s)]\<rparr>)"
  | (unlock) "pcs s (Consumer i) = Unlock" "s' = goto (Consumer i) Sleep (s\<lparr>mutex := None\<rparr>)"
  | (sleep) "pcs s (Consumer i) = Sleep" "s' = goto (Consumer i) Lock s"
proof (cases "pcs s (Consumer i)")
  case Start
  with assms show ?thesis
    by (intro start) (auto simp: thread_defs split: if_splits bind_splits)
next
  case Lock
  with assms show ?thesis
    by (intro lock) (auto simp: thread_defs split: if_splits bind_splits)
next
  case Test
  show ?thesis
  proof (cases "nready s \<le> 0")
    case True
    with assms Test show ?thesis
      by (intro wait) (auto simp: thread_defs)
  next
    case False
    with assms Test show ?thesis
      by (intro go) (auto simp: thread_defs)
  qed
next
  case Relock
  with assms show ?thesis
    by (intro lock) (auto simp: thread_defs split: if_splits bind_splits)
next
  case Load
  with assms show ?thesis
    by (intro load) (auto simp: thread_defs split: if_splits bind_splits)
next
  case Store
  with assms show ?thesis
    by (intro store) (auto simp: thread_defs split: if_splits bind_splits)
next
  case Print
  with assms show ?thesis
    by (intro print) (auto simp: thread_defs split: if_splits bind_splits)
next
  case Unlock
  with assms show ?thesis
    by (intro unlock) (auto simp: thread_defs split: if_splits bind_splits)
next
  case Sleep
  with assms show ?thesis
    by (intro sleep) (auto simp: thread_defs split: if_splits bind_splits)
qed (use assms in \<open>simp_all add: thread_defs\<close>)

lemma produce_stepE:
  assumes "produce_step k ws j s = Some s'"
  obtains
    (start) "pcs s (Producer j) = Start" "s' = goto (Producer j) Lock (read_arg k (Producer j) s)"
  | (lock) "pcs s (Producer j) = Lock" "mutex s = None"
      "s' = goto (Producer j) Test (s\<lparr>mutex := Some (Producer j)\<rparr>)"
  | (go) "pcs s (Producer j) = Test" "0 < var s" "s' = goto (Producer j) DecVar s"
  | (idle) "pcs s (Producer j) = Test" "var s \<le> 0" "s' = goto (Producer j) Unlock s"
  | (dec) "pcs s (Producer j) = DecVar" "s' = goto (Producer j) Load (s\<lparr>var := var s - 1\<rparr>)"
  | (load) "pcs s (Producer j) = Load" "s' = goto (Producer j) Store (s\<lparr>regs := (regs s)(Producer j := nready s)\<rparr>)"
  | (store) "pcs s (Producer j) = Store" "s' = goto (Producer j) Print (s\<lparr>nready := regs s (Producer j) + 5\<rparr>)"
  | (print) "pcs s (Producer j) = Print"
      "s' = goto (Producer j) Signal
        (s\<lparr>printed := printed s @ [Produced (idxs s (Producer j)) (Producer j) (nready s) (var s)]\<rparr>)"
  | (signal) "pcs s (Producer j) = Signal" "set ws \<subseteq> set (blocked s)" "blocked s \<noteq> [] \<longrightarrow> ws \<noteq> []"
      "s' = goto (Producer j) Unlock (wake ws s)"
  | (unlock) "pcs s (Producer j) = Unlock" "s' = goto (Producer j) Sleep (s\<lparr>mutex := None\<rparr>)"
  | (sleep) "pcs s (Producer j) = Sleep" "s' = goto (Producer j) Lock s"
proof (cases "pcs s (Producer j)")
  case Start
  with assms show ?thesis
    by (intro start) (auto simp: thread_defs split: if_splits bind_splits)
next
  case Lock
  with assms show ?thesis
    by (intro lock) (auto simp: thread_defs split: if_splits bind_splits)
next
  case Test
  show ?thesis
  proof (cases "0 < var s")
    case True
    with assms Test show ?thesis
      by (intro go) (auto simp: thread_defs)
  next
    case False
    with assms Test show ?thesis
      by (intro idle) (auto simp: thread_defs)
  qed
next
  case DecVar
  with assms show ?thesis
    by (intro dec) (auto simp: thread_defs split: if_splits bind_splits)
next
  case Load
  with assms show ?thesis
    by (intro load) (auto simp: thread_defs split: if_splits bind_splits)
next
  case Store
  with assms show ?thesis
    by (intro store) (auto simp: thread_defs split: if_splits bind_splits)
next
  case Print
  with assms show ?thesis
    by (intro print) (auto simp: thread_defs split: if_splits bind_splits)
next
  case Signal
  with assms show ?thesis
    by (intro signal) (auto simp: thread_defs split: if_splits bind_splits)
next
  case Unlock
  with assms show ?thesis
    by (intro unlock) (auto simp: thread_defs split: if_splits bind_splits)
next
  case Sleep
  with assms show ?thesis
    by (intro sleep) (auto simp: thread_defs split: if_splits bind_splits)
qed (use assms in \<open>simp_all add: thread_defs\<close>)

lemmas main_defs =
  pthread_cond_demo_step_def c_int_eq_Some_iff CONSUMERS_COUNT_def PRODUCERS_COUNT_def

lemma main_stepE:
  assumes "pthread_cond_demo_step ok s = Some s'"
  obtains
    (consumer) "main_pc s = ForC" "main_i s < 2" "ok" "s' = goto (Consumer (nat (main_i s))) Start s\<lparr>main_pc := IncC\<rparr>"
  | (no_consumer) "main_pc s = ForC" "main_i s < 2" "\<not> ok" "s' = s\<lparr>main_pc := IncC\<rparr>"
  | (consumers) "main_pc s = ForC" "2 \<le> main_i s" "s' = s\<lparr>main_pc := MainSleep\<rparr>"
  | (inc_consumer) "main_pc s = IncC" "s' = s\<lparr>main_i := main_i s + 1, main_pc := ForC\<rparr>"
  | (slept) "main_pc s = MainSleep" "s' = s\<lparr>main_i := 0, main_pc := ForP\<rparr>"
  | (producer) "main_pc s = ForP" "main_i s < 1" "ok" "s' = goto (Producer (nat (main_i s))) Start s\<lparr>main_pc := IncP\<rparr>"
  | (no_producer) "main_pc s = ForP" "main_i s < 1" "\<not> ok" "s' = s\<lparr>main_pc := IncP\<rparr>"
  | (producers) "main_pc s = ForP" "1 \<le> main_i s" "s' = s\<lparr>main_pc := Returned\<rparr>"
  | (inc_producer) "main_pc s = IncP" "s' = s\<lparr>main_i := main_i s + 1, main_pc := ForP\<rparr>"
proof (cases "main_pc s")
  case ForC
  then consider "main_i s < 2" "ok" | "main_i s < 2" "\<not> ok" | "2 \<le> main_i s" by linarith
  then show ?thesis
    using ForC assms by cases (auto simp: main_defs intro: consumer no_consumer consumers)
next
  case IncC
  with assms show ?thesis
    by (intro inc_consumer) (auto simp: main_defs split: bind_splits)
next
  case MainSleep
  with assms show ?thesis
    by (intro slept) (auto simp: main_defs)
next
  case ForP
  then consider "main_i s < 1" "ok" | "main_i s < 1" "\<not> ok" | "1 \<le> main_i s" by linarith
  then show ?thesis
    using ForP assms by cases (auto simp: main_defs intro: producer no_producer producers)
next
  case IncP
  with assms show ?thesis
    by (intro inc_producer) (auto simp: main_defs split: bind_splits)
next
  case Returned
  with assms show ?thesis
    by (simp add: pthread_cond_demo_step_def)
qed

lemma set_blocked: "set (blocked s) = {i. i < 2 \<and> pcs s (Consumer i) = Blocked}"
  by (auto simp: blocked_def CONSUMERS_COUNT_def)

lemma consume_step_mutex_inv:
  assumes inv: "mutex_inv s" and step: "consume_step k i s = Some s'"
  shows "mutex_inv s'"
  using step
proof (cases rule: consume_stepE)
  case lock
  then show ?thesis
    by (intro mutex_inv_lock[OF inv, where t = "Consumer i" and p = Test]) auto
next
  case wait
  then show ?thesis
    by (intro mutex_inv_unlock[OF inv, where t = "Consumer i" and p = Blocked]) auto
next
  case unlock
  then show ?thesis
    by (intro mutex_inv_unlock[OF inv, where t = "Consumer i" and p = Sleep]) auto
qed (rule mutex_inv_move[OF inv, where t = "Consumer i" and p = "pcs s' (Consumer i)"]; simp)+

lemma produce_step_mutex_inv:
  assumes inv: "mutex_inv s" and step: "produce_step k ws j s = Some s'"
  shows "mutex_inv s'"
  using step
proof (cases rule: produce_stepE)
  case lock
  then show ?thesis
    by (intro mutex_inv_lock[OF inv, where t = "Producer j" and p = Test]) auto
next
  case signal
  then have "mutex_inv (wake ws s)"
    by (intro mutex_inv_wake[OF inv]) (auto simp: set_blocked)
  then show ?thesis
    by (rule mutex_inv_move[where t = "Producer j" and p = Unlock]) (use signal in auto)
next
  case unlock
  then show ?thesis
    by (intro mutex_inv_unlock[OF inv, where t = "Producer j" and p = Sleep]) auto
qed (rule mutex_inv_move[OF inv, where t = "Producer j" and p = "pcs s' (Producer j)"]; simp)+

text \<open>What a worker leaves alone.\<close>

lemma consume_step_frame:
  assumes "consume_step k i s = Some s'"
  shows "main_pc s' = main_pc s \<and> main_i s' = main_i s \<and> var s' = var s \<and>
    pcs s (Consumer i) \<noteq> Unborn \<and> pcs s' (Consumer i) \<noteq> Unborn \<and> (\<forall>t. t \<noteq> Consumer i \<longrightarrow> pcs s' t = pcs s t)"
  using assms by (cases rule: consume_stepE) auto

lemma produce_step_frame:
  assumes "produce_step k ws j s = Some s'"
  shows "main_pc s' = main_pc s \<and> main_i s' = main_i s \<and>
    pcs s (Producer j) \<noteq> Unborn \<and> pcs s' (Producer j) \<noteq> Unborn \<and>
    (\<forall>j'. j' \<noteq> j \<longrightarrow> pcs s' (Producer j') = pcs s (Producer j')) \<and>
    (\<forall>i. pcs s' (Consumer i) = pcs s (Consumer i) \<or> pcs s (Consumer i) = Blocked \<and> pcs s' (Consumer i) = Relock)"
  using assms by (cases rule: produce_stepE) (auto simp: set_blocked)

lemma main_inv_frame:
  "main_inv s \<Longrightarrow> main_pc s' = main_pc s \<Longrightarrow> main_i s' = main_i s \<Longrightarrow>
   (\<And>t. pcs s t = Unborn \<Longrightarrow> pcs s' t = Unborn) \<Longrightarrow> main_inv s'"
  by (simp add: main_inv_def created_consumers_def created_producers_def cong: main_pc.case_cong)

lemma consume_step_main_inv: "main_inv s \<Longrightarrow> consume_step k i s = Some s' \<Longrightarrow> main_inv s'"
  by (drule consume_step_frame, erule main_inv_frame) (auto, metis)

lemma produce_step_main_inv:
  assumes "main_inv s" "produce_step k ws j s = Some s'"
  shows "main_inv s'"
proof (rule main_inv_frame[OF assms(1)])
  fix t
  assume "pcs s t = Unborn"
  then show "pcs s' t = Unborn"
    using produce_step_frame[OF assms(2)] by (cases t) (auto, metis pc.distinct)
qed (use produce_step_frame[OF assms(2)] in simp_all)

lemma consume_step_shape_inv: "shape_inv s \<Longrightarrow> consume_step k i s = Some s' \<Longrightarrow> shape_inv s'"
  by (erule consume_stepE) (auto simp: shape_inv_def)

lemma produce_step_shape_inv: "shape_inv s \<Longrightarrow> produce_step k ws j s = Some s' \<Longrightarrow> shape_inv s'"
  by (erule produce_stepE) (auto simp: shape_inv_def)

lemma counter_inv_frame:
  assumes "counter_inv s" "nready s' = nready s" "var s' = var s" "mutex s' = mutex s"
    "printed s' = printed s" "regs s' = regs s" "\<And>t. mutex s = Some t \<Longrightarrow> pcs s' t = pcs s t"
  shows "counter_inv s'"
proof -
  have "logged s' = logged s" "holder_inv s' = holder_inv s"
    unfolding logged_def holder_inv_def using assms(2-7)
    by (simp_all split: option.split thread.split cong: pc.case_cong)
  then show ?thesis
    using assms(1,5) by (simp add: counter_inv_def)
qed

lemma consume_step_counter_inv:
  assumes "counter_inv s" "mutex_inv s" "consume_step k i s = Some s'"
  shows "counter_inv s'"
proof -
  have own: "mutex s = Some (Consumer i)" if "critical (pcs s (Consumer i))"
    using assms(2) that by (simp add: mutex_inv_def)
  have not_own: "mutex s \<noteq> Some (Consumer i)" if "\<not> critical (pcs s (Consumer i))"
    using assms(2) that by (auto simp: mutex_inv_def)
  show ?thesis
    using assms(3)
  proof (cases rule: consume_stepE)
    case start
    then show ?thesis
      by (intro counter_inv_frame[OF assms(1)]) (use not_own in auto)
  next
    case sleep
    then show ?thesis
      by (intro counter_inv_frame[OF assms(1)]) (use not_own in auto)
  qed (use own assms(1) in \<open>auto simp: counter_inv_def logged_def holder_inv_def replay_append\<close>)
qed

lemma produce_step_counter_inv:
  assumes "counter_inv s" "mutex_inv s" "produce_step k ws j s = Some s'"
  shows "counter_inv s'"
proof -
  have own: "mutex s = Some (Producer j)" if "critical (pcs s (Producer j))"
    using assms(2) that by (simp add: mutex_inv_def)
  have not_own: "mutex s \<noteq> Some (Producer j)" if "\<not> critical (pcs s (Producer j))"
    using assms(2) that by (auto simp: mutex_inv_def)
  show ?thesis
    using assms(3)
  proof (cases rule: produce_stepE)
    case start
    then show ?thesis
      by (intro counter_inv_frame[OF assms(1)]) (use not_own in auto)
  next
    case sleep
    then show ?thesis
      by (intro counter_inv_frame[OF assms(1)]) (use not_own in auto)
  qed (use own assms(1) in \<open>auto simp: counter_inv_def logged_def holder_inv_def replay_append\<close>)
qed

text \<open>A consumer blocks only after it has seen that there are no products.\<close>

lemma consume_step_wakeup_inv:
  assumes "wakeup_inv s" "holder_inv s" "mutex_inv s" "consume_step k i s = Some s'"
  shows "wakeup_inv s'"
  using assms(4)
proof (cases rule: consume_stepE)
  case wait
  then show ?thesis
    by (simp add: wakeup_inv_def)
qed (auto simp: wakeup_inv_def)

lemma wakeup_invI: "pcs s (Consumer i) \<notin> {Unborn, Blocked} \<Longrightarrow> wakeup_inv s"
  unfolding wakeup_inv_def by blast

lemma wakeup_inv_frame:
  "wakeup_inv s \<Longrightarrow> nready s' = nready s \<Longrightarrow> (\<And>i. pcs s' (Consumer i) = pcs s (Consumer i)) \<Longrightarrow>
   (signal_pending s \<Longrightarrow> signal_pending s') \<Longrightarrow> wakeup_inv s'"
  unfolding wakeup_inv_def by auto

lemma only_producer:
  assumes "main_inv s" "pcs s (Producer j) \<noteq> Unborn"
  shows "j = 0"
proof -
  have "int j < created_producers s" "created_producers s \<le> 1"
    using assms by (auto simp: main_inv_def not_le[symmetric])
  then show ?thesis by linarith
qed

lemma only_consumers:
  assumes "main_inv s" "pcs s (Consumer i) \<noteq> Unborn"
  shows "i < 2"
proof -
  have "int i < created_consumers s" "created_consumers s \<le> 2"
    using assms by (auto simp: main_inv_def not_le[symmetric])
  then show ?thesis by linarith
qed

lemma produce_step_wakeup_inv:
  assumes "wakeup_inv s" "main_inv s" "produce_step k ws j s = Some s'"
  shows "wakeup_inv s'"
proof -
  have j: "j' = 0" if "pcs s (Producer j') \<noteq> Unborn" for j'
    using only_producer[OF assms(2) that] .
  have "j = 0"
    using produce_step_frame[OF assms(3)] j by blast
  have no_signal: "\<not> signal_pending s" if "pcs s (Producer j) \<noteq> Print" "pcs s (Producer j) \<noteq> Signal"
    unfolding signal_pending_def using j \<open>j = 0\<close> that by (metis insert_iff pc.distinct(17,19) singletonD)
  have i: "i < 2" if "pcs s (Consumer i) \<noteq> Unborn" for i
    using only_consumers[OF assms(2) that] .
  show ?thesis
    using assms(3)
  proof (cases rule: produce_stepE)
    case signal
    show ?thesis
    proof (cases "blocked s")
      case Nil
      then have "\<forall>i. pcs s (Consumer i) \<noteq> Blocked"
        using i set_blocked[of s] by (metis (mono_tags, lifting) empty_iff mem_Collect_eq pc.distinct(7) set_empty)
      then show ?thesis
        using signal by (simp add: wakeup_inv_def)
    next
      case (Cons i xs)
      then have "hd ws \<in> set ws"
        using signal by simp
      then show ?thesis
        using signal by (intro wakeup_invI[of _ "hd ws"]) simp
    qed
  next
    case store
    then have "signal_pending s'"
      by (auto simp: signal_pending_def)
    then show ?thesis
      by (simp add: wakeup_inv_def)
  next
    case print
    then have "signal_pending s'"
      by (auto simp: signal_pending_def)
    then show ?thesis
      by (simp add: wakeup_inv_def)
  qed (rule wakeup_inv_frame[OF assms(1)]; simp add: no_signal)+
qed

text \<open>The main thread.\<close>

lemma main_step_frame:
  assumes "main_inv s" "pthread_cond_demo_step ok s = Some s'"
  shows "mutex s' = mutex s \<and> nready s' = nready s \<and> var s' = var s \<and> printed s' = printed s \<and> regs s' = regs s \<and>
    (\<forall>t. pcs s' t = pcs s t \<or> pcs s t = Unborn \<and> pcs s' t = Start)"
  using assms(2,1)
  by (cases rule: main_stepE) (auto simp: main_inv_def created_consumers_def created_producers_def)

lemma main_step_main_inv:
  assumes "main_inv s" "pthread_cond_demo_step ok s = Some s'"
  shows "main_inv s'"
  using assms(2,1)
  by (cases rule: main_stepE) (auto simp: main_inv_def created_consumers_def created_producers_def)

lemma main_step_demo_inv:
  assumes inv: "demo_inv s" and step: "pthread_cond_demo_step ok s = Some s'"
  shows "demo_inv s'"
proof -
  have main: "main_inv s'"
    using inv main_step_main_inv[OF _ step] by (simp add: demo_inv_def)
  have fr: "mutex s' = mutex s" "nready s' = nready s" "var s' = var s" "printed s' = printed s" "regs s' = regs s"
    and pc: "\<And>t. pcs s' t = pcs s t \<or> pcs s t = Unborn \<and> pcs s' t = Start"
    using inv main_step_frame[OF _ step] by (simp_all add: demo_inv_def)
  have crit: "critical (pcs s' t) = critical (pcs s t)" for t
    using pc[of t] by auto
  have "mutex_inv s'"
    using inv fr crit by (simp add: demo_inv_def mutex_inv_def)
  moreover have "shape_inv s'"
    using inv pc by (simp add: demo_inv_def shape_inv_def) (metis pc.distinct)
  moreover have "counter_inv s'"
  proof (rule counter_inv_frame[where s = s])
    fix t
    assume "mutex s = Some t"
    then have "critical (pcs s t)"
      using inv by (simp add: demo_inv_def mutex_inv_def)
    then show "pcs s' t = pcs s t"
      using pc[of t] by auto
  qed (use inv fr in \<open>simp_all add: demo_inv_def\<close>)
  moreover have "wakeup_inv s'"
  proof -
    have "signal_pending s' = signal_pending s"
      using pc by (simp add: signal_pending_def) (metis pc.distinct)
    moreover have "pcs s' t = Blocked \<longleftrightarrow> pcs s t = Blocked" for t
      using pc[of t] by auto
    moreover have "pcs s t \<notin> {Unborn, Blocked} \<Longrightarrow> pcs s' t \<notin> {Unborn, Blocked}" for t
      using pc[of t] by auto
    ultimately show ?thesis
      using inv fr unfolding demo_inv_def wakeup_inv_def by metis
  qed
  ultimately show ?thesis
    using main by (simp add: demo_inv_def)
qed

lemma spurious_demo_inv:
  assumes inv: "demo_inv s" and blocked: "pcs s (Consumer i) = Blocked"
  shows "demo_inv (wake [i] s)"
proof -
  have mu: "mutex_inv (wake [i] s)"
    using inv blocked by (intro mutex_inv_wake) (simp_all add: demo_inv_def)
  moreover have "shape_inv (wake [i] s)"
    using inv by (simp add: demo_inv_def shape_inv_def)
  moreover have "counter_inv (wake [i] s)"
  proof (rule counter_inv_frame[where s = s])
    fix t
    assume "mutex s = Some t"
    then have "critical (pcs s t)"
      using inv by (simp add: demo_inv_def mutex_inv_def)
    then show "pcs (wake [i] s) t = pcs s t"
      using blocked by (cases t) auto
  qed (use inv in \<open>simp_all add: demo_inv_def\<close>)
  moreover have "main_inv (wake [i] s)"
  proof (rule main_inv_frame[where s = s])
    fix t
    assume "pcs s t = Unborn"
    then show "pcs (wake [i] s) t = Unborn"
      using blocked by (cases t) auto
  qed (use inv in \<open>simp_all add: demo_inv_def\<close>)
  moreover have "wakeup_inv (wake [i] s)"
    by (rule wakeup_invI[of _ i]) simp
  ultimately show ?thesis
    by (simp add: demo_inv_def)
qed

lemma demo_inv_init: "demo_inv demo_init"
  by (simp add: demo_init_def demo_inv_def mutex_inv_def shape_inv_def main_inv_def counter_inv_def
      wakeup_inv_def holder_inv_def logged_def created_consumers_def created_producers_def)

lemma demo_step_inv: "demo_step a s s' \<Longrightarrow> demo_inv s \<Longrightarrow> demo_inv s'"
proof (induction rule: demo_step.induct)
  case (main_act ok s s')
  then show ?case by (blast intro: main_step_demo_inv)
next
  case (consumer_act k i s s')
  then show ?case
    unfolding demo_inv_def
    by (meson consume_step_mutex_inv consume_step_shape_inv consume_step_main_inv
        consume_step_counter_inv consume_step_wakeup_inv counter_inv_def)
next
  case (producer_act k ws j s s')
  then show ?case
    unfolding demo_inv_def
    by (meson produce_step_mutex_inv produce_step_shape_inv produce_step_main_inv
        produce_step_counter_inv produce_step_wakeup_inv)
next
  case (spurious_wakeup s i)
  then show ?case by (blast intro: spurious_demo_inv)
qed

interpretation pd: invariant_of demo_init demo_step demo_inv
  by unfold_locales (auto intro: demo_inv_init demo_step_inv)


section \<open>Schedules\<close>

text \<open>A schedule names the thread of each step and resolves the choices of the library.\<close>

datatype choice = MainRuns bool | ConsumerRuns int nat | ProducerRuns int "nat list" nat | WakesUp nat

fun demo_exec1 :: "choice \<Rightarrow> demo \<Rightarrow> demo option" where
  "demo_exec1 (MainRuns ok) s = pthread_cond_demo_step ok s"
| "demo_exec1 (ConsumerRuns k i) s = consume_step k i s"
| "demo_exec1 (ProducerRuns k ws j) s = produce_step k ws j s"
| "demo_exec1 (WakesUp i) s = (if pcs s (Consumer i) = Blocked then Some (wake [i] s) else None)"

fun demo_exec :: "choice list \<Rightarrow> demo \<Rightarrow> demo option" where
  "demo_exec [] s = Some s"
| "demo_exec (c # cs) s = Option.bind (demo_exec1 c s) (demo_exec cs)"

fun chooser :: "choice \<Rightarrow> actor" where
  "chooser (MainRuns ok) = MainThread"
| "chooser (ConsumerRuns k i) = Worker (Consumer i)"
| "chooser (ProducerRuns k ws j) = Worker (Producer j)"
| "chooser (WakesUp i) = Library"

lemma demo_exec1_step: "demo_exec1 c s = Some s' \<Longrightarrow> demo_step (chooser c) s s'"
  by (cases c) (auto intro: demo_step.intros split: if_splits)

lemma demo_exec_reaches: "demo_exec cs s = Some s' \<Longrightarrow> demo_reaches s \<Longrightarrow> demo_reaches s'"
  by (induction cs arbitrary: s) (auto simp: bind_eq_Some_conv intro: reaches_step demo_exec1_step)

lemmas demo_exec_init = demo_exec_reaches[OF _ reaches_init]


section \<open>Safety\<close>

text \<open>C7: In every state that the two consumers, the producer and the main thread can reach, with
  any interleaving, any choice of the woken threads, spurious wakeups and failed thread
  creations: at most one thread is in a critical section and it holds the mutex; the printed
  lines are those of a sequential counter that starts with no product and two batches, so that no
  product is consumed twice or before it is produced; the shared counters stay between 0 and 10
  and between 0 and 2; and while there are products and no signal is pending, not all
  consumers that were created are blocked.\<close>

theorem pthread_cond_demo_safe:
  assumes "demo_reaches s"
  shows "(\<forall>t t'. critical (pcs s t) \<and> critical (pcs s t') \<longrightarrow> t = t' \<and> mutex s = Some t) \<and>
    (\<exists>n v. replay (0, 2) (printed s) = Some (n, v) \<and>
       (mutex s = None \<longrightarrow> nready s = n \<and> var s = v) \<and>
       n + int (products_consumed (printed s)) + 5 * v = 10) \<and>
    0 \<le> nready s \<and> nready s \<le> 10 \<and> 0 \<le> var s \<and> var s \<le> 2 \<and>
    (0 < nready s \<and> \<not> signal_pending s \<and> (\<exists>i. pcs s (Consumer i) \<noteq> Unborn) \<longrightarrow>
       (\<exists>i. pcs s (Consumer i) \<notin> {Unborn, Blocked}))"
proof -
  have inv: "demo_inv s"
    using assms by (rule pd.reaches_inv)
  obtain n v where nv: "replay (0, 2) (printed s) = Some (n, v)" "logged s = (n, v)"
    using inv by (cases "logged s") (auto simp: demo_inv_def counter_inv_def)
  have b: "0 \<le> n" "0 \<le> v" "n + int (products_consumed (printed s)) + 5 * v = 10"
    using replay_bounds[OF nv(1)] by simp_all
  have hold: "holder_inv s"
    using inv by (simp add: demo_inv_def counter_inv_def)
  have "0 \<le> nready s \<and> nready s \<le> 10 \<and> 0 \<le> var s \<and> var s \<le> 2"
    using nv(2) b hold
    by (auto simp: logged_def holder_inv_def split: option.splits thread.splits pc.splits if_splits)
  moreover have "mutex s = None \<longrightarrow> nready s = n \<and> var s = v"
    using nv(2) by (auto simp: logged_def)
  moreover have "critical (pcs s t) \<and> critical (pcs s t') \<longrightarrow> t = t' \<and> mutex s = Some t" for t t'
    using inv by (auto simp: demo_inv_def mutex_inv_def)
  moreover have "0 < nready s \<and> \<not> signal_pending s \<and> (\<exists>i. pcs s (Consumer i) \<noteq> Unborn) \<longrightarrow>
       (\<exists>i. pcs s (Consumer i) \<notin> {Unborn, Blocked})"
    using inv unfolding demo_inv_def wakeup_inv_def by blast
  ultimately show ?thesis
    using nv(1) b(3) by (intro conjI exI[of _ n] exI[of _ v] allI) simp_all
qed

definition demo_script :: "choice list" where
  "demo_script =
     replicate 8 (MainRuns True) @ replicate 3 (ConsumerRuns 0 0) @ replicate 3 (ConsumerRuns 0 1) @
     replicate 10 (ProducerRuns 7 [1] 0) @ [WakesUp 0] @ replicate 5 (ConsumerRuns 0 1)"

theorem pthread_cond_demo_safe_witness:
  "\<exists>s. demo_reaches s \<and> mutex s = Some (Consumer 1) \<and>
     (\<forall>t. critical (pcs s t) \<longrightarrow> t = Consumer 1) \<and>
     printed s = [Produced 1 (Producer 0) 5 1, Consumed 1 (Consumer 1) 4] \<and>
     products_consumed (printed s) = 1 \<and> nready s = 4 \<and> nready s \<le> 10"
proof -
  have "(case demo_exec demo_script demo_init of None \<Rightarrow> False
         | Some s \<Rightarrow> mutex s = Some (Consumer 1) \<and> pcs s (Consumer 1) = Unlock \<and> nready s = 4 \<and>
             printed s = [Produced 1 (Producer 0) 5 1, Consumed 1 (Consumer 1) 4]) = True"
    by code_simp
  then obtain s where s: "demo_exec demo_script demo_init = Some s" "mutex s = Some (Consumer 1)"
      "pcs s (Consumer 1) = Unlock" "nready s = 4"
      "printed s = [Produced 1 (Producer 0) 5 1, Consumed 1 (Consumer 1) 4]"
    by (auto split: option.splits)
  have r: "demo_reaches s"
    by (rule demo_exec_init[OF s(1)])
  have "critical (pcs s t) \<longrightarrow> t = Consumer 1" for t
    using pthread_cond_demo_safe[OF r] s(3) by (metis critical_simps(7))
  then show ?thesis
    using s r by (intro exI[of _ s]) (simp add: products_consumed_def)
qed

end
