(* ===== verification/Pthread_Live.thy ===== *)
theory Pthread_Live
  imports Pthread_Cond
begin

text \<open>
  Runs of the condition variable demo: concrete schedules, which show that the threads race for
  their argument, and fair infinite runs, in which every product is consumed.
\<close>


section \<open>Progress of a thread\<close>

definition can_act :: "demo \<Rightarrow> thread \<Rightarrow> bool" where
  "can_act s t \<longleftrightarrow> (\<exists>s'. demo_step (Worker t) s s')"

lemma consumer_can_act: "consume_step 0 i s = Some s' \<Longrightarrow> can_act s (Consumer i)"
  by (auto simp: can_act_def intro: consumer_act)

lemma producer_can_act: "produce_step 0 ws j s = Some s' \<Longrightarrow> can_act s (Producer j)"
  by (auto simp: can_act_def intro: producer_act)

text \<open>The counters of a state that satisfies the invariant.\<close>

lemma demo_inv_counters:
  assumes "demo_inv s"
  shows "0 \<le> nready s" "nready s \<le> 10" "0 \<le> var s" "var s \<le> 2"
    "replay (0, 2) (printed s) = Some (logged s)"
proof -
  obtain n v where nv: "replay (0, 2) (printed s) = Some (n, v)" "logged s = (n, v)"
    using assms by (cases "logged s") (auto simp: demo_inv_def counter_inv_def)
  have b: "0 \<le> n" "0 \<le> v" "n + int (products_consumed (printed s)) + 5 * v = 10"
    using replay_bounds[OF nv(1)] by simp_all
  have hold: "holder_inv s"
    using assms by (simp add: demo_inv_def counter_inv_def)
  show "0 \<le> nready s" "nready s \<le> 10" "0 \<le> var s" "var s \<le> 2"
    using nv(2) b hold
    by (auto simp: logged_def holder_inv_def split: option.splits thread.splits pc.splits if_splits)
  show "replay (0, 2) (printed s) = Some (logged s)"
    using nv by simp
qed

lemma holder: "demo_inv s \<Longrightarrow> critical (pcs s t) \<longleftrightarrow> mutex s = Some t"
  by (simp add: demo_inv_def mutex_inv_def)

lemma store_reg:
  assumes "demo_inv s" "pcs s t = Store"
  shows "regs s t = nready s"
proof -
  have "mutex s = Some t"
    using assms holder[of s t] by simp
  then show ?thesis
    using assms by (cases t) (auto simp: demo_inv_def counter_inv_def holder_inv_def)
qed

text \<open>A thread that is not blocked can move, unless it waits for the mutex.\<close>

lemma can_act_unlocked:
  assumes inv: "demo_inv s" and pc: "pcs s t \<notin> {Unborn, Blocked, Lock, Relock}"
  shows "can_act s t"
proof (cases t)
  case (Consumer i)
  have sh: "pcs s (Consumer i) \<noteq> DecVar" "pcs s (Consumer i) \<noteq> Signal"
    using inv by (auto simp: demo_inv_def shape_inv_def)
  have "consume_step 0 i s \<noteq> None"
    using pc sh demo_inv_counters[OF inv] store_reg[OF inv, of t] Consumer
    by (cases "pcs s (Consumer i)") (auto simp: consume_step_def Let_def INT_MAX_def INT_MIN_def)
  then show ?thesis
    using Consumer consumer_can_act by blast
next
  case (Producer j)
  have sh: "pcs s (Producer j) \<noteq> Blocked" "pcs s (Producer j) \<noteq> Relock"
    using inv by (auto simp: demo_inv_def shape_inv_def)
  have "produce_step 0 (blocked s) j s \<noteq> None"
    using pc sh demo_inv_counters[OF inv] store_reg[OF inv, of t] Producer
    by (cases "pcs s (Producer j)")
      (auto simp: produce_step_def Let_def INT_MAX_def INT_MIN_def pthread_cond_signal_def)
  then show ?thesis
    using Producer producer_can_act by blast
qed

lemma can_act_free:
  assumes inv: "demo_inv s" and pc: "pcs s t \<notin> {Unborn, Blocked}" and free: "mutex s = None"
  shows "can_act s t"
proof (cases "pcs s t \<in> {Lock, Relock}")
  case True
  show ?thesis
  proof (cases t)
    case (Consumer i)
    have "consume_step 0 i s \<noteq> None"
      using True free Consumer by (auto simp: consume_step_def Let_def pthread_mutex_lock_def)
    then show ?thesis
      using Consumer consumer_can_act by blast
  next
    case (Producer j)
    then have "pcs s (Producer j) = Lock"
      using True inv by (auto simp: demo_inv_def shape_inv_def)
    then have "produce_step 0 [] j s \<noteq> None"
      using free by (simp add: produce_step_def Let_def pthread_mutex_lock_def)
    then show ?thesis
      using Producer producer_can_act by blast
  qed
next
  case False
  then show ?thesis
    using can_act_unlocked[OF inv] pc by blast
qed

text \<open>The other actors do not move a thread that is not blocked, nor take its mutex.\<close>

lemma others_step:
  assumes inv: "demo_inv s" and step: "demo_step a s s'" and a: "a \<noteq> Worker t"
    and pc: "pcs s t \<notin> {Unborn, Blocked}"
  shows "pcs s' t = pcs s t"
  using step
proof cases
  case (main_act ok)
  then show ?thesis
    using main_step_frame[of s ok s'] inv pc by (auto simp: demo_inv_def)
next
  case (consumer_act k i)
  then show ?thesis
    using consume_step_frame[of k i s s'] a by auto
next
  case (producer_act k ws j)
  then show ?thesis
    using produce_step_frame[of k ws j s s'] a pc by (cases t) auto
next
  case (spurious_wakeup i)
  then show ?thesis
    using pc by (cases t) auto
qed

text \<open>The output grows by at most one line at a time, and only when a thread prints.\<close>

lemma step_printed:
  assumes "demo_inv s" "demo_step a s s'"
  shows "\<exists>es. printed s' = printed s @ es"
  using assms(2)
proof cases
  case (main_act ok)
  then show ?thesis
    using main_step_frame[of s ok s'] assms(1) by (auto simp: demo_inv_def)
next
  case (consumer_act k i)
  from consumer_act(2) show ?thesis by (cases rule: consume_stepE) auto
next
  case (producer_act k ws j)
  from producer_act(2) show ?thesis by (cases rule: produce_stepE) auto
qed auto

lemma step_born:
  assumes "demo_inv s" "demo_step a s s'" "pcs s t \<noteq> Unborn"
  shows "pcs s' t \<noteq> Unborn"
  using assms(2)
proof cases
  case (main_act ok)
  then show ?thesis
    using main_step_frame[of s ok s'] assms(1,3) by (metis demo_inv_def)
next
  case (consumer_act k i)
  then show ?thesis
    using consume_step_frame[of k i s s'] assms(3) by (cases "t = Consumer i") auto
next
  case (producer_act k ws j)
  then show ?thesis
    using produce_step_frame[of k ws j s s'] assms(3) by (cases t) (metis pc.distinct(9), metis)
next
  case (spurious_wakeup i)
  then show ?thesis
    using assms(3) by (cases t) auto
qed

lemma replay_length:
  "replay (n, v) es = Some (n', v') \<Longrightarrow> int (length es) = int (products_consumed es) + (v - v')"
  by (induction "(n, v)" es arbitrary: n v rule: replay.induct)
    (auto simp: products_consumed_def split: if_splits)

lemma printed_bound:
  assumes "demo_inv s"
  shows "length (printed s) \<le> 12"
proof -
  obtain n v where nv: "replay (0, 2) (printed s) = Some (n, v)"
    using demo_inv_counters(5)[OF assms] by (cases "logged s") auto
  show ?thesis
    using replay_length[OF nv] replay_bounds[OF nv] by linarith
qed


section \<open>Fair runs\<close>

definition demo_fair_run :: "(nat \<Rightarrow> demo) \<Rightarrow> (nat \<Rightarrow> actor) \<Rightarrow> bool" where
  "demo_fair_run \<sigma> \<alpha> \<longleftrightarrow>
     run demo_init demo_step \<sigma> \<alpha> \<and> (\<forall>t. fair_for demo_step \<sigma> \<alpha> (Worker t))"

lemma fair_run_step: "demo_fair_run \<sigma> \<alpha> \<Longrightarrow> demo_step (\<alpha> n) (\<sigma> n) (\<sigma> (Suc n))"
  by (simp add: demo_fair_run_def run_def)

lemma fair_run_inv: "demo_fair_run \<sigma> \<alpha> \<Longrightarrow> demo_inv (\<sigma> n)"
  unfolding demo_fair_run_def by (blast intro: pd.reaches_inv run_reaches)

lemma idle_keeps_pc:
  assumes run: "demo_fair_run \<sigma> \<alpha>" and pc: "pcs (\<sigma> n) t \<notin> {Unborn, Blocked}"
    and idle: "\<forall>m\<ge>n. \<alpha> m \<noteq> Worker t" and "n \<le> m"
  shows "pcs (\<sigma> m) t = pcs (\<sigma> n) t"
  using \<open>n \<le> m\<close>
proof (induction rule: dec_induct)
  case (step m)
  then show ?case
    using others_step[OF fair_run_inv[OF run] fair_run_step[OF run, of m]] idle pc by simp
qed simp

lemma eventually_acts:
  assumes run: "demo_fair_run \<sigma> \<alpha>" and pc: "pcs (\<sigma> n) t \<notin> {Unborn, Blocked}"
    and again: "\<And>m. n \<le> m \<Longrightarrow> pcs (\<sigma> m) t = pcs (\<sigma> n) t \<Longrightarrow> \<exists>k\<ge>m. can_act (\<sigma> k) t"
  shows "\<exists>m\<ge>n. \<alpha> m = Worker t"
proof (rule ccontr)
  assume "\<not> ?thesis"
  then have idle: "\<forall>m\<ge>n. \<alpha> m \<noteq> Worker t" by blast
  have "\<exists>k\<ge>m. \<exists>s'. demo_step (Worker t) (\<sigma> k) s'" for m
  proof -
    obtain k where "max m n \<le> k" "can_act (\<sigma> k) t"
      using again[of "max m n"] idle_keeps_pc[OF run pc idle, of "max m n"] by auto
    then show ?thesis
      by (auto simp: can_act_def)
  qed
  then have "\<exists>m\<ge>n. \<alpha> m = Worker t"
    using run unfolding demo_fair_run_def fair_for_def by blast
  then show False
    using idle by blast
qed

text \<open>The holder of the mutex leaves its critical section.\<close>

fun section_rank :: "pc \<Rightarrow> nat" where
  "section_rank Test = 7"
| "section_rank DecVar = 6"
| "section_rank Load = 5"
| "section_rank Store = 4"
| "section_rank Print = 3"
| "section_rank Signal = 2"
| "section_rank Unlock = 1"
| "section_rank _ = 0"

lemma section_rank_0: "section_rank p = 0 \<longleftrightarrow> \<not> critical p"
  by (cases p) simp_all

lemma own_section_rank:
  assumes "demo_step (Worker t) s s'" "critical (pcs s t)"
  shows "section_rank (pcs s' t) < section_rank (pcs s t) \<and> (critical (pcs s' t) \<or> mutex s' = None)"
proof (cases t)
  case (Consumer i)
  from assms(1)[unfolded Consumer] show ?thesis
  proof (rule consumer_actE)
    fix k
    assume "consume_step k i s = Some s'"
    then show ?thesis
      using assms(2) Consumer by (cases rule: consume_stepE) auto
  qed
next
  case (Producer j)
  from assms(1)[unfolded Producer] show ?thesis
  proof (rule producer_actE)
    fix k ws
    assume "produce_step k ws j s = Some s'"
    then show ?thesis
      using assms(2) Producer by (cases rule: produce_stepE) auto
  qed
qed

lemma section_entered_or_left:
  assumes run: "demo_fair_run \<sigma> \<alpha>" and crit: "critical (pcs (\<sigma> n) t)" and "n \<le> m"
  shows "critical (pcs (\<sigma> m) t) \<or> (\<exists>k\<ge>n. mutex (\<sigma> k) = None)"
  using \<open>n \<le> m\<close>
proof (induction rule: dec_induct)
  case base
  show ?case using crit by simp
next
  case (step m)
  note st = fair_run_step[OF run, of m]
  show ?case
  proof (cases "critical (pcs (\<sigma> m) t)")
    case True
    then have "pcs (\<sigma> m) t \<notin> {Unborn, Blocked}" by auto
    then have "critical (pcs (\<sigma> (Suc m)) t) \<or> mutex (\<sigma> (Suc m)) = None"
      using True st others_step[OF fair_run_inv[OF run] st, of t] own_section_rank[OF _ True, of "\<sigma> (Suc m)"]
      by (cases "\<alpha> m = Worker t") auto
    then show ?thesis
      using step.hyps by (auto intro: exI[of _ "Suc m"])
  qed (use step.IH in blast)
qed

lemma mutex_released:
  assumes run: "demo_fair_run \<sigma> \<alpha>"
  shows "\<exists>m\<ge>n. mutex (\<sigma> m) = None"
proof (cases "mutex (\<sigma> n)")
  case (Some t)
  have "\<exists>m\<ge>n. section_rank (pcs (\<sigma> m) t) = 0"
  proof (rule rank_reaches_zero[where \<alpha> = \<alpha> and a = "Worker t"])
    fix m
    assume m: "section_rank (pcs (\<sigma> m) t) \<noteq> 0"
    then have crit: "critical (pcs (\<sigma> m) t)"
      by (simp add: section_rank_0)
    then have pc: "pcs (\<sigma> m) t \<notin> {Unborn, Blocked}" "pcs (\<sigma> m) t \<notin> {Unborn, Blocked, Lock, Relock}"
      by auto
    show "\<exists>k\<ge>m. \<alpha> k = Worker t"
      using pc(2) can_act_unlocked[OF fair_run_inv[OF run]]
      by (intro eventually_acts[OF run pc(1)]) (metis order_refl)
    show "section_rank (pcs (\<sigma> (Suc m)) t) \<le> section_rank (pcs (\<sigma> m) t)" if "\<alpha> m \<noteq> Worker t"
      using others_step[OF fair_run_inv[OF run] fair_run_step[OF run, of m] that pc(1)] by simp
    show "section_rank (pcs (\<sigma> (Suc m)) t) < section_rank (pcs (\<sigma> m) t)" if "\<alpha> m = Worker t"
      using own_section_rank[OF _ crit, of "\<sigma> (Suc m)"] fair_run_step[OF run, of m] that by simp
  qed
  then obtain m where m: "n \<le> m" "\<not> critical (pcs (\<sigma> m) t)"
    by (auto simp: section_rank_0)
  have "critical (pcs (\<sigma> n) t)"
    using Some holder[OF fair_run_inv[OF run]] by simp
  then show ?thesis
    using section_entered_or_left[OF run _ m(1)] m(2) by blast
qed auto

text \<open>A thread that is not blocked acts again.\<close>

lemma unblocked_acts:
  assumes run: "demo_fair_run \<sigma> \<alpha>" and pc: "pcs (\<sigma> n) t \<notin> {Unborn, Blocked}"
  shows "\<exists>m\<ge>n. \<alpha> m = Worker t"
proof (rule ccontr)
  assume "\<not> ?thesis"
  then have idle: "\<forall>m\<ge>n. \<alpha> m \<noteq> Worker t" by blast
  have "\<exists>m\<ge>n. \<alpha> m = Worker t"
  proof (rule eventually_acts[OF run pc])
    fix m
    assume "n \<le> m"
    obtain k where k: "m \<le> k" "mutex (\<sigma> k) = None"
      using mutex_released[OF run] by blast
    then have "pcs (\<sigma> k) t \<notin> {Unborn, Blocked}"
      using idle_keeps_pc[OF run pc idle, of k] pc \<open>n \<le> m\<close> by simp
    then show "\<exists>k\<ge>m. can_act (\<sigma> k) t"
      using can_act_free[OF fair_run_inv[OF run]] k by blast
  qed
  then show False
    using idle by blast
qed

text \<open>
  A thread whose rank falls with every step it takes, once the output no longer changes, cannot
  exist: it would have to print.
\<close>

lemma silent_thread_contradiction:
  assumes run: "demo_fair_run \<sigma> \<alpha>"
    and alive: "pcs (\<sigma> N) t \<notin> {Unborn, Blocked}"
    and pos: "\<And>p. p \<notin> {Unborn, Blocked} \<Longrightarrow> 0 < r p"
    and own: "\<And>n. N \<le> n \<Longrightarrow> \<alpha> n = Worker t \<Longrightarrow> pcs (\<sigma> n) t \<notin> {Unborn, Blocked} \<Longrightarrow>
      pcs (\<sigma> (Suc n)) t \<notin> {Unborn, Blocked} \<and> r (pcs (\<sigma> (Suc n)) t) < (r (pcs (\<sigma> n) t) :: nat)"
  shows False
proof -
  have alive': "pcs (\<sigma> n) t \<notin> {Unborn, Blocked}" if "N \<le> n" for n
    using that
  proof (induction rule: dec_induct)
    case base
    show ?case by (rule alive)
  next
    case (step n)
    show ?case
      using own[OF step.hyps(1) _ step.IH] step.IH
        others_step[OF fair_run_inv[OF run] fair_run_step[OF run, of n] _ step.IH]
      by (cases "\<alpha> n = Worker t") auto
  qed
  have "\<exists>n\<ge>N. r (pcs (\<sigma> n) t) = 0"
  proof (rule rank_reaches_zero[where \<alpha> = \<alpha> and a = "Worker t"])
    fix n
    assume n: "N \<le> n"
    show "\<exists>m\<ge>n. \<alpha> m = Worker t"
      by (rule unblocked_acts[OF run alive'[OF n]])
    show "r (pcs (\<sigma> (Suc n)) t) \<le> r (pcs (\<sigma> n) t)" if "\<alpha> n \<noteq> Worker t"
      using others_step[OF fair_run_inv[OF run] fair_run_step[OF run, of n] that alive'[OF n]] by simp
    show "r (pcs (\<sigma> (Suc n)) t) < r (pcs (\<sigma> n) t)" if "\<alpha> n = Worker t"
      using own[OF n that alive'[OF n]] by simp
  qed
  then show False
    using pos alive' by (metis less_irrefl)
qed


section \<open>Liveness\<close>

fun producer_rank :: "pc \<Rightarrow> nat" where
  "producer_rank Signal = 9"
| "producer_rank Unlock = 8"
| "producer_rank Sleep = 7"
| "producer_rank Start = 7"
| "producer_rank Lock = 6"
| "producer_rank Test = 5"
| "producer_rank DecVar = 4"
| "producer_rank Load = 3"
| "producer_rank Store = 2"
| "producer_rank _ = 1"

fun consumer_rank :: "pc \<Rightarrow> nat" where
  "consumer_rank Unlock = 7"
| "consumer_rank Sleep = 6"
| "consumer_rank Start = 6"
| "consumer_rank Lock = 5"
| "consumer_rank Relock = 5"
| "consumer_rank Test = 4"
| "consumer_rank Load = 3"
| "consumer_rank Store = 2"
| "consumer_rank _ = 1"

text \<open>While batches are left, the producer goes on to print; while products are left, a consumer.\<close>

lemma producer_advances:
  assumes inv: "demo_inv s" and step: "demo_step (Worker (Producer j)) s s'"
    and silent: "printed s' = printed s" and left: "logged s = (n, v)" "0 < v"
  shows "pcs s' (Producer j) \<notin> {Unborn, Blocked} \<and>
    producer_rank (pcs s' (Producer j)) < producer_rank (pcs s (Producer j))"
  using step
proof (rule producer_actE)
  fix k ws
  assume "produce_step k ws j s = Some s'"
  then show ?thesis
    using silent left holder[OF inv, of "Producer j"]
    by (cases rule: produce_stepE) (auto simp: logged_def)
qed

lemma consumer_advances:
  assumes inv: "demo_inv s" and step: "demo_step (Worker (Consumer i)) s s'"
    and silent: "printed s' = printed s" and left: "logged s = (n, v)" "0 < n"
  shows "pcs s' (Consumer i) \<notin> {Unborn, Blocked} \<and>
    consumer_rank (pcs s' (Consumer i)) < consumer_rank (pcs s (Consumer i))"
  using step
proof (rule consumer_actE)
  fix k
  assume "consume_step k i s = Some s'"
  then show ?thesis
    using silent left holder[OF inv, of "Consumer i"]
    by (cases rule: consume_stepE) (auto simp: logged_def)
qed

lemma fair_run_born:
  assumes run: "demo_fair_run \<sigma> \<alpha>" and "pcs (\<sigma> n) t \<noteq> Unborn" "n \<le> m"
  shows "pcs (\<sigma> m) t \<noteq> Unborn"
  using assms(3,2)
proof (induction rule: dec_induct)
  case (step n)
  then show ?case
    using step_born[OF fair_run_inv[OF run] fair_run_step[OF run, of n]] by blast
qed simp

lemma fair_run_silent:
  assumes run: "demo_fair_run \<sigma> \<alpha>"
  shows "\<exists>N\<ge>M. \<forall>n\<ge>N. printed (\<sigma> n) = printed (\<sigma> N)"
proof -
  have grow: "\<exists>es. printed (\<sigma> (Suc n)) = printed (\<sigma> n) @ es" for n
    by (rule step_printed[OF fair_run_inv[OF run] fair_run_step[OF run]])
  have le: "length (printed (\<sigma> n)) \<le> length (printed (\<sigma> (Suc n)))" for n
    using grow[of n] by auto
  obtain N0 where N0: "\<forall>n\<ge>N0. length (printed (\<sigma> n)) = length (printed (\<sigma> N0))"
    using bounded_stabilises[of "\<lambda>n. length (printed (\<sigma> n))" 12, OF le printed_bound[OF fair_run_inv[OF run]]]
    by blast
  have "printed (\<sigma> n) = printed (\<sigma> N0)" if "N0 \<le> n" for n
    using that
  proof (induction rule: dec_induct)
    case (step n)
    then show ?case
      using grow[of n] N0[rule_format, of n] N0[rule_format, of "Suc n"] by auto
  qed simp
  then have "\<forall>n\<ge>max M N0. printed (\<sigma> n) = printed (\<sigma> (max M N0))"
    by (metis max.bounded_iff max.cobounded2)
  then show ?thesis by (meson max.cobounded1)
qed

lemma all_batches_printed:
  assumes run: "demo_fair_run \<sigma> \<alpha>" and silent: "\<forall>n\<ge>N. printed (\<sigma> n) = printed (\<sigma> N)"
    and born: "pcs (\<sigma> N) (Producer 0) \<noteq> Unborn" and log: "\<And>n. N \<le> n \<Longrightarrow> logged (\<sigma> n) = (k, v)"
  shows "v \<le> 0"
proof (rule ccontr)
  assume v: "\<not> v \<le> 0"
  have "pcs (\<sigma> N) (Producer 0) \<noteq> Blocked"
    using fair_run_inv[OF run, of N] by (auto simp: demo_inv_def shape_inv_def)
  then have alive: "pcs (\<sigma> N) (Producer 0) \<notin> {Unborn, Blocked}"
    using born by simp
  show False
  proof (rule silent_thread_contradiction[OF run alive, of producer_rank])
    fix n
    assume n: "N \<le> n" "\<alpha> n = Worker (Producer 0)"
    have "printed (\<sigma> (Suc n)) = printed (\<sigma> n)"
      using silent[rule_format, of n] silent[rule_format, of "Suc n"] n by simp
    then show "pcs (\<sigma> (Suc n)) (Producer 0) \<notin> {Unborn, Blocked} \<and>
        producer_rank (pcs (\<sigma> (Suc n)) (Producer 0)) < producer_rank (pcs (\<sigma> n) (Producer 0))"
      using fair_run_step[OF run, of n] n v log[OF n(1)]
      by (intro producer_advances[OF fair_run_inv[OF run]]) auto
  next
    fix p
    show "0 < producer_rank p" by (cases p) simp_all
  qed
qed

text \<open>A pending signal is given, and then a consumer is awake.\<close>

lemma signal_given:
  assumes run: "demo_fair_run \<sigma> \<alpha>" and log: "\<And>n. N \<le> n \<Longrightarrow> logged (\<sigma> n) = (k, v)" and v: "v \<le> 0"
  shows "\<exists>n\<ge>N. \<not> signal_pending (\<sigma> n)"
proof (rule ccontr)
  assume "\<not> ?thesis"
  then have pending: "signal_pending (\<sigma> n)" if "N \<le> n" for n
    using that by blast
  have sig: "pcs (\<sigma> n) (Producer 0) = Signal" if n: "N \<le> n" for n
  proof -
    obtain j where j: "pcs (\<sigma> n) (Producer j) \<in> {Print, Signal}"
      using pending[OF n] by (auto simp: signal_pending_def)
    have inv: "demo_inv (\<sigma> n)"
      by (rule fair_run_inv[OF run])
    have "j = 0"
      using j inv by (intro only_producer[of "\<sigma> n"]) (auto simp: demo_inv_def)
    moreover have "pcs (\<sigma> n) (Producer j) \<noteq> Print"
      using log[OF n] v holder[OF inv, of "Producer j"] demo_inv_counters(3)[OF inv]
      by (auto simp: logged_def)
    ultimately show ?thesis
      using j by auto
  qed
  obtain m where m: "N \<le> m" "\<alpha> m = Worker (Producer 0)"
    using unblocked_acts[OF run, of N "Producer 0"] sig[of N] by auto
  have "section_rank (pcs (\<sigma> (Suc m)) (Producer 0)) < section_rank (pcs (\<sigma> m) (Producer 0))"
    using own_section_rank[of "Producer 0" "\<sigma> m" "\<sigma> (Suc m)"] fair_run_step[OF run, of m] m sig[of m] by simp
  then show False
    using sig[of m] sig[of "Suc m"] m by simp
qed

lemma awake_consumer:
  assumes inv: "demo_inv s" and log: "logged s = (k, v)" "0 < k" "v \<le> 0"
    and sig: "\<not> signal_pending s" and born: "pcs s (Consumer i) \<noteq> Unborn"
  shows "\<exists>i. pcs s (Consumer i) \<notin> {Unborn, Blocked}"
proof (cases "0 < nready s")
  case True
  then show ?thesis
    using inv sig born unfolding demo_inv_def wakeup_inv_def by blast
next
  case False
  then obtain i where "pcs s (Consumer i) = Print"
    using log demo_inv_counters(3)[OF inv]
    by (auto simp: logged_def split: option.splits thread.splits if_splits pc.splits)
  then show ?thesis
    by (intro exI[of _ i]) simp
qed

lemma all_products_printed:
  assumes run: "demo_fair_run \<sigma> \<alpha>" and silent: "\<forall>n\<ge>N. printed (\<sigma> n) = printed (\<sigma> N)"
    and born: "pcs (\<sigma> N) (Consumer i) \<noteq> Unborn" and log: "\<And>n. N \<le> n \<Longrightarrow> logged (\<sigma> n) = (k, v)"
    and v: "v \<le> 0"
  shows "k \<le> 0"
proof (rule ccontr)
  assume k: "\<not> k \<le> 0"
  obtain M where M: "N \<le> M" "\<not> signal_pending (\<sigma> M)"
    using signal_given[OF run log v] by blast
  obtain i where alive: "pcs (\<sigma> M) (Consumer i) \<notin> {Unborn, Blocked}"
    using awake_consumer[OF fair_run_inv[OF run] log[OF M(1)] _ v M(2) fair_run_born[OF run born M(1)]] k by auto
  show False
  proof (rule silent_thread_contradiction[OF run alive, of consumer_rank])
    fix n
    assume n: "M \<le> n" "\<alpha> n = Worker (Consumer i)"
    have "printed (\<sigma> (Suc n)) = printed (\<sigma> n)"
      using silent[rule_format, of n] silent[rule_format, of "Suc n"] n M(1) by simp
    then show "pcs (\<sigma> (Suc n)) (Consumer i) \<notin> {Unborn, Blocked} \<and>
        consumer_rank (pcs (\<sigma> (Suc n)) (Consumer i)) < consumer_rank (pcs (\<sigma> n) (Consumer i))"
      using fair_run_step[OF run, of n] n k log[of n] M(1)
      by (intro consumer_advances[OF fair_run_inv[OF run]]) auto
  next
    fix p
    show "0 < consumer_rank p" by (cases p) simp_all
  qed
qed

lemma logged_zero:
  "demo_inv s \<Longrightarrow> logged s = (0, 0) \<Longrightarrow> nready s = 0"
  using demo_inv_counters[of s]
  by (auto simp: logged_def split: option.splits thread.splits if_splits pc.splits)

text \<open>C8: If the scheduler is fair to every worker, and the producer and at least one consumer were
  created, then the demo consumes everything it produces: from some moment on the output shows ten
  consumed products and the counter of products is 0. No wakeup is lost, whichever consumer a
  signal wakes and however often threads wake up spuriously.\<close>

theorem pthread_cond_demo_live:
  assumes run: "demo_fair_run \<sigma> \<alpha>"
    and producer: "pcs (\<sigma> a) (Producer 0) \<noteq> Unborn"
    and consumer: "pcs (\<sigma> b) (Consumer i) \<noteq> Unborn"
  shows "\<exists>N. \<forall>n\<ge>N. products_consumed (printed (\<sigma> n)) = 10 \<and> nready (\<sigma> n) = 0"
proof -
  obtain N where N: "max a b \<le> N" and silent: "\<forall>n\<ge>N. printed (\<sigma> n) = printed (\<sigma> N)"
    using fair_run_silent[OF run] by blast
  note inv = fair_run_inv[OF run]
  obtain k v where kv: "logged (\<sigma> N) = (k, v)" by fastforce
  have log: "logged (\<sigma> n) = (k, v)" if "N \<le> n" for n
    using demo_inv_counters(5)[OF inv, of n] demo_inv_counters(5)[OF inv, of N] silent[rule_format, OF that] kv by simp
  have rep: "replay (0, 2) (printed (\<sigma> N)) = Some (k, v)"
    using demo_inv_counters(5)[OF inv, of N] kv by simp
  have born: "pcs (\<sigma> N) (Producer 0) \<noteq> Unborn" "pcs (\<sigma> N) (Consumer i) \<noteq> Unborn"
    using N fair_run_born[OF run producer] fair_run_born[OF run consumer] by simp_all
  have v: "v \<le> 0"
    by (rule all_batches_printed[OF run silent born(1) log])
  have "k \<le> 0"
    by (rule all_products_printed[OF run silent born(2) log v])
  then have kv0: "k = 0" "v = 0" "products_consumed (printed (\<sigma> N)) = 10"
    using v replay_bounds[OF rep] by simp_all
  then show ?thesis
    using silent log logged_zero[OF inv] by metis
qed


section \<open>A concrete fair run\<close>

text \<open>
  The main thread creates the threads, both consumers block, then each of the two batches wakes a
  consumer that consumes it and blocks again. After that the producer loops for ever.
\<close>

definition demo_schedule :: "choice list" where
  "demo_schedule =
     replicate 9 (MainRuns True) @ replicate 3 (ConsumerRuns 0 0) @ replicate 3 (ConsumerRuns 0 1) @
     replicate 10 (ProducerRuns 7 [0] 0) @ replicate 37 (ConsumerRuns 0 0) @
     replicate 9 (ProducerRuns 7 [1] 0) @ replicate 37 (ConsumerRuns 0 1)"

definition quiet :: "demo \<Rightarrow> bool" where
  "quiet s \<longleftrightarrow>
     var s = 0 \<and> pcs s (Consumer 0) = Blocked \<and> pcs s (Consumer 1) = Blocked \<and>
     (pcs s (Producer 0) = Test \<or> pcs s (Producer 0) = Unlock \<or>
      (pcs s (Producer 0) = Sleep \<or> pcs s (Producer 0) = Lock) \<and> mutex s = None)"

lemma demo_schedule_quiet: "(case demo_exec demo_schedule demo_init of Some s \<Rightarrow> quiet s | None \<Rightarrow> False) = True"
  by code_simp

definition demo_choice :: "nat \<Rightarrow> choice" where
  "demo_choice n = (if n < length demo_schedule then demo_schedule ! n else ProducerRuns 0 [] 0)"

primrec demo_state :: "nat \<Rightarrow> demo" where
  "demo_state 0 = demo_init"
| "demo_state (Suc n) = (case demo_exec1 (demo_choice n) (demo_state n) of Some s \<Rightarrow> s | None \<Rightarrow> demo_state n)"

lemma demo_exec_append: "demo_exec (cs @ ds) s = Option.bind (demo_exec cs s) (demo_exec ds)"
proof (induction cs arbitrary: s)
  case (Cons c cs)
  then show ?case
    by (cases "demo_exec1 c s") simp_all
qed simp

lemma demo_prefix:
  "n \<le> length demo_schedule \<Longrightarrow> demo_exec (take n demo_schedule) demo_init = Some (demo_state n)"
proof (induction n)
  case (Suc n)
  have "demo_exec (take n demo_schedule @ [demo_schedule ! n] @ drop (Suc n) demo_schedule) demo_init \<noteq> None"
    using Suc.prems demo_schedule_quiet by (auto simp: id_take_nth_drop[symmetric] split: option.splits)
  then have "demo_exec1 (demo_schedule ! n) (demo_state n) \<noteq> None"
    using Suc by (auto simp: demo_exec_append bind_eq_Some_conv)
  then show ?case
    using Suc by (auto simp: take_Suc_conv_app_nth demo_exec_append demo_choice_def)
qed simp

lemma demo_state_quiet_start: "quiet (demo_state (length demo_schedule))"
  using demo_prefix[of "length demo_schedule"] demo_schedule_quiet by simp

lemma quiet_step: "quiet s \<Longrightarrow> \<exists>s'. produce_step 0 [] 0 s = Some s' \<and> quiet s'"
  by (auto simp: quiet_def produce_step_def Let_def pthread_mutex_lock_def pthread_mutex_unlock_def)

lemma demo_state_quiet: "length demo_schedule \<le> n \<Longrightarrow> quiet (demo_state n)"
proof (induction rule: dec_induct)
  case (step n)
  then show ?case
    using quiet_step[of "demo_state n"] by (auto simp: demo_choice_def)
qed (rule demo_state_quiet_start)

lemma demo_state_step: "demo_exec1 (demo_choice n) (demo_state n) = Some (demo_state (Suc n))"
proof (cases "n < length demo_schedule")
  case True
  then have "demo_exec (take (Suc n) demo_schedule) demo_init = Some (demo_state (Suc n))"
    by (intro demo_prefix) simp
  then show ?thesis
    using True demo_prefix[of n]
    by (cases "demo_exec1 (demo_schedule ! n) (demo_state n)")
      (simp_all add: take_Suc_conv_app_nth demo_exec_append demo_choice_def)
next
  case False
  then show ?thesis
    using quiet_step[OF demo_state_quiet[of n]] by (auto simp: demo_choice_def)
qed

lemma demo_state_run: "run demo_init demo_step demo_state (\<lambda>n. chooser (demo_choice n))"
  unfolding run_def by (simp del: demo_state.simps(2) add: demo_exec1_step[OF demo_state_step])

lemma quiet_only_producer:
  assumes inv: "demo_inv s" and q: "quiet s" and step: "demo_step (Worker t) s s'"
  shows "t = Producer 0"
proof (cases t)
  case (Consumer i)
  from step[unfolded Consumer] obtain k where k: "consume_step k i s = Some s'"
    by (rule consumer_actE)
  then have "pcs s (Consumer i) \<noteq> Unborn"
    by (simp add: consume_step_frame)
  then have "i = 0 \<or> i = 1"
    using only_consumers[of s i] inv by (auto simp: demo_inv_def)
  then show ?thesis
    using q k by (auto simp: quiet_def consume_step_def)
next
  case (Producer j)
  from step[unfolded Producer] obtain k ws where k: "produce_step k ws j s = Some s'"
    by (rule producer_actE)
  then have "pcs s (Producer j) \<noteq> Unborn"
    by (simp add: produce_step_frame)
  then show ?thesis
    using only_producer[of s j] inv Producer by (simp add: demo_inv_def)
qed

lemma demo_state_fair: "demo_fair_run demo_state (\<lambda>n. chooser (demo_choice n))"
  unfolding demo_fair_run_def
proof (intro conjI allI)
  show "run demo_init demo_step demo_state (\<lambda>n. chooser (demo_choice n))"
    by (rule demo_state_run)
  fix t
  show "fair_for demo_step demo_state (\<lambda>n. chooser (demo_choice n)) (Worker t)"
    unfolding fair_for_def
  proof (intro impI allI)
    fix n
    assume "\<forall>n. \<exists>m\<ge>n. \<exists>s'. demo_step (Worker t) (demo_state m) s'"
    then obtain m s' where m: "length demo_schedule \<le> m" "demo_step (Worker t) (demo_state m) s'" by blast
    have "t = Producer 0"
      by (rule quiet_only_producer[OF pd.reaches_inv[OF run_reaches[OF demo_state_run]] demo_state_quiet[OF m(1)] m(2)])
    then show "\<exists>m\<ge>n. chooser (demo_choice m) = Worker t"
      by (intro exI[of _ "max n (length demo_schedule)"]) (simp add: demo_choice_def)
  qed
qed

theorem pthread_cond_demo_live_witness:
  "demo_fair_run demo_state (\<lambda>n. chooser (demo_choice n)) \<and>
   (\<exists>N. \<forall>n\<ge>N. products_consumed (printed (demo_state n)) = 10 \<and> nready (demo_state n) = 0)"
proof -
  have "quiet (demo_state (length demo_schedule))"
    by (rule demo_state_quiet) simp
  then have "pcs (demo_state (length demo_schedule)) (Producer 0) \<noteq> Unborn"
    "pcs (demo_state (length demo_schedule)) (Consumer 0) \<noteq> Unborn"
    by (auto simp: quiet_def)
  then show ?thesis
    using pthread_cond_demo_live[OF demo_state_fair] demo_state_fair by blast
qed

text \<open>The threads race for their argument, the address of the loop variable of the main
  thread: both consumers can start with the index 1, and the producer can read the variable after
  \<open>pthread_cond_demo\<close> has returned and its frame is gone.\<close>

theorem pthread_cond_demo_argument_race:
  "\<exists>s. demo_reaches s \<and> idxs s (Consumer 0) = 1 \<and> idxs s (Consumer 1) = 1 \<and> dangling s"
proof -
  let ?cs = "[MainRuns True, MainRuns True, ConsumerRuns 0 0, MainRuns True, ConsumerRuns 0 1] @
    replicate 6 (MainRuns True) @ [ProducerRuns 7 [] 0]"
  have "(case demo_exec ?cs demo_init of None \<Rightarrow> False
         | Some s \<Rightarrow> idxs s (Consumer 0) = 1 \<and> idxs s (Consumer 1) = 1 \<and> dangling s) = True"
    by code_simp
  then obtain s where "demo_exec ?cs demo_init = Some s" "idxs s (Consumer 0) = 1" "idxs s (Consumer 1) = 1"
      "dangling s"
    by (auto split: option.splits)
  then show ?thesis
    using demo_exec_init by blast
qed

end
