(* ===== verification/Epoll.thy ===== *)
theory Epoll
  imports DList Hash_Table
begin

text \<open>
  \<open>src/src/epoll.c\<close>: the epoll instances of the program, a doubly linked list of nodes
  (\<open>g_p_epoll_list\<close>) under a lock, each with a hash table from event descriptors to the control
  blocks that were handed to the kernel.

  The state has a heap for the list entries, the nodes, the control blocks and the data areas
  that control blocks own, the lock, and what the kernel keeps: \<open>es_kernel ep fd\<close> is the pointer
  that a successful \<open>epoll_ctl\<close> registered for \<open>fd\<close> at the instance \<open>ep\<close>, \<open>None\<close> if \<open>fd\<close> is not
  registered. The results of system calls and of malloc are arguments.

  The keys of the hash table are pointers to ints, which \<open>int_hash\<close> and \<open>int_equal\<close> dereference
  whenever they are called. \<open>mem\<close> is the content of the memory the keys point to at the time of a
  call; \<open>base_epoll_ctl\<close> uses the address of its own parameter \<open>event_fd\<close> as the key.
\<close>


unbundle bit_operations_syntax

section \<open>State\<close>

text \<open>The control block; \<open>'c\<close> is the type of callbacks.\<close>

record 'c EpollEvent =
  ev_eplfd :: int
  ev_fd :: int
  ev_callback :: 'c
  ev_data :: ptr
  ev_len :: int

record BsaeEpoll =
  ep_epoll_fd :: int
  ep_event_hash :: "(addr, addr) HashTable"

text \<open>What a \<open>void *\<close> passed to the list functions points to.\<close>

datatype epoll_ref = Node addr | FdLoc int

record 'c epoll_state =
  es_list :: ptr
  es_lheap :: "epoll_ref dheap"
  es_nodes :: "BsaeEpoll heap"
  es_blocks :: "'c EpollEvent heap"
  es_data :: "u8 list heap"
  es_lock :: bool
  es_kernel :: "int \<Rightarrow> int \<Rightarrow> ptr"

definition EPOLL_CTL_ADD :: int where "EPOLL_CTL_ADD = 1"
definition EPOLL_CTL_DEL :: int where "EPOLL_CTL_DEL = 2"
definition EPOLL_CTL_MOD :: int where "EPOLL_CTL_MOD = 3"


section \<open>Operations\<close>

text \<open>The lock is not recursive: locking it again never returns.\<close>

definition base_rwlock_wrlock :: "'c epoll_state \<Rightarrow> 'c epoll_state option" where
  "base_rwlock_wrlock s = (if es_lock s then None else Some (s\<lparr>es_lock := True\<rparr>))"

definition base_rwlock_unlock :: "'c epoll_state \<Rightarrow> 'c epoll_state" where
  "base_rwlock_unlock s = s\<lparr>es_lock := False\<rparr>"

text \<open>The kernel's side of a call whose result is \<open>r\<close>.\<close>

definition kernel_set :: "int \<Rightarrow> int \<Rightarrow> int \<Rightarrow> ptr \<Rightarrow> 'c epoll_state \<Rightarrow> 'c epoll_state" where
  "kernel_set r epfd fd p s =
     (if r = 0 then s\<lparr>es_kernel := (es_kernel s)(epfd := (es_kernel s epfd)(fd := p))\<rparr> else s)"

definition kernel_close :: "int \<Rightarrow> 'c epoll_state \<Rightarrow> 'c epoll_state" where
  "kernel_close epfd s = s\<lparr>es_kernel := (es_kernel s)(epfd := \<lambda>fd. None)\<rparr>"

text \<open>A hash table whose functions read the given memory.\<close>

definition ht_at :: "(addr \<Rightarrow> int) \<Rightarrow> (addr, addr) HashTable \<Rightarrow> (addr, addr) HashTable" where
  "ht_at mem ht = ht\<lparr>ht_hash_func := \<lambda>k. int_hash (mem k), ht_equal_func := \<lambda>k l. int_equal (mem k) (mem l)\<rparr>"

definition base_epoll_free_event_block :: "addr option \<Rightarrow> 'c epoll_state \<Rightarrow> 'c epoll_state option" where
  "base_epoll_free_event_block p_data s =
     (case p_data of
        None \<Rightarrow> Some s
      | Some b \<Rightarrow> do {
          e \<leftarrow> es_blocks s b;
          d \<leftarrow> c_free (es_data s) (ev_data e);
          bs \<leftarrow> c_free (es_blocks s) (Some b);
          Some (s\<lparr>es_data := d, es_blocks := bs\<rparr>)
        })"

text \<open>The calls of the registered free function that a hash table operation makes.\<close>

fun run_frees :: "(addr, addr) free_event list \<Rightarrow> 'c epoll_state \<Rightarrow> 'c epoll_state option" where
  "run_frees [] s = Some s"
| "run_frees (FreeValue v # fs) s = Option.bind (base_epoll_free_event_block v s) (run_frees fs)"
| "run_frees (f # fs) s = run_frees fs s"

definition base_epoll_free_event_hash :: "(addr, addr) HashTable \<Rightarrow> 'c epoll_state \<Rightarrow> 'c epoll_state option" where
  "base_epoll_free_event_hash p_event_hash s = do {
     fs \<leftarrow> hash_table_free p_event_hash;
     run_frees fs s
   }"

text \<open>
  The callback of the search in the list. A node in the list that was freed would be undefined
  behaviour; every node in the list is allocated (see the invariant below).
\<close>

fun base_epoll_list_equal :: "BsaeEpoll heap \<Rightarrow> epoll_ref \<Rightarrow> epoll_ref \<Rightarrow> int" where
  "base_epoll_list_equal nodes (Node a) (FdLoc fd) =
     (case nodes a of Some e \<Rightarrow> if ep_epoll_fd e = fd then 1 else 0 | None \<Rightarrow> 0)"
| "base_epoll_list_equal nodes _ _ = 0"

text \<open>
  \<open>eplfd\<close> is the result of \<open>epoll_create\<close>; \<open>m1\<close>, \<open>m2\<close>, \<open>mn\<close> and \<open>ml\<close> are the results of the
  allocations of the hash table, the node and the list entry.
\<close>

definition base_epoll_create ::
  "(addr \<Rightarrow> int) \<Rightarrow> int \<Rightarrow> bool \<Rightarrow> bool \<Rightarrow> ptr \<Rightarrow> ptr \<Rightarrow> 'c epoll_state \<Rightarrow> (int \<times> 'c epoll_state) option" where
  "base_epoll_create mem eplfd m1 m2 mn ml s =
     (if eplfd \<le> 0 then Some (- 1, s)
      else do {
        p_hash \<leftarrow> hash_table_new m1 m2 (\<lambda>k. int_hash (mem k)) (\<lambda>k l. int_equal (mem k) (mem l));
        case p_hash of
          None \<Rightarrow> Some (- 1, kernel_close eplfd s)
        | Some ht \<Rightarrow> (let ht = hash_table_register_free_functions ht False True in
            case mn of
              None \<Rightarrow> Some (- 1, kernel_close eplfd s)
            | Some a \<Rightarrow> do {
                let s = s\<lparr>es_nodes := (es_nodes s)(a \<mapsto> \<lparr>ep_epoll_fd = eplfd, ep_event_hash = ht\<rparr>)\<rparr>;
                s \<leftarrow> base_rwlock_wrlock s;
                (_, lheap, list) \<leftarrow> list_append ml (es_lheap s) (es_list s) (Node a);
                Some (eplfd, base_rwlock_unlock (s\<lparr>es_lheap := lheap, es_list := list\<rparr>))
              })
      })"

definition node_of :: "epoll_ref \<Rightarrow> addr option" where
  "node_of r = (case r of Node a \<Rightarrow> Some a | FdLoc fd \<Rightarrow> None)"

definition base_epoll_close :: "(addr \<Rightarrow> int) \<Rightarrow> int \<Rightarrow> 'c epoll_state \<Rightarrow> 'c epoll_state option" where
  "base_epoll_close mem epfd s =
     (if epfd = - 1 then Some s
      else do {
        s \<leftarrow> base_rwlock_wrlock s;
        p_node \<leftarrow> list_find_data (es_lheap s) (es_list s) (base_epoll_list_equal (es_nodes s)) (FdLoc epfd);
        s \<leftarrow> (if p_node = NULL then Some (base_rwlock_unlock s)
          else do {
            data \<leftarrow> list_data (es_lheap s) p_node;
            a \<leftarrow> node_of data;
            (_, lheap, list) \<leftarrow> list_remove_entry (es_lheap s) (es_list s) p_node;
            let s = base_rwlock_unlock (s\<lparr>es_lheap := lheap, es_list := list\<rparr>);
            p_epoll \<leftarrow> es_nodes s a;
            s \<leftarrow> base_epoll_free_event_hash (ht_at mem (ep_event_hash p_epoll)) s;
            nodes \<leftarrow> c_free (es_nodes s) (Some a);
            Some (s\<lparr>es_nodes := nodes\<rparr>)
          });
        Some (if epfd > 0 then kernel_close epfd s else s)
      })"

text \<open>
  The three commands of \<open>base_epoll_ctl\<close> on the node at \<open>a\<close>: the result, the control block and the
  state at the label EXIT. \<open>r\<close> is the result of the system call, \<open>mb\<close> that of the malloc of the
  control block, \<open>key\<close> the address of the parameter \<open>event_fd\<close>.
\<close>

definition epoll_hash_insert ::
  "(addr \<Rightarrow> int) \<Rightarrow> bool \<Rightarrow> bool \<Rightarrow> addr \<Rightarrow> addr \<Rightarrow> ptr \<Rightarrow> 'c epoll_state \<Rightarrow> (int \<times> 'c epoll_state) option" where
  "epoll_hash_insert mem m1 m2 a key blk s = do {
     p_epoll \<leftarrow> es_nodes s a;
     (ok, ht, fs) \<leftarrow> hash_table_insert m1 m2 (ht_at mem (ep_event_hash p_epoll)) key blk;
     s \<leftarrow> run_frees fs (s\<lparr>es_nodes := (es_nodes s)(a \<mapsto> p_epoll\<lparr>ep_event_hash := ht\<rparr>)\<rparr>);
     Some (ok, s)
   }"

definition epoll_hash_remove ::
  "(addr \<Rightarrow> int) \<Rightarrow> addr \<Rightarrow> addr \<Rightarrow> 'c epoll_state \<Rightarrow> (int \<times> 'c epoll_state) option" where
  "epoll_hash_remove mem a key s = do {
     p_epoll \<leftarrow> es_nodes s a;
     (ok, ht, fs) \<leftarrow> hash_table_remove (ht_at mem (ep_event_hash p_epoll)) key;
     s \<leftarrow> run_frees fs (s\<lparr>es_nodes := (es_nodes s)(a \<mapsto> p_epoll\<lparr>ep_event_hash := ht\<rparr>)\<rparr>);
     Some (ok, s)
   }"

definition epoll_ctl_add ::
  "(addr \<Rightarrow> int) \<Rightarrow> int \<Rightarrow> ptr \<Rightarrow> bool \<Rightarrow> bool \<Rightarrow> addr \<Rightarrow> int \<Rightarrow> addr \<Rightarrow> int \<Rightarrow> 'c EpollEvent option \<Rightarrow>
   'c epoll_state \<Rightarrow> (int \<times> ptr \<times> 'c epoll_state) option" where
  "epoll_ctl_add mem r mb m1 m2 a epfd key event_fd p_epoll_type s =
     (case mb of
        None \<Rightarrow> Some (- 1, NULL, s)
      | Some b \<Rightarrow> do {
          ev \<leftarrow> p_epoll_type;
          let s = s\<lparr>es_blocks := (es_blocks s)(b \<mapsto> ev)\<rparr>;
          let s = kernel_set r epfd event_fd mb s;
          if r \<noteq> 0 then Some (- 1, mb, s)
          else do {
            (_, s) \<leftarrow> epoll_hash_insert mem m1 m2 a key mb s;
            Some (r, mb, s)
          }
        })"

definition epoll_ctl_del ::
  "(addr \<Rightarrow> int) \<Rightarrow> int \<Rightarrow> addr \<Rightarrow> int \<Rightarrow> addr \<Rightarrow> int \<Rightarrow> 'c epoll_state \<Rightarrow> (int \<times> ptr \<times> 'c epoll_state) option" where
  "epoll_ctl_del mem r a epfd key event_fd s = do {
     let s = kernel_set r epfd event_fd NULL s;
     (_, s) \<leftarrow> epoll_hash_remove mem a key s;
     Some (r, NULL, s)
   }"

definition epoll_ctl_mod ::
  "(addr \<Rightarrow> int) \<Rightarrow> int \<Rightarrow> ptr \<Rightarrow> bool \<Rightarrow> bool \<Rightarrow> addr \<Rightarrow> int \<Rightarrow> addr \<Rightarrow> int \<Rightarrow> 'c EpollEvent option \<Rightarrow>
   'c epoll_state \<Rightarrow> (int \<times> ptr \<times> 'c epoll_state) option" where
  "epoll_ctl_mod mem r mb m1 m2 a epfd key event_fd p_epoll_type s = do {
     (_, s) \<leftarrow> epoll_hash_remove mem a key s;
     epoll_ctl_add mem r mb m1 m2 a epfd key event_fd p_epoll_type s
   }"

text \<open>A failed assert ends the program, so that the call does not return.\<close>

definition base_epoll_ctl ::
  "(addr \<Rightarrow> int) \<Rightarrow> int \<Rightarrow> ptr \<Rightarrow> bool \<Rightarrow> bool \<Rightarrow> addr \<Rightarrow> int \<Rightarrow> int \<Rightarrow> int \<Rightarrow> 'c EpollEvent option \<Rightarrow>
   'c epoll_state \<Rightarrow> (int \<times> 'c epoll_state) option" where
  "base_epoll_ctl mem r mb m1 m2 key epfd op event_fd p_epoll_type s =
     (if \<not> epfd > 0 \<or> \<not> event_fd > 0 then None
      else do {
        s \<leftarrow> base_rwlock_wrlock s;
        p_node \<leftarrow> list_find_data (es_lheap s) (es_list s) (base_epoll_list_equal (es_nodes s)) (FdLoc epfd);
        (ret, p_evt_blk, s) \<leftarrow>
          (if p_node = NULL then Some (0, NULL, s)
           else do {
             data \<leftarrow> list_data (es_lheap s) p_node;
             a \<leftarrow> node_of data;
             if op = EPOLL_CTL_ADD then epoll_ctl_add mem r mb m1 m2 a epfd key event_fd p_epoll_type s
             else if op = EPOLL_CTL_DEL then epoll_ctl_del mem r a epfd key event_fd s
             else if op = EPOLL_CTL_MOD then epoll_ctl_mod mem r mb m1 m2 a epfd key event_fd p_epoll_type s
             else Some (0, NULL, s)
           });
        let s = base_rwlock_unlock s;
        blocks \<leftarrow> (if ret = - 1 then c_free (es_blocks s) p_evt_blk else Some (es_blocks s));
        Some (ret, s\<lparr>es_blocks := blocks\<rparr>)
      })"

text \<open>\<open>n\<close> is the result of \<open>epoll_wait\<close>, \<open>null_events\<close> tells that the array is NULL.\<close>

definition base_epoll_wait :: "int \<Rightarrow> int \<Rightarrow> bool \<Rightarrow> int" where
  "base_epoll_wait n epfd null_events = (if 0 > epfd \<or> null_events then - 1 else n)"


definition base_epoll_init :: "'c epoll_state \<Rightarrow> 'c epoll_state" where
  "base_epoll_init s = s\<lparr>es_lock := False\<rparr>"

text \<open>
  The event loop of \<open>epoll_thread\<close>. An event has the bits that occurred and the pointer that was
  registered. \<open>epoll_thread_events\<close> goes through the events of one wait: the control blocks whose
  callback is called, in order, and whether the loop is left. \<open>epoll_thread\<close> takes the results of
  the successive waits and tells whether the thread has ended.
\<close>

definition EPOLLIN :: u32 where "EPOLLIN = 0x001"
definition EPOLLERR :: u32 where "EPOLLERR = 0x008"
definition EPOLLHUP :: u32 where "EPOLLHUP = 0x010"

fun epoll_thread_events :: "(u32 \<times> ptr) list \<Rightarrow> addr list \<times> bool" where
  "epoll_thread_events [] = ([], False)"
| "epoll_thread_events ((events, p) # es) =
     (if EPOLLIN AND events \<noteq> 0 then
        (case p of
           Some b \<Rightarrow> (let (calls, left) = epoll_thread_events es in (b # calls, left))
         | None \<Rightarrow> epoll_thread_events es)
      else if EPOLLHUP AND events \<noteq> 0 then ([], True)
      else if EPOLLERR AND events \<noteq> 0 then ([], True)
      else epoll_thread_events es)"

fun epoll_thread :: "(int \<times> (u32 \<times> ptr) list) list \<Rightarrow> addr list \<times> bool" where
  "epoll_thread [] = ([], False)"
| "epoll_thread ((n, es) # waits) =
     (if 0 > n then ([], True)
      else let (calls, left) = epoll_thread_events (take (nat n) es) in
        if left then (calls, True)
        else let (calls', ended) = epoll_thread waits in (calls @ calls', ended))"

text \<open>An event that makes the loop end: a hangup or an error without input.\<close>

definition ends_loop :: "u32 \<times> ptr \<Rightarrow> bool" where
  "ends_loop e \<longleftrightarrow> EPOLLIN AND fst e = 0 \<and> (EPOLLHUP AND fst e \<noteq> 0 \<or> EPOLLERR AND fst e \<noteq> 0)"

definition has_input :: "u32 \<times> ptr \<Rightarrow> bool" where
  "has_input e \<longleftrightarrow> EPOLLIN AND fst e \<noteq> 0 \<and> snd e \<noteq> NULL"

text \<open>The callback of every input event before the first one that ends the loop is called once, in order.\<close>

lemma epoll_thread_events_eq:
  "epoll_thread_events es =
     (map (\<lambda>e. the (snd e)) (filter has_input (takeWhile (\<lambda>e. \<not> ends_loop e) es)), \<exists>e\<in>set es. ends_loop e)"
  by (induction es rule: epoll_thread_events.induct)
    (auto simp: ends_loop_def has_input_def Let_def split: option.splits)


section \<open>The hash table of a node\<close>

text \<open>
  The table maps the key of every registered descriptor to its control block: \<open>reg\<close> is what the
  kernel has for this instance. The memory still holds, at each stored key, the descriptor it was
  stored for.
\<close>

definition hash_inv :: "(addr \<Rightarrow> int) \<Rightarrow> (int \<Rightarrow> ptr) \<Rightarrow> (addr, addr) HashTable \<Rightarrow> bool" where
  "hash_inv mem reg ht \<longleftrightarrow>
     ht_inv (ht_at mem ht) \<and> ht_value_free_func ht \<and> \<not> ht_key_free_func ht \<and>
     (\<forall>k. ht_map (ht_at mem ht) k = map_option Some (reg (mem k))) \<and>
     (\<forall>fd. reg fd \<noteq> None \<longrightarrow> fd \<in> range mem)"

lemma mem_hash_equal: "hash_equal (\<lambda>k. int_hash (mem k)) (\<lambda>k l. int_equal (mem k) (mem l))"
  by unfold_locales (auto simp: int_equal_def split: if_splits)

lemma ht_at_simps [simp]:
  "ht_equal_func (ht_at mem ht) k l \<noteq> 0 \<longleftrightarrow> mem k = mem l" "ht_entries (ht_at mem ht) = ht_entries ht"
  "ht_value_free_func (ht_at mem ht) = ht_value_free_func ht" "ht_key_free_func (ht_at mem ht) = ht_key_free_func ht"
  "ht_at mem (ht_at mem' ht) = ht_at mem ht"
  by (simp_all add: ht_at_def int_equal_def)

lemma ht_at_same:
  "ht_hash_func ht' = ht_hash_func (ht_at mem ht) \<Longrightarrow> ht_equal_func ht' = ht_equal_func (ht_at mem ht) \<Longrightarrow>
   ht_at mem ht' = ht'"
  by (simp add: ht_at_def)

text \<open>The free functions of a table never change.\<close>

definition same_flags :: "('k, 'v) HashTable \<Rightarrow> ('k, 'v) HashTable \<Rightarrow> bool" where
  "same_flags ht ht' \<longleftrightarrow>
     ht_value_free_func ht' = ht_value_free_func ht \<and> ht_key_free_func ht' = ht_key_free_func ht"

lemma hash_table_enlarge_flags:
  assumes "hash_table_enlarge m ht = Some (r, ht')"
  shows "same_flags ht ht'"
proof -
  have alloc: "same_flags h h'" if "hash_table_allocate_table m h = Some (r, h')" for h h' r
    using that by (auto simp: hash_table_allocate_table_def bind_eq_Some_conv same_flags_def Let_def split: if_splits)
  from assms obtain pi r' h where h: "hash_table_allocate_table m (ht\<lparr>ht_prime_index := pi\<rparr>) = Some (r', h)"
    and "same_flags h ht'"
    unfolding hash_table_enlarge_def Let_def
    by (auto simp: bind_eq_Some_conv same_flags_def split: if_splits)
  then show ?thesis
    using alloc[OF h] by (simp add: same_flags_def)
qed

lemma bind_SomeE:
  "Option.bind x f = Some y \<Longrightarrow> (\<And>a. x = Some a \<Longrightarrow> f a = Some y \<Longrightarrow> P) \<Longrightarrow> P"
  by (cases x) simp_all

lemma same_flags_trans: "same_flags h1 h2 \<Longrightarrow> same_flags h2 h3 \<Longrightarrow> same_flags h1 h3"
  by (simp add: same_flags_def)

lemma hash_table_insert_flags:
  assumes "hash_table_insert m1 m2 ht k v = Some (r, ht', fs)"
  shows "same_flags ht ht'"
  using assms unfolding hash_table_insert_def
proof (elim bind_SomeE, goal_cases)
  case (1 c p)
  obtain ok h where p: "p = (ok, h)" by (cases p)
  have "same_flags ht h"
    using 1(2) p hash_table_enlarge_flags[of m1 ht ok h] by (auto simp: same_flags_def split: if_splits)
  moreover have "same_flags h ht'"
  proof (cases "ok = 0")
    case True
    then show ?thesis
      using 1(3) p by (simp add: same_flags_def)
  next
    case False
    with 1(3) p show ?thesis
      by (simp only: prod.case if_False) (elim bind_SomeE; auto simp: same_flags_def split: option.splits if_splits elim!: bind_SomeE)
  qed
  ultimately show ?case
    by (rule same_flags_trans)
qed

lemma hash_table_remove_flags:
  assumes "hash_table_remove ht k = Some (r, ht', fs)"
  shows "same_flags ht ht'"
  using assms
  by (auto simp: hash_table_remove_def bind_eq_Some_conv same_flags_def split: option.splits)

lemma hash_inv_new:
  "\<exists>ht. hash_table_new True True (\<lambda>k. int_hash (mem k)) (\<lambda>k l. int_equal (mem k) (mem l)) = Some (Some ht) \<and>
     hash_inv mem (\<lambda>fd. None) (hash_table_register_free_functions ht False True) \<and> ht_entries ht = 0"
proof -
  obtain ht :: "(addr, addr) HashTable" where ht: "hash_table_new True True (\<lambda>k. int_hash (mem k)) (\<lambda>k l. int_equal (mem k) (mem l)) = Some (Some ht)"
    "ht_inv ht" "ht_entries ht = 0" "ht_hash_func ht = (\<lambda>k. int_hash (mem k))"
    "ht_equal_func ht = (\<lambda>k l. int_equal (mem k) (mem l))" "ht_map ht = (\<lambda>k. None)"
    using ht_new_ok[OF mem_hash_equal] by blast
  have "ht_inv (hash_table_register_free_functions ht False True)"
    "ht_map (hash_table_register_free_functions ht False True) = (\<lambda>k. None)"
    using ht(2,6) by (simp_all add: hash_table_register_free_functions_def ht_inv_def ht_map_def ht_found_def fun_eq_iff)
  moreover have "ht_at mem (hash_table_register_free_functions ht False True) = hash_table_register_free_functions ht False True"
    using ht(4,5) by (simp add: hash_table_register_free_functions_def ht_at_def)
  ultimately show ?thesis
    using ht(1,3) by (auto simp: hash_inv_def hash_table_register_free_functions_def)
qed

lemma hash_inv_insert:
  assumes inv: "hash_inv mem reg ht" and new: "reg (mem key) = None" and n: "ht_entries ht < 536870914"
  shows "\<exists>ht'. hash_table_insert True True (ht_at mem ht) key (Some b) = Some (1, ht', []) \<and>
    hash_inv mem (reg(mem key \<mapsto> b)) ht' \<and> ht_entries ht' = ht_entries ht + 1"
proof -
  let ?ht = "ht_at mem ht"
  have i: "ht_inv ?ht" and m: "\<And>k. ht_map ?ht k = map_option Some (reg (mem k))"
    using inv by (simp_all add: hash_inv_def)
  have "ht_found ?ht key = None"
    using m[of key] new by (simp add: ht_map_def)
  moreover from this have "ht_old_freed ?ht key = []"
    by (simp add: ht_old_freed_def)
  ultimately obtain ht' where ht': "hash_table_insert True True ?ht key (Some b) = Some (1, ht', [])" "ht_inv ht'"
    "ht_map ht' = (\<lambda>k'. if ht_equal_func ?ht k' key \<noteq> 0 then Some (Some b) else ht_map ?ht k')"
    "ht_entries ht' = ht_entries ht + 1"
    "ht_hash_func ht' = ht_hash_func ?ht" "ht_equal_func ht' = ht_equal_func ?ht"
    using ht_insert_ok[OF i, of True key True "Some b"] n by auto
  have "hash_inv mem (reg(mem key \<mapsto> b)) ht'"
    using ht'(2,3) ht_at_same[OF ht'(5,6)] hash_table_insert_flags[OF ht'(1)] inv
    by (auto simp: hash_inv_def same_flags_def)
  then show ?thesis
    using ht'(1,4) by blast
qed

lemma hash_inv_remove:
  assumes inv: "hash_inv mem reg ht"
  shows "\<exists>r ht'. hash_table_remove (ht_at mem ht) key =
      Some (r, ht', case reg (mem key) of None \<Rightarrow> [] | Some b \<Rightarrow> [FreeValue (Some b), FreeEntry]) \<and>
    hash_inv mem (reg(mem key := None)) ht' \<and> ht_entries ht' \<le> ht_entries ht"
proof -
  let ?ht = "ht_at mem ht"
  have i: "ht_inv ?ht" and m: "\<And>k. ht_map ?ht k = map_option Some (reg (mem k))"
    using inv by (simp_all add: hash_inv_def)
  obtain r ht' fs where ht': "hash_table_remove ?ht key = Some (r, ht', fs)" "ht_inv ht'"
    "ht_map ht' = (\<lambda>k'. if ht_equal_func ?ht k' key \<noteq> 0 then None else ht_map ?ht k')"
    "ht_hash_func ht' = ht_hash_func ?ht" "ht_equal_func ht' = ht_equal_func ?ht"
    "case ht_found ?ht key of None \<Rightarrow> r = 0 \<and> ht' = ?ht \<and> fs = []
      | Some e \<Rightarrow> r = 1 \<and> ht_entries ht' = ht_entries ?ht - 1 \<and> fs = hash_table_free_entry ?ht e"
    using ht_remove_ok[OF i, of key] by blast
  have "ht_value_free_func ht" "\<not> ht_key_free_func ht"
    using inv by (simp_all add: hash_inv_def)
  then have "fs = (case reg (mem key) of None \<Rightarrow> [] | Some b \<Rightarrow> [FreeValue (Some b), FreeEntry]) \<and> ht_entries ht' \<le> ht_entries ht"
    using ht'(6) m[of key]
    by (cases "reg (mem key)") (auto simp: ht_map_def hash_table_free_entry_def split: option.splits)
  moreover have "hash_inv mem (reg(mem key := None)) ht'"
    using ht'(2,3) ht_at_same[OF ht'(4,5)] hash_table_remove_flags[OF ht'(1)] inv
    by (auto simp: hash_inv_def same_flags_def)
  ultimately show ?thesis
    using ht'(1) by blast
qed


section \<open>Invariant\<close>

text \<open>
  \<open>reg\<close> is a registration: for every instance and descriptor the control block. Registered
  blocks are allocated and each is registered once; a block owns its data area.
\<close>

definition blocks_inv :: "(int \<Rightarrow> int \<Rightarrow> ptr) \<Rightarrow> 'c epoll_state \<Rightarrow> bool" where
  "blocks_inv reg s \<longleftrightarrow>
     (\<forall>ep fd b. reg ep fd = Some b \<longrightarrow> es_blocks s b \<noteq> None) \<and>
     (\<forall>ep fd ep' fd' b. reg ep fd = Some b \<and> reg ep' fd' = Some b \<longrightarrow> ep = ep' \<and> fd = fd') \<and>
     (\<forall>b e d. es_blocks s b = Some e \<and> ev_data e = Some d \<longrightarrow> es_data s d \<noteq> None) \<and>
     (\<forall>b e b' e' d. es_blocks s b = Some e \<and> es_blocks s b' = Some e' \<and> ev_data e = Some d \<and>
        ev_data e' = Some d \<longrightarrow> b = b')"

lemma blocks_invI:
  assumes "\<And>ep fd b. reg ep fd = Some b \<Longrightarrow> es_blocks s b \<noteq> None"
    and "\<And>ep fd ep' fd' b. reg ep fd = Some b \<Longrightarrow> reg ep' fd' = Some b \<Longrightarrow> ep = ep' \<and> fd = fd'"
    and "\<And>b e d. es_blocks s b = Some e \<Longrightarrow> ev_data e = Some d \<Longrightarrow> es_data s d \<noteq> None"
    and "\<And>b e b' e' d. es_blocks s b = Some e \<Longrightarrow> es_blocks s b' = Some e' \<Longrightarrow> ev_data e = Some d \<Longrightarrow>
      ev_data e' = Some d \<Longrightarrow> b = b'"
  shows "blocks_inv reg s"
  unfolding blocks_inv_def using assms by (intro conjI allI impI; (elim conjE)?) blast+

lemma blocks_invD:
  assumes "blocks_inv reg s"
  shows "reg ep fd = Some b \<Longrightarrow> es_blocks s b \<noteq> None"
    and "reg ep fd = Some b \<Longrightarrow> reg ep' fd' = Some b \<Longrightarrow> ep = ep' \<and> fd = fd'"
    and "es_blocks s b = Some e \<Longrightarrow> ev_data e = Some d \<Longrightarrow> es_data s d \<noteq> None"
    and "es_blocks s b = Some e \<Longrightarrow> es_blocks s b' = Some e' \<Longrightarrow> ev_data e = Some d \<Longrightarrow>
      ev_data e' = Some d \<Longrightarrow> b = b'"
  using assms unfolding blocks_inv_def by metis+

lemma blocks_inv_frame:
  "es_blocks s' = es_blocks s \<Longrightarrow> es_data s' = es_data s \<Longrightarrow> blocks_inv reg s' = blocks_inv reg s"
  by (simp add: blocks_inv_def)

definition node_fd :: "'c epoll_state \<Rightarrow> addr \<Rightarrow> int" where
  "node_fd s n = ep_epoll_fd (the (es_nodes s n))"

definition node_hash :: "'c epoll_state \<Rightarrow> addr \<Rightarrow> (addr, addr) HashTable" where
  "node_hash s n = ep_event_hash (the (es_nodes s n))"

definition registry :: "'c epoll_state \<Rightarrow> addr list \<Rightarrow> addr list \<Rightarrow> bool" where
  "registry s as ns \<longleftrightarrow>
     dlist (es_lheap s) (es_list s) as \<and> dvalues (es_lheap s) as = map Node ns \<and> distinct ns \<and>
     inj_on (node_fd s) (set ns) \<and> (\<forall>n\<in>set ns. es_nodes s n \<noteq> None)"

definition epoll_core ::
  "(addr \<Rightarrow> int) \<Rightarrow> (int \<Rightarrow> int \<Rightarrow> ptr) \<Rightarrow> 'c epoll_state \<Rightarrow> addr list \<Rightarrow> addr list \<Rightarrow> bool" where
  "epoll_core mem reg s as ns \<longleftrightarrow>
     registry s as ns \<and> blocks_inv reg s \<and> (\<forall>n\<in>set ns. hash_inv mem (reg (node_fd s n)) (node_hash s n)) \<and>
     (\<forall>ep. ep \<notin> node_fd s ` set ns \<longrightarrow> reg ep = (\<lambda>fd. None))"

definition epoll_inv :: "(addr \<Rightarrow> int) \<Rightarrow> 'c epoll_state \<Rightarrow> bool" where
  "epoll_inv mem s \<longleftrightarrow> \<not> es_lock s \<and> (\<exists>as ns. epoll_core mem (es_kernel s) s as ns)"

definition epoll_known :: "'c epoll_state \<Rightarrow> int \<Rightarrow> bool" where
  "epoll_known s epfd \<longleftrightarrow> (\<exists>as ns. registry s as ns \<and> epfd \<in> node_fd s ` set ns)"

text \<open>Fewer entries than the largest hash table can take.\<close>

definition epoll_room :: "'c epoll_state \<Rightarrow> bool" where
  "epoll_room s \<longleftrightarrow> (\<forall>n e. es_nodes s n = Some e \<longrightarrow> ht_entries (ep_event_hash e) < 536870914)"

text \<open>A control block whose data area is allocated and not owned by another block.\<close>

definition event_ok :: "'c epoll_state \<Rightarrow> 'c EpollEvent \<Rightarrow> bool" where
  "event_ok s ev \<longleftrightarrow>
     (\<forall>d. ev_data ev = Some d \<longrightarrow> es_data s d \<noteq> None \<and> (\<forall>b e. es_blocks s b = Some e \<longrightarrow> ev_data e \<noteq> Some d))"

text \<open>The search for the node of an instance.\<close>

abbreviation epoll_find :: "'c epoll_state \<Rightarrow> int \<Rightarrow> ptr option" where
  "epoll_find s epfd \<equiv>
     list_find_data (es_lheap s) (es_list s) (base_epoll_list_equal (es_nodes s)) (FdLoc epfd)"

lemma registry_entry:
  assumes "registry s as ns" "x \<in> set as"
  obtains n where "n \<in> set ns" "dl_data (the (es_lheap s x)) = Node n"
    "base_epoll_list_equal (es_nodes s) (dl_data (the (es_lheap s x))) (FdLoc epfd) \<noteq> 0 \<longleftrightarrow> node_fd s n = epfd"
proof -
  have "dl_data (the (es_lheap s x)) \<in> set (dvalues (es_lheap s) as)"
    using assms(2) by (simp add: data_at_def)
  then obtain n where n: "n \<in> set ns" "dl_data (the (es_lheap s x)) = Node n"
    using assms(1) by (auto simp: registry_def)
  moreover have "es_nodes s n \<noteq> None"
    using assms(1) n(1) by (simp add: registry_def)
  ultimately show ?thesis
    using that by (auto simp: node_fd_def)
qed

lemma epoll_find_eq:
  "registry s as ns \<Longrightarrow>
   epoll_find s epfd = Some (find (\<lambda>x. base_epoll_list_equal (es_nodes s) (dl_data (the (es_lheap s x))) (FdLoc epfd) \<noteq> 0) as)"
  unfolding list_find_data_def registry_def by (intro find_loop_ok dseg_chain) blast

lemma epoll_find_known:
  assumes reg: "registry s as ns" and n: "n \<in> set ns" "node_fd s n = epfd"
  shows "\<exists>x\<in>set as. epoll_find s epfd = Some (Some x) \<and> list_data (es_lheap s) (Some x) = Some (Node n)"
proof -
  let ?P = "\<lambda>x. base_epoll_list_equal (es_nodes s) (dl_data (the (es_lheap s x))) (FdLoc epfd) \<noteq> 0"
  have live: "\<exists>e. es_lheap s x = Some e" if "x \<in> set as" for x
    using reg that chain_in_heap[OF dseg_chain] by (fastforce simp: registry_def)
  have "Node n \<in> set (dvalues (es_lheap s) as)"
    using reg n by (auto simp: registry_def)
  then obtain y where y: "y \<in> set as" "dl_data (the (es_lheap s y)) = Node n"
    by (auto simp: data_at_def)
  have "?P y"
    by (rule registry_entry[OF reg y(1), where epfd = epfd]) (use n y in auto)
  then obtain x where x: "find ?P as = Some x"
    using y(1) by (cases "find ?P as") (auto simp: find_None_iff)
  then have "x \<in> set as" "?P x"
    by (auto simp: find_Some_iff)
  moreover obtain m where m: "m \<in> set ns" "dl_data (the (es_lheap s x)) = Node m" "?P x \<longleftrightarrow> node_fd s m = epfd"
    by (rule registry_entry[OF reg \<open>x \<in> set as\<close>, where epfd = epfd])
  ultimately have "m = n"
    using reg n by (auto simp: registry_def inj_on_def)
  then show ?thesis
    using \<open>x \<in> set as\<close> x m live[OF \<open>x \<in> set as\<close>] epoll_find_eq[OF reg, of epfd] by (auto simp: list_data_def)
qed

lemma epoll_find_unknown:
  assumes reg: "registry s as ns" and n: "epfd \<notin> node_fd s ` set ns"
  shows "epoll_find s epfd = Some None"
proof -
  have "base_epoll_list_equal (es_nodes s) (dl_data (the (es_lheap s x))) (FdLoc epfd) = 0" if "x \<in> set as" for x
    by (rule registry_entry[OF reg that, where epfd = epfd]) (use n in blast)
  then show ?thesis
    by (simp add: epoll_find_eq[OF reg] find_None_iff)
qed

lemma epoll_core_frame:
  assumes "epoll_core mem reg s as ns" "es_list s' = es_list s" "es_lheap s' = es_lheap s"
    "es_nodes s' = es_nodes s" "blocks_inv reg s'"
  shows "epoll_core mem reg s' as ns"
proof -
  have "node_fd s' = node_fd s" "node_hash s' = node_hash s"
    using assms(4) by (simp_all add: node_fd_def node_hash_def fun_eq_iff)
  then show ?thesis
    using assms by (simp add: epoll_core_def registry_def)
qed

text \<open>The parts of the core that an update of the hash table of one node concerns.\<close>

lemma core_set_hash:
  assumes core: "epoll_core mem reg s as ns" and n: "n \<in> set ns" "es_nodes s n = Some e"
    and hash: "hash_inv mem (reg' (ep_epoll_fd e)) ht" and other: "\<And>ep. ep \<noteq> ep_epoll_fd e \<Longrightarrow> reg' ep = reg ep"
    and blocks: "blocks_inv reg' s'"
    and s': "es_list s' = es_list s" "es_lheap s' = es_lheap s"
      "es_nodes s' = (es_nodes s)(n \<mapsto> e\<lparr>ep_event_hash := ht\<rparr>)"
  shows "epoll_core mem reg' s' as ns"
proof -
  have fd: "node_fd s' = node_fd s"
    using n(2) s'(3) by (auto simp: node_fd_def fun_eq_iff)
  have "registry s' as ns"
    using core s' by (auto simp: epoll_core_def registry_def fd)
  moreover have "hash_inv mem (reg' (node_fd s' m)) (node_hash s' m)" if m: "m \<in> set ns" for m
  proof (cases "m = n")
    case True
    then show ?thesis
      using hash s'(3) by (simp add: node_fd_def node_hash_def)
  next
    case False
    moreover have "node_fd s n = ep_epoll_fd e" "inj_on (node_fd s) (set ns)"
      using core n(2) by (simp_all add: epoll_core_def registry_def node_fd_def)
    ultimately have "node_fd s m \<noteq> ep_epoll_fd e"
      using inj_onD[of "node_fd s" "set ns" m n] m n(1) by auto
    then show ?thesis
      using core m False other s'(3) by (simp add: epoll_core_def fd node_hash_def)
  qed
  moreover have "reg' ep = (\<lambda>fd. None)" if "ep \<notin> node_fd s' ` set ns" for ep
  proof -
    have "ep \<noteq> ep_epoll_fd e"
      using that n(1) imageI[of n "set ns" "node_fd s'"] n(2) s'(3) by (auto simp: node_fd_def)
    then show ?thesis
      using other core that by (simp add: epoll_core_def fd)
  qed
  ultimately show ?thesis
    using blocks by (simp add: epoll_core_def)
qed

lemma core_alloc:
  assumes core: "epoll_core mem reg s as ns" and fresh: "es_blocks s b = None" and ev: "event_ok s ev"
  shows "epoll_core mem reg (s\<lparr>es_blocks := (es_blocks s)(b \<mapsto> ev)\<rparr>) as ns"
proof -
  have bl: "blocks_inv reg s"
    using core by (simp add: epoll_core_def)
  have "blocks_inv reg (s\<lparr>es_blocks := (es_blocks s)(b \<mapsto> ev)\<rparr>)"
  proof (rule blocks_invI)
    fix b1 e1 b2 e2 d
    assume "es_blocks (s\<lparr>es_blocks := (es_blocks s)(b \<mapsto> ev)\<rparr>) b1 = Some e1"
      "es_blocks (s\<lparr>es_blocks := (es_blocks s)(b \<mapsto> ev)\<rparr>) b2 = Some e2" "ev_data e1 = Some d" "ev_data e2 = Some d"
    then show "b1 = b2"
      using blocks_invD(4)[OF bl] ev by (auto simp: event_ok_def split: if_splits)
  next
    fix b1 e1 d
    assume "es_blocks (s\<lparr>es_blocks := (es_blocks s)(b \<mapsto> ev)\<rparr>) b1 = Some e1" "ev_data e1 = Some d"
    then show "es_data (s\<lparr>es_blocks := (es_blocks s)(b \<mapsto> ev)\<rparr>) d \<noteq> None"
      using blocks_invD(3)[OF bl] ev by (auto simp: event_ok_def split: if_splits)
  qed (use blocks_invD(1,2)[OF bl] in auto)
  then show ?thesis
    by (intro epoll_core_frame[OF core]) simp_all
qed

text \<open>Freeing a block that is no longer registered.\<close>

lemma free_block_ok:
  assumes bl: "blocks_inv reg s" and b: "es_blocks s b = Some e" "\<And>ep fd. reg ep fd \<noteq> Some b"
  shows "\<exists>s'. base_epoll_free_event_block (Some b) s = Some s' \<and> blocks_inv reg s' \<and>
    s' = s\<lparr>es_data := es_data s', es_blocks := (es_blocks s)(b := None)\<rparr> \<and>
    es_data s' = (case ev_data e of None \<Rightarrow> es_data s | Some d \<Rightarrow> (es_data s)(d := None))"
proof -
  let ?d = "case ev_data e of None \<Rightarrow> es_data s | Some d \<Rightarrow> (es_data s)(d := None)"
  let ?s = "s\<lparr>es_data := ?d, es_blocks := (es_blocks s)(b := None)\<rparr>"
  have "c_free (es_data s) (ev_data e) = Some ?d"
    using blocks_invD(3)[OF bl b(1)] by (cases "ev_data e") (auto simp: c_free_def split: option.split)
  then have "base_epoll_free_event_block (Some b) s = Some ?s"
    using b(1) by (simp add: base_epoll_free_event_block_def)
  moreover have "blocks_inv reg ?s"
  proof (rule blocks_invI)
    fix b' e' d
    assume b': "es_blocks ?s b' = Some e'" "ev_data e' = Some d"
    then have "b' \<noteq> b" "es_blocks s b' = Some e'"
      by (auto split: if_splits)
    then show "es_data ?s d \<noteq> None"
      using blocks_invD(3)[OF bl, of b' e' d] blocks_invD(4)[OF bl b(1), of b' e' d] b'(2)
      by (auto split: option.split)
  qed (use blocks_invD[OF bl] b(2) in \<open>auto split: if_splits\<close>)
  ultimately show ?thesis
    by (intro exI[of _ ?s]) simp
qed

text \<open>The blocks and the data areas that are left when the block at \<open>p\<close> is freed.\<close>

definition freed_block :: "'c epoll_state \<Rightarrow> ptr \<Rightarrow> 'c EpollEvent heap" where
  "freed_block s p = (case p of None \<Rightarrow> es_blocks s | Some b \<Rightarrow> (es_blocks s)(b := None))"

definition freed_data :: "'c epoll_state \<Rightarrow> ptr \<Rightarrow> u8 list heap" where
  "freed_data s p =
     (case p of None \<Rightarrow> es_data s
      | Some b \<Rightarrow> (case ev_data (the (es_blocks s b)) of None \<Rightarrow> es_data s | Some d \<Rightarrow> (es_data s)(d := None)))"

lemma freed_simps [simp]:
  "freed_block (s\<lparr>es_lock := l\<rparr>) = freed_block s" "freed_data (s\<lparr>es_lock := l\<rparr>) = freed_data s"
  "freed_block (s\<lparr>es_kernel := K\<rparr>) = freed_block s" "freed_data (s\<lparr>es_kernel := K\<rparr>) = freed_data s"
  by (simp_all add: freed_block_def freed_data_def fun_eq_iff split: option.split)

text \<open>The two hash table operations of \<open>base_epoll_ctl\<close> on the node of an instance.\<close>

lemma epoll_hash_insert_ok:
  assumes core: "epoll_core mem reg s as ns" and n: "n \<in> set ns" "node_fd s n = epfd"
    and room: "epoll_room s" and new: "reg epfd (mem key) = None"
    and b: "es_blocks s b = Some ev" "\<And>ep fd. reg ep fd \<noteq> Some b"
  shows "\<exists>s'. epoll_hash_insert mem True True n key (Some b) s = Some (1, s') \<and>
    epoll_core mem (reg(epfd := (reg epfd)(mem key \<mapsto> b))) s' as ns \<and> s' = s\<lparr>es_nodes := es_nodes s'\<rparr>"
proof -
  obtain e where e: "es_nodes s n = Some e"
    using core n(1) by (auto simp: epoll_core_def registry_def)
  have fd: "ep_epoll_fd e = epfd" and h: "hash_inv mem (reg epfd) (ep_event_hash e)"
    using core n e by (auto simp: epoll_core_def node_fd_def node_hash_def)
  have "ht_entries (ep_event_hash e) < 536870914"
    using room e by (auto simp: epoll_room_def)
  then obtain ht where ht: "hash_table_insert True True (ht_at mem (ep_event_hash e)) key (Some b) = Some (1, ht, [])"
    "hash_inv mem ((reg epfd)(mem key \<mapsto> b)) ht"
    using hash_inv_insert[OF h new, of b] by blast
  let ?s = "s\<lparr>es_nodes := (es_nodes s)(n \<mapsto> e\<lparr>ep_event_hash := ht\<rparr>)\<rparr>"
  let ?reg = "reg(epfd := (reg epfd)(mem key \<mapsto> b))"
  have bl: "blocks_inv reg s"
    using core by (simp add: epoll_core_def)
  have "blocks_inv ?reg ?s"
    using blocks_invD[OF bl] b by (intro blocks_invI) (auto split: if_splits)
  then have "epoll_core mem ?reg ?s as ns"
    by (intro core_set_hash[OF core n(1) e, of ?reg ht]) (use ht(2) fd in auto)
  then show ?thesis
    using e ht(1) by (intro exI[of _ ?s]) (simp add: epoll_hash_insert_def)
qed

lemma epoll_hash_remove_ok:
  assumes core: "epoll_core mem reg s as ns" and n: "n \<in> set ns" "node_fd s n = epfd"
  shows "\<exists>r s'. epoll_hash_remove mem n key s = Some (r, s') \<and>
    epoll_core mem (reg(epfd := (reg epfd)(mem key := None))) s' as ns \<and>
    s' = s\<lparr>es_nodes := es_nodes s', es_blocks := es_blocks s', es_data := es_data s'\<rparr> \<and>
    es_blocks s' = freed_block s (reg epfd (mem key)) \<and> es_data s' = freed_data s (reg epfd (mem key)) \<and>
    (epoll_room s \<longrightarrow> epoll_room s')"
proof -
  obtain e where e: "es_nodes s n = Some e"
    using core n(1) by (auto simp: epoll_core_def registry_def)
  have fd: "ep_epoll_fd e = epfd" and h: "hash_inv mem (reg epfd) (ep_event_hash e)"
    using core n e by (auto simp: epoll_core_def node_fd_def node_hash_def)
  obtain r ht where ht: "hash_table_remove (ht_at mem (ep_event_hash e)) key =
      Some (r, ht, case reg epfd (mem key) of None \<Rightarrow> [] | Some b \<Rightarrow> [FreeValue (Some b), FreeEntry])"
    "hash_inv mem ((reg epfd)(mem key := None)) ht" "ht_entries ht \<le> ht_entries (ep_event_hash e)"
    using hash_inv_remove[OF h, of key] by blast
  let ?s = "s\<lparr>es_nodes := (es_nodes s)(n \<mapsto> e\<lparr>ep_event_hash := ht\<rparr>)\<rparr>"
  let ?reg = "reg(epfd := (reg epfd)(mem key := None))"
  have bl: "blocks_inv reg s"
    using core by (simp add: epoll_core_def)
  have bl': "blocks_inv ?reg ?s"
    using blocks_invD[OF bl] by (intro blocks_invI) (auto split: if_splits)
  have room: "epoll_room s \<Longrightarrow> es_nodes s' = es_nodes ?s \<Longrightarrow> epoll_room s'" for s' :: "'a epoll_state"
    using e ht(3) by (fastforce simp: epoll_room_def split: if_splits)
  have core': "epoll_core mem ?reg s' as ns"
    if "blocks_inv ?reg s'" "es_list s' = es_list s" "es_lheap s' = es_lheap s" "es_nodes s' = es_nodes ?s" for s' :: "'a epoll_state"
    by (rule core_set_hash[OF core n(1) e, of ?reg ht]) (use ht(2) fd that in auto)
  show ?thesis
  proof (cases "reg epfd (mem key)")
    case None
    then have "epoll_hash_remove mem n key s = Some (r, ?s)"
      using e ht(1) by (simp add: epoll_hash_remove_def)
    then show ?thesis
      using core'[OF bl'] None room[of ?s] by (intro exI[of _ r] exI[of _ ?s]) (auto simp: freed_block_def freed_data_def)
  next
    case (Some b)
    obtain eb where eb: "es_blocks s b = Some eb"
      using blocks_invD(1)[OF bl Some] by auto
    have unreg: "?reg ep fd \<noteq> Some b" for ep fd
      using blocks_invD(2)[OF bl Some, of ep fd] by (auto split: if_splits)
    obtain s' where s': "base_epoll_free_event_block (Some b) ?s = Some s'" "blocks_inv ?reg s'"
      "s' = ?s\<lparr>es_data := es_data s', es_blocks := (es_blocks ?s)(b := None)\<rparr>"
      "es_data s' = (case ev_data eb of None \<Rightarrow> es_data ?s | Some d \<Rightarrow> (es_data ?s)(d := None))"
      using free_block_ok[OF bl', of b eb] eb unreg by auto
    have eqs: "es_list s' = es_list s" "es_lheap s' = es_lheap s" "es_nodes s' = es_nodes ?s"
      "es_blocks s' = (es_blocks s)(b := None)" "es_lock s' = es_lock s" "es_kernel s' = es_kernel s"
      by (subst s'(3), simp)+
    have "epoll_hash_remove mem n key s = Some (r, s')"
      using e ht(1) Some s'(1) by (simp add: epoll_hash_remove_def)
    moreover have "s' = s\<lparr>es_nodes := es_nodes s', es_blocks := es_blocks s', es_data := es_data s'\<rparr>"
      using eqs by (intro epoll_state.equality) simp_all
    moreover have "es_data s' = (case ev_data eb of None \<Rightarrow> es_data s | Some d \<Rightarrow> (es_data s)(d := None))"
      using s'(4) by (cases "ev_data eb") simp_all
    ultimately show ?thesis
      using core'[OF s'(2) eqs(1-3)] Some eqs(4) eb room[OF _ eqs(3)]
      by (intro exI[of _ r] exI[of _ s']) (simp add: freed_block_def freed_data_def)
  qed
qed


section \<open>The commands\<close>

lemma run_frees_frame:
  "run_frees fs s = Some s' \<Longrightarrow> es_nodes s' = es_nodes s \<and> es_list s' = es_list s \<and> es_lheap s' = es_lheap s \<and>
   es_kernel s' = es_kernel s \<and> es_lock s' = es_lock s"
proof (induction fs s rule: run_frees.induct)
  case (2 v fs s)
  then show ?case
    by (auto simp: bind_eq_Some_conv base_epoll_free_event_block_def split: option.splits)
qed simp_all

lemma epoll_hash_remove_node_fd:
  assumes "epoll_hash_remove mem a key s = Some (r, s')"
  shows "node_fd s' n = node_fd s n"
  using assms run_frees_frame by (fastforce simp: epoll_hash_remove_def bind_eq_Some_conv node_fd_def)

lemma epoll_core_kernel [simp]: "epoll_core mem reg (s\<lparr>es_kernel := K\<rparr>) as ns = epoll_core mem reg s as ns"
proof -
  have "blocks_inv reg (s\<lparr>es_kernel := K\<rparr>) = blocks_inv reg s" "node_fd (s\<lparr>es_kernel := K\<rparr>) = node_fd s"
    "node_hash (s\<lparr>es_kernel := K\<rparr>) = node_hash s"
    by (simp_all add: blocks_inv_def node_fd_def node_hash_def fun_eq_iff)
  then show ?thesis
    by (simp add: epoll_core_def registry_def)
qed

lemma epoll_core_lock [simp]: "epoll_core mem reg (s\<lparr>es_lock := l\<rparr>) as ns = epoll_core mem reg s as ns"
proof -
  have "blocks_inv reg (s\<lparr>es_lock := l\<rparr>) = blocks_inv reg s" "node_fd (s\<lparr>es_lock := l\<rparr>) = node_fd s"
    "node_hash (s\<lparr>es_lock := l\<rparr>) = node_hash s"
    by (simp_all add: blocks_inv_def node_fd_def node_hash_def fun_eq_iff)
  then show ?thesis
    by (simp add: epoll_core_def registry_def)
qed

lemma epoll_ctl_add_ok:
  assumes core: "epoll_core mem reg s as ns" and n: "n \<in> set ns" "node_fd s n = epfd"
    and room: "epoll_room s" and new: "reg epfd fd = None" and key: "mem key = fd"
    and b: "es_blocks s b = None" and ev: "event_ok s ev"
  shows "\<exists>s'. epoll_ctl_add mem 0 (Some b) True True n epfd key fd (Some ev) s = Some (0, Some b, s') \<and>
    epoll_core mem (reg(epfd := (reg epfd)(fd \<mapsto> b))) s' as ns \<and>
    es_kernel s' = (es_kernel s)(epfd := (es_kernel s epfd)(fd \<mapsto> b)) \<and>
    es_blocks s' = (es_blocks s)(b \<mapsto> ev) \<and> es_data s' = es_data s"
proof -
  let ?s = "s\<lparr>es_blocks := (es_blocks s)(b \<mapsto> ev), es_kernel := (es_kernel s)(epfd := (es_kernel s epfd)(fd \<mapsto> b))\<rparr>"
  have c: "epoll_core mem reg ?s as ns"
    using core_alloc[OF core b ev] by simp
  have unreg: "reg ep f \<noteq> Some b" for ep f
    using core b blocks_invD(1)[of reg s ep f b] by (auto simp: epoll_core_def)
  have n': "node_fd ?s n = epfd" and room': "epoll_room ?s"
    using n(2) room by (simp_all add: node_fd_def epoll_room_def)
  have "reg epfd (mem key) = None"
    using new key by simp
  then obtain s' where s': "epoll_hash_insert mem True True n key (Some b) ?s = Some (1, s')"
    "epoll_core mem (reg(epfd := (reg epfd)(mem key \<mapsto> b))) s' as ns" "s' = ?s\<lparr>es_nodes := es_nodes s'\<rparr>"
    using epoll_hash_insert_ok[OF c n(1) n' room', of key b ev] unreg by auto
  have "es_kernel s' = (es_kernel s)(epfd := (es_kernel s epfd)(fd \<mapsto> b))" "es_blocks s' = (es_blocks s)(b \<mapsto> ev)"
    "es_data s' = es_data s"
    by (subst s'(3), simp)+
  moreover have "epoll_ctl_add mem 0 (Some b) True True n epfd key fd (Some ev) s = Some (0, Some b, s')"
    using s'(1) by (simp add: epoll_ctl_add_def kernel_set_def)
  ultimately show ?thesis
    using s'(2) key by (intro exI[of _ s']) simp
qed

text \<open>\<open>base_epoll_ctl\<close> on a known instance runs the command on its node, under the lock.\<close>

lemma base_epoll_ctl_known:
  assumes "registry s as ns" "n \<in> set ns" "node_fd s n = epfd" "\<not> es_lock s" "0 < epfd" "0 < fd"
  shows "base_epoll_ctl mem r mb m1 m2 key epfd op fd p s = do {
    (ret, p_evt_blk, s) \<leftarrow>
      (if op = EPOLL_CTL_ADD then epoll_ctl_add mem r mb m1 m2 n epfd key fd p (s\<lparr>es_lock := True\<rparr>)
       else if op = EPOLL_CTL_DEL then epoll_ctl_del mem r n epfd key fd (s\<lparr>es_lock := True\<rparr>)
       else if op = EPOLL_CTL_MOD then epoll_ctl_mod mem r mb m1 m2 n epfd key fd p (s\<lparr>es_lock := True\<rparr>)
       else Some (0, NULL, s\<lparr>es_lock := True\<rparr>));
    blocks \<leftarrow> (if ret = - 1 then c_free (es_blocks s) p_evt_blk else Some (es_blocks s));
    Some (ret, s\<lparr>es_lock := False, es_blocks := blocks\<rparr>)
  }"
  using epoll_find_known[OF assms(1-3)] assms(4-6)
  by (auto simp: base_epoll_ctl_def base_rwlock_wrlock_def base_rwlock_unlock_def node_of_def
      intro!: Option.bind_cong)

lemma ctl_codes: "EPOLL_CTL_ADD \<noteq> EPOLL_CTL_DEL" "EPOLL_CTL_ADD \<noteq> EPOLL_CTL_MOD" "EPOLL_CTL_DEL \<noteq> EPOLL_CTL_MOD"
  "EPOLL_CTL_DEL \<noteq> EPOLL_CTL_ADD" "EPOLL_CTL_MOD \<noteq> EPOLL_CTL_ADD" "EPOLL_CTL_MOD \<noteq> EPOLL_CTL_DEL"
  by (simp_all add: EPOLL_CTL_ADD_def EPOLL_CTL_DEL_def EPOLL_CTL_MOD_def)

lemma registry_unique: "registry s as ns \<Longrightarrow> registry s as' ns' \<Longrightarrow> ns' = ns"
  unfolding registry_def
  by (metis chain_unique dseg_chain map_injective injI epoll_ref.inject(1))

lemma epoll_known_node:
  assumes "epoll_core mem reg s as ns" "epoll_known s epfd"
  obtains n where "n \<in> set ns" "node_fd s n = epfd"
  using assms registry_unique unfolding epoll_known_def epoll_core_def by (metis (no_types, lifting) imageE)

lemma epoll_inv_unlocked:
  "epoll_core mem K s as ns \<Longrightarrow> es_kernel s = K \<Longrightarrow> epoll_inv mem (s\<lparr>es_lock := False\<rparr>)"
  by (auto simp: epoll_inv_def)

lemma ctl_add_success:
  assumes inv: "epoll_inv mem s" and known: "epoll_known s epfd" and pos: "0 < epfd" "0 < fd"
    and key: "mem key = fd" and room: "epoll_room s" and b: "es_blocks s b = None" and ev: "event_ok s ev"
    and new: "es_kernel s epfd fd = None"
  shows "\<exists>s'. base_epoll_ctl mem 0 (Some b) True True key epfd EPOLL_CTL_ADD fd (Some ev) s = Some (0, s') \<and>
    epoll_inv mem s' \<and> es_kernel s' = (es_kernel s)(epfd := (es_kernel s epfd)(fd \<mapsto> b)) \<and>
    es_blocks s' = (es_blocks s)(b \<mapsto> ev) \<and> es_data s' = es_data s"
proof -
  obtain as ns where core: "epoll_core mem (es_kernel s) s as ns" and lock: "\<not> es_lock s"
    using inv by (auto simp: epoll_inv_def)
  obtain n where n: "n \<in> set ns" "node_fd s n = epfd"
    by (rule epoll_known_node[OF core known])
  have reg: "registry s as ns"
    using core by (simp add: epoll_core_def)
  let ?l = "s\<lparr>es_lock := True\<rparr>"
  have l: "epoll_core mem (es_kernel s) ?l as ns" "node_fd ?l n = epfd" "epoll_room ?l" "es_blocks ?l b = None" "event_ok ?l ev"
    using core n(2) room b ev by (simp_all add: node_fd_def epoll_room_def event_ok_def)
  obtain s' where s': "epoll_ctl_add mem 0 (Some b) True True n epfd key fd (Some ev) ?l = Some (0, Some b, s')"
    "epoll_core mem ((es_kernel s)(epfd := (es_kernel s epfd)(fd \<mapsto> b))) s' as ns"
    "es_kernel s' = (es_kernel s)(epfd := (es_kernel s epfd)(fd \<mapsto> b))"
    "es_blocks s' = (es_blocks s)(b \<mapsto> ev)" "es_data s' = es_data s"
    using epoll_ctl_add_ok[OF l(1) n(1) l(2,3) new key l(4,5)] by auto
  have "base_epoll_ctl mem 0 (Some b) True True key epfd EPOLL_CTL_ADD fd (Some ev) s = Some (0, s'\<lparr>es_lock := False\<rparr>)"
    using s'(1) by (simp add: base_epoll_ctl_known[OF reg n lock pos])
  then show ?thesis
    using epoll_inv_unlocked[OF s'(2,3)] s'(3-5) by (intro exI[of _ "s'\<lparr>es_lock := False\<rparr>"]) simp
qed

lemma ctl_del_success:
  assumes inv: "epoll_inv mem s" and known: "epoll_known s epfd" and pos: "0 < epfd" "0 < fd"
    and key: "mem key = fd"
  shows "\<exists>s'. base_epoll_ctl mem 0 mb m1 m2 key epfd EPOLL_CTL_DEL fd p s = Some (0, s') \<and>
    epoll_inv mem s' \<and> es_kernel s' = (es_kernel s)(epfd := (es_kernel s epfd)(fd := None)) \<and>
    es_blocks s' = freed_block s (es_kernel s epfd fd) \<and> es_data s' = freed_data s (es_kernel s epfd fd)"
proof -
  obtain as ns where core: "epoll_core mem (es_kernel s) s as ns" and lock: "\<not> es_lock s"
    using inv by (auto simp: epoll_inv_def)
  obtain n where n: "n \<in> set ns" "node_fd s n = epfd"
    by (rule epoll_known_node[OF core known])
  have reg: "registry s as ns"
    using core by (simp add: epoll_core_def)
  let ?K = "(es_kernel s)(epfd := (es_kernel s epfd)(fd := None))"
  let ?l = "s\<lparr>es_lock := True, es_kernel := ?K\<rparr>"
  have l: "epoll_core mem (es_kernel s) ?l as ns" "node_fd ?l n = epfd"
    using core n(2) by (simp_all add: node_fd_def)
  obtain r s' where s': "epoll_hash_remove mem n key ?l = Some (r, s')" "epoll_core mem ?K s' as ns"
    "s' = ?l\<lparr>es_nodes := es_nodes s', es_blocks := es_blocks s', es_data := es_data s'\<rparr>"
    "es_blocks s' = freed_block s (es_kernel s epfd fd)" "es_data s' = freed_data s (es_kernel s epfd fd)"
    using epoll_hash_remove_ok[OF l(1) n(1) l(2), of key] unfolding key freed_simps by blast
  have k: "es_kernel s' = ?K"
    by (subst s'(3)) simp
  have "epoll_ctl_del mem 0 n epfd key fd (s\<lparr>es_lock := True\<rparr>) = Some (0, None, s')"
    using s'(1) by (simp add: epoll_ctl_del_def kernel_set_def)
  then have "base_epoll_ctl mem 0 mb m1 m2 key epfd EPOLL_CTL_DEL fd p s = Some (0, s'\<lparr>es_lock := False\<rparr>)"
    by (simp add: base_epoll_ctl_known[OF reg n lock pos] ctl_codes)
  then show ?thesis
    using epoll_inv_unlocked[OF s'(2) k] s'(4,5) k by (intro exI[of _ "s'\<lparr>es_lock := False\<rparr>"]) simp
qed

lemma ctl_mod_start:
  assumes inv: "epoll_inv mem s" and known: "epoll_known s epfd" and pos: "0 < epfd" "0 < fd"
    and key: "mem key = fd"
  obtains as ns n r s' where "registry s as ns" "n \<in> set ns" "node_fd s n = epfd" "\<not> es_lock s"
    "epoll_hash_remove mem n key (s\<lparr>es_lock := True\<rparr>) = Some (r, s')"
    "epoll_core mem ((es_kernel s)(epfd := (es_kernel s epfd)(fd := None))) s' as ns"
    "es_kernel s' = es_kernel s" "es_blocks s' = freed_block s (es_kernel s epfd fd)"
    "es_data s' = freed_data s (es_kernel s epfd fd)" "epoll_room s \<longrightarrow> epoll_room s'" "node_fd s' n = epfd"
proof -
  obtain as ns where core: "epoll_core mem (es_kernel s) s as ns" and lock: "\<not> es_lock s"
    using inv by (auto simp: epoll_inv_def)
  obtain n where n: "n \<in> set ns" "node_fd s n = epfd"
    by (rule epoll_known_node[OF core known])
  let ?K = "(es_kernel s)(epfd := (es_kernel s epfd)(fd := None))"
  let ?l = "s\<lparr>es_lock := True\<rparr>"
  have l: "epoll_core mem (es_kernel s) ?l as ns" "node_fd ?l n = epfd" "epoll_room ?l = epoll_room s"
    using core n(2) by (simp_all add: node_fd_def epoll_room_def)
  obtain r s' where s': "epoll_hash_remove mem n key ?l = Some (r, s')" "epoll_core mem ?K s' as ns"
    "s' = ?l\<lparr>es_nodes := es_nodes s', es_blocks := es_blocks s', es_data := es_data s'\<rparr>"
    "es_blocks s' = freed_block s (es_kernel s epfd fd)" "es_data s' = freed_data s (es_kernel s epfd fd)"
    "epoll_room s \<longrightarrow> epoll_room s'"
    using epoll_hash_remove_ok[OF l(1) n(1) l(2), of key] unfolding key freed_simps l(3) by blast
  have "es_kernel s' = es_kernel s"
    by (subst s'(3)) simp
  moreover have "node_fd s' n = epfd"
    using s'(1) n(2) epoll_hash_remove_node_fd[OF s'(1)] by (simp add: node_fd_def)
  ultimately show ?thesis
    using that[of as ns n r s'] core lock n s' by (simp add: epoll_core_def)
qed

text \<open>Freeing a registered block does not take the data of a new event.\<close>

lemma event_ok_freed:
  assumes ev: "event_ok s ev" and bl: "blocks_inv reg s" and p: "reg ep fd = p"
    and s': "es_blocks s' = freed_block s p" "es_data s' = freed_data s p"
  shows "event_ok s' ev"
  unfolding event_ok_def
proof (intro allI impI)
  fix d
  assume d: "ev_data ev = Some d"
  have none: "\<And>b e. es_blocks s b = Some e \<Longrightarrow> ev_data e \<noteq> Some d" "es_data s d \<noteq> None"
    using ev d by (auto simp: event_ok_def)
  have "ev_data (the (es_blocks s b)) \<noteq> Some d" if "p = Some b" for b
    using blocks_invD(1)[OF bl, of ep fd b] p that none(1) by fastforce
  then have "es_data s' d \<noteq> None"
    using none(2) s'(2) by (auto simp: freed_data_def split: option.splits)
  moreover have "ev_data e \<noteq> Some d" if "es_blocks s' b = Some e" for b e
    using none(1) s'(1) that by (auto simp: freed_block_def split: option.splits if_splits)
  ultimately show "es_data s' d \<noteq> None \<and> (\<forall>b e. es_blocks s' b = Some e \<longrightarrow> ev_data e \<noteq> Some d)"
    by blast
qed

lemma ctl_mod_success:
  assumes inv: "epoll_inv mem s" and known: "epoll_known s epfd" and pos: "0 < epfd" "0 < fd"
    and key: "mem key = fd" and room: "epoll_room s" and ev: "event_ok s ev"
    and b: "freed_block s (es_kernel s epfd fd) b = None"
  shows "\<exists>s'. base_epoll_ctl mem 0 (Some b) True True key epfd EPOLL_CTL_MOD fd (Some ev) s = Some (0, s') \<and>
    epoll_inv mem s' \<and> es_kernel s' = (es_kernel s)(epfd := (es_kernel s epfd)(fd \<mapsto> b)) \<and>
    es_blocks s' = (freed_block s (es_kernel s epfd fd))(b \<mapsto> ev) \<and> es_data s' = freed_data s (es_kernel s epfd fd)"
proof -
  let ?K = "(es_kernel s)(epfd := (es_kernel s epfd)(fd := None))"
  obtain as ns n r s1 where reg: "registry s as ns" and n: "n \<in> set ns" "node_fd s n = epfd" and lock: "\<not> es_lock s"
    and rm: "epoll_hash_remove mem n key (s\<lparr>es_lock := True\<rparr>) = Some (r, s1)"
    and core: "epoll_core mem ?K s1 as ns" and k: "es_kernel s1 = es_kernel s"
    and bl: "es_blocks s1 = freed_block s (es_kernel s epfd fd)" and d: "es_data s1 = freed_data s (es_kernel s epfd fd)"
    and room': "epoll_room s \<longrightarrow> epoll_room s1" and n1: "node_fd s1 n = epfd"
    by (rule ctl_mod_start[OF inv known pos key])
  have "blocks_inv (es_kernel s) s"
    using inv by (auto simp: epoll_inv_def epoll_core_def)
  then have ev1: "event_ok s1 ev"
    by (rule event_ok_freed[OF ev, of "es_kernel s" epfd fd "es_kernel s epfd fd"]) (use bl d in simp_all)
  have free: "?K epfd fd = None" "es_blocks s1 b = None" "epoll_room s1"
    using b bl room room' by simp_all
  obtain s' where s': "epoll_ctl_add mem 0 (Some b) True True n epfd key fd (Some ev) s1 = Some (0, Some b, s')"
    "epoll_core mem (?K(epfd := (?K epfd)(fd \<mapsto> b))) s' as ns"
    "es_kernel s' = (es_kernel s1)(epfd := (es_kernel s1 epfd)(fd \<mapsto> b))"
    "es_blocks s' = (es_blocks s1)(b \<mapsto> ev)" "es_data s' = es_data s1"
    using epoll_ctl_add_ok[OF core n(1) n1 free(3,1) key free(2) ev1] by blast
  have eq: "?K(epfd := (?K epfd)(fd \<mapsto> b)) = es_kernel s'"
    using s'(3) k by auto
  have "base_epoll_ctl mem 0 (Some b) True True key epfd EPOLL_CTL_MOD fd (Some ev) s = Some (0, s'\<lparr>es_lock := False\<rparr>)"
    using rm s'(1) by (simp add: base_epoll_ctl_known[OF reg n lock pos] ctl_codes epoll_ctl_mod_def)
  then show ?thesis
    using epoll_inv_unlocked[OF s'(2) eq[symmetric]] s'(3-5) k bl d by (intro exI[of _ "s'\<lparr>es_lock := False\<rparr>"]) simp
qed


text \<open>An ADD that fails changes nothing.\<close>

lemma ctl_add_failed:
  assumes inv: "epoll_inv mem s" and known: "epoll_known s epfd" and pos: "0 < epfd" "0 < fd"
    and fail: "mb = NULL \<or> r \<noteq> 0 \<and> (\<exists>b ev. mb = Some b \<and> p = Some ev \<and> es_blocks s b = None)"
  shows "base_epoll_ctl mem r mb m1 m2 key epfd EPOLL_CTL_ADD fd p s = Some (- 1, s)"
proof -
  obtain as ns where core: "epoll_core mem (es_kernel s) s as ns" and lock: "\<not> es_lock s"
    using inv by (auto simp: epoll_inv_def)
  obtain n where n: "n \<in> set ns" "node_fd s n = epfd"
    by (rule epoll_known_node[OF core known])
  have reg: "registry s as ns"
    using core by (simp add: epoll_core_def)
  have "(es_blocks s)(b := None) = es_blocks s" if "es_blocks s b = None" for b
    using that by (simp add: fun_upd_idem)
  then show ?thesis
    using fail lock by (auto simp: base_epoll_ctl_known[OF reg n lock pos] epoll_ctl_add_def kernel_set_def)
qed

lemma ctl_unknown:
  assumes inv: "epoll_inv mem s" and pos: "0 < epfd" "0 < fd" and unknown: "\<not> epoll_known s epfd"
  shows "base_epoll_ctl mem r mb m1 m2 key epfd op fd p s = Some (0, s)"
proof -
  obtain as ns where reg: "registry s as ns" and lock: "\<not> es_lock s"
    using inv by (auto simp: epoll_inv_def epoll_core_def)
  then have "epfd \<notin> node_fd s ` set ns"
    using unknown unfolding epoll_known_def by blast
  then show ?thesis
    using epoll_find_unknown[OF reg] pos lock
    by (simp add: base_epoll_ctl_def base_rwlock_wrlock_def base_rwlock_unlock_def)
qed

section \<open>Creating and closing\<close>

lemma node_fd_upd: "node_fd (s\<lparr>es_nodes := (es_nodes s)(a \<mapsto> e)\<rparr>) n = (if n = a then ep_epoll_fd e else node_fd s n)"
  by (simp add: node_fd_def)

lemma base_epoll_create_ok:
  assumes inv: "epoll_inv mem s" and pos: "0 < eplfd" and new: "\<not> epoll_known s eplfd"
    and a: "es_nodes s a = None" and l: "es_lheap s l = None"
  shows "\<exists>s'. base_epoll_create mem eplfd True True (Some a) (Some l) s = Some (eplfd, s') \<and> epoll_inv mem s' \<and>
    es_kernel s' = es_kernel s \<and> es_blocks s' = es_blocks s \<and> es_data s' = es_data s \<and>
    (\<forall>ep. epoll_known s' ep \<longleftrightarrow> ep = eplfd \<or> epoll_known s ep) \<and> (epoll_room s \<longrightarrow> epoll_room s')"
proof -
  obtain as ns where core: "epoll_core mem (es_kernel s) s as ns" and lock: "\<not> es_lock s"
    using inv by (auto simp: epoll_inv_def)
  then have reg: "registry s as ns"
    by (simp add: epoll_core_def)
  obtain ht where ht: "hash_table_new True True (\<lambda>k. int_hash (mem k)) (\<lambda>k l. int_equal (mem k) (mem l)) = Some (Some ht)"
    "hash_inv mem (\<lambda>fd. None) (hash_table_register_free_functions ht False True)" "ht_entries ht = 0"
    using hash_inv_new[of mem] by blast
  obtain h' p' where app: "list_append (Some l) (es_lheap s) (es_list s) (Node a) = Some (Some l, h', p')"
    "dlist h' p' (as @ [l])" "dvalues h' (as @ [l]) = dvalues (es_lheap s) as @ [Node a]"
    using list_append_ok[where h = "es_lheap s" and p = "es_list s" and as = as and m = l and v = "Node a"] reg l
    unfolding registry_def by blast
  let ?e = "\<lparr>ep_epoll_fd = eplfd, ep_event_hash = hash_table_register_free_functions ht False True\<rparr>"
  let ?s = "s\<lparr>es_nodes := (es_nodes s)(a \<mapsto> ?e), es_lock := False, es_lheap := h', es_list := p'\<rparr>"
  have "eplfd \<notin> node_fd s ` set ns"
    using reg new unfolding epoll_known_def by blast
  moreover have "a \<notin> set ns"
    using reg a by (auto simp: registry_def)
  ultimately have fresh: "a \<notin> set ns" "eplfd \<notin> node_fd s ` set ns"
    by simp_all
  have fd: "node_fd ?s a = eplfd" "\<And>n. n \<noteq> a \<Longrightarrow> node_fd ?s n = node_fd s n"
    "node_hash ?s a = ep_event_hash ?e" "\<And>n. n \<noteq> a \<Longrightarrow> node_hash ?s n = node_hash s n"
    by (simp_all add: node_fd_def node_hash_def)
  have same: "\<And>n. n \<in> set ns \<Longrightarrow> node_fd ?s n = node_fd s n \<and> node_hash ?s n = node_hash s n"
    using fd(2,4) fresh(1) by metis
  have img: "node_fd ?s ` set (ns @ [a]) = insert eplfd (node_fd s ` set ns)"
    using same fd(1) by (force simp: image_iff)
  have inj: "inj_on (node_fd ?s) (set ns)"
    using reg same unfolding registry_def inj_on_def by (metis (no_types, lifting))
  have reg': "registry ?s (as @ [l]) (ns @ [a])"
    unfolding registry_def
  proof (intro conjI)
    show "inj_on (node_fd ?s) (set (ns @ [a]))"
      using inj fresh same fd(1) by (auto simp: inj_on_insert image_iff simp del: fun_upd_apply)
  qed (use app reg fresh in \<open>auto simp: registry_def\<close>)
  have bl: "blocks_inv (es_kernel s) s" and none: "es_kernel s eplfd = (\<lambda>fd. None)"
    using core fresh(2) by (auto simp: epoll_core_def)
  have "blocks_inv (es_kernel ?s) ?s"
    using blocks_invD[OF bl] by (intro blocks_invI) auto
  moreover have "hash_inv mem (es_kernel s (node_fd ?s n)) (node_hash ?s n)" if "n \<in> set (ns @ [a])" for n
    using that core same fd(1,3) ht(2) none by (cases "n = a") (auto simp: epoll_core_def)
  moreover have "es_kernel s ep = (\<lambda>fd. None)" if "ep \<notin> node_fd ?s ` set (ns @ [a])" for ep
    using that core unfolding img by (auto simp: epoll_core_def)
  ultimately have "epoll_core mem (es_kernel ?s) ?s (as @ [l]) (ns @ [a])"
    using reg' by (simp add: epoll_core_def)
  then have "epoll_inv mem ?s"
    by (auto simp: epoll_inv_def)
  moreover have "base_epoll_create mem eplfd True True (Some a) (Some l) s = Some (eplfd, ?s)"
    using pos ht(1) lock app(1)
    by (simp add: base_epoll_create_def base_rwlock_wrlock_def base_rwlock_unlock_def Let_def)
  moreover have "epoll_known ?s ep \<longleftrightarrow> ep = eplfd \<or> epoll_known s ep" for ep
    unfolding epoll_known_def using reg reg' registry_unique img by (metis insert_iff)
  moreover have "epoll_room s \<longrightarrow> epoll_room ?s"
    using ht(3) by (auto simp: epoll_room_def hash_table_register_free_functions_def)
  ultimately show ?thesis
    by (intro exI[of _ ?s]) simp
qed

lemma distinct_map_sorted_wrt: "distinct (map f xs) \<longleftrightarrow> sorted_wrt (\<lambda>x y. f x \<noteq> f y) xs"
  by (induction xs) auto

text \<open>All blocks of an instance are freed with its hash table.\<close>

lemma run_frees_all:
  assumes "blocks_inv reg s" "distinct bs" "\<And>b. b \<in> set bs \<Longrightarrow> es_blocks s b \<noteq> None"
    and "\<And>b ep fd. b \<in> set bs \<Longrightarrow> reg ep fd \<noteq> Some b"
  shows "\<exists>s'. run_frees (concat (map (\<lambda>b. [FreeValue (Some b), FreeEntry]) bs) @ [FreeTable, FreeStruct]) s = Some s' \<and>
    blocks_inv reg s' \<and> es_blocks s' = (\<lambda>b. if b \<in> set bs then None else es_blocks s b)"
  using assms
proof (induction bs arbitrary: s)
  case Nil
  then show ?case by simp
next
  case (Cons b bs)
  obtain e where e: "es_blocks s b = Some e"
    using Cons.prems(3)[of b] by auto
  obtain s1 where s1: "base_epoll_free_event_block (Some b) s = Some s1" "blocks_inv reg s1"
    "s1 = s\<lparr>es_data := es_data s1, es_blocks := (es_blocks s)(b := None)\<rparr>"
    using free_block_ok[OF Cons.prems(1) e] Cons.prems(4) by auto
  have b1: "es_blocks s1 = (es_blocks s)(b := None)"
    by (subst s1(3)) simp
  have "es_blocks s1 b' \<noteq> None" "reg ep fd \<noteq> Some b'" if "b' \<in> set bs" for b' ep fd
    using that Cons.prems(2) Cons.prems(3,4)[of b'] b1 by auto
  then obtain s' where "run_frees (concat (map (\<lambda>b. [FreeValue (Some b), FreeEntry]) bs) @ [FreeTable, FreeStruct]) s1 = Some s'"
    "blocks_inv reg s'" "es_blocks s' = (\<lambda>b. if b \<in> set bs then None else es_blocks s1 b)"
    using Cons.IH[OF s1(2)] Cons.prems(2) by auto
  then show ?case
    using s1(1) b1 by (intro exI[of _ s']) auto
qed

lemma hash_inv_blocks:
  assumes inv: "hash_inv mem reg ht" and inj: "\<And>f f' b. reg f = Some b \<Longrightarrow> reg f' = Some b \<Longrightarrow> f = f'"
  obtains bs where "hash_table_free (ht_at mem ht) =
      Some (concat (map (\<lambda>b. [FreeValue (Some b), FreeEntry]) bs) @ [FreeTable, FreeStruct])"
    "distinct bs" "set bs = ran reg"
proof -
  let ?ht = "ht_at mem ht" and ?es = "concat (ht_table (ht_at mem ht))"
  let ?b = "\<lambda>e. the (he_value e)"
  have i: "ht_inv ?ht" and m: "\<And>k. ht_map ?ht k = map_option Some (reg (mem k))"
    and rng: "\<And>fd. reg fd \<noteq> None \<Longrightarrow> fd \<in> range mem"
    and flags: "ht_value_free_func ht" "\<not> ht_key_free_func ht"
    using inv by (auto simp: hash_inv_def)
  have he: "hash_equal (ht_hash_func ?ht) (ht_equal_func ?ht)" and u: "unique_keys (ht_equal_func ?ht) he_key ?es"
    using i by (simp_all add: ht_inv_def)
  note uf = hash_equal.unique_keys_find[OF he u]
  have entry: "reg (mem (he_key e)) = Some (?b e) \<and> he_value e = Some (?b e)" if "e \<in> set ?es" for e
  proof -
    have "ht_found ?ht (he_key e) = Some e"
      using that uf[of "he_key e" e] by (simp add: ht_found_def)
    then have "map_option Some (reg (mem (he_key e))) = Some (he_value e)"
      using m[of "he_key e"] by (simp add: ht_map_def)
    then show ?thesis by (cases "he_value e") auto
  qed
  have "hash_table_free ?ht = Some (concat (map (hash_table_free_entry ?ht) ?es) @ [FreeTable, FreeStruct])"
    using i ht_size_bounds[OF i] by (simp add: hash_table_free_def bucket_walk_ok ht_inv_def)
  moreover have "map (hash_table_free_entry ?ht) ?es = map (\<lambda>b. [FreeValue (Some b), FreeEntry]) (map ?b ?es)"
    using entry flags by (simp add: hash_table_free_entry_def)
  ultimately have "hash_table_free ?ht = Some (concat (map (\<lambda>b. [FreeValue (Some b), FreeEntry]) (map ?b ?es)) @ [FreeTable, FreeStruct])"
    by simp
  moreover have "distinct (map ?b ?es)"
  proof -
    have "sorted_wrt (\<lambda>e f. ?b e \<noteq> ?b f) ?es"
    proof (rule sorted_wrt_mono_rel[OF _ u[unfolded unique_keys_def]])
      fix e f
      assume ef: "e \<in> set ?es" "f \<in> set ?es" "ht_equal_func ?ht (he_key e) (he_key f) = 0"
      then have "mem (he_key e) \<noteq> mem (he_key f)"
        using ht_at_simps(1)[of mem ht "he_key e" "he_key f"] by blast
      then show "?b e \<noteq> ?b f"
        using entry[OF ef(1)] entry[OF ef(2)] inj by metis
    qed
    then show ?thesis
      by (simp add: distinct_map_sorted_wrt)
  qed
  moreover have "set (map ?b ?es) = ran reg"
  proof
    show "set (map ?b ?es) \<subseteq> ran reg"
      using entry by (auto simp: ran_def)
    show "ran reg \<subseteq> set (map ?b ?es)"
    proof
      fix b
      assume "b \<in> ran reg"
      then obtain k where "reg (mem k) = Some b"
        using rng by (fastforce simp: ran_def)
      then obtain e where "ht_found ?ht k = Some e" "he_value e = Some b"
        using m[of k] by (auto simp: ht_map_def)
      then show "b \<in> set (map ?b ?es)"
        using uf[of k e] by (force simp: ht_found_def)
    qed
  qed
  ultimately show ?thesis
    using that[of "map ?b ?es"] by blast
qed

text \<open>The list without the entry of a node.\<close>

lemma registry_unlink:
  assumes reg: "registry s as ns" and x: "x \<in> set as" "list_data (es_lheap s) (Some x) = Some (Node n)"
  obtains h' p' where "list_remove_entry (es_lheap s) (es_list s) (Some x) = Some (1, h', p')"
    "dlist h' p' (remove1 x as)" "dvalues h' (remove1 x as) = map Node (remove1 n ns)"
proof -
  have d: "dlist (es_lheap s) (es_list s) as" "dvalues (es_lheap s) as = map Node ns" "distinct ns"
    using reg by (simp_all add: registry_def)
  obtain h' p' where h': "list_remove_entry (es_lheap s) (es_list s) (Some x) = Some (1, h', p')"
    "dlist h' p' (remove1 x as)" "relinked dl_data (set as) (es_lheap s) h'"
    using list_remove_entry_ok[OF d(1) x(1)] by blast
  obtain bs cs where as: "as = bs @ x # cs" "x \<notin> set bs"
    using x(1) by (meson split_list_first)
  have rm: "remove1 x as = bs @ cs"
    using as by (simp add: remove1_append)
  have xd: "dl_data (the (es_lheap s x)) = Node n"
    using x(2) by (auto simp: list_data_def)
  obtain ns1 ns2 where ns: "ns = ns1 @ n # ns2" "dvalues (es_lheap s) bs = map Node ns1" "dvalues (es_lheap s) cs = map Node ns2"
    using d(2) xd as(1) by (auto simp: append_eq_map_conv Cons_eq_map_conv)
  have "es_lheap s a \<noteq> None" if "a \<in> set (bs @ cs)" for a
    using chain_in_heap[OF dseg_chain[OF d(1)], of a] that as(1) by auto
  then have "dvalues h' (bs @ cs) = dvalues (es_lheap s) (bs @ cs)"
    by (rule relinked_data[OF h'(3)])
  moreover have "remove1 n ns = ns1 @ ns2"
    using ns(1) d(3) by (simp add: remove1_append)
  ultimately show ?thesis
    using that h'(1,2) ns rm by simp
qed

lemma base_epoll_close_ok:
  assumes inv: "epoll_inv mem s" and known: "epoll_known s epfd" and pos: "0 < epfd"
  shows "\<exists>s'. base_epoll_close mem epfd s = Some s' \<and> epoll_inv mem s' \<and>
    es_kernel s' = (es_kernel s)(epfd := \<lambda>fd. None) \<and>
    es_blocks s' = (\<lambda>b. if b \<in> ran (es_kernel s epfd) then None else es_blocks s b) \<and>
    (\<forall>ep. epoll_known s' ep \<longleftrightarrow> ep \<noteq> epfd \<and> epoll_known s ep)"
proof -
  let ?K = "(es_kernel s)(epfd := \<lambda>fd. None)"
  obtain as ns where core: "epoll_core mem (es_kernel s) s as ns" and lock: "\<not> es_lock s"
    using inv by (auto simp: epoll_inv_def)
  obtain n where n: "n \<in> set ns" "node_fd s n = epfd"
    by (rule epoll_known_node[OF core known])
  have reg: "registry s as ns" and bl: "blocks_inv (es_kernel s) s"
    using core by (simp_all add: epoll_core_def)
  obtain e where e: "es_nodes s n = Some e"
    using reg n(1) by (auto simp: registry_def)
  have hash: "hash_inv mem (es_kernel s epfd) (ep_event_hash e)"
    using core n e by (auto simp: epoll_core_def node_hash_def)
  obtain x where x: "x \<in> set as" "epoll_find s epfd = Some (Some x)" "list_data (es_lheap s) (Some x) = Some (Node n)"
    using epoll_find_known[OF reg n] by blast
  obtain h' p' where h': "list_remove_entry (es_lheap s) (es_list s) (Some x) = Some (1, h', p')"
    "dlist h' p' (remove1 x as)" "dvalues h' (remove1 x as) = map Node (remove1 n ns)"
    by (rule registry_unlink[OF reg x(1,3)])
  obtain bs where bs: "hash_table_free (ht_at mem (ep_event_hash e)) =
      Some (concat (map (\<lambda>b. [FreeValue (Some b), FreeEntry]) bs) @ [FreeTable, FreeStruct])"
    "distinct bs" "set bs = ran (es_kernel s epfd)"
    using hash_inv_blocks[OF hash] blocks_invD(2)[OF bl] by metis
  let ?s1 = "s\<lparr>es_lheap := h', es_list := p', es_lock := False\<rparr>"
  have bl1: "blocks_inv ?K ?s1"
    using blocks_invD[OF bl] by (intro blocks_invI) (auto split: if_splits)
  have mem_bs: "es_blocks ?s1 b \<noteq> None" "?K ep fd \<noteq> Some b" if b: "b \<in> set bs" for b ep fd
  proof -
    obtain f where f: "es_kernel s epfd f = Some b"
      using b bs(3) by (auto simp: ran_def)
    show "es_blocks ?s1 b \<noteq> None"
      using blocks_invD(1)[OF bl f] by simp
    show "?K ep fd \<noteq> Some b"
      using blocks_invD(2)[OF bl f, of ep fd] by auto
  qed
  obtain s2 where s2: "run_frees (concat (map (\<lambda>b. [FreeValue (Some b), FreeEntry]) bs) @ [FreeTable, FreeStruct]) ?s1 = Some s2"
    "blocks_inv ?K s2" "es_blocks s2 = (\<lambda>b. if b \<in> set bs then None else es_blocks ?s1 b)"
    using run_frees_all[OF bl1 bs(2) mem_bs] by blast
  have fr: "es_nodes s2 = es_nodes s" "es_list s2 = p'" "es_lheap s2 = h'" "es_kernel s2 = es_kernel s" "\<not> es_lock s2"
    using run_frees_frame[OF s2(1)] by simp_all
  let ?s = "s2\<lparr>es_nodes := (es_nodes s)(n := None), es_kernel := ?K\<rparr>"
  have close: "base_epoll_close mem epfd s = Some ?s"
    using pos lock x(2,3) h'(1) e bs(1) s2(1) fr
    by (simp add: base_epoll_close_def base_rwlock_wrlock_def base_rwlock_unlock_def node_of_def
        base_epoll_free_event_hash_def kernel_close_def)
  have left: "set (remove1 n ns) = set ns - {n}" "distinct (remove1 n ns)"
    using reg by (simp_all add: registry_def)
  have same: "node_fd ?s m = node_fd s m \<and> node_hash ?s m = node_hash s m" if "m \<noteq> n" for m
    using that fr(1) by (simp add: node_fd_def node_hash_def)
  have inj: "inj_on (node_fd s) (set ns)"
    using reg by (simp add: registry_def)
  have img: "node_fd ?s ` set (remove1 n ns) = node_fd s ` set ns - {epfd}"
  proof -
    have "node_fd ?s ` set (remove1 n ns) = node_fd s ` (set ns - {n})"
      unfolding left(1) using same by (intro image_cong) auto
    also have "\<dots> = node_fd s ` set ns - {epfd}"
      using inj_on_image_set_diff[OF inj, of "set ns" "{n}"] n by auto
    finally show ?thesis .
  qed
  have reg': "registry ?s (remove1 x as) (remove1 n ns)"
    unfolding registry_def
  proof (intro conjI)
    show "inj_on (node_fd ?s) (set (remove1 n ns))"
      using inj same unfolding left(1) inj_on_def by (metis Diff_iff singletonI)
  qed (use h'(2,3) fr left reg in \<open>auto simp: registry_def\<close>)
  have bl2: "blocks_inv (es_kernel ?s) ?s"
    using s2(2) by (simp add: blocks_inv_frame[of ?s s2])
  have hashes: "hash_inv mem (es_kernel ?s (node_fd ?s m)) (node_hash ?s m)" if "m \<in> set (remove1 n ns)" for m
  proof -
    have m: "m \<in> set ns" "m \<noteq> n"
      using that left by auto
    then have "node_fd s m \<noteq> epfd"
      using inj n by (auto dest: inj_onD)
    then show ?thesis
      using same[OF m(2)] core m(1) by (simp add: epoll_core_def)
  qed
  have rest: "es_kernel ?s ep = (\<lambda>fd. None)" if "ep \<notin> node_fd ?s ` set (remove1 n ns)" for ep
    using that core unfolding img by (auto simp: epoll_core_def)
  have "epoll_core mem (es_kernel ?s) ?s (remove1 x as) (remove1 n ns)"
    using reg' bl2 hashes rest unfolding epoll_core_def by blast
  then have "epoll_inv mem ?s"
    using fr(5) by (auto simp: epoll_inv_def)
  moreover have "epoll_known ?s ep \<longleftrightarrow> ep \<noteq> epfd \<and> epoll_known s ep" for ep
    unfolding epoll_known_def using reg reg' registry_unique img by (metis Diff_iff singletonD singletonI)
  moreover have "es_blocks s2 = (\<lambda>b. if b \<in> ran (es_kernel s epfd) then None else es_blocks s b)"
    using s2(3) bs(3) by (auto simp: fun_eq_iff)
  ultimately show ?thesis
    using close by (intro exI[of _ ?s]) simp
qed

section \<open>Properties\<close>

text \<open>The program starts without instances.\<close>

definition epoll_init :: "'c epoll_state" where
  "epoll_init = \<lparr>es_list = NULL, es_lheap = \<lambda>a. None, es_nodes = \<lambda>a. None, es_blocks = \<lambda>a. None,
     es_data = \<lambda>a. None, es_lock = False, es_kernel = \<lambda>ep fd. None\<rparr>"

lemma epoll_inv_init: "epoll_inv mem epoll_init" "epoll_room epoll_init"
proof -
  have "epoll_core mem (es_kernel epoll_init) epoll_init [] []"
    by (simp add: epoll_init_def epoll_core_def registry_def blocks_inv_def)
  then show "epoll_inv mem epoll_init"
    by (auto simp: epoll_inv_def epoll_init_def)
qed (simp add: epoll_init_def epoll_room_def)

lemma epoll_known_init: "\<not> epoll_known epoll_init ep"
proof -
  have "registry epoll_init [] []"
    by (simp add: epoll_init_def registry_def)
  then show ?thesis
    using registry_unique unfolding epoll_known_def by (metis empty_iff image_empty list.set(1))
qed

text \<open>base_epoll_create registers a new instance with an empty hash table, and base_epoll_close
  takes an instance out of the list, frees its control blocks, each exactly once, and its
  node, and closes the descriptor; both leave all other instances alone, release the lock and keep
  the invariant.\<close>

theorem base_epoll_create_close:
  assumes inv: "epoll_inv mem s" and pos: "0 < epfd"
  shows "(\<not> epoll_known s epfd \<and> es_nodes s a = None \<and> es_lheap s l = None \<longrightarrow>
      (\<exists>s'. base_epoll_create mem epfd True True (Some a) (Some l) s = Some (epfd, s') \<and> epoll_inv mem s' \<and>
        es_kernel s' = es_kernel s \<and> es_blocks s' = es_blocks s \<and> es_data s' = es_data s \<and>
        (\<forall>ep. epoll_known s' ep \<longleftrightarrow> ep = epfd \<or> epoll_known s ep))) \<and>
    (epoll_known s epfd \<longrightarrow>
      (\<exists>s'. base_epoll_close mem epfd s = Some s' \<and> epoll_inv mem s' \<and>
        es_kernel s' = (es_kernel s)(epfd := \<lambda>fd. None) \<and>
        es_blocks s' = (\<lambda>b. if b \<in> ran (es_kernel s epfd) then None else es_blocks s b) \<and>
        (\<forall>ep. epoll_known s' ep \<longleftrightarrow> ep \<noteq> epfd \<and> epoll_known s ep)))"
  using base_epoll_create_ok[OF inv pos] base_epoll_close_ok[OF inv _ pos] by blast

lemma epoll_example:
  obtains s :: "'c epoll_state" where "base_epoll_create mem 3 True True (Some 1) (Some 1) epoll_init = Some (3, s)"
    "epoll_inv mem s" "epoll_known s 3" "epoll_room s" "es_kernel s = (\<lambda>ep fd. None)" "es_blocks s = (\<lambda>b. None)"
    "es_data s = (\<lambda>d. None)"
proof -
  have fresh: "es_nodes (epoll_init :: 'c epoll_state) 1 = None" "es_lheap (epoll_init :: 'c epoll_state) 1 = None"
    by (simp_all add: epoll_init_def)
  have pos: "(0 :: int) < 3" by simp
  obtain s :: "'c epoll_state" where s: "base_epoll_create mem 3 True True (Some 1) (Some 1) epoll_init = Some (3, s)"
    "epoll_inv mem s" "es_kernel s = es_kernel (epoll_init :: 'c epoll_state)"
    "es_blocks s = es_blocks epoll_init" "es_data s = es_data (epoll_init :: 'c epoll_state)"
    "\<forall>ep. epoll_known s ep \<longleftrightarrow> ep = 3 \<or> epoll_known (epoll_init :: 'c epoll_state) ep"
    "epoll_room (epoll_init :: 'c epoll_state) \<longrightarrow> epoll_room s"
    using base_epoll_create_ok[OF epoll_inv_init(1) pos epoll_known_init fresh, of mem] by blast
  have "epoll_room s"
    by (rule s(7)[rule_format, OF epoll_inv_init(2)])
  then show ?thesis
    by (rule that[OF s(1,2), rotated]) (use s(3-6) in \<open>simp_all add: epoll_init_def\<close>)
qed

theorem base_epoll_create_close_witness:
  "\<exists>s s' :: nat epoll_state. base_epoll_create (\<lambda>k. 5) 3 True True (Some 1) (Some 1) epoll_init = Some (3, s) \<and>
     base_epoll_close (\<lambda>k. 5) 3 s = Some s' \<and> \<not> epoll_known s' 3"
proof -
  obtain s :: "nat epoll_state" where s: "base_epoll_create (\<lambda>k. 5) 3 True True (Some 1) (Some 1) epoll_init = Some (3, s)"
    "epoll_inv (\<lambda>k. 5) s" "epoll_known s 3"
    by (rule epoll_example)
  have "(0 :: int) < 3" by simp
  then show ?thesis
    using base_epoll_create_close[OF s(2)] s by blast
qed

text \<open>C9: base_epoll_ctl on an instance that base_epoll_create made, when the kernel and the
  allocator succeed and the memory at every stored key still holds its descriptor: ADD registers a
  new control block with the given contents, MOD replaces it and frees the old block with its
  data, DEL unregisters and frees. Each call returns 0, releases the lock and keeps the
  invariant, so that every pointer the kernel holds is an allocated block that the hash table of
  its instance has under that descriptor.\<close>

theorem base_epoll_ctl_spec:
  assumes inv: "epoll_inv mem s" and known: "epoll_known s epfd" and pos: "0 < epfd" "0 < fd"
    and key: "mem key = fd" and room: "epoll_room s" and ev: "event_ok s ev" and b: "es_blocks s b = None"
  shows
    "(es_kernel s epfd fd = None \<longrightarrow>
      (\<exists>s'. base_epoll_ctl mem 0 (Some b) True True key epfd EPOLL_CTL_ADD fd (Some ev) s = Some (0, s') \<and>
        epoll_inv mem s' \<and> es_kernel s' = (es_kernel s)(epfd := (es_kernel s epfd)(fd \<mapsto> b)) \<and>
        es_blocks s' = (es_blocks s)(b \<mapsto> ev) \<and> es_data s' = es_data s)) \<and>
     (\<exists>s'. base_epoll_ctl mem 0 (Some b) True True key epfd EPOLL_CTL_MOD fd (Some ev) s = Some (0, s') \<and>
        epoll_inv mem s' \<and> es_kernel s' = (es_kernel s)(epfd := (es_kernel s epfd)(fd \<mapsto> b)) \<and>
        es_blocks s' = (freed_block s (es_kernel s epfd fd))(b \<mapsto> ev) \<and>
        es_data s' = freed_data s (es_kernel s epfd fd)) \<and>
     (\<exists>s'. base_epoll_ctl mem 0 NULL True True key epfd EPOLL_CTL_DEL fd None s = Some (0, s') \<and>
        epoll_inv mem s' \<and> es_kernel s' = (es_kernel s)(epfd := (es_kernel s epfd)(fd := None)) \<and>
        es_blocks s' = freed_block s (es_kernel s epfd fd) \<and> es_data s' = freed_data s (es_kernel s epfd fd)) \<and>
     (\<forall>ep f p. es_kernel s ep f = Some p \<longrightarrow> es_blocks s p \<noteq> None)"
proof -
  have "freed_block s (es_kernel s epfd fd) b = None"
    using b by (simp add: freed_block_def split: option.split)
  note m = ctl_mod_success[OF inv known pos key room ev this]
  have "blocks_inv (es_kernel s) s"
    using inv by (auto simp: epoll_inv_def epoll_core_def)
  then have live: "\<forall>ep f p. es_kernel s ep f = Some p \<longrightarrow> es_blocks s p \<noteq> None"
    using blocks_invD(1) by blast
  show ?thesis
    using ctl_add_success[OF inv known pos key room b ev] m
      ctl_del_success[OF inv known pos key, of None True True None] live by blast
qed

definition example_event :: "nat EpollEvent" where
  "example_event = \<lparr>ev_eplfd = 3, ev_fd = 5, ev_callback = 0, ev_data = NULL, ev_len = 0\<rparr>"

theorem base_epoll_ctl_spec_witness:
  "\<exists>s s'. base_epoll_create (\<lambda>k. 5) 3 True True (Some 1) (Some 1) epoll_init = Some (3, s) \<and>
     base_epoll_ctl (\<lambda>k. 5) 0 (Some 10) True True 100 3 EPOLL_CTL_ADD 5 (Some example_event) s = Some (0, s') \<and>
     es_kernel s' 3 5 = Some 10 \<and> es_blocks s' 10 = Some example_event"
proof -
  obtain s :: "nat epoll_state" where s: "base_epoll_create (\<lambda>k. 5) 3 True True (Some 1) (Some 1) epoll_init = Some (3, s)"
    "epoll_inv (\<lambda>k. 5) s" "epoll_known s 3" "epoll_room s" "es_kernel s = (\<lambda>ep fd. None)" "es_blocks s = (\<lambda>b. None)"
    by (rule epoll_example)
  have "event_ok s example_event"
    by (simp add: event_ok_def example_event_def)
  then show ?thesis
    using base_epoll_ctl_spec[OF s(2,3), where fd = 5 and key = 100 and ev = example_event and b = 10] s by auto
qed

text \<open>The error paths of base_epoll_ctl. An ADD whose allocation or system call fails returns -1
  and changes nothing. A call for an instance that does not exist, and an unknown command, also change
  nothing, but they return 0.\<close>

theorem base_epoll_ctl_errors:
  assumes inv: "epoll_inv mem s" and pos: "0 < epfd" "0 < fd"
  shows "(epoll_known s epfd \<longrightarrow>
      base_epoll_ctl mem r NULL m1 m2 key epfd EPOLL_CTL_ADD fd p s = Some (- 1, s) \<and>
      (r \<noteq> 0 \<and> es_blocks s b = None \<longrightarrow>
        base_epoll_ctl mem r (Some b) m1 m2 key epfd EPOLL_CTL_ADD fd (Some ev) s = Some (- 1, s)) \<and>
      (op \<notin> {EPOLL_CTL_ADD, EPOLL_CTL_DEL, EPOLL_CTL_MOD} \<longrightarrow>
        base_epoll_ctl mem r mb m1 m2 key epfd op fd p s = Some (0, s))) \<and>
    (\<not> epoll_known s epfd \<longrightarrow> base_epoll_ctl mem r mb m1 m2 key epfd op fd p s = Some (0, s))"
proof -
  obtain as ns where core: "epoll_core mem (es_kernel s) s as ns" and lock: "\<not> es_lock s"
    using inv by (auto simp: epoll_inv_def)
  then have reg: "registry s as ns"
    by (simp add: epoll_core_def)
  have upd: "s\<lparr>es_lock := False\<rparr> = s" "s\<lparr>es_lock := False, es_blocks := es_blocks s\<rparr> = s"
    using lock by simp_all
  show ?thesis
  proof (cases "epoll_known s epfd")
    case True
    obtain n where n: "n \<in> set ns" "node_fd s n = epfd"
      by (rule epoll_known_node[OF core True])
    note ctl = base_epoll_ctl_known[OF reg n lock pos]
    show ?thesis
      using True upd ctl_add_failed[OF inv True pos] by (auto simp: ctl)
  next
    case False
    then show ?thesis
      using ctl_unknown[OF inv pos] by blast
  qed
qed

theorem base_epoll_ctl_errors_witness:
  "\<exists>s. base_epoll_create (\<lambda>k. 5) 3 True True (Some 1) (Some 1) (epoll_init :: nat epoll_state) = Some (3, s) \<and>
     base_epoll_ctl (\<lambda>k. 5) 0 NULL True True 100 3 EPOLL_CTL_ADD 5 None s = Some (- 1, s)"
proof -
  obtain s :: "nat epoll_state" where s: "base_epoll_create (\<lambda>k. 5) 3 True True (Some 1) (Some 1) epoll_init = Some (3, s)"
    "epoll_inv (\<lambda>k. 5) s" "epoll_known s 3"
    by (rule epoll_example)
  have "(0 :: int) < 3" "(0 :: int) < 5" by simp_all
  then show ?thesis
    using base_epoll_ctl_errors[OF s(2)] s by blast
qed

text \<open>A MOD that fails, in the allocation or in the system call, has already freed the old
  control block, while the kernel still holds the pointer to it: base_epoll_ctl returns -1 and the
  next event on the descriptor uses freed memory.\<close>

theorem base_epoll_mod_dangling:
  assumes inv: "epoll_inv mem s" and known: "epoll_known s epfd" and pos: "0 < epfd" "0 < fd"
    and key: "mem key = fd" and old: "es_kernel s epfd fd = Some b0"
  shows "\<exists>s'. base_epoll_ctl mem r NULL m1 m2 key epfd EPOLL_CTL_MOD fd p s = Some (- 1, s') \<and>
    es_kernel s' epfd fd = Some b0 \<and> es_blocks s' b0 = None"
proof -
  obtain as ns n r' s1 where reg: "registry s as ns" and n: "n \<in> set ns" "node_fd s n = epfd" and lock: "\<not> es_lock s"
    and rm: "epoll_hash_remove mem n key (s\<lparr>es_lock := True\<rparr>) = Some (r', s1)"
    and k: "es_kernel s1 = es_kernel s" and bl: "es_blocks s1 = freed_block s (es_kernel s epfd fd)"
    by (rule ctl_mod_start[OF inv known pos key])
  have "base_epoll_ctl mem r NULL m1 m2 key epfd EPOLL_CTL_MOD fd p s = Some (- 1, s1\<lparr>es_lock := False\<rparr>)"
    using rm by (simp add: base_epoll_ctl_known[OF reg n lock pos] ctl_codes epoll_ctl_mod_def epoll_ctl_add_def)
  then show ?thesis
    using k bl old by (intro exI[of _ "s1\<lparr>es_lock := False\<rparr>"]) (simp add: freed_block_def)
qed

lemma epoll_example_added:
  obtains s :: "nat epoll_state" where "epoll_inv (\<lambda>k. 5) s" "epoll_known s 3" "es_kernel s 3 5 = Some 10"
proof -
  obtain s :: "nat epoll_state" where s: "epoll_inv (\<lambda>k. 5) s" "epoll_known s 3" "epoll_room s"
    "es_kernel s = (\<lambda>ep fd. None)" "es_blocks s = (\<lambda>b. None)"
    by (rule epoll_example)
  have ev: "event_ok s example_event"
    by (simp add: event_ok_def example_event_def)
  have hyps: "(0 :: int) < 3" "(0 :: int) < 5" "es_blocks s 10 = None" "es_kernel s 3 5 = None"
    using s by simp_all
  obtain s' :: "nat epoll_state" where s': "epoll_inv (\<lambda>k. 5) s'" "es_kernel s' = (es_kernel s)(3 := (es_kernel s 3)(5 \<mapsto> 10))"
    using ctl_add_success[OF s(1,2) hyps(1,2) refl s(3) hyps(3) ev hyps(4), of 100] by blast
  have "es_kernel s' 3 \<noteq> (\<lambda>fd. None)"
    using s'(2) by (auto dest: fun_cong[of _ _ 5])
  then have "epoll_known s' 3"
    using s'(1) unfolding epoll_inv_def epoll_core_def epoll_known_def by blast
  then show ?thesis
    using that s' by simp
qed

theorem base_epoll_mod_dangling_witness:
  "\<exists>s s' :: nat epoll_state. base_epoll_ctl (\<lambda>k. 5) 0 NULL True True 100 3 EPOLL_CTL_MOD 5 None s = Some (- 1, s') \<and>
     es_kernel s' 3 5 = Some 10 \<and> es_blocks s' 10 = None"
proof -
  obtain s :: "nat epoll_state" where s: "epoll_inv (\<lambda>k. 5) s" "epoll_known s 3" "es_kernel s 3 5 = Some 10"
    by (rule epoll_example_added)
  have "(0 :: int) < 3" "(0 :: int) < 5" by simp_all
  then show ?thesis
    using base_epoll_mod_dangling[OF s(1,2) _ _ _ s(3)] by blast
qed

declare find_loop.simps [code]

text \<open>The key that base_epoll_ctl stores is the address of its own parameter. If two calls run at
  the same stack depth, so that the parameter has the same address, and the descriptors fall into
  the same bucket, the second ADD takes the entry of the first for its own: it frees the first
  control block, which the kernel still holds.\<close>

theorem base_epoll_key_reused:
  "\<exists>s1 s2 s3 :: nat epoll_state.
     base_epoll_create (\<lambda>k. 0) 3 True True (Some 1) (Some 1) epoll_init = Some (3, s1) \<and>
     base_epoll_ctl (\<lambda>k. 5) 0 (Some 10) True True 100 3 EPOLL_CTL_ADD 5 (Some example_event) s1 = Some (0, s2) \<and>
     base_epoll_ctl (\<lambda>k. 198) 0 (Some 11) True True 100 3 EPOLL_CTL_ADD 198 (Some example_event) s2 = Some (0, s3) \<and>
     es_kernel s3 3 5 = Some 10 \<and> es_blocks s3 10 = None"
proof -
  let ?run = "do {
    (r1, s1) \<leftarrow> base_epoll_create (\<lambda>k. 0) 3 True True (Some 1) (Some 1) (epoll_init :: nat epoll_state);
    (r2, s2) \<leftarrow> base_epoll_ctl (\<lambda>k. 5) 0 (Some 10) True True 100 3 EPOLL_CTL_ADD 5 (Some example_event) s1;
    (r3, s3) \<leftarrow> base_epoll_ctl (\<lambda>k. 198) 0 (Some 11) True True 100 3 EPOLL_CTL_ADD 198 (Some example_event) s2;
    Some (r1 = 3 \<and> r2 = 0 \<and> r3 = 0 \<and> es_kernel s3 3 5 = Some 10 \<and> Option.is_none (es_blocks s3 10))
  }"
  have "?run = Some True"
    by code_simp
  then show ?thesis
    by (auto simp: bind_eq_Some_conv Option.is_none_def)
qed

end
