(* ===== verification/Timer_Posix.thy ===== *)
theory Timer_Posix
  imports Epoll
begin

text \<open>
  The timers of \<open>src/src/timer_posix.c\<close>, on top of the epoll instances: a timer is a descriptor
  that is armed with an absolute time and registered at an instance, together with a copy of the
  caller's data that the control block owns.

  The state is that of the epoll module and the setting of every timer descriptor. Results of
  system calls and allocations are arguments: \<open>md\<close> of the malloc of the copy, \<open>r_clock\<close> and
  \<open>r_set\<close> of \<open>clock_gettime\<close> and \<open>timerfd_settime\<close>, \<open>nw_sec\<close> and \<open>nw_nsec\<close> the time; the others are those
  of \<open>base_epoll_ctl\<close>. The bytes of a fresh data area are indeterminate in C; they are zero here and
  never read before they are overwritten.
\<close>

record itimerspec =
  it_value_sec :: int
  it_value_nsec :: int
  it_interval_sec :: int
  it_interval_nsec :: int

record 'c timer_state =
  tm_epoll :: "'c epoll_state"
  tm_timer :: "int \<Rightarrow> itimerspec option"

definition base_timer_create :: "int \<Rightarrow> int" where
  "base_timer_create tfd = tfd"

text \<open>\<open>SAFE_CLOSE\<close> of a timer descriptor: the timer is gone.\<close>

definition base_timer_delete :: "int \<Rightarrow> 'c timer_state \<Rightarrow> 'c timer_state" where
  "base_timer_delete tfd s = (if tfd > 0 then s\<lparr>tm_timer := (tm_timer s)(tfd := None)\<rparr> else s)"

definition free_pdata :: "ptr \<Rightarrow> 'c timer_state \<Rightarrow> 'c timer_state option" where
  "free_pdata pdata s = do {
     d \<leftarrow> c_free (es_data (tm_epoll s)) pdata;
     Some (s\<lparr>tm_epoll := (tm_epoll s)\<lparr>es_data := d\<rparr>\<rparr>)
   }"

text \<open>The timer setting that \<open>base_timer_start\<close> computes, with the products in int.\<close>

definition timer_setting :: "int \<Rightarrow> int \<Rightarrow> int \<Rightarrow> int \<Rightarrow> int \<Rightarrow> itimerspec option" where
  "timer_setting nw_sec value_s value_ms interval_s interval_ms = do {
     vn \<leftarrow> c_int (value_ms * 1000000);
     n \<leftarrow> c_int (interval_ms * 1000000);
     Some \<lparr>it_value_sec = nw_sec + value_s, it_value_nsec = vn, it_interval_sec = interval_s, it_interval_nsec = n\<rparr>
   }"

text \<open>\<open>memset(pdata, 0, sizeof(len)); memcpy(pdata, data, len);\<close>, where \<open>sizeof(len)\<close> is 4.\<close>

definition fill_pdata :: "ptr \<Rightarrow> u8 list option \<Rightarrow> int \<Rightarrow> 'c timer_state \<Rightarrow> 'c timer_state option" where
  "fill_pdata pdata data len s = do {
     area \<leftarrow> deref (es_data (tm_epoll s)) pdata;
     area \<leftarrow> mem_write area 0 (replicate 4 0);
     d \<leftarrow> data;
     bytes \<leftarrow> mem_read d 0 (nat len);
     area \<leftarrow> mem_write area 0 bytes;
     p \<leftarrow> pdata;
     Some (s\<lparr>tm_epoll := (tm_epoll s)\<lparr>es_data := (es_data (tm_epoll s))(p \<mapsto> area)\<rparr>\<rparr>)
   }"

definition base_timer_start ::
  "(addr \<Rightarrow> int) \<Rightarrow> addr \<Rightarrow> ptr \<Rightarrow> int \<Rightarrow> int \<times> int \<Rightarrow> int \<Rightarrow> int \<Rightarrow> ptr \<Rightarrow> bool \<Rightarrow> bool \<Rightarrow> int \<Rightarrow> int \<Rightarrow>
   int \<Rightarrow> int \<Rightarrow> int \<Rightarrow> int \<Rightarrow> 'c \<Rightarrow> u8 list option \<Rightarrow> int \<Rightarrow> 'c timer_state \<Rightarrow> (int \<times> 'c timer_state) option" where
  "base_timer_start mem key md r_clock nw r_set r_ctl mb m1 m2 eplfd tfd
     value_s value_ms interval_s interval_ms callback data len s = do {
     let wants = (data \<noteq> None \<and> len \<noteq> 0);
     let pdata = (if wants \<and> 0 \<le> len then md else NULL);
     if wants \<and> pdata = NULL then Some (- 1, s)
     else do {
       let s = (case pdata of None \<Rightarrow> s
         | Some p \<Rightarrow> s\<lparr>tm_epoll := (tm_epoll s)\<lparr>es_data := (es_data (tm_epoll s))(p \<mapsto> replicate (nat len) 0)\<rparr>\<rparr>);
       (ret, s) \<leftarrow>
         (if r_clock \<noteq> 0 then Some (r_clock, s)
          else do {
            its \<leftarrow> timer_setting (fst nw) value_s value_ms interval_s interval_ms;
            if r_set \<noteq> 0 then Some (r_set, s)
            else do {
              let s = s\<lparr>tm_timer := (tm_timer s)(tfd \<mapsto> its)\<rparr>;
              s \<leftarrow> fill_pdata pdata data len s;
              let epoll_data = \<lparr>ev_eplfd = eplfd, ev_fd = tfd, ev_callback = callback, ev_data = pdata, ev_len = len\<rparr>;
              (ret, e) \<leftarrow> base_epoll_ctl mem r_ctl mb m1 m2 key eplfd EPOLL_CTL_ADD tfd (Some epoll_data) (tm_epoll s);
              Some (if ret \<noteq> 0 then - 1 else ret, s\<lparr>tm_epoll := e\<rparr>)
            }
          });
       s \<leftarrow> (if ret \<noteq> 0 then free_pdata pdata s else Some s);
       Some (ret, s)
     }
   }"

definition base_timer_stop ::
  "(addr \<Rightarrow> int) \<Rightarrow> addr \<Rightarrow> int \<Rightarrow> int \<Rightarrow> int \<Rightarrow> int \<Rightarrow> 'c timer_state \<Rightarrow> 'c timer_state option" where
  "base_timer_stop mem key r_set r_ctl eplfd tfd s = do {
     let its = \<lparr>it_value_sec = 0, it_value_nsec = 0, it_interval_sec = 0, it_interval_nsec = 0\<rparr>;
     let s = (if r_set = 0 then s\<lparr>tm_timer := (tm_timer s)(tfd \<mapsto> its)\<rparr> else s);
     (ret, e) \<leftarrow> base_epoll_ctl mem r_ctl NULL True True key eplfd EPOLL_CTL_DEL tfd None (tm_epoll s);
     Some (base_timer_delete tfd (s\<lparr>tm_epoll := e\<rparr>))
   }"

text \<open>The nanoseconds from the time \<open>nw\<close> until the timer first expires.\<close>

definition expiry_after :: "int \<times> int \<Rightarrow> itimerspec \<Rightarrow> int" where
  "expiry_after nw its = (it_value_sec its * 1000000000 + it_value_nsec its) - (fst nw * 1000000000 + snd nw)"


section \<open>Properties\<close>

lemma timer_setting_ok:
  assumes "0 \<le> value_ms" "value_ms \<le> 2147" "0 \<le> interval_ms" "interval_ms \<le> 2147"
  shows "timer_setting nw_sec value_s value_ms interval_s interval_ms =
    Some \<lparr>it_value_sec = nw_sec + value_s, it_value_nsec = value_ms * 1000000, it_interval_sec = interval_s,
      it_interval_nsec = interval_ms * 1000000\<rparr>"
  using assms by (simp add: timer_setting_def INT_MAX_def)

text \<open>The setting of a timer. The nanoseconds are computed in int, so the setting is defined
  exactly for milliseconds between -2147 and 2147; the delay until the timer expires is the
  requested one less the nanoseconds of the current second, which the code does not add.\<close>

theorem timer_setting_spec:
  "(timer_setting nw_sec value_s value_ms interval_s interval_ms \<noteq> None \<longleftrightarrow> \<bar>value_ms\<bar> \<le> 2147 \<and> \<bar>interval_ms\<bar> \<le> 2147) \<and>
   (\<forall>its. timer_setting nw_sec value_s value_ms interval_s interval_ms = Some its \<longrightarrow>
     expiry_after (nw_sec, nw_nsec) its = value_s * 1000000000 + value_ms * 1000000 - nw_nsec)"
proof -
  have "c_int (x * 1000000) = (if \<bar>x\<bar> \<le> 2147 then Some (x * 1000000) else None)" for x
    by (auto simp: c_int_def INT_MAX_def INT_MIN_def)
  then show ?thesis
    by (auto simp: timer_setting_def expiry_after_def algebra_simps)
qed

theorem timer_setting_spec_witness:
  "timer_setting 100 0 500 0 0 \<noteq> None \<and>
   (\<forall>its. timer_setting 100 0 500 0 0 = Some its \<longrightarrow> expiry_after (100, 999999999) its = - 499999999)"
  using timer_setting_spec[of 100 0 500 0 0 999999999] by simp

text \<open>A fresh data area does not disturb the epoll module, and no block owns it.\<close>

lemma registry_data:
  "registry (e\<lparr>es_data := D\<rparr>) as ns = registry e as ns" "epoll_known (e\<lparr>es_data := D\<rparr>) = epoll_known e"
  "epoll_room (e\<lparr>es_data := D\<rparr>) = epoll_room e"
proof -
  have "node_fd (e\<lparr>es_data := D\<rparr>) = node_fd e"
    by (simp add: node_fd_def fun_eq_iff)
  then have "registry (e\<lparr>es_data := D\<rparr>) = registry e" "node_fd (e\<lparr>es_data := D\<rparr>) = node_fd e"
    unfolding registry_def by (auto intro!: ext)
  then show "registry (e\<lparr>es_data := D\<rparr>) as ns = registry e as ns"
    and "epoll_known (e\<lparr>es_data := D\<rparr>) = epoll_known e"
    unfolding epoll_known_def by simp_all
qed (simp add: epoll_room_def)

lemma epoll_inv_data:
  assumes "epoll_inv mem e" "\<And>d. es_data e d \<noteq> None \<Longrightarrow> D d \<noteq> None"
  shows "epoll_inv mem (e\<lparr>es_data := D\<rparr>)"
proof -
  obtain as ns where core: "epoll_core mem (es_kernel e) e as ns" and lock: "\<not> es_lock e"
    using assms(1) by (auto simp: epoll_inv_def)
  have bl: "blocks_inv (es_kernel e) e"
    using core by (simp add: epoll_core_def)
  have "blocks_inv (es_kernel e) (e\<lparr>es_data := D\<rparr>)"
    using blocks_invD[OF bl] assms(2) by (intro blocks_invI) auto
  then have "epoll_core mem (es_kernel e) (e\<lparr>es_data := D\<rparr>) as ns"
    by (intro epoll_core_frame[OF core]) simp_all
  then show ?thesis
    using lock by (auto simp: epoll_inv_def)
qed

lemma fresh_data_unowned:
  assumes "epoll_inv mem e" "es_data e p = None" "es_blocks e b = Some ev"
  shows "ev_data ev \<noteq> Some p"
proof -
  have "blocks_inv (es_kernel e) e"
    using assms(1) by (auto simp: epoll_inv_def epoll_core_def)
  then show ?thesis
    using blocks_invD(3)[of "es_kernel e" e b ev p] assms(2,3) by blast
qed

lemma fill_pdata_ok:
  assumes "es_data (tm_epoll s) p = Some area" "length area = nat len" "4 \<le> len" "nat len \<le> length d"
  shows "fill_pdata (Some p) (Some d) len s =
    Some (s\<lparr>tm_epoll := (tm_epoll s)\<lparr>es_data := (es_data (tm_epoll s))(p \<mapsto> take (nat len) d)\<rparr>\<rparr>)"
proof -
  have "4 \<le> length area"
    using assms by linarith
  then show ?thesis
    using assms by (simp add: fill_pdata_def)
qed

definition timer_event :: "int \<Rightarrow> int \<Rightarrow> 'c \<Rightarrow> ptr \<Rightarrow> int \<Rightarrow> 'c EpollEvent" where
  "timer_event eplfd tfd callback p len =
     \<lparr>ev_eplfd = eplfd, ev_fd = tfd, ev_callback = callback, ev_data = p, ev_len = len\<rparr>"

text \<open>The run of \<open>base_timer_start\<close> up to the registration of the descriptor.\<close>

lemma base_timer_start_until_ctl:
  assumes "4 \<le> len" "nat len \<le> length d" "timer_setting (fst nw) value_s value_ms interval_s interval_ms = Some spec"
  shows "base_timer_start mem key (Some p) 0 nw 0 r_ctl mb m1 m2 eplfd tfd value_s value_ms interval_s interval_ms
      callback (Some d) len s = do {
    let e = (tm_epoll s)\<lparr>es_data := (es_data (tm_epoll s))(p \<mapsto> take (nat len) d)\<rparr>;
    (ret, e) \<leftarrow> base_epoll_ctl mem r_ctl mb m1 m2 key eplfd EPOLL_CTL_ADD tfd (Some (timer_event eplfd tfd callback (Some p) len)) e;
    let s = s\<lparr>tm_timer := (tm_timer s)(tfd \<mapsto> spec), tm_epoll := e\<rparr>;
    s \<leftarrow> (if ret \<noteq> 0 then free_pdata (Some p) s else Some s);
    Some (if ret \<noteq> 0 then - 1 else ret, s)
  }"
proof -
  let ?D = "(es_data (tm_epoll s))(p \<mapsto> replicate (nat len) 0)"
  let ?s = "s\<lparr>tm_epoll := (tm_epoll s)\<lparr>es_data := ?D\<rparr>, tm_timer := (tm_timer s)(tfd \<mapsto> spec)\<rparr>"
  have fill: "fill_pdata (Some p) (Some d) len ?s =
    Some (?s\<lparr>tm_epoll := (tm_epoll ?s)\<lparr>es_data := (es_data (tm_epoll ?s))(p \<mapsto> take (nat len) d)\<rparr>\<rparr>)"
    by (rule fill_pdata_ok[where area = "replicate (nat len) 0"]) (use assms(1,2) in simp_all)
  show ?thesis
    using assms fill
    by (auto simp: base_timer_start_def timer_event_def Let_def split: option.splits intro!: Option.bind_cong)
qed

lemma timer_ready:
  assumes inv: "epoll_inv mem e" and p: "es_data e p = None"
  shows "epoll_inv mem (e\<lparr>es_data := (es_data e)(p \<mapsto> bs)\<rparr>)"
    and "event_ok (e\<lparr>es_data := (es_data e)(p \<mapsto> bs)\<rparr>) (timer_event eplfd tfd callback (Some p) len)"
  using fresh_data_unowned[OF inv p]
  by (auto intro: epoll_inv_data[OF inv] simp: event_ok_def timer_event_def)

text \<open>The successful run of \<open>base_timer_start\<close>.\<close>

lemma base_timer_start_ok:
  assumes inv: "epoll_inv mem (tm_epoll s)" and known: "epoll_known (tm_epoll s) eplfd" and pos: "0 < eplfd" "0 < tfd"
    and key: "mem key = tfd" and room: "epoll_room (tm_epoll s)" and new: "es_kernel (tm_epoll s) eplfd tfd = None"
    and b: "es_blocks (tm_epoll s) b = None" and p: "es_data (tm_epoll s) p = None"
    and len: "4 \<le> len" "nat len \<le> length d"
    and its: "timer_setting (fst nw) value_s value_ms interval_s interval_ms = Some spec"
  shows "\<exists>e. base_timer_start mem key (Some p) 0 nw 0 0 (Some b) True True eplfd tfd value_s value_ms
      interval_s interval_ms callback (Some d) len s = Some (0, s\<lparr>tm_timer := (tm_timer s)(tfd \<mapsto> spec), tm_epoll := e\<rparr>) \<and>
    epoll_inv mem e \<and> epoll_known e eplfd \<and>
    es_kernel e = (es_kernel (tm_epoll s))(eplfd := (es_kernel (tm_epoll s) eplfd)(tfd \<mapsto> b)) \<and>
    es_blocks e = (es_blocks (tm_epoll s))(b \<mapsto> timer_event eplfd tfd callback (Some p) len) \<and>
    es_data e = (es_data (tm_epoll s))(p \<mapsto> take (nat len) d)"
proof -
  let ?e = "(tm_epoll s)\<lparr>es_data := (es_data (tm_epoll s))(p \<mapsto> take (nat len) d)\<rparr>"
  let ?ev = "timer_event eplfd tfd callback (Some p) len"
  note ready = timer_ready(1)[OF inv p, of "take (nat len) d"] timer_ready(2)[OF inv p, of "take (nat len) d" eplfd tfd callback len]
  have known': "epoll_known ?e eplfd" "epoll_room ?e" "es_blocks ?e b = None" "es_kernel ?e eplfd tfd = None"
    using known room b new by (simp_all add: registry_data)
  obtain e where e: "base_epoll_ctl mem 0 (Some b) True True key eplfd EPOLL_CTL_ADD tfd (Some ?ev) ?e = Some (0, e)"
    "epoll_inv mem e" "es_kernel e = (es_kernel ?e)(eplfd := (es_kernel ?e eplfd)(tfd \<mapsto> b))"
    "es_blocks e = (es_blocks ?e)(b \<mapsto> ?ev)" "es_data e = es_data ?e"
    using ctl_add_success[OF ready(1) known'(1) pos key known'(2,3) ready(2) known'(4)] by blast
  have "es_kernel e eplfd \<noteq> (\<lambda>fd. None)"
    using e(3) by (auto dest: fun_cong[of _ _ tfd])
  then have "epoll_known e eplfd"
    using e(2) unfolding epoll_inv_def epoll_core_def epoll_known_def by blast
  then show ?thesis
    using e by (intro exI[of _ e]) (simp add: base_timer_start_until_ctl[OF len its])
qed


text \<open>The error paths of base_timer_start: if the copy cannot be allocated, or the clock, the timer or
  the registration fails, it returns a non-zero result and leaves all heaps and registrations as they
  were, with nothing leaked.\<close>

theorem base_timer_start_errors:
  assumes inv: "epoll_inv mem (tm_epoll s)" and known: "epoll_known (tm_epoll s) eplfd" and pos: "0 < eplfd" "0 < tfd"
    and p: "es_data (tm_epoll s) p = None" and len: "4 \<le> len" "nat len \<le> length d"
    and its: "timer_setting (fst nw) value_s value_ms interval_s interval_ms = Some spec"
  shows
    "base_timer_start mem key NULL r_clock nw r_set r_ctl mb m1 m2 eplfd tfd value_s value_ms interval_s interval_ms
       callback (Some d) len s = Some (- 1, s) \<and>
     (r_clock \<noteq> 0 \<longrightarrow> base_timer_start mem key (Some p) r_clock nw r_set r_ctl mb m1 m2 eplfd tfd value_s value_ms
       interval_s interval_ms callback (Some d) len s = Some (r_clock, s)) \<and>
     (r_set \<noteq> 0 \<longrightarrow> base_timer_start mem key (Some p) 0 nw r_set r_ctl mb m1 m2 eplfd tfd value_s value_ms
       interval_s interval_ms callback (Some d) len s = Some (r_set, s)) \<and>
     (mb = NULL \<or> r_ctl \<noteq> 0 \<and> (\<exists>b. mb = Some b \<and> es_blocks (tm_epoll s) b = None) \<longrightarrow>
       base_timer_start mem key (Some p) 0 nw 0 r_ctl mb m1 m2 eplfd tfd value_s value_ms interval_s interval_ms
         callback (Some d) len s = Some (- 1, s\<lparr>tm_timer := (tm_timer s)(tfd \<mapsto> spec)\<rparr>))"
proof (intro conjI impI)
  have restore: "(tm_epoll s)\<lparr>es_data := (es_data (tm_epoll s))(p := None)\<rparr> = tm_epoll s"
    using p by (simp add: fun_upd_idem)
  show "base_timer_start mem key NULL r_clock nw r_set r_ctl mb m1 m2 eplfd tfd value_s value_ms interval_s interval_ms
       callback (Some d) len s = Some (- 1, s)"
    using len by (simp add: base_timer_start_def)
  show "base_timer_start mem key (Some p) r_clock nw r_set r_ctl mb m1 m2 eplfd tfd value_s value_ms
       interval_s interval_ms callback (Some d) len s = Some (r_clock, s)" if "r_clock \<noteq> 0"
    using that len restore by (simp add: base_timer_start_def free_pdata_def)
  show "base_timer_start mem key (Some p) 0 nw r_set r_ctl mb m1 m2 eplfd tfd value_s value_ms
       interval_s interval_ms callback (Some d) len s = Some (r_set, s)" if "r_set \<noteq> 0"
    using that len its restore by (simp add: base_timer_start_def free_pdata_def)
  let ?e = "(tm_epoll s)\<lparr>es_data := (es_data (tm_epoll s))(p \<mapsto> take (nat len) d)\<rparr>"
  assume "mb = NULL \<or> r_ctl \<noteq> 0 \<and> (\<exists>b. mb = Some b \<and> es_blocks (tm_epoll s) b = None)"
  then have "base_epoll_ctl mem r_ctl mb m1 m2 key eplfd EPOLL_CTL_ADD tfd (Some (timer_event eplfd tfd callback (Some p) len)) ?e =
      Some (- 1, ?e)"
    by (intro ctl_add_failed timer_ready(1)[OF inv p] pos) (use known in \<open>auto simp: registry_data\<close>)
  then show "base_timer_start mem key (Some p) 0 nw 0 r_ctl mb m1 m2 eplfd tfd value_s value_ms interval_s interval_ms
         callback (Some d) len s = Some (- 1, s\<lparr>tm_timer := (tm_timer s)(tfd \<mapsto> spec)\<rparr>)"
    using restore by (simp add: base_timer_start_until_ctl[OF len its] free_pdata_def)
qed

lemma timer_example:
  obtains s :: "'c timer_state" where "epoll_inv (\<lambda>k. 5) (tm_epoll s)" "epoll_known (tm_epoll s) 3" "epoll_room (tm_epoll s)"
    "es_kernel (tm_epoll s) = (\<lambda>ep fd. None)" "es_blocks (tm_epoll s) = (\<lambda>b. None)" "es_data (tm_epoll s) = (\<lambda>d. None)"
    "tm_timer s = (\<lambda>t. None)"
proof -
  obtain e :: "'c epoll_state" where e: "epoll_inv (\<lambda>k. 5) e" "epoll_known e 3" "epoll_room e"
    "es_kernel e = (\<lambda>ep fd. None)" "es_blocks e = (\<lambda>b. None)" "es_data e = (\<lambda>d. None)"
    by (rule epoll_example)
  show ?thesis
    by (rule that[of "\<lparr>tm_epoll = e, tm_timer = \<lambda>t. None\<rparr>"]) (use e in simp_all)
qed


theorem base_timer_start_errors_witness:
  "\<exists>s :: nat timer_state.
     base_timer_start (\<lambda>k. 5) 100 NULL 0 (1, 2) 0 0 (Some 10) True True 3 5 4 0 1 0 42 (Some [1, 2, 3, 4]) 4 s = Some (- 1, s)"
proof -
  obtain s :: "nat timer_state" where s: "epoll_inv (\<lambda>k. 5) (tm_epoll s)" "epoll_known (tm_epoll s) 3"
    "es_data (tm_epoll s) = (\<lambda>d. None)"
    by (rule timer_example)
  have hyps: "(0 :: int) < 3" "(0 :: int) < 5" "es_data (tm_epoll s) 7 = None" "(4 :: int) \<le> 4"
    "nat 4 \<le> length [1 :: u8, 2, 3, 4]"
    using s by simp_all
  have its: "timer_setting (fst (1 :: int, 2 :: int)) 4 0 1 0 =
      Some \<lparr>it_value_sec = 5, it_value_nsec = 0, it_interval_sec = 1, it_interval_nsec = 0\<rparr>"
    by (simp add: timer_setting_ok)
  show ?thesis
    using base_timer_start_errors[OF s(1,2) hyps its] by blast
qed

text \<open>Two defects of base_timer_start. Without data, or with fewer than four bytes of it, a timer
  that the kernel accepts runs into undefined behaviour: \<open>memset\<close> writes \<open>sizeof(len)\<close>, four, bytes to
  a NULL pointer or past the end of the copy. For an instance that does not exist it returns 0,
  and the copy of the data belongs to nobody.\<close>

theorem base_timer_start_defects:
  assumes its: "timer_setting (fst nw) value_s value_ms interval_s interval_ms = Some spec"
  shows "(data = None \<or> len \<in> {0, 1, 2, 3} \<longrightarrow>
      base_timer_start mem key (Some p) 0 nw 0 r_ctl mb m1 m2 eplfd tfd value_s value_ms interval_s interval_ms
        callback data len s = None) \<and>
    (epoll_inv mem (tm_epoll s) \<and> \<not> epoll_known (tm_epoll s) eplfd \<and> 0 < eplfd \<and> 0 < tfd \<and> es_data (tm_epoll s) p = None \<and>
      4 \<le> len \<and> nat len \<le> length d \<longrightarrow>
      (\<exists>s'. base_timer_start mem key (Some p) 0 nw 0 r_ctl mb m1 m2 eplfd tfd value_s value_ms interval_s interval_ms
          callback (Some d) len s = Some (0, s') \<and>
        es_data (tm_epoll s') p = Some (take (nat len) d) \<and>
        (\<forall>b ev. es_blocks (tm_epoll s') b = Some ev \<longrightarrow> ev_data ev \<noteq> Some p)))"
proof (intro conjI impI)
  assume "data = None \<or> len \<in> {0, 1, 2, 3}"
  then show "base_timer_start mem key (Some p) 0 nw 0 r_ctl mb m1 m2 eplfd tfd value_s value_ms interval_s interval_ms
        callback data len s = None"
    using its by (auto simp: base_timer_start_def fill_pdata_def mem_write_def)
next
  assume "epoll_inv mem (tm_epoll s) \<and> \<not> epoll_known (tm_epoll s) eplfd \<and> 0 < eplfd \<and> 0 < tfd \<and> es_data (tm_epoll s) p = None \<and>
      4 \<le> len \<and> nat len \<le> length d"
  then have inv: "epoll_inv mem (tm_epoll s)" and unknown: "\<not> epoll_known (tm_epoll s) eplfd" and pos: "0 < eplfd" "0 < tfd"
    and p: "es_data (tm_epoll s) p = None" and len: "4 \<le> len" "nat len \<le> length d"
    by blast+
  let ?e = "(tm_epoll s)\<lparr>es_data := (es_data (tm_epoll s))(p \<mapsto> take (nat len) d)\<rparr>"
  have "base_epoll_ctl mem r_ctl mb m1 m2 key eplfd EPOLL_CTL_ADD tfd (Some (timer_event eplfd tfd callback (Some p) len)) ?e = Some (0, ?e)"
    by (rule ctl_unknown[OF timer_ready(1)[OF inv p] pos]) (use unknown in \<open>simp add: registry_data\<close>)
  then show "\<exists>s'. base_timer_start mem key (Some p) 0 nw 0 r_ctl mb m1 m2 eplfd tfd value_s value_ms interval_s interval_ms
          callback (Some d) len s = Some (0, s') \<and>
        es_data (tm_epoll s') p = Some (take (nat len) d) \<and>
        (\<forall>b ev. es_blocks (tm_epoll s') b = Some ev \<longrightarrow> ev_data ev \<noteq> Some p)"
    using fresh_data_unowned[OF inv p] by (simp add: base_timer_start_until_ctl[OF len its])
qed

theorem base_timer_start_defects_witness:
  "base_timer_start (\<lambda>k. 5) 100 (Some 7) 0 (1, 2) 0 0 (Some 10) True True 3 5 4 0 1 0 (42 :: nat) None 0
     \<lparr>tm_epoll = epoll_init, tm_timer = \<lambda>t. None\<rparr> = None"
proof -
  have its: "timer_setting (fst (1 :: int, 2 :: int)) 4 0 1 0 =
      Some \<lparr>it_value_sec = 5, it_value_nsec = 0, it_interval_sec = 1, it_interval_nsec = 0\<rparr>"
    by (simp add: timer_setting_ok)
  show ?thesis
    by (rule base_timer_start_defects[OF its, THEN conjunct1, rule_format]) simp
qed

end
