(* ===== verification/Timer_Events.thy ===== *)
theory Timer_Events
  imports Timer_Posix
begin

text \<open>
  Timers in the event loop: the callback \<open>timer1_callback\<close> and the examples \<open>do_action\<close> and
  \<open>do_action1\<close> of \<open>src/src/timer_posix.c\<close>, run by the loop of \<open>epoll_thread\<close> in \<open>src/src/epoll.c\<close>. The
  callback of a one-shot timer frees the control block that the loop handed to it; the theorems show that
  the loop never touches a freed block.

  \<open>key fd\<close> is the address of the parameter \<open>event_fd\<close> of \<open>base_epoll_ctl\<close> when it is called for
  \<open>fd\<close>.
\<close>

unbundle bit_operations_syntax


section \<open>The data of a timer\<close>

record BaseTimer =
  bt_tfd :: int
  bt_value_s :: int
  bt_value_ms :: int
  bt_interval_s :: int
  bt_interval_ms :: int
  bt_dev_id :: "u8 list"

text \<open>An int in memory: four bytes, the lowest first, in two's complement.\<close>

definition int_bytes :: "int \<Rightarrow> u8 list" where
  "int_bytes x = [word_of_int x, word_of_int (x div 256), word_of_int (x div 65536), word_of_int (x div 16777216)]"

definition bytes_int :: "u8 list \<Rightarrow> int" where
  "bytes_int bs =
     (let u = uint (bs ! 0) + 256 * uint (bs ! 1) + 65536 * uint (bs ! 2) + 16777216 * uint (bs ! 3) in
      if u < 2147483648 then u else u - 4294967296)"

definition int_at :: "u8 list \<Rightarrow> nat \<Rightarrow> int option" where
  "int_at area off = map_option bytes_int (mem_read area off 4)"

text \<open>The string that starts at an offset; without a NUL the read runs out of the area.\<close>

definition string_at :: "u8 list \<Rightarrow> nat \<Rightarrow> u8 list option" where
  "string_at area off =
     (if off \<le> length area \<and> 0 \<in> set (drop off area) then Some (takeWhile (\<lambda>c. c \<noteq> 0) (drop off area)) else None)"

definition BaseTimer_bytes :: "BaseTimer \<Rightarrow> u8 list" where
  "BaseTimer_bytes t =
     int_bytes (bt_tfd t) @ int_bytes (bt_value_s t) @ int_bytes (bt_value_ms t) @ int_bytes (bt_interval_s t) @
     int_bytes (bt_interval_ms t) @ bt_dev_id t"


section \<open>Operations\<close>

datatype timer_callback = Timer1_callback

definition timer1_callback ::
  "(addr \<Rightarrow> int) \<Rightarrow> (int \<Rightarrow> addr) \<Rightarrow> int \<Rightarrow> int \<Rightarrow> ptr \<Rightarrow> 'c timer_state \<Rightarrow> 'c timer_state option" where
  "timer1_callback mem key r_set r_ctl p_data s = do {
     p_epoll_data \<leftarrow> deref (es_blocks (tm_epoll s)) p_data;
     (case ev_data p_epoll_data of
        None \<Rightarrow> Some s
      | Some p_timer \<Rightarrow> do {
          area \<leftarrow> es_data (tm_epoll s) p_timer;
          interval_s \<leftarrow> int_at area 12;
          _ \<leftarrow> string_at area 20;
          if interval_s \<noteq> 0 then Some s
          else do {
            interval_ms \<leftarrow> int_at area 16;
            if interval_ms \<noteq> 0 then Some s
            else base_timer_stop mem (key (ev_fd p_epoll_data)) r_set r_ctl (ev_eplfd p_epoll_data) (ev_fd p_epoll_data) s
          }
        })
   }"

text \<open>The loop over the events of one wait, with the effect of the callbacks.\<close>

fun epoll_thread_calls ::
  "('c \<Rightarrow> ptr \<Rightarrow> 'c timer_state \<Rightarrow> 'c timer_state option) \<Rightarrow> (u32 \<times> ptr) list \<Rightarrow> 'c timer_state \<Rightarrow>
   ('c timer_state \<times> bool) option" where
  "epoll_thread_calls call [] s = Some (s, False)"
| "epoll_thread_calls call ((events, p) # es) s =
     (if EPOLLIN AND events \<noteq> 0 then
        (case p of
           None \<Rightarrow> epoll_thread_calls call es s
         | Some b \<Rightarrow> do {
             epoll_data \<leftarrow> es_blocks (tm_epoll s) b;
             s \<leftarrow> call (ev_callback epoll_data) p s;
             epoll_thread_calls call es s
           })
      else if EPOLLHUP AND events \<noteq> 0 then Some (s, True)
      else if EPOLLERR AND events \<noteq> 0 then Some (s, True)
      else epoll_thread_calls call es s)"

text \<open>\<open>r_set\<close> and \<open>r_ctl\<close> are what \<open>timerfd_settime\<close> and \<open>epoll_ctl\<close> return in the callback for a control block.\<close>

fun timer_calls ::
  "(addr \<Rightarrow> int) \<Rightarrow> (int \<Rightarrow> addr) \<Rightarrow> (ptr \<Rightarrow> int) \<Rightarrow> (ptr \<Rightarrow> int) \<Rightarrow> timer_callback \<Rightarrow> ptr \<Rightarrow> 'c timer_state \<Rightarrow> 'c timer_state option" where
  "timer_calls mem key r_set r_ctl Timer1_callback p s = timer1_callback mem key (r_set p) (r_ctl p) p s"

text \<open>\<open>strncpy(data.dev_id, text, sizeof(data.dev_id) - 1)\<close> into an array of zeros.\<close>

definition dev_id :: "string \<Rightarrow> u8 list" where
  "dev_id text = (let cs = take 31 (map of_char text) in cs @ replicate (32 - length cs) 0)"

definition do_action ::
  "(addr \<Rightarrow> int) \<Rightarrow> addr \<Rightarrow> ptr \<Rightarrow> int \<Rightarrow> int \<times> int \<Rightarrow> int \<Rightarrow> int \<Rightarrow> ptr \<Rightarrow> bool \<Rightarrow> bool \<Rightarrow> int \<Rightarrow> int \<Rightarrow>
   timer_callback timer_state \<Rightarrow> timer_callback timer_state option" where
  "do_action mem key md r_clock nw r_set r_ctl mb m1 m2 created_tfd epfd s =
     (let tfd = base_timer_create created_tfd in
      if 0 > tfd then Some s
      else do {
        let data = \<lparr>bt_tfd = tfd, bt_value_s = 4, bt_value_ms = 0, bt_interval_s = 1, bt_interval_ms = 0,
                    bt_dev_id = dev_id ''123456789''\<rparr>;
        (ret, s) \<leftarrow> base_timer_start mem key md r_clock nw r_set r_ctl mb m1 m2 epfd tfd 4 0 1 0 Timer1_callback
                     (Some (BaseTimer_bytes data)) (int (length (BaseTimer_bytes data))) s;
        Some (if ret \<noteq> 0 then base_timer_delete tfd s else s)
      })"

definition do_action1 ::
  "(addr \<Rightarrow> int) \<Rightarrow> addr \<Rightarrow> ptr \<Rightarrow> int \<Rightarrow> int \<times> int \<Rightarrow> int \<Rightarrow> int \<Rightarrow> ptr \<Rightarrow> bool \<Rightarrow> bool \<Rightarrow> int \<Rightarrow> int \<Rightarrow>
   timer_callback timer_state \<Rightarrow> timer_callback timer_state option" where
  "do_action1 mem key md r_clock nw r_set r_ctl mb m1 m2 created_tfd epfd s =
     (let tfd = base_timer_create created_tfd in
      if 0 > tfd then Some s
      else do {
        let data = \<lparr>bt_tfd = tfd, bt_value_s = 1, bt_value_ms = 0, bt_interval_s = 0, bt_interval_ms = 0,
                    bt_dev_id = dev_id ''ABCDEF''\<rparr>;
        (ret, s) \<leftarrow> base_timer_start mem key md r_clock nw r_set r_ctl mb m1 m2 epfd tfd 1 0 0 0 Timer1_callback
                     (Some (BaseTimer_bytes data)) (int (length (BaseTimer_bytes data))) s;
        Some (if ret \<noteq> 0 then base_timer_delete tfd s else s)
      })"


section \<open>Layout of the data\<close>

lemma length_int_bytes [simp]: "length (int_bytes x) = 4"
  by (simp add: int_bytes_def)

lemma bytes_int_bytes:
  assumes "INT_MIN \<le> x" "x \<le> INT_MAX"
  shows "bytes_int (int_bytes x) = x"
proof -
  let ?u = "x mod 256 + 256 * (x div 256 mod 256) + 65536 * (x div 65536 mod 256) + 16777216 * (x div 16777216 mod 256)"
  have split: "x mod (256 * c) = 256 * (x div 256 mod c) + x mod 256" "x mod (65536 * c) = 65536 * (x div 65536 mod c) + x mod 65536"
    "x mod (16777216 * c) = 16777216 * (x div 16777216 mod c) + x mod 16777216" if "0 \<le> c" for c
    using that by (simp_all add: zmod_zmult2_eq)
  have "?u = x mod 4294967296"
    using split(1)[of 256] split(2)[of 256] split(3)[of 256] by simp
  moreover have "uint (word_of_int y :: u8) = y mod 256" for y
    by (simp add: unsigned_of_int take_bit_eq_mod)
  moreover have wrap: "(if x mod 4294967296 < 2147483648 then x mod 4294967296 else x mod 4294967296 - 4294967296) = x"
  proof (cases "0 \<le> x")
    case True
    then have "x mod 4294967296 = x"
      using assms by (intro mod_pos_pos_trivial) (simp_all add: INT_MAX_def)
    then show ?thesis
      using assms by (simp add: INT_MAX_def)
  next
    case False
    have "x mod 4294967296 = (x + 4294967296) mod 4294967296"
      by simp
    also have "\<dots> = x + 4294967296"
      using assms False by (intro mod_pos_pos_trivial) (simp_all add: INT_MIN_def)
    finally show ?thesis
      using assms False by (simp add: INT_MIN_def)
  qed
  ultimately have "uint (int_bytes x ! 0) + 256 * uint (int_bytes x ! 1) + 65536 * uint (int_bytes x ! 2) +
      16777216 * uint (int_bytes x ! 3) = x mod 4294967296"
    by (simp add: int_bytes_def numeral_eq_Suc)
  then show ?thesis
    using wrap by (simp add: bytes_int_def Let_def)
qed

text \<open>Well-formed timer data: ints in range and a terminated name in 32 bytes.\<close>

definition timer_wf :: "BaseTimer \<Rightarrow> bool" where
  "timer_wf t \<longleftrightarrow>
     bt_interval_s t \<in> {INT_MIN..INT_MAX} \<and> bt_interval_ms t \<in> {INT_MIN..INT_MAX} \<and> length (bt_dev_id t) = 32 \<and>
     0 \<in> set (bt_dev_id t)"

definition one_shot :: "BaseTimer \<Rightarrow> bool" where
  "one_shot t \<longleftrightarrow> bt_interval_s t = 0 \<and> bt_interval_ms t = 0"

lemma BaseTimer_bytes_read:
  assumes "timer_wf t"
  shows "int_at (BaseTimer_bytes t) 12 = Some (bt_interval_s t)" "int_at (BaseTimer_bytes t) 16 = Some (bt_interval_ms t)"
    "string_at (BaseTimer_bytes t) 20 \<noteq> None" "length (BaseTimer_bytes t) = 52"
  using assms
  by (simp_all add: timer_wf_def int_at_def string_at_def BaseTimer_bytes_def mem_read_def bytes_int_bytes)


section \<open>One callback\<close>

text \<open>The instance \<open>eplfd\<close> has only timers of this callback, each with its own data.\<close>

definition timers_ok ::
  "(addr \<Rightarrow> int) \<Rightarrow> (int \<Rightarrow> addr) \<Rightarrow> int \<Rightarrow> timer_callback timer_state \<Rightarrow> (int \<Rightarrow> BaseTimer) \<Rightarrow> bool" where
  "timers_ok mem key eplfd s T \<longleftrightarrow>
     epoll_inv mem (tm_epoll s) \<and> 0 < eplfd \<and>
     (\<forall>fd b. es_kernel (tm_epoll s) eplfd fd = Some b \<longrightarrow>
        0 < fd \<and> mem (key fd) = fd \<and> timer_wf (T fd) \<and>
        (\<exists>p. es_blocks (tm_epoll s) b = Some (timer_event eplfd fd Timer1_callback (Some p) 52) \<and>
             es_data (tm_epoll s) p = Some (BaseTimer_bytes (T fd))))"

text \<open>The data areas of the timers \<open>F\<close>.\<close>

definition owned_data :: "int \<Rightarrow> int set \<Rightarrow> 'c timer_state \<Rightarrow> addr set" where
  "owned_data eplfd F s =
     {p. \<exists>fd\<in>F. \<exists>b e. es_kernel (tm_epoll s) eplfd fd = Some b \<and> es_blocks (tm_epoll s) b = Some e \<and> ev_data e = Some p}"

text \<open>The state without the timers \<open>F\<close>: their descriptors, control blocks and data.\<close>

definition without ::
  "int \<Rightarrow> int set \<Rightarrow> 'c timer_state \<Rightarrow> 'c timer_state \<Rightarrow> bool" where
  "without eplfd F s s' \<longleftrightarrow>
     es_kernel (tm_epoll s') =
       (\<lambda>ep fd. if ep = eplfd \<and> fd \<in> F then None else es_kernel (tm_epoll s) ep fd) \<and>
     es_blocks (tm_epoll s') =
       (\<lambda>b. if \<exists>fd\<in>F. es_kernel (tm_epoll s) eplfd fd = Some b then None else es_blocks (tm_epoll s) b) \<and>
     (\<forall>b e p. es_blocks (tm_epoll s') b = Some e \<and> ev_data e = Some p \<longrightarrow>
        es_data (tm_epoll s') p = es_data (tm_epoll s) p) \<and>
     es_data (tm_epoll s') = (\<lambda>p. if p \<in> owned_data eplfd F s then None else es_data (tm_epoll s) p) \<and>
     tm_timer s' = (\<lambda>fd. if fd \<in> F then None else tm_timer s fd)"

lemma registered_known:
  assumes "epoll_inv mem e" "es_kernel e eplfd fd = Some b"
  shows "epoll_known e eplfd"
proof -
  have "es_kernel e eplfd \<noteq> (\<lambda>fd. None)"
    using assms(2) by auto
  then show ?thesis
    using assms(1) unfolding epoll_inv_def epoll_core_def epoll_known_def by blast
qed

lemma timers_okD:
  assumes "timers_ok mem key eplfd s T" "es_kernel (tm_epoll s) eplfd fd = Some b"
  obtains p where "0 < fd" "mem (key fd) = fd" "timer_wf (T fd)"
    "es_blocks (tm_epoll s) b = Some (timer_event eplfd fd Timer1_callback (Some p) 52)"
    "es_data (tm_epoll s) p = Some (BaseTimer_bytes (T fd))"
  using assms unfolding timers_ok_def by metis

lemma base_timer_stop_ok:
  assumes ok: "timers_ok mem key eplfd s T" and reg: "es_kernel (tm_epoll s) eplfd fd = Some b"
  shows "\<exists>s'. base_timer_stop mem (key fd) r 0 eplfd fd s = Some s' \<and> timers_ok mem key eplfd s' T \<and> without eplfd {fd} s s'"
proof -
  let ?e = "tm_epoll s"
  obtain p where t: "0 < fd" "mem (key fd) = fd" "timer_wf (T fd)"
    "es_blocks ?e b = Some (timer_event eplfd fd Timer1_callback (Some p) 52)" "es_data ?e p = Some (BaseTimer_bytes (T fd))"
    by (rule timers_okD[OF ok reg])
  have inv: "epoll_inv mem ?e" "0 < eplfd"
    using ok by (simp_all add: timers_ok_def)
  have bl: "blocks_inv (es_kernel ?e) ?e"
    using inv(1) by (auto simp: epoll_inv_def epoll_core_def)
  obtain e' where e': "base_epoll_ctl mem 0 NULL True True (key fd) eplfd EPOLL_CTL_DEL fd None ?e = Some (0, e')"
    "epoll_inv mem e'" "es_kernel e' = (es_kernel ?e)(eplfd := (es_kernel ?e eplfd)(fd := None))"
    "es_blocks e' = (es_blocks ?e)(b := None)" "es_data e' = (es_data ?e)(p := None)"
    using ctl_del_success[OF inv(1) registered_known[OF inv(1) reg] inv(2) t(1,2), of None True True None] reg t(4)
    by (auto simp: freed_block_def freed_data_def timer_event_def)
  let ?s = "s\<lparr>tm_epoll := e', tm_timer := (tm_timer s)(fd := None)\<rparr>"
  have stop: "base_timer_stop mem (key fd) r 0 eplfd fd s = Some ?s"
    using e'(1) t(1) by (simp add: base_timer_stop_def base_timer_delete_def Let_def)
  have owner: "ev_data e \<noteq> Some p" if "es_blocks ?e b' = Some e" "b' \<noteq> b" for b' e
    using blocks_invD(4)[OF bl that(1) t(4), of p] that(2) by (auto simp: timer_event_def)
  have single: "fd' = fd" if "es_kernel ?e eplfd fd' = Some b" for fd'
    using blocks_invD(2)[OF bl reg that] by simp
  have "timers_ok mem key eplfd ?s T"
    unfolding timers_ok_def
  proof (intro conjI allI impI)
    fix fd' b'
    assume k: "es_kernel (tm_epoll ?s) eplfd fd' = Some b'"
    then have k': "es_kernel ?e eplfd fd' = Some b'" "fd' \<noteq> fd"
      using e'(3) by (auto split: if_splits)
    then have "b' \<noteq> b"
      using single by auto
    obtain p' where t': "0 < fd'" "mem (key fd') = fd'" "timer_wf (T fd')"
      "es_blocks ?e b' = Some (timer_event eplfd fd' Timer1_callback (Some p') 52)" "es_data ?e p' = Some (BaseTimer_bytes (T fd'))"
      by (rule timers_okD[OF ok k'(1)])
    have "p' \<noteq> p"
      using owner[OF t'(4) \<open>b' \<noteq> b\<close>] by (simp add: timer_event_def)
    then show "0 < fd'" "mem (key fd') = fd'" "timer_wf (T fd')"
      "\<exists>p. es_blocks (tm_epoll ?s) b' = Some (timer_event eplfd fd' Timer1_callback (Some p) 52) \<and>
           es_data (tm_epoll ?s) p = Some (BaseTimer_bytes (T fd'))"
      using t' \<open>b' \<noteq> b\<close> e'(4,5) by auto
  qed (use inv e' in simp_all)
  moreover have "without eplfd {fd} s ?s"
    unfolding without_def
  proof (intro conjI)
    show "es_kernel (tm_epoll ?s) = (\<lambda>ep f. if ep = eplfd \<and> f \<in> {fd} then None else es_kernel (tm_epoll s) ep f)"
      by (auto simp: e'(3) fun_eq_iff)
    show "es_blocks (tm_epoll ?s) = (\<lambda>b. if \<exists>f\<in>{fd}. es_kernel (tm_epoll s) eplfd f = Some b then None else es_blocks (tm_epoll s) b)"
      using reg by (auto simp: e'(4) fun_eq_iff)
    show "\<forall>b e p. es_blocks (tm_epoll ?s) b = Some e \<and> ev_data e = Some p \<longrightarrow> es_data (tm_epoll ?s) p = es_data (tm_epoll s) p"
      using owner by (auto simp: e'(4,5) split: if_splits)
    have "owned_data eplfd {fd} s = {p}"
      using reg t(4) by (auto simp: owned_data_def timer_event_def)
    then show "es_data (tm_epoll ?s) = (\<lambda>p. if p \<in> owned_data eplfd {fd} s then None else es_data (tm_epoll s) p)"
      by (auto simp: e'(5) fun_eq_iff)
  qed (auto simp: fun_eq_iff)
  ultimately show ?thesis
    using stop by blast
qed

lemma without_refl: "without eplfd {} s s"
  by (simp add: without_def owned_data_def)

lemma without_trans:
  assumes "without eplfd F s s1" "without eplfd G s1 s2"
  shows "without eplfd (F \<union> G) s s2"
proof -
  note w1 = assms(1)[unfolded without_def] and w2 = assms(2)[unfolded without_def]
  have K1: "es_kernel (tm_epoll s1) = (\<lambda>ep fd. if ep = eplfd \<and> fd \<in> F then None else es_kernel (tm_epoll s) ep fd)"
    and B1: "es_blocks (tm_epoll s1) = (\<lambda>b. if \<exists>fd\<in>F. es_kernel (tm_epoll s) eplfd fd = Some b then None else es_blocks (tm_epoll s) b)"
    and B2: "es_blocks (tm_epoll s2) = (\<lambda>b. if \<exists>fd\<in>G. es_kernel (tm_epoll s1) eplfd fd = Some b then None else es_blocks (tm_epoll s1) b)"
    and D1: "\<And>b e p. es_blocks (tm_epoll s1) b = Some e \<Longrightarrow> ev_data e = Some p \<Longrightarrow> es_data (tm_epoll s1) p = es_data (tm_epoll s) p"
    and D2: "\<And>b e p. es_blocks (tm_epoll s2) b = Some e \<Longrightarrow> ev_data e = Some p \<Longrightarrow> es_data (tm_epoll s2) p = es_data (tm_epoll s1) p"
    using w1 w2 by blast+
  show ?thesis
    unfolding without_def
  proof (intro conjI)
    show "es_kernel (tm_epoll s2) = (\<lambda>ep fd. if ep = eplfd \<and> fd \<in> F \<union> G then None else es_kernel (tm_epoll s) ep fd)"
      using w1 w2 by (auto simp: fun_eq_iff)
    show "es_blocks (tm_epoll s2) =
        (\<lambda>b. if \<exists>fd\<in>F \<union> G. es_kernel (tm_epoll s) eplfd fd = Some b then None else es_blocks (tm_epoll s) b)"
      by (auto simp: B1 B2 K1 fun_eq_iff split: if_splits)
    have live: "es_blocks (tm_epoll s1) b = Some e" if "es_blocks (tm_epoll s2) b = Some e" for b e
      using that by (auto simp: B2 split: if_splits)
    show "\<forall>b e p. es_blocks (tm_epoll s2) b = Some e \<and> ev_data e = Some p \<longrightarrow> es_data (tm_epoll s2) p = es_data (tm_epoll s) p"
    proof (intro allI impI, elim conjE)
      fix b e p
      assume "es_blocks (tm_epoll s2) b = Some e" "ev_data e = Some p"
      then show "es_data (tm_epoll s2) p = es_data (tm_epoll s) p"
        using D1[OF live] D2 by simp
    qed
    have "owned_data eplfd (F \<union> G) s = owned_data eplfd F s \<union> owned_data eplfd G s1"
    proof (intro set_eqI iffI)
      fix p
      assume "p \<in> owned_data eplfd (F \<union> G) s"
      then obtain fd b e where fd: "fd \<in> F \<union> G" and h: "es_kernel (tm_epoll s) eplfd fd = Some b" "es_blocks (tm_epoll s) b = Some e"
        "ev_data e = Some p"
        unfolding owned_data_def by blast
      show "p \<in> owned_data eplfd F s \<union> owned_data eplfd G s1"
      proof (cases "\<exists>f\<in>F. es_kernel (tm_epoll s) eplfd f = Some b")
        case True
        then show ?thesis
          using h by (auto simp: owned_data_def)
      next
        case False
        then have "fd \<in> G" "es_kernel (tm_epoll s1) eplfd fd = Some b" "es_blocks (tm_epoll s1) b = Some e"
          using fd h by (auto simp: K1 B1)
        then show ?thesis
          using h(3) by (auto simp: owned_data_def)
      qed
    next
      fix p
      assume "p \<in> owned_data eplfd F s \<union> owned_data eplfd G s1"
      then show "p \<in> owned_data eplfd (F \<union> G) s"
        by (fastforce simp: owned_data_def K1 B1 split: if_splits)
    qed
    then show "es_data (tm_epoll s2) = (\<lambda>p. if p \<in> owned_data eplfd (F \<union> G) s then None else es_data (tm_epoll s) p)"
      using w1 w2 by (auto simp: fun_eq_iff)
    show "tm_timer s2 = (\<lambda>fd. if fd \<in> F \<union> G then None else tm_timer s fd)"
      using w1 w2 by (auto simp: fun_eq_iff)
  qed
qed

lemma timer1_callback_ok:
  assumes ok: "timers_ok mem key eplfd s T" and reg: "es_kernel (tm_epoll s) eplfd fd = Some b"
  shows "\<exists>s'. timer1_callback mem key r 0 (Some b) s = Some s' \<and> timers_ok mem key eplfd s' T \<and>
    without eplfd (if one_shot (T fd) then {fd} else {}) s s'"
proof -
  obtain p where t: "0 < fd" "mem (key fd) = fd" "timer_wf (T fd)"
    "es_blocks (tm_epoll s) b = Some (timer_event eplfd fd Timer1_callback (Some p) 52)"
    "es_data (tm_epoll s) p = Some (BaseTimer_bytes (T fd))"
    by (rule timers_okD[OF ok reg])
  obtain name where name: "string_at (BaseTimer_bytes (T fd)) 20 = Some name"
    using BaseTimer_bytes_read(3)[OF t(3)] by blast
  have call: "timer1_callback mem key r 0 (Some b) s =
      (if one_shot (T fd) then base_timer_stop mem (key fd) r 0 eplfd fd s else Some s)"
    using t(4,5) name BaseTimer_bytes_read(1,2)[OF t(3)]
    by (simp add: timer1_callback_def timer_event_def one_shot_def)
  show ?thesis
    using base_timer_stop_ok[OF ok reg] ok without_refl by (auto simp: call)
qed


section \<open>The event loop\<close>

text \<open>The one-shot timers whose input event is handled: those before a hangup or an error.\<close>

definition stopped_by :: "(int \<Rightarrow> BaseTimer) \<Rightarrow> (u32 \<times> int) list \<Rightarrow> int set" where
  "stopped_by T bs =
     {fd. \<exists>ev. (ev, fd) \<in> set (takeWhile (\<lambda>e. \<not> ends_loop (fst e, NULL)) bs) \<and> EPOLLIN AND ev \<noteq> 0 \<and> one_shot (T fd)}"

lemma stopped_by_simps:
  "stopped_by T [] = {}"
  "stopped_by T ((ev, fd) # bs) =
     (if ends_loop (ev, NULL) then {}
      else (if EPOLLIN AND ev \<noteq> 0 \<and> one_shot (T fd) then {fd} else {}) \<union> stopped_by T bs)"
  by (auto simp: stopped_by_def)

lemma stopped_by_subset: "stopped_by T bs \<subseteq> snd ` set bs"
  by (auto simp: stopped_by_def dest!: set_takeWhileD intro: rev_image_eqI)

text \<open>C14: The events of one wait at an instance that has timers with the callback timer1_callback, each
  descriptor at most once and with its registered control block, when the kernel accepts the deletions and under the
  condition on which the hash table of the module depends: the memory of the dead parameter
  whose address is the key of a descriptor still holds that descriptor (nothing in timer_test ensures it). The loop of
  epoll_thread then calls the callbacks without touching freed memory, although the callback of
  a one-shot timer frees its own control block and its data; afterwards
  exactly the handled one-shot timers are unregistered, closed and freed with their data, everything else
  is as before, and the loop is left exactly if there was a hangup or an error.\<close>

theorem epoll_thread_timers:
  assumes ok: "timers_ok mem key eplfd s T"
    and reg: "\<forall>(ev, fd)\<in>set bs. es_kernel (tm_epoll s) eplfd fd \<noteq> None" and dist: "distinct (map snd bs)"
    and ctl: "\<forall>p. r_ctl p = 0"
  shows "\<exists>s'. epoll_thread_calls (timer_calls mem key r_set r_ctl) (map (\<lambda>(ev, fd). (ev, es_kernel (tm_epoll s) eplfd fd)) bs) s =
      Some (s', \<exists>e\<in>set bs. ends_loop (fst e, NULL)) \<and>
    timers_ok mem key eplfd s' T \<and> without eplfd (stopped_by T bs) s s'"
  using ok reg dist
proof (induction bs arbitrary: s)
  case Nil
  then show ?case
    by (simp add: stopped_by_simps without_refl)
next
  case (Cons e bs)
  obtain ev fd where e: "e = (ev, fd)" by (cases e)
  let ?K = "es_kernel (tm_epoll s) eplfd"
  obtain b where b: "?K fd = Some b"
    using Cons.prems(2) e by auto
  show ?case
  proof (cases "EPOLLIN AND ev \<noteq> 0")
    case True
    let ?F = "if one_shot (T fd) then {fd} else {}"
    obtain s1 where s1: "timer1_callback mem key (r_set (Some b)) 0 (Some b) s = Some s1" "timers_ok mem key eplfd s1 T" "without eplfd ?F s s1"
      using timer1_callback_ok[OF Cons.prems(1) b] by blast
    have same: "es_kernel (tm_epoll s1) eplfd fd' = ?K fd'" if "(ev', fd') \<in> set bs" for ev' fd'
    proof -
      have "fd' \<noteq> fd"
        using that Cons.prems(3) e by (auto intro: rev_image_eqI)
      then show ?thesis
        using s1(3) by (simp add: without_def)
    qed
    then have evs: "map (\<lambda>(ev, fd). (ev, es_kernel (tm_epoll s1) eplfd fd)) bs = map (\<lambda>(ev, fd). (ev, ?K fd)) bs"
      by auto
    have "\<forall>(ev, fd)\<in>set bs. es_kernel (tm_epoll s1) eplfd fd \<noteq> None"
      using Cons.prems(2) same by auto
    then obtain s2 where s2: "epoll_thread_calls (timer_calls mem key r_set r_ctl) (map (\<lambda>(ev, fd). (ev, ?K fd)) bs) s1 =
        Some (s2, \<exists>e\<in>set bs. ends_loop (fst e, NULL))" "timers_ok mem key eplfd s2 T" "without eplfd (stopped_by T bs) s1 s2"
      using Cons.IH[OF s1(2)] Cons.prems(3) unfolding evs by auto
    obtain p where "es_blocks (tm_epoll s) b = Some (timer_event eplfd fd Timer1_callback (Some p) 52)"
      by (rule timers_okD[OF Cons.prems(1) b])
    then have "epoll_thread_calls (timer_calls mem key r_set r_ctl) (map (\<lambda>(ev, fd). (ev, ?K fd)) (e # bs)) s =
        Some (s2, \<exists>e\<in>set (e # bs). ends_loop (fst e, NULL))"
      using True b e s1(1) s2(1) ctl by (simp add: timer_event_def ends_loop_def)
    moreover have "stopped_by T (e # bs) = ?F \<union> stopped_by T bs"
      using True e by (simp add: stopped_by_simps ends_loop_def)
    ultimately show ?thesis
      using s2(2) without_trans[OF s1(3) s2(3)] by (intro exI[of _ s2]) simp
  next
    case False
    show ?thesis
    proof (cases "ends_loop (ev, NULL)")
      case True
      then show ?thesis
        using e Cons.prems(1) without_refl by (auto simp: ends_loop_def stopped_by_simps)
    next
      case go: False
      then have "EPOLLHUP AND ev = 0" "EPOLLERR AND ev = 0"
        using False by (auto simp: ends_loop_def)
      then show ?thesis
        using Cons.IH[OF Cons.prems(1)] Cons.prems(2,3) e False go by (auto simp: stopped_by_simps)
    qed
  qed
qed



section \<open>The example timers\<close>

definition action_data :: "int \<Rightarrow> BaseTimer" where
  "action_data tfd = \<lparr>bt_tfd = tfd, bt_value_s = 4, bt_value_ms = 0, bt_interval_s = 1, bt_interval_ms = 0,
     bt_dev_id = dev_id ''123456789''\<rparr>"

definition action1_data :: "int \<Rightarrow> BaseTimer" where
  "action1_data tfd = \<lparr>bt_tfd = tfd, bt_value_s = 1, bt_value_ms = 0, bt_interval_s = 0, bt_interval_ms = 0,
     bt_dev_id = dev_id ''ABCDEF''\<rparr>"

lemma action_data_wf:
  "timer_wf (action_data tfd)" "timer_wf (action1_data tfd)" "\<not> one_shot (action_data tfd)" "one_shot (action1_data tfd)"
  "bt_dev_id (action_data tfd) = dev_id ''123456789''" "bt_dev_id (action1_data tfd) = dev_id ''ABCDEF''"
  by (simp_all add: timer_wf_def one_shot_def action_data_def action1_data_def dev_id_def INT_MIN_def INT_MAX_def)

text \<open>What both examples do, with the values of either.\<close>

lemma started_timer:
  assumes inv: "epoll_inv mem (tm_epoll s)" and known: "epoll_known (tm_epoll s) eplfd" and pos: "0 < eplfd" "0 < tfd"
    and key: "mem (key tfd) = tfd" and room: "epoll_room (tm_epoll s)" and new: "es_kernel (tm_epoll s) eplfd = (\<lambda>fd. None)"
    and b: "es_blocks (tm_epoll s) b = None" and p: "es_data (tm_epoll s) p = None" and wf: "timer_wf t"
    and its: "timer_setting (fst nw) v_s v_ms i_s i_ms = Some spec"
  shows "\<exists>s1. base_timer_start mem (key tfd) (Some p) 0 nw 0 0 (Some b) True True eplfd tfd v_s v_ms i_s i_ms Timer1_callback
      (Some (BaseTimer_bytes t)) (int (length (BaseTimer_bytes t))) s = Some (0, s1) \<and>
    timers_ok mem key eplfd s1 (\<lambda>fd. t) \<and> es_kernel (tm_epoll s1) eplfd tfd = Some b \<and> tm_timer s1 = (tm_timer s)(tfd \<mapsto> spec) \<and>
    es_kernel (tm_epoll s1) = (es_kernel (tm_epoll s))(eplfd := [tfd \<mapsto> b]) \<and>
    es_blocks (tm_epoll s1) = (es_blocks (tm_epoll s))(b \<mapsto> timer_event eplfd tfd Timer1_callback (Some p) 52) \<and>
    es_data (tm_epoll s1) = (es_data (tm_epoll s))(p \<mapsto> BaseTimer_bytes t)"
proof -
  have len: "length (BaseTimer_bytes t) = 52"
    by (rule BaseTimer_bytes_read(4)[OF wf])
  have n: "es_kernel (tm_epoll s) eplfd tfd = None" "(4 :: int) \<le> 52" "nat 52 \<le> length (BaseTimer_bytes t)"
    using new len by simp_all
  obtain e where e: "base_timer_start mem (key tfd) (Some p) 0 nw 0 0 (Some b) True True eplfd tfd v_s v_ms i_s i_ms Timer1_callback
      (Some (BaseTimer_bytes t)) 52 s = Some (0, s\<lparr>tm_timer := (tm_timer s)(tfd \<mapsto> spec), tm_epoll := e\<rparr>)"
    "epoll_inv mem e" "es_kernel e = (es_kernel (tm_epoll s))(eplfd := [tfd \<mapsto> b])"
    "es_blocks e = (es_blocks (tm_epoll s))(b \<mapsto> timer_event eplfd tfd Timer1_callback (Some p) 52)"
    "es_data e = (es_data (tm_epoll s))(p \<mapsto> BaseTimer_bytes t)"
    using base_timer_start_ok[OF inv known pos key room n(1) b p n(2,3) its, of Timer1_callback] new len by auto
  then show ?thesis
    using pos key wf len by (intro exI[of _ "s\<lparr>tm_timer := (tm_timer s)(tfd \<mapsto> spec), tm_epoll := e\<rparr>"])
      (auto simp: timers_ok_def split: if_splits)
qed




theorem epoll_thread_timers_witness:
  "\<exists>s s'. es_kernel (tm_epoll s) 3 5 = Some 10 \<and>
     epoll_thread_calls (timer_calls (\<lambda>k. 5) (\<lambda>fd. 100) (\<lambda>p. 0) (\<lambda>p. 0)) [(EPOLLIN, Some 10)] s = Some (s', False) \<and>
     es_kernel (tm_epoll s') 3 5 = None"
proof -
  obtain s :: "timer_callback timer_state" where s: "epoll_inv (\<lambda>k. 5) (tm_epoll s)" "epoll_known (tm_epoll s) 3" "epoll_room (tm_epoll s)"
    "es_kernel (tm_epoll s) = (\<lambda>ep fd. None)" "es_blocks (tm_epoll s) = (\<lambda>b. None)" "es_data (tm_epoll s) = (\<lambda>d. None)"
    by (rule timer_example)
  have hyps: "(0 :: int) < 3" "(0 :: int) < 5" "es_kernel (tm_epoll s) 3 = (\<lambda>fd. None)" "es_blocks (tm_epoll s) 10 = None"
    "es_data (tm_epoll s) 7 = None"
    "timer_setting (fst (1 :: int, 2 :: int)) 1 0 0 0 = Some \<lparr>it_value_sec = 2, it_value_nsec = 0, it_interval_sec = 0, it_interval_nsec = 0\<rparr>"
    using s by (simp_all add: timer_setting_ok)
  obtain s1 where s1: "timers_ok (\<lambda>k. 5) (\<lambda>fd. 100) 3 s1 (\<lambda>fd. action1_data 5)" "es_kernel (tm_epoll s1) 3 5 = Some 10"
    using started_timer[where key = "\<lambda>fd. 100", OF s(1,2) hyps(1,2) refl s(3) hyps(3-5) action_data_wf(2)[of 5] hyps(6)] by blast
  have stop: "stopped_by (\<lambda>fd. action1_data 5) [(EPOLLIN, 5)] = {5}" "\<not> ends_loop (EPOLLIN, NULL)"
    using action_data_wf(4)[of 5] by (simp_all add: stopped_by_simps ends_loop_def EPOLLIN_def)
  show ?thesis
    using epoll_thread_timers[OF s1(1), of "[(EPOLLIN, 5)]" "\<lambda>p. 0" "\<lambda>p. 0"] s1(2) stop by (auto simp: without_def)
qed

end
