(* ===== verification/Message_Queue.thy ===== *)
theory Message_Queue
  imports Machines
begin

text \<open>
  \<open>src/src/ipc/mq.c\<close>: a producer that sends to a POSIX message queue and a consumer that asks to be
  notified by a signal, drains the queue and waits for the signal. A step is one system call of
  one thread with the code that depends on it. Queues are named by their index in the list
  of all queues; \<open>old\<close> is a queue that an earlier run has left under the same name. \<open>mq_receive\<close> on an open
  descriptor in non-blocking mode with a buffer of \<open>mq_msgsize\<close> bytes has no reason to fail but an empty queue.
\<close>


section \<open>Message queues\<close>

record mqueue =
  mq_msgs :: "(nat \<times> string) list"
  mq_maxmsg :: nat
  mq_msgsize :: nat
  mq_reg :: bool

datatype mq_result = Sent | EAGAIN | EMSGSIZE

text \<open>
  Messages are ordered by priority, and by age within one priority. A message that arrives at
  an empty queue uses up the registration for a notification; the last component tells that the signal is sent.
\<close>

definition mq_send :: "nat \<Rightarrow> string \<Rightarrow> mqueue \<Rightarrow> mq_result \<times> mqueue \<times> bool" where
  "mq_send prio msg q =
     (if mq_msgsize q < length msg then (EMSGSIZE, q, False)
      else if mq_maxmsg q \<le> length (mq_msgs q) then (EAGAIN, q, False)
      else
        (Sent,
         q\<lparr>mq_msgs := takeWhile (\<lambda>m. prio \<le> fst m) (mq_msgs q) @ (prio, msg) # dropWhile (\<lambda>m. prio \<le> fst m) (mq_msgs q),
           mq_reg := mq_reg q \<and> mq_msgs q \<noteq> []\<rparr>,
         mq_reg q \<and> mq_msgs q = []))"

definition mq_receive :: "nat \<Rightarrow> mqueue \<Rightarrow> (nat \<times> string) option \<times> mqueue" where
  "mq_receive len q =
     (if len < mq_msgsize q then (None, q)
      else case mq_msgs q of [] \<Rightarrow> (None, q) | m # ms \<Rightarrow> (Some m, q\<lparr>mq_msgs := ms\<rparr>))"

text \<open>Registering a second time fails with EBUSY.\<close>

definition mq_notify :: "mqueue \<Rightarrow> mqueue option" where
  "mq_notify q = (if mq_reg q then None else Some (q\<lparr>mq_reg := True\<rparr>))"

abbreviation NUL :: char where "NUL \<equiv> CHR 0x00"

text \<open>What \<open>%s\<close> prints of a buffer; without a NUL the read runs out of it.\<close>

definition c_string :: "string \<Rightarrow> string option" where
  "c_string buff = (if NUL \<in> set buff then Some (takeWhile (\<lambda>c. c \<noteq> NUL) buff) else None)"


section \<open>State\<close>

datatype prod_pc = PUnborn | PUnlink | POpen | PSend | PSleep | PExit | PEnd
datatype note_pc = NUnborn | NSleep | NOpen | NAttr | NNotify | NReceive | NSigwait | NUndefined | NEnd
datatype mq_main_pc = MMask | MCreateP | MCreateN | MReturn | MReturned int

fun is_returned :: "mq_main_pc \<Rightarrow> bool" where
  "is_returned (MReturned r) = True"
| "is_returned _ = False"

text \<open>
  \<open>m_masked\<close>, \<open>m_pending\<close> and \<open>m_killed\<close> are the state of SIGUSR1: blocked in every thread, pending for
  the process, or delivered while it was not blocked, which ends the process. \<open>m_received\<close> are the messages taken from
  the queue, \<open>m_lines\<close> the lines printed. \<open>m_dangling\<close> records that the consumer has read the variable \<open>set\<close> of
  \<open>TestMqThread\<close> after that function returned, \<open>m_frame_lost\<close> that its memory has been reused.
\<close>

record mq_state =
  m_name :: "nat option"
  m_queues :: "mqueue list"
  m_masked :: bool
  m_pending :: bool
  m_killed :: bool
  m_main :: mq_main_pc
  m_prod :: prod_pc
  m_prod_fd :: nat
  m_note :: note_pc
  m_note_fd :: "nat option"
  m_buff :: string
  m_sent :: "string list"
  m_received :: "string list"
  m_lines :: "(nat \<times> nat \<times> string) list"
  m_dangling :: bool
  m_frame_lost :: bool

definition mq_init :: "mqueue option \<Rightarrow> mq_state" where
  "mq_init old =
     \<lparr>m_name = map_option (\<lambda>_. 0) old, m_queues = (case old of None \<Rightarrow> [] | Some q \<Rightarrow> [q]),
      m_masked = False, m_pending = False, m_killed = False, m_main = MMask,
      m_prod = PUnborn, m_prod_fd = 0, m_note = NUnborn, m_note_fd = None, m_buff = [],
      m_sent = [], m_received = [], m_lines = [], m_dangling = False, m_frame_lost = False\<rparr>"

definition MQ_MSG_NUM_MAX :: nat where
  "MQ_MSG_NUM_MAX = 10"

definition MQ_MSG_BUF_MAX :: nat where
  "MQ_MSG_BUF_MAX = 1024"

definition raise_sigusr1 :: "bool \<Rightarrow> mq_state \<Rightarrow> mq_state" where
  "raise_sigusr1 b s =
     (if \<not> b then s else if m_masked s then s\<lparr>m_pending := True\<rparr> else s\<lparr>m_killed := True\<rparr>)"


section \<open>Threads\<close>

text \<open>The text, its length \<open>iSendLen\<close> and the buffer of the producer.\<close>

definition iSendLen :: nat where
  "iSendLen = length ''mqtest 99''"

definition acSendBuf :: string where
  "acSendBuf = ''mqtest 99'' @ replicate (MQ_MSG_BUF_MAX + 1 - iSendLen) NUL"

text \<open>\<open>ok\<close> is false if the system call fails for a reason of its own.\<close>

definition thread_productor_step :: "bool \<Rightarrow> mq_state \<Rightarrow> mq_state option" where
  "thread_productor_step ok s =
     (case m_prod s of
        PUnlink \<Rightarrow> Some (s\<lparr>m_name := (if ok then None else m_name s), m_prod := POpen\<rparr>)
      | POpen \<Rightarrow>
          if \<not> ok then Some (s\<lparr>m_prod := PEnd\<rparr>)
          else (case m_name s of
              Some i \<Rightarrow> Some (s\<lparr>m_prod_fd := i, m_prod := PSend\<rparr>)
            | None \<Rightarrow>
                let i = length (m_queues s);
                    q = \<lparr>mq_msgs = [], mq_maxmsg = MQ_MSG_NUM_MAX, mq_msgsize = MQ_MSG_BUF_MAX, mq_reg = False\<rparr>
                in Some (s\<lparr>m_queues := m_queues s @ [q], m_name := Some i, m_prod_fd := i, m_prod := PSend\<rparr>))
      | PSend \<Rightarrow>
          if \<not> ok then Some (s\<lparr>m_prod := PExit\<rparr>)
          else
            let msg = take iSendLen acSendBuf;
                (ret, q, notified) = mq_send 99 msg (m_queues s ! m_prod_fd s) in
            (case ret of
               Sent \<Rightarrow> Some (raise_sigusr1 notified
                 (s\<lparr>m_queues := (m_queues s)[m_prod_fd s := q], m_sent := m_sent s @ [msg], m_prod := PSleep\<rparr>))
             | EAGAIN \<Rightarrow> Some (s\<lparr>m_prod := PSleep\<rparr>)
             | EMSGSIZE \<Rightarrow> Some (s\<lparr>m_prod := PExit\<rparr>))
      | PSleep \<Rightarrow> Some (s\<lparr>m_prod := PSend\<rparr>)
      | PExit \<Rightarrow> Some (s\<lparr>m_prod := PEnd\<rparr>)
      | _ \<Rightarrow> None)"

text \<open>
  \<open>cleared\<close> is used only once the memory of \<open>set\<close> has been reused: the wait may then end for any
  reason, or fail.
\<close>

definition thread_mq_notify_step :: "bool \<Rightarrow> bool \<Rightarrow> mq_state \<Rightarrow> mq_state option" where
  "thread_mq_notify_step ok cleared s =
     (let fd = the (m_note_fd s); q = m_queues s ! fd in
      case m_note s of
        NSleep \<Rightarrow> Some (s\<lparr>m_note := NOpen\<rparr>)
      | NOpen \<Rightarrow>
          if \<not> ok then Some (s\<lparr>m_note := NEnd\<rparr>)
          else (case m_name s of
              None \<Rightarrow> Some (s\<lparr>m_note := NEnd\<rparr>)
            | Some i \<Rightarrow> Some (s\<lparr>m_note_fd := Some i, m_note := NAttr\<rparr>))
      | NAttr \<Rightarrow>
          if ok then Some (s\<lparr>m_buff := replicate (mq_msgsize q) NUL, m_note := NNotify\<rparr>)
          else Some (s\<lparr>m_note := NEnd\<rparr>)
      | NNotify \<Rightarrow>
          if \<not> ok then Some (s\<lparr>m_note := NEnd\<rparr>)
          else (case mq_notify q of
              None \<Rightarrow> Some (s\<lparr>m_note := NEnd\<rparr>)
            | Some q' \<Rightarrow> Some (s\<lparr>m_queues := (m_queues s)[fd := q'], m_note := NReceive\<rparr>))
      | NReceive \<Rightarrow>
          (case mq_receive (mq_msgsize q) q of
             (None, _) \<Rightarrow> Some (s\<lparr>m_note := NSigwait\<rparr>)
           | (Some (prio, msg), q') \<Rightarrow>
               let s = s\<lparr>m_queues := (m_queues s)[fd := q'], m_received := m_received s @ [msg]\<rparr> in
               (case Option.bind (mem_write (m_buff s) 0 msg) (\<lambda>buff. map_option (Pair buff) (c_string buff)) of
                  None \<Rightarrow> Some (s\<lparr>m_note := NUndefined\<rparr>)
                | Some (buff, text) \<Rightarrow>
                    Some (s\<lparr>m_buff := buff, m_lines := m_lines s @ [(prio, length msg, text)]\<rparr>)))
      | NSigwait \<Rightarrow>
          let s' = s\<lparr>m_dangling := (m_dangling s \<or> is_returned (m_main s))\<rparr> in
          if m_frame_lost s then
            (if ok then Some (s'\<lparr>m_pending := (m_pending s \<and> \<not> cleared), m_note := NNotify\<rparr>)
             else Some (s'\<lparr>m_note := NEnd\<rparr>))
          else if m_pending s then Some (s'\<lparr>m_pending := False, m_note := NNotify\<rparr>)
          else None
      | _ \<Rightarrow> None)"

definition TestMqThread_step :: "bool \<Rightarrow> mq_state \<Rightarrow> mq_state option" where
  "TestMqThread_step ok s =
     (case m_main s of
        MMask \<Rightarrow> if ok then Some (s\<lparr>m_masked := True, m_main := MCreateP\<rparr>) else Some (s\<lparr>m_main := MReturned (- 1)\<rparr>)
      | MCreateP \<Rightarrow> if ok then Some (s\<lparr>m_prod := PUnlink, m_main := MCreateN\<rparr>) else Some (s\<lparr>m_main := MReturned (- 1)\<rparr>)
      | MCreateN \<Rightarrow> if ok then Some (s\<lparr>m_note := NSleep, m_main := MReturn\<rparr>) else Some (s\<lparr>m_main := MReturned (- 1)\<rparr>)
      | MReturn \<Rightarrow> Some (s\<lparr>m_main := MReturned 0\<rparr>)
      | MReturned r \<Rightarrow> None)"

datatype mq_actor = MqMain | MqProductor | MqNotify | MqStack

inductive mq_step :: "mq_actor \<Rightarrow> mq_state \<Rightarrow> mq_state \<Rightarrow> bool" where
  mq_main: "TestMqThread_step ok s = Some s' \<Longrightarrow> mq_step MqMain s s'"
| mq_productor: "thread_productor_step ok s = Some s' \<Longrightarrow> mq_step MqProductor s s'"
| mq_consumer: "thread_mq_notify_step ok cleared s = Some s' \<Longrightarrow> mq_step MqNotify s s'"
| mq_stack: "m_main s = MReturned r \<Longrightarrow> mq_step MqStack s (s\<lparr>m_frame_lost := True\<rparr>)"

inductive_cases mq_mainE: "mq_step MqMain s s'"
inductive_cases mq_productorE: "mq_step MqProductor s s'"
inductive_cases mq_consumerE: "mq_step MqNotify s s'"



section \<open>Invariant\<close>

text \<open>The queue that the producer creates has the index \<open>new_id\<close>; the message is always the same.\<close>

definition new_id :: "mqueue option \<Rightarrow> nat" where
  "new_id old = (case old of None \<Rightarrow> 0 | Some q \<Rightarrow> 1)"

definition created :: "mqueue option \<Rightarrow> mq_state \<Rightarrow> bool" where
  "created old s \<longleftrightarrow> length (m_queues s) = Suc (new_id old)"

abbreviation new_queue :: "mqueue option \<Rightarrow> mq_state \<Rightarrow> mqueue" where
  "new_queue old s \<equiv> m_queues s ! new_id old"

text \<open>The consumer has opened the queue of the producer, and not the one left by an earlier run.\<close>

definition joined :: "mqueue option \<Rightarrow> mq_state \<Rightarrow> bool" where
  "joined old s \<longleftrightarrow> m_note_fd s = Some (new_id old)"

abbreviation demo_msg :: string where
  "demo_msg \<equiv> ''mqtest 99''"

text \<open>Groups of program points.\<close>

definition before_open :: "prod_pc \<Rightarrow> bool" where
  "before_open p \<longleftrightarrow> p \<in> {PUnborn, PUnlink, POpen}"

definition sending :: "prod_pc \<Rightarrow> bool" where
  "sending p \<longleftrightarrow> p \<in> {PSend, PSleep, PExit}"

definition before_join :: "note_pc \<Rightarrow> bool" where
  "before_join p \<longleftrightarrow> p \<in> {NUnborn, NSleep, NOpen}"

definition looping :: "note_pc \<Rightarrow> bool" where
  "looping p \<longleftrightarrow> p \<in> {NNotify, NReceive, NSigwait}"

lemma point_simps [simp]:
  "before_open PUnborn" "before_open PUnlink" "before_open POpen" "\<not> before_open PSend" "\<not> before_open PSleep"
  "\<not> before_open PExit" "\<not> before_open PEnd" "sending PSend" "sending PSleep" "sending PExit" "\<not> sending PUnborn"
  "\<not> sending PUnlink" "\<not> sending POpen" "\<not> sending PEnd"
  "before_join NUnborn" "before_join NSleep" "before_join NOpen" "\<not> before_join NAttr" "\<not> before_join NNotify"
  "\<not> before_join NReceive" "\<not> before_join NSigwait" "\<not> before_join NUndefined" "\<not> before_join NEnd"
  "looping NNotify" "looping NReceive" "looping NSigwait" "\<not> looping NUnborn" "\<not> looping NSleep" "\<not> looping NOpen"
  "\<not> looping NAttr" "\<not> looping NUndefined" "\<not> looping NEnd"
  by (simp_all add: before_open_def sending_def before_join_def looping_def)

definition naming_inv :: "mqueue option \<Rightarrow> mq_state \<Rightarrow> bool" where
  "naming_inv old s \<longleftrightarrow>
     new_id old \<le> length (m_queues s) \<and> length (m_queues s) \<le> Suc (new_id old) \<and>
     (before_open (m_prod s) \<longrightarrow> length (m_queues s) = new_id old) \<and>
     (sending (m_prod s) \<longrightarrow> m_prod_fd s < length (m_queues s) \<and> (created old s \<longrightarrow> m_prod_fd s = new_id old)) \<and>
     (\<forall>i. m_name s = Some i \<longrightarrow> i < length (m_queues s)) \<and>
     (created old s \<longrightarrow> m_name s = Some (new_id old)) \<and>
     (\<forall>i. m_note_fd s = Some i \<longrightarrow> i < length (m_queues s)) \<and>
     (before_join (m_note s) \<longrightarrow> m_note_fd s = None \<and> m_received s = [] \<and> m_lines s = []) \<and>
     (looping (m_note s) \<or> m_note s = NAttr \<longrightarrow> m_note_fd s \<noteq> None) \<and>
     (m_note s = NAttr \<longrightarrow> m_received s = [] \<and> m_lines s = [])"

definition thread_inv :: "mq_state \<Rightarrow> bool" where
  "thread_inv s \<longleftrightarrow>
     \<not> m_killed s \<and> (m_prod s \<noteq> PUnborn \<longrightarrow> m_masked s) \<and>
     (m_main s \<in> {MMask, MCreateP} \<longrightarrow> m_prod s = PUnborn) \<and>
     (m_main s \<in> {MMask, MCreateP, MCreateN} \<longrightarrow> m_note s = NUnborn) \<and>
     (m_main s \<in> {MCreateP, MCreateN} \<longrightarrow> m_masked s)"

definition traffic_inv :: "mqueue option \<Rightarrow> mq_state \<Rightarrow> bool" where
  "traffic_inv old s \<longleftrightarrow>
     (before_open (m_prod s) \<longrightarrow> m_sent s = [] \<and> \<not> m_pending s) \<and>
     (created old s \<longrightarrow>
        mq_maxmsg (new_queue old s) = MQ_MSG_NUM_MAX \<and> mq_msgsize (new_queue old s) = MQ_MSG_BUF_MAX \<and>
        length (mq_msgs (new_queue old s)) \<le> MQ_MSG_NUM_MAX \<and>
        set (mq_msgs (new_queue old s)) \<subseteq> {(99, demo_msg)} \<and>
        m_sent s = (if joined old s then m_received s else []) @ map snd (mq_msgs (new_queue old s)))"

definition output_inv :: "mqueue option \<Rightarrow> mq_state \<Rightarrow> bool" where
  "output_inv old s \<longleftrightarrow>
     (joined old s \<longrightarrow>
        m_note s \<noteq> NUndefined \<and> set (m_received s) \<subseteq> {demo_msg} \<and>
        m_lines s = map (\<lambda>m. (99, length m, m)) (m_received s) \<and>
        (looping (m_note s) \<longrightarrow>
           m_buff s = replicate MQ_MSG_BUF_MAX NUL \<or>
           m_buff s = demo_msg @ replicate (MQ_MSG_BUF_MAX - iSendLen) NUL))"

text \<open>No lost wakeup: a consumer that waits is registered or has the signal pending.\<close>

definition notify_inv :: "mqueue option \<Rightarrow> mq_state \<Rightarrow> bool" where
  "notify_inv old s \<longleftrightarrow>
     created old s \<longrightarrow>
       (\<not> joined old s \<longrightarrow> \<not> mq_reg (new_queue old s) \<and> \<not> m_pending s) \<and>
       (joined old s \<and> \<not> m_frame_lost s \<longrightarrow>
          (m_pending s \<longrightarrow> \<not> mq_reg (new_queue old s)) \<and>
          (m_note s \<in> {NAttr, NNotify} \<longrightarrow> \<not> mq_reg (new_queue old s) \<and> \<not> m_pending s) \<and>
          (m_note s \<in> {NReceive, NSigwait} \<longrightarrow> mq_reg (new_queue old s) \<or> m_pending s) \<and>
          (m_note s = NSigwait \<and> mq_msgs (new_queue old s) \<noteq> [] \<longrightarrow> m_pending s))"

definition mq_inv :: "mqueue option \<Rightarrow> mq_state \<Rightarrow> bool" where
  "mq_inv old s \<longleftrightarrow>
     naming_inv old s \<and> thread_inv s \<and> traffic_inv old s \<and> output_inv old s \<and> notify_inv old s"

lemmas mq_inv_defs =
  naming_inv_def thread_inv_def traffic_inv_def output_inv_def notify_inv_def created_def joined_def

lemma mq_invI:
  "naming_inv old s \<Longrightarrow> thread_inv s \<Longrightarrow> traffic_inv old s \<Longrightarrow> output_inv old s \<Longrightarrow> notify_inv old s \<Longrightarrow> mq_inv old s"
  by (simp add: mq_inv_def)

lemma mq_invD:
  assumes "mq_inv old s"
  shows "naming_inv old s" "thread_inv s" "traffic_inv old s" "output_inv old s" "notify_inv old s"
  using assms by (simp_all add: mq_inv_def)

text \<open>The fields that a part of the invariant does not depend on.\<close>

lemma naming_inv_frame [simp]:
  "naming_inv old (s\<lparr>m_masked := x_m_masked\<rparr>) = naming_inv old s"
  "naming_inv old (s\<lparr>m_pending := x_m_pending\<rparr>) = naming_inv old s"
  "naming_inv old (s\<lparr>m_killed := x_m_killed\<rparr>) = naming_inv old s"
  "naming_inv old (s\<lparr>m_main := x_m_main\<rparr>) = naming_inv old s"
  "naming_inv old (s\<lparr>m_buff := x_m_buff\<rparr>) = naming_inv old s"
  "naming_inv old (s\<lparr>m_sent := x_m_sent\<rparr>) = naming_inv old s"
  "naming_inv old (s\<lparr>m_dangling := x_m_dangling\<rparr>) = naming_inv old s"
  "naming_inv old (s\<lparr>m_frame_lost := x_m_frame_lost\<rparr>) = naming_inv old s"
  by (simp_all add: naming_inv_def created_def joined_def)

lemma thread_inv_frame [simp]:
  "thread_inv (s\<lparr>m_name := x_m_name\<rparr>) = thread_inv s"
  "thread_inv (s\<lparr>m_queues := x_m_queues\<rparr>) = thread_inv s"
  "thread_inv (s\<lparr>m_pending := x_m_pending\<rparr>) = thread_inv s"
  "thread_inv (s\<lparr>m_prod_fd := x_m_prod_fd\<rparr>) = thread_inv s"
  "thread_inv (s\<lparr>m_note_fd := x_m_note_fd\<rparr>) = thread_inv s"
  "thread_inv (s\<lparr>m_buff := x_m_buff\<rparr>) = thread_inv s"
  "thread_inv (s\<lparr>m_sent := x_m_sent\<rparr>) = thread_inv s"
  "thread_inv (s\<lparr>m_received := x_m_received\<rparr>) = thread_inv s"
  "thread_inv (s\<lparr>m_lines := x_m_lines\<rparr>) = thread_inv s"
  "thread_inv (s\<lparr>m_dangling := x_m_dangling\<rparr>) = thread_inv s"
  "thread_inv (s\<lparr>m_frame_lost := x_m_frame_lost\<rparr>) = thread_inv s"
  by (simp_all add: thread_inv_def)

lemma traffic_inv_frame [simp]:
  "traffic_inv old (s\<lparr>m_name := x_m_name\<rparr>) = traffic_inv old s"
  "traffic_inv old (s\<lparr>m_masked := x_m_masked\<rparr>) = traffic_inv old s"
  "traffic_inv old (s\<lparr>m_killed := x_m_killed\<rparr>) = traffic_inv old s"
  "traffic_inv old (s\<lparr>m_main := x_m_main\<rparr>) = traffic_inv old s"
  "traffic_inv old (s\<lparr>m_prod_fd := x_m_prod_fd\<rparr>) = traffic_inv old s"
  "traffic_inv old (s\<lparr>m_note := x_m_note\<rparr>) = traffic_inv old s"
  "traffic_inv old (s\<lparr>m_buff := x_m_buff\<rparr>) = traffic_inv old s"
  "traffic_inv old (s\<lparr>m_lines := x_m_lines\<rparr>) = traffic_inv old s"
  "traffic_inv old (s\<lparr>m_dangling := x_m_dangling\<rparr>) = traffic_inv old s"
  "traffic_inv old (s\<lparr>m_frame_lost := x_m_frame_lost\<rparr>) = traffic_inv old s"
  by (simp_all add: traffic_inv_def created_def joined_def)

lemma output_inv_frame [simp]:
  "output_inv old (s\<lparr>m_name := x_m_name\<rparr>) = output_inv old s"
  "output_inv old (s\<lparr>m_queues := x_m_queues\<rparr>) = output_inv old s"
  "output_inv old (s\<lparr>m_masked := x_m_masked\<rparr>) = output_inv old s"
  "output_inv old (s\<lparr>m_pending := x_m_pending\<rparr>) = output_inv old s"
  "output_inv old (s\<lparr>m_killed := x_m_killed\<rparr>) = output_inv old s"
  "output_inv old (s\<lparr>m_main := x_m_main\<rparr>) = output_inv old s"
  "output_inv old (s\<lparr>m_prod := x_m_prod\<rparr>) = output_inv old s"
  "output_inv old (s\<lparr>m_prod_fd := x_m_prod_fd\<rparr>) = output_inv old s"
  "output_inv old (s\<lparr>m_sent := x_m_sent\<rparr>) = output_inv old s"
  "output_inv old (s\<lparr>m_dangling := x_m_dangling\<rparr>) = output_inv old s"
  "output_inv old (s\<lparr>m_frame_lost := x_m_frame_lost\<rparr>) = output_inv old s"
  by (simp_all add: output_inv_def created_def joined_def)

lemma notify_inv_frame [simp]:
  "notify_inv old (s\<lparr>m_name := x_m_name\<rparr>) = notify_inv old s"
  "notify_inv old (s\<lparr>m_masked := x_m_masked\<rparr>) = notify_inv old s"
  "notify_inv old (s\<lparr>m_killed := x_m_killed\<rparr>) = notify_inv old s"
  "notify_inv old (s\<lparr>m_main := x_m_main\<rparr>) = notify_inv old s"
  "notify_inv old (s\<lparr>m_prod := x_m_prod\<rparr>) = notify_inv old s"
  "notify_inv old (s\<lparr>m_prod_fd := x_m_prod_fd\<rparr>) = notify_inv old s"
  "notify_inv old (s\<lparr>m_buff := x_m_buff\<rparr>) = notify_inv old s"
  "notify_inv old (s\<lparr>m_sent := x_m_sent\<rparr>) = notify_inv old s"
  "notify_inv old (s\<lparr>m_received := x_m_received\<rparr>) = notify_inv old s"
  "notify_inv old (s\<lparr>m_lines := x_m_lines\<rparr>) = notify_inv old s"
  "notify_inv old (s\<lparr>m_dangling := x_m_dangling\<rparr>) = notify_inv old s"
  by (simp_all add: notify_inv_def created_def joined_def)

lemma created_opened: "mq_inv old s \<Longrightarrow> created old s \<Longrightarrow> \<not> before_open (m_prod s)"
  by (auto simp: mq_inv_def naming_inv_def created_def)

lemma mq_inv_init: "mq_inv old (mq_init old)"
  by (cases old; rule mq_invI; simp add: mq_inv_defs mq_init_def new_id_def)

lemma mq_inv_main:
  assumes inv: "mq_inv old s" and step: "TestMqThread_step ok s = Some s'"
  shows "mq_inv old s'"
proof -
  consider (mask) "s' = s\<lparr>m_masked := True, m_main := MCreateP\<rparr>" "m_main s = MMask"
    | (prod) "s' = s\<lparr>m_prod := PUnlink, m_main := MCreateN\<rparr>" "m_main s = MCreateP"
    | (notifier) "s' = s\<lparr>m_note := NSleep, m_main := MReturn\<rparr>" "m_main s = MCreateN"
    | (ends) r where "s' = s\<lparr>m_main := MReturned r\<rparr>"
    using step by (cases "m_main s") (auto simp: TestMqThread_step_def split: if_splits)
  then show ?thesis
  proof cases
    case mask
    then show ?thesis
      using mq_invD[OF inv] by (intro mq_invI) (simp_all add: thread_inv_def)
  next
    case prod
    then show ?thesis
      using mq_invD[OF inv] by (intro mq_invI) (auto simp: thread_inv_def naming_inv_def traffic_inv_def created_def joined_def)
  next
    case notifier
    then show ?thesis
      using mq_invD[OF inv] by (intro mq_invI) (auto simp: thread_inv_def naming_inv_def output_inv_def notify_inv_def created_def joined_def)
  next
    case ends
    then show ?thesis
      using mq_invD[OF inv] by (intro mq_invI) (simp_all add: thread_inv_def)
  qed
qed

lemma mq_inv_stack:
  assumes "mq_inv old s"
  shows "mq_inv old (s\<lparr>m_frame_lost := True\<rparr>)"
  using mq_invD[OF assms] by (intro mq_invI) (simp_all add: notify_inv_def created_def joined_def)

text \<open>A message of the same priority goes to the end.\<close>

lemma take_acSendBuf: "take iSendLen acSendBuf = demo_msg"
  by (simp add: iSendLen_def acSendBuf_def)

lemma mq_send_demo:
  assumes "set (mq_msgs q) \<subseteq> {(99, demo_msg)}" "mq_msgsize q = MQ_MSG_BUF_MAX" "length (mq_msgs q) < mq_maxmsg q"
  shows "mq_send 99 demo_msg q =
    (Sent, q\<lparr>mq_msgs := mq_msgs q @ [(99, demo_msg)], mq_reg := mq_reg q \<and> mq_msgs q \<noteq> []\<rparr>, mq_reg q \<and> mq_msgs q = [])"
proof -
  have "takeWhile (\<lambda>m. 99 \<le> fst m) (mq_msgs q) = mq_msgs q" "dropWhile (\<lambda>m. 99 \<le> fst m) (mq_msgs q) = []"
    using assms(1) by (force simp: takeWhile_eq_all_conv dropWhile_eq_Nil_conv)+
  then show ?thesis
    using assms by (simp add: mq_send_def MQ_MSG_BUF_MAX_def)
qed

lemma mq_send_full:
  assumes "mq_msgsize q = MQ_MSG_BUF_MAX" "\<not> length (mq_msgs q) < mq_maxmsg q"
  shows "mq_send 99 demo_msg q = (EAGAIN, q, False)"
  using assms by (simp add: mq_send_def MQ_MSG_BUF_MAX_def)

lemma raise_sigusr1_simps [simp]:
  "m_name (raise_sigusr1 b s) = m_name s" "m_queues (raise_sigusr1 b s) = m_queues s"
  "m_main (raise_sigusr1 b s) = m_main s" "m_prod (raise_sigusr1 b s) = m_prod s"
  "m_prod_fd (raise_sigusr1 b s) = m_prod_fd s" "m_note (raise_sigusr1 b s) = m_note s"
  "m_note_fd (raise_sigusr1 b s) = m_note_fd s" "m_buff (raise_sigusr1 b s) = m_buff s"
  "m_sent (raise_sigusr1 b s) = m_sent s" "m_received (raise_sigusr1 b s) = m_received s"
  "m_lines (raise_sigusr1 b s) = m_lines s" "m_frame_lost (raise_sigusr1 b s) = m_frame_lost s"
  "m_masked (raise_sigusr1 b s) = m_masked s"
  "m_masked s \<Longrightarrow> m_pending (raise_sigusr1 b s) = (m_pending s \<or> b)"
  "m_masked s \<Longrightarrow> m_killed (raise_sigusr1 b s) = m_killed s"
  by (simp_all add: raise_sigusr1_def)

lemma mq_inv_sent:
  assumes inv: "mq_inv old s" and c: "created old s" "m_prod s = PSend"
    and len: "length (mq_msgs (new_queue old s)) < MQ_MSG_NUM_MAX"
    and s': "s' = raise_sigusr1 (mq_reg (new_queue old s) \<and> mq_msgs (new_queue old s) = [])
      (s\<lparr>m_queues := (m_queues s)[new_id old :=
           (new_queue old s)\<lparr>mq_msgs := mq_msgs (new_queue old s) @ [(99, demo_msg)],
             mq_reg := mq_reg (new_queue old s) \<and> mq_msgs (new_queue old s) \<noteq> []\<rparr>],
         m_sent := m_sent s @ [demo_msg], m_prod := PSleep\<rparr>)"
  shows "mq_inv old s'"
proof -
  have m: "m_masked s" and l: "length (m_queues s) = Suc (new_id old)"
    using inv c by (simp_all add: mq_inv_def thread_inv_def created_def)
  show ?thesis
  proof (rule mq_invI)
    show "naming_inv old s'" "thread_inv s'"
      using mq_invD(1,2)[OF inv] c m by (clarsimp simp: s' naming_inv_def created_def thread_inv_def)+
    show "traffic_inv old s'" "output_inv old s'"
      using mq_invD(3,4)[OF inv] c len l by (simp_all add: s' traffic_inv_def output_inv_def created_def joined_def)
    show "notify_inv old s'"
      using mq_invD(5)[OF inv] c l m by (auto simp: s' notify_inv_def created_def joined_def)
  qed
qed

lemma mq_inv_send:
  assumes inv: "mq_inv old s" and c: "created old s" and pc: "m_prod s = PSend" and step: "thread_productor_step True s = Some s'"
  shows "mq_inv old s'"
proof -
  let ?q = "new_queue old s"
  have fd: "m_prod_fd s = new_id old"
    using mq_invD(1)[OF inv] pc c by (simp add: naming_inv_def)
  have q: "mq_maxmsg ?q = MQ_MSG_NUM_MAX" "mq_msgsize ?q = MQ_MSG_BUF_MAX" "set (mq_msgs ?q) \<subseteq> {(99, demo_msg)}"
    using mq_invD(3)[OF inv] c by (simp_all add: traffic_inv_def)
  show ?thesis
  proof (cases "length (mq_msgs ?q) < mq_maxmsg ?q")
    case True
    show ?thesis
      using mq_inv_sent[OF inv c pc] step pc fd q(1) mq_send_demo[OF q(3,2) True] True
      by (simp add: thread_productor_step_def take_acSendBuf Let_def)
  next
    case False
    then have "s' = s\<lparr>m_prod := PSleep\<rparr>"
      using step pc fd mq_send_full[OF q(2) False]
      by (simp add: thread_productor_step_def take_acSendBuf)
    then show ?thesis
      using mq_invD[OF inv] pc by (intro mq_invI) (clarsimp simp: naming_inv_def thread_inv_def traffic_inv_def created_def joined_def)+
  qed
qed

text \<open>When the old queue could not be unlinked, the producer sends to it and no queue is created.\<close>

lemma mq_inv_send_old:
  assumes inv: "mq_inv old s" and c: "\<not> created old s" and pc: "m_prod s = PSend" and step: "thread_productor_step True s = Some s'"
  shows "mq_inv old s'"
proof -
  have m: "m_masked s" and j: "\<not> joined old s" and l: "length (m_queues s) = new_id old"
    using mq_invD(1,2)[OF inv] pc c by (auto simp: naming_inv_def thread_inv_def joined_def created_def)
  obtain ret q b where send: "mq_send 99 demo_msg (m_queues s ! m_prod_fd s) = (ret, q, b)"
    by (metis prod_cases3)
  consider p where "s' = s\<lparr>m_prod := p\<rparr>" "p = PSleep \<or> p = PExit"
    | "s' = raise_sigusr1 b (s\<lparr>m_queues := (m_queues s)[m_prod_fd s := q], m_sent := m_sent s @ [demo_msg], m_prod := PSleep\<rparr>)"
    using step pc send by (cases ret) (auto simp: thread_productor_step_def take_acSendBuf Let_def)
  then show ?thesis
  proof cases
    case 1
    then have p: "\<not> before_open p" "sending p" "p \<noteq> PUnborn"
      by auto
    show ?thesis
      using mq_invD[OF inv] 1(1) p pc l j
      by (intro mq_invI) (simp_all add: naming_inv_def thread_inv_def traffic_inv_def created_def)
  next
    case 2
    show ?thesis
    proof (rule mq_invI)
      show "naming_inv old s'" "thread_inv s'"
        using mq_invD(1,2)[OF inv] pc m l by (simp_all add: 2 naming_inv_def thread_inv_def created_def)
      show "output_inv old s'" "notify_inv old s'" "traffic_inv old s'"
        using j l by (simp_all add: 2 output_inv_def notify_inv_def traffic_inv_def created_def joined_def)
    qed
  qed
qed

lemma mq_inv_open:
  assumes inv: "mq_inv old s" and pc: "m_prod s = POpen" and step: "thread_productor_step True s = Some s'"
  shows "mq_inv old s'"
proof -
  let ?q = "\<lparr>mq_msgs = [], mq_maxmsg = MQ_MSG_NUM_MAX, mq_msgsize = MQ_MSG_BUF_MAX, mq_reg = False\<rparr>"
  have n: "length (m_queues s) = new_id old" "\<forall>i. m_note_fd s = Some i \<longrightarrow> i < length (m_queues s)"
    "\<forall>i. m_name s = Some i \<longrightarrow> i < length (m_queues s)"
    using mq_invD(1)[OF inv] pc by (clarsimp simp: naming_inv_def)+
  then have j: "m_note_fd s \<noteq> Some (new_id old)" by auto
  show ?thesis
  proof (cases "m_name s")
    case None
    then have s': "s' = s\<lparr>m_queues := m_queues s @ [?q], m_name := Some (new_id old), m_prod_fd := new_id old, m_prod := PSend\<rparr>"
      using step pc n by (simp add: thread_productor_step_def Let_def)
    show ?thesis
    proof (rule mq_invI)
      show "naming_inv old s'" "thread_inv s'"
        using mq_invD(1,2)[OF inv] n pc by (clarsimp simp: s' naming_inv_def created_def thread_inv_def less_SucI)+
      show "traffic_inv old s'" "output_inv old s'" "notify_inv old s'"
        using mq_invD(3)[OF inv] n j pc
        by (simp_all add: s' traffic_inv_def output_inv_def notify_inv_def created_def joined_def nth_append)
    qed
  next
    case (Some i)
    then have s': "s' = s\<lparr>m_prod_fd := i, m_prod := PSend\<rparr>"
      using step pc by (simp add: thread_productor_step_def)
    show ?thesis
    proof (rule mq_invI)
      show "naming_inv old s'" "thread_inv s'"
        using mq_invD(1,2)[OF inv] n pc Some by (clarsimp simp: s' naming_inv_def created_def thread_inv_def)+
      show "traffic_inv old s'" "output_inv old s'" "notify_inv old s'"
        using n j by (simp_all add: s' traffic_inv_def output_inv_def notify_inv_def created_def joined_def)
    qed
  qed
qed

lemma mq_inv_productor:
  assumes inv: "mq_inv old s" and step: "thread_productor_step ok s = Some s'"
  shows "mq_inv old s'"
proof -
  note inv5 = mq_invD[OF inv]
  have go: ?thesis if "s' = s\<lparr>m_prod := p\<rparr>" "sending p" "sending (m_prod s)" for p
  proof -
    have "p \<noteq> POpen" "p \<noteq> PUnborn" "\<not> before_open p" "m_prod s \<noteq> PUnborn"
      using that(2,3) by (auto simp: before_open_def sending_def)
    then show ?thesis
      using inv5 that by (intro mq_invI) (clarsimp simp: naming_inv_def thread_inv_def traffic_inv_def created_def joined_def)+
  qed
  have stop: ?thesis if "s' = s\<lparr>m_prod := PEnd\<rparr>" "m_prod s \<noteq> PUnborn"
    using inv5 that by (intro mq_invI) (clarsimp simp: naming_inv_def thread_inv_def traffic_inv_def created_def joined_def)+
  show ?thesis
  proof (cases "m_prod s")
    case PUnlink
    define name where "name = (if ok then None else m_name s)"
    have s': "s' = s\<lparr>m_name := name, m_prod := POpen\<rparr>"
      using step PUnlink by (simp add: thread_productor_step_def name_def)
    have new: "length (m_queues s) \<noteq> Suc (new_id old)"
      using created_opened[OF inv] PUnlink by (auto simp: created_def)
    show ?thesis
    proof (rule mq_invI)
      show "naming_inv old s'"
        using inv5(1) PUnlink by (auto simp: s' name_def naming_inv_def created_def)
    qed (use inv5 new PUnlink in \<open>simp_all add: s' thread_inv_def traffic_inv_def created_def joined_def\<close>)
  next
    case POpen
    then show ?thesis
      using mq_inv_open[OF inv POpen] step stop by (cases ok) (simp_all add: thread_productor_step_def)
  next
    case PSend
    then show ?thesis
      using mq_inv_send[OF inv _ PSend] mq_inv_send_old[OF inv _ PSend] step go[of PExit]
      by (cases ok; cases "created old s") (simp_all add: thread_productor_step_def)
  next
    case PSleep
    then show ?thesis
      using step go[of PSend] by (simp add: thread_productor_step_def)
  next
    case PExit
    then show ?thesis
      using step stop by (simp add: thread_productor_step_def)
  qed (use step in \<open>simp_all add: thread_productor_step_def\<close>)
qed

text \<open>The consumer on the queue of the producer.\<close>

lemma print_buff:
  assumes "buff = replicate MQ_MSG_BUF_MAX NUL \<or> buff = demo_msg @ replicate (MQ_MSG_BUF_MAX - iSendLen) NUL"
  shows "mem_write buff 0 demo_msg = Some (demo_msg @ replicate (MQ_MSG_BUF_MAX - iSendLen) NUL)"
    "c_string (demo_msg @ replicate (MQ_MSG_BUF_MAX - iSendLen) NUL) = Some demo_msg"
proof -
  show "mem_write buff 0 demo_msg = Some (demo_msg @ replicate (MQ_MSG_BUF_MAX - iSendLen) NUL)"
    using assms by (auto simp: mem_write_def MQ_MSG_BUF_MAX_def iSendLen_def)
  show "c_string (demo_msg @ replicate (MQ_MSG_BUF_MAX - iSendLen) NUL) = Some demo_msg"
    by (simp add: c_string_def takeWhile_append MQ_MSG_BUF_MAX_def iSendLen_def)
qed

lemma mq_inv_receive:
  assumes inv: "mq_inv old s" and j: "joined old s" and pc: "m_note s = NReceive"
    and msgs: "mq_msgs (new_queue old s) = m # ms"
    and step: "thread_mq_notify_step ok cleared s = Some s'"
  shows "mq_inv old s' \<and> m_received s' = m_received s @ [demo_msg]"
proof -
  let ?q = "new_queue old s"
  have c: "created old s" "length (m_queues s) = Suc (new_id old)"
    using mq_invD(1)[OF inv] j by (auto simp: naming_inv_def joined_def created_def)
  have m: "m = (99, demo_msg)"
    using mq_invD(3)[OF inv] c(1) msgs by (simp add: traffic_inv_def)
  note pr = print_buff[of "m_buff s"]
  have b: "m_buff s = replicate MQ_MSG_BUF_MAX NUL \<or> m_buff s = demo_msg @ replicate (MQ_MSG_BUF_MAX - iSendLen) NUL"
    using mq_invD(4)[OF inv] j pc by (simp add: output_inv_def)
  have s': "s' = s\<lparr>m_queues := (m_queues s)[new_id old := ?q\<lparr>mq_msgs := ms\<rparr>],
      m_received := m_received s @ [demo_msg], m_buff := demo_msg @ replicate (MQ_MSG_BUF_MAX - iSendLen) NUL,
      m_lines := m_lines s @ [(99, length demo_msg, demo_msg)]\<rparr>"
    using step pc j msgs m pr[OF b]
    by (simp add: thread_mq_notify_step_def joined_def mq_receive_def Let_def)
  have "mq_inv old s'"
  proof (rule mq_invI)
    show "naming_inv old s'" "thread_inv s'"
      using mq_invD(1,2)[OF inv] pc j by (clarsimp simp: s' naming_inv_def created_def thread_inv_def joined_def)+
    show "traffic_inv old s'" "output_inv old s'"
      using created_opened[OF inv c(1)] mq_invD(3,4)[OF inv] c j msgs m b pc by (simp_all add: s' traffic_inv_def output_inv_def created_def joined_def)
    show "notify_inv old s'"
      using mq_invD(5)[OF inv] c pc j by (simp add: s' notify_inv_def created_def joined_def)
  qed
  then show ?thesis
    by (simp add: s')
qed

lemma joined_move:
  assumes inv: "mq_inv old s" and j: "joined old s" and b: "looping p \<Longrightarrow>
      b = replicate MQ_MSG_BUF_MAX NUL \<or> b = demo_msg @ replicate (MQ_MSG_BUF_MAX - iSendLen) NUL"
    and p: "\<not> before_join p" "p \<noteq> NAttr" "p \<noteq> NUndefined"
    and s': "s' = s\<lparr>m_dangling := d, m_pending := e, m_buff := b, m_note := p\<rparr>"
    and n: "notify_inv old s'"
  shows "mq_inv old s'"
proof -
  have c: "created old s" "m_note_fd s = Some (new_id old)" "\<not> before_join (m_note s)"
    using mq_invD(1)[OF inv] j by (auto simp: naming_inv_def joined_def created_def)
  have o: "p \<noteq> NUnborn" "m_note s \<noteq> NUnborn"
    using p c by auto
  show ?thesis
  proof (rule mq_invI)
    show "naming_inv old s'"
      using mq_invD(1)[OF inv] c p by (simp add: s' naming_inv_def created_def)
    show "thread_inv s'"
      using mq_invD(2)[OF inv] o by (simp add: s' thread_inv_def)
    show "traffic_inv old s'"
      using created_opened[OF inv c(1)] mq_invD(3)[OF inv] c by (simp add: s' traffic_inv_def created_def joined_def)
    show "output_inv old s'"
      using mq_invD(4)[OF inv] j p b by (simp add: s' output_inv_def joined_def)
  qed (rule n)
qed

lemma mq_inv_register:
  assumes inv: "mq_inv old s" and j: "joined old s" and pc: "m_note s = NNotify" "\<not> mq_reg (new_queue old s)"
    and s': "s' = s\<lparr>m_queues := (m_queues s)[new_id old := (new_queue old s)\<lparr>mq_reg := True\<rparr>], m_note := NReceive\<rparr>"
  shows "mq_inv old s'"
proof (rule mq_invI)
  have c: "length (m_queues s) = Suc (new_id old)" "m_note_fd s = Some (new_id old)"
    using mq_invD(1)[OF inv] j by (auto simp: naming_inv_def joined_def created_def)
  show "naming_inv old s'"
    using mq_invD(1)[OF inv] c pc by (auto simp: s' naming_inv_def created_def)
  show "thread_inv s'"
    using mq_invD(2)[OF inv] pc by (simp add: s' thread_inv_def)
  show "traffic_inv old s'"
    using created_opened[OF inv] mq_invD(3)[OF inv] c by (simp add: s' traffic_inv_def created_def joined_def)
  show "output_inv old s'"
    using mq_invD(4)[OF inv] pc c by (simp add: s' output_inv_def joined_def)
  show "notify_inv old s'"
    using mq_invD(5)[OF inv] c pc by (simp add: s' notify_inv_def created_def joined_def)
qed

lemma mq_inv_joined:
  assumes inv: "mq_inv old s" and j: "joined old s" and step: "thread_mq_notify_step ok cleared s = Some s'"
  shows "mq_inv old s'"
proof -
  let ?q = "new_queue old s"
  have c: "created old s" "m_note_fd s = Some (new_id old)" "\<not> before_join (m_note s)"
    using mq_invD(1)[OF inv] j by (auto simp: naming_inv_def joined_def created_def)
  have q: "mq_msgsize ?q = MQ_MSG_BUF_MAX"
    using mq_invD(3)[OF inv] c(1) by (simp add: traffic_inv_def)
  have n: "notify_inv old s" "created old s" "joined old s"
    using mq_invD(5)[OF inv] c j by simp_all
  have b: "looping (m_note s) \<Longrightarrow> m_buff s = replicate MQ_MSG_BUF_MAX NUL \<or>
      m_buff s = demo_msg @ replicate (MQ_MSG_BUF_MAX - iSendLen) NUL"
    using mq_invD(4)[OF inv] j by (simp add: output_inv_def)
  have quit: ?thesis if "s' = s\<lparr>m_dangling := d, m_note := NEnd\<rparr>" for d
    using that n joined_move[OF inv j, where p = NEnd and b = "m_buff s" and s' = s' and d = d and e = "m_pending s"]
    by (simp add: notify_inv_def created_def joined_def)
  show ?thesis
  proof (cases "m_note s")
    case NAttr
    show ?thesis
    proof (cases ok)
      case True
      then have "s' = s\<lparr>m_buff := replicate MQ_MSG_BUF_MAX NUL, m_note := NNotify\<rparr>"
        using step NAttr c q by (simp add: thread_mq_notify_step_def)
      then show ?thesis
        using NAttr n joined_move[OF inv j, where p = NNotify and b = "replicate MQ_MSG_BUF_MAX NUL" and s' = s' and d = "m_dangling s" and e = "m_pending s"]
        by (simp add: notify_inv_def created_def joined_def)
    next
      case False
      then show ?thesis
        using step NAttr quit[of "m_dangling s"] by (simp add: thread_mq_notify_step_def)
    qed
  next
    case NNotify
    show ?thesis
    proof (cases "ok \<and> \<not> mq_reg ?q")
      case True
      then show ?thesis
        using step NNotify c mq_inv_register[OF inv j NNotify]
        by (simp add: thread_mq_notify_step_def mq_notify_def Let_def)
    next
      case False
      then show ?thesis
        using step NNotify c quit[of "m_dangling s"]
        by (cases ok) (simp_all add: thread_mq_notify_step_def mq_notify_def)
    qed
  next
    case NReceive
    show ?thesis
    proof (cases "mq_msgs ?q")
      case Nil
      then have "s' = s\<lparr>m_note := NSigwait\<rparr>"
        using step NReceive c by (simp add: thread_mq_notify_step_def mq_receive_def)
      then show ?thesis
        using NReceive n b Nil joined_move[OF inv j, where p = NSigwait and b = "m_buff s" and s' = s' and d = "m_dangling s" and e = "m_pending s"]
        by (simp add: notify_inv_def created_def joined_def)
    next
      case (Cons m ms)
      then show ?thesis
        using mq_inv_receive[OF inv j NReceive _ step] by blast
    qed
  next
    case NSigwait
    let ?d = "m_dangling s \<or> is_returned (m_main s)"
    show ?thesis
    proof (cases "m_frame_lost s \<and> \<not> ok")
      case True
      then show ?thesis
        using step NSigwait quit[of ?d] by (simp add: thread_mq_notify_step_def)
    next
      case False
      then obtain e where "s' = s\<lparr>m_dangling := ?d, m_pending := e, m_note := NNotify\<rparr>" "m_frame_lost s \<or> (m_pending s \<and> \<not> e)"
        using step NSigwait by (auto simp: thread_mq_notify_step_def Let_def split: if_splits)
      then show ?thesis
        using NSigwait n b joined_move[OF inv j, where p = NNotify and b = "m_buff s" and s' = s' and d = ?d and e = e]
        by (auto simp: notify_inv_def created_def joined_def)
    qed
  qed (use step c in \<open>simp_all add: thread_mq_notify_step_def\<close>)
qed

text \<open>On a queue left by an earlier run the consumer does not touch that of the producer.\<close>

lemma mq_inv_stale:
  assumes inv: "mq_inv old s" and fd: "m_note_fd s = Some fd" "\<not> joined old s" "\<not> before_join (m_note s)"
    and same: "m_name s' = m_name s" "m_masked s' = m_masked s" "m_killed s' = m_killed s" "m_main s' = m_main s"
      "m_prod s' = m_prod s" "m_prod_fd s' = m_prod_fd s" "m_note_fd s' = m_note_fd s" "m_sent s' = m_sent s"
    and q: "m_queues s' = (m_queues s)[fd := q]" and e: "m_pending s' \<longrightarrow> m_pending s"
    and p: "\<not> before_join (m_note s')" "m_note s' \<noteq> NAttr"
  shows "mq_inv old s'"
proof -
  have n: "m_note s' \<noteq> NUnborn" "m_note s \<noteq> NUnborn"
    using fd(3) p by auto
  have o: "fd \<noteq> new_id old"
    using fd by (auto simp: joined_def)
  show ?thesis
  proof (rule mq_invI)
    show "naming_inv old s'"
      using mq_invD(1)[OF inv] p fd by (simp add: same q naming_inv_def created_def)
    show "thread_inv s'"
      using mq_invD(2)[OF inv] n by (simp add: same thread_inv_def)
    show "traffic_inv old s'" "notify_inv old s'"
      using mq_invD(3,5)[OF inv] o e fd by (auto simp: same q traffic_inv_def notify_inv_def created_def joined_def)
    show "output_inv old s'"
      using o fd by (simp add: same output_inv_def joined_def)
  qed
qed

lemma mq_inv_waiting:
  assumes inv: "mq_inv old s" and pc: "before_join (m_note s)" and step: "thread_mq_notify_step ok cleared s = Some s'"
  shows "mq_inv old s'"
proof -
  have nj: "m_note_fd s = None" "m_received s = []" "m_lines s = []"
    using mq_invD(1)[OF inv] pc by (auto simp: naming_inv_def)
  note inv5 = mq_invD[OF inv]
  have move: ?thesis if "s' = s\<lparr>m_note := p\<rparr>" "p = NOpen \<or> p = NEnd" "m_note s \<noteq> NUnborn" for p
  proof (rule mq_invI)
    show "naming_inv old s'"
      using inv5(1) that nj by (auto simp: naming_inv_def created_def)
    show "thread_inv s'"
      using inv5(2) that by (auto simp: thread_inv_def)
    show "traffic_inv old s'" "output_inv old s'" "notify_inv old s'"
      using inv5(3-5) that nj by (auto simp: traffic_inv_def output_inv_def notify_inv_def created_def joined_def)
  qed
  have join: ?thesis if "m_note s = NOpen" "m_name s = Some i" "s' = s\<lparr>m_note_fd := Some i, m_note := NAttr\<rparr>" for i
  proof (rule mq_invI)
    show "naming_inv old s'"
      using inv5(1) that nj by (simp add: naming_inv_def created_def)
    show "thread_inv s'"
      using inv5(2) that by (simp add: thread_inv_def)
    show "traffic_inv old s'" "output_inv old s'" "notify_inv old s'"
      using inv5(3-5) that nj by (auto simp: traffic_inv_def output_inv_def notify_inv_def created_def joined_def)
  qed
  show ?thesis
    using step pc move join
    by (cases "m_note s"; cases ok; cases "m_name s") (auto simp: thread_mq_notify_step_def before_join_def)
qed

lemma mq_inv_consumer:
  assumes inv: "mq_inv old s" and step: "thread_mq_notify_step ok cleared s = Some s'"
  shows "mq_inv old s'"
proof (cases "joined old s \<or> before_join (m_note s)")
  case True
  then show ?thesis
    using mq_inv_joined[OF inv _ step] mq_inv_waiting[OF inv _ step] by blast
next
  case False
  have at: "m_note s = NAttr \<or> looping (m_note s)"
    using step False by (cases "m_note s") (auto simp: thread_mq_notify_step_def)
  then obtain fd where fd: "m_note_fd s = Some fd"
    using mq_invD(1)[OF inv] by (auto simp: naming_inv_def)
  have nb: "\<not> before_join (m_note s)" "\<not> joined old s"
    using False by simp_all
  note stale = mq_inv_stale[OF inv fd nb(2,1), of s']
  have point: "\<not> before_join (m_note s')" "m_note s' \<noteq> NAttr" "m_pending s' \<longrightarrow> m_pending s"
    using step nb by (cases "m_note s"; auto simp: thread_mq_notify_step_def Let_def split: if_splits option.splits prod.splits)+
  have same: "m_name s' = m_name s" "m_masked s' = m_masked s" "m_killed s' = m_killed s" "m_main s' = m_main s"
      "m_prod s' = m_prod s" "m_prod_fd s' = m_prod_fd s" "m_note_fd s' = m_note_fd s" "m_sent s' = m_sent s"
    using step nb by (cases "m_note s"; auto simp: thread_mq_notify_step_def Let_def split: if_splits option.splits prod.splits)+
  have "\<exists>q. m_queues s' = (m_queues s)[fd := q]"
  proof (cases "m_queues s' = m_queues s")
    case True
    then show ?thesis
      by (intro exI[of _ "m_queues s ! fd"]) simp
  next
    case False
    then obtain q where "m_queues s' = (m_queues s)[fd := q]"
      using step nb fd by (cases "m_note s"; auto simp: thread_mq_notify_step_def Let_def split: if_splits option.splits prod.splits)
    then show ?thesis ..
  qed
  then show ?thesis
    using stale[OF same _ point(3,1,2)] by blast
qed

interpretation mqi: invariant_of "mq_init old" mq_step "mq_inv old" for old
proof
  show "mq_inv old (mq_init old)"
    by (rule mq_inv_init)
  show "mq_inv old s'" if "mq_inv old s" "mq_step a s s'" for a s s'
    using that(2,1)
    by cases (auto intro: mq_inv_main mq_inv_productor mq_inv_consumer mq_inv_stack)
qed



section \<open>Schedules\<close>

datatype mq_choice = MainDoes bool | ProductorDoes bool | NotifyDoes bool bool

fun mq_exec1 :: "mq_choice \<Rightarrow> mq_state \<Rightarrow> mq_state option" where
  "mq_exec1 (MainDoes ok) s = TestMqThread_step ok s"
| "mq_exec1 (ProductorDoes ok) s = thread_productor_step ok s"
| "mq_exec1 (NotifyDoes ok c) s = thread_mq_notify_step ok c s"

fun mq_chooser :: "mq_choice \<Rightarrow> mq_actor" where
  "mq_chooser (MainDoes ok) = MqMain"
| "mq_chooser (ProductorDoes ok) = MqProductor"
| "mq_chooser (NotifyDoes ok c) = MqNotify"

lemma mq_exec1_step: "mq_exec1 c s = Some s' \<Longrightarrow> mq_step (mq_chooser c) s s'"
  by (cases c) (auto intro: mq_step.intros)

lemma mq_exec_reaches:
  "exec mq_exec1 cs s = Some s' \<Longrightarrow> reaches (mq_init old) mq_step s \<Longrightarrow> reaches (mq_init old) mq_step s'"
  by (induction cs arbitrary: s) (auto simp: bind_eq_Some_conv intro: reaches_step mq_exec1_step)

text \<open>All threads start, the consumer joins and waits, then messages are sent and received.\<close>

definition mq_schedule :: "mq_choice list" where
  "mq_schedule =
     [MainDoes True, MainDoes True, MainDoes True, MainDoes True, ProductorDoes True, ProductorDoes True] @
     replicate 5 (NotifyDoes True True)"

definition mq_cycle :: "mq_choice list" where
  "mq_cycle = [ProductorDoes True, ProductorDoes True] @ replicate 4 (NotifyDoes True True)"


section \<open>Safety\<close>

text \<open>C12: In every state that the threads of the message queue demo can reach, whatever queue an
  earlier run has left under the name, once the consumer has opened the queue of the producer: every message sent was received or is
  still in the queue, in order, at most ten are queued, each one received was printed
  with its priority and length, the read of the buffer never runs past it and SIGUSR1 never ends the
  process. As long as the memory of the signal set is intact, registering for the next
  notification never fails, and no wakeup is lost: a consumer that waits for the signal
  while messages are queued has it pending.\<close>

theorem mq_demo_safe:
  assumes "reaches (mq_init old) mq_step s" "joined old s"
  shows "m_sent s = m_received s @ map snd (mq_msgs (new_queue old s)) \<and>
    length (mq_msgs (new_queue old s)) \<le> MQ_MSG_NUM_MAX \<and>
    m_lines s = map (\<lambda>m. (99, length m, m)) (m_received s) \<and> m_note s \<noteq> NUndefined \<and> \<not> m_killed s \<and>
    (\<not> m_frame_lost s \<longrightarrow>
       (m_note s = NNotify \<longrightarrow> mq_notify (new_queue old s) \<noteq> None) \<and>
       (m_note s = NSigwait \<and> mq_msgs (new_queue old s) \<noteq> [] \<longrightarrow> m_pending s))"
proof -
  have inv: "mq_inv old s"
    using assms(1) by (rule mqi.reaches_inv)
  have c: "created old s"
    using mq_invD(1)[OF inv] assms(2) by (auto simp: naming_inv_def joined_def created_def)
  show ?thesis
    using mq_invD(2-5)[OF inv] c assms(2)
    by (auto simp: thread_inv_def traffic_inv_def output_inv_def notify_inv_def mq_notify_def)
qed

lemma mq_schedule_exec:
  "(case exec mq_exec1 (mq_schedule @ [ProductorDoes True, ProductorDoes True]) (mq_init None) of None \<Rightarrow> False
    | Some s \<Rightarrow> joined None s \<and> m_note s = NSigwait \<and> \<not> m_frame_lost s \<and> m_sent s = [demo_msg] \<and>
        mq_msgs (new_queue None s) = [(99, demo_msg)]) = True"
  by code_simp

theorem mq_demo_safe_witness:
  "\<exists>s. reaches (mq_init None) mq_step s \<and> joined None s \<and> m_note s = NSigwait \<and> m_sent s = [demo_msg] \<and>
     m_received s = [] \<and> m_pending s"
proof -
  obtain s where s: "exec mq_exec1 (mq_schedule @ [ProductorDoes True, ProductorDoes True]) (mq_init None) = Some s"
      "joined None s" "m_note s = NSigwait" "\<not> m_frame_lost s" "m_sent s = [demo_msg]"
      "mq_msgs (new_queue None s) = [(99, demo_msg)]"
    using mq_schedule_exec by (auto split: option.splits)
  have r: "reaches (mq_init None) mq_step s"
    by (rule mq_exec_reaches[OF s(1) reaches_init])
  then show ?thesis
    using mq_demo_safe[OF r s(2)] s by (intro exI[of _ s]) simp
qed

end
