(* ===== verification/Message_Live.thy ===== *)
theory Message_Live
  imports Message_Queue
begin

text \<open>
  Runs of the message queue demo: in a fair run every message that is sent is received, and two
  schedules in which the demo fails because its threads are not synchronised.
\<close>


section \<open>Steps of the consumer\<close>

lemma mq_others:
  assumes "mq_step a s s'" "a \<noteq> MqNotify" "m_note s \<noteq> NUnborn" "mq_inv old s"
  shows "m_note s' = m_note s \<and> m_note_fd s' = m_note_fd s \<and> m_received s' = m_received s"
  using assms
  by cases (auto simp: mq_inv_def thread_inv_def TestMqThread_step_def thread_productor_step_def Let_def
      split: if_splits mq_main_pc.splits prod_pc.splits option.splits prod.splits mq_result.splits)

lemma mq_sent_mono:
  assumes "mq_step a s s'"
  shows "\<exists>ms. m_sent s' = m_sent s @ ms"
  using assms
  by cases (auto simp: TestMqThread_step_def thread_productor_step_def thread_mq_notify_step_def Let_def
      split: if_splits mq_main_pc.splits prod_pc.splits note_pc.splits option.splits prod.splits mq_result.splits)

lemma mq_received_mono:
  assumes "mq_step a s s'"
  shows "\<exists>ms. m_received s' = m_received s @ ms"
  using assms
  by cases (auto simp: TestMqThread_step_def thread_productor_step_def thread_mq_notify_step_def Let_def
      split: if_splits mq_main_pc.splits prod_pc.splits note_pc.splits option.splits prod.splits mq_result.splits)

lemma joined_points:
  assumes "mq_inv old s" "joined old s" "m_note s \<noteq> NEnd"
  shows "m_note s \<in> {NAttr, NNotify, NReceive, NSigwait}"
  using mq_invD(1,4)[OF assms(1)] assms(2,3)
  by (cases "m_note s") (auto simp: naming_inv_def output_inv_def joined_def)

lemma joined_step:
  assumes inv: "mq_inv old s" and j: "joined old s" and step: "mq_step a s s'"
  shows "joined old s'"
proof (cases "a = MqNotify")
  case True
  have "\<not> before_join (m_note s)"
    using mq_invD(1)[OF inv] j by (auto simp: naming_inv_def joined_def)
  then show ?thesis
    using step[unfolded True] j
    by (elim mq_consumerE, cases "m_note s")
      (auto simp: thread_mq_notify_step_def joined_def Let_def split: if_splits option.splits prod.splits)
next
  case False
  have "m_note s \<noteq> NUnborn"
    using mq_invD(1)[OF inv] j by (auto simp: naming_inv_def joined_def)
  then show ?thesis
    using mq_others[OF step False _ inv] j by (simp add: joined_def)
qed

definition note_rank :: "note_pc \<Rightarrow> nat" where
  "note_rank p = (case p of NAttr \<Rightarrow> 3 | NSigwait \<Rightarrow> 3 | NNotify \<Rightarrow> 2 | NReceive \<Rightarrow> 1 | _ \<Rightarrow> 0)"

text \<open>While messages are queued the consumer can move, and it moves towards receiving one.\<close>

lemma note_enabled:
  assumes inv: "mq_inv old s" and j: "joined old s" and pc: "m_note s \<noteq> NEnd" and lost: "\<not> m_frame_lost s"
    and msgs: "mq_msgs (new_queue old s) \<noteq> []"
  shows "\<exists>s'. mq_step MqNotify s s'"
proof -
  have p: "m_note s = NSigwait \<Longrightarrow> m_pending s"
    using mq_invD(1,5)[OF inv] j lost msgs by (auto simp: naming_inv_def notify_inv_def joined_def created_def)
  have "thread_mq_notify_step False False s \<noteq> None"
    using joined_points[OF inv j pc] p lost
    by (auto simp: thread_mq_notify_step_def Let_def split: option.splits prod.splits)
  then show ?thesis
    by (blast intro: mq_consumer)
qed

lemma note_progress:
  assumes inv: "mq_inv old s" and j: "joined old s" and pc: "m_note s \<noteq> NEnd" "m_note s' \<noteq> NEnd"
    and lost: "\<not> m_frame_lost s" and msgs: "mq_msgs (new_queue old s) \<noteq> []" and step: "mq_step MqNotify s s'"
  shows "note_rank (m_note s') < note_rank (m_note s) \<or> length (m_received s) < length (m_received s')"
proof -
  obtain ok c where st: "thread_mq_notify_step ok c s = Some s'"
    using step by (rule mq_consumerE)
  show ?thesis
  proof (cases "m_note s = NReceive")
    case True
    obtain m ms where "mq_msgs (new_queue old s) = m # ms"
      using msgs by (cases "mq_msgs (new_queue old s)") auto
    then show ?thesis
      using mq_inv_receive[OF inv j True _ st] by simp
  next
    case False
    then have "m_note s \<in> {NAttr, NNotify, NSigwait}"
      using joined_points[OF inv j pc(1)] by simp
    then show ?thesis
      using st pc lost
      by (auto simp: thread_mq_notify_step_def note_rank_def Let_def split: if_splits option.splits)
  qed
qed


section \<open>Liveness\<close>

definition mq_fair_run :: "mqueue option \<Rightarrow> (nat \<Rightarrow> mq_state) \<Rightarrow> (nat \<Rightarrow> mq_actor) \<Rightarrow> bool" where
  "mq_fair_run old \<sigma> \<alpha> \<longleftrightarrow> run (mq_init old) mq_step \<sigma> \<alpha> \<and> fair_for mq_step \<sigma> \<alpha> MqNotify"

lemma mq_run_step: "mq_fair_run old \<sigma> \<alpha> \<Longrightarrow> mq_step (\<alpha> n) (\<sigma> n) (\<sigma> (Suc n))"
  by (simp add: mq_fair_run_def run_def)

lemma mq_run_inv: "mq_fair_run old \<sigma> \<alpha> \<Longrightarrow> mq_inv old (\<sigma> n)"
  using mqi.reaches_inv run_reaches mq_fair_run_def by metis

lemma mq_run_joined:
  assumes run: "mq_fair_run old \<sigma> \<alpha>" and j: "joined old (\<sigma> a)" and n: "a \<le> n"
  shows "joined old (\<sigma> n)"
  using n by (induction rule: dec_induct) (auto intro: j joined_step mq_run_inv[OF run] mq_run_step[OF run])

lemma mq_run_sent:
  assumes run: "mq_fair_run old \<sigma> \<alpha>" and n: "a \<le> n"
  shows "\<exists>ms. m_sent (\<sigma> n) = m_sent (\<sigma> a) @ ms"
  using n
proof (induction rule: dec_induct)
  case (step n)
  then show ?case
    using mq_sent_mono[OF mq_run_step[OF run, of n]] by auto
qed simp

lemma joined_sent:
  assumes "mq_inv old s" "joined old s"
  shows "m_sent s = m_received s @ map snd (mq_msgs (new_queue old s))"
  using mq_invD(1,3)[OF assms(1)] assms(2) by (auto simp: naming_inv_def traffic_inv_def joined_def created_def)

text \<open>A run in which the consumer has joined, does not end, and receives fewer messages than were sent.\<close>

lemma starved_run_false:
  assumes run: "mq_fair_run old \<sigma> \<alpha>" and j: "joined old (\<sigma> N)"
    and alive: "\<forall>n. m_note (\<sigma> n) \<noteq> NEnd \<and> \<not> m_frame_lost (\<sigma> n)"
    and starved: "\<forall>n\<ge>N. length (m_received (\<sigma> n)) < length (m_sent (\<sigma> N))"
  shows False
proof -
  have joined: "joined old (\<sigma> n)" if "N \<le> n" for n
    by (rule mq_run_joined[OF run j that])
  have msgs: "mq_msgs (new_queue old (\<sigma> n)) \<noteq> []" if "N \<le> n" for n
  proof
    assume "mq_msgs (new_queue old (\<sigma> n)) = []"
    then have "m_sent (\<sigma> n) = m_received (\<sigma> n)"
      using joined_sent[OF mq_run_inv[OF run] joined[OF that]] by simp
    then show False
      using starved that mq_run_sent[OF run that] by (metis length_append linorder_not_less le_add1)
  qed
  let ?f = "\<lambda>i. length (m_received (\<sigma> (N + i)))"
  have grow: "?f i \<le> ?f (Suc i)" for i
    using mq_received_mono[OF mq_run_step[OF run, of "N + i"]] by auto
  have bound: "?f i \<le> length (m_sent (\<sigma> N))" for i
    using starved by (simp add: order_less_imp_le)
  obtain M where M: "\<forall>i\<ge>M. ?f i = ?f M"
    using bounded_stabilises[of ?f, OF grow bound] by blast
  let ?N = "N + M" and ?r = "\<lambda>n. note_rank (m_note (\<sigma> n))"
  have same: "length (m_received (\<sigma> (Suc n))) = length (m_received (\<sigma> n))" if "?N \<le> n" for n
    using M[rule_format, of "n - N"] M[rule_format, of "Suc n - N"] that by simp
  have on: "\<exists>s'. mq_step MqNotify (\<sigma> n) s'" if "N \<le> n" for n
    using note_enabled[OF mq_run_inv[OF run] joined[OF that] _ _ msgs[OF that]] alive by simp
  then have acts: "\<exists>m\<ge>n. \<alpha> m = MqNotify" for n
    using run unfolding mq_fair_run_def fair_for_def by (meson max.cobounded1 max.cobounded2)
  have "\<exists>n\<ge>?N. ?r n = 0"
  proof (rule rank_reaches_zero[where \<alpha> = \<alpha> and a = MqNotify])
    show "\<exists>m\<ge>n. \<alpha> m = MqNotify" for n
      by (rule acts)
    show "?r (Suc n) \<le> ?r n" if "?N \<le> n" "\<alpha> n \<noteq> MqNotify" for n
    proof -
      have "m_note (\<sigma> n) \<noteq> NUnborn"
        using joined_points[OF mq_run_inv[OF run] joined, of n] that alive by auto
      then show ?thesis
        using mq_others[OF mq_run_step[OF run] that(2) _ mq_run_inv[OF run]] by simp
    qed
    show "?r (Suc n) < ?r n" if "?N \<le> n" "\<alpha> n = MqNotify" for n
      using note_progress[OF mq_run_inv[OF run] joined _ _ _ msgs, of n "\<sigma> (Suc n)"] mq_run_step[OF run, of n] same[of n] that alive
      by simp
  qed
  then obtain n where n: "?N \<le> n" "?r n = 0" by blast
  then have "m_note (\<sigma> n) \<in> {NAttr, NNotify, NReceive, NSigwait}"
    using joined_points[OF mq_run_inv[OF run] joined] alive by simp
  then show False
    using n(2) by (auto simp: note_rank_def)
qed

text \<open>C13: In a run of the message queue demo that is fair to the consumer, if the consumer has opened the
  queue of the producer, none of its calls fails and the memory of its signal set is
  intact, every message that is ever sent is eventually received, in the order of sending.\<close>

theorem mq_demo_live:
  assumes run: "mq_fair_run old \<sigma> \<alpha>" and joins: "joined old (\<sigma> a)"
    and alive: "\<forall>n. m_note (\<sigma> n) \<noteq> NEnd \<and> \<not> m_frame_lost (\<sigma> n)"
  shows "\<exists>m. take (length (m_sent (\<sigma> n))) (m_received (\<sigma> m)) = m_sent (\<sigma> n)"
proof -
  let ?N = "max a n"
  have j: "joined old (\<sigma> ?N)"
    by (rule mq_run_joined[OF run joins]) simp
  obtain m where m: "?N \<le> m" "length (m_sent (\<sigma> ?N)) \<le> length (m_received (\<sigma> m))"
    using starved_run_false[OF run j alive] by (meson linorder_not_less)
  have "m_sent (\<sigma> m) = m_received (\<sigma> m) @ map snd (mq_msgs (new_queue old (\<sigma> m)))"
    by (rule joined_sent[OF mq_run_inv[OF run] mq_run_joined[OF run j m(1)]])
  moreover obtain xs ys where "m_sent (\<sigma> ?N) = m_sent (\<sigma> n) @ xs" "m_sent (\<sigma> m) = m_sent (\<sigma> ?N) @ ys"
    using mq_run_sent[OF run, of n ?N] mq_run_sent[OF run m(1)] by auto
  ultimately have "take (length (m_sent (\<sigma> n))) (m_received (\<sigma> m)) = m_sent (\<sigma> n)"
    using m(2) by (metis append.assoc append_eq_append_conv_if append_take_drop_id length_append le_add1 le_trans take_append)
  then show ?thesis ..
qed



section \<open>A concrete fair run\<close>

text \<open>
  After the start the producer sends a message, the consumer wakes up, registers again, receives
  it and waits, for ever. The schedule is restricted to steps after which the consumer is alive.
\<close>

definition mq_alive :: "mq_state \<Rightarrow> bool" where
  "mq_alive s \<longleftrightarrow> m_note s \<noteq> NEnd \<and> \<not> m_frame_lost s"

definition mq_exec_alive :: "mq_choice \<Rightarrow> mq_state \<Rightarrow> mq_state option" where
  "mq_exec_alive c s = do { s' \<leftarrow> mq_exec1 c s; guard (mq_alive s'); Some s' }"

lemma mq_exec_alive_Some: "mq_exec_alive c s = Some s' \<Longrightarrow> mq_exec1 c s = Some s' \<and> mq_alive s'"
  by (auto simp: mq_exec_alive_def bind_eq_Some_conv)

definition mq_quiet :: "mq_state \<Rightarrow> bool" where
  "mq_quiet s \<longleftrightarrow>
     m_queues s = [\<lparr>mq_msgs = [], mq_maxmsg = MQ_MSG_NUM_MAX, mq_msgsize = MQ_MSG_BUF_MAX, mq_reg = True\<rparr>] \<and>
     m_note_fd s = Some 0 \<and> m_prod s = PSend \<and> m_prod_fd s = 0 \<and> m_note s = NSigwait \<and> m_masked s \<and>
     \<not> m_pending s \<and> \<not> m_frame_lost s \<and>
     (m_buff s = replicate MQ_MSG_BUF_MAX NUL \<or> m_buff s = demo_msg @ replicate (MQ_MSG_BUF_MAX - iSendLen) NUL)"

lemma mq_schedule_quiet:
  "(case exec mq_exec_alive mq_schedule (mq_init None) of None \<Rightarrow> False | Some s \<Rightarrow> mq_quiet s \<and> m_sent s = []) = True"
  by code_simp

lemma mq_cycle_quiet:
  assumes q: "mq_quiet s"
  shows "\<exists>s'. exec mq_exec_alive mq_cycle s = Some s' \<and> mq_quiet s'"
proof -
  note b = print_buff[of "m_buff s"]
  have "mq_send 99 demo_msg \<lparr>mq_msgs = [], mq_maxmsg = MQ_MSG_NUM_MAX, mq_msgsize = MQ_MSG_BUF_MAX, mq_reg = True\<rparr> =
    (Sent, \<lparr>mq_msgs = [(99, demo_msg)], mq_maxmsg = MQ_MSG_NUM_MAX, mq_msgsize = MQ_MSG_BUF_MAX, mq_reg = False\<rparr>, True)"
    by (simp add: mq_send_def MQ_MSG_BUF_MAX_def MQ_MSG_NUM_MAX_def)
  then show ?thesis
    using q b
    by (auto simp: mq_quiet_def mq_cycle_def numeral_eq_Suc mq_exec_alive_def mq_alive_def thread_productor_step_def
        thread_mq_notify_step_def take_acSendBuf raise_sigusr1_def mq_notify_def mq_receive_def Let_def)
qed

interpretation mqr: lasso_run mq_exec_alive mq_chooser mq_step "mq_init None" mq_schedule mq_cycle mq_quiet
proof
  show "mq_step (mq_chooser c) s s'" if "mq_exec_alive c s = Some s'" for c s s'
    using mq_exec_alive_Some[OF that] mq_exec1_step by blast
  show "\<exists>s. exec mq_exec_alive mq_schedule (mq_init None) = Some s \<and> mq_quiet s"
    using mq_schedule_quiet by (auto split: option.splits)
  show "\<exists>s'. exec mq_exec_alive mq_cycle s = Some s' \<and> mq_quiet s'" if "mq_quiet s" for s
    by (rule mq_cycle_quiet[OF that])
qed (simp add: mq_cycle_def)

definition mq_demo_state :: "nat \<Rightarrow> mq_state" where
  "mq_demo_state = state_at mq_exec_alive (lasso mq_schedule mq_cycle) (mq_init None)"

definition mq_demo_actor :: "nat \<Rightarrow> mq_actor" where
  "mq_demo_actor n = mq_chooser (lasso mq_schedule mq_cycle n)"

lemma mq_demo_alive: "mq_alive (mq_demo_state n)"
proof (cases n)
  case 0
  then show ?thesis
    by (simp add: mq_demo_state_def mq_alive_def mq_init_def)
next
  case (Suc m)
  then show ?thesis
    using mq_exec_alive_Some[OF mqr.st_exec[of m]] by (simp add: mq_demo_state_def)
qed

lemma mq_demo_fair: "mq_fair_run None mq_demo_state mq_demo_actor"
  unfolding mq_fair_run_def mq_demo_state_def mq_demo_actor_def
proof
  show "run (mq_init None) mq_step mqr.st (\<lambda>n. mq_chooser (lasso mq_schedule mq_cycle n))"
    by (rule mqr.st_run)
  show "fair_for mq_step mqr.st (\<lambda>n. mq_chooser (lasso mq_schedule mq_cycle n)) MqNotify"
    by (rule mqr.cyc_fair) (force simp: mq_cycle_def)
qed

lemma mq_demo_sent: "m_sent (mq_demo_state 12) = [demo_msg]"
  by code_simp

theorem mq_demo_live_witness:
  "mq_fair_run None mq_demo_state mq_demo_actor \<and>
   (\<exists>m. take 1 (m_received (mq_demo_state m)) = [demo_msg])"
proof -
  have "mq_quiet (mq_demo_state (length mq_schedule))"
    using mqr.st_pre(1) by (simp add: mq_demo_state_def)
  then have "joined None (mq_demo_state (length mq_schedule))"
    by (simp add: mq_quiet_def joined_def new_id_def)
  then show ?thesis
    using mq_demo_live[OF mq_demo_fair, of "length mq_schedule" 12] mq_demo_alive mq_demo_fair
    by (simp add: mq_alive_def mq_demo_sent)
qed


section \<open>What goes wrong\<close>

text \<open>The threads of the demo are not synchronised. The consumer can open the queue that an earlier run
  has left before the producer unlinks it: it then waits for a signal that nobody sends while the
  producer fills the new queue and can send no more. And the consumer reads its signal set after the function that declares it
  has returned.\<close>

definition mq_left_over :: mqueue where
  "mq_left_over = \<lparr>mq_msgs = [], mq_maxmsg = 10, mq_msgsize = 1024, mq_reg = False\<rparr>"

theorem mq_demo_stale_queue:
  "\<exists>s. reaches (mq_init (Some mq_left_over)) mq_step s \<and> m_note s = NSigwait \<and> \<not> m_pending s \<and>
     length (mq_msgs (new_queue (Some mq_left_over) s)) = 10 \<and> m_received s = [] \<and>
     (\<forall>s'. \<not> mq_step MqNotify s s') \<and> (\<forall>s'. mq_step MqProductor s s' \<longrightarrow> m_queues s' = m_queues s)"
proof -
  let ?cs = "replicate 4 (MainDoes True) @ replicate 5 (NotifyDoes True True) @ replicate 22 (ProductorDoes True)"
  have "(case exec mq_exec1 ?cs (mq_init (Some mq_left_over)) of None \<Rightarrow> False
    | Some s \<Rightarrow> m_note s = NSigwait \<and> \<not> m_pending s \<and> \<not> m_frame_lost s \<and> length (mq_msgs (new_queue (Some mq_left_over) s)) = 10 \<and>
        m_received s = [] \<and> m_prod s = PSend \<and> m_prod_fd s = 1 \<and> length (m_queues s) = 2 \<and>
        mq_send 99 (take iSendLen acSendBuf) (m_queues s ! 1) = (EAGAIN, m_queues s ! 1, False)) = True"
    by code_simp
  then obtain s where s: "exec mq_exec1 ?cs (mq_init (Some mq_left_over)) = Some s" "m_note s = NSigwait" "\<not> m_pending s"
      "\<not> m_frame_lost s" "length (mq_msgs (new_queue (Some mq_left_over) s)) = 10" "m_received s = []" "m_prod s = PSend"
      "m_prod_fd s = 1" "mq_send 99 (take iSendLen acSendBuf) (m_queues s ! 1) = (EAGAIN, m_queues s ! 1, False)"
    by (auto split: option.splits)
  have "reaches (mq_init (Some mq_left_over)) mq_step s"
    by (rule mq_exec_reaches[OF s(1) reaches_init])
  moreover have "\<not> mq_step MqNotify s s'" for s'
    using s by (auto elim!: mq_consumerE simp: thread_mq_notify_step_def)
  moreover have "mq_step MqProductor s s' \<Longrightarrow> m_queues s' = m_queues s" for s'
    using s by (auto elim!: mq_productorE simp: thread_productor_step_def split: if_splits)
  ultimately show ?thesis
    using s by (intro exI[of _ s]) simp
qed

theorem mq_demo_dangling: "\<exists>s. reaches (mq_init None) mq_step s \<and> m_dangling s"
proof -
  have "(case exec mq_exec1 (mq_schedule @ mq_cycle) (mq_init None) of None \<Rightarrow> False | Some s \<Rightarrow> m_dangling s) = True"
    by code_simp
  then obtain s where "exec mq_exec1 (mq_schedule @ mq_cycle) (mq_init None) = Some s" "m_dangling s"
    by (auto split: option.splits)
  then show ?thesis
    using mq_exec_reaches[OF _ reaches_init] by blast
qed

end
