(* ===== verification/Select_Server.thy ===== *)
theory Select_Server
  imports Machines
begin

text \<open>
  The select demo: \<open>src/src/select/server.c\<close> and any number of clients that run
  \<open>src/src/select/client.c\<close>, as one machine. A step is one system call of the server or of a client. The
  kernel is the listening queue and, for every connection, the bytes on the way in each
  direction.

  The server loops over the descriptor numbers below \<open>FD_SETSIZE\<close>; \<open>FD_SET\<close> of another number, such as the -1 of a
  failed accept, writes outside of the set (\<open>SBadFd\<close>). The use of a descriptor that is not open is
  \<open>SUndefined\<close>, since it leaves \<open>nread\<close> indeterminate. A write to a connection that the client has closed raises SIGPIPE, which ends the
  server.

  The clients do not check the results of \<open>read\<close> and \<open>write\<close>. On the local host these calls fail only when the
  process at the other end is gone: then \<open>read\<close> returns 0 or -1 and leaves \<open>ch\<close> as it is, and \<open>write\<close> may
  succeed, fail or raise SIGPIPE.
\<close>


section \<open>State\<close>

definition FD_SETSIZE :: int where
  "FD_SETSIZE = 1024"

type_synonym fd_set = "int \<Rightarrow> bool"

datatype client_pc = CConnect | CWrite1 | CRead1 | CSleep | CWrite2 | CRead2 | CClose | CEnd

text \<open>
  \<open>c_ch\<close> is the variable \<open>ch\<close> of the client and \<open>c_lines\<close> what it printed; \<open>c_up\<close> and \<open>c_down\<close> are the bytes on the
  way to the server and back.
\<close>

record client =
  c_pc :: client_pc
  c_ch :: u8
  c_lines :: "u8 list"
  c_up :: "u8 list"
  c_down :: "u8 list"
  c_closed :: bool

datatype server_pc =
    SSelect
  | SScan int fd_set
  | SReply int u8 fd_set
  | SExited
  | SBadFd
  | SUndefined
  | SKilled

text \<open>\<open>sv_conn fd\<close> is the client at the other end of the server's descriptor \<open>fd\<close>.\<close>

record sel_state =
  sv_pc :: server_pc
  sv_sockfd :: int
  sv_readfds :: fd_set
  sv_conn :: "int \<Rightarrow> nat option"
  sv_backlog :: "nat list"
  clients :: "nat \<Rightarrow> client"

definition sel_init :: "int \<Rightarrow> sel_state" where
  "sel_init server_sockfd =
     \<lparr>sv_pc = SSelect, sv_sockfd = server_sockfd, sv_readfds = (\<lambda>fd. False)(server_sockfd := True), sv_conn = \<lambda>fd. None,
      sv_backlog = [],
      clients = \<lambda>i. \<lparr>c_pc = CConnect, c_ch = 65, c_lines = [], c_up = [], c_down = [], c_closed = False\<rparr>\<rparr>"

definition client_upd :: "nat \<Rightarrow> client \<Rightarrow> sel_state \<Rightarrow> sel_state" where
  "client_upd i c s = s\<lparr>clients := (clients s)(i := c)\<rparr>"

text \<open>The server process has ended, or its behaviour is not defined any more.\<close>

fun has_ended :: "server_pc \<Rightarrow> bool" where
  "has_ended SExited = True"
| "has_ended SBadFd = True"
| "has_ended SUndefined = True"
| "has_ended SKilled = True"
| "has_ended _ = False"

definition server_down :: "sel_state \<Rightarrow> bool" where
  "server_down s \<longleftrightarrow> has_ended (sv_pc s)"

text \<open>When \<open>select\<close> reports a descriptor as readable.\<close>

definition readable :: "sel_state \<Rightarrow> int \<Rightarrow> bool" where
  "readable s fd \<longleftrightarrow>
     (if fd = sv_sockfd s then sv_backlog s \<noteq> []
      else case sv_conn s fd of None \<Rightarrow> False | Some i \<Rightarrow> c_up (clients s i) \<noteq> [] \<or> c_closed (clients s i))"


section \<open>The server\<close>

text \<open>
  \<open>testfds\<close> is what \<open>select\<close> leaves of the set: at least one descriptor, all of them readable. \<open>r\<close> is its result,
  \<open>n\<close> that of \<open>accept\<close>: an unused descriptor or -1.
\<close>

definition select_server_step :: "int \<Rightarrow> fd_set \<Rightarrow> int \<Rightarrow> sel_state \<Rightarrow> sel_state option" where
  "select_server_step r testfds n s =
     (case sv_pc s of
        SSelect \<Rightarrow>
          if r < 1 then Some (s\<lparr>sv_pc := SExited\<rparr>) else Some (s\<lparr>sv_pc := SScan 0 testfds\<rparr>)
      | SScan fd t \<Rightarrow>
          if \<not> fd < FD_SETSIZE then Some (s\<lparr>sv_pc := SSelect\<rparr>)
          else if \<not> t fd then Some (s\<lparr>sv_pc := SScan (fd + 1) t\<rparr>)
          else if fd = sv_sockfd s then
            (case sv_backlog s of
               [] \<Rightarrow> None
             | i # is \<Rightarrow>
                 if n < 0 \<or> \<not> n < FD_SETSIZE then Some (s\<lparr>sv_pc := SBadFd\<rparr>)
                 else Some (s\<lparr>sv_backlog := is, sv_conn := (sv_conn s)(n \<mapsto> i), sv_readfds := (sv_readfds s)(n := True),
                              sv_pc := SScan (fd + 1) t\<rparr>))
          else
            (case sv_conn s fd of
               None \<Rightarrow> Some (s\<lparr>sv_pc := SUndefined\<rparr>)
             | Some i \<Rightarrow>
                 (case c_up (clients s i) of
                    [] \<Rightarrow> Some (s\<lparr>sv_conn := (sv_conn s)(fd := None), sv_readfds := (sv_readfds s)(fd := False), sv_pc := SScan (fd + 1) t\<rparr>)
                  | ch # chs \<Rightarrow> Some (client_upd i ((clients s i)\<lparr>c_up := chs\<rparr>) (s\<lparr>sv_pc := SReply fd (ch + 1) t\<rparr>))))
      | SReply fd ch t \<Rightarrow>
          (case sv_conn s fd of
             None \<Rightarrow> Some (s\<lparr>sv_pc := SUndefined\<rparr>)
           | Some i \<Rightarrow>
               if c_closed (clients s i) then Some (s\<lparr>sv_pc := SKilled\<rparr>)
               else Some (client_upd i ((clients s i)\<lparr>c_down := c_down (clients s i) @ [ch]\<rparr>) (s\<lparr>sv_pc := SScan (fd + 1) t\<rparr>)))
      | _ \<Rightarrow> None)"

text \<open>What the kernel may answer.\<close>

definition kernel_answer :: "int \<Rightarrow> fd_set \<Rightarrow> int \<Rightarrow> sel_state \<Rightarrow> bool" where
  "kernel_answer r testfds n s \<longleftrightarrow>
     (sv_pc s = SSelect \<and> 1 \<le> r \<longrightarrow>
        (\<forall>fd. testfds fd \<longrightarrow> sv_readfds s fd \<and> readable s fd) \<and> (\<exists>fd. testfds fd)) \<and>
     (n = - 1 \<or> (0 \<le> n \<and> n \<noteq> sv_sockfd s \<and> sv_conn s n = None))"


section \<open>The client\<close>

text \<open>
  How a system call ends. A \<open>read\<close> that fails, or is at the end of the stream, leaves \<open>ch\<close> as it is, and what was on the
  way to the client may be lost.
\<close>

datatype call_result = Done | Failed | Sigpipe

definition client_write :: "call_result \<Rightarrow> client_pc \<Rightarrow> client \<Rightarrow> client" where
  "client_write r next_pc c =
     (case r of
        Done \<Rightarrow> c\<lparr>c_up := c_up c @ [c_ch c], c_pc := next_pc\<rparr>
      | Failed \<Rightarrow> c\<lparr>c_pc := next_pc\<rparr>
      | Sigpipe \<Rightarrow> c\<lparr>c_closed := True, c_pc := CEnd\<rparr>)"

text \<open>A \<open>read\<close> and the \<open>printf\<close> after it; the call waits while there is nothing to read.\<close>

definition client_read :: "call_result \<Rightarrow> client_pc \<Rightarrow> client \<Rightarrow> client option" where
  "client_read r next_pc c =
     (if r = Done then
        (case c_down c of
           [] \<Rightarrow> None
         | ch # chs \<Rightarrow> Some (c\<lparr>c_down := chs, c_ch := ch, c_lines := c_lines c @ [ch], c_pc := next_pc\<rparr>))
      else Some (c\<lparr>c_down := [], c_lines := c_lines c @ [c_ch c], c_pc := next_pc\<rparr>))"

definition select_client_step :: "call_result \<Rightarrow> nat \<Rightarrow> sel_state \<Rightarrow> sel_state option" where
  "select_client_step r i s =
     (let c = clients s i in
      case c_pc c of
        CConnect \<Rightarrow>
          if r \<noteq> Done then Some (client_upd i (c\<lparr>c_pc := CEnd\<rparr>) s)
          else Some (client_upd i (c\<lparr>c_pc := CWrite1\<rparr>) (s\<lparr>sv_backlog := sv_backlog s @ [i]\<rparr>))
      | CWrite1 \<Rightarrow> Some (client_upd i (client_write r CRead1 c) s)
      | CRead1 \<Rightarrow> map_option (\<lambda>c. client_upd i c s) (client_read r CSleep c)
      | CSleep \<Rightarrow> Some (client_upd i (c\<lparr>c_pc := CWrite2\<rparr>) s)
      | CWrite2 \<Rightarrow> Some (client_upd i (client_write r CRead2 c) s)
      | CRead2 \<Rightarrow> map_option (\<lambda>c. client_upd i c s) (client_read r CClose c)
      | CClose \<Rightarrow> Some (client_upd i (c\<lparr>c_closed := True, c_pc := CEnd\<rparr>) s)
      | CEnd \<Rightarrow> None)"

text \<open>What the kernel may answer a client: it can connect while the server runs, and apart from \<open>connect\<close> its calls fail only when
  the server has ended.\<close>

definition client_answer :: "call_result \<Rightarrow> nat \<Rightarrow> sel_state \<Rightarrow> bool" where
  "client_answer r i s \<longleftrightarrow>
     (case r of
        Done \<Rightarrow> c_pc (clients s i) = CConnect \<longrightarrow> \<not> server_down s
      | Failed \<Rightarrow> c_pc (clients s i) = CConnect \<or> server_down s
      | Sigpipe \<Rightarrow> (c_pc (clients s i) = CWrite1 \<or> c_pc (clients s i) = CWrite2) \<and> server_down s)"

datatype sel_actor = Server | Client nat

inductive sel_step :: "sel_actor \<Rightarrow> sel_state \<Rightarrow> sel_state \<Rightarrow> bool" where
  server_act: "select_server_step r testfds n s = Some s' \<Longrightarrow> kernel_answer r testfds n s \<Longrightarrow> sel_step Server s s'"
| client_act: "select_client_step r i s = Some s' \<Longrightarrow> client_answer r i s \<Longrightarrow> sel_step (Client i) s s'"


inductive_cases server_actE: "sel_step Server s s'"
inductive_cases client_actE: "sel_step (Client i) s s'"


section \<open>Invariant\<close>

definition accepted :: "sel_state \<Rightarrow> nat \<Rightarrow> bool" where
  "accepted s i \<longleftrightarrow> (\<exists>fd. sv_conn s fd = Some i)"

text \<open>The server has taken a byte from the client and not yet answered.\<close>

definition replying :: "sel_state \<Rightarrow> nat \<Rightarrow> u8 \<Rightarrow> bool" where
  "replying s i ch \<longleftrightarrow> (\<exists>fd t. sv_pc s = SReply fd ch t \<and> sv_conn s fd = Some i)"

definition idle :: "sel_state \<Rightarrow> nat \<Rightarrow> bool" where
  "idle s i \<longleftrightarrow> c_up (clients s i) = [] \<and> c_down (clients s i) = [] \<and> (\<forall>ch. \<not> replying s i ch)"

text \<open>The byte \<open>x\<close> is on its way to the server, in the server, or answered.\<close>

definition in_service :: "sel_state \<Rightarrow> nat \<Rightarrow> u8 \<Rightarrow> bool" where
  "in_service s i x \<longleftrightarrow>
     (c_up (clients s i) = [x] \<and> c_down (clients s i) = [] \<and> (\<forall>ch. \<not> replying s i ch)) \<or>
     (c_up (clients s i) = [] \<and> c_down (clients s i) = [] \<and> replying s i (x + 1)) \<or>
     (c_up (clients s i) = [] \<and> c_down (clients s i) = [x + 1] \<and> (\<forall>ch. \<not> replying s i ch))"

definition linked :: "sel_state \<Rightarrow> nat \<Rightarrow> bool" where
  "linked s i \<longleftrightarrow> \<not> c_closed (clients s i) \<and> (i \<in> set (sv_backlog s) \<or> accepted s i)"

definition client_inv :: "sel_state \<Rightarrow> nat \<Rightarrow> bool" where
  "client_inv s i \<longleftrightarrow>
     (let c = clients s i in
      case c_pc c of
        CConnect \<Rightarrow> c_ch c = 65 \<and> c_lines c = [] \<and> idle s i \<and> \<not> c_closed c \<and> i \<notin> set (sv_backlog s) \<and> \<not> accepted s i
      | CWrite1 \<Rightarrow> c_ch c = 65 \<and> c_lines c = [] \<and> idle s i \<and> linked s i
      | CRead1 \<Rightarrow> c_ch c = 65 \<and> c_lines c = [] \<and> in_service s i 65 \<and> linked s i
      | CSleep \<Rightarrow> c_ch c = 66 \<and> c_lines c = [66] \<and> idle s i \<and> linked s i
      | CWrite2 \<Rightarrow> c_ch c = 66 \<and> c_lines c = [66] \<and> idle s i \<and> linked s i
      | CRead2 \<Rightarrow> c_ch c = 66 \<and> c_lines c = [66] \<and> in_service s i 66 \<and> linked s i
      | CClose \<Rightarrow> c_ch c = 67 \<and> c_lines c = [66, 67] \<and> idle s i \<and> linked s i
      | CEnd \<Rightarrow> idle s i \<and>
          (if c_closed c then c_lines c = [66, 67]
           else c_lines c = [] \<and> i \<notin> set (sv_backlog s) \<and> \<not> accepted s i))"

text \<open>The descriptors from \<open>fd\<close> on that the scan will still visit are open and have input.\<close>

definition scan_inv :: "sel_state \<Rightarrow> int \<Rightarrow> fd_set \<Rightarrow> bool" where
  "scan_inv s fd t \<longleftrightarrow> (\<forall>f\<ge>fd. t f \<longrightarrow> readable s f)"

definition server_inv :: "sel_state \<Rightarrow> bool" where
  "server_inv s \<longleftrightarrow>
     (\<forall>fd. sv_readfds s fd \<longleftrightarrow> fd = sv_sockfd s \<or> sv_conn s fd \<noteq> None) \<and> sv_conn s (sv_sockfd s) = None \<and>
     (\<forall>f g i. sv_conn s f = Some i \<and> sv_conn s g = Some i \<longrightarrow> f = g) \<and>
     distinct (sv_backlog s) \<and> (\<forall>i\<in>set (sv_backlog s). \<not> accepted s i) \<and>
     (case sv_pc s of
        SScan fd t \<Rightarrow> scan_inv s fd t
      | SReply fd ch t \<Rightarrow> sv_conn s fd \<noteq> None \<and> scan_inv s (fd + 1) t
      | SUndefined \<Rightarrow> False
      | SKilled \<Rightarrow> False
      | _ \<Rightarrow> True)"

text \<open>A client after the end of the server: it has printed answers, and then the last letter it had once for every read.\<close>

definition ended_inv :: "client \<Rightarrow> bool" where
  "ended_inv c \<longleftrightarrow>
     (case c_pc c of
        CConnect \<Rightarrow> c_ch c = 65 \<and> c_lines c = [] \<and> c_down c = []
      | CWrite1 \<Rightarrow> c_ch c = 65 \<and> c_lines c = [] \<and> c_down c = []
      | CRead1 \<Rightarrow> c_ch c = 65 \<and> c_lines c = [] \<and> (c_down c = [] \<or> c_down c = [66])
      | CSleep \<Rightarrow> (c_ch c = 65 \<or> c_ch c = 66) \<and> c_lines c = [c_ch c] \<and> c_down c = []
      | CWrite2 \<Rightarrow> (c_ch c = 65 \<or> c_ch c = 66) \<and> c_lines c = [c_ch c] \<and> c_down c = []
      | CRead2 \<Rightarrow> (c_ch c = 65 \<or> c_ch c = 66) \<and> c_lines c = [c_ch c] \<and> (c_down c = [] \<or> c_ch c = 66 \<and> c_down c = [67])
      | _ \<Rightarrow> c_lines c \<in> {[], [65], [66], [65, 65], [66, 66], [66, 67]})"

definition sel_inv :: "sel_state \<Rightarrow> bool" where
  "sel_inv s \<longleftrightarrow> server_inv s \<and> (\<forall>i. if server_down s then ended_inv (clients s i) else client_inv s i)"

lemma sel_inv_up: "\<not> server_down s \<Longrightarrow> sel_inv s \<longleftrightarrow> server_inv s \<and> (\<forall>i. client_inv s i)"
  by (simp add: sel_inv_def)

lemma client_inv_ended: "client_inv s i \<Longrightarrow> ended_inv (clients s i)"
  by (cases "c_pc (clients s i)") (auto simp: client_inv_def ended_inv_def idle_def in_service_def Let_def split: if_splits)

lemma sel_inv_init: "sel_inv (sel_init sock)"
  by (simp add: sel_inv_def server_down_def server_inv_def client_inv_def sel_init_def accepted_def idle_def replying_def)

lemma client_upd_simps [simp]:
  "clients (client_upd i c s) = (clients s)(i := c)" "sv_pc (client_upd i c s) = sv_pc s"
  "sv_sockfd (client_upd i c s) = sv_sockfd s" "sv_readfds (client_upd i c s) = sv_readfds s"
  "sv_conn (client_upd i c s) = sv_conn s" "sv_backlog (client_upd i c s) = sv_backlog s"
  by (simp_all add: client_upd_def)

text \<open>What one client does leaves the others and the server's bookkeeping alone.\<close>

lemma client_inv_cong:
  assumes "clients s' i = clients s i" "i \<in> set (sv_backlog s') \<longleftrightarrow> i \<in> set (sv_backlog s)"
    "accepted s' i = accepted s i" "\<And>ch. replying s' i ch = replying s i ch"
  shows "client_inv s' i = client_inv s i"
  using assms by (simp add: client_inv_def idle_def in_service_def linked_def split: client_pc.split)

lemma readable_mono:
  assumes "readable s f" "sv_sockfd s' = sv_sockfd s" "sv_backlog s \<noteq> [] \<Longrightarrow> sv_backlog s' \<noteq> []" "sv_conn s' f = sv_conn s f"
    "\<And>i. sv_conn s f = Some i \<Longrightarrow> c_up (clients s i) \<noteq> [] \<or> c_closed (clients s i) \<Longrightarrow> c_up (clients s' i) \<noteq> [] \<or> c_closed (clients s' i)"
  shows "readable s' f"
  using assms by (auto simp: readable_def split: if_splits option.splits)

lemma server_inv_client:
  assumes inv: "server_inv s"
    and same: "sv_pc s' = sv_pc s" "sv_sockfd s' = sv_sockfd s" "sv_readfds s' = sv_readfds s" "sv_conn s' = sv_conn s"
    and blog: "sv_backlog s' = sv_backlog s \<or> (sv_backlog s' = sv_backlog s @ [i] \<and> i \<notin> set (sv_backlog s) \<and> \<not> accepted s i)"
    and up: "\<And>j. c_up (clients s j) \<noteq> [] \<or> c_closed (clients s j) \<Longrightarrow> c_up (clients s' j) \<noteq> [] \<or> c_closed (clients s' j)"
  shows "server_inv s'"
proof -
  have r: "readable s' f" if "readable s f" for f
    using that by (rule readable_mono) (use same blog up in auto)
  have a: "accepted s' = accepted s"
    by (simp add: accepted_def same fun_eq_iff)
  have "distinct (sv_backlog s')" "\<forall>i\<in>set (sv_backlog s'). \<not> accepted s' i"
    using inv blog by (auto simp: server_inv_def a)
  then show ?thesis
    using inv r by (simp add: server_inv_def same scan_inv_def split: server_pc.splits)
qed

lemma replying_client [simp]: "replying (client_upd i c s) j ch = replying s j ch"
  by (simp add: replying_def)

lemma accepted_client [simp]: "accepted (client_upd i c s) j = accepted s j"
  by (simp add: accepted_def)

lemma backlog_frame [simp]:
  "accepted (s\<lparr>sv_backlog := l\<rparr>) j = accepted s j" "replying (s\<lparr>sv_backlog := l\<rparr>) j ch = replying s j ch"
  by (simp_all add: accepted_def replying_def)

lemmas client_step_defs = select_client_step_def client_write_def client_read_def Let_def

text \<open>A step of a client while the server runs, and after it has ended.\<close>

lemma client_step_up:
  assumes "select_client_step r i s = Some s'" "client_answer r i s" "\<not> server_down s" "client_inv s i"
  shows "client_inv s' i"
  using assms
  by (cases "c_pc (clients s i)"; cases r)
    (auto simp: client_step_defs client_answer_def client_inv_def idle_def in_service_def linked_def split: if_splits list.splits)

lemma client_step_down:
  assumes "select_client_step r i s = Some s'" "ended_inv (clients s i)"
  shows "ended_inv (clients s' i)"
  using assms
  by (cases "c_pc (clients s i)"; cases r)
    (auto simp: client_step_defs ended_inv_def split: if_splits list.splits)

lemma client_step_frame:
  assumes "select_client_step r i s = Some s'"
  shows "sv_pc s' = sv_pc s" "sv_sockfd s' = sv_sockfd s" "sv_readfds s' = sv_readfds s" "sv_conn s' = sv_conn s"
    "\<And>j. j \<noteq> i \<Longrightarrow> clients s' j = clients s j"
    "sv_backlog s' = sv_backlog s \<or> (sv_backlog s' = sv_backlog s @ [i] \<and> c_pc (clients s i) = CConnect \<and> r = Done)"
    "c_up (clients s i) \<noteq> [] \<or> c_closed (clients s i) \<Longrightarrow> c_up (clients s' i) \<noteq> [] \<or> c_closed (clients s' i)"
  using assms
  by (cases "c_pc (clients s i)"; cases r; auto simp: client_step_defs split: if_splits list.splits)+

lemma sel_inv_client:
  assumes inv: "sel_inv s" and step: "select_client_step r i s = Some s'" and ans: "client_answer r i s"
  shows "sel_inv s'"
proof -
  note frame = client_step_frame[OF step]
  have down: "server_down s' = server_down s"
    using frame(1) by (simp add: server_down_def)
  have "server_inv s'"
  proof (rule server_inv_client[of s s' i])
    show "server_inv s"
      using inv by (simp add: sel_inv_def)
    show "sv_backlog s' = sv_backlog s \<or> (sv_backlog s' = sv_backlog s @ [i] \<and> i \<notin> set (sv_backlog s) \<and> \<not> accepted s i)"
      using frame(6)
    proof
      assume b: "sv_backlog s' = sv_backlog s @ [i] \<and> c_pc (clients s i) = CConnect \<and> r = Done"
      then have "client_inv s i"
        using ans inv by (simp add: client_answer_def sel_inv_up)
      then show ?thesis
        using b by (simp add: client_inv_def Let_def)
    qed simp
    show "c_up (clients s' j) \<noteq> [] \<or> c_closed (clients s' j)" if "c_up (clients s j) \<noteq> [] \<or> c_closed (clients s j)" for j
      using that frame(5)[of j] frame(7) by (cases "j = i") auto
  qed (use frame in simp_all)
  moreover have "if server_down s' then ended_inv (clients s' j) else client_inv s' j" for j
  proof (cases "server_down s")
    case True
    then show ?thesis
      using inv frame(5)[of j] client_step_down[OF step] by (cases "j = i") (simp_all add: sel_inv_def down)
  next
    case up: False
    show ?thesis
    proof (cases "j = i")
      case True
      then show ?thesis
        using client_step_up[OF step ans up] inv up by (simp add: sel_inv_def down)
    next
      case False
      have "client_inv s' j = client_inv s j"
        by (rule client_inv_cong) (use frame False in \<open>auto simp: accepted_def replying_def\<close>)
      then show ?thesis
        using inv up by (simp add: sel_inv_def down)
    qed
  qed
  ultimately show ?thesis
    by (simp add: sel_inv_def)
qed

text \<open>Moves of the server that only change its program point.\<close>

lemma pc_frame [simp]:
  "accepted (s\<lparr>sv_pc := p\<rparr>) i = accepted s i" "readable (s\<lparr>sv_pc := p\<rparr>) f = readable s f"
  "scan_inv (s\<lparr>sv_pc := p\<rparr>) fd t = scan_inv s fd t"
  by (simp_all add: accepted_def readable_def scan_inv_def cong: option.case_cong)

fun reply_of :: "server_pc \<Rightarrow> (int \<times> u8) option" where
  "reply_of (SReply fd ch t) = Some (fd, ch)"
| "reply_of _ = None"

lemma replying_iff: "replying s i ch \<longleftrightarrow> (\<exists>fd. reply_of (sv_pc s) = Some (fd, ch) \<and> sv_conn s fd = Some i)"
  by (cases "sv_pc s") (auto simp: replying_def)

definition point_inv :: "sel_state \<Rightarrow> bool" where
  "point_inv s \<longleftrightarrow>
     (case sv_pc s of
        SScan fd t \<Rightarrow> scan_inv s fd t
      | SReply fd ch t \<Rightarrow> sv_conn s fd \<noteq> None \<and> scan_inv s (fd + 1) t
      | SUndefined \<Rightarrow> False
      | SKilled \<Rightarrow> False
      | _ \<Rightarrow> True)"

definition table_inv :: "sel_state \<Rightarrow> bool" where
  "table_inv s \<longleftrightarrow>
     (\<forall>fd. sv_readfds s fd \<longleftrightarrow> fd = sv_sockfd s \<or> sv_conn s fd \<noteq> None) \<and> sv_conn s (sv_sockfd s) = None \<and>
     (\<forall>f g i. sv_conn s f = Some i \<and> sv_conn s g = Some i \<longrightarrow> f = g) \<and>
     distinct (sv_backlog s) \<and> (\<forall>i\<in>set (sv_backlog s). \<not> accepted s i)"

lemma server_inv_split: "server_inv s \<longleftrightarrow> table_inv s \<and> point_inv s"
  by (simp add: server_inv_def table_inv_def point_inv_def conj_assoc)

lemma sel_inv_move:
  assumes "sel_inv s" "\<not> server_down s" "reply_of (sv_pc s) = None" "reply_of p = None" "point_inv (s\<lparr>sv_pc := p\<rparr>)"
  shows "sel_inv (s\<lparr>sv_pc := p\<rparr>)"
proof -
  have "client_inv (s\<lparr>sv_pc := p\<rparr>) i = client_inv s i" for i
    by (rule client_inv_cong) (use assms(3,4) in \<open>simp_all add: replying_iff\<close>)
  then show ?thesis
    using assms(1,2,5) client_inv_ended by (simp add: sel_inv_def server_inv_split table_inv_def)
qed

lemma sel_inv_accept:
  assumes inv: "sel_inv s" and pc: "sv_pc s = SScan (sv_sockfd s) t" and bl: "sv_backlog s = i # is"
    and n: "n \<noteq> sv_sockfd s" "sv_conn s n = None"
    and s': "s' = s\<lparr>sv_backlog := is, sv_conn := (sv_conn s)(n \<mapsto> i), sv_readfds := (sv_readfds s)(n := True),
      sv_pc := SScan (sv_sockfd s + 1) t\<rparr>"
  shows "sel_inv s'"
proof -
  have up: "\<not> server_down s" "\<not> server_down s'"
    using pc by (simp_all add: server_down_def s')
  have ti: "table_inv s" and sc: "scan_inv s (sv_sockfd s) t" and ci: "\<And>i. client_inv s i"
    using inv pc up by (simp_all add: sel_inv_up server_inv_split point_inv_def)
  have fresh: "sv_conn s f \<noteq> Some i" for f
    using ti bl by (auto simp: table_inv_def accepted_def)
  have acc: "accepted s' j \<longleftrightarrow> j = i \<or> accepted s j" for j
    unfolding accepted_def s' using n(2) by (simp, metis option.simps(3))
  have tn: "\<not> t n" if "sv_sockfd s \<le> n"
    using sc n that by (auto simp: scan_inv_def readable_def)
  have "readable s' f" if f: "sv_sockfd s + 1 \<le> f" "t f" for f
  proof -
    have "readable s f" "f \<noteq> n"
      using sc tn f by (auto simp: scan_inv_def)
    then show ?thesis
      using f by (auto simp: s' readable_def split: if_splits option.splits)
  qed
  then have "point_inv s'"
    by (simp add: s' point_inv_def scan_inv_def)
  moreover have "table_inv s'"
    using ti bl n fresh acc unfolding table_inv_def by (auto simp: s' split: if_splits)
  moreover have "client_inv s' j" for j
  proof (cases "j = i")
    case True
    note ci[of i]
    moreover have "\<not> replying s i ch" "\<not> replying s' i ch" for ch
      using pc by (simp_all add: replying_iff s')
    moreover have "i \<in> set (sv_backlog s)" "accepted s' i" "clients s' i = clients s i"
      using bl acc by (simp_all add: s')
    ultimately show ?thesis
      using True by (cases "c_pc (clients s i)") (auto simp: client_inv_def idle_def in_service_def linked_def Let_def split: if_splits)
  next
    case False
    have "client_inv s' j = client_inv s j"
      by (rule client_inv_cong) (use False bl acc pc in \<open>auto simp: s' replying_iff\<close>)
    then show ?thesis
      using ci by simp
  qed
  ultimately show ?thesis
    using up by (simp add: sel_inv_up server_inv_split)
qed

lemma sel_inv_hangup:
  assumes inv: "sel_inv s" and pc: "sv_pc s = SScan fd t" "t fd" and fd: "fd \<noteq> sv_sockfd s" "sv_conn s fd = Some i"
    and up: "c_up (clients s i) = []"
    and s': "s' = s\<lparr>sv_conn := (sv_conn s)(fd := None), sv_readfds := (sv_readfds s)(fd := False), sv_pc := SScan (fd + 1) t\<rparr>"
  shows "sel_inv s'"
proof -
  have up': "\<not> server_down s" "\<not> server_down s'"
    using pc by (simp_all add: server_down_def s')
  have ti: "table_inv s" and sc: "scan_inv s fd t" and ci: "\<And>i. client_inv s i"
    using inv pc up' by (simp_all add: sel_inv_up server_inv_split point_inv_def)
  have closed: "c_closed (clients s i)"
    using sc pc(2) fd up by (auto simp: scan_inv_def readable_def)
  have acc: "accepted s' j \<longleftrightarrow> j \<noteq> i \<and> accepted s j" for j
  proof -
    have inj: "f = fd" if "sv_conn s f = Some i" for f
      using ti that fd(2) unfolding table_inv_def by blast
    have "(\<exists>f. f \<noteq> fd \<and> sv_conn s f = Some j) \<longleftrightarrow> j \<noteq> i \<and> (\<exists>f. sv_conn s f = Some j)"
      using inj fd(2) by (metis option.inject)
    moreover have "accepted s' j \<longleftrightarrow> (\<exists>f. f \<noteq> fd \<and> sv_conn s f = Some j)"
      by (auto simp: accepted_def s' split: if_splits)
    ultimately show ?thesis
      by (simp add: accepted_def)
  qed
  have "readable s' f" if "fd + 1 \<le> f" "t f" for f
  proof -
    have "readable s f" "f \<noteq> fd"
      using sc that by (auto simp: scan_inv_def)
    then show ?thesis
      by (auto simp: s' readable_def split: if_splits option.splits)
  qed
  then have "point_inv s'"
    by (simp add: s' point_inv_def scan_inv_def)
  moreover have "table_inv s'"
    using ti fd acc unfolding table_inv_def by (auto simp: s' split: if_splits)
  moreover have "client_inv s' j" for j
  proof (cases "j = i")
    case True
    show ?thesis
      using ci[of i] True closed pc
      by (cases "c_pc (clients s i)") (auto simp: s' client_inv_def idle_def linked_def replying_iff Let_def)
  next
    case False
    have "client_inv s' j = client_inv s j"
      by (rule client_inv_cong) (use False acc pc in \<open>auto simp: s' replying_iff\<close>)
    then show ?thesis
      using ci by simp
  qed
  ultimately show ?thesis
    using up' by (simp add: sel_inv_up server_inv_split)
qed

text \<open>Taking a byte from a connection and answering it.\<close>

lemma served_client:
  assumes "client_inv s i" "c_up (clients s i) \<noteq> [] \<or> c_down (clients s i) \<noteq> [] \<or> replying s i ch"
  obtains x where "c_pc (clients s i) = CRead1 \<and> x = 65 \<or> c_pc (clients s i) = CRead2 \<and> x = 66" "in_service s i x" "linked s i"
  using assms by (auto simp: client_inv_def idle_def Let_def split: client_pc.splits if_splits)

lemma sel_inv_other:
  assumes inv: "sel_inv s" and up: "\<not> server_down s" "\<not> server_down s'" and i: "sv_conn s fd = Some i" and same: "sv_conn s' = sv_conn s" "sv_backlog s' = sv_backlog s"
    "sv_sockfd s' = sv_sockfd s" "sv_readfds s' = sv_readfds s" "\<And>j. j \<noteq> i \<Longrightarrow> clients s' j = clients s j"
    and rep: "\<And>f c. reply_of (sv_pc s) = Some (f, c) \<Longrightarrow> f = fd" "\<And>f c. reply_of (sv_pc s') = Some (f, c) \<Longrightarrow> f = fd"
    and own: "client_inv s' i" and point: "point_inv s'"
  shows "sel_inv s'"
proof -
  have "client_inv s' j" if "j \<noteq> i" for j
  proof -
    have "client_inv s' j = client_inv s j"
      by (rule client_inv_cong) (use that i same rep in \<open>auto simp: replying_iff accepted_def\<close>)
    then show ?thesis
      using inv up by (simp add: sel_inv_up)
  qed
  moreover have "table_inv s'"
    using inv same(1-4) by (simp add: sel_inv_def server_inv_split table_inv_def accepted_def)
  ultimately show ?thesis
    using own point unfolding sel_inv_up[OF up(2)] server_inv_split by metis
qed

lemma readable_other:
  assumes "table_inv s" "sv_conn s fd = Some i" "readable s f" "f \<noteq> fd"
    "sv_conn s' = sv_conn s" "sv_backlog s' = sv_backlog s" "sv_sockfd s' = sv_sockfd s" "\<And>j. j \<noteq> i \<Longrightarrow> clients s' j = clients s j"
  shows "readable s' f"
proof (rule readable_mono[OF assms(3)])
  fix j
  assume j: "sv_conn s f = Some j" "c_up (clients s j) \<noteq> [] \<or> c_closed (clients s j)"
  then have "j \<noteq> i"
    using assms(1,2,4) by (auto simp: table_inv_def)
  then show "c_up (clients s' j) \<noteq> [] \<or> c_closed (clients s' j)"
    using j(2) assms(8) by simp
qed (use assms(5-7) in simp_all)

lemma sel_inv_read:
  assumes inv: "sel_inv s" and pc: "sv_pc s = SScan fd t" and fd: "sv_conn s fd = Some i" and up: "c_up (clients s i) = ch # chs"
    and s': "s' = client_upd i ((clients s i)\<lparr>c_up := chs\<rparr>) (s\<lparr>sv_pc := SReply fd (ch + 1) t\<rparr>)"
  shows "sel_inv s'"
proof (rule sel_inv_other[OF inv _ _ fd])
  show run: "\<not> server_down s" "\<not> server_down s'"
    using pc by (simp_all add: server_down_def s')
  have ti: "table_inv s" and sc: "scan_inv s fd t" and ci: "client_inv s i"
    using inv pc run by (simp_all add: sel_inv_up server_inv_split point_inv_def)
  obtain x where x: "c_pc (clients s i) = CRead1 \<and> x = 65 \<or> c_pc (clients s i) = CRead2 \<and> x = 66" "in_service s i x" "linked s i"
    by (rule served_client[OF ci]) (use up in auto)
  have rep: "replying s' i (ch + 1)"
    using fd by (simp add: s' replying_iff)
  have "ch = x" "chs = []" "c_down (clients s i) = []"
    using x(2) up by (auto simp: in_service_def)
  then show "client_inv s' i"
    using x ci rep fd by (auto simp: s' client_inv_def in_service_def linked_def accepted_def Let_def)
  have "readable s' f" if "fd + 1 \<le> f" "t f" for f
    by (rule readable_other[OF ti fd]) (use that sc in \<open>auto simp: s' scan_inv_def\<close>)
  then show "point_inv s'"
    using fd by (simp add: s' point_inv_def scan_inv_def)
qed (use pc in \<open>auto simp: s'\<close>)

lemma sel_inv_reply:
  assumes inv: "sel_inv s" and pc: "sv_pc s = SReply fd ch t" and fd: "sv_conn s fd = Some i"
    and s': "s' = client_upd i ((clients s i)\<lparr>c_down := c_down (clients s i) @ [ch]\<rparr>) (s\<lparr>sv_pc := SScan (fd + 1) t\<rparr>)"
  shows "sel_inv s' \<and> \<not> c_closed (clients s i)"
proof -
  have up: "\<not> server_down s" "\<not> server_down s'"
    using pc by (simp_all add: server_down_def s')
  have ti: "table_inv s" and sc: "scan_inv s (fd + 1) t" and ci: "client_inv s i"
    using inv pc up by (simp_all add: sel_inv_up server_inv_split point_inv_def)
  have rep: "replying s i c \<longleftrightarrow> c = ch" "\<not> replying s' i c" for c
    using pc fd by (auto simp: s' replying_iff)
  obtain x where x: "c_pc (clients s i) = CRead1 \<and> x = 65 \<or> c_pc (clients s i) = CRead2 \<and> x = 66" "in_service s i x" "linked s i"
    by (rule served_client[OF ci, of ch]) (use rep in auto)
  have own: "ch = x + 1" "c_up (clients s i) = []" "c_down (clients s i) = []"
    using x(2) rep by (auto simp: in_service_def)
  have "sel_inv s'"
  proof (rule sel_inv_other[OF inv up fd])
    show "client_inv s' i"
      using x ci rep own fd by (auto simp: s' client_inv_def in_service_def linked_def accepted_def Let_def)
    have "readable s' f" if "fd + 1 \<le> f" "t f" for f
      by (rule readable_other[OF ti fd]) (use that sc in \<open>auto simp: s' scan_inv_def\<close>)
    then show "point_inv s'"
      by (simp add: s' point_inv_def scan_inv_def)
  qed (use pc in \<open>auto simp: s'\<close>)
  then show ?thesis
    using x(3) by (simp add: linked_def)
qed

lemma sel_inv_server:
  assumes inv: "sel_inv s" and step: "select_server_step r testfds n s = Some s'" and ans: "kernel_answer r testfds n s"
  shows "sel_inv s'"
proof (cases "sv_pc s")
  case SSelect
  then have "s' = s\<lparr>sv_pc := SExited\<rparr> \<or> s' = s\<lparr>sv_pc := SScan 0 testfds\<rparr> \<and> 1 \<le> r"
    using step by (auto simp: select_server_step_def split: if_splits)
  then show ?thesis
    using sel_inv_move[OF inv] SSelect ans by (auto simp: server_down_def point_inv_def scan_inv_def kernel_answer_def)
next
  case (SScan fd t)
  have sc: "scan_inv s fd t"
    using inv SScan by (simp add: sel_inv_def server_inv_split point_inv_def)
  show ?thesis
  proof (cases "fd < FD_SETSIZE \<and> t fd")
    case False
    then have "s' = s\<lparr>sv_pc := SSelect\<rparr> \<or> s' = s\<lparr>sv_pc := SScan (fd + 1) t\<rparr>"
      using step SScan by (auto simp: select_server_step_def split: if_splits)
    then show ?thesis
      using sel_inv_move[OF inv] SScan sc by (auto simp: server_down_def point_inv_def scan_inv_def)
  next
    case hit: True
    show ?thesis
    proof (cases "fd = sv_sockfd s")
      case True
      obtain i "is" where bl: "sv_backlog s = i # is"
        using sc hit True by (cases "sv_backlog s") (auto simp: scan_inv_def readable_def)
      show ?thesis
      proof (cases "n < 0 \<or> \<not> n < FD_SETSIZE")
        case bad: True
        then have "s' = s\<lparr>sv_pc := SBadFd\<rparr>"
          using step SScan hit True bl by (simp add: select_server_step_def)
        then show ?thesis
          using sel_inv_move[OF inv] SScan by (simp add: server_down_def point_inv_def)
      next
        case good: False
        show ?thesis
          by (rule sel_inv_accept[OF inv _ bl]) (use SScan hit True bl good step ans in \<open>auto simp: select_server_step_def kernel_answer_def\<close>)
      qed
    next
      case False
      obtain i where i: "sv_conn s fd = Some i"
        using sc hit False by (auto simp: scan_inv_def readable_def split: option.splits)
      show ?thesis
      proof (cases "c_up (clients s i)")
        case Nil
        show ?thesis
          by (rule sel_inv_hangup[OF inv SScan _ False i Nil]) (use SScan hit False i Nil step in \<open>auto simp: select_server_step_def\<close>)
      next
        case (Cons ch chs)
        show ?thesis
          by (rule sel_inv_read[OF inv SScan i Cons]) (use SScan hit False i Cons step in \<open>auto simp: select_server_step_def\<close>)
      qed
    qed
  qed
next
  case (SReply fd ch t)
  then obtain i where i: "sv_conn s fd = Some i"
    using inv by (auto simp: sel_inv_def server_inv_split point_inv_def)
  show ?thesis
    using sel_inv_reply[OF inv SReply i refl] step SReply i by (simp add: select_server_step_def)
qed (use step in \<open>simp_all add: select_server_step_def\<close>)

interpretation sel: invariant_of "sel_init sock" sel_step sel_inv for sock
proof
  show "sel_inv (sel_init sock)"
    by (rule sel_inv_init)
  show "sel_inv s'" if "sel_inv s" "sel_step a s s'" for a s s'
    using that(2,1) by cases (auto intro: sel_inv_server sel_inv_client)
qed



section \<open>Properties\<close>

text \<open>What a client has printed tells how far it is.\<close>

lemma client_lines:
  assumes "client_inv s i"
  shows "c_lines (clients s i) \<in> {[], [66], [66, 67]}" "c_closed (clients s i) \<Longrightarrow> c_lines (clients s i) = [66, 67]"
  using assms by (cases "c_pc (clients s i)"; auto simp: client_inv_def linked_def Let_def split: if_splits)+

lemma ended_lines: "ended_inv c \<Longrightarrow> c_lines c \<in> {[], [65], [66], [65, 65], [66, 66], [66, 67]}"
  by (cases "c_pc c") (auto simp: ended_inv_def)

text \<open>A client that waits for an answer is being served: its byte is in the server, answered or
  makes a descriptor of the server readable.\<close>

lemma waiting_readable:
  assumes inv: "sel_inv s" and pc: "c_pc (clients s i) = CRead1 \<or> c_pc (clients s i) = CRead2"
    and none: "c_down (clients s i) = []" and sel: "sv_pc s = SSelect"
  shows "\<exists>fd. sv_readfds s fd \<and> readable s fd"
proof -
  have ti: "table_inv s" and ci: "client_inv s i"
    using inv sel by (simp_all add: sel_inv_def server_down_def server_inv_split)
  have "in_service s i 65 \<or> in_service s i 66" "linked s i"
    using ci pc by (auto simp: client_inv_def Let_def)
  then have up: "c_up (clients s i) \<noteq> []"
    using none sel by (auto simp: in_service_def replying_iff)
  show ?thesis
  proof (cases "accepted s i")
    case True
    then obtain fd where fd: "sv_conn s fd = Some i"
      by (auto simp: accepted_def)
    then have "fd \<noteq> sv_sockfd s"
      using ti by (auto simp: table_inv_def)
    then show ?thesis
      using fd up ti by (intro exI[of _ fd]) (simp add: readable_def table_inv_def)
  next
    case False
    then have "sv_backlog s \<noteq> []"
      using \<open>linked s i\<close> by (auto simp: linked_def)
    then show ?thesis
      using ti by (intro exI[of _ "sv_sockfd s"]) (simp add: readable_def table_inv_def)
  qed
qed

lemma server_not_stuck:
  assumes inv: "sel_inv s" and pc: "sv_pc s \<notin> {SExited, SBadFd}"
    and sel: "sv_pc s = SSelect \<Longrightarrow> \<exists>fd. sv_readfds s fd \<and> readable s fd"
  shows "\<exists>s'. sel_step Server s s'"
proof (cases "sv_pc s")
  case SSelect
  obtain fd where fd: "sv_readfds s fd" "readable s fd"
    using sel[OF SSelect] by blast
  have "kernel_answer 1 (\<lambda>f. f = fd) (- 1) s"
    using fd by (auto simp: kernel_answer_def)
  moreover have "select_server_step 1 (\<lambda>f. f = fd) (- 1) s \<noteq> None"
    using SSelect by (simp add: select_server_step_def)
  ultimately show ?thesis
    by (blast intro: server_act)
next
  case (SScan fd t)
  have "kernel_answer 1 (\<lambda>f. True) (- 1) s"
    using SScan by (simp add: kernel_answer_def)
  moreover have "select_server_step 1 (\<lambda>f. True) (- 1) s \<noteq> None"
  proof -
    have "t (sv_sockfd s) \<Longrightarrow> fd = sv_sockfd s \<Longrightarrow> sv_backlog s \<noteq> []"
      using inv SScan by (auto simp: sel_inv_def server_inv_split point_inv_def scan_inv_def readable_def)
    then show ?thesis
      using SScan by (auto simp: select_server_step_def split: list.splits option.splits)
  qed
  ultimately show ?thesis
    by (blast intro: server_act)
next
  case (SReply fd ch t)
  have "kernel_answer 1 (\<lambda>f. True) (- 1) s"
    using SReply by (simp add: kernel_answer_def)
  moreover have "select_server_step 1 (\<lambda>f. True) (- 1) s \<noteq> None"
    using SReply by (auto simp: select_server_step_def split: option.splits)
  ultimately show ?thesis
    by (blast intro: server_act)
qed (use inv pc in \<open>simp_all add: sel_inv_def server_inv_split point_inv_def\<close>)

text \<open>After the end of the server no client is blocked.\<close>

lemma client_not_stuck:
  assumes "server_down s" "c_pc (clients s i) \<noteq> CEnd"
  shows "\<exists>s'. sel_step (Client i) s s'"
proof -
  have "\<exists>s'. select_client_step Failed i s = Some s'"
    using assms(2) by (cases "c_pc (clients s i)") (simp_all add: client_step_defs)
  moreover have "client_answer Failed i s"
    using assms(1) by (simp add: client_answer_def)
  ultimately show ?thesis
    by (blast intro: client_act)
qed

text \<open>C15: The server with any number of clients, in every state they can reach: the set of descriptors
  that the server watches is its listening socket and the connections it has accepted and not closed, each client
  has one; the server never reads from or writes to a descriptor that is not open or whose client has
  closed. As long as the server runs, every client has printed nothing, B, or B and C, and all of it before it closes, and a client
  that waits for an answer that is not there yet never waits for a blocked server. When the server has exited because
  select failed, a client may also have repeated the last letter it had, A or B, for a read that failed, and no client is blocked.
  After a failed accept, where the server writes outside of its set, nothing is claimed of the clients.\<close>

theorem select_demo_safe:
  assumes "reaches (sel_init sock) sel_step s"
  shows "(\<forall>fd. sv_readfds s fd \<longleftrightarrow> fd = sv_sockfd s \<or> sv_conn s fd \<noteq> None) \<and>
    (\<forall>f g i. sv_conn s f = Some i \<and> sv_conn s g = Some i \<longrightarrow> f = g) \<and>
    sv_pc s \<noteq> SUndefined \<and> sv_pc s \<noteq> SKilled \<and>
    (\<not> server_down s \<longrightarrow>
      (\<forall>i. c_lines (clients s i) \<in> {[], [66], [66, 67]} \<and> (c_closed (clients s i) \<longrightarrow> c_lines (clients s i) = [66, 67])) \<and>
      ((\<exists>i. (c_pc (clients s i) = CRead1 \<or> c_pc (clients s i) = CRead2) \<and> c_down (clients s i) = []) \<longrightarrow>
        (\<exists>s'. sel_step Server s s'))) \<and>
    (sv_pc s = SExited \<longrightarrow>
      (\<forall>i. c_lines (clients s i) \<in> {[], [65], [66], [65, 65], [66, 66], [66, 67]} \<and>
        (c_pc (clients s i) \<noteq> CEnd \<longrightarrow> (\<exists>s'. sel_step (Client i) s s'))))"
proof (intro conjI)
  have inv: "sel_inv s"
    using assms by (rule sel.reaches_inv)
  then have ti: "table_inv s" and pi: "point_inv s"
    by (simp_all add: sel_inv_def server_inv_split)
  show "\<forall>fd. sv_readfds s fd \<longleftrightarrow> fd = sv_sockfd s \<or> sv_conn s fd \<noteq> None"
    "\<forall>f g i. sv_conn s f = Some i \<and> sv_conn s g = Some i \<longrightarrow> f = g"
    using ti unfolding table_inv_def by blast+
  show "sv_pc s \<noteq> SUndefined" "sv_pc s \<noteq> SKilled"
    using pi by (auto simp: point_inv_def)
  show "\<not> server_down s \<longrightarrow>
      (\<forall>i. c_lines (clients s i) \<in> {[], [66], [66, 67]} \<and> (c_closed (clients s i) \<longrightarrow> c_lines (clients s i) = [66, 67])) \<and>
      ((\<exists>i. (c_pc (clients s i) = CRead1 \<or> c_pc (clients s i) = CRead2) \<and> c_down (clients s i) = []) \<longrightarrow>
        (\<exists>s'. sel_step Server s s'))"
  proof (intro impI conjI)
    assume up: "\<not> server_down s"
    then have "client_inv s i" for i
      using inv by (simp add: sel_inv_up)
    then show "\<forall>i. c_lines (clients s i) \<in> {[], [66], [66, 67]} \<and> (c_closed (clients s i) \<longrightarrow> c_lines (clients s i) = [66, 67])"
      using client_lines by blast
    assume "\<exists>i. (c_pc (clients s i) = CRead1 \<or> c_pc (clients s i) = CRead2) \<and> c_down (clients s i) = []"
    moreover have "sv_pc s \<notin> {SExited, SBadFd}"
      using up by (auto simp: server_down_def)
    ultimately show "\<exists>s'. sel_step Server s s'"
      using server_not_stuck[OF inv] waiting_readable[OF inv] by blast
  qed
  show "sv_pc s = SExited \<longrightarrow>
      (\<forall>i. c_lines (clients s i) \<in> {[], [65], [66], [65, 65], [66, 66], [66, 67]} \<and>
        (c_pc (clients s i) \<noteq> CEnd \<longrightarrow> (\<exists>s'. sel_step (Client i) s s')))"
  proof (intro impI allI)
    fix i
    assume "sv_pc s = SExited"
    then have down: "server_down s"
      by (simp add: server_down_def)
    then have "ended_inv (clients s i)"
      using inv by (simp add: sel_inv_def)
    then show "c_lines (clients s i) \<in> {[], [65], [66], [65, 65], [66, 66], [66, 67]} \<and>
        (c_pc (clients s i) \<noteq> CEnd \<longrightarrow> (\<exists>s'. sel_step (Client i) s s'))"
      using ended_lines client_not_stuck[OF down] by blast
  qed
qed

text \<open>A schedule in which \<open>select\<close> reports one descriptor or fails.\<close>

datatype sel_choice = ServerDoes int int | SelectFails | ClientDoes nat | ClientFails nat

definition only :: "int \<Rightarrow> fd_set" where
  "only k = (\<lambda>f. f = k)"

fun sel_exec1 :: "sel_choice \<Rightarrow> sel_state \<Rightarrow> sel_state option" where
  "sel_exec1 (ServerDoes k n) s =
     (if sv_readfds s k \<and> readable s k \<and> (n = - 1 \<or> (0 \<le> n \<and> n \<noteq> sv_sockfd s \<and> sv_conn s n = None))
      then select_server_step 1 (only k) n s else None)"
| "sel_exec1 SelectFails s = select_server_step (- 1) (only 0) (- 1) s"
| "sel_exec1 (ClientDoes i) s = (if client_answer Done i s then select_client_step Done i s else None)"
| "sel_exec1 (ClientFails i) s = (if client_answer Failed i s then select_client_step Failed i s else None)"

fun sel_chooser :: "sel_choice \<Rightarrow> sel_actor" where
  "sel_chooser (ServerDoes k n) = Server"
| "sel_chooser SelectFails = Server"
| "sel_chooser (ClientDoes i) = Client i"
| "sel_chooser (ClientFails i) = Client i"

lemma sel_exec1_step: "sel_exec1 c s = Some s' \<Longrightarrow> sel_step (sel_chooser c) s s'"
  by (cases c)
    (auto intro: client_act server_act[where testfds = "only _"] simp: kernel_answer_def only_def split: if_splits)

lemma sel_exec_reaches:
  "exec sel_exec1 cs s = Some s' \<Longrightarrow> reaches (sel_init sock) sel_step s \<Longrightarrow> reaches (sel_init sock) sel_step s'"
  by (induction cs arbitrary: s) (auto simp: bind_eq_Some_conv intro: reaches_step sel_exec1_step)

theorem select_demo_safe_witness:
  "\<exists>s. reaches (sel_init 0) sel_step s \<and> c_pc (clients s 7) = CRead1 \<and> sv_conn s 4 = Some 7 \<and> sv_readfds s 4 \<and>
     (\<exists>s'. sel_step Server s s')"
proof -
  have "(case exec sel_exec1 [ClientDoes 7, ClientDoes 7, ServerDoes 0 4, ServerDoes 0 4] (sel_init 0) of None \<Rightarrow> False
    | Some s \<Rightarrow> c_pc (clients s 7) = CRead1 \<and> c_down (clients s 7) = [] \<and> sv_conn s 4 = Some 7 \<and> \<not> server_down s) = True"
    by code_simp
  then obtain s where s: "exec sel_exec1 [ClientDoes 7, ClientDoes 7, ServerDoes 0 4, ServerDoes 0 4] (sel_init 0) = Some s"
    "c_pc (clients s 7) = CRead1" "c_down (clients s 7) = []" "sv_conn s 4 = Some 7" "\<not> server_down s"
    by (auto split: option.splits)
  have r: "reaches (sel_init 0) sel_step s"
    by (rule sel_exec_reaches[OF s(1) reaches_init])
  then show ?thesis
    using select_demo_safe[OF r] s by (intro exI[of _ s]) auto
qed

text \<open>The server does not check the result of accept: when it fails, FD_SET writes outside of the set.\<close>

theorem select_server_accept_unchecked:
  "\<exists>s. reaches (sel_init 0) sel_step s \<and> sv_pc s = SBadFd"
proof -
  have "(case exec sel_exec1 [ClientDoes 7, ServerDoes 0 4, ServerDoes 0 (- 1)] (sel_init 0) of None \<Rightarrow> False
    | Some s \<Rightarrow> (case sv_pc s of SBadFd \<Rightarrow> True | _ \<Rightarrow> False)) = True"
    by code_simp
  then obtain s where "exec sel_exec1 [ClientDoes 7, ServerDoes 0 4, ServerDoes 0 (- 1)] (sel_init 0) = Some s" "sv_pc s = SBadFd"
    by (auto split: option.splits server_pc.splits)
  then show ?thesis
    using sel_exec_reaches[OF _ reaches_init] by blast
qed

text \<open>The client does not check the results of read: when the server has exited, it prints the letter that it has sent
  as the answer.\<close>

theorem select_client_read_unchecked:
  "\<exists>s. reaches (sel_init 0) sel_step s \<and> sv_pc s = SExited \<and> c_lines (clients s 7) = [65, 65]"
proof -
  let ?cs = "[ClientDoes 7, ClientDoes 7, SelectFails, ClientFails 7, ClientDoes 7, ClientFails 7, ClientFails 7]"
  have "(case exec sel_exec1 ?cs (sel_init 0) of None \<Rightarrow> False
    | Some s \<Rightarrow> (case sv_pc s of SExited \<Rightarrow> True | _ \<Rightarrow> False) \<and> c_lines (clients s 7) = [65, 65]) = True"
    by code_simp
  then obtain s where "exec sel_exec1 ?cs (sel_init 0) = Some s" "sv_pc s = SExited" "c_lines (clients s 7) = [65, 65]"
    by (auto split: option.splits server_pc.splits)
  then show ?thesis
    using sel_exec_reaches[OF _ reaches_init] by blast
qed

end
