(* ===== verification/Diagnostics.thy ===== *)
theory Diagnostics
  imports Prelude
begin

text \<open>
  The text output helpers: \<open>hexbyte\<close> of \<open>src/main.c\<close>, \<open>dumpBuffer\<close> of \<open>src/src/comm/debug.c\<close>, the copy of
  the program arguments in \<open>src/src/backtrace.c\<close> and the clock of \<open>src/src/comm/base.c\<close>. Printed text is
  a string; the thread id and the printed form of a pointer are arguments.
\<close>


unbundle bit_operations_syntax

section \<open>Printing numbers\<close>

definition hextable :: string where
  "hextable = ''0123456789abcdef''"

text \<open>The first two cells of \<open>out\<close> are overwritten.\<close>

definition hexbyte :: "string \<Rightarrow> u8 \<Rightarrow> string option" where
  "hexbyte out b = mem_write out 0 [hextable ! unat (drop_bit 4 b), hextable ! unat (b AND 15)]"

text \<open>printf with \<open>%02x\<close> for a byte and with \<open>%d\<close>.\<close>

definition print_02x :: "u8 \<Rightarrow> string" where
  "print_02x b = [hextable ! unat (drop_bit 4 b), hextable ! unat (b AND 15)]"

fun print_nat :: "nat \<Rightarrow> string" where
  "print_nat n = (if n < 10 then [hextable ! n] else print_nat (n div 10) @ [hextable ! (n mod 10)])"

declare print_nat.simps [simp del]

definition print_d :: "int \<Rightarrow> string" where
  "print_d n = (if n < 0 then CHR ''-'' # print_nat (nat (- n)) else print_nat (nat n))"

definition newline :: string where
  "newline = [CHR 0x0A]"


section \<open>dumpBuffer\<close>

text \<open>The loop over the bytes, with the number of bytes on the current line.\<close>

primrec dump_loop :: "u8 list \<Rightarrow> nat \<Rightarrow> string" where
  "dump_loop [] cnt = ''''"
| "dump_loop (b # bs) cnt =
     (if cnt = 16 then newline else '''') @ print_02x b @ '' '' @ dump_loop bs (if cnt = 16 then 1 else cnt + 1)"

definition dumpBuffer :: "string \<Rightarrow> string \<Rightarrow> string option \<Rightarrow> u8 list option \<Rightarrow> int \<Rightarrow> string option" where
  "dumpBuffer tid ptr_text describe buf len = do {
     let out = newline @ ''--------dumpBuffer begin----------['' @ tid @ '']'' @ newline;
     if buf = None \<or> 0 > len
     then Some (out @ ''dempBuffer, para err. buf:'' @ ptr_text @ '', len:'' @ print_d len @ newline)
     else do {
       bytes \<leftarrow> mem_read (the buf) 0 (nat len);
       let head = (case describe of Some d \<Rightarrow> d @ '', len:'' @ print_d len @ newline
                   | None \<Rightarrow> ''len:'' @ print_d len @ newline);
       Some (out @ head @ dump_loop bytes 0 @ newline @ ''--------dumpBuffer end--------'' @ newline @ newline)
     }
   }"

text \<open>The same for characters; \<open>%c\<close> prints them as they are, without a separator.\<close>

primrec dump_char_loop :: "string \<Rightarrow> nat \<Rightarrow> string" where
  "dump_char_loop [] cnt = ''''"
| "dump_char_loop (c # cs) cnt =
     (if cnt = 16 then newline else '''') @ c # dump_char_loop cs (if cnt = 16 then 1 else cnt + 1)"

definition dumpBuffer_char :: "string \<Rightarrow> string \<Rightarrow> string option \<Rightarrow> string option \<Rightarrow> int \<Rightarrow> string option" where
  "dumpBuffer_char tid ptr_text describe buf len = do {
     let out = newline @ ''--------dumpBuffer begin----------['' @ tid @ '']'' @ newline;
     if buf = None \<or> 0 > len
     then Some (out @ ''dempBuffer, para err. buf:'' @ ptr_text @ '', len:'' @ print_d len @ newline)
     else do {
       cs \<leftarrow> mem_read (the buf) 0 (nat len);
       let head = (case describe of Some d \<Rightarrow> d @ '', len:'' @ print_d len @ newline
                   | None \<Rightarrow> ''len:'' @ print_d len @ newline);
       Some (out @ head @ dump_char_loop cs 0 @ newline @ ''--------dumpBuffer end--------'' @ newline @ newline)
     }
   }"

text \<open>Reading a dump back.\<close>

fun hex_digit :: "char \<Rightarrow> u8 option" where
  "hex_digit c = (case List.find (\<lambda>i. hextable ! i = c) [0..<16] of None \<Rightarrow> None | Some i \<Rightarrow> Some (of_nat i))"

fun undump :: "string \<Rightarrow> u8 list option" where
  "undump [] = Some []"
| "undump (h # l # sp # rest) =
     (if h = CHR 0x0A then undump (l # sp # rest)
      else if sp \<noteq> CHR '' '' then None
      else do { a \<leftarrow> hex_digit h; b \<leftarrow> hex_digit l; bs \<leftarrow> undump rest; Some ((a * 16 + b) # bs) })"
| "undump [h] = (if h = CHR 0x0A then Some [] else None)"
| "undump [h, l] = (if h = CHR 0x0A \<and> l = CHR 0x0A then Some [] else None)"


section \<open>The program arguments\<close>

text \<open>\<open>strncpy(dst, src, n)\<close> of a string \<open>src\<close> into \<open>n\<close> cells: cut off, or padded with NUL.\<close>

definition strncpy_cells :: "u8 list \<Rightarrow> nat \<Rightarrow> u8 list" where
  "strncpy_cells src n = take n src @ replicate (n - length src) 0"

fun backtrace_argv_loop :: "u8 list list \<Rightarrow> nat \<Rightarrow> u8 list list \<Rightarrow> u8 list list option" where
  "backtrace_argv_loop [] i rows = Some rows"
| "backtrace_argv_loop (a # args) i rows =
     (if i < length rows then backtrace_argv_loop args (Suc i) (rows[i := strncpy_cells a 128]) else None)"

text \<open>The field \<open>argv[10][128]\<close> of \<open>g_backtrace_var\<close>; the arguments are strings without NUL.\<close>

definition backtrace_init_argv :: "u8 list list \<Rightarrow> u8 list list option" where
  "backtrace_init_argv argv = backtrace_argv_loop argv 0 (replicate 10 (replicate 128 0))"

definition get_time_ms :: "int \<Rightarrow> int \<Rightarrow> int" where
  "get_time_ms tv_sec tv_nsec = tv_sec * 1000 + tv_nsec div 1000000"


section \<open>Properties\<close>

text \<open>A statement about all bytes is a statement about 256 numbers.\<close>

lemma all_bytes:
  assumes "\<forall>n\<in>set [0..<256]. P (of_nat n :: u8)"
  shows "P b"
proof -
  have "unat b < 256"
    using unsigned_less[of b] by simp
  then have "unat b \<in> set [0..<256]" by simp
  from bspec[OF assms this] show ?thesis by simp
qed

lemma hex_digits:
  "hex_digit (hextable ! unat (drop_bit 4 b)) = Some (drop_bit 4 b)" (is "?P b")
  "hex_digit (hextable ! unat (b AND 15)) = Some (b AND 15)" (is "?Q b")
  "drop_bit 4 b * 16 + (b AND 15) = (b :: u8)" (is "?R b")
  "hextable ! unat (drop_bit 4 b) \<noteq> CHR 0x0A" (is "?S b")
proof -
  have "\<forall>n\<in>set [0..<256]. ?P (of_nat n)" by code_simp
  then show "?P b" by (rule all_bytes)
  have "\<forall>n\<in>set [0..<256]. ?Q (of_nat n)" by code_simp
  then show "?Q b" by (rule all_bytes)
  have "\<forall>n\<in>set [0..<256]. ?R (of_nat n)" by code_simp
  then show "?R b" by (rule all_bytes)
  have "\<forall>n\<in>set [0..<256]. ?S (of_nat n)" by code_simp
  then show "?S b" by (rule all_bytes)
qed

lemma undump_loop: "undump (dump_loop bs cnt) = Some bs"
proof (induction bs arbitrary: cnt)
  case (Cons b bs)
  have "undump (print_02x b @ '' '' @ rest) = (do { bs \<leftarrow> undump rest; Some (b # bs) })" for rest
    using hex_digits[of b] by (simp add: print_02x_def del: hex_digit.simps)
  moreover have "undump (newline @ x # y # z # rest) = undump (x # y # z # rest)" for x y z rest
    by (simp add: newline_def del: hex_digit.simps)
  ultimately show ?case
    using Cons by (simp add: print_02x_def del: hex_digit.simps undump.simps)
qed simp

text \<open>The output of the character loop is the buffer with a line end after every sixteen characters.\<close>

lemma dump_char_loop_append:
  assumes "cnt + length cs \<le> 16" "cnt < 16"
  shows "dump_char_loop (cs @ ds) cnt = cs @ dump_char_loop ds (cnt + length cs)"
  using assms
proof (induction cs arbitrary: cnt)
  case (Cons c cs)
  then show ?case
    by (cases cs) auto
qed simp

lemma dump_char_loop_line:
  assumes "length cs = 16" "ds \<noteq> []"
  shows "dump_char_loop (cs @ ds) 0 = cs @ newline @ dump_char_loop ds 0"
  using assms dump_char_loop_append[of 0 cs ds] by (cases ds) auto

lemma dump_char_loop_short: "length cs \<le> 16 \<Longrightarrow> dump_char_loop cs 0 = cs"
  using dump_char_loop_append[of 0 cs "[]"] by simp

text \<open>dumpBuffer prints every byte of the buffer once, in order, sixteen to a line, in the two digits
  that hexbyte writes, so that the bytes can be read back from the text; for a NULL buffer or a
  negative length it prints a message and touches nothing.\<close>

theorem dumpBuffer_roundtrip:
  assumes "0 \<le> len" "nat len \<le> length buf" "2 \<le> length out"
  shows "\<exists>body. dumpBuffer tid ptr_text (Some d) (Some buf) len =
      Some (newline @ ''--------dumpBuffer begin----------['' @ tid @ '']'' @ newline @ d @ '', len:'' @ print_d len @ newline @
        body @ newline @ ''--------dumpBuffer end--------'' @ newline @ newline) \<and>
    undump body = Some (take (nat len) buf) \<and>
    hexbyte out b = Some (print_02x b @ drop 2 out) \<and> undump (print_02x b @ '' '') = Some [b] \<and>
    dumpBuffer tid ptr_text (Some d) None len \<noteq> None"
proof (intro exI conjI)
  show "dumpBuffer tid ptr_text (Some d) (Some buf) len =
      Some (newline @ ''--------dumpBuffer begin----------['' @ tid @ '']'' @ newline @ d @ '', len:'' @ print_d len @ newline @
        dump_loop (take (nat len) buf) 0 @ newline @ ''--------dumpBuffer end--------'' @ newline @ newline)"
    using assms(1,2) by (simp add: dumpBuffer_def Let_def)
  show "undump (dump_loop (take (nat len) buf) 0) = Some (take (nat len) buf)"
    by (rule undump_loop)
  show "hexbyte out b = Some (print_02x b @ drop 2 out)"
    using assms(3) by (simp add: hexbyte_def print_02x_def numeral_2_eq_2)
  show "undump (print_02x b @ '' '') = Some [b]"
    using undump_loop[of "[b]" 0] by simp
  show "dumpBuffer tid ptr_text (Some d) None len \<noteq> None"
    by (simp add: dumpBuffer_def Let_def)
qed

theorem dumpBuffer_roundtrip_witness:
  "\<exists>body. undump body = Some [10, 255] \<and> hexbyte ''xyz'' 255 = Some ''ffz''"
proof -
  have "print_02x 255 = ''ff''" by code_simp
  then show ?thesis
    using dumpBuffer_roundtrip[of 2 "[10, 255]" "''xyz''" "''7''" "''p''" "''d''" 255] by auto
qed

lemma backtrace_argv_loop_ok:
  "i + length args \<le> length rows \<Longrightarrow>
   \<exists>rows'. backtrace_argv_loop args i rows = Some rows' \<and> length rows' = length rows \<and>
     (\<forall>j<length rows. rows' ! j =
        (if i \<le> j \<and> j < i + length args then strncpy_cells (args ! (j - i)) 128 else rows ! j))"
proof (induction args arbitrary: i rows)
  case (Cons a args)
  have "Suc i + length args \<le> length (rows[i := strncpy_cells a 128])"
    using Cons.prems by simp
  from Cons.IH[OF this] obtain rows' where r: "backtrace_argv_loop args (Suc i) (rows[i := strncpy_cells a 128]) = Some rows'"
    "length rows' = length rows"
    "\<forall>j<length rows. rows' ! j = (if Suc i \<le> j \<and> j < Suc i + length args then strncpy_cells (args ! (j - Suc i)) 128
       else rows[i := strncpy_cells a 128] ! j)"
    by auto
  have "rows' ! j = (if i \<le> j \<and> j < i + length (a # args) then strncpy_cells ((a # args) ! (j - i)) 128 else rows ! j)"
    if j: "j < length rows" for j
  proof (cases "j = i")
    case True
    then show ?thesis
      using r(3) j by simp
  next
    case False
    then show ?thesis
      using r(3) j by (auto simp: nth_Cons')
  qed
  then show ?case
    using r(1,2) Cons.prems by simp
qed auto

lemma backtrace_argv_loop_overflow: "length rows < i + length args \<Longrightarrow> i \<le> length rows \<Longrightarrow> backtrace_argv_loop args i rows = None"
  by (induction args arbitrary: i rows) auto

text \<open>backtrace_init_argv copies up to ten program arguments into its table, each cut off after 128
  bytes or padded with NUL, and writes outside the table exactly if there are more than ten.\<close>

theorem backtrace_init_argv_spec:
  "(backtrace_init_argv argv = None \<longleftrightarrow> 10 < length argv) \<and>
   (\<forall>rows. backtrace_init_argv argv = Some rows \<longrightarrow> length rows = 10 \<and>
      (\<forall>i<10. rows ! i = (if i < length argv then strncpy_cells (argv ! i) 128 else replicate 128 0)))"
proof (cases "length argv \<le> 10")
  case True
  then show ?thesis
    using backtrace_argv_loop_ok[of 0 argv "replicate 10 (replicate 128 0)"] by (auto simp: backtrace_init_argv_def)
next
  case False
  then show ?thesis
    using backtrace_argv_loop_overflow[of "replicate 10 (replicate 128 0)" 0 argv] by (simp add: backtrace_init_argv_def)
qed

theorem backtrace_init_argv_spec_witness:
  "\<exists>rows. backtrace_init_argv [[97, 98]] = Some rows \<and> rows ! 0 = strncpy_cells [97, 98] 128"
  using backtrace_init_argv_spec[of "[[97, 98]]"] by (cases "backtrace_init_argv [[97, 98]]") auto

end
