(* ===== verification/Vli.thy ===== *)
theory Vli
  imports Prelude
begin

text \<open>
  The very long integers of \<open>src/lib/ecc/uECC.c\<close>, as built for a 64-bit machine with a 128-bit type
  (\<open>uECC_WORD_SIZE\<close> 8, \<open>SUPPORTS_INT128\<close>). An array is the list of its \<open>num_words\<close> words, the lowest first;
  \<open>vli_val\<close> is the number it stands for. A function that writes its result through a pointer
  returns it. The loops that read and write at one index, in ascending or descending order, are recursions over the
  lists; so a call whose result overwrites an argument is the same as one that does not.
\<close>

unbundle bit_operations_syntax


section \<open>Values\<close>

type_synonym vli = "u64 list"

definition uECC_WORD_BITS :: nat where
  "uECC_WORD_BITS = 64"

definition uECC_MAX_WORDS :: nat where
  "uECC_MAX_WORDS = 4"

abbreviation base :: int where "base \<equiv> 18446744073709551616"

primrec vli_val :: "vli \<Rightarrow> int" where
  "vli_val [] = 0"
| "vli_val (w # ws) = uint w + base * vli_val ws"


section \<open>Operations\<close>

definition uECC_vli_clear :: "nat \<Rightarrow> vli" where
  "uECC_vli_clear num_words = replicate num_words 0"

text \<open>A C condition as a word.\<close>

definition c_bool :: "bool \<Rightarrow> u64" where
  "c_bool b = (if b then 1 else 0)"

definition uECC_vli_isZero :: "vli \<Rightarrow> u64" where
  "uECC_vli_isZero vli = c_bool (foldl (OR) 0 vli = 0)"

definition uECC_vli_testBit :: "vli \<Rightarrow> nat \<Rightarrow> u64" where
  "uECC_vli_testBit vli b = vli ! (b div uECC_WORD_BITS) AND push_bit (b mod uECC_WORD_BITS) 1"

text \<open>The loop runs down from the last word; \<open>i\<close> is one more than its index.\<close>

fun vli_numDigits_loop :: "vli \<Rightarrow> nat \<Rightarrow> nat" where
  "vli_numDigits_loop vli 0 = 0"
| "vli_numDigits_loop vli (Suc i) = (if vli ! i = 0 then vli_numDigits_loop vli i else Suc i)"

definition vli_numDigits :: "vli \<Rightarrow> nat" where
  "vli_numDigits vli = vli_numDigits_loop vli (length vli)"

text \<open>The number of times a word can be shifted right before it is zero.\<close>

function digit_bits :: "u64 \<Rightarrow> nat" where
  "digit_bits digit = (if digit = 0 then 0 else Suc (digit_bits (drop_bit 1 digit)))"
  by auto
termination
proof (relation "measure unat")
  fix digit :: u64
  assume "digit \<noteq> 0"
  then have "0 < unat digit"
    by (simp add: unat_gt_0)
  then show "(drop_bit 1 digit, digit) \<in> measure unat"
    by (simp add: drop_bit_eq_div unat_div)
qed simp

declare digit_bits.simps [simp del]

definition uECC_vli_numBits :: "vli \<Rightarrow> nat" where
  "uECC_vli_numBits vli =
     (let num_digits = vli_numDigits vli in
      if num_digits = 0 then 0 else (num_digits - 1) * uECC_WORD_BITS + digit_bits (vli ! (num_digits - 1)))"

fun uECC_vli_cmp_unsafe_loop :: "vli \<Rightarrow> vli \<Rightarrow> nat \<Rightarrow> int" where
  "uECC_vli_cmp_unsafe_loop left right 0 = 0"
| "uECC_vli_cmp_unsafe_loop left right (Suc i) =
     (if left ! i > right ! i then 1
      else if left ! i < right ! i then - 1
      else uECC_vli_cmp_unsafe_loop left right i)"

definition uECC_vli_cmp_unsafe :: "vli \<Rightarrow> vli \<Rightarrow> int" where
  "uECC_vli_cmp_unsafe left right = uECC_vli_cmp_unsafe_loop left right (length left)"

definition uECC_vli_equal :: "vli \<Rightarrow> vli \<Rightarrow> u64" where
  "uECC_vli_equal left right = c_bool (foldl (OR) 0 (rev (map2 (XOR) left right)) = 0)"

text \<open>The words from the highest down: each is shifted and gets the last bit of the one above.\<close>

fun rshift1_down :: "u64 \<Rightarrow> vli \<Rightarrow> vli" where
  "rshift1_down carry [] = []"
| "rshift1_down carry (temp # ws) = (drop_bit 1 temp OR carry) # rshift1_down (push_bit (uECC_WORD_BITS - 1) temp) ws"

definition uECC_vli_rshift1 :: "vli \<Rightarrow> vli" where
  "uECC_vli_rshift1 vli = rev (rshift1_down 0 (rev vli))"

fun uECC_vli_add_loop :: "u64 \<Rightarrow> vli \<Rightarrow> vli \<Rightarrow> vli \<times> u64" where
  "uECC_vli_add_loop carry (l # ls) (r # rs) =
     (let sum = l + r + carry;
          carry = (if sum \<noteq> l then c_bool (sum < l) else carry);
          (result, carry) = uECC_vli_add_loop carry ls rs
      in (sum # result, carry))"
| "uECC_vli_add_loop carry _ _ = ([], carry)"

definition uECC_vli_add :: "vli \<Rightarrow> vli \<Rightarrow> vli \<times> u64" where
  "uECC_vli_add left right = uECC_vli_add_loop 0 left right"

fun uECC_vli_sub_loop :: "u64 \<Rightarrow> vli \<Rightarrow> vli \<Rightarrow> vli \<times> u64" where
  "uECC_vli_sub_loop borrow (l # ls) (r # rs) =
     (let diff = l - r - borrow;
          borrow = (if diff \<noteq> l then c_bool (diff > l) else borrow);
          (result, borrow) = uECC_vli_sub_loop borrow ls rs
      in (diff # result, borrow))"
| "uECC_vli_sub_loop borrow _ _ = ([], borrow)"

definition uECC_vli_sub :: "vli \<Rightarrow> vli \<Rightarrow> vli \<times> u64" where
  "uECC_vli_sub left right = uECC_vli_sub_loop 0 left right"

text \<open>The result is computed in the word type and converted to \<open>int8_t\<close>.\<close>

definition uECC_vli_cmp :: "vli \<Rightarrow> vli \<Rightarrow> int" where
  "uECC_vli_cmp left right =
     (let (tmp, borrow) = uECC_vli_sub left right;
          neg = c_bool (borrow \<noteq> 0);
          equal = uECC_vli_isZero tmp
      in sint (ucast (c_bool (equal = 0) - 2 * neg :: u64) :: 8 word))"

definition uECC_vli_modAdd :: "vli \<Rightarrow> vli \<Rightarrow> vli \<Rightarrow> vli" where
  "uECC_vli_modAdd left right m =
     (let (result, carry) = uECC_vli_add left right in
      if carry \<noteq> 0 \<or> uECC_vli_cmp_unsafe m result \<noteq> 1 then fst (uECC_vli_sub result m) else result)"

definition uECC_vli_modSub :: "vli \<Rightarrow> vli \<Rightarrow> vli \<Rightarrow> vli" where
  "uECC_vli_modSub left right m =
     (let (result, l_borrow) = uECC_vli_sub left right in
      if l_borrow \<noteq> 0 then fst (uECC_vli_add result m) else result)"


section \<open>Bounds\<close>

lemma uint_base: "0 \<le> uint w" "uint w < base" for w :: u64
  using unsigned_less[of w] by simp_all

lemma vli_val_bounds: "0 \<le> vli_val ws" "vli_val ws < base ^ length ws"
proof (induction ws)
  case (Cons w ws)
  {
    case 1
    show ?case using Cons uint_base[of w] by simp
  next
    case 2
    have "vli_val ws + 1 \<le> base ^ length ws"
      using Cons by simp
    then have "base * vli_val ws + base \<le> base * base ^ length ws"
      by linarith
    then show ?case
      using uint_base[of w] by simp
  }
qed simp_all

lemma vli_val_append: "vli_val (xs @ ys) = vli_val xs + base ^ length xs * vli_val ys"
  by (induction xs) (simp_all add: algebra_simps)

lemma vli_val_clear [simp]: "vli_val (uECC_vli_clear n) = 0" "vli_val (replicate n 0) = 0"
  by (induction n) (simp_all add: uECC_vli_clear_def)

lemma vli_val_eq_0_iff: "vli_val ws = 0 \<longleftrightarrow> (\<forall>w\<in>set ws. w = 0)"
proof (induction ws)
  case (Cons w ws)
  then show ?case
    using uint_base(1)[of w] vli_val_bounds(1)[of ws] by (auto simp: add_nonneg_eq_0_iff uint_0_iff)
qed simp

lemma digit_unique:
  fixes m :: int
  assumes "a + m * b = a' + m * b'" "0 \<le> a" "a < m" "0 \<le> a'" "a' < m"
  shows "a = a' \<and> b = b'"
proof -
  have "(a + m * b) div m = b" "(a' + m * b') div m = b'"
    by (rule int_div_pos_eq[where r = a]; use assms in simp) (rule int_div_pos_eq[where r = a']; use assms in simp)
  then have "b = b'"
    using assms(1) by simp
  then show ?thesis
    using assms(1) by simp
qed

text \<open>Words are determined by the value.\<close>

lemma vli_val_inject: "length xs = length ys \<Longrightarrow> vli_val xs = vli_val ys \<longleftrightarrow> xs = ys"
proof (induction xs ys rule: list_induct2)
  case (Cons x xs y ys)
  have "uint x = uint y \<and> vli_val xs = vli_val ys" if "uint x + base * vli_val xs = uint y + base * vli_val ys"
    using digit_unique[OF that] uint_base[of x] uint_base[of y] by simp
  then show ?case
    using Cons by (auto simp: word_uint_eq_iff)
qed simp


text \<open>The words of a number.\<close>

primrec vli_of :: "nat \<Rightarrow> int \<Rightarrow> vli" where
  "vli_of 0 x = []"
| "vli_of (Suc n) x = word_of_int x # vli_of n (x div base)"

lemma length_vli_of [simp]: "length (vli_of n x) = n"
  by (induction n arbitrary: x) simp_all

lemma vli_val_vli_of: "vli_val (vli_of n x) = x mod base ^ n"
proof (induction n arbitrary: x)
  case (Suc n)
  have "x mod (base * base ^ n) = base * (x div base mod base ^ n) + x mod base"
    by (rule zmod_zmult2_eq) simp
  then show ?case
    by (simp add: Suc.IH uint_word_of_int)
qed simp

lemma vli_of_vli_val: "length ws = n \<Longrightarrow> vli_of n (vli_val ws) = ws"
  using vli_val_inject[of "vli_of n (vli_val ws)" ws] vli_val_bounds[of ws] by (simp add: vli_val_vli_of)


section \<open>Addition and subtraction\<close>

lemma c_bool_simps [simp]: "uint (c_bool b) = (if b then 1 else 0)" "c_bool b = 0 \<longleftrightarrow> \<not> b" "c_bool b \<le> 1"
  by (simp_all add: c_bool_def)

lemma uint_small_carry: "uint c = 0 \<or> uint c = 1" if "c \<le> (1 :: u64)"
proof -
  have "uint c \<le> 1"
    using that by (simp add: word_le_def)
  then show ?thesis
    using uint_base(1)[of c] by linarith
qed

lemma mod_base_once: "x mod m = (if x < 0 then x + m else if x < m then x else x - m)"
  if "- m \<le> x" "x < 2 * m" for x m :: int
proof -
  have "(x + m) mod m = x mod m" "(x - m) mod m = x mod m"
    by simp_all
  then show ?thesis
    using that mod_pos_pos_trivial[of "x + m" m] mod_pos_pos_trivial[of "x - m" m] mod_pos_pos_trivial[of x m] by auto
qed

lemma carry_digit:
  fixes L R C S B :: int
  assumes "0 \<le> L" "L < B" "0 \<le> R" "R < B" "C = 0 \<or> C = 1" "S = (L + R + C) mod B"
  shows "S + B * (if S \<noteq> L then if S < L then 1 else 0 else C) = L + R + C"
proof -
  have "S = (if L + R + C < B then L + R + C else L + R + C - B)"
    using assms mod_base_once[of B "L + R + C"] by auto
  then show ?thesis
    using assms by auto
qed

lemma borrow_digit:
  fixes L R C S B :: int
  assumes "0 \<le> L" "L < B" "0 \<le> R" "R < B" "C = 0 \<or> C = 1" "S = (L - R - C) mod B"
  shows "S - B * (if S \<noteq> L then if L < S then 1 else 0 else C) = L - R - C"
proof -
  have "S = (if L - R - C < 0 then L - R - C + B else L - R - C)"
    using assms mod_base_once[of B "L - R - C"] by auto
  then show ?thesis
    using assms by auto
qed

lemma add_word:
  assumes "carry \<le> (1 :: u64)"
  shows "uint (l + r + carry) + base * uint (if l + r + carry \<noteq> l then c_bool (l + r + carry < l) else carry) =
    uint l + uint r + uint carry"
proof -
  have "uint (l + r + carry) = (uint l + uint r + uint carry) mod base"
    by (simp add: uint_word_ariths mod_simps)
  from carry_digit[OF uint_base uint_base uint_small_carry[OF assms] this] show ?thesis
    by (auto simp: word_less_def word_uint_eq_iff split: if_splits)
qed

lemma sub_word:
  assumes "borrow \<le> (1 :: u64)"
  shows "uint (l - r - borrow) - base * uint (if l - r - borrow \<noteq> l then c_bool (l < l - r - borrow) else borrow) =
    uint l - uint r - uint borrow"
proof -
  have "uint (l - r - borrow) = (uint l - uint r - uint borrow) mod base"
    by (simp add: uint_word_ariths mod_simps)
  from borrow_digit[OF uint_base uint_base uint_small_carry[OF assms] this] show ?thesis
    by (auto simp: word_less_def word_uint_eq_iff split: if_splits)
qed

lemma uECC_vli_add_loop:
  assumes "length ls = length rs" "carry \<le> 1" "uECC_vli_add_loop carry ls rs = (result, carry')"
  shows "vli_val result + base ^ length ls * uint carry' = vli_val ls + vli_val rs + uint carry \<and>
    length result = length ls \<and> carry' \<le> 1"
  using assms
proof (induction ls rs arbitrary: carry result carry' rule: list_induct2)
  case (Cons l ls r rs)
  define carry1 where "carry1 = (if l + r + carry \<noteq> l then c_bool (l + r + carry < l) else carry)"
  have c: "carry1 \<le> 1"
    using Cons.prems by (simp add: carry1_def)
  obtain result1 where r: "uECC_vli_add_loop carry1 ls rs = (result1, carry')" "result = (l + r + carry) # result1"
    using Cons.prems by (auto simp: Let_def carry1_def split: prod.splits)
  have "uint (l + r + carry) + base * uint carry1 = uint l + uint r + uint carry"
    using add_word[of carry l r] Cons.prems by (simp add: carry1_def)
  then show ?case
    using Cons.IH[OF c r(1)] by (simp add: r(2) algebra_simps)
qed auto

lemma uECC_vli_sub_loop:
  assumes "length ls = length rs" "borrow \<le> 1" "uECC_vli_sub_loop borrow ls rs = (result, borrow')"
  shows "vli_val result - base ^ length ls * uint borrow' = vli_val ls - vli_val rs - uint borrow \<and>
    length result = length ls \<and> borrow' \<le> 1"
  using assms
proof (induction ls rs arbitrary: borrow result borrow' rule: list_induct2)
  case (Cons l ls r rs)
  define borrow1 where "borrow1 = (if l - r - borrow \<noteq> l then c_bool (l < l - r - borrow) else borrow)"
  have c: "borrow1 \<le> 1"
    using Cons.prems by (simp add: borrow1_def)
  obtain result1 where r: "uECC_vli_sub_loop borrow1 ls rs = (result1, borrow')" "result = (l - r - borrow) # result1"
    using Cons.prems by (auto simp: Let_def borrow1_def split: prod.splits)
  have "uint (l - r - borrow) - base * uint borrow1 = uint l - uint r - uint borrow"
    using sub_word[of borrow l r] Cons.prems by (simp add: borrow1_def)
  then show ?case
    using Cons.IH[OF c r(1)] by (simp add: r(2) algebra_simps)
qed auto

text \<open>
  The sum modulo \<open>base ^ n\<close> with its carry, the difference with its borrow.
\<close>

lemma uECC_vli_add:
  assumes "length l = length r" "uECC_vli_add l r = (result, carry)"
  shows "length result = length l"
    and "uint carry = (if vli_val l + vli_val r < base ^ length l then 0 else 1)"
    and "vli_val result = vli_val l + vli_val r - (if vli_val l + vli_val r < base ^ length l then 0 else base ^ length l)"
proof -
  have a: "vli_val result + base ^ length l * uint carry = vli_val l + vli_val r" "length result = length l" "carry \<le> 1"
    using uECC_vli_add_loop[OF assms(1), of 0 result carry] assms(2) by (simp_all add: uECC_vli_add_def)
  then show "length result = length l"
    by simp
  show "uint carry = (if vli_val l + vli_val r < base ^ length l then 0 else 1)"
    using a(1) uint_small_carry[OF a(3)] vli_val_bounds[of result] a(2) by auto
  then show "vli_val result = vli_val l + vli_val r - (if vli_val l + vli_val r < base ^ length l then 0 else base ^ length l)"
    using a(1) by auto
qed

lemma uECC_vli_add_carry:
  "length l = length r \<Longrightarrow> uECC_vli_add l r = (result, carry) \<Longrightarrow>
    base ^ length l * uint carry + vli_val result = vli_val l + vli_val r"
  using uECC_vli_add[of l r result carry] by (simp split: if_splits)

lemma uECC_vli_sub:
  assumes "length l = length r" "uECC_vli_sub l r = (result, borrow)"
  shows "length result = length l"
    and "uint borrow = (if vli_val l < vli_val r then 1 else 0)"
    and "vli_val result = vli_val l - vli_val r + (if vli_val l < vli_val r then base ^ length l else 0)"
proof -
  have a: "vli_val result - base ^ length l * uint borrow = vli_val l - vli_val r" "length result = length l" "borrow \<le> 1"
    using uECC_vli_sub_loop[OF assms(1), of 0 result borrow] assms(2) by (simp_all add: uECC_vli_sub_def)
  then show "length result = length l"
    by simp
  show "uint borrow = (if vli_val l < vli_val r then 1 else 0)"
    using a(1) uint_small_carry[OF a(3)] vli_val_bounds[of result] a(2) by auto
  then show "vli_val result = vli_val l - vli_val r + (if vli_val l < vli_val r then base ^ length l else 0)"
    using a(1) by auto
qed



section \<open>Tests, comparisons and the shift\<close>

lemma xor_eq_0: "a XOR b = 0 \<longleftrightarrow> a = b" for a b :: u64
  by (auto simp: bit_eq_iff bit_simps)

lemma foldl_or_eq_0: "foldl (OR) a ws = 0 \<longleftrightarrow> a = 0 \<and> (\<forall>w\<in>set ws. w = 0)" for a :: u64
  by (induction ws arbitrary: a) (auto simp: or_eq_0_iff)

lemma uECC_vli_isZero: "uECC_vli_isZero ws = c_bool (vli_val ws = 0)"
  by (simp add: uECC_vli_isZero_def foldl_or_eq_0 vli_val_eq_0_iff)

lemma uECC_vli_equal: "uECC_vli_equal l r = c_bool (vli_val l = vli_val r)" if "length l = length r"
proof -
  have "(\<forall>w\<in>set (map2 (XOR) l r). w = 0) \<longleftrightarrow> l = r"
    using that by (induction l r rule: list_induct2) (auto simp: xor_eq_0)
  then show ?thesis
    using that by (simp add: uECC_vli_equal_def foldl_or_eq_0 vli_val_inject)
qed

lemma vli_val_take_Suc: "i < length ws \<Longrightarrow> vli_val (take (Suc i) ws) = vli_val (take i ws) + base ^ i * uint (ws ! i)"
  by (simp add: take_Suc_conv_app_nth vli_val_append)

lemma top_word_less:
  assumes "x < base ^ i" "0 \<le> y" "a < b"
  shows "x + base ^ i * a < y + base ^ i * b"
proof -
  have "base ^ i * (a + 1) \<le> base ^ i * b"
    using assms by (intro mult_left_mono) simp_all
  then show ?thesis
    using assms by (simp add: algebra_simps)
qed

lemma uECC_vli_cmp_unsafe_loop:
  "i \<le> length l \<Longrightarrow> length l = length r \<Longrightarrow>
    uECC_vli_cmp_unsafe_loop l r i = sgn (vli_val (take i l) - vli_val (take i r))"
proof (induction i)
  case (Suc i)
  have b: "vli_val (take i ws) < base ^ i" "0 \<le> vli_val (take i ws)" if "length ws = length l" for ws
    using vli_val_bounds[of "take i ws"] Suc.prems that by simp_all
  show ?case
    using Suc b[of l] b[of r] top_word_less[of "vli_val (take i l)" i "vli_val (take i r)" "uint (l ! i)" "uint (r ! i)"]
      top_word_less[of "vli_val (take i r)" i "vli_val (take i l)" "uint (r ! i)" "uint (l ! i)"]
    by (auto simp: vli_val_take_Suc word_less_def word_uint_eq_iff sgn_if not_less)
qed simp

lemma uECC_vli_cmp_unsafe: "uECC_vli_cmp_unsafe l r = sgn (vli_val l - vli_val r)" if "length l = length r"
  using uECC_vli_cmp_unsafe_loop[of "length l" l r] that by (simp add: uECC_vli_cmp_unsafe_def)

lemma sint_minus_1: "sint (ucast (- 1 :: u64) :: 8 word) = - 1"
  by code_simp

lemma uECC_vli_cmp: "uECC_vli_cmp l r = sgn (vli_val l - vli_val r)" if "length l = length r"
proof -
  obtain tmp borrow where s: "uECC_vli_sub l r = (tmp, borrow)"
    by fastforce
  have "vli_val tmp = 0 \<longleftrightarrow> vli_val l = vli_val r"
    using uECC_vli_sub(3)[OF that s] vli_val_bounds[of l] vli_val_bounds[of r] that by auto
  moreover have "borrow \<noteq> 0 \<longleftrightarrow> vli_val l < vli_val r"
    using uECC_vli_sub(2)[OF that s] by (auto simp: uint_0_iff split: if_splits)
  ultimately show ?thesis
    by (auto simp: uECC_vli_cmp_def s uECC_vli_isZero c_bool_def sgn_if sint_minus_1)
qed

lemma uint_or_disjoint: "uint (a OR b) = uint a + uint b" if "a AND b = 0" for a b :: "'a :: len word"
proof -
  have "uint a AND uint b = 0"
    using that by (metis unsigned_and_eq unsigned_0)
  then show ?thesis
    by (simp add: unsigned_or_eq disjunctive_add_eq_or)
qed

lemma uint_drop_bit_1: "uint (drop_bit (Suc 0) w) = uint w div 2" for w :: u64
  by (simp add: drop_bit_eq_div uint_div)

lemma rshift1_word: "uint (drop_bit (Suc 0) w OR push_bit 63 c) = uint w div 2 + 2 ^ 63 * (uint c mod 2)" for w c :: u64
proof -
  have "drop_bit (Suc 0) w AND push_bit 63 c = 0"
    by (auto simp: bit_eq_iff bit_simps dest: bit_imp_le_length)
  moreover have "uint (push_bit 63 c) = push_bit 63 (take_bit 1 (uint c))"
    by (simp only: unsigned_push_bit_eq take_bit_push_bit) simp
  then have "uint (push_bit 63 c) = 2 ^ 63 * (uint c mod 2)"
    by (simp only: push_bit_eq_mult take_bit_eq_mod) simp
  ultimately show ?thesis
    by (simp only: uint_or_disjoint uint_drop_bit_1)
qed

lemma div_2_add: "(x + m * (w mod 2)) div 2 + m * (w div 2 + k) = (x + m * w + 2 * m * k) div 2" for x m w k :: int
proof -
  have "m * w = m * (w mod 2 + 2 * (w div 2))"
    by simp
  then have "x + m * w + 2 * m * k = x + m * (w mod 2) + 2 * (m * (w div 2 + k))"
    unfolding distrib_left by simp
  then show ?thesis
    by simp
qed

lemma length_rshift1_down [simp]: "length (rshift1_down c ws) = length ws"
  by (induction ws arbitrary: c) simp_all

lemma rshift1_down:
  "vli_val (rev (rshift1_down (push_bit 63 c) ws)) = (vli_val (rev ws) + base ^ length ws * (uint c mod 2)) div 2"
proof (induction ws arbitrary: c)
  case (Cons w ws)
  show ?case
    using div_2_add[of "vli_val (rev ws)" "base ^ length ws" "uint w" "2 ^ 63 * (uint c mod 2)"]
    by (simp add: vli_val_append Cons.IH rshift1_word uECC_WORD_BITS_def algebra_simps)
qed simp

lemma length_uECC_vli_rshift1 [simp]: "length (uECC_vli_rshift1 ws) = length ws"
  by (simp add: uECC_vli_rshift1_def)

lemma uECC_vli_rshift1: "vli_val (uECC_vli_rshift1 ws) = vli_val ws div 2"
  using rshift1_down[of 0 "rev ws"] by (simp add: uECC_vli_rshift1_def)


section \<open>Bits\<close>

lemma vli_val_Cons_or: "vli_val (w # ws) = uint w OR push_bit 64 (vli_val ws)"
proof -
  have "uint w AND push_bit 64 (vli_val ws) = 0"
    by (auto simp: bit_eq_iff bit_simps dest: bit_imp_le_length)
  then show ?thesis
    by (simp add: push_bit_eq_mult mult.commute flip: disjunctive_add_eq_or)
qed

lemma bit_vli_val: "bit (vli_val ws) n \<longleftrightarrow> n div 64 < length ws \<and> bit (ws ! (n div 64)) (n mod 64)"
proof (induction ws arbitrary: n)
  case (Cons w ws)
  show ?case
  proof (cases "n < 64")
    case True
    then show ?thesis
      by (simp add: vli_val_Cons_or bit_simps del: vli_val.simps)
  next
    case False
    then obtain k where "n = k + 64"
      by (metis le_add_diff_inverse2 not_less)
    moreover have "(k + 64) div 64 = Suc (k div 64)"
      by (simp add: div_add_self2)
    ultimately show ?thesis
      by (auto simp: vli_val_Cons_or bit_simps Cons.IH simp del: vli_val.simps dest: bit_imp_le_length)
  qed
qed simp

lemma uECC_vli_testBit: "uECC_vli_testBit ws n \<noteq> 0 \<longleftrightarrow> bit (vli_val ws) n" if "n < 64 * length ws"
proof -
  have "n div 64 < length ws"
    using that by (simp add: less_mult_imp_div_less mult.commute)
  then show ?thesis
    by (simp add: uECC_vli_testBit_def uECC_WORD_BITS_def bit_vli_val and_exp_eq_0_iff_not_bit push_bit_of_1)
qed

lemma digit_bits: "uint d < 2 ^ digit_bits d \<and> (d \<noteq> 0 \<longrightarrow> 0 < digit_bits d \<and> 2 ^ (digit_bits d - 1) \<le> uint d)"
proof (induction d rule: digit_bits.induct)
  case (1 d)
  show ?case
  proof (cases "d = 0")
    case False
    have h: "uint (drop_bit 1 d) = uint d div 2"
      by (simp add: uint_drop_bit_1)
    have IH: "uint d div 2 < 2 ^ digit_bits (drop_bit 1 d)"
      "drop_bit 1 d \<noteq> 0 \<longrightarrow> 0 < digit_bits (drop_bit 1 d) \<and> 2 ^ (digit_bits (drop_bit 1 d) - 1) \<le> uint d div 2"
      using 1[OF False] unfolding h by blast+
    show ?thesis
    proof (cases "drop_bit 1 d = 0")
      case True
      then have "uint d div 2 = 0" "uint d \<noteq> 0"
        using h False by (simp_all add: uint_0_iff)
      then have "uint d = 1"
        using uint_base(1)[of d] by presburger
      then show ?thesis
        using True False by (simp add: digit_bits.simps[of d] digit_bits.simps[of 0])
    next
      case nz: False
      obtain m where m: "digit_bits (drop_bit 1 d) = Suc m"
        using IH(2) nz gr0_implies_Suc by blast
      then show ?thesis
        using IH nz False by (auto simp: digit_bits.simps[of d])
    qed
  qed (simp add: digit_bits.simps)
qed

lemma vli_numDigits_loop:
  "i \<le> length ws \<Longrightarrow> vli_numDigits_loop ws i \<le> i \<and>
    vli_val (take i ws) = vli_val (take (vli_numDigits_loop ws i) ws) \<and>
    (0 < vli_numDigits_loop ws i \<longrightarrow> ws ! (vli_numDigits_loop ws i - 1) \<noteq> 0)"
  by (induction i) (auto simp: vli_val_take_Suc)

lemma vli_numDigits:
  "vli_numDigits ws \<le> length ws" "vli_val (take (vli_numDigits ws) ws) = vli_val ws"
  "0 < vli_numDigits ws \<Longrightarrow> ws ! (vli_numDigits ws - 1) \<noteq> 0"
  using vli_numDigits_loop[of "length ws" ws] by (simp_all add: vli_numDigits_def)


lemma base_power: "base ^ n = 2 ^ (64 * n)"
  by (simp add: power_mult)

lemma uECC_vli_numBits:
  "vli_val ws < 2 ^ uECC_vli_numBits ws"
  "0 < uECC_vli_numBits ws \<Longrightarrow> 2 ^ (uECC_vli_numBits ws - 1) \<le> vli_val ws"
  "uECC_vli_numBits ws \<le> 64 * length ws"
proof -
  have "vli_val ws < 2 ^ uECC_vli_numBits ws \<and>
    (0 < uECC_vli_numBits ws \<longrightarrow> 2 ^ (uECC_vli_numBits ws - 1) \<le> vli_val ws)"
  proof (cases "vli_numDigits ws")
    case 0
    then show ?thesis
      using vli_numDigits(2)[of ws] by (simp add: uECC_vli_numBits_def)
  next
    case (Suc i)
    then have d: "i < length ws" "ws ! i \<noteq> 0"
      using vli_numDigits(1,3)[of ws] by simp_all
    have n: "uECC_vli_numBits ws = 64 * i + digit_bits (ws ! i)"
      by (simp add: uECC_vli_numBits_def Suc uECC_WORD_BITS_def)
    have v: "vli_val ws = vli_val (take i ws) + 2 ^ (64 * i) * uint (ws ! i)"
      using vli_numDigits(2)[of ws] d by (simp add: Suc vli_val_take_Suc base_power)
    obtain t where t: "digit_bits (ws ! i) = Suc t"
      using digit_bits[of "ws ! i"] d(2) gr0_implies_Suc by blast
    have b: "0 \<le> vli_val (take i ws)" "vli_val (take i ws) < 2 ^ (64 * i)"
      using vli_val_bounds[of "take i ws"] d(1) by (simp_all add: base_power)
    have "2 ^ (64 * i) * (uint (ws ! i) + 1) \<le> 2 ^ (64 * i) * (2 ^ Suc t :: int)"
      using digit_bits[of "ws ! i"] t by (intro mult_left_mono) simp_all
    moreover have "2 ^ (64 * i) * 2 ^ t \<le> 2 ^ (64 * i) * uint (ws ! i)"
      using digit_bits[of "ws ! i"] d(2) t by (intro mult_left_mono) simp_all
    ultimately have "vli_val ws < 2 ^ (64 * i) * 2 ^ Suc t" "2 ^ (64 * i) * 2 ^ t \<le> vli_val ws"
      using b unfolding v distrib_left by linarith+
    then show ?thesis
      by (simp add: n t power_add)
  qed
  then show 1: "vli_val ws < 2 ^ uECC_vli_numBits ws"
    and 2: "0 < uECC_vli_numBits ws \<Longrightarrow> 2 ^ (uECC_vli_numBits ws - 1) \<le> vli_val ws"
    by blast+
  show "uECC_vli_numBits ws \<le> 64 * length ws"
  proof (rule ccontr)
    assume n: "\<not> uECC_vli_numBits ws \<le> 64 * length ws"
    then have "(2 :: int) ^ (64 * length ws) \<le> 2 ^ (uECC_vli_numBits ws - 1)"
      by (intro power_increasing) simp_all
    moreover have "0 < uECC_vli_numBits ws"
      using n by simp
    ultimately show False
      using 2 vli_val_bounds(2)[of ws] unfolding base_power by linarith
  qed
qed

text \<open>The number of bits is the length of the binary representation.\<close>

lemma uECC_vli_numBits_unique:
  assumes "2 ^ n \<le> vli_val ws" "vli_val ws < 2 ^ Suc n"
  shows "uECC_vli_numBits ws = Suc n"
proof -
  have "(2 :: int) ^ n < 2 ^ uECC_vli_numBits ws"
    using assms(1) uECC_vli_numBits(1)[of ws] by linarith
  then have "n < uECC_vli_numBits ws"
    by simp
  moreover have "(2 :: int) ^ (uECC_vli_numBits ws - 1) < 2 ^ Suc n"
    using assms(2) uECC_vli_numBits(2)[of ws] calculation by linarith
  then have "uECC_vli_numBits ws - 1 < Suc n"
    by (rule power_less_imp_less_exp[rotated]) simp
  ultimately show ?thesis
    by simp
qed


section \<open>Modular addition and subtraction\<close>

text \<open>Every operation below keeps the number of words.\<close>

lemma uECC_vli_modAdd:
  assumes "length l = length m" "length r = length m" "vli_val l < vli_val m" "vli_val r < vli_val m"
  shows "vli_val (uECC_vli_modAdd l r m) = (vli_val l + vli_val r) mod vli_val m"
    and "length (uECC_vli_modAdd l r m) = length m"
proof -
  obtain result carry where s: "uECC_vli_add l r = (result, carry)"
    by fastforce
  obtain d borrow where d: "uECC_vli_sub result m = (d, borrow)"
    by fastforce
  note a = uECC_vli_add[OF _ s] and b = uECC_vli_sub[OF _ d]
  have len: "length l = length r" "length result = length m" "length d = length m"
    using assms a(1) b(1) by simp_all
  have c: "carry = 0 \<longleftrightarrow> vli_val l + vli_val r < base ^ length m"
    using a(2)[OF len(1)] assms by (auto simp: uint_0_iff split: if_splits)
  have v: "vli_val l + vli_val r < 2 * vli_val m" "- vli_val m \<le> vli_val l + vli_val r"
    using assms vli_val_bounds(1)[of l] vli_val_bounds(1)[of r] by linarith+
  show "vli_val (uECC_vli_modAdd l r m) = (vli_val l + vli_val r) mod vli_val m"
    using assms a(3)[OF len(1)] b(3)[OF len(2)] len c mod_base_once[OF v(2,1)]
      vli_val_bounds[of m] vli_val_bounds(1)[of l] vli_val_bounds(1)[of r]
    by (auto simp: uECC_vli_modAdd_def s d uECC_vli_cmp_unsafe sgn_if split: if_splits)
  show "length (uECC_vli_modAdd l r m) = length m"
    using len by (simp add: uECC_vli_modAdd_def s d)
qed

lemma uECC_vli_modSub:
  assumes "length l = length m" "length r = length m" "vli_val l < vli_val m" "vli_val r < vli_val m"
  shows "vli_val (uECC_vli_modSub l r m) = (vli_val l - vli_val r) mod vli_val m"
    and "length (uECC_vli_modSub l r m) = length m"
proof -
  obtain result borrow where s: "uECC_vli_sub l r = (result, borrow)"
    by fastforce
  obtain d carry where d: "uECC_vli_add result m = (d, carry)"
    by fastforce
  note a = uECC_vli_sub[OF _ s] and b = uECC_vli_add[OF _ d]
  have len: "length l = length r" "length result = length m" "length d = length m"
    using assms a(1) b(1) by simp_all
  have c: "borrow = 0 \<longleftrightarrow> \<not> vli_val l < vli_val r"
    using a(2)[OF len(1)] assms by (auto simp: uint_0_iff split: if_splits)
  have v: "vli_val l - vli_val r < 2 * vli_val m" "- vli_val m \<le> vli_val l - vli_val r"
    using assms vli_val_bounds(1)[of l] vli_val_bounds(1)[of r] by linarith+
  show "vli_val (uECC_vli_modSub l r m) = (vli_val l - vli_val r) mod vli_val m"
    using assms a(3)[OF len(1)] b(3)[OF len(2)] len c mod_base_once[OF v(2,1)]
      vli_val_bounds[of m] vli_val_bounds(1)[of l] vli_val_bounds(1)[of r]
    by (auto simp: uECC_vli_modSub_def s d split: if_splits)
  show "length (uECC_vli_modSub l r m) = length m"
    using len by (simp add: uECC_vli_modSub_def s d)
qed

end
