(* ===== verification/Vli_Mult.thy ===== *)
theory Vli_Mult
  imports Vli
begin

text \<open>
  The multiplication of \<open>src/lib/ecc/uECC.c\<close>. The product is computed one column at a time: the column \<open>k\<close> adds the
  products of the words whose indices add up to \<open>k\<close> to an accumulator of three words, stores its lowest word and
  shifts it down by one. The accumulator never overflows, and what is stored is the whole product.
\<close>

unbundle bit_operations_syntax


section \<open>Operations\<close>

type_synonym dword = "128 word"
type_synonym acc = "u64 \<times> u64 \<times> u64"

text \<open>The product of two words is added to the accumulator \<open>(r0, r1, r2)\<close>.\<close>

definition muladd :: "u64 \<Rightarrow> u64 \<Rightarrow> acc \<Rightarrow> acc" where
  "muladd a b r =
     (case r of (r0, r1, r2) \<Rightarrow>
        let p = (ucast a :: dword) * ucast b;
            r01 = push_bit uECC_WORD_BITS (ucast r1 :: dword) OR ucast r0;
            r01 = r01 + p;
            r2 = r2 + c_bool (r01 < p)
        in (ucast r01, ucast (drop_bit uECC_WORD_BITS r01), r2))"

text \<open>The inner loops, for the indices \<open>is\<close>.\<close>

definition mult_column :: "vli \<Rightarrow> vli \<Rightarrow> nat \<Rightarrow> nat list \<Rightarrow> acc \<Rightarrow> acc" where
  "mult_column left right k is r = foldl (\<lambda>r i. muladd (left ! i) (right ! (k - i)) r) r is"

text \<open>The outer loops, for the columns with their indices: the words stored and the accumulator that is left.\<close>

fun mult_columns :: "vli \<Rightarrow> vli \<Rightarrow> (nat \<times> nat list) list \<Rightarrow> acc \<Rightarrow> vli \<times> acc" where
  "mult_columns left right [] r = ([], r)"
| "mult_columns left right ((k, is) # cols) r =
     (let (r0, r1, r2) = mult_column left right k is r;
          (result, r) = mult_columns left right cols (r1, r2, 0)
      in (r0 # result, r))"

definition columns :: "nat \<Rightarrow> (nat \<times> nat list) list" where
  "columns num_words =
     map (\<lambda>k. (k, [0..<Suc k])) [0..<num_words] @
     map (\<lambda>k. (k, [(k + 1) - num_words..<num_words])) [num_words..<num_words * 2 - 1]"

definition uECC_vli_mult :: "vli \<Rightarrow> vli \<Rightarrow> vli" where
  "uECC_vli_mult left right =
     (let (result, r0, r1, r2) = mult_columns left right (columns (length left)) (0, 0, 0)
      in result @ [r0])"


section \<open>The accumulator\<close>

definition acc_val :: "acc \<Rightarrow> int" where
  "acc_val r = (case r of (r0, r1, r2) \<Rightarrow> uint r0 + base * uint r1 + base ^ 2 * uint r2)"

lemma acc_val_nonneg [simp]: "0 \<le> acc_val r"
  by (cases r) (simp add: acc_val_def)

lemma acc_shift: "acc_val (r0, r1, r2) = uint r0 + base * acc_val (r1, r2, 0)" "acc_val (r1, r2, 0) < base ^ 2"
proof -
  show "acc_val (r0, r1, r2) = uint r0 + base * acc_val (r1, r2, 0)"
    by (simp add: acc_val_def algebra_simps power2_eq_square)
  show "acc_val (r1, r2, 0) < base ^ 2"
    using vli_val_bounds(2)[of "[r1, r2]"] by (simp add: acc_val_def)
qed

lemma uint_ucast_dword: "uint (ucast w :: dword) = uint w" for w :: u64
  by (simp add: unsigned_ucast_eq take_bit_int_eq_self_iff) (use uint_base[of w] in simp)

lemma word_prod_less: "uint a * uint b < base ^ 2" "uint a * uint b \<le> (base - 1) ^ 2" for a b :: u64
proof -
  have "uint a * uint b \<le> (base - 1) * (base - 1)"
    by (intro mult_mono) (use uint_base[of a] uint_base[of b] in simp_all)
  then show "uint a * uint b < base ^ 2" "uint a * uint b \<le> (base - 1) ^ 2"
    by simp_all
qed

lemma add_overflow:
  fixes Q P S M :: int
  assumes "0 \<le> Q" "Q < M" "0 \<le> P" "P < M" "S = (Q + P) mod M"
  shows "S + M * (if S < P then 1 else 0) = Q + P"
proof -
  have "S = (if Q + P < M then Q + P else Q + P - M)"
    using assms mod_base_once[of M "Q + P"] by auto
  then show ?thesis
    using assms by auto
qed

lemma uint_dword_join: "uint (push_bit 64 (ucast hi :: dword) OR ucast lo) = base * uint hi + uint lo" for hi lo :: u64
proof -
  have "push_bit 64 (ucast hi :: dword) AND ucast lo = 0"
    by (auto simp: bit_eq_iff bit_simps dest: bit_imp_le_length)
  moreover have "uint (push_bit 64 (ucast hi :: dword)) = push_bit 64 (take_bit 64 (uint hi))"
    by (simp only: unsigned_push_bit_eq take_bit_push_bit uint_ucast_dword) simp
  then have "uint (push_bit 64 (ucast hi :: dword)) = base * uint hi"
    using uint_base[of hi] by (simp add: push_bit_eq_mult take_bit_int_eq_self)
  ultimately show ?thesis
    by (simp only: uint_or_disjoint uint_ucast_dword)
qed

lemma uint_dword_split:
  "uint (ucast d :: u64) + base * uint (ucast (drop_bit 64 d) :: u64) = uint d" for d :: dword
proof -
  have "uint d < base ^ 2"
    using unsigned_less[of d] by simp
  then have "uint d div base < base"
    by (simp add: div_less_iff_less_mult) 
  then have "uint (ucast (drop_bit 64 d) :: u64) = uint d div base"
    by (simp add: unsigned_ucast_eq drop_bit_eq_div take_bit_eq_mod uint_div mod_pos_pos_trivial pos_imp_zdiv_nonneg_iff)
  moreover have "uint (ucast d :: u64) = uint d mod base"
    by (simp add: unsigned_ucast_eq take_bit_eq_mod)
  ultimately show ?thesis
    by simp
qed

lemma muladd:
  assumes "acc_val r + uint a * uint b < base ^ 3"
  shows "acc_val (muladd a b r) = acc_val r + uint a * uint b"
proof -
  obtain r0 r1 r2 where r: "r = (r0, r1, r2)"
    by (cases r)
  define p where "p = (ucast a :: dword) * ucast b"
  define q where "q = push_bit 64 (ucast r1 :: dword) OR ucast r0"
  have p: "uint p = uint a * uint b"
    using word_prod_less[of a b] by (simp add: p_def uint_word_ariths uint_ucast_dword)
  have q: "uint q = base * uint r1 + uint r0"
    unfolding q_def by (rule uint_dword_join)
  have "uint (q + p) = (uint q + uint p) mod base ^ 2" "uint q < base ^ 2" "uint p < base ^ 2"
    using unsigned_less[of q] unsigned_less[of p] by (simp_all add: uint_word_ariths)
  then have o: "uint (q + p) + base ^ 2 * uint (c_bool (q + p < p)) = uint q + uint p"
    using add_overflow[of "uint q" "base ^ 2" "uint p" "uint (q + p)"] by (simp add: word_less_def)
  have "base ^ 2 * (uint r2 + uint (c_bool (q + p < p))) + uint (q + p) = acc_val r + uint a * uint b"
    using o by (simp add: acc_val_def r q p)
  moreover have "x < base" if "base ^ 2 * x + u = acc_val r + uint a * uint b" "0 \<le> u" for x u
    using that assms by simp
  ultimately have "uint r2 + uint (c_bool (q + p < p)) < base"
    by (meson unsigned_greater_eq)
  then have "uint (r2 + c_bool (q + p < p)) = uint r2 + uint (c_bool (q + p < p))"
    by (simp add: uint_word_ariths)
  then have "acc_val (muladd a b r) = uint (q + p) + base ^ 2 * (uint r2 + uint (c_bool (q + p < p)))"
    using uint_dword_split[of "q + p"]
    by (simp add: acc_val_def muladd_def r uECC_WORD_BITS_def Let_def flip: p_def q_def)
  also have "\<dots> = acc_val r + uint a * uint b"
    using o by (simp add: acc_val_def r q p)
  finally show ?thesis .
qed



section \<open>Columns\<close>

definition col_sum :: "vli \<Rightarrow> vli \<Rightarrow> nat \<Rightarrow> nat list \<Rightarrow> int" where
  "col_sum l r k is = (\<Sum>i\<leftarrow>is. uint (l ! i) * uint (r ! (k - i)))"

lemma col_sum_bounds: "0 \<le> col_sum l r k is" "col_sum l r k is \<le> int (length is) * (base - 1) ^ 2"
proof -
  show "0 \<le> col_sum l r k is"
    by (induction "is") (simp_all add: col_sum_def)
  show "col_sum l r k is \<le> int (length is) * (base - 1) ^ 2"
  proof (induction "is")
    case (Cons i "is")
    then show ?case
      using word_prod_less(2)[of "l ! i" "r ! (k - i)"] by (simp add: col_sum_def algebra_simps)
  qed (simp add: col_sum_def)
qed

lemma mult_column:
  "acc_val acc + col_sum l r k is < base ^ 3 \<Longrightarrow> acc_val (mult_column l r k is acc) = acc_val acc + col_sum l r k is"
proof (induction "is" arbitrary: acc)
  case (Cons i "is")
  have s: "col_sum l r k (i # is) = uint (l ! i) * uint (r ! (k - i)) + col_sum l r k is"
    by (simp add: col_sum_def)
  have m: "acc_val (muladd (l ! i) (r ! (k - i)) acc) = acc_val acc + uint (l ! i) * uint (r ! (k - i))"
    using Cons.prems s col_sum_bounds(1)[of l r k "is"] by (intro muladd) simp
  then show ?case
    using Cons.IH[of "muladd (l ! i) (r ! (k - i)) acc"] Cons.prems s by (simp add: mult_column_def)
qed (simp add: mult_column_def col_sum_def)

fun cols_val :: "vli \<Rightarrow> vli \<Rightarrow> (nat \<times> nat list) list \<Rightarrow> int" where
  "cols_val l r [] = 0"
| "cols_val l r ((k, is) # cols) = col_sum l r k is + base * cols_val l r cols"

lemma mult_columns:
  assumes "acc_val acc < base ^ 2" "\<forall>(k, is) \<in> set cols. length is < 2 ^ 32" "mult_columns l r cols acc = (result, acc')"
  shows "vli_val result + base ^ length cols * acc_val acc' = acc_val acc + cols_val l r cols \<and>
    length result = length cols \<and> acc_val acc' < base ^ 2"
  using assms
proof (induction cols arbitrary: acc result)
  case (Cons c cols)
  obtain k "is" where c: "c = (k, is)"
    by (cases c)
  obtain r0 r1 r2 where acc1: "mult_column l r k is acc = (r0, r1, r2)"
    by (metis surj_pair)
  obtain result1 where res: "mult_columns l r cols (r1, r2, 0) = (result1, acc')" "result = r0 # result1"
    using Cons.prems(3) by (auto simp: c acc1 split: prod.splits)
  have "int (length is) * (base - 1) ^ 2 \<le> 2 ^ 32 * (base - 1) ^ 2"
    using Cons.prems(2) by (intro mult_right_mono) (simp_all add: c)
  then have "acc_val acc + col_sum l r k is < base ^ 3"
    using Cons.prems(1) col_sum_bounds(2)[of l r k "is"] by simp
  then have "acc_val (r0, r1, r2) = acc_val acc + col_sum l r k is"
    by (metis acc1 mult_column)
  moreover have "vli_val result1 + base ^ length cols * acc_val acc' = acc_val (r1, r2, 0) + cols_val l r cols \<and>
      length result1 = length cols \<and> acc_val acc' < base ^ 2"
    using Cons.prems(2) by (intro Cons.IH[OF acc_shift(2) _ res(1)]) simp
  ultimately show ?case
    using acc_shift(1)[of r0 r1 r2] by (simp add: res(2) c algebra_simps)
qed simp


text \<open>The index lists of the columns, and what they add up to.\<close>

lemma length_columns [simp]: "0 < n \<Longrightarrow> length (columns n) = 2 * n - 1"
  by (simp add: columns_def)

lemma columns_nth:
  assumes "0 < n" "k < 2 * n - 1"
  shows "fst (columns n ! k) = k"
    and "distinct (snd (columns n ! k))"
    and "set (snd (columns n ! k)) = {i. i < n \<and> i \<le> k \<and> k - i < n}"
  using assms by (auto simp: columns_def nth_append)

lemma cols_val_sum: "cols_val l r cols = (\<Sum>k < length cols. base ^ k * col_sum l r (fst (cols ! k)) (snd (cols ! k)))"
proof (induction cols)
  case (Cons c cols)
  show ?case
    by (cases c) (simp add: Cons.IH sum.lessThan_Suc_shift sum_distrib_left algebra_simps del: sum.lessThan_Suc)
qed simp

lemma vli_val_sum: "vli_val ws = (\<Sum>i < length ws. base ^ i * uint (ws ! i))"
proof (induction ws)
  case (Cons w ws)
  show ?case
    by (simp add: Cons.IH sum.lessThan_Suc_shift sum_distrib_left algebra_simps del: sum.lessThan_Suc)
qed simp

lemma sum_columns:
  fixes f :: "nat \<Rightarrow> nat \<Rightarrow> int"
  shows "(\<Sum>k < 2 * n - 1. \<Sum>i | i < n \<and> i \<le> k \<and> k - i < n. f i (k - i)) = (\<Sum>i < n. \<Sum>j < n. f i j)"
proof -
  have "(\<Sum>k < 2 * n - 1. \<Sum>i | i < n \<and> i \<le> k \<and> k - i < n. f i (k - i)) =
    (\<Sum>(k, i) \<in> Sigma {..<2 * n - 1} (\<lambda>k. {i. i < n \<and> i \<le> k \<and> k - i < n}). f i (k - i))"
    by (rule sum.Sigma) auto
  also have "\<dots> = (\<Sum>(i, j) \<in> {..<n} \<times> {..<n}. f i j)"
    by (rule sum.reindex_bij_witness[where i = "\<lambda>(i, j). (i + j, i)" and j = "\<lambda>(k, i). (i, k - i)"]) auto
  also have "\<dots> = (\<Sum>i < n. \<Sum>j < n. f i j)"
    by (simp add: sum.cartesian_product)
  finally show ?thesis .
qed

lemma cols_val_columns:
  assumes "length l = n" "length r = n" "0 < n"
  shows "cols_val l r (columns n) = vli_val l * vli_val r"
proof -
  have "col_sum l r (fst (columns n ! k)) (snd (columns n ! k)) =
      (\<Sum>i | i < n \<and> i \<le> k \<and> k - i < n. uint (l ! i) * uint (r ! (k - i)))" if "k < 2 * n - 1" for k
    using columns_nth[OF assms(3) that] by (simp add: col_sum_def sum_list_distinct_conv_sum_set)
  then have "cols_val l r (columns n) =
      (\<Sum>k < 2 * n - 1. \<Sum>i | i < n \<and> i \<le> k \<and> k - i < n. base ^ (i + (k - i)) * (uint (l ! i) * uint (r ! (k - i))))"
    using assms(3) by (simp add: cols_val_sum sum_distrib_left)
  also have "\<dots> = (\<Sum>i < n. \<Sum>j < n. base ^ (i + j) * (uint (l ! i) * uint (r ! j)))"
    by (rule sum_columns)
  also have "\<dots> = vli_val l * vli_val r"
    by (simp add: vli_val_sum assms(1,2) sum_product power_add algebra_simps)
  finally show ?thesis .
qed

lemma uECC_vli_mult:
  assumes "length l = n" "length r = n" "0 < n" "n \<le> uECC_MAX_WORDS"
  shows "vli_val (uECC_vli_mult l r) = vli_val l * vli_val r" "length (uECC_vli_mult l r) = 2 * n"
proof -
  obtain result r0 r1 r2 where m: "mult_columns l r (columns n) (0, 0, 0) = (result, r0, r1, r2)"
    by (metis surj_pair)
  have c: "\<forall>(k, is) \<in> set (columns n). length is < 2 ^ 32"
    using assms(4) by (auto simp: columns_def uECC_MAX_WORDS_def)
  have v: "vli_val result + base ^ (2 * n - 1) * acc_val (r0, r1, r2) = vli_val l * vli_val r" "length result = 2 * n - 1"
    using mult_columns[OF _ c m] assms by (simp_all add: acc_val_def cols_val_columns)
  have "vli_val l * vli_val r < base ^ n * base ^ n"
    using vli_val_bounds[of l] vli_val_bounds[of r] assms(1,2) by (intro mult_strict_mono') simp_all
  also have "\<dots> = base ^ (2 * n - 1) * base"
    using assms(3) by (simp only: flip: power_add power_Suc2) (simp add: mult_2)
  finally have "base ^ (2 * n - 1) * acc_val (r0, r1, r2) < base ^ (2 * n - 1) * base"
    using v(1) vli_val_bounds(1)[of result] by linarith
  then have "uint r0 + base * acc_val (r1, r2, 0) < base"
    by (simp add: acc_shift(1)[of r0])
  moreover have "a = 0" if "u + base * a < base" "0 \<le> u" "0 \<le> a" for u a
    using that by simp
  ultimately have "acc_val (r1, r2, 0) = 0"
    by (meson unsigned_greater_eq acc_val_nonneg)
  then have "acc_val (r0, r1, r2) = uint r0"
    by (simp add: acc_shift(1)[of r0])
  then show "vli_val (uECC_vli_mult l r) = vli_val l * vli_val r" "length (uECC_vli_mult l r) = 2 * n"
    using v m assms by (simp_all add: uECC_vli_mult_def vli_val_append)
qed

end
