(* ===== verification/Vli_Mod.thy ===== *)
theory Vli_Mod
  imports Vli_Mult
begin

text \<open>
  The reduction modulo a number of \<open>src/lib/ecc/uECC.c\<close> (\<open>uECC_vli_mmod\<close>) and the modular product. The code shifts the
  modulus up until its highest bit is the highest of the double length, and then subtracts it where it can while it
  shifts it down again. It needs the highest word of the modulus to be nonzero: that is what makes the shifted modulus
  fit the double length (the code says that it is only designed for the moduli of its curves).
\<close>

unbundle bit_operations_syntax


section \<open>Operations\<close>

text \<open>The words of the modulus shifted up by \<open>bit_shift\<close>, \<open>0 < bit_shift\<close>.\<close>

fun lshift_loop :: "nat \<Rightarrow> u64 \<Rightarrow> vli \<Rightarrow> vli" where
  "lshift_loop bit_shift carry [] = []"
| "lshift_loop bit_shift carry (w # ws) =
     (push_bit bit_shift w OR carry) # lshift_loop bit_shift (drop_bit (uECC_WORD_BITS - bit_shift) w) ws"

text \<open>The double-length number is shifted down in two halves.\<close>

definition rshift1_halves :: "nat \<Rightarrow> vli \<Rightarrow> vli" where
  "rshift1_halves num_words mod_multiple =
     (let lo = uECC_vli_rshift1 (take num_words mod_multiple);
          lo = lo[num_words - 1 := lo ! (num_words - 1) OR push_bit (uECC_WORD_BITS - 1) (mod_multiple ! num_words)];
          hi = uECC_vli_rshift1 (drop num_words mod_multiple)
      in lo @ hi)"

text \<open>
  The loop, for the number of turns that are left: \<open>v ! index\<close> is the current value, the other element of \<open>v\<close> receives
  the difference and becomes the current one when there was no borrow.
\<close>

fun mmod_loop :: "nat \<Rightarrow> nat \<Rightarrow> vli list \<Rightarrow> u64 \<Rightarrow> vli \<Rightarrow> vli" where
  "mmod_loop num_words 0 v index mod_multiple = v ! unat index"
| "mmod_loop num_words (Suc turns) v index mod_multiple =
     (let (diff, borrow) = uECC_vli_sub (v ! unat index) mod_multiple;
          v = v[unat (1 - index) := diff];
          index = c_bool (index XOR borrow = 0)
      in mmod_loop num_words turns v index (rshift1_halves num_words mod_multiple))"

text \<open>\<open>tmp\<close> is the local array, which is not initialised.\<close>

definition uECC_vli_mmod :: "vli \<Rightarrow> vli \<Rightarrow> vli \<Rightarrow> vli" where
  "uECC_vli_mmod tmp product m =
     (let num_words = length m;
          shift = num_words * 2 * uECC_WORD_BITS - uECC_vli_numBits m;
          word_shift = shift div uECC_WORD_BITS;
          bit_shift = shift mod uECC_WORD_BITS;
          mod_multiple = uECC_vli_clear word_shift @ (if bit_shift > 0 then lshift_loop bit_shift 0 m else m)
      in take num_words (mmod_loop num_words (shift + 1) [tmp, product] 1 mod_multiple))"

definition uECC_vli_modMult :: "vli \<Rightarrow> vli \<Rightarrow> vli \<Rightarrow> vli \<Rightarrow> vli" where
  "uECC_vli_modMult tmp left right m = uECC_vli_mmod tmp (uECC_vli_mult left right) m"


section \<open>Shifting the modulus\<close>

lemma length_lshift_loop [simp]: "length (lshift_loop k c ws) = length ws"
  by (induction ws arbitrary: c) simp_all

lemma div_exp_less: "x div 2 ^ j < 2 ^ k" if "x < 2 ^ k * 2 ^ j" for x :: int
proof (rule ccontr)
  assume "\<not> x div 2 ^ j < 2 ^ k"
  then have "2 ^ k * 2 ^ j \<le> x div 2 ^ j * 2 ^ j"
    by (intro mult_right_mono) simp_all
  also have "\<dots> \<le> x"
    by (simp add: minus_mod_eq_div_mult[symmetric])
  finally show False
    using that by simp
qed

lemma lshift_word:
  fixes w c :: u64
  assumes "0 < k" "k < 64" "uint c < 2 ^ k"
  shows "uint (push_bit k w OR c) + base * uint (drop_bit (64 - k) w) = 2 ^ k * uint w + uint c"
    and "uint (drop_bit (64 - k) w) < 2 ^ k"
proof -
  have k: "base = 2 ^ k * 2 ^ (64 - k)"
    using assms by (simp flip: power_add)
  have "\<not> bit c n" if "k \<le> n" for n
  proof -
    have "uint c = take_bit k (uint c)"
      using assms(3) by (simp add: take_bit_int_eq_self)
    moreover have "\<not> bit (take_bit k (uint c)) n"
      using that by (simp add: bit_take_bit_iff)
    ultimately have "\<not> bit (uint c) n"
      by simp
    then show ?thesis
      by (auto simp: bit_unsigned_iff dest: bit_imp_le_length)
  qed
  then have "push_bit k w AND c = 0"
    by (auto simp: bit_eq_iff bit_simps)
  then have o: "uint (push_bit k w OR c) = uint (push_bit k w) + uint c"
    by (rule uint_or_disjoint)
  have p: "uint (push_bit k w) = 2 ^ k * (uint w mod 2 ^ (64 - k))"
    using assms by (simp only: unsigned_push_bit_eq take_bit_push_bit) (simp add: push_bit_eq_mult take_bit_eq_mod)
  have d: "uint (drop_bit (64 - k) w) = uint w div 2 ^ (64 - k)"
    using uint_base[of w] by (simp only: unsigned_drop_bit_eq) (simp add: drop_bit_eq_div take_bit_int_eq_self)
  have "2 ^ k * uint w = 2 ^ k * (uint w mod 2 ^ (64 - k)) + 2 ^ k * (2 ^ (64 - k) * (uint w div 2 ^ (64 - k)))"
    by (simp flip: distrib_left)
  then show "uint (push_bit k w OR c) + base * uint (drop_bit (64 - k) w) = 2 ^ k * uint w + uint c"
    unfolding o p d k by simp
  have "uint w < 2 ^ k * 2 ^ (64 - k)"
    using uint_base(2)[of w] k by simp
  then show "uint (drop_bit (64 - k) w) < 2 ^ k"
    unfolding d using div_exp_less[of "uint w" k "64 - k"] by simp
qed


lemma lshift_loop:
  assumes "0 < k" "k < 64"
  shows "uint c < 2 ^ k \<Longrightarrow> \<exists>c'. 0 \<le> c' \<and> vli_val (lshift_loop k c ws) + base ^ length ws * c' = 2 ^ k * vli_val ws + uint c"
proof (induction ws arbitrary: c)
  case Nil
  then show ?case
    by (intro exI[of _ "uint c"]) simp
next
  case (Cons w ws)
  obtain c' where "0 \<le> c'" "vli_val (lshift_loop k (drop_bit (64 - k) w) ws) + base ^ length ws * c' =
      2 ^ k * vli_val ws + uint (drop_bit (64 - k) w)"
    using Cons.IH[OF lshift_word(2)[OF assms Cons.prems]] by blast
  moreover have "uint (push_bit k w OR c) + base * uint (drop_bit (64 - k) w) = 2 ^ k * uint w + uint c"
    by (rule lshift_word(1)[OF assms Cons.prems])
  ultimately show ?case
    by (intro exI[of _ c']) (simp add: uECC_WORD_BITS_def algebra_simps)
qed

lemma lshift_loop_fits:
  assumes "k < 64" "2 ^ k * vli_val ws < base ^ length ws"
  shows "vli_val (if k > 0 then lshift_loop k 0 ws else ws) = 2 ^ k * vli_val ws"
proof (cases "k = 0")
  case False
  then obtain c where c: "0 \<le> c" "vli_val (lshift_loop k 0 ws) + base ^ length ws * c = 2 ^ k * vli_val ws"
    using lshift_loop[of k 0 ws] assms(1) by auto
  have "c = 0"
  proof (rule ccontr)
    assume "c \<noteq> 0"
    then have "base ^ length ws * 1 \<le> base ^ length ws * c"
      using c(1) by (intro mult_left_mono) simp_all
    then show False
      using c(2) assms(2) vli_val_bounds(1)[of "lshift_loop k 0 ws"] by linarith
  qed
  then show ?thesis
    using c(2) False by simp
qed simp

text \<open>The two halves together are shifted like one number.\<close>

lemma rshift1_down_append:
  "rshift1_down c (xs @ [x] @ ys) = rshift1_down c (xs @ [x]) @ rshift1_down (push_bit (uECC_WORD_BITS - 1) x) ys"
  by (induction xs arbitrary: c) simp_all

lemma rshift1_halves:
  assumes "0 < n" "length mm = 2 * n"
  shows "rshift1_halves n mm = uECC_vli_rshift1 mm"
proof -
  obtain lo l where lo: "take n mm = lo @ [l]"
    using assms by (cases "take n mm" rule: rev_cases) auto
  obtain h hi where hi: "drop n mm = h # hi"
    using assms by (cases "drop n mm") simp_all
  have mm: "mm = (lo @ [l]) @ (h # hi)"
    by (metis lo hi append_take_drop_id)
  have n: "n = Suc (length lo)"
    using arg_cong[OF lo, of length] assms by simp
  have "rev mm = rev hi @ [h] @ (l # rev lo)"
    by (simp add: mm)
  then have "uECC_vli_rshift1 mm =
      rev (rshift1_down (push_bit (uECC_WORD_BITS - 1) h) (l # rev lo)) @ rev (rshift1_down 0 (rev hi @ [h]))"
    by (simp only: uECC_vli_rshift1_def rshift1_down_append rev_append)
  then show ?thesis
    by (simp add: rshift1_halves_def Let_def lo hi uECC_vli_rshift1_def n mm nth_append list_update_append or.commute)
qed



section \<open>Reduction\<close>

text \<open>One turn: the current value after it, and how much it is.\<close>

lemma mmod_turn:
  assumes v: "length v = 2" "index = 0 \<or> index = 1" and len: "length (v ! unat index) = length mm"
    and sub: "uECC_vli_sub (v ! unat index) mm = (diff, borrow)"
  defines "v' \<equiv> v[unat (1 - index) := diff]" and "index' \<equiv> c_bool (index XOR borrow = 0)"
  shows "vli_val (v' ! unat index') =
      vli_val (v ! unat index) - (if vli_val mm \<le> vli_val (v ! unat index) then vli_val mm else 0)"
    and "length v' = 2" and "index' = 0 \<or> index' = 1" and "length (v' ! unat index') = length mm"
proof -
  note s = uECC_vli_sub[OF len sub]
  have b: "borrow = (if vli_val (v ! unat index) < vli_val mm then 1 else 0)"
    using s(2) by (auto simp: word_uint_eq_iff)
  show "vli_val (v' ! unat index') =
      vli_val (v ! unat index) - (if vli_val mm \<le> vli_val (v ! unat index) then vli_val mm else 0)"
    "length (v' ! unat index') = length mm"
    using v s(1,3) len unfolding v'_def index'_def b by (auto simp: c_bool_def not_less)
  show "length v' = 2" "index' = 0 \<or> index' = 1"
    using v(1) by (simp_all add: v'_def index'_def c_bool_def)
qed

lemma mod_sub_multiple: "(x - (if m * y \<le> x then m * y else 0)) mod m = x mod m" for x m y :: int
  by (simp add: mod_diff_eq[symmetric, of x "m * y"])

lemma mmod_loop:
  assumes "0 < n" "0 < M" "length v = 2" "index = 0 \<or> index = 1" "length (v ! unat index) = 2 * n" "length mm = 2 * n"
    "vli_val mm = M * 2 ^ k" "vli_val (v ! unat index) < 2 * vli_val mm"
  shows "vli_val (mmod_loop n (Suc k) v index mm) = vli_val (v ! unat index) mod M \<and>
    length (mmod_loop n (Suc k) v index mm) = 2 * n"
  using assms(3-)
proof (induction k arbitrary: v index mm)
  case (0 v index mm)
  obtain diff borrow where sub: "uECC_vli_sub (v ! unat index) mm = (diff, borrow)"
    by fastforce
  have len: "length (v ! unat index) = length mm"
    using 0 by simp
  note t = mmod_turn[OF 0(1,2) len sub]
  show ?case
    using t(1,4) 0 assms(2) mod_pos_pos_trivial[of "vli_val (v ! unat index)" M]
      mod_pos_pos_trivial[of "vli_val (v ! unat index) - M" M] vli_val_bounds(1)[of "v ! unat index"]
    by (auto simp: sub)
next
  case (Suc k v index mm)
  obtain diff borrow where sub: "uECC_vli_sub (v ! unat index) mm = (diff, borrow)"
    by fastforce
  have len: "length (v ! unat index) = length mm"
    using Suc.prems by simp
  define v' where "v' = v[unat (1 - index) := diff]"
  define index' where "index' = c_bool (index XOR borrow = 0)"
  note t = mmod_turn[OF Suc.prems(1,2) len sub, folded v'_def index'_def]
  have r: "rshift1_halves n mm = uECC_vli_rshift1 mm" "vli_val (uECC_vli_rshift1 mm) = M * 2 ^ k"
    using Suc.prems assms(1) by (simp_all add: rshift1_halves uECC_vli_rshift1)
  have step: "mmod_loop n (Suc (Suc k)) v index mm = mmod_loop n (Suc k) v' index' (uECC_vli_rshift1 mm)"
    by (simp add: sub r(1) v'_def index'_def Let_def)
  have "vli_val (v' ! unat index') < 2 * (M * 2 ^ k)"
    using Suc.prems(5,6) t(1) by (auto split: if_splits)
  then have "vli_val (mmod_loop n (Suc k) v' index' (uECC_vli_rshift1 mm)) = vli_val (v' ! unat index') mod M \<and>
      length (mmod_loop n (Suc k) v' index' (uECC_vli_rshift1 mm)) = 2 * n"
    using t(2-4) Suc.prems(4) r(2) by (intro Suc.IH) simp_all
  moreover have "vli_val (v' ! unat index') mod M = vli_val (v ! unat index) mod M"
    unfolding t(1) Suc.prems(5) by (rule mod_sub_multiple)
  ultimately show ?case
    by (simp only: step)
qed

lemma vli_val_take: "vli_val (take n ws) = vli_val ws" if "vli_val ws < base ^ n" "n \<le> length ws"
proof -
  have "vli_val ws = vli_val (take n ws) + base ^ n * vli_val (drop n ws)"
    using vli_val_append[of "take n ws" "drop n ws"] that(2) by simp
  moreover have "vli_val (drop n ws) = 0"
  proof (rule ccontr)
    assume "vli_val (drop n ws) \<noteq> 0"
    then have "base ^ n * 1 \<le> base ^ n * vli_val (drop n ws)"
      using vli_val_bounds(1)[of "drop n ws"] by (intro mult_left_mono) simp_all
    then show False
      using calculation that(1) vli_val_bounds(1)[of "take n ws"] by linarith
  qed
  ultimately show ?thesis
    by simp
qed


text \<open>The bit length of a number whose highest word is not zero.\<close>

lemma numBits_top:
  assumes "0 < length m" "m ! (length m - 1) \<noteq> 0"
  shows "64 * (length m - 1) < uECC_vli_numBits m" "uECC_vli_numBits m \<le> 64 * length m"
proof -
  obtain n where n: "length m = Suc n"
    using assms(1) gr0_implies_Suc by blast
  have "1 \<le> uint (m ! n)"
    using assms(2) n uint_base(1)[of "m ! n"] by (simp add: int_one_le_iff_zero_less uint_0_iff less_le)
  then have "base ^ n * 1 \<le> base ^ n * uint (m ! n)"
    by (intro mult_left_mono) simp_all
  moreover have "vli_val m = vli_val (take n m) + base ^ n * uint (m ! n)"
    using vli_val_take_Suc[of n m] n by simp
  ultimately have "base ^ n < 2 ^ uECC_vli_numBits m"
    using uECC_vli_numBits(1)[of m] vli_val_bounds(1)[of "take n m"] by linarith
  then have "64 * n < uECC_vli_numBits m"
    unfolding base_power by simp
  then show "64 * (length m - 1) < uECC_vli_numBits m"
    by (simp add: n)
qed (rule uECC_vli_numBits(3))

lemma uECC_vli_mmod:
  assumes "length m = n" "length product = 2 * n" "0 < n" "m ! (n - 1) \<noteq> 0"
  shows "vli_val (uECC_vli_mmod tmp product m) = vli_val product mod vli_val m"
    and "length (uECC_vli_mmod tmp product m) = n"
proof -
  define nb where "nb = uECC_vli_numBits m"
  define k where "k = 64 * n - nb"
  define mm where "mm = uECC_vli_clear n @ (if k > 0 then lshift_loop k 0 m else m)"
  have nb: "64 * n < nb + 64" "nb \<le> 64 * n" "0 < nb"
    using numBits_top[of m] assms unfolding nb_def by auto
  have k: "k < 64" "n * 2 * 64 - nb = 64 * n + k" "64 * n + k + nb = 64 * (2 * n)" "k + nb = 64 * n"
    using nb by (simp_all add: k_def)
  have pos: "2 ^ (nb - 1) \<le> vli_val m" "vli_val m < 2 ^ nb"
    using uECC_vli_numBits(1,2)[of m] nb(3) by (simp_all add: nb_def)
  have M: "0 < vli_val m"
    by (rule less_le_trans[OF _ pos(1)]) simp
  have "2 ^ k * vli_val m < 2 ^ k * 2 ^ nb"
    using pos(2) by simp
  also have "\<dots> = base ^ n"
    by (simp only: base_power k(4) flip: power_add)
  finally have mm: "vli_val mm = vli_val m * 2 ^ (64 * n + k)" "length mm = 2 * n"
    using assms(1) k(1) lshift_loop_fits[of k m]
    by (simp_all add: mm_def vli_val_append uECC_vli_clear_def power_add base_power mult_ac)
  have "base ^ (2 * n) = 2 ^ (64 * n + k) * (2 * 2 ^ (nb - 1))"
    using k(3) nb(3) unfolding base_power by (simp flip: power_add power_Suc)
  also have "\<dots> \<le> 2 * vli_val mm"
    unfolding mm(1) using pos(1) by simp
  finally have p: "vli_val product < 2 * vli_val mm"
    using vli_val_bounds(2)[of product] assms(2) by simp
  define r where "r = mmod_loop n (Suc (64 * n + k)) [tmp, product] 1 mm"
  have r: "vli_val r = vli_val product mod vli_val m" "length r = 2 * n"
    using mmod_loop[of n "vli_val m" "[tmp, product]" 1 mm "64 * n + k"] assms M mm p by (simp_all add: r_def)
  have "uECC_vli_mmod tmp product m = take n r"
    using k assms(1) by (simp add: uECC_vli_mmod_def uECC_WORD_BITS_def Let_def r_def mm_def flip: nb_def)
  moreover have "vli_val r < base ^ n"
    using vli_val_bounds(2)[of m] pos_mod_bound[OF M, of "vli_val product"] unfolding r(1) assms(1) by linarith
  ultimately show "vli_val (uECC_vli_mmod tmp product m) = vli_val product mod vli_val m"
    "length (uECC_vli_mmod tmp product m) = n"
    using r by (simp_all add: vli_val_take)
qed

lemma uECC_vli_modMult:
  assumes "length m = n" "length l = n" "length r = n" "0 < n" "n \<le> uECC_MAX_WORDS" "m ! (n - 1) \<noteq> 0"
  shows "vli_val (uECC_vli_modMult tmp l r m) = vli_val l * vli_val r mod vli_val m"
    and "length (uECC_vli_modMult tmp l r m) = n"
  using uECC_vli_mult[OF assms(2-5)] uECC_vli_mmod[OF assms(1) _ assms(4,6), of "uECC_vli_mult l r" tmp]
  by (simp_all add: uECC_vli_modMult_def)


section \<open>Arithmetic modulo a number\<close>

text \<open>C16: The arithmetic on numbers of up to four words is the arithmetic modulo the modulus. For a modulus whose highest word
  is not zero and reduced operands, uECC_vli_modAdd, uECC_vli_modSub and uECC_vli_modMult return the sum,
  the difference and the product modulo the modulus, in as many words as the modulus has; uECC_vli_mult before the
  reduction is the whole product in twice as many words, without an overflow of its accumulator, and uECC_vli_mmod
  reduces every number of twice as many words.\<close>

theorem vli_mod_arithmetic:
  assumes "length m = n" "length l = n" "length r = n" "0 < n" "n \<le> uECC_MAX_WORDS" "m ! (n - 1) \<noteq> 0"
    "vli_val l < vli_val m" "vli_val r < vli_val m"
  shows "vli_val (uECC_vli_modAdd l r m) = (vli_val l + vli_val r) mod vli_val m \<and> length (uECC_vli_modAdd l r m) = n \<and>
    vli_val (uECC_vli_modSub l r m) = (vli_val l - vli_val r) mod vli_val m \<and> length (uECC_vli_modSub l r m) = n \<and>
    vli_val (uECC_vli_mult l r) = vli_val l * vli_val r \<and> length (uECC_vli_mult l r) = 2 * n \<and>
    vli_val (uECC_vli_modMult tmp l r m) = vli_val l * vli_val r mod vli_val m \<and> length (uECC_vli_modMult tmp l r m) = n \<and>
    (\<forall>product. length product = 2 * n \<longrightarrow>
      vli_val (uECC_vli_mmod tmp product m) = vli_val product mod vli_val m \<and> length (uECC_vli_mmod tmp product m) = n)"
  using assms uECC_vli_modAdd[of l m r] uECC_vli_modSub[of l m r] uECC_vli_mult[of l n r] uECC_vli_modMult[of m n l r tmp]
    uECC_vli_mmod[of m n _ tmp] by simp

lemma vli_mod_arithmetic_witness:
  "vli_val (uECC_vli_modMult [] [5, 1] [6, 1] [7, 1]) = 2 \<and> vli_val (uECC_vli_modSub [5, 1] [6, 1] [7, 1]) = base + 6"
  using vli_mod_arithmetic[of "[7, 1]" 2 "[5, 1]" "[6, 1]" "[]"] by (simp add: uECC_MAX_WORDS_def)

end
