(* ===== verification/Vli_K1.thy ===== *)
theory Vli_K1
  imports Vli_Mod
begin

text \<open>
  The reduction for the curve \<open>secp256k1\<close> (\<open>src/lib/ecc/curve-specific.inc\<close>, the code for words of 64 bits). The prime is
  \<open>2\<^sup>2\<^sup>5\<^sup>6 - \<omega>\<close>, so the upper half of a product is multiplied by \<open>\<omega>\<close> and added to the lower half, twice. The result is
  congruent to the product except for a small set of products, where a carry is dropped; and it
  may be the prime itself.
\<close>

unbundle bit_operations_syntax


section \<open>Operations\<close>

definition num_words_secp256k1 :: nat where
  "num_words_secp256k1 = 4"

definition curve_secp256k1_p :: vli where
  "curve_secp256k1_p = [0xFFFFFFFEFFFFFC2F, 0xFFFFFFFFFFFFFFFF, 0xFFFFFFFFFFFFFFFF, 0xFFFFFFFFFFFFFFFF]"

fun omega_mult_loop :: "vli \<Rightarrow> acc \<Rightarrow> vli" where
  "omega_mult_loop [] (r0, r1, r2) = [r0]"
| "omega_mult_loop (w # right) r =
     (let (r0, r1, r2) = muladd 0x1000003D1 w r in r0 # omega_mult_loop right (r1, r2, 0))"

definition omega_mult_secp256k1 :: "vli \<Rightarrow> vli" where
  "omega_mult_secp256k1 right = omega_mult_loop (take num_words_secp256k1 right) (0, 0, 0)"

fun sub_p_times :: "nat \<Rightarrow> vli \<Rightarrow> vli" where
  "sub_p_times 0 result = result"
| "sub_p_times (Suc carry) result = sub_p_times carry (fst (uECC_vli_sub result curve_secp256k1_p))"

definition vli_mmod_fast_secp256k1 :: "vli \<Rightarrow> vli" where
  "vli_mmod_fast_secp256k1 product =
     (let tmp = omega_mult_secp256k1 (drop num_words_secp256k1 product) @ uECC_vli_clear 3;
          (result, c1) = uECC_vli_add (take num_words_secp256k1 product) (take num_words_secp256k1 tmp);
          product = omega_mult_secp256k1 (drop num_words_secp256k1 tmp);
          (result, c2) = uECC_vli_add result (take num_words_secp256k1 product);
          result = sub_p_times (unat (c1 + c2)) result
      in if uECC_vli_cmp_unsafe result curve_secp256k1_p > 0 then fst (uECC_vli_sub result curve_secp256k1_p) else result)"


section \<open>What it computes\<close>

lemma curve_secp256k1_p: "length curve_secp256k1_p = 4" "vli_val curve_secp256k1_p = 2 ^ 256 - 0x1000003D1"
  by (simp_all add: curve_secp256k1_p_def)

lemma omega_mult_loop:
  "acc_val r < 2 ^ 34 \<Longrightarrow>
    vli_val (omega_mult_loop ws r) = acc_val r + 0x1000003D1 * vli_val ws \<and> length (omega_mult_loop ws r) = Suc (length ws)"
proof (induction ws arbitrary: r)
  case Nil
  obtain r0 r1 r2 where r: "r = (r0, r1, r2)"
    by (cases r)
  have "u + base * a < 2 ^ 34 \<Longrightarrow> 0 \<le> u \<Longrightarrow> 0 \<le> a \<Longrightarrow> a = 0" for u a :: int
    by simp
  from this[of "uint r0" "acc_val (r1, r2, 0)"] have "acc_val (r1, r2, 0) = 0"
    using Nil by (simp add: r acc_shift(1)[of r0])
  then show ?case
    by (simp add: r acc_shift(1)[of r0])
next
  case (Cons w ws)
  obtain r0 r1 r2 where m: "muladd 0x1000003D1 w r = (r0, r1, r2)"
    by (metis surj_pair)
  have "acc_val r + uint (0x1000003D1 :: u64) * uint w < base ^ 3"
    using Cons.prems uint_base[of w] by simp
  then have v: "uint r0 + base * acc_val (r1, r2, 0) = acc_val r + 0x1000003D1 * uint w"
    using muladd[of r "0x1000003D1" w] by (simp add: m acc_shift(1)[of r0])
  moreover have "u + base * a = acc_val r + 0x1000003D1 * uint w \<Longrightarrow> 0 \<le> u \<Longrightarrow> a < 2 ^ 34" for u a :: int
    using Cons.prems uint_base[of w] by simp
  ultimately have "acc_val (r1, r2, 0) < 2 ^ 34"
    by (meson unsigned_greater_eq)
  then show ?case
    using Cons.IH[of "(r1, r2, 0)"] v by (simp add: m)
qed

lemma omega_mult_secp256k1:
  assumes "length ws = 4"
  shows "vli_val (omega_mult_secp256k1 ws) = 0x1000003D1 * vli_val ws" "length (omega_mult_secp256k1 ws) = 5"
  using omega_mult_loop[of "(0, 0, 0)" ws] assms
  by (simp_all add: omega_mult_secp256k1_def num_words_secp256k1_def acc_val_def)


text \<open>The sum that the two steps leave, and what the carries do with it.\<close>

definition k1_sum :: "vli \<Rightarrow> int" where
  "k1_sum product = (let q = 0x1000003D1 * vli_val (drop 4 product) in
     vli_val (take 4 product) + q mod 2 ^ 256 + 0x1000003D1 * (q div 2 ^ 256))"

lemma base_4: "base ^ 4 = 2 ^ 256"
  by simp

lemma vli_split: "vli_val ws = vli_val (take 4 ws) + 2 ^ 256 * vli_val (drop 4 ws)" "vli_val (take 4 ws) < 2 ^ 256" if "4 \<le> length ws"
proof -
  show "vli_val ws = vli_val (take 4 ws) + 2 ^ 256 * vli_val (drop 4 ws)"
    using vli_val_append[of "take 4 ws" "drop 4 ws"] that by simp
  show "vli_val (take 4 ws) < 2 ^ 256"
    using vli_val_bounds(2)[of "take 4 ws"] that by simp
qed

lemma vli_split_div_mod: "vli_val (take 4 ws) = vli_val ws mod 2 ^ 256" "vli_val (drop 4 ws) = vli_val ws div 2 ^ 256" if "4 \<le> length ws"
proof -
  show "vli_val (take 4 ws) = vli_val ws mod 2 ^ 256"
    unfolding vli_split(1)[OF that] using vli_split(2)[OF that] vli_val_bounds(1)[of "take 4 ws"] by simp
  show "vli_val (drop 4 ws) = vli_val ws div 2 ^ 256"
    unfolding vli_split(1)[OF that] using vli_split(2)[OF that] vli_val_bounds(1)[of "take 4 ws"] by simp
qed

lemma k1_sum_cong:
  assumes "length product = 8"
  shows "k1_sum product mod vli_val curve_secp256k1_p = vli_val product mod vli_val curve_secp256k1_p"
    and "0 \<le> k1_sum product" and "k1_sum product < 2 * 2 ^ 256 + 2 ^ 67"
proof -
  define hi q where "hi = vli_val (drop 4 product)" and "q = 0x1000003D1 * hi"
  have b: "0 \<le> hi" "hi < 2 ^ 256" "0 \<le> vli_val (take 4 product)" "vli_val (take 4 product) < 2 ^ 256"
    using vli_val_bounds[of "drop 4 product"] vli_val_bounds[of "take 4 product"] assms by (simp_all add: hi_def)
  have S: "k1_sum product = vli_val (take 4 product) + q mod 2 ^ 256 + 0x1000003D1 * (q div 2 ^ 256)"
    by (simp add: k1_sum_def q_def hi_def Let_def)
  have q: "q = 2 ^ 256 * (q div 2 ^ 256) + q mod 2 ^ 256"
    by simp
  have "vli_val product = vli_val (take 4 product) + 2 ^ 256 * hi"
    using vli_split(1)[of product] assms by (simp add: hi_def)
  then have "vli_val product = k1_sum product + vli_val curve_secp256k1_p * (hi + q div 2 ^ 256)"
    using q unfolding S curve_secp256k1_p(2) q_def by (simp add: algebra_simps)
  then show "k1_sum product mod vli_val curve_secp256k1_p = vli_val product mod vli_val curve_secp256k1_p"
    by simp
  have "q < 2 ^ 33 * 2 ^ 256"
    using b(2) by (simp add: q_def)
  then have d: "0 \<le> q div 2 ^ 256" "q div 2 ^ 256 < 2 ^ 33"
    using b(1) by (simp_all add: div_exp_less pos_imp_zdiv_nonneg_iff q_def del: power_numeral)
  then show "0 \<le> k1_sum product"
    using b(3) by (simp add: S)
  show "k1_sum product < 2 * 2 ^ 256 + 2 ^ 67"
    using b(4) d pos_mod_bound[of "2 ^ 256" q] by (simp add: S)
qed

lemma k1_carries:
  assumes "length product = 8"
  obtains result :: vli and c1 c2 :: u64 where "length result = 4"
    "vli_mmod_fast_secp256k1 product =
      (let result = sub_p_times (unat (c1 + c2)) result
       in if uECC_vli_cmp_unsafe result curve_secp256k1_p > 0 then fst (uECC_vli_sub result curve_secp256k1_p) else result)"
    "uint (c1 + c2) * 2 ^ 256 + vli_val result = k1_sum product"
proof -
  define tmp where "tmp = omega_mult_secp256k1 (drop 4 product) @ uECC_vli_clear 3"
  define product2 where "product2 = omega_mult_secp256k1 (drop 4 tmp)"
  have t: "vli_val tmp = 0x1000003D1 * vli_val (drop 4 product)" "length tmp = 8"
    using omega_mult_secp256k1[of "drop 4 product"] assms by (simp_all add: tmp_def vli_val_append uECC_vli_clear_def)
  have t4: "vli_val (take 4 tmp) = vli_val tmp mod 2 ^ 256" "vli_val (drop 4 tmp) = vli_val tmp div 2 ^ 256"
    using vli_split_div_mod[of tmp] t(2) by simp_all
  have p: "vli_val product2 = 0x1000003D1 * (vli_val tmp div 2 ^ 256)" "length product2 = 5"
    using omega_mult_secp256k1[of "drop 4 tmp"] t(2) t4(2) by (simp_all add: product2_def)
  have "vli_val tmp < 2 ^ 33 * 2 ^ 256"
    using vli_val_bounds(2)[of "drop 4 product"] assms by (simp add: t(1))
  then have "vli_val tmp div 2 ^ 256 < 2 ^ 33"
    by (rule div_exp_less)
  then have p4: "vli_val (take 4 product2) = vli_val product2"
    using p by (intro vli_val_take) simp_all
  obtain r1 c1 where 1: "uECC_vli_add (take 4 product) (take 4 tmp) = (r1, c1)" by fastforce
  obtain r2 c2 where 2: "uECC_vli_add r1 (take 4 product2) = (r2, c2)" by fastforce
  have len: "length r1 = 4" "length r2 = 4"
    using uECC_vli_add(1)[OF _ 1] uECC_vli_add(1)[OF _ 2] assms t(2) p(2) by simp_all
  have c: "c1 \<le> 1" "c2 \<le> 1"
    using uECC_vli_add(2)[OF _ 1] uECC_vli_add(2)[OF _ 2] assms t(2) p(2) len by (auto simp: word_le_def split: if_splits)
  then have "uint (c1 + c2) = uint c1 + uint c2"
    using uint_small_carry[of c1] uint_small_carry[of c2] by (auto simp: uint_word_ariths)
  moreover have "2 ^ 256 * uint c1 + vli_val r1 = vli_val (take 4 product) + vli_val (take 4 tmp)"
    "2 ^ 256 * uint c2 + vli_val r2 = vli_val r1 + vli_val product2"
    using uECC_vli_add_carry[OF _ 1] uECC_vli_add_carry[OF _ 2] assms t(2) p(2) len p4 by (simp_all flip: base_4)
  ultimately have "uint (c1 + c2) * 2 ^ 256 + vli_val r2 = k1_sum product"
    by (simp add: k1_sum_def Let_def t4(1) p(1) t(1))
  then show thesis
    using len(2) that[of r2 c1 c2] 1 2
    by (simp add: vli_mmod_fast_secp256k1_def num_words_secp256k1_def Let_def flip: tmp_def product2_def)
qed


lemma sub_p: "vli_val (fst (uECC_vli_sub result curve_secp256k1_p)) =
    vli_val result - vli_val curve_secp256k1_p + (if vli_val result < vli_val curve_secp256k1_p then 2 ^ 256 else 0)"
  "length (fst (uECC_vli_sub result curve_secp256k1_p)) = 4" if "length result = 4"
  using uECC_vli_sub(1,3)[of result curve_secp256k1_p "fst (uECC_vli_sub result curve_secp256k1_p)" "snd (uECC_vli_sub result curve_secp256k1_p)"]
    that curve_secp256k1_p(1) by (simp_all add: base_4)

lemma sub_p_times_sum:
  assumes "length result = 4" "C * 2 ^ 256 + vli_val result = S" "0 \<le> C" "S < 2 * 2 ^ 256 + 2 ^ 67"
  defines "p \<equiv> vli_val curve_secp256k1_p"
  shows "length (sub_p_times (nat C) result) = 4"
    and "vli_val (sub_p_times (nat C) result) = (if S < 2 ^ 256 then S
      else if S < 2 * 2 ^ 256 then S - p - (if 2 ^ 256 + p \<le> S then 2 ^ 256 else 0) else S - 2 * p)"
proof -
  have v: "0 \<le> vli_val result" "vli_val result < 2 ^ 256"
    using vli_val_bounds[of result] assms(1) by (simp_all add: base_4)
  have "C < 3"
    using assms(2,4) v by simp
  then consider (0) "C = 0" | (1) "C = 1" | (2) "C = 2"
    using assms(3) by linarith
  then have "length (sub_p_times (nat C) result) = 4 \<and> vli_val (sub_p_times (nat C) result) = (if S < 2 ^ 256 then S
      else if S < 2 * 2 ^ 256 then S - p - (if 2 ^ 256 + p \<le> S then 2 ^ 256 else 0) else S - 2 * p)"
  proof cases
    case 0
    then show ?thesis
      using assms(1,2) v by simp
  next
    case 1
    then have "vli_val result = S - 2 ^ 256" "sub_p_times (nat C) result = fst (uECC_vli_sub result curve_secp256k1_p)"
      using assms(2) by simp_all
    then show ?thesis
      using v sub_p[OF assms(1)] unfolding p_def[symmetric] by auto
  next
    case 2
    then have x: "sub_p_times (nat C) result = fst (uECC_vli_sub (fst (uECC_vli_sub result curve_secp256k1_p)) curve_secp256k1_p)"
      by (simp add: numeral_2_eq_2)
    have r: "vli_val result = S - 2 * 2 ^ 256" "vli_val result < 2 ^ 67"
      using assms(2,4) 2 by simp_all
    then have "vli_val (fst (uECC_vli_sub result curve_secp256k1_p)) = vli_val result + 0x1000003D1"
      using sub_p[OF assms(1)] by (simp add: curve_secp256k1_p(2))
    then have "vli_val (sub_p_times (nat C) result) = vli_val result + 2 * 0x1000003D1"
      unfolding x sub_p(1)[OF sub_p(2)[OF assms(1)]] using r(2) by (simp add: curve_secp256k1_p(2))
    then show ?thesis
      using r(1) v sub_p(2)[OF sub_p(2)[OF assms(1)]] by (simp add: x p_def curve_secp256k1_p(2))
  qed
  then show "length (sub_p_times (nat C) result) = 4"
    and "vli_val (sub_p_times (nat C) result) = (if S < 2 ^ 256 then S
      else if S < 2 * 2 ^ 256 then S - p - (if 2 ^ 256 + p \<le> S then 2 ^ 256 else 0) else S - 2 * p)"
    by blast+
qed

text \<open>
  The result is at most the prime, and it is congruent to the product exactly when the sum is not between \<open>2\<^sup>2\<^sup>5\<^sup>6\<close> plus the
  prime and \<open>2\<^sup>2\<^sup>5\<^sup>7\<close>.
\<close>

lemma mmod_fast_secp256k1_residue:
  assumes "length product = 8"
  defines "p \<equiv> vli_val curve_secp256k1_p" and "r \<equiv> vli_val (vli_mmod_fast_secp256k1 product)"
  shows "r \<le> p" and "r mod p = vli_val product mod p \<longleftrightarrow> \<not> (2 ^ 256 + p \<le> k1_sum product \<and> k1_sum product < 2 * 2 ^ 256)"
proof -
  define S where "S = k1_sum product"
  obtain result :: vli and c1 c2 :: u64 where k: "length result = 4" "vli_mmod_fast_secp256k1 product =
      (let result = sub_p_times (unat (c1 + c2)) result
       in if uECC_vli_cmp_unsafe result curve_secp256k1_p > 0 then fst (uECC_vli_sub result curve_secp256k1_p) else result)"
    "uint (c1 + c2) * 2 ^ 256 + vli_val result = S"
    unfolding S_def by (rule k1_carries[OF assms(1)])
  define x where "x = sub_p_times (nat (uint (c1 + c2))) result"
  note x = sub_p_times_sum[OF k(1,3) _ k1_sum_cong(3)[OF assms(1), folded S_def], folded p_def x_def, simplified]
  have p: "p = 2 ^ 256 - 0x1000003D1"
    by (simp add: p_def curve_secp256k1_p(2))
  have r: "r = (if p < vli_val x then vli_val x - p else vli_val x)"
    using x(1) sub_p[of x] unfolding r_def k(2) Let_def unsigned_of_nat
    by (simp add: x_def uECC_vli_cmp_unsafe curve_secp256k1_p(1) sgn_if p_def flip: nat_uint_eq)
  have xb: "0 \<le> vli_val x" "vli_val x < 2 ^ 256"
    using vli_val_bounds[of x] x(1) by (simp_all add: base_4)
  show "r \<le> p"
    using r xb by (simp add: p)
  have rx: "r mod p = vli_val x mod p" and S: "S mod p = vli_val product mod p"
    using k1_sum_cong(1)[OF assms(1)] by (simp_all add: r S_def p_def)
  show "r mod p = vli_val product mod p \<longleftrightarrow> \<not> (2 ^ 256 + p \<le> k1_sum product \<and> k1_sum product < 2 * 2 ^ 256)"
  proof (cases "2 ^ 256 + p \<le> S \<and> S < 2 * 2 ^ 256")
    case True
    then have e: "vli_val x = S - 2 ^ 256 - p" "vli_val x < 0x1000003D1"
      using x(2) by (simp_all add: p)
    then have "S = vli_val x + 0x1000003D1 + 2 * p"
      by (simp add: p)
    then have "vli_val product mod p = (vli_val x + 0x1000003D1) mod p"
      using S by simp
    then show ?thesis
      using True rx e(2) xb(1) by (simp add: p S_def)
  next
    case False
    then have "vli_val x mod p = S mod p"
      using x(2) minus_mod_self2[of S p] mod_mult_self2[of S p "- 2"] by (auto simp: mult.commute)
    then show ?thesis
      using False rx S by (simp add: S_def)
  qed
qed

text \<open>A product in that set: its sum is \<open>2\<^sup>2\<^sup>5\<^sup>7 - 1\<close>.\<close>

definition k1_product :: vli where
  "k1_product = [0xC9BD1767EAA969E7, 0xFFFFFFFFFFFFFFFF, 0xFFFFFFFFFFFFFFFF, 0xFFFFFFFFFFFFFFFF,
     0x27C7F6E22DDACACF, 0x434DDC0123DB5FA6, 0x63B93D3D6A0D489E, 0x3642E6FAEAAC7C66]"

lemma k1_product_sum: "k1_sum k1_product = 2 ^ 257 - 1"
  by (simp add: k1_sum_def k1_product_def)

lemma k1_product_wrong:
  "vli_val (vli_mmod_fast_secp256k1 k1_product) mod vli_val curve_secp256k1_p \<noteq> vli_val k1_product mod vli_val curve_secp256k1_p"
proof -
  have "length k1_product = 8"
    by (simp add: k1_product_def)
  then show ?thesis
    using mmod_fast_secp256k1_residue(2)[of k1_product] by (simp add: k1_product_sum curve_secp256k1_p(2))
qed


section \<open>When the result is the residue\<close>

text \<open>C39: The fast reduction of secp256k1 returns a number that is at most the prime, and it is congruent to the product
  exactly when the sum that its two steps leave is not between 2^256 plus the prime and 2^257: there the final loop drops
  a carry. Such products exist.\<close>

theorem vli_mmod_fast_secp256k1_spec:
  assumes "length product = 8"
  shows "vli_val (vli_mmod_fast_secp256k1 product) \<le> vli_val curve_secp256k1_p \<and>
    (vli_val (vli_mmod_fast_secp256k1 product) mod vli_val curve_secp256k1_p = vli_val product mod vli_val curve_secp256k1_p \<longleftrightarrow>
      \<not> (2 ^ 256 + vli_val curve_secp256k1_p \<le> k1_sum product \<and> k1_sum product < 2 * 2 ^ 256))"
  using mmod_fast_secp256k1_residue[OF assms] by blast

lemma vli_mmod_fast_secp256k1_spec_witness:
  "vli_val (vli_mmod_fast_secp256k1 k1_product) mod vli_val curve_secp256k1_p \<noteq> vli_val k1_product mod vli_val curve_secp256k1_p \<and>
   vli_val (vli_mmod_fast_secp256k1 [0, 0, 0, 0, 1, 0, 0, 0]) mod vli_val curve_secp256k1_p = 0x1000003D1"
  using vli_mmod_fast_secp256k1_spec[of k1_product] vli_mmod_fast_secp256k1_spec[of "[0, 0, 0, 0, 1, 0, 0, 0]"]
  by (simp add: k1_product_sum curve_secp256k1_p(2)) (simp add: k1_product_def k1_sum_def)

end
