(* ===== verification/Vli_Inv.thy ===== *)
theory Vli_Inv
  imports Vli_Mod
begin

text \<open>
  The modular inverse of \<open>src/lib/ecc/uECC.c\<close> (\<open>uECC_vli_modInv\<close>), a binary Euclidean algorithm: \<open>a\<close> and \<open>b\<close> are
  reduced until they are equal, while \<open>u\<close> and \<open>v\<close> keep \<open>u * input = a\<close> and \<open>v * input = b\<close> modulo the modulus. The loop is
  a partial function, since it does not end for every input (for a modulus of zero); it is shown to return for
  every odd modulus, and to return the inverse of what has one.
\<close>

unbundle bit_operations_syntax


section \<open>Operations\<close>

definition EVEN :: "vli \<Rightarrow> bool" where
  "EVEN vli = (vli ! 0 AND 1 = 0)"

definition HIGH_BIT_SET :: u64 where
  "HIGH_BIT_SET = 0x8000000000000000"

definition vli_modInv_update :: "vli \<Rightarrow> vli \<Rightarrow> vli" where
  "vli_modInv_update uv m =
     (let (uv, carry) = (if \<not> EVEN uv then uECC_vli_add uv m else (uv, 0));
          uv = uECC_vli_rshift1 uv
      in if carry \<noteq> 0 then uv[length m - 1 := uv ! (length m - 1) OR HIGH_BIT_SET] else uv)"

text \<open>The subtraction of the two branches in which \<open>a\<close> and \<open>b\<close> are odd.\<close>

definition modInv_sub :: "vli \<Rightarrow> vli \<Rightarrow> vli \<Rightarrow> vli" where
  "modInv_sub u v m =
     (let u = (if uECC_vli_cmp_unsafe u v < 0 then fst (uECC_vli_add u m) else u);
          u = fst (uECC_vli_sub u v)
      in vli_modInv_update u m)"

partial_function (option) modInv_loop :: "vli \<Rightarrow> vli \<Rightarrow> vli \<Rightarrow> vli \<Rightarrow> vli \<Rightarrow> vli option" where
  "modInv_loop m a b u v =
     (let cmpResult = uECC_vli_cmp_unsafe a b in
      if cmpResult = 0 then Some u
      else if EVEN a then modInv_loop m (uECC_vli_rshift1 a) b (vli_modInv_update u m) v
      else if EVEN b then modInv_loop m a (uECC_vli_rshift1 b) u (vli_modInv_update v m)
      else if cmpResult > 0
      then modInv_loop m (uECC_vli_rshift1 (fst (uECC_vli_sub a b))) b (modInv_sub u v m) v
      else modInv_loop m a (uECC_vli_rshift1 (fst (uECC_vli_sub b a))) u (modInv_sub v u m))"

definition uECC_vli_modInv :: "vli \<Rightarrow> vli \<Rightarrow> vli option" where
  "uECC_vli_modInv input m =
     (if uECC_vli_isZero input \<noteq> 0 then Some (uECC_vli_clear (length m))
      else modInv_loop m input m ((uECC_vli_clear (length m))[0 := 1]) (uECC_vli_clear (length m)))"


section \<open>Halving modulo an odd number\<close>

lemma EVEN:
  assumes "0 < length ws"
  shows "EVEN ws \<longleftrightarrow> even (vli_val ws)"
proof -
  obtain w ws' where ws: "ws = w # ws'"
    using assms by (cases ws) simp_all
  have "even (vli_val ws) \<longleftrightarrow> \<not> bit (vli_val ws) 0"
    by (simp add: bit_0)
  also have "\<dots> \<longleftrightarrow> \<not> bit w 0"
    by (subst bit_vli_val) (simp add: ws)
  also have "\<dots> \<longleftrightarrow> w AND 1 = 0"
    by (simp add: and_one_eq mod_2_eq_odd bit_0)
  finally show ?thesis
    by (simp add: EVEN_def ws)
qed

lemma vli_val_update: "i < length ws \<Longrightarrow> vli_val (ws[i := w]) = vli_val ws + base ^ i * (uint w - uint (ws ! i))"
proof (induction ws arbitrary: i)
  case (Cons x ws)
  then show ?case
    by (cases i) (simp_all add: distrib_left right_diff_distrib)
qed simp

lemma set_high_bit:
  assumes "length ws = Suc n" "2 * vli_val ws < base ^ Suc n"
  shows "2 * vli_val (ws[n := ws ! n OR HIGH_BIT_SET]) = 2 * vli_val ws + base ^ Suc n"
proof -
  have "vli_val ws = vli_val (take n ws) + base ^ n * uint (ws ! n)"
    using vli_val_take_Suc[of n ws] assms(1) by simp
  then have "2 * (base ^ n * uint (ws ! n)) < base ^ Suc n"
    using assms(2) vli_val_bounds(1)[of "take n ws"] by linarith
  also have "base ^ Suc n = 2 * (base ^ n * 2 ^ 63)"
    by simp
  finally have "base ^ n * uint (ws ! n) < base ^ n * 2 ^ 63"
    by linarith
  then have "uint (ws ! n) < 2 ^ 63"
    unfolding mult_less_cancel_left by simp
  then have "take_bit 63 (uint (ws ! n)) = uint (ws ! n)"
    by (simp add: take_bit_int_eq_self)
  then have "\<not> bit (uint (ws ! n)) 63"
    by (metis bit_take_bit_iff less_irrefl)
  then have "\<not> bit (ws ! n) 63"
    by (simp add: bit_unsigned_iff)
  then have "ws ! n AND 2 ^ 63 = 0"
    by (simp only: and_exp_eq_0_iff_not_bit) simp
  moreover have "HIGH_BIT_SET = 2 ^ 63"
    by (simp add: HIGH_BIT_SET_def)
  ultimately have "uint (ws ! n OR HIGH_BIT_SET) = uint (ws ! n) + 2 ^ 63"
    by (simp add: uint_or_disjoint HIGH_BIT_SET_def)
  then show ?thesis
    using assms(1) by (simp add: vli_val_update algebra_simps)
qed

lemma vli_modInv_update:
  assumes "length uv = length m" "0 < length m" "odd (vli_val m)"
  shows "2 * vli_val (vli_modInv_update uv m) = vli_val uv + (if odd (vli_val uv) then vli_val m else 0)"
    and "length (vli_modInv_update uv m) = length m"
proof -
  obtain s carry where s: "uECC_vli_add uv m = (s, carry)"
    by fastforce
  note a = uECC_vli_add[OF assms(1) s]
  obtain n where n: "length m = Suc n"
    using assms(2) gr0_implies_Suc by blast
  have c: "carry = 0 \<longleftrightarrow> vli_val uv + vli_val m < base ^ length m"
    using a(2) assms(1) by (auto simp: uint_0_iff split: if_splits)
  have ev: "even (vli_val s)" if "odd (vli_val uv)"
    using a(3) that assms n by (auto split: if_splits)
  have "2 * vli_val (uECC_vli_rshift1 s) < base ^ Suc n"
    using vli_val_bounds(2)[of s] a(1) assms(1) n by (simp add: uECC_vli_rshift1)
  then have h: "2 * vli_val ((uECC_vli_rshift1 s)[n := uECC_vli_rshift1 s ! n OR HIGH_BIT_SET]) =
      2 * vli_val (uECC_vli_rshift1 s) + base ^ Suc n"
    using a(1) assms(1) n by (intro set_high_bit) simp_all
  have e: "EVEN uv \<longleftrightarrow> even (vli_val uv)"
    using assms by (simp add: EVEN)
  show "2 * vli_val (vli_modInv_update uv m) = vli_val uv + (if odd (vli_val uv) then vli_val m else 0)"
  proof (cases "even (vli_val uv)")
    case True
    then show ?thesis
      by (simp add: vli_modInv_update_def e uECC_vli_rshift1)
  next
    case False
    have "2 * vli_val (uECC_vli_rshift1 s) = vli_val s"
      using ev[OF False] by (simp add: uECC_vli_rshift1)
    then show ?thesis
      using False h a(3) c assms(1) n by (simp add: vli_modInv_update_def e s Let_def)
  qed
  show "length (vli_modInv_update uv m) = length m"
    using a(1) assms(1) by (simp add: vli_modInv_update_def s Let_def)
qed


text \<open>\<open>r\<close> is half of \<open>u\<close> modulo \<open>m\<close>.\<close>

lemma half_congruence:
  assumes "length uv = length m" "0 < length m" "odd (vli_val m)" "vli_val uv < vli_val m"
  shows "vli_val (vli_modInv_update uv m) < vli_val m"
    and "vli_val m dvd 2 * vli_val (vli_modInv_update uv m) - vli_val uv"
proof -
  note u = vli_modInv_update(1)[OF assms(1-3)]
  show "vli_val (vli_modInv_update uv m) < vli_val m"
    using u assms(4) vli_val_bounds(1)[of uv] by (auto split: if_splits)
  show "vli_val m dvd 2 * vli_val (vli_modInv_update uv m) - vli_val uv"
    unfolding u by simp
qed

lemma modInv_sub:
  assumes "length u = length m" "length v = length m" "0 < length m" "odd (vli_val m)"
    "vli_val u < vli_val m" "vli_val v < vli_val m"
  shows "length (modInv_sub u v m) = length m" "vli_val (modInv_sub u v m) < vli_val m"
    "vli_val m dvd 2 * vli_val (modInv_sub u v m) - (vli_val u - vli_val v)"
proof -
  define w where "w = (if uECC_vli_cmp_unsafe u v < 0 then fst (uECC_vli_add u m) else u)"
  define x where "x = fst (uECC_vli_sub w v)"
  obtain s carry where s: "uECC_vli_add u m = (s, carry)"
    by fastforce
  have w: "length w = length m" "vli_val w = (if vli_val u < vli_val v then
      vli_val u + vli_val m - (if vli_val u + vli_val m < base ^ length m then 0 else base ^ length m) else vli_val u)"
    using uECC_vli_add[OF assms(1) s] assms(1,2) by (auto simp: w_def s uECC_vli_cmp_unsafe sgn_if)
  obtain borrow where d: "uECC_vli_sub w v = (x, borrow)"
    by (metis x_def prod.collapse)
  have x: "length x = length m" "vli_val x = vli_val u - vli_val v + (if vli_val u < vli_val v then vli_val m else 0)"
    using uECC_vli_sub[OF _ d] w assms(2,6) vli_val_bounds[of u] vli_val_bounds[of m] vli_val_bounds(1)[of v] assms(1)
    by (auto split: if_splits)
  have lt: "vli_val x < vli_val m"
    using x(2) assms(5,6) vli_val_bounds(1)[of v] by (auto split: if_splits)
  have r: "modInv_sub u v m = vli_modInv_update x m"
    by (simp add: modInv_sub_def w_def x_def Let_def)
  note h = half_congruence[OF x(1) assms(3,4) lt]
  show "length (modInv_sub u v m) = length m" "vli_val (modInv_sub u v m) < vli_val m"
    using h(1) vli_modInv_update(2)[OF x(1) assms(3,4)] by (simp_all add: r)
  have "vli_val m dvd vli_val x - (vli_val u - vli_val v)"
    by (simp add: x(2))
  from dvd_add[OF h(2) this] show "vli_val m dvd 2 * vli_val (modInv_sub u v m) - (vli_val u - vli_val v)"
    by (simp add: r algebra_simps)
qed


section \<open>The loop\<close>

lemma halve_relation:
  fixes m :: int
  assumes "odd m" "m dvd u * x - a" "m dvd 2 * r - u" "2 * a' = a"
  shows "m dvd r * x - a'"
proof -
  have "2 * (r * x - a') = (2 * r - u) * x + (u * x - a)"
    using assms(4) by (simp add: algebra_simps)
  also have "m dvd \<dots>"
    using assms(2,3) by (intro dvd_add dvd_mult2)
  finally have "m dvd 2 * (r * x - a')" .
  moreover have "coprime m 2"
    using assms(1) by simp
  ultimately show ?thesis
    by (metis coprime_dvd_mult_right_iff)
qed

lemma gcd_halve: "gcd a' b = gcd a b" if "2 * a' = a" "odd b" for a b :: int
  using that by (auto simp: gcd_mult_left_left_cancel)

lemma gcd_halve_diff: "gcd a' b = gcd a b" if "2 * a' = a - b" "odd b" for a b :: int
  using gcd_halve[OF that] by (simp add: gcd_diff1)


lemma halve_even: "2 * vli_val (uECC_vli_rshift1 ws) = vli_val ws" if "even (vli_val ws)"
  using that by (simp add: uECC_vli_rshift1)

lemma halve_diff:
  assumes "length a = length b" "vli_val b < vli_val a" "odd (vli_val a)" "odd (vli_val b)"
  shows "2 * vli_val (uECC_vli_rshift1 (fst (uECC_vli_sub a b))) = vli_val a - vli_val b"
    and "length (uECC_vli_rshift1 (fst (uECC_vli_sub a b))) = length a"
proof -
  obtain d borrow where d: "uECC_vli_sub a b = (d, borrow)"
    by fastforce
  note s = uECC_vli_sub[OF assms(1) d]
  have "vli_val d = vli_val a - vli_val b"
    using s(3) assms(2) by simp
  then show "2 * vli_val (uECC_vli_rshift1 (fst (uECC_vli_sub a b))) = vli_val a - vli_val b"
    using assms(3,4) by (simp add: d halve_even)
  show "length (uECC_vli_rshift1 (fst (uECC_vli_sub a b))) = length a"
    using s(1) by (simp add: d)
qed

text \<open>What holds of one pair: \<open>u\<close> is reduced and \<open>u * x\<close> is \<open>a\<close> modulo \<open>m\<close>.\<close>

definition inv_pair :: "int \<Rightarrow> vli \<Rightarrow> vli \<Rightarrow> vli \<Rightarrow> bool" where
  "inv_pair x m a u \<longleftrightarrow> length a = length m \<and> length u = length m \<and> 0 < vli_val a \<and> vli_val u < vli_val m \<and>
    vli_val m dvd vli_val u * x - vli_val a"

lemma inv_pair_halve:
  assumes "inv_pair x m a u" "even (vli_val a)" "0 < length m" "odd (vli_val m)"
  shows "inv_pair x m (uECC_vli_rshift1 a) (vli_modInv_update u m)"
proof -
  have h: "2 * vli_val (uECC_vli_rshift1 a) = vli_val a"
    using assms(2) by (rule halve_even)
  then have "0 < vli_val (uECC_vli_rshift1 a)"
    using assms(1) by (simp add: inv_pair_def)
  then show ?thesis
    using assms half_congruence[of u m] vli_modInv_update(2)[of u m] halve_relation[OF assms(4) _ _ h, of "vli_val u" x]
    by (simp add: inv_pair_def)
qed

lemma inv_pair_sub:
  assumes "inv_pair x m a u" "inv_pair x m b v" "vli_val b < vli_val a" "odd (vli_val a)" "odd (vli_val b)"
    "0 < length m" "odd (vli_val m)"
  shows "inv_pair x m (uECC_vli_rshift1 (fst (uECC_vli_sub a b))) (modInv_sub u v m)"
proof -
  have h: "2 * vli_val (uECC_vli_rshift1 (fst (uECC_vli_sub a b))) = vli_val a - vli_val b"
    "length (uECC_vli_rshift1 (fst (uECC_vli_sub a b))) = length m"
    using halve_diff[of a b] assms by (simp_all add: inv_pair_def)
  then have "0 < vli_val (uECC_vli_rshift1 (fst (uECC_vli_sub a b)))"
    using assms(3) by simp
  moreover have "vli_val m dvd (vli_val u - vli_val v) * x - (vli_val a - vli_val b)"
    using assms(1,2) dvd_diff[of "vli_val m" "vli_val u * x - vli_val a" "vli_val v * x - vli_val b"]
    by (simp add: inv_pair_def algebra_simps)
  ultimately show ?thesis
    using assms h modInv_sub[of u m v] halve_relation[OF assms(7) _ _ h(1), of "vli_val u - vli_val v" x]
    by (simp add: inv_pair_def)
qed

lemma modInv_loop:
  assumes "inv_pair x m a u" "inv_pair x m b v" "odd (vli_val a) \<or> odd (vli_val b)" "0 < length m" "odd (vli_val m)"
  shows "\<exists>r. modInv_loop m a b u v = Some r \<and> length r = length m \<and> vli_val r < vli_val m \<and>
    vli_val m dvd vli_val r * x - gcd (vli_val a) (vli_val b)"
  using assms(1-3)
proof (induction "nat (vli_val a + vli_val b)" arbitrary: a b u v rule: less_induct)
  case less
  have len: "length a = length m" "length b = length m" and pos: "0 < vli_val a" "0 < vli_val b"
    using less.prems by (simp_all add: inv_pair_def)
  have e: "EVEN a \<longleftrightarrow> even (vli_val a)" "EVEN b \<longleftrightarrow> even (vli_val b)"
    using len assms(4) by (simp_all add: EVEN)
  have c: "uECC_vli_cmp_unsafe a b = sgn (vli_val a - vli_val b)"
    using len by (simp add: uECC_vli_cmp_unsafe)
  consider (eq) "vli_val a = vli_val b" | (a) "vli_val a \<noteq> vli_val b" "even (vli_val a)"
    | (b) "vli_val a \<noteq> vli_val b" "odd (vli_val a)" "even (vli_val b)"
    | (ab) "vli_val b < vli_val a" "odd (vli_val a)" "odd (vli_val b)"
    | (ba) "vli_val a < vli_val b" "odd (vli_val a)" "odd (vli_val b)"
    by fastforce
  then show ?case
  proof cases
    case eq
    then show ?thesis
      using less.prems pos by (subst modInv_loop.simps) (auto simp: c inv_pair_def)
  next
    case a
    have h: "2 * vli_val (uECC_vli_rshift1 a) = vli_val a"
      using a(2) by (rule halve_even)
    have "modInv_loop m a b u v = modInv_loop m (uECC_vli_rshift1 a) b (vli_modInv_update u m) v"
      using a by (subst modInv_loop.simps) (simp add: c e sgn_0_0)
    then show ?thesis
      using less.hyps[OF _ inv_pair_halve[OF less.prems(1) a(2) assms(4,5)] less.prems(2)] h pos a less.prems(3)
        gcd_halve[OF h, of "vli_val b"] by simp
  next
    case b
    have h: "2 * vli_val (uECC_vli_rshift1 b) = vli_val b"
      using b(3) by (rule halve_even)
    have "modInv_loop m a b u v = modInv_loop m a (uECC_vli_rshift1 b) u (vli_modInv_update v m)"
      using b by (subst modInv_loop.simps) (simp add: c e sgn_0_0)
    then show ?thesis
      using less.hyps[OF _ less.prems(1) inv_pair_halve[OF less.prems(2) b(3) assms(4,5)]] h pos b
        gcd_halve[OF h, of "vli_val a"] by (simp add: gcd.commute)
  next
    case ab
    have h: "2 * vli_val (uECC_vli_rshift1 (fst (uECC_vli_sub a b))) = vli_val a - vli_val b"
      using halve_diff[of a b] ab len by simp
    have "modInv_loop m a b u v =
        modInv_loop m (uECC_vli_rshift1 (fst (uECC_vli_sub a b))) b (modInv_sub u v m) v"
      using ab by (subst modInv_loop.simps) (simp add: c e sgn_if)
    then show ?thesis
      using less.hyps[OF _ inv_pair_sub[OF less.prems(1,2) ab assms(4,5)] less.prems(2)] h pos ab
        gcd_halve_diff[OF h ab(3)] by simp
  next
    case ba
    have h: "2 * vli_val (uECC_vli_rshift1 (fst (uECC_vli_sub b a))) = vli_val b - vli_val a"
      using halve_diff[of b a] ba len by simp
    have "modInv_loop m a b u v =
        modInv_loop m a (uECC_vli_rshift1 (fst (uECC_vli_sub b a))) u (modInv_sub v u m)"
      using ba by (subst modInv_loop.simps) (simp add: c e sgn_if)
    then show ?thesis
      using less.hyps[OF _ less.prems(1) inv_pair_sub[OF less.prems(2,1) ba(1,3,2) assms(4,5)]] h pos ba
        gcd_halve_diff[OF h ba(2)] by (simp add: gcd.commute)
  qed
qed


text \<open>
  The inverse is computed for every input and every odd modulus greater than one: the result times the input is
  the greatest common divisor modulo the modulus, which is \<open>1\<close> when the input has an inverse and \<open>0\<close> when it is \<open>0\<close>.
\<close>

lemma uECC_vli_modInv:
  assumes "length input = length m" "0 < length m" "odd (vli_val m)" "1 < vli_val m"
  shows "\<exists>r. uECC_vli_modInv input m = Some r \<and> length r = length m \<and> vli_val r < vli_val m \<and>
    vli_val r * vli_val input mod vli_val m = gcd (vli_val input) (vli_val m) mod vli_val m"
proof (cases "vli_val input = 0")
  case True
  then show ?thesis
    using assms by (simp add: uECC_vli_modInv_def uECC_vli_isZero uECC_vli_clear_def)
next
  case False
  define u where "u = (uECC_vli_clear (length m))[0 := 1]"
  have u: "vli_val u = 1" "length u = length m"
    using assms(2) by (simp_all add: u_def vli_val_update uECC_vli_clear_def)
  have "inv_pair (vli_val input) m input u"
    using u assms False vli_val_bounds(1)[of input] by (simp add: inv_pair_def)
  moreover have "inv_pair (vli_val input) m m (uECC_vli_clear (length m))"
    using assms by (simp add: inv_pair_def uECC_vli_clear_def)
  ultimately obtain r where "modInv_loop m input m u (uECC_vli_clear (length m)) = Some r" "length r = length m"
    "vli_val r < vli_val m" "vli_val m dvd vli_val r * vli_val input - gcd (vli_val input) (vli_val m)"
    using modInv_loop[of "vli_val input" m input u m "uECC_vli_clear (length m)"] assms(2,3) by blast
  then show ?thesis
    using False by (simp add: uECC_vli_modInv_def uECC_vli_isZero u_def mod_eq_dvd_iff)
qed


section \<open>The inverse\<close>

text \<open>C17: uECC_vli_modInv returns for every input and every odd modulus greater than one, and its result, which is
  reduced, times the input is their greatest common divisor modulo the modulus: the inverse where there is one, and
  zero for the input zero. (The statement holds for any number of words; the local arrays of the code hold
  uECC_MAX_WORDS words, which is enough for its curves.)\<close>

theorem uECC_vli_modInv_returns:
  assumes "length input = length m" "0 < length m" "odd (vli_val m)" "1 < vli_val m"
  shows "\<exists>r. uECC_vli_modInv input m = Some r \<and> length r = length m \<and> vli_val r < vli_val m \<and>
    vli_val r * vli_val input mod vli_val m = gcd (vli_val input) (vli_val m) mod vli_val m"
  by (rule uECC_vli_modInv[OF assms])

lemma uECC_vli_modInv_returns_witness:
  "\<exists>r. uECC_vli_modInv [3, 0] [7, 1] = Some r \<and> length r = 2 \<and> vli_val r * 3 mod (base + 7) = 1"
  using uECC_vli_modInv_returns[of "[3, 0]" "[7, 1]"] by (auto simp: gcd_non_0_int)

end
