(* ===== verification/Vli_Fast.thy ===== *)
theory Vli_Fast
  imports Vli_Mod
begin

text \<open>
  The curve the ECDH demo uses, \<open>secp192r1\<close>, and its reduction (\<open>src/lib/ecc/curve-specific.inc\<close>, the code for words of
  64 bits): since \<open>2\<^sup>1\<^sup>9\<^sup>2\<close> is \<open>2\<^sup>6\<^sup>4 + 1\<close> modulo the prime, the upper half of a product is added to the lower
  one at two places, and what is left is reduced by a few subtractions. It is shown to agree with the general
  reduction \<^const>\<open>uECC_vli_mmod\<close>.
\<close>

unbundle bit_operations_syntax


section \<open>Operations\<close>

definition num_words_secp192r1 :: nat where
  "num_words_secp192r1 = 3"

definition curve_secp192r1_p :: vli where
  "curve_secp192r1_p = [0xFFFFFFFFFFFFFFFF, 0xFFFFFFFFFFFFFFFE, 0xFFFFFFFFFFFFFFFF]"

text \<open>The final loop; \<open>carry\<close> is a C \<open>int\<close>.\<close>

partial_function (option) mmod_fast_loop :: "int \<Rightarrow> vli \<Rightarrow> vli option" where
  "mmod_fast_loop carry result =
     (if carry \<noteq> 0 \<or> uECC_vli_cmp_unsafe curve_secp192r1_p result \<noteq> 1
      then let (result, borrow) = uECC_vli_sub result curve_secp192r1_p
           in mmod_fast_loop (carry - uint borrow) result
      else Some result)"

definition vli_mmod_fast_secp192r1 :: "vli \<Rightarrow> vli option" where
  "vli_mmod_fast_secp192r1 product =
     (let result = take num_words_secp192r1 product;
          tmp = take num_words_secp192r1 (drop 3 product);
          (result, c1) = uECC_vli_add result tmp;
          tmp = [0, product ! 3, product ! 4];
          (result, c2) = uECC_vli_add result tmp;
          tmp = [product ! 5, product ! 5, 0];
          (result, c3) = uECC_vli_add result tmp
      in mmod_fast_loop (uint c1 + uint c2 + uint c3) result)"


section \<open>Correctness\<close>

lemma curve_secp192r1_p: "length curve_secp192r1_p = 3" "vli_val curve_secp192r1_p = 2 ^ 192 - 2 ^ 64 - 1"
  by (simp_all add: curve_secp192r1_p_def)

text \<open>The loop subtracts the prime from \<open>carry * 2\<^sup>1\<^sup>9\<^sup>2 + result\<close> until that is below the prime.\<close>

lemma mmod_fast_loop:
  assumes "length result = 3" "0 \<le> carry"
  shows "\<exists>r. mmod_fast_loop carry result = Some r \<and> length r = 3 \<and>
    vli_val r = (carry * base ^ 3 + vli_val result) mod vli_val curve_secp192r1_p"
  using assms
proof (induction "nat (carry * base ^ 3 + vli_val result)" arbitrary: carry result rule: less_induct)
  case less
  define p where "p = vli_val curve_secp192r1_p"
  have p: "0 < p" "p < base ^ 3"
    by (simp_all add: p_def curve_secp192r1_p(2))
  have c: "uECC_vli_cmp_unsafe curve_secp192r1_p result \<noteq> 1 \<longleftrightarrow> p \<le> vli_val result"
    using less.prems curve_secp192r1_p(1) by (simp add: uECC_vli_cmp_unsafe p_def sgn_if)
  obtain r borrow where s: "uECC_vli_sub result curve_secp192r1_p = (r, borrow)"
    by fastforce
  note sub = uECC_vli_sub[OF _ s, unfolded curve_secp192r1_p(1), OF less.prems(1)]
  have v: "(carry - uint borrow) * base ^ 3 + vli_val r = carry * base ^ 3 + vli_val result - p"
    using sub(2,3) less.prems(1) by (simp add: p_def left_diff_distrib)
  show ?case
  proof (cases "carry \<noteq> 0 \<or> p \<le> vli_val result")
    case True
    have nn: "0 \<le> carry - uint borrow"
      using True less.prems(2) sub(2) by (auto simp: p_def)
    have "0 \<le> (carry - uint borrow) * base ^ 3 + vli_val r"
      using nn vli_val_bounds(1)[of r] by simp
    then have "nat ((carry - uint borrow) * base ^ 3 + vli_val r) < nat (carry * base ^ 3 + vli_val result)"
      using v p(1) by linarith
    from less.hyps[OF this _ nn] obtain r' where r': "mmod_fast_loop (carry - uint borrow) r = Some r'" "length r' = 3"
      "vli_val r' = ((carry - uint borrow) * base ^ 3 + vli_val r) mod p"
      using sub(1) less.prems(1) by (auto simp: p_def)
    moreover have "mmod_fast_loop carry result = mmod_fast_loop (carry - uint borrow) r"
      using True c by (subst mmod_fast_loop.simps) (auto simp: s)
    ultimately show ?thesis
      unfolding v by (auto simp flip: p_def)
  next
    case False
    then have "mmod_fast_loop carry result = Some result"
      using c by (subst mmod_fast_loop.simps) simp
    then show ?thesis
      using False less.prems(1) vli_val_bounds(1)[of result] by (simp add: p_def)
  qed
qed

lemma list6E: "length xs = 6 \<Longrightarrow> (\<And>a b c d e f. xs = [a, b, c, d, e, f] \<Longrightarrow> P) \<Longrightarrow> P"
  by (auto simp: numeral_eq_Suc length_Suc_conv)

lemma vli_mmod_fast_secp192r1:
  assumes "length product = 6"
  shows "\<exists>r. vli_mmod_fast_secp192r1 product = Some r \<and> length r = 3 \<and>
    vli_val r = vli_val product mod vli_val curve_secp192r1_p"
proof -
  obtain a b c d e f where x: "product = [a, b, c, d, e, f]"
    using assms by (rule list6E)
  obtain r1 c1 where 1: "uECC_vli_add [a, b, c] [d, e, f] = (r1, c1)" by fastforce
  obtain r2 c2 where 2: "uECC_vli_add r1 [0, d, e] = (r2, c2)" by fastforce
  obtain r3 c3 where 3: "uECC_vli_add r2 [f, f, 0] = (r3, c3)" by fastforce
  have len: "length r1 = 3" "length r2 = 3" "length r3 = 3"
    using uECC_vli_add(1)[OF _ 1] uECC_vli_add(1)[OF _ 2] uECC_vli_add(1)[OF _ 3] by simp_all
  define S where "S = (uint c1 + uint c2 + uint c3) * base ^ 3 + vli_val r3"
  have S: "S = vli_val [a, b, c] + vli_val [d, e, f] + vli_val [0, d, e] + vli_val [f, f, 0]"
    using uECC_vli_add_carry[OF _ 1] uECC_vli_add_carry[OF _ 2] uECC_vli_add_carry[OF _ 3] len
    by (simp add: S_def)
  have "vli_val product = S + vli_val curve_secp192r1_p * (vli_val [d, e, f] + uint f)"
    unfolding S x by (simp add: curve_secp192r1_p(2))
  then have "S mod vli_val curve_secp192r1_p = vli_val product mod vli_val curve_secp192r1_p"
    by simp
  moreover have "vli_mmod_fast_secp192r1 product = mmod_fast_loop (uint c1 + uint c2 + uint c3) r3"
    by (simp add: vli_mmod_fast_secp192r1_def x num_words_secp192r1_def 1 2 3)
  ultimately show ?thesis
    using mmod_fast_loop[of r3 "uint c1 + uint c2 + uint c3"] len by (simp add: S_def)
qed


section \<open>The two reductions\<close>

text \<open>C18: The fast reduction of secp192r1 returns for every product and agrees with the general reduction: its result
  is the array of words that uECC_vli_mmod computes, which is the residue of the product modulo the prime.\<close>

theorem vli_mmod_fast_secp192r1_mmod:
  assumes "length product = 6"
  shows "vli_mmod_fast_secp192r1 product = Some (uECC_vli_mmod tmp product curve_secp192r1_p) \<and>
    vli_val (uECC_vli_mmod tmp product curve_secp192r1_p) = vli_val product mod vli_val curve_secp192r1_p"
proof -
  obtain r where r: "vli_mmod_fast_secp192r1 product = Some r" "length r = 3"
    "vli_val r = vli_val product mod vli_val curve_secp192r1_p"
    using vli_mmod_fast_secp192r1[OF assms] by blast
  have "vli_val (uECC_vli_mmod tmp product curve_secp192r1_p) = vli_val product mod vli_val curve_secp192r1_p"
    "length (uECC_vli_mmod tmp product curve_secp192r1_p) = 3"
    using uECC_vli_mmod[of curve_secp192r1_p 3 product tmp] assms by (simp_all add: curve_secp192r1_p_def)
  then show ?thesis
    using r vli_val_inject[of r "uECC_vli_mmod tmp product curve_secp192r1_p"] by simp
qed

lemma vli_mmod_fast_secp192r1_mmod_witness:
  "\<exists>r. vli_mmod_fast_secp192r1 [0, 0, 0, 1, 0, 0] = Some r \<and> vli_val r = base + 1"
  using vli_mmod_fast_secp192r1_mmod[of "[0, 0, 0, 1, 0, 0]" "[]"] by (auto simp: curve_secp192r1_p_def)

end
