(* ===== verification/Ecc_Field.thy ===== *)
theory Ecc_Field
  imports Vli_Inv Vli_Fast "HOL-Library.Monad_Syntax"
begin

text \<open>
  The arithmetic in the field of a curve (\<open>uECC_vli_modMult_fast\<close> and \<open>uECC_vli_modSquare_fast\<close> of \<open>src/lib/ecc/uECC.c\<close>
  with the operations of the theories before). A curve is the record of its constants with its
  fast reduction. \<open>elem curve x\<close> is the array of words that stands for the number \<open>x\<close> modulo the prime of the curve; the
  locale \<open>curve_field\<close> says what the code relies on in a curve, and that then every operation is the operation on
  the numbers. It is interpreted for \<open>secp192r1\<close>.
\<close>

unbundle bit_operations_syntax


section \<open>Curves\<close>

record uECC_Curve_t =
  cu_num_words :: nat
  cu_num_bytes :: nat
  cu_num_n_bits :: nat
  cu_p :: vli
  cu_n :: vli
  cu_G :: vli
  cu_b :: vli
  cu_mmod_fast :: "vli \<Rightarrow> vli option"

definition curve_secp192r1 :: uECC_Curve_t where
  "curve_secp192r1 =
     \<lparr>cu_num_words = num_words_secp192r1,
      cu_num_bytes = 24,
      cu_num_n_bits = 192,
      cu_p = curve_secp192r1_p,
      cu_n = [0x146BC9B1B4D22831, 0xFFFFFFFF99DEF836, 0xFFFFFFFFFFFFFFFF],
      cu_G = [0xF4FF0AFD82FF1012, 0x7CBF20EB43A18800, 0x188DA80EB03090F6,
              0x73F977A11E794811, 0x631011ED6B24CDD5, 0x07192B95FFC8DA78],
      cu_b = [0xFEB8DEECC146B9B1, 0x0FA7E9AB72243049, 0x64210519E59C80E7],
      cu_mmod_fast = vli_mmod_fast_secp192r1\<rparr>"

definition uECC_vli_modMult_fast :: "uECC_Curve_t \<Rightarrow> vli \<Rightarrow> vli \<Rightarrow> vli option" where
  "uECC_vli_modMult_fast curve left right = cu_mmod_fast curve (uECC_vli_mult left right)"

definition uECC_vli_modSquare_fast :: "uECC_Curve_t \<Rightarrow> vli \<Rightarrow> vli option" where
  "uECC_vli_modSquare_fast curve left = uECC_vli_modMult_fast curve left left"


section \<open>Elements\<close>

definition elem :: "uECC_Curve_t \<Rightarrow> int \<Rightarrow> vli" where
  "elem curve x = vli_of (cu_num_words curve) (x mod vli_val (cu_p curve))"

locale curve_field =
  fixes curve :: uECC_Curve_t
  assumes words: "length (cu_p curve) = cu_num_words curve" "0 < cu_num_words curve" "cu_num_words curve \<le> uECC_MAX_WORDS"
    and odd_p: "odd (vli_val (cu_p curve))" and p_gt_3: "3 < vli_val (cu_p curve)"
    and mmod_fast: "length product = 2 * cu_num_words curve \<Longrightarrow>
      \<exists>r. cu_mmod_fast curve product = Some r \<and> length r = cu_num_words curve \<and>
        vli_val r = vli_val product mod vli_val (cu_p curve)"
begin

abbreviation prime :: int where "prime \<equiv> vli_val (cu_p curve)"

lemma p_pos [simp]: "0 < prime"
  using p_gt_3 by linarith

lemma length_elem [simp]: "length (elem curve x) = cu_num_words curve"
  by (simp add: elem_def)

lemma vli_val_elem [simp]: "vli_val (elem curve x) = x mod prime"
proof -
  have "x mod prime < base ^ cu_num_words curve"
    using pos_mod_bound[OF p_pos, of x] vli_val_bounds(2)[of "cu_p curve"] unfolding words(1) by linarith
  then show ?thesis
    by (simp add: elem_def vli_val_vli_of)
qed

lemma elem_of: "ws = elem curve (vli_val ws)" if "length ws = cu_num_words curve" "vli_val ws < prime"
  using that vli_val_bounds(1)[of ws] by (simp add: elem_def vli_of_vli_val)

lemma elem_eqI: "ws = elem curve x" if "length ws = cu_num_words curve" "vli_val ws = x mod prime"
  using elem_of[OF that(1)] that(2) p_pos by (simp add: elem_def)

lemma elem_eq_iff: "elem curve x = elem curve y \<longleftrightarrow> x mod prime = y mod prime"
  by (metis vli_val_elem elem_def)

lemma modAdd_elem [simp]: "uECC_vli_modAdd (elem curve x) (elem curve y) (cu_p curve) = elem curve (x + y)"
  by (rule elem_eqI) (simp_all add: uECC_vli_modAdd words mod_simps)

lemma modSub_elem [simp]: "uECC_vli_modSub (elem curve x) (elem curve y) (cu_p curve) = elem curve (x - y)"
  by (rule elem_eqI) (simp_all add: uECC_vli_modSub words mod_simps)

lemma modMult_fast_elem [simp]: "uECC_vli_modMult_fast curve (elem curve x) (elem curve y) = Some (elem curve (x * y))"
proof -
  note m = uECC_vli_mult[OF length_elem length_elem words(2,3), of x y]
  obtain r where "cu_mmod_fast curve (uECC_vli_mult (elem curve x) (elem curve y)) = Some r"
    "length r = cu_num_words curve" "vli_val r = x * y mod prime"
    using mmod_fast[OF m(2)] m(1) by (auto simp: mod_simps)
  then show ?thesis
    by (simp add: uECC_vli_modMult_fast_def elem_eqI)
qed

lemma modSquare_fast_elem [simp]: "uECC_vli_modSquare_fast curve (elem curve x) = Some (elem curve (x * x))"
  by (simp add: uECC_vli_modSquare_fast_def)

lemma isZero_elem [simp]: "uECC_vli_isZero (elem curve x) = c_bool (x mod prime = 0)"
  by (simp add: uECC_vli_isZero)

text \<open>One half, and halving as the code does it.\<close>

definition half :: int where
  "half = (prime + 1) div 2"

lemma half: "2 * half mod prime = 1"
proof -
  have "2 * half = prime + 1"
    using odd_p unfolding half_def by presburger
  then show ?thesis
    using p_gt_3 by simp
qed

lemma modInv_update_elem [simp]: "vli_modInv_update (elem curve x) (cu_p curve) = elem curve (x * half)"
proof (rule elem_eqI)
  define r where "r = vli_modInv_update (elem curve x) (cu_p curve)"
  have len: "length (elem curve x) = length (cu_p curve)" "0 < length (cu_p curve)"
    using words by simp_all
  show "length (vli_modInv_update (elem curve x) (cu_p curve)) = cu_num_words curve"
    using vli_modInv_update(2)[OF len odd_p] words(1) by simp
  have r: "prime dvd 2 * vli_val r - x mod prime" "vli_val r < prime"
    using half_congruence[OF len odd_p] by (simp_all add: r_def)
  then have "2 * vli_val r mod prime = x mod prime"
    by (simp add: mod_eq_dvd_iff[THEN iffD2, OF r(1)])
  then have "half * (2 * vli_val r) mod prime = x * half mod prime"
    by (metis mod_mult_right_eq mult.commute)
  moreover have "half * (2 * vli_val r) mod prime = vli_val r mod prime"
    using half by (metis mod_mult_left_eq mult_1 mult.commute mult.left_commute)
  ultimately show "vli_val (vli_modInv_update (elem curve x) (cu_p curve)) = x * half mod prime"
    using r(2) vli_val_bounds(1)[of r] by (simp add: r_def)
qed

lemma modInv_elem: "\<exists>i. uECC_vli_modInv (elem curve x) (cu_p curve) = Some (elem curve i) \<and> i * x mod prime = gcd x prime mod prime"
proof -
  have "length (elem curve x) = length (cu_p curve)" "0 < length (cu_p curve)" "1 < prime"
    using words p_gt_3 by simp_all
  then obtain r where r: "uECC_vli_modInv (elem curve x) (cu_p curve) = Some r" "length r = cu_num_words curve"
    "vli_val r < prime" "vli_val r * (x mod prime) mod prime = gcd (x mod prime) prime mod prime"
    using uECC_vli_modInv[of "elem curve x" "cu_p curve"] odd_p words(1) by auto
  have "vli_val r * x mod prime = gcd x prime mod prime"
    using r(4) gcd_red_int[of x prime] by (simp add: mod_mult_right_eq gcd.commute)
  then show ?thesis
    using r(1) elem_of[OF r(2,3)] by metis
qed

end

interpretation secp192r1: curve_field curve_secp192r1
proof unfold_locales
  fix product :: vli
  assume "length product = 2 * cu_num_words curve_secp192r1"
  then show "\<exists>r. cu_mmod_fast curve_secp192r1 product = Some r \<and> length r = cu_num_words curve_secp192r1 \<and>
      vli_val r = vli_val product mod vli_val (cu_p curve_secp192r1)"
    using vli_mmod_fast_secp192r1[of product] by (simp add: curve_secp192r1_def num_words_secp192r1_def)
qed (simp_all add: curve_secp192r1_def curve_secp192r1_p num_words_secp192r1_def uECC_MAX_WORDS_def)

end
