(* ===== verification/Ecc_Points.thy ===== *)
theory Ecc_Points
  imports Ecc_Field
begin

text \<open>
  The point operations of \<open>src/lib/ecc/uECC.c\<close> and \<open>src/lib/ecc/curve-specific.inc\<close>. A point \<open>(x, y)\<close> of the curve is
  kept as \<open>(X, Y)\<close> with \<open>X = x z\<^sup>2\<close> and \<open>Y = y z\<^sup>3\<close> for some \<open>z\<close>. In the locale \<open>curve_field\<close> the sequences of field
  operations are shown to compute the sum by the chord, the difference and the double by the
  tangent, each with its new \<open>z\<close>.
\<close>

unbundle bit_operations_syntax


section \<open>Operations\<close>

definition apply_z :: "uECC_Curve_t \<Rightarrow> vli \<Rightarrow> vli \<Rightarrow> vli \<Rightarrow> (vli \<times> vli) option" where
  "apply_z curve X1 Y1 Z = do {
     t1 \<leftarrow> uECC_vli_modSquare_fast curve Z;
     X1 \<leftarrow> uECC_vli_modMult_fast curve X1 t1;
     t1 \<leftarrow> uECC_vli_modMult_fast curve t1 Z;
     Y1 \<leftarrow> uECC_vli_modMult_fast curve Y1 t1;
     Some (X1, Y1)
   }"

definition XYcZ_add :: "uECC_Curve_t \<Rightarrow> vli \<Rightarrow> vli \<Rightarrow> vli \<Rightarrow> vli \<Rightarrow> (vli \<times> vli \<times> vli \<times> vli) option" where
  "XYcZ_add curve X1 Y1 X2 Y2 = do {
     let t5 = uECC_vli_modSub X2 X1 (cu_p curve);
     t5 \<leftarrow> uECC_vli_modSquare_fast curve t5;
     X1 \<leftarrow> uECC_vli_modMult_fast curve X1 t5;
     X2 \<leftarrow> uECC_vli_modMult_fast curve X2 t5;
     let Y2 = uECC_vli_modSub Y2 Y1 (cu_p curve);
     t5 \<leftarrow> uECC_vli_modSquare_fast curve Y2;
     let t5 = uECC_vli_modSub t5 X1 (cu_p curve);
     let t5 = uECC_vli_modSub t5 X2 (cu_p curve);
     let X2 = uECC_vli_modSub X2 X1 (cu_p curve);
     Y1 \<leftarrow> uECC_vli_modMult_fast curve Y1 X2;
     let X2 = uECC_vli_modSub X1 t5 (cu_p curve);
     Y2 \<leftarrow> uECC_vli_modMult_fast curve Y2 X2;
     let Y2 = uECC_vli_modSub Y2 Y1 (cu_p curve);
     let X2 = t5;
     Some (X1, Y1, X2, Y2)
   }"

definition XYcZ_addC :: "uECC_Curve_t \<Rightarrow> vli \<Rightarrow> vli \<Rightarrow> vli \<Rightarrow> vli \<Rightarrow> (vli \<times> vli \<times> vli \<times> vli) option" where
  "XYcZ_addC curve X1 Y1 X2 Y2 = do {
     let t5 = uECC_vli_modSub X2 X1 (cu_p curve);
     t5 \<leftarrow> uECC_vli_modSquare_fast curve t5;
     X1 \<leftarrow> uECC_vli_modMult_fast curve X1 t5;
     X2 \<leftarrow> uECC_vli_modMult_fast curve X2 t5;
     let t5 = uECC_vli_modAdd Y2 Y1 (cu_p curve);
     let Y2 = uECC_vli_modSub Y2 Y1 (cu_p curve);
     let t6 = uECC_vli_modSub X2 X1 (cu_p curve);
     Y1 \<leftarrow> uECC_vli_modMult_fast curve Y1 t6;
     let t6 = uECC_vli_modAdd X1 X2 (cu_p curve);
     X2 \<leftarrow> uECC_vli_modSquare_fast curve Y2;
     let X2 = uECC_vli_modSub X2 t6 (cu_p curve);
     let t7 = uECC_vli_modSub X1 X2 (cu_p curve);
     Y2 \<leftarrow> uECC_vli_modMult_fast curve Y2 t7;
     let Y2 = uECC_vli_modSub Y2 Y1 (cu_p curve);
     t7 \<leftarrow> uECC_vli_modSquare_fast curve t5;
     let t7 = uECC_vli_modSub t7 t6 (cu_p curve);
     let t6 = uECC_vli_modSub t7 X1 (cu_p curve);
     t6 \<leftarrow> uECC_vli_modMult_fast curve t6 t5;
     let Y1 = uECC_vli_modSub t6 Y1 (cu_p curve);
     let X1 = t7;
     Some (X1, Y1, X2, Y2)
   }"

text \<open>The halving in the doubling of a point.\<close>

definition jacobian_half :: "uECC_Curve_t \<Rightarrow> vli \<Rightarrow> vli" where
  "jacobian_half curve X1 =
     (if uECC_vli_testBit X1 0 \<noteq> 0
      then let (X1, l_carry) = uECC_vli_add X1 (cu_p curve);
               X1 = uECC_vli_rshift1 X1
           in X1[cu_num_words curve - 1 := X1 ! (cu_num_words curve - 1) OR push_bit (uECC_WORD_BITS - 1) l_carry]
      else uECC_vli_rshift1 X1)"

definition double_jacobian_default :: "uECC_Curve_t \<Rightarrow> vli \<Rightarrow> vli \<Rightarrow> vli \<Rightarrow> (vli \<times> vli \<times> vli) option" where
  "double_jacobian_default curve X1 Y1 Z1 =
     (if uECC_vli_isZero Z1 \<noteq> 0 then Some (X1, Y1, Z1)
      else do {
        t4 \<leftarrow> uECC_vli_modSquare_fast curve Y1;
        t5 \<leftarrow> uECC_vli_modMult_fast curve X1 t4;
        t4 \<leftarrow> uECC_vli_modSquare_fast curve t4;
        Y1 \<leftarrow> uECC_vli_modMult_fast curve Y1 Z1;
        Z1 \<leftarrow> uECC_vli_modSquare_fast curve Z1;
        let X1 = uECC_vli_modAdd X1 Z1 (cu_p curve);
        let Z1 = uECC_vli_modAdd Z1 Z1 (cu_p curve);
        let Z1 = uECC_vli_modSub X1 Z1 (cu_p curve);
        X1 \<leftarrow> uECC_vli_modMult_fast curve X1 Z1;
        let Z1 = uECC_vli_modAdd X1 X1 (cu_p curve);
        let X1 = uECC_vli_modAdd X1 Z1 (cu_p curve);
        let X1 = jacobian_half curve X1;
        Z1 \<leftarrow> uECC_vli_modSquare_fast curve X1;
        let Z1 = uECC_vli_modSub Z1 t5 (cu_p curve);
        let Z1 = uECC_vli_modSub Z1 t5 (cu_p curve);
        let t5 = uECC_vli_modSub t5 Z1 (cu_p curve);
        X1 \<leftarrow> uECC_vli_modMult_fast curve X1 t5;
        let t4 = uECC_vli_modSub X1 t4 (cu_p curve);
        let X1 = Z1;
        let Z1 = Y1;
        let Y1 = t4;
        Some (X1, Y1, Z1)
      })"

definition x_side_default :: "uECC_Curve_t \<Rightarrow> vli \<Rightarrow> vli option" where
  "x_side_default curve x = do {
     let three = (uECC_vli_clear (cu_num_words curve))[0 := 3];
     result \<leftarrow> uECC_vli_modSquare_fast curve x;
     let result = uECC_vli_modSub result three (cu_p curve);
     result \<leftarrow> uECC_vli_modMult_fast curve result x;
     Some (uECC_vli_modAdd result (cu_b curve) (cu_p curve))
   }"


section \<open>What they compute\<close>

lemma jacobian_half:
  assumes "length ws = length (cu_p curve)" "length (cu_p curve) = cu_num_words curve" "0 < cu_num_words curve"
  shows "jacobian_half curve ws = vli_modInv_update ws (cu_p curve)"
proof -
  obtain s carry where s: "uECC_vli_add ws (cu_p curve) = (s, carry)"
    by fastforce
  have c: "carry = 0 \<or> carry = 1"
    using uECC_vli_add(2)[OF assms(1) s] by (auto simp: word_uint_eq_iff split: if_splits)
  have "uECC_vli_testBit ws 0 \<noteq> 0 \<longleftrightarrow> \<not> EVEN ws"
    by (simp add: uECC_vli_testBit_def uECC_WORD_BITS_def EVEN_def)
  moreover have "push_bit 63 1 = HIGH_BIT_SET"
    by (simp add: HIGH_BIT_SET_def push_bit_eq_mult)
  ultimately show ?thesis
    using c assms by (auto simp: jacobian_half_def vli_modInv_update_def s uECC_WORD_BITS_def Let_def)
qed

context curve_field
begin

lemma jacobian_half_elem [simp]: "jacobian_half curve (elem curve x) = elem curve (x * half)"
  using words by (simp add: jacobian_half)

lemma apply_z_elem: "apply_z curve (elem curve x) (elem curve y) (elem curve z) =
    Some (elem curve (x * z ^ 2), elem curve (y * z ^ 3))"
  by (simp add: apply_z_def power2_eq_square power3_eq_cube mult_ac)

text \<open>The sum of two points by the chord of slope \<open>s\<close>.\<close>

lemma XYcZ_add_elem:
  "XYcZ_add curve (elem curve X1) (elem curve Y1) (elem curve X2) (elem curve Y2) =
    (let A = (X2 - X1) * (X2 - X1); X3 = (Y2 - Y1) * (Y2 - Y1) - X1 * A - X2 * A in
     Some (elem curve (X1 * A), elem curve (Y1 * (X2 * A - X1 * A)), elem curve X3,
       elem curve ((Y2 - Y1) * (X1 * A - X3) - Y1 * (X2 * A - X1 * A))))"
  by (simp add: XYcZ_add_def Let_def algebra_simps)

lemma XYcZ_addC_elem:
  "XYcZ_addC curve (elem curve X1) (elem curve Y1) (elem curve X2) (elem curve Y2) =
    (let A = (X2 - X1) * (X2 - X1); E = Y1 * (X2 * A - X1 * A);
         X3 = (Y2 - Y1) * (Y2 - Y1) - (X1 * A + X2 * A);
         X4 = (Y2 + Y1) * (Y2 + Y1) - (X1 * A + X2 * A) in
     Some (elem curve X4, elem curve ((X4 - X1 * A) * (Y2 + Y1) - E),
       elem curve X3, elem curve ((Y2 - Y1) * (X1 * A - X3) - E)))"
  by (simp add: XYcZ_addC_def Let_def algebra_simps)

lemma slope_elem:
  assumes "s * (x2 - x1) mod prime = (y2 - y1) mod prime"
  shows "elem curve (y2 * k) = elem curve ((y1 + s * (x2 - x1)) * k)"
proof -
  have "(y1 + s * (x2 - x1)) mod prime = y2 mod prime"
    using mod_add_cong[OF refl assms, of y1] by simp
  then show ?thesis
    unfolding elem_eq_iff by (metis mod_mult_left_eq)
qed

lemma XYcZ_add_chord:
  fixes x1 y1 x2 y2 s z :: int
  assumes "s * (x2 - x1) mod prime = (y2 - y1) mod prime"
  defines "x3 \<equiv> s\<^sup>2 - x1 - x2"
  defines "y3 \<equiv> s * (x1 - x3) - y1"
  defines "z3 \<equiv> z ^ 3 * (x2 - x1)"
  shows "XYcZ_add curve (elem curve (x1 * z\<^sup>2)) (elem curve (y1 * z ^ 3)) (elem curve (x2 * z\<^sup>2)) (elem curve (y2 * z ^ 3)) =
    Some (elem curve (x1 * z3\<^sup>2), elem curve (y1 * z3 ^ 3), elem curve (x3 * z3\<^sup>2), elem curve (y3 * z3 ^ 3))"
  unfolding slope_elem[OF assms(1)] XYcZ_add_elem Let_def
  by (simp add: x3_def y3_def z3_def algebra_simps power2_eq_square power3_eq_cube)

lemma XYcZ_addC_chord:
  fixes x1 y1 x2 y2 s t z :: int
  assumes "s * (x2 - x1) mod prime = (y2 - y1) mod prime" "t * (x2 - x1) mod prime = (- y2 - y1) mod prime"
  defines "x3 \<equiv> s\<^sup>2 - x1 - x2" and "x4 \<equiv> t\<^sup>2 - x1 - x2"
  defines "y3 \<equiv> s * (x1 - x3) - y1" and "y4 \<equiv> t * (x1 - x4) - y1"
  defines "z3 \<equiv> z ^ 3 * (x2 - x1)"
  shows "XYcZ_addC curve (elem curve (x1 * z\<^sup>2)) (elem curve (y1 * z ^ 3)) (elem curve (x2 * z\<^sup>2)) (elem curve (y2 * z ^ 3)) =
    Some (elem curve (x4 * z3\<^sup>2), elem curve (y4 * z3 ^ 3), elem curve (x3 * z3\<^sup>2), elem curve (y3 * z3 ^ 3))"
proof -
  let ?r = "XYcZ_addC curve (elem curve (x1 * z\<^sup>2)) (elem curve (y1 * z ^ 3)) (elem curve (x2 * z\<^sup>2)) (elem curve (y2 * z ^ 3))"
  have "\<exists>a b. ?r = Some (a, b, elem curve (x3 * z3\<^sup>2), elem curve (y3 * z3 ^ 3))"
    unfolding slope_elem[OF assms(1)] XYcZ_addC_elem Let_def
    by (simp add: x3_def y3_def z3_def algebra_simps power2_eq_square power3_eq_cube)
  moreover have "\<exists>c d. ?r = Some (elem curve (x4 * z3\<^sup>2), elem curve (y4 * z3 ^ 3), c, d)"
  proof -
    have "- (t * (x2 - x1)) mod prime = - (- y2 - y1) mod prime"
      by (metis assms(2) mod_minus_eq)
    then have "- t * (x2 - x1) mod prime = (y2 - - y1) mod prime"
      by (simp add: algebra_simps)
    note e = slope_elem[OF this]
    show ?thesis
      unfolding e XYcZ_addC_elem Let_def
      by (simp add: x4_def y4_def z3_def algebra_simps power2_eq_square power3_eq_cube)
  qed
  ultimately show ?thesis
    by force
qed

text \<open>The double of a point by the tangent of slope \<open>s\<close>, for the curves with \<open>a = - 3\<close>.\<close>

lemma double_jacobian_elem:
  fixes X Y Z :: int
  assumes "Z mod prime \<noteq> 0"
  defines "B \<equiv> 3 * ((X + Z * Z) * (X - Z * Z)) * half" and "A \<equiv> X * (Y * Y)"
  shows "double_jacobian_default curve (elem curve X) (elem curve Y) (elem curve Z) =
    Some (elem curve (B * B - A - A), elem curve (B * (A - (B * B - A - A)) - Y * Y * (Y * Y)), elem curve (Y * Z))"
  using assms(1) by (simp add: double_jacobian_default_def Let_def B_def A_def algebra_simps)

lemma half_cancel: "2 * u * half mod prime = u mod prime"
  using half by (metis mod_mult_right_eq mult.assoc mult.commute mult.right_neutral)

lemma double_jacobian_tangent:
  fixes x y s z :: int
  assumes "s * (2 * y) mod prime = (3 * x\<^sup>2 - 3) mod prime" "z mod prime \<noteq> 0"
  defines "x3 \<equiv> s\<^sup>2 - 2 * x"
  defines "y3 \<equiv> s * (x - x3) - y"
  defines "z3 \<equiv> y * z ^ 4"
  shows "double_jacobian_default curve (elem curve (x * z\<^sup>2)) (elem curve (y * z ^ 3)) (elem curve z) =
    Some (elem curve (x3 * z3\<^sup>2), elem curve (y3 * z3 ^ 3), elem curve z3)"
proof -
  define A where "A = x * z\<^sup>2 * (y * z ^ 3 * (y * z ^ 3))"
  define B where "B = 3 * ((x * z\<^sup>2 + z * z) * (x * z\<^sup>2 - z * z)) * half"
  define C where "C = z ^ 4 * s * y"
  have "B = (3 * x\<^sup>2 - 3) * (z ^ 4 * half)"
    by (simp add: B_def algebra_simps power2_eq_square power4_eq_xxxx)
  then have "B mod prime = s * (2 * y) * (z ^ 4 * half) mod prime"
    using assms(1) by (metis mod_mult_left_eq)
  also have "\<dots> = C mod prime"
    using half_cancel[of C] by (simp add: C_def mult_ac)
  finally have B: "B mod prime = C mod prime" .
  then have X: "(B * B - A - A) mod prime = (C * C - A - A) mod prime"
    by (intro mod_diff_cong mod_mult_cong refl)
  then have Y: "(B * (A - (B * B - A - A)) - k) mod prime = (C * (A - (C * C - A - A)) - k) mod prime" for k
    using B by (intro mod_diff_cong mod_mult_cong refl)
  show ?thesis
    unfolding double_jacobian_elem[OF assms(2)] B_def[symmetric] A_def[symmetric]
      elem_eq_iff[THEN iffD2, OF X] elem_eq_iff[THEN iffD2, OF Y]
    by (simp add: A_def C_def x3_def y3_def z3_def algebra_simps power2_eq_square power3_eq_cube power4_eq_xxxx)
qed

end

end
