(* ===== verification/Ecc_Mult.thy ===== *)
theory Ecc_Mult
  imports Ecc_Points
begin

text \<open>
  The scalar multiplication of \<open>src/lib/ecc/uECC.c\<close>: Montgomery's ladder over pairs of points with a common \<open>z\<close>. A round
  of the ladder is shown to be the chord additions it stands for, and the whole multiplication to return a
  point with reduced coordinates for every scalar and every point. The function pointer \<open>double_jacobian\<close> of the curve
  is \<^const>\<open>double_jacobian_default\<close>, as it is for all curves but \<open>secp256k1\<close>.
\<close>

unbundle bit_operations_syntax


section \<open>Operations\<close>

definition XYcZ_initial_double ::
  "uECC_Curve_t \<Rightarrow> vli \<Rightarrow> vli \<Rightarrow> vli option \<Rightarrow> (vli \<times> vli \<times> vli \<times> vli) option" where
  "XYcZ_initial_double curve X1 Y1 initial_Z = do {
     let z = (case initial_Z of Some Z \<Rightarrow> Z | None \<Rightarrow> (uECC_vli_clear (cu_num_words curve))[0 := 1]);
     let X2 = X1;
     let Y2 = Y1;
     (X1, Y1) \<leftarrow> apply_z curve X1 Y1 z;
     (X1, Y1, z) \<leftarrow> double_jacobian_default curve X1 Y1 z;
     (X2, Y2) \<leftarrow> apply_z curve X2 Y2 z;
     Some (X1, Y1, X2, Y2)
   }"

text \<open>\<open>Rx\<close> and \<open>Ry\<close> are the arrays with the coordinates of the two points; \<open>nb\<close> is \<open>0\<close> when the bit is set.\<close>

definition ladder_bit :: "vli \<Rightarrow> nat \<Rightarrow> nat" where
  "ladder_bit scalar i = (if uECC_vli_testBit scalar i = 0 then 1 else 0)"

definition ladder_addC :: "uECC_Curve_t \<Rightarrow> nat \<Rightarrow> vli list \<times> vli list \<Rightarrow> (vli list \<times> vli list) option" where
  "ladder_addC curve nb R = do {
     let (Rx, Ry) = R;
     (X1, Y1, X2, Y2) \<leftarrow> XYcZ_addC curve (Rx ! (1 - nb)) (Ry ! (1 - nb)) (Rx ! nb) (Ry ! nb);
     Some (Rx[1 - nb := X1, nb := X2], Ry[1 - nb := Y1, nb := Y2])
   }"

definition ladder_add :: "uECC_Curve_t \<Rightarrow> nat \<Rightarrow> vli list \<times> vli list \<Rightarrow> (vli list \<times> vli list) option" where
  "ladder_add curve nb R = do {
     let (Rx, Ry) = R;
     (X1, Y1, X2, Y2) \<leftarrow> XYcZ_add curve (Rx ! nb) (Ry ! nb) (Rx ! (1 - nb)) (Ry ! (1 - nb));
     Some (Rx[nb := X1, 1 - nb := X2], Ry[nb := Y1, 1 - nb := Y2])
   }"

fun ladder_loop :: "uECC_Curve_t \<Rightarrow> vli \<Rightarrow> nat \<Rightarrow> vli list \<times> vli list \<Rightarrow> (vli list \<times> vli list) option" where
  "ladder_loop curve scalar 0 R = Some R"
| "ladder_loop curve scalar (Suc i) R = do {
     let nb = ladder_bit scalar (Suc i);
     R \<leftarrow> ladder_addC curve nb R;
     R \<leftarrow> ladder_add curve nb R;
     ladder_loop curve scalar i R
   }"

text \<open>The end of the multiplication: the inverse of \<open>z\<close>, the last addition, and the point itself.\<close>

definition EccPoint_mult_end :: "uECC_Curve_t \<Rightarrow> vli \<Rightarrow> vli \<Rightarrow> nat \<Rightarrow> vli list \<times> vli list \<Rightarrow> vli option" where
  "EccPoint_mult_end curve X Y nb R = do {
     let (Rx, Ry) = R;
     let z = uECC_vli_modSub (Rx ! 1) (Rx ! 0) (cu_p curve);
     z \<leftarrow> uECC_vli_modMult_fast curve z (Ry ! (1 - nb));
     z \<leftarrow> uECC_vli_modMult_fast curve z X;
     z \<leftarrow> uECC_vli_modInv z (cu_p curve);
     z \<leftarrow> uECC_vli_modMult_fast curve z Y;
     z \<leftarrow> uECC_vli_modMult_fast curve z (Rx ! (1 - nb));
     (Rx, Ry) \<leftarrow> ladder_add curve nb (Rx, Ry);
     (X0, Y0) \<leftarrow> apply_z curve (Rx ! 0) (Ry ! 0) z;
     Some (X0 @ Y0)
   }"

definition EccPoint_mult ::
  "uECC_Curve_t \<Rightarrow> vli \<Rightarrow> vli \<Rightarrow> vli option \<Rightarrow> nat \<Rightarrow> vli option" where
  "EccPoint_mult curve point scalar initial_Z num_bits = do {
     let num_words = cu_num_words curve;
     let X = take num_words point;
     let Y = drop num_words point;
     (X1, Y1, X0, Y0) \<leftarrow> XYcZ_initial_double curve X Y initial_Z;
     R \<leftarrow> ladder_loop curve scalar (num_bits - 2) ([X0, X1], [Y0, Y1]);
     let nb = ladder_bit scalar 0;
     R \<leftarrow> ladder_addC curve nb R;
     EccPoint_mult_end curve X Y nb R
   }"


section \<open>Points\<close>

text \<open>
  \<open>(x3, y3)\<close> is the sum of \<open>(x1, y1)\<close> and \<open>(x2, y2)\<close> by the chord of slope \<open>s\<close>, or the double of \<open>(x, y)\<close> by the tangent of
  slope \<open>s\<close> (for \<open>a = - 3\<close>), modulo \<open>m\<close>. What the slope is divided by has an inverse.
\<close>

definition chord :: "int \<Rightarrow> int \<Rightarrow> int \<times> int \<Rightarrow> int \<times> int \<Rightarrow> int \<times> int \<Rightarrow> bool" where
  "chord m s P Q R \<longleftrightarrow>
     (case (P, Q, R) of ((x1, y1), (x2, y2), (x3, y3)) \<Rightarrow>
        coprime (x2 - x1) m \<and> s * (x2 - x1) mod m = (y2 - y1) mod m \<and> x3 = s\<^sup>2 - x1 - x2 \<and> y3 = s * (x1 - x3) - y1)"

definition tangent :: "int \<Rightarrow> int \<Rightarrow> int \<times> int \<Rightarrow> int \<times> int \<Rightarrow> bool" where
  "tangent m s P R \<longleftrightarrow>
     (case (P, R) of ((x, y), (x3, y3)) \<Rightarrow>
        coprime y m \<and> s * (2 * y) mod m = (3 * x\<^sup>2 - 3) mod m \<and> x3 = s\<^sup>2 - 2 * x \<and> y3 = s * (x - x3) - y)"

definition neg_point :: "int \<times> int \<Rightarrow> int \<times> int" where
  "neg_point P = (fst P, - snd P)"

text \<open>
  The ladder on such points: in a round the two points \<open>P\<close> and \<open>Q\<close> are replaced by their sum \<open>S\<close> and by the sum \<open>T\<close> of \<open>S\<close>
  with the difference \<open>D\<close> of \<open>P\<close> and \<open>Q\<close>.
\<close>

definition ladder_round ::
  "int \<Rightarrow> int \<times> int \<Rightarrow> int \<times> int \<Rightarrow> int \<times> int \<Rightarrow> int \<times> int \<Rightarrow> int \<times> int \<Rightarrow> bool" where
  "ladder_round m P Q S D T \<longleftrightarrow>
     (\<exists>s t u. chord m s P Q S \<and> chord m t P (neg_point Q) D \<and> chord m u S D T)"

inductive affine_ladder ::
  "int \<Rightarrow> (nat \<Rightarrow> nat) \<Rightarrow> nat \<Rightarrow> int \<times> int \<Rightarrow> int \<times> int \<Rightarrow> int \<times> int \<Rightarrow> int \<times> int \<Rightarrow> bool" for m bits where
  affine_0: "affine_ladder m bits 0 P0 P1 P0 P1"
| affine_set: "bits (Suc i) = 0 \<Longrightarrow> ladder_round m P1 P0 S D T \<Longrightarrow> affine_ladder m bits i S T R0 R1 \<Longrightarrow>
    affine_ladder m bits (Suc i) P0 P1 R0 R1"
| affine_clear: "bits (Suc i) = 1 \<Longrightarrow> ladder_round m P0 P1 S D T \<Longrightarrow> affine_ladder m bits i T S R0 R1 \<Longrightarrow>
    affine_ladder m bits (Suc i) P0 P1 R0 R1"

text \<open>The words of a point with its \<open>z\<close>, and the two arrays of the ladder.\<close>

definition point_words :: "uECC_Curve_t \<Rightarrow> int \<Rightarrow> int \<times> int \<Rightarrow> vli \<times> vli" where
  "point_words curve z P = (elem curve (fst P * z\<^sup>2), elem curve (snd P * z ^ 3))"

definition ladder_state :: "uECC_Curve_t \<Rightarrow> int \<Rightarrow> int \<times> int \<Rightarrow> int \<times> int \<Rightarrow> vli list \<times> vli list" where
  "ladder_state curve z P0 P1 =
     ([fst (point_words curve z P0), fst (point_words curve z P1)],
      [snd (point_words curve z P0), snd (point_words curve z P1)])"

lemma chord_coprime: "chord m s P Q S \<Longrightarrow> coprime (fst Q - fst P) m"
  by (auto simp: chord_def split: prod.splits)

lemma fst_neg_point [simp]: "fst (neg_point P) = fst P"
  by (simp add: neg_point_def)


section \<open>The ladder\<close>

context curve_field
begin

lemma ladder_addC_state:
  assumes "chord prime s P Q S" "chord prime t P (neg_point Q) D"
  shows "ladder_addC curve 0 (ladder_state curve z Q P) = Some (ladder_state curve (z ^ 3 * (fst Q - fst P)) S D)"
    and "ladder_addC curve 1 (ladder_state curve z P Q) = Some (ladder_state curve (z ^ 3 * (fst Q - fst P)) D S)"
  using assms XYcZ_addC_chord[of s "fst Q" "fst P" "snd Q" "snd P" t z]
  by (auto simp: ladder_addC_def ladder_state_def point_words_def chord_def neg_point_def split: prod.splits)

lemma ladder_add_state:
  assumes "chord prime s P Q S"
  shows "ladder_add curve 0 (ladder_state curve z P Q) = Some (ladder_state curve (z ^ 3 * (fst Q - fst P)) P S)"
    and "ladder_add curve 1 (ladder_state curve z Q P) = Some (ladder_state curve (z ^ 3 * (fst Q - fst P)) S P)"
  using assms XYcZ_add_chord[of s "fst Q" "fst P" "snd Q" "snd P" z]
  by (auto simp: ladder_add_def ladder_state_def point_words_def chord_def split: prod.splits)

lemma ladder_round_state:
  assumes "ladder_round prime P Q S D T" "coprime z prime"
  obtains z' where "coprime z' prime"
    "ladder_addC curve 0 (ladder_state curve z Q P) \<bind> ladder_add curve 0 = Some (ladder_state curve z' S T)"
    "ladder_addC curve 1 (ladder_state curve z P Q) \<bind> ladder_add curve 1 = Some (ladder_state curve z' T S)"
proof -
  obtain s t u where c: "chord prime s P Q S" "chord prime t P (neg_point Q) D" "chord prime u S D T"
    using assms(1) by (auto simp: ladder_round_def)
  show thesis
  proof
    show "coprime ((z ^ 3 * (fst Q - fst P)) ^ 3 * (fst D - fst S)) prime"
      using chord_coprime[OF c(1)] chord_coprime[OF c(3)] assms(2) by simp
  qed (use ladder_addC_state[OF c(1,2)] ladder_add_state[OF c(3)] in simp_all)
qed

text \<open>The loop over the words simulates the ladder on the points.\<close>

lemma ladder_loop_state:
  assumes "affine_ladder prime (ladder_bit scalar) i P0 P1 R0 R1" "coprime z prime"
  shows "\<exists>z'. coprime z' prime \<and> ladder_loop curve scalar i (ladder_state curve z P0 P1) = Some (ladder_state curve z' R0 R1)"
  using assms
proof (induction arbitrary: z rule: affine_ladder.induct)
  case (affine_set i P1 P0 S D T R0 R1)
  from affine_set(2,5) obtain z1 where "coprime z1 prime"
    "ladder_addC curve 0 (ladder_state curve z P0 P1) \<bind> ladder_add curve 0 = Some (ladder_state curve z1 S T)"
    by (rule ladder_round_state)
  then show ?case
    using affine_set(1,4) by (simp flip: bind_assoc)
next
  case (affine_clear i P0 P1 S D T R0 R1)
  from affine_clear(2,5) obtain z1 where "coprime z1 prime"
    "ladder_addC curve 1 (ladder_state curve z P0 P1) \<bind> ladder_add curve 1 = Some (ladder_state curve z1 T S)"
    by (rule ladder_round_state)
  then show ?case
    using affine_clear(1,4) by (simp flip: bind_assoc)
qed auto

lemma one_elem [simp]: "(uECC_vli_clear (cu_num_words curve))[0 := 1] = elem curve 1"
  using words(2) p_gt_3 by (intro elem_eqI) (simp_all add: vli_val_update uECC_vli_clear_def)

lemma initial_double_state:
  assumes "tangent prime s P P2" "initial_Z = None \<and> z0 = 1 \<or> initial_Z = Some (elem curve z0)" "coprime z0 prime"
  defines "z \<equiv> snd P * z0 ^ 4"
  shows "XYcZ_initial_double curve (elem curve (fst P)) (elem curve (snd P)) initial_Z =
      Some (fst (point_words curve z P2), snd (point_words curve z P2), fst (point_words curve z P), snd (point_words curve z P))"
    and "coprime z prime"
proof -
  have "z0 mod prime \<noteq> 0"
  proof
    assume "z0 mod prime = 0"
    then have "prime dvd 1"
      using coprime_common_divisor[OF assms(3), of prime] by (simp add: mod_eq_0_iff_dvd)
    then show False
      using p_gt_3 by simp
  qed
  then show "XYcZ_initial_double curve (elem curve (fst P)) (elem curve (snd P)) initial_Z =
      Some (fst (point_words curve z P2), snd (point_words curve z P2), fst (point_words curve z P), snd (point_words curve z P))"
    using assms(1,2) double_jacobian_tangent[of s "snd P" "fst P" z0]
    by (auto simp: XYcZ_initial_double_def apply_z_elem point_words_def tangent_def z_def split: prod.splits)
  show "coprime z prime"
    using assms(1,3) by (auto simp: tangent_def z_def split: prod.splits)
qed

text \<open>A point whose \<open>z\<close> is undone.\<close>

lemma apply_inverse:
  assumes "z * c mod prime = 1"
  shows "apply_z curve (fst (point_words curve z P)) (snd (point_words curve z P)) (elem curve c) =
    Some (elem curve (fst P), elem curve (snd P))"
proof -
  have "(z * c) ^ k mod prime = 1" for k
    using assms p_gt_3 by (metis mod_pos_pos_trivial power_mod power_one zero_le_one less_trans one_less_numeral_iff semiring_norm(77))
  then have "x * (z * c) ^ k mod prime = x mod prime" for x k
    by (metis mod_mult_right_eq mult.right_neutral)
  then have "elem curve (x * z ^ k * c ^ k) = elem curve x" for x k
    by (simp add: elem_eq_iff power_mult_distrib mult.assoc)
  then show ?thesis
    by (simp add: point_words_def apply_z_elem)
qed

lemma inverse_elem:
  assumes "coprime w prime"
  obtains i where "uECC_vli_modInv (elem curve w) (cu_p curve) = Some (elem curve i)" "i * w mod prime = 1"
  using modInv_elem[of w] assms p_gt_3 by (auto simp: coprime_iff_gcd_eq_1)

lemma coprime_mod_cong: "a mod prime = b mod prime \<Longrightarrow> coprime a prime \<longleftrightarrow> coprime b prime"
  by (metis gcd_red_int coprime_iff_gcd_eq_1)

text \<open>
  The last round: the inverse of the new \<open>z\<close> is recovered from the difference \<open>D\<close>, which is the point that is
  multiplied (or its negative).
\<close>

lemma recover_z:
  fixes e :: int
  assumes D: "fst D mod prime = fst P mod prime" "snd D mod prime = e * snd P mod prime" "e = 1 \<or> e = - 1"
    and cop: "coprime (fst P) prime" "coprime (snd P) prime" "coprime z prime" "coprime (fst D - fst S) prime"
  defines "w \<equiv> e * (fst D * z\<^sup>2 - fst S * z\<^sup>2) * (snd D * z ^ 3) * fst P"
  shows "\<exists>i. uECC_vli_modInv (elem curve w) (cu_p curve) = Some (elem curve i) \<and>
    z ^ 3 * (fst D - fst S) * (i * snd P * (fst D * z\<^sup>2)) mod prime = 1"
proof -
  have "coprime (snd D) prime"
    using coprime_mod_cong[OF D(2)] cop(2) D(3) by auto
  moreover have "w = e * (fst D - fst S) * z ^ 5 * snd D * fst P"
    by (simp add: w_def left_diff_distrib right_diff_distrib power2_eq_square power3_eq_cube eval_nat_numeral)
  ultimately have "coprime w prime"
    using cop D(3) by auto
  then obtain i where i: "uECC_vli_modInv (elem curve w) (cu_p curve) = Some (elem curve i)" "i * w mod prime = 1"
    by (rule inverse_elem)
  have "e * (snd D) mod prime = e * (e * snd P) mod prime"
    by (metis D(2) mod_mult_right_eq)
  then have "e * snd D mod prime = snd P mod prime"
    using D(3) by auto
  from mod_mult_cong[OF this D(1)[symmetric]] have "e * snd D * fst P mod prime = snd P * fst D mod prime" .
  from mod_mult_cong[OF this refl, of "i * (fst D - fst S) * z ^ 5"]
  have "z ^ 3 * (fst D - fst S) * (i * snd P * (fst D * z\<^sup>2)) mod prime = i * w mod prime"
    by (simp add: w_def left_diff_distrib right_diff_distrib power2_eq_square power3_eq_cube eval_nat_numeral mult_ac)
  then show ?thesis
    using i by metis
qed

lemma EccPoint_mult_end_state:
  assumes c: "chord prime u S D T" and z: "coprime z prime" and P: "coprime (fst P) prime" "coprime (snd P) prime"
    and x: "fst D mod prime = fst P mod prime"
  shows "snd D mod prime = snd P mod prime \<Longrightarrow>
      EccPoint_mult_end curve (elem curve (fst P)) (elem curve (snd P)) 0 (ladder_state curve z S D) =
      Some (elem curve (fst S) @ elem curve (snd S))"
    and "snd D mod prime = - snd P mod prime \<Longrightarrow>
      EccPoint_mult_end curve (elem curve (fst P)) (elem curve (snd P)) 1 (ladder_state curve z D S) =
      Some (elem curve (fst T) @ elem curve (snd T))"
proof -
  define z' where "z' = z ^ 3 * (fst D - fst S)"
  {
    assume y: "snd D mod prime = snd P mod prime"
    obtain i where i: "uECC_vli_modInv (elem curve ((fst D * z\<^sup>2 - fst S * z\<^sup>2) * (snd D * z ^ 3) * fst P)) (cu_p curve) =
        Some (elem curve i)" "z' * (i * snd P * (fst D * z\<^sup>2)) mod prime = 1"
      using recover_z[of D P 1 z S] y x z P chord_coprime[OF c] by (auto simp: z'_def)
    show "EccPoint_mult_end curve (elem curve (fst P)) (elem curve (snd P)) 0 (ladder_state curve z S D) =
        Some (elem curve (fst S) @ elem curve (snd S))"
      using ladder_add_state(1)[OF c, of z, folded z'_def] apply_inverse[OF i(2), of S] i(1)
      by (simp add: EccPoint_mult_end_def ladder_state_def point_words_def)
  next
    assume y: "snd D mod prime = - snd P mod prime"
    have "- 1 * (fst D * z\<^sup>2 - fst S * z\<^sup>2) = fst S * z\<^sup>2 - fst D * z\<^sup>2"
      by simp
    then obtain i where i: "uECC_vli_modInv (elem curve ((fst S * z\<^sup>2 - fst D * z\<^sup>2) * (snd D * z ^ 3) * fst P)) (cu_p curve) =
        Some (elem curve i)" "z' * (i * snd P * (fst D * z\<^sup>2)) mod prime = 1"
      using recover_z[of D P "- 1" z S] y x z P chord_coprime[OF c] by (auto simp: z'_def)
    show "EccPoint_mult_end curve (elem curve (fst P)) (elem curve (snd P)) 1 (ladder_state curve z D S) =
        Some (elem curve (fst T) @ elem curve (snd T))"
      using ladder_add_state(2)[OF c, of z, folded z'_def] apply_inverse[OF i(2), of T] i(1)
      by (simp add: EccPoint_mult_end_def ladder_state_def point_words_def)
  }
qed

lemma EccPoint_mult_ladder:
  assumes t: "tangent prime s P P2" and i: "initial_Z = None \<and> z0 = 1 \<or> initial_Z = Some (elem curve z0)" "coprime z0 prime"
    and l: "affine_ladder prime (ladder_bit scalar) (num_bits - 2) P P2 A0 A1"
    and r: "if ladder_bit scalar 0 = 0 then ladder_round prime A1 A0 S D T \<and> R = S else ladder_round prime A0 A1 S D T \<and> R = T"
    and D: "fst D mod prime = fst P mod prime"
      "snd D mod prime = (if ladder_bit scalar 0 = 0 then snd P else - snd P) mod prime"
    and x: "coprime (fst P) prime"
  shows "EccPoint_mult curve (elem curve (fst P) @ elem curve (snd P)) scalar initial_Z num_bits =
    Some (elem curve (fst R) @ elem curve (snd R))"
proof -
  define z1 where "z1 = snd P * z0 ^ 4"
  note d = initial_double_state[OF t i, folded z1_def]
  obtain z2 where z2: "coprime z2 prime"
    "ladder_loop curve scalar (num_bits - 2) (ladder_state curve z1 P P2) = Some (ladder_state curve z2 A0 A1)"
    using ladder_loop_state[OF l d(2)] by blast
  have y: "coprime (snd P) prime"
    using t by (auto simp: tangent_def split: prod.splits)
  have "EccPoint_mult curve (elem curve (fst P) @ elem curve (snd P)) scalar initial_Z num_bits =
      ladder_addC curve (ladder_bit scalar 0) (ladder_state curve z2 A0 A1) \<bind>
      EccPoint_mult_end curve (elem curve (fst P)) (elem curve (snd P)) (ladder_bit scalar 0)"
    using d(1) z2(2) by (simp add: EccPoint_mult_def ladder_state_def case_prod_beta Let_def)
  moreover consider (set) "ladder_bit scalar 0 = 0" | (clear) "ladder_bit scalar 0 = 1"
    by (metis ladder_bit_def)
  then have "ladder_addC curve (ladder_bit scalar 0) (ladder_state curve z2 A0 A1) \<bind>
      EccPoint_mult_end curve (elem curve (fst P)) (elem curve (snd P)) (ladder_bit scalar 0) =
      Some (elem curve (fst R) @ elem curve (snd R))"
  proof cases
    case set
    obtain a b c where ch: "chord prime a A1 A0 S" "chord prime b A1 (neg_point A0) D" "chord prime c S D T" "R = S"
      using r set by (auto simp: ladder_round_def)
    have "coprime (z2 ^ 3 * (fst A0 - fst A1)) prime"
      using z2(1) chord_coprime[OF ch(1)] by simp
    then show ?thesis
      using ladder_addC_state(1)[OF ch(1,2)] EccPoint_mult_end_state(1)[OF ch(3) _ x y D(1)] D(2) set ch(4) by simp
  next
    case clear
    obtain a b c where ch: "chord prime a A0 A1 S" "chord prime b A0 (neg_point A1) D" "chord prime c S D T" "R = T"
      using r clear by (auto simp: ladder_round_def)
    have "coprime (z2 ^ 3 * (fst A1 - fst A0)) prime"
      using z2(1) chord_coprime[OF ch(1)] by simp
    then show ?thesis
      using ladder_addC_state(2)[OF ch(1,2)] EccPoint_mult_end_state(2)[OF ch(3) _ x y D(1)] D(2) clear ch(4) by simp
  qed
  ultimately show ?thesis
    by simp
qed

text \<open>The multiplication returns a point with reduced coordinates for every scalar and every such point.\<close>

definition elem_arrays :: "vli list \<times> vli list \<Rightarrow> bool" where
  "elem_arrays R \<longleftrightarrow> (\<exists>a b c d. R = ([elem curve a, elem curve b], [elem curve c, elem curve d]))"

lemma ladder_bit_cases: "ladder_bit scalar i = 0 \<or> ladder_bit scalar i = 1"
  by (simp add: ladder_bit_def)

lemma ladder_addC_elems: "elem_arrays R \<Longrightarrow> nb = 0 \<or> nb = 1 \<Longrightarrow> \<exists>R'. ladder_addC curve nb R = Some R' \<and> elem_arrays R'"
  by (auto simp: elem_arrays_def ladder_addC_def XYcZ_addC_elem Let_def)

lemma ladder_add_elems: "elem_arrays R \<Longrightarrow> nb = 0 \<or> nb = 1 \<Longrightarrow> \<exists>R'. ladder_add curve nb R = Some R' \<and> elem_arrays R'"
  by (auto simp: elem_arrays_def ladder_add_def XYcZ_add_elem Let_def)

lemma ladder_loop_elems: "elem_arrays R \<Longrightarrow> \<exists>R'. ladder_loop curve scalar i R = Some R' \<and> elem_arrays R'"
proof (induction i arbitrary: R)
  case (Suc i)
  obtain R1 where "ladder_addC curve (ladder_bit scalar (Suc i)) R = Some R1" "elem_arrays R1"
    using ladder_addC_elems[OF Suc.prems ladder_bit_cases] by blast
  moreover from this(2) obtain R2 where "ladder_add curve (ladder_bit scalar (Suc i)) R1 = Some R2" "elem_arrays R2"
    using ladder_add_elems[OF _ ladder_bit_cases] by blast
  ultimately show ?case
    using Suc.IH by (simp add: Let_def)
qed simp

lemma double_jacobian_elems:
  "\<exists>a b c. double_jacobian_default curve (elem curve X) (elem curve Y) (elem curve Z) =
    Some (elem curve a, elem curve b, elem curve c)"
proof (cases "Z mod prime = 0")
  case True
  then show ?thesis
    by (auto simp: double_jacobian_default_def)
next
  case False
  then show ?thesis
    using double_jacobian_elem by blast
qed

lemma EccPoint_mult_end_elems:
  assumes "elem_arrays R" "nb = 0 \<or> nb = 1"
  shows "\<exists>a b. EccPoint_mult_end curve (elem curve x) (elem curve y) nb R = Some (elem curve a @ elem curve b)"
proof -
  obtain Rx Ry where R: "R = (Rx, Ry)"
    by fastforce
  obtain R' where R': "ladder_add curve nb R = Some R'" "elem_arrays R'"
    using ladder_add_elems[OF assms] by blast
  obtain u v where z: "Rx ! Suc 0 = elem curve u" "Rx ! 0 = elem curve v"
    using assms(1) by (auto simp: elem_arrays_def R)
  obtain w where w: "Ry ! (Suc 0 - nb) = elem curve w"
    using assms by (auto simp: elem_arrays_def R)
  obtain r where r: "Rx ! (Suc 0 - nb) = elem curve r"
    using assms by (auto simp: elem_arrays_def R)
  obtain i where i: "uECC_vli_modInv (elem curve ((u - v) * w * x)) (cu_p curve) = Some (elem curve i)"
    using modInv_elem by blast
  show ?thesis
    using R'(2) by (auto simp: EccPoint_mult_end_def z w r i R'(1)[unfolded R] R elem_arrays_def apply_z_elem)
qed

lemma EccPoint_mult_elems:
  assumes "initial_Z = None \<or> (\<exists>z. initial_Z = Some (elem curve z))"
  shows "\<exists>a b. EccPoint_mult curve (elem curve x @ elem curve y) scalar initial_Z num_bits = Some (elem curve a @ elem curve b)"
proof -
  obtain z where z: "(case initial_Z of Some Z \<Rightarrow> Z | None \<Rightarrow> (uECC_vli_clear (cu_num_words curve))[0 := 1]) = elem curve z"
    using assms by auto
  obtain a b c where d: "double_jacobian_default curve (elem curve (x * z\<^sup>2)) (elem curve (y * z ^ 3)) (elem curve z) =
      Some (elem curve a, elem curve b, elem curve c)"
    using double_jacobian_elems by blast
  have i: "XYcZ_initial_double curve (elem curve x) (elem curve y) initial_Z =
      Some (elem curve a, elem curve b, elem curve (x * c\<^sup>2), elem curve (y * c ^ 3))"
    unfolding XYcZ_initial_double_def z Let_def by (simp add: apply_z_elem d)
  have "elem_arrays ([elem curve (x * c\<^sup>2), elem curve a], [elem curve (y * c ^ 3), elem curve b])"
    by (auto simp: elem_arrays_def)
  then obtain R where R: "ladder_loop curve scalar (num_bits - 2)
      ([elem curve (x * c\<^sup>2), elem curve a], [elem curve (y * c ^ 3), elem curve b]) = Some R" "elem_arrays R"
    using ladder_loop_elems by blast
  obtain R' where R': "ladder_addC curve (ladder_bit scalar 0) R = Some R'" "elem_arrays R'"
    using ladder_addC_elems[OF R(2) ladder_bit_cases] by blast
  show ?thesis
    using EccPoint_mult_end_elems[OF R'(2) ladder_bit_cases, of x y scalar 0] by (simp add: EccPoint_mult_def i R(1) R'(1) Let_def)
qed

end


section \<open>Scalar multiplication on secp192r1\<close>

text \<open>C11: EccPoint_mult on secp192r1 refines the ladder on points. Let the doubling of the point, the rounds of the ladder for the
  bits of the scalar and the last round be defined by chords and tangents with invertible denominators, and let the
  difference of the two points of the last round be the given point (its negative when the last bit is clear). Then
  EccPoint_mult returns, with or without an initial Z, the coordinates of the first point of the ladder: the coordinates
  with the common z are the right ones in every step, and the inverse of z is recovered from the given point.\<close>

theorem EccPoint_mult_refines_ladder:
  defines "p \<equiv> vli_val curve_secp192r1_p"
  assumes "tangent p s P P2" "initial_Z = None \<and> z0 = 1 \<or> initial_Z = Some (elem curve_secp192r1 z0)" "coprime z0 p"
    and "affine_ladder p (ladder_bit scalar) (num_bits - 2) P P2 A0 A1"
    and "if ladder_bit scalar 0 = 0 then ladder_round p A1 A0 S D T \<and> R = S else ladder_round p A0 A1 S D T \<and> R = T"
    and "fst D mod p = fst P mod p" "snd D mod p = (if ladder_bit scalar 0 = 0 then snd P else - snd P) mod p"
    and "coprime (fst P) p"
  shows "EccPoint_mult curve_secp192r1 (elem curve_secp192r1 (fst P) @ elem curve_secp192r1 (snd P)) scalar initial_Z num_bits =
    Some (elem curve_secp192r1 (fst R) @ elem curve_secp192r1 (snd R))"
proof -
  have "cu_p curve_secp192r1 = curve_secp192r1_p"
    by (simp add: curve_secp192r1_def)
  then show ?thesis
    using assms(2-) secp192r1.EccPoint_mult_ladder[of s P P2 initial_Z z0 scalar num_bits A0 A1 S D T R] unfolding p_def by simp
qed

text \<open>Chords and tangents from the quotients that show them.\<close>

lemma coprime_quotient: "coprime a m" if "k * a = 1 + m * q" for a m k q :: int
proof (rule coprimeI)
  fix c
  assume "c dvd a" "c dvd m"
  then have "c dvd k * a - m * q"
    by simp
  then show "is_unit c"
    using that by simp
qed

lemma chordI:
  "k * (x2 - x1) = 1 + m * q \<Longrightarrow> s * (x2 - x1) = y2 - y1 + m * r \<Longrightarrow> x3 = s\<^sup>2 - x1 - x2 \<Longrightarrow> y3 = s * (x1 - x3) - y1 \<Longrightarrow>
    chord m s (x1, y1) (x2, y2) (x3, y3)"
  by (auto simp: chord_def intro: coprime_quotient)

lemma tangentI:
  "k * y = 1 + m * q \<Longrightarrow> s * (2 * y) = 3 * x\<^sup>2 - 3 + m * r \<Longrightarrow> x3 = s\<^sup>2 - 2 * x \<Longrightarrow> y3 = s * (x - x3) - y \<Longrightarrow>
    tangent m s (x, y) (x3, y3)"
  by (auto simp: tangent_def intro: coprime_quotient)

lemma mod_quotient: "a mod m = b mod m" if "a = b + m * q" for a b m q :: int
  using that by simp

lemma elem_quotient:
  assumes "length ws = 3" "vli_val ws < vli_val curve_secp192r1_p" "x = vli_val ws + vli_val curve_secp192r1_p * q"
  shows "elem curve_secp192r1 x = ws"
proof -
  have "cu_p curve_secp192r1 = curve_secp192r1_p" "cu_num_words curve_secp192r1 = 3"
    by (simp_all add: curve_secp192r1_def num_words_secp192r1_def)
  then show ?thesis
    using assms secp192r1.elem_eqI[of ws x] vli_val_bounds(1)[of ws] by simp
qed

text \<open>The base point, its double, and the last round for three times the base point.\<close>

definition G1 :: "int \<times> int" where
  "G1 = (602046282375688656758213480587526111916698976636884684818, 174050332293622031404857552280219410364023488927386650641)"

definition G2 :: "int \<times> int" where
  "G2 = (196246268726868085575354116679417749711109723749082673277975478819741986574342326499916099032003192664092223583648, - 86936492075318631429848490134350642003475074134459357304492432092440249333402986157477149239125540845047899001059998913931308892908909210485763797122152233453505998845901)"

definition G3 :: "int \<times> int" where
  "G3 = (35246027073175484326875424824452855515959995839301051379055399451505234211106548381348714954991949425767294687766158, - 208576373210011719854863741043324209952307731784411946805277942137711322445410800779257336252924071667593985828843988431930922271521878390113785201196678860843587617262239779)"

definition G_diff :: "int \<times> int" where
  "G_diff = (33840532759832778825893895081396718582566305319199330949575081214641145899120822719604527170210663859625549082289783, - 196197357427170553529029190884697156423548031417233704958030358305722780575868369610993385143575703327705794518283777469123564609995471137910469459405678652533733568938291294)"

definition G_next :: "int \<times> int" where
  "G_next = (- 43072662772563697268003423333341853577970194143144648651294343664176056235850663292379081623952647313096880258588732, 608031613113151476493594717458191871032852760915574710755236271206447694664669031184073728389535876662151532628664772044765222044692578486427638793200198693381944330873472449)"

lemma G_tangent: "tangent (vli_val curve_secp192r1_p) 442996917288222317913198944605928971379981873759372028722 G1 G2"
  unfolding G1_def G2_def curve_secp192r1_p(2)
  by (rule tangentI[where k = 2063194486479672227351491773439808159382597231782345186513 and q = 57207880499014189037416409555116427679615069003509157408 and r = "- 148662821854287931991633859785183326253657059408026147035"]) simp_all

lemma G_round: "ladder_round (vli_val curve_secp192r1_p) G2 G1 G3 G_diff G_next"
proof -
  have "chord (vli_val curve_secp192r1_p) 5953341359430210970812374128950476988848051562147294042568 G2 G1 G3"
    unfolding G1_def G2_def G3_def curve_secp192r1_p(2)
    by (rule chordI[where k = 1763309297385608164073790802522366717340254146891963436824 and q = "- 55127809745782963448595351620422482947015067288729866956679433661148901478831050701190821563243021506488268826799" and r = "- 199974060201130682369628678585313709746794710243373035033611851145084789321717905833336199632836032136513687358258"]) simp_all
  moreover have "chord (vli_val curve_secp192r1_p) 5834104818098458445922590478601737444703926826630952932557 G2 (neg_point G1) G_diff"
    unfolding G1_def G2_def G_diff_def neg_point_def fst_conv snd_conv curve_secp192r1_p(2)
    by (rule chordI[where k = 1763309297385608164073790802522366717340254146891963436824 and q = "- 55127809745782963448595351620422482947015067288729866956679433661148901478831050701190821563243021506488268826799" and r = "- 196246268726868085575354116679417749711109723749082673277373432537366297917584113019328572920086493687455338898830"]) simp_all
  moreover have "chord (vli_val curve_secp192r1_p) 5100382050439414473330758770623386184342749324795633671203 G3 G_diff G_next"
    unfolding G3_def G_diff_def G_next_def curve_secp192r1_p(2)
    by (rule chordI[where k = 5744198336059827091863270859015954757471883895178686086253 and q = "- 1286172892583742687634588734656580028251703720261158424103201198373467415003344786767108408223149589421603507835444" and r = "- 3114108162436020448221369512098333278961869996583133046792532643481772908740679364597166164782990275192846852237590"]) simp_all
  ultimately show ?thesis
    by (auto simp: ladder_round_def)
qed

lemma EccPoint_mult_refines_ladder_witness:
  "EccPoint_mult curve_secp192r1 (cu_G curve_secp192r1) [1, 0, 0] None 2 =
    Some [0xDFD0D359CBB263DA, 0xDCD283201FB2B9AA, 0x76E32A2557599E6E, 0xF3B543660CFD05FD, 0xAA62E0FED121D49E, 0x782C37E372BA4520]"
proof -
  have "ladder_bit [1, 0, 0] 0 = 0"
    by (simp add: ladder_bit_def uECC_vli_testBit_def uECC_WORD_BITS_def)
  moreover have "coprime (fst G1) (vli_val curve_secp192r1_p)"
    unfolding G1_def fst_conv curve_secp192r1_p(2)
    by (rule coprime_quotient[where k = 4501487661668459201131201625760338945286855411592992703750 and q = 431744462032457460779874117975564841128241697976285644181]) simp
  moreover have "elem curve_secp192r1 (fst G1) = [0xF4FF0AFD82FF1012, 0x7CBF20EB43A18800, 0x188DA80EB03090F6]"
    unfolding G1_def fst_conv by (rule elem_quotient[where q = 0]) (simp_all add: curve_secp192r1_p(2))
  moreover have "elem curve_secp192r1 (snd G1) = [0x73F977A11E794811, 0x631011ED6B24CDD5, 0x07192B95FFC8DA78]"
    unfolding G1_def snd_conv by (rule elem_quotient[where q = 0]) (simp_all add: curve_secp192r1_p(2))
  moreover have "elem curve_secp192r1 (fst G3) = [0xDFD0D359CBB263DA, 0xDCD283201FB2B9AA, 0x76E32A2557599E6E]"
    unfolding G3_def fst_conv by (rule elem_quotient[where q = 5615016062983128570671617699380174855912166260317538909516]) (simp_all add: curve_secp192r1_p(2))
  moreover have "elem curve_secp192r1 (snd G3) = [0xF3B543660CFD05FD, 0xAA62E0FED121D49E, 0x782C37E372BA4520]"
    unfolding G3_def snd_conv by (rule elem_quotient[where q = "- 33228133301421319068207313997803315837715371067368006105793887565590474105570701472542076444617159003308225617295840"]) (simp_all add: curve_secp192r1_p(2))
  moreover have "fst G_diff mod vli_val curve_secp192r1_p = fst G1 mod vli_val curve_secp192r1_p"
    unfolding G1_def G_diff_def fst_conv curve_secp192r1_p(2) by (rule mod_quotient[where q = 5391107900810236128009391533995808473323944952871580903835]) simp
  moreover have "snd G_diff mod vli_val curve_secp192r1_p = snd G1 mod vli_val curve_secp192r1_p"
    unfolding G1_def G_diff_def snd_conv curve_secp192r1_p(2) by (rule mod_quotient[where q = "- 31256042310278796718276676688702688721136490156552671959098405847390989448422560480287017829521059413521918518757265"]) simp
  moreover have "cu_G curve_secp192r1 = [0xF4FF0AFD82FF1012, 0x7CBF20EB43A18800, 0x188DA80EB03090F6,
      0x73F977A11E794811, 0x631011ED6B24CDD5, 0x07192B95FFC8DA78]"
    by (simp add: curve_secp192r1_def)
  ultimately show ?thesis
    using EccPoint_mult_refines_ladder[of 442996917288222317913198944605928971379981873759372028722 G1 G2 None 1 "[1, 0, 0]" 2 G1 G2 G3 G_diff G_next G3] G_tangent G_round
    by (simp add: affine_0)
qed

end
