(* ===== verification/Ecc_Bytes.thy ===== *)
theory Ecc_Bytes
  imports Vli
begin

text \<open>
  The conversion between words and the bytes of a key (\<open>uECC_vli_nativeToBytes\<close> and \<open>uECC_vli_bytesToNative\<close> of
  \<open>src/lib/ecc/uECC.c\<close>): the bytes are the number with the highest byte first. The counter \<open>i\<close> of both loops is a
  \<open>wordcount_t\<close>, that is an int8_t: after 127 it is -128. An access outside of an array is \<open>None\<close>.
\<close>

unbundle bit_operations_syntax


section \<open>Operations\<close>

definition uECC_WORD_SIZE :: nat where
  "uECC_WORD_SIZE = 8"

type_synonym wordcount_t = "8 word"

text \<open>Counting in an int8_t.\<close>

lemma sint_wordcount: "sint (w :: wordcount_t) = (if uint w < 128 then uint w else uint w - 256)"
proof -
  have b: "0 \<le> uint w" "uint w < 256"
    using uint_bounded[of w] by simp_all
  have s: "sint w = (128 + uint w) mod 256 - 128"
    by (simp add: sint_uint signed_take_bit_eq_take_bit_shift take_bit_eq_mod add.commute)
  show ?thesis
  proof (cases "uint w < 128")
    case False
    have "(128 + uint w) mod 256 = (uint w - 128 + 256) mod 256"
      by (simp add: add.commute)
    also have "\<dots> = uint w - 128"
      using False b by (subst mod_add_self2) simp
    finally show ?thesis
      using False s by simp
  qed (use b s in simp)
qed

lemma uint_wordcount_next: "uint (w + 1 :: wordcount_t) = (if uint w = 255 then 0 else uint w + 1)"
  using uint_bounded[of w] by (simp add: uint_word_ariths)

lemma sint_wordcount_next: "0 \<le> sint (w :: wordcount_t) \<Longrightarrow> sint (w + 1) = (if sint w = 127 then - 128 else sint w + 1)"
  using uint_bounded[of w] by (auto simp: sint_wordcount uint_wordcount_next split: if_splits)

lemma sint_wordcount_le: "sint (w :: wordcount_t) \<le> 127"
  using uint_bounded[of w] by (simp add: sint_wordcount)

definition nativeToBytes_turn :: "nat \<Rightarrow> vli \<Rightarrow> nat \<Rightarrow> u8" where
  "nativeToBytes_turn num_bytes native i =
     (let b = num_bytes - 1 - i
      in ucast (drop_bit (8 * (b mod uECC_WORD_SIZE)) (native ! (b div uECC_WORD_SIZE))))"

function nativeToBytes_loop :: "nat \<Rightarrow> vli \<Rightarrow> wordcount_t \<Rightarrow> u8 list \<Rightarrow> u8 list option" where
  "nativeToBytes_loop num_bytes native i bytes =
     (if \<not> sint i < int num_bytes then Some bytes
      else if sint i < 0 \<or> length bytes \<le> nat (sint i) \<or> length native \<le> (num_bytes - 1 - nat (sint i)) div uECC_WORD_SIZE
      then None
      else nativeToBytes_loop num_bytes native (i + 1)
             (bytes[nat (sint i) := nativeToBytes_turn num_bytes native (nat (sint i))]))"
  by auto

termination
  by (relation "measure (\<lambda>(num_bytes, native, i, bytes). if sint i < 0 then 0 else nat (128 - sint i))")
    (auto simp: sint_wordcount_next sint_wordcount_le order_le_less_trans[OF sint_wordcount_le])

text \<open>The caller's buffer has \<open>num_bytes\<close> bytes, all of which are written.\<close>

definition uECC_vli_nativeToBytes :: "nat \<Rightarrow> vli \<Rightarrow> u8 list option" where
  "uECC_vli_nativeToBytes num_bytes native = nativeToBytes_loop num_bytes native 0 (replicate num_bytes 0)"

definition bytesToNative_turn :: "u8 list \<Rightarrow> nat \<Rightarrow> nat \<Rightarrow> vli \<Rightarrow> vli" where
  "bytesToNative_turn bytes num_bytes i native =
     (let b = num_bytes - 1 - i;
          w = b div uECC_WORD_SIZE
      in native[w := native ! w OR push_bit (8 * (b mod uECC_WORD_SIZE)) (ucast (bytes ! i))])"

function bytesToNative_loop :: "u8 list \<Rightarrow> nat \<Rightarrow> wordcount_t \<Rightarrow> vli \<Rightarrow> vli option" where
  "bytesToNative_loop bytes num_bytes i native =
     (if \<not> sint i < int num_bytes then Some native
      else if sint i < 0 \<or> length bytes \<le> nat (sint i) then None
      else bytesToNative_loop bytes num_bytes (i + 1) (bytesToNative_turn bytes num_bytes (nat (sint i)) native))"
  by auto

termination
  by (relation "measure (\<lambda>(bytes, num_bytes, i, native). if sint i < 0 then 0 else nat (128 - sint i))")
    (auto simp: sint_wordcount_next sint_wordcount_le order_le_less_trans[OF sint_wordcount_le])

text \<open>The words are those that the call clears first.\<close>

definition uECC_vli_bytesToNative :: "u8 list \<Rightarrow> nat \<Rightarrow> vli option" where
  "uECC_vli_bytesToNative bytes num_bytes =
     bytesToNative_loop bytes num_bytes 0 (uECC_vli_clear ((num_bytes + (uECC_WORD_SIZE - 1)) div uECC_WORD_SIZE))"


section \<open>What the loops compute\<close>

definition native_bytes :: "nat \<Rightarrow> vli \<Rightarrow> u8 list" where
  "native_bytes num_bytes native = map (nativeToBytes_turn num_bytes native) [0..<num_bytes]"

definition bytes_native :: "u8 list \<Rightarrow> nat \<Rightarrow> vli" where
  "bytes_native bytes num_bytes =
     fold (bytesToNative_turn bytes num_bytes) [0..<num_bytes]
       (uECC_vli_clear ((num_bytes + (uECC_WORD_SIZE - 1)) div uECC_WORD_SIZE))"

declare nativeToBytes_loop.simps [simp del] bytesToNative_loop.simps [simp del]

text \<open>The counter after \<open>k\<close> turns.\<close>

lemma sint_wordcount_of_nat: "k \<le> 127 \<Longrightarrow> sint (of_nat k :: wordcount_t) = int k"
  by (simp add: sint_wordcount uint_nat unat_of_nat)

lemma wordcount_Suc: "(of_nat k :: wordcount_t) + 1 = of_nat (Suc k)"
  by simp

text \<open>From 128 bytes on both loops run until the counter is negative.\<close>

lemma nativeToBytes_loop_overflow:
  assumes "127 < num_bytes" "k \<le> 127"
  shows "nativeToBytes_loop num_bytes native (of_nat k) bytes = None"
  using assms(2)
proof (induction "127 - k" arbitrary: k bytes)
  case 0
  then have "sint (of_nat k + 1 :: wordcount_t) = - 128"
    by (simp add: sint_wordcount_next sint_wordcount_of_nat)
  then have "nativeToBytes_loop num_bytes native (of_nat k + 1) bytes' = None" for bytes'
    by (subst nativeToBytes_loop.simps) simp
  then show ?case
    using assms(1) 0 by (subst nativeToBytes_loop.simps) (simp add: sint_wordcount_of_nat)
next
  case (Suc x)
  then have "nativeToBytes_loop num_bytes native (of_nat k + 1) bytes' = None" for bytes'
    using Suc.hyps(1)[of "Suc k"] by (simp only: wordcount_Suc)
  then show ?case
    using assms(1) Suc.prems by (subst nativeToBytes_loop.simps) (simp add: sint_wordcount_of_nat)
qed

lemma bytesToNative_loop_overflow:
  assumes "127 < num_bytes" "k \<le> 127"
  shows "bytesToNative_loop bytes num_bytes (of_nat k) native = None"
  using assms(2)
proof (induction "127 - k" arbitrary: k native)
  case 0
  then have "sint (of_nat k + 1 :: wordcount_t) = - 128"
    by (simp add: sint_wordcount_next sint_wordcount_of_nat)
  then have "bytesToNative_loop bytes num_bytes (of_nat k + 1) native' = None" for native'
    by (subst bytesToNative_loop.simps) simp
  then show ?case
    using assms(1) 0 by (subst bytesToNative_loop.simps) (simp add: sint_wordcount_of_nat)
next
  case (Suc x)
  then have "bytesToNative_loop bytes num_bytes (of_nat k + 1) native' = None" for native'
    using Suc.hyps(1)[of "Suc k"] by (simp only: wordcount_Suc)
  then show ?case
    using assms(1) Suc.prems by (subst bytesToNative_loop.simps) (simp add: sint_wordcount_of_nat)
qed

text \<open>Up to 127 bytes they go through all bytes.\<close>

lemma nativeToBytes_loop_ok:
  assumes "num_bytes \<le> 127" "num_bytes \<le> uECC_WORD_SIZE * length native" "k \<le> num_bytes" "length bytes = num_bytes"
  shows "nativeToBytes_loop num_bytes native (of_nat k) bytes =
    Some (take k bytes @ map (nativeToBytes_turn num_bytes native) [k..<num_bytes])"
  using assms(3,4)
proof (induction "num_bytes - k" arbitrary: k bytes)
  case 0
  then show ?case
    using assms(1) by (subst nativeToBytes_loop.simps) (simp add: sint_wordcount_of_nat)
next
  case (Suc x)
  then have k: "k < num_bytes" "sint (of_nat k :: wordcount_t) = int k"
    using assms(1) by (simp_all add: sint_wordcount_of_nat)
  have w: "(num_bytes - 1 - k) div uECC_WORD_SIZE < length native"
    using assms(2) k(1) by (intro less_mult_imp_div_less) (simp add: mult.commute)
  have "nativeToBytes_loop num_bytes native (of_nat k) bytes =
      nativeToBytes_loop num_bytes native (of_nat (Suc k)) (bytes[k := nativeToBytes_turn num_bytes native k])"
    using k w Suc.prems(2) by (subst nativeToBytes_loop.simps) (simp add: add.commute)
  also have "\<dots> = Some (take (Suc k) (bytes[k := nativeToBytes_turn num_bytes native k]) @
      map (nativeToBytes_turn num_bytes native) [Suc k..<num_bytes])"
    using Suc.hyps(2) Suc.prems k(1) by (intro Suc.hyps(1)) simp_all
  finally show ?case
    using k(1) Suc.prems(2) by (simp add: take_Suc_conv_app_nth upt_conv_Cons)
qed

lemma bytesToNative_loop_ok:
  assumes "num_bytes \<le> 127" "num_bytes \<le> length bytes" "k \<le> num_bytes"
  shows "bytesToNative_loop bytes num_bytes (of_nat k) native = Some (fold (bytesToNative_turn bytes num_bytes) [k..<num_bytes] native)"
  using assms(3)
proof (induction "num_bytes - k" arbitrary: k native)
  case 0
  then show ?case
    using assms(1) by (subst bytesToNative_loop.simps) (simp add: sint_wordcount_of_nat)
next
  case (Suc x)
  then have k: "k < num_bytes" "sint (of_nat k :: wordcount_t) = int k"
    using assms(1) by (simp_all add: sint_wordcount_of_nat)
  have "bytesToNative_loop bytes num_bytes (of_nat k) native =
      bytesToNative_loop bytes num_bytes (of_nat (Suc k)) (bytesToNative_turn bytes num_bytes k native)"
    using k assms(2) by (subst bytesToNative_loop.simps) (simp add: add.commute)
  also have "\<dots> = Some (fold (bytesToNative_turn bytes num_bytes) [Suc k..<num_bytes] (bytesToNative_turn bytes num_bytes k native))"
    using Suc.hyps(2) k(1) by (intro Suc.hyps(1)) simp_all
  finally show ?case
    using k(1) by (simp add: upt_conv_Cons)
qed

lemma uECC_vli_nativeToBytes:
  "num_bytes \<le> uECC_WORD_SIZE * length native \<Longrightarrow>
    uECC_vli_nativeToBytes num_bytes native = (if num_bytes \<le> 127 then Some (native_bytes num_bytes native) else None)"
  using nativeToBytes_loop_ok[of num_bytes native 0] nativeToBytes_loop_overflow[of num_bytes 0 native]
  by (simp add: uECC_vli_nativeToBytes_def native_bytes_def)

lemma uECC_vli_bytesToNative:
  "num_bytes \<le> length bytes \<Longrightarrow>
    uECC_vli_bytesToNative bytes num_bytes = (if num_bytes \<le> 127 then Some (bytes_native bytes num_bytes) else None)"
  using bytesToNative_loop_ok[of num_bytes bytes 0] bytesToNative_loop_overflow[of num_bytes 0 bytes]
  by (simp add: uECC_vli_bytesToNative_def bytes_native_def)


section \<open>Bits\<close>

lemma length_nativeToBytes [simp]: "length (native_bytes n ws) = n"
  by (simp add: native_bytes_def)

lemma bit_nativeToBytes:
  assumes "b < n" "j < 8"
  shows "bit (native_bytes n ws ! (n - 1 - b)) j \<longleftrightarrow> bit (ws ! (b div 8)) (8 * (b mod 8) + j)"
proof -
  have "n - 1 - (n - 1 - b) = b"
    using assms(1) by simp
  then show ?thesis
    using assms by (simp add: native_bytes_def nativeToBytes_turn_def uECC_WORD_SIZE_def bit_simps)
qed

lemma length_bytesToNative_turn [simp]: "length (bytesToNative_turn bytes n i ws) = length ws"
  by (simp add: bytesToNative_turn_def Let_def)

lemma length_bytesToNative_fold: "length (fold (bytesToNative_turn bytes n) is ws) = length ws"
  by (induction "is" arbitrary: ws) simp_all

lemma bit_shifted_byte:
  assumes "j < 8" "k < 8" "m < 8"
  shows "bit (push_bit (8 * m) (ucast byte) :: u64) (8 * k + j) \<longleftrightarrow> k = m \<and> bit (byte :: u8) j"
proof -
  consider "k < m" | "k = m" | "m < k"
    by linarith
  then show ?thesis
  proof cases
    case 3
    then have "\<not> bit byte (8 * k + j - 8 * m)"
      by (auto dest!: bit_imp_le_length)
    then show ?thesis
      using assms 3 by (auto simp: bit_simps)
  qed (use assms in \<open>auto simp: bit_simps\<close>)
qed

text \<open>A byte of the result is written in the turn that has it.\<close>

lemma bit_bytesToNative_turn:
  assumes "i < n" "b < 8 * length ws" "j < 8" "n \<le> 8 * length ws"
  shows "bit (bytesToNative_turn bytes n i ws ! (b div 8)) (8 * (b mod 8) + j) \<longleftrightarrow>
    bit (ws ! (b div 8)) (8 * (b mod 8) + j) \<or> b = n - 1 - i \<and> bit (bytes ! i) j"
proof -
  define c where "c = n - Suc i"
  have c: "c div 8 < length ws" "b div 8 < length ws"
    using assms by (auto simp: c_def less_mult_imp_div_less)
  have eq: "b = c \<longleftrightarrow> b div 8 = c div 8 \<and> b mod 8 = c mod 8"
    by (metis div_mult_mod_eq)
  show ?thesis
  proof (cases "b div 8 = c div 8")
    case True
    then have "bit (bytesToNative_turn bytes n i ws ! (b div 8)) (8 * (b mod 8) + j) \<longleftrightarrow>
        bit (ws ! (b div 8)) (8 * (b mod 8) + j) \<or> bit (push_bit (8 * (c mod 8)) (ucast (bytes ! i)) :: u64) (8 * (b mod 8) + j)"
      using c by (simp add: bytesToNative_turn_def Let_def uECC_WORD_SIZE_def bit_or_iff flip: c_def)
    then show ?thesis
      using True assms(3) eq by (simp add: bit_shifted_byte flip: c_def)
  next
    case False
    then show ?thesis
      using eq by (auto simp: bytesToNative_turn_def Let_def uECC_WORD_SIZE_def simp flip: c_def)
  qed
qed

lemma bit_bytesToNative_fold:
  assumes "k \<le> n" "b < 8 * length ws" "j < 8" "n \<le> 8 * length ws"
  shows "bit (fold (bytesToNative_turn bytes n) [0..<k] ws ! (b div 8)) (8 * (b mod 8) + j) \<longleftrightarrow>
    bit (ws ! (b div 8)) (8 * (b mod 8) + j) \<or> (\<exists>i<k. b = n - 1 - i \<and> bit (bytes ! i) j)"
  using assms(1)
proof (induction k)
  case (Suc k)
  then show ?case
    using assms(2-) by (simp add: bit_bytesToNative_turn length_bytesToNative_fold less_Suc_eq) blast
qed simp

lemma bytesToNative_length: "length (bytes_native bytes n) = (n + 7) div 8"
  by (simp add: bytes_native_def length_bytesToNative_fold uECC_vli_clear_def uECC_WORD_SIZE_def)

lemma bit_bytesToNative:
  assumes "b < 8 * ((n + 7) div 8)" "j < 8"
  shows "bit (bytes_native bytes n ! (b div 8)) (8 * (b mod 8) + j) \<longleftrightarrow> b < n \<and> bit (bytes ! (n - 1 - b)) j"
proof -
  have "b div 8 < (n + 7) div 8"
    using assms(1) by (simp add: less_mult_imp_div_less)
  moreover have "(\<exists>i<n. b = n - 1 - i \<and> bit (bytes ! i) j) \<longleftrightarrow> b < n \<and> bit (bytes ! (n - 1 - b)) j"
    by (auto intro!: exI[of _ "n - 1 - b"])
  moreover have "n \<le> 8 * ((n + 7) div 8)"
    by presburger
  ultimately show ?thesis
    using assms bit_bytesToNative_fold[of n n b "uECC_vli_clear ((n + 7) div 8)" j bytes]
    by (simp add: bytes_native_def uECC_vli_clear_def uECC_WORD_SIZE_def)
qed



section \<open>Round trips and values\<close>

lemma vli_eqI_bytes:
  assumes "length xs = length ys"
    "\<And>b j. b < 8 * length ys \<Longrightarrow> j < 8 \<Longrightarrow>
      bit (xs ! (b div 8)) (8 * (b mod 8) + j) \<longleftrightarrow> bit (ys ! (b div 8)) (8 * (b mod 8) + j)"
  shows "xs = (ys :: vli)"
proof (rule nth_equalityI[OF assms(1)])
  fix i
  assume i: "i < length xs"
  show "xs ! i = ys ! i"
  proof (rule bit_word_eqI)
    fix k
    assume k: "k < LENGTH(64)"
    then have "8 * i + k div 8 < 8 * length ys" "(8 * i + k div 8) div 8 = i" "(8 * i + k div 8) mod 8 = k div 8"
      using i assms(1) by (simp_all add: div_mult_self3)
    then show "bit (xs ! i) k \<longleftrightarrow> bit (ys ! i) k"
      using assms(2)[of "8 * i + k div 8" "k mod 8"] by simp
  qed
qed

lemma bytesToNative_nativeToBytes: "bytes_native (native_bytes n ws) n = ws" if "n = 8 * length ws"
proof (rule vli_eqI_bytes)
  show "length (bytes_native (native_bytes n ws) n) = length ws"
    by (simp add: bytesToNative_length that)
next
  fix b j :: nat
  assume "b < 8 * length ws" "j < 8"
  then show "bit (bytes_native (native_bytes n ws) n ! (b div 8)) (8 * (b mod 8) + j) \<longleftrightarrow>
      bit (ws ! (b div 8)) (8 * (b mod 8) + j)"
    using bit_nativeToBytes[of b n j ws] by (simp add: bit_bytesToNative that)
qed

lemma nativeToBytes_bytesToNative: "native_bytes (length bytes) (bytes_native bytes (length bytes)) = bytes"
proof (rule nth_equalityI)
  fix i
  assume "i < length (native_bytes (length bytes) (bytes_native bytes (length bytes)))"
  then have i: "i < length bytes"
    by simp
  define b where "b = length bytes - 1 - i"
  have b: "b < length bytes" "i = length bytes - 1 - b" "b < 8 * ((length bytes + 7) div 8)"
    using i by (simp_all add: b_def)
  show "native_bytes (length bytes) (bytes_native bytes (length bytes)) ! i = bytes ! i"
  proof (rule bit_word_eqI)
    fix j
    assume "j < LENGTH(8)"
    then show "bit (native_bytes (length bytes) (bytes_native bytes (length bytes)) ! i) j \<longleftrightarrow>
        bit (bytes ! i) j"
      using bit_nativeToBytes[OF b(1)] bit_bytesToNative[OF b(3)] b(1) unfolding b(2) by simp
  qed
qed simp

text \<open>The number the bytes are.\<close>

definition bytes_val :: "u8 list \<Rightarrow> int" where
  "bytes_val bytes = foldl (\<lambda>x byte. 256 * x + uint byte) 0 bytes"

lemma bytes_val_snoc: "bytes_val (bytes @ [byte]) = push_bit 8 (bytes_val bytes) OR uint byte"
proof -
  have "push_bit 8 (bytes_val bytes) AND uint byte = 0"
    by (auto simp: bit_eq_iff bit_simps dest: bit_imp_le_length)
  then show ?thesis
    by (simp add: bytes_val_def push_bit_eq_mult mult.commute flip: disjunctive_add_eq_or)
qed

lemma bit_bytes_val: "bit (bytes_val bytes) (8 * b + j) \<longleftrightarrow> b < length bytes \<and> bit (bytes ! (length bytes - 1 - b)) j" if "j < 8"
proof (induction bytes arbitrary: b rule: rev_induct)
  case Nil
  then show ?case
    by (simp add: bytes_val_def)
next
  case (snoc byte bytes)
  show ?case
  proof (cases b)
    case 0
    then show ?thesis
      using that by (simp add: bytes_val_snoc bit_simps)
  next
    case (Suc b')
    then have "\<not> bit byte (8 * b + j)"
      by (auto dest!: bit_imp_le_length)
    then show ?thesis
      using Suc snoc[of b'] by (auto simp: bytes_val_snoc bit_simps nth_append)
  qed
qed

lemma vli_val_bytesToNative: "vli_val (bytes_native bytes (length bytes)) = bytes_val bytes"
proof (rule bit_eqI)
  fix k :: nat
  define b j where "b = k div 8" and "j = k mod 8"
  have k: "k = 8 * b + j" "j < 8" "k div 64 = b div 8" "k mod 64 = 8 * (b mod 8) + j"
    using mod_mult2_eq[of k 8 8] by (simp_all add: b_def j_def div_mult2_eq)
  show "bit (vli_val (bytes_native bytes (length bytes))) k \<longleftrightarrow> bit (bytes_val bytes) k"
  proof (cases "b div 8 < (length bytes + 7) div 8")
    case True
    then have "b < 8 * ((length bytes + 7) div 8)"
      by linarith
    then show ?thesis
      using True bit_bytes_val[OF k(2), of bytes b] bit_bytesToNative[of b "length bytes" j bytes] k(2)
      by (simp add: bit_vli_val k(3,4) bytesToNative_length flip: k(1))
  next
    case False
    then have "\<not> b < length bytes"
      by linarith
    then show ?thesis
      using False bit_bytes_val[OF k(2), of bytes b] by (simp add: bit_vli_val k(3) bytesToNative_length flip: k(1))
  qed
qed


section \<open>Keys as bytes\<close>

text \<open>C36: The conversions between words and bytes are inverse to each other for up to 127 bytes, and the words are the
  number whose bytes are given with the highest first. From 128 bytes on both are undefined
  behaviour, since the counter of their loops, an int8_t, becomes negative and is an index before the array.\<close>

theorem key_bytes_roundtrip:
  "(if 8 * length ws \<le> 127
    then Option.bind (uECC_vli_nativeToBytes (8 * length ws) ws) (\<lambda>bs. uECC_vli_bytesToNative bs (8 * length ws)) = Some ws
    else uECC_vli_nativeToBytes (8 * length ws) ws = None) \<and>
   (if length bytes \<le> 127
    then Option.bind (uECC_vli_bytesToNative bytes (length bytes)) (uECC_vli_nativeToBytes (length bytes)) = Some bytes \<and>
         map_option vli_val (uECC_vli_bytesToNative bytes (length bytes)) = Some (bytes_val bytes)
    else uECC_vli_bytesToNative bytes (length bytes) = None)"
proof -
  have "length bytes \<le> 8 * ((length bytes + 7) div 8)"
    by presburger
  then show ?thesis
    by (simp add: uECC_vli_nativeToBytes uECC_vli_bytesToNative bytesToNative_nativeToBytes nativeToBytes_bytesToNative
        vli_val_bytesToNative bytesToNative_length uECC_WORD_SIZE_def)
qed

end
