(* ===== verification/Ecc_Keys.thy ===== *)
theory Ecc_Keys
  imports Ecc_Mult Ecc_Bytes
begin

text \<open>
  Keys and shared secrets of \<open>src/lib/ecc/uECC.c\<close>, and the demo that uses them, \<open>src/src/ecdh.c\<close>. The random number
  generator is a parameter: \<open>rng c n\<close> is what the call number \<open>c\<close> leaves in \<open>n\<close> words, or \<open>None\<close> when it fails; the
  number of calls so far is passed on. The functions return \<open>None\<close> only when a loop below them does not end; a return
  value of \<open>0\<close> in C is a \<open>None\<close> inside.
\<close>

unbundle bit_operations_syntax


section \<open>Operations\<close>

type_synonym rng = "nat \<Rightarrow> nat \<Rightarrow> vli option"

definition uECC_RNG_MAX_TRIES :: nat where
  "uECC_RNG_MAX_TRIES = 64"

definition BITS_TO_WORDS :: "nat \<Rightarrow> nat" where
  "BITS_TO_WORDS num_bits = (num_bits + (uECC_WORD_SIZE * 8 - 1)) div (uECC_WORD_SIZE * 8)"

definition BITS_TO_BYTES :: "nat \<Rightarrow> nat" where
  "BITS_TO_BYTES num_bits = (num_bits + 7) div 8"

text \<open>The carry, and the two candidates \<open>k0\<close> and \<open>k1\<close>.\<close>

definition regularize_k :: "uECC_Curve_t \<Rightarrow> vli \<Rightarrow> u64 \<times> vli \<times> vli" where
  "regularize_k curve k =
     (let num_n_words = BITS_TO_WORDS (cu_num_n_bits curve);
          num_n_bits = cu_num_n_bits curve;
          (k0, c) = uECC_vli_add k (cu_n curve);
          carry = c_bool (c \<noteq> 0 \<or> (num_n_bits < num_n_words * uECC_WORD_SIZE * 8 \<and> uECC_vli_testBit k0 num_n_bits \<noteq> 0));
          (k1, _) = uECC_vli_add k0 (cu_n curve)
      in (carry, k0, k1))"

text \<open>\<open>p2[!carry]\<close>.\<close>

definition regular_scalar :: "uECC_Curve_t \<Rightarrow> vli \<Rightarrow> vli" where
  "regular_scalar curve k = (let (carry, k0, k1) = regularize_k curve k in if carry \<noteq> 0 then k0 else k1)"

definition EccPoint_compute_public_key :: "uECC_Curve_t \<Rightarrow> vli \<Rightarrow> vli option option" where
  "EccPoint_compute_public_key curve private_key = do {
     result \<leftarrow> EccPoint_mult curve (cu_G curve) (regular_scalar curve private_key) None (cu_num_n_bits curve + 1);
     Some (if uECC_vli_isZero result \<noteq> 0 then None else Some result)
   }"

fun random_tries :: "rng \<Rightarrow> vli \<Rightarrow> nat \<Rightarrow> nat \<Rightarrow> vli option \<times> nat" where
  "random_tries rng limit 0 c = (None, c)"
| "random_tries rng limit (Suc tries) c =
     (let num_words = length limit;
          num_bits = uECC_vli_numBits limit
      in case rng c num_words of
           None \<Rightarrow> (None, Suc c)
         | Some random \<Rightarrow>
             let random = random[num_words - 1 := random ! (num_words - 1) AND
                   drop_bit (num_words * uECC_WORD_SIZE * 8 - num_bits) (- 1)]
             in if uECC_vli_isZero random = 0 \<and> uECC_vli_cmp limit random = 1 then (Some random, Suc c)
                else random_tries rng limit tries (Suc c))"

definition uECC_generate_random_int :: "rng \<Rightarrow> vli \<Rightarrow> nat \<Rightarrow> vli option \<times> nat" where
  "uECC_generate_random_int rng limit c = random_tries rng limit uECC_RNG_MAX_TRIES c"

fun make_key_tries :: "uECC_Curve_t \<Rightarrow> rng \<Rightarrow> nat \<Rightarrow> nat \<Rightarrow> ((u8 list \<times> u8 list) option \<times> nat) option" where
  "make_key_tries curve rng 0 c = Some (None, c)"
| "make_key_tries curve rng (Suc tries) c =
     (case uECC_generate_random_int rng (cu_n curve) c of
        (None, c) \<Rightarrow> Some (None, c)
      | (Some private, c) \<Rightarrow> do {
          pk \<leftarrow> EccPoint_compute_public_key curve private;
          case pk of
            None \<Rightarrow> make_key_tries curve rng tries c
          | Some public \<Rightarrow> do {
              private_key \<leftarrow> uECC_vli_nativeToBytes (BITS_TO_BYTES (cu_num_n_bits curve)) private;
              x \<leftarrow> uECC_vli_nativeToBytes (cu_num_bytes curve) (take (cu_num_words curve) public);
              y \<leftarrow> uECC_vli_nativeToBytes (cu_num_bytes curve) (drop (cu_num_words curve) public);
              Some (Some (x @ y, private_key), c)
            }
        })"

text \<open>The public key and the private key.\<close>

definition uECC_make_key :: "uECC_Curve_t \<Rightarrow> rng \<Rightarrow> nat \<Rightarrow> ((u8 list \<times> u8 list) option \<times> nat) option" where
  "uECC_make_key curve rng c = make_key_tries curve rng uECC_RNG_MAX_TRIES c"

text \<open>
  The generator is set, so there is always an initial \<open>Z\<close>; it overwrites the candidate that is not used. The result is the
  secret that is stored and the return value.
\<close>

definition uECC_shared_secret ::
  "uECC_Curve_t \<Rightarrow> rng \<Rightarrow> u8 list \<Rightarrow> u8 list \<Rightarrow> nat \<Rightarrow> ((u8 list \<times> bool) option \<times> nat) option" where
  "uECC_shared_secret curve rng public_key private_key c = do {
     let num_bytes = cu_num_bytes curve;
     private \<leftarrow> uECC_vli_bytesToNative private_key (BITS_TO_BYTES (cu_num_n_bits curve));
     x \<leftarrow> uECC_vli_bytesToNative public_key num_bytes;
     y \<leftarrow> uECC_vli_bytesToNative (drop num_bytes public_key) num_bytes;
     let scalar = regular_scalar curve private;
     (case uECC_generate_random_int rng (cu_p curve) c of
        (None, c) \<Rightarrow> Some (None, c)
      | (Some initial_Z, c) \<Rightarrow> do {
          public \<leftarrow> EccPoint_mult curve (x @ y) scalar (Some initial_Z) (cu_num_n_bits curve + 1);
          secret \<leftarrow> uECC_vli_nativeToBytes num_bytes public;
          Some (Some (secret, uECC_vli_isZero public = 0), c)
        })
   }"

definition uECC_valid_point :: "uECC_Curve_t \<Rightarrow> vli \<Rightarrow> u64 option" where
  "uECC_valid_point curve point =
     (let num_words = cu_num_words curve;
          x = take num_words point;
          y = drop num_words point
      in if uECC_vli_isZero point \<noteq> 0 then Some 0
         else if uECC_vli_cmp_unsafe (cu_p curve) x \<noteq> 1 \<or> uECC_vli_cmp_unsafe (cu_p curve) y \<noteq> 1 then Some 0
         else do {
           tmp1 \<leftarrow> uECC_vli_modSquare_fast curve y;
           tmp2 \<leftarrow> x_side_default curve x;
           Some (uECC_vli_equal tmp1 tmp2)
         })"


section \<open>The demo\<close>

definition ECC_KEY_LEN :: nat where
  "ECC_KEY_LEN = 24"

record ecdh_type =
  pub_key :: "u8 list"
  pri_key :: "u8 list"
  secret :: "u8 list"

definition ecdh_zero :: ecdh_type where
  "ecdh_zero = \<lparr>pub_key = replicate (2 * ECC_KEY_LEN) 0, pri_key = replicate ECC_KEY_LEN 0, secret = replicate ECC_KEY_LEN 0\<rparr>"

text \<open>A key pair and a secret are stored where the call succeeds; the demo logs a failure and goes on.\<close>

definition make_key_into :: "rng \<Rightarrow> ecdh_type \<Rightarrow> nat \<Rightarrow> (ecdh_type \<times> nat) option" where
  "make_key_into rng key c = do {
     (ret, c) \<leftarrow> uECC_make_key curve_secp192r1 rng c;
     Some (case ret of None \<Rightarrow> key | Some (pub, pri) \<Rightarrow> key\<lparr>pub_key := pub, pri_key := pri\<rparr>, c)
   }"

definition shared_secret_into :: "rng \<Rightarrow> u8 list \<Rightarrow> ecdh_type \<Rightarrow> nat \<Rightarrow> (ecdh_type \<times> nat) option" where
  "shared_secret_into rng pub key c = do {
     (ret, c) \<leftarrow> uECC_shared_secret curve_secp192r1 rng pub (pri_key key) c;
     Some (case ret of None \<Rightarrow> key | Some (s, _) \<Rightarrow> key\<lparr>secret := s\<rparr>, c)
   }"

text \<open>What \<open>g_ecdh_key1\<close> and \<open>g_ecdh_key2\<close> are at the end, and whether the demo reports success.\<close>

definition ecdh_test :: "rng \<Rightarrow> nat \<Rightarrow> (ecdh_type \<times> ecdh_type \<times> bool) option" where
  "ecdh_test rng c = do {
     let g_ecdh_key1 = ecdh_zero;
     let g_ecdh_key2 = ecdh_zero;
     (g_ecdh_key1, c) \<leftarrow> make_key_into rng g_ecdh_key1 c;
     (g_ecdh_key2, c) \<leftarrow> make_key_into rng g_ecdh_key2 c;
     (g_ecdh_key1, c) \<leftarrow> shared_secret_into rng (pub_key g_ecdh_key2) g_ecdh_key1 c;
     (g_ecdh_key2, c) \<leftarrow> shared_secret_into rng (pub_key g_ecdh_key1) g_ecdh_key2 c;
     Some (g_ecdh_key1, g_ecdh_key2, secret g_ecdh_key1 = secret g_ecdh_key2)
   }"



section \<open>Scalars\<close>

lemma curve_secp192r1_n: "length (cu_n curve_secp192r1) = 3" "2 ^ 191 < vli_val (cu_n curve_secp192r1)"
  "vli_val (cu_n curve_secp192r1) < 2 ^ 192"
  by (simp_all add: curve_secp192r1_def)

lemma curve_secp192r1_simps [simp]:
  "cu_num_words curve_secp192r1 = 3" "cu_num_bytes curve_secp192r1 = 24" "cu_num_n_bits curve_secp192r1 = 192"
  "cu_p curve_secp192r1 = curve_secp192r1_p"
  by (simp_all add: curve_secp192r1_def num_words_secp192r1_def)

lemma regular_scalar_secp192r1:
  assumes "length k = 3" "vli_val k < vli_val (cu_n curve_secp192r1)"
  defines "n \<equiv> vli_val (cu_n curve_secp192r1)"
  shows "2 ^ 192 + vli_val (regular_scalar curve_secp192r1 k) = vli_val k + n \<or>
    2 ^ 192 + vli_val (regular_scalar curve_secp192r1 k) = vli_val k + 2 * n"
    and "length (regular_scalar curve_secp192r1 k) = 3"
proof -
  obtain k0 c0 where 0: "uECC_vli_add k (cu_n curve_secp192r1) = (k0, c0)"
    by fastforce
  obtain k1 c1 where 1: "uECC_vli_add k0 (cu_n curve_secp192r1) = (k1, c1)"
    by fastforce
  have l: "length k = length (cu_n curve_secp192r1)" "length k0 = length (cu_n curve_secp192r1)"
    using assms(1) curve_secp192r1_n(1) uECC_vli_add(1)[OF _ 0] by simp_all
  note a = uECC_vli_add[OF l(1) 0] and b = uECC_vli_add[OF l(2) 1]
  have r: "regular_scalar curve_secp192r1 k = (if vli_val k + n < 2 ^ 192 then k1 else k0)"
    using a(2) assms(1)
    by (auto simp: regular_scalar_def regularize_k_def 0 1 BITS_TO_WORDS_def uECC_WORD_SIZE_def n_def uint_0_iff Let_def
        split: if_splits)
  show "2 ^ 192 + vli_val (regular_scalar curve_secp192r1 k) = vli_val k + n \<or>
      2 ^ 192 + vli_val (regular_scalar curve_secp192r1 k) = vli_val k + 2 * n"
    using a(3) b(3) l assms(1) curve_secp192r1_n(2,3) vli_val_bounds(1)[of k] by (simp add: r n_def)
  show "length (regular_scalar curve_secp192r1 k) = 3"
    using a(1) b(1) l assms(1) by (simp add: r)
qed


section \<open>Random numbers\<close>

lemma random_tries_range:
  assumes "random_tries rng limit tries c = (Some r, c')" "\<And>c n ws. rng c n = Some ws \<Longrightarrow> length ws = n"
  shows "0 < vli_val r" "vli_val r < vli_val limit" "length r = length limit"
proof -
  have "0 < vli_val r \<and> vli_val r < vli_val limit \<and> length r = length limit"
    using assms(1)
  proof (induction tries arbitrary: c)
    case (Suc tries)
    show ?case
    proof (cases "rng c (length limit)")
      case (Some ws)
      then show ?thesis
        using Suc assms(2)[OF Some] vli_val_bounds(1)[of r]
        by (auto simp: Let_def uECC_vli_isZero uECC_vli_cmp sgn_if less_le split: if_splits)
    qed (use Suc.prems in simp)
  qed simp
  then show "0 < vli_val r" "vli_val r < vli_val limit" "length r = length limit"
    by simp_all
qed



section \<open>Validation\<close>

context curve_field
begin

lemma three_elem: "(uECC_vli_clear (cu_num_words curve))[0 := 3] = elem curve 3"
  using words(2) p_gt_3 by (intro elem_eqI) (simp_all add: vli_val_update uECC_vli_clear_def)

lemma x_side_elem: "x_side_default curve (elem curve x) = Some (elem curve ((x * x - 3) * x + b))" if "cu_b curve = elem curve b"
  by (simp add: x_side_default_def three_elem that)

lemma valid_point:
  assumes b: "cu_b curve = elem curve b" and len: "length point = 2 * cu_num_words curve"
  defines "x \<equiv> vli_val (take (cu_num_words curve) point)" and "y \<equiv> vli_val (drop (cu_num_words curve) point)"
  shows "uECC_valid_point curve point =
    Some (c_bool ((x, y) \<noteq> (0, 0) \<and> x < prime \<and> y < prime \<and> y * y mod prime = ((x * x - 3) * x + b) mod prime))"
proof -
  have l: "length (take (cu_num_words curve) point) = cu_num_words curve" "length (drop (cu_num_words curve) point) = cu_num_words curve"
    using len by simp_all
  have "vli_val point = x + base ^ cu_num_words curve * y"
    using vli_val_append[of "take (cu_num_words curve) point" "drop (cu_num_words curve) point"] l(1) by (simp add: x_def y_def)
  moreover have "0 \<le> x" "0 \<le> y"
    by (simp_all add: x_def y_def vli_val_bounds)
  ultimately have z: "vli_val point = 0 \<longleftrightarrow> (x, y) = (0, 0)"
    by (simp add: add_nonneg_eq_0_iff)
  have c: "uECC_vli_cmp_unsafe (cu_p curve) (take (cu_num_words curve) point) = sgn (prime - x)"
    "uECC_vli_cmp_unsafe (cu_p curve) (drop (cu_num_words curve) point) = sgn (prime - y)"
    using l words(1) by (simp_all add: uECC_vli_cmp_unsafe x_def y_def)
  show ?thesis
  proof (cases "(x, y) \<noteq> (0, 0) \<and> x < prime \<and> y < prime")
    case True
    have e: "take (cu_num_words curve) point = elem curve x" "drop (cu_num_words curve) point = elem curve y"
      using elem_of[OF l(1)] elem_of[OF l(2)] True by (simp_all add: x_def y_def)
    have "uECC_valid_point curve point = Some (uECC_vli_equal (elem curve (y * y)) (elem curve ((x * x - 3) * x + b)))"
      using True z c by (simp add: uECC_valid_point_def uECC_vli_isZero Let_def e x_side_elem[OF b] sgn_if)
    then show ?thesis
      using True by (simp add: uECC_vli_equal)
  next
    case False
    then show ?thesis
      using z c by (auto simp: uECC_valid_point_def uECC_vli_isZero Let_def sgn_if c_bool_def)
  qed
qed

end

lemma curve_secp192r1_b: "cu_b curve_secp192r1 = elem curve_secp192r1 (vli_val (cu_b curve_secp192r1))"
  by (rule secp192r1.elem_of) (simp_all add: curve_secp192r1_def curve_secp192r1_p_def num_words_secp192r1_def)


section \<open>Keys\<close>

definition rng_ok :: "rng \<Rightarrow> bool" where
  "rng_ok rng \<longleftrightarrow> (\<forall>c n ws. rng c n = Some ws \<longrightarrow> length ws = n)"

lemma curve_secp192r1_G:
  "cu_G curve_secp192r1 = elem curve_secp192r1 (vli_val (take 3 (cu_G curve_secp192r1))) @
    elem curve_secp192r1 (vli_val (drop 3 (cu_G curve_secp192r1)))"
proof -
  have "take 3 (cu_G curve_secp192r1) = elem curve_secp192r1 (vli_val (take 3 (cu_G curve_secp192r1)))"
    "drop 3 (cu_G curve_secp192r1) = elem curve_secp192r1 (vli_val (drop 3 (cu_G curve_secp192r1)))"
    by (rule secp192r1.elem_of; simp add: curve_secp192r1_def curve_secp192r1_p_def num_words_secp192r1_def)+
  then show ?thesis
    by (metis append_take_drop_id)
qed

lemma bytes_val_nativeToBytes: "bytes_val (native_bytes 24 ws) = vli_val ws" if "length ws = 3"
  using vli_val_bytesToNative[of "native_bytes 24 ws"] bytesToNative_nativeToBytes[of 24 ws] that by simp

text \<open>The conversions of a coordinate and of a private key are defined.\<close>

lemma key_bytes_defined [simp]:
  "3 \<le> length ws \<Longrightarrow> uECC_vli_nativeToBytes 24 ws = Some (native_bytes 24 ws)"
  "24 \<le> length bs \<Longrightarrow> uECC_vli_bytesToNative bs 24 = Some (bytes_native bs 24)"
  "BITS_TO_BYTES 192 = 24"
  by (simp_all add: uECC_vli_nativeToBytes uECC_vli_bytesToNative uECC_WORD_SIZE_def BITS_TO_BYTES_def)

text \<open>A public key whose coordinates are reduced, a private key in the range of the group.\<close>

definition public_ok :: "u8 list \<Rightarrow> bool" where
  "public_ok pub \<longleftrightarrow> length pub = 48 \<and> bytes_val (take 24 pub) < vli_val curve_secp192r1_p \<and>
    bytes_val (drop 24 pub) < vli_val curve_secp192r1_p"

definition private_ok :: "u8 list \<Rightarrow> bool" where
  "private_ok pri \<longleftrightarrow> length pri = 24 \<and> 0 < bytes_val pri \<and> bytes_val pri < vli_val (cu_n curve_secp192r1)"

lemma compute_public_key_returns:
  "\<exists>ret. EccPoint_compute_public_key curve_secp192r1 k = Some ret \<and>
    (\<forall>pubw. ret = Some pubw \<longrightarrow> (\<exists>a b. pubw = elem curve_secp192r1 a @ elem curve_secp192r1 b))"
  using secp192r1.EccPoint_mult_elems[of None "vli_val (take 3 (cu_G curve_secp192r1))" "vli_val (drop 3 (cu_G curve_secp192r1))"
      "regular_scalar curve_secp192r1 k" "cu_num_n_bits curve_secp192r1 + 1"]
  unfolding curve_secp192r1_G[symmetric] by (auto simp: EccPoint_compute_public_key_def)

lemma make_key_tries_returns:
  assumes "rng_ok rng"
  shows "\<exists>ret c'. make_key_tries curve_secp192r1 rng tries c = Some (ret, c') \<and>
    (\<forall>pub pri. ret = Some (pub, pri) \<longrightarrow> public_ok pub \<and> private_ok pri)"
proof (induction tries arbitrary: c)
  case (Suc tries)
  obtain r c1 where r: "uECC_generate_random_int rng (cu_n curve_secp192r1) c = (r, c1)"
    by fastforce
  show ?case
  proof (cases r)
    case (Some priv)
    obtain ret where ret: "EccPoint_compute_public_key curve_secp192r1 priv = Some ret"
      "\<And>pubw. ret = Some pubw \<Longrightarrow> \<exists>a b. pubw = elem curve_secp192r1 a @ elem curve_secp192r1 b"
      using compute_public_key_returns by blast
    have p: "0 < vli_val priv" "vli_val priv < vli_val (cu_n curve_secp192r1)" "length priv = 3"
      using random_tries_range[of rng "cu_n curve_secp192r1" uECC_RNG_MAX_TRIES c priv c1] r Some assms curve_secp192r1_n(1)
      by (auto simp: uECC_generate_random_int_def rng_ok_def)
    show ?thesis
    proof (cases ret)
      case (Some pubw)
      obtain a b where "pubw = elem curve_secp192r1 a @ elem curve_secp192r1 b"
        using ret(2)[OF Some] by blast
      moreover have "x mod vli_val curve_secp192r1_p < vli_val curve_secp192r1_p" for x
        by (simp add: curve_secp192r1_p)
      ultimately show ?thesis
        using ret(1) r p Some \<open>r = Some priv\<close> secp192r1.length_elem secp192r1.vli_val_elem
        by (simp add: public_ok_def private_ok_def bytes_val_nativeToBytes BITS_TO_BYTES_def curve_secp192r1_def num_words_secp192r1_def)
    qed (use Suc.IH ret r \<open>r = Some priv\<close> in simp)
  qed (simp add: r)
qed simp


lemma make_key_returns:
  assumes "rng_ok rng"
  shows "\<exists>ret c'. uECC_make_key curve_secp192r1 rng c = Some (ret, c') \<and>
    (\<forall>pub pri. ret = Some (pub, pri) \<longrightarrow> public_ok pub \<and> private_ok pri)"
  unfolding uECC_make_key_def by (rule make_key_tries_returns[OF assms])

text \<open>The words of such a public key.\<close>

lemma public_words:
  assumes "public_ok pub"
  shows "\<exists>x y. bytes_native pub 24 @ bytes_native (drop 24 pub) 24 =
    elem curve_secp192r1 x @ elem curve_secp192r1 y"
proof -
  have *: "\<exists>x. bytes_native bs 24 = elem curve_secp192r1 x"
    if "length bs = 24" "bytes_val bs < vli_val curve_secp192r1_p" for bs
    using secp192r1.elem_of[of "bytes_native bs 24"] vli_val_bytesToNative[of bs] that
    by (auto simp: bytesToNative_length curve_secp192r1_def num_words_secp192r1_def)
  have "bytes_native pub 24 = bytes_native (take 24 pub) 24"
    by (auto simp: bytes_native_def bytesToNative_turn_def intro!: fold_cong)
  then show ?thesis
    using *[of "take 24 pub"] *[of "drop 24 pub"] assms by (auto simp: public_ok_def)
qed

lemma shared_secret_returns:
  assumes "rng_ok rng" "public_ok pub" "length pri = 24"
  shows "\<exists>ret c'. uECC_shared_secret curve_secp192r1 rng pub pri c = Some (ret, c') \<and>
    (\<forall>s ok. ret = Some (s, ok) \<longrightarrow> length s = 24 \<and> bytes_val s < vli_val curve_secp192r1_p)"
proof -
  obtain x y where w: "bytes_native pub 24 @ bytes_native (drop 24 pub) 24 =
      elem curve_secp192r1 x @ elem curve_secp192r1 y"
    using public_words[OF assms(2)] by blast
  have len: "length pub = 48"
    using assms(2) by (simp add: public_ok_def)
  obtain r c1 where r: "uECC_generate_random_int rng curve_secp192r1_p c = (r, c1)"
    by fastforce
  show ?thesis
  proof (cases r)
    case None
    then show ?thesis
      using assms(3) len by (simp add: uECC_shared_secret_def r Let_def)
  next
    case (Some Z)
    then have "vli_val Z < vli_val (cu_p curve_secp192r1)" "length Z = cu_num_words curve_secp192r1"
      using random_tries_range[of rng curve_secp192r1_p uECC_RNG_MAX_TRIES c Z c1] r assms(1) curve_secp192r1_p(1)
      by (auto simp: uECC_generate_random_int_def rng_ok_def)
    then have "\<exists>z. Some Z = Some (elem curve_secp192r1 z)"
      using secp192r1.elem_of by blast
    then obtain a b where m: "EccPoint_mult curve_secp192r1 (elem curve_secp192r1 x @ elem curve_secp192r1 y)
        (regular_scalar curve_secp192r1 (bytes_native pri 24)) (Some Z) (192 + 1) =
        Some (elem curve_secp192r1 a @ elem curve_secp192r1 b)"
      using secp192r1.EccPoint_mult_elems[of "Some Z" x y] by blast
    have "native_bytes 24 (elem curve_secp192r1 a @ elem curve_secp192r1 b) =
        native_bytes 24 (elem curve_secp192r1 a)"
      by (auto simp: native_bytes_def nativeToBytes_turn_def uECC_WORD_SIZE_def nth_append secp192r1.length_elem Let_def
          less_mult_imp_div_less)
    then have "bytes_val (native_bytes 24 (elem curve_secp192r1 a @ elem curve_secp192r1 b)) < vli_val curve_secp192r1_p"
      using secp192r1.vli_val_elem[of a] by (simp add: bytes_val_nativeToBytes secp192r1.length_elem curve_secp192r1_p)
    then show ?thesis
      using m assms(3) len by (simp add: uECC_shared_secret_def r Let_def Some w secp192r1.length_elem)
  qed
qed


section \<open>The demo ends\<close>

lemma public_ok_zero: "public_ok (replicate 48 0)"
proof -
  have "bytes_val (replicate n 0) = 0" for n
    by (induction n) (simp_all add: bytes_val_def)
  then show ?thesis
    by (simp add: public_ok_def curve_secp192r1_p)
qed

lemma make_key_into_returns:
  assumes "rng_ok rng" "public_ok (pub_key key)" "length (pri_key key) = 24"
  shows "\<exists>key' c'. make_key_into rng key c = Some (key', c') \<and> public_ok (pub_key key') \<and> length (pri_key key') = 24 \<and>
    secret key' = secret key"
proof -
  obtain ret c' where r: "uECC_make_key curve_secp192r1 rng c = Some (ret, c')"
    "\<And>pub pri. ret = Some (pub, pri) \<Longrightarrow> public_ok pub \<and> private_ok pri"
    using make_key_returns[OF assms(1)] by blast
  then show ?thesis
    using assms(2,3) by (cases ret) (auto simp: make_key_into_def private_ok_def)
qed

lemma shared_secret_into_returns:
  assumes "rng_ok rng" "public_ok pub" "length (pri_key key) = 24" "length (secret key) = 24"
  shows "\<exists>key' c'. shared_secret_into rng pub key c = Some (key', c') \<and> pub_key key' = pub_key key \<and> length (secret key') = 24"
proof -
  obtain ret c' where r: "uECC_shared_secret curve_secp192r1 rng pub (pri_key key) c = Some (ret, c')"
    "\<And>s ok. ret = Some (s, ok) \<Longrightarrow> length s = 24 \<and> bytes_val s < vli_val curve_secp192r1_p"
    using shared_secret_returns[OF assms(1-3)] by blast
  then show ?thesis
    using assms(4) by (cases ret) (auto simp: shared_secret_into_def)
qed

lemma ecdh_test_returns:
  assumes "rng_ok rng"
  shows "\<exists>key1 key2 ok. ecdh_test rng c = Some (key1, key2, ok) \<and> length (secret key1) = 24 \<and> length (secret key2) = 24"
proof -
  have z: "public_ok (pub_key ecdh_zero)" "length (pri_key ecdh_zero) = 24" "length (secret ecdh_zero) = 24"
    using public_ok_zero by (simp_all add: ecdh_zero_def ECC_KEY_LEN_def)
  obtain k1 c1 where 1: "make_key_into rng ecdh_zero c = Some (k1, c1)" "public_ok (pub_key k1)" "length (pri_key k1) = 24"
    "length (secret k1) = 24"
    using make_key_into_returns[OF assms z(1,2)] z(3) by metis
  obtain k2 c2 where 2: "make_key_into rng ecdh_zero c1 = Some (k2, c2)" "public_ok (pub_key k2)" "length (pri_key k2) = 24"
    "length (secret k2) = 24"
    using make_key_into_returns[OF assms z(1,2)] z(3) by metis
  obtain k1' c3 where 3: "shared_secret_into rng (pub_key k2) k1 c2 = Some (k1', c3)" "pub_key k1' = pub_key k1" "length (secret k1') = 24"
    using shared_secret_into_returns[OF assms 2(2) 1(3,4)] by metis
  obtain k2' c4 where 4: "shared_secret_into rng (pub_key k1') k2 c3 = Some (k2', c4)" "length (secret k2') = 24"
    using shared_secret_into_returns[OF assms _ 2(3,4), of "pub_key k1'"] 1(2) 3(2) by metis
  show ?thesis
    using 3(3) 4(2) by (simp add: ecdh_test_def 1(1) 2(1) 3(1) 4(1) Let_def)
qed

text \<open>
  A failure is only logged: when the generator always fails, no key is made and no secret is computed, the two secrets keep
  their zeros, and the demo reports that they are equal.
\<close>

lemma random_fails [simp]: "uECC_generate_random_int (\<lambda>c n. None) limit c = (None, Suc c)"
  by (simp add: uECC_generate_random_int_def uECC_RNG_MAX_TRIES_def numeral_eq_Suc)

theorem ecdh_test_false_success: "ecdh_test (\<lambda>c n. None) c = Some (ecdh_zero, ecdh_zero, True)"
proof -
  have "make_key_into (\<lambda>c n. None) key c = Some (key, Suc c)" for key c
    by (simp add: make_key_into_def uECC_make_key_def uECC_RNG_MAX_TRIES_def numeral_eq_Suc)
  moreover have "shared_secret_into (\<lambda>c n. None) (pub_key ecdh_zero) ecdh_zero c = Some (ecdh_zero, Suc c)" for c
    by (simp add: shared_secret_into_def uECC_shared_secret_def ecdh_zero_def ECC_KEY_LEN_def Let_def)
  ultimately show ?thesis
    by (simp add: ecdh_test_def Let_def)
qed


section \<open>Properties\<close>

text \<open>C37: uECC_valid_point on the curve secp192r1 returns for every array of six words, and accepts it exactly when it is not
  zero, both coordinates are reduced and the equation of the curve holds modulo the prime.\<close>

theorem uECC_valid_point_iff:
  assumes "length point = 6"
  shows "uECC_valid_point curve_secp192r1 point =
    (let x = vli_val (take 3 point); y = vli_val (drop 3 point); b = vli_val (cu_b curve_secp192r1); p = vli_val curve_secp192r1_p
     in Some (c_bool ((x, y) \<noteq> (0, 0) \<and> x < p \<and> y < p \<and> y\<^sup>2 mod p = (x ^ 3 - 3 * x + b) mod p)))"
  using secp192r1.valid_point[OF curve_secp192r1_b, of point] assms
  by (simp add: Let_def power2_eq_square power3_eq_cube left_diff_distrib)

lemma uECC_valid_point_iff_witness: "uECC_valid_point curve_secp192r1 (cu_G curve_secp192r1) = Some 1"
  using uECC_valid_point_iff[of "cu_G curve_secp192r1"]
  by (simp add: curve_secp192r1_def curve_secp192r1_p_def c_bool_def)

text \<open>C19: uECC_make_key on secp192r1 returns, whatever the random number generator answers; when it makes a key, the private
  key is 24 bytes for a number between 1 and the order of the group, and the public key 48 bytes for two coordinates
  below the prime.\<close>

theorem uECC_make_key_typed:
  assumes "rng_ok rng"
  shows "\<exists>ret c'. uECC_make_key curve_secp192r1 rng c = Some (ret, c') \<and>
    (\<forall>pub pri. ret = Some (pub, pri) \<longrightarrow> public_ok pub \<and> private_ok pri)"
  by (rule make_key_returns[OF assms])

lemma uECC_make_key_typed_witness:
  "\<exists>ret c'. uECC_make_key curve_secp192r1 (\<lambda>c n. Some (replicate n 1)) 0 = Some (ret, c') \<and>
    (\<forall>pub pri. ret = Some (pub, pri) \<longrightarrow> public_ok pub \<and> private_ok pri)"
  using uECC_make_key_typed[of "\<lambda>c n. Some (replicate n 1)" 0] by (simp add: rng_ok_def)

text \<open>C38: The ECDH demo ends, whatever the random number generator answers: all loops of the library under it return, and the two
  secrets have the length of a key.\<close>

theorem ecdh_test_terminates:
  assumes "rng_ok rng"
  shows "\<exists>key1 key2 ok. ecdh_test rng c = Some (key1, key2, ok) \<and> length (secret key1) = ECC_KEY_LEN \<and> length (secret key2) = ECC_KEY_LEN"
  using ecdh_test_returns[OF assms] by (simp add: ECC_KEY_LEN_def)

lemma ecdh_test_terminates_witness:
  "\<exists>key1 key2 ok. ecdh_test (\<lambda>c n. Some (replicate n 1)) 0 = Some (key1, key2, ok) \<and>
    length (secret key1) = ECC_KEY_LEN \<and> length (secret key2) = ECC_KEY_LEN"
  using ecdh_test_terminates[of "\<lambda>c n. Some (replicate n 1)" 0] by (simp add: rng_ok_def)

end
