(* ===== verification/Spec2Isabelle.thy ===== *)
theory Spec2Isabelle
  imports Cycle_Queue Array_List Binary_Heap Hash_Set Bloom_Filter SList Queue AVL_Height Trie_Free
    Binomial_Correct Pthread_Live Timer_Events Message_Live Select_Server Diagnostics Vli_K1 Ecc_Keys
begin

text \<open>
  A verification library for base_code, a collection of C building blocks: the generic containers
  of \<open>src/src/comm\<close>, the ring buffer of \<open>src/src/data_struct\<close>, the event handling programs of
  \<open>src/src\<close> that use them, and the elliptic curve library \<open>src/lib/ecc\<close> under the ECDH demo.

  \<^bold>\<open>The program and its parts.\<close>

  \<^item> Keys and values. \<open>compare-int.c\<close>, \<open>compare-pointer.c\<close>, \<open>compare-string.c\<close>, \<open>hash-int.c\<close>,
    \<open>hash-pointer.c\<close> and \<open>hash-string.c\<close> are the functions that callers hand to the containers. Theories
    \<open>Compare\<close> and \<open>Hash_Funcs\<close>; the contracts that the containers rely on are the locales
    \<open>comparator\<close>, \<open>bounded_comparator\<close> and \<open>hash_equal\<close>, interpreted for these functions.
  \<^item> Arrays. \<open>arraylist.c\<close> (\<open>Array_List\<close>: growth, insertion, removal, search and quicksort),
    \<open>binary-heap.c\<close> (\<open>Binary_Heap\<close>), \<open>bloom-filter.c\<close> (\<open>Bloom_Filter\<close>), and the ring buffer
    \<open>cycle_queue.c\<close> (\<open>Cycle_Queue\<close>).
  \<^item> Chained tables. \<open>hash-table.c\<close> and \<open>set.c\<close> share the loops over buckets of \<open>Buckets\<close>;
    \<open>Hash_Table\<close> and \<open>Hash_Set\<close> have their operations.
  \<^item> Linked structures on an explicit heap. \<open>Pointer_Lists\<close> has pointers, dereferencing and free;
    \<open>List_Loops\<close> and \<open>Linked_Lists\<close> the loops and iterators that \<open>slist.c\<close> (\<open>SList\<close>),
    \<open>list.c\<close> (\<open>DList\<close>) and \<open>queue.c\<close> (\<open>Queue\<close>) share.
  \<^item> Trees on an explicit heap. \<open>avl-tree.c\<close>: \<open>AVL_Tree\<close> has the operations, \<open>AVL_Shape\<close> the
    balanced trees they implement, \<open>AVL_Heap\<close> and \<open>AVL_Ops\<close> the representation and the rotations,
    \<open>AVL_Correct\<close> the theorems, \<open>AVL_Height\<close> the bound of the height over sequences of operations. \<open>trie.c\<close>: \<open>Trie\<close> (operations), \<open>Trie_Shape\<close>, \<open>Trie_Loops\<close>,
    \<open>Trie_Correct\<close> and \<open>Trie_Free\<close>. \<open>binomial-heap.c\<close>: \<open>Binomial_Heap\<close> (operations with
    reference counts), \<open>Binomial_Counts\<close>, \<open>Binomial_Merge\<close>, \<open>Binomial_Loop\<close>, \<open>Binomial_Adder\<close> and
    \<open>Binomial_Correct\<close>.
  \<^item> Programs. \<open>epoll.c\<close> (\<open>Epoll\<close>) keeps its epoll instances in a list of \<open>list.c\<close> and the control
    blocks of each instance in a table of \<open>hash-table.c\<close> with the functions of \<open>hash-int.c\<close> and
    \<open>compare-int.c\<close>, and is built on the models of those. \<open>timer_posix.c\<close> (\<open>Timer_Posix\<close>) registers
    timers there; \<open>Timer_Events\<close> has its callback, run by the event loop of \<open>epoll.c\<close>, and its examples.
    \<open>pthread_cond.c\<close> (\<open>Pthread_Cond\<close>, \<open>Pthread_Live\<close>) is a producer and two
    consumers with a mutex and a condition variable, \<open>ipc/mq.c\<close> (\<open>Message_Queue\<close>, \<open>Message_Live\<close>) a
    producer and a consumer with a POSIX message queue and its notification signal, and \<open>select/server.c\<close> with
    \<open>select/client.c\<close> (\<open>Select_Server\<close>) a server that serves its clients through select. \<open>Diagnostics\<close> has the text
    helpers of \<open>main.c\<close>, \<open>debug.c\<close>, \<open>backtrace.c\<close> and \<open>base.c\<close>.
  \<^item> Elliptic curves, \<open>lib/ecc/uECC.c\<close> with \<open>curve-specific.inc\<close>, as built for 64-bit words. \<open>Vli\<close> has the very long
    integers (addition, subtraction, comparison, shift, bits), \<open>Vli_Mult\<close> the multiplication by columns,
    \<open>Vli_Mod\<close> the reduction by shifting and subtracting, \<open>Vli_Inv\<close> the modular inverse, \<open>Vli_Fast\<close> and
    \<open>Vli_K1\<close> the fast reductions of the curves secp192r1 and secp256k1, \<open>Ecc_Field\<close> the arithmetic in the field of a curve,
    \<open>Ecc_Points\<close> the addition and doubling of points, \<open>Ecc_Mult\<close> the scalar multiplication by Montgomery's
    ladder, \<open>Ecc_Bytes\<close> the conversion to bytes with its 8-bit loop counter, and \<open>Ecc_Keys\<close> key generation, shared secrets and the demo
    \<open>ecdh.c\<close>.

  \<^bold>\<open>Conventions\<close> (\<open>Prelude\<close>). An operation is a function into \<open>'a option\<close>: \<open>None\<close> is undefined
  behaviour or a loop that does not end, an error return of the source is a value. So each
  theorem of the form \<open>f x = Some r\<close> includes that the call returns. Signed arithmetic goes through
  \<open>c_int\<close>, unsigned arithmetic is on words. A struct is a record, a pointer an address option, a
  heap a partial map; operations that allocate take the results of malloc as arguments, so that
  theorems cover failed allocations too. Loops over pointers are \<open>partial_function (option)\<close>, loops
  over arrays \<open>function\<close> with a measure. There is no fuel in the models; the number of steps in
  \<open>drain\<close> and \<open>ht_iter_values\<close> is the number of elements, which the theorems show to be enough.
  Calls of functions that a container was given for freeing keys and values are recorded as events.

  \<^bold>\<open>Interfaces\<close> (\<open>Interfaces\<close>, \<open>Machines\<close>). \<open>priority_queue\<close> is the contract of both heaps and
  gives that draining a heap sorts; \<open>map_store\<close> and \<open>map_machine\<close> are maps under sequences of updates, for
  the hash table and the trie; \<open>deque\<close> is the contract of the queue; \<open>sorted_container\<close> that of the AVL
  tree; \<open>invariant_of\<close> an invariant of a step relation, for the threads and the select server, and \<open>lasso_run\<close> an
  infinite run that repeats a cycle. \<open>curve_field\<close> (\<open>Ecc_Field\<close>) is what the point operations rely on in a curve: an odd
  prime of at most four words and a reduction that computes the residue; the laws of the field operations, the point
  formulas and the ladder are proved in it. Each is interpreted on the models, and the theorems about sequences of
  operations come from it.

  \<^bold>\<open>What is shown.\<close> For every container: each operation keeps the representation invariant, has
  the result of the corresponding operation on lists, multisets, sets or maps, leaves the rest of the
  heap alone, and on a failed allocation returns its error value and undoes what it had done (the
  rollback of \<open>trie_insert\<close>, the undo of \<open>binomial_heap_merge\<close>). Balance and height of AVL trees, the
  order of heaps, sortedness and termination of the quicksorts, that free functions release every block
  exactly once. \<open>Cycle_Queue\<close>: writes and reads below the wrap, and that a write over the end loses a
  byte. \<open>Epoll\<close> and \<open>Timer_Posix\<close>: every pointer that the kernel holds is an allocated control block,
  provided that the stored keys can still be read, and where the code breaks this: the keys of the hash tables are addresses of
  parameters of calls that have returned, and every theorem of \<open>Epoll\<close>, \<open>Timer_Posix\<close> and \<open>Timer_Events\<close> about registered
  descriptors has the hypothesis that the memory there still holds the descriptor. \<open>Pthread_Cond\<close>: mutual
  exclusion, that the output is that of a sequential counter, and that in a fair run all
  products are consumed. \<open>Message_Queue\<close> and \<open>Message_Live\<close>: no message is lost, reordered or cut, and in a fair run
  every message is received, as long as the consumer opens the queue of this run and the signal set is still alive.
  \<open>Timer_Events\<close>: the event loop never touches a freed control block and removes the one-shot timers it has handled.
  \<open>Select_Server\<close>: the watched descriptors are the open connections, no closed one is used, and each client prints the
  answers to its own bytes in order, as long as the server runs; after its end reads of the clients fail and no client is
  blocked. The long integers compute the arithmetic of the
  integers they stand for, with every carry; the inverse and the fast reduction return; the reduction of secp256k1 is
  wrong on a set of products that is described exactly. Scalar multiplication refines the ladder on points by chords and
  tangents; the associativity of the group of the curve, which would turn this into a multiple of the point, is not part of
  the development. This theory adds that the five ways to sort agree.

  \<^bold>\<open>Not modelled.\<close> \<open>src/lib/openssl\<close> and \<open>src/gtest\<close> are third-party code, and \<open>encrypt_aes.c\<close> only calls into
  openssl. Of \<open>src/lib/ecc\<close>, which is third-party code too, the parts that the demo does not reach are left out: the
  signatures, compressed points, the curves secp160r1, secp224r1 and secp256r1, the doubling of secp256k1, and the code for
  words of 8 and 32 bits. \<open>ipc/event_fd.c\<close> and the signal handlers of \<open>backtrace.c\<close> are sequences
  of system calls without state of their own; \<open>setjmp.c\<close> shows the control transfer of longjmp and nothing
  else. In \<open>ipc/mq.c\<close> the polling consumer is compiled out and \<open>TestMqProcess\<close> is empty; of \<open>timer_posix.c\<close> only
  \<open>timer_test\<close>, which starts the threads, and of \<open>debug.c\<close> the variadic \<open>debug_print\<close> are left out.
\<close>


section \<open>Sorting\<close>

text \<open>A list sorted by an antisymmetric relation is determined by its elements.\<close>

lemma sorted_wrt_unique:
  assumes "\<And>x y. R x y \<Longrightarrow> R y x \<Longrightarrow> x = y" "sorted_wrt R xs" "sorted_wrt R ys" "mset xs = mset ys"
  shows "xs = ys"
  using assms(2-4)
proof (induction xs arbitrary: ys)
  case (Cons x xs)
  then obtain y ys' where ys: "ys = y # ys'"
    by (cases ys) auto
  have "x = y"
  proof (rule ccontr)
    assume "x \<noteq> y"
    moreover have "x \<in> set ys" "y \<in> set (x # xs)"
      using Cons.prems(3) ys by (metis list.set_intros(1) set_mset_mset)+
    ultimately have "R x y" "R y x"
      using Cons.prems(1,2) ys by auto
    then show False
      using assms(1) \<open>x \<noteq> y\<close> by blast
  qed
  then show ?case
    using Cons ys by simp
qed simp

text \<open>C26: The five sorting procedures agree. For a total order on values, quicksort on an arraylist,
  the quicksorts that relink a singly and a doubly linked list, and inserting everything into a
  binary or a binomial min-heap and popping until it is empty, give the same list.\<close>

theorem sorting_routines_agree:
  assumes f: "bounded_comparator f" and anti: "\<And>x y. f x y = 0 \<Longrightarrow> x = y"
    and al: "al_rep al vs" and sl: "slist hs ps as" "values_at hs as = vs"
    and dl: "dlist hl pl bs" "dvalues hl bs = vs" and len: "length vs \<le> 2 ^ 30"
    and bn: "binomial_heap_new True BINOMIAL_HEAP_TYPE_MIN f = Some bheap"
  shows "\<exists>ws al' hs' ps' as' hl' pl' bs' h0 h h' st st'.
    arraylist_sort al f = Some al' \<and> al_rep al' ws \<and>
    slist_sort hs ps f = Some (hs', ps') \<and> slist hs' ps' as' \<and> values_at hs' as' = ws \<and>
    list_sort hl pl f = Some (hl', pl') \<and> dlist hl' pl' bs' \<and> dvalues hl' bs' = ws \<and>
    binary_heap_new True True BINARY_HEAP_TYPE_MIN f = Some h0 \<and> binary_heap_insert_all vs h0 = Some h \<and>
    drain binary_heap_pop (length vs) h = Some (ws, h') \<and>
    bp_insert_all vs (Map.empty, bheap, 0) = Some st \<and> drain bp_pop (length vs) st = Some (ws, st')"
proof -
  let ?R = "\<lambda>x y. f x y \<le> 0"
  have c: "comparator f"
    using f by (simp add: bounded_comparator_def)
  have R: "?R x y \<Longrightarrow> ?R y x \<Longrightarrow> x = y" for x y
    using comparator.cmp_swap[OF c, of x y] anti[of x y] by linarith
  obtain al' ws where 1: "arraylist_sort al f = Some al'" "al_rep al' ws" "mset ws = mset vs" "sorted_wrt ?R ws"
    using arraylist_sort_ok[OF c al] by blast
  have same: "us = ws" if "sorted_wrt ?R us" "mset us = mset vs" for us
    using sorted_wrt_unique[of ?R us ws] R that 1(3,4) by simp
  obtain e hs' ps' as' where 2: "slist_sort hs ps f = Some (hs', ps')" "slist hs' ps' as'"
    "sorted_wrt ?R (values_at hs' as')" "mset (values_at hs' as') = mset vs"
    using sls.srt_spec[OF c sl(1)] sl(2) by (fastforce simp: slist_sort_def)
  obtain hl' pl' bs' where 3: "list_sort hl pl f = Some (hl', pl')" "dlist hl' pl' bs'"
    "sorted_wrt ?R (dvalues hl' bs')" "mset (dvalues hl' bs') = mset vs"
    using dls.srt_spec[OF c dl(1)] dl(2) by (fastforce simp: list_sort_def)
  obtain h0 h h' us where 4: "binary_heap_new True True BINARY_HEAP_TYPE_MIN f = Some h0"
    "binary_heap_insert_all vs h0 = Some h" "drain binary_heap_pop (length vs) h = Some (us, h')"
    "mset us = mset vs" "sorted_wrt ?R us"
    using binary_heap_sorts[OF f len, of BINARY_HEAP_TYPE_MIN] by auto
  have "int (length vs) \<le> INT_MAX"
    using len by (simp add: c_int_bounds)
  moreover have "bp_order bheap = f"
    using bn by (auto simp: binomial_heap_new_def bp_order_def)
  ultimately obtain st us' st' where 5: "bp_insert_all vs (Map.empty, bheap, 0) = Some st"
    "drain bp_pop (length vs) st = Some (us', st')" "mset us' = mset vs" "sorted_wrt ?R us'"
    using binomial_heap_sorts_ok[OF f bn, of vs] by auto
  show ?thesis
    using 1 2 3 4 5 same[OF 2(3,4)] same[OF 3(3,4)] same[OF 4(5,4)] same[OF 5(4,3)] by blast
qed

definition example_sheap :: "int sheap" where
  "example_sheap = [1 \<mapsto> \<lparr>sl_data = 30, sl_next = Some 2\<rparr>, 2 \<mapsto> \<lparr>sl_data = 10, sl_next = None\<rparr>]"

definition example_dheap :: "int dheap" where
  "example_dheap = [1 \<mapsto> \<lparr>dl_data = 30, dl_prev = None, dl_next = Some 2\<rparr>,
     2 \<mapsto> \<lparr>dl_data = 10, dl_prev = Some 1, dl_next = None\<rparr>]"

theorem sorting_routines_agree_witness:
  "\<exists>ws al' hs' ps' as'. arraylist_sort al_demo int_compare = Some al' \<and> al_rep al' ws \<and>
     slist_sort example_sheap (Some 1) int_compare = Some (hs', ps') \<and> slist hs' ps' as' \<and> values_at hs' as' = ws"
proof -
  have anti: "int_compare x y = 0 \<Longrightarrow> x = y" for x y
    by (auto simp: int_compare_def split: if_splits)
  have sl: "slist example_sheap (Some 1) [1, 2]" "values_at example_sheap [1, 2] = [30, 10]"
    by (simp_all add: example_sheap_def)
  have dl: "dlist example_dheap (Some 1) [1, 2]" "dvalues example_dheap [1, 2] = [30, 10]"
    by (simp_all add: example_dheap_def)
  have bn: "binomial_heap_new True BINOMIAL_HEAP_TYPE_MIN int_compare =
      Some \<lparr>bp_heap_type = BINOMIAL_HEAP_TYPE_MIN, bp_compare_func = int_compare, bp_num_values = 0, bp_roots = [],
        bp_roots_length = 0\<rparr>"
    by (simp add: binomial_heap_new_def)
  have len: "length [30 :: int, 10] \<le> 2 ^ 30" by simp
  show ?thesis
    using sorting_routines_agree[OF int_cmp.bounded_comparator_axioms anti al_demo_rep sl dl len bn] by blast
qed

end
